(* ===== verification/Octf_Prelude.thy ===== *)
theory Octf_Prelude
  imports Main "HOL-Library.Word"
begin

section \<open>Prelude: machine integers, faults and shared automation\<close>

text \<open>
  What every component of the model shares: names for the fixed-width integers of the C++
  code, the faults an operation can end in, sequencing of fallible operations, and generic
  lemmas on words and sorted lists.

  A fallible operation returns a value of \<open>'a res\<close>: \<open>Inl\<close> of a fault or \<open>Inr\<close> of
  its result. \<open>Octf_Exception\<close> is a C++ \<open>octf::Exception\<close> with its message,
  \<open>Invalid_Parameter\<close> the subclass \<open>InvalidParameterException\<close>. \<open>Undefined_Behaviour\<close>
  marks a point at which the C++ program has no defined behaviour (a read past the end of a
  vector, a null dereference, a use after free): the model stops there, so a theorem that an
  operation returns \<open>Inr\<close> also says that it never reaches such a point. \<open>No_Return\<close> is a
  loop that runs forever.
\<close>

type_synonym u8 = "8 word"
type_synonym u32 = "32 word"
type_synonym u64 = "64 word"

datatype fault =
    Octf_Exception string
  | Invalid_Parameter string
  | Undefined_Behaviour string
  | No_Return

type_synonym 'a res = "fault + 'a"

definition and_then :: "'a res \<Rightarrow> ('a \<Rightarrow> 'b res) \<Rightarrow> 'b res" where
  "and_then m f = (case m of Inl e \<Rightarrow> Inl e | Inr x \<Rightarrow> f x)"

lemma and_then_simps [simp]:
  "and_then (Inl e) f = Inl e"
  "and_then (Inr x) f = f x"
  by (simp_all add: and_then_def)

lemma and_then_Inr_iff:
  "and_then m f = Inr y \<longleftrightarrow> (\<exists>x. m = Inr x \<and> f x = Inr y)"
  by (cases m) auto

lemma and_then_Inl_iff:
  "and_then m f = Inl e \<longleftrightarrow> m = Inl e \<or> (\<exists>x. m = Inr x \<and> f x = Inl e)"
  by (cases m) auto

named_theorems u64_arith \<open>facts that move 64-bit arithmetic to \<open>nat\<close>\<close>

subsection \<open>64-bit arithmetic without wrap-around\<close>

lemma unat_u64_bound [simp]: "unat (x :: u64) < 18446744073709551616"
  using unsigned_less [of x] by simp

definition no_wrap :: "u64 \<Rightarrow> u64 \<Rightarrow> bool" where
  "no_wrap a b \<longleftrightarrow> unat a + unat b < 2 ^ 64"

lemma u64_add_no_wrap [u64_arith]: "no_wrap a b \<Longrightarrow> unat (a + b) = unat a + unat b"
  by (simp add: no_wrap_def unat_word_ariths)

lemma u64_sub_no_wrap [u64_arith]:
  fixes a b :: u64
  assumes "b \<le> a"
  shows "unat (a - b) = unat a - unat b"
  using assms by (rule unat_sub)

lemma u64_mult_no_wrap [u64_arith]:
  fixes a b :: u64
  assumes "unat a * unat b < 2 ^ 64"
  shows "unat (a * b) = unat a * unat b"
  using assms by (simp add: unat_word_ariths)

lemma u64_div [u64_arith]:
  fixes a b :: u64
  shows "unat (a div b) = unat a div unat b"
  by (rule unat_div)

lemma u64_less_add: "no_wrap a b \<Longrightarrow> b \<noteq> 0 \<Longrightarrow> a < a + b"
  by (simp add: word_less_nat_alt u64_add_no_wrap unat_gt_0)

lemma u64_le_add: "no_wrap a b \<Longrightarrow> a \<le> a + b"
  by (simp add: word_le_nat_alt u64_add_no_wrap)

lemma unat_ucast_u32 [simp]: "unat (ucast (x :: u32) :: u64) = unat x"
proof -
  have "unat x < 2 ^ 32" using unsigned_less [of x] by simp
  then have "unat x < 2 ^ LENGTH(64)" by simp
  then show ?thesis by (simp add: unsigned_ucast_eq take_bit_nat_eq_self)
qed

lemma ucast_u32_eq_0 [simp]: "(ucast (x :: u32) :: u64) = 0 \<longleftrightarrow> x = 0"
  by (simp add: word_unat_eq_iff)

subsection \<open>Intervals of words\<close>

lemma unat_image_atLeastLessThan:
  fixes a b :: u64
  shows "unat ` {a..<b} = {unat a..<unat b}"
proof
  show "unat ` {a..<b} \<subseteq> {unat a..<unat b}"
    by (auto simp: word_le_nat_alt word_less_nat_alt)
  show "{unat a..<unat b} \<subseteq> unat ` {a..<b}"
  proof
    fix n assume n: "n \<in> {unat a..<unat b}"
    then have "n < unat b" by simp
    then have lt: "n < 18446744073709551616" by (rule less_trans [OF _ unat_u64_bound])
    then have "unat (of_nat n :: u64) = n" by (simp add: unat_of_nat)
    with n show "n \<in> unat ` {a..<b}"
      by (auto intro!: image_eqI [where x = "of_nat n"] simp: word_le_nat_alt word_less_nat_alt)
  qed
qed

lemma card_u64_interval:
  fixes a b :: u64
  shows "card {a..<b} = unat b - unat a"
proof -
  have "card {a..<b} = card (unat ` {a..<b})"
    by (rule card_image [symmetric]) (auto simp: inj_on_def intro: word_unat_eq_iff [THEN iffD2])
  then show ?thesis by (simp add: unat_image_atLeastLessThan)
qed

lemma finite_u64_set [simp]: "finite (A :: u64 set)"
  by simp

lemma card_u64_le_max:
  fixes A :: "u64 set"
  assumes "\<And>x. x \<in> A \<Longrightarrow> x < m"
  shows "card A \<le> unat m"
proof -
  have "A \<subseteq> {0..<m}" using assms by auto
  then have "card A \<le> card {0..<m}" by (intro card_mono) auto
  then show ?thesis by (simp add: card_u64_interval)
qed

subsection \<open>Little-endian bytes\<close>

primrec le_bytes :: "nat \<Rightarrow> nat \<Rightarrow> u8 list" where
  "le_bytes 0 x = []"
| "le_bytes (Suc n) x = of_nat x # le_bytes n (x div 256)"

primrec le_value :: "u8 list \<Rightarrow> nat" where
  "le_value [] = 0"
| "le_value (b # bs) = unat b + 256 * le_value bs"

lemma le_value_bytes: "le_value (le_bytes n x) = x mod 256 ^ n"
proof (induction n arbitrary: x)
  case (Suc n)
  have "unat (of_nat x :: u8) = x mod 256" by (simp add: unat_of_nat)
  then show ?case using Suc by (simp add: mod_mult2_eq)
qed simp

lemma length_le_bytes [simp]: "length (le_bytes n x) = n"
  by (induction n arbitrary: x) simp_all

subsection \<open>Lists sorted by a relation\<close>

lemma sorted_wrt_takeWhile: "sorted_wrt R xs \<Longrightarrow> sorted_wrt R (takeWhile P xs)"
  by (metis sorted_wrt_append takeWhile_dropWhile_id)

lemma sorted_wrt_dropWhile: "sorted_wrt R xs \<Longrightarrow> sorted_wrt R (dropWhile P xs)"
  by (metis sorted_wrt_append takeWhile_dropWhile_id)

lemma dropWhile_head_not: "dropWhile P xs = y # ys \<Longrightarrow> \<not> P y"
  by (metis dropWhile_eq_Cons_conv)

lemma takeWhile_split:
  assumes "dropWhile P xs = ys"
  shows "xs = takeWhile P xs @ ys"
  using assms by auto

lemma sum_list_map_concat:
  "sum_list (map f (concat xss)) = sum_list (map (\<lambda>xs. sum_list (map f xs)) xss)"
  by (induction xss) simp_all

lemma count_list_distinct:
  "distinct xs \<Longrightarrow> count_list xs x = (if x \<in> set xs then 1 else 0)"
  by (induction xs) auto

end
