(* ===== verification/Std_Map.thy ===== *)
theory Std_Map
  imports Octf_Prelude
begin

section \<open>The ordered map of the C++ standard library\<close>

text \<open>
  \<open>std::map\<close> as the program uses it: \<open>find\<close>, \<open>emplace\<close>, \<open>operator[]\<close> with its default
  insertion, assignment through \<open>operator[]\<close>, \<open>erase\<close> by key, \<open>lower_bound\<close>, and iteration
  in the order of the keys. A map is the list of its entries in ascending key order
  (\<open>map_ok\<close>); iterating over the map is iterating over the list.

  The locale \<open>keyed_store\<close> is the contract the components that keep such a map rely on:
  what \<open>find\<close> returns after a \<open>put\<close> and an \<open>erase\<close>. It is interpreted on \<open>std_map\<close> below.
\<close>

type_synonym ('k, 'v) std_map = "('k \<times> 'v) list"

definition map_ok :: "('k::linorder, 'v) std_map \<Rightarrow> bool" where
  "map_ok m \<longleftrightarrow> sorted_wrt (<) (map fst m)"

definition map_find :: "('k, 'v) std_map \<Rightarrow> 'k \<Rightarrow> 'v option" where
  "map_find m k = map_of m k"

fun map_put :: "'k::linorder \<Rightarrow> 'v \<Rightarrow> ('k, 'v) std_map \<Rightarrow> ('k, 'v) std_map" where
  "map_put k v [] = [(k, v)]"
| "map_put k v ((k', v') # m) =
     (if k < k' then (k, v) # (k', v') # m
      else if k = k' then (k, v) # m
      else (k', v') # map_put k v m)"

definition map_erase :: "'k \<Rightarrow> ('k, 'v) std_map \<Rightarrow> ('k, 'v) std_map" where
  "map_erase k m = filter (\<lambda>e. fst e \<noteq> k) m"

text \<open>\<open>emplace\<close> leaves an existing entry alone; its second result says whether it inserted.\<close>

definition map_emplace ::
    "'k::linorder \<Rightarrow> 'v \<Rightarrow> ('k, 'v) std_map \<Rightarrow> ('k, 'v) std_map \<times> bool" where
  "map_emplace k v m =
     (case map_find m k of None \<Rightarrow> (map_put k v m, True) | Some _ \<Rightarrow> (m, False))"

text \<open>\<open>operator[]\<close>: the entry at \<open>k\<close>, inserted with the default value when missing.\<close>

definition map_at ::
    "'v \<Rightarrow> 'k::linorder \<Rightarrow> ('k, 'v) std_map \<Rightarrow> ('k, 'v) std_map \<times> 'v" where
  "map_at dflt k m =
     (case map_find m k of None \<Rightarrow> (map_put k dflt m, dflt) | Some v \<Rightarrow> (m, v))"

text \<open>\<open>lower_bound\<close> splits the entries at the first key that is not less than \<open>k\<close>.\<close>

definition map_lower_bound ::
    "'k::linorder \<Rightarrow> ('k, 'v) std_map \<Rightarrow> ('k, 'v) std_map \<times> ('k, 'v) std_map" where
  "map_lower_bound k m =
     (takeWhile (\<lambda>e. fst e < k) m, dropWhile (\<lambda>e. fst e < k) m)"

definition map_all :: "('v \<Rightarrow> bool) \<Rightarrow> ('k, 'v) std_map \<Rightarrow> bool" where
  "map_all P m \<longleftrightarrow> (\<forall>e \<in> set m. P (snd e))"

subsection \<open>The contract of a keyed store\<close>

locale keyed_store =
  fixes find :: "'m \<Rightarrow> 'k \<Rightarrow> 'v option"
    and put :: "'k \<Rightarrow> 'v \<Rightarrow> 'm \<Rightarrow> 'm"
    and erase :: "'k \<Rightarrow> 'm \<Rightarrow> 'm"
    and ok :: "'m \<Rightarrow> bool"
  assumes find_put: "ok m \<Longrightarrow> find (put k v m) = (find m)(k \<mapsto> v)"
    and find_erase: "ok m \<Longrightarrow> find (erase k m) = (find m)(k := None)"
    and ok_put: "ok m \<Longrightarrow> ok (put k v m)"
    and ok_erase: "ok m \<Longrightarrow> ok (erase k m)"
begin

lemma find_put_same: "ok m \<Longrightarrow> find (put k v m) k = Some v"
  by (simp add: find_put)

lemma find_put_other: "ok m \<Longrightarrow> k' \<noteq> k \<Longrightarrow> find (put k v m) k' = find m k'"
  by (simp add: find_put)

lemma find_put_put: "ok m \<Longrightarrow> find (put k w (put k v m)) = (find m)(k \<mapsto> w)"
  by (simp add: find_put ok_put)

lemma find_erase_same: "ok m \<Longrightarrow> find (erase k m) k = None"
  by (simp add: find_erase)

lemma find_erase_other: "ok m \<Longrightarrow> k' \<noteq> k \<Longrightarrow> find (erase k m) k' = find m k'"
  by (simp add: find_erase)

lemma find_put_erase: "ok m \<Longrightarrow> find (put k v (erase k m)) = (find m)(k \<mapsto> v)"
  by (simp add: find_put find_erase ok_erase)

lemma dom_find_put: "ok m \<Longrightarrow> dom (find (put k v m)) = insert k (dom (find m))"
  by (simp add: find_put)

end

subsection \<open>The ordered map meets the contract\<close>

lemma map_ok_Nil [simp]: "map_ok []"
  by (simp add: map_ok_def)

lemma map_ok_Cons:
  "map_ok ((k, v) # m) \<longleftrightarrow> (\<forall>e \<in> set m. k < fst e) \<and> map_ok m"
  by (auto simp: map_ok_def)

lemma map_of_put: "map_of (map_put k v m) = (map_of m)(k \<mapsto> v)"
  by (induction k v m rule: map_put.induct) (auto simp: fun_eq_iff)

lemma set_map_put: "set (map_put k v m) \<subseteq> insert (k, v) (set m)"
  by (induction k v m rule: map_put.induct) auto

lemma fst_set_map_put: "fst ` set (map_put k v m) = insert k (fst ` set m)"
  by (induction k v m rule: map_put.induct) auto

lemma keys_map_put_greater:
  assumes "\<forall>e \<in> set m. a < fst e" "a < k"
  shows "\<forall>e \<in> set (map_put k v m). a < fst e"
proof
  fix e assume "e \<in> set (map_put k v m)"
  then have "fst e \<in> insert k (fst ` set m)" by (simp flip: fst_set_map_put [of k v m])
  then show "a < fst e" using assms by auto
qed

lemma map_of_less_None:
  fixes k :: "'k::linorder"
  assumes "\<forall>e \<in> set m. k' < fst e" "k \<le> k'"
  shows "map_of m k = None"
  using assms by (auto simp: map_of_eq_None_iff)

lemma map_ok_put: "map_ok m \<Longrightarrow> map_ok (map_put k v m)"
proof (induction k v m rule: map_put.induct)
  case (2 k v k' v' m)
  from "2.prems" have m: "\<forall>e \<in> set m. k' < fst e" "map_ok m" by (auto simp: map_ok_Cons)
  consider "k < k'" | "k = k'" | "k' < k" by (rule linorder_cases)
  then show ?case
  proof cases
    case 1
    with m have "\<forall>e \<in> set m. k < fst e" by (meson less_trans)
    with 1 m show ?thesis by (simp add: map_ok_Cons)
  next
    case 2
    with m show ?thesis by (simp add: map_ok_Cons)
  next
    case 3
    with "2.IH" m have "map_ok (map_put k v m)" by simp
    with 3 m show ?thesis by (simp add: map_ok_Cons keys_map_put_greater)
  qed
qed (simp add: map_ok_Cons)

lemma map_of_filter_key: "map_of (filter (\<lambda>e. fst e \<noteq> k) m) = (map_of m)(k := None)"
  by (induction m) (auto simp: fun_eq_iff)

lemma map_ok_filter: "map_ok m \<Longrightarrow> map_ok (filter P m)"
  by (induction m) (auto simp: map_ok_Cons)

interpretation sm: keyed_store map_find map_put map_erase map_ok
  by unfold_locales
    (auto simp: map_find_def map_of_put map_erase_def map_of_filter_key map_ok_put map_ok_filter)

subsection \<open>Derived facts\<close>

lemma map_find_Nil [simp]: "map_find [] k = None"
  by (simp add: map_find_def)

lemma map_find_SomeD: "map_find m k = Some v \<Longrightarrow> (k, v) \<in> set m"
  by (simp add: map_find_def map_of_SomeD)

lemma map_find_iff: "map_ok m \<Longrightarrow> map_find m k = Some v \<longleftrightarrow> (k, v) \<in> set m"
proof -
  assume "map_ok m"
  then have "distinct (map fst m)"
    by (auto simp: map_ok_def strict_sorted_iff)
  then show ?thesis by (simp add: map_find_def)
qed

lemma map_find_None_iff: "map_find m k = None \<longleftrightarrow> k \<notin> fst ` set m"
  by (simp add: map_find_def map_of_eq_None_iff)

lemma map_at_ok: "map_ok m \<Longrightarrow> map_ok (fst (map_at d k m))"
  by (simp add: map_at_def map_ok_put split: option.splits)

lemma map_find_at:
  "map_ok m \<Longrightarrow> map_find (fst (map_at d k m)) k' =
     (if k' = k then Some (snd (map_at d k m)) else map_find m k')"
  by (auto simp: map_at_def sm.find_put split: option.splits)

lemma snd_map_at: "snd (map_at d k m) = (case map_find m k of None \<Rightarrow> d | Some v \<Rightarrow> v)"
  by (simp add: map_at_def split: option.splits)

lemma map_all_put: "map_all P m \<Longrightarrow> P v \<Longrightarrow> map_all P (map_put k v m)"
  using set_map_put [of k v m] by (fastforce simp: map_all_def)

lemma map_all_erase: "map_all P m \<Longrightarrow> map_all P (map_erase k m)"
  by (simp add: map_all_def map_erase_def)

lemma map_all_find: "map_all P m \<Longrightarrow> map_find m k = Some v \<Longrightarrow> P v"
  by (fastforce simp: map_all_def dest: map_find_SomeD)

lemma map_all_Nil [simp]: "map_all P []"
  by (simp add: map_all_def)

lemma length_map_put:
  "map_ok m \<Longrightarrow>
   length (map_put k v m) = (if map_find m k = None then Suc (length m) else length m)"
  by (induction k v m rule: map_put.induct)
    (auto simp: map_find_def map_ok_Cons map_of_less_None)

lemma map_put_same_list:
  "map_ok m \<Longrightarrow> map_find m k = Some v \<Longrightarrow> map_put k v m = m"
  by (induction k v m rule: map_put.induct)
    (auto simp: map_find_def map_ok_Cons map_of_less_None split: if_splits)

lemma map_put_put [simp]: "map_put k w (map_put k v m) = map_put k w m"
  by (induction k v m rule: map_put.induct) auto

lemmas map_contract =
  sm.find_put sm.find_erase sm.ok_put sm.ok_erase map_at_ok map_find_at snd_map_at

end
