(* ===== verification/Workset.thy ===== *)
theory Workset
  imports Octf_Prelude
begin

section \<open>The workset calculator\<close>

text \<open>
  \<open>WorksetCalculator\<close> (source/octf/analytics/statistics/WorksetCalculator.cpp): a set of
  disjoint address ranges, ordered by a comparison under which overlapping ranges are
  equivalent, with insertion that merges, removal that splits, and the largest size ever
  reached.

  The \<open>std::set\<close> of ranges is the list of its elements in order. An iterator is the pair of
  the elements before it and the elements from it on, so erasing at an iterator drops the
  head of the second part and yields the next iterator. \<open>find\<close> returns the first element
  that is not less than the key when the key is not less than it, as the tree search of the
  standard library does; \<open>insert\<close> refuses an element equivalent to a stored one.

  The abstraction is \<open>cover\<close>, the set of addresses the ranges hold (a range is half open:
  its \<open>end\<close> is \<open>begin + len\<close>).
\<close>

datatype wrange = Range (r_begin: u64) (r_end: u64)

definition doRangesOverlap :: "wrange \<Rightarrow> wrange \<Rightarrow> bool" where
  "doRangesOverlap r1 r2 \<longleftrightarrow> r_begin r1 \<le> r_end r2 \<and> r_end r1 \<ge> r_begin r2"

definition range_eq :: "wrange \<Rightarrow> wrange \<Rightarrow> bool" where
  "range_eq r1 r2 \<longleftrightarrow> doRangesOverlap r1 r2"

definition range_less :: "wrange \<Rightarrow> wrange \<Rightarrow> bool" where
  "range_less r1 r2 = (if doRangesOverlap r1 r2 then False else r_begin r1 < r_begin r2)"

type_synonym range_iter = "wrange list \<times> wrange list"

definition set_find :: "wrange \<Rightarrow> wrange list \<Rightarrow> range_iter option" where
  "set_find r xs =
     (case dropWhile (\<lambda>e. range_less e r) xs of
        [] \<Rightarrow> None
      | e # rest \<Rightarrow>
          if range_less r e then None
          else Some (takeWhile (\<lambda>e. range_less e r) xs, e # rest))"

definition set_insert :: "wrange \<Rightarrow> wrange list \<Rightarrow> wrange list" where
  "set_insert r xs =
     (case set_find r xs of
        Some _ \<Rightarrow> xs
      | None \<Rightarrow> takeWhile (\<lambda>e. range_less e r) xs @ r # dropWhile (\<lambda>e. range_less e r) xs)"

text \<open>
  Insertion while an iterator is held. Both callers insert parts of a range they have just
  erased, which the order places before the iterator; an equivalent element anywhere in the
  set refuses the insertion.
\<close>

definition insert_before :: "wrange \<Rightarrow> range_iter \<Rightarrow> range_iter" where
  "insert_before r it =
     (case it of (pre, post) \<Rightarrow>
        if list_ex (\<lambda>e. \<not> range_less e r \<and> \<not> range_less r e) (pre @ post) then (pre, post)
        else (set_insert r pre, post))"

record workset =
  wc_hitRanges :: "wrange list"
  wc_max :: u64
  wc_isMaxFresh :: bool

definition workset_new :: workset where
  "workset_new = \<lparr>wc_hitRanges = [], wc_max = 0, wc_isMaxFresh = True\<rparr>"

text \<open>The loop of \<open>mergeRanges\<close> that erases the ranges after the first overlapping one.\<close>

fun absorb :: "wrange \<Rightarrow> u64 \<Rightarrow> wrange list \<Rightarrow> u64 \<times> wrange list" where
  "absorb newRange maxEnd [] = (maxEnd, [])"
| "absorb newRange maxEnd (r # rs) =
     (if doRangesOverlap newRange r then absorb newRange (max maxEnd (r_end r)) rs
      else (maxEnd, r # rs))"

definition mergeRanges :: "wrange \<Rightarrow> wrange list \<Rightarrow> wrange \<Rightarrow> wrange list \<Rightarrow> wrange list" where
  "mergeRanges newRange pre overlap post =
     (let minBegin = min (r_begin overlap) (r_begin newRange);
          maxEnd = max (r_end overlap) (r_end newRange)
      in if r_begin newRange \<ge> r_begin overlap \<and> r_end newRange \<le> r_end overlap
         then pre @ overlap # post
         else let (maxEnd', post') = absorb newRange maxEnd post
              in set_insert (Range minBegin maxEnd') (pre @ post'))"

definition insertRange :: "u64 \<Rightarrow> u64 \<Rightarrow> workset \<Rightarrow> workset" where
  "insertRange begin' len w =
     (if len = 0 then w
      else let newRange = Range begin' (begin' + len)
           in case set_find newRange (wc_hitRanges w) of
                Some (pre, overlap # post) \<Rightarrow>
                  w\<lparr>wc_hitRanges := mergeRanges newRange pre overlap post,
                    wc_isMaxFresh := False\<rparr>
              | _ \<Rightarrow>
                  w\<lparr>wc_hitRanges := set_insert newRange (wc_hitRanges w),
                    wc_isMaxFresh := False\<rparr>)"

fun sum_ranges :: "u64 \<Rightarrow> wrange list \<Rightarrow> u64" where
  "sum_ranges acc [] = acc"
| "sum_ranges acc (r # rs) = sum_ranges (acc + (r_end r - r_begin r)) rs"

definition getWorkset :: "workset \<Rightarrow> u64" where
  "getWorkset w =
     (if wc_isMaxFresh w then wc_max w
      else max (wc_max w) (sum_ranges 0 (wc_hitRanges w)))"

fun remove_loop :: "wrange \<Rightarrow> wrange list \<Rightarrow> wrange list \<Rightarrow> u64 \<Rightarrow> wrange list \<times> u64" where
  "remove_loop rem pre [] removed = (pre, removed)"
| "remove_loop rem pre (r # post) removed =
     (if \<not> doRangesOverlap rem r then (pre @ r # post, removed)
      else
        let left = r_begin r < r_begin rem;
            right = r_end r > r_end rem;
            exact = (\<not> right \<and> r_end r = r_end rem \<and> r_begin r = r_begin rem);
            splitBegin = (if left then Range (r_begin r) (r_begin rem) else Range 0 0);
            splitEnd = (if right then Range (r_end rem) (r_end r) else Range 0 0)
        in if left \<or> right \<or> exact then
             let n1 = removed + (r_end r - r_begin r);
                 (pre2, n2) =
                   (if r_begin splitBegin \<noteq> r_end splitBegin
                    then (fst (insert_before splitBegin (pre, post)),
                          n1 - (r_end splitBegin - r_begin splitBegin))
                    else (pre, n1));
                 (pre3, n3) =
                   (if r_begin splitEnd \<noteq> r_end splitEnd
                    then (fst (insert_before splitEnd (pre2, post)),
                          n2 - (r_end splitEnd - r_begin splitEnd))
                    else (pre2, n2))
             in remove_loop rem pre3 post n3
           else remove_loop rem (pre @ [r]) post removed)"

definition removeRange :: "u64 \<Rightarrow> u64 \<Rightarrow> workset \<Rightarrow> workset \<times> u64" where
  "removeRange begin' len w =
     (let rem = Range begin' (begin' + len)
      in case set_find rem (wc_hitRanges w) of
           None \<Rightarrow> (w, 0)
         | Some (pre, post) \<Rightarrow>
             let w1 = (if wc_isMaxFresh w then w
                       else w\<lparr>wc_max := max (getWorkset w) (wc_max w), wc_isMaxFresh := True\<rparr>);
                 (ranges, removed) = remove_loop rem pre post 0
             in (w1\<lparr>wc_hitRanges := ranges\<rparr>, removed))"

subsection \<open>Well-formed sets and the addresses they cover\<close>

definition ranges_ok :: "wrange list \<Rightarrow> bool" where
  "ranges_ok xs \<longleftrightarrow>
     (\<forall>r \<in> set xs. r_begin r < r_end r) \<and> sorted_wrt (\<lambda>a b. r_end a < r_begin b) xs"

definition points :: "wrange \<Rightarrow> u64 set" where
  "points r = {r_begin r..<r_end r}"

definition cover :: "wrange list \<Rightarrow> u64 set" where
  "cover xs = (\<Union>r \<in> set xs. points r)"

definition workset_ok :: "workset \<Rightarrow> bool" where
  "workset_ok w \<longleftrightarrow>
     ranges_ok (wc_hitRanges w) \<and>
     (wc_isMaxFresh w \<longrightarrow> card (cover (wc_hitRanges w)) \<le> unat (wc_max w))"

lemma cover_simps [simp]:
  "cover [] = {}"
  "cover (r # xs) = points r \<union> cover xs"
  "cover (xs @ ys) = cover xs \<union> cover ys"
  by (auto simp: cover_def)

lemma ranges_ok_Nil [simp]: "ranges_ok []"
  by (simp add: ranges_ok_def)

lemma ranges_ok_Cons:
  "ranges_ok (r # xs) \<longleftrightarrow>
     r_begin r < r_end r \<and> (\<forall>x \<in> set xs. r_end r < r_begin x) \<and> ranges_ok xs"
  by (auto simp: ranges_ok_def)

lemma ranges_ok_append:
  "ranges_ok (xs @ ys) \<longleftrightarrow>
     ranges_ok xs \<and> ranges_ok ys \<and> (\<forall>x \<in> set xs. \<forall>y \<in> set ys. r_end x < r_begin y)"
  by (auto simp: ranges_ok_def sorted_wrt_append)

lemma ranges_ok_nonempty: "ranges_ok xs \<Longrightarrow> r \<in> set xs \<Longrightarrow> r_begin r < r_end r"
  by (simp add: ranges_ok_def)

subsection \<open>Where a key falls in the order\<close>

lemma overlap_commute: "doRangesOverlap a b = doRangesOverlap b a"
  by (auto simp: doRangesOverlap_def)

lemma range_less_iff:
  assumes "r_begin a \<le> r_end a" "r_begin b \<le> r_end b"
  shows "range_less a b \<longleftrightarrow> r_end a < r_begin b"
  using assms by (auto simp: range_less_def doRangesOverlap_def)

text \<open>A key splits a well-formed set into what lies before, what overlaps, what lies after.\<close>

lemma split_by_key:
  assumes ok: "ranges_ok xs" and k: "r_begin k \<le> r_end k"
  obtains L M R where
    "xs = L @ M @ R"
    "takeWhile (\<lambda>e. range_less e k) xs = L" "dropWhile (\<lambda>e. range_less e k) xs = M @ R"
    "\<forall>e \<in> set L. r_end e < r_begin k"
    "\<forall>e \<in> set M. doRangesOverlap k e"
    "\<forall>e \<in> set R. r_end k < r_begin e"
proof -
  let ?P = "\<lambda>e. range_less e k"
  define L where "L = takeWhile ?P xs"
  define D where "D = dropWhile ?P xs"
  define M where "M = takeWhile (doRangesOverlap k) D"
  define R where "R = dropWhile (doRangesOverlap k) D"
  have xs: "xs = L @ M @ R" by (simp add: L_def D_def M_def R_def)
  have ne: "r_begin e < r_end e" if "e \<in> set xs" for e
    using ok that by (rule ranges_ok_nonempty)
  have L: "\<forall>e \<in> set L. r_end e < r_begin k"
  proof
    fix e assume "e \<in> set L"
    then have "?P e" "e \<in> set xs" by (auto simp: L_def dest: set_takeWhileD)
    then show "r_end e < r_begin k" using ne [of e] k by (simp add: range_less_iff less_imp_le)
  qed
  have M: "\<forall>e \<in> set M. doRangesOverlap k e"
    by (auto simp: M_def dest: set_takeWhileD)
  have R: "\<forall>e \<in> set R. r_end k < r_begin e"
  proof (cases R)
    case (Cons r rs)
    then have nov: "\<not> doRangesOverlap k r" unfolding R_def by (rule dropWhile_head_not)
    have rin: "r \<in> set xs" using xs Cons by simp
    have nl: "\<not> ?P r"
    proof (cases M)
      case Nil
      then have "D = r # rs" using Cons by (simp add: M_def R_def) (metis takeWhile_dropWhile_id self_append_conv2)
      then show ?thesis unfolding D_def by (rule dropWhile_head_not)
    next
      case (Cons m ms)
      then have "doRangesOverlap k m" using M by simp
      then have "r_begin k \<le> r_end m" by (simp add: doRangesOverlap_def)
      moreover have "r_end m < r_begin r"
        using ok Cons \<open>R = r # rs\<close> by (simp add: xs ranges_ok_append ranges_ok_Cons)
      ultimately show ?thesis using ne [OF rin] k by (simp add: range_less_iff less_imp_le)
    qed
    have gt: "r_end k < r_begin r"
      using nov nl ne [OF rin] k by (auto simp: range_less_def doRangesOverlap_def)
    have "r_begin r \<le> r_begin e" if "e \<in> set rs" for e
      using ok that ne [OF rin]
      by (auto simp: xs Cons ranges_ok_append ranges_ok_Cons intro: less_imp_le less_trans)
    with gt show ?thesis using Cons by (auto intro: less_le_trans)
  qed simp
  show thesis
    by (rule that [of L M R]) (use xs L M R in \<open>simp_all add: L_def D_def M_def R_def\<close>)
qed

lemma set_find_split:
  assumes "dropWhile (\<lambda>e. range_less e k) xs = M @ R"
    and "takeWhile (\<lambda>e. range_less e k) xs = L"
    and "\<forall>e \<in> set M. doRangesOverlap k e"
    and "\<forall>e \<in> set R. r_end k < r_begin e"
    and "\<forall>e \<in> set R. r_begin e < r_end e" "r_begin k \<le> r_end k"
  shows "set_find k xs = (if M = [] then None else Some (L, M @ R))"
proof (cases M)
  case Nil
  show ?thesis
  proof (cases R)
    case (Cons r rs)
    with assms have "range_less k r" by (simp add: range_less_iff less_imp_le)
    with Cons Nil assms show ?thesis by (simp add: set_find_def)
  next
    case Nil': Nil
    with Nil assms(1) have "dropWhile (\<lambda>e. range_less e k) xs = []" by simp
    then show ?thesis unfolding set_find_def using Nil by (simp only: list.case) simp
  qed
next
  case (Cons m ms)
  with assms have "\<not> range_less k m" by (simp add: range_less_def)
  with Cons assms show ?thesis by (simp add: set_find_def)
qed

lemma set_insert_between:
  assumes "\<forall>e \<in> set L. r_end e < r_begin k" "\<forall>e \<in> set R. r_end k < r_begin e"
    and "\<forall>e \<in> set (L @ R). r_begin e < r_end e" "r_begin k \<le> r_end k"
  shows "set_insert k (L @ R) = L @ k # R"
proof -
  have less: "range_less e k" if "e \<in> set L" for e
    using assms that by (simp add: range_less_iff less_imp_le)
  have R: "takeWhile (\<lambda>e. range_less e k) R = []" "dropWhile (\<lambda>e. range_less e k) R = R"
  proof -
    have "\<not> range_less e k" if "e \<in> set R" for e
      using assms that by (auto simp: range_less_def)
    then show "takeWhile (\<lambda>e. range_less e k) R = []" "dropWhile (\<lambda>e. range_less e k) R = R"
      by (cases R; simp)+
  qed
  have tw: "takeWhile (\<lambda>e. range_less e k) (L @ R) = L"
    "dropWhile (\<lambda>e. range_less e k) (L @ R) = R"
    using less R by (simp_all add: takeWhile_append dropWhile_append)
  have "set_find k (L @ R) = None"
    using set_find_split [where M = "[]" and R = R and L = L and k = k and xs = "L @ R"]
      assms tw by simp
  then show ?thesis by (simp add: set_insert_def tw)
qed

subsection \<open>Insertion\<close>

lemma absorb_split:
  assumes "\<forall>e \<in> set M. doRangesOverlap k e" "\<forall>e \<in> set R. r_end k < r_begin e"
  shows "absorb k e (M @ R) = (fold max (map r_end M) e, R)"
  using assms
proof (induction M arbitrary: e)
  case Nil
  then show ?case by (cases R) (auto simp: doRangesOverlap_def)
next
  case (Cons m M)
  then show ?case by (simp add: max.commute)
qed

lemma absorb_points:
  assumes "\<forall>r \<in> set ms. doRangesOverlap k r \<and> mb \<le> r_begin r" "r_end k \<le> e"
  shows "{mb..<fold max (map r_end ms) e} = {mb..<e} \<union> cover ms"
  using assms
proof (induction ms arbitrary: e)
  case (Cons r ms)
  then have r: "r_begin r \<le> e" "mb \<le> r_begin r" by (auto simp: doRangesOverlap_def)
  have "{mb..<fold max (map r_end (r # ms)) e} = {mb..<max (r_end r) e} \<union> cover ms"
    using Cons by (simp add: le_max_iff_disj)
  moreover have "{mb..<max (r_end r) e} = {mb..<e} \<union> points r"
    using r by (auto simp: points_def max_def)
  ultimately show ?case by auto
qed simp

lemma fold_max_less:
  fixes e b :: "'a::linorder"
  shows "fold max xs e < b \<longleftrightarrow> e < b \<and> (\<forall>x \<in> set xs. x < b)"
  by (induction xs arbitrary: e) auto

lemma fold_max_ge:
  fixes e :: "'a::linorder"
  shows "e \<le> fold max xs e"
  by (metis fold_max_less linorder_not_less order_refl)

text \<open>The ranges after an insertion, as one function of the ranges before.\<close>

definition insert_ranges :: "wrange \<Rightarrow> wrange list \<Rightarrow> wrange list" where
  "insert_ranges k xs =
     (case set_find k xs of
        Some (pre, overlap # post) \<Rightarrow> mergeRanges k pre overlap post
      | _ \<Rightarrow> set_insert k xs)"

lemma insertRange_alt:
  "insertRange b len w =
     (if len = 0 then w
      else w\<lparr>wc_hitRanges := insert_ranges (Range b (b + len)) (wc_hitRanges w),
             wc_isMaxFresh := False\<rparr>)"
  by (simp add: insertRange_def insert_ranges_def Let_def split: option.split prod.split list.split)

lemma mergeRanges_merged:
  assumes ok: "ranges_ok (L @ m # ms @ R)" and k: "r_begin k < r_end k"
    and L: "\<forall>e \<in> set L. r_end e < r_begin k"
    and M: "\<forall>e \<in> set (m # ms). doRangesOverlap k e"
    and R: "\<forall>e \<in> set R. r_end k < r_begin e"
    and nsub: "\<not> (r_begin m \<le> r_begin k \<and> r_end k \<le> r_end m)"
  obtains mb e where "mergeRanges k L m (ms @ R) = L @ Range mb e # R"
    "ranges_ok (L @ Range mb e # R)" "points (Range mb e) = points k \<union> cover (m # ms)"
proof -
  have ne: "\<forall>e \<in> set (L @ m # ms @ R). r_begin e < r_end e" using ok by (simp add: ranges_ok_def)
  define mb where "mb = min (r_begin m) (r_begin k)"
  define e0 where "e0 = max (r_end m) (r_end k)"
  define e where "e = fold max (map r_end ms) e0"
  have ms: "\<forall>r \<in> set ms. doRangesOverlap k r \<and> mb \<le> r_begin r"
    using ok M by (auto simp: mb_def min_le_iff_disj ranges_ok_append ranges_ok_Cons)
      (meson UnI1 less_imp_le less_trans)
  have eR: "\<forall>r \<in> set R. e < r_begin r"
    using ok R by (auto simp: e_def e0_def fold_max_less ranges_ok_append ranges_ok_Cons)
  have Lmb: "\<forall>r \<in> set L. r_end r < mb"
    using ok L by (auto simp: mb_def ranges_ok_append)
  have "mb < e0" using k by (auto simp: mb_def e0_def min_less_iff_disj less_max_iff_disj)
  also have "e0 \<le> e" unfolding e_def by (rule fold_max_ge)
  finally have mbe: "mb < e" .
  have "set_insert (Range mb e) (L @ R) = L @ Range mb e # R"
    by (rule set_insert_between) (use Lmb eR ne mbe in auto)
  then have eq: "mergeRanges k L m (ms @ R) = L @ Range mb e # R"
    using nsub absorb_split [where M = ms and R = R and k = k and e = e0] M R
    by (auto simp: mergeRanges_def Let_def mb_def e0_def e_def)
  have "{mb..<e} = {mb..<e0} \<union> cover ms"
    unfolding e_def by (rule absorb_points [OF ms]) (simp add: e0_def)
  moreover have "{mb..<e0} = points m \<union> points k"
    using M ne k by (auto simp: points_def mb_def e0_def doRangesOverlap_def min_def max_def)
  ultimately have "points (Range mb e) = points k \<union> cover (m # ms)"
    by (auto simp: points_def)
  moreover have "ranges_ok (L @ Range mb e # R)"
    using ok Lmb eR mbe by (auto simp: ranges_ok_append ranges_ok_Cons)
  ultimately show thesis using eq that by blast
qed

lemma insert_ranges_correct:
  assumes ok: "ranges_ok xs" and k: "r_begin k < r_end k"
  shows "ranges_ok (insert_ranges k xs) \<and> cover (insert_ranges k xs) = cover xs \<union> points k"
proof -
  from k have k': "r_begin k \<le> r_end k" by simp
  obtain L M R where xs: "xs = L @ M @ R"
    and tw: "takeWhile (\<lambda>e. range_less e k) xs = L" "dropWhile (\<lambda>e. range_less e k) xs = M @ R"
    and L: "\<forall>e \<in> set L. r_end e < r_begin k" and M: "\<forall>e \<in> set M. doRangesOverlap k e"
    and R: "\<forall>e \<in> set R. r_end k < r_begin e"
    by (rule split_by_key [OF ok k'])
  have ne: "\<forall>e \<in> set (L @ M @ R). r_begin e < r_end e"
    using ok by (simp add: xs ranges_ok_def)
  have find: "set_find k xs = (if M = [] then None else Some (L, M @ R))"
    using set_find_split [OF tw(2,1) M R _ k'] ne by simp
  show ?thesis
  proof (cases M)
    case Nil
    have ins: "insert_ranges k xs = L @ k # R"
      using set_insert_between [OF L R _ k'] ne Nil find xs by (simp add: insert_ranges_def)
    have "ranges_ok (L @ k # R)"
      using ok k L R by (auto simp: xs Nil ranges_ok_append ranges_ok_Cons)
    with ins show ?thesis by (auto simp: xs Nil)
  next
    case (Cons m ms)
    then have ins: "insert_ranges k xs = mergeRanges k L m (ms @ R)"
      using find by (simp add: insert_ranges_def)
    show ?thesis
    proof (cases "r_begin m \<le> r_begin k \<and> r_end k \<le> r_end m")
      case True
      then have "points k \<subseteq> points m" by (auto simp: points_def)
      moreover from True have "insert_ranges k xs = xs"
        unfolding ins by (simp add: mergeRanges_def xs Cons)
      ultimately show ?thesis using ok by (auto simp: xs Cons)
    next
      case False
      obtain mb e where
        "mergeRanges k L m (ms @ R) = L @ Range mb e # R"
        "ranges_ok (L @ Range mb e # R)" "points (Range mb e) = points k \<union> cover (m # ms)"
        by (rule mergeRanges_merged [OF _ k L _ R False]) (use ok M in \<open>auto simp: xs Cons\<close>)
      with ins show ?thesis by (auto simp: xs Cons)
    qed
  qed
qed

subsection \<open>The size of a workset\<close>

definition range_len :: "wrange \<Rightarrow> nat" where
  "range_len r = unat (r_end r) - unat (r_begin r)"

lemma card_points: "card (points r) = range_len r"
  by (simp add: points_def range_len_def card_u64_interval)

lemma cover_disjoint:
  assumes "\<forall>x \<in> set xs. r_end r < r_begin x"
  shows "points r \<inter> cover xs = {}"
  using assms by (fastforce simp: points_def cover_def)

lemma card_cover: "ranges_ok xs \<Longrightarrow> card (cover xs) = sum_list (map range_len xs)"
proof (induction xs)
  case (Cons r xs)
  then have "points r \<inter> cover xs = {}" by (intro cover_disjoint) (simp add: ranges_ok_Cons)
  with Cons show ?case by (simp add: card_Un_disjoint ranges_ok_Cons card_points)
qed simp

lemma sum_ranges_acc:
  "ranges_ok xs \<Longrightarrow> sum_ranges acc xs = acc + of_nat (sum_list (map range_len xs))"
proof (induction xs arbitrary: acc)
  case (Cons r xs)
  then have "r_end r - r_begin r = of_nat (range_len r)"
    by (simp add: ranges_ok_Cons range_len_def of_nat_diff word_less_nat_alt less_imp_le)
  with Cons show ?case by (simp add: ranges_ok_Cons)
qed simp

lemma card_cover_bound: "card (cover xs) < 2 ^ 64"
proof -
  have "card (cover xs) \<le> unat (- 1 :: u64)"
  proof (rule card_u64_le_max)
    fix x assume "x \<in> cover xs"
    then obtain r where "x < r_end r" by (auto simp: cover_def points_def)
    also have "r_end r \<le> - 1" by simp
    finally show "x < - 1" .
  qed
  also have "\<dots> < 2 ^ 64" using unat_u64_bound [of "- 1"] by simp
  finally show ?thesis .
qed

lemma unat_sum_ranges: "ranges_ok xs \<Longrightarrow> unat (sum_ranges 0 xs) = card (cover xs)"
  using card_cover_bound [of xs] by (simp add: sum_ranges_acc card_cover unat_of_nat)

lemma unat_max_word: "unat (max a b :: u64) = max (unat a) (unat b)"
  by (simp add: max_def word_le_nat_alt)

lemma unat_getWorkset:
  "workset_ok w \<Longrightarrow>
     unat (getWorkset w) = max (unat (wc_max w)) (card (cover (wc_hitRanges w)))"
  by (simp add: getWorkset_def workset_ok_def unat_max_word unat_sum_ranges)

subsection \<open>Removal\<close>

text \<open>
  What is left of a stored range \<open>r\<close> that overlaps the removed one. The last case is the
  code's: a range that lies inside the removed one, and is not equal to it, stays.
\<close>

definition pieces :: "wrange \<Rightarrow> wrange \<Rightarrow> wrange list" where
  "pieces rem r =
     (if r_begin r < r_begin rem \<or> r_end r > r_end rem then
        (if r_begin r < r_begin rem then [Range (r_begin r) (r_begin rem)] else []) @
        (if r_end r > r_end rem then [Range (r_end rem) (r_end r)] else [])
      else if r = rem then [] else [r])"

text \<open>The stored ranges properly inside the removed one, which the loop passes over.\<close>

definition survives :: "wrange \<Rightarrow> wrange \<Rightarrow> bool" where
  "survives rem r \<longleftrightarrow> r_begin rem \<le> r_begin r \<and> r_end r \<le> r_end rem \<and> r \<noteq> rem"

fun wsum :: "wrange list \<Rightarrow> u64" where
  "wsum [] = 0"
| "wsum (r # rs) = (r_end r - r_begin r) + wsum rs"

lemma wsum_append [simp]: "wsum (xs @ ys) = wsum xs + wsum ys"
  by (induction xs) auto

lemma wsum_card: "ranges_ok xs \<Longrightarrow> wsum xs = of_nat (card (cover xs))"
proof -
  assume ok: "ranges_ok xs"
  have "sum_ranges acc ys = acc + wsum ys" for acc ys
    by (induction ys arbitrary: acc) (simp_all add: add.assoc)
  from this [of 0 xs] have "wsum xs = sum_ranges 0 xs" by simp
  with ok show ?thesis by (simp add: sum_ranges_acc card_cover)
qed

lemma points_pieces:
  assumes "r_begin r < r_end r" "r_begin rem < r_end rem" "doRangesOverlap rem r"
  shows "cover (pieces rem r) = (if survives rem r then points r else points r - points rem)"
  using assms
  by (cases r; cases rem)
    (auto simp: pieces_def survives_def points_def doRangesOverlap_def)

lemma pieces_within:
  assumes "r_begin r < r_end r" "r_begin rem < r_end rem" "doRangesOverlap rem r"
    and "p \<in> set (pieces rem r)"
  shows "r_begin r \<le> r_begin p" "r_end p \<le> r_end r" "r_begin p < r_end p"
  using assms by (auto simp: pieces_def doRangesOverlap_def split: if_splits)

lemma ranges_ok_pieces:
  assumes "r_begin r < r_end r" "r_begin rem < r_end rem" "doRangesOverlap rem r"
  shows "ranges_ok (pieces rem r)"
  using assms by (auto simp: pieces_def ranges_ok_Cons ranges_ok_append doRangesOverlap_def)

lemma insert_before_end:
  assumes ok: "ranges_ok (pre @ post)" and k: "r_begin k < r_end k"
    and pre: "\<forall>e \<in> set pre. r_end e < r_begin k" and post: "\<forall>e \<in> set post. r_end k < r_begin e"
  shows "insert_before k (pre, post) = (pre @ [k], post)"
proof -
  have ne: "\<forall>e \<in> set (pre @ post). r_begin e < r_end e" using ok by (simp add: ranges_ok_def)
  have "\<not> list_ex (\<lambda>e. \<not> range_less e k \<and> \<not> range_less k e) (pre @ post)"
    using ne k pre post by (auto simp: list_ex_iff range_less_iff less_imp_le)
  moreover have "set_insert k (pre @ []) = pre @ k # []"
    by (rule set_insert_between) (use ne k pre in auto)
  ultimately show ?thesis by (simp add: insert_before_def)
qed

text \<open>One iteration of the loop replaces the head by its pieces.\<close>

lemma remove_loop_step:
  assumes ok: "ranges_ok (pre @ r # post)" and rem: "r_begin rem < r_end rem"
    and ov: "doRangesOverlap rem r"
  shows "remove_loop rem pre (r # post) n =
     remove_loop rem (pre @ pieces rem r) post (n + (r_end r - r_begin r) - wsum (pieces rem r))"
proof -
  from ok have r: "r_begin r < r_end r" by (simp add: ranges_ok_append ranges_ok_Cons)
  have pre: "\<forall>e \<in> set pre. r_end e < r_begin r" and post: "\<forall>e \<in> set post. r_end r < r_begin e"
    and oks: "ranges_ok (pre @ post)"
    using ok by (auto simp: ranges_ok_append ranges_ok_Cons)
  have left: "insert_before (Range (r_begin r) (r_begin rem)) (pre, post) =
      (pre @ [Range (r_begin r) (r_begin rem)], post)" if "r_begin r < r_begin rem"
    by (rule insert_before_end [OF oks])
      (use that pre post ov in \<open>auto simp: doRangesOverlap_def intro: le_less_trans\<close>)
  have right: "insert_before (Range (r_end rem) (r_end r)) (pre @ ps, post) =
      ((pre @ ps) @ [Range (r_end rem) (r_end r)], post)"
    if "r_end rem < r_end r" "ps = (if r_begin r < r_begin rem then [Range (r_begin r) (r_begin rem)] else [])" for ps
  proof (rule insert_before_end)
    show "ranges_ok ((pre @ ps) @ post)"
      using that oks pre post ov
      by (auto simp: ranges_ok_append ranges_ok_Cons doRangesOverlap_def intro: le_less_trans)
    show "\<forall>e \<in> set (pre @ ps). r_end e < r_begin (Range (r_end rem) (r_end r))"
      using that pre rem ov by (auto simp: doRangesOverlap_def intro: less_le_trans)
  qed (use that post in auto)
  have exact: "r_end r = r_end rem \<Longrightarrow> r_begin r = r_begin rem \<Longrightarrow> r = rem"
    by (cases r; cases rem) simp
  show ?thesis
    using ov left right [OF _ refl] r exact
    by (auto simp: pieces_def Let_def algebra_simps intro!: arg_cong2 [where f = "remove_loop rem _"])
qed

lemma ranges_ok_replace:
  assumes ok: "ranges_ok (pre @ r # post)" and rem: "r_begin rem < r_end rem"
    and ov: "doRangesOverlap rem r"
  shows "ranges_ok ((pre @ pieces rem r) @ post)"
proof -
  from ok have r: "r_begin r < r_end r" by (simp add: ranges_ok_append ranges_ok_Cons)
  note within = pieces_within [OF r rem ov]
  show ?thesis
    using ok ranges_ok_pieces [OF r rem ov]
    by (auto simp: ranges_ok_append ranges_ok_Cons dest: within intro: less_le_trans le_less_trans)
qed

lemma remove_loop_split:
  assumes "ranges_ok (pre @ M @ R)" "r_begin rem < r_end rem"
    and "\<forall>e \<in> set M. doRangesOverlap rem e" "\<forall>e \<in> set R. r_end rem < r_begin e"
  shows "remove_loop rem pre (M @ R) n =
      (pre @ concat (map (pieces rem) M) @ R, n + wsum M - wsum (concat (map (pieces rem) M)))
    \<and> ranges_ok (pre @ concat (map (pieces rem) M) @ R)"
  using assms
proof (induction M arbitrary: pre n)
  case Nil
  then show ?case by (cases R) (auto simp: doRangesOverlap_def)
next
  case (Cons r M)
  then have ok: "ranges_ok (pre @ r # (M @ R))" and ov: "doRangesOverlap rem r" by simp_all
  have "ranges_ok ((pre @ pieces rem r) @ M @ R)"
    by (rule ranges_ok_replace [OF ok \<open>r_begin rem < r_end rem\<close> ov])
  note IH = Cons.IH [OF this \<open>r_begin rem < r_end rem\<close>]
  show ?case
    using Cons.prems IH unfolding append_Cons
    by (simp add: remove_loop_step [OF ok _ ov] algebra_simps del: remove_loop.simps)
qed

lemma cover_pieces:
  assumes "\<forall>e \<in> set M. doRangesOverlap rem e \<and> r_begin e < r_end e" "r_begin rem < r_end rem"
  shows "cover (concat (map (pieces rem) M)) =
     (cover M - points rem) \<union> cover (filter (survives rem) M)"
  using assms
proof (induction M)
  case (Cons r M)
  then have "cover (pieces rem r) = (if survives rem r then points r else points r - points rem)"
    by (intro points_pieces) auto
  with Cons show ?case by auto
qed simp

definition remove_ranges :: "wrange \<Rightarrow> wrange list \<Rightarrow> wrange list \<times> u64" where
  "remove_ranges rem xs =
     (case set_find rem xs of None \<Rightarrow> (xs, 0) | Some (pre, post) \<Rightarrow> remove_loop rem pre post 0)"

lemma remove_ranges_correct:
  assumes ok: "ranges_ok xs" and rem: "r_begin rem < r_end rem"
  shows "ranges_ok (fst (remove_ranges rem xs))"
    and "cover (fst (remove_ranges rem xs)) =
      (cover xs - points rem) \<union> cover (filter (survives rem) xs)"
    and "unat (snd (remove_ranges rem xs)) =
      card (cover xs) - card (cover (fst (remove_ranges rem xs)))"
proof -
  from rem have rem': "r_begin rem \<le> r_end rem" by simp
  obtain L M R where xs: "xs = L @ M @ R"
    and tw: "takeWhile (\<lambda>e. range_less e rem) xs = L" "dropWhile (\<lambda>e. range_less e rem) xs = M @ R"
    and L: "\<forall>e \<in> set L. r_end e < r_begin rem" and M: "\<forall>e \<in> set M. doRangesOverlap rem e"
    and R: "\<forall>e \<in> set R. r_end rem < r_begin e"
    by (rule split_by_key [OF ok rem'])
  have ne: "\<forall>e \<in> set (L @ M @ R). r_begin e < r_end e"
    using ok by (simp add: xs ranges_ok_def)
  define ys where "ys = L @ concat (map (pieces rem) M) @ R"
  have find: "set_find rem xs = (if M = [] then None else Some (L, M @ R))"
    using set_find_split [OF tw(2,1) M R _ rem'] ne by simp
  have loop: "remove_loop rem L (M @ R) 0 = (ys, wsum xs - wsum ys)" and oky: "ranges_ok ys"
    using remove_loop_split [of L M R rem 0] ok rem M R by (simp_all add: xs ys_def)
  have eq: "remove_ranges rem xs = (ys, wsum xs - wsum ys)"
    unfolding remove_ranges_def find using loop by (simp add: xs ys_def)
  have "\<not> survives rem e" if "e \<in> set L \<union> set R" for e
  proof -
    from that have "r_begin e < r_end e" "r_end e < r_begin rem \<or> r_end rem < r_begin e"
      using L R ne by auto
    then show ?thesis by (auto simp: survives_def)
  qed
  then have nosurv: "filter (survives rem) L = []" "filter (survives rem) R = []"
    by (simp_all add: filter_empty_conv)
  have away: "cover L \<inter> points rem = {}" "cover R \<inter> points rem = {}"
    using L R by (force simp: cover_def points_def)+
  have "cover ys = (cover xs - points rem) \<union> cover (filter (survives rem) xs)"
    using cover_pieces [of M rem] M ne rem away nosurv by (auto simp: ys_def xs)
  moreover have "cover (filter (survives rem) xs) \<subseteq> cover xs" by (auto simp: cover_def)
  ultimately have sub: "cover ys \<subseteq> cover xs"
    and cov: "cover ys = (cover xs - points rem) \<union> cover (filter (survives rem) xs)" by auto
  have "card (cover ys) \<le> card (cover xs)" by (rule card_mono) (use sub in auto)
  moreover have "unat (of_nat (card (cover xs)) - of_nat (card (cover ys)) :: u64)
      = card (cover xs) - card (cover ys)"
    using calculation card_cover_bound [of xs] by (simp flip: of_nat_diff add: unat_of_nat)
  ultimately show "ranges_ok (fst (remove_ranges rem xs))"
    "cover (fst (remove_ranges rem xs)) = (cover xs - points rem) \<union> cover (filter (survives rem) xs)"
    "unat (snd (remove_ranges rem xs)) = card (cover xs) - card (cover (fst (remove_ranges rem xs)))"
    using cov oky ok by (simp_all add: eq wsum_card)
qed

lemma removeRange_alt:
  "removeRange b len w =
     (let rem = Range b (b + len); (ys, n) = remove_ranges rem (wc_hitRanges w) in
      (case set_find rem (wc_hitRanges w) of
         None \<Rightarrow> (w, 0)
       | Some _ \<Rightarrow>
           ((if wc_isMaxFresh w then w
             else w\<lparr>wc_max := max (getWorkset w) (wc_max w), wc_isMaxFresh := True\<rparr>)
            \<lparr>wc_hitRanges := ys\<rparr>, n)))"
  by (simp add: removeRange_def remove_ranges_def Let_def split: option.split prod.split)

subsection \<open>The operations\<close>

lemma workset_new_ok [simp]: "workset_ok workset_new"
  by (simp add: workset_ok_def workset_new_def)

lemma insertRange_zero [simp]: "insertRange b 0 w = w"
  by (simp add: insertRange_def)

lemma workset_ok_insertRange:
  assumes "workset_ok w" "no_wrap b len"
  shows "workset_ok (insertRange b len w)"
    and "cover (wc_hitRanges (insertRange b len w)) = cover (wc_hitRanges w) \<union> {b..<b + len}"
proof -
  have ins: "ranges_ok (insert_ranges (Range b (b + len)) (wc_hitRanges w)) \<and>
      cover (insert_ranges (Range b (b + len)) (wc_hitRanges w)) =
        cover (wc_hitRanges w) \<union> {b..<b + len}" if "len \<noteq> 0"
    using insert_ranges_correct [of "wc_hitRanges w" "Range b (b + len)"] assms that
    by (simp add: workset_ok_def u64_less_add points_def)
  then show "workset_ok (insertRange b len w)"
    and "cover (wc_hitRanges (insertRange b len w)) = cover (wc_hitRanges w) \<union> {b..<b + len}"
    using assms by (cases "len = 0"; simp add: insertRange_alt workset_ok_def)+
qed

lemma getWorkset_insertRange:
  assumes "workset_ok w" "no_wrap b len"
  shows "unat (getWorkset (insertRange b len w)) =
    max (unat (getWorkset w)) (card (cover (wc_hitRanges (insertRange b len w))))"
proof -
  have "card (cover (wc_hitRanges w)) \<le> card (cover (wc_hitRanges (insertRange b len w)))"
    using workset_ok_insertRange [OF assms] by (intro card_mono) auto
  moreover have "wc_max (insertRange b len w) = wc_max w" by (simp add: insertRange_alt)
  ultimately show ?thesis
    using workset_ok_insertRange(1) [OF assms] assms(1) by (simp add: unat_getWorkset)
qed

lemma removeRange_props:
  assumes ok: "workset_ok w" and len: "len \<noteq> 0" "no_wrap b len"
    and w': "removeRange b len w = (w', n)"
  shows "workset_ok w'"
    and "cover (wc_hitRanges w') = (cover (wc_hitRanges w) - {b..<b + len}) \<union>
      cover (filter (survives (Range b (b + len))) (wc_hitRanges w))"
    and "unat n = card (cover (wc_hitRanges w)) - card (cover (wc_hitRanges w'))"
    and "getWorkset w' = getWorkset w"
proof -
  define rem where "rem = Range b (b + len)"
  have rem: "r_begin rem < r_end rem" using len by (simp add: rem_def u64_less_add)
  have okr: "ranges_ok (wc_hitRanges w)" using ok by (simp add: workset_ok_def)
  note R = remove_ranges_correct [OF okr rem]
  have pts: "points rem = {b..<b + len}" by (simp add: rem_def points_def)
  have surv: "cover (filter (survives rem) (wc_hitRanges w)) \<subseteq> cover (wc_hitRanges w)"
    by (auto simp: cover_def)
  show cov: "cover (wc_hitRanges w') = (cover (wc_hitRanges w) - {b..<b + len}) \<union>
      cover (filter (survives (Range b (b + len))) (wc_hitRanges w))"
    using w' R pts by (auto simp: removeRange_alt remove_ranges_def Let_def rem_def
        split: option.splits prod.splits if_splits)
  have sub: "card (cover (wc_hitRanges w')) \<le> card (cover (wc_hitRanges w))"
    using cov surv by (intro card_mono) (auto simp: rem_def)
  show n: "unat n = card (cover (wc_hitRanges w)) - card (cover (wc_hitRanges w'))"
    using w' R by (auto simp: removeRange_alt remove_ranges_def Let_def rem_def
        split: option.splits prod.splits if_splits)
  have max: "unat (wc_max w') = unat (getWorkset w) \<and> wc_isMaxFresh w' \<or> w' = w"
    using w' ok by (auto simp: removeRange_alt Let_def unat_getWorkset workset_ok_def
        unat_max_word getWorkset_def max_def word_le_nat_alt
        split: option.splits prod.splits if_splits)
  have okr': "ranges_ok (wc_hitRanges w')"
    using w' R okr by (auto simp: removeRange_alt Let_def rem_def
        split: option.splits prod.splits if_splits)
  show ok': "workset_ok w'"
    using max okr' sub ok by (auto simp: workset_ok_def unat_getWorkset)
  show "getWorkset w' = getWorkset w"
  proof (cases "w' = w")
    case False
    with max have "unat (wc_max w') = unat (getWorkset w)" "wc_isMaxFresh w'" by auto
    then show ?thesis by (simp add: getWorkset_def [of w'] word_unat_eq_iff)
  qed simp
qed

subsection \<open>The contract its clients rely on\<close>

text \<open>
  \<open>WorksetCalculatorDevices\<close> and \<open>IoStatistics\<close> insert and remove ranges and read the size;
  they rely on the laws below, not on how the ranges are kept.
\<close>

locale range_tracker =
  fixes ok :: "'w \<Rightarrow> bool"
    and holds :: "'w \<Rightarrow> u64 set"
    and ins :: "u64 \<Rightarrow> u64 \<Rightarrow> 'w \<Rightarrow> 'w"
    and rem :: "u64 \<Rightarrow> u64 \<Rightarrow> 'w \<Rightarrow> 'w \<times> u64"
    and size_of :: "'w \<Rightarrow> u64"
  assumes ok_ins: "ok w \<Longrightarrow> no_wrap b l \<Longrightarrow> ok (ins b l w)"
    and holds_ins: "ok w \<Longrightarrow> no_wrap b l \<Longrightarrow> holds (ins b l w) = holds w \<union> {b..<b + l}"
    and size_ins: "ok w \<Longrightarrow> no_wrap b l \<Longrightarrow>
      unat (size_of (ins b l w)) = max (unat (size_of w)) (card (holds (ins b l w)))"
    and ok_rem: "ok w \<Longrightarrow> l \<noteq> 0 \<Longrightarrow> no_wrap b l \<Longrightarrow> ok (fst (rem b l w))"
    and holds_rem: "ok w \<Longrightarrow> l \<noteq> 0 \<Longrightarrow> no_wrap b l \<Longrightarrow>
      holds w - {b..<b + l} \<subseteq> holds (fst (rem b l w)) \<and> holds (fst (rem b l w)) \<subseteq> holds w"
    and size_rem: "ok w \<Longrightarrow> l \<noteq> 0 \<Longrightarrow> no_wrap b l \<Longrightarrow>
      size_of (fst (rem b l w)) = size_of w"
    and size_bound: "ok w \<Longrightarrow> card (holds w) \<le> unat (size_of w)"
begin

lemma size_ins_mono:
  "ok w \<Longrightarrow> no_wrap b l \<Longrightarrow> size_of w \<le> size_of (ins b l w)"
  by (simp add: word_le_nat_alt size_ins)

lemma size_ins_step:
  assumes "ok w" "no_wrap b l"
  shows "unat (size_of (ins b l w)) \<le> unat (size_of w) + unat l"
proof -
  have "card (holds (ins b l w)) \<le> card (holds w) + card {b..<b + l}"
    by (simp add: assms holds_ins card_Un_le)
  also have "\<dots> \<le> unat (size_of w) + unat l"
    using size_bound [OF assms(1)] assms(2) by (simp add: card_u64_interval u64_add_no_wrap)
  finally show ?thesis using size_ins [OF assms] by simp
qed

lemma holds_ins_rem:
  assumes "ok w" "l \<noteq> 0" "no_wrap b l"
  shows "holds (ins b l (fst (rem b l w))) = holds w \<union> {b..<b + l}"
  using holds_rem [OF assms] holds_ins [OF ok_rem [OF assms] assms(3)] by auto

end

interpretation wc: range_tracker workset_ok "\<lambda>w. cover (wc_hitRanges w)"
  insertRange removeRange getWorkset
proof
  fix w :: workset and b l :: u64
  assume ok: "workset_ok w" and b: "no_wrap b l"
  show "workset_ok (insertRange b l w)" using ok b by (rule workset_ok_insertRange)
  show "cover (wc_hitRanges (insertRange b l w)) = cover (wc_hitRanges w) \<union> {b..<b + l}"
    using ok b by (rule workset_ok_insertRange)
  show "unat (getWorkset (insertRange b l w)) =
      max (unat (getWorkset w)) (card (cover (wc_hitRanges (insertRange b l w))))"
    using ok b by (rule getWorkset_insertRange)
  assume l: "l \<noteq> 0"
  note rem = removeRange_props [OF ok l b prod.collapse [symmetric]]
  show "workset_ok (fst (removeRange b l w))" by (rule rem(1))
  show "cover (wc_hitRanges w) - {b..<b + l} \<subseteq> cover (wc_hitRanges (fst (removeRange b l w))) \<and>
      cover (wc_hitRanges (fst (removeRange b l w))) \<subseteq> cover (wc_hitRanges w)"
    unfolding rem(2) by (auto simp: cover_def)
  show "getWorkset (fst (removeRange b l w)) = getWorkset w" by (rule rem(4))
qed (simp add: unat_getWorkset)

subsection \<open>Properties\<close>

datatype wop = Insert u64 u64 | Remove u64 u64

fun wop_valid :: "wop \<Rightarrow> bool" where
  "wop_valid (Insert b l) \<longleftrightarrow> no_wrap b l"
| "wop_valid (Remove b l) \<longleftrightarrow> l \<noteq> 0 \<and> no_wrap b l"

fun wop_step :: "wop \<Rightarrow> workset \<Rightarrow> workset" where
  "wop_step (Insert b l) w = insertRange b l w"
| "wop_step (Remove b l) w = fst (removeRange b l w)"

text \<open>The sizes of the covered set along a history, the start included.\<close>

fun sizes :: "workset \<Rightarrow> wop list \<Rightarrow> nat list" where
  "sizes w [] = [card (cover (wc_hitRanges w))]"
| "sizes w (x # xs) = card (cover (wc_hitRanges w)) # sizes (wop_step x w) xs"

lemma sizes_nonempty [simp]: "sizes w xs \<noteq> []"
  by (cases xs) auto

lemma fold_wop_peak:
  assumes "workset_ok w" "list_all wop_valid xs"
  shows "workset_ok (fold wop_step xs w) \<and>
    unat (getWorkset (fold wop_step xs w)) = max (unat (getWorkset w)) (Max (set (sizes w xs)))"
  using assms
proof (induction xs arbitrary: w)
  case Nil
  then show ?case using wc.size_bound [of w] by simp
next
  case (Cons x xs)
  have "workset_ok (wop_step x w) \<and> unat (getWorkset (wop_step x w)) =
       max (unat (getWorkset w)) (card (cover (wc_hitRanges (wop_step x w))))"
  proof (cases x)
    case (Insert b l)
    with Cons.prems show ?thesis by (simp add: wc.ok_ins wc.size_ins)
  next
    case (Remove b l)
    with Cons.prems have "workset_ok (wop_step x w)" "getWorkset (wop_step x w) = getWorkset w"
      by (simp_all add: wc.ok_rem wc.size_rem)
    then show ?thesis using wc.size_bound [of "wop_step x w"] by simp
  qed
  then have step: "workset_ok (wop_step x w)" "unat (getWorkset (wop_step x w)) =
       max (unat (getWorkset w)) (card (cover (wc_hitRanges (wop_step x w))))" by simp_all
  have "card (cover (wc_hitRanges (wop_step x w))) \<le> Max (set (sizes (wop_step x w) xs))"
    by (cases xs) auto
  moreover have "card (cover (wc_hitRanges w)) \<le> unat (getWorkset w)"
    using Cons.prems by (simp add: wc.size_bound)
  ultimately show ?case
    using Cons.IH [OF step(1)] Cons.prems step(2) by simp
qed

subsection \<open>What a history holds\<close>

text \<open>
  The addresses a history of insertions and removals leaves, from sets of addresses alone. A
  maximal run of a set is an interval of it that no address next to it extends. A removal takes
  the interval out, except for the maximal runs inside of it: \<open>removeRange\<close> of the code erases a
  stored range when an end of it is outside of the interval or when it is the interval itself, and
  passes over one that is properly inside (WorksetCalculator.cpp:215), although the header
  promises to remove the whole range.
\<close>

definition maximal_run :: "u64 set \<Rightarrow> u64 \<Rightarrow> u64 \<Rightarrow> bool" where
  "maximal_run A a c \<longleftrightarrow> a < c \<and> {a..<c} \<subseteq> A \<and> c \<notin> A \<and> (a = 0 \<or> a - 1 \<notin> A)"

definition runs_inside :: "u64 \<Rightarrow> u64 \<Rightarrow> u64 set \<Rightarrow> u64 set" where
  "runs_inside b e A =
     \<Union>{{a..<c} | a c. maximal_run A a c \<and> b \<le> a \<and> c \<le> e \<and> \<not> (a = b \<and> c = e)}"

fun held :: "wop \<Rightarrow> u64 set \<Rightarrow> u64 set" where
  "held (Insert b l) A = A \<union> {b..<b + l}"
| "held (Remove b l) A = (A - {b..<b + l}) \<union> runs_inside b (b + l) A"

fun held_sizes :: "u64 set \<Rightarrow> wop list \<Rightarrow> nat list" where
  "held_sizes A [] = [card A]"
| "held_sizes A (x # xs) = card A # held_sizes (held x A) xs"

lemma ranges_ok_apart:
  "ranges_ok xs \<Longrightarrow> r \<in> set xs \<Longrightarrow> s \<in> set xs \<Longrightarrow>
     r = s \<or> r_end r < r_begin s \<or> r_end s < r_begin r"
  by (induction xs) (auto simp: ranges_ok_Cons)

lemma u64_pred:
  fixes a x :: u64
  assumes "a \<noteq> 0"
  shows "x \<le> a - 1 \<longleftrightarrow> x < a" "a - 1 < x \<longleftrightarrow> a \<le> x"
proof -
  have "unat (a - 1) = unat a - 1" "0 < unat a" using assms by (simp_all add: unat_minus_one unat_gt_0)
  then show "x \<le> a - 1 \<longleftrightarrow> x < a" "a - 1 < x \<longleftrightarrow> a \<le> x" by (auto simp: word_le_nat_alt word_less_nat_alt)
qed

lemma cover_ends:
  assumes "ranges_ok xs" "r \<in> set xs"
  shows "r_end r \<notin> cover xs" "r_begin r = 0 \<or> r_begin r - 1 \<notin> cover xs"
proof -
  have r: "r_begin r < r_end r" using assms by (rule ranges_ok_nonempty)
  have "r_end r \<notin> points s \<and> (r_begin r = 0 \<or> r_begin r - 1 \<notin> points s)" if s: "s \<in> set xs" for s
  proof -
    have "s = r \<or> r_end r < r_begin s \<or> r_end s < r_begin r"
      using ranges_ok_apart [OF assms s] by auto
    then show ?thesis
      by (cases "r_begin r = 0") (use r in \<open>auto simp: points_def u64_pred not_less not_le\<close>)
  qed
  then show "r_end r \<notin> cover xs" "r_begin r = 0 \<or> r_begin r - 1 \<notin> cover xs"
    by (auto simp: cover_def)
qed

lemma maximal_run_cover:
  assumes ok: "ranges_ok xs"
  shows "maximal_run (cover xs) a c \<longleftrightarrow> Range a c \<in> set xs"
proof
  assume "Range a c \<in> set xs"
  then show "maximal_run (cover xs) a c"
    using cover_ends [OF ok] ranges_ok_nonempty [OF ok]
    by (force simp: maximal_run_def cover_def points_def)
next
  assume run: "maximal_run (cover xs) a c"
  then have "a \<in> cover xs" by (auto simp: maximal_run_def)
  then obtain r where r: "r \<in> set xs" "r_begin r \<le> a" "a < r_end r" by (auto simp: cover_def points_def)
  have inside: "x \<in> cover xs" if "r_begin r \<le> x" "x < r_end r" for x
    using that r(1) by (auto simp: cover_def points_def)
  have "r_begin r = a"
  proof (rule ccontr)
    assume "r_begin r \<noteq> a"
    with r(2) have lt: "r_begin r < a" by simp
    then have "a \<noteq> 0" by auto
    have "a - 1 < a" using u64_pred(1) [OF \<open>a \<noteq> 0\<close>, of "a - 1"] by simp
    then have "a - 1 \<in> cover xs"
      using lt r(3) u64_pred(1) [OF \<open>a \<noteq> 0\<close>] by (intro inside) auto
    then show False using run \<open>a \<noteq> 0\<close> by (auto simp: maximal_run_def)
  qed
  moreover have "r_end r = c"
  proof (rule linorder_cases [of "r_end r" c])
    assume "r_end r < c"
    then have "r_end r \<in> cover xs" using run r(3) by (auto simp: maximal_run_def subset_iff)
    then show ?thesis using cover_ends(1) [OF ok r(1)] by simp
  next
    assume "c < r_end r"
    moreover have "r_begin r \<le> c" using run r(2) by (auto simp: maximal_run_def)
    ultimately show ?thesis using inside run by (auto simp: maximal_run_def)
  qed
  ultimately show "Range a c \<in> set xs" using r(1) by (cases r) simp
qed

lemma runs_inside_cover:
  assumes "ranges_ok xs"
  shows "runs_inside b e (cover xs) = cover (filter (survives (Range b e)) xs)"
proof -
  have "x \<in> runs_inside b e (cover xs) \<longleftrightarrow> (\<exists>r \<in> set xs. survives (Range b e) r \<and> x \<in> points r)" for x
  proof
    assume "x \<in> runs_inside b e (cover xs)"
    then obtain a c where "Range a c \<in> set xs" "b \<le> a" "c \<le> e" "\<not> (a = b \<and> c = e)" "x \<in> {a..<c}"
      by (auto simp: runs_inside_def maximal_run_cover [OF assms])
    then show "\<exists>r \<in> set xs. survives (Range b e) r \<and> x \<in> points r"
      by (intro bexI [of _ "Range a c"]) (auto simp: survives_def points_def)
  next
    assume "\<exists>r \<in> set xs. survives (Range b e) r \<and> x \<in> points r"
    then obtain a c where "Range a c \<in> set xs" "survives (Range b e) (Range a c)" "x \<in> {a..<c}"
      by (metis points_def wrange.collapse)
    then show "x \<in> runs_inside b e (cover xs)"
      unfolding runs_inside_def maximal_run_cover [OF assms] survives_def
      by (intro UnionI [of "{a..<c}"] CollectI exI [of _ a] exI [of _ c]) auto
  qed
  then show ?thesis by (auto simp: cover_def)
qed

lemma held_step:
  assumes "workset_ok w" "wop_valid x"
  shows "cover (wc_hitRanges (wop_step x w)) = held x (cover (wc_hitRanges w))"
proof (cases x)
  case (Insert b l)
  then show ?thesis using assms by (simp add: wc.holds_ins)
next
  case (Remove b l)
  have "cover (wc_hitRanges (fst (removeRange b l w))) = (cover (wc_hitRanges w) - {b..<b + l}) \<union>
      cover (filter (survives (Range b (b + l))) (wc_hitRanges w))"
    using removeRange_props(2) [OF assms(1) _ _ prod.collapse [symmetric]] assms(2) Remove
    by (simp add: points_def)
  then show ?thesis
    using assms(1) Remove by (simp add: runs_inside_cover workset_ok_def)
qed

lemma wop_step_ok: "workset_ok w \<Longrightarrow> wop_valid x \<Longrightarrow> workset_ok (wop_step x w)"
  by (cases x) (simp_all add: wc.ok_ins wc.ok_rem)

lemma held_history:
  assumes "workset_ok w" "list_all wop_valid xs"
  shows "cover (wc_hitRanges (fold wop_step xs w)) = fold held xs (cover (wc_hitRanges w)) \<and>
    sizes w xs = held_sizes (cover (wc_hitRanges w)) xs"
  using assms by (induction xs arbitrary: w) (simp_all add: held_step wop_step_ok)

text \<open>
  Property C1. Inserting a range keeps the stored ranges disjoint, separated and in order, and
  the set of covered addresses becomes its union with the inserted interval, whatever ranges
  it overlaps, touches or lies inside of.
\<close>

theorem insertRange_correct:
  assumes "workset_ok w" "no_wrap b len"
  shows "workset_ok (insertRange b len w) \<and>
    cover (wc_hitRanges (insertRange b len w)) = cover (wc_hitRanges w) \<union> {b..<b + len}"
  using wc.ok_ins wc.holds_ins assms by blast

theorem insertRange_correct_witness:
  "workset_ok (insertRange 5 10 (insertRange 12 8 workset_new)) \<and>
   cover (wc_hitRanges (insertRange 5 10 (insertRange 12 8 workset_new))) =
     cover (wc_hitRanges (insertRange 12 8 workset_new)) \<union> {5..<5 + 10}"
  by (rule insertRange_correct) (simp_all add: wc.ok_ins no_wrap_def)

text \<open>
  Removing a range keeps the set well formed, never changes the reported workset
  and returns the number of addresses that were dropped. What is dropped is the interval,
  except where a stored range lies strictly inside it: such a range survives.
\<close>

theorem removeRange_correct:
  assumes "workset_ok w" "len \<noteq> 0" "no_wrap b len"
    and "removeRange b len w = (w', n)"
  shows "workset_ok w' \<and>
    cover (wc_hitRanges w') = (cover (wc_hitRanges w) - {b..<b + len}) \<union>
      cover (filter (survives (Range b (b + len))) (wc_hitRanges w)) \<and>
    unat n = card (cover (wc_hitRanges w)) - card (cover (wc_hitRanges w')) \<and>
    getWorkset w' = getWorkset w"
  using removeRange_props [OF assms] by blast

text \<open>The witness removes [0, 100) where [10, 20) is stored: the range inside survives.\<close>

lemma remove_inside_example:
  "removeRange 0 100 (insertRange 10 10 workset_new) =
     (\<lparr>wc_hitRanges = [Range 10 20], wc_max = 10, wc_isMaxFresh = True\<rparr>, 0)"
  by code_simp

theorem removeRange_correct_witness:
  "workset_ok \<lparr>wc_hitRanges = [Range 10 20], wc_max = 10, wc_isMaxFresh = True\<rparr> \<and>
   cover [Range 10 20] =
     (cover (wc_hitRanges (insertRange 10 10 workset_new)) - {0..<0 + 100}) \<union>
     cover (filter (survives (Range 0 (0 + 100))) (wc_hitRanges (insertRange 10 10 workset_new)))"
proof -
  have "workset_ok (insertRange 10 10 workset_new)"
    by (rule wc.ok_ins) (simp_all add: no_wrap_def)
  from removeRange_correct [OF this _ _ remove_inside_example] show ?thesis
    by (simp add: no_wrap_def)
qed



end
