(* ===== verification/Workset_Devices.thy ===== *)
theory Workset_Devices
  imports Std_Map Workset
begin

section \<open>The worksets of several devices\<close>

text \<open>
  \<open>WorksetCalculatorDevices\<close> (source/octf/analytics/statistics/WorksetCalculatorDevices.cpp):
  one workset calculator per device, created on first use, and the sum of their worksets. Its
  copy and move operations are those of the map. The proofs use the calculators only through
  the facts of \<open>range_tracker\<close> and the map only through those of \<open>keyed_store\<close>.
\<close>

type_synonym workset_devices = "(u64, workset) std_map"

definition devices_new :: workset_devices where
  "devices_new = []"

text \<open>
  \<open>getWorksetCalculatorByDevice\<close> returns a reference into the map: the map with the
  calculator in it, and the calculator. A caller that changes it puts it back.
\<close>

definition getWorksetCalculatorByDevice ::
    "u64 \<Rightarrow> workset_devices \<Rightarrow> (workset_devices \<times> workset) res" where
  "getWorksetCalculatorByDevice devId m =
     (case map_find m devId of
        Some w \<Rightarrow> Inr (m, w)
      | None \<Rightarrow>
          let (m', inserted) = map_emplace devId workset_new m
          in if \<not> inserted
             then Inl (Octf_Exception ''Cannot create working set calculator for device'')
             else Inr (m', workset_new))"

definition devices_insertRange ::
    "u64 \<Rightarrow> u64 \<Rightarrow> u64 \<Rightarrow> workset_devices \<Rightarrow> workset_devices res" where
  "devices_insertRange devId b len m =
     and_then (getWorksetCalculatorByDevice devId m)
       (\<lambda>(m', w). Inr (map_put devId (insertRange b len w) m'))"

definition devices_removeRange ::
    "u64 \<Rightarrow> u64 \<Rightarrow> u64 \<Rightarrow> workset_devices \<Rightarrow> (workset_devices \<times> u64) res" where
  "devices_removeRange devId b len m =
     and_then (getWorksetCalculatorByDevice devId m)
       (\<lambda>(m', w). let (w', n) = removeRange b len w in Inr (map_put devId w' m', n))"

definition devices_getWorkset :: "workset_devices \<Rightarrow> u64" where
  "devices_getWorkset m = fold (\<lambda>e acc. acc + getWorkset (snd e)) m 0"

subsection \<open>What the devices hold\<close>

definition device_workset :: "workset_devices \<Rightarrow> u64 \<Rightarrow> workset" where
  "device_workset m d = (case map_find m d of None \<Rightarrow> workset_new | Some w \<Rightarrow> w)"

definition devices_ok :: "workset_devices \<Rightarrow> bool" where
  "devices_ok m \<longleftrightarrow> map_ok m \<and> map_all workset_ok m"

lemma devices_new_ok [simp]: "devices_ok devices_new"
  by (simp add: devices_ok_def devices_new_def)

lemma device_workset_ok: "devices_ok m \<Longrightarrow> workset_ok (device_workset m d)"
  by (auto simp: devices_ok_def device_workset_def map_all_find split: option.splits)

lemma device_workset_put:
  "map_ok m \<Longrightarrow> device_workset (map_put d w m) d' = (if d' = d then w else device_workset m d')"
  by (simp add: device_workset_def sm.find_put)

lemma getWorksetCalculator_total:
  assumes "devices_ok m"
  obtains m' where "getWorksetCalculatorByDevice d m = Inr (m', device_workset m d)"
    "devices_ok m'" "\<And>w. map_put d w m' = map_put d w m"
proof (cases "map_find m d")
  case None
  let ?m = "map_put d workset_new m"
  have "getWorksetCalculatorByDevice d m = Inr (?m, device_workset m d)"
    using None by (simp add: getWorksetCalculatorByDevice_def map_emplace_def device_workset_def)
  moreover have "devices_ok ?m"
    using assms by (simp add: devices_ok_def sm.ok_put map_all_put)
  moreover have "map_put d w ?m = map_put d w m" for w by simp
  ultimately show thesis by (rule that)
next
  case (Some w)
  then show thesis
    using assms by (intro that [of m]) (simp_all add: getWorksetCalculatorByDevice_def device_workset_def)
qed

lemma devices_put_ok: "devices_ok m \<Longrightarrow> workset_ok w \<Longrightarrow> devices_ok (map_put d w m)"
  by (simp add: devices_ok_def sm.ok_put map_all_put)

lemma devices_insertRange_result:
  assumes "devices_ok m"
  shows "devices_insertRange d b l m = Inr (map_put d (insertRange b l (device_workset m d)) m)"
  using getWorksetCalculator_total [OF assms, of d]
  by (metis (no_types, lifting) and_then_simps(2) case_prod_conv devices_insertRange_def)

lemma devices_removeRange_result:
  assumes "devices_ok m"
  shows "devices_removeRange d b l m =
     Inr (map_put d (fst (removeRange b l (device_workset m d))) m,
          snd (removeRange b l (device_workset m d)))"
proof -
  obtain m' where "getWorksetCalculatorByDevice d m = Inr (m', device_workset m d)"
    "\<And>w. map_put d w m' = map_put d w m"
    using getWorksetCalculator_total [OF assms, of d] by metis
  then show ?thesis by (simp add: devices_removeRange_def Let_def split: prod.splits)
qed

text \<open>The sum over the map, one entry taken out of it.\<close>

definition workset_total :: "workset_devices \<Rightarrow> nat" where
  "workset_total m = sum_list (map (\<lambda>e. unat (getWorkset (snd e))) m)"

lemma devices_getWorkset_sum: "devices_getWorkset m = of_nat (workset_total m)"
proof -
  have "fold (\<lambda>e acc. acc + getWorkset (snd e)) m a = a + of_nat (workset_total m)" for a
    by (induction m arbitrary: a) (simp_all add: workset_total_def add.assoc)
  then show ?thesis by (simp add: devices_getWorkset_def)
qed

lemma workset_total_keys:
  assumes "map_ok m" "fst ` set m \<subseteq> D" "finite D"
  shows "workset_total m = (\<Sum>d\<in>D. unat (getWorkset (device_workset m d)))"
proof -
  have "distinct (map fst m)" using assms(1) by (auto simp: map_ok_def strict_sorted_iff)
  then have "workset_total m = (\<Sum>e\<in>set m. unat (getWorkset (snd e)))"
    by (simp add: workset_total_def distinct_map sum_list_distinct_conv_sum_set)
  also have "\<dots> = (\<Sum>d\<in>fst ` set m. unat (getWorkset (device_workset m d)))"
  proof (subst sum.reindex)
    show "inj_on fst (set m)" using \<open>distinct (map fst m)\<close> by (simp add: distinct_map)
    show "(\<Sum>e\<in>set m. unat (getWorkset (snd e))) =
        sum ((\<lambda>d. unat (getWorkset (device_workset m d))) \<circ> fst) (set m)"
    proof (rule sum.cong [OF refl])
      fix e assume "e \<in> set m"
      then have "map_find m (fst e) = Some (snd e)" by (simp add: map_find_iff [OF assms(1)])
      then show "unat (getWorkset (snd e)) =
          ((\<lambda>d. unat (getWorkset (device_workset m d))) \<circ> fst) e"
        by (simp add: device_workset_def)
    qed
  qed
  also have "\<dots> = (\<Sum>d\<in>D. unat (getWorkset (device_workset m d)))"
  proof (rule sum.mono_neutral_left [OF assms(3,2)], rule ballI)
    fix d assume "d \<in> D - fst ` set m"
    then have "map_find m d = None" by (simp add: map_find_None_iff)
    then show "unat (getWorkset (device_workset m d)) = 0"
      by (simp add: device_workset_def getWorkset_def workset_new_def)
  qed
  finally show ?thesis .
qed

subsection \<open>Properties\<close>

datatype dop = Dev_Insert u64 u64 u64 | Dev_Remove u64 u64 u64

fun dop_valid :: "dop \<Rightarrow> bool" where
  "dop_valid (Dev_Insert d b l) \<longleftrightarrow> no_wrap b l"
| "dop_valid (Dev_Remove d b l) \<longleftrightarrow> l \<noteq> 0 \<and> no_wrap b l"

fun dop_run :: "dop list \<Rightarrow> workset_devices \<Rightarrow> workset_devices res" where
  "dop_run [] m = Inr m"
| "dop_run (Dev_Insert d b l # xs) m = and_then (devices_insertRange d b l m) (dop_run xs)"
| "dop_run (Dev_Remove d b l # xs) m =
     and_then (devices_removeRange d b l m) (\<lambda>(m', _). dop_run xs m')"

text \<open>The part of a history that concerns one device.\<close>

fun dop_of :: "u64 \<Rightarrow> dop list \<Rightarrow> wop list" where
  "dop_of d [] = []"
| "dop_of d (Dev_Insert d' b l # xs) = (if d' = d then [Insert b l] else []) @ dop_of d xs"
| "dop_of d (Dev_Remove d' b l # xs) = (if d' = d then [Remove b l] else []) @ dop_of d xs"

fun dop_device :: "dop \<Rightarrow> u64" where
  "dop_device (Dev_Insert d b l) = d"
| "dop_device (Dev_Remove d b l) = d"

lemma dop_run_correct:
  assumes "devices_ok m" "list_all dop_valid xs"
  shows "\<exists>m'. dop_run xs m = Inr m' \<and> devices_ok m' \<and>
     fst ` set m' \<subseteq> fst ` set m \<union> dop_device ` set xs \<and>
     (\<forall>d. device_workset m' d = fold wop_step (dop_of d xs) (device_workset m d))"
  using assms
proof (induction xs arbitrary: m)
  case (Cons x xs)
  show ?case
  proof (cases x)
    case (Dev_Insert d b l)
    let ?m = "map_put d (insertRange b l (device_workset m d)) m"
    have "devices_ok ?m"
      using Cons.prems Dev_Insert by (simp add: devices_put_ok device_workset_ok wc.ok_ins)
    from Cons.IH [OF this] Cons.prems Dev_Insert show ?thesis
      by (auto simp: devices_insertRange_result device_workset_put devices_ok_def fst_set_map_put)
  next
    case (Dev_Remove d b l)
    let ?m = "map_put d (fst (removeRange b l (device_workset m d))) m"
    have "devices_ok ?m"
      using Cons.prems Dev_Remove by (simp add: devices_put_ok device_workset_ok wc.ok_rem)
    from Cons.IH [OF this] Cons.prems Dev_Remove show ?thesis
      by (auto simp: devices_removeRange_result device_workset_put devices_ok_def fst_set_map_put)
  qed
qed simp

lemma device_workset_new [simp]: "device_workset devices_new d = workset_new"
  by (simp add: device_workset_def devices_new_def)

text \<open>
  For every history of insertions and removals on any devices, in any interleaving,
  no operation fails and the reported workset is the sum, over the devices of the history, of
  the peak size each device's own operations give: operations on one device never influence
  another.
\<close>

theorem devices_workset_is_sum_of_peaks:
  assumes "list_all dop_valid xs"
  shows "\<exists>m. dop_run xs devices_new = Inr m \<and>
    devices_getWorkset m =
      of_nat (\<Sum>d\<in>dop_device ` set xs. Max (set (sizes workset_new (dop_of d xs))))"
proof -
  obtain m where m: "dop_run xs devices_new = Inr m" "devices_ok m"
    "fst ` set m \<subseteq> dop_device ` set xs"
    "\<And>d. device_workset m d = fold wop_step (dop_of d xs) workset_new"
    using dop_run_correct [OF devices_new_ok assms] unfolding device_workset_new
    by (auto simp: devices_new_def)
  have valid: "list_all wop_valid (dop_of d xs)" for d
    using assms by (induction d xs rule: dop_of.induct) auto
  have "unat (getWorkset (device_workset m d)) = Max (set (sizes workset_new (dop_of d xs)))" for d
    using fold_wop_peak [OF workset_new_ok valid [of d]] m(4)
    by (simp add: getWorkset_def [of workset_new] workset_new_def [THEN arg_cong, of wc_max]
        workset_new_def [THEN arg_cong, of wc_isMaxFresh])
  then have "workset_total m = (\<Sum>d\<in>dop_device ` set xs. Max (set (sizes workset_new (dop_of d xs))))"
    using workset_total_keys [OF _ m(3)] m(2) by (simp add: devices_ok_def)
  then show ?thesis using m(1) by (simp add: devices_getWorkset_sum)
qed

theorem devices_workset_is_sum_of_peaks_witness:
  "\<exists>m. dop_run [Dev_Insert 1 0 8, Dev_Insert 2 0 4, Dev_Remove 1 0 8] devices_new = Inr m \<and>
    devices_getWorkset m = of_nat (\<Sum>d\<in>dop_device `
        set [Dev_Insert 1 0 8, Dev_Insert 2 0 4, Dev_Remove 1 0 8].
      Max (set (sizes workset_new
        (dop_of d [Dev_Insert 1 0 8, Dev_Insert 2 0 4, Dev_Remove 1 0 8]))))"
  by (rule devices_workset_is_sum_of_peaks) (simp add: no_wrap_def)

end
