(* ===== verification/Distribution.thy ===== *)
theory Distribution
  imports Complex_Main Octf_Prelude
begin

section \<open>The distribution of values\<close>

text \<open>
  \<open>Distribution\<close> (source/octf/analytics/statistics/Distribution.cpp): a histogram whose
  buckets grow by a power of \<open>base\<close>, each split into the same number of ranges, with running
  total, count, minimum and maximum.

  \<open>double\<close> values are rationals. Each operation on doubles is the exact operation followed by
  the rounding \<open>rnd\<close> of the machine, which is a parameter: the theorems state what they need
  of it (that it is exact on integers up to \<open>2 ^ 53\<close>, or monotone). The conversion of a double
  to \<open>uint64_t\<close> truncates; outside the range of the type C++ leaves it undefined.
\<close>

record bucket =
  bk_Level :: u64
  bk_RangesCount :: u64
  bk_Begin :: u64
  bk_End :: u64
  bk_RangeSize :: u64
  bk_Sum :: "u64 list"
  bk_Count :: "u64 list"

definition u64_of_double :: "rat \<Rightarrow> u64 res" where
  "u64_of_double x =
     (if - 1 < x \<and> x < 18446744073709551616
      then Inr (word_of_int (if x < 0 then 0 else \<lfloor>x\<rfloor>))
      else Inl (Undefined_Behaviour ''conversion to uint64_t out of range''))"

definition double_of_u64 :: "(rat \<Rightarrow> rat) \<Rightarrow> u64 \<Rightarrow> rat" where
  "double_of_u64 rnd x = rnd (of_nat (unat x))"

definition double_pow :: "(rat \<Rightarrow> rat) \<Rightarrow> u64 \<Rightarrow> u64 \<Rightarrow> rat" where
  "double_pow rnd b e = rnd (of_nat (unat b) ^ unat e)"

definition new_bucket :: "(rat \<Rightarrow> rat) \<Rightarrow> u64 \<Rightarrow> u64 \<Rightarrow> u64 \<Rightarrow> bucket res" where
  "new_bucket rnd level ranges base =
     and_then
       (if level \<noteq> 0
        then u64_of_double (rnd (double_pow rnd base (level - 1) * double_of_u64 rnd ranges))
        else Inr 0) (\<lambda>bgn.
     and_then
       (u64_of_double (rnd (rnd (double_pow rnd base level * double_of_u64 rnd ranges) - 1))) (\<lambda>en.
     if ranges = 0 then Inl (Undefined_Behaviour ''division by zero'')
     else Inr \<lparr>bk_Level = level, bk_RangesCount = ranges, bk_Begin = bgn, bk_End = en,
               bk_RangeSize = (en - bgn + 1) div ranges,
               bk_Sum = replicate (unat ranges) 0, bk_Count = replicate (unat ranges) 0\<rparr>))"

definition bucket_count :: "u64 \<Rightarrow> bucket \<Rightarrow> bucket res" where
  "bucket_count v b =
     (if v < bk_Begin b \<or> v > bk_End b
      then Inl (Octf_Exception ''Updating wrong distribution bucket'')
      else if bk_RangeSize b = 0 then Inl (Undefined_Behaviour ''division by zero'')
      else let rangeId = (v - bk_Begin b) div bk_RangeSize b; i = unat rangeId
           in if rangeId < bk_RangesCount b then
                if i < length (bk_Sum b) \<and> i < length (bk_Count b) then
                  Inr (b\<lparr>bk_Sum := (bk_Sum b)[i := bk_Sum b ! i + v],
                         bk_Count := (bk_Count b)[i := bk_Count b ! i + 1]\<rparr>)
                else Inl (Undefined_Behaviour ''vector index out of range'')
              else Inl (Octf_Exception ''Updating distribution bucket fatal error''))"

record distribution =
  d_unit :: string
  d_ranges :: u64
  d_base :: u64
  d_total :: u64
  d_count :: u64
  d_min :: u64
  d_max :: u64
  d_histogram :: "bucket list"

definition distribution_new :: "string \<Rightarrow> u64 \<Rightarrow> u64 \<Rightarrow> distribution res" where
  "distribution_new unit' ranges base =
     (if base < 2 then Inl (Octf_Exception ''Invalid bucket base'')
      else Inr \<lparr>d_unit = unit', d_ranges = ranges, d_base = base, d_total = 0, d_count = 0,
                d_min = - 1, d_max = 0, d_histogram = []\<rparr>)"

text \<open>
  The search for the level of a value multiplies 64-bit words and may wrap around, so it may
  run forever for some configurations: it is a partial function.
\<close>

partial_function (option) find_level ::
    "u64 \<Rightarrow> u64 \<Rightarrow> u64 \<Rightarrow> u64 \<Rightarrow> u64 \<Rightarrow> u64 \<Rightarrow> u64 option" where
  "find_level ranges mbase v level en base =
     (if en < v
      then find_level ranges mbase v (level + 1) (base * mbase * ranges - 1) (base * mbase)
      else Some level)"

fun add_buckets ::
    "(rat \<Rightarrow> rat) \<Rightarrow> u64 \<Rightarrow> u64 \<Rightarrow> nat \<Rightarrow> bucket list \<Rightarrow> bucket list res" where
  "add_buckets rnd ranges base 0 hist = Inr hist"
| "add_buckets rnd ranges base (Suc n) hist =
     and_then (new_bucket rnd (of_nat (length hist)) ranges base)
       (\<lambda>b. add_buckets rnd ranges base n (hist @ [b]))"

text \<open>\<open>getBucket\<close> returns the histogram with the missing buckets and the index of the bucket.\<close>

definition getBucket :: "(rat \<Rightarrow> rat) \<Rightarrow> u64 \<Rightarrow> distribution \<Rightarrow> (distribution \<times> nat) res" where
  "getBucket rnd v d =
     (case find_level (d_ranges d) (d_base d) v 0 (d_ranges d - 1) 1 of
        None \<Rightarrow> Inl No_Return
      | Some level \<Rightarrow>
          and_then
            (if unat level \<ge> length (d_histogram d)
             then add_buckets rnd (d_ranges d) (d_base d)
                    (unat level + 1 - length (d_histogram d)) (d_histogram d)
             else Inr (d_histogram d))
            (\<lambda>hist. Inr (d\<lparr>d_histogram := hist\<rparr>, unat level)))"

definition dist_count :: "(rat \<Rightarrow> rat) \<Rightarrow> u64 \<Rightarrow> distribution \<Rightarrow> distribution res" where
  "dist_count rnd v d =
     (let d1 = d\<lparr>d_total := d_total d + v, d_count := d_count d + 1,
                 d_min := min (d_min d) v, d_max := max (d_max d) v\<rparr>
      in and_then (getBucket rnd v d1) (\<lambda>(d2, level).
         and_then (bucket_count v (d_histogram d2 ! level)) (\<lambda>b.
         Inr (d2\<lparr>d_histogram := (d_histogram d2)[level := b]\<rparr>))))"

record hist_range =
  hr_begin :: u64
  hr_end :: u64
  hr_count :: u64

fun bucket_ranges :: "u64 \<Rightarrow> u64 \<Rightarrow> u64 \<Rightarrow> u64 list \<Rightarrow> hist_range list" where
  "bucket_ranges rb re sz [] = []"
| "bucket_ranges rb re sz (c # cs) =
     \<lparr>hr_begin = rb, hr_end = re, hr_count = c\<rparr> # bucket_ranges (rb + sz) (re + sz) sz cs"

definition getHistogram :: "distribution \<Rightarrow> string \<times> hist_range list" where
  "getHistogram d =
     (d_unit d,
      if d_count d = 0 then []
      else concat (map (\<lambda>b. bucket_ranges (bk_Begin b) (bk_Begin b + bk_RangeSize b - 1)
                              (bk_RangeSize b) (bk_Count b)) (d_histogram d)))"

text \<open>
  The percentiles. The scan keeps the percentiles not reported yet; when none is left the code
  still evaluates \<open>PERCENTILES[iPercentile]\<close> before it tests the index, which reads past the
  end of the vector. The comparison's result does not matter then, and \<open>ps_oob\<close> records
  that the read took place.
\<close>

record percentile_scan =
  ps_rest :: "(string \<times> rat) list"
  ps_sum :: rat
  ps_found :: "(string \<times> rat) list"
  ps_oob :: bool

definition PERCENTILES :: "(rat \<Rightarrow> rat) \<Rightarrow> (string \<times> rat) list" where
  "PERCENTILES rnd =
     [(''90.000000th'', rnd 90), (''99.000000th'', rnd 99),
      (''99.900000th'', rnd (999 / 10)), (''99.990000th'', rnd (9999 / 100))]"

definition range_middle :: "(rat \<Rightarrow> rat) \<Rightarrow> bucket \<Rightarrow> nat \<Rightarrow> rat" where
  "range_middle rnd b rg =
     (let v = rnd (double_of_u64 rnd (bk_Begin b)
                + double_of_u64 rnd (bk_RangeSize b * of_nat rg))
      in if bk_RangeSize b > 1 then rnd (v + rnd (double_of_u64 rnd (bk_RangeSize b) / 2)) else v)"

fun report_percentiles ::
    "(rat \<Rightarrow> rat) \<Rightarrow> rat \<Rightarrow> rat \<Rightarrow> rat \<Rightarrow> (string \<times> rat) list \<Rightarrow> (string \<times> rat) list
      \<Rightarrow> (string \<times> rat) list \<times> (string \<times> rat) list \<times> bool" where
  "report_percentiles rnd tot acc v [] found = ([], found, True)"
| "report_percentiles rnd tot acc v ((name, p) # ps) found =
     (if acc > rnd (rnd (p * tot) / 100)
      then report_percentiles rnd tot acc v ps (found @ [(name, v)])
      else ((name, p) # ps, found, False))"

definition scan_range ::
    "(rat \<Rightarrow> rat) \<Rightarrow> rat \<Rightarrow> bucket \<Rightarrow> nat \<Rightarrow> percentile_scan \<Rightarrow> percentile_scan" where
  "scan_range rnd tot b rg s =
     (let acc = rnd (ps_sum s + double_of_u64 rnd (bk_Sum b ! rg));
          (rest, found, oob) =
            report_percentiles rnd tot acc (range_middle rnd b rg) (ps_rest s) (ps_found s)
      in \<lparr>ps_rest = rest, ps_sum = acc, ps_found = found, ps_oob = ps_oob s \<or> oob\<rparr>)"

definition scan_bucket :: "(rat \<Rightarrow> rat) \<Rightarrow> rat \<Rightarrow> bucket \<Rightarrow> percentile_scan \<Rightarrow> percentile_scan" where
  "scan_bucket rnd tot b s = fold (scan_range rnd tot b) [0..<length (bk_Sum b)] s"

definition scan_percentiles :: "(rat \<Rightarrow> rat) \<Rightarrow> distribution \<Rightarrow> percentile_scan" where
  "scan_percentiles rnd d =
     fold (scan_bucket rnd (double_of_u64 rnd (d_total d))) (d_histogram d)
       \<lparr>ps_rest = PERCENTILES rnd, ps_sum = 0, ps_found = [], ps_oob = False\<rparr>"

record stat_values =
  sv_unit :: string
  sv_average :: u64
  sv_min :: u64
  sv_max :: u64
  sv_total :: u64
  sv_percentiles :: "(string \<times> rat) list"

definition getStatistics :: "(rat \<Rightarrow> rat) \<Rightarrow> distribution \<Rightarrow> stat_values" where
  "getStatistics rnd d =
     \<lparr>sv_unit = d_unit d,
      sv_average = (if d_count d \<noteq> 0 then d_total d div d_count d else 0),
      sv_min = (if d_count d \<noteq> 0 then d_min d else 0),
      sv_max = d_max d, sv_total = d_total d,
      sv_percentiles =
        (if d_count d = 0 then [] else ps_found (scan_percentiles rnd d))\<rparr>"

subsection \<open>The specification: which cell a value falls in\<close>

text \<open>
  Level \<open>l\<close> holds the values from \<open>lvl_lo\<close> up to \<open>lvl_hi\<close>, in \<open>R\<close> ranges of \<open>lvl_size\<close> values
  each. These are the equations of the class's documentation, on natural numbers.
\<close>

definition lvl_hi :: "nat \<Rightarrow> nat \<Rightarrow> nat \<Rightarrow> nat" where
  "lvl_hi R B l = B ^ l * R"

definition lvl_lo :: "nat \<Rightarrow> nat \<Rightarrow> nat \<Rightarrow> nat" where
  "lvl_lo R B l = (if l = 0 then 0 else B ^ (l - 1) * R)"

definition lvl_size :: "nat \<Rightarrow> nat \<Rightarrow> nat" where
  "lvl_size B l = (if l = 0 then 1 else B ^ l - B ^ (l - 1))"

definition in_cell :: "nat \<Rightarrow> nat \<Rightarrow> nat \<Rightarrow> nat \<Rightarrow> nat \<Rightarrow> bool" where
  "in_cell R B l i v \<longleftrightarrow>
     lvl_lo R B l \<le> v \<and> v < lvl_hi R B l \<and> (v - lvl_lo R B l) div lvl_size B l = i"

definition spec_bucket :: "u64 \<Rightarrow> u64 \<Rightarrow> nat \<Rightarrow> u64 list \<Rightarrow> bucket" where
  "spec_bucket R B l vs =
     \<lparr>bk_Level = of_nat l, bk_RangesCount = R,
      bk_Begin = of_nat (lvl_lo (unat R) (unat B) l),
      bk_End = of_nat (lvl_hi (unat R) (unat B) l - 1),
      bk_RangeSize = of_nat (lvl_size (unat B) l),
      bk_Sum = map (\<lambda>i. sum_list (filter (\<lambda>v. in_cell (unat R) (unat B) l i (unat v)) vs)) [0..<unat R],
      bk_Count = map (\<lambda>i. of_nat (length (filter (\<lambda>v. in_cell (unat R) (unat B) l i (unat v)) vs)))
                   [0..<unat R]\<rparr>"

text \<open>
  \<open>represents d vs\<close>: the distribution \<open>d\<close> is what counting the values \<open>vs\<close>, in order, must
  give. Totals and counters are 64-bit words and wrap around like the code's.
\<close>

definition represents :: "distribution \<Rightarrow> u64 list \<Rightarrow> bool" where
  "represents d vs \<longleftrightarrow>
     2 \<le> unat (d_base d) \<and> 1 \<le> unat (d_ranges d) \<and> unat (d_ranges d) \<le> 2 ^ 53 \<and>
     d_total d = sum_list vs \<and> d_count d = of_nat (length vs) \<and>
     d_min d = fold min vs (- 1) \<and> d_max d = fold max vs 0 \<and>
     d_histogram d =
       map (\<lambda>l. spec_bucket (d_ranges d) (d_base d) l vs) [0..<length (d_histogram d)] \<and>
     (\<forall>v \<in> set vs. unat v < lvl_hi (unat (d_ranges d)) (unat (d_base d)) (length (d_histogram d) - 1)) \<and>
     (d_histogram d \<noteq> [] \<longrightarrow>
        lvl_hi (unat (d_ranges d)) (unat (d_base d)) (length (d_histogram d) - 1) \<le> 2 ^ 53) \<and>
     (vs \<noteq> [] \<longrightarrow> d_histogram d \<noteq> [])"

definition exact_integers :: "(rat \<Rightarrow> rat) \<Rightarrow> bool" where
  "exact_integers rnd \<longleftrightarrow> (\<forall>n::nat. n \<le> 2 ^ 53 \<longrightarrow> rnd (of_nat n) = of_nat n)"

lemma lvl_lo_Suc: "lvl_lo R B (Suc l) = lvl_hi R B l"
  by (simp add: lvl_lo_def lvl_hi_def)

lemma lvl_lo_0 [simp]: "lvl_lo R B 0 = 0"
  by (simp add: lvl_lo_def)

lemma lvl_hi_mono: "1 \<le> B \<Longrightarrow> l \<le> k \<Longrightarrow> lvl_hi R B l \<le> lvl_hi R B k"
  by (simp add: lvl_hi_def power_increasing)

lemma lvl_lo_le_hi: "1 \<le> B \<Longrightarrow> lvl_lo R B l \<le> lvl_hi R B l"
  by (cases l) (simp_all add: lvl_lo_Suc lvl_hi_mono)

lemma lvl_size_pos: "2 \<le> B \<Longrightarrow> 0 < lvl_size B l"
  by (cases l) (simp_all add: lvl_size_def)

lemma lvl_span: "1 \<le> B \<Longrightarrow> lvl_hi R B l - lvl_lo R B l = R * lvl_size B l"
  by (cases l) (simp_all add: lvl_lo_def lvl_hi_def lvl_size_def algebra_simps diff_mult_distrib2)

lemma in_cell_index:
  assumes "1 \<le> B" "in_cell R B l i v"
  shows "i < R"
proof -
  have "v - lvl_lo R B l < lvl_hi R B l - lvl_lo R B l"
    using assms(2) unfolding in_cell_def by linarith
  then have "v - lvl_lo R B l < R * lvl_size B l" unfolding lvl_span [OF assms(1)] .
  then have "(v - lvl_lo R B l) div lvl_size B l < R" by (rule less_mult_imp_div_less)
  then show ?thesis using assms(2) by (simp add: in_cell_def)
qed

lemma level_unique:
  assumes "1 \<le> B" "lvl_lo R B l \<le> v" "v < lvl_hi R B l" "lvl_lo R B k \<le> v" "v < lvl_hi R B k"
  shows "l = k"
proof (rule ccontr)
  assume "l \<noteq> k"
  then consider "l < k" | "k < l" by linarith
  then show False
  proof cases
    case 1
    then obtain j where k: "k = Suc j" "l \<le> j" by (metis Suc_le_D Suc_le_eq le_SucE not_less_eq_eq)
    then have "lvl_hi R B l \<le> lvl_lo R B k" using assms(1) by (simp add: lvl_lo_Suc lvl_hi_mono)
    with assms show False by simp
  next
    case 2
    then obtain j where l: "l = Suc j" "k \<le> j" by (metis Suc_le_D Suc_le_eq le_SucE not_less_eq_eq)
    then have "lvl_hi R B k \<le> lvl_lo R B l" using assms(1) by (simp add: lvl_lo_Suc lvl_hi_mono)
    with assms show False by simp
  qed
qed

lemma level_exists:
  assumes "2 \<le> B" "1 \<le> R"
  obtains l where "lvl_lo R B l \<le> v" "v < lvl_hi R B l"
proof -
  have "v < lvl_hi R B v"
  proof -
    have "v < B ^ v" using assms(1) by (meson less_exp order.strict_trans2 power_mono zero_le)
    also have "\<dots> \<le> B ^ v * R" using assms(2) by simp
    finally show ?thesis by (simp add: lvl_hi_def)
  qed
  define l where "l = (LEAST l. v < lvl_hi R B l)"
  have hi: "v < lvl_hi R B l" unfolding l_def by (rule LeastI) fact
  have "lvl_lo R B l \<le> v"
  proof (cases l)
    case (Suc k)
    then have "\<not> v < lvl_hi R B k" using not_less_Least [of k "\<lambda>l. v < lvl_hi R B l"] by (simp add: l_def)
    with Suc show ?thesis by (simp add: lvl_lo_Suc)
  qed simp
  with hi that show thesis by blast
qed

lemma lvl_hi_bound:
  assumes "lvl_lo R B l \<le> v" "R \<le> 2 ^ 53" "v * B \<le> 2 ^ 53"
  shows "lvl_hi R B l \<le> 2 ^ 53"
proof (cases l)
  case (Suc k)
  then have "lvl_hi R B l = lvl_lo R B l * B" by (simp add: lvl_hi_def lvl_lo_def)
  also have "\<dots> \<le> v * B" using assms(1) by simp
  finally show ?thesis using assms(3) by simp
qed (use assms in \<open>simp add: lvl_hi_def\<close>)

subsection \<open>The search for the level and the creation of buckets\<close>

lemma exact_integersD: "exact_integers rnd \<Longrightarrow> n \<le> 2 ^ 53 \<Longrightarrow> rnd (of_nat n) = of_nat n"
  unfolding exact_integers_def by blast

lemma small_u64: "n \<le> 2 ^ 53 \<Longrightarrow> unat (of_nat n :: u64) = n"
  by (simp add: unat_of_nat)

lemma find_level_finds:
  assumes "2 \<le> unat B" "1 \<le> unat R" "lvl_hi (unat R) (unat B) k \<le> 2 ^ 53"
    and "lvl_lo (unat R) (unat B) k \<le> unat v" "unat v < lvl_hi (unat R) (unat B) k" "l \<le> k"
  shows "find_level R B v (of_nat l) (of_nat (lvl_hi (unat R) (unat B) l - 1)) (of_nat (unat B ^ l)) =
           Some (of_nat k)"
  using assms(6)
proof (induction "k - l" arbitrary: l)
  case 0
  then have "l = k" by simp
  have "unat v \<le> unat (of_nat (lvl_hi (unat R) (unat B) k - 1) :: u64)"
    using assms(3,5) by (subst small_u64) simp_all
  with \<open>l = k\<close> show ?case by (subst find_level.simps) (simp add: word_less_nat_alt)
next
  case (Suc n)
  then have lk: "l < k" by simp
  then obtain j where k: "k = Suc j" "l \<le> j" by (metis Suc_le_D Suc_le_eq not_less_eq_eq less_imp_Suc_add le_add1)
  have lo: "lvl_hi (unat R) (unat B) l \<le> unat v"
    using assms(1,4) lvl_hi_mono [of "unat B" l j "unat R"] k by (simp add: lvl_lo_Suc)
  have pos: "0 < lvl_hi (unat R) (unat B) i" for i using assms(1,2) by (simp add: lvl_hi_def)
  have "unat (of_nat (lvl_hi (unat R) (unat B) l - 1) :: u64) < unat v"
    using lo pos [of l] lvl_hi_mono [of "unat B" l k "unat R"] assms(1,3) lk
    by (subst small_u64) simp_all
  moreover have "of_nat (unat B ^ l) * B * R - 1 = (of_nat (lvl_hi (unat R) (unat B) (Suc l) - 1) :: u64)"
    using pos [of "Suc l"] by (simp add: of_nat_diff lvl_hi_def mult_ac)
  moreover have "of_nat (unat B ^ l) * B = (of_nat (unat B ^ Suc l) :: u64)" by (simp add: mult_ac)
  moreover have "(of_nat l :: u64) + 1 = of_nat (Suc l)" by simp
  ultimately show ?case
    using Suc.hyps(1) [of "Suc l"] Suc.hyps(2) lk
    by (subst find_level.simps) (simp add: word_less_nat_alt del: of_nat_Suc power_Suc)
qed

lemma u64_of_double_nat: "n \<le> 2 ^ 53 \<Longrightarrow> u64_of_double (of_nat n) = Inr (of_nat n)"
proof -
  assume "n \<le> 2 ^ 53"
  then have "(of_nat n :: rat) \<le> of_nat (2 ^ 53)" by (simp only: of_nat_le_iff)
  then have "(of_nat n :: rat) < 18446744073709551616" by simp
  then show ?thesis by (simp add: u64_of_double_def)
qed

lemma level_small:
  assumes "2 \<le> B" "1 \<le> R" "lvl_hi R B l \<le> 2 ^ 53"
  shows "l \<le> 53" "B ^ l \<le> 2 ^ 53" "R \<le> 2 ^ 53"
proof -
  have "B ^ l \<le> lvl_hi R B l" using assms(2) by (simp add: lvl_hi_def)
  then show *: "B ^ l \<le> 2 ^ 53" using assms(3) by linarith
  have "(2::nat) ^ l \<le> B ^ l" using assms(1) by (simp add: power_mono)
  with * have "(2::nat) ^ l \<le> 2 ^ 53" by linarith
  then show "l \<le> 53" by (rule power_le_imp_le_exp [rotated]) simp
  have "R \<le> lvl_hi R B l" using assms(1) by (simp add: lvl_hi_def)
  then show "R \<le> 2 ^ 53" using assms(3) by linarith
qed

lemma double_pow_exact:
  assumes "exact_integers rnd" "unat B ^ l \<le> 2 ^ 53" "l \<le> 53"
  shows "double_pow rnd B (of_nat l) = of_nat (unat B ^ l)"
proof -
  have "unat (of_nat l :: u64) = l" using assms(3) by (simp add: unat_of_nat)
  then show ?thesis using exact_integersD [OF assms(1,2)] by (simp add: double_pow_def)
qed

lemma level_product_exact:
  assumes "exact_integers rnd" "2 \<le> unat B" "1 \<le> unat R" "lvl_hi (unat R) (unat B) l \<le> 2 ^ 53"
  shows "rnd (double_pow rnd B (of_nat l) * double_of_u64 rnd R) = of_nat (lvl_hi (unat R) (unat B) l)"
proof -
  note small = level_small [OF assms(2-4)]
  have "double_of_u64 rnd R = of_nat (unat R)"
    using exact_integersD [OF assms(1) small(3)] by (simp add: double_of_u64_def)
  moreover note double_pow_exact [OF assms(1) small(2,1)]
  ultimately show ?thesis
    using exact_integersD [OF assms(1,4)] by (simp add: lvl_hi_def)
qed

lemma unat_cast_diff:
  assumes "a \<le> b" "b \<le> 2 ^ 53"
  shows "unat (of_nat b - of_nat a :: u64) = b - a"
proof -
  have "of_nat b - of_nat a = (of_nat (b - a) :: u64)" using assms(1) by (simp add: of_nat_diff)
  then show ?thesis using assms(2) by (simp only: small_u64 [of "b - a"] le_diff_conv trans_le_add1)
qed

lemma level_bounds:
  assumes "2 \<le> unat B" "1 \<le> unat R" "lvl_hi (unat R) (unat B) l \<le> 2 ^ 53"
  shows "unat (of_nat (lvl_lo (unat R) (unat B) l) :: u64) = lvl_lo (unat R) (unat B) l"
    and "unat (of_nat (lvl_hi (unat R) (unat B) l - 1) :: u64) = lvl_hi (unat R) (unat B) l - 1"
    and "unat (of_nat (lvl_size (unat B) l) :: u64) = lvl_size (unat B) l"
    and "1 \<le> lvl_hi (unat R) (unat B) l"
    and "lvl_lo (unat R) (unat B) l < lvl_hi (unat R) (unat B) l"
proof -
  have lo: "lvl_lo (unat R) (unat B) l \<le> lvl_hi (unat R) (unat B) l"
    using assms(1) by (intro lvl_lo_le_hi) simp
  have span: "lvl_hi (unat R) (unat B) l - lvl_lo (unat R) (unat B) l = unat R * lvl_size (unat B) l"
    using assms(1) by (intro lvl_span) simp
  have "lvl_size (unat B) l \<le> unat R * lvl_size (unat B) l" using assms(2) by simp
  with span assms(3) have size: "lvl_size (unat B) l \<le> 2 ^ 53" by linarith
  show "unat (of_nat (lvl_lo (unat R) (unat B) l) :: u64) = lvl_lo (unat R) (unat B) l"
    using lo assms(3) by (intro small_u64) linarith
  show "unat (of_nat (lvl_hi (unat R) (unat B) l - 1) :: u64) = lvl_hi (unat R) (unat B) l - 1"
    using assms(3) by (intro small_u64) linarith
  show "unat (of_nat (lvl_size (unat B) l) :: u64) = lvl_size (unat B) l"
    using size by (rule small_u64)
  show "1 \<le> lvl_hi (unat R) (unat B) l" using assms(1,2) by (simp add: lvl_hi_def Suc_le_eq)
  have "0 < unat R * lvl_size (unat B) l" using assms(1,2) lvl_size_pos [of "unat B" l] by simp
  with span show "lvl_lo (unat R) (unat B) l < lvl_hi (unat R) (unat B) l" by linarith
qed

lemma new_bucket_spec:
  assumes "exact_integers rnd" "2 \<le> unat B" "1 \<le> unat R" "lvl_hi (unat R) (unat B) l \<le> 2 ^ 53"
  shows "new_bucket rnd (of_nat l) R B = Inr (spec_bucket R B l [])"
proof -
  let ?lo = "lvl_lo (unat R) (unat B) l" and ?hi = "lvl_hi (unat R) (unat B) l"
  note bounds = level_bounds [OF assms(2-4)]
  have l0: "of_nat l = (0 :: u64) \<longleftrightarrow> l = 0"
    using level_small(1) [OF assms(2-4)] by (simp add: word_unat_eq_iff unat_of_nat)
  have bgn: "(if of_nat l \<noteq> (0 :: u64)
        then u64_of_double (rnd (double_pow rnd B (of_nat l - 1) * double_of_u64 rnd R))
        else Inr 0) = Inr (of_nat ?lo)"
  proof (cases l)
    case (Suc k)
    have "lvl_hi (unat R) (unat B) k \<le> 2 ^ 53"
      using lvl_hi_mono [of "unat B" k l "unat R"] assms(2,4) Suc by linarith
    with level_product_exact [OF assms(1-3) this] u64_of_double_nat [OF this] l0 Suc
    show ?thesis by (simp add: lvl_lo_Suc)
  qed simp
  have "rnd (of_nat ?hi - 1) = of_nat (?hi - 1)"
    using exact_integersD [OF assms(1), of "?hi - 1"] assms(4) bounds(4) by (simp add: of_nat_diff)
  then have en: "u64_of_double (rnd (rnd (double_pow rnd B (of_nat l) * double_of_u64 rnd R) - 1))
      = Inr (of_nat (?hi - 1))"
    using level_product_exact [OF assms] u64_of_double_nat [of "?hi - 1"] assms(4) by simp
  have "of_nat (?hi - 1) - of_nat ?lo + 1 = (of_nat ?hi - of_nat ?lo :: u64)"
    using bounds(4) by (simp add: of_nat_diff)
  then have "unat (of_nat (?hi - 1) - of_nat ?lo + 1 :: u64) = unat R * lvl_size (unat B) l"
    using unat_cast_diff [of ?lo ?hi] bounds(5) assms(2,4) by (simp add: lvl_span)
  then have size: "(of_nat (?hi - 1) - of_nat ?lo + 1) div R = (of_nat (lvl_size (unat B) l) :: u64)"
    using bounds(3) assms(3) by (intro word_unat_eq_iff [THEN iffD2]) (simp add: u64_div)
  have "R \<noteq> 0" using assms(3) by auto
  then show ?thesis
    unfolding new_bucket_def bgn en
    by (simp add: spec_bucket_def size [unfolded One_nat_def] map_replicate_const)
qed

lemma add_buckets_spec:
  assumes "exact_integers rnd" "2 \<le> unat B" "1 \<le> unat R"
    and "lvl_hi (unat R) (unat B) (k + n - 1) \<le> 2 ^ 53"
  shows "hist = map (\<lambda>l. spec_bucket R B l (vs l)) [0..<k] \<Longrightarrow>
     add_buckets rnd R B n hist =
       Inr (hist @ map (\<lambda>l. spec_bucket R B l []) [k..<k + n])"
  using assms(4)
proof (induction n arbitrary: k hist vs)
  case (Suc n)
  have "lvl_hi (unat R) (unat B) k \<le> lvl_hi (unat R) (unat B) (k + Suc n - 1)"
    using assms(2) by (intro lvl_hi_mono) simp_all
  then have "lvl_hi (unat R) (unat B) k \<le> 2 ^ 53" using Suc.prems(2) by linarith
  then have nb: "new_bucket rnd (of_nat (length hist)) R B = Inr (spec_bucket R B k [])"
    using new_bucket_spec [OF assms(1-3)] Suc.prems(1) by simp
  define vs' where "vs' = vs(k := [])"
  have "hist @ [spec_bucket R B k []] = map (\<lambda>l. spec_bucket R B l (vs' l)) [0..<Suc k]"
    using Suc.prems(1) by (simp add: vs'_def)
  from Suc.IH [OF this] Suc.prems(2) nb
  show ?case by (cases n) (simp_all add: upt_conv_Cons del: upt_Suc)
qed simp

subsection \<open>Counting a value in its bucket\<close>

lemma bucket_count_spec:
  assumes "2 \<le> unat B" "1 \<le> unat R" "lvl_hi (unat R) (unat B) l \<le> 2 ^ 53"
    and "lvl_lo (unat R) (unat B) l \<le> unat v" "unat v < lvl_hi (unat R) (unat B) l"
  shows "bucket_count v (spec_bucket R B l vs) = Inr (spec_bucket R B l (vs @ [v]))"
proof -
  let ?lo = "lvl_lo (unat R) (unat B) l" and ?hi = "lvl_hi (unat R) (unat B) l"
  let ?sz = "lvl_size (unat B) l"
  define i where "i = (unat v - ?lo) div ?sz"
  note bounds = level_bounds [OF assms(1-3)]
  have cell: "in_cell (unat R) (unat B) l j (unat v) \<longleftrightarrow> j = i" for j
    using assms(4,5) by (auto simp: in_cell_def i_def)
  have iR: "i < unat R"
    using in_cell_index [of "unat B" "unat R" l i "unat v"] cell assms(1) by simp
  have guard: "\<not> (v < of_nat ?lo \<or> of_nat (?hi - 1) < v)"
    using assms(4,5) bounds by (simp add: word_less_nat_alt)
  have sz0: "of_nat ?sz \<noteq> (0 :: u64)"
    using bounds(3) lvl_size_pos [of "unat B" l] assms(1) by auto
  have "of_nat ?lo \<le> v" using assms(4) bounds(1) by (simp add: word_le_nat_alt)
  then have idx: "unat ((v - of_nat ?lo) div of_nat ?sz) = i"
    using bounds(1,3) by (simp add: u64_div u64_sub_no_wrap i_def)
  then have lt: "(v - of_nat ?lo) div of_nat ?sz < R" using iR by (simp add: word_less_nat_alt)
  show ?thesis
    using guard sz0 idx lt iR
    by (auto simp: bucket_count_def spec_bucket_def Let_def cell nth_list_update
        intro!: nth_equalityI)
qed

lemma spec_bucket_skip:
  assumes "\<And>i. \<not> in_cell (unat R) (unat B) l i (unat v)"
  shows "spec_bucket R B l (vs @ [v]) = spec_bucket R B l vs"
  using assms by (simp add: spec_bucket_def)

lemma spec_bucket_empty:
  assumes "\<forall>v \<in> set vs. unat v < lvl_lo (unat R) (unat B) l"
  shows "spec_bucket R B l vs = spec_bucket R B l []"
proof -
  have "filter (\<lambda>v. in_cell (unat R) (unat B) l i (unat v)) vs = []" for i
    using assms by (auto simp: filter_empty_conv in_cell_def)
  then show ?thesis by (simp add: spec_bucket_def)
qed

lemma representsD:
  assumes "represents d vs"
  shows "2 \<le> unat (d_base d)" "1 \<le> unat (d_ranges d)" "unat (d_ranges d) \<le> 2 ^ 53"
    and "d_total d = sum_list vs" "d_count d = of_nat (length vs)"
    and "d_min d = fold min vs (- 1)" "d_max d = fold max vs 0"
    and "d_histogram d =
       map (\<lambda>l. spec_bucket (d_ranges d) (d_base d) l vs) [0..<length (d_histogram d)]"
  using assms unfolding represents_def by blast+

lemma represents_new_level:
  assumes "represents d vs" "length (d_histogram d) \<le> l"
  shows "spec_bucket (d_ranges d) (d_base d) l vs = spec_bucket (d_ranges d) (d_base d) l []"
proof (rule spec_bucket_empty, rule ballI)
  fix v assume v: "v \<in> set vs"
  then have ne: "d_histogram d \<noteq> []" using assms(1) by (auto simp: represents_def)
  obtain j where l: "l = Suc j" "length (d_histogram d) - 1 \<le> j"
    using assms(2) ne by (cases l) auto
  have "lvl_hi (unat (d_ranges d)) (unat (d_base d)) (length (d_histogram d) - 1)
      \<le> lvl_hi (unat (d_ranges d)) (unat (d_base d)) j"
    using l(2) representsD(1) [OF assms(1)] by (intro lvl_hi_mono) simp_all
  moreover have "unat v < lvl_hi (unat (d_ranges d)) (unat (d_base d)) (length (d_histogram d) - 1)"
    using assms(1) v by (simp add: represents_def)
  ultimately show "unat v < lvl_lo (unat (d_ranges d)) (unat (d_base d)) l"
    by (simp add: l(1) lvl_lo_Suc)
qed

lemma getBucket_spec:
  assumes "exact_integers rnd" "represents d vs"
    and k: "lvl_lo (unat (d_ranges d)) (unat (d_base d)) k \<le> unat v"
      "unat v < lvl_hi (unat (d_ranges d)) (unat (d_base d)) k"
      "lvl_hi (unat (d_ranges d)) (unat (d_base d)) k \<le> 2 ^ 53"
    and d': "d_ranges d' = d_ranges d" "d_base d' = d_base d" "d_histogram d' = d_histogram d"
  shows "getBucket rnd v d' = Inr (d'\<lparr>d_histogram :=
           map (\<lambda>l. spec_bucket (d_ranges d) (d_base d) l vs)
             [0..<max (length (d_histogram d)) (Suc k)]\<rparr>, k)"
proof -
  let ?n = "length (d_histogram d)" and ?R = "d_ranges d" and ?B = "d_base d"
  note rep = representsD [OF assms(2)]
  have "find_level ?R ?B v (of_nat 0) (of_nat (lvl_hi (unat ?R) (unat ?B) 0 - 1)) (of_nat (unat ?B ^ 0))
      = Some (of_nat k)"
    using rep(1,2) k by (intro find_level_finds) simp_all
  moreover have "of_nat (lvl_hi (unat ?R) (unat ?B) 0 - 1) = ?R - 1"
    using rep(2) by (simp add: lvl_hi_def of_nat_diff)
  ultimately have lvl: "find_level ?R ?B v 0 (?R - 1) 1 = Some (of_nat k)" by simp
  have uk: "unat (of_nat k :: u64) = k"
    using level_small(1) [OF rep(1,2) k(3)] by (simp add: unat_of_nat)
  have hist: "(if k \<ge> ?n then add_buckets rnd ?R ?B (k + 1 - ?n) (d_histogram d)
             else Inr (d_histogram d)) =
      Inr (map (\<lambda>l. spec_bucket ?R ?B l vs) [0..<max ?n (Suc k)])"
  proof (cases "?n \<le> k")
    case True
    then have "add_buckets rnd ?R ?B (k + 1 - ?n) (d_histogram d) =
        Inr (d_histogram d @ map (\<lambda>l. spec_bucket ?R ?B l []) [?n..<Suc k])"
      using add_buckets_spec [OF assms(1) rep(1,2) _ rep(8), of "k + 1 - ?n"] k(3) by simp
    moreover have "map (\<lambda>l. spec_bucket ?R ?B l []) [?n..<Suc k] =
        map (\<lambda>l. spec_bucket ?R ?B l vs) [?n..<Suc k]"
      by (rule map_cong [OF refl]) (simp add: represents_new_level [OF assms(2)] del: upt_Suc)
    moreover have "[0..<Suc k] = [0..<?n] @ [?n..<Suc k]"
      using True upt_add_eq_append [of 0 ?n "Suc k - ?n"] by (simp del: upt_Suc)
    ultimately show ?thesis using True rep(8) by (simp add: max_def del: upt_Suc)
  next
    case False
    then have "max ?n (Suc k) = ?n" by simp
    then show ?thesis using False rep(8) by (simp only: if_False)
  qed
  show ?thesis unfolding getBucket_def d' lvl option.case uk hist by simp
qed

lemma fold_snoc_min: "fold min (vs @ [v]) m = min (fold min vs m) (v :: u64)"
  by (simp add: min.commute)

lemma fold_snoc_max: "fold max (vs @ [v]) m = max (fold max vs m) (v :: u64)"
  by (simp add: max.commute)

lemma dist_count_ok:
  assumes "exact_integers rnd" "represents d vs" "unat v * unat (d_base d) \<le> 2 ^ 53"
  shows "\<exists>d'. dist_count rnd v d = Inr d' \<and> represents d' (vs @ [v]) \<and>
     d_unit d' = d_unit d \<and> d_ranges d' = d_ranges d \<and> d_base d' = d_base d"
proof -
  let ?R = "d_ranges d" and ?B = "d_base d" and ?n = "length (d_histogram d)"
  note rep = representsD [OF assms(2)]
  obtain k where k: "lvl_lo (unat ?R) (unat ?B) k \<le> unat v" "unat v < lvl_hi (unat ?R) (unat ?B) k"
    using level_exists [OF rep(1,2)] .
  have hi: "lvl_hi (unat ?R) (unat ?B) k \<le> 2 ^ 53"
    using k(1) rep(3) assms(3) by (rule lvl_hi_bound)
  define m where "m = max ?n (Suc k)"
  have km: "k < m" by (simp add: m_def)
  define d1 where "d1 = d\<lparr>d_total := d_total d + v, d_count := d_count d + 1,
      d_min := min (d_min d) v, d_max := max (d_max d) v\<rparr>"
  let ?hist = "\<lambda>us. map (\<lambda>l. spec_bucket ?R ?B l us) [0..<m]"
  have gb: "getBucket rnd v d1 = Inr (d1\<lparr>d_histogram := ?hist vs\<rparr>, k)"
    unfolding m_def by (rule getBucket_spec [OF assms(1,2) k hi]) (simp_all add: d1_def)
  have bc: "bucket_count v (?hist vs ! k) = Inr (spec_bucket ?R ?B k (vs @ [v]))"
    using bucket_count_spec [OF rep(1,2) hi k] by (simp add: km del: upt_Suc)
  have other: "spec_bucket ?R ?B l (vs @ [v]) = spec_bucket ?R ?B l vs" if "l \<noteq> k" for l
    using level_unique [of "unat ?B" "unat ?R" l "unat v" k] k rep(1) that
    by (intro spec_bucket_skip) (auto simp: in_cell_def)
  have upd: "(?hist vs)[k := spec_bucket ?R ?B k (vs @ [v])] = ?hist (vs @ [v])"
  proof (rule nth_equalityI)
    fix i assume "i < length ((?hist vs)[k := spec_bucket ?R ?B k (vs @ [v])])"
    then show "(?hist vs)[k := spec_bucket ?R ?B k (vs @ [v])] ! i = ?hist (vs @ [v]) ! i"
      using km by (cases "i = k") (simp_all add: other)
  qed simp
  define d' where "d' = d1\<lparr>d_histogram := ?hist (vs @ [v])\<rparr>"
  have run: "dist_count rnd v d = Inr d'"
    unfolding dist_count_def d1_def [symmetric] Let_def gb by (simp add: bc upd d'_def)
  have last: "lvl_hi (unat ?R) (unat ?B) (m - 1) =
      max (lvl_hi (unat ?R) (unat ?B) (?n - 1)) (lvl_hi (unat ?R) (unat ?B) k)"
  proof -
    have "mono (lvl_hi (unat ?R) (unat ?B))" using rep(1) by (intro monoI lvl_hi_mono) simp_all
    moreover have "m - 1 = max (?n - 1) k" by (simp add: m_def)
    ultimately show ?thesis by (simp only: max_of_mono)
  qed
  have "m \<noteq> 0" by (simp add: m_def)
  moreover have "\<forall>u \<in> set (vs @ [v]). unat u < lvl_hi (unat ?R) (unat ?B) (m - 1)"
    using assms(2) k(2) by (auto simp: last [unfolded One_nat_def] represents_def less_max_iff_disj)
  moreover have "lvl_hi (unat ?R) (unat ?B) (m - 1) \<le> 2 ^ 53"
  proof (cases "d_histogram d = []")
    case True
    then show ?thesis using hi by (simp add: m_def)
  next
    case False
    then show ?thesis using assms(2) hi by (simp add: last [unfolded One_nat_def] represents_def)
  qed
  ultimately have "represents d' (vs @ [v])"
    using rep(1-7) unfolding represents_def fold_snoc_min fold_snoc_max
    by (simp add: d'_def d1_def)
  with run show ?thesis by (simp add: d'_def d1_def)
qed

subsection \<open>A whole run: totals over the cells\<close>

fun count_all :: "(rat \<Rightarrow> rat) \<Rightarrow> u64 list \<Rightarrow> distribution \<Rightarrow> distribution res" where
  "count_all rnd [] d = Inr d"
| "count_all rnd (v # vs) d = and_then (dist_count rnd v d) (count_all rnd vs)"

lemma represents_new:
  assumes "2 \<le> unat B" "1 \<le> unat R" "unat R \<le> 2 ^ 53" "distribution_new u R B = Inr d"
  shows "represents d []" "d_unit d = u" "d_ranges d = R" "d_base d = B"
  using assms unfolding represents_def distribution_new_def by (auto split: if_splits)

lemma cell_of_value:
  assumes "2 \<le> B" "1 \<le> R" "v < lvl_hi R B (n - 1)" "0 < n"
  obtains l i where "l < n" "i < R" "\<And>l' i'. in_cell R B l' i' v \<longleftrightarrow> l' = l \<and> i' = i"
proof -
  obtain l where l: "lvl_lo R B l \<le> v" "v < lvl_hi R B l" using level_exists [OF assms(1,2)] .
  define i where "i = (v - lvl_lo R B l) div lvl_size B l"
  have cell: "in_cell R B l i v" using l by (simp add: in_cell_def i_def)
  have "l < n"
  proof (rule ccontr)
    assume "\<not> l < n"
    then obtain j where "l = Suc j" "n - 1 \<le> j" using assms(4) by (cases l) auto
    then have "lvl_hi R B (n - 1) \<le> lvl_lo R B l" using assms(1) by (simp add: lvl_lo_Suc lvl_hi_mono)
    with l assms(3) show False by simp
  qed
  moreover have "i < R" using in_cell_index [OF _ cell] assms(1) by simp
  moreover have "in_cell R B l' i' v \<longleftrightarrow> l' = l \<and> i' = i" for l' i'
    using level_unique [of B R l' v l] assms(1) cell by (auto simp: in_cell_def)
  ultimately show thesis by (rule that)
qed

lemma sum_over_cells:
  assumes "2 \<le> B" "1 \<le> R" "0 < n" "\<forall>v \<in> set vs. unat v < lvl_hi R B (n - 1)"
  shows "(\<Sum>l<n. \<Sum>i<R. sum_list (map f (filter (\<lambda>v. in_cell R B l i (unat v)) vs))) =
    (sum_list (map f vs) :: nat)"
  using assms(4)
proof (induction vs)
  case (Cons v vs)
  then have "unat v < lvl_hi R B (n - 1)" by simp
  then obtain k j where k: "k < n" "j < R" and
    cell: "\<And>l i. in_cell R B l i (unat v) \<longleftrightarrow> l = k \<and> i = j"
    using cell_of_value [OF assms(1,2) _ assms(3)] by metis
  have step: "sum_list (map f (filter (\<lambda>v. in_cell R B l i (unat v)) (v # vs))) =
      (if l = k then if i = j then f v else 0 else 0) +
      sum_list (map f (filter (\<lambda>v. in_cell R B l i (unat v)) vs))" for l i
    by (simp add: cell)
  have "(\<Sum>l<n. \<Sum>i<R. (if l = k then if i = j then f v else 0 else 0)) =
      (\<Sum>l<n. if l = k then f v else 0)"
    using k by (intro sum.cong) simp_all
  also have "\<dots> = f v" using k by simp
  finally show ?case using Cons by (simp only: step sum.distrib) simp
qed simp

lemma unat_sum_list_le:
  "sum_list (map unat vs) < 2 ^ 64 \<Longrightarrow> unat (sum_list vs :: u64) = sum_list (map unat vs)"
proof (induction vs)
  case (Cons v vs)
  then have "unat (sum_list vs) = sum_list (map unat vs)" by simp
  then show ?case using Cons.prems u64_add_no_wrap [of v "sum_list vs"] by (simp add: no_wrap_def)
qed simp

lemma count_all_represents:
  assumes "exact_integers rnd"
  shows "represents d us \<Longrightarrow> \<forall>v \<in> set vs. unat v * unat (d_base d) \<le> 2 ^ 53 \<Longrightarrow>
     \<exists>d'. count_all rnd vs d = Inr d' \<and> represents d' (us @ vs) \<and>
       d_unit d' = d_unit d \<and> d_ranges d' = d_ranges d \<and> d_base d' = d_base d"
proof (induction vs arbitrary: d us)
  case (Cons v vs)
  obtain d1 where d1: "dist_count rnd v d = Inr d1" "represents d1 (us @ [v])"
    "d_unit d1 = d_unit d" "d_ranges d1 = d_ranges d" "d_base d1 = d_base d"
    using dist_count_ok [OF assms Cons.prems(1), of v] Cons.prems(2) by auto
  then have "\<forall>v \<in> set vs. unat v * unat (d_base d1) \<le> 2 ^ 53" using Cons.prems(2) by simp
  from Cons.IH [OF d1(2) this] d1 show ?case by auto
qed simp

subsection \<open>What the histogram reports\<close>

lemma bucket_ranges_conv:
  "bucket_ranges rb re sz cs =
     map (\<lambda>i. \<lparr>hr_begin = rb + of_nat i * sz, hr_end = re + of_nat i * sz, hr_count = cs ! i\<rparr>)
       [0..<length cs]"
proof (induction rb re sz cs rule: bucket_ranges.induct)
  case (2 rb re sz c cs)
  show ?case by (simp add: 2 upt_conv_Cons map_Suc_upt [symmetric] algebra_simps del: upt_Suc)
qed simp

fun tiles :: "u64 \<Rightarrow> hist_range list \<Rightarrow> u64 \<Rightarrow> bool" where
  "tiles x [] y \<longleftrightarrow> x = y"
| "tiles x (r # rs) y \<longleftrightarrow> hr_begin r = x \<and> hr_begin r \<le> hr_end r \<and> tiles (hr_end r + 1) rs y"

lemma tiles_append: "tiles x rs y \<Longrightarrow> tiles y rs' z \<Longrightarrow> tiles x (rs @ rs') z"
  by (induction rs arbitrary: x) auto

definition cell_range :: "u64 \<Rightarrow> u64 \<Rightarrow> u64 list \<Rightarrow> nat \<Rightarrow> nat \<Rightarrow> hist_range" where
  "cell_range R B vs l i =
     (let b = lvl_lo (unat R) (unat B) l + i * lvl_size (unat B) l
      in \<lparr>hr_begin = of_nat b, hr_end = of_nat (b + lvl_size (unat B) l - 1),
          hr_count = of_nat (length (filter (\<lambda>v. in_cell (unat R) (unat B) l i (unat v)) vs))\<rparr>)"

lemma bucket_ranges_spec:
  assumes "2 \<le> unat B"
  shows "(case spec_bucket R B l vs of b \<Rightarrow>
     bucket_ranges (bk_Begin b) (bk_Begin b + bk_RangeSize b - 1) (bk_RangeSize b) (bk_Count b)) =
     map (cell_range R B vs l) [0..<unat R]"
proof -
  have "lvl_size (unat B) l \<noteq> 0" using lvl_size_pos [OF assms, of l] by simp
  then show ?thesis
    by (auto simp: bucket_ranges_conv spec_bucket_def cell_range_def Let_def of_nat_diff
        algebra_simps)
qed

lemma cell_end_bound:
  assumes "2 \<le> B" "1 \<le> R" "i < R"
  shows "lvl_lo R B l + i * lvl_size B l + lvl_size B l \<le> lvl_hi R B l"
proof -
  have "Suc i * lvl_size B l \<le> R * lvl_size B l" using assms(3) by (intro mult_le_mono1) simp
  then have "i * lvl_size B l + lvl_size B l \<le> lvl_hi R B l - lvl_lo R B l"
    using assms(1) by (simp add: lvl_span add.commute)
  then show ?thesis using lvl_lo_le_hi [of B R l] assms(1) by linarith
qed

lemma cell_range_bounds:
  assumes "2 \<le> unat B" "1 \<le> unat R" "lvl_hi (unat R) (unat B) l \<le> 2 ^ 53" "i < unat R"
  shows "unat (hr_begin (cell_range R B vs l i)) = lvl_lo (unat R) (unat B) l + i * lvl_size (unat B) l"
    and "unat (hr_end (cell_range R B vs l i)) =
      lvl_lo (unat R) (unat B) l + i * lvl_size (unat B) l + lvl_size (unat B) l - 1"
proof -
  note top = cell_end_bound [OF assms(1,2,4), of l]
  show "unat (hr_begin (cell_range R B vs l i)) = lvl_lo (unat R) (unat B) l + i * lvl_size (unat B) l"
    unfolding cell_range_def Let_def hist_range.simps using top assms(3) by (intro small_u64) linarith
  show "unat (hr_end (cell_range R B vs l i)) =
      lvl_lo (unat R) (unat B) l + i * lvl_size (unat B) l + lvl_size (unat B) l - 1"
    unfolding cell_range_def Let_def hist_range.simps using top assms(3) by (intro small_u64) linarith
qed

lemma cell_range_iff:
  assumes "2 \<le> unat B" "1 \<le> unat R" "lvl_hi (unat R) (unat B) l \<le> 2 ^ 53" "i < unat R"
  shows "hr_begin (cell_range R B vs l i) \<le> v \<and> v \<le> hr_end (cell_range R B vs l i) \<longleftrightarrow>
     in_cell (unat R) (unat B) l i (unat v)"
proof -
  let ?lo = "lvl_lo (unat R) (unat B) l" and ?sz = "lvl_size (unat B) l"
  have sz: "0 < ?sz" using lvl_size_pos [OF assms(1)] .
  note top = cell_end_bound [OF assms(1,2,4), of l]
  have "in_cell (unat R) (unat B) l i (unat v) \<longleftrightarrow>
      ?lo \<le> unat v \<and> unat v < lvl_hi (unat R) (unat B) l \<and>
      i * ?sz \<le> unat v - ?lo \<and> unat v - ?lo < i * ?sz + ?sz"
    unfolding in_cell_def using div_nat_eqI sz
    by (metis div_less_iff_less_mult div_times_less_eq_dividend dividend_less_times_div mult.commute
        add.commute mult_Suc less_eq_div_iff_mult_less_eq order_refl less_Suc_eq_le order_antisym)
  also have "\<dots> \<longleftrightarrow> ?lo + i * ?sz \<le> unat v \<and> unat v \<le> ?lo + i * ?sz + ?sz - 1"
    using top sz by linarith
  finally show ?thesis
    unfolding word_le_nat_alt cell_range_bounds [OF assms] by blast
qed

lemma level_bounds_all:
  assumes "represents d vs" "l < length (d_histogram d)"
  shows "lvl_hi (unat (d_ranges d)) (unat (d_base d)) l \<le> 2 ^ 53"
proof -
  have "lvl_hi (unat (d_ranges d)) (unat (d_base d)) l \<le>
      lvl_hi (unat (d_ranges d)) (unat (d_base d)) (length (d_histogram d) - 1)"
    using assms(2) representsD(1) [OF assms(1)] by (intro lvl_hi_mono) simp_all
  moreover have "lvl_hi (unat (d_ranges d)) (unat (d_base d)) (length (d_histogram d) - 1) \<le> 2 ^ 53"
    using assms by (auto simp: represents_def)
  ultimately show ?thesis by linarith
qed

lemma getHistogram_spec:
  assumes "represents d vs" "vs \<noteq> []" "length vs < 2 ^ 64"
  shows "snd (getHistogram d) =
     concat (map (\<lambda>l. map (cell_range (d_ranges d) (d_base d) vs l) [0..<unat (d_ranges d)])
       [0..<length (d_histogram d)])"
proof -
  let ?f = "\<lambda>b. bucket_ranges (bk_Begin b) (bk_Begin b + bk_RangeSize b - 1) (bk_RangeSize b) (bk_Count b)"
  note rep = representsD [OF assms(1)]
  have "d_count d \<noteq> 0"
    using rep(5) assms(2,3) by (simp add: word_unat_eq_iff unat_of_nat)
  then have "snd (getHistogram d) = concat (map ?f (d_histogram d))" by (simp add: getHistogram_def)
  also have "map ?f (d_histogram d) = map (\<lambda>l. ?f (spec_bucket (d_ranges d) (d_base d) l vs))
      [0..<length (d_histogram d)]"
    by (subst (1) rep(8)) simp
  finally show ?thesis using bucket_ranges_spec [OF rep(1)] by simp
qed

lemma tiles_level:
  assumes "2 \<le> unat B" "1 \<le> unat R" "lvl_hi (unat R) (unat B) l \<le> 2 ^ 53" "k \<le> unat R"
  shows "tiles (of_nat (lvl_lo (unat R) (unat B) l)) (map (cell_range R B vs l) [0..<k])
     (of_nat (lvl_lo (unat R) (unat B) l + k * lvl_size (unat B) l))"
  using assms(4)
proof (induction k)
  case (Suc k)
  let ?r = "cell_range R B vs l k"
  let ?b = "lvl_lo (unat R) (unat B) l + k * lvl_size (unat B) l"
  have sz: "0 < lvl_size (unat B) l" using lvl_size_pos [OF assms(1)] .
  note b = cell_range_bounds [OF assms(1-3), of k vs]
  have "hr_begin ?r \<le> hr_end ?r"
    using Suc.prems sz b by (simp add: word_le_nat_alt)
  moreover have "hr_end ?r + 1 = of_nat (?b + lvl_size (unat B) l)"
    using sz by (simp add: cell_range_def Let_def of_nat_diff)
  moreover have "hr_begin ?r = of_nat ?b" by (simp add: cell_range_def Let_def)
  ultimately have "tiles (of_nat ?b) [?r] (of_nat (lvl_lo (unat R) (unat B) l + Suc k * lvl_size (unat B) l))"
    by (simp add: algebra_simps)
  from tiles_append [OF Suc.IH this] Suc.prems
  show ?case by (simp del: of_nat_add of_nat_mult)
qed simp

lemma tiles_levels:
  assumes "2 \<le> unat B" "1 \<le> unat R" "\<And>l. l < n \<Longrightarrow> lvl_hi (unat R) (unat B) l \<le> 2 ^ 53"
  shows "tiles 0 (concat (map (\<lambda>l. map (cell_range R B vs l) [0..<unat R]) [0..<n]))
     (of_nat (lvl_lo (unat R) (unat B) n))"
  using assms(3)
proof (induction n)
  case (Suc n)
  have "lvl_lo (unat R) (unat B) n + unat R * lvl_size (unat B) n = lvl_hi (unat R) (unat B) n"
    using assms(1) lvl_span [of "unat B" "unat R" n] lvl_lo_le_hi [of "unat B" "unat R" n] by simp
  then have "tiles (of_nat (lvl_lo (unat R) (unat B) n)) (map (cell_range R B vs n) [0..<unat R])
      (of_nat (lvl_lo (unat R) (unat B) (Suc n)))"
    using tiles_level [OF assms(1,2) Suc.prems, of n "unat R" vs] by (simp add: lvl_lo_Suc)
  moreover have "tiles 0 (concat (map (\<lambda>l. map (cell_range R B vs l) [0..<unat R]) [0..<n]))
      (of_nat (lvl_lo (unat R) (unat B) n))"
    using Suc by simp
  ultimately show ?case by (simp add: tiles_append)
qed simp

lemma getHistogram_ok:
  assumes "represents d vs" "vs \<noteq> []" "length vs < 2 ^ 64"
  defines "rs \<equiv> snd (getHistogram d)"
  shows "\<exists>top. tiles 0 rs top \<and> (\<forall>v \<in> set vs. v < top)"
    and "\<forall>r \<in> set rs. unat (hr_count r) = length (filter (\<lambda>v. hr_begin r \<le> v \<and> v \<le> hr_end r) vs)"
    and "(\<Sum>r\<leftarrow>rs. unat (hr_count r)) = length vs"
proof -
  let ?R = "d_ranges d" and ?B = "d_base d" and ?n = "length (d_histogram d)"
  note rep = representsD [OF assms(1)]
  note rs = getHistogram_spec [OF assms(1-3), folded rs_def]
  have n: "0 < ?n" using assms(1,2) by (auto simp: represents_def)
  note lvl = level_bounds_all [OF assms(1)]
  have below: "\<forall>v \<in> set vs. unat v < lvl_hi (unat ?R) (unat ?B) (?n - 1)"
    using assms(1) by (simp add: represents_def)
  have le: "length (filter P vs) < 2 ^ 64" for P
    using length_filter_le [of P vs] assms(3) by linarith
  have cnt: "unat (hr_count (cell_range ?R ?B vs l i)) =
      length (filter (\<lambda>v. in_cell (unat ?R) (unat ?B) l i (unat v)) vs)" for l i
    using le [of "\<lambda>v. in_cell (unat ?R) (unat ?B) l i (unat v)"]
    by (simp add: cell_range_def Let_def unat_of_nat)
  have "lvl_lo (unat ?R) (unat ?B) ?n = lvl_hi (unat ?R) (unat ?B) (?n - 1)"
    using n by (cases ?n) (simp_all add: lvl_lo_Suc)
  moreover have "tiles 0 rs (of_nat (lvl_lo (unat ?R) (unat ?B) ?n))"
    unfolding rs using lvl by (intro tiles_levels rep(1,2)) simp
  ultimately have "tiles 0 rs (of_nat (lvl_hi (unat ?R) (unat ?B) (?n - 1)))" by simp
  moreover have "\<forall>v \<in> set vs. v < of_nat (lvl_hi (unat ?R) (unat ?B) (?n - 1))"
    using below lvl [of "?n - 1"] n by (auto simp: word_less_nat_alt small_u64)
  ultimately show "\<exists>top. tiles 0 rs top \<and> (\<forall>v \<in> set vs. v < top)" by blast
  show "\<forall>r \<in> set rs. unat (hr_count r) = length (filter (\<lambda>v. hr_begin r \<le> v \<and> v \<le> hr_end r) vs)"
    unfolding rs using cell_range_iff [OF rep(1,2) lvl] by (auto simp: cnt)
  have "(\<Sum>r\<leftarrow>rs. unat (hr_count r)) = (\<Sum>l<?n. \<Sum>i<unat ?R.
      length (filter (\<lambda>v. in_cell (unat ?R) (unat ?B) l i (unat v)) vs))"
    unfolding rs
    by (simp add: sum_list_map_concat comp_def cnt interv_sum_list_conv_sum_set_nat
        atLeast0LessThan)
  also have "\<dots> = length vs"
    using sum_over_cells [OF rep(1,2) n below, of "\<lambda>_. 1"] by (simp add: sum_list_triv)
  finally show "(\<Sum>r\<leftarrow>rs. unat (hr_count r)) = length vs" .
qed

subsection \<open>What the percentile scan reports\<close>

definition scan_steps :: "bucket list \<Rightarrow> (bucket \<times> nat) list" where
  "scan_steps hist = concat (map (\<lambda>b. map (Pair b) [0..<length (bk_Sum b)]) hist)"

definition scan_run ::
    "(rat \<Rightarrow> rat) \<Rightarrow> rat \<Rightarrow> (bucket \<times> nat) list \<Rightarrow> percentile_scan \<Rightarrow> percentile_scan" where
  "scan_run rnd tot = fold (\<lambda>(b, rg). scan_range rnd tot b rg)"

lemma scan_run_steps:
  "scan_run rnd tot (scan_steps hist) s = fold (scan_bucket rnd tot) hist s"
  by (induction hist arbitrary: s) (simp_all add: scan_run_def scan_steps_def scan_bucket_def fold_map comp_def)

text \<open>After a step, either a percentile is left that the sum has not passed, or the scan read past the end.\<close>

definition scan_settled :: "(rat \<Rightarrow> rat) \<Rightarrow> rat \<Rightarrow> percentile_scan \<Rightarrow> bool" where
  "scan_settled rnd tot s \<longleftrightarrow>
     (case ps_rest s of [] \<Rightarrow> ps_oob s | (_, p) # _ \<Rightarrow> \<not> ps_sum s > rnd (rnd (p * tot) / 100))"

definition scan_names :: "percentile_scan \<Rightarrow> string list" where
  "scan_names s = map fst (ps_found s) @ map fst (ps_rest s)"

lemma report_percentiles_result:
  "report_percentiles rnd tot acc v ps found = (rest, found', oob) \<Longrightarrow>
     map fst found' @ map fst rest = map fst found @ map fst ps \<and>
     (case rest of [] \<Rightarrow> oob | (_, p) # _ \<Rightarrow> \<not> acc > rnd (rnd (p * tot) / 100)) \<and>
     set rest \<subseteq> set ps"
  by (induction rnd tot acc v ps found rule: report_percentiles.induct) (auto split: if_splits)

lemma scan_range_step:
  "scan_settled rnd tot (scan_range rnd tot b rg s)"
  "scan_names (scan_range rnd tot b rg s) = scan_names s"
  "set (ps_rest (scan_range rnd tot b rg s)) \<subseteq> set (ps_rest s)"
  "ps_sum (scan_range rnd tot b rg s) = rnd (ps_sum s + double_of_u64 rnd (bk_Sum b ! rg))"
  by (auto simp: scan_range_def Let_def scan_settled_def scan_names_def split: prod.splits list.splits
      dest!: report_percentiles_result)

lemma scan_run_result:
  "scan_names (scan_run rnd tot xs s) = scan_names s"
  "set (ps_rest (scan_run rnd tot xs s)) \<subseteq> set (ps_rest s)"
  "xs \<noteq> [] \<Longrightarrow> scan_settled rnd tot (scan_run rnd tot xs s)"
proof (induction xs rule: rev_induct)
  case (snoc x xs)
  obtain b rg where x: "x = (b, rg)" by (cases x)
  have run: "scan_run rnd tot (xs @ [x]) s = scan_range rnd tot b rg (scan_run rnd tot xs s)"
    by (simp add: scan_run_def x)
  { case 1 show ?case using snoc.IH(1) by (simp add: run scan_range_step) }
  { case 2 show ?case using snoc.IH(2) scan_range_step(3) by (metis run subset_trans) }
  { case 3 show ?case by (simp add: run scan_range_step) }
qed (simp_all add: scan_run_def)

lemma scan_run_sum:
  assumes "exact_integers rnd"
  shows "m + (\<Sum>(b, rg)\<leftarrow>xs. unat (bk_Sum b ! rg)) \<le> 2 ^ 53 \<Longrightarrow> ps_sum s = of_nat m \<Longrightarrow>
     ps_sum (scan_run rnd tot xs s) = of_nat (m + (\<Sum>(b, rg)\<leftarrow>xs. unat (bk_Sum b ! rg)))"
proof (induction xs arbitrary: m s)
  case (Cons x xs)
  obtain b rg where x: "x = (b, rg)" by (cases x)
  let ?w = "unat (bk_Sum b ! rg)"
  have small: "?w \<le> 2 ^ 53" "m + ?w \<le> 2 ^ 53" using Cons.prems(1) by (simp_all add: x)
  have w: "double_of_u64 rnd (bk_Sum b ! rg) = of_nat ?w"
    using exact_integersD [OF assms small(1)] by (simp add: double_of_u64_def)
  have "rnd (of_nat m + of_nat ?w) = of_nat (m + ?w)"
    using exact_integersD [OF assms small(2)] by simp
  then have "ps_sum (scan_range rnd tot b rg s) = of_nat (m + ?w)"
    using Cons.prems(2) w by (simp add: scan_range_step(4))
  from Cons.IH [OF _ this] Cons.prems(1) show ?case
    by (simp add: scan_run_def x add.assoc)
qed (simp add: scan_run_def)

lemma scan_steps_sum:
  assumes "represents d vs" "vs \<noteq> []" "sum_list (map unat vs) < 2 ^ 64"
  shows "(\<Sum>(b, rg)\<leftarrow>scan_steps (d_histogram d). unat (bk_Sum b ! rg)) = sum_list (map unat vs)"
proof -
  let ?R = "d_ranges d" and ?B = "d_base d" and ?n = "length (d_histogram d)"
  let ?in = "\<lambda>l i. filter (\<lambda>v. in_cell (unat ?R) (unat ?B) l i (unat v)) vs"
  note rep = representsD [OF assms(1)]
  have n: "0 < ?n" using assms(1,2) by (auto simp: represents_def)
  have below: "\<forall>v \<in> set vs. unat v < lvl_hi (unat ?R) (unat ?B) (?n - 1)"
    using assms(1) by (simp add: represents_def)
  have cell: "unat (sum_list (?in l i)) = sum_list (map unat (?in l i))" for l i
  proof -
    have "sum_list (map unat (?in l i)) \<le> sum_list (map unat vs)"
      by (induction vs) simp_all
    with assms(3) show ?thesis by (intro unat_sum_list_le) linarith
  qed
  have "(\<Sum>(b, rg)\<leftarrow>scan_steps (d_histogram d). unat (bk_Sum b ! rg)) =
      (\<Sum>b\<leftarrow>d_histogram d. \<Sum>rg<length (bk_Sum b). unat (bk_Sum b ! rg))"
    by (simp add: scan_steps_def sum_list_map_concat comp_def interv_sum_list_conv_sum_set_nat
        atLeast0LessThan)
  also have "\<dots> = (\<Sum>l<?n. \<Sum>i<unat ?R. sum_list (map unat (?in l i)))"
    by (subst rep(8)) (simp add: comp_def spec_bucket_def cell interv_sum_list_conv_sum_set_nat
        atLeast0LessThan)
  also have "\<dots> = sum_list (map unat vs)" by (rule sum_over_cells [OF rep(1,2) n below])
  finally show ?thesis .
qed

lemma percentiles_ok:
  assumes "exact_integers rnd" "represents d vs"
    and "0 < sum_list (map unat vs)" "sum_list (map unat vs) \<le> 2 ^ 53" "length vs < 2 ^ 64"
    and thr: "\<forall>(name, p) \<in> set (PERCENTILES rnd).
      rnd (rnd (p * of_nat (unat (d_total d))) / 100) < of_nat (unat (d_total d))"
  shows "map fst (sv_percentiles (getStatistics rnd d)) = map fst (PERCENTILES rnd)"
    and "ps_oob (scan_percentiles rnd d)"
proof -
  let ?tot = "of_nat (unat (d_total d)) :: rat" and ?xs = "scan_steps (d_histogram d)"
  let ?s0 = "\<lparr>ps_rest = PERCENTILES rnd, ps_sum = 0, ps_found = [], ps_oob = False\<rparr>"
  define s where "s = scan_percentiles rnd d"
  have ne: "vs \<noteq> []" using assms(3) by auto
  have lt: "sum_list (map unat vs) < 2 ^ 64" using assms(4) by simp
  have total: "unat (d_total d) = sum_list (map unat vs)"
    using representsD(4) [OF assms(2)] unat_sum_list_le [OF lt] by simp
  have "double_of_u64 rnd (d_total d) = ?tot"
    using exact_integersD [OF assms(1)] assms(4) total by (simp add: double_of_u64_def)
  then have s: "s = scan_run rnd ?tot ?xs ?s0"
    by (simp add: s_def scan_percentiles_def scan_run_steps)
  note sum = scan_steps_sum [OF assms(2) ne lt]
  have "?xs \<noteq> []"
  proof
    assume "?xs = []"
    then show False using sum assms(3) by (simp only: list.map sum_list.Nil less_irrefl)
  qed
  then have settled: "scan_settled rnd ?tot s" unfolding s by (rule scan_run_result(3))
  have "ps_sum s = of_nat (0 + (\<Sum>(b, rg)\<leftarrow>?xs. unat (bk_Sum b ! rg)))"
    unfolding s by (rule scan_run_sum [OF assms(1)]) (use sum assms(4) in simp_all)
  then have "ps_sum s = ?tot" by (simp only: sum total add_0)
  moreover have "set (ps_rest s) \<subseteq> set (PERCENTILES rnd)"
    using scan_run_result(2) [of rnd ?tot ?xs ?s0] by (simp add: s)
  ultimately have rest: "ps_rest s = []"
    using settled thr by (cases "ps_rest s") (auto simp: scan_settled_def split: prod.splits)
  then show "ps_oob (scan_percentiles rnd d)" using settled by (simp add: scan_settled_def s_def)
  have "scan_names s = map fst (PERCENTILES rnd)"
    unfolding s scan_run_result(1) by (simp add: scan_names_def)
  moreover have "d_count d \<noteq> 0"
    using representsD(5) [OF assms(2)] ne assms(5) by (simp add: word_unat_eq_iff unat_of_nat)
  ultimately show "map fst (sv_percentiles (getStatistics rnd d)) = map fst (PERCENTILES rnd)"
    using rest by (simp add: getStatistics_def scan_names_def s_def)
qed

text \<open>
  Property C3. Counting a value never fails and gives exactly the histogram of the values counted
  so far with the new value added at the end: total, count, minimum, maximum, and per range the
  sum and the number of the values that fall in it. It holds for values up to
  \<open>2 ^ 53 / base\<close>, where the machine's doubles are exact.
\<close>

theorem dist_count_correct:
  assumes "exact_integers rnd" "represents d vs" "unat v * unat (d_base d) \<le> 2 ^ 53"
  shows "\<exists>d'. dist_count rnd v d = Inr d' \<and> represents d' (vs @ [v]) \<and>
     d_unit d' = d_unit d \<and> d_ranges d' = d_ranges d \<and> d_base d' = d_base d"
  using assms by (rule dist_count_ok)

theorem dist_count_correct_witness:
  "\<exists>d d'. distribution_new ''request'' 10 10 = Inr d \<and> dist_count (\<lambda>x. x) 25 d = Inr d' \<and>
     represents d' [25]"
proof -
  obtain d where d: "distribution_new ''request'' 10 10 = Inr d"
    by (simp add: distribution_new_def word_less_nat_alt)
  have "represents d []" "d_base d = 10" using represents_new [OF _ _ _ d] by simp_all
  then obtain d' where "dist_count (\<lambda>x. x) 25 d = Inr d'" "represents d' [25]"
    using dist_count_correct [of "\<lambda>x. x" d "[]" 25] by (auto simp: exact_integers_def)
  with d show ?thesis by blast
qed

text \<open>
  Property C4. After any run of values within \<open>2 ^ 53 / base\<close>, the reported histogram is a
  histogram of exactly those values: its ranges tile an interval from 0 that holds every value,
  the count of each range is the number of the values from its begin to its end, inclusive, and
  the counts add up to the number of values.
\<close>

theorem getHistogram_correct:
  assumes "exact_integers rnd" "2 \<le> unat B" "1 \<le> unat R" "unat R \<le> 2 ^ 53"
    and "\<forall>v \<in> set vs. unat v * unat B \<le> 2 ^ 53" "vs \<noteq> []" "length vs < 2 ^ 64"
  shows "\<exists>d rs. and_then (distribution_new u R B) (count_all rnd vs) = Inr d \<and>
     getHistogram d = (u, rs) \<and>
     (\<exists>top. tiles 0 rs top \<and> (\<forall>v \<in> set vs. v < top)) \<and>
     (\<forall>r \<in> set rs. unat (hr_count r) = length (filter (\<lambda>v. hr_begin r \<le> v \<and> v \<le> hr_end r) vs)) \<and>
     (\<Sum>r\<leftarrow>rs. unat (hr_count r)) = length vs"
proof -
  obtain d0 where d0: "distribution_new u R B = Inr d0"
    using assms(2) by (simp add: distribution_new_def word_less_nat_alt)
  note new = represents_new [OF assms(2-4) d0]
  obtain d where d: "count_all rnd vs d0 = Inr d" "represents d vs" "d_unit d = u"
    using count_all_represents [OF assms(1) new(1), of vs] assms(5) new by auto
  moreover have "getHistogram d = (u, snd (getHistogram d))" using d(3) by (simp add: getHistogram_def)
  ultimately show ?thesis using d0 getHistogram_ok [OF d(2) assms(6,7)] by auto
qed

theorem getHistogram_correct_witness:
  "\<exists>d rs. and_then (distribution_new ''ns'' 10 10) (count_all (\<lambda>x. x) [3, 25, 1000]) = Inr d \<and>
     getHistogram d = (''ns'', rs) \<and> (\<Sum>r\<leftarrow>rs. unat (hr_count r)) = 3"
  using getHistogram_correct [of "\<lambda>x. x" 10 10 "[3, 25, 1000]" "''ns''"]
  by (auto simp: exact_integers_def)

text \<open>
  Once the counted values add up to a positive number, the statistics report every
  one of the four percentiles, in order; but to stop, the scan compares the running sum with
  \<open>PERCENTILES[4]\<close>, one past the end of the vector, before it tests the index. The hypotheses on
  rounding say that doubles are exact on the integers that occur and that 99.99 percent of the
  total, computed in doubles, stays below the total.
\<close>

theorem percentiles_complete_out_of_bounds:
  assumes "exact_integers rnd" "represents d vs"
    and "0 < sum_list (map unat vs)" "sum_list (map unat vs) \<le> 2 ^ 53" "length vs < 2 ^ 64"
    and "\<forall>(name, p) \<in> set (PERCENTILES rnd).
      rnd (rnd (p * of_nat (unat (d_total d))) / 100) < of_nat (unat (d_total d))"
  shows "map fst (sv_percentiles (getStatistics rnd d)) =
      [''90.000000th'', ''99.000000th'', ''99.900000th'', ''99.990000th''] \<and>
    ps_oob (scan_percentiles rnd d)"
  using percentiles_ok [OF assms] by (simp add: PERCENTILES_def)

theorem percentiles_complete_out_of_bounds_witness:
  "\<exists>d. and_then (distribution_new ''ns'' 10 10) (count_all (\<lambda>x. x) [3, 25]) = Inr d \<and>
     ps_oob (scan_percentiles (\<lambda>x. x) d)"
proof -
  obtain d0 where d0: "distribution_new ''ns'' 10 10 = Inr d0"
    by (simp add: distribution_new_def word_less_nat_alt)
  have new: "represents d0 []" "d_base d0 = 10" using represents_new [OF _ _ _ d0] by simp_all
  obtain d where d: "count_all (\<lambda>x. x) [3, 25] d0 = Inr d" "represents d [3, 25]"
    using count_all_represents [of "\<lambda>x. x" d0 "[]" "[3, 25]"] new by (auto simp: exact_integers_def)
  moreover have "d_total d = 28" using representsD(4) [OF d(2)] by simp
  ultimately show ?thesis
    using percentiles_complete_out_of_bounds [of "\<lambda>x. x" d "[3, 25]"] d0
    by (auto simp: exact_integers_def PERCENTILES_def)
qed

end
