(* ===== verification/Trace_Messages.thy ===== *)
theory Trace_Messages
  imports Std_Map
begin

section \<open>Trace events and parsed events\<close>

text \<open>
  The messages of source/octf/proto/trace.proto and source/octf/proto/parsedTrace.proto as
  records, and the file identifier of source/octf/fs/FileId.h with its order.

  A submessage whose presence the code tests (\<open>has_io\<close>, \<open>has_file\<close>) is an option; reading a
  field of an absent one gives the default of the field. A submessage the code only reads or
  fills is always there, with default fields. An enumeration of proto3 is open: \<open>IoType\<close> is an
  integer, with the named values below.
\<close>

definition UnknownIoType :: int where "UnknownIoType = 0"
definition Io_Read :: int where "Io_Read = 1"
definition Io_Write :: int where "Io_Write = 2"
definition Io_Discard :: int where "Io_Discard = 3"
definition IoType_ARRAYSIZE :: nat where "IoType_ARRAYSIZE = 4"

lemmas io_types = UnknownIoType_def Io_Read_def Io_Write_def Io_Discard_def IoType_ARRAYSIZE_def

datatype fs_event_type =
  UnknownFsEventType | Fs_Create | Fs_Delete | Fs_MoveTo | Fs_MoveFrom | Fs_Access

record event_header =
  eh_sid :: u64
  eh_timestamp :: u64

text \<open>\<open>google.protobuf.Timestamp\<close>, and \<open>timespec\<close> in \<open>FileId\<close>: seconds and nanoseconds.\<close>

datatype timestamp = Timestamp (ts_seconds: int) (ts_nanos: int)

definition ts_total :: "timestamp \<Rightarrow> int" where
  "ts_total t = ts_nanos t + ts_seconds t * 1000000000"

subsection \<open>File identifiers\<close>

text \<open>
  \<open>FileId\<close> compares the creation date by the total number of nanoseconds, so the identifier
  holds that total. Two dates written differently with the same total are the same identifier.
\<close>

datatype file_id = FileId (fid_partitionId: u64) (fid_id: u64) (fid_creation: int)

definition FileId_default :: file_id where
  "FileId_default = FileId 0 0 0"

definition file_id_less :: "file_id \<Rightarrow> file_id \<Rightarrow> bool" where
  "file_id_less a b =
     (if fid_partitionId a \<noteq> fid_partitionId b then fid_partitionId a < fid_partitionId b
      else if fid_id a \<noteq> fid_id b then fid_id a < fid_id b
      else fid_creation a < fid_creation b)"

instantiation file_id :: linorder
begin

definition less_file_id :: "file_id \<Rightarrow> file_id \<Rightarrow> bool" where
  "less_file_id = file_id_less"

definition less_eq_file_id :: "file_id \<Rightarrow> file_id \<Rightarrow> bool" where
  "less_eq_file_id a b \<longleftrightarrow> a < b \<or> a = b"

instance
proof
  fix x y z :: file_id
  show "x < y \<longleftrightarrow> x \<le> y \<and> \<not> y \<le> x"
    and "x \<le> x"
    and "x \<le> y \<Longrightarrow> y \<le> z \<Longrightarrow> x \<le> z"
    and "x \<le> y \<Longrightarrow> y \<le> x \<Longrightarrow> x = y"
    by (auto simp: less_file_id_def file_id_less_def less_eq_file_id_def split: if_splits)
  show "x \<le> y \<or> y \<le> x"
    by (cases x; cases y) (auto simp: less_file_id_def file_id_less_def less_eq_file_id_def split: if_splits)
qed

end

text \<open>The message \<open>FileId\<close> of trace.proto.\<close>

record proto_file_id =
  pfi_partitionId :: u64
  pfi_id :: u64
  pfi_creationDate :: timestamp

definition file_id_of_proto :: "proto_file_id \<Rightarrow> file_id" where
  "file_id_of_proto p = FileId (pfi_partitionId p) (pfi_id p) (ts_total (pfi_creationDate p))"

subsection \<open>Trace events\<close>

record device_description =
  dd_id :: u64
  dd_name :: string
  dd_size :: u64
  dd_model :: string

definition device_default :: device_description where
  "device_default = \<lparr>dd_id = 0, dd_name = '''', dd_size = 0, dd_model = ''''\<rparr>"

record event_io =
  eio_lba :: u64
  eio_len :: u32
  eio_ioClass :: u32
  eio_deviceId :: u64
  eio_operation :: int
  eio_flush :: bool
  eio_fua :: bool
  eio_writeHint :: u32
  eio_id :: u64
  eio_metadata :: bool
  eio_direct :: bool
  eio_readahead :: bool

record event_io_completion =
  cmp_lba :: u64
  cmp_len :: u32
  cmp_error :: bool
  cmp_deviceId :: u64
  cmp_refId :: u64

record event_filesystem_meta =
  fsm_refSid :: u64
  fsm_fileId :: proto_file_id
  fsm_fileOffset :: u64
  fsm_fileSize :: u64
  fsm_refId :: u64

record event_filesystem_file_name =
  fsn_fileId :: proto_file_id
  fsn_fileParentId :: proto_file_id
  fsn_fileName :: string

record event_filesystem_file_event =
  fse_fileId :: proto_file_id
  fse_fsEventType :: fs_event_type

datatype event_case =
    Io event_io
  | DeviceDescription device_description
  | FilesystemMeta event_filesystem_meta
  | IoCompletion event_io_completion
  | FilesystemFileName event_filesystem_file_name
  | FilesystemFileEvent event_filesystem_file_event
  | EventType_Not_Set

record trace_event =
  te_header :: event_header
  te_event :: event_case

subsection \<open>Parsed events\<close>

record parsed_flags =
  pf_flush :: bool
  pf_fua :: bool
  pf_metadata :: bool
  pf_direct :: bool
  pf_readahead :: bool

record parsed_io =
  pio_lba :: u64
  pio_len :: u32
  pio_operation :: int
  pio_error :: bool
  pio_latency :: u64
  pio_qd :: u64
  pio_writeHint :: u32
  pio_flags :: parsed_flags

record parsed_device =
  pdev_id :: u64
  pdev_name :: string
  pdev_partition :: u64
  pdev_model :: string

record parsed_file =
  pfile_id :: u64
  pfile_offset :: u64
  pfile_size :: u64
  pfile_creationDate :: timestamp
  pfile_path :: string
  pfile_eventType :: fs_event_type

record parsed_event =
  pe_header :: event_header
  pe_io :: "parsed_io option"
  pe_device :: parsed_device
  pe_file :: "parsed_file option"
  pe_tags :: "(string \<times> string) list"

definition parsed_io_default :: parsed_io where
  "parsed_io_default =
     \<lparr>pio_lba = 0, pio_len = 0, pio_operation = UnknownIoType, pio_error = False,
      pio_latency = 0, pio_qd = 0, pio_writeHint = 0,
      pio_flags = \<lparr>pf_flush = False, pf_fua = False, pf_metadata = False, pf_direct = False,
                   pf_readahead = False\<rparr>\<rparr>"

definition parsed_device_default :: parsed_device where
  "parsed_device_default = \<lparr>pdev_id = 0, pdev_name = '''', pdev_partition = 0, pdev_model = ''''\<rparr>"

definition parsed_file_default :: parsed_file where
  "parsed_file_default =
     \<lparr>pfile_id = 0, pfile_offset = 0, pfile_size = 0, pfile_creationDate = Timestamp 0 0,
      pfile_path = '''', pfile_eventType = UnknownFsEventType\<rparr>"

definition parsed_event_default :: parsed_event where
  "parsed_event_default =
     \<lparr>pe_header = \<lparr>eh_sid = 0, eh_timestamp = 0\<rparr>, pe_io = None, pe_device = parsed_device_default,
      pe_file = None, pe_tags = []\<rparr>"

text \<open>The getters \<open>io()\<close> and \<open>file()\<close>: the submessage, or its default when it is absent.\<close>

definition the_io :: "parsed_event \<Rightarrow> parsed_io" where
  "the_io e = (case pe_io e of None \<Rightarrow> parsed_io_default | Some io \<Rightarrow> io)"

definition the_file :: "parsed_event \<Rightarrow> parsed_file" where
  "the_file e = (case pe_file e of None \<Rightarrow> parsed_file_default | Some f \<Rightarrow> f)"

definition file_id_of_parsed :: "parsed_event \<Rightarrow> file_id" where
  "file_id_of_parsed e =
     FileId (pdev_partition (pe_device e)) (pfile_id (the_file e))
       (ts_total (pfile_creationDate (the_file e)))"

lemma the_io_simps [simp]:
  "pe_io e = Some io \<Longrightarrow> the_io e = io"
  "pe_io e = None \<Longrightarrow> the_io e = parsed_io_default"
  by (simp_all add: the_io_def)

lemma the_file_simps [simp]:
  "pe_file e = Some f \<Longrightarrow> the_file e = f"
  "pe_file e = None \<Longrightarrow> the_file e = parsed_file_default"
  by (simp_all add: the_file_def)

end
