(* ===== verification/Io_Statistics.thy ===== *)
theory Io_Statistics
  imports Trace_Messages Workset Distribution
begin

section \<open>IO statistics\<close>

text \<open>
  \<open>IoStatistics\<close> (source/octf/analytics/statistics/IoStatistics.cpp): per operation type, for
  flushes and in total, the distributions of size, latency and queue depth, counters of events
  and errors, the workset and the map of address hits.

  \<open>count\<close> works on a pointer to the statistics of one group, an element of the vector or the
  flush group, and on the total: the group is \<open>stats_group\<close>, and \<open>on_group\<close> and \<open>on_total\<close> update
  one of them in place. An operation that throws halfway propagates the fault; the model does
  not keep the partly updated object.
\<close>

record stats =
  st_size :: distribution
  st_count :: u64
  st_latency :: distribution
  st_qd :: distribution
  st_errors :: u64
  st_wc :: workset
  st_lbaHitMap :: "(u64, u64) std_map"
  st_lbaHitMapRangeSize :: u64

definition LBA_HIT_MAP_RANGE_SIZE_DEFAULT :: u64 where
  "LBA_HIT_MAP_RANGE_SIZE_DEFAULT = 20480"

definition stats_new :: "u64 \<Rightarrow> stats res" where
  "stats_new rangeSize =
     and_then (distribution_new ''sector'' 256 2) (\<lambda>sizes.
     and_then (distribution_new ''ns'' 1 2) (\<lambda>latencies.
     and_then (distribution_new ''request'' 128 2) (\<lambda>qds.
     Inr \<lparr>st_size = sizes, st_count = 0, st_latency = latencies, st_qd = qds, st_errors = 0,
          st_wc = workset_new, st_lbaHitMap = [], st_lbaHitMapRangeSize = rangeSize\<rparr>)))"

text \<open>The assignment operator of \<open>Stats\<close>: it leaves the hit map and its range size alone.\<close>

definition stats_assign :: "stats \<Rightarrow> stats \<Rightarrow> stats" where
  "stats_assign this other =
     this\<lparr>st_size := st_size other, st_count := st_count other, st_latency := st_latency other,
          st_qd := st_qd other, st_errors := st_errors other, st_wc := st_wc other\<rparr>"

record io_statistics =
  is_statistics :: "stats list"
  is_total :: stats
  is_flush :: stats
  is_lbaHistRangeSize :: u64
  is_startTime :: u64
  is_endTime :: u64
  is_lbaHistEnabled :: bool

definition io_statistics_new :: "u64 \<Rightarrow> io_statistics res" where
  "io_statistics_new rangeSize =
     and_then (stats_new rangeSize) (\<lambda>s.
     Inr \<lparr>is_statistics = replicate IoType_ARRAYSIZE s, is_total = s, is_flush = s,
          is_lbaHistRangeSize = rangeSize, is_startTime = 0, is_endTime = 0,
          is_lbaHistEnabled = False\<rparr>)"

definition io_statistics_assign :: "io_statistics \<Rightarrow> io_statistics \<Rightarrow> io_statistics" where
  "io_statistics_assign this other =
     \<lparr>is_statistics = (if length (is_statistics this) = length (is_statistics other)
                       then map2 stats_assign (is_statistics this) (is_statistics other)
                       else is_statistics other),
      is_total = stats_assign (is_total this) (is_total other),
      is_flush = stats_assign (is_flush this) (is_flush other),
      is_lbaHistRangeSize = is_lbaHistRangeSize other,
      is_startTime = is_startTime other, is_endTime = is_endTime other,
      is_lbaHistEnabled = is_lbaHistEnabled other\<rparr>"

definition enableLbaHistogram :: "io_statistics \<Rightarrow> io_statistics" where
  "enableLbaHistogram s = s\<lparr>is_lbaHistEnabled := True\<rparr>"

subsection \<open>Counting an event\<close>

datatype stats_group = Flush_Group | Type_Group nat

fun on_group :: "stats_group \<Rightarrow> (stats \<Rightarrow> stats res) \<Rightarrow> io_statistics \<Rightarrow> io_statistics res" where
  "on_group Flush_Group f s = and_then (f (is_flush s)) (\<lambda>x. Inr (s\<lparr>is_flush := x\<rparr>))"
| "on_group (Type_Group i) f s =
     and_then (f (is_statistics s ! i))
       (\<lambda>x. Inr (s\<lparr>is_statistics := (is_statistics s)[i := x]\<rparr>))"

definition on_total :: "(stats \<Rightarrow> stats res) \<Rightarrow> io_statistics \<Rightarrow> io_statistics res" where
  "on_total f s = and_then (f (is_total s)) (\<lambda>x. Inr (s\<lparr>is_total := x\<rparr>))"

definition lba_hit :: "u64 \<Rightarrow> stats \<Rightarrow> stats" where
  "lba_hit key st =
     st\<lparr>st_lbaHitMap := map_put key (snd (map_at 0 key (st_lbaHitMap st)) + 1) (st_lbaHitMap st)\<rparr>"

text \<open>The first addresses of the ranges an IO spans, in the order of the loop.\<close>

definition hit_keys :: "u64 \<Rightarrow> u64 \<Rightarrow> u32 \<Rightarrow> u64 list" where
  "hit_keys rangeSize lba len =
     (let ioBeginRangeStart = (lba div rangeSize) * rangeSize;
          ioEndRangeStart = ((lba + ucast len - 1) div rangeSize) * rangeSize;
          rangeSpan = (ioEndRangeStart - ioBeginRangeStart) div rangeSize + 1
      in map (\<lambda>r. of_nat r * rangeSize + ioBeginRangeStart) [0..<unat rangeSpan])"

definition update_hits ::
    "stats_group \<Rightarrow> parsed_io \<Rightarrow> io_statistics \<Rightarrow> io_statistics res" where
  "update_hits g io s =
     (if is_lbaHistEnabled s \<and> pio_len io \<noteq> 0 then
        if is_lbaHistRangeSize s = 0 then Inl (Undefined_Behaviour ''division by zero'')
        else fold (\<lambda>key m. and_then m (\<lambda>s.
               and_then (on_group g (\<lambda>st. Inr (lba_hit key st)) s) (\<lambda>s.
               on_total (\<lambda>st. Inr (lba_hit key st)) s)))
             (hit_keys (is_lbaHistRangeSize s) (pio_lba io) (pio_len io)) (Inr s)
      else Inr s)"

definition count_latency :: "(rat \<Rightarrow> rat) \<Rightarrow> u64 \<Rightarrow> stats \<Rightarrow> stats res" where
  "count_latency rnd v st =
     and_then (dist_count rnd v (st_latency st)) (\<lambda>d. Inr (st\<lparr>st_latency := d\<rparr>))"

definition count_qd :: "(rat \<Rightarrow> rat) \<Rightarrow> u64 \<Rightarrow> stats \<Rightarrow> stats res" where
  "count_qd rnd v st = and_then (dist_count rnd v (st_qd st)) (\<lambda>d. Inr (st\<lparr>st_qd := d\<rparr>))"

definition count_size :: "(rat \<Rightarrow> rat) \<Rightarrow> u64 \<Rightarrow> stats \<Rightarrow> stats res" where
  "count_size rnd v st = and_then (dist_count rnd v (st_size st)) (\<lambda>d. Inr (st\<lparr>st_size := d\<rparr>))"

definition insert_workset :: "u64 \<Rightarrow> u64 \<Rightarrow> stats \<Rightarrow> stats res" where
  "insert_workset lba len st = Inr (st\<lparr>st_wc := insertRange lba len (st_wc st)\<rparr>)"

definition remove_workset :: "u64 \<Rightarrow> u64 \<Rightarrow> stats \<Rightarrow> stats res" where
  "remove_workset lba len st = Inr (st\<lparr>st_wc := fst (removeRange lba len (st_wc st))\<rparr>)"

text \<open>The loop over the vector that a discard runs, comparing each element with the group.\<close>

definition discard_worksets ::
    "stats_group \<Rightarrow> u64 \<Rightarrow> u64 \<Rightarrow> io_statistics \<Rightarrow> io_statistics res" where
  "discard_worksets g lba len s =
     fold (\<lambda>i m. and_then m
             (on_group (Type_Group i)
               (if g = Type_Group i then insert_workset lba len else remove_workset lba len)))
       [0..<length (is_statistics s)] (Inr s)"

definition update_size ::
    "(rat \<Rightarrow> rat) \<Rightarrow> stats_group \<Rightarrow> parsed_io \<Rightarrow> io_statistics \<Rightarrow> io_statistics res" where
  "update_size rnd g io s =
     (let len = ucast (pio_len io); lba = pio_lba io
      in if len = 0 then Inr s
         else and_then (on_total (count_size rnd len) s) (\<lambda>s.
              and_then (on_group g (count_size rnd len) s) (\<lambda>s.
              if pio_operation io = Io_Discard then
                and_then (discard_worksets g lba len s) (on_total (remove_workset lba len))
              else
                and_then (on_group g (insert_workset lba len) s) (on_total (insert_workset lba len)))))"

definition update_latency ::
    "(rat \<Rightarrow> rat) \<Rightarrow> stats_group \<Rightarrow> parsed_io \<Rightarrow> io_statistics \<Rightarrow> io_statistics res" where
  "update_latency rnd g io s =
     (if pio_latency io \<noteq> 0
      then and_then (on_total (count_latency rnd (pio_latency io)) s)
             (on_group g (count_latency rnd (pio_latency io)))
      else Inr s)"

definition update_qd ::
    "(rat \<Rightarrow> rat) \<Rightarrow> stats_group \<Rightarrow> parsed_io \<Rightarrow> io_statistics \<Rightarrow> io_statistics res" where
  "update_qd rnd g io s =
     (if pio_qd io \<noteq> 0
      then and_then (on_total (count_qd rnd (pio_qd io)) s) (on_group g (count_qd rnd (pio_qd io)))
      else Inr s)"

definition update_errors :: "stats_group \<Rightarrow> parsed_io \<Rightarrow> io_statistics \<Rightarrow> io_statistics res" where
  "update_errors g io s =
     (if pio_error io
      then and_then (on_group g (\<lambda>st. Inr (st\<lparr>st_errors := st_errors st + 1\<rparr>)) s)
             (on_total (\<lambda>st. Inr (st\<lparr>st_errors := st_errors st + 1\<rparr>)))
      else Inr s)"

definition update_count :: "stats_group \<Rightarrow> io_statistics \<Rightarrow> io_statistics res" where
  "update_count g s =
     and_then (on_group g (\<lambda>st. Inr (st\<lparr>st_count := st_count st + 1\<rparr>)) s)
       (on_total (\<lambda>st. Inr (st\<lparr>st_count := st_count st + 1\<rparr>)))"

definition update_time :: "u64 \<Rightarrow> io_statistics \<Rightarrow> io_statistics" where
  "update_time t s =
     s\<lparr>is_startTime := (if is_startTime s = 0 then t else is_startTime s), is_endTime := t\<rparr>"

text \<open>
  The bound check of \<open>count\<close> compares the size of the vector with the type by \<open><\<close>, so the type
  equal to the size passes; the element access after it is then outside the vector, as it is
  for a negative type.
\<close>

definition select_group :: "parsed_io \<Rightarrow> io_statistics \<Rightarrow> stats_group res" where
  "select_group io s =
     (if int (length (is_statistics s)) < pio_operation io
      then Inl (Octf_Exception ''Invalid IO type'')
      else if pio_operation io < 0 \<or> int (length (is_statistics s)) \<le> pio_operation io
      then Inl (Undefined_Behaviour ''m_statistics[type] out of range'')
      else if pf_flush (pio_flags io) \<and> pio_len io = 0 then Inr Flush_Group
      else Inr (Type_Group (nat (pio_operation io))))"

definition io_count :: "(rat \<Rightarrow> rat) \<Rightarrow> parsed_event \<Rightarrow> io_statistics \<Rightarrow> io_statistics res" where
  "io_count rnd e s =
     (let io = the_io e
      in and_then (select_group io s) (\<lambda>g.
         and_then (update_hits g io s) (\<lambda>s.
         and_then (update_latency rnd g io s) (\<lambda>s.
         and_then (update_qd rnd g io s) (\<lambda>s.
         and_then (update_errors g io s) (\<lambda>s.
         and_then (update_size rnd g io s) (\<lambda>s.
         and_then (update_count g s) (\<lambda>s.
         Inr (update_time (eh_timestamp (pe_header e)) s)))))))))"

subsection \<open>Reports\<close>

record stats_metric =
  sm_unit :: string
  sm_value :: rat

record io_statistics_entry =
  ise_size :: stat_values
  ise_latency :: stat_values
  ise_count :: u64
  ise_metrics :: "(string \<times> stats_metric) list"
  ise_errors :: u64

definition duration_seconds :: "(rat \<Rightarrow> rat) \<Rightarrow> u64 \<Rightarrow> u64 \<Rightarrow> rat" where
  "duration_seconds rnd beginTime endTime =
     rnd (rnd (rnd (double_of_u64 rnd (endTime - beginTime) / 1000) / 1000) / 1000)"

definition getIoStatisticsEntry ::
    "(rat \<Rightarrow> rat) \<Rightarrow> u64 \<Rightarrow> u64 \<Rightarrow> stats \<Rightarrow> io_statistics_entry" where
  "getIoStatisticsEntry rnd beginTime endTime st =
     (let durationS = duration_seconds rnd beginTime endTime;
          iops = (if durationS \<noteq> 0 then rnd (double_of_u64 rnd (st_count st) / durationS) else 0);
          mib = rnd (double_of_u64 rnd (d_total (st_size st)) * (512 / 1024 / 1024));
          bandwidth = (if durationS \<noteq> 0 then rnd (mib / durationS) else 0);
          workset = double_of_u64 rnd (getWorkset (st_wc st))
      in \<lparr>ise_size = getStatistics rnd (st_size st),
          ise_latency = getStatistics rnd (st_latency st),
          ise_count = st_count st,
          ise_metrics =
            [(''throughput'', \<lparr>sm_unit = ''IOPS'', sm_value = iops\<rparr>),
             (''bandwidth'', \<lparr>sm_unit = ''MiB/s'', sm_value = bandwidth\<rparr>),
             (''workset'', \<lparr>sm_unit = ''sector'', sm_value = workset\<rparr>)],
          ise_errors = st_errors st\<rparr>)"

definition getLbaHistogramEntry :: "stats \<Rightarrow> string \<times> hist_range list" where
  "getLbaHistogramEntry st =
     (''sector'',
      map (\<lambda>(start, hits). \<lparr>hr_begin = start, hr_end = start + st_lbaHitMapRangeSize st - 1,
                           hr_count = hits\<rparr>) (st_lbaHitMap st))"

record io_report =
  ir_duration :: u64
  ir_read :: io_statistics_entry
  ir_write :: io_statistics_entry
  ir_discard :: io_statistics_entry
  ir_flush :: io_statistics_entry
  ir_total :: io_statistics_entry

definition stats_of :: "int \<Rightarrow> io_statistics \<Rightarrow> stats" where
  "stats_of ty s = is_statistics s ! nat ty"

definition getIoStatistics :: "(rat \<Rightarrow> rat) \<Rightarrow> io_statistics \<Rightarrow> io_report" where
  "getIoStatistics rnd s =
     (let entry = getIoStatisticsEntry rnd (is_startTime s) (is_endTime s)
      in \<lparr>ir_duration = is_endTime s - is_startTime s,
          ir_read = entry (stats_of Io_Read s),
          ir_write = entry (stats_of Io_Write s),
          ir_discard = entry (stats_of Io_Discard s),
          ir_flush = entry (is_flush s),
          ir_total = entry (is_total s)\<rparr>)"

text \<open>A histogram report fills some of the five histograms; the others stay unset.\<close>

type_synonym histogram = "string \<times> hist_range list"

record io_histogram =
  ih_duration :: u64
  ih_read :: "histogram option"
  ih_write :: "histogram option"
  ih_discard :: "histogram option"
  ih_flush :: "histogram option"
  ih_total :: "histogram option"

definition io_histogram_unset :: io_histogram where
  "io_histogram_unset = \<lparr>ih_duration = 0, ih_read = None, ih_write = None, ih_discard = None,
     ih_flush = None, ih_total = None\<rparr>"

definition getIoLatencyHistogram :: "io_statistics \<Rightarrow> io_histogram" where
  "getIoLatencyHistogram s =
     (let h = (\<lambda>st. Some (getHistogram (st_latency st)))
      in \<lparr>ih_duration = is_endTime s - is_startTime s,
          ih_read = h (stats_of Io_Read s), ih_write = h (stats_of Io_Write s),
          ih_discard = h (stats_of Io_Discard s), ih_flush = h (is_flush s),
          ih_total = h (is_total s)\<rparr>)"

definition getIoLbaHistogram :: "io_statistics \<Rightarrow> io_histogram" where
  "getIoLbaHistogram s =
     (if \<not> is_lbaHistEnabled s then io_histogram_unset
      else let h = (\<lambda>st. Some (getLbaHistogramEntry st))
           in \<lparr>ih_duration = is_endTime s - is_startTime s,
               ih_read = h (stats_of Io_Read s), ih_write = h (stats_of Io_Write s),
               ih_discard = h (stats_of Io_Discard s), ih_flush = None,
               ih_total = h (is_total s)\<rparr>)"

definition getIoSizeHistogram :: "io_statistics \<Rightarrow> io_histogram" where
  "getIoSizeHistogram s =
     (let h = (\<lambda>st. Some (getHistogram (st_size st)))
      in io_histogram_unset\<lparr>ih_duration := is_endTime s - is_startTime s,
          ih_read := h (stats_of Io_Read s), ih_write := h (stats_of Io_Write s)\<rparr>)"

definition getQueueDepthHistogram :: "io_statistics \<Rightarrow> io_histogram" where
  "getQueueDepthHistogram s =
     (let h = (\<lambda>st. Some (getHistogram (st_qd st)))
      in io_histogram_unset\<lparr>ih_duration := is_endTime s - is_startTime s,
          ih_read := h (stats_of Io_Read s), ih_write := h (stats_of Io_Write s),
          ih_total := h (is_total s)\<rparr>)"

subsection \<open>Groups\<close>

fun get_group :: "stats_group \<Rightarrow> io_statistics \<Rightarrow> stats" where
  "get_group Flush_Group s = is_flush s"
| "get_group (Type_Group i) s = is_statistics s ! i"

fun set_group :: "stats_group \<Rightarrow> stats \<Rightarrow> io_statistics \<Rightarrow> io_statistics" where
  "set_group Flush_Group x s = s\<lparr>is_flush := x\<rparr>"
| "set_group (Type_Group i) x s = s\<lparr>is_statistics := (is_statistics s)[i := x]\<rparr>"

fun valid_group :: "stats_group \<Rightarrow> io_statistics \<Rightarrow> bool" where
  "valid_group Flush_Group s \<longleftrightarrow> True"
| "valid_group (Type_Group i) s \<longleftrightarrow> i < length (is_statistics s)"

text \<open>The group an event belongs to, whatever the state.\<close>

definition event_group :: "parsed_io \<Rightarrow> stats_group" where
  "event_group io =
     (if pf_flush (pio_flags io) \<and> pio_len io = 0 then Flush_Group
      else Type_Group (nat (pio_operation io)))"

lemma on_group_set: "on_group g f s = and_then (f (get_group g s)) (\<lambda>x. Inr (set_group g x s))"
  by (cases g) auto

lemma get_set_group:
  "valid_group g s \<Longrightarrow> get_group h (set_group g x s) = (if h = g then x else get_group h s)"
  by (cases g; cases h) (auto simp: nth_list_update)

lemma set_group_frame [simp]:
  "is_total (set_group g x s) = is_total s"
  "is_lbaHistRangeSize (set_group g x s) = is_lbaHistRangeSize s"
  "is_lbaHistEnabled (set_group g x s) = is_lbaHistEnabled s"
  "is_startTime (set_group g x s) = is_startTime s"
  "is_endTime (set_group g x s) = is_endTime s"
  "length (is_statistics (set_group g x s)) = length (is_statistics s)"
  by (cases g; simp)+

lemma get_group_frame [simp]:
  "get_group h (s\<lparr>is_total := y\<rparr>) = get_group h s"
  "get_group h (s\<lparr>is_startTime := t\<rparr>) = get_group h s"
  "get_group h (s\<lparr>is_endTime := t\<rparr>) = get_group h s"
  by (cases h; simp)+

text \<open>What the steps of \<open>count\<close> leave alone.\<close>

definition same_setup :: "io_statistics \<Rightarrow> io_statistics \<Rightarrow> bool" where
  "same_setup s s' \<longleftrightarrow>
     length (is_statistics s') = length (is_statistics s) \<and>
     is_lbaHistRangeSize s' = is_lbaHistRangeSize s \<and>
     is_lbaHistEnabled s' = is_lbaHistEnabled s \<and>
     is_startTime s' = is_startTime s \<and> is_endTime s' = is_endTime s"

lemma same_setup_valid: "same_setup s s' \<Longrightarrow> valid_group g s' = valid_group g s"
  by (cases g) (simp_all add: same_setup_def)

lemma same_setup_refl [simp]: "same_setup s s"
  by (simp add: same_setup_def)

lemma same_setup_trans: "same_setup a b \<Longrightarrow> same_setup b c \<Longrightarrow> same_setup a c"
  by (simp add: same_setup_def)

text \<open>
  A component relation \<open>C st ios\<close> says that one part of \<open>st\<close> is what counting \<open>ios\<close> gives.
  \<open>tracks C s ios\<close>: every group is what counting its own events gives, the total what counting all
  of them gives.
\<close>

definition tracks :: "(stats \<Rightarrow> parsed_io list \<Rightarrow> bool) \<Rightarrow> io_statistics \<Rightarrow> parsed_io list \<Rightarrow> bool" where
  "tracks C s ios \<longleftrightarrow>
     (\<forall>g. valid_group g s \<longrightarrow> C (get_group g s) (filter (\<lambda>io. event_group io = g) ios)) \<and>
     C (is_total s) ios"

definition advances ::
    "(stats \<Rightarrow> parsed_io list \<Rightarrow> bool) \<Rightarrow> parsed_io \<Rightarrow> (stats \<Rightarrow> stats res) \<Rightarrow> bool" where
  "advances C io f \<longleftrightarrow> (\<forall>st xs. C st xs \<longrightarrow> (\<exists>st'. f st = Inr st' \<and> C st' (xs @ [io])))"

definition keeps :: "(stats \<Rightarrow> parsed_io list \<Rightarrow> bool) \<Rightarrow> (stats \<Rightarrow> stats res) \<Rightarrow> bool" where
  "keeps C f \<longleftrightarrow> (\<forall>st xs st'. C st xs \<longrightarrow> f st = Inr st' \<longrightarrow> C st' xs)"

lemma tracks_pair:
  assumes "tracks C s ios" "valid_group (event_group io) s"
    and "C x (filter (\<lambda>i. event_group i = event_group io) ios @ [io])" "C y (ios @ [io])"
  shows "tracks C (set_group (event_group io) x (s\<lparr>is_total := y\<rparr>)) (ios @ [io])"
proof -
  have valid: "valid_group h (s\<lparr>is_total := y\<rparr>) = valid_group h s" for h by (cases h) auto
  have valid': "valid_group h (set_group (event_group io) x (s\<lparr>is_total := y\<rparr>)) = valid_group h s" for h
    by (cases h) auto
  from assms show ?thesis
    unfolding tracks_def by (auto simp: get_set_group valid valid' split: if_splits)
qed

lemma both_step:
  assumes C: "tracks C s ios" "advances C io f" and g: "valid_group (event_group io) s"
  obtains s' where
    "and_then (on_total f s) (on_group (event_group io) f) = Inr s'"
    "and_then (on_group (event_group io) f s) (on_total f) = Inr s'"
    "tracks C s' (ios @ [io])" "same_setup s s'"
    "\<And>D xs. keeps D f \<Longrightarrow> tracks D s xs \<Longrightarrow> tracks D s' xs"
proof -
  let ?g = "event_group io"
  obtain x where x: "f (get_group ?g s) = Inr x"
    "C x (filter (\<lambda>i. event_group i = ?g) ios @ [io])"
    using C g by (fastforce simp: tracks_def advances_def)
  obtain y where y: "f (is_total s) = Inr y" "C y (ios @ [io])"
    using C by (fastforce simp: tracks_def advances_def)
  define s' where "s' = set_group ?g x (s\<lparr>is_total := y\<rparr>)"
  have comm: "(set_group ?g x s)\<lparr>is_total := y\<rparr> = s'" by (cases ?g) (simp_all add: s'_def)
  have run: "and_then (on_total f s) (on_group ?g f) = Inr s'"
    "and_then (on_group ?g f s) (on_total f) = Inr s'"
    using x(1) y(1) comm by (simp_all add: on_total_def on_group_set s'_def)
  have same: "same_setup s s'" by (simp add: same_setup_def s'_def)
  have tr: "tracks C s' (ios @ [io])"
    unfolding s'_def by (rule tracks_pair [OF C(1) g x(2) y(2)])
  have keep: "tracks D s' xs" if D: "keeps D f" "tracks D s xs" for D xs
  proof -
    have "D y xs" using D y(1) by (auto simp: keeps_def tracks_def)
    moreover have "D x (filter (\<lambda>i. event_group i = ?g) xs)"
      using D x(1) g by (auto simp: keeps_def tracks_def)
    ultimately show ?thesis
      using D(2) g same_setup_valid [OF same] unfolding tracks_def s'_def
      by (auto simp: get_set_group [of ?g "s\<lparr>is_total := y\<rparr>"] same_setup_valid [of s "s\<lparr>is_total := y\<rparr>"]
          same_setup_def)
  qed
  show thesis using run tr same keep by (rule that)
qed

subsection \<open>The parts of the statistics\<close>

definition io_interval :: "parsed_io \<Rightarrow> u64 set" where
  "io_interval io = {pio_lba io..<pio_lba io + ucast (pio_len io)}"

text \<open>The IO touches the range of addresses that starts at \<open>k\<close>.\<close>

definition spans :: "u64 \<Rightarrow> u64 \<Rightarrow> parsed_io \<Rightarrow> bool" where
  "spans rs k io \<longleftrightarrow>
     pio_len io \<noteq> 0 \<and> unat rs dvd unat k \<and>
     unat k < unat (pio_lba io) + unat (pio_len io) \<and> unat (pio_lba io) < unat k + unat rs"

definition hits :: "stats \<Rightarrow> u64 \<Rightarrow> u64" where
  "hits st k = (case map_find (st_lbaHitMap st) k of None \<Rightarrow> 0 | Some n \<Rightarrow> n)"

definition size_ok :: "stats \<Rightarrow> parsed_io list \<Rightarrow> bool" where
  "size_ok st ios \<longleftrightarrow> d_base (st_size st) = 2 \<and>
     represents (st_size st) (map (\<lambda>io. ucast (pio_len io)) (filter (\<lambda>io. pio_len io \<noteq> 0) ios))"

definition latency_ok :: "stats \<Rightarrow> parsed_io list \<Rightarrow> bool" where
  "latency_ok st ios \<longleftrightarrow> d_base (st_latency st) = 2 \<and>
     represents (st_latency st) (filter (\<lambda>v. v \<noteq> 0) (map pio_latency ios))"

definition qd_ok :: "stats \<Rightarrow> parsed_io list \<Rightarrow> bool" where
  "qd_ok st ios \<longleftrightarrow> d_base (st_qd st) = 2 \<and>
     represents (st_qd st) (filter (\<lambda>v. v \<noteq> 0) (map pio_qd ios))"

definition errors_ok :: "stats \<Rightarrow> parsed_io list \<Rightarrow> bool" where
  "errors_ok st ios \<longleftrightarrow> st_errors st = of_nat (length (filter pio_error ios))"

definition count_ok :: "stats \<Rightarrow> parsed_io list \<Rightarrow> bool" where
  "count_ok st ios \<longleftrightarrow> st_count st = of_nat (length ios)"

text \<open>
  The covered addresses are among those of the counted events; without discards they are
  exactly those.
\<close>

definition wc_ok :: "bool \<Rightarrow> stats \<Rightarrow> parsed_io list \<Rightarrow> bool" where
  "wc_ok nodiscard st ios \<longleftrightarrow> workset_ok (st_wc st) \<and>
     cover (wc_hitRanges (st_wc st)) \<subseteq> \<Union> (io_interval ` set ios) \<and>
     (nodiscard \<longrightarrow> cover (wc_hitRanges (st_wc st)) = \<Union> (io_interval ` set ios))"

definition hits_ok :: "bool \<Rightarrow> u64 \<Rightarrow> stats \<Rightarrow> parsed_io list \<Rightarrow> bool" where
  "hits_ok enabled rs st ios \<longleftrightarrow> map_ok (st_lbaHitMap st) \<and>
     (\<forall>k. hits st k = (if enabled then of_nat (length (filter (spans rs k) ios)) else 0))"

lemmas parts_ok = size_ok_def latency_ok_def qd_ok_def errors_ok_def count_ok_def wc_ok_def
  hits_ok_def hits_def

lemmas part_updates = count_latency_def count_qd_def count_size_def insert_workset_def
  remove_workset_def

definition small_value :: "u64 \<Rightarrow> bool" where
  "small_value v \<longleftrightarrow> unat v * 2 \<le> 2 ^ 53"

lemma dist_count_part:
  assumes "exact_integers rnd" "small_value v" "represents d vs" "d_base d = 2"
  obtains d' where "dist_count rnd v d = Inr d'" "represents d' (vs @ [v])" "d_base d' = 2"
  using dist_count_ok [OF assms(1,3), of v] assms(2,4) by (auto simp: small_value_def)

lemma advances_latency:
  "exact_integers rnd \<Longrightarrow> small_value (pio_latency io) \<Longrightarrow> pio_latency io \<noteq> 0 \<Longrightarrow>
     advances latency_ok io (count_latency rnd (pio_latency io))"
  by (auto simp: advances_def latency_ok_def count_latency_def elim: dist_count_part)

lemma advances_qd:
  "exact_integers rnd \<Longrightarrow> small_value (pio_qd io) \<Longrightarrow> pio_qd io \<noteq> 0 \<Longrightarrow>
     advances qd_ok io (count_qd rnd (pio_qd io))"
  by (auto simp: advances_def qd_ok_def count_qd_def elim: dist_count_part)

lemma small_value_len: "small_value (ucast (x :: u32))"
proof -
  have "unat x < 2 ^ 32" using unsigned_less [of x] by simp
  then show ?thesis by (simp add: small_value_def)
qed

lemma advances_size:
  "exact_integers rnd \<Longrightarrow> pio_len io \<noteq> 0 \<Longrightarrow>
     advances size_ok io (count_size rnd (ucast (pio_len io)))"
  using small_value_len [of "pio_len io"]
  by (auto simp: advances_def size_ok_def count_size_def elim: dist_count_part)

lemma advances_insert:
  "no_wrap (pio_lba io) (ucast (pio_len io)) \<Longrightarrow>
     advances (wc_ok nd) io (insert_workset (pio_lba io) (ucast (pio_len io)))"
  by (auto simp: advances_def wc_ok_def insert_workset_def wc.ok_ins wc.holds_ins io_interval_def)

lemma keeps_parts [simp]:
  "keeps size_ok (count_latency rnd v)" "keeps qd_ok (count_latency rnd v)"
  "keeps errors_ok (count_latency rnd v)" "keeps count_ok (count_latency rnd v)"
  "keeps (wc_ok nd) (count_latency rnd v)" "keeps (hits_ok en rs) (count_latency rnd v)"
  "keeps size_ok (count_qd rnd v)" "keeps latency_ok (count_qd rnd v)"
  "keeps errors_ok (count_qd rnd v)" "keeps count_ok (count_qd rnd v)"
  "keeps (wc_ok nd) (count_qd rnd v)" "keeps (hits_ok en rs) (count_qd rnd v)"
  "keeps latency_ok (count_size rnd v)" "keeps qd_ok (count_size rnd v)"
  "keeps errors_ok (count_size rnd v)" "keeps count_ok (count_size rnd v)"
  "keeps (wc_ok nd) (count_size rnd v)" "keeps (hits_ok en rs) (count_size rnd v)"
  by (auto simp: keeps_def parts_ok part_updates and_then_Inr_iff)

lemma keeps_workset [simp]:
  "keeps size_ok (insert_workset b l)" "keeps latency_ok (insert_workset b l)"
  "keeps qd_ok (insert_workset b l)" "keeps errors_ok (insert_workset b l)"
  "keeps count_ok (insert_workset b l)" "keeps (hits_ok en rs) (insert_workset b l)"
  by (auto simp: keeps_def parts_ok part_updates)

subsection \<open>Address hits\<close>

lemma hits_lba_hit: "map_ok (st_lbaHitMap st) \<Longrightarrow>
   hits (lba_hit key st) k = hits st k + (if k = key then 1 else 0)"
  by (auto simp: hits_def lba_hit_def sm.find_put snd_map_at)

lemma lba_hit_frame [simp]:
  "st_size (lba_hit k st) = st_size st" "st_latency (lba_hit k st) = st_latency st"
  "st_qd (lba_hit k st) = st_qd st" "st_errors (lba_hit k st) = st_errors st"
  "st_count (lba_hit k st) = st_count st" "st_wc (lba_hit k st) = st_wc st"
  by (simp_all add: lba_hit_def)

lemma fold_lba_hit_frame [simp]:
  "st_size (fold lba_hit ks st) = st_size st" "st_latency (fold lba_hit ks st) = st_latency st"
  "st_qd (fold lba_hit ks st) = st_qd st" "st_errors (fold lba_hit ks st) = st_errors st"
  "st_count (fold lba_hit ks st) = st_count st" "st_wc (fold lba_hit ks st) = st_wc st"
  by (induction ks arbitrary: st; simp)+

lemma fold_lba_hit:
  "map_ok (st_lbaHitMap st) \<Longrightarrow> map_ok (st_lbaHitMap (fold lba_hit ks st)) \<and>
     hits (fold lba_hit ks st) k = hits st k + of_nat (count_list ks k)"
proof (induction ks arbitrary: st)
  case (Cons key ks)
  then have "map_ok (st_lbaHitMap (lba_hit key st))" by (simp add: lba_hit_def sm.ok_put)
  from Cons.IH [OF this] Cons.prems show ?case by (simp add: hits_lba_hit)
qed simp

lemma fold_hits_both:
  assumes "valid_group g s"
  shows "fold (\<lambda>key m. and_then m (\<lambda>s.
           and_then (on_group g (\<lambda>st. Inr (lba_hit key st)) s) (\<lambda>s.
           on_total (\<lambda>st. Inr (lba_hit key st)) s))) ks (Inr s) =
     and_then (on_group g (\<lambda>st. Inr (fold lba_hit ks st)) s) (on_total (\<lambda>st. Inr (fold lba_hit ks st)))"
  using assms
proof (induction ks arbitrary: s)
  case Nil
  then show ?case by (cases g) (simp_all add: on_total_def)
next
  case (Cons key ks)
  define s1 where "s1 = (set_group g (lba_hit key (get_group g s)) s)\<lparr>is_total := lba_hit key (is_total s)\<rparr>"
  have "valid_group g s1" using Cons.prems by (cases g) (simp_all add: s1_def)
  moreover have "and_then (on_group g (\<lambda>st. Inr (lba_hit key st)) s)
      (on_total (\<lambda>st. Inr (lba_hit key st))) = Inr s1"
    by (simp add: on_group_set on_total_def s1_def)
  ultimately show ?case
    using Cons by (cases g) (simp_all add: on_total_def s1_def)
qed

lemma hit_keys_spec:
  assumes rs: "rs \<noteq> 0" and len: "len \<noteq> 0" and nw: "no_wrap lba (ucast len)"
  shows "distinct (hit_keys rs lba len)"
    and "k \<in> set (hit_keys rs lba len) \<longleftrightarrow>
      unat rs dvd unat k \<and> unat k < unat lba + unat len \<and> unat lba < unat k + unat rs"
proof -
  define r where "r = unat rs"
  define b where "b = unat lba div r"
  define e where "e = (unat lba + unat len - 1) div r"
  have r: "0 < r" using rs by (simp add: r_def unat_gt_0)
  have l: "0 < unat len" using len by (simp add: unat_gt_0)
  have total: "unat lba + unat len < 2 ^ 64" using nw by (simp add: no_wrap_def)
  have be: "b \<le> e" unfolding b_def e_def using l by (intro div_le_mono) linarith
  have er: "e * r \<le> unat lba + unat len - 1" unfolding e_def by simp
  then have small: "i * r < 2 ^ 64" if "i \<le> e" for i
    using total that mult_le_mono1 [OF that, of r] by linarith
  have wb: "unat (lba div rs * rs) = b * r"
    using small [OF be] by (simp add: u64_mult_no_wrap u64_div b_def r_def)
  have "(1 :: u64) \<le> lba + ucast len"
    using l nw by (simp add: word_le_nat_alt u64_add_no_wrap)
  then have ue: "unat (lba + ucast len - 1) = unat lba + unat len - 1"
    using nw by (simp add: u64_sub_no_wrap u64_add_no_wrap)
  have we: "unat ((lba + ucast len - 1) div rs * rs) = e * r"
    using small [OF order_refl] by (simp add: u64_mult_no_wrap u64_div ue e_def r_def)
  have "lba div rs * rs \<le> (lba + ucast len - 1) div rs * rs"
    using be by (simp add: word_le_nat_alt wb we)
  then have "unat (((lba + ucast len - 1) div rs * rs - lba div rs * rs) div rs) = e - b"
    using r by (simp add: u64_sub_no_wrap u64_div wb we r_def flip: diff_mult_distrib)
  moreover have "e \<le> e * r" using r by simp
  then have "e - b + 1 < 2 ^ 64" using er total l by linarith
  then have "no_wrap (((lba + ucast len - 1) div rs * rs - lba div rs * rs) div rs) 1"
    using calculation by (simp add: no_wrap_def)
  ultimately have span:
    "unat (((lba + ucast len - 1) div rs * rs - lba div rs * rs) div rs + 1) = Suc (e - b)"
    by (simp add: u64_add_no_wrap)
  have key: "unat (of_nat i * rs + lba div rs * rs) = (b + i) * r" if "i \<le> e - b" for i
  proof -
    have i: "(b + i) * r < 2 ^ 64" using that be by (intro small) linarith
    have "i * r < 2 ^ 64" using that by (intro small) linarith
    moreover have "i < 2 ^ 64" using that \<open>e - b + 1 < 2 ^ 64\<close> by linarith
    then have "unat (of_nat i :: u64) = i" by (simp add: unat_of_nat)
    ultimately have m: "unat (of_nat i * rs :: u64) = i * r" by (simp add: u64_mult_no_wrap r_def)
    have "no_wrap (of_nat i * rs) (lba div rs * rs)"
      unfolding no_wrap_def m wb using i by (simp add: algebra_simps)
    from u64_add_no_wrap [OF this]
    show ?thesis unfolding m wb add_mult_distrib by (simp only: add.commute)
  qed
  let ?k = "\<lambda>i. of_nat i * rs + lba div rs * rs"
  have keys: "hit_keys rs lba len = map ?k [0..<Suc (e - b)]"
    by (simp only: hit_keys_def Let_def span)
  have "inj_on ?k {0..<Suc (e - b)}"
  proof (rule inj_onI)
    fix i j assume ij: "i \<in> {0..<Suc (e - b)}" "j \<in> {0..<Suc (e - b)}" "?k i = ?k j"
    then have "(b + i) * r = (b + j) * r" using key [of i] key [of j] by auto
    then show "i = j" using r by simp
  qed
  then show "distinct (hit_keys rs lba len)" by (simp add: keys distinct_map del: upt_Suc)
  have "k \<in> set (hit_keys rs lba len) \<longleftrightarrow> (\<exists>i \<le> e - b. k = ?k i)"
    by (auto simp: keys less_Suc_eq_le simp del: upt_Suc)
  also have "\<dots> \<longleftrightarrow> (\<exists>i \<le> e - b. unat k = (b + i) * r)"
    using key by (metis word_unat_eq_iff)
  also have "\<dots> \<longleftrightarrow> (\<exists>q. b \<le> q \<and> q \<le> e \<and> unat k = q * r)"
    using be by (metis add_diff_cancel_left' add_le_cancel_left le_Suc_ex le_add1 le_add_diff_inverse)
  also have "\<dots> \<longleftrightarrow> unat rs dvd unat k \<and> unat k < unat lba + unat len \<and> unat lba < unat k + unat rs"
  proof -
    have "b \<le> q \<and> q \<le> e \<longleftrightarrow> q * r < unat lba + unat len \<and> unat lba < q * r + r" for q
    proof -
      have "q \<le> e \<longleftrightarrow> q * r \<le> unat lba + unat len - 1"
        using r by (simp add: e_def less_eq_div_iff_mult_less_eq)
      moreover have "b \<le> q \<longleftrightarrow> unat lba < Suc q * r"
        using r by (simp add: b_def div_less_iff_less_mult flip: less_Suc_eq_le)
      ultimately show ?thesis using l by (auto simp: add.commute)
    qed
    then have "(\<exists>q. b \<le> q \<and> q \<le> e \<and> unat k = q * r) \<longleftrightarrow>
        (\<exists>q. unat k = q * r) \<and> unat k < unat lba + unat len \<and> unat lba < unat k + r" by metis
    then show ?thesis unfolding r_def [symmetric] dvd_def by (simp only: mult.commute)
  qed
  finally show "k \<in> set (hit_keys rs lba len) \<longleftrightarrow>
      unat rs dvd unat k \<and> unat k < unat lba + unat len \<and> unat lba < unat k + unat rs" .
qed

lemma update_hits_ok:
  assumes "tracks (hits_ok en rs) s ios" "valid_group (event_group io) s"
    and "is_lbaHistEnabled s = en" "is_lbaHistRangeSize s = rs" "en \<longrightarrow> rs \<noteq> 0"
    and "no_wrap (pio_lba io) (ucast (pio_len io))"
  obtains s' where "update_hits (event_group io) io s = Inr s'"
    "tracks (hits_ok en rs) s' (ios @ [io])" "same_setup s s'"
    "\<And>D xs. (\<forall>ks. keeps D (\<lambda>st. Inr (fold lba_hit ks st))) \<Longrightarrow> tracks D s xs \<Longrightarrow> tracks D s' xs"
proof (cases "en \<and> pio_len io \<noteq> 0")
  case True
  let ?ks = "hit_keys rs (pio_lba io) (pio_len io)"
  let ?f = "\<lambda>st. Inr (fold lba_hit ?ks st)"
  have rs: "rs \<noteq> 0" using True assms(5) by simp
  note keys = hit_keys_spec [OF rs _ assms(6)]
  have "count_list ?ks k = (if spans rs k io then 1 else 0)" for k
    using keys(1) keys(2) [of k] True by (simp add: spans_def count_list_distinct)
  then have "advances (hits_ok en rs) io ?f"
    using True fold_lba_hit [of _ ?ks] by (simp add: advances_def hits_ok_def)
  from both_step [OF assms(1) this assms(2)] obtain s' where s':
    "and_then (on_group (event_group io) ?f s) (on_total ?f) = Inr s'"
    "tracks (hits_ok en rs) s' (ios @ [io])" "same_setup s s'"
    "\<And>D xs. keeps D ?f \<Longrightarrow> tracks D s xs \<Longrightarrow> tracks D s' xs" by metis
  have "update_hits (event_group io) io s = Inr s'"
    using True rs assms(3,4) s'(1) fold_hits_both [OF assms(2), of ?ks] by (simp add: update_hits_def)
  with s' that show thesis by blast
next
  case False
  have "tracks (hits_ok en rs) s (ios @ [io])"
    using assms(1) False by (auto simp: tracks_def hits_ok_def spans_def)
  then show thesis using False assms(3) by (intro that [of s]) (auto simp: update_hits_def)
qed

subsection \<open>Discards\<close>

definition discard_part :: "stats_group \<Rightarrow> u64 \<Rightarrow> u64 \<Rightarrow> nat \<Rightarrow> stats \<Rightarrow> stats" where
  "discard_part g b l i st =
     st\<lparr>st_wc := (if g = Type_Group i then insertRange b l (st_wc st)
                 else fst (removeRange b l (st_wc st)))\<rparr>"

lemma discard_part_step:
  "(if g = Type_Group i then insert_workset b l else remove_workset b l) st =
     Inr (discard_part g b l i st)"
  by (simp add: discard_part_def insert_workset_def remove_workset_def)

lemma discard_worksets_result:
  defines "F \<equiv> \<lambda>g b l s n. fold (\<lambda>i m. and_then m (on_group (Type_Group i)
             (if g = Type_Group i then insert_workset b l else remove_workset b l)))
       [0..<n] (Inr s)"
  assumes "n \<le> length (is_statistics s)"
  shows "\<exists>s'. F g b l s n = Inr s' \<and> same_setup s s' \<and>
     is_total s' = is_total s \<and> is_flush s' = is_flush s \<and>
     (\<forall>i < length (is_statistics s). is_statistics s' ! i =
        (if i < n then discard_part g b l i (is_statistics s ! i) else is_statistics s ! i))"
  using assms(2)
proof (induction n)
  case 0
  then show ?case by (simp add: F_def)
next
  case (Suc n)
  then obtain s1 where s1: "F g b l s n = Inr s1" "same_setup s s1"
    "is_total s1 = is_total s" "is_flush s1 = is_flush s"
    "\<And>i. i < length (is_statistics s) \<Longrightarrow> is_statistics s1 ! i =
        (if i < n then discard_part g b l i (is_statistics s ! i) else is_statistics s ! i)"
    using Suc.IH Suc_leD [OF Suc.prems] by blast
  have len: "length (is_statistics s1) = length (is_statistics s)"
    using s1(2) by (simp add: same_setup_def)
  have "F g b l s (Suc n) = and_then (F g b l s n) (on_group (Type_Group n)
      (if g = Type_Group n then insert_workset b l else remove_workset b l))"
    by (simp add: F_def)
  moreover define s2 where "s2 = s1\<lparr>is_statistics :=
      (is_statistics s1)[n := discard_part g b l n (is_statistics s1 ! n)]\<rparr>"
  ultimately have "F g b l s (Suc n) = Inr s2"
    by (simp only: s1(1) and_then_simps on_group.simps discard_part_step)
  moreover have "same_setup s s2" "is_total s2 = is_total s" "is_flush s2 = is_flush s"
    using s1(2-4) by (simp_all add: s2_def same_setup_def)
  moreover have "is_statistics s2 ! i = (if i < Suc n then discard_part g b l i (is_statistics s ! i)
      else is_statistics s ! i)" if "i < length (is_statistics s)" for i
    using s1(5) [OF that] Suc.prems len that by (auto simp: s2_def nth_list_update)
  ultimately show ?case by blast
qed

lemma io_interval_Un: "\<Union> (io_interval ` set (xs @ [io])) = \<Union> (io_interval ` set xs) \<union> io_interval io"
  by auto

text \<open>
  A discard moves the worksets of all groups: its own group takes the interval in, the others
  and the total give it up. The bound on the covered addresses survives, and nothing else moves.
\<close>

lemma discard_ok:
  assumes tr: "tracks (wc_ok False) s ios" and g: "event_group io = Type_Group i"
    "i < length (is_statistics s)"
    and io: "pio_len io \<noteq> 0" "no_wrap (pio_lba io) (ucast (pio_len io))"
  obtains s' where
    "and_then (discard_worksets (event_group io) (pio_lba io) (ucast (pio_len io)) s)
       (on_total (remove_workset (pio_lba io) (ucast (pio_len io)))) = Inr s'"
    "tracks (wc_ok False) s' (ios @ [io])" "same_setup s s'"
    "\<And>D xs. keeps D (insert_workset (pio_lba io) (ucast (pio_len io))) \<Longrightarrow>
       keeps D (remove_workset (pio_lba io) (ucast (pio_len io))) \<Longrightarrow> tracks D s xs \<Longrightarrow> tracks D s' xs"
proof -
  let ?b = "pio_lba io" and ?l = "ucast (pio_len io) :: u64"
  let ?rem = "\<lambda>st. st\<lparr>st_wc := fst (removeRange ?b ?l (st_wc st))\<rparr>"
  let ?ins = "\<lambda>st. st\<lparr>st_wc := insertRange ?b ?l (st_wc st)\<rparr>"
  have l: "?l \<noteq> 0" using io by simp
  obtain s1 where s1: "discard_worksets (event_group io) ?b ?l s = Inr s1" "same_setup s s1"
    "is_total s1 = is_total s" "is_flush s1 = is_flush s"
    "\<And>j. j < length (is_statistics s) \<Longrightarrow> is_statistics s1 ! j =
       (if j = i then ?ins (is_statistics s ! j) else ?rem (is_statistics s ! j))"
  proof -
    from discard_worksets_result [OF order_refl, where s = s and g = "event_group io" and b = ?b and l = ?l]
    obtain s1 where "discard_worksets (event_group io) ?b ?l s = Inr s1" "same_setup s s1"
      "is_total s1 = is_total s" "is_flush s1 = is_flush s"
      "\<forall>j < length (is_statistics s). is_statistics s1 ! j =
         discard_part (event_group io) ?b ?l j (is_statistics s ! j)"
      unfolding discard_worksets_def by auto
    then show thesis by (intro that [of s1]) (auto simp: g discard_part_def)
  qed
  define s' where "s' = s1\<lparr>is_total := ?rem (is_total s)\<rparr>"
  have same: "same_setup s s'" using s1(2) by (simp add: same_setup_def s'_def)
  have grp: "get_group h s' = (if h = event_group io then ?ins (get_group h s)
      else if h = Flush_Group then get_group h s else ?rem (get_group h s))" if "valid_group h s" for h
    using that s1(4,5) by (cases h) (auto simp: s'_def g)
  have tot: "is_total s' = ?rem (is_total s)" by (simp add: s'_def)
  have run: "and_then (discard_worksets (event_group io) ?b ?l s) (on_total (remove_workset ?b ?l)) = Inr s'"
    using s1(1,3) by (simp add: on_total_def remove_workset_def s'_def)
  have rem: "wc_ok False (?rem st) (xs @ ys)" if "wc_ok False st xs" for st xs ys
    using that l io(2) wc.ok_rem [of "st_wc st" ?l ?b] wc.holds_rem [of "st_wc st" ?l ?b]
    by (fastforce simp: wc_ok_def)
  have ins: "wc_ok False (?ins st) (xs @ [io])" if "wc_ok False st xs" for st xs
    using that io(2) by (auto simp: wc_ok_def wc.ok_ins wc.holds_ins io_interval_def)
  have "wc_ok False (get_group h s') (filter (\<lambda>j. event_group j = h) (ios @ [io]))"
    if "valid_group h s" for h
    using tr that rem [of "get_group h s" "filter (\<lambda>j. event_group j = h) ios" "[]"] ins
    by (auto simp: grp [OF that] tracks_def)
  then have tr': "tracks (wc_ok False) s' (ios @ [io])"
    using tr rem tot by (simp add: tracks_def same_setup_valid [OF same])
  have keep: "tracks D s' xs" if D: "keeps D (insert_workset ?b ?l)" "keeps D (remove_workset ?b ?l)"
      "tracks D s xs" for D xs
  proof -
    have "D (?ins st) ys" "D (?rem st) ys" if "D st ys" for st ys
      using that D(1,2) by (auto simp: keeps_def insert_workset_def remove_workset_def)
    moreover have "D (get_group Flush_Group s) (filter (\<lambda>j. event_group j = Flush_Group) xs)"
      using D(3) unfolding tracks_def by (metis valid_group.simps(1))
    ultimately show ?thesis using D(3) tot by (auto simp: tracks_def same_setup_valid [OF same] grp)
  qed
  show thesis using run tr' same keep by (rule that)
qed

lemma keeps_remove [simp]:
  "keeps size_ok (remove_workset b l)" "keeps latency_ok (remove_workset b l)"
  "keeps qd_ok (remove_workset b l)" "keeps errors_ok (remove_workset b l)"
  "keeps count_ok (remove_workset b l)" "keeps (hits_ok en rs) (remove_workset b l)"
  by (auto simp: keeps_def parts_ok part_updates)

lemma keeps_hits [simp]:
  "keeps size_ok (\<lambda>st. Inr (fold lba_hit ks st))" "keeps latency_ok (\<lambda>st. Inr (fold lba_hit ks st))"
  "keeps qd_ok (\<lambda>st. Inr (fold lba_hit ks st))" "keeps errors_ok (\<lambda>st. Inr (fold lba_hit ks st))"
  "keeps count_ok (\<lambda>st. Inr (fold lba_hit ks st))" "keeps (wc_ok nd) (\<lambda>st. Inr (fold lba_hit ks st))"
  by (auto simp: keeps_def parts_ok)

abbreviation add_error :: "stats \<Rightarrow> stats res" where
  "add_error \<equiv> \<lambda>st. Inr (st\<lparr>st_errors := st_errors st + 1\<rparr>)"

abbreviation add_count :: "stats \<Rightarrow> stats res" where
  "add_count \<equiv> \<lambda>st. Inr (st\<lparr>st_count := st_count st + 1\<rparr>)"

lemma keeps_counters [simp]:
  "keeps size_ok add_error" "keeps latency_ok add_error" "keeps qd_ok add_error"
  "keeps count_ok add_error" "keeps (wc_ok nd) add_error" "keeps (hits_ok en rs) add_error"
  "keeps size_ok add_count" "keeps latency_ok add_count" "keeps qd_ok add_count"
  "keeps errors_ok add_count" "keeps (wc_ok nd) add_count" "keeps (hits_ok en rs) add_count"
  by (auto simp: keeps_def parts_ok)

lemma advances_counters:
  "pio_error io \<Longrightarrow> advances errors_ok io add_error" "advances count_ok io add_count"
  by (auto simp: advances_def errors_ok_def count_ok_def)

text \<open>
  \<open>counted nd en rs s hs ls qs es ss ws cs\<close>: the state \<open>s\<close> in the middle of \<open>count\<close>, each part with
  the events it has counted so far.
\<close>

definition counted where
  "counted nd en rs s hs ls qs es ss ws cs \<longleftrightarrow>
     length (is_statistics s) = IoType_ARRAYSIZE \<and> is_lbaHistEnabled s = en \<and>
     is_lbaHistRangeSize s = rs \<and>
     tracks (hits_ok en rs) s hs \<and> tracks latency_ok s ls \<and> tracks qd_ok s qs \<and>
     tracks errors_ok s es \<and> tracks size_ok s ss \<and> tracks (wc_ok nd) s ws \<and> tracks count_ok s cs"

definition same_time :: "io_statistics \<Rightarrow> io_statistics \<Rightarrow> bool" where
  "same_time s s' \<longleftrightarrow> is_startTime s' = is_startTime s \<and> is_endTime s' = is_endTime s"

lemma same_time_refl [simp]: "same_time s s"
  by (simp add: same_time_def)

lemma same_time_trans: "same_time a b \<Longrightarrow> same_time b c \<Longrightarrow> same_time a c"
  by (simp add: same_time_def)

lemma counted_valid:
  "counted nd en rs s hs ls qs es ss ws cs \<Longrightarrow> 0 \<le> pio_operation io \<Longrightarrow>
     pio_operation io < int IoType_ARRAYSIZE \<Longrightarrow> valid_group (event_group io) s"
  by (simp add: counted_def event_group_def) linarith

lemma hits_step:
  assumes "counted nd en rs s ios ls qs es ss ws cs" "valid_group (event_group io) s"
    and "en \<longrightarrow> rs \<noteq> 0" "no_wrap (pio_lba io) (ucast (pio_len io))"
  shows "\<exists>s'. update_hits (event_group io) io s = Inr s' \<and> same_time s s' \<and>
     counted nd en rs s' (ios @ [io]) ls qs es ss ws cs"
proof -
  have tr: "tracks (hits_ok en rs) s ios" "is_lbaHistEnabled s = en" "is_lbaHistRangeSize s = rs"
    using assms(1) by (simp_all add: counted_def)
  obtain s' where
    "update_hits (event_group io) io s = Inr s'" "tracks (hits_ok en rs) s' (ios @ [io])"
    "same_setup s s'"
    "\<And>D xs. (\<forall>ks. keeps D (\<lambda>st. Inr (fold lba_hit ks st))) \<Longrightarrow> tracks D s xs \<Longrightarrow> tracks D s' xs"
    by (rule update_hits_ok [OF tr(1) assms(2) tr(2,3) assms(3,4)]) (rule that)
  with assms(1) show ?thesis by (auto simp: counted_def same_setup_def same_time_def)
qed

lemma latency_step:
  assumes "counted nd en rs s hs ios qs es ss ws cs" "valid_group (event_group io) s"
    and "exact_integers rnd" "small_value (pio_latency io)"
  shows "\<exists>s'. update_latency rnd (event_group io) io s = Inr s' \<and> same_time s s' \<and>
     counted nd en rs s' hs (ios @ [io]) qs es ss ws cs"
proof (cases "pio_latency io = 0")
  case True
  then show ?thesis using assms(1) by (simp add: update_latency_def counted_def tracks_def latency_ok_def)
next
  case False
  have tr: "tracks latency_ok s ios" using assms(1) by (simp add: counted_def)
  obtain s' where
    "and_then (on_total (count_latency rnd (pio_latency io)) s)
       (on_group (event_group io) (count_latency rnd (pio_latency io))) = Inr s'"
    "and_then (on_group (event_group io) (count_latency rnd (pio_latency io)) s)
       (on_total (count_latency rnd (pio_latency io))) = Inr s'"
    "tracks latency_ok s' (ios @ [io])" "same_setup s s'"
    "\<And>D xs. keeps D (count_latency rnd (pio_latency io)) \<Longrightarrow> tracks D s xs \<Longrightarrow> tracks D s' xs"
    by (rule both_step [OF tr advances_latency [OF assms(3,4) False] assms(2)]) (rule that)
  with assms(1) False show ?thesis
    by (auto simp: update_latency_def counted_def same_setup_def same_time_def)
qed

lemma qd_step:
  assumes "counted nd en rs s hs ls ios es ss ws cs" "valid_group (event_group io) s"
    and "exact_integers rnd" "small_value (pio_qd io)"
  shows "\<exists>s'. update_qd rnd (event_group io) io s = Inr s' \<and> same_time s s' \<and>
     counted nd en rs s' hs ls (ios @ [io]) es ss ws cs"
proof (cases "pio_qd io = 0")
  case True
  then show ?thesis using assms(1) by (simp add: update_qd_def counted_def tracks_def qd_ok_def)
next
  case False
  have tr: "tracks qd_ok s ios" using assms(1) by (simp add: counted_def)
  obtain s' where
    "and_then (on_total (count_qd rnd (pio_qd io)) s)
       (on_group (event_group io) (count_qd rnd (pio_qd io))) = Inr s'"
    "and_then (on_group (event_group io) (count_qd rnd (pio_qd io)) s)
       (on_total (count_qd rnd (pio_qd io))) = Inr s'"
    "tracks qd_ok s' (ios @ [io])" "same_setup s s'"
    "\<And>D xs. keeps D (count_qd rnd (pio_qd io)) \<Longrightarrow> tracks D s xs \<Longrightarrow> tracks D s' xs"
    by (rule both_step [OF tr advances_qd [OF assms(3,4) False] assms(2)]) (rule that)
  with assms(1) False show ?thesis
    by (auto simp: update_qd_def counted_def same_setup_def same_time_def)
qed

lemma errors_step:
  assumes "counted nd en rs s hs ls qs ios ss ws cs" "valid_group (event_group io) s"
  shows "\<exists>s'. update_errors (event_group io) io s = Inr s' \<and> same_time s s' \<and>
     counted nd en rs s' hs ls qs (ios @ [io]) ss ws cs"
proof (cases "pio_error io")
  case False
  then show ?thesis using assms(1) by (simp add: update_errors_def counted_def tracks_def errors_ok_def)
next
  case True
  have tr: "tracks errors_ok s ios" using assms(1) by (simp add: counted_def)
  obtain s' where
    "and_then (on_total add_error s) (on_group (event_group io) add_error) = Inr s'"
    "and_then (on_group (event_group io) add_error s) (on_total add_error) = Inr s'"
    "tracks errors_ok s' (ios @ [io])" "same_setup s s'"
    "\<And>D xs. keeps D add_error \<Longrightarrow> tracks D s xs \<Longrightarrow> tracks D s' xs"
    by (rule both_step [OF tr advances_counters(1) [OF True] assms(2)]) (rule that)
  with assms(1) True show ?thesis
    by (auto simp: update_errors_def counted_def same_setup_def same_time_def)
qed

lemma count_step:
  assumes "counted nd en rs s hs ls qs es ss ws ios" "valid_group (event_group io) s"
  shows "\<exists>s'. update_count (event_group io) s = Inr s' \<and> same_time s s' \<and>
     counted nd en rs s' hs ls qs es ss ws (ios @ [io])"
proof -
  have tr: "tracks count_ok s ios" using assms(1) by (simp add: counted_def)
  obtain s' where
    "and_then (on_total add_count s) (on_group (event_group io) add_count) = Inr s'"
    "and_then (on_group (event_group io) add_count s) (on_total add_count) = Inr s'"
    "tracks count_ok s' (ios @ [io])" "same_setup s s'"
    "\<And>D xs. keeps D add_count \<Longrightarrow> tracks D s xs \<Longrightarrow> tracks D s' xs"
    by (rule both_step [OF tr advances_counters(2) assms(2)]) (rule that)
  with assms(1) show ?thesis
    by (auto simp: update_count_def counted_def same_setup_def same_time_def)
qed

lemma size_step:
  assumes s: "counted nd en rs s hs ls qs es ios ios cs" and g: "valid_group (event_group io) s"
    and "exact_integers rnd" "no_wrap (pio_lba io) (ucast (pio_len io))"
    and nd: "nd \<longrightarrow> pio_operation io \<noteq> Io_Discard"
  shows "\<exists>s'. update_size rnd (event_group io) io s = Inr s' \<and> same_time s s' \<and>
     counted nd en rs s' hs ls qs es (ios @ [io]) (ios @ [io]) cs"
proof (cases "pio_len io = 0")
  case True
  have "io_interval io = {}" using True by (simp add: io_interval_def)
  then have "tracks (wc_ok nd) s (ios @ [io])" "tracks size_ok s (ios @ [io])"
    using s True by (auto simp: counted_def tracks_def wc_ok_def size_ok_def)
  then show ?thesis using s True by (simp add: update_size_def counted_def)
next
  case False
  let ?b = "pio_lba io" and ?l = "ucast (pio_len io) :: u64" and ?g = "event_group io"
  have "tracks size_ok s ios" using s by (simp add: counted_def)
  then obtain s1 where s1:
    "and_then (on_total (count_size rnd ?l) s) (on_group ?g (count_size rnd ?l)) = Inr s1"
    "and_then (on_group ?g (count_size rnd ?l) s) (on_total (count_size rnd ?l)) = Inr s1"
    "tracks size_ok s1 (ios @ [io])" "same_setup s s1"
    "\<And>D xs. keeps D (count_size rnd ?l) \<Longrightarrow> tracks D s xs \<Longrightarrow> tracks D s1 xs"
    by (rule both_step [OF _ advances_size [OF assms(3) False] g]) (rule that)
  have c1: "counted nd en rs s1 hs ls qs es (ios @ [io]) ios cs"
    using s s1(3-5) by (simp add: counted_def same_setup_def)
  have g1: "valid_group ?g s1" using g same_setup_valid [OF s1(4)] by simp
  have wc: "tracks (wc_ok nd) s1 ios" using c1 by (simp add: counted_def)
  have split: "update_size rnd ?g io s = (if pio_operation io = Io_Discard
      then and_then (discard_worksets ?g ?b ?l s1) (on_total (remove_workset ?b ?l))
      else and_then (on_group ?g (insert_workset ?b ?l) s1) (on_total (insert_workset ?b ?l)))"
    using s1(1) False by (auto simp: update_size_def Let_def and_then_Inr_iff)
  obtain s2 where s2: "update_size rnd ?g io s = Inr s2" "tracks (wc_ok nd) s2 (ios @ [io])"
    "same_setup s1 s2"
    "\<And>D xs. keeps D (insert_workset ?b ?l) \<Longrightarrow> keeps D (remove_workset ?b ?l) \<Longrightarrow>
       tracks D s1 xs \<Longrightarrow> tracks D s2 xs"
  proof (cases "pio_operation io = Io_Discard")
    case True
    then have nd': "nd = False" using nd by simp
    obtain i where i: "?g = Type_Group i" "i < length (is_statistics s1)"
      using g1 False by (auto simp: event_group_def)
    show thesis
    proof (rule discard_ok [OF wc [unfolded nd'] i False assms(4)])
      fix s2 assume s2: "and_then (discard_worksets ?g ?b ?l s1) (on_total (remove_workset ?b ?l)) = Inr s2"
        "tracks (wc_ok False) s2 (ios @ [io])" "same_setup s1 s2"
        "\<And>D xs. keeps D (insert_workset ?b ?l) \<Longrightarrow> keeps D (remove_workset ?b ?l) \<Longrightarrow>
           tracks D s1 xs \<Longrightarrow> tracks D s2 xs"
      show thesis by (rule that [OF _ s2(2) [folded nd'] s2(3,4)]) (simp_all add: split True s2(1))
    qed
  next
    case False
    show thesis
    proof (rule both_step [OF wc advances_insert [OF assms(4)] g1])
      fix s2 assume s2: "and_then (on_group ?g (insert_workset ?b ?l) s1) (on_total (insert_workset ?b ?l)) = Inr s2"
        "tracks (wc_ok nd) s2 (ios @ [io])" "same_setup s1 s2"
        "\<And>D xs. keeps D (insert_workset ?b ?l) \<Longrightarrow> tracks D s1 xs \<Longrightarrow> tracks D s2 xs"
      show thesis by (rule that [OF _ s2(2,3)]) (simp_all add: split False s2(1,4))
    qed
  qed
  have "counted nd en rs s2 hs ls qs es (ios @ [io]) (ios @ [io]) cs"
    using c1 s2(2-4) by (simp add: counted_def same_setup_def)
  moreover have "same_time s s2" using s1(4) s2(3) by (simp add: same_setup_def same_time_def)
  ultimately show ?thesis using s2(1) by blast
qed

subsection \<open>Counting an event: the whole step\<close>

text \<open>The state after a history of events, and what an event must satisfy to be counted.\<close>

definition describes :: "bool \<Rightarrow> bool \<Rightarrow> u64 \<Rightarrow> io_statistics \<Rightarrow> parsed_event list \<Rightarrow> bool" where
  "describes nodiscard enabled rs s es \<longleftrightarrow>
     (let ios = map the_io es; ts = map (\<lambda>e. eh_timestamp (pe_header e)) es
      in counted nodiscard enabled rs s ios ios ios ios ios ios ios \<and>
         is_endTime s = (if ts = [] then 0 else last ts) \<and>
         is_startTime s = (case filter (\<lambda>t. t \<noteq> 0) ts of [] \<Rightarrow> 0 | t # _ \<Rightarrow> t))"

definition countable_event :: "bool \<Rightarrow> parsed_event \<Rightarrow> bool" where
  "countable_event nodiscard e \<longleftrightarrow>
     (let io = the_io e
      in 0 \<le> pio_operation io \<and> pio_operation io < int IoType_ARRAYSIZE \<and>
         small_value (pio_latency io) \<and> small_value (pio_qd io) \<and>
         no_wrap (pio_lba io) (ucast (pio_len io)) \<and>
         (nodiscard \<longrightarrow> pio_operation io \<noteq> Io_Discard))"

lemma valid_group_frame [simp]:
  "valid_group g (s\<lparr>is_startTime := t\<rparr>) = valid_group g s"
  "valid_group g (s\<lparr>is_endTime := t\<rparr>) = valid_group g s"
  by (cases g; simp)+

lemma counted_update_time:
  "counted nd en rs (update_time t s) hs ls qs es ss ws cs = counted nd en rs s hs ls qs es ss ws cs"
  by (simp add: counted_def update_time_def tracks_def)

lemma select_group_countable:
  assumes "countable_event nd e" "length (is_statistics s) = IoType_ARRAYSIZE"
  shows "select_group (the_io e) s = Inr (event_group (the_io e))"
  using assms by (simp add: countable_event_def Let_def select_group_def event_group_def)

lemma start_time_snoc:
  "(case filter (\<lambda>t. t \<noteq> 0) (ts @ [t]) of [] \<Rightarrow> 0 | u # _ \<Rightarrow> u) =
     (if (case filter (\<lambda>t. t \<noteq> 0) ts of [] \<Rightarrow> 0 | u # _ \<Rightarrow> u) = (0 :: u64) then t
      else (case filter (\<lambda>t. t \<noteq> 0) ts of [] \<Rightarrow> 0 | u # _ \<Rightarrow> u))"
proof (cases "filter (\<lambda>t. t \<noteq> 0) ts")
  case (Cons u us)
  then have "u \<in> set (filter (\<lambda>t. t \<noteq> 0) ts)" by simp
  then have "u \<noteq> 0" by simp
  with Cons show ?thesis by simp
qed simp

lemma io_count_step:
  assumes "describes nd en rs s es" "countable_event nd e" "exact_integers rnd" "en \<longrightarrow> rs \<noteq> 0"
  shows "\<exists>s'. io_count rnd e s = Inr s' \<and> describes nd en rs s' (es @ [e])"
proof -
  let ?io = "the_io e" and ?ios = "map the_io es"
  have c: "counted nd en rs s ?ios ?ios ?ios ?ios ?ios ?ios ?ios"
    using assms(1) by (simp add: describes_def Let_def)
  have e: "0 \<le> pio_operation ?io" "pio_operation ?io < int IoType_ARRAYSIZE"
    "small_value (pio_latency ?io)" "small_value (pio_qd ?io)"
    "no_wrap (pio_lba ?io) (ucast (pio_len ?io))" "nd \<longrightarrow> pio_operation ?io \<noteq> Io_Discard"
    using assms(2) by (simp_all add: countable_event_def Let_def)
  note valid = counted_valid [OF _ e(1,2)]
  obtain s1 where s1: "update_hits (event_group ?io) ?io s = Inr s1" "same_time s s1"
    "counted nd en rs s1 (?ios @ [?io]) ?ios ?ios ?ios ?ios ?ios ?ios"
    using hits_step [OF c valid [OF c] assms(4) e(5)] by auto
  obtain s2 where s2: "update_latency rnd (event_group ?io) ?io s1 = Inr s2" "same_time s1 s2"
    "counted nd en rs s2 (?ios @ [?io]) (?ios @ [?io]) ?ios ?ios ?ios ?ios ?ios"
    using latency_step [OF s1(3) valid [OF s1(3)] assms(3) e(3)] by auto
  obtain s3 where s3: "update_qd rnd (event_group ?io) ?io s2 = Inr s3" "same_time s2 s3"
    "counted nd en rs s3 (?ios @ [?io]) (?ios @ [?io]) (?ios @ [?io]) ?ios ?ios ?ios ?ios"
    using qd_step [OF s2(3) valid [OF s2(3)] assms(3) e(4)] by auto
  obtain s4 where s4: "update_errors (event_group ?io) ?io s3 = Inr s4" "same_time s3 s4"
    "counted nd en rs s4 (?ios @ [?io]) (?ios @ [?io]) (?ios @ [?io]) (?ios @ [?io]) ?ios ?ios ?ios"
    using errors_step [OF s3(3) valid [OF s3(3)]] by auto
  obtain s5 where s5: "update_size rnd (event_group ?io) ?io s4 = Inr s5" "same_time s4 s5"
    "counted nd en rs s5 (?ios @ [?io]) (?ios @ [?io]) (?ios @ [?io]) (?ios @ [?io])
       (?ios @ [?io]) (?ios @ [?io]) ?ios"
    using size_step [OF s4(3) valid [OF s4(3)] assms(3) e(5,6)] by auto
  obtain s6 where s6: "update_count (event_group ?io) s5 = Inr s6" "same_time s5 s6"
    "counted nd en rs s6 (?ios @ [?io]) (?ios @ [?io]) (?ios @ [?io]) (?ios @ [?io])
       (?ios @ [?io]) (?ios @ [?io]) (?ios @ [?io])"
    using count_step [OF s5(3) valid [OF s5(3)]] by auto
  define s' where "s' = update_time (eh_timestamp (pe_header e)) s6"
  have "length (is_statistics s) = IoType_ARRAYSIZE" using c by (simp add: counted_def)
  from select_group_countable [OF assms(2) this]
  have "io_count rnd e s = Inr s'"
    by (simp add: io_count_def Let_def s1(1) s2(1) s3(1) s4(1) s5(1) s6(1) s'_def)
  moreover have "same_time s s6"
    using s1(2) s2(2) s3(2) s4(2) s5(2) s6(2) by (simp add: same_time_def)
  then have "describes nd en rs s' (es @ [e])"
    using s6(3) assms(1) start_time_snoc [of "map (\<lambda>e. eh_timestamp (pe_header e)) es"]
    unfolding describes_def Let_def s'_def counted_update_time
    by (simp add: update_time_def same_time_def)
  ultimately show ?thesis by blast
qed

fun io_count_all :: "(rat \<Rightarrow> rat) \<Rightarrow> parsed_event list \<Rightarrow> io_statistics \<Rightarrow> io_statistics res" where
  "io_count_all rnd [] s = Inr s"
| "io_count_all rnd (e # es) s = and_then (io_count rnd e s) (io_count_all rnd es)"

lemma io_count_all_describes:
  assumes "exact_integers rnd" "en \<longrightarrow> rs \<noteq> 0"
  shows "describes nd en rs s es \<Longrightarrow> list_all (countable_event nd) es' \<Longrightarrow>
     \<exists>s'. io_count_all rnd es' s = Inr s' \<and> describes nd en rs s' (es @ es')"
proof (induction es' arbitrary: s es)
  case (Cons e es')
  then obtain s1 where "io_count rnd e s = Inr s1" "describes nd en rs s1 (es @ [e])"
    using io_count_step [OF Cons.prems(1) _ assms, of e] Cons.prems(2) by auto
  with Cons.IH [OF this(2)] Cons.prems(2) show ?case by auto
qed simp

text \<open>A fresh object, with the address histogram switched on or not.\<close>

definition fresh_statistics :: "bool \<Rightarrow> u64 \<Rightarrow> io_statistics res" where
  "fresh_statistics en rs =
     and_then (io_statistics_new rs) (\<lambda>s. Inr (if en then enableLbaHistogram s else s))"

lemma fresh_describes: "\<exists>s. fresh_statistics en rs = Inr s \<and> describes nd en rs s []"
proof -
  obtain a b c where d: "distribution_new ''sector'' 256 2 = Inr a"
    "distribution_new ''ns'' 1 2 = Inr b" "distribution_new ''request'' 128 2 = Inr c"
    by (simp add: distribution_new_def)
  have rep: "represents a []" "represents b []" "represents c []"
    "d_base a = 2" "d_base b = 2" "d_base c = 2"
    using represents_new [OF _ _ _ d(1)] represents_new [OF _ _ _ d(2)] represents_new [OF _ _ _ d(3)]
    by simp_all
  obtain st where st: "stats_new rs = Inr st" "size_ok st []" "latency_ok st []" "qd_ok st []"
    "errors_ok st []" "count_ok st []" "wc_ok nd st []" "hits_ok en rs st []"
    using d rep by (simp add: stats_new_def parts_ok)
      (simp add: workset_new_def)
  obtain s where s: "fresh_statistics en rs = Inr s" "is_statistics s = replicate IoType_ARRAYSIZE st"
    "is_total s = st" "is_flush s = st" "is_lbaHistRangeSize s = rs" "is_startTime s = 0"
    "is_endTime s = 0" "is_lbaHistEnabled s = en"
  proof -
    let ?s = "\<lparr>is_statistics = replicate IoType_ARRAYSIZE st, is_total = st, is_flush = st,
        is_lbaHistRangeSize = rs, is_startTime = 0, is_endTime = 0, is_lbaHistEnabled = en\<rparr>"
    have "fresh_statistics en rs = Inr ?s"
      by (simp add: fresh_statistics_def io_statistics_new_def st(1) enableLbaHistogram_def)
    then show thesis by (rule that) simp_all
  qed
  have "get_group g s = st" if "valid_group g s" for g using that s by (cases g) auto
  then have "tracks C s []" if "C st []" for C using that s by (simp add: tracks_def)
  then show ?thesis using s st by (auto simp: describes_def Let_def counted_def)
qed

subsection \<open>Totals\<close>

lemma sum_by_group:
  assumes "\<forall>io \<in> set ios. 0 \<le> pio_operation io \<and> pio_operation io < int n"
  shows "(\<Sum>io\<leftarrow>ios. h io) =
    (\<Sum>i\<leftarrow>[0..<n]. \<Sum>io\<leftarrow>filter (\<lambda>io. event_group io = Type_Group i) ios. h io) +
    (\<Sum>io\<leftarrow>filter (\<lambda>io. event_group io = Flush_Group) ios. (h io :: u64))"
  using assms
proof (induction ios)
  case (Cons io ios)
  let ?A = "\<lambda>ios i. \<Sum>io\<leftarrow>filter (\<lambda>io. event_group io = Type_Group i) ios. h io"
  have one: "(\<Sum>i\<leftarrow>[0..<n]. if i = j then h io else 0) = h io" if "j < n" for j
    using that by (simp add: interv_sum_list_conv_sum_set_nat)
  show ?case
  proof (cases "event_group io")
    case Flush_Group
    with Cons show ?thesis by simp
  next
    case (Type_Group j)
    then have j: "j < n" using Cons.prems by (auto simp: event_group_def split: if_splits) 
    have "(\<Sum>i\<leftarrow>[0..<n]. ?A (io # ios) i) = (\<Sum>i\<leftarrow>[0..<n]. (if i = j then h io else 0) + ?A ios i)"
      by (intro arg_cong [where f = sum_list] map_cong refl) (auto simp: Type_Group)
    also have "\<dots> = h io + (\<Sum>i\<leftarrow>[0..<n]. ?A ios i)"
      by (simp add: sum_list_addf one [OF j])
    finally show ?thesis using Cons Type_Group by simp
  qed
qed simp

lemma sum_filter_nonzero: "sum_list (map f (filter (\<lambda>x. f x \<noteq> 0) xs)) = (sum_list (map f xs) :: u64)"
  by (induction xs) auto

lemma sum_counts: "(of_nat (length (filter P xs)) :: u64) = (\<Sum>x\<leftarrow>xs. if P x then 1 else 0)"
  by (induction xs) auto

lemma tracks_sum:
  fixes h :: "parsed_io \<Rightarrow> u64"
  assumes "tracks C s ios" "length (is_statistics s) = n"
    and "\<forall>io \<in> set ios. 0 \<le> pio_operation io \<and> pio_operation io < int n"
    and "\<And>st xs. C st xs \<Longrightarrow> f st = (\<Sum>io\<leftarrow>xs. h io)"
  shows "f (is_total s) = sum_list (map f (is_statistics s)) + f (is_flush s)"
proof -
  have "f (is_statistics s ! i) = (\<Sum>io\<leftarrow>filter (\<lambda>io. event_group io = Type_Group i) ios. h io)"
    if "i < n" for i
    using assms(1,2) assms(4) that unfolding tracks_def
    by (metis get_group.simps(2) valid_group.simps(2))
  then have "sum_list (map f (is_statistics s)) =
      (\<Sum>i\<leftarrow>[0..<n]. \<Sum>io\<leftarrow>filter (\<lambda>io. event_group io = Type_Group i) ios. h io)"
    using assms(2) by (intro arg_cong [where f = sum_list] nth_equalityI) auto
  moreover have "f (is_flush s) = (\<Sum>io\<leftarrow>filter (\<lambda>io. event_group io = Flush_Group) ios. h io)"
    using assms(1,4) unfolding tracks_def by (metis get_group.simps(1) valid_group.simps(1))
  moreover have "f (is_total s) = (\<Sum>io\<leftarrow>ios. h io)" using assms(1,4) by (simp add: tracks_def)
  ultimately show ?thesis using sum_by_group [OF assms(3), of h] by simp
qed

subsection \<open>Properties\<close>

text \<open>
  Property C5. Counting any history of valid events on a fresh object never fails, and leaves
  each operation type, the flush group and the total describing exactly their events: the size,
  latency and queue depth distributions, the counters of events and errors, the hits of every
  address range, and the covered addresses, which never exceed those of the events and, when
  the history has no discard, are all of them. The times are those of the first event with a
  time stamp and of the last event.
\<close>

theorem io_count_describes_history:
  assumes "exact_integers rnd" "en \<longrightarrow> rs \<noteq> 0" "list_all (countable_event nd) es"
  shows "\<exists>s. and_then (fresh_statistics en rs) (io_count_all rnd es) = Inr s \<and>
    describes nd en rs s es"
proof -
  obtain s0 where "fresh_statistics en rs = Inr s0" "describes nd en rs s0 []"
    using fresh_describes by blast
  with io_count_all_describes [OF assms(1,2) this(2) assms(3)] show ?thesis by auto
qed

definition sample_event :: parsed_event where
  "sample_event = parsed_event_default
     \<lparr>pe_io := Some (parsed_io_default\<lparr>pio_operation := Io_Write, pio_lba := 100, pio_len := 8,
        pio_latency := 30, pio_qd := 1\<rparr>),
      pe_header := \<lparr>eh_sid = 1, eh_timestamp = 7\<rparr>\<rparr>"

lemma sample_event_countable: "countable_event True sample_event"
  by (simp add: sample_event_def countable_event_def Let_def io_types parsed_event_default_def
      parsed_io_default_def small_value_def no_wrap_def the_io_def)

theorem io_count_describes_history_witness:
  "\<exists>s. and_then (fresh_statistics True 20480) (io_count_all (\<lambda>x. x) [sample_event, sample_event]) = Inr s \<and>
     describes True True 20480 s [sample_event, sample_event]"
  by (rule io_count_describes_history)
    (simp_all add: exact_integers_def sample_event_countable)

text \<open>
  The total group always agrees with the others: its number of events, of errors and
  its number of sectors are the sums over the operation types and the flush group.
\<close>

theorem io_totals_balance:
  assumes "exact_integers rnd" "en \<longrightarrow> rs \<noteq> 0" "list_all (countable_event nd) es"
    and "and_then (fresh_statistics en rs) (io_count_all rnd es) = Inr s"
  shows "st_count (is_total s) = sum_list (map st_count (is_statistics s)) + st_count (is_flush s) \<and>
    st_errors (is_total s) = sum_list (map st_errors (is_statistics s)) + st_errors (is_flush s) \<and>
    d_total (st_size (is_total s)) =
      sum_list (map (\<lambda>st. d_total (st_size st)) (is_statistics s)) + d_total (st_size (is_flush s))"
proof -
  let ?ios = "map the_io es"
  obtain s0 where "fresh_statistics en rs = Inr s0" "describes nd en rs s0 []"
    using fresh_describes by blast
  with io_count_all_describes [OF assms(1,2) this(2) assms(3)] assms(4)
  have "describes nd en rs s es" by auto
  then have tr: "tracks count_ok s ?ios" "tracks errors_ok s ?ios" "tracks size_ok s ?ios"
    and len: "length (is_statistics s) = IoType_ARRAYSIZE"
    by (simp_all add: describes_def Let_def counted_def)
  have ops: "\<forall>io \<in> set ?ios. 0 \<le> pio_operation io \<and> pio_operation io < int IoType_ARRAYSIZE"
    using assms(3) by (auto simp: list_all_iff countable_event_def Let_def)
  have size: "size_ok st xs \<Longrightarrow> d_total (st_size st) = (\<Sum>io\<leftarrow>xs. ucast (pio_len io))" for st xs
    using sum_filter_nonzero [of "\<lambda>io. ucast (pio_len io)" xs]
    by (simp add: size_ok_def represents_def)
  show ?thesis
    using tracks_sum [OF tr(1) len ops, of st_count "\<lambda>_. 1"]
      tracks_sum [OF tr(2) len ops, of st_errors "\<lambda>io. if pio_error io then 1 else 0"]
      tracks_sum [OF tr(3) len ops, of "\<lambda>st. d_total (st_size st)" "\<lambda>io. ucast (pio_len io)"] size
    by (simp add: count_ok_def errors_ok_def sum_counts sum_list_triv)
qed

theorem io_totals_balance_witness:
  "\<exists>s. and_then (fresh_statistics False 0) (io_count_all (\<lambda>x. x) [sample_event]) = Inr s \<and>
     st_count (is_total s) = sum_list (map st_count (is_statistics s)) + st_count (is_flush s)"
proof -
  have "list_all (countable_event True) [sample_event]" by (simp add: sample_event_countable)
  moreover obtain s0 where "fresh_statistics False 0 = Inr s0" "describes True False 0 s0 []"
    using fresh_describes by blast
  moreover from this obtain s where "io_count (\<lambda>x. x) sample_event s0 = Inr s"
    using io_count_step [of True False 0 s0 "[]" sample_event "\<lambda>x. x"] sample_event_countable
    by (auto simp: exact_integers_def)
  ultimately show ?thesis
    using io_totals_balance [of "\<lambda>x. x" False 0 True "[sample_event]" s]
    by (auto simp: exact_integers_def)
qed

text \<open>
  The check of the operation type refuses a type above the size of the vector with an
  exception, but lets the type equal to the size through, and a negative one: the access after
  it is then outside the vector.
\<close>

theorem io_count_type_check:
  assumes "length (is_statistics s) = IoType_ARRAYSIZE"
  shows "(if pio_operation (the_io e) > 4
          then io_count rnd e s = Inl (Octf_Exception ''Invalid IO type'')
          else if pio_operation (the_io e) = 4 \<or> pio_operation (the_io e) < 0
          then io_count rnd e s = Inl (Undefined_Behaviour ''m_statistics[type] out of range'')
          else select_group (the_io e) s = Inr (event_group (the_io e)))"
  using assms by (simp add: io_count_def Let_def select_group_def event_group_def IoType_ARRAYSIZE_def)

theorem io_count_type_check_witness:
  "\<exists>s. fresh_statistics False 0 = Inr s \<and>
     io_count (\<lambda>x. x) (parsed_event_default\<lparr>pe_io := Some (parsed_io_default\<lparr>pio_operation := 4\<rparr>)\<rparr>) s =
       Inl (Undefined_Behaviour ''m_statistics[type] out of range'')"
proof -
  obtain s where s: "fresh_statistics False 0 = Inr s" "describes True False 0 s []"
    using fresh_describes by blast
  then have "length (is_statistics s) = IoType_ARRAYSIZE" by (simp add: describes_def Let_def counted_def)
  from io_count_type_check [OF this,
      of "parsed_event_default\<lparr>pe_io := Some (parsed_io_default\<lparr>pio_operation := 4\<rparr>)\<rparr>" "\<lambda>x. x"] s
  show ?thesis by (simp add: the_io_def)
qed

end
