(* ===== verification/Io_Statistics_Set.thy ===== *)
theory Io_Statistics_Set
  imports Std_Map Io_Statistics
begin

section \<open>IO statistics of several devices\<close>

text \<open>
  \<open>IoStatisticsSet\<close> (source/octf/analytics/statistics/IoStatisticsSet.cpp): a map from devices to
  their IO statistics. The keys of the map carry a description of the device but compare by the
  identifier alone, so the map is one from identifiers to the stored key and the statistics;
  replacing a key in place is replacing the entry.
\<close>

record set_key =
  sk_Id :: u64
  sk_Size :: u64
  sk_Name :: string
  sk_Model :: string

definition set_key_of_id :: "u64 \<Rightarrow> set_key" where
  "set_key_of_id i = \<lparr>sk_Id = i, sk_Size = 0, sk_Name = '''', sk_Model = ''''\<rparr>"

record io_statistics_set =
  iss_map :: "(u64, set_key \<times> io_statistics) std_map"
  iss_lbaHitRangeSize :: u64
  iss_lbaHistEnabled :: bool

definition io_statistics_set_new :: "u64 \<Rightarrow> io_statistics_set" where
  "io_statistics_set_new rs = \<lparr>iss_map = [], iss_lbaHitRangeSize = rs, iss_lbaHistEnabled = False\<rparr>"

text \<open>The private \<open>getIoStatistics\<close> returns a reference: the set with the entry in it, and the entry.\<close>

definition set_getIoStatistics ::
    "set_key \<Rightarrow> io_statistics_set \<Rightarrow> (io_statistics_set \<times> set_key \<times> io_statistics) res" where
  "set_getIoStatistics key s =
     (case map_find (iss_map s) (sk_Id key) of
        Some (k, st) \<Rightarrow> Inr (s, k, st)
      | None \<Rightarrow>
          and_then (io_statistics_new (iss_lbaHitRangeSize s)) (\<lambda>st.
          let (m, inserted) = map_emplace (sk_Id key) (key, st) (iss_map s)
          in if \<not> inserted then Inl (Octf_Exception ''Cannot allocate IO statistics'')
             else Inr (s\<lparr>iss_map := m\<rparr>, key, st)))"

definition set_count ::
    "(rat \<Rightarrow> rat) \<Rightarrow> parsed_event \<Rightarrow> io_statistics_set \<Rightarrow> io_statistics_set res" where
  "set_count rnd e s =
     (let i = pdev_id (pe_device e)
      in and_then (set_getIoStatistics (set_key_of_id i) s) (\<lambda>(s', k, st).
         and_then (io_count rnd e st) (\<lambda>st'.
         Inr (s'\<lparr>iss_map := map_put i (k, st') (iss_map s')\<rparr>))))"

definition set_addDevice :: "device_description \<Rightarrow> io_statistics_set \<Rightarrow> io_statistics_set res" where
  "set_addDevice d s =
     (let key = \<lparr>sk_Id = dd_id d, sk_Size = dd_size d, sk_Name = dd_name d, sk_Model = dd_model d\<rparr>
      in case map_find (iss_map s) (sk_Id key) of
           Some (_, st) \<Rightarrow>
             let (m, inserted) = map_emplace (sk_Id key) (key, st) (map_erase (sk_Id key) (iss_map s))
             in if \<not> inserted then Inl (Octf_Exception ''Cannot allocate IO statistics'')
                else if iss_lbaHistEnabled s
                then Inr (s\<lparr>iss_map := map_put (sk_Id key) (key, enableLbaHistogram st) m\<rparr>)
                else Inr (s\<lparr>iss_map := m\<rparr>)
         | None \<Rightarrow> and_then (set_getIoStatistics key s) (\<lambda>(s', _, _). Inr s'))"

definition set_enableLbaHistogram :: "io_statistics_set \<Rightarrow> io_statistics_set" where
  "set_enableLbaHistogram s = s\<lparr>iss_lbaHistEnabled := True\<rparr>"

subsection \<open>Reports\<close>

text \<open>The description of each report is the stored key, as a device description.\<close>

definition desc_of_key :: "set_key \<Rightarrow> device_description" where
  "desc_of_key k = \<lparr>dd_id = sk_Id k, dd_name = sk_Name k, dd_size = sk_Size k, dd_model = sk_Model k\<rparr>"

definition getIoStatisticsSet ::
    "(rat \<Rightarrow> rat) \<Rightarrow> io_statistics_set \<Rightarrow> (device_description \<times> io_report) list" where
  "getIoStatisticsSet rnd s =
     map (\<lambda>(_, k, st). (desc_of_key k, getIoStatistics rnd st)) (iss_map s)"

definition getIoLatencyHistogramSet :: "io_statistics_set \<Rightarrow> (device_description \<times> io_histogram) list" where
  "getIoLatencyHistogramSet s =
     map (\<lambda>(_, k, st). (desc_of_key k, getIoLatencyHistogram st)) (iss_map s)"

definition getIoLbaHistogramSet :: "io_statistics_set \<Rightarrow> (device_description \<times> io_histogram) list" where
  "getIoLbaHistogramSet s =
     map (\<lambda>(_, k, st). (desc_of_key k, getIoLbaHistogram st)) (iss_map s)"

definition getIoSizeHistogramSet :: "io_statistics_set \<Rightarrow> (device_description \<times> io_histogram) list" where
  "getIoSizeHistogramSet s =
     map (\<lambda>(_, k, st). (desc_of_key k, getIoSizeHistogram st)) (iss_map s)"

definition getQueueDepthHistogramSet :: "io_statistics_set \<Rightarrow> (device_description \<times> io_histogram) list" where
  "getQueueDepthHistogramSet s =
     map (\<lambda>(_, k, st). (desc_of_key k, getQueueDepthHistogram st)) (iss_map s)"

subsection \<open>The statistics of one device\<close>

definition set_ok :: "io_statistics_set \<Rightarrow> bool" where
  "set_ok s \<longleftrightarrow> map_ok (iss_map s) \<and> (\<forall>e \<in> set (iss_map s). sk_Id (fst (snd e)) = fst e)"

text \<open>The statistics the set keeps for a device; a fresh object when it keeps none.\<close>

definition stats_for :: "io_statistics_set \<Rightarrow> u64 \<Rightarrow> io_statistics res" where
  "stats_for s d =
     (case map_find (iss_map s) d of
        None \<Rightarrow> io_statistics_new (iss_lbaHitRangeSize s) | Some (_, st) \<Rightarrow> Inr st)"

lemma stats_new_total: "\<exists>st. stats_new rs = Inr st"
  by (simp add: stats_new_def distribution_new_def)

lemma io_statistics_new_total:
  "\<exists>st. io_statistics_new rs = Inr st \<and> is_lbaHistEnabled st = False"
  using stats_new_total [of rs] by (auto simp: io_statistics_new_def)

lemma set_getIoStatistics_result:
  assumes "map_ok (iss_map s)"
  shows "\<exists>s' k st. set_getIoStatistics key s = Inr (s', k, st) \<and> stats_for s (sk_Id key) = Inr st \<and>
     map_ok (iss_map s') \<and> iss_lbaHitRangeSize s' = iss_lbaHitRangeSize s \<and>
     iss_lbaHistEnabled s' = iss_lbaHistEnabled s \<and>
     map_find (iss_map s') = (map_find (iss_map s))(sk_Id key \<mapsto> (k, st)) \<and>
     (map_find (iss_map s) (sk_Id key) = None \<longrightarrow> k = key)"
proof (cases "map_find (iss_map s) (sk_Id key)")
  case None
  obtain st where st: "io_statistics_new (iss_lbaHitRangeSize s) = Inr st"
    using io_statistics_new_total by blast
  then show ?thesis
    using None assms
    by (simp add: set_getIoStatistics_def stats_for_def map_emplace_def sm.find_put sm.ok_put)
next
  case (Some e)
  then show ?thesis
    using assms by (cases e) (auto simp: set_getIoStatistics_def stats_for_def fun_eq_iff)
qed

lemma set_count_result:
  assumes "map_ok (iss_map s)" "set_count rnd e s = Inr s'"
  shows "map_ok (iss_map s')" "iss_lbaHistEnabled s' = iss_lbaHistEnabled s"
    and "iss_lbaHitRangeSize s' = iss_lbaHitRangeSize s"
    and "stats_for s' d = (if d = pdev_id (pe_device e)
      then and_then (stats_for s d) (io_count rnd e) else stats_for s d)"
proof -
  let ?i = "pdev_id (pe_device e)"
  obtain s1 k st where s1: "set_getIoStatistics (set_key_of_id ?i) s = Inr (s1, k, st)"
    "stats_for s ?i = Inr st" "map_ok (iss_map s1)"
    "iss_lbaHitRangeSize s1 = iss_lbaHitRangeSize s" "iss_lbaHistEnabled s1 = iss_lbaHistEnabled s"
    "map_find (iss_map s1) = (map_find (iss_map s))(?i \<mapsto> (k, st))"
    using set_getIoStatistics_result [OF assms(1), of "set_key_of_id ?i"]
    by (auto simp: set_key_of_id_def)
  obtain st' where st': "io_count rnd e st = Inr st'"
    "s' = s1\<lparr>iss_map := map_put ?i (k, st') (iss_map s1)\<rparr>"
    using assms(2) s1(1) by (auto simp: set_count_def Let_def and_then_Inr_iff)
  show "map_ok (iss_map s')" "iss_lbaHistEnabled s' = iss_lbaHistEnabled s"
    and "iss_lbaHitRangeSize s' = iss_lbaHitRangeSize s"
    using st'(2) s1(3-5) by (simp_all add: sm.ok_put)
  show "stats_for s' d = (if d = ?i then and_then (stats_for s d) (io_count rnd e) else stats_for s d)"
  proof (cases "d = ?i")
    case True
    have "map_find (iss_map s') ?i = Some (k, st')" using st'(2) s1(3) by (simp add: sm.find_put)
    then show ?thesis using True s1(2) st'(1) by (simp add: stats_for_def)
  next
    case False
    have "map_find (iss_map s') d = map_find (iss_map s) d" "iss_lbaHitRangeSize s' = iss_lbaHitRangeSize s"
      using False st'(2) s1(3,4,6) by (simp_all add: sm.find_put)
    then show ?thesis using False by (simp add: stats_for_def split: option.split)
  qed
qed

fun set_count_all :: "(rat \<Rightarrow> rat) \<Rightarrow> parsed_event list \<Rightarrow> io_statistics_set \<Rightarrow> io_statistics_set res" where
  "set_count_all rnd [] s = Inr s"
| "set_count_all rnd (e # es) s = and_then (set_count rnd e s) (set_count_all rnd es)"

lemma set_count_all_result:
  "map_ok (iss_map s) \<Longrightarrow> set_count_all rnd es s = Inr s' \<Longrightarrow>
     stats_for s' d = and_then (stats_for s d)
       (io_count_all rnd (filter (\<lambda>e. pdev_id (pe_device e) = d) es))"
proof (induction es arbitrary: s)
  case Nil
  then show ?case by (cases "stats_for s d") auto
next
  case (Cons e es)
  obtain s1 where s1: "set_count rnd e s = Inr s1" "set_count_all rnd es s1 = Inr s'"
    using Cons.prems(2) by (auto simp: and_then_Inr_iff)
  note step = set_count_result [OF Cons.prems(1) s1(1)]
  from Cons.IH [OF step(1) s1(2)] step(4) [of d]
  show ?case by (cases "stats_for s d") auto
qed

lemma set_addDevice_result:
  assumes "map_ok (iss_map s)"
  shows "\<exists>s' st. set_addDevice d s = Inr s' \<and> map_ok (iss_map s') \<and>
     iss_lbaHistEnabled s' = iss_lbaHistEnabled s \<and>
     iss_lbaHitRangeSize s' = iss_lbaHitRangeSize s \<and>
     stats_for s (dd_id d) = Inr st \<and>
     map_find (iss_map s') = (map_find (iss_map s))(dd_id d \<mapsto>
       (\<lparr>sk_Id = dd_id d, sk_Size = dd_size d, sk_Name = dd_name d, sk_Model = dd_model d\<rparr>,
        if map_find (iss_map s) (dd_id d) \<noteq> None \<and> iss_lbaHistEnabled s
        then enableLbaHistogram st else st))"
proof (cases "map_find (iss_map s) (dd_id d)")
  case None
  let ?key = "\<lparr>sk_Id = dd_id d, sk_Size = dd_size d, sk_Name = dd_name d, sk_Model = dd_model d\<rparr>"
  from set_getIoStatistics_result [OF assms, of ?key] None
  show ?thesis by (auto simp: set_addDevice_def Let_def)
next
  case (Some e)
  then show ?thesis
    using assms
    by (cases e) (auto simp: set_addDevice_def Let_def stats_for_def map_emplace_def
        sm.find_put sm.find_erase sm.ok_put sm.ok_erase)
qed

subsection \<open>Properties\<close>

text \<open>
  Events are counted per device: whatever devices the events of a history name and
  however they interleave, the statistics kept for a device are those a single statistics object
  gets from the events of that device alone, in their order.
\<close>

theorem set_count_separates_devices:
  assumes "set_count_all rnd es (io_statistics_set_new rs) = Inr s"
  shows "stats_for s d = and_then (io_statistics_new rs)
    (io_count_all rnd (filter (\<lambda>e. pdev_id (pe_device e) = d) es))"
  using set_count_all_result [OF _ assms, of d]
  by (simp add: io_statistics_set_new_def stats_for_def)

theorem set_count_separates_devices_witness:
  "\<exists>s. set_count_all (\<lambda>x. x) [sample_event] (io_statistics_set_new 20480) = Inr s \<and>
     stats_for s 5 = and_then (io_statistics_new 20480)
       (io_count_all (\<lambda>x. x) (filter (\<lambda>e. pdev_id (pe_device e) = 5) [sample_event]))"
proof -
  let ?s0 = "io_statistics_set_new 20480"
  obtain st where st: "fresh_statistics False 20480 = Inr st" "describes True False 20480 st []"
    using fresh_describes by blast
  then have new: "io_statistics_new 20480 = Inr st"
    by (auto simp: fresh_statistics_def and_then_Inr_iff)
  obtain st' where "io_count (\<lambda>x. x) sample_event st = Inr st'"
    using io_count_step [OF st(2) sample_event_countable, of "\<lambda>x. x"] by (auto simp: exact_integers_def)
  then obtain s where "set_count_all (\<lambda>x. x) [sample_event] ?s0 = Inr s"
    using new by (simp add: set_count_def set_getIoStatistics_def io_statistics_set_new_def
        map_emplace_def Let_def set_key_of_id_def)
  with set_count_separates_devices show ?thesis by blast
qed

text \<open>
  Describing a device never loses statistics: what the set keeps for any device stays
  the same, up to switching on the address histogram of a device already known, and the new
  description is the one reported. For a device not yet known the histogram stays off even when
  the set has it enabled.
\<close>

theorem addDevice_keeps_statistics:
  assumes "map_ok (iss_map s)"
  shows "\<exists>s'. set_addDevice d s = Inr s' \<and>
    (\<exists>key st. map_find (iss_map s') (dd_id d) = Some (key, st) \<and> desc_of_key key = d \<and>
       (if map_find (iss_map s) (dd_id d) = None
        then io_statistics_new (iss_lbaHitRangeSize s) = Inr st \<and> \<not> is_lbaHistEnabled st
        else \<exists>st0. stats_for s (dd_id d) = Inr st0 \<and>
          st = (if iss_lbaHistEnabled s then enableLbaHistogram st0 else st0))) \<and>
    (\<forall>i. i = dd_id d \<or> map_find (iss_map s') i = map_find (iss_map s) i)"
proof -
  obtain s' st where s': "set_addDevice d s = Inr s'" "stats_for s (dd_id d) = Inr st"
    "map_find (iss_map s') = (map_find (iss_map s))(dd_id d \<mapsto>
       (\<lparr>sk_Id = dd_id d, sk_Size = dd_size d, sk_Name = dd_name d, sk_Model = dd_model d\<rparr>,
        if map_find (iss_map s) (dd_id d) \<noteq> None \<and> iss_lbaHistEnabled s
        then enableLbaHistogram st else st))"
    using set_addDevice_result [OF assms, of d] by blast
  have off: "\<not> is_lbaHistEnabled st" if "map_find (iss_map s) (dd_id d) = None"
    using that s'(2) io_statistics_new_total [of "iss_lbaHitRangeSize s"] by (auto simp: stats_for_def)
  show ?thesis
    using s' off by (auto simp: desc_of_key_def stats_for_def)
qed

theorem addDevice_keeps_statistics_witness:
  "\<exists>s' key st. set_addDevice \<lparr>dd_id = 3, dd_name = ''sda'', dd_size = 8, dd_model = ''m''\<rparr>
       (set_enableLbaHistogram (io_statistics_set_new 20480)) = Inr s' \<and>
     map_find (iss_map s') 3 = Some (key, st) \<and> \<not> is_lbaHistEnabled st"
  using addDevice_keeps_statistics [of "set_enableLbaHistogram (io_statistics_set_new 20480)"
      "\<lparr>dd_id = 3, dd_name = ''sda'', dd_size = 8, dd_model = ''m''\<rparr>"]
  by (auto simp: set_enableLbaHistogram_def io_statistics_set_new_def)

end
