(* ===== verification/File_System_Viewer.thy ===== *)
theory File_System_Viewer
  imports Trace_Messages
begin

section \<open>The filesystem viewer\<close>

text \<open>
  \<open>FileSystemViewer\<close> and \<open>TraceEventHandlerFilesystemTree\<close> of
  source/octf/trace/parser/v2/ParsedIoTraceEventHandler.cpp: per partition, a map from file
  identifiers to the parent and the name of the file, from which names, extensions and whole
  paths are read; and the handler that builds these maps from the file-name events of a trace,
  keeping what it saw in a trace extension for the next run.

  A lookup is weak: when the identifier itself is missing, the entry before it counts if it
  is the same inode of the same partition with an earlier creation date.
\<close>

record file_info =
  fi_parent :: file_id
  fi_name :: string

type_synonym viewer = "(file_id, file_info) std_map"

definition file_info_of_event :: "event_filesystem_file_name \<Rightarrow> file_info" where
  "file_info_of_event e =
     \<lparr>fi_parent = file_id_of_proto (fsn_fileParentId e), fi_name = fsn_fileName e\<rparr>"

definition addFile :: "file_id \<Rightarrow> file_info \<Rightarrow> viewer \<Rightarrow> viewer" where
  "addFile i info v = map_put i info v"

definition viewer_find :: "file_id \<Rightarrow> bool \<Rightarrow> viewer \<Rightarrow> file_info option" where
  "viewer_find i week v =
     (case map_find v i of
        Some info \<Rightarrow> Some info
      | None \<Rightarrow>
          if \<not> week then None
          else let (before, _) = map_lower_bound i v
               in if v \<noteq> [] \<and> before \<noteq> [] then
                    let (k, info) = last before
                    in if fid_id k = fid_id i \<and> fid_partitionId k = fid_partitionId i
                       then Some info else None
                  else None)"

definition hasFile :: "file_id \<Rightarrow> viewer \<Rightarrow> bool" where
  "hasFile i v \<longleftrightarrow> viewer_find i False v \<noteq> None"

definition rfind :: "char \<Rightarrow> string \<Rightarrow> nat option" where
  "rfind c s = (if c \<in> set s then Some (length s - 1 - length (takeWhile (\<lambda>x. x \<noteq> c) (rev s)))
                else None)"

definition is_alpha :: "char \<Rightarrow> bool" where
  "is_alpha c \<longleftrightarrow> (65 \<le> (of_char c :: nat) \<and> (of_char c :: nat) \<le> 90) \<or>
     (97 \<le> (of_char c :: nat) \<and> (of_char c :: nat) \<le> 122)"

text \<open>The loop that drops characters from the back until a letter is there.\<close>

definition trim_non_alpha :: "string \<Rightarrow> string" where
  "trim_non_alpha s = rev (dropWhile (\<lambda>c. \<not> is_alpha c) (rev s))"

definition getFileNamePrefix :: "file_id \<Rightarrow> viewer \<Rightarrow> string" where
  "getFileNamePrefix i v =
     trim_non_alpha
       (case viewer_find i True v of
          None \<Rightarrow> ''''
        | Some info \<Rightarrow>
            (case rfind (CHR ''.'') (fi_name info) of
               Some n \<Rightarrow> take n (fi_name info)
             | None \<Rightarrow> fi_name info))"

definition getFileName :: "file_id \<Rightarrow> viewer \<Rightarrow> string" where
  "getFileName i v = (case viewer_find i True v of None \<Rightarrow> '''' | Some info \<Rightarrow> fi_name info)"

definition getFileExtension :: "file_id \<Rightarrow> viewer \<Rightarrow> string" where
  "getFileExtension i v =
     (case viewer_find i True v of
        None \<Rightarrow> ''''
      | Some info \<Rightarrow>
          (case rfind (CHR ''.'') (fi_name info) of
             Some n \<Rightarrow> drop (n + 1) (fi_name info)
           | None \<Rightarrow> ''''))"

definition getParentId :: "file_id \<Rightarrow> viewer \<Rightarrow> file_id" where
  "getParentId i v =
     (case viewer_find i True v of None \<Rightarrow> FileId_default | Some info \<Rightarrow> fi_parent info)"

definition PATH_MAX :: nat where "PATH_MAX = 4096"

text \<open>
  \<open>getPath\<close> climbs to the root before it appends names on the way back. It returns the path and
  whether the root was reached; \<open>Inl\<close> is the exception for a path that is too long. On a chain
  of parents that never ends and has no characters it recurses forever, hence the partial
  function.
\<close>

definition join_name :: "string \<Rightarrow> string \<Rightarrow> string" where
  "join_name path name =
     (if path \<noteq> [] \<and> last path \<noteq> CHR ''/'' then path @ ''/'' else path) @ name"

partial_function (option) getPath :: "viewer \<Rightarrow> file_id \<Rightarrow> nat \<Rightarrow> (string \<times> bool) res option" where
  "getPath v i len =
     (case viewer_find i True v of
        None \<Rightarrow> Some (Inr ('''', False))
      | Some info \<Rightarrow>
          let len' = len + length (fi_name info)
          in if len' > PATH_MAX then Some (Inl (Octf_Exception ''Max path exceeded''))
             else if i \<noteq> fi_parent info \<and> fi_name info \<noteq> ''/'' then
               Option.bind (getPath v (fi_parent info) len') (\<lambda>r.
               case r of
                 Inl e \<Rightarrow> Some (Inl e)
               | Inr (path, ok) \<Rightarrow>
                   if \<not> ok then Some (Inr ('''', False))
                   else Some (Inr (join_name path (fi_name info), True)))
             else Some (Inr (fi_name info, True)))"

definition getDirPath :: "file_id \<Rightarrow> viewer \<Rightarrow> string option" where
  "getDirPath i v =
     (case viewer_find i True v of
        None \<Rightarrow> Some ''''
      | Some info \<Rightarrow>
          Option.bind (getPath v (fi_parent info) 0) (\<lambda>r.
          case r of Inl _ \<Rightarrow> Some '''' | Inr (path, _) \<Rightarrow> Some path))"

definition getFilePath :: "file_id \<Rightarrow> viewer \<Rightarrow> string option" where
  "getFilePath i v =
     (case viewer_find i True v of
        None \<Rightarrow> Some ''''
      | Some info \<Rightarrow>
          Option.bind (getDirPath i v) (\<lambda>path.
          if path = '''' then Some ''''
          else Some ((if path \<noteq> ''/'' then path @ ''/'' else path) @ fi_name info)))"

subsection \<open>The tree of a trace\<close>

record fs_tree =
  ft_viewers :: "(u64, viewer) std_map"
  ft_writable :: bool
  ft_written :: "event_filesystem_file_name list"

definition fs_tree_new :: "bool \<Rightarrow> fs_tree" where
  "fs_tree_new writable = \<lparr>ft_viewers = [], ft_writable = writable, ft_written = []\<rparr>"

text \<open>\<open>getFileSystemViewer\<close>: the viewers with one for the partition in them, and that one.\<close>

definition getFileSystemViewer ::
    "u64 \<Rightarrow> (u64, viewer) std_map \<Rightarrow> ((u64, viewer) std_map \<times> viewer) res" where
  "getFileSystemViewer partId vs =
     (case map_find vs partId of
        Some v \<Rightarrow> Inr (vs, v)
      | None \<Rightarrow>
          let (vs', inserted) = map_emplace partId [] vs
          in if \<not> inserted
             then Inl (Octf_Exception ''Error during trace parsing, cannot create FS viewer'')
             else Inr (vs', []))"

definition tree_handleEvent :: "event_case \<Rightarrow> fs_tree \<Rightarrow> fs_tree res" where
  "tree_handleEvent e t =
     (case e of
        FilesystemFileName ev \<Rightarrow>
          let i = file_id_of_proto (fsn_fileId ev); info = file_info_of_event ev
          in and_then (getFileSystemViewer (fid_partitionId i) (ft_viewers t)) (\<lambda>(vs, v).
             let written = (if ft_writable t \<and> \<not> hasFile i v then ft_written t @ [ev]
                            else ft_written t)
             in Inr (t\<lparr>ft_viewers := map_put (fid_partitionId i) (addFile i info v) vs,
                       ft_written := written\<rparr>))
      | _ \<Rightarrow> Inr t)"

fun tree_run :: "event_case list \<Rightarrow> fs_tree \<Rightarrow> fs_tree res" where
  "tree_run [] t = Inr t"
| "tree_run (e # es) t = and_then (tree_handleEvent e t) (tree_run es)"

text \<open>
  \<open>init\<close>: with a ready extension the events kept there are replayed (the extension is not
  writable then); otherwise the whole trace is processed and the extension written.
\<close>

definition tree_init :: "event_filesystem_file_name list option \<Rightarrow> event_case list \<Rightarrow> bool \<Rightarrow> fs_tree res" where
  "tree_init ready trace writable =
     (case ready of
        Some evs \<Rightarrow> tree_run (map FilesystemFileName evs) (fs_tree_new False)
      | None \<Rightarrow> tree_run trace (fs_tree_new writable))"

subsection \<open>Lookups\<close>

definition same_inode :: "file_id \<Rightarrow> file_id \<Rightarrow> bool" where
  "same_inode a b \<longleftrightarrow> fid_partitionId a = fid_partitionId b \<and> fid_id a = fid_id b"

text \<open>The latest version of the inode that was created before \<open>i\<close>.\<close>

definition latest_before :: "viewer \<Rightarrow> file_id \<Rightarrow> file_id \<Rightarrow> bool" where
  "latest_before v i k \<longleftrightarrow> k \<in> fst ` set v \<and> same_inode k i \<and> k < i \<and>
     (\<forall>k' \<in> fst ` set v. same_inode k' i \<and> k' < i \<longrightarrow> k' \<le> k)"

lemma same_inode_between:
  "same_inode a i \<Longrightarrow> a \<le> k \<Longrightarrow> k < i \<Longrightarrow> same_inode k i"
  by (auto simp: same_inode_def less_eq_file_id_def less_file_id_def file_id_less_def split: if_splits)

lemma sorted_fst_last: "sorted (map fst xs) \<Longrightarrow> e \<in> set xs \<Longrightarrow> fst e \<le> fst (last xs)"
  by (induction xs) (auto split: if_splits)

lemma map_ok_before:
  assumes "map_ok v"
  shows "set (takeWhile (\<lambda>e. fst e < i) v) = {e \<in> set v. fst e < i}"
    and "takeWhile (\<lambda>e. fst e < i) v \<noteq> [] \<Longrightarrow> e \<in> set v \<Longrightarrow> fst e < i \<Longrightarrow>
      fst e \<le> fst (last (takeWhile (\<lambda>e. fst e < i) v))"
proof -
  have sorted: "sorted (map fst v)" using assms by (simp add: map_ok_def strict_sorted_iff)
  show set: "set (takeWhile (\<lambda>e. fst e < i) v) = {e \<in> set v. fst e < i}"
  proof
    show "set (takeWhile (\<lambda>e. fst e < i) v) \<subseteq> {e \<in> set v. fst e < i}"
      by (auto dest: set_takeWhileD)
    show "{e \<in> set v. fst e < i} \<subseteq> set (takeWhile (\<lambda>e. fst e < i) v)"
      using sorted by (induction v) auto
  qed
  assume ne: "takeWhile (\<lambda>e. fst e < i) v \<noteq> []" and e: "e \<in> set v" "fst e < i"
  let ?b = "takeWhile (\<lambda>e. fst e < i) v"
  have "sorted (map fst ?b)"
    using sorted by (metis map_append sorted_append takeWhile_dropWhile_id)
  moreover have "e \<in> set ?b" using e by (simp add: set)
  ultimately show "fst e \<le> fst (last ?b)" by (rule sorted_fst_last)
qed

lemma viewer_find_weak:
  assumes "map_ok v" "map_find v i = None"
  shows "viewer_find i True v = Some info \<longleftrightarrow>
     (\<exists>k. latest_before v i k \<and> map_find v k = Some info)"
proof -
  let ?b = "takeWhile (\<lambda>e. fst e < i) v"
  note before = map_ok_before [OF assms(1), of i]
  have last: "last ?b \<in> set v" "fst (last ?b) < i" if "?b \<noteq> []"
    using last_in_set [OF that] before(1) by auto
  have find: "viewer_find i True v = (if ?b \<noteq> [] \<and> same_inode (fst (last ?b)) i
      then Some (snd (last ?b)) else None)"
    using assms(2) by (auto simp: viewer_find_def map_lower_bound_def Let_def same_inode_def
        split: prod.splits)
  show ?thesis
  proof
    assume "viewer_find i True v = Some info"
    then have b: "?b \<noteq> []" "same_inode (fst (last ?b)) i" "snd (last ?b) = info"
      by (simp_all add: find split: if_splits)
    have "map_find v (fst (last ?b)) = Some info"
      using last [OF b(1)] b(3) map_find_iff [OF assms(1)] by (metis prod.collapse)
    moreover have "latest_before v i (fst (last ?b))"
      using last [OF b(1)] b before(2) [OF b(1)] by (auto simp: latest_before_def)
    ultimately show "\<exists>k. latest_before v i k \<and> map_find v k = Some info" by blast
  next
    assume "\<exists>k. latest_before v i k \<and> map_find v k = Some info"
    then obtain k where k: "k \<in> fst ` set v" "same_inode k i" "k < i" "map_find v k = Some info"
      "\<forall>k' \<in> fst ` set v. same_inode k' i \<and> k' < i \<longrightarrow> k' \<le> k"
      by (auto simp: latest_before_def)
    from k(4) have kv: "(k, info) \<in> set v" by (rule map_find_SomeD)
    then have ne: "?b \<noteq> []" using k(3) before(1) by force
    have le: "k \<le> fst (last ?b)" using before(2) [OF ne kv] k(3) by simp
    have same: "same_inode (fst (last ?b)) i"
      using same_inode_between [OF k(2) le] last [OF ne] by simp
    have "fst (last ?b) \<le> k" using k(5) last [OF ne] same by auto
    with le have "fst (last ?b) = k" by simp
    then have "map_find v k = Some (snd (last ?b))"
      using last [OF ne] map_find_iff [OF assms(1)] by (metis prod.collapse)
    then show "viewer_find i True v = Some info" using k(4) ne same by (simp add: find)
  qed
qed

lemma viewer_find_exact: "map_find v i = Some info \<Longrightarrow> viewer_find i week v = Some info"
  by (simp add: viewer_find_def)

lemma viewer_find_stored:
  assumes "map_ok v" "viewer_find i week v = Some info"
  shows "info \<in> snd ` set v"
proof (cases "map_find v i")
  case None
  then have "viewer_find i True v = Some info"
    using assms(2) by (cases week) (simp_all add: viewer_find_def)
  then show ?thesis using viewer_find_weak [OF assms(1) None] by (force dest: map_find_SomeD)
next
  case (Some x)
  then show ?thesis using assms(2) by (force simp: viewer_find_exact dest: map_find_SomeD)
qed

subsection \<open>Paths\<close>

text \<open>What a weak lookup has to find: the file itself, or the latest version of its inode before it.\<close>

definition stored_info :: "viewer \<Rightarrow> file_id \<Rightarrow> file_info \<Rightarrow> bool" where
  "stored_info v i info \<longleftrightarrow>
     map_find v i = Some info \<or>
     (map_find v i = None \<and> (\<exists>k. latest_before v i k \<and> map_find v k = Some info))"

lemma viewer_find_stored_info:
  "map_ok v \<Longrightarrow> viewer_find i True v = Some info \<longleftrightarrow> stored_info v i info"
  using viewer_find_weak [of v i info] viewer_find_exact [of v i _ True]
  by (cases "map_find v i") (auto simp: stored_info_def)

text \<open>The names on the way from the root down to \<open>i\<close>.\<close>

inductive ancestry :: "viewer \<Rightarrow> file_id \<Rightarrow> string list \<Rightarrow> bool" for v where
  root: "stored_info v i info \<Longrightarrow> i = fi_parent info \<or> fi_name info = ''/'' \<Longrightarrow>
    ancestry v i [fi_name info]"
| child: "stored_info v i info \<Longrightarrow> i \<noteq> fi_parent info \<Longrightarrow> fi_name info \<noteq> ''/'' \<Longrightarrow>
    ancestry v (fi_parent info) names \<Longrightarrow> ancestry v i (names @ [fi_name info])"

definition join_names :: "string list \<Rightarrow> string" where
  "join_names names = foldl join_name '''' names"

definition names_length :: "string list \<Rightarrow> nat" where
  "names_length names = sum_list (map length names)"

text \<open>A path: every name below the root after a slash, and a root that is a slash is nothing else.\<close>

definition slash_path :: "string list \<Rightarrow> string" where
  "slash_path names =
     (case names of
        [] \<Rightarrow> ''''
      | r # ns \<Rightarrow> (if r = ''/'' then '''' else r) @ concat (map (\<lambda>n. ''/'' @ n) ns))"

lemma getPath_ancestry:
  assumes "ancestry v i names" "map_ok v" "len + names_length names \<le> PATH_MAX"
  shows "getPath v i len = Some (Inr (join_names names, True))"
  using assms
proof (induction arbitrary: len rule: ancestry.induct)
  case (root i info)
  then show ?case
    by (subst getPath.simps)
      (auto simp: Let_def join_names_def join_name_def names_length_def simp flip: viewer_find_stored_info)
next
  case (child i info names)
  have "getPath v (fi_parent info) (len + length (fi_name info)) = Some (Inr (join_names names, True))"
    using child.prems by (intro child.IH) (simp_all add: names_length_def)
  then show ?case
    using child.hyps child.prems
    by (subst getPath.simps) (simp add: Let_def join_names_def names_length_def flip: viewer_find_stored_info)
qed

lemma getPath_too_long:
  assumes "ancestry v i names" "map_ok v" "PATH_MAX < len + names_length names"
  shows "\<exists>e. getPath v i len = Some (Inl e)"
  using assms
proof (induction arbitrary: len rule: ancestry.induct)
  case (root i info)
  then show ?case
    by (subst getPath.simps) (simp add: Let_def names_length_def flip: viewer_find_stored_info)
next
  case (child i info names)
  have find: "viewer_find i True v = Some info"
    using child.hyps(1) child.prems(1) by (simp add: viewer_find_stored_info)
  show ?case
  proof (cases "PATH_MAX < len + length (fi_name info)")
    case True
    then show ?thesis using find by (subst getPath.simps) (simp add: Let_def)
  next
    case False
    have "PATH_MAX < (len + length (fi_name info)) + names_length names"
      using child.prems(2) by (simp add: names_length_def)
    then obtain e where "getPath v (fi_parent info) (len + length (fi_name info)) = Some (Inl e)"
      using child.IH child.prems(1) by blast
    then show ?thesis using find False child.hyps by (subst getPath.simps) (simp add: Let_def)
  qed
qed

definition dir_name :: "string \<Rightarrow> bool" where
  "dir_name n \<longleftrightarrow> n \<noteq> '''' \<and> last n \<noteq> CHR ''/''"

lemma ancestry_names: "ancestry v i names \<Longrightarrow> names \<noteq> [] \<and> ''/'' \<notin> set (tl names)"
  by (induction rule: ancestry.induct) auto

lemma last_slash_path:
  assumes "r = ''/'' \<or> dir_name r" "\<forall>n \<in> set ns. dir_name n" "ns \<noteq> [] \<or> r \<noteq> ''/''"
  shows "dir_name (slash_path (r # ns))"
proof (cases ns rule: rev_cases)
  case Nil
  then show ?thesis using assms by (simp add: slash_path_def)
next
  case (snoc ns' n)
  then have "dir_name n" using assms(2) by simp
  then show ?thesis using snoc by (simp add: slash_path_def dir_name_def)
qed

lemma join_names_path:
  assumes "r = ''/'' \<or> dir_name r" "\<forall>n \<in> set ns. dir_name n"
  shows "join_names (r # ns) = (if ns = [] \<and> r = ''/'' then ''/'' else slash_path (r # ns))"
  using assms(2)
proof (induction ns rule: rev_induct)
  case Nil
  then show ?case by (simp add: join_names_def join_name_def slash_path_def)
next
  case (snoc n ns)
  have step: "join_names (r # ns @ [n]) = join_name (join_names (r # ns)) n" by (simp add: join_names_def)
  have add: "slash_path (r # ns @ [n]) = slash_path (r # ns) @ ''/'' @ n" by (simp add: slash_path_def)
  show ?case
  proof (cases "ns = [] \<and> r = ''/''")
    case True
    then show ?thesis by (simp add: join_names_def join_name_def slash_path_def)
  next
    case False
    then have "dir_name (slash_path (r # ns))" using last_slash_path assms(1) snoc.prems by simp
    then show ?thesis using snoc False by (simp add: step add join_name_def dir_name_def)
  qed
qed

lemma getPath_returns:
  assumes "map_ok v" "\<forall>info \<in> snd ` set v. fi_name info \<noteq> ''''"
  shows "\<exists>r. getPath v i len = Some r"
proof (induction "PATH_MAX + 1 - len" arbitrary: i len rule: less_induct)
  case less
  show ?case
  proof (cases "viewer_find i True v")
    case None
    then show ?thesis by (subst getPath.simps) simp
  next
    case (Some info)
    then have pos: "0 < length (fi_name info)"
      using viewer_find_stored [OF assms(1) Some] assms(2) by auto
    show ?thesis
    proof (cases "len + length (fi_name info) > PATH_MAX")
      case True
      then show ?thesis using Some by (subst getPath.simps) (simp add: Let_def)
    next
      case False
      then have "PATH_MAX + 1 - (len + length (fi_name info)) < PATH_MAX + 1 - len"
        using pos by linarith
      then obtain r where "getPath v (fi_parent info) (len + length (fi_name info)) = Some r"
        using less by blast
      then show ?thesis using Some False
        by (subst getPath.simps) (simp add: Let_def split: sum.split)
    qed
  qed
qed

subsection \<open>Names and extensions\<close>

lemma rfind_SomeD:
  assumes "rfind c s = Some n"
  shows "s = take n s @ c # drop (n + 1) s" "c \<notin> set (drop (n + 1) s)"
proof -
  let ?t = "takeWhile (\<lambda>x. x \<noteq> c) (rev s)" and ?d = "dropWhile (\<lambda>x. x \<noteq> c) (rev s)"
  have c: "c \<in> set s" and n: "n = length s - 1 - length ?t"
    using assms by (auto simp: rfind_def split: if_splits)
  have "?d \<noteq> []" using c by (simp add: dropWhile_eq_Nil_conv)
  then obtain rest where d: "?d = c # rest"
    using hd_dropWhile [of "\<lambda>x. x \<noteq> c" "rev s"] by (cases ?d) auto
  then have "rev s = ?t @ c # rest" by (metis takeWhile_dropWhile_id)
  then have s: "s = rev rest @ c # rev ?t" by (metis append_Cons append_assoc append_Nil rev_append rev_rev_ident rev.simps(2))
  then have "length s = length rest + 1 + length ?t" by (metis add.commute add_Suc length_Cons length_append length_rev plus_1_eq_Suc)
  then have n': "n = length (rev rest)" using n by simp
  have "c \<notin> set ?t" using set_takeWhileD [of c "\<lambda>x. x \<noteq> c" "rev s"] by blast
  then obtain pre post where "s = pre @ c # post" "c \<notin> set post" "n = length pre"
    using s n' that by (metis set_rev)
  then show "s = take n s @ c # drop (n + 1) s" "c \<notin> set (drop (n + 1) s)" by simp_all
qed

lemma rfind_None_iff: "rfind c s = None \<longleftrightarrow> c \<notin> set s"
  by (simp add: rfind_def)

lemma trim_non_alpha_spec:
  "\<exists>rest. s = trim_non_alpha s @ rest \<and> (\<forall>c \<in> set rest. \<not> is_alpha c) \<and>
     (trim_non_alpha s \<noteq> '''' \<longrightarrow> is_alpha (last (trim_non_alpha s)))"
proof -
  let ?P = "\<lambda>c. \<not> is_alpha c"
  have "rev s = takeWhile ?P (rev s) @ dropWhile ?P (rev s)" by simp
  then have "s = trim_non_alpha s @ rev (takeWhile ?P (rev s))"
    unfolding trim_non_alpha_def by (metis rev_append rev_rev_ident)
  moreover have "\<forall>c \<in> set (rev (takeWhile ?P (rev s))). \<not> is_alpha c" by (auto dest: set_takeWhileD)
  moreover have "trim_non_alpha s \<noteq> '''' \<longrightarrow> is_alpha (last (trim_non_alpha s))"
    using hd_dropWhile [of ?P "rev s"] by (auto simp: trim_non_alpha_def last_rev)
  ultimately show ?thesis by blast
qed

subsection \<open>Building the tree\<close>

definition tree_ok :: "fs_tree \<Rightarrow> bool" where
  "tree_ok t \<longleftrightarrow> map_ok (ft_viewers t) \<and> map_all map_ok (ft_viewers t)"

definition tree_lookup :: "fs_tree \<Rightarrow> file_id \<Rightarrow> file_info option" where
  "tree_lookup t i =
     (case map_find (ft_viewers t) (fid_partitionId i) of None \<Rightarrow> None | Some v \<Rightarrow> map_find v i)"

fun file_names :: "event_case list \<Rightarrow> (file_id \<times> file_info) list" where
  "file_names [] = []"
| "file_names (FilesystemFileName ev # es) =
     (file_id_of_proto (fsn_fileId ev), file_info_of_event ev) # file_names es"
| "file_names (_ # es) = file_names es"

lemma tree_new_ok [simp]:
  "tree_ok (fs_tree_new w)" "tree_lookup (fs_tree_new w) = Map.empty"
  "ft_written (fs_tree_new w) = []" "ft_writable (fs_tree_new w) = w"
  by (simp_all add: tree_ok_def fs_tree_new_def tree_lookup_def fun_eq_iff)

lemma tree_name_step:
  assumes "tree_ok t"
  shows "\<exists>t'. tree_handleEvent (FilesystemFileName ev) t = Inr t' \<and> tree_ok t' \<and>
     tree_lookup t' = (tree_lookup t)(file_id_of_proto (fsn_fileId ev) \<mapsto> file_info_of_event ev) \<and>
     ft_writable t' = ft_writable t \<and>
     ft_written t' = (if ft_writable t \<and> tree_lookup t (file_id_of_proto (fsn_fileId ev)) = None
       then ft_written t @ [ev] else ft_written t)"
proof -
  let ?i = "file_id_of_proto (fsn_fileId ev)" and ?p = "fid_partitionId (file_id_of_proto (fsn_fileId ev))"
  obtain vs v where gv: "getFileSystemViewer ?p (ft_viewers t) = Inr (vs, v)" "map_ok vs"
    "map_all map_ok vs" "map_ok v"
    "map_find (ft_viewers t) ?p = Some v \<or> map_find (ft_viewers t) ?p = None \<and> v = []"
    "\<And>q. q \<noteq> ?p \<Longrightarrow> map_find vs q = map_find (ft_viewers t) q"
  proof (cases "map_find (ft_viewers t) ?p")
    case None
    then show thesis
      using assms by (intro that [of "map_put ?p [] (ft_viewers t)" "[]"])
        (simp_all add: getFileSystemViewer_def map_emplace_def tree_ok_def sm.ok_put sm.find_put map_all_put)
  next
    case (Some v)
    then have "map_ok v" using assms by (auto simp: tree_ok_def intro: map_all_find [of map_ok])
    then show thesis
      using assms Some by (intro that [of "ft_viewers t" v])
        (simp_all add: getFileSystemViewer_def tree_ok_def)
  qed
  have has: "hasFile ?i v \<longleftrightarrow> tree_lookup t ?i \<noteq> None"
    using gv(5) by (auto simp: hasFile_def viewer_find_def tree_lookup_def split: option.splits)
  let ?vs = "map_put ?p (addFile ?i (file_info_of_event ev) v) vs"
  have "map_ok ?vs" "map_all map_ok ?vs"
    using gv(2-4) by (simp_all add: sm.ok_put map_all_put addFile_def)
  moreover have "tree_lookup (t\<lparr>ft_viewers := ?vs, ft_written := w\<rparr>) =
      (tree_lookup t)(?i \<mapsto> file_info_of_event ev)" for w
  proof
    fix j show "tree_lookup (t\<lparr>ft_viewers := ?vs, ft_written := w\<rparr>) j =
        ((tree_lookup t)(?i \<mapsto> file_info_of_event ev)) j"
      using gv by (cases "fid_partitionId j = ?p")
        (auto simp: tree_lookup_def sm.find_put addFile_def split: option.splits)
  qed
  ultimately show ?thesis
    using gv(1) has by (simp add: tree_handleEvent_def Let_def tree_ok_def)
qed

lemma tree_run_lookup:
  assumes "tree_ok t"
  shows "\<exists>t'. tree_run es t = Inr t' \<and> tree_ok t' \<and>
     tree_lookup t' = tree_lookup t ++ map_of (rev (file_names es)) \<and>
     (\<exists>evs. ft_written t' = ft_written t @ evs \<and>
       (ft_writable t \<longrightarrow>
         (\<forall>i. tree_lookup t i = None \<longrightarrow>
           map_of (rev (file_names (map FilesystemFileName evs))) i = map_of (file_names es) i) \<and>
         (\<forall>i. tree_lookup t i \<noteq> None \<longrightarrow>
           i \<notin> fst ` set (file_names (map FilesystemFileName evs)))))"
  using assms
proof (induction es arbitrary: t)
  case Nil
  then show ?case by auto
next
  case (Cons e es)
  show ?case
  proof (cases "\<exists>ev. e = FilesystemFileName ev")
    case False
    then have "tree_handleEvent e t = Inr t" "file_names (e # es) = file_names es"
      by (cases e; simp add: tree_handleEvent_def)+
    then show ?thesis using Cons by simp
  next
    case True
    then obtain ev where e: "e = FilesystemFileName ev" by blast
    let ?i = "file_id_of_proto (fsn_fileId ev)" and ?info = "file_info_of_event ev"
    obtain t1 where t1: "tree_handleEvent e t = Inr t1" "tree_ok t1"
      "tree_lookup t1 = (tree_lookup t)(?i \<mapsto> ?info)" "ft_writable t1 = ft_writable t"
      "ft_written t1 = (if ft_writable t \<and> tree_lookup t ?i = None
         then ft_written t @ [ev] else ft_written t)"
      using tree_name_step [OF Cons.prems, of ev] e by auto
    obtain t' evs where t': "tree_run es t1 = Inr t'" "tree_ok t'"
      "tree_lookup t' = tree_lookup t1 ++ map_of (rev (file_names es))"
      "ft_written t' = ft_written t1 @ evs"
      "ft_writable t \<Longrightarrow> tree_lookup t1 i = None \<Longrightarrow>
        map_of (rev (file_names (map FilesystemFileName evs))) i = map_of (file_names es) i"
      "ft_writable t \<Longrightarrow> tree_lookup t1 i \<noteq> None \<Longrightarrow>
        i \<notin> fst ` set (file_names (map FilesystemFileName evs))" for i
      using Cons.IH [OF t1(2)] t1(4) by auto
    define evs' where "evs' = (if ft_writable t \<and> tree_lookup t ?i = None then ev # evs else evs)"
    have look: "tree_lookup t' = tree_lookup t ++ map_of (rev (file_names (e # es)))"
      by (simp add: t'(3) t1(3) e map_add_def fun_eq_iff split: option.splits)
    have written: "ft_written t' = ft_written t @ evs'" by (simp add: t'(4) t1(5) evs'_def)
    have new: "map_of (rev (file_names (map FilesystemFileName evs'))) j = map_of (file_names (e # es)) j"
      if "ft_writable t" "tree_lookup t j = None" for j
    proof (cases "j = ?i")
      case True
      have "?i \<notin> fst ` set (file_names (map FilesystemFileName evs))"
        using t'(6) [OF that(1), of ?i] t1(3) by simp
      then have "map_of (rev (file_names (map FilesystemFileName evs))) ?i = None"
        by (simp add: map_of_eq_None_iff)
      then show ?thesis using that True by (simp add: evs'_def e map_add_def)
    next
      case False
      then have "tree_lookup t1 j = None" using that(2) t1(3) by simp
      from t'(5) [OF that(1) this] False show ?thesis
        by (simp add: evs'_def e map_add_def split: option.splits)
    qed
    have old: "j \<notin> fst ` set (file_names (map FilesystemFileName evs'))"
      if "ft_writable t" "tree_lookup t j \<noteq> None" for j
      using t'(6) [OF that(1), of j] t1(3) that by (auto simp: evs'_def)
    show ?thesis using t1(1) t'(1,2) look written new old by auto
  qed
qed

lemma file_names_map: "file_names (map FilesystemFileName evs) =
  map (\<lambda>ev. (file_id_of_proto (fsn_fileId ev), file_info_of_event ev)) evs"
  by (induction evs) simp_all

lemma getFilePath_total:
  assumes "map_ok v" "\<forall>info \<in> snd ` set v. fi_name info \<noteq> ''''"
  shows "\<exists>path. getFilePath i v = Some path"
proof (cases "viewer_find i True v")
  case None
  then show ?thesis by (simp add: getFilePath_def)
next
  case (Some info)
  obtain r where "getPath v (fi_parent info) 0 = Some r" using getPath_returns [OF assms] by blast
  then obtain dir where "getDirPath i v = Some dir" using Some
    by (cases r) (auto simp: getDirPath_def)
  then show ?thesis using Some by (simp add: getFilePath_def)
qed

subsection \<open>Properties\<close>

text \<open>
  A weak lookup finds the entry of the identifier itself when there is one, and
  otherwise exactly the latest stored version of the same inode of the same partition created
  before it; it finds nothing when no such version is stored.
\<close>

theorem viewer_find_correct:
  assumes "map_ok v"
  shows "viewer_find i True v = Some info \<longleftrightarrow>
    map_find v i = Some info \<or>
    (map_find v i = None \<and> (\<exists>k. latest_before v i k \<and> map_find v k = Some info))"
  using viewer_find_weak [OF assms, of i info] viewer_find_exact [of v i _ True]
  by (cases "map_find v i") auto

theorem viewer_find_correct_witness:
  "viewer_find (FileId 1 7 30) True
     [(FileId 1 7 10, \<lparr>fi_parent = FileId 1 2 0, fi_name = ''a''\<rparr>),
      (FileId 1 7 20, \<lparr>fi_parent = FileId 1 2 0, fi_name = ''b''\<rparr>)] =
     Some \<lparr>fi_parent = FileId 1 2 0, fi_name = ''b''\<rparr>"
proof -
  let ?v = "[(FileId 1 7 10, \<lparr>fi_parent = FileId 1 2 0, fi_name = ''a''\<rparr>),
      (FileId 1 7 20, \<lparr>fi_parent = FileId 1 2 0, fi_name = ''b''\<rparr>)]"
  have "map_ok ?v" by (simp add: map_ok_def less_file_id_def file_id_less_def)
  moreover have "latest_before ?v (FileId 1 7 30) (FileId 1 7 20)"
    by (simp add: latest_before_def same_inode_def less_file_id_def file_id_less_def less_eq_file_id_def)
  ultimately show ?thesis
    using viewer_find_correct [of ?v "FileId 1 7 30" "\<lparr>fi_parent = FileId 1 2 0, fi_name = ''b''\<rparr>"]
    by (auto simp: map_find_def)
qed

text \<open>
  Property C8. When a chain of parents leads from the directory of a file to a root (a directory
  that is its own parent or is called \<open>/\<close>), and the names on it are not empty and, apart from the
  root \<open>/\<close>, end in no slash, then the path of the file is the names from the root down and the
  name of the file, each after one slash. A directory or file that is not stored stands for the
  latest version of its inode before it. When the names of the directories have more than
  \<open>PATH_MAX\<close> characters, slashes and the name of the file not counted, the path is empty.
\<close>

theorem getFilePath_correct:
  assumes "map_ok v" "stored_info v i info" "ancestry v (fi_parent info) names"
    and "\<forall>n \<in> set names. n = ''/'' \<or> dir_name n"
  shows "getFilePath i v = Some
    (if names_length names \<le> PATH_MAX then slash_path (names @ [fi_name info]) else '''')"
proof -
  have find: "viewer_find i True v = Some info" using assms(1,2) by (simp add: viewer_find_stored_info)
  obtain r ns where names: "names = r # ns" "''/'' \<notin> set ns"
    using ancestry_names [OF assms(3)] by (cases names) auto
  then have ok: "r = ''/'' \<or> dir_name r" "\<forall>n \<in> set ns. dir_name n" using assms(4) by auto
  let ?dir = "join_names names"
  have path: "(if ?dir \<noteq> ''/'' then ?dir @ ''/'' else ?dir) @ fi_name info = slash_path (names @ [fi_name info])"
    "?dir \<noteq> ''''"
    using last_slash_path [OF ok] join_names_path [OF ok]
    by (auto simp: names slash_path_def dir_name_def)
  show ?thesis
  proof (cases "names_length names \<le> PATH_MAX")
    case True
    then have "getPath v (fi_parent info) 0 = Some (Inr (?dir, True))"
      using getPath_ancestry [OF assms(3,1), of 0] by simp
    then show ?thesis using True find path by (simp add: getFilePath_def getDirPath_def)
  next
    case False
    then obtain e where "getPath v (fi_parent info) 0 = Some (Inl e)"
      using getPath_too_long [OF assms(3,1), of 0] by auto
    then show ?thesis using False find by (simp add: getFilePath_def getDirPath_def)
  qed
qed

definition sample_viewer :: viewer where
  "sample_viewer =
     [(FileId 1 2 0, \<lparr>fi_parent = FileId 1 2 0, fi_name = ''/''\<rparr>),
      (FileId 1 3 0, \<lparr>fi_parent = FileId 1 2 0, fi_name = ''etc''\<rparr>),
      (FileId 1 4 0, \<lparr>fi_parent = FileId 1 3 0, fi_name = ''fstab''\<rparr>)]"

theorem getFilePath_correct_witness:
  "getFilePath (FileId 1 4 0) sample_viewer = Some ''/etc/fstab''"
proof -
  have find: "viewer_find (FileId 1 2 0) True sample_viewer = Some \<lparr>fi_parent = FileId 1 2 0, fi_name = ''/''\<rparr>"
    "viewer_find (FileId 1 3 0) True sample_viewer = Some \<lparr>fi_parent = FileId 1 2 0, fi_name = ''etc''\<rparr>"
    "viewer_find (FileId 1 4 0) True sample_viewer = Some \<lparr>fi_parent = FileId 1 3 0, fi_name = ''fstab''\<rparr>"
    by (simp_all add: sample_viewer_def viewer_find_def map_find_def)
  have ok: "map_ok sample_viewer"
    by (simp add: sample_viewer_def map_ok_def less_file_id_def file_id_less_def)
  note stored = find [unfolded viewer_find_stored_info [OF ok]]
  have "ancestry sample_viewer (FileId 1 2 0) [''/'']" using ancestry.root [OF stored(1)] by simp
  then have "ancestry sample_viewer (FileId 1 3 0) [''/'', ''etc'']"
    using ancestry.child [OF stored(2), of "[''/'']"] by simp
  from getFilePath_correct [OF ok stored(3), simplified, OF this] show ?thesis
    by (simp add: names_length_def PATH_MAX_def slash_path_def dir_name_def)
qed

text \<open>
  When no stored name is empty, the search for a path always returns, even when the
  links to the parents form a cycle: the limit on the length of the path ends the climb.
\<close>

theorem getFilePath_returns:
  assumes "map_ok v" "\<forall>info \<in> snd ` set v. fi_name info \<noteq> ''''"
  shows "\<exists>path. getFilePath i v = Some path"
  using assms by (rule getFilePath_total)

theorem getFilePath_returns_witness:
  "\<exists>path. getFilePath (FileId 1 3 0)
     [(FileId 1 2 0, \<lparr>fi_parent = FileId 1 3 0, fi_name = ''a''\<rparr>),
      (FileId 1 3 0, \<lparr>fi_parent = FileId 1 2 0, fi_name = ''b''\<rparr>)] = Some path"
  by (rule getFilePath_returns) (simp_all add: map_ok_def less_file_id_def file_id_less_def)

text \<open>
  The extension and the prefix of a file name take the name apart at its last dot: a
  name with a dot is the part before, a dot and the extension, which has none; a name without
  has no extension; and the prefix is the part before with its tail of non-letters cut off.
\<close>

theorem file_name_parts:
  assumes "viewer_find i True v = Some info"
  shows "\<exists>stem rest.
    (if CHR ''.'' \<in> set (fi_name info)
     then fi_name info = stem @ ''.'' @ getFileExtension i v \<and> CHR ''.'' \<notin> set (getFileExtension i v)
     else fi_name info = stem \<and> getFileExtension i v = '''') \<and>
    stem = getFileNamePrefix i v @ rest \<and> list_all (\<lambda>c. \<not> is_alpha c) rest \<and>
    (getFileNamePrefix i v = '''' \<or> is_alpha (last (getFileNamePrefix i v)))"
proof (cases "rfind (CHR ''.'') (fi_name info)")
  case None
  then show ?thesis
    using assms trim_non_alpha_spec [of "fi_name info"]
    by (auto simp: rfind_None_iff getFileExtension_def getFileNamePrefix_def list_all_iff
        rfind_None_iff [THEN iffD2])
next
  case (Some n)
  then have "CHR ''.'' \<in> set (fi_name info)" using rfind_None_iff [of "CHR ''.''" "fi_name info"] by auto
  then show ?thesis
    using assms Some rfind_SomeD [OF Some] trim_non_alpha_spec [of "take n (fi_name info)"]
    by (auto simp: getFileExtension_def getFileNamePrefix_def list_all_iff)
qed

theorem file_name_parts_witness:
  "\<exists>stem. ''fstab'' = stem \<and> getFileExtension (FileId 1 4 0) sample_viewer = ''''"
  using file_name_parts [of "FileId 1 4 0" sample_viewer "\<lparr>fi_parent = FileId 1 3 0, fi_name = ''fstab''\<rparr>"]
  by (simp add: sample_viewer_def viewer_find_def map_find_def)

text \<open>
  Processing a trace gives each file the last name the trace gives it, while replaying
  the extension that the same run wrote gives it the first: the two agree on a file exactly when
  its first and last names agree, so a rename or a move is lost on the second run.
\<close>

theorem tree_cache_keeps_first_names:
  "\<exists>t t'. tree_init None es True = Inr t \<and> tree_init (Some (ft_written t)) es True = Inr t' \<and>
     tree_lookup t = map_of (rev (file_names es)) \<and>
     tree_lookup t' = map_of (file_names es)"
proof -
  obtain t evs where t: "tree_run es (fs_tree_new True) = Inr t" "ft_written t = evs"
    "tree_lookup t = map_of (rev (file_names es))"
    "\<And>i. map_of (rev (file_names (map FilesystemFileName evs))) i = map_of (file_names es) i"
    using tree_run_lookup [OF tree_new_ok(1) [of True], of es] by auto
  obtain t' where t': "tree_run (map FilesystemFileName evs) (fs_tree_new False) = Inr t'"
    "tree_lookup t' = map_of (rev (file_names (map FilesystemFileName evs)))"
    using tree_run_lookup [OF tree_new_ok(1) [of False], of "map FilesystemFileName evs"] by auto
  have "tree_lookup t' = map_of (file_names es)" using t'(2) t(4) by (simp add: fun_eq_iff)
  then show ?thesis using t t'(1) by (auto simp: tree_init_def)
qed

end
