(* ===== verification/Filesystem_Statistics.thy ===== *)
theory Filesystem_Statistics
  imports Io_Statistics File_System_Viewer "HOL-Library.Char_ord" "HOL-Library.List_Lexorder"
begin

section \<open>Statistics of a filesystem\<close>

text \<open>
  \<open>FilesystemStatistics\<close> (source/octf/analytics/statistics/FilesystemStatistics.cpp): a tree of
  IO statistics. Every node has a map from keys to children; below the root there is a child
  for each file name prefix and each file extension, and a chain of directory nodes for each
  path. A file event is counted at its directory, at its extension and at its prefix; a discard
  is counted at every node of its device.

  A C++ reference to a node is the path of keys from the root to it (\<open>at_path\<close> updates the node
  there). \<open>getStatisticsByIds\<close> climbs to the root of the filesystem by the parents the viewer
  knows, and does not return when they never end, so it and \<open>fs_count\<close> are partial: the value
  None is not returning.
\<close>

datatype stats_case = NAME_NOT_SET | kDirectory | kFileNamePrefix | kFileExtension

fun case_number :: "stats_case \<Rightarrow> nat" where
  "case_number NAME_NOT_SET = 0"
| "case_number kDirectory = 11"
| "case_number kFileNamePrefix = 12"
| "case_number kFileExtension = 13"

datatype fs_key = FsKey (fk_case: stats_case) (fk_name: string) (fk_devId: u64) (fk_partId: u64)

lemma case_number_inject [simp]: "case_number a = case_number b \<longleftrightarrow> a = b"
  by (cases a; cases b) simp_all

definition fs_key_less :: "fs_key \<Rightarrow> fs_key \<Rightarrow> bool" where
  "fs_key_less a b =
     (if fk_name a = fk_name b then
        if fk_devId a \<noteq> fk_devId b then fk_devId a < fk_devId b
        else if fk_partId a \<noteq> fk_partId b then fk_partId a < fk_partId b
        else case_number (fk_case a) < case_number (fk_case b)
      else fk_name a < fk_name b)"

instantiation fs_key :: linorder
begin

definition less_fs_key :: "fs_key \<Rightarrow> fs_key \<Rightarrow> bool" where
  "less_fs_key = fs_key_less"

definition less_eq_fs_key :: "fs_key \<Rightarrow> fs_key \<Rightarrow> bool" where
  "less_eq_fs_key a b \<longleftrightarrow> a < b \<or> a = b"

instance
proof
  fix x y z :: fs_key
  have total: "x < y \<or> x = y \<or> y < x"
    by (cases x; cases y) (auto simp: less_fs_key_def fs_key_less_def nat_neq_iff)
  show "x < y \<longleftrightarrow> x \<le> y \<and> \<not> y \<le> x"
    by (auto simp: less_fs_key_def fs_key_less_def less_eq_fs_key_def split: if_splits)
  show "x \<le> x" by (simp add: less_eq_fs_key_def)
  show "x \<le> y \<Longrightarrow> y \<le> z \<Longrightarrow> x \<le> z"
    by (auto simp: less_fs_key_def fs_key_less_def less_eq_fs_key_def split: if_splits)
  show "x \<le> y \<Longrightarrow> y \<le> x \<Longrightarrow> x = y"
    by (auto simp: less_fs_key_def fs_key_less_def less_eq_fs_key_def split: if_splits)
  show "x \<le> y \<or> y \<le> x" using total by (auto simp: less_eq_fs_key_def)
qed

end

datatype fs_stats = FsStats
  (fss_children: "(fs_key \<times> fs_stats) list")
  (fss_io: io_statistics)
  (fss_devId: u64)
  (fss_partId: u64)
  (fss_case: stats_case)

definition fs_stats_new :: "fs_stats res" where
  "fs_stats_new =
     and_then (io_statistics_new LBA_HIT_MAP_RANGE_SIZE_DEFAULT) (\<lambda>io.
     Inr (FsStats [] io 0 0 NAME_NOT_SET))"

fun at_path :: "fs_key list \<Rightarrow> (fs_stats \<Rightarrow> fs_stats res) \<Rightarrow> fs_stats \<Rightarrow> fs_stats res" where
  "at_path [] f t = f t"
| "at_path (k # p) f (FsStats ch io dev part c) =
     (case map_find ch k of
        None \<Rightarrow> Inl (Undefined_Behaviour ''dangling reference'')
      | Some t \<Rightarrow>
          and_then (at_path p f t) (\<lambda>t'. Inr (FsStats (map_put k t' ch) io dev part c)))"

definition updateIoStats :: "(rat \<Rightarrow> rat) \<Rightarrow> parsed_event \<Rightarrow> fs_stats \<Rightarrow> fs_stats res" where
  "updateIoStats rnd e t =
     and_then (io_count rnd e (fss_io t)) (\<lambda>io.
     Inr (FsStats (fss_children t) io (fss_devId t) (fss_partId t) (fss_case t)))"

text \<open>\<open>getStatisticsByKey\<close> makes sure the child is there; the reference to it is its key.\<close>

definition getStatisticsByKey :: "fs_key \<Rightarrow> fs_stats \<Rightarrow> fs_stats res" where
  "getStatisticsByKey key t =
     (case map_find (fss_children t) key of
        Some _ \<Rightarrow> Inr t
      | None \<Rightarrow>
          and_then fs_stats_new (\<lambda>n.
          let n' = FsStats (fss_children n) (fss_io n) (fk_devId key) (fk_partId key) (fk_case key)
          in Inr (FsStats (map_put key n' (fss_children t)) (fss_io t) (fss_devId t) (fss_partId t)
                    (fss_case t))))"

definition dir_key :: "viewer \<Rightarrow> u64 \<Rightarrow> file_id \<Rightarrow> fs_key" where
  "dir_key v devId dirId = FsKey kDirectory (getFileName dirId v) devId (fid_partitionId dirId)"

partial_function (option) getStatisticsByIds ::
    "viewer \<Rightarrow> file_id \<Rightarrow> u64 \<Rightarrow> fs_stats \<Rightarrow> (fs_stats \<times> fs_key list) res option" where
  "getStatisticsByIds v dirId devId this =
     (let parentId = getParentId dirId v
      in Option.bind
           (if parentId = dirId then Some (Inr (this, []))
            else getStatisticsByIds v parentId devId this)
           (\<lambda>r. Some (and_then r (\<lambda>(this, statistics).
             let key = dir_key v devId dirId
             in and_then (at_path statistics (getStatisticsByKey key) this) (\<lambda>this.
                Inr (this, statistics @ [key]))))))"

text \<open>The recursion of \<open>discard\<close> runs through the map of children in its order.\<close>

function (sequential) fs_discard :: "(rat \<Rightarrow> rat) \<Rightarrow> parsed_event \<Rightarrow> fs_stats \<Rightarrow> fs_stats res"
  and discard_children ::
    "(rat \<Rightarrow> rat) \<Rightarrow> parsed_event \<Rightarrow> (fs_key \<times> fs_stats) list \<Rightarrow> (fs_key \<times> fs_stats) list res" where
  "fs_discard rnd e (FsStats ch io dev part c) =
     and_then (if dev = pdev_id (pe_device e) then io_count rnd e io else Inr io) (\<lambda>io.
     and_then (discard_children rnd e ch) (\<lambda>ch.
     Inr (FsStats ch io dev part c)))"
| "discard_children rnd e [] = Inr []"
| "discard_children rnd e ((k, t) # ch) =
     and_then (fs_discard rnd e t) (\<lambda>t.
     and_then (discard_children rnd e ch) (\<lambda>ch. Inr ((k, t) # ch)))"
  by pat_completeness auto

termination
  by (relation "measure (\<lambda>x. case x of Inl (_, _, t) \<Rightarrow> size t
        | Inr (_, _, ch) \<Rightarrow> size_list (\<lambda>e. Suc (size (snd e))) ch)")
    (auto simp: size_prod_simp comp_def intro: le_imp_less_Suc)

text \<open>One of the two breakdowns by name, skipped for an empty name.\<close>

definition count_name ::
    "(rat \<Rightarrow> rat) \<Rightarrow> parsed_event \<Rightarrow> stats_case \<Rightarrow> string \<Rightarrow> fs_stats \<Rightarrow> fs_stats res" where
  "count_name rnd e c name this =
     (if name \<noteq> '''' then
        let key = FsKey c name (pdev_id (pe_device e)) (pdev_partition (pe_device e))
        in and_then (getStatisticsByKey key this) (at_path [key] (updateIoStats rnd e))
      else Inr this)"

definition is_discard :: "parsed_event \<Rightarrow> bool" where
  "is_discard e \<longleftrightarrow> pe_io e \<noteq> None \<and> pio_operation (the_io e) = Io_Discard"

definition fs_count ::
    "(rat \<Rightarrow> rat) \<Rightarrow> viewer \<Rightarrow> parsed_event \<Rightarrow> fs_stats \<Rightarrow> fs_stats res option" where
  "fs_count rnd v e this =
     (if is_discard e then Some (fs_discard rnd e this)
      else if pe_file e \<noteq> None then
        let fid = file_id_of_parsed e
        in Option.bind (getStatisticsByIds v (getParentId fid v) (pdev_id (pe_device e)) this) (\<lambda>r.
           Some (and_then r (\<lambda>(this, statistics).
             and_then (at_path statistics (updateIoStats rnd e) this) (\<lambda>this.
             and_then (count_name rnd e kFileExtension (getFileExtension fid v) this)
               (count_name rnd e kFileNamePrefix (getFileNamePrefix fid v))))))
      else Some (Inr this))"

subsection \<open>Nodes of the tree\<close>

fun node_at :: "fs_key list \<Rightarrow> fs_stats \<Rightarrow> fs_stats option" where
  "node_at [] t = Some t"
| "node_at (k # p) t = (case map_find (fss_children t) k of None \<Rightarrow> None | Some c \<Rightarrow> node_at p c)"

text \<open>What a node holds beside its children.\<close>

definition node_info :: "fs_stats \<Rightarrow> io_statistics \<times> u64 \<times> u64 \<times> stats_case" where
  "node_info t = (fss_io t, fss_devId t, fss_partId t, fss_case t)"

definition info_at :: "fs_key list \<Rightarrow> fs_stats \<Rightarrow> (io_statistics \<times> u64 \<times> u64 \<times> stats_case) option" where
  "info_at p t = map_option node_info (node_at p t)"

definition nodes_ok :: "fs_stats \<Rightarrow> bool" where
  "nodes_ok t \<longleftrightarrow> (\<forall>p n. node_at p t = Some n \<longrightarrow> map_ok (fss_children n))"

text \<open>The statistics kept at a path; those of a fresh object where there is no node.\<close>

definition io_at :: "fs_key list \<Rightarrow> fs_stats \<Rightarrow> io_statistics res" where
  "io_at p t =
     (case info_at p t of
        None \<Rightarrow> io_statistics_new LBA_HIT_MAP_RANGE_SIZE_DEFAULT
      | Some (io, _) \<Rightarrow> Inr io)"

definition fresh_node :: "fs_key \<Rightarrow> (io_statistics \<times> u64 \<times> u64 \<times> stats_case) option" where
  "fresh_node k =
     (case io_statistics_new LBA_HIT_MAP_RANGE_SIZE_DEFAULT of
        Inl _ \<Rightarrow> None
      | Inr io \<Rightarrow> Some (io, fk_devId k, fk_partId k, fk_case k))"

lemma io_new_total: "\<exists>st. io_statistics_new rs = Inr st"
  by (simp add: io_statistics_new_def stats_new_def distribution_new_def)

lemma info_at_Nil [simp]: "info_at [] t = Some (node_info t)"
  by (simp add: info_at_def)

lemma info_at_Cons [simp]:
  "info_at (k # p) t =
     (case map_find (fss_children t) k of None \<Rightarrow> None | Some c \<Rightarrow> info_at p c)"
  by (simp add: info_at_def split: option.split)

lemma info_at_None_iff: "info_at p t = None \<longleftrightarrow> node_at p t = None"
  by (simp add: info_at_def)

lemma node_at_append: "node_at (p @ q) t = Option.bind (node_at p t) (node_at q)"
  by (induction p arbitrary: t) (auto split: option.split)

lemma nodes_okD: "nodes_ok t \<Longrightarrow> map_ok (fss_children t)"
  using node_at.simps(1) unfolding nodes_ok_def by blast

lemma nodes_ok_child: "nodes_ok t \<Longrightarrow> map_find (fss_children t) k = Some c \<Longrightarrow> nodes_ok c"
  unfolding nodes_ok_def
proof (intro allI impI)
  fix p n
  assume *: "\<forall>p n. node_at p t = Some n \<longrightarrow> map_ok (fss_children n)"
    "map_find (fss_children t) k = Some c" "node_at p c = Some n"
  then have "node_at (k # p) t = Some n" by simp
  with * show "map_ok (fss_children n)" by blast
qed

lemma nodes_ok_at: "nodes_ok t \<Longrightarrow> node_at p t = Some n \<Longrightarrow> nodes_ok n"
  by (induction p arbitrary: t) (auto split: option.splits dest: nodes_ok_child)

lemma nodes_okI:
  assumes "map_ok (fss_children t)"
    and "\<And>k c. map_find (fss_children t) k = Some c \<Longrightarrow> nodes_ok c"
  shows "nodes_ok t"
  unfolding nodes_ok_def
proof (intro allI impI)
  fix p n assume n: "node_at p t = Some n"
  show "map_ok (fss_children n)"
  proof (cases p)
    case Nil with n assms(1) show ?thesis by simp
  next
    case (Cons k q)
    with n obtain c where "map_find (fss_children t) k = Some c" "node_at q c = Some n"
      by (auto split: option.splits)
    with assms(2) show ?thesis by (auto simp: nodes_ok_def)
  qed
qed

lemma fss_children_put:
  "at_path (k # p) f t =
     (case map_find (fss_children t) k of
        None \<Rightarrow> Inl (Undefined_Behaviour ''dangling reference'')
      | Some c \<Rightarrow> and_then (at_path p f c) (\<lambda>c'. Inr (FsStats (map_put k c' (fss_children t))
          (fss_io t) (fss_devId t) (fss_partId t) (fss_case t))))"
  by (cases t) (simp split: option.split)

text \<open>The law of an update through a reference, for any update of the node.\<close>

lemma at_path_info:
  assumes "nodes_ok t" "at_path p f t = Inr t'"
    and f: "\<forall>n n'. nodes_ok n \<longrightarrow> f n = Inr n' \<longrightarrow> nodes_ok n'"
  shows "nodes_ok t' \<and> (\<exists>n n'. node_at p t = Some n \<and> f n = Inr n' \<and> nodes_ok n \<and> nodes_ok n' \<and>
    (\<forall>q. info_at q t' = (if take (length p) q = p then info_at (drop (length p) q) n'
                         else info_at q t)))"
  using assms(1,2)
proof (induction p arbitrary: t t')
  case Nil
  then show ?case using f by auto
next
  case (Cons k p)
  then obtain c c' where c: "map_find (fss_children t) k = Some c" "at_path p f c = Inr c'"
    and t': "t' = FsStats (map_put k c' (fss_children t)) (fss_io t) (fss_devId t) (fss_partId t) (fss_case t)"
    by (auto simp: fss_children_put and_then_Inr_iff split: option.splits)
  have okc: "nodes_ok c" using nodes_ok_child [OF Cons.prems(1) c(1)] .
  note okm = nodes_okD [OF Cons.prems(1)]
  from Cons.IH [OF okc c(2)] obtain n n' where IH: "nodes_ok c'" "node_at p c = Some n" "f n = Inr n'"
    "nodes_ok n" "nodes_ok n'"
    "\<forall>q. info_at q c' = (if take (length p) q = p then info_at (drop (length p) q) n' else info_at q c)"
    by blast
  have ok': "nodes_ok t'"
    by (rule nodes_okI) (auto simp: t' sm.ok_put okm sm.find_put IH(1) split: if_splits
        intro: nodes_ok_child [OF Cons.prems(1)])
  have "info_at q t' = (if take (length (k # p)) q = k # p
      then info_at (drop (length (k # p)) q) n' else info_at q t)" for q
  proof (cases q)
    case Nil
    then show ?thesis by (simp add: t' node_info_def)
  next
    case (Cons j r)
    then show ?thesis using IH(6) c(1) by (auto simp: t' sm.find_put [OF okm])
  qed
  with IH ok' c(1) show ?case by auto
qed

lemma at_path_total:
  "node_at p t = Some n \<Longrightarrow> f n = Inr n' \<Longrightarrow> \<exists>t'. at_path p f t = Inr t'"
proof (induction p arbitrary: t)
  case (Cons k p)
  then obtain c where c: "map_find (fss_children t) k = Some c" "node_at p c = Some n"
    by (auto split: option.splits)
  with Cons.IH [OF c(2)] Cons.prems(2) obtain c' where "at_path p f c = Inr c'" by blast
  with c(1) show ?case by (simp add: fss_children_put)
qed simp

lemma getStatisticsByKey_info:
  assumes "nodes_ok t"
  shows "\<exists>t'. getStatisticsByKey k t = Inr t' \<and> nodes_ok t' \<and> node_at [k] t' \<noteq> None \<and>
    (\<forall>q. info_at q t' = (if q = [k] \<and> info_at q t = None then fresh_node k else info_at q t))"
proof (cases "map_find (fss_children t) k")
  case (Some c)
  then show ?thesis using assms by (auto simp: getStatisticsByKey_def)
next
  case None
  note okm = nodes_okD [OF assms]
  obtain io where io: "io_statistics_new LBA_HIT_MAP_RANGE_SIZE_DEFAULT = Inr io"
    using io_new_total by blast
  let ?n = "FsStats [] io (fk_devId k) (fk_partId k) (fk_case k)"
  let ?t = "FsStats (map_put k ?n (fss_children t)) (fss_io t) (fss_devId t) (fss_partId t) (fss_case t)"
  have n: "nodes_ok ?n" by (rule nodes_okI) simp_all
  have "getStatisticsByKey k t = Inr ?t"
    using None io by (simp add: getStatisticsByKey_def fs_stats_new_def)
  moreover have "nodes_ok ?t"
    by (rule nodes_okI)
      (auto simp: sm.ok_put okm sm.find_put n split: if_splits intro: nodes_ok_child [OF assms])
  moreover have "info_at q ?t = (if q = [k] \<and> info_at q t = None then fresh_node k else info_at q t)" for q
    by (cases q; cases "tl q")
      (use None io in \<open>auto simp: sm.find_put [OF okm] fresh_node_def node_info_def\<close>)
  ultimately show ?thesis by (auto simp: sm.find_put [OF okm])
qed

subsection \<open>Ancestries\<close>

text \<open>
  \<open>dir_ancestry v devId d p\<close>: the parents of the directory \<open>d\<close> end, in one that is its own parent,
  and \<open>p\<close> are the keys of all of them, the last parent first.
\<close>

inductive dir_ancestry :: "viewer \<Rightarrow> u64 \<Rightarrow> file_id \<Rightarrow> fs_key list \<Rightarrow> bool" for v devId where
  top: "getParentId d v = d \<Longrightarrow> dir_ancestry v devId d [dir_key v devId d]"
| up: "getParentId d v \<noteq> d \<Longrightarrow> dir_ancestry v devId (getParentId d v) p \<Longrightarrow>
       dir_ancestry v devId d (p @ [dir_key v devId d])"

inductive_cases dir_ancestry_E: "dir_ancestry v devId d p"

lemma dir_ancestry_unique: "dir_ancestry v devId d p \<Longrightarrow> dir_ancestry v devId d q \<Longrightarrow> q = p"
proof (induction arbitrary: q rule: dir_ancestry.induct)
  case (top d)
  from top.prems show ?case
  proof (cases rule: dir_ancestry.cases)
    case (up q')
    then show ?thesis using top.hyps by blast
  qed
next
  case (up d p)
  from up.prems show ?case
  proof (cases rule: dir_ancestry.cases)
    case top
    then show ?thesis using up.hyps(1) by blast
  next
    case (up q')
    then show ?thesis using "up.IH" by blast
  qed
qed

lemma dir_ancestry_dirs: "dir_ancestry v devId d p \<Longrightarrow> p \<noteq> [] \<and> (\<forall>k \<in> set p. fk_case k = kDirectory)"
  by (induction rule: dir_ancestry.induct) (auto simp: dir_key_def)

lemma getStatisticsByIds_ancestry:
  assumes "getStatisticsByIds v d devId t = Some r"
  shows "\<exists>p. dir_ancestry v devId d p"
  using assms
proof (induction v d devId t r rule: getStatisticsByIds.raw_induct [rotated, consumes 1])
  case (1 rec v d devId t r)
  show ?case
  proof (cases "getParentId d v = d")
    case True
    then show ?thesis by (blast intro: dir_ancestry.top)
  next
    case False
    with 1(2) obtain r' where "rec v (getParentId d v) devId t = Some r'"
      by (auto simp: Let_def bind_eq_Some_conv)
    from 1(1) [OF this] obtain p where "dir_ancestry v devId (getParentId d v) p" by blast
    with False show ?thesis by (blast intro: dir_ancestry.up)
  qed
qed

text \<open>What \<open>getStatisticsByIds\<close> adds: fresh nodes at the paths of an dir_ancestry that are missing.\<close>

definition grown :: "fs_key list \<Rightarrow> fs_stats \<Rightarrow> fs_stats \<Rightarrow> bool" where
  "grown p t t' \<longleftrightarrow> nodes_ok t' \<and> node_at p t' \<noteq> None \<and>
     (\<forall>q. info_at q t' =
        (if q \<noteq> [] \<and> take (length q) p = q \<and> info_at q t = None then fresh_node (last q)
         else info_at q t))"

lemma info_prefix: "info_at (p @ q) t \<noteq> None \<Longrightarrow> info_at p t \<noteq> None"
  by (auto simp: info_at_def node_at_append bind_eq_Some_conv)

lemma grown_extend:
  assumes "grown p t t1" "at_path p (getStatisticsByKey k) t1 = Inr t2"
  shows "grown (p @ [k]) t t2"
proof -
  have ok: "nodes_ok t1" using assms(1) by (simp add: grown_def)
  have f: "\<forall>n n'. nodes_ok n \<longrightarrow> getStatisticsByKey k n = Inr n' \<longrightarrow> nodes_ok n'"
    using getStatisticsByKey_info [where k = k] by fastforce
  obtain n n' where
    n: "nodes_ok t2" "node_at p t1 = Some n" "getStatisticsByKey k n = Inr n'" "nodes_ok n" and
    q: "\<And>q. info_at q t2 = (if take (length p) q = p then info_at (drop (length p) q) n' else info_at q t1)"
    using at_path_info [OF ok assms(2) f] by blast
  from getStatisticsByKey_info [OF n(4), of k] n(3)
  have n': "node_at [k] n' \<noteq> None" and
    nq: "\<And>q. info_at q n' = (if q = [k] \<and> info_at q n = None then fresh_node k else info_at q n)"
    by auto
  have at: "info_at (p @ r) t1 = info_at r n" for r
    using n(2) by (simp add: info_at_def node_at_append)
  have t2: "info_at q t2 = (if q = p @ [k] \<and> info_at q t1 = None then fresh_node k else info_at q t1)" for q
  proof (cases "take (length p) q = p")
    case True
    then have "q = p @ drop (length p) q" by (metis append_take_drop_id)
    then show ?thesis using at [of "drop (length p) q"] nq [of "drop (length p) q"] q [of q] True
      by (metis append_same_eq same_append_eq)
  next
    case False
    then show ?thesis using q [of q] by auto
  qed
  have "node_at (p @ [k]) t2 \<noteq> None"
  proof -
    have "info_at (p @ [k]) t2 = info_at [k] n'" using q [of "p @ [k]"] by simp
    with n' show ?thesis by (metis info_at_None_iff)
  qed
  moreover have "info_at q t2 = (if q \<noteq> [] \<and> take (length q) (p @ [k]) = q \<and> info_at q t = None
      then fresh_node (last q) else info_at q t)" for q
  proof (cases "q = p @ [k]")
    case True
    have "info_at (p @ [k]) t1 = info_at (p @ [k]) t" using assms(1) by (simp add: grown_def)
    with True t2 [of q] show ?thesis by simp
  next
    case False
    have "(take (length q) (p @ [k]) = q) = (take (length q) p = q)"
      using False by (cases "length q \<le> length p") (auto simp: not_le)
    with False t2 [of q] assms(1) show ?thesis by (simp add: grown_def)
  qed
  ultimately show ?thesis using n(1) by (simp add: grown_def)
qed

lemma getStatisticsByIds_result:
  "dir_ancestry v devId d p \<Longrightarrow> nodes_ok t \<Longrightarrow>
     \<exists>t'. getStatisticsByIds v d devId t = Some (Inr (t', p)) \<and> grown p t t'"
proof (induction arbitrary: t rule: dir_ancestry.induct)
  case (top d)
  let ?k = "dir_key v devId d"
  obtain t' where t': "getStatisticsByKey ?k t = Inr t'" "nodes_ok t'" "node_at [?k] t' \<noteq> None"
    and q: "\<And>q. info_at q t' = (if q = [?k] \<and> info_at q t = None then fresh_node ?k else info_at q t)"
    using getStatisticsByKey_info [OF top.prems, of ?k] by blast
  have "q \<noteq> [] \<and> take (length q) [?k] = q \<longleftrightarrow> q = [?k]" for q
    by (cases q) auto
  with t' q have "grown [?k] t t'" by (auto simp: grown_def)
  with t'(1) top.hyps show ?case
    by (subst getStatisticsByIds.simps) (simp add: Let_def)
next
  case (up d p)
  let ?k = "dir_key v devId d"
  from up.IH [OF up.prems] obtain t1 where
    t1: "getStatisticsByIds v (getParentId d v) devId t = Some (Inr (t1, p))" "grown p t t1" by blast
  then obtain n where n: "node_at p t1 = Some n" "nodes_ok t1" by (auto simp: grown_def)
  from nodes_ok_at [OF n(2,1)]
  have "nodes_ok n" .
  from getStatisticsByKey_info [OF this, of ?k] obtain n' where "getStatisticsByKey ?k n = Inr n'" by blast
  with n(1) obtain t2 where t2: "at_path p (getStatisticsByKey ?k) t1 = Inr t2"
    using at_path_total by blast
  with grown_extend [OF t1(2) t2] t1(1) up.hyps(1) show ?case
    by (subst getStatisticsByIds.simps) (simp add: Let_def)
qed

subsection \<open>Where an event is counted\<close>

lemma io_at_fresh: "info_at q t' = fresh_node k \<Longrightarrow> info_at q t = None \<Longrightarrow> io_at q t' = io_at q t"
  using io_new_total [of LBA_HIT_MAP_RANGE_SIZE_DEFAULT]
  by (auto simp: io_at_def fresh_node_def split: sum.split)

lemma io_at_cong: "info_at q t' = info_at q t \<Longrightarrow> io_at q t' = io_at q t"
  by (simp add: io_at_def)

lemma grown_io_at: "grown p t t' \<Longrightarrow> io_at q t' = io_at q t"
  unfolding grown_def by (metis io_at_fresh io_at_cong)

lemma getStatisticsByKey_io_at:
  assumes "nodes_ok t" "getStatisticsByKey k t = Inr t'"
  shows "nodes_ok t'" "io_at q t' = io_at q t" "node_at [k] t' \<noteq> None"
proof -
  have *: "nodes_ok t'" "node_at [k] t' \<noteq> None"
    "\<forall>q. info_at q t' = (if q = [k] \<and> info_at q t = None then fresh_node k else info_at q t)"
    using getStatisticsByKey_info [OF assms(1), of k] assms(2) by auto
  show "nodes_ok t'" "node_at [k] t' \<noteq> None" using * by auto
  show "io_at q t' = io_at q t"
    using *(3) by (metis io_at_fresh io_at_cong)
qed

lemma updateIoStats_ok:
  assumes "nodes_ok n" "updateIoStats rnd e n = Inr n'"
  shows "nodes_ok n' \<and> (\<forall>r. r = [] \<or> info_at r n' = info_at r n) \<and>
    io_count rnd e (fss_io n) = Inr (fss_io n') \<and> fss_devId n' = fss_devId n \<and>
    fss_partId n' = fss_partId n \<and> fss_case n' = fss_case n"
proof -
  obtain io where io: "io_count rnd e (fss_io n) = Inr io"
    "n' = FsStats (fss_children n) io (fss_devId n) (fss_partId n) (fss_case n)"
    using assms(2) by (auto simp: updateIoStats_def and_then_Inr_iff)
  have "nodes_ok n'"
    by (rule nodes_okI) (use io(2) assms(1) in \<open>auto intro: nodes_ok_child nodes_okD\<close>)
  moreover have "r = [] \<or> info_at r n' = info_at r n" for r by (cases r) (simp_all add: io(2))
  ultimately show ?thesis using io by simp
qed

lemma update_io_at:
  assumes "nodes_ok t" "at_path p (updateIoStats rnd e) t = Inr t'"
  shows "nodes_ok t'"
    and "io_at q t' = (if q = p then and_then (io_at p t) (io_count rnd e) else io_at q t)"
proof -
  have f: "\<forall>n n'. nodes_ok n \<longrightarrow> updateIoStats rnd e n = Inr n' \<longrightarrow> nodes_ok n'"
    using updateIoStats_ok by blast
  obtain n n' where n: "node_at p t = Some n" "updateIoStats rnd e n = Inr n'" "nodes_ok n" "nodes_ok t'"
    and q: "\<And>q. info_at q t' = (if take (length p) q = p then info_at (drop (length p) q) n'
                         else info_at q t)"
    using at_path_info [OF assms f] by blast
  note u = updateIoStats_ok [OF n(3,2)]
  show "nodes_ok t'" by (rule n(4))
  show "io_at q t' = (if q = p then and_then (io_at p t) (io_count rnd e) else io_at q t)"
  proof (cases "q = p")
    case True
    have "info_at p t' = Some (node_info n')" using q [of p] by simp
    moreover have "info_at p t = Some (node_info n)" using n(1) by (simp add: info_at_def)
    ultimately show ?thesis using u True by (simp add: io_at_def node_info_def)
  next
    case False
    have "info_at q t' = info_at q t"
    proof (cases "take (length p) q = p")
      case True
      then have q': "q = p @ drop (length p) q" by (metis append_take_drop_id)
      with False have "drop (length p) q \<noteq> []" by force
      with u have "info_at (drop (length p) q) n' = info_at (drop (length p) q) n" by blast
      also have "\<dots> = info_at (p @ drop (length p) q) t"
        using n(1) by (simp add: info_at_def node_at_append)
      finally show ?thesis using q [of q] True q' by simp
    qed (simp add: q)
    then have "io_at q t' = io_at q t" by (rule io_at_cong)
    with False show ?thesis by simp
  qed
qed

lemma count_name_io_at:
  assumes "nodes_ok t" "count_name rnd e c name t = Inr t'"
  shows "nodes_ok t'"
    and "io_at q t' =
      (if name \<noteq> '''' \<and> q = [FsKey c name (pdev_id (pe_device e)) (pdev_partition (pe_device e))]
       then and_then (io_at q t) (io_count rnd e) else io_at q t)"
proof -
  let ?k = "FsKey c name (pdev_id (pe_device e)) (pdev_partition (pe_device e))"
  have "nodes_ok t' \<and> io_at q t' = (if name \<noteq> '''' \<and> q = [?k]
      then and_then (io_at q t) (io_count rnd e) else io_at q t)"
  proof (cases "name = ''''")
    case True
    then show ?thesis using assms by (simp add: count_name_def)
  next
    case False
    then obtain t1 where t1: "getStatisticsByKey ?k t = Inr t1" "at_path [?k] (updateIoStats rnd e) t1 = Inr t'"
      using assms(2) by (auto simp: count_name_def Let_def and_then_Inr_iff simp del: at_path.simps)
    note g = getStatisticsByKey_io_at [OF assms(1) t1(1)]
    show ?thesis using update_io_at(1) [OF g(1) t1(2)] update_io_at(2) [OF g(1) t1(2), where q = q]
        False by (simp add: g(2))
  qed
  then show "nodes_ok t'" "io_at q t' = (if name \<noteq> '''' \<and> q = [?k]
      then and_then (io_at q t) (io_count rnd e) else io_at q t)" by auto
qed

text \<open>
  The nodes an event is counted at: the directory of its file with the path of its ancestry, and
  the nodes of its extension and of its prefix.
\<close>

definition counts_at :: "viewer \<Rightarrow> parsed_event \<Rightarrow> fs_key list \<Rightarrow> bool" where
  "counts_at v e p \<longleftrightarrow> pe_file e \<noteq> None \<and>
     (let fid = file_id_of_parsed e; dev = pdev_id (pe_device e); part = pdev_partition (pe_device e);
          ext = getFileExtension fid v; prefix = getFileNamePrefix fid v
      in dir_ancestry v dev (getParentId fid v) p \<or>
         ext \<noteq> '''' \<and> p = [FsKey kFileExtension ext dev part] \<or>
         prefix \<noteq> '''' \<and> p = [FsKey kFileNamePrefix prefix dev part])"

lemma fs_count_step:
  assumes "nodes_ok t" "\<not> is_discard e" "fs_count rnd v e t = Some (Inr t')"
  shows "nodes_ok t'"
    and "io_at p t' = (if counts_at v e p then and_then (io_at p t) (io_count rnd e) else io_at p t)"
proof -
  let ?fid = "file_id_of_parsed e" and ?dev = "pdev_id (pe_device e)"
  have "nodes_ok t' \<and> io_at p t' =
    (if counts_at v e p then and_then (io_at p t) (io_count rnd e) else io_at p t)"
  proof (cases "pe_file e")
    case None
    then show ?thesis using assms by (simp add: fs_count_def counts_at_def)
  next
    case (Some f)
    obtain r where r: "getStatisticsByIds v (getParentId ?fid v) ?dev t = Some r"
      using assms Some by (auto simp: fs_count_def Let_def bind_eq_Some_conv)
    then obtain d where d: "dir_ancestry v ?dev (getParentId ?fid v) d"
      using getStatisticsByIds_ancestry by blast
    obtain t1 where t1: "r = Inr (t1, d)" "grown d t t1"
      using getStatisticsByIds_result [OF d assms(1)] r by auto
    obtain t2 t3 where t2: "at_path d (updateIoStats rnd e) t1 = Inr t2"
      and t3: "count_name rnd e kFileExtension (getFileExtension ?fid v) t2 = Inr t3"
        "count_name rnd e kFileNamePrefix (getFileNamePrefix ?fid v) t3 = Inr t'"
      using assms(2,3) Some r t1(1) by (auto simp: fs_count_def Let_def and_then_Inr_iff)
    have ok1: "nodes_ok t1" using t1(2) by (simp add: grown_def)
    note s2 = update_io_at [OF ok1 t2]
    note s3 = count_name_io_at [OF s2(1) t3(1)]
    note s4 = count_name_io_at [OF s3(1) t3(2)]
    have "dir_ancestry v ?dev (getParentId ?fid v) p \<longleftrightarrow> p = d"
      using d dir_ancestry_unique by blast
    moreover have "\<forall>k \<in> set d. fk_case k = kDirectory" using dir_ancestry_dirs [OF d] by blast
    ultimately show ?thesis
      using s4(1) s4(2) [where q = p] s3(2) [where q = p] s2(2) [where q = p]
        grown_io_at [OF t1(2), where q = p] Some
      by (auto simp: counts_at_def Let_def)
  qed
  then show "nodes_ok t'" "io_at p t' =
    (if counts_at v e p then and_then (io_at p t) (io_count rnd e) else io_at p t)" by auto
qed

text \<open>A history of events, each with the viewer it is counted with.\<close>

fun fs_count_all ::
    "(rat \<Rightarrow> rat) \<Rightarrow> (viewer \<times> parsed_event) list \<Rightarrow> fs_stats \<Rightarrow> fs_stats res option" where
  "fs_count_all rnd [] t = Some (Inr t)"
| "fs_count_all rnd ((v, e) # es) t =
     Option.bind (fs_count rnd v e t) (\<lambda>r. case r of Inl x \<Rightarrow> Some (Inl x) | Inr t \<Rightarrow> fs_count_all rnd es t)"

lemma fs_count_all_result:
  "nodes_ok t \<Longrightarrow> list_all (\<lambda>(v, e). \<not> is_discard e) ves \<Longrightarrow> fs_count_all rnd ves t = Some (Inr t') \<Longrightarrow>
     nodes_ok t' \<and> io_at p t' =
       and_then (io_at p t) (io_count_all rnd (map snd (filter (\<lambda>(v, e). counts_at v e p) ves)))"
proof (induction ves arbitrary: t)
  case Nil
  then show ?case by (cases "io_at p t") auto
next
  case (Cons ve ves)
  obtain v e where ve: "ve = (v, e)" by force
  obtain t1 where t1: "fs_count rnd v e t = Some (Inr t1)" "fs_count_all rnd ves t1 = Some (Inr t')"
    using Cons.prems(3) by (cases "fs_count rnd v e t"; cases "the (fs_count rnd v e t)") (auto simp: ve)
  have nd: "\<not> is_discard e" using Cons.prems(2) by (simp add: ve)
  note s = fs_count_step [OF Cons.prems(1) nd t1(1)]
  have "list_all (\<lambda>(v, e). \<not> is_discard e) ves" using Cons.prems(2) by simp
  from Cons.IH [OF s(1) this t1(2)] s(2) [of p] show ?case
    by (cases "io_at p t") (auto simp: ve)
qed

lemma fs_stats_new_ok:
  "\<exists>t. fs_stats_new = Inr t \<and> nodes_ok t \<and> fss_children t = [] \<and>
     io_at p t = io_statistics_new LBA_HIT_MAP_RANGE_SIZE_DEFAULT"
proof -
  obtain io where "io_statistics_new LBA_HIT_MAP_RANGE_SIZE_DEFAULT = Inr io"
    using io_new_total by blast
  moreover have "nodes_ok (FsStats [] io 0 0 NAME_NOT_SET)" by (rule nodes_okI) simp_all
  ultimately show ?thesis
    by (cases p) (simp_all add: fs_stats_new_def io_at_def node_info_def)
qed

lemma fs_stats_newD:
  "fs_stats_new = Inr t \<Longrightarrow> nodes_ok t \<and> fss_children t = [] \<and>
     io_at p t = io_statistics_new LBA_HIT_MAP_RANGE_SIZE_DEFAULT"
  using fs_stats_new_ok [of p] by (metis Inr_inject)

subsection \<open>Discards\<close>

definition discarded :: "(rat \<Rightarrow> rat) \<Rightarrow> parsed_event \<Rightarrow> fs_stats \<Rightarrow> fs_stats \<Rightarrow> bool" where
  "discarded rnd e n n' \<longleftrightarrow>
     fss_devId n' = fss_devId n \<and> fss_partId n' = fss_partId n \<and> fss_case n' = fss_case n \<and>
     (if fss_devId n = pdev_id (pe_device e) then io_count rnd e (fss_io n) = Inr (fss_io n')
      else fss_io n' = fss_io n)"

text \<open>The two trees have the same nodes, and each is discarded into its counterpart.\<close>

definition discard_spec :: "(rat \<Rightarrow> rat) \<Rightarrow> parsed_event \<Rightarrow> fs_stats \<Rightarrow> fs_stats \<Rightarrow> bool" where
  "discard_spec rnd e t t' \<longleftrightarrow>
     (\<forall>p. rel_option (discarded rnd e) (node_at p t) (node_at p t'))"

lemma fs_discard_node:
  assumes "fs_discard rnd e t = Inr t'"
  shows "discarded rnd e t t' \<and> discard_children rnd e (fss_children t) = Inr (fss_children t')"
  using assms by (cases t) (auto simp: discarded_def and_then_Inr_iff split: if_splits)

lemma discard_children_keys:
  "discard_children rnd e ch = Inr ch' \<Longrightarrow> map fst ch' = map fst ch"
  by (induction ch arbitrary: ch') (auto simp: and_then_Inr_iff)

lemma discard_children_find:
  "discard_children rnd e ch = Inr ch' \<Longrightarrow>
     rel_option (\<lambda>t t'. fs_discard rnd e t = Inr t') (map_find ch k) (map_find ch' k)"
  by (induction ch arbitrary: ch') (auto simp: and_then_Inr_iff map_find_def)

lemma fs_discard_spec:
  assumes "fs_discard rnd e t = Inr t'"
  shows "discard_spec rnd e t t'"
proof -
  have "fs_discard rnd e t = Inr t' \<Longrightarrow> rel_option (discarded rnd e) (node_at p t) (node_at p t')" for p
  proof (induction p arbitrary: t t')
    case Nil
    then show ?case using fs_discard_node by auto
  next
    case (Cons k p)
    then have "discard_children rnd e (fss_children t) = Inr (fss_children t')"
      using fs_discard_node by blast
    from discard_children_find [OF this, of k] Cons.IH show ?case
      by (cases rule: option.rel_cases) auto
  qed
  with assms show ?thesis by (simp add: discard_spec_def)
qed

subsection \<open>The report\<close>

record fs_entry =
  fe_deviceId :: u64
  fe_partitionId :: u64
  fe_name :: "(stats_case \<times> string) option"
  fe_statistics :: io_report

definition stat_values_default :: stat_values where
  "stat_values_default =
     \<lparr>sv_unit = '''', sv_average = 0, sv_min = 0, sv_max = 0, sv_total = 0, sv_percentiles = []\<rparr>"

definition entry_default :: io_statistics_entry where
  "entry_default = \<lparr>ise_size = stat_values_default, ise_latency = stat_values_default,
     ise_count = 0, ise_metrics = [], ise_errors = 0\<rparr>"

definition WIF_METRIC_NAME :: string where
  "WIF_METRIC_NAME = ''write invalidation factor''"

text \<open>The value of a metric; an absent one is created with value 0.\<close>

definition metric_value :: "(string \<times> stats_metric) list \<Rightarrow> string \<Rightarrow> rat" where
  "metric_value m k = (case map_of m k of None \<Rightarrow> 0 | Some x \<Rightarrow> sm_value x)"

definition trim_entry :: "io_statistics_entry \<Rightarrow> io_statistics_entry" where
  "trim_entry x =
     x\<lparr>ise_latency := stat_values_default, ise_size := (ise_size x)\<lparr>sv_percentiles := []\<rparr>\<rparr>"

definition fillProtoStatisticsEntry :: "(rat \<Rightarrow> rat) \<Rightarrow> string \<Rightarrow> fs_stats \<Rightarrow> fs_entry res" where
  "fillProtoStatisticsEntry rnd name t =
     (let r = getIoStatistics rnd (fss_io t);
          pStats = r\<lparr>ir_flush := entry_default, ir_discard := entry_default,
            ir_read := trim_entry (ir_read r), ir_write := trim_entry (ir_write r),
            ir_total := trim_entry (ir_total r)\<rparr>;
          workset = metric_value (ise_metrics (ir_write pStats)) ''workset'';
          written = double_of_u64 rnd (sv_total (ise_size (ir_write pStats)) +
            sv_total (ise_size (ir_discard pStats)));
          wif = (if workset \<noteq> 0 then rnd (written / workset) else 0);
          pStats' = pStats\<lparr>ir_write := (ir_write pStats)\<lparr>ise_metrics :=
            ise_metrics (ir_write pStats) @
            [(WIF_METRIC_NAME, \<lparr>sm_unit = '''', sm_value = wif\<rparr>)]\<rparr>\<rparr>
      in if fss_case t = NAME_NOT_SET then Inl (Octf_Exception ''Invalid statistics case'')
         else Inr \<lparr>fe_deviceId = fss_devId t, fe_partitionId = fss_partId t,
                   fe_name = Some (fss_case t, name), fe_statistics = pStats'\<rparr>)"

definition child_name :: "string \<Rightarrow> fs_key \<Rightarrow> string" where
  "child_name dir k =
     (let name = fk_name k
      in if fk_case k = kDirectory then
           if last name \<noteq> CHR ''/'' \<and> dir \<noteq> '''' \<and> last dir \<noteq> CHR ''/'' then dir @ ''/'' @ name
           else dir @ name
         else name)"

definition own_entries :: "(rat \<Rightarrow> rat) \<Rightarrow> string \<Rightarrow> fs_stats \<Rightarrow> fs_entry list res" where
  "own_entries rnd dir t =
     (if dir \<noteq> '''' then
        and_then (fillProtoStatisticsEntry rnd dir t) (\<lambda>entry.
        if fss_case t \<noteq> kDirectory then
          if metric_value (ise_metrics (ir_write (fe_statistics entry))) WIF_METRIC_NAME > 1
          then Inr [entry] else Inr []
        else Inr [entry])
      else Inr [])"

function (sequential) fillProtoStatistics :: "(rat \<Rightarrow> rat) \<Rightarrow> string \<Rightarrow> fs_stats \<Rightarrow> fs_entry list res"
  and fill_children :: "(rat \<Rightarrow> rat) \<Rightarrow> string \<Rightarrow> (fs_key \<times> fs_stats) list \<Rightarrow> fs_entry list res" where
  "fillProtoStatistics rnd dir (FsStats ch io dev part c) =
     and_then (own_entries rnd dir (FsStats ch io dev part c)) (\<lambda>xs.
     and_then (fill_children rnd dir ch) (\<lambda>ys. Inr (xs @ ys)))"
| "fill_children rnd dir [] = Inr []"
| "fill_children rnd dir ((k, t) # ch) =
     (if fk_name k = '''' then fill_children rnd dir ch
      else and_then (fillProtoStatistics rnd (child_name dir k) t) (\<lambda>xs.
           and_then (fill_children rnd dir ch) (\<lambda>ys. Inr (xs @ ys))))"
  by pat_completeness auto

termination
  by (relation "measure (\<lambda>x. case x of Inl (_, _, t) \<Rightarrow> size t
        | Inr (_, _, ch) \<Rightarrow> size_list (\<lambda>e. Suc (size (snd e))) ch)")
    (auto simp: size_prod_simp comp_def intro: le_imp_less_Suc)

definition getFilesystemStatistics :: "(rat \<Rightarrow> rat) \<Rightarrow> fs_stats \<Rightarrow> fs_entry list res" where
  "getFilesystemStatistics rnd t = fillProtoStatistics rnd '''' t"

subsection \<open>What the report lists\<close>

text \<open>Every node below the root carries the labels of its key, which has one of the three cases.\<close>

definition label_at :: "fs_key list \<Rightarrow> fs_stats \<Rightarrow> (u64 \<times> u64 \<times> stats_case) option" where
  "label_at p t = map_option snd (info_at p t)"

lemma label_at_node:
  "node_at p t = Some n \<Longrightarrow> label_at p t = Some (fss_devId n, fss_partId n, fss_case n)"
  by (simp add: label_at_def info_at_def node_info_def)

lemma label_at_fresh:
  "info_at p t = fresh_node k \<Longrightarrow> label_at p t = Some (fk_devId k, fk_partId k, fk_case k)"
  using io_new_total [of LBA_HIT_MAP_RANGE_SIZE_DEFAULT] by (auto simp: label_at_def fresh_node_def)

lemma label_at_cong: "info_at p t' = info_at p t \<Longrightarrow> label_at p t' = label_at p t"
  by (simp add: label_at_def)

definition labelled :: "fs_stats \<Rightarrow> bool" where
  "labelled t \<longleftrightarrow> (\<forall>p k l. label_at (p @ [k]) t = Some l \<longrightarrow>
     l = (fk_devId k, fk_partId k, fk_case k) \<and> fk_case k \<noteq> NAME_NOT_SET)"

lemma labelledD:
  "labelled t \<Longrightarrow> node_at (p @ [k]) t = Some n \<Longrightarrow>
     fss_devId n = fk_devId k \<and> fss_partId n = fk_partId k \<and> fss_case n = fk_case k \<and>
     fk_case k \<noteq> NAME_NOT_SET"
  using label_at_node unfolding labelled_def by fast

lemma labelled_cong:
  "labelled t \<Longrightarrow> (\<And>q. label_at q t' = label_at q t) \<Longrightarrow> labelled t'"
  unfolding labelled_def by presburger

lemma labelled_grow:
  assumes "labelled t"
    and "\<And>q. info_at q t' = info_at q t \<or>
      q \<noteq> [] \<and> info_at q t' = fresh_node (last q) \<and> fk_case (last q) \<noteq> NAME_NOT_SET"
  shows "labelled t'"
  unfolding labelled_def
proof (intro allI impI)
  fix p k l assume *: "label_at (p @ [k]) t' = Some l"
  show "l = (fk_devId k, fk_partId k, fk_case k) \<and> fk_case k \<noteq> NAME_NOT_SET"
  proof (cases "info_at (p @ [k]) t' = info_at (p @ [k]) t")
    case True
    with * assms(1) show ?thesis unfolding labelled_def using label_at_cong by metis
  next
    case False
    with assms(2) [of "p @ [k]"] have "info_at (p @ [k]) t' = fresh_node k" "fk_case k \<noteq> NAME_NOT_SET"
      by simp_all
    with * label_at_fresh show ?thesis by (metis option.inject)
  qed
qed

lemma update_labels:
  assumes "nodes_ok t" "at_path p (updateIoStats rnd e) t = Inr t'"
  shows "label_at q t' = label_at q t"
proof -
  have f: "\<forall>n n'. nodes_ok n \<longrightarrow> updateIoStats rnd e n = Inr n' \<longrightarrow> nodes_ok n'"
    using updateIoStats_ok by blast
  obtain n n' where n: "node_at p t = Some n" "updateIoStats rnd e n = Inr n'" "nodes_ok n"
    and q: "\<And>q. info_at q t' = (if take (length p) q = p then info_at (drop (length p) q) n'
                         else info_at q t)"
    using at_path_info [OF assms f] by blast
  note u = updateIoStats_ok [OF n(3,2)]
  show ?thesis
  proof (cases "take (length p) q = p")
    case True
    then have q': "q = p @ drop (length p) q" by (metis append_take_drop_id)
    have "info_at q t = info_at (drop (length p) q) n"
      using n(1) by (subst q') (simp add: info_at_def node_at_append)
    moreover have "map_option snd (info_at r n') = map_option snd (info_at r n)" for r
      using u by (cases "r = []") (auto simp: node_info_def)
    ultimately show ?thesis using q [of q] True by (simp add: label_at_def)
  qed (simp add: q label_at_def)
qed

lemma count_name_labelled:
  assumes "nodes_ok t" "labelled t" "count_name rnd e c name t = Inr t'" "c \<noteq> NAME_NOT_SET"
  shows "labelled t'"
proof (cases "name = ''''")
  case True
  then show ?thesis using assms by (simp add: count_name_def)
next
  case False
  let ?k = "FsKey c name (pdev_id (pe_device e)) (pdev_partition (pe_device e))"
  obtain t1 where t1: "getStatisticsByKey ?k t = Inr t1" "at_path [?k] (updateIoStats rnd e) t1 = Inr t'"
    using assms(3) False by (auto simp: count_name_def Let_def and_then_Inr_iff simp del: at_path.simps)
  have "labelled t1"
    by (rule labelled_grow [OF assms(2)])
      (use getStatisticsByKey_info [OF assms(1), of ?k] t1(1) assms(4) in \<open>auto simp del: info_at_Cons\<close>)
  moreover have "nodes_ok t1" using getStatisticsByKey_io_at [OF assms(1) t1(1)] by blast
  ultimately show ?thesis using update_labels [OF _ t1(2)] labelled_cong by blast
qed

lemma discard_spec_labels:
  assumes "discard_spec rnd e t t'"
  shows "label_at q t' = label_at q t"
proof -
  have "rel_option (discarded rnd e) (node_at q t) (node_at q t')"
    using assms by (simp add: discard_spec_def)
  then show ?thesis
    by (cases rule: option.rel_cases) (auto simp: label_at_def info_at_def node_info_def discarded_def)
qed

lemma discard_nodes_ok:
  assumes "nodes_ok t" "fs_discard rnd e t = Inr t'"
  shows "nodes_ok t'"
  unfolding nodes_ok_def
proof (intro allI impI)
  fix p n' assume n': "node_at p t' = Some n'"
  have "fs_discard rnd e t = Inr t' \<Longrightarrow> node_at p t' = Some n' \<Longrightarrow>
      \<exists>n. node_at p t = Some n \<and> fs_discard rnd e n = Inr n'"
  proof (induction p arbitrary: t t')
    case (Cons k p)
    then have "discard_children rnd e (fss_children t) = Inr (fss_children t')"
      using fs_discard_node by blast
    from discard_children_find [OF this, of k] Cons show ?case
      by (cases rule: option.rel_cases) auto
  qed simp
  with assms(2) n' obtain n where n: "node_at p t = Some n" "fs_discard rnd e n = Inr n'" by blast
  have "map fst (fss_children n') = map fst (fss_children n)"
    using fs_discard_node [OF n(2)] discard_children_keys by blast
  moreover have "map_ok (fss_children n)" using assms(1) n(1) by (simp add: nodes_ok_def)
  ultimately show "map_ok (fss_children n')" by (simp add: map_ok_def)
qed

lemma fs_count_labelled:
  assumes "nodes_ok t" "labelled t" "fs_count rnd v e t = Some (Inr t')"
  shows "nodes_ok t' \<and> labelled t'"
proof (cases "is_discard e")
  case True
  then have d: "fs_discard rnd e t = Inr t'" using assms(3) by (simp add: fs_count_def)
  show ?thesis
    using discard_nodes_ok [OF assms(1) d] labelled_cong [OF assms(2)]
      discard_spec_labels [OF fs_discard_spec [OF d]] by blast
next
  case nd: False
  let ?fid = "file_id_of_parsed e" and ?dev = "pdev_id (pe_device e)"
  show ?thesis
  proof (cases "pe_file e")
    case None
    then show ?thesis using assms nd by (simp add: fs_count_def)
  next
    case (Some f)
    obtain r where r: "getStatisticsByIds v (getParentId ?fid v) ?dev t = Some r"
      using assms nd Some by (auto simp: fs_count_def Let_def bind_eq_Some_conv)
    then obtain d where d: "dir_ancestry v ?dev (getParentId ?fid v) d"
      using getStatisticsByIds_ancestry by blast
    obtain t1 where t1: "r = Inr (t1, d)" "grown d t t1"
      using getStatisticsByIds_result [OF d assms(1)] r by auto
    obtain t2 t3 where t2: "at_path d (updateIoStats rnd e) t1 = Inr t2"
      and t3: "count_name rnd e kFileExtension (getFileExtension ?fid v) t2 = Inr t3"
        "count_name rnd e kFileNamePrefix (getFileNamePrefix ?fid v) t3 = Inr t'"
      using assms nd Some r t1(1) by (auto simp: fs_count_def Let_def and_then_Inr_iff)
    have ok1: "nodes_ok t1" using t1(2) by (simp add: grown_def)
    note ok2 = update_io_at(1) [OF ok1 t2]
    note ok3 = count_name_io_at(1) [OF ok2 t3(1)]
    have case_d: "fk_case (last q) = kDirectory" if "q \<noteq> []" "take (length q) d = q" for q
      using that dir_ancestry_dirs [OF d] by (metis in_set_takeD last_in_set)
    have "labelled t1"
      by (rule labelled_grow [OF assms(2)])
        (use t1(2) case_d in \<open>auto simp: grown_def\<close>)
    then have l2: "labelled t2" using labelled_cong update_labels [OF ok1 t2] by blast
    have l3: "labelled t3" by (rule count_name_labelled [OF ok2 l2 t3(1)]) simp
    have "labelled t'" by (rule count_name_labelled [OF ok3 l3 t3(2)]) simp
    moreover have "nodes_ok t'" by (rule count_name_io_at(1) [OF ok3 t3(2)])
    ultimately show ?thesis by blast
  qed
qed

lemma child_name_nonempty: "fk_name k \<noteq> '''' \<Longrightarrow> child_name dir k \<noteq> ''''"
  by (auto simp: child_name_def Let_def)

definition listed :: "(rat \<Rightarrow> rat) \<Rightarrow> string \<Rightarrow> fs_stats \<Rightarrow> fs_entry set" where
  "listed rnd dir t =
     {en. \<exists>p n xs. node_at p t = Some n \<and> (\<forall>k \<in> set p. fk_name k \<noteq> '''') \<and>
        own_entries rnd (foldl child_name dir p) n = Inr xs \<and> en \<in> set xs}"

lemma own_entries_total:
  "dir = '''' \<or> fss_case t \<noteq> NAME_NOT_SET \<Longrightarrow> \<exists>xs. own_entries rnd dir t = Inr xs"
  by (auto simp: own_entries_def fillProtoStatisticsEntry_def Let_def)

lemma listed_unfold:
  assumes "map_ok (fss_children t)" "own_entries rnd dir t = Inr xs"
  shows "listed rnd dir t =
    set xs \<union> (\<Union>(k, c) \<in> {e \<in> set (fss_children t). fk_name (fst e) \<noteq> ''''}. listed rnd (child_name dir k) c)"
    (is "?L = ?R")
proof
  show "?L \<subseteq> ?R"
  proof
    fix en assume "en \<in> ?L"
    then obtain p n ys where p: "node_at p t = Some n" "\<forall>k \<in> set p. fk_name k \<noteq> ''''"
      "own_entries rnd (foldl child_name dir p) n = Inr ys" "en \<in> set ys"
      by (auto simp: listed_def)
    show "en \<in> ?R"
    proof (cases p)
      case Nil
      with p assms(2) show ?thesis by simp
    next
      case (Cons k q)
      with p(1) obtain c where c: "map_find (fss_children t) k = Some c" "node_at q c = Some n"
        by (auto split: option.splits)
      from c(1) have "(k, c) \<in> set (fss_children t)" by (rule map_find_SomeD)
      moreover have "en \<in> listed rnd (child_name dir k) c"
        using c(2) p Cons unfolding listed_def by auto
      ultimately show ?thesis using p(2) Cons by auto
    qed
  qed
  show "?R \<subseteq> ?L"
  proof
    fix en assume "en \<in> ?R"
    then consider "en \<in> set xs"
      | k c where "(k, c) \<in> set (fss_children t)" "fk_name k \<noteq> ''''" "en \<in> listed rnd (child_name dir k) c"
      by auto
    then show "en \<in> ?L"
    proof cases
      case 1
      with assms(2) have "node_at [] t = Some t \<and> (\<forall>k \<in> set []. fk_name k \<noteq> '''') \<and>
        own_entries rnd (foldl child_name dir []) t = Inr xs \<and> en \<in> set xs" by simp
      then show ?thesis unfolding listed_def by blast
    next
      case 2
      then obtain p n ys where p: "node_at p c = Some n" "\<forall>k \<in> set p. fk_name k \<noteq> ''''"
        "own_entries rnd (foldl child_name (child_name dir k) p) n = Inr ys" "en \<in> set ys"
        by (auto simp: listed_def)
      have "map_find (fss_children t) k = Some c" using 2(1) assms(1) by (simp add: map_find_iff)
      with p 2(2) have "node_at (k # p) t = Some n \<and> (\<forall>j \<in> set (k # p). fk_name j \<noteq> '''') \<and>
        own_entries rnd (foldl child_name dir (k # p)) n = Inr ys \<and> en \<in> set ys" by simp
      then show ?thesis unfolding listed_def by blast
    qed
  qed
qed

definition cased :: "fs_stats \<Rightarrow> bool" where
  "cased t \<longleftrightarrow> (\<forall>p n. p \<noteq> [] \<and> node_at p t = Some n \<longrightarrow> fss_case n \<noteq> NAME_NOT_SET)"

lemma labelled_cased: "labelled t \<Longrightarrow> cased t"
  unfolding cased_def by (metis append_butlast_last_id labelledD)

lemma cased_child:
  assumes "cased t" "map_find (fss_children t) k = Some c"
  shows "cased c" "fss_case c \<noteq> NAME_NOT_SET"
proof -
  have *: "node_at (k # p) t = node_at p c" for p using assms(2) by simp
  show "cased c" using assms(1) * unfolding cased_def by (metis list.distinct(1))
  show "fss_case c \<noteq> NAME_NOT_SET" using assms(1) * [of "[]"] unfolding cased_def by force
qed

lemma fill_listed:
  "nodes_ok t \<Longrightarrow> cased t \<Longrightarrow> dir = '''' \<or> fss_case t \<noteq> NAME_NOT_SET \<Longrightarrow>
     \<exists>es. fillProtoStatistics rnd dir t = Inr es \<and> set es = listed rnd dir t"
  "(\<forall>e \<in> set ch. nodes_ok (snd e) \<and> cased (snd e) \<and> fss_case (snd e) \<noteq> NAME_NOT_SET) \<Longrightarrow>
     \<exists>es. fill_children rnd dir ch = Inr es \<and>
       set es = (\<Union>(k, c) \<in> {e \<in> set ch. fk_name (fst e) \<noteq> ''''}. listed rnd (child_name dir k) c)"
proof (induction rnd dir t and rnd dir ch rule: fillProtoStatistics_fill_children.induct)
  case (1 rnd dir ch io dev part c)
  let ?t = "FsStats ch io dev part c"
  obtain xs where xs: "own_entries rnd dir ?t = Inr xs" using own_entries_total "1.prems"(3) by blast
  have ok: "map_ok ch" using nodes_okD [OF "1.prems"(1)] by simp
  have "\<forall>e \<in> set ch. nodes_ok (snd e) \<and> cased (snd e) \<and> fss_case (snd e) \<noteq> NAME_NOT_SET"
  proof
    fix e assume "e \<in> set ch"
    then have "map_find (fss_children ?t) (fst e) = Some (snd e)" using ok by (simp add: map_find_iff)
    then show "nodes_ok (snd e) \<and> cased (snd e) \<and> fss_case (snd e) \<noteq> NAME_NOT_SET"
      using nodes_ok_child [OF "1.prems"(1)] cased_child [OF "1.prems"(2)] by blast
  qed
  from "1.IH" [OF this] obtain ys where "fill_children rnd dir ch = Inr ys"
    "set ys = (\<Union>(k, c) \<in> {e \<in> set ch. fk_name (fst e) \<noteq> ''''}. listed rnd (child_name dir k) c)"
    by blast
  with xs listed_unfold [of ?t rnd dir xs] ok show ?case by simp
next
  case (2 rnd dir)
  then show ?case by simp
next
  case (3 rnd dir k t ch)
  show ?case
  proof (cases "fk_name k = ''''")
    case True
    from "3.IH"(1) [OF True] "3.prems" obtain es where "fill_children rnd dir ch = Inr es"
      "set es = (\<Union>(k, c) \<in> {e \<in> set ch. fk_name (fst e) \<noteq> ''''}. listed rnd (child_name dir k) c)"
      by auto
    moreover have "{e \<in> set ((k, t) # ch). fk_name (fst e) \<noteq> ''''} = {e \<in> set ch. fk_name (fst e) \<noteq> ''''}"
      using True by auto
    ultimately show ?thesis using True by simp
  next
    case False
    from "3.IH"(2) [OF False] "3.prems" obtain xs where
      xs: "fillProtoStatistics rnd (child_name dir k) t = Inr xs" "set xs = listed rnd (child_name dir k) t"
      by auto
    from "3.IH"(3) [OF False] "3.prems" obtain ys where "fill_children rnd dir ch = Inr ys"
      "set ys = (\<Union>(k, c) \<in> {e \<in> set ch. fk_name (fst e) \<noteq> ''''}. listed rnd (child_name dir k) c)"
      by auto
    moreover have "{e \<in> set ((k, t) # ch). fk_name (fst e) \<noteq> ''''} =
        insert (k, t) {e \<in> set ch. fk_name (fst e) \<noteq> ''''}"
      using False by auto
    ultimately show ?thesis using False xs by simp
  qed
qed

lemma fs_count_all_ok:
  "nodes_ok t \<Longrightarrow> labelled t \<Longrightarrow> fs_count_all rnd ves t = Some (Inr t') \<Longrightarrow> nodes_ok t' \<and> labelled t'"
proof (induction ves arbitrary: t)
  case (Cons ve ves)
  obtain v e where ve: "ve = (v, e)" by force
  obtain t1 where t1: "fs_count rnd v e t = Some (Inr t1)" "fs_count_all rnd ves t1 = Some (Inr t')"
    using Cons.prems(3) by (cases "fs_count rnd v e t"; cases "the (fs_count rnd v e t)") (auto simp: ve)
  from fs_count_labelled [OF Cons.prems(1,2) t1(1)] Cons.IH [OF _ _ t1(2)] show ?case by blast
qed simp

lemma new_labelled: "fs_stats_new = Inr t \<Longrightarrow> nodes_ok t \<and> labelled t"
proof -
  assume t: "fs_stats_new = Inr t"
  then have ch: "nodes_ok t" "fss_children t = []" using fs_stats_newD [OF t, of "[]"] by blast+
  have "node_at (p @ [k]) t = None" for p k using ch(2) by (cases p) simp_all
  then have "labelled t" by (simp add: labelled_def label_at_def info_at_def)
  with ch(1) show ?thesis by blast
qed

lemma own_entries_member:
  "en \<in> set xs \<and> own_entries rnd dir t = Inr xs \<longleftrightarrow>
     dir \<noteq> '''' \<and> fillProtoStatisticsEntry rnd dir t = Inr en \<and> xs = [en] \<and>
     (fss_case t = kDirectory \<or>
      metric_value (ise_metrics (ir_write (fe_statistics en))) WIF_METRIC_NAME > 1)"
  by (cases "fillProtoStatisticsEntry rnd dir t") (auto simp: own_entries_def)

lemma listed_iff:
  "en \<in> listed rnd '''' t \<longleftrightarrow>
     (\<exists>p n. p \<noteq> [] \<and> node_at p t = Some n \<and> (\<forall>k \<in> set p. fk_name k \<noteq> '''') \<and>
        fillProtoStatisticsEntry rnd (foldl child_name '''' p) n = Inr en \<and>
        (fss_case n = kDirectory \<or>
         metric_value (ise_metrics (ir_write (fe_statistics en))) WIF_METRIC_NAME > 1))"
  (is "_ \<longleftrightarrow> ?R")
proof -
  have nonempty: "foldl child_name '''' p \<noteq> ''''" if "p \<noteq> []" "\<forall>k \<in> set p. fk_name k \<noteq> ''''" for p
    using that child_name_nonempty by (cases p rule: rev_cases) auto
  have "own_entries rnd (foldl child_name '''' p) n = Inr xs \<and> en \<in> set xs \<and> (\<forall>k \<in> set p. fk_name k \<noteq> '''') \<longleftrightarrow>
      p \<noteq> [] \<and> (\<forall>k \<in> set p. fk_name k \<noteq> '''') \<and> xs = [en] \<and>
      fillProtoStatisticsEntry rnd (foldl child_name '''' p) n = Inr en \<and>
      (fss_case n = kDirectory \<or>
       metric_value (ise_metrics (ir_write (fe_statistics en))) WIF_METRIC_NAME > 1)" for p n xs
    using own_entries_member [of en xs rnd "foldl child_name '''' p" n] nonempty [of p] by force
  then show ?thesis unfolding listed_def by blast
qed

subsection \<open>Properties\<close>

text \<open>
  Property C6. A file event is counted exactly where it belongs: after any history without
  discards the statistics kept at any path of the tree are those a fresh statistics object
  gets from the events whose file lies in that directory (with the same chain of directory
  names up to the root), or has that extension or that name prefix, in their order.
\<close>

theorem file_events_counted_where_due:
  assumes "fs_stats_new = Inr t0" "list_all (\<lambda>(v, e). \<not> is_discard e) ves"
    and "fs_count_all rnd ves t0 = Some (Inr t)"
  shows "io_at p t = and_then (io_statistics_new LBA_HIT_MAP_RANGE_SIZE_DEFAULT)
    (io_count_all rnd (map snd (filter (\<lambda>(v, e). counts_at v e p) ves)))"
proof -
  have "nodes_ok t0" "io_at p t0 = io_statistics_new LBA_HIT_MAP_RANGE_SIZE_DEFAULT"
    using fs_stats_newD [OF assms(1), of p] by blast+
  with fs_count_all_result [OF _ assms(2,3), of p] show ?thesis by simp
qed

definition sample_file_event :: parsed_event where
  "sample_file_event = sample_event\<lparr>pe_file := Some (parsed_file_default\<lparr>pfile_id := 7\<rparr>)\<rparr>"

lemma sample_file_counts:
  "\<exists>t0 t. fs_stats_new = Inr t0 \<and> fs_count_all (\<lambda>x. x) [([], sample_file_event)] t0 = Some (Inr t)"
proof -
  obtain t0 where t0: "fs_stats_new = Inr t0" "nodes_ok t0"
    "io_at [] t0 = io_statistics_new LBA_HIT_MAP_RANGE_SIZE_DEFAULT" "fss_children t0 = []"
    using fs_stats_new_ok [of "[]"] by blast
  let ?d = "[dir_key [] 0 FileId_default]"
  have parent: "getParentId i [] = FileId_default" for i
    by (simp add: getParentId_def viewer_find_def Let_def map_lower_bound_def)
  have "dir_ancestry [] 0 FileId_default ?d" by (rule dir_ancestry.top) (rule parent)
  from getStatisticsByIds_result [OF this t0(2)] obtain t1 where
    t1: "getStatisticsByIds [] FileId_default 0 t0 = Some (Inr (t1, ?d))" "grown ?d t0 t1" by blast
  then obtain n where n: "node_at ?d t1 = Some n" by (auto simp: grown_def)
  have "info_at ?d t0 = None" using t0(4) by simp
  then have "info_at ?d t1 = fresh_node (dir_key [] 0 FileId_default)"
    using t1(2) by (simp add: grown_def del: info_at_Cons)
  then have new: "io_statistics_new LBA_HIT_MAP_RANGE_SIZE_DEFAULT = Inr (fss_io n)"
    using n io_new_total [of LBA_HIT_MAP_RANGE_SIZE_DEFAULT]
    by (auto simp: info_at_def fresh_node_def node_info_def simp del: node_at.simps)
  obtain st where st: "fresh_statistics False LBA_HIT_MAP_RANGE_SIZE_DEFAULT = Inr st"
    "describes True False LBA_HIT_MAP_RANGE_SIZE_DEFAULT st []" using fresh_describes by blast
  then have "st = fss_io n" using new by (auto simp: fresh_statistics_def and_then_Inr_iff)
  moreover have "countable_event True sample_file_event"
    using sample_event_countable
    by (simp add: sample_file_event_def countable_event_def Let_def the_io_def)
  ultimately obtain io where "io_count (\<lambda>x. x) sample_file_event (fss_io n) = Inr io"
    using io_count_step [OF st(2), of sample_file_event "\<lambda>x. x"] by (auto simp: exact_integers_def)
  then have "updateIoStats (\<lambda>x. x) sample_file_event n =
      Inr (FsStats (fss_children n) io (fss_devId n) (fss_partId n) (fss_case n))"
    by (simp add: updateIoStats_def)
  with n obtain t2 where "at_path ?d (updateIoStats (\<lambda>x. x) sample_file_event) t1 = Inr t2"
    using at_path_total by blast
  moreover have "pdev_id (pe_device sample_file_event) = 0" "pe_file sample_file_event \<noteq> None"
    "\<not> is_discard sample_file_event"
    by (simp_all add: sample_file_event_def sample_event_def parsed_event_default_def
        parsed_device_default_def is_discard_def the_io_def parsed_io_default_def io_types)
  moreover have "getFileExtension i [] = ''''" "getFileNamePrefix i [] = ''''" for i
    by (simp_all add: getFileExtension_def getFileNamePrefix_def viewer_find_def Let_def
        map_lower_bound_def trim_non_alpha_def)
  ultimately have "fs_count (\<lambda>x. x) [] sample_file_event t0 = Some (Inr t2)"
    using t1(1) parent by (simp add: fs_count_def Let_def count_name_def del: at_path.simps)
  then have "fs_count_all (\<lambda>x. x) [([], sample_file_event)] t0 = Some (Inr t2)" by simp
  with t0(1) show ?thesis by blast
qed

theorem file_events_counted_where_due_witness:
  "\<exists>t0 t. fs_stats_new = Inr t0 \<and> fs_count_all (\<lambda>x. x) [([], sample_file_event)] t0 = Some (Inr t) \<and>
     io_at [] t = and_then (io_statistics_new LBA_HIT_MAP_RANGE_SIZE_DEFAULT)
       (io_count_all (\<lambda>x. x) (map snd (filter (\<lambda>(v, e). counts_at v e []) [([], sample_file_event)])))"
proof -
  obtain t0 t where t: "fs_stats_new = Inr t0"
    "fs_count_all (\<lambda>x. x) [([], sample_file_event)] t0 = Some (Inr t)"
    using sample_file_counts by blast
  have "list_all (\<lambda>(v, e). \<not> is_discard e) [([] :: viewer, sample_file_event)]"
    by (simp add: sample_file_event_def sample_event_def is_discard_def the_io_def io_types)
  with file_events_counted_where_due [OF t(1) _ t(2)] t show ?thesis by blast
qed

text \<open>
  Property C7. Counting a file event returns exactly when the parents of its directory end: when
  the viewer knows a cycle of directories, the climb to the root never returns, and this is the
  only way not to return.
\<close>

theorem fs_count_returns:
  assumes "nodes_ok t"
  shows "fs_count rnd v e t = None \<longleftrightarrow>
    \<not> is_discard e \<and> pe_file e \<noteq> None \<and>
    (\<nexists>p. dir_ancestry v (pdev_id (pe_device e)) (getParentId (file_id_of_parsed e) v) p)"
proof -
  let ?d = "getParentId (file_id_of_parsed e) v" and ?dev = "pdev_id (pe_device e)"
  have "getStatisticsByIds v ?d ?dev t = None \<longleftrightarrow> (\<nexists>p. dir_ancestry v ?dev ?d p)"
    using getStatisticsByIds_ancestry [of v ?d ?dev t] getStatisticsByIds_result [OF _ assms, of v ?dev ?d]
    by (metis not_None_eq)
  then show ?thesis by (auto simp: fs_count_def Let_def bind_eq_None_conv)
qed

definition cyclic_viewer :: viewer where
  "cyclic_viewer = [(FileId 0 1 0, \<lparr>fi_parent = FileId 0 2 0, fi_name = ''a''\<rparr>),
     (FileId 0 2 0, \<lparr>fi_parent = FileId 0 1 0, fi_name = ''b''\<rparr>),
     (FileId 0 7 0, \<lparr>fi_parent = FileId 0 1 0, fi_name = ''f''\<rparr>)]"

theorem fs_count_returns_witness:
  "\<exists>t. fs_stats_new = Inr t \<and> fs_count (\<lambda>x. x) cyclic_viewer sample_file_event t = None"
proof -
  obtain t where t: "fs_stats_new = Inr t" "nodes_ok t" using fs_stats_new_ok [of "[]"] by blast
  have find: "viewer_find (FileId 0 1 0) True cyclic_viewer = Some \<lparr>fi_parent = FileId 0 2 0, fi_name = ''a''\<rparr>"
    "viewer_find (FileId 0 2 0) True cyclic_viewer = Some \<lparr>fi_parent = FileId 0 1 0, fi_name = ''b''\<rparr>"
    "viewer_find (FileId 0 7 0) True cyclic_viewer = Some \<lparr>fi_parent = FileId 0 1 0, fi_name = ''f''\<rparr>"
    by (simp_all add: viewer_find_def cyclic_viewer_def map_find_def)
  have parents: "getParentId (FileId 0 1 0) cyclic_viewer = FileId 0 2 0"
    "getParentId (FileId 0 2 0) cyclic_viewer = FileId 0 1 0"
    "getParentId (FileId 0 7 0) cyclic_viewer = FileId 0 1 0"
    by (simp_all add: getParentId_def find)
  have "dir_ancestry cyclic_viewer dev d p \<Longrightarrow> d \<noteq> FileId 0 1 0 \<and> d \<noteq> FileId 0 2 0" for dev d p
    by (induction rule: dir_ancestry.induct) (use parents in auto)
  then have none: "\<nexists>p. dir_ancestry cyclic_viewer dev (FileId 0 1 0) p" for dev by blast
  have e: "file_id_of_parsed sample_file_event = FileId 0 7 0" "\<not> is_discard sample_file_event"
    "pe_file sample_file_event \<noteq> None"
    by (simp_all add: sample_file_event_def sample_event_def file_id_of_parsed_def is_discard_def
        the_io_def the_file_def parsed_event_default_def parsed_device_default_def
        parsed_file_default_def ts_total_def io_types)
  have "\<nexists>p. dir_ancestry cyclic_viewer (pdev_id (pe_device sample_file_event))
      (getParentId (file_id_of_parsed sample_file_event) cyclic_viewer) p"
    using none e(1) parents(3) by simp
  with fs_count_returns [OF t(2), of "\<lambda>x. x" cyclic_viewer sample_file_event] e(2,3)
  have "fs_count (\<lambda>x. x) cyclic_viewer sample_file_event t = None" by blast
  with t(1) show ?thesis by blast
qed

text \<open>
  A discard reaches every node of its device and no other: the tree keeps its nodes
  and their devices, the statistics of each node of the device of the event are counted once,
  and all other statistics stay.
\<close>

theorem discard_reaches_its_device:
  assumes "is_discard e" "fs_count rnd v e t = Some (Inr t')"
  shows "case node_at p t of
      None \<Rightarrow> node_at p t' = None
    | Some n \<Rightarrow> \<exists>n'. node_at p t' = Some n' \<and> fss_devId n' = fss_devId n \<and>
        (if fss_devId n = pdev_id (pe_device e) then io_count rnd e (fss_io n) = Inr (fss_io n')
         else fss_io n' = fss_io n)"
proof -
  have "fs_discard rnd e t = Inr t'" using assms by (simp add: fs_count_def)
  then have "rel_option (discarded rnd e) (node_at p t) (node_at p t')"
    using fs_discard_spec by (simp add: discard_spec_def)
  then show ?thesis by (cases rule: option.rel_cases) (auto simp: discarded_def)
qed

definition sample_discard :: parsed_event where
  "sample_discard = parsed_event_default
     \<lparr>pe_io := Some (parsed_io_default\<lparr>pio_operation := Io_Discard\<rparr>),
      pe_device := parsed_device_default\<lparr>pdev_id := 9\<rparr>\<rparr>"

theorem discard_reaches_its_device_witness:
  "\<exists>t n'. fs_stats_new = Inr t \<and> node_at [] t = Some n' \<and> fss_devId n' = 0 \<and> fss_io n' = fss_io t"
proof -
  obtain io where io: "io_statistics_new LBA_HIT_MAP_RANGE_SIZE_DEFAULT = Inr io"
    using io_new_total by blast
  let ?t = "FsStats [] io 0 0 NAME_NOT_SET"
  have "fs_count (\<lambda>x. x) [] sample_discard ?t = Some (Inr ?t)" "is_discard sample_discard"
    by (simp_all add: fs_count_def sample_discard_def is_discard_def the_io_def)
  with discard_reaches_its_device [of sample_discard "\<lambda>x. x" "[]" ?t ?t "[]"] io
  show ?thesis by (simp add: fs_stats_new_def)
qed

text \<open>
  The report of any tree that counting can build never fails with its exception for a
  node without a case, and lists exactly the nodes below the root on whose path no name is
  empty, each once under its path: all directories, and those prefixes and extensions whose
  write invalidation factor is above 1. A directory whose name is unknown hides all below it.
\<close>

theorem report_lists_named_nodes:
  assumes "fs_stats_new = Inr t0" "fs_count_all rnd ves t0 = Some (Inr t)"
  shows "\<exists>es. getFilesystemStatistics rnd t = Inr es \<and>
    (\<forall>en. en \<in> set es \<longleftrightarrow>
      (\<exists>p n. p \<noteq> [] \<and> node_at p t = Some n \<and> (\<forall>k \<in> set p. fk_name k \<noteq> '''') \<and>
        fillProtoStatisticsEntry rnd (foldl child_name '''' p) n = Inr en \<and>
        (fss_case n = kDirectory \<or>
         metric_value (ise_metrics (ir_write (fe_statistics en))) WIF_METRIC_NAME > 1)))"
proof -
  have "nodes_ok t" "labelled t"
    using fs_count_all_ok [OF _ _ assms(2)] new_labelled [OF assms(1)] by blast+
  from fill_listed(1) [OF this(1) labelled_cased [OF this(2)], of "''''" rnd] obtain es where
    "getFilesystemStatistics rnd t = Inr es" "set es = listed rnd '''' t"
    by (auto simp: getFilesystemStatistics_def)
  then show ?thesis using listed_iff [of _ rnd t] by blast
qed

theorem report_lists_named_nodes_witness:
  "\<exists>t0 t es. fs_stats_new = Inr t0 \<and>
     fs_count_all (\<lambda>x. x) [([], sample_file_event)] t0 = Some (Inr t) \<and>
     getFilesystemStatistics (\<lambda>x. x) t = Inr es"
  using sample_file_counts report_lists_named_nodes by blast

end
