(* ===== verification/Parsed_Io_V2.thy ===== *)
theory Parsed_Io_V2
  imports File_System_Viewer
begin

section \<open>The parser of IO events, version 2\<close>

text \<open>
  \<open>ParsedIoTraceEventHandler\<close> of source/octf/trace/parser/v2/ParsedIoTraceEventHandler.cpp: trace
  events come in the order of their sequence numbers; an IO waits in a queue until its
  completion, its filesystem data and all IOs queued before it are there, and is then passed on.

  The map from IO identifiers to IOs holds pointers to elements of the queue. A pointer is the
  position the element has among all elements ever queued; it is valid while it is not popped,
  that is from \<open>ph_popped\<close> on. Following a pointer outside is undefined behaviour.

  The parent handler and the trace extension are the lists of what they received. Whether the
  file parser has finished (\<open>getParser()->isFinished()\<close>), whether the extension is writable and the
  tags of the trace summary are arguments of the operations.
\<close>

record queue_depth =
  qd_Value :: u64
  qd_Adjustment :: u64

record parsed_handler =
  ph_queue :: "parsed_event list"
  ph_popped :: nat
  ph_refSid :: u64
  ph_idMapping :: "(u64, nat) std_map"
  ph_devices :: "(u64, device_description) std_map"
  ph_viewers :: "(u64, viewer) std_map"
  ph_timestampOffset :: u64
  ph_limit :: u64
  ph_subrangeStart :: u64
  ph_subrangeEnd :: u64
  ph_devIoQueueDepth :: "(u64, queue_depth) std_map"
  ph_handledIOs :: "parsed_event list"
  ph_handledDevices :: "device_description list"
  ph_extension :: "(u64 \<times> parsed_event) list"

definition QueueLimit :: u64 where "QueueLimit = 10000"

definition parsed_handler_new :: "(u64, viewer) std_map \<Rightarrow> parsed_handler" where
  "parsed_handler_new viewers =
     \<lparr>ph_queue = [], ph_popped = 0, ph_refSid = 0, ph_idMapping = [], ph_devices = [],
      ph_viewers = viewers, ph_timestampOffset = 0, ph_limit = QueueLimit,
      ph_subrangeStart = 0, ph_subrangeEnd = 0, ph_devIoQueueDepth = [],
      ph_handledIOs = [], ph_handledDevices = [], ph_extension = []\<rparr>"

definition setExclusiveSubrange :: "u64 \<Rightarrow> u64 \<Rightarrow> parsed_handler \<Rightarrow> parsed_handler" where
  "setExclusiveSubrange start en s = s\<lparr>ph_subrangeStart := start, ph_subrangeEnd := en\<rparr>"

subsection \<open>Pointers into the queue\<close>

definition event_at :: "nat \<Rightarrow> parsed_handler \<Rightarrow> parsed_event res" where
  "event_at p s =
     (if ph_popped s \<le> p \<and> p < ph_popped s + length (ph_queue s)
      then Inr (ph_queue s ! (p - ph_popped s))
      else Inl (Undefined_Behaviour ''dangling pointer into the queue''))"

definition put_event :: "nat \<Rightarrow> parsed_event \<Rightarrow> parsed_handler \<Rightarrow> parsed_handler" where
  "put_event p e s = s\<lparr>ph_queue := (ph_queue s)[p - ph_popped s := e]\<rparr>"

definition getCachedEventById :: "u64 \<Rightarrow> parsed_handler \<Rightarrow> nat option" where
  "getCachedEventById i s = map_find (ph_idMapping s) i"

definition set_sid :: "u64 \<Rightarrow> parsed_event \<Rightarrow> parsed_event" where
  "set_sid sid e = e\<lparr>pe_header := (pe_header e)\<lparr>eh_sid := sid\<rparr>\<rparr>"

text \<open>\<open>addMapping\<close> for the event just queued, at position \<open>p\<close>: a second IO with the same identifier replaces the pointer.\<close>

definition addMapping :: "event_case \<Rightarrow> nat \<Rightarrow> parsed_handler \<Rightarrow> parsed_handler res" where
  "addMapping te p s =
     (case te of
        Io io \<Rightarrow>
          if eio_id io \<noteq> 0 then
            and_then (event_at p s) (\<lambda>e.
            let (m, inserted) = map_emplace (eio_id io) p (ph_idMapping s);
                m' = (if inserted then m else map_put (eio_id io) p m)
            in Inr (put_event p (set_sid (eio_id io) e) (s\<lparr>ph_idMapping := m'\<rparr>)))
          else Inr s
      | _ \<Rightarrow> Inr s)"

definition delMapping :: "nat \<Rightarrow> parsed_handler \<Rightarrow> parsed_handler res" where
  "delMapping p s =
     and_then (event_at p s) (\<lambda>e.
     if pe_io e \<noteq> None
     then Inr (put_event p (set_sid 0 e)
            (s\<lparr>ph_idMapping := map_erase (eh_sid (pe_header e)) (ph_idMapping s)\<rparr>))
     else Inr s)"

text \<open>\<open>m_devIoQueueDepth[id]\<close> and \<open>m_devices[id]\<close>: references with default insertion.\<close>

definition depth_at :: "u64 \<Rightarrow> parsed_handler \<Rightarrow> queue_depth" where
  "depth_at d s = snd (map_at \<lparr>qd_Value = 0, qd_Adjustment = 0\<rparr> d (ph_devIoQueueDepth s))"

definition put_depth :: "u64 \<Rightarrow> queue_depth \<Rightarrow> parsed_handler \<Rightarrow> parsed_handler" where
  "put_depth d q s = s\<lparr>ph_devIoQueueDepth := map_put d q (ph_devIoQueueDepth s)\<rparr>"

definition device_at :: "u64 \<Rightarrow> parsed_handler \<Rightarrow> parsed_handler \<times> device_description" where
  "device_at d s =
     (let (m, dev) = map_at device_default d (ph_devices s) in (s\<lparr>ph_devices := m\<rparr>, dev))"

subsection \<open>Passing events on\<close>

definition released_event ::
    "(string \<times> string) list \<Rightarrow> parsed_handler \<Rightarrow> parsed_event \<Rightarrow> ((u64, viewer) std_map \<times> parsed_event) res" where
  "released_event tags s e =
     (let e1 = set_sid (ph_refSid s + 1) e;
          qd = depth_at (pdev_id (pe_device e)) s;
          e2 = (case pe_io e1 of
                  None \<Rightarrow> e1
                | Some io \<Rightarrow> e1\<lparr>pe_io := Some (io\<lparr>pio_qd := pio_qd io - qd_Adjustment qd\<rparr>)\<rparr>);
          t = eh_timestamp (pe_header e2);
          e3 = e2\<lparr>pe_header := (pe_header e2)\<lparr>eh_timestamp :=
                 (if t > ph_timestampOffset s then t - ph_timestampOffset s else 0)\<rparr>\<rparr>
      in and_then
           (case pe_file e3 of
              None \<Rightarrow> Inr (ph_viewers s, e3)
            | Some f \<Rightarrow>
                and_then (getFileSystemViewer (pdev_partition (pe_device e)) (ph_viewers s)) (\<lambda>(vs, v).
                case getFilePath (file_id_of_parsed e3) v of
                  None \<Rightarrow> Inl No_Return
                | Some path \<Rightarrow> Inr (vs, e3\<lparr>pe_file := Some (f\<lparr>pfile_path := path\<rparr>)\<rparr>)))
           (\<lambda>(vs, e4). Inr (vs, if tags \<noteq> [] then e4\<lparr>pe_tags := tags\<rparr> else e4)))"

definition pushOutEvent :: "(string \<times> string) list \<Rightarrow> bool \<Rightarrow> parsed_handler \<Rightarrow> parsed_handler res" where
  "pushOutEvent tags writable s =
     (if ph_queue s = [] then Inl (Undefined_Behaviour ''front of an empty queue'')
      else
        and_then (delMapping (ph_popped s) s) (\<lambda>s.
        and_then (released_event tags s (hd (ph_queue s))) (\<lambda>(vs, e).
        let devId = pdev_id (pe_device e);
            qd = depth_at devId s;
            qd' = (if pe_io e \<noteq> None \<and> pio_latency (the_io e) = 0
                   then qd\<lparr>qd_Adjustment := qd_Adjustment qd + 1\<rparr> else qd)
        in Inr (put_depth devId qd'
             (s\<lparr>ph_queue := tl (ph_queue s), ph_popped := Suc (ph_popped s),
                ph_refSid := ph_refSid s + 1, ph_viewers := vs,
                ph_handledIOs := ph_handledIOs s @ [e],
                ph_extension := (if writable then ph_extension s @ [(ph_refSid s + 1, e)]
                                 else ph_extension s)\<rparr>)))))"

text \<open>
  The loops of \<open>flushEvents\<close>. Every round pops one event, so as many rounds as there are events
  are enough.
\<close>

fun flush_complete ::
    "nat \<Rightarrow> (string \<times> string) list \<Rightarrow> bool \<Rightarrow> parsed_handler \<Rightarrow> parsed_handler res" where
  "flush_complete 0 tags writable s = Inr s"
| "flush_complete (Suc n) tags writable s =
     (if ph_queue s \<noteq> [] \<and> pio_latency (the_io (hd (ph_queue s))) \<noteq> 0
      then and_then (pushOutEvent tags writable s) (flush_complete n tags writable)
      else Inr s)"

fun flush_excess ::
    "nat \<Rightarrow> bool \<Rightarrow> (string \<times> string) list \<Rightarrow> bool \<Rightarrow> parsed_handler \<Rightarrow> parsed_handler res" where
  "flush_excess 0 finished tags writable s = Inr s"
| "flush_excess (Suc n) finished tags writable s =
     (if ph_queue s \<noteq> []
      then and_then (pushOutEvent tags writable s) (\<lambda>s.
           if \<not> finished \<and> length (ph_queue s) < unat (ph_limit s) then Inr s
           else flush_excess n finished tags writable s)
      else Inr s)"

definition flushEvents ::
    "bool \<Rightarrow> (string \<times> string) list \<Rightarrow> bool \<Rightarrow> parsed_handler \<Rightarrow> parsed_handler res" where
  "flushEvents finished tags writable s =
     and_then (flush_complete (length (ph_queue s)) tags writable s) (\<lambda>s.
     if length (ph_queue s) < unat (ph_limit s) \<and> \<not> finished then Inr s
     else flush_excess (length (ph_queue s)) finished tags writable s)"

subsection \<open>Handling events\<close>

definition outside_subrange :: "u64 \<Rightarrow> u32 \<Rightarrow> parsed_handler \<Rightarrow> bool" where
  "outside_subrange lba len s \<longleftrightarrow>
     ph_subrangeEnd s \<noteq> 0 \<and> (lba + ucast len < ph_subrangeStart s \<or> lba > ph_subrangeEnd s)"

definition handle_device :: "device_description \<Rightarrow> parsed_handler \<Rightarrow> parsed_handler" where
  "handle_device d s =
     (let m = map_put (dd_id d) d (ph_devices s)
      in s\<lparr>ph_devices := m, ph_limit := QueueLimit * of_nat (length m),
           ph_handledDevices := ph_handledDevices s @ [d]\<rparr>)"

definition handle_io :: "event_header \<Rightarrow> event_io \<Rightarrow> parsed_handler \<Rightarrow> parsed_handler res" where
  "handle_io hdr io s =
     (if outside_subrange (eio_lba io) (eio_len io) s then Inr s
      else
        let deviceId = eio_deviceId io;
            qd = depth_at deviceId s;
            qd' = qd\<lparr>qd_Value := qd_Value qd + 1\<rparr>;
            s1 = put_depth deviceId qd' s;
            (s2, dev) = device_at deviceId s1;
            parsed = parsed_event_default
              \<lparr>pe_header := hdr,
               pe_io := Some \<lparr>pio_lba = eio_lba io, pio_len = eio_len io,
                 pio_operation = eio_operation io, pio_error = False, pio_latency = 0,
                 pio_qd = qd_Value qd', pio_writeHint = eio_writeHint io,
                 pio_flags = \<lparr>pf_flush = eio_flush io, pf_fua = eio_fua io,
                   pf_metadata = eio_metadata io, pf_direct = eio_direct io,
                   pf_readahead = eio_readahead io\<rparr>\<rparr>,
               pe_device := \<lparr>pdev_id = deviceId, pdev_name = dd_name dev,
                 pdev_partition = deviceId, pdev_model = dd_model dev\<rparr>\<rparr>
        in addMapping (Io io) (ph_popped s2 + length (ph_queue s2))
             (s2\<lparr>ph_queue := ph_queue s2 @ [parsed]\<rparr>))"

definition complete_io :: "event_header \<Rightarrow> event_io_completion \<Rightarrow> parsed_event \<Rightarrow> parsed_event" where
  "complete_io hdr cmpl e =
     (let io = the_io e;
          io = io\<lparr>pio_latency := eh_timestamp hdr - eh_timestamp (pe_header e),
                  pio_error := cmp_error cmpl\<rparr>;
          io = (if cmp_lba cmpl \<noteq> 0 \<and> cmp_len cmpl \<noteq> 0
                then io\<lparr>pio_lba := cmp_lba cmpl, pio_len := cmp_len cmpl\<rparr> else io)
      in e\<lparr>pe_io := Some io\<rparr>)"

definition handle_completion ::
    "bool \<Rightarrow> (string \<times> string) list \<Rightarrow> bool \<Rightarrow> event_header \<Rightarrow> event_io_completion
      \<Rightarrow> parsed_handler \<Rightarrow> parsed_handler res" where
  "handle_completion finished tags writable hdr cmpl s =
     (if outside_subrange (cmp_lba cmpl) (cmp_len cmpl) s then Inr s
      else
        let devId = cmp_deviceId cmpl;
            qd = depth_at devId s;
            s = put_depth devId qd s
        in and_then
             (case getCachedEventById (cmp_refId cmpl) s of
                None \<Rightarrow> Inr s
              | Some p \<Rightarrow>
                  and_then (delMapping p s) (\<lambda>s.
                  and_then (event_at p s) (\<lambda>e.
                  let s = put_event p (e\<lparr>pe_io := Some (the_io e)\<rparr>) s
                  in if eh_timestamp hdr \<ge> eh_timestamp (pe_header e)
                     then let s = put_event p (complete_io hdr cmpl e) s
                          in Inr (if qd_Value qd \<noteq> 0
                                  then put_depth devId (qd\<lparr>qd_Value := qd_Value qd - 1\<rparr>) s else s)
                     else Inr s)))
             (flushEvents finished tags writable))"

definition handle_fs_meta :: "event_filesystem_meta \<Rightarrow> parsed_handler \<Rightarrow> parsed_handler res" where
  "handle_fs_meta src s =
     (case getCachedEventById (fsm_refId src) s of
        None \<Rightarrow> Inr s
      | Some p \<Rightarrow>
          and_then (event_at p s) (\<lambda>e.
          let partId = pfi_partitionId (fsm_fileId src);
              e' = e\<lparr>pe_file := Some ((the_file e)
                       \<lparr>pfile_id := pfi_id (fsm_fileId src), pfile_offset := fsm_fileOffset src,
                        pfile_size := fsm_fileSize src, pfile_eventType := Fs_Access,
                        pfile_creationDate := pfi_creationDate (fsm_fileId src)\<rparr>),
                     pe_device := (pe_device e)\<lparr>pdev_partition := partId\<rparr>\<rparr>;
              s1 = put_event p e' s
          in case map_find (ph_devices s1) partId of
               Some _ \<Rightarrow> Inr s1
             | None \<Rightarrow>
                 let (s2, _) = device_at partId s1;
                     (s3, dev) = device_at (pdev_id (pe_device e')) s2
                 in Inr (s3\<lparr>ph_devices := map_put partId dev (ph_devices s3)\<rparr>)))"

definition handle_file_event ::
    "event_header \<Rightarrow> event_filesystem_file_event \<Rightarrow> parsed_handler \<Rightarrow> parsed_handler" where
  "handle_file_event hdr ev s =
     (let partId = pfi_partitionId (fse_fileId ev);
          (s, dev) = device_at partId s;
          parsed = parsed_event_default
            \<lparr>pe_header := hdr,
             pe_file := Some (parsed_file_default
               \<lparr>pfile_eventType := fse_fsEventType ev, pfile_id := pfi_id (fse_fileId ev),
                pfile_creationDate := pfi_creationDate (fse_fileId ev)\<rparr>),
             pe_device := \<lparr>pdev_id = dd_id dev, pdev_name = dd_name dev,
               pdev_partition = partId, pdev_model = dd_model dev\<rparr>\<rparr>
      in s\<lparr>ph_queue := ph_queue s @ [parsed]\<rparr>)"

definition set_offset :: "trace_event \<Rightarrow> parsed_handler \<Rightarrow> parsed_handler" where
  "set_offset e s =
     (if ph_timestampOffset s = 0
      then case te_event e of
             DeviceDescription _ \<Rightarrow> s
           | _ \<Rightarrow> s\<lparr>ph_timestampOffset := eh_timestamp (te_header e)\<rparr>
      else s)"

definition compareEvents :: "trace_event \<Rightarrow> trace_event \<Rightarrow> bool" where
  "compareEvents a b \<longleftrightarrow> eh_sid (te_header a) < eh_sid (te_header b)"

definition handleEvent ::
    "bool \<Rightarrow> (string \<times> string) list \<Rightarrow> bool \<Rightarrow> trace_event \<Rightarrow> parsed_handler \<Rightarrow> parsed_handler res" where
  "handleEvent finished tags writable e s =
     (let s = set_offset e s; hdr = te_header e
      in case te_event e of
           DeviceDescription d \<Rightarrow> Inr (handle_device d s)
         | Io io \<Rightarrow> handle_io hdr io s
         | IoCompletion cmpl \<Rightarrow> handle_completion finished tags writable hdr cmpl s
         | FilesystemMeta m \<Rightarrow> handle_fs_meta m s
         | FilesystemFileEvent ev \<Rightarrow> Inr (handle_file_event hdr ev s)
         | FilesystemFileName _ \<Rightarrow> Inr s
         | EventType_Not_Set \<Rightarrow> Inr s)"

text \<open>
  \<open>processEvents\<close>, when the extension is not ready: every event is handled (the flag with each says
  whether the file parser had finished by then), and what is still queued is flushed.
\<close>

fun handle_all ::
    "(string \<times> string) list \<Rightarrow> bool \<Rightarrow> (bool \<times> trace_event) list \<Rightarrow> parsed_handler \<Rightarrow> parsed_handler res" where
  "handle_all tags writable [] s = Inr s"
| "handle_all tags writable ((finished, e) # es) s =
     and_then (handleEvent finished tags writable e s) (handle_all tags writable es)"

definition processEvents ::
    "(string \<times> string) list \<Rightarrow> bool \<Rightarrow> (u64 \<times> parsed_event) list option \<Rightarrow>
      (bool \<times> trace_event) list \<Rightarrow> parsed_handler \<Rightarrow> parsed_handler res" where
  "processEvents tags writable ready es s =
     (case ready of
        Some cached \<Rightarrow> Inr (s\<lparr>ph_handledIOs := ph_handledIOs s @ map snd cached\<rparr>)
      | None \<Rightarrow>
          and_then (handle_all tags writable es s) (flushEvents True tags writable))"

subsection \<open>The invariant\<close>

text \<open>
  Every identifier maps to an IO that is still in the queue and carries the identifier, the
  events passed on are numbered from 1, and no stored file name is empty.
\<close>

definition pointers_ok :: "parsed_handler \<Rightarrow> bool" where
  "pointers_ok s \<longleftrightarrow> map_ok (ph_idMapping s) \<and>
     (\<forall>k p. map_find (ph_idMapping s) k = Some p \<longrightarrow>
        (\<exists>e. event_at p s = Inr e \<and> pe_io e \<noteq> None \<and> eh_sid (pe_header e) = k))"

definition numbered :: "parsed_handler \<Rightarrow> bool" where
  "numbered s \<longleftrightarrow> ph_popped s = length (ph_handledIOs s) \<and> ph_refSid s = of_nat (ph_popped s) \<and>
     map (\<lambda>e. eh_sid (pe_header e)) (ph_handledIOs s) = map (\<lambda>n. of_nat (Suc n)) [0..<ph_popped s]"

definition viewer_ok :: "viewer \<Rightarrow> bool" where
  "viewer_ok v \<longleftrightarrow> map_ok v \<and> (\<forall>info \<in> snd ` set v. fi_name info \<noteq> '''')"

definition viewers_ok :: "(u64, viewer) std_map \<Rightarrow> bool" where
  "viewers_ok vs \<longleftrightarrow> map_ok vs \<and> map_all viewer_ok vs"

definition handler_ok :: "parsed_handler \<Rightarrow> bool" where
  "handler_ok s \<longleftrightarrow> pointers_ok s \<and> numbered s \<and> viewers_ok (ph_viewers s)"

text \<open>What identifies an event from its arrival to its delivery.\<close>

definition io_ident :: "parsed_io \<Rightarrow> int \<times> parsed_flags \<times> u32" where
  "io_ident io = (pio_operation io, pio_flags io, pio_writeHint io)"

definition ident :: "parsed_event \<Rightarrow> (u64 \<times> int \<times> parsed_flags \<times> u32) + (u64 \<times> fs_event_type \<times> u64)" where
  "ident e =
     (case pe_io e of
        Some io \<Rightarrow> Inl (pdev_id (pe_device e), io_ident io)
      | None \<Rightarrow> Inr (pdev_partition (pe_device e), pfile_eventType (the_file e), pfile_id (the_file e)))"

definition all_events :: "parsed_handler \<Rightarrow> parsed_event list" where
  "all_events s = ph_handledIOs s @ ph_queue s"

lemma event_at_Inr:
  "event_at p s = Inr e \<longleftrightarrow> ph_popped s \<le> p \<and> p < ph_popped s + length (ph_queue s) \<and>
     e = ph_queue s ! (p - ph_popped s)"
  by (auto simp: event_at_def)

lemma put_event_frame [simp]:
  "ph_popped (put_event p e s) = ph_popped s" "ph_refSid (put_event p e s) = ph_refSid s"
  "ph_idMapping (put_event p e s) = ph_idMapping s" "ph_devices (put_event p e s) = ph_devices s"
  "ph_viewers (put_event p e s) = ph_viewers s" "ph_limit (put_event p e s) = ph_limit s"
  "ph_handledIOs (put_event p e s) = ph_handledIOs s"
  "ph_timestampOffset (put_event p e s) = ph_timestampOffset s"
  "ph_devIoQueueDepth (put_event p e s) = ph_devIoQueueDepth s"
  "length (ph_queue (put_event p e s)) = length (ph_queue s)"
  by (simp_all add: put_event_def)

lemma put_depth_frame [simp]:
  "ph_popped (put_depth d q s) = ph_popped s" "ph_refSid (put_depth d q s) = ph_refSid s"
  "ph_idMapping (put_depth d q s) = ph_idMapping s" "ph_devices (put_depth d q s) = ph_devices s"
  "ph_viewers (put_depth d q s) = ph_viewers s" "ph_limit (put_depth d q s) = ph_limit s"
  "ph_handledIOs (put_depth d q s) = ph_handledIOs s" "ph_queue (put_depth d q s) = ph_queue s"
  "ph_timestampOffset (put_depth d q s) = ph_timestampOffset s"
  by (simp_all add: put_depth_def)

lemma device_at_frame [simp]:
  "ph_popped (fst (device_at d s)) = ph_popped s" "ph_refSid (fst (device_at d s)) = ph_refSid s"
  "ph_idMapping (fst (device_at d s)) = ph_idMapping s"
  "ph_viewers (fst (device_at d s)) = ph_viewers s" "ph_limit (fst (device_at d s)) = ph_limit s"
  "ph_handledIOs (fst (device_at d s)) = ph_handledIOs s" "ph_queue (fst (device_at d s)) = ph_queue s"
  by (simp_all add: device_at_def split: prod.splits)

lemma event_at_put:
  assumes "event_at p s = Inr e"
  shows "event_at q (put_event p e' s) = (if q = p then Inr e' else event_at q s)"
  using assms by (auto simp: event_at_def put_event_def nth_list_update split: if_splits)

lemma pointers_okD:
  assumes "pointers_ok s" "map_find (ph_idMapping s) k = Some q"
  obtains x where "event_at q s = Inr x" "pe_io x \<noteq> None" "eh_sid (pe_header x) = k"
  using assms unfolding pointers_ok_def by blast

text \<open>Any two states with the same queue, mapping, deliveries and viewers are alike for the invariant.\<close>

lemma handler_ok_cong:
  assumes "ph_queue s' = ph_queue s" "ph_popped s' = ph_popped s" "ph_idMapping s' = ph_idMapping s"
    and "ph_handledIOs s' = ph_handledIOs s" "ph_refSid s' = ph_refSid s"
    and "ph_viewers s' = ph_viewers s"
  shows "handler_ok s' = handler_ok s"
  using assms by (simp add: handler_ok_def pointers_ok_def numbered_def event_at_def)

lemma handler_ok_put_event:
  assumes "handler_ok s" "event_at p s = Inr e" "pe_io e \<noteq> None \<longrightarrow> pe_io e' \<noteq> None"
    and "eh_sid (pe_header e') = eh_sid (pe_header e)"
  shows "handler_ok (put_event p e' s)"
proof -
  have "\<exists>x. event_at q (put_event p e' s) = Inr x \<and> pe_io x \<noteq> None \<and> eh_sid (pe_header x) = k"
    if k: "map_find (ph_idMapping s) k = Some q" for k q
  proof -
    obtain x where "event_at q s = Inr x" "pe_io x \<noteq> None" "eh_sid (pe_header x) = k"
      using assms(1) pointers_okD [OF _ k] unfolding handler_ok_def by blast
    then show ?thesis using assms(2-4) by (cases "q = p") (auto simp: event_at_put [OF assms(2)])
  qed
  then show ?thesis
    using assms(1) by (simp add: handler_ok_def pointers_ok_def numbered_def)
qed

lemma delMapping_ok:
  assumes "handler_ok s" "event_at p s = Inr e"
  shows "\<exists>s' e'. delMapping p s = Inr s' \<and> handler_ok s' \<and> event_at p s' = Inr e' \<and>
     e' = (if pe_io e = None then e else set_sid 0 e) \<and>
     s' = (if pe_io e = None then s else put_event p (set_sid 0 e)
       (s\<lparr>ph_idMapping := map_erase (eh_sid (pe_header e)) (ph_idMapping s)\<rparr>)) \<and>
     (pe_io e \<noteq> None \<longrightarrow> (\<forall>k. map_find (ph_idMapping s') k \<noteq> Some p))"
proof (cases "pe_io e = None")
  case True
  then show ?thesis using assms by (simp add: delMapping_def)
next
  case False
  let ?k = "eh_sid (pe_header e)"
  define s1 where "s1 = s\<lparr>ph_idMapping := map_erase ?k (ph_idMapping s)\<rparr>"
  define s' where "s' = put_event p (set_sid 0 e) s1"
  have ok: "map_ok (ph_idMapping s)" using assms(1) by (simp add: handler_ok_def pointers_ok_def)
  have at1: "event_at q s1 = event_at q s" for q by (simp add: s1_def event_at_def)
  then have at: "event_at q s' = (if q = p then Inr (set_sid 0 e) else event_at q s)" for q
    using assms(2) by (simp add: s'_def event_at_put)
  have find: "map_find (ph_idMapping s') k = (if k = ?k then None else map_find (ph_idMapping s) k)" for k
    using ok by (simp add: s'_def s1_def sm.find_erase)
  have other: "\<exists>x. event_at q s = Inr x \<and> pe_io x \<noteq> None \<and> eh_sid (pe_header x) = k \<and> q \<noteq> p"
    if "map_find (ph_idMapping s') k = Some q" for k q
  proof -
    have "map_find (ph_idMapping s) k = Some q" "k \<noteq> ?k" using that by (auto simp: find split: if_splits)
    moreover have "pointers_ok s" using assms(1) by (simp add: handler_ok_def)
    ultimately obtain x where "event_at q s = Inr x" "pe_io x \<noteq> None" "eh_sid (pe_header x) = k"
      by (meson pointers_okD)
    then show ?thesis using assms(2) \<open>k \<noteq> ?k\<close> by auto
  qed
  have "map_ok (ph_idMapping s')" using ok by (simp add: s'_def s1_def sm.ok_erase)
  moreover have "\<exists>x. event_at q s' = Inr x \<and> pe_io x \<noteq> None \<and> eh_sid (pe_header x) = k"
    if "map_find (ph_idMapping s') k = Some q" for k q
    using other [OF that] by (auto simp: at)
  ultimately have "pointers_ok s'" unfolding pointers_ok_def by blast
  then have "handler_ok s'" using assms(1) by (simp add: handler_ok_def numbered_def s'_def s1_def)
  moreover have "delMapping p s = Inr s'" using assms(2) False by (simp add: delMapping_def s'_def s1_def)
  moreover have "\<forall>k. map_find (ph_idMapping s') k \<noteq> Some p" using other by blast
  ultimately show ?thesis using at [of p] False by (auto simp: s'_def s1_def)
qed

subsection \<open>Passing one event on\<close>

text \<open>The IO data an event has when it leaves is what it had in the queue, but for the queue depth.\<close>

definition same_io :: "parsed_event \<Rightarrow> parsed_event \<Rightarrow> bool" where
  "same_io e e' \<longleftrightarrow> pe_device e' = pe_device e \<and>
     map_option (\<lambda>io. io\<lparr>pio_qd := 0\<rparr>) (pe_io e') = map_option (\<lambda>io. io\<lparr>pio_qd := 0\<rparr>) (pe_io e)"

lemma getFileSystemViewer_ok:
  assumes "viewers_ok vs"
  shows "\<exists>vs' v. getFileSystemViewer p vs = Inr (vs', v) \<and> viewers_ok vs' \<and> viewer_ok v"
proof (cases "map_find vs p")
  case None
  have empty: "viewer_ok []" by (simp add: viewer_ok_def)
  then have "viewers_ok (map_put p [] vs)"
    using assms unfolding viewers_ok_def by (simp add: sm.ok_put map_all_put)
  moreover have "getFileSystemViewer p vs = Inr (map_put p [] vs, [])"
    by (simp add: getFileSystemViewer_def None map_emplace_def)
  ultimately show ?thesis using empty by blast
next
  case (Some v)
  then have "viewer_ok v" using assms map_all_find [of viewer_ok vs p v] by (simp add: viewers_ok_def)
  moreover have "getFileSystemViewer p vs = Inr (vs, v)" by (simp add: getFileSystemViewer_def Some)
  ultimately show ?thesis using assms by blast
qed

lemma viewer_path:
  assumes "viewers_ok vs"
  shows "\<exists>vs' v path. getFileSystemViewer p vs = Inr (vs', v) \<and> viewers_ok vs' \<and>
     getFilePath i v = Some path"
proof -
  obtain vs' v where v: "getFileSystemViewer p vs = Inr (vs', v)" "viewers_ok vs'" "viewer_ok v"
    using getFileSystemViewer_ok [OF assms] by blast
  have "map_ok v" and "\<forall>info \<in> snd ` set v. fi_name info \<noteq> ''''"
    using v(3) unfolding viewer_ok_def by (rule conjunct1, rule conjunct2)
  from getFilePath_total [OF this] obtain path where "getFilePath i v = Some path" ..
  then show ?thesis using v(1,2) by (intro exI conjI)
qed

lemma numbered_push:
  assumes "numbered s" "eh_sid (pe_header e) = ph_refSid s + 1"
    and "ph_handledIOs s' = ph_handledIOs s @ [e]" "ph_popped s' = Suc (ph_popped s)"
    and "ph_refSid s' = ph_refSid s + 1"
  shows "numbered s'"
  using assms by (simp add: numbered_def)

lemma same_but_qd:
  "io\<lparr>pio_qd := 0\<rparr> = io'\<lparr>pio_qd := 0\<rparr> \<Longrightarrow> io_ident io = io_ident io' \<and> pio_latency io = pio_latency io' \<and>
     pio_error io = pio_error io' \<and> pio_lba io = pio_lba io' \<and> pio_len io = pio_len io'"
  by (cases io; cases io') (simp add: io_ident_def)

lemma same_but_path:
  "f\<lparr>pfile_path := ''''\<rparr> = f'\<lparr>pfile_path := ''''\<rparr> \<Longrightarrow>
     pfile_id f = pfile_id f' \<and> pfile_eventType f = pfile_eventType f'"
  by (cases f; cases f') simp

lemma released_event_ok:
  assumes "viewers_ok (ph_viewers s)"
  shows "\<exists>vs e'. released_event tags s e = Inr (vs, e') \<and> viewers_ok vs \<and> same_io e e' \<and>
     eh_sid (pe_header e') = ph_refSid s + 1 \<and>
     eh_timestamp (pe_header e') = (if eh_timestamp (pe_header e) > ph_timestampOffset s
       then eh_timestamp (pe_header e) - ph_timestampOffset s else 0) \<and>
     map_option (\<lambda>f. f\<lparr>pfile_path := ''''\<rparr>) (pe_file e') =
       map_option (\<lambda>f. f\<lparr>pfile_path := ''''\<rparr>) (pe_file e)"
proof -
  define e1 where "e1 = set_sid (ph_refSid s + 1) e"
  define e2 where "e2 = (case pe_io e1 of None \<Rightarrow> e1
    | Some io \<Rightarrow> e1\<lparr>pe_io := Some (io\<lparr>pio_qd :=
        pio_qd io - qd_Adjustment (depth_at (pdev_id (pe_device e)) s)\<rparr>)\<rparr>)"
  define e3 where "e3 = e2\<lparr>pe_header := (pe_header e2)\<lparr>eh_timestamp :=
    (if eh_timestamp (pe_header e2) > ph_timestampOffset s
     then eh_timestamp (pe_header e2) - ph_timestampOffset s else 0)\<rparr>\<rparr>"
  have e3: "same_io e e3" "eh_sid (pe_header e3) = ph_refSid s + 1" "pe_file e3 = pe_file e"
    "eh_timestamp (pe_header e3) = (if eh_timestamp (pe_header e) > ph_timestampOffset s
       then eh_timestamp (pe_header e) - ph_timestampOffset s else 0)"
    by (auto simp: e3_def e2_def e1_def same_io_def set_sid_def split: option.splits)
  have run: "released_event tags s e = and_then
      (case pe_file e of
         None \<Rightarrow> Inr (ph_viewers s, e3)
       | Some f \<Rightarrow>
           and_then (getFileSystemViewer (pdev_partition (pe_device e)) (ph_viewers s)) (\<lambda>(vs, v).
           case getFilePath (file_id_of_parsed e3) v of
             None \<Rightarrow> Inl No_Return
           | Some path \<Rightarrow> Inr (vs, e3\<lparr>pe_file := Some (f\<lparr>pfile_path := path\<rparr>)\<rparr>)))
      (\<lambda>(vs, e4). Inr (vs, if tags \<noteq> [] then e4\<lparr>pe_tags := tags\<rparr> else e4))"
    unfolding released_event_def Let_def e1_def [symmetric] e2_def [symmetric] e3_def [symmetric]
      e3(3) ..
  obtain vs v path where "getFileSystemViewer (pdev_partition (pe_device e)) (ph_viewers s) = Inr (vs, v)"
    "viewers_ok vs" "getFilePath (file_id_of_parsed e3) v = Some path"
    using viewer_path [OF assms] by metis
  then show ?thesis
    unfolding run using assms e3 by (cases "pe_file e") (auto simp: same_io_def)
qed

lemma pushOut_ok:
  assumes ok: "handler_ok s" and q: "ph_queue s = e # rest"
  shows "\<exists>s' e'. pushOutEvent tags w s = Inr s' \<and> handler_ok s' \<and> ph_queue s' = rest \<and>
     ph_handledIOs s' = ph_handledIOs s @ [e'] \<and> ident e' = ident e \<and> same_io e e' \<and>
     ph_popped s' = Suc (ph_popped s) \<and> ph_limit s' = ph_limit s \<and>
     ph_idMapping s' = (if pe_io e = None then ph_idMapping s
       else map_erase (eh_sid (pe_header e)) (ph_idMapping s))"
proof -
  have at: "event_at (ph_popped s) s = Inr e" by (simp add: event_at_def q)
  obtain s1 e1 where s1: "delMapping (ph_popped s) s = Inr s1" "handler_ok s1"
    "e1 = (if pe_io e = None then e else set_sid 0 e)"
    "s1 = (if pe_io e = None then s else put_event (ph_popped s) (set_sid 0 e)
       (s\<lparr>ph_idMapping := map_erase (eh_sid (pe_header e)) (ph_idMapping s)\<rparr>))"
    "pe_io e \<noteq> None \<longrightarrow> (\<forall>k. map_find (ph_idMapping s1) k \<noteq> Some (ph_popped s))"
    using delMapping_ok [OF ok at] by blast
  have q1: "ph_queue s1 = e1 # rest" using s1(3,4) q by (simp add: put_event_def)
  have frame: "ph_popped s1 = ph_popped s" "ph_handledIOs s1 = ph_handledIOs s"
    "ph_refSid s1 = ph_refSid s" "ph_limit s1 = ph_limit s"
    "ph_idMapping s1 = (if pe_io e = None then ph_idMapping s
       else map_erase (eh_sid (pe_header e)) (ph_idMapping s))"
    using s1(4) by simp_all
  obtain vs e' where e': "released_event tags s1 e1 = Inr (vs, e')" "viewers_ok vs" "same_io e1 e'"
    "eh_sid (pe_header e') = ph_refSid s1 + 1"
    "map_option (\<lambda>f. f\<lparr>pfile_path := ''''\<rparr>) (pe_file e') =
       map_option (\<lambda>f. f\<lparr>pfile_path := ''''\<rparr>) (pe_file e1)"
    using released_event_ok [of s1 tags e1] s1(2) unfolding handler_ok_def by metis
  obtain s' where s': "pushOutEvent tags w s = Inr s'" "ph_queue s' = rest"
    "ph_handledIOs s' = ph_handledIOs s1 @ [e']" "ph_popped s' = Suc (ph_popped s1)"
    "ph_limit s' = ph_limit s1" "ph_idMapping s' = ph_idMapping s1"
    "ph_refSid s' = ph_refSid s1 + 1" "ph_viewers s' = vs"
    using q q1 s1(1) e'(1) by (simp add: pushOutEvent_def Let_def)
  have not_head: "map_find (ph_idMapping s1) k \<noteq> Some (ph_popped s)" for k
  proof (cases "pe_io e = None")
    case True
    then show ?thesis using s1(2,4) at pointers_okD [of s k "ph_popped s"] ok
      by (metis handler_ok_def sum.inject(2))
  qed (use s1(5) in blast)
  have "pointers_ok s'"
  proof -
    have p1: "pointers_ok s1" using s1(2) by (simp add: handler_ok_def)
    have "\<exists>x. event_at p s' = Inr x \<and> pe_io x \<noteq> None \<and> eh_sid (pe_header x) = k"
      if k: "map_find (ph_idMapping s') k = Some p" for k p
    proof -
      have k1: "map_find (ph_idMapping s1) k = Some p" using k s'(6) by simp
      obtain x where x: "event_at p s1 = Inr x" "pe_io x \<noteq> None" "eh_sid (pe_header x) = k"
        using pointers_okD [OF p1 k1] .
      have "p \<noteq> ph_popped s1" using not_head [of k] k1 frame(1) by auto
      then have "event_at p s' = event_at p s1"
        using s'(2,4) q1 by (auto simp: event_at_def nth_Cons')
      then show ?thesis using x by simp
    qed
    moreover have "map_ok (ph_idMapping s')" using p1 s'(6) by (simp add: pointers_ok_def)
    ultimately show ?thesis unfolding pointers_ok_def by blast
  qed
  moreover have "numbered s'"
    using numbered_push [of s1 e' s'] s1(2) e'(4) s'(3,4,7) by (simp add: handler_ok_def)
  ultimately have "handler_ok s'" using e'(2) s'(8) by (simp add: handler_ok_def)
  moreover have "same_io e e'" using e'(3) s1(3) by (auto simp: same_io_def set_sid_def)
  moreover have "ident e' = ident e"
  proof -
    have "pe_file e1 = pe_file e" using s1(3) by (simp add: set_sid_def)
    then show ?thesis using \<open>same_io e e'\<close> e'(5)
      by (cases "pe_io e"; cases "pe_io e'"; cases "pe_file e"; cases "pe_file e'")
        (auto simp: same_io_def ident_def the_file_def dest!: same_but_qd same_but_path)
  qed
  ultimately show ?thesis using s' frame by auto
qed

subsection \<open>Flushing\<close>

text \<open>No event is lost, added or reordered between two states; each keeps its IO data.\<close>

definition delivers :: "parsed_handler \<Rightarrow> parsed_handler \<Rightarrow> bool" where
  "delivers s s' \<longleftrightarrow> map ident (all_events s') = map ident (all_events s) \<and>
     list_all2 same_io (all_events s) (all_events s') \<and> ph_limit s' = ph_limit s"

lemma same_io_refl [simp]: "same_io e e"
  by (simp add: same_io_def)

lemma same_io_trans: "same_io a b \<Longrightarrow> same_io b c \<Longrightarrow> same_io a c"
  by (simp add: same_io_def)

lemma delivers_refl [simp]: "delivers s s"
  by (simp add: delivers_def list_all2_refl)

lemma delivers_trans: "delivers a b \<Longrightarrow> delivers b c \<Longrightarrow> delivers a c"
  unfolding delivers_def by (metis list_all2_trans [of same_io same_io same_io] same_io_trans)

lemma pushOut_delivers:
  assumes "handler_ok s" "ph_queue s \<noteq> []"
  obtains s' where "pushOutEvent tags w s = Inr s'" "handler_ok s'" "delivers s s'"
    "ph_queue s' = tl (ph_queue s)"
proof -
  obtain e rest where q: "ph_queue s = e # rest" using assms(2) by (cases "ph_queue s") auto
  obtain s' e' where s': "pushOutEvent tags w s = Inr s'" "handler_ok s'" "ph_queue s' = rest"
    "ph_handledIOs s' = ph_handledIOs s @ [e']" "ident e' = ident e" "same_io e e'"
    "ph_limit s' = ph_limit s"
    using pushOut_ok [OF assms(1) q] by blast
  have "list_all2 same_io (all_events s) (all_events s')"
    by (simp add: all_events_def q s'(3,4,6) list_all2_append list_all2_refl)
  then have "delivers s s'" by (simp add: delivers_def all_events_def q s'(3-5,7))
  with s' q that show thesis by simp
qed

lemma flush_complete_ok:
  assumes "handler_ok s"
  shows "\<exists>s'. flush_complete n tags w s = Inr s' \<and> handler_ok s' \<and> delivers s s' \<and>
     (length (ph_queue s) \<le> n \<longrightarrow> ph_queue s' = [] \<or> pio_latency (the_io (hd (ph_queue s'))) = 0)"
  using assms
proof (induction n arbitrary: s)
  case (Suc n)
  show ?case
  proof (cases "ph_queue s \<noteq> [] \<and> pio_latency (the_io (hd (ph_queue s))) \<noteq> 0")
    case True
    then obtain s1 where s1: "pushOutEvent tags w s = Inr s1" "handler_ok s1" "delivers s s1"
      "ph_queue s1 = tl (ph_queue s)"
      using pushOut_delivers [OF Suc.prems] by blast
    from Suc.IH [OF s1(2)] obtain s' where s': "flush_complete n tags w s1 = Inr s'" "handler_ok s'"
      "delivers s1 s'"
      "length (ph_queue s1) \<le> n \<longrightarrow> ph_queue s' = [] \<or> pio_latency (the_io (hd (ph_queue s'))) = 0"
      by blast
    have "delivers s s'" using s1(3) s'(3) by (rule delivers_trans)
    with True s1 s' show ?thesis by auto
  next
    case False
    then show ?thesis using Suc.prems by auto
  qed
qed auto

lemma flush_excess_ok:
  assumes "handler_ok s"
  shows "\<exists>s'. flush_excess n fin tags w s = Inr s' \<and> handler_ok s' \<and> delivers s s' \<and>
     (length (ph_queue s) \<le> n \<longrightarrow>
        ph_queue s' = [] \<or> (\<not> fin \<and> length (ph_queue s') < unat (ph_limit s')))"
  using assms
proof (induction n arbitrary: s)
  case (Suc n)
  show ?case
  proof (cases "ph_queue s = []")
    case False
    then obtain s1 where s1: "pushOutEvent tags w s = Inr s1" "handler_ok s1" "delivers s s1"
      "ph_queue s1 = tl (ph_queue s)"
      using pushOut_delivers [OF Suc.prems] by blast
    from Suc.IH [OF s1(2)] obtain s' where s': "flush_excess n fin tags w s1 = Inr s'" "handler_ok s'"
      "delivers s1 s'" "length (ph_queue s1) \<le> n \<longrightarrow>
        ph_queue s' = [] \<or> (\<not> fin \<and> length (ph_queue s') < unat (ph_limit s'))"
      by blast
    have "delivers s s'" using s1(3) s'(3) by (rule delivers_trans)
    with False s1 s' show ?thesis by auto
  qed (use Suc.prems in auto)
qed auto

lemma flushEvents_ok:
  assumes "handler_ok s"
  shows "\<exists>s'. flushEvents fin tags w s = Inr s' \<and> handler_ok s' \<and> delivers s s' \<and>
     (ph_queue s' = [] \<or> (\<not> fin \<and> length (ph_queue s') < unat (ph_limit s')))"
proof -
  obtain s1 where s1: "flush_complete (length (ph_queue s)) tags w s = Inr s1" "handler_ok s1"
    "delivers s s1" using flush_complete_ok [OF assms] by blast
  show ?thesis
  proof (cases "length (ph_queue s1) < unat (ph_limit s1) \<and> \<not> fin")
    case True
    then show ?thesis using s1 by (simp add: flushEvents_def)
  next
    case False
    obtain s' where s': "flush_excess (length (ph_queue s1)) fin tags w s1 = Inr s'" "handler_ok s'"
      "delivers s1 s'" "ph_queue s' = [] \<or> (\<not> fin \<and> length (ph_queue s') < unat (ph_limit s'))"
      using flush_excess_ok [OF s1(2)] by blast
    then show ?thesis using s1 False delivers_trans [OF s1(3) s'(3)]
      by (auto simp: flushEvents_def)
  qed
qed

subsection \<open>Handling one event\<close>

text \<open>What an event adds to the sequence of identities.\<close>

definition arrivals :: "trace_event \<Rightarrow> parsed_handler \<Rightarrow>
    ((u64 \<times> int \<times> parsed_flags \<times> u32) + (u64 \<times> fs_event_type \<times> u64)) list" where
  "arrivals e s =
     (case te_event e of
        Io io \<Rightarrow>
          if outside_subrange (eio_lba io) (eio_len io) s then []
          else [Inl (eio_deviceId io, eio_operation io,
                 \<lparr>pf_flush = eio_flush io, pf_fua = eio_fua io, pf_metadata = eio_metadata io,
                  pf_direct = eio_direct io, pf_readahead = eio_readahead io\<rparr>, eio_writeHint io)]
      | FilesystemFileEvent ev \<Rightarrow>
          [Inr (pfi_partitionId (fse_fileId ev), fse_fsEventType ev, pfi_id (fse_fileId ev))]
      | _ \<Rightarrow> [])"

lemma handler_ok_enqueue:
  assumes "handler_ok s"
  shows "handler_ok (s\<lparr>ph_queue := ph_queue s @ [e]\<rparr>)"
proof -
  let ?s = "s\<lparr>ph_queue := ph_queue s @ [e]\<rparr>"
  have "\<exists>x. event_at p ?s = Inr x \<and> pe_io x \<noteq> None \<and> eh_sid (pe_header x) = k"
    if k: "map_find (ph_idMapping s) k = Some p" for k p
  proof -
    obtain x where "event_at p s = Inr x" "pe_io x \<noteq> None" "eh_sid (pe_header x) = k"
      using assms pointers_okD [OF _ k] unfolding handler_ok_def by blast
    moreover from this have "event_at p ?s = Inr x" by (auto simp: event_at_Inr nth_append)
    ultimately show ?thesis by blast
  qed
  then show ?thesis using assms by (simp add: handler_ok_def pointers_ok_def numbered_def)
qed

lemma addMapping_ok:
  assumes ok: "handler_ok s" and e: "event_at p s = Inr e" "pe_io e \<noteq> None"
    and fresh: "\<And>k. map_find (ph_idMapping s) k \<noteq> Some p"
  shows "\<exists>s'. addMapping (Io io) p s = Inr s' \<and> handler_ok s' \<and>
     map ident (ph_queue s') = map ident (ph_queue s) \<and>
     list_all2 same_io (ph_queue s) (ph_queue s') \<and>
     ph_handledIOs s' = ph_handledIOs s \<and> ph_limit s' = ph_limit s \<and>
     ph_popped s' = ph_popped s"
proof (cases "eio_id io = 0")
  case True
  then show ?thesis using ok by (simp add: addMapping_def list_all2_refl)
next
  case False
  let ?k = "eio_id io"
  define s' where "s' = put_event p (set_sid ?k e) (s\<lparr>ph_idMapping := map_put ?k p (ph_idMapping s)\<rparr>)"
  have mok: "map_ok (ph_idMapping s)" using ok by (simp add: handler_ok_def pointers_ok_def)
  have run: "addMapping (Io io) p s = Inr s'"
    using False e(1) by (auto simp: addMapping_def map_emplace_def s'_def split: option.splits)
  have at: "event_at q s' = (if q = p then Inr (set_sid ?k e) else event_at q s)" for q
  proof -
    have "event_at q (s\<lparr>ph_idMapping := m\<rparr>) = event_at q s" for m q by (simp add: event_at_def)
    then show ?thesis unfolding s'_def by (subst event_at_put [of _ _ e]) (simp_all add: e)
  qed
  have "\<exists>x. event_at q s' = Inr x \<and> pe_io x \<noteq> None \<and> eh_sid (pe_header x) = k"
    if k: "map_find (ph_idMapping s') k = Some q" for k q
  proof (cases "k = ?k")
    case True
    then have "q = p" using k mok by (simp add: s'_def sm.find_put)
    then show ?thesis using e(2) True by (simp add: at set_sid_def)
  next
    case False
    then have k': "map_find (ph_idMapping s) k = Some q" using k mok by (simp add: s'_def sm.find_put)
    obtain x where "event_at q s = Inr x" "pe_io x \<noteq> None" "eh_sid (pe_header x) = k"
      using ok pointers_okD [OF _ k'] unfolding handler_ok_def by blast
    then show ?thesis using fresh [of k] k' by (auto simp: at)
  qed
  then have "handler_ok s'"
    using ok mok by (simp add: handler_ok_def pointers_ok_def numbered_def s'_def sm.ok_put)
  moreover have "map ident (ph_queue s') = map ident (ph_queue s)"
    "list_all2 same_io (ph_queue s) (ph_queue s')"
    using e by (auto simp: s'_def put_event_def event_at_Inr map_update ident_def set_sid_def
        the_file_def list_eq_iff_nth_eq nth_list_update list_all2_conv_all_nth same_io_def)
  ultimately show ?thesis using run by (simp add: s'_def)
qed

text \<open>The step relation: no fault, the invariant, and the identities grow by \<open>xs\<close> at the end.\<close>

definition steps_to :: "parsed_handler \<Rightarrow> _ list \<Rightarrow> parsed_handler res \<Rightarrow> bool" where
  "steps_to s xs r \<longleftrightarrow> (\<exists>s'. r = Inr s' \<and> handler_ok s' \<and>
     map ident (all_events s') = map ident (all_events s) @ xs)"

lemma outside_subrange_cong:
  "ph_subrangeStart s' = ph_subrangeStart s \<Longrightarrow> ph_subrangeEnd s' = ph_subrangeEnd s \<Longrightarrow>
     outside_subrange lba len s' = outside_subrange lba len s"
  by (simp add: outside_subrange_def)

lemma handle_io_steps:
  assumes ok: "handler_ok s" and ev: "te_event e = Io io"
  shows "steps_to s (arrivals e s) (handle_io (te_header e) io s)"
proof (cases "outside_subrange (eio_lba io) (eio_len io) s")
  case True
  then show ?thesis using ok by (simp add: steps_to_def handle_io_def arrivals_def ev)
next
  case False
  define qd' where "qd' = (depth_at (eio_deviceId io) s)\<lparr>qd_Value := qd_Value (depth_at (eio_deviceId io) s) + 1\<rparr>"
  define s2 where "s2 = fst (device_at (eio_deviceId io) (put_depth (eio_deviceId io) qd' s))"
  define dev where "dev = snd (device_at (eio_deviceId io) (put_depth (eio_deviceId io) qd' s))"
  define parsed where "parsed = parsed_event_default
    \<lparr>pe_header := te_header e,
     pe_io := Some \<lparr>pio_lba = eio_lba io, pio_len = eio_len io,
       pio_operation = eio_operation io, pio_error = False, pio_latency = 0,
       pio_qd = qd_Value qd', pio_writeHint = eio_writeHint io,
       pio_flags = \<lparr>pf_flush = eio_flush io, pf_fua = eio_fua io,
         pf_metadata = eio_metadata io, pf_direct = eio_direct io,
         pf_readahead = eio_readahead io\<rparr>\<rparr>,
     pe_device := \<lparr>pdev_id = eio_deviceId io, pdev_name = dd_name dev,
       pdev_partition = eio_deviceId io, pdev_model = dd_model dev\<rparr>\<rparr>"
  define p where "p = ph_popped s + length (ph_queue s)"
  define s3 where "s3 = s2\<lparr>ph_queue := ph_queue s @ [parsed]\<rparr>"
  have run: "handle_io (te_header e) io s = addMapping (Io io) p s3"
    using False by (simp add: handle_io_def Let_def case_prod_beta s3_def s2_def p_def parsed_def
        dev_def qd'_def)
  have "handler_ok s2" using ok handler_ok_cong [of s2 s] by (simp add: s2_def)
  then have ok3: "handler_ok s3" using handler_ok_enqueue [of s2 parsed] by (simp add: s3_def s2_def)
  have at: "event_at p s3 = Inr parsed" by (simp add: event_at_def s3_def s2_def p_def)
  have fresh: "map_find (ph_idMapping s3) k \<noteq> Some p" for k
  proof
    assume "map_find (ph_idMapping s3) k = Some p"
    then have k: "map_find (ph_idMapping s) k = Some p" by (simp add: s3_def s2_def)
    obtain x where "event_at p s = Inr x" using ok pointers_okD [OF _ k] unfolding handler_ok_def by blast
    then show False by (simp add: event_at_Inr p_def)
  qed
  have io: "pe_io parsed \<noteq> None" by (simp add: parsed_def)
  obtain s' where s': "addMapping (Io io) p s3 = Inr s'" "handler_ok s'"
    "map ident (ph_queue s') = map ident (ph_queue s3)" "ph_handledIOs s' = ph_handledIOs s3"
    using addMapping_ok [OF ok3 at io fresh] by blast
  have "map ident (all_events s') = map ident (all_events s) @ [ident parsed]"
    using s'(3,4) by (simp add: all_events_def s3_def s2_def)
  moreover have "[ident parsed] = arrivals e s"
    using False by (simp add: arrivals_def ev parsed_def ident_def io_ident_def)
  ultimately show ?thesis using s'(1,2) by (simp add: steps_to_def run)
qed

lemma ident_complete:
  "pe_io e \<noteq> None \<Longrightarrow> ident (complete_io hdr cmpl e) = ident e"
  by (auto simp: complete_io_def ident_def io_ident_def Let_def)

lemma idents_put_event:
  assumes "event_at p s = Inr e" "ident e' = ident e"
  shows "map ident (all_events (put_event p e' s)) = map ident (all_events s)"
  using assms by (auto simp: all_events_def put_event_def event_at_Inr map_update
      list_update_same_conv intro!: list_update_same_conv [THEN iffD2])

lemma all_events_put_depth [simp]: "all_events (put_depth d q s) = all_events s"
  by (simp add: all_events_def)

lemma event_at_put_depth [simp]: "event_at p (put_depth d q s) = event_at p s"
  by (simp add: event_at_def)

lemma handler_ok_put_depth [simp]: "handler_ok (put_depth d q s) = handler_ok s"
  by (rule handler_ok_cong) simp_all

text \<open>The part of a completion before the flush.\<close>

definition apply_completion ::
    "event_header \<Rightarrow> event_io_completion \<Rightarrow> parsed_handler \<Rightarrow> parsed_handler res" where
  "apply_completion hdr cmpl s =
     (let devId = cmp_deviceId cmpl; qd = depth_at devId s; s = put_depth devId qd s
      in case getCachedEventById (cmp_refId cmpl) s of
           None \<Rightarrow> Inr s
         | Some p \<Rightarrow>
             and_then (delMapping p s) (\<lambda>s.
             and_then (event_at p s) (\<lambda>e.
             let s = put_event p (e\<lparr>pe_io := Some (the_io e)\<rparr>) s
             in if eh_timestamp hdr \<ge> eh_timestamp (pe_header e)
                then let s = put_event p (complete_io hdr cmpl e) s
                     in Inr (if qd_Value qd \<noteq> 0
                             then put_depth devId (qd\<lparr>qd_Value := qd_Value qd - 1\<rparr>) s else s)
                else Inr s)))"

lemma handle_completion_split:
  "handle_completion fin tags w hdr cmpl s =
     (if outside_subrange (cmp_lba cmpl) (cmp_len cmpl) s then Inr s
      else and_then (apply_completion hdr cmpl s) (flushEvents fin tags w))"
  by (simp add: handle_completion_def apply_completion_def Let_def)

lemma all_events_put_event:
  assumes "handler_ok s" "event_at p s = Inr e"
  shows "all_events (put_event p e' s) = (all_events s)[p := e']"
proof -
  have "ph_popped s = length (ph_handledIOs s)" using assms(1) by (simp add: handler_ok_def numbered_def)
  then show ?thesis
    using assms(2) by (simp add: all_events_def put_event_def event_at_Inr list_update_append)
qed

lemma apply_completion_ok:
  assumes ok: "handler_ok s"
  shows "\<exists>s'. apply_completion hdr cmpl s = Inr s' \<and> handler_ok s' \<and>
     map ident (all_events s') = map ident (all_events s) \<and>
     ph_handledIOs s' = ph_handledIOs s \<and> ph_popped s' = ph_popped s \<and>
     (\<forall>p e. getCachedEventById (cmp_refId cmpl) s = Some p \<longrightarrow> event_at p s = Inr e \<longrightarrow>
        eh_timestamp hdr \<ge> eh_timestamp (pe_header e) \<longrightarrow>
        event_at p s' = Inr (complete_io hdr cmpl (set_sid 0 e)) \<and>
        all_events s' = (all_events s)[p := complete_io hdr cmpl (set_sid 0 e)])"
proof -
  define s0 where "s0 = put_depth (cmp_deviceId cmpl) (depth_at (cmp_deviceId cmpl) s) s"
  have ok0: "handler_ok s0" using ok by (simp add: s0_def)
  have at0: "event_at p s0 = event_at p s" for p by (simp add: s0_def event_at_def)
  have ev0: "all_events s0 = all_events s" by (simp add: s0_def)
  show ?thesis
  proof (cases "getCachedEventById (cmp_refId cmpl) s")
    case None
    then show ?thesis
      using ok0 ev0 by (simp add: apply_completion_def Let_def getCachedEventById_def s0_def)
  next
    case (Some p)
    then have find: "map_find (ph_idMapping s0) (cmp_refId cmpl) = Some p"
      by (simp add: getCachedEventById_def s0_def)
    have pok: "pointers_ok s0" using ok0 by (simp add: handler_ok_def)
    obtain e where e: "event_at p s0 = Inr e" "pe_io e \<noteq> None" using pointers_okD [OF pok find] by metis
    obtain s1 where s1: "delMapping p s0 = Inr s1" "handler_ok s1" "event_at p s1 = Inr (set_sid 0 e)"
      "s1 = put_event p (set_sid 0 e)
         (s0\<lparr>ph_idMapping := map_erase (eh_sid (pe_header e)) (ph_idMapping s0)\<rparr>)"
      using delMapping_ok [OF ok0 e(1)] e(2) by auto
    have id0: "ident (set_sid 0 x) = ident x" for x
      by (cases "pe_io x") (simp_all add: ident_def set_sid_def the_file_def)
    have ev1: "map ident (all_events s1) = map ident (all_events s)"
    proof -
      let ?s = "s0\<lparr>ph_idMapping := map_erase (eh_sid (pe_header e)) (ph_idMapping s0)\<rparr>"
      have "event_at p ?s = event_at p s0" by (simp add: event_at_def)
      then have "event_at p ?s = Inr e" using e(1) by simp
      then have "map ident (all_events s1) = map ident (all_events ?s)"
        unfolding s1(4) using id0 by (rule idents_put_event)
      then show ?thesis by (simp add: all_events_def s0_def)
    qed
    let ?e0 = "set_sid 0 e"
    have io: "(?e0\<lparr>pe_io := Some (the_io ?e0)\<rparr>) = ?e0"
      using e(2) by (auto simp: set_sid_def the_io_def)
    then have keep: "put_event p (?e0\<lparr>pe_io := Some (the_io ?e0)\<rparr>) s1 = s1"
      using s1(3) by (simp add: put_event_def event_at_Inr)
    have ts: "eh_timestamp (pe_header ?e0) = eh_timestamp (pe_header e)" by (simp add: set_sid_def)
    define dn where "dn = put_event p (complete_io hdr cmpl ?e0) s1"
    have okd: "handler_ok dn" unfolding dn_def
      by (rule handler_ok_put_event [OF s1(2,3)]) (simp_all add: complete_io_def Let_def)
    have evd: "map ident (all_events dn) = map ident (all_events s)"
      unfolding dn_def using idents_put_event [OF s1(3) ident_complete] e(2) ev1
      by (simp add: set_sid_def)
    have alld: "all_events dn = (all_events s)[p := complete_io hdr cmpl ?e0]"
    proof -
      let ?s = "s0\<lparr>ph_idMapping := map_erase (eh_sid (pe_header e)) (ph_idMapping s0)\<rparr>"
      have "event_at p ?s = event_at p s0" by (simp add: event_at_def)
      then have "event_at p ?s = Inr e" using e(1) by simp
      moreover have "ph_popped ?s = length (ph_handledIOs ?s)"
        using ok0 by (simp add: handler_ok_def numbered_def)
      ultimately have "all_events s1 = (all_events s)[p := ?e0]"
        by (simp add: s1(4) all_events_def put_event_def event_at_Inr list_update_append s0_def)
      then show ?thesis
        using all_events_put_event [OF s1(2,3)] by (simp add: dn_def)
    qed
    have atd: "event_at p dn = Inr (complete_io hdr cmpl ?e0)"
      by (simp add: dn_def event_at_put [OF s1(3)])
    define s' where "s' = (if eh_timestamp hdr \<ge> eh_timestamp (pe_header e)
      then (if qd_Value (depth_at (cmp_deviceId cmpl) s) \<noteq> 0
        then put_depth (cmp_deviceId cmpl) ((depth_at (cmp_deviceId cmpl) s)
          \<lparr>qd_Value := qd_Value (depth_at (cmp_deviceId cmpl) s) - 1\<rparr>) dn else dn) else s1)"
    have run: "apply_completion hdr cmpl s = Inr s'"
      using Some find s1(1,3) keep ts
      by (simp add: apply_completion_def Let_def getCachedEventById_def s0_def [symmetric]
          dn_def s'_def)
    have "ph_handledIOs s' = ph_handledIOs s" "ph_popped s' = ph_popped s"
      by (simp_all add: s'_def dn_def s1(4) s0_def)
    moreover have "handler_ok s'" "map ident (all_events s') = map ident (all_events s)"
      using okd s1(2) evd ev1 by (simp_all add: s'_def)
    moreover have "event_at p s' = Inr (complete_io hdr cmpl ?e0)"
      "all_events s' = (all_events s)[p := complete_io hdr cmpl ?e0]"
      if "eh_timestamp hdr \<ge> eh_timestamp (pe_header e)"
      using atd alld that by (simp_all add: s'_def)
    ultimately show ?thesis using run Some e(1) at0 by auto
  qed
qed

lemma handle_completion_steps:
  assumes "handler_ok s" "te_event e = IoCompletion cmpl"
  shows "steps_to s (arrivals e s) (handle_completion fin tags w (te_header e) cmpl s)"
proof (cases "outside_subrange (cmp_lba cmpl) (cmp_len cmpl) s")
  case True
  then show ?thesis using assms by (simp add: handle_completion_split steps_to_def arrivals_def)
next
  case False
  obtain s1 where s1: "apply_completion (te_header e) cmpl s = Inr s1" "handler_ok s1"
    "map ident (all_events s1) = map ident (all_events s)"
    using apply_completion_ok [OF assms(1)] by blast
  obtain s' where "flushEvents fin tags w s1 = Inr s'" "handler_ok s'" "delivers s1 s'"
    using flushEvents_ok [OF s1(2)] by blast
  then show ?thesis
    using False s1 assms(2)
    by (simp add: handle_completion_split steps_to_def arrivals_def delivers_def)
qed

lemma all_events_device_at [simp]: "all_events (fst (device_at d s)) = all_events s"
  by (simp add: all_events_def)

lemma handler_ok_device_at [simp]: "handler_ok (fst (device_at d s)) = handler_ok s"
  by (rule handler_ok_cong) simp_all

lemma handle_fs_meta_steps:
  assumes ok: "handler_ok s" and ev: "te_event e = FilesystemMeta m"
  shows "steps_to s (arrivals e s) (handle_fs_meta m s)"
proof (cases "getCachedEventById (fsm_refId m) s")
  case None
  then show ?thesis using ok by (simp add: handle_fs_meta_def steps_to_def arrivals_def ev)
next
  case (Some p)
  then have find: "map_find (ph_idMapping s) (fsm_refId m) = Some p" by (simp add: getCachedEventById_def)
  have pok: "pointers_ok s" using ok by (simp add: handler_ok_def)
  obtain x where x: "event_at p s = Inr x" "pe_io x \<noteq> None" using pointers_okD [OF pok find] by metis
  define x' where "x' = x\<lparr>pe_file := Some ((the_file x)
       \<lparr>pfile_id := pfi_id (fsm_fileId m), pfile_offset := fsm_fileOffset m,
        pfile_size := fsm_fileSize m, pfile_eventType := Fs_Access,
        pfile_creationDate := pfi_creationDate (fsm_fileId m)\<rparr>),
     pe_device := (pe_device x)\<lparr>pdev_partition := pfi_partitionId (fsm_fileId m)\<rparr>\<rparr>"
  define s1 where "s1 = put_event p x' s"
  have id: "ident x' = ident x" using x(2) by (auto simp: ident_def x'_def)
  have ok1: "handler_ok s1" unfolding s1_def
    by (rule handler_ok_put_event [OF ok x(1)]) (simp_all add: x'_def)
  have ev1: "map ident (all_events s1) = map ident (all_events s)"
    unfolding s1_def using x(1) id by (rule idents_put_event)
  show ?thesis
  proof (cases "map_find (ph_devices s1) (pfi_partitionId (fsm_fileId m))")
    case (Some d)
    then have "handle_fs_meta m s = Inr s1"
      using \<open>getCachedEventById (fsm_refId m) s = Some p\<close> x(1)
      by (simp add: handle_fs_meta_def Let_def x'_def s1_def)
    then show ?thesis using ok1 ev1 by (simp add: steps_to_def arrivals_def ev)
  next
    case None
    define s3 where "s3 = fst (device_at (pdev_id (pe_device x'))
      (fst (device_at (pfi_partitionId (fsm_fileId m)) s1)))"
    define d where "d = map_put (pfi_partitionId (fsm_fileId m)) (snd (device_at (pdev_id (pe_device x'))
      (fst (device_at (pfi_partitionId (fsm_fileId m)) s1)))) (ph_devices s3)"
    have "handle_fs_meta m s = Inr (s3\<lparr>ph_devices := d\<rparr>)"
      unfolding handle_fs_meta_def Some option.case x(1) and_then_simps Let_def x'_def [symmetric]
        s1_def [symmetric] None case_prod_beta d_def s3_def ..
    moreover have "handler_ok (s3\<lparr>ph_devices := d\<rparr>)"
      using ok1 handler_ok_cong [of "s3\<lparr>ph_devices := d\<rparr>" s3] by (simp add: s3_def)
    moreover have "all_events (s3\<lparr>ph_devices := d\<rparr>) = all_events s1"
      by (simp add: all_events_def s3_def)
    ultimately show ?thesis using ev1 by (simp add: steps_to_def arrivals_def ev)
  qed
qed

lemma handle_file_event_steps:
  assumes "handler_ok s" "te_event e = FilesystemFileEvent ev"
  shows "steps_to s (arrivals e s) (Inr (handle_file_event (te_header e) ev s))"
proof -
  define s1 where "s1 = fst (device_at (pfi_partitionId (fse_fileId ev)) s)"
  define dev where "dev = snd (device_at (pfi_partitionId (fse_fileId ev)) s)"
  obtain x where x: "handle_file_event (te_header e) ev s = s1\<lparr>ph_queue := ph_queue s1 @ [x]\<rparr>"
    "[ident x] = arrivals e s"
    by (simp add: handle_file_event_def Let_def case_prod_beta s1_def [symmetric] dev_def [symmetric])
      (simp add: arrivals_def assms(2) ident_def parsed_event_default_def the_file_def s1_def)
  have "handler_ok s1" using assms(1) by (simp add: s1_def)
  then have "handler_ok (s1\<lparr>ph_queue := ph_queue s1 @ [x]\<rparr>)" by (rule handler_ok_enqueue)
  moreover have "all_events (s1\<lparr>ph_queue := ph_queue s1 @ [x]\<rparr>) = all_events s @ [x]"
    by (simp add: all_events_def s1_def)
  ultimately show ?thesis using x by (simp add: steps_to_def)
qed

lemma set_offset_frame:
  "handler_ok (set_offset e s) = handler_ok s" "all_events (set_offset e s) = all_events s"
  "arrivals x (set_offset e s) = arrivals x s"
  "getCachedEventById i (set_offset e s) = getCachedEventById i s"
  "event_at p (set_offset e s) = event_at p s" "ph_popped (set_offset e s) = ph_popped s"
  "outside_subrange a b (set_offset e s) = outside_subrange a b s"
proof -
  obtain t where t: "set_offset e s = s\<lparr>ph_timestampOffset := t\<rparr>"
  proof -
    have "set_offset e s = s\<lparr>ph_timestampOffset := ph_timestampOffset (set_offset e s)\<rparr>"
      by (cases "te_event e") (simp_all add: set_offset_def)
    then show thesis by (rule that)
  qed
  show "handler_ok (set_offset e s) = handler_ok s"
    unfolding t by (rule handler_ok_cong) simp_all
  show "all_events (set_offset e s) = all_events s" "arrivals x (set_offset e s) = arrivals x s"
    "getCachedEventById i (set_offset e s) = getCachedEventById i s"
    "event_at p (set_offset e s) = event_at p s" "ph_popped (set_offset e s) = ph_popped s"
    "outside_subrange a b (set_offset e s) = outside_subrange a b s"
    unfolding t by (simp_all add: all_events_def arrivals_def outside_subrange_def
        getCachedEventById_def event_at_def cong: event_case.case_cong)
qed

lemma handleEvent_steps:
  assumes "handler_ok s"
  shows "steps_to s (arrivals e s) (handleEvent fin tags w e s)"
proof -
  let ?s = "set_offset e s"
  have ok: "handler_ok ?s" using assms by (simp add: set_offset_frame)
  have shift: "steps_to ?s (arrivals e ?s) r = steps_to s (arrivals e s) r" for r
    by (simp add: steps_to_def set_offset_frame)
  have "steps_to ?s (arrivals e ?s) (handleEvent fin tags w e s)"
  proof (cases "te_event e")
    case (Io io)
    then show ?thesis using handle_io_steps [OF ok] by (simp add: handleEvent_def Let_def)
  next
    case (DeviceDescription d)
    have "handler_ok (handle_device d ?s) = handler_ok ?s"
      by (rule handler_ok_cong) (simp_all add: handle_device_def Let_def)
    then show ?thesis using DeviceDescription ok
      by (simp add: handleEvent_def Let_def steps_to_def arrivals_def all_events_def handle_device_def)
  next
    case (FilesystemMeta m)
    then show ?thesis using handle_fs_meta_steps [OF ok] by (simp add: handleEvent_def Let_def)
  next
    case (IoCompletion c)
    then show ?thesis using handle_completion_steps [OF ok] by (simp add: handleEvent_def Let_def)
  next
    case (FilesystemFileEvent ev)
    then show ?thesis using handle_file_event_steps [OF ok] by (simp add: handleEvent_def Let_def)
  qed (use ok in \<open>simp_all add: handleEvent_def Let_def steps_to_def arrivals_def\<close>)
  then show ?thesis by (simp add: shift)
qed

subsection \<open>The subrange stays\<close>

definition subrange :: "parsed_handler \<Rightarrow> u64 \<times> u64" where
  "subrange s = (ph_subrangeStart s, ph_subrangeEnd s)"

lemma subrange_frame [simp]:
  "subrange (put_event p e s) = subrange s" "subrange (put_depth d q s) = subrange s"
  "subrange (fst (device_at d s)) = subrange s" "subrange (s\<lparr>ph_idMapping := m\<rparr>) = subrange s"
  "subrange (s\<lparr>ph_queue := es\<rparr>) = subrange s" "subrange (s\<lparr>ph_devices := ds\<rparr>) = subrange s"
  "subrange (s\<lparr>ph_timestampOffset := t\<rparr>) = subrange s" "subrange (s\<lparr>ph_popped := n\<rparr>) = subrange s"
  "subrange (s\<lparr>ph_refSid := i\<rparr>) = subrange s" "subrange (s\<lparr>ph_viewers := vs\<rparr>) = subrange s"
  "subrange (s\<lparr>ph_handledIOs := es\<rparr>) = subrange s" "subrange (s\<lparr>ph_extension := xs\<rparr>) = subrange s"
  by (simp_all add: subrange_def put_event_def put_depth_def device_at_def split: prod.splits)

lemma subrange_delMapping: "delMapping p s = Inr s' \<Longrightarrow> subrange s' = subrange s"
  by (auto simp: delMapping_def and_then_Inr_iff split: if_splits)

lemma subrange_pushOut: "pushOutEvent tags w s = Inr s' \<Longrightarrow> subrange s' = subrange s"
  by (auto simp: pushOutEvent_def and_then_Inr_iff Let_def subrange_delMapping split: if_splits)

lemma subrange_flush:
  "flush_complete n tags w s = Inr s' \<Longrightarrow> subrange s' = subrange s"
  "flush_excess n fin tags w s = Inr s' \<Longrightarrow> subrange s' = subrange s"
proof -
  show "flush_complete n tags w s = Inr s' \<Longrightarrow> subrange s' = subrange s"
    by (induction n arbitrary: s) (auto simp: and_then_Inr_iff subrange_pushOut split: if_splits)
  show "flush_excess n fin tags w s = Inr s' \<Longrightarrow> subrange s' = subrange s"
  proof (induction n arbitrary: s)
    case (Suc n)
    show ?case
    proof (cases "ph_queue s = []")
      case False
      show ?thesis
      proof (cases "pushOutEvent tags w s")
        case (Inr s1)
        have "subrange s' = subrange s1"
        proof (cases "\<not> fin \<and> length (ph_queue s1) < unat (ph_limit s1)")
          case True
          then show ?thesis using Suc.prems False Inr by simp
        next
          case F: False
          then show ?thesis using Suc.prems False Inr by (intro Suc.IH) (auto split: if_splits)
        qed
        then show ?thesis using subrange_pushOut [OF Inr] by simp
      qed (use Suc.prems False in simp)
    qed (use Suc.prems in simp)
  qed simp
qed

lemma subrange_flushEvents: "flushEvents fin tags w s = Inr s' \<Longrightarrow> subrange s' = subrange s"
proof -
  assume f: "flushEvents fin tags w s = Inr s'"
  show ?thesis
  proof (cases "flush_complete (length (ph_queue s)) tags w s")
    case (Inr s1)
    have "subrange s' = subrange s1"
    proof (cases "length (ph_queue s1) < unat (ph_limit s1) \<and> \<not> fin")
      case True
      then show ?thesis using f Inr by (simp add: flushEvents_def)
    next
      case False
      then have "flush_excess (length (ph_queue s1)) fin tags w s1 = Inr s'"
        using f Inr by (auto simp: flushEvents_def split: if_splits)
      then show ?thesis by (rule subrange_flush(2))
    qed
    then show ?thesis using subrange_flush(1) [OF Inr] by simp
  qed (use f in \<open>simp add: flushEvents_def\<close>)
qed

lemma subrange_handle_io: "handle_io hdr io s = Inr s' \<Longrightarrow> subrange s' = subrange s"
  by (auto simp: handle_io_def addMapping_def and_then_Inr_iff Let_def case_prod_beta split: if_splits)

lemma subrange_completion:
  assumes "handle_completion fin tags w hdr cmpl s = Inr s'"
  shows "subrange s' = subrange s"
proof (cases "outside_subrange (cmp_lba cmpl) (cmp_len cmpl) s")
  case False
  then obtain s1 where s1: "apply_completion hdr cmpl s = Inr s1" "flushEvents fin tags w s1 = Inr s'"
    using assms by (auto simp: handle_completion_split and_then_Inr_iff)
  have "subrange s1 = subrange s"
  proof (cases "getCachedEventById (cmp_refId cmpl) s")
    case None
    then show ?thesis using s1(1)
      by (auto simp: apply_completion_def Let_def getCachedEventById_def)
  next
    case (Some p)
    then obtain s2 where "delMapping p (put_depth (cmp_deviceId cmpl) (depth_at (cmp_deviceId cmpl) s) s) = Inr s2"
      "subrange s1 = subrange s2"
      using s1(1) by (auto simp: apply_completion_def Let_def getCachedEventById_def and_then_Inr_iff
          split: if_splits)
    then show ?thesis using subrange_delMapping by fastforce
  qed
  then show ?thesis using subrange_flushEvents [OF s1(2)] by simp
qed (use assms in \<open>simp add: handle_completion_split\<close>)

lemma subrange_handleEvent:
  assumes "handleEvent fin tags w e s = Inr s'"
  shows "subrange s' = subrange s"
proof -
  have off: "subrange (set_offset e s) = subrange s"
    by (simp add: set_offset_def split: event_case.split)
  show ?thesis
  proof (cases "te_event e")
    case (Io io)
    then show ?thesis using assms off subrange_handle_io
      by (fastforce simp: handleEvent_def Let_def)
  next
    case (DeviceDescription d)
    then show ?thesis using assms off
      by (auto simp: handleEvent_def Let_def handle_device_def subrange_def)
  next
    case (FilesystemMeta m)
    then show ?thesis using assms off
      by (auto simp: handleEvent_def Let_def handle_fs_meta_def and_then_Inr_iff case_prod_beta
          split: option.splits)
  next
    case (IoCompletion c)
    then show ?thesis using assms off subrange_completion
      by (fastforce simp: handleEvent_def Let_def)
  next
    case (FilesystemFileEvent ev)
    then show ?thesis using assms off
      by (auto simp: handleEvent_def Let_def handle_file_event_def case_prod_beta)
  qed (use assms off in \<open>auto simp: handleEvent_def Let_def\<close>)
qed

lemma arrivals_cong: "subrange s' = subrange s \<Longrightarrow> arrivals e s' = arrivals e s"
  by (auto simp: arrivals_def subrange_def outside_subrange_def split: event_case.splits)

lemma handle_all_steps:
  assumes "handler_ok s"
  shows "\<exists>s'. handle_all tags w es s = Inr s' \<and> handler_ok s' \<and>
     map ident (all_events s') = map ident (all_events s) @ concat (map (\<lambda>(_, e). arrivals e s) es)"
  using assms
proof (induction es arbitrary: s)
  case (Cons x es)
  obtain fin e where x: "x = (fin, e)" by (cases x)
  obtain s1 where s1: "handleEvent fin tags w e s = Inr s1" "handler_ok s1"
    "map ident (all_events s1) = map ident (all_events s) @ arrivals e s"
    using handleEvent_steps [OF Cons.prems, of e fin tags w] by (auto simp: steps_to_def)
  have "arrivals e' s1 = arrivals e' s" for e'
    using arrivals_cong [OF subrange_handleEvent [OF s1(1)]] .
  then show ?case using Cons.IH [OF s1(2)] s1 x by auto
qed simp

subsection \<open>Properties\<close>

lemma handler_new_ok: "viewers_ok vs \<Longrightarrow> handler_ok (setExclusiveSubrange a b (parsed_handler_new vs))"
  by (simp add: handler_ok_def pointers_ok_def numbered_def parsed_handler_new_def
      setExclusiveSubrange_def)

lemma processEvents_ok:
  assumes "viewers_ok vs"
  shows "\<exists>s. processEvents tags w None es (setExclusiveSubrange a b (parsed_handler_new vs)) = Inr s \<and>
    ph_queue s = [] \<and>
    map ident (ph_handledIOs s) =
      concat (map (\<lambda>(_, e). arrivals e (setExclusiveSubrange a b (parsed_handler_new vs))) es) \<and>
    map (\<lambda>e. eh_sid (pe_header e)) (ph_handledIOs s) =
      map (\<lambda>n. of_nat (Suc n)) [0..<length (ph_handledIOs s)]"
proof -
  define s0 where "s0 = setExclusiveSubrange a b (parsed_handler_new vs)"
  have ok: "handler_ok s0" unfolding s0_def using assms(1) by (rule handler_new_ok)
  obtain s1 where s1: "handle_all tags w es s0 = Inr s1" "handler_ok s1"
    "map ident (all_events s1) = map ident (all_events s0) @ concat (map (\<lambda>(_, e). arrivals e s0) es)"
    using handle_all_steps [OF ok] by blast
  obtain s where s: "flushEvents True tags w s1 = Inr s" "handler_ok s" "delivers s1 s" "ph_queue s = []"
    using flushEvents_ok [OF s1(2), of True] by auto
  have "all_events s0 = []"
    by (simp add: s0_def all_events_def parsed_handler_new_def setExclusiveSubrange_def)
  then have "map ident (ph_handledIOs s) = concat (map (\<lambda>(_, e). arrivals e s0) es)"
    using s1(3) s(3,4) by (simp add: delivers_def all_events_def)
  moreover have "numbered s" using s(2) by (simp add: handler_ok_def)
  ultimately show ?thesis using s s1(1)
    unfolding s0_def [symmetric] by (auto simp: processEvents_def numbered_def)
qed

text \<open>
  Property C9. Whatever events a trace holds, and whenever the file parser reports that it has
  finished, processing it never fails: no pointer into the queue dangles, no empty queue is
  read. Every IO inside the subrange and every file event is passed on exactly once, in the
  order of arrival, numbered 1, 2, 3 and so on, and nothing stays in the queue.
\<close>

theorem processEvents_delivers_in_order:
  assumes "viewers_ok vs"
  shows "\<exists>s. processEvents tags w None es (setExclusiveSubrange a b (parsed_handler_new vs)) = Inr s \<and>
    ph_queue s = [] \<and>
    map ident (ph_handledIOs s) =
      concat (map (\<lambda>(_, e). arrivals e (setExclusiveSubrange a b (parsed_handler_new vs))) es) \<and>
    map (\<lambda>e. eh_sid (pe_header e)) (ph_handledIOs s) =
      map (\<lambda>n. of_nat (Suc n)) [0..<length (ph_handledIOs s)]"
  using assms by (rule processEvents_ok)

theorem processEvents_delivers_in_order_witness:
  "\<exists>s. processEvents [] False None
     [(False, \<lparr>te_header = \<lparr>eh_sid = 1, eh_timestamp = 5\<rparr>, te_event = EventType_Not_Set\<rparr>)]
     (setExclusiveSubrange 0 0 (parsed_handler_new [(1, sample_viewer)])) = Inr s \<and> ph_queue s = []"
  using processEvents_delivers_in_order [where vs = "[(1, sample_viewer)]" and a = 0 and b = 0
      and tags = "[]" and w = False and
      es = "[(False, \<lparr>te_header = \<lparr>eh_sid = 1, eh_timestamp = 5\<rparr>, te_event = EventType_Not_Set\<rparr>)]"]
  by (auto simp: viewers_ok_def viewer_ok_def map_ok_def map_all_def sample_viewer_def less_file_id_def file_id_less_def)


definition queued_io :: "u64 \<Rightarrow> parsed_event" where
  "queued_io i = set_sid i (parsed_event_default\<lparr>pe_io := Some parsed_io_default\<rparr>)"

definition two_queued :: parsed_handler where
  "two_queued = (parsed_handler_new [])
     \<lparr>ph_queue := [queued_io 5, queued_io 5], ph_idMapping := [(5, 1)]\<rparr>"

lemma two_queued_ok: "handler_ok two_queued"
proof -
  have "event_at 1 two_queued = Inr (queued_io 5)"
    by (simp add: event_at_def two_queued_def parsed_handler_new_def)
  moreover have "pe_io (queued_io 5) \<noteq> None" "eh_sid (pe_header (queued_io 5)) = 5"
    by (simp_all add: queued_io_def set_sid_def)
  ultimately have "pointers_ok two_queued"
    by (auto simp: pointers_ok_def two_queued_def parsed_handler_new_def map_ok_def map_find_def)
  then show ?thesis
    by (simp add: handler_ok_def numbered_def viewers_ok_def)
      (simp add: two_queued_def parsed_handler_new_def)
qed

lemma two_queued_simps:
  "ph_queue two_queued = [queued_io 5, queued_io 5]" "ph_popped two_queued = 0"
  "getCachedEventById 5 two_queued = Some 1" "ph_subrangeEnd two_queued = 0"
  "event_at 1 two_queued = Inr (queued_io 5)" "eh_sid (pe_header (queued_io 5)) = 5"
  "pe_io (queued_io 5) = Some parsed_io_default" "eh_timestamp (pe_header (queued_io 5)) = 0"
  by (simp_all add: two_queued_def parsed_handler_new_def getCachedEventById_def map_find_def
      event_at_def queued_io_def set_sid_def parsed_event_default_def)


text \<open>
  A completion inside the subrange always succeeds and leaves the queue within the limit:
  fewer events than the limit, or none; and none at all once the file parser has finished.
\<close>

theorem completion_bounds_queue:
  assumes "handler_ok s" "\<not> outside_subrange (cmp_lba cmpl) (cmp_len cmpl) s"
  shows "\<exists>s'. handle_completion fin tags w hdr cmpl s = Inr s' \<and> handler_ok s' \<and>
    (ph_queue s' = [] \<or> (\<not> fin \<and> length (ph_queue s') < unat (ph_limit s')))"
proof -
  obtain s1 where "apply_completion hdr cmpl s = Inr s1" "handler_ok s1"
    using apply_completion_ok [OF assms(1)] by blast
  then show ?thesis
    using flushEvents_ok [of s1 fin tags w] assms(2) by (auto simp: handle_completion_split)
qed

theorem completion_bounds_queue_witness:
  "\<exists>s'. handle_completion True [] False \<lparr>eh_sid = 9, eh_timestamp = 40\<rparr>
       \<lparr>cmp_lba = 0, cmp_len = 0, cmp_error = True, cmp_deviceId = 0, cmp_refId = 5\<rparr> two_queued = Inr s' \<and>
     ph_queue s' = []"
  using completion_bounds_queue [OF two_queued_ok, of
      "\<lparr>cmp_lba = 0, cmp_len = 0, cmp_error = True, cmp_deviceId = 0, cmp_refId = 5\<rparr>" True "[]" False
      "\<lparr>eh_sid = 9, eh_timestamp = 40\<rparr>"]
  by (auto simp: outside_subrange_def two_queued_simps)

text \<open>
  When the completion of an IO was dropped and a later IO reuses its identifier, passing
  on the first IO removes the mapping of the second, although the second is still queued under
  that identifier: its own completion will not find it.
\<close>

theorem reused_id_is_forgotten:
  assumes "handler_ok s" "ph_queue s = e # rest" "pe_io e \<noteq> None"
    and "getCachedEventById (eh_sid (pe_header e)) s = Some p" "p \<noteq> ph_popped s"
  shows "\<exists>s' x. pushOutEvent tags w s = Inr s' \<and> getCachedEventById (eh_sid (pe_header e)) s' = None \<and>
    event_at p s' = Inr x \<and> pe_io x \<noteq> None \<and> eh_sid (pe_header x) = eh_sid (pe_header e)"
proof -
  obtain s' where s': "pushOutEvent tags w s = Inr s'" "ph_queue s' = rest"
    "ph_popped s' = Suc (ph_popped s)"
    "ph_idMapping s' = map_erase (eh_sid (pe_header e)) (ph_idMapping s)"
    using pushOut_ok [OF assms(1,2), of tags w] assms(3) by auto
  have pok: "pointers_ok s" using assms(1) by (simp add: handler_ok_def)
  obtain x where x: "event_at p s = Inr x" "pe_io x \<noteq> None" "eh_sid (pe_header x) = eh_sid (pe_header e)"
    using pointers_okD [OF pok] assms(4) unfolding getCachedEventById_def by metis
  have "event_at p s' = Inr x"
    using x(1) assms(2,5) s'(2,3) by (auto simp: event_at_Inr nth_Cons')
  moreover have "getCachedEventById (eh_sid (pe_header e)) s' = None"
    using pok s'(4) by (simp add: getCachedEventById_def pointers_ok_def sm.find_erase)
  ultimately show ?thesis using s'(1) x by blast
qed

theorem reused_id_is_forgotten_witness:
  "\<exists>s' x. pushOutEvent [] False two_queued = Inr s' \<and> getCachedEventById 5 s' = None \<and>
     event_at 1 s' = Inr x \<and> pe_io x \<noteq> None"
  using reused_id_is_forgotten [OF two_queued_ok two_queued_simps(1), of 1 "[]" False]
  by (auto simp: two_queued_simps)

subsection \<open>Queue depths\<close>

text \<open>
  An IO that is completed at the time of its submission counts as lost when it is passed on, though
  its completion lowered the queue depth: after two of them the depth reported for the third wraps.
\<close>

definition zero_io :: "u64 \<Rightarrow> event_io" where
  "zero_io i = \<lparr>eio_lba = 8, eio_len = 8, eio_ioClass = 0, eio_deviceId = 1, eio_operation = Io_Read,
     eio_flush = False, eio_fua = False, eio_writeHint = 0, eio_id = i, eio_metadata = False,
     eio_direct = False, eio_readahead = False\<rparr>"

definition zero_trace :: "(bool \<times> trace_event) list" where
  "zero_trace = concat (map (\<lambda>i.
     [(False, \<lparr>te_header = \<lparr>eh_sid = 2 * i, eh_timestamp = i\<rparr>, te_event = Io (zero_io i)\<rparr>),
      (False, \<lparr>te_header = \<lparr>eh_sid = 2 * i + 1, eh_timestamp = i\<rparr>, te_event = IoCompletion
        \<lparr>cmp_lba = 8, cmp_len = 8, cmp_error = False, cmp_deviceId = 1, cmp_refId = i\<rparr>\<rparr>)]) [1, 2, 3])"

lemma zero_latency_wraps_depth:
  "case processEvents [] False None zero_trace (parsed_handler_new []) of
     Inl _ \<Rightarrow> False
   | Inr s \<Rightarrow> map (\<lambda>e. pio_qd (the_io e)) (ph_handledIOs s) = [1, 0, 18446744073709551615]"
  by (simp add: zero_trace_def zero_io_def processEvents_def handleEvent_def set_offset_def parsed_handler_new_def handle_io_def outside_subrange_def Let_def depth_at_def map_at_def put_depth_def device_at_def addMapping_def event_at_def map_emplace_def put_event_def set_sid_def handle_completion_def getCachedEventById_def delMapping_def complete_io_def parsed_event_default_def map_find_def flushEvents_def QueueLimit_def pushOutEvent_def released_event_def map_erase_def numeral_3_eq_3 the_io_def)

end
