(* ===== verification/File_Table.thy ===== *)
theory File_Table
  imports File_System_Viewer
begin

section \<open>The table of files of the older handlers\<close>

text \<open>
  \<open>FileInfo\<close> and \<open>FileSystemViewer\<close> of versions 0 and 1 of
  source/octf/trace/parser/v0/ParsedIoTraceEventHandler.cpp, the same text in both: one table for
  all partitions, which the handler fills and the viewers read through a reference. An entry also
  keeps the last size of its file; a lookup is exact; and the root is an entry that is its own
  parent.
\<close>

record file_entry =
  fe_parent :: file_id
  fe_name :: string
  fe_size :: u64

type_synonym file_table = "(file_id, file_entry) std_map"

definition file_entry_default :: file_entry where
  "file_entry_default = \<lparr>fe_parent = FileId_default, fe_name = '''', fe_size = 0\<rparr>"

definition table_prefix :: "file_id \<Rightarrow> file_table \<Rightarrow> string" where
  "table_prefix i v =
     trim_non_alpha
       (case map_find v i of
          None \<Rightarrow> ''''
        | Some info \<Rightarrow>
            (case rfind (CHR ''.'') (fe_name info) of
               Some n \<Rightarrow> take n (fe_name info)
             | None \<Rightarrow> fe_name info))"

definition table_name :: "file_id \<Rightarrow> file_table \<Rightarrow> string" where
  "table_name i v = (case map_find v i of None \<Rightarrow> '''' | Some info \<Rightarrow> fe_name info)"

definition table_extension :: "file_id \<Rightarrow> file_table \<Rightarrow> string" where
  "table_extension i v =
     (case map_find v i of
        None \<Rightarrow> ''''
      | Some info \<Rightarrow>
          (case rfind (CHR ''.'') (fe_name info) of
             Some n \<Rightarrow> drop (n + 1) (fe_name info)
           | None \<Rightarrow> ''''))"

definition table_parent :: "file_id \<Rightarrow> file_table \<Rightarrow> file_id" where
  "table_parent i v = (case map_find v i of None \<Rightarrow> FileId_default | Some info \<Rightarrow> fe_parent info)"

partial_function (option) table_getPath :: "file_table \<Rightarrow> file_id \<Rightarrow> nat \<Rightarrow> (string \<times> bool) res option" where
  "table_getPath v i len =
     (case map_find v i of
        None \<Rightarrow> Some (Inr ('''', False))
      | Some info \<Rightarrow>
          let len' = len + length (fe_name info)
          in if len' > PATH_MAX then Some (Inl (Octf_Exception ''Max path exceeded''))
             else if i \<noteq> fe_parent info then
               Option.bind (table_getPath v (fe_parent info) len') (\<lambda>r.
               case r of
                 Inl e \<Rightarrow> Some (Inl e)
               | Inr (path, ok) \<Rightarrow>
                   if \<not> ok then Some (Inr ('''', False))
                   else Some (Inr (join_name path (fe_name info), True)))
             else Some (Inr (fe_name info, True)))"

definition table_getDirPath :: "file_id \<Rightarrow> file_table \<Rightarrow> string option" where
  "table_getDirPath i v =
     (case map_find v i of
        None \<Rightarrow> Some ''''
      | Some info \<Rightarrow>
          Option.bind (table_getPath v (fe_parent info) 0) (\<lambda>r.
          case r of Inl _ \<Rightarrow> Some '''' | Inr (path, _) \<Rightarrow> Some path))"

definition table_getFilePath :: "file_id \<Rightarrow> file_table \<Rightarrow> string option" where
  "table_getFilePath i v =
     (case map_find v i of
        None \<Rightarrow> Some ''''
      | Some info \<Rightarrow>
          Option.bind (table_getDirPath i v) (\<lambda>path.
          if path = '''' then Some ''''
          else Some ((if path \<noteq> ''/'' then path @ ''/'' else path) @ fe_name info)))"

subsection \<open>The operations of the handlers on the table\<close>

definition table_set_size :: "file_id \<Rightarrow> u64 \<Rightarrow> file_table \<Rightarrow> file_table" where
  "table_set_size i sz t = (let (t, info) = map_at file_entry_default i t in map_put i (info\<lparr>fe_size := sz\<rparr>) t)"

definition table_set_name :: "file_id \<Rightarrow> string \<Rightarrow> file_id \<Rightarrow> file_table \<Rightarrow> file_table" where
  "table_set_name i name parent t =
     (let (t, info) = map_at file_entry_default i t
      in map_put i (info\<lparr>fe_name := name, fe_parent := parent\<rparr>) t)"

text \<open>The size an event of a file reports; the entry of a deleted file goes.\<close>

definition table_event_size :: "file_id \<Rightarrow> fs_event_type \<Rightarrow> file_table \<Rightarrow> file_table \<times> u64" where
  "table_event_size i ty t =
     (let (t, info) = map_at file_entry_default i t
      in (if ty = Fs_Delete then map_erase i t else t, fe_size info))"

text \<open>A file without a name was never named by an event, and the default identifier is its parent.\<close>

definition table_ok :: "file_table \<Rightarrow> bool" where
  "table_ok t \<longleftrightarrow> map_ok t \<and> map_all (\<lambda>info. fe_name info = '''' \<longrightarrow> fe_parent info = FileId_default) t"

lemma table_ok_Nil [simp]: "table_ok []"
  by (simp add: table_ok_def)

lemma table_ok_at:
  assumes "table_ok t" "map_at file_entry_default i t = (t', info)"
  shows "table_ok t'" "fe_name info = '''' \<longrightarrow> fe_parent info = FileId_default"
  using assms map_all_find [of _ t i]
  by (auto simp: table_ok_def map_at_def sm.ok_put map_all_put file_entry_default_def split: option.splits)

lemma table_ok_put:
  "table_ok t \<Longrightarrow> fe_name info = '''' \<longrightarrow> fe_parent info = FileId_default \<Longrightarrow> table_ok (map_put i info t)"
  by (simp add: table_ok_def sm.ok_put map_all_put)

lemma table_ok_ops:
  assumes "table_ok t"
  shows "table_ok (table_set_size i sz t)" "name \<noteq> '''' \<Longrightarrow> table_ok (table_set_name i name parent t)"
    "table_ok (fst (table_event_size i ty t))"
proof -
  obtain t' info where at: "map_at file_entry_default i t = (t', info)" by force
  note ok = table_ok_at [OF assms at]
  show "table_ok (table_set_size i sz t)"
    unfolding table_set_size_def at by (simp add: table_ok_put ok)
  show "name \<noteq> '''' \<Longrightarrow> table_ok (table_set_name i name parent t)"
    unfolding table_set_name_def at by (simp add: table_ok_put ok)
  have "table_ok (map_erase i t')" using ok(1) by (simp add: table_ok_def sm.ok_erase map_all_erase)
  then show "table_ok (fst (table_event_size i ty t))"
    unfolding table_event_size_def at using ok(1) by simp
qed

subsection \<open>Paths\<close>

text \<open>Two steps up a chain of parents add at least one character, or reach the end.\<close>

lemma table_getPath_step:
  assumes "map_find v i = Some info" "i \<noteq> fe_parent info \<Longrightarrow> len + length (fe_name info) \<le> PATH_MAX \<Longrightarrow>
      \<exists>r. table_getPath v (fe_parent info) (len + length (fe_name info)) = Some r"
  shows "\<exists>r. table_getPath v i len = Some r"
proof (cases "i \<noteq> fe_parent info \<and> len + length (fe_name info) \<le> PATH_MAX")
  case True
  then obtain r where "table_getPath v (fe_parent info) (len + length (fe_name info)) = Some r"
    using assms(2) by blast
  then show ?thesis using assms(1) True
    by (subst table_getPath.simps) (simp add: Let_def split: sum.split)
next
  case False
  then show ?thesis using assms(1) by (subst table_getPath.simps) (auto simp: Let_def)
qed

lemma table_getPath_returns:
  assumes "table_ok v"
  shows "\<exists>r. table_getPath v i len = Some r"
proof (induction "PATH_MAX + 1 - len" arbitrary: i len rule: less_induct)
  case less
  have shorter: "\<exists>r. table_getPath v j (len + n) = Some r" if "0 < n" "len + n \<le> PATH_MAX" for j n
    by (rule less) (use that in linarith)
  have named: "\<exists>r. table_getPath v j len = Some r"
    if "map_find v j = Some info" "fe_name info \<noteq> '''' \<or> j = fe_parent info" for j info
    by (rule table_getPath_step [OF that(1)]) (use that(2) shorter in auto)
  show ?case
  proof (cases "map_find v i")
    case None
    then show ?thesis by (subst table_getPath.simps) simp
  next
    case (Some info)
    show ?thesis
    proof (cases "fe_name info = ''''")
      case True
      have parent: "fe_parent x = FileId_default" if "map_find v j = Some x" "fe_name x = ''''" for j x
        using assms that map_all_find [of _ v j x] unfolding table_ok_def by fastforce
      have "\<exists>r. table_getPath v FileId_default len = Some r"
      proof (cases "map_find v FileId_default")
        case None
        then show ?thesis by (subst table_getPath.simps) simp
      next
        case (Some x)
        then show ?thesis using parent [OF Some] by (intro named [OF Some]) auto
      qed
      then show ?thesis
        using True parent [OF Some True] by (intro table_getPath_step [OF Some]) simp
    qed (use named [OF Some] in auto)
  qed
qed

lemma table_getFilePath_total:
  assumes "table_ok v"
  shows "\<exists>path. table_getFilePath i v = Some path"
proof (cases "map_find v i")
  case None
  then show ?thesis by (simp add: table_getFilePath_def)
next
  case (Some info)
  obtain r where "table_getPath v (fe_parent info) 0 = Some r" using table_getPath_returns [OF assms] by blast
  then obtain dir where "table_getDirPath i v = Some dir" using Some
    by (cases r) (auto simp: table_getDirPath_def)
  then show ?thesis using Some by (simp add: table_getFilePath_def)
qed

end
