(* ===== verification/Parsed_Io_V0.thy ===== *)
theory Parsed_Io_V0
  imports File_Table Parsed_Io_V2
begin

section \<open>The parser of IO events, version 0\<close>

text \<open>
  \<open>ParsedIoTraceEventHandler\<close> of source/octf/trace/parser/v0/ParsedIoTraceEventHandler.cpp. The
  events of this version have no identifiers: a completion belongs to the first waiting IO of the
  same device, address and length (\<open>Map\<close>), filesystem data to the IO with the sequence number
  it refers to. Pointers into the queue are positions as in version 2.
\<close>

subsection \<open>Keys\<close>

datatype io_key = Key (k_DeviceId: u64) (k_Lba: u64) (k_Len: u32)

definition io_key_less :: "io_key \<Rightarrow> io_key \<Rightarrow> bool" where
  "io_key_less a b =
     (if k_DeviceId a \<noteq> k_DeviceId b then k_DeviceId a < k_DeviceId b
      else if k_Lba a \<noteq> k_Lba b then k_Lba a < k_Lba b
      else k_Len a < k_Len b)"

instantiation io_key :: linorder
begin

definition less_io_key :: "io_key \<Rightarrow> io_key \<Rightarrow> bool" where
  "less_io_key = io_key_less"

definition less_eq_io_key :: "io_key \<Rightarrow> io_key \<Rightarrow> bool" where
  "less_eq_io_key a b \<longleftrightarrow> a < b \<or> a = b"

instance
proof
  fix x y z :: io_key
  show "x < y \<longleftrightarrow> x \<le> y \<and> \<not> y \<le> x"
    and "x \<le> x"
    and "x \<le> y \<Longrightarrow> y \<le> z \<Longrightarrow> x \<le> z"
    and "x \<le> y \<Longrightarrow> y \<le> x \<Longrightarrow> x = y"
    by (auto simp: less_io_key_def io_key_less_def less_eq_io_key_def split: if_splits)
  show "x \<le> y \<or> y \<le> x"
    by (cases x; cases y) (auto simp: less_io_key_def io_key_less_def less_eq_io_key_def split: if_splits)
qed

end

definition key_of_io :: "event_io \<Rightarrow> io_key" where
  "key_of_io io = Key (eio_deviceId io) (eio_lba io) (eio_len io)"

definition key_of_completion :: "event_io_completion \<Rightarrow> io_key" where
  "key_of_completion c = Key (cmp_deviceId c) (cmp_lba c) (cmp_len c)"

definition key_of_parsed :: "parsed_event \<Rightarrow> io_key" where
  "key_of_parsed e = Key (pdev_id (pe_device e)) (pio_lba (the_io e)) (pio_len (the_io e))"

subsection \<open>The state\<close>

record v0_handler =
  v0_queue :: "parsed_event list"
  v0_popped :: nat
  v0_eventMapping :: "(io_key, nat list) std_map"
  v0_sidMapping :: "(u64, nat) std_map"
  v0_devices :: "(u64, device_description) std_map"
  v0_fileInfo :: file_table
  v0_timestampOffset :: u64
  v0_sidOffset :: u64
  v0_limit :: u64
  v0_subrangeStart :: u64
  v0_subrangeEnd :: u64
  v0_devIoQueueDepth :: "(u64, queue_depth) std_map"
  v0_handledIOs :: "parsed_event list"
  v0_handledDevices :: "device_description list"

definition v0_QueueLimit :: u64 where "v0_QueueLimit = 10000"

definition v0_handler_new :: v0_handler where
  "v0_handler_new =
     \<lparr>v0_queue = [], v0_popped = 0, v0_eventMapping = [], v0_sidMapping = [], v0_devices = [],
      v0_fileInfo = [], v0_timestampOffset = 0, v0_sidOffset = 0, v0_limit = v0_QueueLimit,
      v0_subrangeStart = 0, v0_subrangeEnd = 0, v0_devIoQueueDepth = [], v0_handledIOs = [],
      v0_handledDevices = []\<rparr>"

definition v0_setExclusiveSubrange :: "u64 \<Rightarrow> u64 \<Rightarrow> v0_handler \<Rightarrow> v0_handler" where
  "v0_setExclusiveSubrange start en s = s\<lparr>v0_subrangeStart := start, v0_subrangeEnd := en\<rparr>"

definition v0_event_at :: "nat \<Rightarrow> v0_handler \<Rightarrow> parsed_event res" where
  "v0_event_at p s =
     (if v0_popped s \<le> p \<and> p < v0_popped s + length (v0_queue s)
      then Inr (v0_queue s ! (p - v0_popped s))
      else Inl (Undefined_Behaviour ''dangling pointer into the queue''))"

definition v0_put_event :: "nat \<Rightarrow> parsed_event \<Rightarrow> v0_handler \<Rightarrow> v0_handler" where
  "v0_put_event p e s = s\<lparr>v0_queue := (v0_queue s)[p - v0_popped s := e]\<rparr>"

definition v0_depth_at :: "u64 \<Rightarrow> v0_handler \<Rightarrow> queue_depth" where
  "v0_depth_at d s = snd (map_at \<lparr>qd_Value = 0, qd_Adjustment = 0\<rparr> d (v0_devIoQueueDepth s))"

definition v0_put_depth :: "u64 \<Rightarrow> queue_depth \<Rightarrow> v0_handler \<Rightarrow> v0_handler" where
  "v0_put_depth d q s = s\<lparr>v0_devIoQueueDepth := map_put d q (v0_devIoQueueDepth s)\<rparr>"

definition v0_device_at :: "u64 \<Rightarrow> v0_handler \<Rightarrow> v0_handler \<times> device_description" where
  "v0_device_at d s =
     (let (m, dev) = map_at device_default d (v0_devices s) in (s\<lparr>v0_devices := m\<rparr>, dev))"

subsection \<open>The map from keys to waiting events\<close>

definition map_add_event :: "io_key \<Rightarrow> nat \<Rightarrow> v0_handler \<Rightarrow> v0_handler" where
  "map_add_event k p s =
     (let (m, ps) = map_at [] k (v0_eventMapping s)
      in s\<lparr>v0_eventMapping := map_put k (ps @ [p]) m\<rparr>)"

fun first_waiting :: "v0_handler \<Rightarrow> nat list \<Rightarrow> nat option res" where
  "first_waiting s [] = Inr None"
| "first_waiting s (p # ps) =
     and_then (v0_event_at p s) (\<lambda>e.
     if pio_latency (the_io e) = 0 then Inr (Some p) else first_waiting s ps)"

definition map_get_event :: "io_key \<Rightarrow> v0_handler \<Rightarrow> nat option res" where
  "map_get_event k s =
     (case map_find (v0_eventMapping s) k of None \<Rightarrow> Inr None | Some ps \<Rightarrow> first_waiting s ps)"

fun erase_sid :: "v0_handler \<Rightarrow> u64 \<Rightarrow> nat list \<Rightarrow> nat list res" where
  "erase_sid s sid [] = Inr []"
| "erase_sid s sid (p # ps) =
     and_then (v0_event_at p s) (\<lambda>e.
     if eh_sid (pe_header e) = sid then Inr ps
     else and_then (erase_sid s sid ps) (\<lambda>ps. Inr (p # ps)))"

definition map_erase_event :: "io_key \<Rightarrow> u64 \<Rightarrow> v0_handler \<Rightarrow> v0_handler res" where
  "map_erase_event k sid s =
     (case map_find (v0_eventMapping s) k of
        None \<Rightarrow> Inr s
      | Some ps \<Rightarrow>
          and_then (erase_sid s sid ps) (\<lambda>ps.
          Inr (s\<lparr>v0_eventMapping := (if ps = [] then map_erase k (v0_eventMapping s)
                                     else map_put k ps (v0_eventMapping s))\<rparr>)))"

subsection \<open>Passing events on\<close>

text \<open>\<open>getFileSystemViewer\<close>: the viewers of all partitions read the one table.\<close>

definition v0_getFileSystemViewer :: "u64 \<Rightarrow> v0_handler \<Rightarrow> file_table res" where
  "v0_getFileSystemViewer partId s =
     (if map_find (v0_devices s) partId = None
      then Inl (Octf_Exception ''Requesting FS viewer for non-existing partition ID'')
      else Inr (v0_fileInfo s))"

definition v0_adjusted :: "queue_depth \<Rightarrow> u64 \<Rightarrow> u64" where
  "v0_adjusted qd ioqd = (if qd_Adjustment qd < ioqd then ioqd - qd_Adjustment qd else 1)"

definition v0_released_event :: "v0_handler \<Rightarrow> parsed_event \<Rightarrow> parsed_event res" where
  "v0_released_event s e =
     (let e = set_sid (eh_sid (pe_header e) - v0_sidOffset s) e;
          qd = v0_depth_at (pdev_id (pe_device e)) s;
          e = (case pe_io e of
                 None \<Rightarrow> e
               | Some io \<Rightarrow> e\<lparr>pe_io := Some (io\<lparr>pio_qd := v0_adjusted qd (pio_qd io)\<rparr>)\<rparr>);
          t = eh_timestamp (pe_header e);
          e = e\<lparr>pe_header := (pe_header e)\<lparr>eh_timestamp :=
                (if t > v0_timestampOffset s then t - v0_timestampOffset s else 0)\<rparr>\<rparr>
      in case pe_file e of
           None \<Rightarrow> Inr e
         | Some f \<Rightarrow>
             and_then (v0_getFileSystemViewer (pdev_partition (pe_device e)) s) (\<lambda>table.
             case table_getFilePath (file_id_of_parsed e) table of
               None \<Rightarrow> Inl No_Return
             | Some path \<Rightarrow> Inr (e\<lparr>pe_file := Some (f\<lparr>pfile_path := path\<rparr>)\<rparr>)))"

definition v0_pushOutEvent :: "v0_handler \<Rightarrow> v0_handler res" where
  "v0_pushOutEvent s =
     (if v0_queue s = [] then Inl (Undefined_Behaviour ''front of an empty queue'')
      else
        let event = hd (v0_queue s);
            sid = eh_sid (pe_header event);
            s = s\<lparr>v0_sidMapping := map_erase sid (v0_sidMapping s)\<rparr>
        in and_then (map_erase_event (key_of_parsed event) sid s) (\<lambda>s.
           and_then (v0_released_event s event) (\<lambda>e.
           let devId = pdev_id (pe_device event);
               qd = v0_depth_at devId s;
               qd = (if pe_io e \<noteq> None \<and> pio_latency (the_io e) = 0
                     then qd\<lparr>qd_Adjustment := qd_Adjustment qd + 1\<rparr> else qd)
           in Inr (v0_put_depth devId qd
                (s\<lparr>v0_queue := tl (v0_queue s), v0_popped := Suc (v0_popped s),
                   v0_handledIOs := v0_handledIOs s @ [e]\<rparr>)))))"

text \<open>The loops of \<open>flushEvents\<close>: as many rounds as there are events are enough.\<close>

fun v0_flush_complete :: "nat \<Rightarrow> v0_handler \<Rightarrow> v0_handler res" where
  "v0_flush_complete 0 s = Inr s"
| "v0_flush_complete (Suc n) s =
     (if v0_queue s \<noteq> [] \<and> pio_latency (the_io (hd (v0_queue s))) \<noteq> 0
      then and_then (v0_pushOutEvent s) (v0_flush_complete n)
      else Inr s)"

fun v0_flush_excess :: "nat \<Rightarrow> bool \<Rightarrow> v0_handler \<Rightarrow> v0_handler res" where
  "v0_flush_excess 0 finished s = Inr s"
| "v0_flush_excess (Suc n) finished s =
     (if v0_queue s \<noteq> []
      then and_then (v0_pushOutEvent s) (\<lambda>s.
           if \<not> finished \<and> length (v0_queue s) < unat (v0_limit s) then Inr s
           else v0_flush_excess n finished s)
      else Inr s)"

definition v0_flushEvents :: "bool \<Rightarrow> v0_handler \<Rightarrow> v0_handler res" where
  "v0_flushEvents finished s =
     and_then (v0_flush_complete (length (v0_queue s)) s) (\<lambda>s.
     if length (v0_queue s) < unat (v0_limit s) \<and> \<not> finished then Inr s
     else v0_flush_excess (length (v0_queue s)) finished s)"

subsection \<open>Handling events\<close>

definition v0_outside :: "u64 \<Rightarrow> u32 \<Rightarrow> v0_handler \<Rightarrow> bool" where
  "v0_outside lba len s \<longleftrightarrow>
     v0_subrangeEnd s \<noteq> 0 \<and> (lba + ucast len < v0_subrangeStart s \<or> lba > v0_subrangeEnd s)"

definition v0_handle_device :: "device_description \<Rightarrow> v0_handler \<Rightarrow> v0_handler" where
  "v0_handle_device d s =
     (let m = map_put (dd_id d) d (v0_devices s)
      in s\<lparr>v0_devices := m, v0_limit := v0_QueueLimit * of_nat (length m),
           v0_handledDevices := v0_handledDevices s @ [d]\<rparr>)"

definition IO_CLASS_METADATA :: u32 where "IO_CLASS_METADATA = 1"
definition IO_CLASS_DIRECT :: u32 where "IO_CLASS_DIRECT = 22"

definition class_flags :: "event_io \<Rightarrow> parsed_flags" where
  "class_flags io =
     \<lparr>pf_flush = eio_flush io, pf_fua = eio_fua io,
      pf_metadata = (eio_ioClass io = IO_CLASS_METADATA),
      pf_direct = (eio_ioClass io = IO_CLASS_DIRECT), pf_readahead = False\<rparr>"

definition v0_parsed_io :: "event_header \<Rightarrow> event_io \<Rightarrow> u64 \<Rightarrow> device_description \<Rightarrow> parsed_event" where
  "v0_parsed_io hdr io qd dev = parsed_event_default
     \<lparr>pe_header := hdr,
      pe_io := Some \<lparr>pio_lba = eio_lba io, pio_len = eio_len io,
        pio_operation = eio_operation io, pio_error = False, pio_latency = 0, pio_qd = qd,
        pio_writeHint = eio_writeHint io, pio_flags = class_flags io\<rparr>,
      pe_device := \<lparr>pdev_id = eio_deviceId io, pdev_name = dd_name dev,
        pdev_partition = eio_deviceId io, pdev_model = ''''\<rparr>\<rparr>"

definition v0_handle_io :: "event_header \<Rightarrow> event_io \<Rightarrow> v0_handler \<Rightarrow> v0_handler res" where
  "v0_handle_io hdr io s =
     (if v0_outside (eio_lba io) (eio_len io) s then Inr s
      else
        let deviceId = eio_deviceId io;
            qd = v0_depth_at deviceId s;
            qd = qd\<lparr>qd_Value := qd_Value qd + 1\<rparr>;
            (s, dev) = v0_device_at deviceId (v0_put_depth deviceId qd s);
            p = v0_popped s + length (v0_queue s);
            s = s\<lparr>v0_queue := v0_queue s @ [v0_parsed_io hdr io (qd_Value qd) dev]\<rparr>;
            s = map_add_event (key_of_io io) p s;
            (m, inserted) = map_emplace (eh_sid hdr) p (v0_sidMapping s)
        in if \<not> inserted then Inl (Octf_Exception ''Error during trace parsing, cannot cache trace event'')
           else Inr (s\<lparr>v0_sidMapping := m\<rparr>))"

text \<open>What a completion does to the counters of its device, when its IO is there and when not.\<close>

definition v0_completed_depth :: "queue_depth \<Rightarrow> queue_depth" where
  "v0_completed_depth qd =
     (if qd_Value qd = 0 then qd
      else let qd = qd\<lparr>qd_Value := qd_Value qd - 1\<rparr>
           in if qd_Value qd < qd_Adjustment qd then qd\<lparr>qd_Value := 0, qd_Adjustment := 0\<rparr> else qd)"

definition v0_missed_depth :: "queue_depth \<Rightarrow> queue_depth" where
  "v0_missed_depth qd =
     (if qd_Adjustment qd \<noteq> 0 then qd\<lparr>qd_Adjustment := qd_Adjustment qd - 1\<rparr> else qd)"

definition v0_complete_io :: "event_header \<Rightarrow> event_io_completion \<Rightarrow> parsed_event \<Rightarrow> parsed_event" where
  "v0_complete_io hdr cmpl e =
     e\<lparr>pe_io := Some ((the_io e)
         \<lparr>pio_latency := eh_timestamp hdr - eh_timestamp (pe_header e), pio_error := cmp_error cmpl\<rparr>)\<rparr>"

definition v0_apply_completion ::
    "event_header \<Rightarrow> event_io_completion \<Rightarrow> v0_handler \<Rightarrow> v0_handler res" where
  "v0_apply_completion hdr cmpl s =
     (let devId = cmp_deviceId cmpl; qd = v0_depth_at devId s
      in and_then (map_get_event (key_of_completion cmpl) s) (\<lambda>event.
         case event of
           None \<Rightarrow> Inr (v0_put_depth devId (v0_missed_depth qd) s)
         | Some p \<Rightarrow>
             and_then (v0_event_at p s) (\<lambda>e.
             if eh_timestamp hdr < eh_timestamp (pe_header e)
             then Inr (v0_put_depth devId (v0_missed_depth qd)
                    (v0_put_event p (e\<lparr>pe_io := Some (the_io e)\<rparr>) s))
             else Inr (v0_put_depth devId (v0_completed_depth qd)
                    (v0_put_event p (v0_complete_io hdr cmpl e) s)))))"

definition v0_handle_completion ::
    "bool \<Rightarrow> event_header \<Rightarrow> event_io_completion \<Rightarrow> v0_handler \<Rightarrow> v0_handler res" where
  "v0_handle_completion finished hdr cmpl s =
     (if v0_outside (cmp_lba cmpl) (cmp_len cmpl) s then Inr s
      else and_then (v0_apply_completion hdr cmpl s) (v0_flushEvents finished))"

definition v0_handle_fs_meta :: "event_filesystem_meta \<Rightarrow> v0_handler \<Rightarrow> v0_handler res" where
  "v0_handle_fs_meta src s =
     (case map_find (v0_sidMapping s) (fsm_refSid src) of
        None \<Rightarrow> Inr s
      | Some p \<Rightarrow>
          and_then (v0_event_at p s) (\<lambda>e.
          let partId = pfi_partitionId (fsm_fileId src);
              e' = e\<lparr>pe_file := Some ((the_file e)
                       \<lparr>pfile_id := pfi_id (fsm_fileId src), pfile_offset := fsm_fileOffset src,
                        pfile_size := fsm_fileSize src, pfile_eventType := Fs_Access,
                        pfile_creationDate := pfi_creationDate (fsm_fileId src)\<rparr>),
                     pe_device := (pe_device e)\<lparr>pdev_partition := partId\<rparr>\<rparr>;
              s = v0_put_event p e' s;
              s = (case map_find (v0_devices s) partId of
                     Some _ \<Rightarrow> s
                   | None \<Rightarrow>
                       let (s, _) = v0_device_at partId s;
                           (s, dev) = v0_device_at (pdev_id (pe_device e')) s
                       in s\<lparr>v0_devices := map_put partId dev (v0_devices s)\<rparr>)
          in Inr (s\<lparr>v0_fileInfo :=
                      table_set_size (file_id_of_proto (fsm_fileId src)) (fsm_fileSize src) (v0_fileInfo s)\<rparr>)))"

definition v0_handle_file_event ::
    "event_header \<Rightarrow> event_filesystem_file_event \<Rightarrow> v0_handler \<Rightarrow> v0_handler" where
  "v0_handle_file_event hdr ev s =
     (let partId = pfi_partitionId (fse_fileId ev);
          (s, dev) = v0_device_at partId s;
          (t, size) = table_event_size (file_id_of_proto (fse_fileId ev)) (fse_fsEventType ev) (v0_fileInfo s);
          parsed = parsed_event_default
            \<lparr>pe_header := hdr,
             pe_file := Some (parsed_file_default
               \<lparr>pfile_eventType := fse_fsEventType ev, pfile_id := pfi_id (fse_fileId ev),
                pfile_creationDate := pfi_creationDate (fse_fileId ev), pfile_size := size\<rparr>),
             pe_device := \<lparr>pdev_id = dd_id dev, pdev_name = dd_name dev,
               pdev_partition = partId, pdev_model = ''''\<rparr>\<rparr>
      in s\<lparr>v0_queue := v0_queue s @ [parsed], v0_fileInfo := t\<rparr>)"

definition v0_handle_file_name :: "event_filesystem_file_name \<Rightarrow> v0_handler \<Rightarrow> v0_handler" where
  "v0_handle_file_name ev s =
     s\<lparr>v0_fileInfo := table_set_name (file_id_of_proto (fsn_fileId ev)) (fsn_fileName ev)
                        (file_id_of_proto (fsn_fileParentId ev)) (v0_fileInfo s)\<rparr>"

definition v0_set_offset :: "trace_event \<Rightarrow> v0_handler \<Rightarrow> v0_handler" where
  "v0_set_offset e s =
     (if v0_timestampOffset s = 0
      then s\<lparr>v0_timestampOffset := eh_timestamp (te_header e), v0_sidOffset := eh_sid (te_header e)\<rparr>
      else s)"

definition v0_handleEvent :: "bool \<Rightarrow> trace_event \<Rightarrow> v0_handler \<Rightarrow> v0_handler res" where
  "v0_handleEvent finished e s =
     (let s = v0_set_offset e s; hdr = te_header e
      in case te_event e of
           DeviceDescription d \<Rightarrow> Inr (v0_handle_device d s)
         | Io io \<Rightarrow> v0_handle_io hdr io s
         | IoCompletion cmpl \<Rightarrow> v0_handle_completion finished hdr cmpl s
         | FilesystemMeta m \<Rightarrow> v0_handle_fs_meta m s
         | FilesystemFileEvent ev \<Rightarrow> Inr (v0_handle_file_event hdr ev s)
         | FilesystemFileName ev \<Rightarrow> Inr (v0_handle_file_name ev s)
         | EventType_Not_Set \<Rightarrow> Inr s)"

fun v0_handle_all :: "(bool \<times> trace_event) list \<Rightarrow> v0_handler \<Rightarrow> v0_handler res" where
  "v0_handle_all [] s = Inr s"
| "v0_handle_all ((finished, e) # es) s =
     and_then (v0_handleEvent finished e s) (v0_handle_all es)"

definition v0_processEvents :: "(bool \<times> trace_event) list \<Rightarrow> v0_handler \<Rightarrow> v0_handler res" where
  "v0_processEvents es s = and_then (v0_handle_all es s) (v0_flushEvents True)"

definition v0_getDevicesSize :: "v0_handler \<Rightarrow> u64" where
  "v0_getDevicesSize s = sum_list (map (\<lambda>(k, d). if k = dd_id d then dd_size d else 0) (v0_devices s))"

subsection \<open>The invariant\<close>

fun positions_from :: "nat \<Rightarrow> ('a \<Rightarrow> bool) \<Rightarrow> 'a list \<Rightarrow> nat list" where
  "positions_from n P [] = []"
| "positions_from n P (x # xs) = (if P x then [n] else []) @ positions_from (Suc n) P xs"

lemma positions_append:
  "positions_from n P (xs @ ys) = positions_from n P xs @ positions_from (n + length xs) P ys"
  by (induction xs arbitrary: n) simp_all

lemma positions_map: "positions_from n P xs = positions_from n id (map P xs)"
  by (induction xs arbitrary: n) simp_all

lemma positions_update:
  "k < length xs \<Longrightarrow> P y = P (xs ! k) \<Longrightarrow> positions_from n P (xs[k := y]) = positions_from n P xs"
  unfolding positions_map [of _ P] map_update using list_update_id [of "map P xs" k] by (simp add: nth_map)

lemma set_positions:
  "p \<in> set (positions_from n P xs) \<longleftrightarrow> n \<le> p \<and> p < n + length xs \<and> P (xs ! (p - n))"
proof (induction xs arbitrary: n)
  case (Cons x xs)
  show ?case using Cons [of "Suc n"] by (cases "p = n") (auto simp: nth_Cons' Suc_le_eq)
qed simp

definition has_key :: "io_key \<Rightarrow> parsed_event \<Rightarrow> bool" where
  "has_key k e \<longleftrightarrow> pe_io e \<noteq> None \<and> key_of_parsed e = k"

text \<open>The positions of the queued IOs of a key, in their order.\<close>

definition queued_at :: "io_key \<Rightarrow> v0_handler \<Rightarrow> nat list" where
  "queued_at k s = positions_from (v0_popped s) (has_key k) (v0_queue s)"

definition keys_mapped :: "v0_handler \<Rightarrow> bool" where
  "keys_mapped s \<longleftrightarrow> map_ok (v0_eventMapping s) \<and>
     (\<forall>k. map_find (v0_eventMapping s) k = (if queued_at k s = [] then None else Some (queued_at k s)))"

abbreviation sid_of :: "parsed_event \<Rightarrow> u64" where
  "sid_of e \<equiv> eh_sid (pe_header e)"

definition sids_mapped :: "v0_handler \<Rightarrow> bool" where
  "sids_mapped s \<longleftrightarrow> map_ok (v0_sidMapping s) \<and>
     (\<forall>k p. map_find (v0_sidMapping s) k = Some p \<longleftrightarrow>
        (\<exists>e. v0_event_at p s = Inr e \<and> pe_io e \<noteq> None \<and> sid_of e = k))"

definition v0_ok :: "v0_handler \<Rightarrow> bool" where
  "v0_ok s \<longleftrightarrow> keys_mapped s \<and> sids_mapped s \<and> distinct (map sid_of (v0_queue s)) \<and>
     map_ok (v0_devices s) \<and> table_ok (v0_fileInfo s) \<and>
     (\<forall>e \<in> set (v0_queue s). pe_file e \<noteq> None \<longrightarrow>
        map_find (v0_devices s) (pdev_partition (pe_device e)) \<noteq> None)"

lemma v0_event_at_Inr:
  "v0_event_at p s = Inr e \<longleftrightarrow> v0_popped s \<le> p \<and> p < v0_popped s + length (v0_queue s) \<and>
     e = v0_queue s ! (p - v0_popped s)"
  by (auto simp: v0_event_at_def)

lemma v0_event_at_cong:
  "v0_queue s' = v0_queue s \<Longrightarrow> v0_popped s' = v0_popped s \<Longrightarrow> v0_event_at p s' = v0_event_at p s"
  by (simp add: v0_event_at_def)

lemma queued_at_event: "p \<in> set (queued_at k s) \<longleftrightarrow> (\<exists>e. v0_event_at p s = Inr e \<and> has_key k e)"
  by (auto simp: queued_at_def set_positions v0_event_at_Inr)

lemma v0_ok_cong:
  assumes "v0_ok s" "v0_queue s' = v0_queue s" "v0_popped s' = v0_popped s"
    "v0_eventMapping s' = v0_eventMapping s" "v0_sidMapping s' = v0_sidMapping s"
    "map_ok (v0_devices s')" "table_ok (v0_fileInfo s')"
    "\<And>d. map_find (v0_devices s) d \<noteq> None \<Longrightarrow> map_find (v0_devices s') d \<noteq> None"
  shows "v0_ok s'"
  using assms by (simp add: v0_ok_def keys_mapped_def sids_mapped_def queued_at_def v0_event_at_def)

text \<open>What an event is from its arrival to its delivery, and the history of a handler.\<close>

definition v0_ident :: "parsed_event \<Rightarrow>
    (io_key \<times> int \<times> parsed_flags \<times> u32) + (u64 \<times> fs_event_type \<times> u64)" where
  "v0_ident e =
     (case pe_io e of
        Some io \<Rightarrow> Inl (key_of_parsed e, io_ident io)
      | None \<Rightarrow> Inr (pdev_partition (pe_device e), pfile_eventType (the_file e), pfile_id (the_file e)))"

definition v0_history :: "v0_handler \<Rightarrow>
    (u64 \<times> ((io_key \<times> int \<times> parsed_flags \<times> u32) + (u64 \<times> fs_event_type \<times> u64))) list" where
  "v0_history s =
     map (\<lambda>e. (sid_of e + v0_sidOffset s, v0_ident e)) (v0_handledIOs s) @
     map (\<lambda>e. (sid_of e, v0_ident e)) (v0_queue s)"

text \<open>What the steps leave alone.\<close>

definition v0_setup :: "v0_handler \<Rightarrow> u64 \<times> u64 \<times> u64 \<times> u64" where
  "v0_setup s = (v0_timestampOffset s, v0_sidOffset s, v0_subrangeStart s, v0_subrangeEnd s)"

lemma v0_history_sids: "set (map sid_of (v0_queue s)) \<subseteq> fst ` set (v0_history s)"
  by (force simp: v0_history_def)

subsection \<open>Passing one event on\<close>

lemma erase_sid_other:
  "\<forall>p \<in> set ps. \<exists>x. v0_event_at p s = Inr x \<and> sid_of x \<noteq> sid \<Longrightarrow> erase_sid s sid ps = Inr ps"
  by (induction ps) auto

lemma map_erase_front:
  assumes ok: "v0_ok s" and q: "v0_queue s = e # rest"
    and s1: "v0_queue s1 = v0_queue s" "v0_popped s1 = v0_popped s" "v0_eventMapping s1 = v0_eventMapping s"
  shows "\<exists>m. map_erase_event (key_of_parsed e) (sid_of e) s1 = Inr (s1\<lparr>v0_eventMapping := m\<rparr>) \<and> map_ok m \<and>
    (\<forall>k. map_find m k = (let ps = positions_from (Suc (v0_popped s)) (has_key k) rest
                         in if ps = [] then None else Some ps))"
proof -
  let ?k = "key_of_parsed e" and ?W = "\<lambda>k. positions_from (Suc (v0_popped s)) (has_key k) rest"
  let ?m = "v0_eventMapping s"
  have m: "map_ok ?m" "map_find ?m k = (if queued_at k s = [] then None else Some (queued_at k s))" for k
    using ok by (simp_all add: v0_ok_def keys_mapped_def)
  have w: "queued_at k s = (if has_key k e then [v0_popped s] else []) @ ?W k" for k
    by (simp add: queued_at_def q)
  have at: "v0_event_at p s1 = v0_event_at p s" for p by (rule v0_event_at_cong) (rule s1)+
  have hd: "v0_event_at (v0_popped s) s = Inr e" by (simp add: v0_event_at_def q)
  show ?thesis
  proof (cases "pe_io e = None")
    case True
    then have W: "queued_at k s = ?W k" for k by (simp add: w has_key_def)
    have "erase_sid s1 (sid_of e) (?W ?k) = Inr (?W ?k)"
    proof (rule erase_sid_other, intro ballI)
      fix p assume p: "p \<in> set (?W ?k)"
      then obtain x where x: "v0_event_at p s = Inr x" using queued_at_event W by metis
      have "p > v0_popped s" using p by (simp add: set_positions)
      then have "x \<in> set rest" using x q by (auto simp: v0_event_at_Inr nth_Cons')
      then have "sid_of x \<in> sid_of ` set rest" by blast
      then have "sid_of x \<noteq> sid_of e" using ok q by (auto simp: v0_ok_def)
      then show "\<exists>x. v0_event_at p s1 = Inr x \<and> sid_of x \<noteq> sid_of e" using x at by auto
    qed
    then have "map_erase_event ?k (sid_of e) s1 = Inr (s1\<lparr>v0_eventMapping := ?m\<rparr>)"
      using m(2) [of ?k] map_put_same_list [OF m(1), of ?k "?W ?k"] s1(3)
      by (auto simp: map_erase_event_def W)
    then show ?thesis using m W by (auto simp: Let_def)
  next
    case False
    then have io: "has_key ?k e" "\<And>k. has_key k e \<longleftrightarrow> k = ?k" by (auto simp: has_key_def)
    let ?m' = "if ?W ?k = [] then map_erase ?k ?m else map_put ?k (?W ?k) ?m"
    have "map_erase_event ?k (sid_of e) s1 = Inr (s1\<lparr>v0_eventMapping := ?m'\<rparr>)"
      using m(2) [of ?k] hd s1(3) by (simp add: map_erase_event_def w io at)
    moreover have "map_ok ?m'" using m(1) by (simp add: sm.ok_erase sm.ok_put)
    moreover have "map_find ?m' k = (if ?W k = [] then None else Some (?W k))" for k
      using m(2) [of k] io(2) w [of k] m(1) by (simp add: sm.find_erase sm.find_put)
    ultimately show ?thesis unfolding Let_def by blast
  qed
qed

lemma v0_released_ok:
  assumes "table_ok (v0_fileInfo s)"
    "pe_file e \<noteq> None \<Longrightarrow> map_find (v0_devices s) (pdev_partition (pe_device e)) \<noteq> None"
  shows "\<exists>e'. v0_released_event s e = Inr e' \<and> sid_of e' = sid_of e - v0_sidOffset s \<and>
    same_io e e' \<and> v0_ident e' = v0_ident e \<and> (\<forall>io. pe_io e' = Some io \<longrightarrow> pio_qd io > 0)"
proof -
  define e1 where "e1 = set_sid (sid_of e - v0_sidOffset s) e"
  define e2 where "e2 = (case pe_io e1 of None \<Rightarrow> e1 | Some io \<Rightarrow> e1\<lparr>pe_io := Some (io\<lparr>pio_qd :=
      v0_adjusted (v0_depth_at (pdev_id (pe_device e1)) s) (pio_qd io)\<rparr>)\<rparr>)"
  define e3 where "e3 = e2\<lparr>pe_header := (pe_header e2)\<lparr>eh_timestamp :=
    (if eh_timestamp (pe_header e2) > v0_timestampOffset s
     then eh_timestamp (pe_header e2) - v0_timestampOffset s else 0)\<rparr>\<rparr>"
  have qd: "v0_adjusted d q > 0" for d q
    by (auto simp: v0_adjusted_def word_gt_0)
  have e3: "sid_of e3 = sid_of e - v0_sidOffset s" "same_io e e3" "pe_file e3 = pe_file e"
    "pe_device e3 = pe_device e" "v0_ident e3 = v0_ident e"
    by (auto simp: e3_def e2_def e1_def same_io_def set_sid_def v0_ident_def key_of_parsed_def io_ident_def
        the_file_def the_io_def split: option.splits)
  have "\<forall>io. pe_io e3 = Some io \<longrightarrow> pio_qd io > 0"
    using qd by (auto simp: e3_def e2_def e1_def set_sid_def split: option.splits)
  moreover have run: "v0_released_event s e = (case pe_file e of
      None \<Rightarrow> Inr e3
    | Some f \<Rightarrow>
        and_then (v0_getFileSystemViewer (pdev_partition (pe_device e)) s) (\<lambda>table.
        case table_getFilePath (file_id_of_parsed e3) table of
          None \<Rightarrow> Inl No_Return
        | Some path \<Rightarrow> Inr (e3\<lparr>pe_file := Some (f\<lparr>pfile_path := path\<rparr>)\<rparr>)))"
    unfolding v0_released_event_def Let_def e1_def [symmetric] e2_def [symmetric] e3_def [symmetric] e3(3,4) ..
  moreover obtain path where "table_getFilePath (file_id_of_parsed e3) (v0_fileInfo s) = Some path"
    using table_getFilePath_total [OF assms(1)] by blast
  ultimately show ?thesis using e3 assms(2)
    by (cases "pe_file e")
      (auto simp: v0_getFileSystemViewer_def same_io_def v0_ident_def key_of_parsed_def the_io_def split: option.splits)
qed

lemma v0_pushOut_ok:
  assumes ok: "v0_ok s" and q: "v0_queue s = e # rest"
  shows "\<exists>s' e'. v0_pushOutEvent s = Inr s' \<and> v0_ok s' \<and> v0_queue s' = rest \<and>
    v0_handledIOs s' = v0_handledIOs s @ [e'] \<and> same_io e e' \<and> v0_setup s' = v0_setup s \<and>
    v0_history s' = v0_history s \<and> v0_limit s' = v0_limit s \<and>
    (\<forall>io. pe_io e' = Some io \<longrightarrow> pio_qd io > 0)"
proof -
  define s1 where "s1 = s\<lparr>v0_sidMapping := map_erase (sid_of e) (v0_sidMapping s)\<rparr>"
  obtain m where m: "map_erase_event (key_of_parsed e) (sid_of e) s1 = Inr (s1\<lparr>v0_eventMapping := m\<rparr>)" "map_ok m"
    "\<And>k. map_find m k = (let ps = positions_from (Suc (v0_popped s)) (has_key k) rest in if ps = [] then None else Some ps)"
    using map_erase_front [OF ok q, of s1] by (auto simp: s1_def)
  define s2 where "s2 = s1\<lparr>v0_eventMapping := m\<rparr>"
  have f2: "v0_fileInfo s2 = v0_fileInfo s" "v0_devices s2 = v0_devices s" "v0_sidOffset s2 = v0_sidOffset s"
    by (simp_all add: s2_def s1_def)
  have tab: "table_ok (v0_fileInfo s2)"
    "pe_file e \<noteq> None \<Longrightarrow> map_find (v0_devices s2) (pdev_partition (pe_device e)) \<noteq> None"
    using ok q unfolding f2 v0_ok_def by simp_all
  obtain e' where e': "v0_released_event s2 e = Inr e'" "sid_of e' = sid_of e - v0_sidOffset s" "same_io e e'"
    "v0_ident e' = v0_ident e" "\<forall>io. pe_io e' = Some io \<longrightarrow> pio_qd io > 0"
    using v0_released_ok [OF tab] unfolding f2 by blast
  obtain s' where s': "v0_pushOutEvent s = Inr s'" "v0_queue s' = rest" "v0_popped s' = Suc (v0_popped s)"
    "v0_handledIOs s' = v0_handledIOs s @ [e']" "v0_eventMapping s' = m"
    "v0_sidMapping s' = map_erase (sid_of e) (v0_sidMapping s)" "v0_devices s' = v0_devices s"
    "v0_fileInfo s' = v0_fileInfo s" "v0_setup s' = v0_setup s" "v0_limit s' = v0_limit s"
    using m(1) e'(1) q
    by (simp add: v0_pushOutEvent_def Let_def s1_def [symmetric] s2_def [symmetric])
      (simp add: s2_def s1_def v0_put_depth_def v0_setup_def)
  have off: "v0_sidOffset s' = v0_sidOffset s" using s'(9) by (simp add: v0_setup_def)
  have "keys_mapped s'" using m(2,3) by (simp add: keys_mapped_def queued_at_def s'(2,3,5) Let_def)
  moreover have "sids_mapped s'"
  proof -
    have sm: "map_ok (v0_sidMapping s)" "map_find (v0_sidMapping s) k = Some p \<longleftrightarrow>
        (\<exists>x. v0_event_at p s = Inr x \<and> pe_io x \<noteq> None \<and> sid_of x = k)" for k p
      using ok by (simp_all add: v0_ok_def sids_mapped_def)
    have d: "distinct (map sid_of (e # rest))" using ok q by (simp add: v0_ok_def)
    have at: "v0_event_at p s' = Inr x \<longleftrightarrow> v0_event_at p s = Inr x \<and> sid_of x \<noteq> sid_of e" for p x
    proof (cases "p = v0_popped s")
      case True
      then show ?thesis using q s'(2,3) by (auto simp: v0_event_at_Inr)
    next
      case False
      then have "v0_event_at p s' = v0_event_at p s" using q s'(2,3) by (auto simp: v0_event_at_def nth_Cons')
      moreover have "sid_of x \<noteq> sid_of e" if "v0_event_at p s = Inr x"
      proof -
        have "x \<in> set rest" using that False q by (auto simp: v0_event_at_Inr nth_Cons')
        then have "sid_of x \<in> set (map sid_of rest)" by simp
        then show ?thesis using d by auto
      qed
      ultimately show ?thesis by auto
    qed
    have "map_find (v0_sidMapping s') k = Some p \<longleftrightarrow>
        (\<exists>x. v0_event_at p s' = Inr x \<and> pe_io x \<noteq> None \<and> sid_of x = k)" for k p
      using sm(2) [of k p] unfolding at s'(6) by (auto simp: sm.find_erase [OF sm(1)])
    then show ?thesis using sm(1) s'(6) by (simp add: sids_mapped_def sm.ok_erase)
  qed
  ultimately have "v0_ok s'" using ok q s'(2,7,8) by (simp add: v0_ok_def)
  moreover have "v0_history s' = v0_history s"
    using e'(2,4) q s'(2,4) off by (simp add: v0_history_def)
  ultimately show ?thesis using s' e' by blast
qed

subsection \<open>Flushing\<close>

text \<open>A state that keeps the history, with a queue that got no longer.\<close>

definition v0_delivers :: "v0_handler \<Rightarrow> v0_handler res \<Rightarrow> (v0_handler \<Rightarrow> bool) \<Rightarrow> bool" where
  "v0_delivers s r P \<longleftrightarrow> (\<exists>s'. r = Inr s' \<and> v0_ok s' \<and> v0_history s' = v0_history s \<and>
     v0_setup s' = v0_setup s \<and> v0_limit s' = v0_limit s \<and> P s')"

lemma v0_deliversI:
  "v0_ok s \<Longrightarrow> P s \<Longrightarrow> v0_delivers s (Inr s) P"
  by (simp add: v0_delivers_def)

lemma v0_delivers_then:
  assumes "v0_delivers s r Q" "\<And>s'. v0_ok s' \<Longrightarrow> Q s' \<Longrightarrow> v0_limit s' = v0_limit s \<Longrightarrow> v0_delivers s' (f s') P"
  shows "v0_delivers s (and_then r f) P"
proof -
  obtain s' where s': "r = Inr s'" "v0_ok s'" "v0_history s' = v0_history s" "v0_setup s' = v0_setup s"
    "v0_limit s' = v0_limit s" "Q s'"
    using assms(1) unfolding v0_delivers_def by blast
  then show ?thesis using assms(2) [OF s'(2,6,5)] by (simp add: v0_delivers_def)
qed

lemma v0_push_delivers:
  assumes "v0_ok s" "v0_queue s \<noteq> []"
  shows "v0_delivers s (v0_pushOutEvent s) (\<lambda>s'. length (v0_queue s') < length (v0_queue s))"
proof -
  obtain e rest where "v0_queue s = e # rest" using assms(2) by (cases "v0_queue s") auto
  from v0_pushOut_ok [OF assms(1) this] this show ?thesis unfolding v0_delivers_def by fastforce
qed

lemma v0_flush_complete_ok:
  "v0_ok s \<Longrightarrow> v0_delivers s (v0_flush_complete n s) (\<lambda>s'. length (v0_queue s') \<le> length (v0_queue s))"
proof (induction n arbitrary: s)
  case (Suc n)
  show ?case
  proof (cases "v0_queue s \<noteq> [] \<and> pio_latency (the_io (hd (v0_queue s))) \<noteq> 0")
    case True
    have "v0_delivers s1 (v0_flush_complete n s1) (\<lambda>s'. length (v0_queue s') \<le> length (v0_queue s))"
      if "v0_ok s1" "length (v0_queue s1) < length (v0_queue s)" for s1
      using Suc.IH [OF that(1)] that(2) unfolding v0_delivers_def by fastforce
    then have "v0_delivers s (and_then (v0_pushOutEvent s) (v0_flush_complete n))
        (\<lambda>s'. length (v0_queue s') \<le> length (v0_queue s))"
      using v0_delivers_then [OF v0_push_delivers [OF Suc.prems]] True by blast
    then show ?thesis using True by simp
  next
    case False
    then have "v0_flush_complete (Suc n) s = Inr s" by auto
    then show ?thesis using v0_deliversI [OF Suc.prems] by simp
  qed
qed (simp add: v0_deliversI)

lemma v0_flush_excess_ok:
  assumes "v0_ok s"
  shows "v0_delivers s (v0_flush_excess n fin s) (\<lambda>s'. length (v0_queue s) \<le> n \<longrightarrow>
    v0_queue s' = [] \<or> \<not> fin \<and> length (v0_queue s') < unat (v0_limit s'))"
  using assms
proof (induction n arbitrary: s)
  case (Suc n)
  show ?case
  proof (cases "v0_queue s = []")
    case True
    then show ?thesis using Suc.prems by (simp add: v0_deliversI)
  next
    case False
    let ?P = "\<lambda>s'. length (v0_queue s) \<le> Suc n \<longrightarrow>
      v0_queue s' = [] \<or> \<not> fin \<and> length (v0_queue s') < unat (v0_limit s')"
    have step: "v0_delivers s1 (if \<not> fin \<and> length (v0_queue s1) < unat (v0_limit s1) then Inr s1
        else v0_flush_excess n fin s1) ?P"
      if "v0_ok s1" "length (v0_queue s1) < length (v0_queue s)" for s1
      using Suc.IH [OF that(1)] that unfolding v0_delivers_def by auto
    have "v0_delivers s (and_then (v0_pushOutEvent s) (\<lambda>s1.
        if \<not> fin \<and> length (v0_queue s1) < unat (v0_limit s1) then Inr s1 else v0_flush_excess n fin s1)) ?P"
      by (rule v0_delivers_then [OF v0_push_delivers [OF Suc.prems False]]) (rule step)
    then show ?thesis using False by simp
  qed
qed (simp add: v0_deliversI)

lemma v0_flushEvents_ok:
  assumes "v0_ok s"
  shows "v0_delivers s (v0_flushEvents fin s) (\<lambda>s'. fin \<longrightarrow> v0_queue s' = [])"
  unfolding v0_flushEvents_def
proof (rule v0_delivers_then [OF v0_flush_complete_ok [OF assms]])
  fix s1 assume ok: "v0_ok s1"
  show "v0_delivers s1 (if length (v0_queue s1) < unat (v0_limit s1) \<and> \<not> fin then Inr s1
      else v0_flush_excess (length (v0_queue s1)) fin s1) (\<lambda>s'. fin \<longrightarrow> v0_queue s' = [])"
    using v0_flush_excess_ok [OF ok, of "length (v0_queue s1)" fin] v0_deliversI [OF ok]
    unfolding v0_delivers_def by auto
qed

subsection \<open>Handling one event\<close>

definition v0_arrivals :: "trace_event \<Rightarrow> v0_handler \<Rightarrow>
    (u64 \<times> ((io_key \<times> int \<times> parsed_flags \<times> u32) + (u64 \<times> fs_event_type \<times> u64))) list" where
  "v0_arrivals e s =
     (case te_event e of
        Io io \<Rightarrow>
          if v0_outside (eio_lba io) (eio_len io) s then []
          else [(eh_sid (te_header e), Inl (key_of_io io, eio_operation io, class_flags io, eio_writeHint io))]
      | FilesystemFileEvent ev \<Rightarrow>
          [(eh_sid (te_header e),
            Inr (pfi_partitionId (fse_fileId ev), fse_fsEventType ev, pfi_id (fse_fileId ev)))]
      | _ \<Rightarrow> [])"

definition v0_steps :: "v0_handler \<Rightarrow> _ list \<Rightarrow> v0_handler res \<Rightarrow> bool" where
  "v0_steps s xs r \<longleftrightarrow> (\<exists>s'. r = Inr s' \<and> v0_ok s' \<and> v0_history s' = v0_history s @ xs \<and>
     v0_setup s' = v0_setup s)"

lemma v0_delivers_steps: "v0_delivers s r P \<Longrightarrow> v0_steps s [] r"
  by (auto simp: v0_delivers_def v0_steps_def)

text \<open>Devices are only added.\<close>

lemma v0_device_at_frame:
  assumes "v0_device_at d s = (s', dev)"
  shows "s' = s\<lparr>v0_devices := fst (map_at device_default d (v0_devices s))\<rparr>"
    "map_ok (v0_devices s) \<Longrightarrow> map_ok (v0_devices s')"
    "map_ok (v0_devices s) \<Longrightarrow> map_find (v0_devices s) k \<noteq> None \<or> k = d \<Longrightarrow> map_find (v0_devices s') k \<noteq> None"
proof -
  show s': "s' = s\<lparr>v0_devices := fst (map_at device_default d (v0_devices s))\<rparr>"
    using assms by (auto simp: v0_device_at_def split: prod.splits)
  show "map_ok (v0_devices s) \<Longrightarrow> map_ok (v0_devices s')" by (simp add: s' map_at_ok)
  show "map_ok (v0_devices s) \<Longrightarrow> map_find (v0_devices s) k \<noteq> None \<or> k = d \<Longrightarrow> map_find (v0_devices s') k \<noteq> None"
    by (auto simp: s' map_find_at)
qed

lemma v0_device_at_ok: "v0_device_at d s = (s', dev) \<Longrightarrow> v0_ok s \<Longrightarrow> v0_ok s'"
proof (rule v0_ok_cong [of s])
  assume at: "v0_device_at d s = (s', dev)" and ok: "v0_ok s"
  note f = v0_device_at_frame [OF at]
  have m: "map_ok (v0_devices s)" "table_ok (v0_fileInfo s)" using ok by (simp_all add: v0_ok_def)
  show "map_ok (v0_devices s')" using f(2) m(1) by blast
  show "map_find (v0_devices s') k \<noteq> None" if "map_find (v0_devices s) k \<noteq> None" for k using f(3) m(1) that by blast
  show "table_ok (v0_fileInfo s')" using m(2) by (simp add: f(1))
qed (auto dest!: v0_device_at_frame(1))

lemma v0_ok_put_depth [simp]: "v0_ok (v0_put_depth d q s) = v0_ok s"
  by (auto simp: v0_put_depth_def v0_ok_def keys_mapped_def sids_mapped_def queued_at_def v0_event_at_def)

lemma v0_put_depth_frame [simp]:
  "v0_history (v0_put_depth d q s) = v0_history s" "v0_setup (v0_put_depth d q s) = v0_setup s"
  "v0_queue (v0_put_depth d q s) = v0_queue s" "v0_popped (v0_put_depth d q s) = v0_popped s"
  "v0_devices (v0_put_depth d q s) = v0_devices s" "v0_fileInfo (v0_put_depth d q s) = v0_fileInfo s"
  "v0_eventMapping (v0_put_depth d q s) = v0_eventMapping s" "v0_sidMapping (v0_put_depth d q s) = v0_sidMapping s"
  "v0_handledIOs (v0_put_depth d q s) = v0_handledIOs s" "v0_timestampOffset (v0_put_depth d q s) = v0_timestampOffset s"
  "v0_sidOffset (v0_put_depth d q s) = v0_sidOffset s" "v0_subrangeStart (v0_put_depth d q s) = v0_subrangeStart s"
  "v0_subrangeEnd (v0_put_depth d q s) = v0_subrangeEnd s"
  by (simp_all add: v0_put_depth_def v0_history_def v0_setup_def)

text \<open>An event queued behind the others, with both mappings when it is an IO.\<close>

lemma v0_enqueue_ok:
  assumes ok: "v0_ok s" and new: "sid_of e \<notin> sid_of ` set (v0_queue s)"
    and dev: "pe_file e \<noteq> None \<Longrightarrow> map_find (v0_devices s) (pdev_partition (pe_device e)) \<noteq> None"
    and s': "v0_queue s' = v0_queue s @ [e]" "v0_popped s' = v0_popped s" "v0_devices s' = v0_devices s"
      "v0_fileInfo s' = v0_fileInfo s"
      "v0_eventMapping s' = (if pe_io e = None then v0_eventMapping s
         else map_put (key_of_parsed e) (queued_at (key_of_parsed e) s @ [v0_popped s + length (v0_queue s)])
                (fst (map_at [] (key_of_parsed e) (v0_eventMapping s))))"
      "v0_sidMapping s' = (if pe_io e = None then v0_sidMapping s
         else map_put (sid_of e) (v0_popped s + length (v0_queue s)) (v0_sidMapping s))"
  shows "v0_ok s'"
proof -
  let ?p = "v0_popped s + length (v0_queue s)"
  have at: "v0_event_at p s' = Inr x \<longleftrightarrow> v0_event_at p s = Inr x \<or> p = ?p \<and> x = e" for p x
    by (auto simp: v0_event_at_Inr s'(1,2) nth_append)
  have w: "queued_at k s' = queued_at k s @ (if has_key k e then [?p] else [])" for k
    by (simp add: queued_at_def s'(1,2) positions_append)
  have km: "map_ok (v0_eventMapping s)"
    "map_find (v0_eventMapping s) k = (if queued_at k s = [] then None else Some (queued_at k s))" for k
    using ok by (simp_all add: v0_ok_def keys_mapped_def)
  have sm: "map_ok (v0_sidMapping s)" "map_find (v0_sidMapping s) k = Some p \<longleftrightarrow>
      (\<exists>x. v0_event_at p s = Inr x \<and> pe_io x \<noteq> None \<and> sid_of x = k)" for k p
    using ok by (simp_all add: v0_ok_def sids_mapped_def)
  have fresh: "sid_of x \<noteq> sid_of e" if "v0_event_at p s = Inr x" for p x
  proof -
    have "x \<in> set (v0_queue s)" using that by (auto simp: v0_event_at_Inr)
    then show ?thesis using new by (metis image_eqI)
  qed
  have "keys_mapped s'"
  proof (cases "pe_io e = None")
    case True
    then show ?thesis using km by (simp add: keys_mapped_def w has_key_def s'(5))
  next
    case False
    then have "has_key k e \<longleftrightarrow> k = key_of_parsed e" for k by (auto simp: has_key_def)
    then show ?thesis using False km
      by (simp add: keys_mapped_def w s'(5) sm.ok_put sm.find_put map_at_ok map_find_at)
  qed
  moreover have "sids_mapped s'"
  proof (cases "pe_io e = None")
    case True
    then show ?thesis using sm by (auto simp: sids_mapped_def at s'(6))
  next
    case False
    then show ?thesis using sm fresh by (auto simp: sids_mapped_def at s'(6) sm.ok_put sm.find_put)
  qed
  ultimately show ?thesis using ok new dev s'(1,3,4) by (auto simp: v0_ok_def)
qed

lemma v0_handle_io_steps:
  assumes ok: "v0_ok s" and ev: "te_event e = Io io"
    and new: "eh_sid (te_header e) \<notin> fst ` set (v0_history s)"
  shows "v0_steps s (v0_arrivals e s) (v0_handle_io (te_header e) io s)"
proof (cases "v0_outside (eio_lba io) (eio_len io) s")
  case True
  then show ?thesis using ok by (simp add: v0_steps_def v0_handle_io_def v0_arrivals_def ev)
next
  case False
  define qd where "qd = (v0_depth_at (eio_deviceId io) s)\<lparr>qd_Value := qd_Value (v0_depth_at (eio_deviceId io) s) + 1\<rparr>"
  obtain s1 dev where s1: "v0_device_at (eio_deviceId io) (v0_put_depth (eio_deviceId io) qd s) = (s1, dev)" by force
  note f1 = v0_device_at_frame [OF s1]
  define parsed where "parsed = v0_parsed_io (te_header e) io (qd_Value qd) dev"
  define p where "p = v0_popped s + length (v0_queue s)"
  let ?k = "key_of_io io" and ?sid = "eh_sid (te_header e)"
  have pk: "pe_io parsed \<noteq> None" "key_of_parsed parsed = ?k" "sid_of parsed = ?sid" "pe_file parsed = None"
    "v0_ident parsed = Inl (?k, eio_operation io, class_flags io, eio_writeHint io)"
    by (simp_all add: parsed_def v0_parsed_io_def key_of_parsed_def key_of_io_def parsed_event_default_def
        v0_ident_def io_ident_def the_io_def)
  have ok1: "v0_ok s1"
    using v0_device_at_ok [OF s1] ok by simp
  have same1: "v0_queue s1 = v0_queue s" "v0_popped s1 = v0_popped s" "v0_sidMapping s1 = v0_sidMapping s"
    "v0_eventMapping s1 = v0_eventMapping s" "v0_history s1 = v0_history s" "v0_setup s1 = v0_setup s"
    unfolding f1(1) by (simp_all add: v0_history_def v0_setup_def)
  define s2 where "s2 = map_add_event ?k p (s1\<lparr>v0_queue := v0_queue s1 @ [parsed]\<rparr>)"
  define s' where "s' = s2\<lparr>v0_sidMapping := map_put ?sid p (v0_sidMapping s)\<rparr>"
  have fresh: "?sid \<notin> sid_of ` set (v0_queue s)" using new v0_history_sids [of s] by auto
  have "map_find (v0_sidMapping s) ?sid = None"
  proof (rule ccontr)
    assume "map_find (v0_sidMapping s) ?sid \<noteq> None"
    then obtain q where "map_find (v0_sidMapping s) ?sid = Some q" by blast
    moreover have "sids_mapped s" using ok by (simp add: v0_ok_def)
    ultimately obtain x where "v0_event_at q s = Inr x" "sid_of x = ?sid" unfolding sids_mapped_def by blast
    then have "x \<in> set (v0_queue s)" using nth_mem [of "q - v0_popped s" "v0_queue s"] by (auto simp: v0_event_at_Inr)
    then have "?sid \<in> sid_of ` set (v0_queue s)" using \<open>sid_of x = ?sid\<close> by (metis image_eqI)
    then show False using fresh by blast
  qed
  then have run: "v0_handle_io (te_header e) io s = Inr s'"
    using False s1
    by (simp add: v0_handle_io_def Let_def qd_def [symmetric] map_emplace_def s'_def s2_def map_add_event_def
        same1 p_def parsed_def case_prod_beta)
  have queued: "snd (map_at [] ?k (v0_eventMapping s)) = queued_at ?k s1"
    using ok same1 by (simp add: snd_map_at v0_ok_def keys_mapped_def queued_at_def)
  have "v0_ok s'"
    by (rule v0_enqueue_ok [OF ok1, of parsed])
      (use fresh queued in \<open>simp_all add: pk same1 s'_def s2_def map_add_event_def p_def case_prod_beta\<close>)
  moreover have "v0_history s' = v0_history s @ v0_arrivals e s" "v0_setup s' = v0_setup s"
    using False same1(5,6) pk(3,5)
    by (simp_all add: v0_history_def v0_setup_def s'_def s2_def map_add_event_def v0_arrivals_def ev case_prod_beta)
  ultimately show ?thesis using run by (simp add: v0_steps_def)
qed

text \<open>An event of the queue changed, but not in what the mappings go by.\<close>

lemma v0_update_ok:
  assumes ok: "v0_ok s" and at: "v0_event_at p s = Inr e"
    and e': "(pe_io e' = None) = (pe_io e = None)" "key_of_parsed e' = key_of_parsed e" "sid_of e' = sid_of e"
    and dev: "pe_file e' \<noteq> None \<Longrightarrow> map_find (v0_devices s') (pdev_partition (pe_device e')) \<noteq> None"
    and s': "v0_queue s' = (v0_queue s)[p - v0_popped s := e']" "v0_popped s' = v0_popped s"
      "v0_eventMapping s' = v0_eventMapping s" "v0_sidMapping s' = v0_sidMapping s"
      "map_ok (v0_devices s')" "table_ok (v0_fileInfo s')"
      "\<And>d. map_find (v0_devices s) d \<noteq> None \<Longrightarrow> map_find (v0_devices s') d \<noteq> None"
  shows "v0_ok s'"
proof -
  let ?i = "p - v0_popped s"
  have i: "v0_popped s \<le> p" "?i < length (v0_queue s)" "v0_queue s ! ?i = e"
    using at by (auto simp: v0_event_at_Inr)
  have w: "queued_at k s' = queued_at k s" for k
    unfolding queued_at_def s'(1,2) using i e' by (intro positions_update) (auto simp: has_key_def)
  have sids: "map sid_of (v0_queue s') = map sid_of (v0_queue s)"
    unfolding s'(1) map_update e'(3) using list_update_id [of "map sid_of (v0_queue s)" ?i] i by simp
  have at': "v0_event_at q s' = (if q = p then Inr e' else v0_event_at q s)" for q
  proof (cases "v0_popped s \<le> q \<and> q \<noteq> p")
    case True
    then have "q - v0_popped s \<noteq> ?i" using i(1) by linarith
    then show ?thesis using True by (simp add: v0_event_at_def s'(1,2))
  next
    case False
    show ?thesis
    proof (cases "q = p")
      case True
      then show ?thesis using i(1,2) by (simp add: v0_event_at_def s'(1,2))
    next
      case neq: False
      with False have "q < v0_popped s" by linarith
      then show ?thesis using neq by (simp add: v0_event_at_def s'(1,2))
    qed
  qed
  have "(\<exists>x. v0_event_at q s' = Inr x \<and> pe_io x \<noteq> None \<and> sid_of x = k) \<longleftrightarrow>
      (\<exists>x. v0_event_at q s = Inr x \<and> pe_io x \<noteq> None \<and> sid_of x = k)" for q k
  proof (cases "q = p")
    case True
    have "(\<exists>x. v0_event_at p s = Inr x \<and> pe_io x \<noteq> None \<and> sid_of x = k) \<longleftrightarrow> pe_io e \<noteq> None \<and> sid_of e = k"
      unfolding at by blast
    moreover have "(\<exists>x. v0_event_at p s' = Inr x \<and> pe_io x \<noteq> None \<and> sid_of x = k) \<longleftrightarrow> pe_io e' \<noteq> None \<and> sid_of e' = k"
      unfolding at' if_P [OF refl] by blast
    ultimately show ?thesis unfolding True e'(1,3) by blast
  next
    case False
    show ?thesis unfolding at' if_not_P [OF False] by (rule refl)
  qed
  then have "sids_mapped s'" using ok by (simp add: v0_ok_def sids_mapped_def s'(4))
  moreover have "map_find (v0_devices s') (pdev_partition (pe_device x)) \<noteq> None"
    if "x \<in> set (v0_queue s')" "pe_file x \<noteq> None" for x
  proof -
    have "x = e' \<or> x \<in> set (v0_queue s)" using that(1) set_update_subset_insert [of "v0_queue s" ?i e'] s'(1) by auto
    then show ?thesis using dev that(2) ok s'(7) unfolding v0_ok_def by blast
  qed
  ultimately show ?thesis using ok w sids s'(3,5,6) by (simp add: v0_ok_def keys_mapped_def)
qed

lemma v0_update_history:
  assumes "v0_event_at p s = Inr e" "sid_of e' = sid_of e" "v0_ident e' = v0_ident e"
    "v0_queue s' = (v0_queue s)[p - v0_popped s := e']" "v0_handledIOs s' = v0_handledIOs s"
    "v0_sidOffset s' = v0_sidOffset s"
  shows "v0_history s' = v0_history s"
  using assms by (auto simp: v0_history_def v0_event_at_Inr map_update list_update_same_conv)

subsection \<open>Completions\<close>

lemma first_waiting_ok:
  "\<forall>p \<in> set ps. \<exists>x. v0_event_at p s = Inr x \<Longrightarrow>
   \<exists>r. first_waiting s ps = Inr r \<and>
     (case r of
        None \<Rightarrow> \<forall>p \<in> set ps. \<forall>x. v0_event_at p s = Inr x \<longrightarrow> pio_latency (the_io x) \<noteq> 0
      | Some p \<Rightarrow> \<exists>as bs. ps = as @ p # bs \<and>
          (\<forall>x. v0_event_at p s = Inr x \<longrightarrow> pio_latency (the_io x) = 0) \<and>
          (\<forall>q \<in> set as. \<forall>x. v0_event_at q s = Inr x \<longrightarrow> pio_latency (the_io x) \<noteq> 0))"
proof (induction ps)
  case (Cons p ps)
  obtain x where x: "v0_event_at p s = Inr x" using Cons.prems by auto
  show ?case
  proof (cases "pio_latency (the_io x) = 0")
    case True
    then have "first_waiting s (p # ps) = Inr (Some p)" using x by simp
    moreover have "p # ps = [] @ p # ps" by simp
    ultimately show ?thesis using x True by (intro exI [of _ "Some p"]) fastforce
  next
    case False
    obtain r where r: "first_waiting s ps = Inr r" "case r of
        None \<Rightarrow> \<forall>p \<in> set ps. \<forall>x. v0_event_at p s = Inr x \<longrightarrow> pio_latency (the_io x) \<noteq> 0
      | Some p \<Rightarrow> \<exists>as bs. ps = as @ p # bs \<and>
          (\<forall>x. v0_event_at p s = Inr x \<longrightarrow> pio_latency (the_io x) = 0) \<and>
          (\<forall>q \<in> set as. \<forall>x. v0_event_at q s = Inr x \<longrightarrow> pio_latency (the_io x) \<noteq> 0)"
      using Cons by auto
    show ?thesis
    proof (cases r)
      case None
      then show ?thesis using r x False by auto
    next
      case (Some q)
      then obtain as bs where "ps = as @ q # bs"
        "\<forall>x. v0_event_at q s = Inr x \<longrightarrow> pio_latency (the_io x) = 0"
        "\<forall>q \<in> set as. \<forall>x. v0_event_at q s = Inr x \<longrightarrow> pio_latency (the_io x) \<noteq> 0"
        using r(2) by auto
      then have "p # ps = (p # as) @ q # bs" "\<forall>q \<in> set (p # as). \<forall>x. v0_event_at q s = Inr x \<longrightarrow> pio_latency (the_io x) \<noteq> 0"
        using x False by simp_all
      moreover have "first_waiting s (p # ps) = Inr (Some q)" using r(1) x False Some by simp
      ultimately show ?thesis using \<open>\<forall>x. v0_event_at q s = Inr x \<longrightarrow> pio_latency (the_io x) = 0\<close>
        by (intro exI [of _ "Some q"] conjI) (simp_all only: option.case, blast)
    qed
  qed
qed simp

text \<open>\<open>get\<close> finds the first queued IO of the key that still waits.\<close>

definition waits_at :: "io_key \<Rightarrow> v0_handler \<Rightarrow> nat \<Rightarrow> parsed_event \<Rightarrow> bool" where
  "waits_at k s p e \<longleftrightarrow> v0_event_at p s = Inr e \<and> has_key k e \<and> pio_latency (the_io e) = 0"

lemma positions_sorted: "sorted_wrt (<) (positions_from n P xs)"
  by (induction xs arbitrary: n) (auto simp: set_positions)

lemma map_get_event_ok:
  assumes "v0_ok s"
  shows "\<exists>r. map_get_event k s = Inr r \<and>
    (case r of None \<Rightarrow> \<nexists>p e. waits_at k s p e
     | Some p \<Rightarrow> (\<exists>e. waits_at k s p e) \<and> (\<forall>q e. waits_at k s q e \<longrightarrow> p \<le> q))"
proof -
  let ?ps = "queued_at k s"
  have get: "map_get_event k s = first_waiting s ?ps"
    using assms by (simp add: map_get_event_def v0_ok_def keys_mapped_def)
  have "\<forall>p \<in> set ?ps. \<exists>x. v0_event_at p s = Inr x" by (auto simp: queued_at_event)
  from first_waiting_ok [OF this] obtain r where r: "first_waiting s ?ps = Inr r" "case r of
        None \<Rightarrow> \<forall>p \<in> set ?ps. \<forall>x. v0_event_at p s = Inr x \<longrightarrow> pio_latency (the_io x) \<noteq> 0
      | Some p \<Rightarrow> \<exists>as bs. ?ps = as @ p # bs \<and>
          (\<forall>x. v0_event_at p s = Inr x \<longrightarrow> pio_latency (the_io x) = 0) \<and>
          (\<forall>q \<in> set as. \<forall>x. v0_event_at q s = Inr x \<longrightarrow> pio_latency (the_io x) \<noteq> 0)"
    by blast
  have in_ps: "p \<in> set ?ps" if "waits_at k s p e" for p e
    using that queued_at_event by (auto simp: waits_at_def)
  show ?thesis
  proof (cases r)
    case None
    then have "\<not> waits_at k s p e" for p e using r(2) in_ps [of p e] by (auto simp: waits_at_def)
    then show ?thesis using None get r(1) by auto
  next
    case (Some p)
    then obtain as bs where ps: "?ps = as @ p # bs"
      "\<forall>x. v0_event_at p s = Inr x \<longrightarrow> pio_latency (the_io x) = 0"
      "\<forall>q \<in> set as. \<forall>x. v0_event_at q s = Inr x \<longrightarrow> pio_latency (the_io x) \<noteq> 0"
      using r(2) by auto
    obtain e where "v0_event_at p s = Inr e" "has_key k e"
      using queued_at_event [of p k s] ps(1) by auto
    then have "waits_at k s p e" using ps(2) by (simp add: waits_at_def)
    moreover have "p \<le> q" if "waits_at k s q x" for q x
    proof -
      have "q \<in> set (as @ p # bs)" using in_ps [OF that] ps(1) by simp
      moreover have "q \<notin> set as" using that ps(3) by (auto simp: waits_at_def)
      moreover have "sorted_wrt (<) (as @ p # bs)" using positions_sorted ps(1) by (metis queued_at_def)
      ultimately show ?thesis by (auto simp: sorted_wrt_append)
    qed
    ultimately show ?thesis using Some get r(1) by auto
  qed
qed

lemma v0_apply_completion_ok:
  assumes ok: "v0_ok s"
  shows "v0_steps s [] (v0_apply_completion hdr cmpl s)"
proof -
  let ?k = "key_of_completion cmpl" and ?d = "cmp_deviceId cmpl"
  obtain r where r: "map_get_event ?k s = Inr r"
    "case r of None \<Rightarrow> \<nexists>p e. waits_at ?k s p e | Some p \<Rightarrow> (\<exists>e. waits_at ?k s p e) \<and> (\<forall>q e. waits_at ?k s q e \<longrightarrow> p \<le> q)"
    using map_get_event_ok [OF ok] by blast
  show ?thesis
  proof (cases r)
    case None
    then show ?thesis using r(1) ok by (simp add: v0_apply_completion_def Let_def v0_steps_def)
  next
    case (Some p)
    then obtain e where e: "v0_event_at p s = Inr e" "has_key ?k e" using r(2) by (auto simp: waits_at_def)
    obtain io where io: "pe_io e = Some io" using e(2) by (auto simp: has_key_def)
    have step: "v0_steps s [] (Inr (v0_put_depth ?d qd (v0_put_event p e' s)))"
      if "e' = e\<lparr>pe_io := Some (io\<lparr>pio_latency := l, pio_error := b\<rparr>)\<rparr>" for e' qd l b
    proof -
      have same: "key_of_parsed e' = key_of_parsed e" "v0_ident e' = v0_ident e" "sid_of e' = sid_of e"
        using io that by (simp_all add: key_of_parsed_def v0_ident_def io_ident_def the_io_def)
      have dev: "map_ok (v0_devices s)" "table_ok (v0_fileInfo s)"
        "pe_file e \<noteq> None \<Longrightarrow> map_find (v0_devices s) (pdev_partition (pe_device e)) \<noteq> None"
        using ok e(1) unfolding v0_ok_def by (auto simp: v0_event_at_Inr)
      have "v0_ok (v0_put_event p e' s)"
        by (rule v0_update_ok [OF ok e(1), of e']) (use same dev io that in \<open>auto simp: v0_put_event_def\<close>)
      moreover have "v0_history (v0_put_event p e' s) = v0_history s"
        by (rule v0_update_history [OF e(1), of e']) (use same in \<open>auto simp: v0_put_event_def\<close>)
      ultimately show ?thesis by (simp add: v0_steps_def v0_setup_def v0_put_event_def)
    qed
    have "v0_complete_io hdr cmpl e = e\<lparr>pe_io := Some (io\<lparr>pio_latency := eh_timestamp hdr - eh_timestamp (pe_header e),
        pio_error := cmp_error cmpl\<rparr>)\<rparr>"
      using io by (simp add: v0_complete_io_def)
    moreover have "v0_steps s [] (Inr (v0_put_depth ?d qd (v0_put_event p (e\<lparr>pe_io := Some (the_io e)\<rparr>) s)))" for qd
      by (rule step [where l = "pio_latency io" and b = "pio_error io"]) (simp add: io)
    ultimately show ?thesis using r(1) Some e(1) step
      by (simp add: v0_apply_completion_def Let_def)
  qed
qed

lemma v0_steps_then:
  assumes "v0_steps s xs r" "\<And>s'. v0_ok s' \<Longrightarrow> v0_history s' = v0_history s @ xs \<Longrightarrow> v0_setup s' = v0_setup s \<Longrightarrow>
      v0_steps s' ys (f s')"
  shows "v0_steps s (xs @ ys) (and_then r f)"
  using assms unfolding v0_steps_def by fastforce

lemma v0_handle_completion_steps:
  assumes ok: "v0_ok s" and ev: "te_event e = IoCompletion cmpl"
  shows "v0_steps s (v0_arrivals e s) (v0_handle_completion fin (te_header e) cmpl s)"
proof (cases "v0_outside (cmp_lba cmpl) (cmp_len cmpl) s")
  case True
  then show ?thesis using ok by (simp add: v0_steps_def v0_handle_completion_def v0_arrivals_def ev)
next
  case False
  have "v0_steps s ([] @ []) (and_then (v0_apply_completion (te_header e) cmpl s) (v0_flushEvents fin))"
    by (rule v0_steps_then [OF v0_apply_completion_ok [OF ok]])
      (rule v0_delivers_steps [OF v0_flushEvents_ok])
  then show ?thesis using False by (simp add: v0_handle_completion_def v0_arrivals_def ev)
qed

subsection \<open>Files and devices\<close>

lemma v0_handle_device_steps:
  assumes "v0_ok s"
  shows "v0_steps s [] (Inr (v0_handle_device d s))"
proof -
  have "v0_ok (v0_handle_device d s)"
    by (rule v0_ok_cong [OF assms])
      (use assms in \<open>auto simp: v0_handle_device_def Let_def v0_ok_def sm.ok_put sm.find_put\<close>)
  then show ?thesis by (simp add: v0_steps_def v0_handle_device_def Let_def v0_history_def v0_setup_def)
qed

lemma v0_handle_file_name_steps:
  assumes "v0_ok s" "fsn_fileName ev \<noteq> ''''"
  shows "v0_steps s [] (Inr (v0_handle_file_name ev s))"
proof -
  have "table_ok (v0_fileInfo (v0_handle_file_name ev s))"
    using assms by (simp add: v0_handle_file_name_def table_ok_ops v0_ok_def)
  then have "v0_ok (v0_handle_file_name ev s)"
    by (intro v0_ok_cong [OF assms(1)]) (use assms in \<open>auto simp: v0_handle_file_name_def v0_ok_def\<close>)
  then show ?thesis by (simp add: v0_steps_def v0_handle_file_name_def v0_history_def v0_setup_def)
qed

lemma v0_handle_file_event_steps:
  assumes ok: "v0_ok s" and ev: "te_event e = FilesystemFileEvent ev"
    and new: "eh_sid (te_header e) \<notin> fst ` set (v0_history s)"
  shows "v0_steps s (v0_arrivals e s) (Inr (v0_handle_file_event (te_header e) ev s))"
proof -
  let ?part = "pfi_partitionId (fse_fileId ev)"
  obtain s1 dev where s1: "v0_device_at ?part s = (s1, dev)" by force
  note f1 = v0_device_at_frame [OF s1]
  have ok1: "v0_ok s1" using v0_device_at_ok [OF s1 ok] .
  obtain t size where t: "table_event_size (file_id_of_proto (fse_fileId ev)) (fse_fsEventType ev) (v0_fileInfo s1) = (t, size)"
    by force
  define parsed where "parsed = parsed_event_default
    \<lparr>pe_header := te_header e,
     pe_file := Some (parsed_file_default
       \<lparr>pfile_eventType := fse_fsEventType ev, pfile_id := pfi_id (fse_fileId ev),
        pfile_creationDate := pfi_creationDate (fse_fileId ev), pfile_size := size\<rparr>),
     pe_device := \<lparr>pdev_id = dd_id dev, pdev_name = dd_name dev,
       pdev_partition = ?part, pdev_model = ''''\<rparr>\<rparr>"
  define s2 where "s2 = s1\<lparr>v0_fileInfo := t\<rparr>"
  define s' where "s' = s2\<lparr>v0_queue := v0_queue s2 @ [parsed]\<rparr>"
  have run: "v0_handle_file_event (te_header e) ev s = s'"
    by (simp add: v0_handle_file_event_def Let_def s1 t parsed_def s'_def s2_def)
  have same: "v0_queue s1 = v0_queue s" "v0_history s1 = v0_history s" "v0_setup s1 = v0_setup s"
    unfolding f1(1) by (simp_all add: v0_history_def v0_setup_def)
  have "table_ok t" using table_ok_ops(3) [of "v0_fileInfo s1" "file_id_of_proto (fse_fileId ev)" "fse_fsEventType ev"]
      ok1 t by (simp add: v0_ok_def)
  then have ok2: "v0_ok s2" by (intro v0_ok_cong [OF ok1]) (use ok1 in \<open>auto simp: s2_def v0_ok_def\<close>)
  have p: "pe_io parsed = None" "sid_of parsed = eh_sid (te_header e)" "pdev_partition (pe_device parsed) = ?part"
    "v0_ident parsed = Inr (?part, fse_fsEventType ev, pfi_id (fse_fileId ev))"
    by (simp_all add: parsed_def parsed_event_default_def v0_ident_def the_file_def)
  have "eh_sid (te_header e) \<notin> sid_of ` set (v0_queue s)" using new v0_history_sids [of s] by auto
  moreover have "map_find (v0_devices s1) ?part \<noteq> None" using f1(3) [of ?part] ok by (simp add: v0_ok_def)
  ultimately have "v0_ok s'"
    by (intro v0_enqueue_ok [OF ok2, of parsed]) (simp_all add: p s'_def s2_def same)
  moreover have "v0_history s' = v0_history s @ v0_arrivals e s" "v0_setup s' = v0_setup s"
    using same p by (simp_all add: s'_def s2_def v0_history_def v0_setup_def v0_arrivals_def ev)
  ultimately show ?thesis by (simp add: v0_steps_def run)
qed

lemma v0_handle_fs_meta_steps:
  assumes ok: "v0_ok s"
  shows "v0_steps s [] (v0_handle_fs_meta src s)"
proof (cases "map_find (v0_sidMapping s) (fsm_refSid src)")
  case None
  then show ?thesis using ok by (simp add: v0_handle_fs_meta_def v0_steps_def)
next
  case (Some p)
  moreover have "sids_mapped s" using ok by (simp add: v0_ok_def)
  ultimately obtain e where e: "v0_event_at p s = Inr e" "pe_io e \<noteq> None" unfolding sids_mapped_def by blast
  let ?part = "pfi_partitionId (fsm_fileId src)"
  define e' where "e' = e\<lparr>pe_file := Some ((the_file e)
      \<lparr>pfile_id := pfi_id (fsm_fileId src), pfile_offset := fsm_fileOffset src,
       pfile_size := fsm_fileSize src, pfile_eventType := Fs_Access,
       pfile_creationDate := pfi_creationDate (fsm_fileId src)\<rparr>),
     pe_device := (pe_device e)\<lparr>pdev_partition := ?part\<rparr>\<rparr>"
  define s1 where "s1 = v0_put_event p e' s"
  define m where "m = (case map_find (v0_devices s) ?part of
      Some _ \<Rightarrow> v0_devices s
    | None \<Rightarrow>
        let (s2, _) = v0_device_at ?part s1; (s3, dev) = v0_device_at (pdev_id (pe_device e')) s2
        in map_put ?part dev (v0_devices s3))"
  have d1: "v0_devices s1 = v0_devices s" by (simp add: s1_def v0_put_event_def)
  have m: "map_ok m \<and> map_find m ?part \<noteq> None \<and> (\<forall>d. map_find (v0_devices s) d \<noteq> None \<longrightarrow> map_find m d \<noteq> None)"
  proof (cases "map_find (v0_devices s) ?part")
    case None
    obtain s2 d2 where s2: "v0_device_at ?part s1 = (s2, d2)" by force
    obtain s3 d3 where s3: "v0_device_at (pdev_id (pe_device e')) s2 = (s3, d3)" by force
    have ok1: "map_ok (v0_devices s1)" using ok d1 by (simp add: v0_ok_def)
    have ok2: "map_ok (v0_devices s2)" using v0_device_at_frame(2) [OF s2 ok1] .
    have ok3: "map_ok (v0_devices s3)" using v0_device_at_frame(2) [OF s3 ok2] .
    have "map_find (v0_devices s3) d \<noteq> None" if "map_find (v0_devices s) d \<noteq> None" for d
      using v0_device_at_frame(3) [OF s3 ok2] v0_device_at_frame(3) [OF s2 ok1] that d1 by metis
    then show ?thesis using None ok3 by (simp add: m_def s2 s3 sm.ok_put sm.find_put)
  next
    case (Some d)
    then show ?thesis using ok by (simp add: m_def v0_ok_def)
  qed
  define s' where "s' = s1\<lparr>v0_devices := m, v0_fileInfo :=
    table_set_size (file_id_of_proto (fsm_fileId src)) (fsm_fileSize src) (v0_fileInfo s)\<rparr>"
  have run: "v0_handle_fs_meta src s = Inr s'"
    using Some e(1) d1
    by (auto simp: v0_handle_fs_meta_def Let_def e'_def [symmetric] s1_def [symmetric] s'_def m_def
        split: option.split prod.split) (auto simp: s1_def v0_put_event_def v0_device_at_def split: prod.splits)
  have e'_same: "(pe_io e' = None) = (pe_io e = None)" "key_of_parsed e' = key_of_parsed e"
    "sid_of e' = sid_of e" "pdev_partition (pe_device e') = ?part" "v0_ident e' = v0_ident e"
    using e(2) by (auto simp: e'_def key_of_parsed_def v0_ident_def the_io_def)
  have q: "v0_queue s' = (v0_queue s)[p - v0_popped s := e']" "v0_devices s' = m"
    by (simp_all add: s'_def s1_def v0_put_event_def)
  have "v0_ok s'"
  proof (rule v0_update_ok [OF ok e(1) e'_same(1-3) _ q(1)])
    show "map_ok (v0_devices s')" "\<And>d. map_find (v0_devices s) d \<noteq> None \<Longrightarrow> map_find (v0_devices s') d \<noteq> None"
      "pe_file e' \<noteq> None \<Longrightarrow> map_find (v0_devices s') (pdev_partition (pe_device e')) \<noteq> None"
      using m q(2) e'_same(4) by auto
    show "table_ok (v0_fileInfo s')" using ok by (simp add: s'_def table_ok_ops v0_ok_def)
  qed (simp_all add: s'_def s1_def v0_put_event_def)
  moreover have "v0_history s' = v0_history s"
    by (rule v0_update_history [OF e(1) e'_same(3,5) q(1)]) (simp_all add: s'_def s1_def v0_put_event_def)
  ultimately show ?thesis using run by (simp add: v0_steps_def v0_setup_def s'_def s1_def v0_put_event_def)
qed

subsection \<open>All events\<close>

definition named :: "trace_event \<Rightarrow> bool" where
  "named e \<longleftrightarrow> (case te_event e of FilesystemFileName ev \<Rightarrow> fsn_fileName ev \<noteq> '''' | _ \<Rightarrow> True)"

lemma v0_arrivals_cong: "v0_setup s' = v0_setup s \<Longrightarrow> v0_arrivals e s' = v0_arrivals e s"
  by (simp add: v0_arrivals_def v0_outside_def v0_setup_def split: event_case.split)

lemma v0_arrivals_sids: "fst ` set (v0_arrivals e s) \<subseteq> {eh_sid (te_header e)}"
  by (auto simp: v0_arrivals_def split: event_case.splits if_splits)

lemma v0_handleEvent_steps:
  assumes "v0_ok s" "v0_timestampOffset s \<noteq> 0" "named e" "eh_sid (te_header e) \<notin> fst ` set (v0_history s)"
  shows "v0_steps s (v0_arrivals e s) (v0_handleEvent fin e s)"
proof -
  have off: "v0_set_offset e s = s" using assms(2) by (simp add: v0_set_offset_def)
  show ?thesis
  proof (cases "te_event e")
    case (Io io)
    then show ?thesis using v0_handle_io_steps [OF assms(1) Io assms(4)] off by (simp add: v0_handleEvent_def)
  next
    case (DeviceDescription d)
    then show ?thesis using v0_handle_device_steps [OF assms(1)] off
      by (simp add: v0_handleEvent_def v0_arrivals_def)
  next
    case (FilesystemMeta m)
    then show ?thesis using v0_handle_fs_meta_steps [OF assms(1)] off
      by (simp add: v0_handleEvent_def v0_arrivals_def)
  next
    case (IoCompletion c)
    then show ?thesis using v0_handle_completion_steps [OF assms(1) IoCompletion] off by (simp add: v0_handleEvent_def)
  next
    case (FilesystemFileName ev)
    then show ?thesis using v0_handle_file_name_steps [OF assms(1)] assms(3) off
      by (simp add: v0_handleEvent_def v0_arrivals_def named_def)
  next
    case (FilesystemFileEvent ev)
    then show ?thesis using v0_handle_file_event_steps [OF assms(1) FilesystemFileEvent assms(4)] off
      by (simp add: v0_handleEvent_def)
  next
    case EventType_Not_Set
    then show ?thesis using assms(1) off by (simp add: v0_handleEvent_def v0_steps_def v0_arrivals_def)
  qed
qed

lemma v0_handle_all_steps:
  assumes "v0_ok s" "v0_timestampOffset s \<noteq> 0" "\<forall>(fin, e) \<in> set es. named e"
    "distinct (map (\<lambda>(fin, e). eh_sid (te_header e)) es)"
    "fst ` set (v0_history s) \<inter> set (map (\<lambda>(fin, e). eh_sid (te_header e)) es) = {}"
  shows "v0_steps s (concat (map (\<lambda>(fin, e). v0_arrivals e s) es)) (v0_handle_all es s)"
  using assms
proof (induction es arbitrary: s)
  case Nil
  then show ?case by (simp add: v0_steps_def)
next
  case (Cons x es)
  obtain fin e where x: "x = (fin, e)" by force
  have step: "v0_steps s (v0_arrivals e s) (v0_handleEvent fin e s)"
    by (rule v0_handleEvent_steps) (use Cons.prems x in auto)
  have "v0_steps s (v0_arrivals e s @ concat (map (\<lambda>(fin, e). v0_arrivals e s) es))
      (and_then (v0_handleEvent fin e s) (v0_handle_all es))"
  proof (rule v0_steps_then [OF step])
    fix s' assume s': "v0_ok s'" "v0_history s' = v0_history s @ v0_arrivals e s" "v0_setup s' = v0_setup s"
    have "v0_timestampOffset s' \<noteq> 0" using Cons.prems(2) s'(3) by (simp add: v0_setup_def)
    moreover have "fst ` set (v0_history s') \<inter> set (map (\<lambda>(fin, e). eh_sid (te_header e)) es) = {}"
    proof -
      let ?sids = "set (map (\<lambda>(fin, e). eh_sid (te_header e)) es)"
      have "fst ` set (v0_history s) \<inter> ?sids = {}" using Cons.prems(5) x by auto
      moreover have "fst ` set (v0_arrivals e s) \<inter> ?sids = {}"
        using Cons.prems(4) v0_arrivals_sids [of e s] x by (simp add: disjoint_iff subset_iff) metis
      ultimately show ?thesis unfolding s'(2) by (simp add: image_Un Int_Un_distrib2)
    qed
    ultimately have "v0_steps s' (concat (map (\<lambda>(fin, e). v0_arrivals e s') es)) (v0_handle_all es s')"
      using Cons.prems(3,4) x by (intro Cons.IH [OF s'(1)]) auto
    then show "v0_steps s' (concat (map (\<lambda>(fin, e). v0_arrivals e s) es)) (v0_handle_all es s')"
      by (simp only: v0_arrivals_cong [OF s'(3)])
  qed
  then show ?case by (simp add: x)
qed

lemma v0_new_ok: "v0_ok (v0_setExclusiveSubrange a b v0_handler_new)"
  by (simp add: v0_ok_def keys_mapped_def sids_mapped_def queued_at_def v0_event_at_def
      v0_setExclusiveSubrange_def v0_handler_new_def)

lemma v0_set_offset_again:
  "eh_timestamp (te_header e) \<noteq> 0 \<Longrightarrow> v0_handleEvent fin e (v0_set_offset e s) = v0_handleEvent fin e s"
proof -
  assume "eh_timestamp (te_header e) \<noteq> 0"
  then have "v0_set_offset e (v0_set_offset e s) = v0_set_offset e s" by (simp add: v0_set_offset_def)
  then show ?thesis by (simp only: v0_handleEvent_def)
qed

subsection \<open>Properties\<close>

text \<open>
  From a trace whose sequence numbers differ, whose files have names and whose first event
  has a time, every IO in the subrange and every file event is passed on, once and in the order of
  the trace, with its sequence number counted from that of the first event; no pointer into the
  queue dangles, and nothing is left in the queue.
\<close>

theorem v0_processEvents_delivers_in_order:
  assumes "distinct (map (\<lambda>(fin, e). eh_sid (te_header e)) es)" "\<forall>(fin, e) \<in> set es. named e"
    "es \<noteq> []" "eh_timestamp (te_header (snd (hd es))) \<noteq> 0"
  shows "\<exists>s'. v0_processEvents es (v0_setExclusiveSubrange a b v0_handler_new) = Inr s' \<and> v0_queue s' = [] \<and>
    map (\<lambda>e. (sid_of e + eh_sid (te_header (snd (hd es))), v0_ident e)) (v0_handledIOs s') =
      concat (map (\<lambda>(fin, e). v0_arrivals e (v0_setExclusiveSubrange a b v0_handler_new)) es)"
proof -
  obtain fin e rest where es: "es = (fin, e) # rest" using assms(3) by (cases es) auto
  let ?s0 = "v0_setExclusiveSubrange a b v0_handler_new"
  define s where "s = v0_set_offset e ?s0"
  have s: "s = ?s0\<lparr>v0_timestampOffset := eh_timestamp (te_header e), v0_sidOffset := eh_sid (te_header e)\<rparr>"
    by (simp add: s_def v0_set_offset_def v0_setExclusiveSubrange_def v0_handler_new_def)
  have ok: "v0_ok s" by (rule v0_ok_cong [OF v0_new_ok [of a b]]) (simp_all add: s v0_setExclusiveSubrange_def v0_handler_new_def)
  have h: "v0_history s = []" by (simp add: s v0_history_def v0_setExclusiveSubrange_def v0_handler_new_def)
  have arr: "v0_arrivals x s = v0_arrivals x ?s0" for x
    by (simp add: v0_arrivals_def v0_outside_def s split: event_case.split)
  have "v0_handle_all es s = v0_handle_all es ?s0"
    unfolding es s_def using assms(4) es by (simp add: v0_set_offset_again)
  moreover have "v0_steps s (concat (map (\<lambda>(fin, e). v0_arrivals e s) es)) (v0_handle_all es s)"
    by (rule v0_handle_all_steps [OF ok]) (use assms es h in \<open>auto simp: s\<close>)
  ultimately obtain s1 where s1: "v0_handle_all es ?s0 = Inr s1" "v0_ok s1"
    "v0_history s1 = concat (map (\<lambda>(fin, e). v0_arrivals e ?s0) es)" "v0_setup s1 = v0_setup s"
    unfolding v0_steps_def h arr by auto
  obtain s' where s': "v0_flushEvents True s1 = Inr s'" "v0_queue s' = []" "v0_history s' = v0_history s1"
    "v0_setup s' = v0_setup s1"
    using v0_flushEvents_ok [OF s1(2), of True] unfolding v0_delivers_def by auto
  have "v0_sidOffset s' = eh_sid (te_header e)" using s'(4) s1(4) s by (simp add: v0_setup_def)
  then show ?thesis using s1 s' es by (simp add: v0_processEvents_def v0_history_def)
qed

text \<open>
  Property C11. A completion sets the latency and the error of the first IO in the queue of its device, address
  and length that still waits, when it was submitted before, and changes no other; when none waits
  it changes no IO.
\<close>

theorem v0_completion_matches_oldest:
  assumes "v0_ok s"
  shows "\<exists>s'. v0_apply_completion hdr cmpl s = Inr s' \<and> v0_ok s' \<and>
    (\<forall>p e. waits_at (key_of_completion cmpl) s p e \<and>
        (\<forall>q x. waits_at (key_of_completion cmpl) s q x \<longrightarrow> p \<le> q) \<and> eh_timestamp hdr \<ge> eh_timestamp (pe_header e) \<longrightarrow>
      v0_queue s' = (v0_queue s)[p - v0_popped s := v0_complete_io hdr cmpl e]) \<and>
    ((\<nexists>p e. waits_at (key_of_completion cmpl) s p e) \<longrightarrow> v0_queue s' = v0_queue s)"
proof -
  let ?k = "key_of_completion cmpl"
  obtain r where r: "map_get_event ?k s = Inr r"
    "case r of None \<Rightarrow> \<nexists>p e. waits_at ?k s p e | Some p \<Rightarrow> (\<exists>e. waits_at ?k s p e) \<and> (\<forall>q e. waits_at ?k s q e \<longrightarrow> p \<le> q)"
    using map_get_event_ok [OF assms] by blast
  obtain s' where s': "v0_apply_completion hdr cmpl s = Inr s'" "v0_ok s'"
    using v0_apply_completion_ok [OF assms, of hdr cmpl] by (auto simp: v0_steps_def)
  show ?thesis
  proof (cases r)
    case None
    then have "v0_queue s' = v0_queue s" using s'(1) r(1) by (auto simp: v0_apply_completion_def Let_def)
    then show ?thesis using s' None r(2) by auto
  next
    case (Some p)
    then obtain e where e: "waits_at ?k s p e" "\<And>q x. waits_at ?k s q x \<Longrightarrow> p \<le> q" using r(2) by auto
    then have at: "v0_event_at p s = Inr e" by (simp add: waits_at_def)
    have "v0_queue s' = (v0_queue s)[p - v0_popped s := v0_complete_io hdr cmpl e]"
      if "eh_timestamp hdr \<ge> eh_timestamp (pe_header e)"
      using s'(1) r(1) Some at that [folded linorder_not_less]
      by (auto simp: v0_apply_completion_def Let_def v0_put_event_def simp del: linorder_not_less)
    moreover have "q = p \<and> x = e" if "waits_at ?k s q x" "\<And>q' x'. waits_at ?k s q' x' \<Longrightarrow> q \<le> q'" for q x
      using that e at by (metis antisym sum.inject(2) waits_at_def)
    ultimately show ?thesis using s' e by blast
  qed
qed

subsection \<open>Witnesses\<close>

definition v0_sample_io :: event_io where
  "v0_sample_io = \<lparr>eio_lba = 8, eio_len = 8, eio_ioClass = 22, eio_deviceId = 1, eio_operation = Io_Write,
     eio_flush = False, eio_fua = False, eio_writeHint = 0, eio_id = 0, eio_metadata = False,
     eio_direct = False, eio_readahead = False\<rparr>"

definition v0_sample_completion :: event_io_completion where
  "v0_sample_completion = \<lparr>cmp_lba = 8, cmp_len = 8, cmp_error = False, cmp_deviceId = 1, cmp_refId = 0\<rparr>"

definition v0_header :: "u64 \<Rightarrow> u64 \<Rightarrow> event_header" where
  "v0_header sid t = \<lparr>eh_sid = sid, eh_timestamp = t\<rparr>"

definition v0_sample :: "(bool \<times> trace_event) list" where
  "v0_sample =
     [(False, \<lparr>te_header = v0_header 4 10, te_event = Io v0_sample_io\<rparr>),
      (False, \<lparr>te_header = v0_header 6 13, te_event = IoCompletion v0_sample_completion\<rparr>)]"

lemma v0_processEvents_delivers_in_order_witness:
  "\<exists>s'. v0_processEvents v0_sample (v0_setExclusiveSubrange 0 0 v0_handler_new) = Inr s' \<and>
     map (\<lambda>e. sid_of e + 4) (v0_handledIOs s') = [4]"
proof -
  have "\<not> v0_outside 8 8 (v0_setExclusiveSubrange 0 0 v0_handler_new)"
    by (simp add: v0_outside_def v0_setExclusiveSubrange_def)
  then have arr: "map fst (concat (map (\<lambda>(fin, e). v0_arrivals e (v0_setExclusiveSubrange 0 0 v0_handler_new)) v0_sample)) = [4]"
    by (simp add: v0_sample_def v0_header_def v0_arrivals_def v0_sample_io_def)
  have "distinct (map (\<lambda>(fin, e). eh_sid (te_header e)) v0_sample)" "\<forall>(fin, e) \<in> set v0_sample. named e"
    "v0_sample \<noteq> []" "eh_timestamp (te_header (snd (hd v0_sample))) \<noteq> 0"
    by (simp_all add: v0_sample_def v0_header_def named_def)
  from v0_processEvents_delivers_in_order [OF this, of 0 0]
  obtain s' where s': "v0_processEvents v0_sample (v0_setExclusiveSubrange 0 0 v0_handler_new) = Inr s'"
    "map (\<lambda>e. (sid_of e + eh_sid (te_header (snd (hd v0_sample))), v0_ident e)) (v0_handledIOs s') =
      concat (map (\<lambda>(fin, e). v0_arrivals e (v0_setExclusiveSubrange 0 0 v0_handler_new)) v0_sample)"
    by blast
  have "map fst (map (\<lambda>e. (sid_of e + eh_sid (te_header (snd (hd v0_sample))), v0_ident e)) (v0_handledIOs s')) = [4]"
    unfolding s'(2) by (rule arr)
  then have "map (\<lambda>e. sid_of e + 4) (v0_handledIOs s') = [4]"
    by (simp add: v0_sample_def v0_header_def comp_def)
  with s'(1) show ?thesis by (intro exI [of _ s'] conjI)
qed

lemma v0_completion_matches_oldest_witness:
  "\<exists>s s'. v0_handle_io (v0_header 4 10) v0_sample_io v0_handler_new = Inr s \<and>
     v0_apply_completion (v0_header 6 13) v0_sample_completion s = Inr s' \<and>
     map (\<lambda>e. pio_latency (the_io e)) (v0_queue s') = [3]"
proof -
  let ?e = "v0_parsed_io (v0_header 4 10) v0_sample_io 1 device_default"
  have new: "v0_setExclusiveSubrange 0 0 v0_handler_new = v0_handler_new"
    by (simp add: v0_setExclusiveSubrange_def v0_handler_new_def)
  obtain s where s: "v0_handle_io (v0_header 4 10) v0_sample_io v0_handler_new = Inr s" "v0_ok s"
    using v0_handle_io_steps [OF v0_new_ok [of 0 0], of "\<lparr>te_header = v0_header 4 10, te_event = Io v0_sample_io\<rparr>" v0_sample_io]
    unfolding new v0_steps_def by (auto simp: v0_history_def v0_handler_new_def)
  have q: "v0_queue s = [?e]" "v0_popped s = 0"
    using s(1) by (auto simp: v0_handle_io_def v0_handler_new_def v0_outside_def Let_def v0_depth_at_def
        v0_device_at_def v0_put_depth_def map_add_event_def map_at_def map_emplace_def v0_sample_io_def)
  have e: "the_io ?e = \<lparr>pio_lba = 8, pio_len = 8, pio_operation = Io_Write, pio_error = False, pio_latency = 0,
      pio_qd = 1, pio_writeHint = 0, pio_flags = class_flags v0_sample_io\<rparr>"
    "eh_timestamp (pe_header ?e) = 10"
    by (simp_all add: v0_parsed_io_def v0_sample_io_def v0_header_def parsed_event_default_def the_io_def)
  have k: "has_key (key_of_completion v0_sample_completion) ?e"
    by (simp add: has_key_def key_of_parsed_def key_of_completion_def v0_sample_completion_def e)
      (simp add: v0_parsed_io_def v0_sample_io_def)
  have w: "waits_at (key_of_completion v0_sample_completion) s 0 ?e"
    using k by (simp add: waits_at_def v0_event_at_def q e)
  obtain s' where s': "v0_apply_completion (v0_header 6 13) v0_sample_completion s = Inr s'"
    "\<And>p e. waits_at (key_of_completion v0_sample_completion) s p e \<and>
        (\<forall>q x. waits_at (key_of_completion v0_sample_completion) s q x \<longrightarrow> p \<le> q) \<and>
        eh_timestamp (v0_header 6 13) \<ge> eh_timestamp (pe_header e) \<Longrightarrow>
      v0_queue s' = (v0_queue s)[p - v0_popped s := v0_complete_io (v0_header 6 13) v0_sample_completion e]"
    using v0_completion_matches_oldest [OF s(2), of "v0_header 6 13" v0_sample_completion] by blast
  have "v0_queue s' = (v0_queue s)[0 - v0_popped s := v0_complete_io (v0_header 6 13) v0_sample_completion ?e]"
    by (rule s'(2)) (use w in \<open>simp add: e(2), simp add: v0_header_def\<close>)
  then have "map (\<lambda>e. pio_latency (the_io e)) (v0_queue s') = [3]"
    by (simp add: q v0_complete_io_def e the_io_def v0_header_def)
      (simp add: v0_parsed_io_def v0_header_def parsed_event_default_def)
  then show ?thesis using s(1) s'(1) by (intro exI [of _ s] exI [of _ s'] conjI)
qed

end
