(* ===== verification/Parsed_Io_V1.thy ===== *)
theory Parsed_Io_V1
  imports Parsed_Io_V0
begin

section \<open>The parser of IO events, version 1\<close>

text \<open>
  \<open>ParsedIoTraceEventHandler\<close> of source/octf/trace/parser/v1/ParsedIoTraceEventHandler.cpp. Events of
  this version have identifiers as in version 2, and the queue, the map of identifiers, the devices
  and the queue depths are kept by the same text; they are the handler of version 2 in \<open>v1_base\<close>,
  whose viewers and extension stay unused. Files are kept in one table as in version 0, filesystem
  data refers to an IO by \<open>refsid\<close>, and the flags of an IO are read off its class.
\<close>

subsection \<open>The state\<close>

record v1_handler =
  v1_base :: parsed_handler
  v1_fileInfo :: file_table

definition v1_handler_new :: v1_handler where
  "v1_handler_new = \<lparr>v1_base = parsed_handler_new [], v1_fileInfo = []\<rparr>"

text \<open>An operation whose text is that of version 2.\<close>

definition v1_lift :: "(parsed_handler \<Rightarrow> parsed_handler res) \<Rightarrow> v1_handler \<Rightarrow> v1_handler res" where
  "v1_lift f s = and_then (f (v1_base s)) (\<lambda>b. Inr (s\<lparr>v1_base := b\<rparr>))"

definition v1_setExclusiveSubrange :: "u64 \<Rightarrow> u64 \<Rightarrow> v1_handler \<Rightarrow> v1_handler" where
  "v1_setExclusiveSubrange start en s = s\<lparr>v1_base := setExclusiveSubrange start en (v1_base s)\<rparr>"

definition v1_addMapping :: "event_case \<Rightarrow> nat \<Rightarrow> v1_handler \<Rightarrow> v1_handler res" where
  "v1_addMapping te p = v1_lift (addMapping te p)"

definition v1_delMapping :: "nat \<Rightarrow> v1_handler \<Rightarrow> v1_handler res" where
  "v1_delMapping p = v1_lift (delMapping p)"

definition v1_getCachedEventById :: "u64 \<Rightarrow> v1_handler \<Rightarrow> nat option" where
  "v1_getCachedEventById i s = getCachedEventById i (v1_base s)"

subsection \<open>Passing events on\<close>

definition v1_getFileSystemViewer :: "u64 \<Rightarrow> v1_handler \<Rightarrow> file_table res" where
  "v1_getFileSystemViewer partId s =
     (if map_find (ph_devices (v1_base s)) partId = None
      then Inl (Octf_Exception ''Requesting FS viewer for non-existing partition ID'')
      else Inr (v1_fileInfo s))"

definition v1_released_event :: "(string \<times> string) list \<Rightarrow> v1_handler \<Rightarrow> parsed_event \<Rightarrow> parsed_event res" where
  "v1_released_event tags s e =
     (let b = v1_base s;
          e1 = set_sid (ph_refSid b + 1) e;
          qd = depth_at (pdev_id (pe_device e)) b;
          e2 = (case pe_io e1 of
                  None \<Rightarrow> e1
                | Some io \<Rightarrow> e1\<lparr>pe_io := Some (io\<lparr>pio_qd := pio_qd io - qd_Adjustment qd\<rparr>)\<rparr>);
          t = eh_timestamp (pe_header e2);
          e3 = e2\<lparr>pe_header := (pe_header e2)\<lparr>eh_timestamp :=
                 (if t > ph_timestampOffset b then t - ph_timestampOffset b else 0)\<rparr>\<rparr>
      in and_then
           (case pe_file e3 of
              None \<Rightarrow> Inr e3
            | Some f \<Rightarrow>
                and_then (v1_getFileSystemViewer (pdev_partition (pe_device e)) s) (\<lambda>table.
                case table_getFilePath (file_id_of_parsed e3) table of
                  None \<Rightarrow> Inl No_Return
                | Some path \<Rightarrow> Inr (e3\<lparr>pe_file := Some (f\<lparr>pfile_path := path\<rparr>)\<rparr>)))
           (\<lambda>e4. Inr (if tags \<noteq> [] then e4\<lparr>pe_tags := tags\<rparr> else e4)))"

definition v1_pushOutEvent :: "(string \<times> string) list \<Rightarrow> v1_handler \<Rightarrow> v1_handler res" where
  "v1_pushOutEvent tags s =
     (if ph_queue (v1_base s) = [] then Inl (Undefined_Behaviour ''front of an empty queue'')
      else
        and_then (v1_delMapping (ph_popped (v1_base s)) s) (\<lambda>s.
        and_then (v1_released_event tags s (hd (ph_queue (v1_base s)))) (\<lambda>e.
        let b = v1_base s;
            devId = pdev_id (pe_device e);
            qd = depth_at devId b;
            qd' = (if pe_io e \<noteq> None \<and> pio_latency (the_io e) = 0
                   then qd\<lparr>qd_Adjustment := qd_Adjustment qd + 1\<rparr> else qd)
        in Inr (s\<lparr>v1_base := put_depth devId qd'
             (b\<lparr>ph_queue := tl (ph_queue b), ph_popped := Suc (ph_popped b),
                ph_refSid := ph_refSid b + 1, ph_handledIOs := ph_handledIOs b @ [e]\<rparr>)\<rparr>))))"

text \<open>The loops of \<open>flushEvents\<close>: as many rounds as there are events are enough.\<close>

fun v1_flush_complete :: "nat \<Rightarrow> (string \<times> string) list \<Rightarrow> v1_handler \<Rightarrow> v1_handler res" where
  "v1_flush_complete 0 tags s = Inr s"
| "v1_flush_complete (Suc n) tags s =
     (if ph_queue (v1_base s) \<noteq> [] \<and> pio_latency (the_io (hd (ph_queue (v1_base s)))) \<noteq> 0
      then and_then (v1_pushOutEvent tags s) (v1_flush_complete n tags)
      else Inr s)"

fun v1_flush_excess :: "nat \<Rightarrow> bool \<Rightarrow> (string \<times> string) list \<Rightarrow> v1_handler \<Rightarrow> v1_handler res" where
  "v1_flush_excess 0 finished tags s = Inr s"
| "v1_flush_excess (Suc n) finished tags s =
     (if ph_queue (v1_base s) \<noteq> []
      then and_then (v1_pushOutEvent tags s) (\<lambda>s.
           if \<not> finished \<and> length (ph_queue (v1_base s)) < unat (ph_limit (v1_base s)) then Inr s
           else v1_flush_excess n finished tags s)
      else Inr s)"

definition v1_flushEvents :: "bool \<Rightarrow> (string \<times> string) list \<Rightarrow> v1_handler \<Rightarrow> v1_handler res" where
  "v1_flushEvents finished tags s =
     and_then (v1_flush_complete (length (ph_queue (v1_base s))) tags s) (\<lambda>s.
     if length (ph_queue (v1_base s)) < unat (ph_limit (v1_base s)) \<and> \<not> finished then Inr s
     else v1_flush_excess (length (ph_queue (v1_base s))) finished tags s)"

subsection \<open>Handling events\<close>

definition v1_handle_device :: "device_description \<Rightarrow> v1_handler \<Rightarrow> v1_handler" where
  "v1_handle_device d s = s\<lparr>v1_base := handle_device d (v1_base s)\<rparr>"

definition v1_parsed_io :: "event_header \<Rightarrow> event_io \<Rightarrow> u64 \<Rightarrow> device_description \<Rightarrow> parsed_event" where
  "v1_parsed_io hdr io qd dev = parsed_event_default
     \<lparr>pe_header := hdr,
      pe_io := Some \<lparr>pio_lba = eio_lba io, pio_len = eio_len io,
        pio_operation = eio_operation io, pio_error = False, pio_latency = 0, pio_qd = qd,
        pio_writeHint = eio_writeHint io, pio_flags = class_flags io\<rparr>,
      pe_device := \<lparr>pdev_id = eio_deviceId io, pdev_name = dd_name dev,
        pdev_partition = eio_deviceId io, pdev_model = dd_model dev\<rparr>\<rparr>"

definition v1_handle_io :: "event_header \<Rightarrow> event_io \<Rightarrow> v1_handler \<Rightarrow> v1_handler res" where
  "v1_handle_io hdr io s =
     (let b = v1_base s
      in if outside_subrange (eio_lba io) (eio_len io) b then Inr s
      else
        let deviceId = eio_deviceId io;
            qd = depth_at deviceId b;
            qd = qd\<lparr>qd_Value := qd_Value qd + 1\<rparr>;
            (b, dev) = device_at deviceId (put_depth deviceId qd b);
            p = ph_popped b + length (ph_queue b);
            b = b\<lparr>ph_queue := ph_queue b @ [v1_parsed_io hdr io (qd_Value qd) dev]\<rparr>
        in v1_addMapping (Io io) p (s\<lparr>v1_base := b\<rparr>))"

definition v1_apply_completion :: "event_header \<Rightarrow> event_io_completion \<Rightarrow> v1_handler \<Rightarrow> v1_handler res" where
  "v1_apply_completion hdr cmpl = v1_lift (apply_completion hdr cmpl)"

definition v1_handle_completion ::
    "bool \<Rightarrow> (string \<times> string) list \<Rightarrow> event_header \<Rightarrow> event_io_completion \<Rightarrow> v1_handler \<Rightarrow> v1_handler res" where
  "v1_handle_completion finished tags hdr cmpl s =
     (if outside_subrange (cmp_lba cmpl) (cmp_len cmpl) (v1_base s) then Inr s
      else and_then (v1_apply_completion hdr cmpl s) (v1_flushEvents finished tags))"

definition v1_handle_fs_meta :: "event_filesystem_meta \<Rightarrow> v1_handler \<Rightarrow> v1_handler res" where
  "v1_handle_fs_meta src s =
     (case v1_getCachedEventById (fsm_refSid src) s of
        None \<Rightarrow> Inr s
      | Some p \<Rightarrow>
          and_then (event_at p (v1_base s)) (\<lambda>e.
          let partId = pfi_partitionId (fsm_fileId src);
              e' = e\<lparr>pe_file := Some ((the_file e)
                       \<lparr>pfile_id := pfi_id (fsm_fileId src), pfile_offset := fsm_fileOffset src,
                        pfile_size := fsm_fileSize src, pfile_eventType := Fs_Access,
                        pfile_creationDate := pfi_creationDate (fsm_fileId src)\<rparr>),
                     pe_device := (pe_device e)\<lparr>pdev_partition := partId\<rparr>\<rparr>;
              b = put_event p e' (v1_base s);
              b = (case map_find (ph_devices b) partId of
                     Some _ \<Rightarrow> b
                   | None \<Rightarrow>
                       let (b, _) = device_at partId b;
                           (b, dev) = device_at (pdev_id (pe_device e')) b
                       in b\<lparr>ph_devices := map_put partId dev (ph_devices b)\<rparr>)
          in Inr (s\<lparr>v1_base := b,
                    v1_fileInfo := table_set_size (file_id_of_proto (fsm_fileId src)) (fsm_fileSize src)
                                     (v1_fileInfo s)\<rparr>)))"

definition v1_handle_file_event ::
    "event_header \<Rightarrow> event_filesystem_file_event \<Rightarrow> v1_handler \<Rightarrow> v1_handler" where
  "v1_handle_file_event hdr ev s =
     (let partId = pfi_partitionId (fse_fileId ev);
          (b, dev) = device_at partId (v1_base s);
          (t, size) = table_event_size (file_id_of_proto (fse_fileId ev)) (fse_fsEventType ev) (v1_fileInfo s);
          parsed = parsed_event_default
            \<lparr>pe_header := hdr,
             pe_file := Some (parsed_file_default
               \<lparr>pfile_eventType := fse_fsEventType ev, pfile_id := pfi_id (fse_fileId ev),
                pfile_creationDate := pfi_creationDate (fse_fileId ev), pfile_size := size\<rparr>),
             pe_device := \<lparr>pdev_id = dd_id dev, pdev_name = dd_name dev,
               pdev_partition = partId, pdev_model = dd_model dev\<rparr>\<rparr>
      in s\<lparr>v1_base := b\<lparr>ph_queue := ph_queue b @ [parsed]\<rparr>, v1_fileInfo := t\<rparr>)"

definition v1_handle_file_name :: "event_filesystem_file_name \<Rightarrow> v1_handler \<Rightarrow> v1_handler" where
  "v1_handle_file_name ev s =
     s\<lparr>v1_fileInfo := table_set_name (file_id_of_proto (fsn_fileId ev)) (fsn_fileName ev)
                        (file_id_of_proto (fsn_fileParentId ev)) (v1_fileInfo s)\<rparr>"

definition v1_set_offset :: "trace_event \<Rightarrow> v1_handler \<Rightarrow> v1_handler" where
  "v1_set_offset e s = s\<lparr>v1_base := set_offset e (v1_base s)\<rparr>"

definition v1_handleEvent ::
    "bool \<Rightarrow> (string \<times> string) list \<Rightarrow> trace_event \<Rightarrow> v1_handler \<Rightarrow> v1_handler res" where
  "v1_handleEvent finished tags e s =
     (let s = v1_set_offset e s; hdr = te_header e
      in case te_event e of
           DeviceDescription d \<Rightarrow> Inr (v1_handle_device d s)
         | Io io \<Rightarrow> v1_handle_io hdr io s
         | IoCompletion cmpl \<Rightarrow> v1_handle_completion finished tags hdr cmpl s
         | FilesystemMeta m \<Rightarrow> v1_handle_fs_meta m s
         | FilesystemFileEvent ev \<Rightarrow> Inr (v1_handle_file_event hdr ev s)
         | FilesystemFileName ev \<Rightarrow> Inr (v1_handle_file_name ev s)
         | EventType_Not_Set \<Rightarrow> Inr s)"

fun v1_handle_all ::
    "(string \<times> string) list \<Rightarrow> (bool \<times> trace_event) list \<Rightarrow> v1_handler \<Rightarrow> v1_handler res" where
  "v1_handle_all tags [] s = Inr s"
| "v1_handle_all tags ((finished, e) # es) s =
     and_then (v1_handleEvent finished tags e s) (v1_handle_all tags es)"

definition v1_processEvents ::
    "(string \<times> string) list \<Rightarrow> (bool \<times> trace_event) list \<Rightarrow> v1_handler \<Rightarrow> v1_handler res" where
  "v1_processEvents tags es s = and_then (v1_handle_all tags es s) (v1_flushEvents True tags)"

definition v1_getDevicesSize :: "v1_handler \<Rightarrow> u64" where
  "v1_getDevicesSize s =
     sum_list (map (\<lambda>(k, d). if k = dd_id d then dd_size d else 0) (ph_devices (v1_base s)))"

subsection \<open>The invariant\<close>

text \<open>Every queued event of a file has the device of its partition, so that the viewer is there when it leaves.\<close>

definition files_have_devices :: "parsed_handler \<Rightarrow> bool" where
  "files_have_devices b \<longleftrightarrow> map_ok (ph_devices b) \<and>
     (\<forall>e \<in> set (ph_queue b). pe_file e \<noteq> None \<longrightarrow>
        map_find (ph_devices b) (pdev_partition (pe_device e)) \<noteq> None)"

definition v1_ok :: "v1_handler \<Rightarrow> bool" where
  "v1_ok s \<longleftrightarrow> handler_ok (v1_base s) \<and> files_have_devices (v1_base s) \<and> table_ok (v1_fileInfo s)"

abbreviation v1_idents :: "v1_handler \<Rightarrow> ((u64 \<times> int \<times> parsed_flags \<times> u32) + (u64 \<times> fs_event_type \<times> u64)) list" where
  "v1_idents s \<equiv> map ident (all_events (v1_base s))"

text \<open>The step relation: no fault, the invariant, and the identities grow by \<open>xs\<close> at the end.\<close>

definition v1_steps :: "v1_handler \<Rightarrow> _ list \<Rightarrow> v1_handler res \<Rightarrow> bool" where
  "v1_steps s xs r \<longleftrightarrow> (\<exists>s'. r = Inr s' \<and> v1_ok s' \<and> v1_idents s' = v1_idents s @ xs \<and>
     subrange (v1_base s') = subrange (v1_base s))"

lemma v1_stepsI:
  "r = Inr s' \<Longrightarrow> v1_ok s' \<Longrightarrow> v1_idents s' = v1_idents s @ xs \<Longrightarrow>
     subrange (v1_base s') = subrange (v1_base s) \<Longrightarrow> v1_steps s xs r"
  by (simp add: v1_steps_def)

lemma v1_steps_then:
  assumes "v1_steps s xs r"
    and "\<And>s'. v1_ok s' \<Longrightarrow> v1_idents s' = v1_idents s @ xs \<Longrightarrow>
      subrange (v1_base s') = subrange (v1_base s) \<Longrightarrow> v1_steps s' ys (f s')"
  shows "v1_steps s (xs @ ys) (and_then r f)"
proof -
  obtain s' where s': "r = Inr s'" "v1_ok s'" "v1_idents s' = v1_idents s @ xs"
    "subrange (v1_base s') = subrange (v1_base s)"
    using assms(1) by (auto simp: v1_steps_def)
  then show ?thesis using assms(2) [OF s'(2-4)] by (auto simp: v1_steps_def)
qed

text \<open>Operations of the handler of version 2 that keep \<open>files_have_devices\<close>.\<close>

lemma files_have_devices_cong:
  "ph_queue b' = ph_queue b \<Longrightarrow> ph_devices b' = ph_devices b \<Longrightarrow> files_have_devices b' = files_have_devices b"
  by (simp add: files_have_devices_def)

lemma files_frame [simp]:
  "files_have_devices (put_depth d q b) = files_have_devices b"
  "files_have_devices (b\<lparr>ph_idMapping := m\<rparr>) = files_have_devices b"
  by (simp_all add: files_have_devices_def put_depth_def)

lemma files_put_event:
  assumes "files_have_devices b" "event_at p b = Inr e" "pe_file e' = pe_file e" "pe_device e' = pe_device e"
  shows "files_have_devices (put_event p e' b)"
proof -
  have "e \<in> set (ph_queue b)" using assms(2) by (auto simp: event_at_Inr)
  then have "pe_file e' \<noteq> None \<Longrightarrow> map_find (ph_devices b) (pdev_partition (pe_device e')) \<noteq> None"
    using assms by (simp add: files_have_devices_def)
  then show ?thesis
    using assms(1) set_update_subset_insert [of "ph_queue b" "p - ph_popped b" e']
    unfolding files_have_devices_def put_event_def by fastforce
qed

lemma devices_device_at:
  assumes "map_ok (ph_devices b)"
  shows "map_ok (ph_devices (fst (device_at d b)))"
    "map_find (ph_devices (fst (device_at d b))) k =
       (if k = d then Some (snd (device_at d b)) else map_find (ph_devices b) k)"
  using map_find_at [OF assms, of device_default d k] map_at_ok [OF assms, of device_default d]
  by (auto simp: device_at_def split: prod.splits)

lemma files_device_at [simp]:
  "files_have_devices b \<Longrightarrow> files_have_devices (fst (device_at d b))"
  by (simp add: files_have_devices_def devices_device_at)

lemma files_enqueue:
  "files_have_devices b \<Longrightarrow> (pe_file e \<noteq> None \<Longrightarrow> map_find (ph_devices b) (pdev_partition (pe_device e)) \<noteq> None) \<Longrightarrow>
     files_have_devices (b\<lparr>ph_queue := ph_queue b @ [e]\<rparr>)"
  by (auto simp: files_have_devices_def)

lemma files_addMapping:
  "addMapping te p b = Inr b' \<Longrightarrow> files_have_devices b \<Longrightarrow> files_have_devices b'"
proof -
  have at: "event_at p (b\<lparr>ph_idMapping := m\<rparr>) = event_at p b" for m by (simp add: event_at_def)
  assume "addMapping te p b = Inr b'" "files_have_devices b"
  then show ?thesis
    by (auto simp: addMapping_def and_then_Inr_iff Let_def set_sid_def at case_prod_beta
        split: event_case.splits if_splits intro!: files_put_event)
qed

lemma files_handle_io:
  assumes "handle_io hdr io b = Inr b'" "files_have_devices b"
  shows "files_have_devices b'"
proof (cases "outside_subrange (eio_lba io) (eio_len io) b")
  case False
  define d where "d = put_depth (eio_deviceId io) ((depth_at (eio_deviceId io) b)
      \<lparr>qd_Value := qd_Value (depth_at (eio_deviceId io) b) + 1\<rparr>) b"
  define c where "c = fst (device_at (eio_deviceId io) d)"
  have "\<exists>p x. addMapping (Io io) p (c\<lparr>ph_queue := ph_queue c @ [x]\<rparr>) = Inr b' \<and> pe_file x = None"
    using assms(1) unfolding handle_io_def Let_def case_prod_beta d_def [symmetric] c_def [symmetric] if_not_P [OF False]
    by (intro exI conjI) (assumption, simp add: parsed_event_default_def)
  then obtain p x where x: "addMapping (Io io) p (c\<lparr>ph_queue := ph_queue c @ [x]\<rparr>) = Inr b'" "pe_file x = None"
    by blast
  have "files_have_devices c" using assms(2) by (simp add: c_def d_def)
  then have "files_have_devices (c\<lparr>ph_queue := ph_queue c @ [x]\<rparr>)" by (rule files_enqueue) (simp add: x(2))
  with x(1) show ?thesis by (rule files_addMapping)
qed (use assms in \<open>simp add: handle_io_def\<close>)

lemma files_delMapping:
  "delMapping p b = Inr b' \<Longrightarrow> files_have_devices b \<Longrightarrow> files_have_devices b'"
proof -
  have at: "event_at p (b\<lparr>ph_idMapping := m\<rparr>) = event_at p b" for m by (simp add: event_at_def)
  assume "delMapping p b = Inr b'" "files_have_devices b"
  then show ?thesis
    by (auto simp: delMapping_def and_then_Inr_iff set_sid_def at split: if_splits intro!: files_put_event)
qed

lemma files_apply_completion:
  assumes "apply_completion hdr cmpl b = Inr b'" "files_have_devices b"
  shows "files_have_devices b'"
proof (cases "getCachedEventById (cmp_refId cmpl) b")
  case None
  then show ?thesis using assms by (auto simp: apply_completion_def Let_def getCachedEventById_def)
next
  case (Some p)
  define b0 where "b0 = put_depth (cmp_deviceId cmpl) (depth_at (cmp_deviceId cmpl) b) b"
  have get: "getCachedEventById (cmp_refId cmpl) b0 = Some p" using Some by (simp add: b0_def getCachedEventById_def)
  obtain b1 where b1: "delMapping p b0 = Inr b1"
    using assms(1) get by (auto simp: apply_completion_def Let_def b0_def [symmetric] and_then_Inr_iff)
  then have f1: "files_have_devices b1" using files_delMapping [OF b1] assms(2) by (simp add: b0_def)
  obtain e where e: "event_at p b1 = Inr e"
    using assms(1) get b1 by (auto simp: apply_completion_def Let_def b0_def [symmetric] and_then_Inr_iff)
  define b2 where "b2 = put_event p (e\<lparr>pe_io := Some (the_io e)\<rparr>) b1"
  have f2: "files_have_devices b2" unfolding b2_def by (rule files_put_event [OF f1 e]) simp_all
  have e2: "event_at p b2 = Inr (e\<lparr>pe_io := Some (the_io e)\<rparr>)" unfolding b2_def by (simp add: event_at_put [OF e])
  have f3: "files_have_devices (put_event p (complete_io hdr cmpl e) b2)"
    by (rule files_put_event [OF f2 e2]) (simp_all add: complete_io_def Let_def)
  show ?thesis
    using assms(1) get b1 e f2 f3
    by (auto simp: apply_completion_def Let_def b0_def [symmetric] b2_def [symmetric] split: if_splits)
qed

lemma files_handle_fs_meta:
  assumes "handle_fs_meta m b = Inr b'" "files_have_devices b"
  shows "files_have_devices b'"
proof (cases "getCachedEventById (fsm_refId m) b")
  case (Some p)
  let ?part = "pfi_partitionId (fsm_fileId m)"
  obtain e where e: "event_at p b = Inr e" using assms(1) Some by (auto simp: handle_fs_meta_def and_then_Inr_iff)
  define e' where "e' = e\<lparr>pe_file := Some ((the_file e)
       \<lparr>pfile_id := pfi_id (fsm_fileId m), pfile_offset := fsm_fileOffset m,
        pfile_size := fsm_fileSize m, pfile_eventType := Fs_Access,
        pfile_creationDate := pfi_creationDate (fsm_fileId m)\<rparr>),
     pe_device := (pe_device e)\<lparr>pdev_partition := ?part\<rparr>\<rparr>"
  have part: "pdev_partition (pe_device e') = ?part" by (simp add: e'_def)
  have b': "b' = (case map_find (ph_devices b) ?part of
       Some _ \<Rightarrow> put_event p e' b
     | None \<Rightarrow>
         let (c, _) = device_at ?part (put_event p e' b);
             (c, dev) = device_at (pdev_id (pe_device e')) c
         in c\<lparr>ph_devices := map_put ?part dev (ph_devices c)\<rparr>)"
    using assms(1) Some e unfolding e'_def
    by (auto simp: handle_fs_meta_def Let_def case_prod_beta split: option.splits)
  have dev: "map_ok (ph_devices b') \<and> map_find (ph_devices b') ?part \<noteq> None \<and>
      (\<forall>k. map_find (ph_devices b) k \<noteq> None \<longrightarrow> map_find (ph_devices b') k \<noteq> None)"
  proof (cases "map_find (ph_devices b) ?part")
    case None
    define c where "c = fst (device_at ?part (put_event p e' b))"
    define c2 where "c2 = fst (device_at (pdev_id (pe_device e')) c)"
    have c: "map_ok (ph_devices c)" "\<And>k. map_find (ph_devices b) k \<noteq> None \<Longrightarrow> map_find (ph_devices c) k \<noteq> None"
      using assms(2) devices_device_at [of "put_event p e' b" ?part] by (simp_all add: files_have_devices_def c_def)
    have c2: "map_ok (ph_devices c2)" "\<And>k. map_find (ph_devices b) k \<noteq> None \<Longrightarrow> map_find (ph_devices c2) k \<noteq> None"
      using c devices_device_at [OF c(1), of "pdev_id (pe_device e')"] by (simp_all add: c2_def)
    obtain dev where "ph_devices b' = map_put ?part dev (ph_devices c2)"
      using b' None by (simp add: Let_def case_prod_beta c_def c2_def)
    then show ?thesis using c2 by (simp add: sm.ok_put sm.find_put)
  qed (use assms(2) b' in \<open>simp add: files_have_devices_def\<close>)
  have q: "ph_queue b' = (ph_queue b)[p - ph_popped b := e']"
    using b' by (simp add: put_event_def case_prod_beta Let_def split: option.splits)
  have "map_find (ph_devices b') (pdev_partition (pe_device x)) \<noteq> None"
    if "x \<in> set (ph_queue b')" "pe_file x \<noteq> None" for x
  proof (cases "x = e'")
    case False
    then have "x \<in> set (ph_queue b)" using that(1) q set_update_subset_insert by fastforce
    then show ?thesis using that(2) assms(2) dev unfolding files_have_devices_def by blast
  qed (use part dev in simp)
  then show ?thesis using dev unfolding files_have_devices_def by blast
qed (use assms in \<open>simp add: handle_fs_meta_def\<close>)

lemma subrange_apply_completion:
  assumes "apply_completion hdr cmpl b = Inr b'"
  shows "subrange b' = subrange b"
proof (cases "getCachedEventById (cmp_refId cmpl) b")
  case None
  then show ?thesis using assms by (auto simp: apply_completion_def Let_def getCachedEventById_def)
next
  case (Some p)
  then obtain b2 where "delMapping p (put_depth (cmp_deviceId cmpl) (depth_at (cmp_deviceId cmpl) b) b) = Inr b2"
    "subrange b' = subrange b2"
    using assms by (auto simp: apply_completion_def Let_def getCachedEventById_def and_then_Inr_iff split: if_splits)
  then show ?thesis using subrange_delMapping by fastforce
qed
subsection \<open>Passing one event on\<close>

definition strip_path :: "parsed_event \<Rightarrow> parsed_event" where
  "strip_path e = e\<lparr>pe_file := map_option (\<lambda>f. f\<lparr>pfile_path := ''''\<rparr>) (pe_file e)\<rparr>"

lemma strip_path_eqD:
  assumes "strip_path x = strip_path y"
  shows "pe_header x = pe_header y" "pe_io x = pe_io y" "pe_device x = pe_device y" "ident x = ident y"
proof -
  have "\<And>a. pe_header (strip_path a) = pe_header a \<and> pe_io (strip_path a) = pe_io a \<and> pe_device (strip_path a) = pe_device a"
    by (simp add: strip_path_def)
  then show h: "pe_header x = pe_header y" "pe_io x = pe_io y" "pe_device x = pe_device y"
    using assms by metis+
  have "map_option (\<lambda>f. f\<lparr>pfile_path := ''''\<rparr>) (pe_file x) = map_option (\<lambda>f. f\<lparr>pfile_path := ''''\<rparr>) (pe_file y)"
    using arg_cong [OF assms, of pe_file] by (simp add: strip_path_def)
  then show "ident x = ident y" using h
    by (cases "pe_file x"; cases "pe_file y") (auto simp: ident_def the_file_def dest!: same_but_path split: option.splits)
qed

text \<open>What leaves differs from what version 2 would pass on in nothing but the path.\<close>

lemma v1_released_event_alike:
  assumes "pe_file e \<noteq> None \<Longrightarrow> map_find (ph_devices (v1_base s)) (pdev_partition (pe_device e)) \<noteq> None"
    "table_ok (v1_fileInfo s)" "viewers_ok (ph_viewers (v1_base s))"
  obtains vs x y where "released_event tags (v1_base s) e = Inr (vs, x)" "v1_released_event tags s e = Inr y"
    "strip_path y = strip_path x"
proof -
  obtain vs v where v: "getFileSystemViewer (pdev_partition (pe_device e)) (ph_viewers (v1_base s)) = Inr (vs, v)"
    "\<And>i. \<exists>path. getFilePath i v = Some path"
    using viewer_path [OF assms(3)] by (metis Pair_inject sum.inject(2))
  have view: "pe_file e \<noteq> None \<Longrightarrow> v1_getFileSystemViewer (pdev_partition (pe_device e)) s = Inr (v1_fileInfo s)"
    using assms(1) by (simp add: v1_getFileSystemViewer_def)
  have "\<exists>vs x y. released_event tags (v1_base s) e = Inr (vs, x) \<and> v1_released_event tags s e = Inr y \<and>
      strip_path y = strip_path x"
  proof -
    define e1 where "e1 = set_sid (ph_refSid (v1_base s) + 1) e"
    define e2 where "e2 = (case pe_io e1 of None \<Rightarrow> e1
      | Some io \<Rightarrow> e1\<lparr>pe_io := Some (io\<lparr>pio_qd :=
          pio_qd io - qd_Adjustment (depth_at (pdev_id (pe_device e)) (v1_base s))\<rparr>)\<rparr>)"
    define e3 where "e3 = e2\<lparr>pe_header := (pe_header e2)\<lparr>eh_timestamp :=
      (if eh_timestamp (pe_header e2) > ph_timestampOffset (v1_base s)
       then eh_timestamp (pe_header e2) - ph_timestampOffset (v1_base s) else 0)\<rparr>\<rparr>"
    have f: "pe_file e3 = pe_file e" by (simp add: e3_def e2_def e1_def set_sid_def split: option.split)
    obtain path where path: "getFilePath (file_id_of_parsed e3) v = Some path" using v(2) by blast
    obtain path' where path': "table_getFilePath (file_id_of_parsed e3) (v1_fileInfo s) = Some path'"
      using table_getFilePath_total [OF assms(2)] by blast
    show ?thesis
      unfolding released_event_def v1_released_event_def Let_def e1_def [symmetric] e2_def [symmetric]
        e3_def [symmetric] f
      using v(1) view path path' f by (cases "pe_file e") (auto simp: strip_path_def)
  qed
  then show thesis using that by blast
qed

lemma v1_delMapping_Inr: "delMapping p (v1_base s) = Inr b \<Longrightarrow> v1_delMapping p s = Inr (s\<lparr>v1_base := b\<rparr>)"
  by (simp add: v1_delMapping_def v1_lift_def)

lemma handler_ok_swap_last:
  assumes "handler_ok b" "ph_handledIOs b = es @ [x]" "eh_sid (pe_header y) = eh_sid (pe_header x)" "viewers_ok vs"
  shows "handler_ok (b\<lparr>ph_handledIOs := es @ [y], ph_viewers := vs, ph_extension := xs\<rparr>)"
proof -
  let ?b = "b\<lparr>ph_handledIOs := es @ [y], ph_viewers := vs, ph_extension := xs\<rparr>"
  have "pointers_ok ?b = pointers_ok b" unfolding pointers_ok_def event_at_def by simp
  then show ?thesis using assms by (simp add: handler_ok_def numbered_def)
qed

lemma v1_pushOut_ok:
  assumes ok: "v1_ok s" and q: "ph_queue (v1_base s) = e # rest"
  shows "\<exists>s'. v1_pushOutEvent tags s = Inr s' \<and> v1_ok s' \<and> ph_queue (v1_base s') = rest \<and>
     v1_idents s' = v1_idents s \<and> ph_limit (v1_base s') = ph_limit (v1_base s) \<and>
     subrange (v1_base s') = subrange (v1_base s)"
proof -
  let ?b = "v1_base s"
  have hok: "handler_ok ?b" and fok: "files_have_devices ?b" and tok: "table_ok (v1_fileInfo s)"
    using ok by (simp_all add: v1_ok_def)
  have at: "event_at (ph_popped ?b) ?b = Inr e" by (simp add: event_at_def q)
  obtain b1 e1 where b1: "delMapping (ph_popped ?b) ?b = Inr b1" "handler_ok b1"
    "e1 = (if pe_io e = None then e else set_sid 0 e)"
    "b1 = (if pe_io e = None then ?b else put_event (ph_popped ?b) (set_sid 0 e)
       (?b\<lparr>ph_idMapping := map_erase (eh_sid (pe_header e)) (ph_idMapping ?b)\<rparr>))"
    using delMapping_ok [OF hok at] by blast
  have q1: "ph_queue b1 = e1 # rest" using b1(3,4) q by (simp add: put_event_def)
  have f1: "files_have_devices b1" using files_delMapping [OF b1(1) fok] .
  obtain vs x y where xy: "released_event tags b1 e1 = Inr (vs, x)"
    "v1_released_event tags (s\<lparr>v1_base := b1\<rparr>) e1 = Inr y" "strip_path y = strip_path x"
    using v1_released_event_alike [of e1 "s\<lparr>v1_base := b1\<rparr>" tags] f1 q1 tok b1(2)
    by (auto simp: files_have_devices_def handler_ok_def)
  note yx = strip_path_eqD [OF xy(3)]
  obtain b' e' where b': "pushOutEvent tags False ?b = Inr b'" "handler_ok b'" "ph_queue b' = rest"
    "ph_handledIOs b' = ph_handledIOs ?b @ [e']" "ident e' = ident e" "ph_limit b' = ph_limit ?b"
    using pushOut_ok [OF hok q, of tags False] by blast
  have run2: "b' = put_depth (pdev_id (pe_device x))
      (if pe_io x \<noteq> None \<and> pio_latency (the_io x) = 0
       then (depth_at (pdev_id (pe_device x)) b1)
         \<lparr>qd_Adjustment := qd_Adjustment (depth_at (pdev_id (pe_device x)) b1) + 1\<rparr>
       else depth_at (pdev_id (pe_device x)) b1)
      (b1\<lparr>ph_queue := rest, ph_popped := Suc (ph_popped b1), ph_refSid := ph_refSid b1 + 1,
        ph_viewers := vs, ph_handledIOs := ph_handledIOs b1 @ [x]\<rparr>)"
    using b'(1) b1(1) q q1 xy(1) by (simp add: pushOutEvent_def Let_def split del: if_split)
  define s' where "s' = s\<lparr>v1_base := b'\<lparr>ph_handledIOs := ph_handledIOs ?b @ [y], ph_viewers := ph_viewers b1\<rparr>\<rparr>"
  have hb1: "ph_handledIOs b1 = ph_handledIOs ?b" using b1(4) by simp
  have "e' = x" using b'(4) run2 hb1 by simp
  have io: "the_io y = the_io x" using yx(2) by (simp add: the_io_def)
  have run: "v1_pushOutEvent tags s = Inr s'"
    using q q1 xy(2) hb1
    by (simp add: v1_pushOutEvent_def v1_delMapping_Inr [OF b1(1)] Let_def yx io s'_def run2 put_depth_def depth_at_def)
  have "handler_ok (v1_base s')"
  proof -
    have "eh_sid (pe_header y) = eh_sid (pe_header x)" using yx(1) by simp
    moreover have "viewers_ok (ph_viewers b1)" using b1(2) by (simp add: handler_ok_def)
    ultimately show ?thesis
      using handler_ok_swap_last [OF b'(2,4), of y "ph_viewers b1" "ph_extension b'"] \<open>e' = x\<close>
      by (simp add: s'_def)
  qed
  moreover have "ph_devices b' = ph_devices b1" using run2 by simp
  then have "files_have_devices (v1_base s')"
    using f1 q1 b'(3) by (auto simp: files_have_devices_def s'_def)
  moreover have "v1_idents s' = v1_idents s"
    using b'(3,5) q yx(4) \<open>e' = x\<close> by (simp add: all_events_def s'_def)
  moreover have "subrange (v1_base s') = subrange ?b"
    using subrange_pushOut [OF b'(1)] by (simp add: s'_def subrange_def)
  ultimately show ?thesis using run tok b'(3,6) by (auto simp: v1_ok_def s'_def)
qed
subsection \<open>Flushing\<close>

lemma v1_flush_complete_ok:
  "v1_ok s \<Longrightarrow> v1_steps s [] (v1_flush_complete n tags s)"
proof (induction n arbitrary: s)
  case 0
  then show ?case by (simp add: v1_steps_def)
next
  case (Suc n)
  show ?case
  proof (cases "ph_queue (v1_base s) \<noteq> [] \<and> pio_latency (the_io (hd (ph_queue (v1_base s)))) \<noteq> 0")
    case True
    then obtain e rest where "ph_queue (v1_base s) = e # rest" by (cases "ph_queue (v1_base s)") auto
    from v1_pushOut_ok [OF Suc.prems this, of tags]
    have "v1_steps s [] (v1_pushOutEvent tags s)" by (auto simp: v1_steps_def)
    from v1_steps_then [OF this Suc.IH] show ?thesis using True by simp
  next
    case False
    then show ?thesis using Suc.prems by (auto simp: v1_steps_def)
  qed
qed

lemma v1_flush_excess_ok:
  assumes "v1_ok s"
  shows "\<exists>s'. v1_flush_excess n fin tags s = Inr s' \<and> v1_ok s' \<and> v1_idents s' = v1_idents s \<and>
     subrange (v1_base s') = subrange (v1_base s) \<and>
     (length (ph_queue (v1_base s)) \<le> n \<longrightarrow>
        ph_queue (v1_base s') = [] \<or> (\<not> fin \<and> length (ph_queue (v1_base s')) < unat (ph_limit (v1_base s'))))"
  using assms
proof (induction n arbitrary: s)
  case (Suc n)
  show ?case
  proof (cases "ph_queue (v1_base s)")
    case (Cons e rest)
    from v1_pushOut_ok [OF Suc.prems this, of tags] obtain s1 where s1: "v1_pushOutEvent tags s = Inr s1" "v1_ok s1"
      "ph_queue (v1_base s1) = rest" "v1_idents s1 = v1_idents s" "subrange (v1_base s1) = subrange (v1_base s)"
      by blast
    from Suc.IH [OF s1(2)] obtain s' where s': "v1_flush_excess n fin tags s1 = Inr s'" "v1_ok s'"
      "v1_idents s' = v1_idents s1" "subrange (v1_base s') = subrange (v1_base s1)"
      "length (ph_queue (v1_base s1)) \<le> n \<longrightarrow>
        ph_queue (v1_base s') = [] \<or> (\<not> fin \<and> length (ph_queue (v1_base s')) < unat (ph_limit (v1_base s')))"
      by blast
    show ?thesis using s1 s' Cons by auto
  qed (use Suc.prems in simp)
qed auto

lemma v1_flushEvents_ok:
  assumes "v1_ok s"
  shows "\<exists>s'. v1_flushEvents fin tags s = Inr s' \<and> v1_ok s' \<and> v1_idents s' = v1_idents s \<and>
     subrange (v1_base s') = subrange (v1_base s) \<and>
     (ph_queue (v1_base s') = [] \<or> (\<not> fin \<and> length (ph_queue (v1_base s')) < unat (ph_limit (v1_base s'))))"
proof -
  obtain s1 where s1: "v1_flush_complete (length (ph_queue (v1_base s))) tags s = Inr s1" "v1_ok s1"
    "v1_idents s1 = v1_idents s" "subrange (v1_base s1) = subrange (v1_base s)"
    using v1_flush_complete_ok [OF assms] by (auto simp: v1_steps_def)
  show ?thesis
  proof (cases "length (ph_queue (v1_base s1)) < unat (ph_limit (v1_base s1)) \<and> \<not> fin")
    case True
    then show ?thesis using s1 by (simp add: v1_flushEvents_def)
  next
    case False
    then show ?thesis
      using s1 v1_flush_excess_ok [OF s1(2), of "length (ph_queue (v1_base s1))" fin tags]
      by (auto simp: v1_flushEvents_def)
  qed
qed

subsection \<open>Version 1 as version 2\<close>

text \<open>The event of version 2 that says the same: the flags of the class, the reference by \<open>refid\<close>.\<close>

definition classed :: "event_io \<Rightarrow> event_io" where
  "classed io = io\<lparr>eio_metadata := pf_metadata (class_flags io), eio_direct := pf_direct (class_flags io),
     eio_readahead := False\<rparr>"

fun as_v2 :: "event_case \<Rightarrow> event_case" where
  "as_v2 (Io io) = Io (classed io)"
| "as_v2 (FilesystemMeta m) = FilesystemMeta (m\<lparr>fsm_refId := fsm_refSid m\<rparr>)"
| "as_v2 x = x"

definition v1_arrivals :: "trace_event \<Rightarrow> v1_handler \<Rightarrow>
    ((u64 \<times> int \<times> parsed_flags \<times> u32) + (u64 \<times> fs_event_type \<times> u64)) list" where
  "v1_arrivals e s = arrivals (e\<lparr>te_event := as_v2 (te_event e)\<rparr>) (v1_base s)"

lemma v1_handle_io_as_v2: "v1_handle_io hdr io s = v1_lift (handle_io hdr (classed io)) s"
proof -
  have "eio_id (classed io) = eio_id io" by (simp add: classed_def)
  then have "addMapping (Io io) p b = addMapping (Io (classed io)) p b" for p b
    by (simp only: addMapping_def event_case.case)
  then show ?thesis
    by (simp add: v1_handle_io_def v1_lift_def handle_io_def v1_addMapping_def Let_def case_prod_beta classed_def
        v1_parsed_io_def class_flags_def)
qed

lemma v1_handle_fs_meta_as_v2:
  "v1_handle_fs_meta m s =
     (case getCachedEventById (fsm_refSid m) (v1_base s) of
        None \<Rightarrow> Inr s
      | Some _ \<Rightarrow> and_then (handle_fs_meta (m\<lparr>fsm_refId := fsm_refSid m\<rparr>) (v1_base s)) (\<lambda>b.
          Inr (s\<lparr>v1_base := b,
                 v1_fileInfo := table_set_size (file_id_of_proto (fsm_fileId m)) (fsm_fileSize m) (v1_fileInfo s)\<rparr>)))"
  by (auto simp: v1_handle_fs_meta_def handle_fs_meta_def v1_getCachedEventById_def Let_def case_prod_beta
      and_then_def split: option.split sum.split)

lemma v1_lift_steps:
  assumes "v1_ok s" "steps_to (v1_base s) xs (f (v1_base s))"
    "\<And>b. f (v1_base s) = Inr b \<Longrightarrow> files_have_devices b \<and> subrange b = subrange (v1_base s)"
  shows "v1_steps s xs (v1_lift f s)"
proof -
  obtain b where b: "f (v1_base s) = Inr b" "handler_ok b" "map ident (all_events b) = v1_idents s @ xs"
    using assms(2) by (auto simp: steps_to_def)
  show ?thesis
    by (rule v1_stepsI [of _ "s\<lparr>v1_base := b\<rparr>"])
      (use b assms(1,3) in \<open>simp_all add: v1_lift_def v1_ok_def\<close>)
qed

subsection \<open>Handling one event\<close>

lemma v1_handle_io_steps:
  assumes "v1_ok s" "te_event e = Io io"
  shows "v1_steps s (v1_arrivals e s) (v1_handle_io (te_header e) io s)"
  unfolding v1_handle_io_as_v2
proof (rule v1_lift_steps [OF assms(1)])
  let ?e = "e\<lparr>te_event := Io (classed io)\<rparr>"
  show "steps_to (v1_base s) (v1_arrivals e s) (handle_io (te_header e) (classed io) (v1_base s))"
    using handle_io_steps [of "v1_base s" ?e "classed io"] assms by (simp add: v1_arrivals_def v1_ok_def)
  fix b assume b: "handle_io (te_header e) (classed io) (v1_base s) = Inr b"
  have fok: "files_have_devices (v1_base s)" using assms(1) by (simp add: v1_ok_def)
  show "files_have_devices b \<and> subrange b = subrange (v1_base s)"
    using subrange_handle_io [OF b] files_handle_io [OF b fok] by simp
qed

lemma v1_handle_completion_steps:
  assumes "v1_ok s" "te_event e = IoCompletion c"
  shows "v1_steps s (v1_arrivals e s) (v1_handle_completion fin tags (te_header e) c s)"
proof -
  have arr: "v1_arrivals e s = []" by (simp add: v1_arrivals_def arrivals_def assms(2))
  show ?thesis
  proof (cases "outside_subrange (cmp_lba c) (cmp_len c) (v1_base s)")
    case True
    then show ?thesis using assms(1) by (simp add: arr v1_handle_completion_def v1_steps_def)
  next
    case False
    have ok: "handler_ok (v1_base s)" "files_have_devices (v1_base s)" using assms(1) by (simp_all add: v1_ok_def)
    have "v1_steps s [] (v1_apply_completion (te_header e) c s)"
      unfolding v1_apply_completion_def
    proof (rule v1_lift_steps [OF assms(1)])
      show "steps_to (v1_base s) [] (apply_completion (te_header e) c (v1_base s))"
        using apply_completion_ok [OF ok(1), of "te_header e" c] by (auto simp: steps_to_def)
      fix b assume "apply_completion (te_header e) c (v1_base s) = Inr b"
      then show "files_have_devices b \<and> subrange b = subrange (v1_base s)"
        using files_apply_completion ok(2) subrange_apply_completion by blast
    qed
    moreover have "v1_steps s' [] (v1_flushEvents fin tags s')" if "v1_ok s'" for s'
      using v1_flushEvents_ok [OF that] by (auto simp: v1_steps_def)
    ultimately have "v1_steps s ([] @ []) (and_then (v1_apply_completion (te_header e) c s) (v1_flushEvents fin tags))"
      by (intro v1_steps_then) auto
    then show ?thesis using False by (simp add: arr v1_handle_completion_def)
  qed
qed
lemma v1_handle_fs_meta_steps:
  assumes "v1_ok s" "te_event e = FilesystemMeta m"
  shows "v1_steps s (v1_arrivals e s) (v1_handle_fs_meta m s)"
proof (cases "getCachedEventById (fsm_refSid m) (v1_base s)")
  case None
  then show ?thesis using assms
    by (simp add: v1_handle_fs_meta_as_v2 v1_steps_def v1_arrivals_def arrivals_def)
next
  case (Some p)
  let ?m = "m\<lparr>fsm_refId := fsm_refSid m\<rparr>"
  let ?part = "pfi_partitionId (fsm_fileId m)"
  have ok: "handler_ok (v1_base s)" "files_have_devices (v1_base s)" "table_ok (v1_fileInfo s)"
    using assms(1) by (simp_all add: v1_ok_def)
  obtain b where b: "handle_fs_meta ?m (v1_base s) = Inr b" "handler_ok b" "map ident (all_events b) = v1_idents s"
    using handle_fs_meta_steps [OF ok(1), of "e\<lparr>te_event := FilesystemMeta ?m\<rparr>" ?m]
    by (auto simp: steps_to_def arrivals_def)
  have "subrange b = subrange (v1_base s)"
    using b(1) by (auto simp: handle_fs_meta_def and_then_Inr_iff Let_def case_prod_beta split: option.splits)
  moreover have "files_have_devices b" using files_handle_fs_meta [OF b(1) ok(2)] .
  ultimately show ?thesis
    using b Some ok(3) assms
    by (auto simp: v1_handle_fs_meta_as_v2 v1_steps_def v1_arrivals_def arrivals_def v1_ok_def table_ok_ops)
qed

lemma v1_handle_file_event_steps:
  assumes "v1_ok s" "te_event e = FilesystemFileEvent ev"
  shows "v1_steps s (v1_arrivals e s) (Inr (v1_handle_file_event (te_header e) ev s))"
proof -
  let ?part = "pfi_partitionId (fse_fileId ev)"
  define c where "c = fst (device_at ?part (v1_base s))"
  define t where "t = fst (table_event_size (file_id_of_proto (fse_fileId ev)) (fse_fsEventType ev) (v1_fileInfo s))"
  have ok: "handler_ok c" "files_have_devices c" "table_ok t" "all_events c = all_events (v1_base s)"
    "subrange c = subrange (v1_base s)"
    using assms(1) by (simp_all add: v1_ok_def c_def t_def table_ok_ops)
  obtain x where x: "v1_handle_file_event (te_header e) ev s =
      s\<lparr>v1_base := c\<lparr>ph_queue := ph_queue c @ [x]\<rparr>, v1_fileInfo := t\<rparr>"
    "[ident x] = v1_arrivals e s" "pdev_partition (pe_device x) = ?part"
    by (simp add: v1_handle_file_event_def Let_def case_prod_beta c_def [symmetric] t_def [symmetric])
      (simp add: v1_arrivals_def arrivals_def assms(2) ident_def parsed_event_default_def the_file_def c_def)
  have "map_find (ph_devices c) ?part \<noteq> None"
    using assms(1) devices_device_at(2) [of "v1_base s" ?part ?part]
    by (simp add: c_def v1_ok_def files_have_devices_def)
  then have "files_have_devices (c\<lparr>ph_queue := ph_queue c @ [x]\<rparr>)" using ok(2) x(3) by (simp add: files_enqueue)
  moreover have "handler_ok (c\<lparr>ph_queue := ph_queue c @ [x]\<rparr>)" using ok(1) by (rule handler_ok_enqueue)
  moreover have "all_events (c\<lparr>ph_queue := ph_queue c @ [x]\<rparr>) = all_events c @ [x]" by (simp add: all_events_def)
  ultimately show ?thesis using x ok(3-5) by (simp add: v1_steps_def v1_ok_def)
qed

lemma v1_set_offset_frame:
  "v1_ok (v1_set_offset e s) = v1_ok s" "v1_idents (v1_set_offset e s) = v1_idents s"
  "subrange (v1_base (v1_set_offset e s)) = subrange (v1_base s)"
proof -
  have "set_offset e b = b\<lparr>ph_timestampOffset := ph_timestampOffset (set_offset e b)\<rparr>" for b
    by (cases "te_event e") (simp_all add: set_offset_def)
  from this [of "v1_base s"] obtain t where t: "set_offset e (v1_base s) = v1_base s\<lparr>ph_timestampOffset := t\<rparr>" ..
  then show "v1_idents (v1_set_offset e s) = v1_idents s" "subrange (v1_base (v1_set_offset e s)) = subrange (v1_base s)"
    by (simp_all add: v1_set_offset_def all_events_def)
  show "v1_ok (v1_set_offset e s) = v1_ok s"
    by (simp add: v1_ok_def v1_set_offset_def set_offset_frame(1)) (simp add: t files_have_devices_def)
qed

lemma v1_arrivals_cong: "subrange (v1_base s') = subrange (v1_base s) \<Longrightarrow> v1_arrivals e s' = v1_arrivals e s"
  unfolding v1_arrivals_def by (rule arrivals_cong)

lemma v1_handleEvent_steps:
  assumes "v1_ok s" "named e"
  shows "v1_steps s (v1_arrivals e s) (v1_handleEvent fin tags e s)"
proof -
  let ?s = "v1_set_offset e s"
  have ok: "v1_ok ?s" using assms(1) by (simp add: v1_set_offset_frame)
  have "v1_steps ?s (v1_arrivals e ?s) (v1_handleEvent fin tags e s)"
  proof (cases "te_event e")
    case (Io io)
    then show ?thesis using v1_handle_io_steps [OF ok] by (simp add: v1_handleEvent_def)
  next
    case (DeviceDescription d)
    have "handler_ok (handle_device d (v1_base ?s)) = handler_ok (v1_base ?s)"
      by (rule handler_ok_cong) (simp_all add: handle_device_def Let_def)
    moreover have "files_have_devices (handle_device d (v1_base ?s))"
      using ok by (auto simp: handle_device_def Let_def v1_ok_def files_have_devices_def sm.ok_put sm.find_put)
    ultimately show ?thesis using DeviceDescription ok
      by (simp add: v1_handleEvent_def v1_handle_device_def v1_steps_def v1_ok_def v1_arrivals_def arrivals_def)
        (simp add: handle_device_def Let_def all_events_def subrange_def)
  next
    case (FilesystemMeta m)
    then show ?thesis using v1_handle_fs_meta_steps [OF ok] by (simp add: v1_handleEvent_def)
  next
    case (IoCompletion c)
    then show ?thesis using v1_handle_completion_steps [OF ok] by (simp add: v1_handleEvent_def)
  next
    case (FilesystemFileName ev)
    then show ?thesis using ok assms(2)
      by (simp add: v1_handleEvent_def Let_def v1_handle_file_name_def v1_steps_def v1_ok_def v1_arrivals_def arrivals_def
          named_def table_ok_ops)
  next
    case (FilesystemFileEvent ev)
    then show ?thesis using v1_handle_file_event_steps [OF ok] by (simp add: v1_handleEvent_def)
  next
    case EventType_Not_Set
    then show ?thesis using ok by (simp add: v1_handleEvent_def v1_steps_def v1_arrivals_def arrivals_def)
  qed
  moreover have "v1_arrivals e ?s = v1_arrivals e s" by (rule v1_arrivals_cong) (simp add: v1_set_offset_frame)
  ultimately show ?thesis by (simp add: v1_steps_def v1_set_offset_frame)
qed

lemma v1_handle_all_steps:
  "v1_ok s \<Longrightarrow> \<forall>(fin, e) \<in> set es. named e \<Longrightarrow>
     v1_steps s (concat (map (\<lambda>(fin, e). v1_arrivals e s) es)) (v1_handle_all tags es s)"
proof (induction es arbitrary: s)
  case Nil
  then show ?case by (simp add: v1_steps_def)
next
  case (Cons x es)
  obtain fin e where x: "x = (fin, e)" by force
  have "v1_steps s (v1_arrivals e s) (v1_handleEvent fin tags e s)"
    using Cons.prems x by (intro v1_handleEvent_steps) auto
  then have "v1_steps s (v1_arrivals e s @ concat (map (\<lambda>(fin, e). v1_arrivals e s) es))
      (and_then (v1_handleEvent fin tags e s) (v1_handle_all tags es))"
  proof (rule v1_steps_then)
    fix s' assume s': "v1_ok s'" "subrange (v1_base s') = subrange (v1_base s)"
    then show "v1_steps s' (concat (map (\<lambda>(fin, e). v1_arrivals e s) es)) (v1_handle_all tags es s')"
      using Cons.IH [OF s'(1)] Cons.prems(2) by (simp add: v1_arrivals_cong [OF s'(2)])
  qed
  then show ?case by (simp add: x)
qed

subsection \<open>Properties\<close>

text \<open>
  Whatever events a trace of version 1 holds, as long as its files have names, processing it never
  fails: no pointer into the queue dangles, every device asked for a viewer is known, every path is found. Every IO
  in the subrange, with the flags of its class, and every file event is passed on once, in the order of arrival,
  numbered 1, 2, 3 and so on, and nothing stays in the queue.
\<close>

theorem v1_processEvents_delivers_in_order:
  assumes "\<forall>(fin, e) \<in> set es. named e"
  shows "\<exists>s. v1_processEvents tags es (v1_setExclusiveSubrange a b v1_handler_new) = Inr s \<and>
    ph_queue (v1_base s) = [] \<and>
    map ident (ph_handledIOs (v1_base s)) =
      concat (map (\<lambda>(fin, e). v1_arrivals e (v1_setExclusiveSubrange a b v1_handler_new)) es) \<and>
    map sid_of (ph_handledIOs (v1_base s)) = map (\<lambda>n. of_nat (Suc n)) [0..<length (ph_handledIOs (v1_base s))]"
proof -
  define s0 where "s0 = v1_setExclusiveSubrange a b v1_handler_new"
  have ok: "v1_ok s0"
    using handler_new_ok [of "[]" a b]
    by (simp add: s0_def v1_ok_def v1_setExclusiveSubrange_def v1_handler_new_def files_have_devices_def viewers_ok_def)
      (simp add: setExclusiveSubrange_def parsed_handler_new_def)
  have new: "v1_idents s0 = []"
    by (simp add: s0_def v1_setExclusiveSubrange_def v1_handler_new_def setExclusiveSubrange_def parsed_handler_new_def
        all_events_def)
  obtain s1 where s1: "v1_handle_all tags es s0 = Inr s1" "v1_ok s1"
    "v1_idents s1 = concat (map (\<lambda>(fin, e). v1_arrivals e s0) es)"
    using v1_handle_all_steps [OF ok assms] new by (auto simp: v1_steps_def)
  obtain s where s: "v1_flushEvents True tags s1 = Inr s" "v1_ok s" "v1_idents s = v1_idents s1" "ph_queue (v1_base s) = []"
    using v1_flushEvents_ok [OF s1(2), of True] by auto
  have "numbered (v1_base s)" using s(2) by (simp add: v1_ok_def handler_ok_def)
  then show ?thesis unfolding s0_def [symmetric]
    using s s1 by (simp add: v1_processEvents_def all_events_def numbered_def)
qed

definition v1_sample :: "(bool \<times> trace_event) list" where
  "v1_sample =
     [(False, \<lparr>te_header = v0_header 4 10, te_event = Io (v0_sample_io\<lparr>eio_id := 7\<rparr>)\<rparr>),
      (False, \<lparr>te_header = v0_header 6 13, te_event = IoCompletion (v0_sample_completion\<lparr>cmp_refId := 7\<rparr>)\<rparr>)]"

lemma v1_processEvents_delivers_in_order_witness:
  "\<exists>s. v1_processEvents [] v1_sample (v1_setExclusiveSubrange 0 0 v1_handler_new) = Inr s \<and>
     map sid_of (ph_handledIOs (v1_base s)) = [1] \<and>
     map ident (ph_handledIOs (v1_base s)) = [Inl (1, Io_Write, class_flags v0_sample_io, 0)]"
proof -
  have "\<forall>(fin, e) \<in> set v1_sample. named e" by (simp add: v1_sample_def named_def)
  from v1_processEvents_delivers_in_order [OF this, of "[]" 0 0]
  obtain s where s: "v1_processEvents [] v1_sample (v1_setExclusiveSubrange 0 0 v1_handler_new) = Inr s"
    "map ident (ph_handledIOs (v1_base s)) =
      concat (map (\<lambda>(fin, e). v1_arrivals e (v1_setExclusiveSubrange 0 0 v1_handler_new)) v1_sample)"
    "map sid_of (ph_handledIOs (v1_base s)) = map (\<lambda>n. of_nat (Suc n)) [0..<length (ph_handledIOs (v1_base s))]"
    by blast
  have i: "map ident (ph_handledIOs (v1_base s)) = [Inl (1, Io_Write, class_flags v0_sample_io, 0)]"
    unfolding s(2)
    by (simp add: v1_sample_def v1_arrivals_def arrivals_def classed_def class_flags_def outside_subrange_def
        v1_setExclusiveSubrange_def setExclusiveSubrange_def v0_sample_io_def)
  have "length (ph_handledIOs (v1_base s)) = 1" using arg_cong [OF i, of length] by simp
  then show ?thesis using s i by (intro exI [of _ s]) simp
qed

end
