(* ===== verification/Parsed_Io.thy ===== *)
theory Parsed_Io
  imports Parsed_Io_V1
begin

section \<open>The handler of any version, and the devices of a trace\<close>

text \<open>
  \<open>ParsedIoTraceEventHandler\<close> of source/octf/trace/parser/ParsedIoTraceEventHandler.cpp, which hands all
  calls to the handler for the version of the trace, and \<open>TraceEventHandlerDevicesList\<close> with what
  version 2 makes of it for the size of the devices. The events are in the order of the merge.
\<close>

subsection \<open>The list of devices\<close>

record device_list =
  dl_devList :: "(u64, device_description) std_map"
  dl_cancelRequested :: bool

definition device_list_new :: device_list where
  "device_list_new = \<lparr>dl_devList = [], dl_cancelRequested = False\<rparr>"

definition dl_handleEvent :: "trace_event \<Rightarrow> device_list \<Rightarrow> device_list res" where
  "dl_handleEvent e s =
     (case te_event e of
        DeviceDescription desc \<Rightarrow>
          (case map_find (dl_devList s) (dd_id desc) of
             Some d \<Rightarrow>
               if d \<noteq> desc then Inl (Octf_Exception ''Device description ERROR, ID duplication'') else Inr s
           | None \<Rightarrow> Inr (s\<lparr>dl_devList := fst (map_emplace (dd_id desc) desc (dl_devList s))\<rparr>))
      | _ \<Rightarrow> Inr (s\<lparr>dl_cancelRequested := True\<rparr>))"

text \<open>\<open>processEvents\<close> of the base class.\<close>

fun dl_processEvents :: "trace_event list \<Rightarrow> device_list \<Rightarrow> device_list res" where
  "dl_processEvents [] s = Inr s"
| "dl_processEvents (e # es) s =
     (if dl_cancelRequested s then Inr s
      else and_then (dl_handleEvent e s) (dl_processEvents es))"

definition getDevicesList :: "device_list \<Rightarrow> device_description list" where
  "getDevicesList s = map snd (dl_devList s)"

text \<open>Version 2 keeps the size in the cache of the trace.\<close>

definition getDevicesSize :: "u64 option \<Rightarrow> trace_event list \<Rightarrow> (u64 \<times> u64 option) res" where
  "getDevicesSize cache es =
     (case cache of
        Some sz \<Rightarrow> Inr (sz, cache)
      | None \<Rightarrow>
          and_then (dl_processEvents es device_list_new) (\<lambda>s.
          let sz = sum_list (map dd_size (getDevicesList s)) in Inr (sz, Some sz)))"

subsection \<open>The handler of a version\<close>

datatype child_parser =
    Child_V0 v0_handler
  | Child_V1 v1_handler
  | Child_V2 parsed_handler

definition child_new :: "nat \<Rightarrow> (u64, viewer) std_map \<Rightarrow> child_parser res" where
  "child_new version viewers =
     (if version = 0 then Inr (Child_V0 v0_handler_new)
      else if version = 1 then Inr (Child_V1 v1_handler_new)
      else if version = 2 then Inr (Child_V2 (parsed_handler_new viewers))
      else Inl (Octf_Exception ''Trying to parse unrecognized trace version''))"

fun child_setExclusiveSubrange :: "u64 \<Rightarrow> u64 \<Rightarrow> child_parser \<Rightarrow> child_parser" where
  "child_setExclusiveSubrange a b (Child_V0 s) = Child_V0 (v0_setExclusiveSubrange a b s)"
| "child_setExclusiveSubrange a b (Child_V1 s) = Child_V1 (v1_setExclusiveSubrange a b s)"
| "child_setExclusiveSubrange a b (Child_V2 s) = Child_V2 (setExclusiveSubrange a b s)"

fun child_processEvents ::
    "(string \<times> string) list \<Rightarrow> bool \<Rightarrow> (bool \<times> trace_event) list \<Rightarrow> child_parser \<Rightarrow> child_parser res" where
  "child_processEvents tags writable es (Child_V0 s) = and_then (v0_processEvents es s) (\<lambda>s. Inr (Child_V0 s))"
| "child_processEvents tags writable es (Child_V1 s) = and_then (v1_processEvents tags es s) (\<lambda>s. Inr (Child_V1 s))"
| "child_processEvents tags writable es (Child_V2 s) =
     and_then (processEvents tags writable None es s) (\<lambda>s. Inr (Child_V2 s))"

fun child_getDevicesSize :: "u64 option \<Rightarrow> trace_event list \<Rightarrow> child_parser \<Rightarrow> (u64 \<times> u64 option) res" where
  "child_getDevicesSize cache es (Child_V0 s) = Inr (v0_getDevicesSize s, cache)"
| "child_getDevicesSize cache es (Child_V1 s) = Inr (v1_getDevicesSize s, cache)"
| "child_getDevicesSize cache es (Child_V2 s) = getDevicesSize cache es"

text \<open>What the parent received in \<open>handleIO\<close>.\<close>

fun child_handledIOs :: "child_parser \<Rightarrow> parsed_event list" where
  "child_handledIOs (Child_V0 s) = v0_handledIOs s"
| "child_handledIOs (Child_V1 s) = ph_handledIOs (v1_base s)"
| "child_handledIOs (Child_V2 s) = ph_handledIOs s"

subsection \<open>What all versions pass on\<close>

text \<open>An event by its device and operation, or by its partition, file and kind.\<close>

definition summary_of :: "parsed_event \<Rightarrow> (u64 \<times> int) + (u64 \<times> fs_event_type \<times> u64)" where
  "summary_of e =
     (case pe_io e of
        Some io \<Rightarrow> Inl (pdev_id (pe_device e), pio_operation io)
      | None \<Rightarrow> Inr (pdev_partition (pe_device e), pfile_eventType (the_file e), pfile_id (the_file e)))"

definition summary_in :: "u64 \<Rightarrow> u64 \<Rightarrow> trace_event \<Rightarrow> ((u64 \<times> int) + (u64 \<times> fs_event_type \<times> u64)) list" where
  "summary_in a b e =
     (case te_event e of
        Io io \<Rightarrow>
          if b \<noteq> 0 \<and> (eio_lba io + ucast (eio_len io) < a \<or> eio_lba io > b) then []
          else [Inl (eio_deviceId io, eio_operation io)]
      | FilesystemFileEvent ev \<Rightarrow>
          [Inr (pfi_partitionId (fse_fileId ev), fse_fsEventType ev, pfi_id (fse_fileId ev))]
      | _ \<Rightarrow> [])"

lemma summary_of_ident:
  "summary_of e = map_sum (\<lambda>(d, op, _). (d, op)) id (ident e)"
  "summary_of e = map_sum (\<lambda>(k, op, _). (k_DeviceId k, op)) id (v0_ident e)"
  by (simp_all add: summary_of_def ident_def v0_ident_def io_ident_def key_of_parsed_def the_io_def split: option.split)

lemma summary_in_arrivals:
  "summary_in a b e = map (map_sum (\<lambda>(d, op, _). (d, op)) id) (arrivals e (setExclusiveSubrange a b (parsed_handler_new vs)))"
  "summary_in a b e = map (map_sum (\<lambda>(d, op, _). (d, op)) id) (v1_arrivals e (v1_setExclusiveSubrange a b v1_handler_new))"
  "summary_in a b e = map (\<lambda>(_, i). map_sum (\<lambda>(k, op, _). (k_DeviceId k, op)) id i) (v0_arrivals e (v0_setExclusiveSubrange a b v0_handler_new))"
  by (simp_all add: summary_in_def arrivals_def v1_arrivals_def v0_arrivals_def outside_subrange_def v0_outside_def
      setExclusiveSubrange_def v1_setExclusiveSubrange_def v0_setExclusiveSubrange_def v1_handler_new_def key_of_io_def
      classed_def split: event_case.split)

lemma summaries_concat:
  assumes "map g xs = concat (map (\<lambda>(fin, e). h e) es)" "\<And>x. summary_of x = k (g x)" "\<And>e. summary_in a b e = map k (h e)"
  shows "map summary_of xs = concat (map (\<lambda>(fin, e). summary_in a b e) es)"
proof -
  have "map summary_of xs = map k (map g xs)" by (simp add: assms(2))
  also have "\<dots> = concat (map (\<lambda>(fin, e). summary_in a b e) es)"
    unfolding assms(1) by (simp add: map_concat comp_def case_prod_unfold assms(3))
  finally show ?thesis .
qed
text \<open>The device descriptions before the first event of another kind.\<close>

fun leading_devices :: "trace_event list \<Rightarrow> device_description list" where
  "leading_devices [] = []"
| "leading_devices (e # es) =
     (case te_event e of DeviceDescription d \<Rightarrow> d # leading_devices es | _ \<Rightarrow> [])"

definition consistent :: "device_description set \<Rightarrow> bool" where
  "consistent D \<longleftrightarrow> (\<forall>x \<in> D. \<forall>y \<in> D. dd_id x = dd_id y \<longrightarrow> x = y)"

definition devices_ok :: "(u64, device_description) std_map \<Rightarrow> bool" where
  "devices_ok m \<longleftrightarrow> map_ok m \<and> (\<forall>(k, d) \<in> set m. k = dd_id d)"

abbreviation devices_in :: "(u64, device_description) std_map \<Rightarrow> device_description set" where
  "devices_in m \<equiv> snd ` set m"

lemma devices_ok_find: "devices_ok m \<Longrightarrow> map_find m k = Some d \<longleftrightarrow> d \<in> devices_in m \<and> dd_id d = k"
  by (force simp: devices_ok_def map_find_iff)

lemma devices_ok_put:
  assumes "devices_ok m" "map_find m (dd_id d) = None"
  shows "devices_ok (map_put (dd_id d) d m) \<and> devices_in (map_put (dd_id d) d m) = insert d (devices_in m)"
proof -
  have ok: "map_ok m" "map_ok (map_put (dd_id d) d m)" using assms(1) by (simp_all add: devices_ok_def sm.ok_put)
  have mem: "(k, x) \<in> set (map_put (dd_id d) d m) \<longleftrightarrow> k = dd_id d \<and> x = d \<or> (k, x) \<in> set m" for k x
    using assms(2) unfolding map_find_iff [OF ok(1), symmetric] map_find_iff [OF ok(2), symmetric] sm.find_put [OF ok(1)]
    by auto
  then have "devices_in (map_put (dd_id d) d m) = insert d (devices_in m)" by force
  moreover have "devices_ok (map_put (dd_id d) d m)" using assms(1) ok mem by (auto simp: devices_ok_def)
  ultimately show ?thesis by blast
qed

lemma dl_cancelled: "dl_cancelRequested s \<Longrightarrow> dl_processEvents es s = Inr s"
  by (cases es) simp_all

lemma dl_processEvents_ok:
  assumes "devices_ok (dl_devList s)" "\<not> dl_cancelRequested s" "consistent (devices_in (dl_devList s))"
  shows "if consistent (devices_in (dl_devList s) \<union> set (leading_devices es))
    then \<exists>s'. dl_processEvents es s = Inr s' \<and> devices_ok (dl_devList s') \<and>
      devices_in (dl_devList s') = devices_in (dl_devList s) \<union> set (leading_devices es)
    else dl_processEvents es s = Inl (Octf_Exception ''Device description ERROR, ID duplication'')"
  using assms
proof (induction es arbitrary: s)
  case Nil
  then show ?case by simp
next
  case (Cons e es)
  show ?case
  proof (cases "\<exists>d. te_event e = DeviceDescription d")
    case True
    then obtain d where d: "te_event e = DeviceDescription d" ..
    show ?thesis
    proof (cases "map_find (dl_devList s) (dd_id d)")
      case (Some x)
      then have x: "x \<in> devices_in (dl_devList s)" "dd_id x = dd_id d" using Cons.prems(1) by (auto simp: devices_ok_find)
      show ?thesis
      proof (cases "x = d")
        case True
        then have "dl_processEvents (e # es) s = dl_processEvents es s" using Some d Cons.prems(2) by (simp add: dl_handleEvent_def)
        moreover have "devices_in (dl_devList s) \<union> set (leading_devices (e # es)) = devices_in (dl_devList s) \<union> set (leading_devices es)"
          using d x(1) True by auto
        ultimately show ?thesis using Cons.IH [OF Cons.prems] by simp
      next
        case False
        then have "\<not> consistent (devices_in (dl_devList s) \<union> set (leading_devices (e # es)))"
          using x d by (auto simp: consistent_def)
        then show ?thesis using Some d False Cons.prems(2) by (simp add: dl_handleEvent_def)
      qed
    next
      case None
      let ?s = "s\<lparr>dl_devList := map_put (dd_id d) d (dl_devList s)\<rparr>"
      have put: "devices_ok (dl_devList ?s)" "devices_in (dl_devList ?s) = insert d (devices_in (dl_devList s))"
        using devices_ok_put [OF Cons.prems(1) None] by simp_all
      have ne: "dd_id x \<noteq> dd_id d" if "x \<in> devices_in (dl_devList s)" for x
        using that None Cons.prems(1) devices_ok_find [of "dl_devList s" "dd_id d" x] by auto
      then have "consistent (devices_in (dl_devList ?s))"
        unfolding put(2) consistent_def using Cons.prems(3) [unfolded consistent_def] ne by (metis insert_iff)
      note cons = this
      have nc: "\<not> dl_cancelRequested ?s" using Cons.prems(2) by simp
      have run: "dl_processEvents (e # es) s = dl_processEvents es ?s"
        using None d Cons.prems(2) by (simp add: dl_handleEvent_def map_emplace_def)
      have un: "devices_in (dl_devList s) \<union> set (leading_devices (e # es)) = devices_in (dl_devList ?s) \<union> set (leading_devices es)"
        unfolding put(2) using d by simp
      show ?thesis unfolding run un by (rule Cons.IH [OF put(1) nc cons])
    qed
  next
    case False
    then have "leading_devices (e # es) = []" "dl_handleEvent e s = Inr (s\<lparr>dl_cancelRequested := True\<rparr>)"
      by (simp_all add: dl_handleEvent_def split: event_case.split)
    then show ?thesis using Cons.prems by (simp add: dl_cancelled)
  qed
qed

lemma dl_new_ok:
  "if consistent (set (leading_devices es))
   then \<exists>s. dl_processEvents es device_list_new = Inr s \<and> set (getDevicesList s) = set (leading_devices es) \<and>
     sorted_wrt (\<lambda>x y. dd_id x < dd_id y) (getDevicesList s)
   else dl_processEvents es device_list_new = Inl (Octf_Exception ''Device description ERROR, ID duplication'')"
proof -
  have new: "devices_ok (dl_devList device_list_new)" "\<not> dl_cancelRequested device_list_new"
    "consistent (devices_in (dl_devList device_list_new))" "devices_in (dl_devList device_list_new) = {}"
    by (simp_all add: device_list_new_def devices_ok_def consistent_def)
  have "sorted_wrt (\<lambda>x y. dd_id x < dd_id y) (getDevicesList s)" if "devices_ok (dl_devList s)" for s
  proof -
    have "map fst (dl_devList s) = map dd_id (getDevicesList s)"
      using that by (auto simp: devices_ok_def getDevicesList_def)
    then show ?thesis using that by (metis devices_ok_def map_ok_def sorted_wrt_map)
  qed
  then show ?thesis
    using dl_processEvents_ok [OF new(1-3), of es] new(4) by (auto simp: getDevicesList_def split: if_splits)
qed

lemma getDevicesSize_first:
  "consistent (set (leading_devices es)) \<Longrightarrow> \<exists>sz. getDevicesSize None es = Inr (sz, Some sz) \<and> getDevicesSize (Some sz) es = Inr (sz, Some sz)"
  using dl_new_ok [of es] by (auto simp: getDevicesSize_def Let_def)

subsection \<open>Properties\<close>

text \<open>
  Property C13. The list of devices has the descriptions before the first other event of the trace, each device once
  and in the order of the identifiers; it is refused if and only if two of them differ for one device.
\<close>

theorem devices_list_correct:
  "if consistent (set (leading_devices es))
   then \<exists>s. dl_processEvents es device_list_new = Inr s \<and> set (getDevicesList s) = set (leading_devices es) \<and>
     sorted_wrt (\<lambda>x y. dd_id x < dd_id y) (getDevicesList s)
   else dl_processEvents es device_list_new = Inl (Octf_Exception ''Device description ERROR, ID duplication'')"
  by (rule dl_new_ok)

text \<open>
  Property C12. A trace of a known version is parsed without a fault whatever its version, and what is passed on
  are the IOs in the subrange and the file events, once and in order; a trace of another version is
  refused. The trace needs distinct sequence numbers, names for its files and a time of its first event.
\<close>

theorem any_version_delivers:
  assumes "distinct (map (\<lambda>(fin, e). eh_sid (te_header e)) es)" "\<forall>(fin, e) \<in> set es. named e" "es \<noteq> []"
    "eh_timestamp (te_header (snd (hd es))) \<noteq> 0" "viewers_ok viewers"
  shows "case child_new version viewers of
      Inl e \<Rightarrow> version > 2 \<and> e = Octf_Exception ''Trying to parse unrecognized trace version''
    | Inr c \<Rightarrow> version \<le> 2 \<and>
        (\<exists>c'. child_processEvents tags w es (child_setExclusiveSubrange a b c) = Inr c' \<and>
          map summary_of (child_handledIOs c') = concat (map (\<lambda>(fin, e). summary_in a b e) es))"
proof -
  consider "version = 0" | "version = 1" | "version = 2" | "version > 2" by linarith
  then show ?thesis
  proof cases
    case 1
    obtain s where s: "v0_processEvents es (v0_setExclusiveSubrange a b v0_handler_new) = Inr s"
      "map (\<lambda>e. (sid_of e + eh_sid (te_header (snd (hd es))), v0_ident e)) (v0_handledIOs s) =
        concat (map (\<lambda>(fin, e). v0_arrivals e (v0_setExclusiveSubrange a b v0_handler_new)) es)"
      using v0_processEvents_delivers_in_order [OF assms(1-4), of a b] by blast
    have "map summary_of (v0_handledIOs s) = concat (map (\<lambda>(fin, e). summary_in a b e) es)"
      by (rule summaries_concat [OF s(2), where k = "\<lambda>(_, i). map_sum (\<lambda>(k, op, _). (k_DeviceId k, op)) id i"])
        (simp add: summary_of_ident(2), rule summary_in_arrivals(3))
    then show ?thesis using 1 s(1) by (simp add: child_new_def)
  next
    case 2
    obtain s where s: "v1_processEvents tags es (v1_setExclusiveSubrange a b v1_handler_new) = Inr s"
      "map ident (ph_handledIOs (v1_base s)) =
        concat (map (\<lambda>(fin, e). v1_arrivals e (v1_setExclusiveSubrange a b v1_handler_new)) es)"
      using v1_processEvents_delivers_in_order [OF assms(2), of tags a b] by blast
    have "map summary_of (ph_handledIOs (v1_base s)) = concat (map (\<lambda>(fin, e). summary_in a b e) es)"
      by (rule summaries_concat [OF s(2)]) (rule summary_of_ident(1), rule summary_in_arrivals(2))
    then show ?thesis using 2 s(1) by (simp add: child_new_def)
  next
    case 3
    obtain s where s: "processEvents tags w None es (setExclusiveSubrange a b (parsed_handler_new viewers)) = Inr s"
      "map ident (ph_handledIOs s) =
        concat (map (\<lambda>(fin, e). arrivals e (setExclusiveSubrange a b (parsed_handler_new viewers))) es)"
      using processEvents_ok [OF assms(5), of tags w es a b] by blast
    have "map summary_of (ph_handledIOs s) = concat (map (\<lambda>(fin, e). summary_in a b e) es)"
      by (rule summaries_concat [OF s(2)]) (rule summary_of_ident(1), rule summary_in_arrivals(1))
    then show ?thesis using 3 s(1) by (simp add: child_new_def)
  next
    case 4
    then show ?thesis by (simp add: child_new_def)
  qed
qed

subsection \<open>Witnesses\<close>

lemma any_version_delivers_witness:
  "\<exists>c'. child_processEvents [] False v0_sample (child_setExclusiveSubrange 0 0 (Child_V1 v1_handler_new)) = Inr c' \<and>
     map summary_of (child_handledIOs c') = [Inl (1, Io_Write)]"
proof -
  have h: "distinct (map (\<lambda>(fin, e). eh_sid (te_header e)) v0_sample)" "\<forall>(fin, e) \<in> set v0_sample. named e"
    "v0_sample \<noteq> []" "eh_timestamp (te_header (snd (hd v0_sample))) \<noteq> 0" "viewers_ok []"
    by (simp_all add: v0_sample_def v0_header_def named_def viewers_ok_def)
  have s: "concat (map (\<lambda>(fin, e). summary_in 0 0 e) v0_sample) = [Inl (1, Io_Write)]"
    by (simp add: v0_sample_def summary_in_def v0_sample_io_def)
  show ?thesis
    using any_version_delivers [OF h, of 1 "[]" False 0 0] unfolding s by (simp add: child_new_def del: child_setExclusiveSubrange.simps)
qed

end
