(* ===== verification/Fifo.thy ===== *)
theory Fifo
  imports Octf_Prelude
begin

section \<open>The contract of a first-in first-out queue\<close>

text \<open>
  Several components hand items from a producer to a consumer: the trace ring buffer, the queue
  of the trace parser. The locale \<open>fifo\<close> is what they promise: accepting an item appends it to
  the queue the state represents, refusing it changes nothing of the queue, and what is taken
  is the head. Its consequence for any interleaving of the two sides, \<open>fifo_run\<close>: what was
  delivered and what is still queued are together what was accepted, in that order.
\<close>

datatype 'a fifo_op = Put 'a | Take

text \<open>A run gives the final state, the accepted items and the delivered items.\<close>

fun fifo_run ::
    "('a \<Rightarrow> 's \<Rightarrow> 's \<times> bool) \<Rightarrow> ('s \<Rightarrow> 's \<times> 'a option) \<Rightarrow> 'a fifo_op list \<Rightarrow> 's \<Rightarrow>
     's \<times> 'a list \<times> 'a list" where
  "fifo_run put tk [] s = (s, [], [])"
| "fifo_run put tk (Put x # ops) s =
     (let (s', ok) = put x s; (s'', acc, del) = fifo_run put tk ops s'
      in (s'', if ok then x # acc else acc, del))"
| "fifo_run put tk (Take # ops) s =
     (let (s', r) = tk s; (s'', acc, del) = fifo_run put tk ops s'
      in (s'', acc, case r of None \<Rightarrow> del | Some x \<Rightarrow> x # del))"

locale fifo =
  fixes put :: "'a \<Rightarrow> 's \<Rightarrow> 's \<times> bool"
    and get :: "'s \<Rightarrow> 's \<times> 'a option"
    and rep :: "'s \<Rightarrow> 'a list \<Rightarrow> bool"
  assumes put_rep: "rep s xs \<Longrightarrow> put x s = (s', ok) \<Longrightarrow> rep s' (if ok then xs @ [x] else xs)"
    and get_rep: "rep s xs \<Longrightarrow> get s = (s', r) \<Longrightarrow>
      \<exists>ys. rep s' ys \<and> xs = (case r of None \<Rightarrow> ys | Some x \<Rightarrow> x # ys)"
begin

lemma run_rep:
  "rep s xs \<Longrightarrow> fifo_run put get ops s = (s', acc, del) \<Longrightarrow> \<exists>ys. rep s' ys \<and> xs @ acc = del @ ys"
proof (induction ops arbitrary: s xs s' acc del)
  case Nil
  then show ?case by auto
next
  case (Cons q ops)
  show ?case
  proof (cases q)
    case (Put x)
    obtain s1 ok where s1: "put x s = (s1, ok)" by force
    obtain s2 acc' del' where s2: "fifo_run put get ops s1 = (s2, acc', del')" by (metis prod_cases3)
    from Cons.IH [OF put_rep [OF Cons.prems(1) s1] s2] obtain ys where
      "rep s2 ys" "(if ok then xs @ [x] else xs) @ acc' = del' @ ys" by blast
    with Cons.prems(2) s1 s2 Put show ?thesis by (auto split: if_splits)
  next
    case Take
    obtain s1 r where s1: "get s = (s1, r)" by force
    obtain s2 acc' del' where s2: "fifo_run put get ops s1 = (s2, acc', del')" by (metis prod_cases3)
    obtain zs where zs: "rep s1 zs" "xs = (case r of None \<Rightarrow> zs | Some x \<Rightarrow> x # zs)"
      using get_rep [OF Cons.prems(1) s1] by blast
    from Cons.IH [OF zs(1) s2] obtain ys where "rep s2 ys" "zs @ acc' = del' @ ys" by blast
    with Cons.prems(2) s1 s2 zs(2) Take show ?thesis by (auto split: option.splits)
  qed
qed

lemma delivered_in_order:
  assumes "rep s []" "fifo_run put get ops s = (s', acc, del)"
  shows "\<exists>rest. acc = del @ rest"
  using run_rep [OF assms] by auto

end

end
