(* ===== verification/Trace_Ring.thy ===== *)
theory Trace_Ring
  imports Fifo
begin

section \<open>The trace ring buffer\<close>

text \<open>
  source/octf/trace/trace.c: the ring buffer in shared memory into which a producer pushes
  events of any size and from which a consumer pops them. The state is the shared memory: the
  two headers and the bytes of the ring. A handle is what \<open>octf_trace_open\<close> allocates for its
  caller: the mode and the size of the ring.

  An event is a header of 16 bytes and its data, aligned to 16 bytes; a header never wraps, and
  data that does not fit before the end of the ring starts at its beginning. Every operation is
  one step of the shared memory; getting and committing a write buffer, or getting and
  releasing a read buffer, are separate steps, between which other operations may run. The
  value \<open>Bug\<close> is reaching an \<open>ENV_BUG\<close>, an assertion; the model goes on as the code does when
  assertions are compiled out.

  \<open>memcpy_s\<close> is the function of safestringlib: a parameter, from the bytes of the destination
  and those of the source to the new bytes of the destination.
\<close>

datatype errno = EINVAL | ENOSPC | EBUSY | EPERM | EBADF | EAGAIN | ENOBUFS | ENOMEM

datatype 'a outcome = Ok 'a | Err errno | Bug errno

datatype open_mode = Producer | Consumer

subsection \<open>Bytes and headers\<close>

type_synonym bytes = "nat \<Rightarrow> u8"

definition read_at :: "nat \<Rightarrow> nat \<Rightarrow> bytes \<Rightarrow> u8 list" where
  "read_at a n m = map m [a..<a + n]"

definition write_at :: "nat \<Rightarrow> u8 list \<Rightarrow> bytes \<Rightarrow> bytes" where
  "write_at a bs m = (\<lambda>i. if a \<le> i \<and> i < a + length bs then bs ! (i - a) else m i)"

text \<open>
  The packed structure \<open>trace_event_hdr\<close>: the bit \<open>ready\<close> in the first byte, four bytes of
  \<open>data_size\<close>, eight of \<open>data_ptr\<close>, and padding up to 16 bytes.
\<close>

record trace_event_hdr =
  teh_ready :: bool
  teh_data_size :: u32
  teh_data_ptr :: u64

definition HDR_SIZE :: u64 where "HDR_SIZE = 16"

definition read_hdr :: "u64 \<Rightarrow> bytes \<Rightarrow> trace_event_hdr" where
  "read_hdr p m =
     \<lparr>teh_ready = bit (m (unat p)) 0,
      teh_data_size = of_nat (le_value (read_at (unat p + 1) 4 m)),
      teh_data_ptr = of_nat (le_value (read_at (unat p + 5) 8 m))\<rparr>"

definition set_ready :: "u64 \<Rightarrow> bool \<Rightarrow> bytes \<Rightarrow> bytes" where
  "set_ready p r m =
     m(unat p := (if r then set_bit 0 (m (unat p)) else unset_bit 0 (m (unat p))))"

definition set_data_size :: "u64 \<Rightarrow> u32 \<Rightarrow> bytes \<Rightarrow> bytes" where
  "set_data_size p n m = write_at (unat p + 1) (le_bytes 4 (unat n)) m"

definition set_data_ptr :: "u64 \<Rightarrow> u64 \<Rightarrow> bytes \<Rightarrow> bytes" where
  "set_data_ptr p d m = write_at (unat p + 5) (le_bytes 8 (unat d)) m"

text \<open>\<open>TRACE_ALIGN\<close>: the argument is converted to 64 bits by the size of the header.\<close>

definition TRACE_ALIGN :: "u64 \<Rightarrow> u64" where
  "TRACE_ALIGN s = ((s + HDR_SIZE - 1) div HDR_SIZE) * HDR_SIZE"

subsection \<open>State\<close>

record shared =
  sh_magic :: u64
  sh_version :: u64
  sh_closed :: u64
  sh_wr_ptr :: u64
  sh_wr_lock :: u64
  sh_lost :: u64
  sh_has_chdr :: u64
  sh_rd_ptr :: u64
  sh_rd_lock :: u64
  sh_bytes :: bytes

record trace_handle =
  th_mode :: open_mode
  th_ring_size :: u64
  th_almost_empty :: u64

definition TRACE_VER :: u64 where "TRACE_VER = 1"

definition TRACE_MAGIC :: "u64 \<Rightarrow> u64 \<Rightarrow> u64 \<Rightarrow> u64 \<Rightarrow> u64" where
  "TRACE_MAGIC a b c d = or (or (or (push_bit 24 a) (push_bit 16 b)) (push_bit 8 c)) d"

definition TRACE_MAGIC_BUFFER :: u64 where
  "TRACE_MAGIC_BUFFER = TRACE_MAGIC 0x1410 0x1683 0x1920 0x1989"

definition OCTF_TRACE_MIN_BUFFER_SIZE :: u64 where "OCTF_TRACE_MIN_BUFFER_SIZE = 32 * 1024"

text \<open>The sizes of the two headers: seven 64-bit counters, and a padded page.\<close>

definition P_HDR_SIZE :: u64 where "P_HDR_SIZE = TRACE_ALIGN 56"
definition C_HDR_SIZE :: u64 where "C_HDR_SIZE = TRACE_ALIGN 4096"

definition is_trace_valid :: "shared \<Rightarrow> bool" where
  "is_trace_valid s \<longleftrightarrow> sh_magic s = TRACE_MAGIC_BUFFER \<and> sh_version s = TRACE_VER"

subsection \<open>Opening and closing\<close>

text \<open>The header argument is given or not; a separate header leaves more room for the ring.\<close>

definition init_ring :: "open_mode \<Rightarrow> u64 \<Rightarrow> bool \<Rightarrow> errno + trace_handle" where
  "init_ring mode sz hdr =
     (if sz < P_HDR_SIZE + C_HDR_SIZE then Inl ENOSPC
      else let sz = (if hdr then sz - P_HDR_SIZE else sz - P_HDR_SIZE - C_HDR_SIZE);
               ring_size = (sz div HDR_SIZE) * HDR_SIZE
           in Inr \<lparr>th_mode = mode, th_ring_size = ring_size,
                   th_almost_empty = ring_size * 2 div 10\<rparr>)"

text \<open>\<open>memset_s\<close> zeroes the pool and, when there is one, the separate consumer header.\<close>

definition init_producer :: "u64 \<Rightarrow> bool \<Rightarrow> errno + trace_handle \<times> shared" where
  "init_producer sz hdr =
     (case init_ring Producer sz hdr of
        Inl e \<Rightarrow> Inl e
      | Inr t \<Rightarrow> Inr (t, \<lparr>sh_magic = TRACE_MAGIC_BUFFER, sh_version = TRACE_VER, sh_closed = 0,
          sh_wr_ptr = 0, sh_wr_lock = 0, sh_lost = 0, sh_has_chdr = (if hdr then 1 else 0),
          sh_rd_ptr = 0, sh_rd_lock = 0, sh_bytes = (\<lambda>_. 0)\<rparr>))"

definition init_consumer :: "u64 \<Rightarrow> bool \<Rightarrow> shared \<Rightarrow> errno + trace_handle" where
  "init_consumer sz hdr s =
     (case init_ring Consumer sz hdr of
        Inl e \<Rightarrow> Inl e
      | Inr t \<Rightarrow>
          if \<not> is_trace_valid s then Inl EINVAL
          else if (sh_has_chdr s \<noteq> 0) \<noteq> hdr then Inl EINVAL
          else Inr t)"

definition octf_trace_open ::
    "u32 \<Rightarrow> bool \<Rightarrow> open_mode \<Rightarrow> bool \<Rightarrow> shared \<Rightarrow> shared \<times> trace_handle outcome" where
  "octf_trace_open mempool_size hdr mode zalloc_ok s =
     (if ucast mempool_size < OCTF_TRACE_MIN_BUFFER_SIZE then (s, Err ENOBUFS)
      else if \<not> zalloc_ok then (s, Err ENOMEM)
      else case mode of
        Producer \<Rightarrow>
          (case init_producer (ucast mempool_size) hdr of
             Inl e \<Rightarrow> (s, Err e) | Inr (t, s') \<Rightarrow> (s', Ok t))
      | Consumer \<Rightarrow>
          (case init_consumer (ucast mempool_size) hdr s of
             Inl e \<Rightarrow> (s, Err e) | Inr t \<Rightarrow> (s, Ok t)))"

definition octf_trace_close :: "trace_handle \<Rightarrow> shared \<Rightarrow> shared" where
  "octf_trace_close t s =
     (if th_mode t = Producer \<and> is_trace_valid s then s\<lparr>sh_closed := 1\<rparr> else s)"

subsection \<open>Auxiliary functions\<close>

definition integrity_check :: "trace_handle \<Rightarrow> u64 \<Rightarrow> u64 \<Rightarrow> bool" where
  "integrity_check t ptr count \<longleftrightarrow>
     \<not> ptr \<ge> th_ring_size t \<and> \<not> ptr + count > th_ring_size t \<and> \<not> ptr + count < count"

definition get_continuous_space :: "trace_handle \<Rightarrow> u64 \<Rightarrow> u64 \<Rightarrow> shared \<Rightarrow> shared \<times> u64" where
  "get_continuous_space t rdp wrp s =
     (if wrp \<ge> th_ring_size t then (s\<lparr>sh_magic := 0\<rparr>, 0)
      else if rdp \<ge> th_ring_size t then (s\<lparr>sh_magic := 0\<rparr>, 0)
      else if wrp \<ge> rdp then
        (s, if rdp = 0 then th_ring_size t - wrp - 1 else th_ring_size t - wrp)
      else (s, rdp - wrp - 1))"

definition get_free_space :: "trace_handle \<Rightarrow> u64 \<Rightarrow> u64 \<Rightarrow> u64" where
  "get_free_space t rdp wrp =
     (if wrp \<ge> rdp then th_ring_size t - (wrp - rdp) else rdp - wrp) - 1"

definition move_ptr :: "trace_handle \<Rightarrow> u64 \<Rightarrow> u64 \<Rightarrow> u64" where
  "move_ptr t ptr mv =
     (let ptr = ptr + mv in if ptr \<ge> th_ring_size t then ptr mod th_ring_size t else ptr)"

subsection \<open>Pushing\<close>

text \<open>The lock is tried 129 times; in one step of the shared memory nothing changes in between.\<close>

function try_lock_wr :: "nat \<Rightarrow> shared \<Rightarrow> shared option" where
  "try_lock_wr retry s =
     (if retry > 128 then None
      else if sh_wr_lock s = 0 then Some (s\<lparr>sh_wr_lock := 1\<rparr>)
      else try_lock_wr (retry + 1) s)"
  by pat_completeness auto

termination
  by (relation "measure (\<lambda>(retry, _). 129 - retry)") auto

declare try_lock_wr.simps [simp del]

definition unlock_wr :: "shared \<Rightarrow> shared" where
  "unlock_wr s = s\<lparr>sh_wr_lock := 0\<rparr>"

definition is_wrap :: "u64 \<Rightarrow> u64 \<Rightarrow> bool" where
  "is_wrap rdp wrp \<longleftrightarrow> wrp > rdp"

datatype allocation = Allocated u64 | No_Space | Alloc_Bug

text \<open>The last part of \<open>_allocate_event\<close>: the data will be at \<open>wrp\<close>.\<close>

definition place_event ::
    "trace_handle \<Rightarrow> u64 \<Rightarrow> u64 \<Rightarrow> u32 \<Rightarrow> u32 \<Rightarrow> shared \<Rightarrow> shared \<times> allocation" where
  "place_event t hdr wrp asize sz s =
     (if wrp + ucast asize > th_ring_size t then (s, Alloc_Bug)
      else (s\<lparr>sh_bytes := set_data_size hdr sz (set_data_ptr hdr wrp (set_ready hdr False (sh_bytes s))),
              sh_wr_ptr := move_ptr t wrp (ucast asize)\<rparr>, Allocated hdr))"

definition allocate_locked :: "trace_handle \<Rightarrow> u32 \<Rightarrow> shared \<Rightarrow> shared \<times> allocation" where
  "allocate_locked t sz s =
     (let wrp = sh_wr_ptr s; rdp = sh_rd_ptr s; (s, space) = get_continuous_space t rdp wrp s
      in if HDR_SIZE > space then (s, No_Space)
         else if wrp + HDR_SIZE > th_ring_size t then (s, Alloc_Bug)
         else
           let hdr = wrp; wrp = move_ptr t wrp HDR_SIZE;
               asize = ucast (TRACE_ALIGN (ucast sz)) :: u32;
               (s, continuous) = get_continuous_space t rdp wrp s
           in if ucast asize > continuous then
                if is_wrap rdp wrp \<and> rdp \<noteq> 0 then
                  let wrp = move_ptr t wrp continuous
                  in if wrp \<noteq> 0 then (s, Alloc_Bug)
                     else let (s, space) = get_continuous_space t rdp wrp s
                          in if ucast asize > space then (s, No_Space)
                             else place_event t hdr wrp asize sz s
                else (s, No_Space)
              else place_event t hdr wrp asize sz s)"

definition allocate_event :: "trace_handle \<Rightarrow> u32 \<Rightarrow> shared \<Rightarrow> shared \<times> allocation" where
  "allocate_event t sz s =
     (case try_lock_wr 0 s of
        None \<Rightarrow> (s, No_Space)
      | Some s \<Rightarrow> let (s, a) = allocate_locked t sz s in (unlock_wr s, a))"

text \<open>
  The part \<open>octf_trace_push\<close> and \<open>octf_trace_get_wr_buffer\<close> have in common: check the handle,
  allocate, count a lost event, check the position of the data.
\<close>

definition begin_write :: "trace_handle \<Rightarrow> u32 \<Rightarrow> shared \<Rightarrow> shared \<times> u64 outcome" where
  "begin_write t sz s =
     (if \<not> is_trace_valid s then (s, Err EINVAL)
      else if th_mode t \<noteq> Producer then (s, Err EINVAL)
      else case allocate_event t sz s of
          (s, Allocated hdr) \<Rightarrow>
            let h = read_hdr hdr (sh_bytes s)
            in if \<not> integrity_check t (teh_data_ptr h) (ucast (teh_data_size h))
               then (s\<lparr>sh_magic := 0\<rparr>, Bug EINVAL)
               else (s, Ok hdr)
        | (s, No_Space) \<Rightarrow> (s\<lparr>sh_lost := sh_lost s + 1\<rparr>, Err ENOSPC)
        | (s, Alloc_Bug) \<Rightarrow> (s\<lparr>sh_lost := sh_lost s + 1\<rparr>, Bug ENOSPC))"

definition octf_trace_push ::
    "(u8 list \<Rightarrow> u8 list \<Rightarrow> u8 list) \<Rightarrow> trace_handle \<Rightarrow> u8 list \<Rightarrow> u32 \<Rightarrow> shared \<Rightarrow> shared \<times> unit outcome" where
  "octf_trace_push memcpy_s t event sz s =
     (case begin_write t sz s of
        (s, Err e) \<Rightarrow> (s, Err e)
      | (s, Bug e) \<Rightarrow> (s, Bug e)
      | (s, Ok hdr) \<Rightarrow>
          let h = read_hdr hdr (sh_bytes s); d = unat (teh_data_ptr h);
              dest = read_at d (unat (teh_data_size h)) (sh_bytes s);
              m = write_at d (memcpy_s dest (take (unat sz) event)) (sh_bytes s)
          in (s\<lparr>sh_bytes := set_ready hdr True m\<rparr>, Ok ()))"

definition octf_trace_get_wr_buffer ::
    "trace_handle \<Rightarrow> u32 \<Rightarrow> shared \<Rightarrow> shared \<times> (u64 \<times> u64) outcome" where
  "octf_trace_get_wr_buffer t sz s =
     (case begin_write t sz s of
        (s, Err e) \<Rightarrow> (s, Err e)
      | (s, Bug e) \<Rightarrow> (s, Bug e)
      | (s, Ok hdr) \<Rightarrow> (s, Ok (hdr, teh_data_ptr (read_hdr hdr (sh_bytes s)))))"

definition octf_trace_commit_wr_buffer ::
    "trace_handle \<Rightarrow> u64 \<Rightarrow> shared \<Rightarrow> shared \<times> unit outcome" where
  "octf_trace_commit_wr_buffer t hdr s =
     (let h = read_hdr hdr (sh_bytes s)
      in if \<not> is_trace_valid s then (s, Err EINVAL)
         else if th_mode t \<noteq> Producer then (s, Err EINVAL)
         else if \<not> integrity_check t (teh_data_ptr h) (ucast (teh_data_size h))
         then (s\<lparr>sh_magic := 0\<rparr>, Bug EINVAL)
         else (s\<lparr>sh_bytes := set_ready hdr True (sh_bytes s)\<rparr>, Ok ()))"

subsection \<open>Popping\<close>

definition is_empty :: "u64 \<Rightarrow> u64 \<Rightarrow> bool" where
  "is_empty rdp wrp \<longleftrightarrow> rdp = wrp"

datatype rd_hdr = Rd_Hdr u64 | Rd_None | Rd_Bug

definition get_rd_hdr :: "trace_handle \<Rightarrow> shared \<Rightarrow> rd_hdr" where
  "get_rd_hdr t s =
     (if is_empty (sh_rd_ptr s) (sh_wr_ptr s) then Rd_None
      else if \<not> integrity_check t (sh_rd_ptr s) HDR_SIZE then Rd_Bug
      else if \<not> teh_ready (read_hdr (sh_rd_ptr s) (sh_bytes s)) then Rd_None
      else Rd_Hdr (sh_rd_ptr s))"

definition move_rd_ptr :: "trace_handle \<Rightarrow> u64 \<Rightarrow> shared \<Rightarrow> shared" where
  "move_rd_ptr t hdr s =
     (let h = read_hdr hdr (sh_bytes s)
      in s\<lparr>sh_rd_ptr := move_ptr t (teh_data_ptr h) (TRACE_ALIGN (ucast (teh_data_size h)))\<rparr>)"

definition try_lock_rd :: "shared \<Rightarrow> shared option" where
  "try_lock_rd s = (if sh_rd_lock s \<noteq> 0 then None else Some (s\<lparr>sh_rd_lock := 1\<rparr>))"

definition unlock_rd :: "shared \<Rightarrow> shared" where
  "unlock_rd s = s\<lparr>sh_rd_lock := 0\<rparr>"

definition no_event :: "shared \<Rightarrow> errno" where
  "no_event s = (if sh_closed s \<noteq> 0 then EBADF else EAGAIN)"

definition octf_trace_pop ::
    "(u8 list \<Rightarrow> u8 list \<Rightarrow> u8 list) \<Rightarrow> trace_handle \<Rightarrow> u8 list \<Rightarrow> u32 \<Rightarrow> shared \<Rightarrow>
     shared \<times> (u8 list \<times> u32) outcome" where
  "octf_trace_pop memcpy_s t event sz s =
     (if \<not> is_trace_valid s then (s, Err EINVAL)
      else if th_mode t \<noteq> Consumer then (s, Err EPERM)
      else case try_lock_rd s of
        None \<Rightarrow> (s, Err EBUSY)
      | Some s \<Rightarrow>
          (case get_rd_hdr t s of
             Rd_None \<Rightarrow> (unlock_rd s, Err (no_event s))
           | Rd_Bug \<Rightarrow> (unlock_rd s, Bug (no_event s))
           | Rd_Hdr hdr \<Rightarrow>
               let h = read_hdr hdr (sh_bytes s)
               in if sz < teh_data_size h then (unlock_rd s, Err ENOSPC)
                  else if \<not> integrity_check t (teh_data_ptr h) (ucast (teh_data_size h))
                  then (unlock_rd s, Bug EINVAL)
                  else let src = read_at (unat (teh_data_ptr h)) (unat (teh_data_size h)) (sh_bytes s)
                       in (unlock_rd (move_rd_ptr t hdr s), Ok (memcpy_s event src, teh_data_size h))))"

definition octf_trace_get_rd_buffer ::
    "trace_handle \<Rightarrow> shared \<Rightarrow> shared \<times> (u64 \<times> u64 \<times> u32) outcome" where
  "octf_trace_get_rd_buffer t s =
     (if \<not> is_trace_valid s then (s, Err EINVAL)
      else if th_mode t \<noteq> Consumer then (s, Err EPERM)
      else case try_lock_rd s of
        None \<Rightarrow> (s, Err EBUSY)
      | Some s \<Rightarrow>
          (case get_rd_hdr t s of
             Rd_None \<Rightarrow> (unlock_rd s, Err (no_event s))
           | Rd_Bug \<Rightarrow> (unlock_rd s, Bug (no_event s))
           | Rd_Hdr hdr \<Rightarrow>
               let h = read_hdr hdr (sh_bytes s)
               in if \<not> integrity_check t (teh_data_ptr h) (ucast (teh_data_size h))
                  then (unlock_rd s, Bug EINVAL)
                  else (s, Ok (hdr, teh_data_ptr h, teh_data_size h))))"

definition octf_trace_release_rd_buffer ::
    "trace_handle \<Rightarrow> u64 \<Rightarrow> shared \<Rightarrow> shared \<times> unit outcome" where
  "octf_trace_release_rd_buffer t hdr s =
     (let h = read_hdr hdr (sh_bytes s)
      in if \<not> is_trace_valid s then (s, Err EINVAL)
         else if th_mode t \<noteq> Consumer then (s, Err EINVAL)
         else if \<not> integrity_check t (teh_data_ptr h) (ucast (teh_data_size h))
         then (s\<lparr>sh_magic := 0\<rparr>, Bug EINVAL)
         else (unlock_rd (move_rd_ptr t hdr s), Ok ()))"

subsection \<open>Queries\<close>

definition octf_trace_is_empty :: "shared \<Rightarrow> bool outcome" where
  "octf_trace_is_empty s =
     (if is_trace_valid s then Ok (is_empty (sh_rd_ptr s) (sh_wr_ptr s)) else Err EINVAL)"

definition octf_trace_is_almost_full :: "trace_handle \<Rightarrow> shared \<Rightarrow> bool outcome" where
  "octf_trace_is_almost_full t s =
     (if is_trace_valid s
      then Ok (get_free_space t (sh_rd_ptr s) (sh_wr_ptr s) < th_almost_empty t) else Err EINVAL)"

definition octf_trace_is_closed :: "shared \<Rightarrow> bool outcome" where
  "octf_trace_is_closed s = (if is_trace_valid s then Ok (sh_closed s \<noteq> 0) else Err EINVAL)"

definition octf_trace_get_lost_count :: "shared \<Rightarrow> u64 outcome" where
  "octf_trace_get_lost_count s = (if is_trace_valid s then Ok (sh_lost s) else Err EINVAL)"

definition octf_trace_add_lost :: "trace_handle \<Rightarrow> u64 \<Rightarrow> shared \<Rightarrow> shared" where
  "octf_trace_add_lost t n s =
     (if \<not> is_trace_valid s then s
      else if th_mode t \<noteq> Producer then s
      else s\<lparr>sh_lost := sh_lost s + n\<rparr>)"

definition octf_trace_get_free_space :: "trace_handle \<Rightarrow> shared \<Rightarrow> u64 outcome" where
  "octf_trace_get_free_space t s =
     (if is_trace_valid s then Ok (get_free_space t (sh_rd_ptr s) (sh_wr_ptr s)) else Err EINVAL)"

subsection \<open>Reading back what was written\<close>

named_theorems ring_bytes \<open>reads after writes\<close>

lemma length_read_at [simp]: "length (read_at a n m) = n"
  by (simp add: read_at_def)

lemma read_at_cong: "(\<And>i. a \<le> i \<Longrightarrow> i < a + n \<Longrightarrow> m i = m' i) \<Longrightarrow> read_at a n m = read_at a n m'"
  by (simp add: read_at_def)

lemma read_write_same: "length bs = n \<Longrightarrow> read_at a n (write_at a bs m) = bs"
  by (rule nth_equalityI) (simp_all add: read_at_def write_at_def)

lemma read_hdr_cong:
  "(\<And>i. unat p \<le> i \<Longrightarrow> i < unat p + 16 \<Longrightarrow> m i = m' i) \<Longrightarrow> read_hdr p m = read_hdr p m'"
  using read_at_cong [of "unat p + 1" 4 m m'] read_at_cong [of "unat p + 5" 8 m m']
  by (simp add: read_hdr_def)

lemma set_outside:
  assumes "i < unat p \<or> unat p + 16 \<le> i"
  shows "set_ready p r m i = m i" "set_data_size p n m i = m i" "set_data_ptr p d m i = m i"
  using assms by (auto simp: set_ready_def set_data_size_def set_data_ptr_def write_at_def)

lemma read_hdr_set_ready [ring_bytes]: "read_hdr p (set_ready p r m) = (read_hdr p m)\<lparr>teh_ready := r\<rparr>"
proof -
  have "read_at (unat p + 1) 4 (set_ready p r m) = read_at (unat p + 1) 4 m"
    "read_at (unat p + 5) 8 (set_ready p r m) = read_at (unat p + 5) 8 m"
    by (rule read_at_cong; simp add: set_ready_def)+
  then show ?thesis by (simp add: read_hdr_def set_ready_def bit_simps)
qed

lemma read_hdr_set_data_ptr [ring_bytes]:
  "read_hdr p (set_data_ptr p d m) = (read_hdr p m)\<lparr>teh_data_ptr := d\<rparr>"
proof -
  have "read_at (unat p + 1) 4 (set_data_ptr p d m) = read_at (unat p + 1) 4 m"
    by (rule read_at_cong) (simp add: set_data_ptr_def write_at_def)
  moreover have "read_at (unat p + 5) 8 (set_data_ptr p d m) = le_bytes 8 (unat d)"
    by (simp add: set_data_ptr_def read_write_same)
  moreover have "set_data_ptr p d m (unat p) = m (unat p)" by (simp add: set_data_ptr_def write_at_def)
  ultimately show ?thesis by (simp add: read_hdr_def le_value_bytes)
qed

lemma unat_u32_less: "unat (n :: u32) < 4294967296"
  using unsigned_less [of n] by simp

lemma read_hdr_set_data_size [ring_bytes]:
  "read_hdr p (set_data_size p n m) = (read_hdr p m)\<lparr>teh_data_size := n\<rparr>"
proof -
  have "read_at (unat p + 5) 8 (set_data_size p n m) = read_at (unat p + 5) 8 m"
    by (rule read_at_cong) (simp add: set_data_size_def write_at_def)
  moreover have "read_at (unat p + 1) 4 (set_data_size p n m) = le_bytes 4 (unat n)"
    by (simp add: set_data_size_def read_write_same)
  moreover have "set_data_size p n m (unat p) = m (unat p)" by (simp add: set_data_size_def write_at_def)
  moreover have "unat n mod 4294967296 = unat n"
    using unat_u32_less [of n] by (rule mod_less)
  ultimately show ?thesis by (simp add: read_hdr_def le_value_bytes)
qed

subsection \<open>Arithmetic of positions\<close>

definition align :: "nat \<Rightarrow> nat" where
  "align n = (n + 15) div 16 * 16"

lemma align_bounds: "n \<le> align n" "align n \<le> n + 15"
  by (simp_all add: align_def)

lemma align_dvd [simp]: "16 dvd align n"
  by (simp add: align_def)

lemma unat_TRACE_ALIGN: "unat (TRACE_ALIGN (ucast (n :: u32))) = align (unat n)"
proof -
  let ?n = "ucast n :: u64"
  have n: "unat ?n = unat n" "unat n < 4294967296" using unat_u32_less [of n] by simp_all
  have "?n + HDR_SIZE - 1 = ?n + 15" by (simp add: HDR_SIZE_def)
  moreover have sum: "unat (?n + 15) = unat n + 15"
    using n by (simp add: unat_word_ariths)
  moreover have "unat ((?n + 15) div 16) = (unat n + 15) div 16" using sum by (simp add: unat_div)
  moreover have "(unat n + 15) div 16 * 16 < 18446744073709551616" using n(2) by linarith
  ultimately show ?thesis by (simp add: TRACE_ALIGN_def HDR_SIZE_def align_def unat_word_ariths)
qed

lemma unat_asize:
  assumes "unat n + 15 < 4294967296"
  shows "unat (ucast (ucast (TRACE_ALIGN (ucast (n :: u32))) :: u32) :: u64) = align (unat n)"
proof -
  have "align (unat n) < 4294967296" using assms align_bounds(2) [of "unat n"] by linarith
  moreover have "unat (take_bit 32 x) = take_bit 32 (unat x)" for x :: u64
    by (simp add: unsigned_take_bit_eq)
  ultimately show ?thesis by (simp add: unat_TRACE_ALIGN unsigned_ucast_eq take_bit_nat_eq_self)
qed

definition rsize :: "trace_handle \<Rightarrow> nat" where
  "rsize t = unat (th_ring_size t)"

lemma unat_add_small: "unat (a :: u64) + unat b < 18446744073709551616 \<Longrightarrow> unat (a + b) = unat a + unat b"
  by (simp add: unat_word_ariths)

lemma unat_move_ptr:
  assumes "unat p + unat mv < 18446744073709551616" "0 < rsize t"
  shows "unat (move_ptr t p mv) = (unat p + unat mv) mod rsize t"
  using assms unat_add_small [of p mv]
  by (simp add: move_ptr_def Let_def rsize_def word_le_nat_alt unat_mod)

lemma integrity_check_iff:
  assumes "unat p + unat n < 18446744073709551616"
  shows "integrity_check t p n \<longleftrightarrow> unat p < rsize t \<and> unat p + unat n \<le> rsize t"
  using assms unat_add_small [of p n]
  by (auto simp: integrity_check_def rsize_def word_le_nat_alt word_less_nat_alt)

text \<open>Two positions less than a lap apart are different cells.\<close>

lemma mod_distinct:
  fixes v w :: nat
  assumes "v < w" "w < v + R"
  shows "v mod R \<noteq> w mod R"
proof
  assume "v mod R = w mod R"
  then have "R dvd w - v" using assms(1) by (metis mod_eq_dvd_iff_nat less_imp_le)
  then show False using assms by (auto dest: dvd_imp_le)
qed

lemma mod_offset: "v mod R + n \<le> R \<Longrightarrow> i < n \<Longrightarrow> (v + i) mod R = v mod R + i" for v i n R :: nat
  by (metis mod_add_left_eq mod_less add_less_cancel_left less_le_trans)

lemma continuous_space:
  assumes "unat rdp = va mod rsize t" "unat wrp = vb mod rsize t" "va \<le> vb" "vb < va + rsize t"
  shows "\<exists>c. get_continuous_space t rdp wrp s = (s, c) \<and> unat wrp + unat c \<le> rsize t \<and>
    vb + unat c < va + rsize t \<and>
    unat c = (if unat rdp \<le> unat wrp then rsize t - unat wrp - (if rdp = 0 then 1 else 0)
              else unat rdp - unat wrp - 1) \<and>
    (unat rdp \<le> unat wrp \<longrightarrow> vb - va = unat wrp - unat rdp) \<and>
    (unat wrp < unat rdp \<longrightarrow> vb - va = rsize t - (unat rdp - unat wrp))"
proof -
  let ?R = "rsize t"
  define u where "u = vb - va"
  have u: "vb = va + u" "u < ?R" using assms(3,4) by (auto simp: u_def)
  then have R: "0 < ?R" by linarith
  have rd: "unat rdp < ?R" and wr: "unat wrp < ?R" using assms(1,2) R by simp_all
  have "unat wrp = (unat rdp + u) mod ?R" using assms(1,2) u(1) by (simp add: mod_add_left_eq)
  then have w: "unat wrp = (if unat rdp + u < ?R then unat rdp + u else unat rdp + u - ?R)"
    using rd u(2) by (simp add: mod_if)
  have small: "wrp < th_ring_size t" "rdp < th_ring_size t"
    using rd wr by (simp_all add: word_less_nat_alt rsize_def)
  show ?thesis
  proof (cases "unat rdp \<le> unat wrp")
    case True
    then have d: "unat wrp = unat rdp + u" using w u(2) rd by (auto split: if_splits)
    have le: "rdp \<le> wrp" using True by (simp add: word_le_nat_alt)
    have s1: "unat (th_ring_size t - wrp) = ?R - unat wrp"
      using small(1) by (simp add: rsize_def unat_sub less_imp_le)
    have s2: "unat (th_ring_size t - wrp - 1) = ?R - unat wrp - 1"
      using s1 wr by (subst unat_sub) (simp_all add: word_le_nat_alt)
    show ?thesis
    proof (cases "rdp = 0")
      case True
      then show ?thesis
        using le small s2 wr d u(1) by (simp add: get_continuous_space_def not_le)
    next
      case False
      then have "unat rdp \<noteq> 0" by (simp add: unat_eq_zero)
      then show ?thesis
        using False le small s1 wr d u(1) True by (simp add: get_continuous_space_def not_le)
    qed
  next
    case False
    then have lt: "wrp < rdp" by (simp add: word_less_nat_alt)
    have d: "unat wrp + ?R = unat rdp + u" using w False by (auto split: if_splits)
    have s1: "unat (rdp - wrp) = unat rdp - unat wrp" using lt by (simp add: unat_sub less_imp_le)
    have s2: "unat (rdp - wrp - 1) = unat rdp - unat wrp - 1"
      using s1 lt by (subst unat_sub) (simp_all add: word_le_nat_alt word_less_nat_alt)
    show ?thesis
      using False lt small s2 d u rd by (auto simp: get_continuous_space_def not_le)
  qed
qed

subsection \<open>The queue in the ring\<close>

text \<open>
  An entry of the queue: the position of its header, whether it has been committed, and its
  data. \<open>entry_at\<close> places an entry on a virtual line of which the ring is one lap: its header at
  \<open>v\<close>, its data anywhere behind it, the next entry at \<open>w\<close>. \<open>chain\<close> places a queue from \<open>v\<close> to \<open>w\<close>.
\<close>

type_synonym entry = "u64 \<times> bool \<times> u8 list"

definition entry_at :: "nat \<Rightarrow> bytes \<Rightarrow> nat \<Rightarrow> nat \<Rightarrow> entry \<Rightarrow> bool" where
  "entry_at R m v w e \<longleftrightarrow>
     (case e of (h, r, d) \<Rightarrow>
       unat h = v mod R \<and> v mod R + 16 \<le> R \<and>
       (\<exists>vd. v + 16 \<le> vd \<and> 16 dvd vd \<and> vd mod R + length d \<le> R \<and> w = vd + align (length d) \<and>
          length d + 15 < 4294967296 \<and>
          read_hdr h m = \<lparr>teh_ready = r, teh_data_size = of_nat (length d),
                          teh_data_ptr = of_nat (vd mod R)\<rparr> \<and>
          read_at (vd mod R) (length d) m = d))"

fun chain :: "nat \<Rightarrow> bytes \<Rightarrow> nat \<Rightarrow> nat \<Rightarrow> entry list \<Rightarrow> bool" where
  "chain R m v w [] \<longleftrightarrow> v = w"
| "chain R m v w (e # es) \<longleftrightarrow> (\<exists>u. entry_at R m v u e \<and> chain R m u w es)"

definition ring_ok :: "trace_handle \<Rightarrow> bool" where
  "ring_ok t \<longleftrightarrow> 0 < rsize t \<and> rsize t < 4294967296 \<and> 16 dvd rsize t"

definition queue_at :: "trace_handle \<Rightarrow> shared \<Rightarrow> nat \<Rightarrow> nat \<Rightarrow> entry list \<Rightarrow> bool" where
  "queue_at t s va vb es \<longleftrightarrow>
     ring_ok t \<and> unat (sh_rd_ptr s) = va mod rsize t \<and> unat (sh_wr_ptr s) = vb mod rsize t \<and>
     16 dvd va \<and> chain (rsize t) (sh_bytes s) va vb es \<and> vb < va + rsize t"

definition holds :: "trace_handle \<Rightarrow> shared \<Rightarrow> entry list \<Rightarrow> bool" where
  "holds t s es \<longleftrightarrow> (\<exists>va vb. queue_at t s va vb es)"

lemma entry_at_less: "entry_at R m v w e \<Longrightarrow> v < w"
  using align_bounds(1) by (fastforce simp: entry_at_def)

lemma entry_at_dvd: "entry_at R m v w e \<Longrightarrow> 16 dvd w"
  by (auto simp: entry_at_def)

lemma chain_le: "chain R m v w es \<Longrightarrow> v \<le> w"
  by (induction es arbitrary: v) (auto dest!: entry_at_less intro: less_imp_le less_le_trans)

lemma chain_dvd: "chain R m v w es \<Longrightarrow> 16 dvd v \<Longrightarrow> 16 dvd w"
  by (induction es arbitrary: v) (auto dest: entry_at_dvd)

lemma chain_append: "chain R m v w (es @ fs) \<longleftrightarrow> (\<exists>u. chain R m v u es \<and> chain R m u w fs)"
  by (induction es arbitrary: v) auto

text \<open>An entry depends only on its own cells.\<close>

lemma entry_at_cong:
  assumes "entry_at R m v w e" "\<And>x. v \<le> x \<Longrightarrow> x < w \<Longrightarrow> m (x mod R) = m' (x mod R)"
  shows "entry_at R m' v w e"
proof -
  obtain h r d where e: "e = (h, r, d)" by (cases e)
  obtain vd where *: "unat h = v mod R" "v mod R + 16 \<le> R" "v + 16 \<le> vd" "16 dvd vd"
    "vd mod R + length d \<le> R" "w = vd + align (length d)" "length d + 15 < 4294967296"
    "read_hdr h m = \<lparr>teh_ready = r, teh_data_size = of_nat (length d), teh_data_ptr = of_nat (vd mod R)\<rparr>"
    "read_at (vd mod R) (length d) m = d"
    using assms(1) unfolding entry_at_def e by auto
  have al: "length d \<le> align (length d)" by (rule align_bounds)
  have "read_hdr h m = read_hdr h m'"
  proof (rule read_hdr_cong)
    fix i assume i: "unat h \<le> i" "i < unat h + 16"
    then have "i = (v + (i - unat h)) mod R"
      using mod_offset [OF *(2), of "i - unat h"] *(1) by simp
    moreover have "v + (i - unat h) < w" using i *(3,6) by linarith
    ultimately show "m i = m' i" using assms(2) [of "v + (i - unat h)"] by simp
  qed
  moreover have "read_at (vd mod R) (length d) m = read_at (vd mod R) (length d) m'"
  proof (rule read_at_cong)
    fix i assume i: "vd mod R \<le> i" "i < vd mod R + length d"
    then have "i = (vd + (i - vd mod R)) mod R"
      using mod_offset [OF *(5), of "i - vd mod R"] by simp
    moreover have "vd + (i - vd mod R) < w" using i *(6) al by linarith
    ultimately show "m i = m' i" using assms(2) [of "vd + (i - vd mod R)"] *(3) by simp
  qed
  ultimately show ?thesis using * unfolding entry_at_def e by auto
qed

lemma chain_cong:
  "chain R m v w es \<Longrightarrow> (\<And>x. v \<le> x \<Longrightarrow> x < w \<Longrightarrow> m (x mod R) = m' (x mod R)) \<Longrightarrow>
     chain R m' v w es"
proof (induction es arbitrary: v)
  case (Cons e es)
  then obtain u where u: "entry_at R m v u e" "chain R m u w es" by auto
  note le = entry_at_less [OF u(1)] chain_le [OF u(2)]
  have "entry_at R m' v u e" by (rule entry_at_cong [OF u(1)]) (use Cons.prems(2) le in auto)
  moreover have "chain R m' u w es" by (rule Cons.IH [OF u(2)]) (use Cons.prems(2) le in auto)
  ultimately show ?case by auto
qed simp

text \<open>Changing the cells between two positions of the window leaves the entries around it.\<close>

lemma outside_window:
  fixes a b x R :: nat
  assumes "\<And>i. m' i \<noteq> m i \<Longrightarrow> \<exists>y. a \<le> y \<and> y < b \<and> i = y mod R"
    and "x < a \<and> b \<le> x + R \<or> b \<le> x \<and> x < a + R"
  shows "m (x mod R) = m' (x mod R)"
proof (rule ccontr)
  assume "m (x mod R) \<noteq> m' (x mod R)"
  then obtain y where y: "a \<le> y" "y < b" "x mod R = y mod R" using assms(1) [of "x mod R"] by auto
  with assms(2) mod_distinct [of x y R] mod_distinct [of y x R] show False by auto
qed

lemma chain_middle:
  assumes "chain R m va vb (es @ e # fs)" "vb \<le> va + R"
    and "\<And>v w. entry_at R m v w e \<Longrightarrow> w \<le> v + R \<Longrightarrow>
      entry_at R m' v w e' \<and> (\<forall>i. m' i \<noteq> m i \<longrightarrow> (\<exists>y. v \<le> y \<and> y < w \<and> i = y mod R))"
  shows "chain R m' va vb (es @ e' # fs)"
proof -
  obtain v w where c: "chain R m va v es" "entry_at R m v w e" "chain R m w vb fs"
    using assms(1) by (auto simp: chain_append)
  note le = chain_le [OF c(1)] entry_at_less [OF c(2)] chain_le [OF c(3)]
  have lap: "w \<le> v + R" using le assms(2) by linarith
  have ch: "\<And>i. m' i \<noteq> m i \<Longrightarrow> \<exists>y. v \<le> y \<and> y < w \<and> i = y mod R"
    using assms(3) [OF c(2) lap] by blast
  have "chain R m' va v es"
    by (rule chain_cong [OF c(1)], rule outside_window [OF ch]) (use le assms(2) in auto)
  moreover have "chain R m' w vb fs"
    by (rule chain_cong [OF c(3)], rule outside_window [OF ch]) (use le assms(2) in auto)
  ultimately show ?thesis using assms(3) [OF c(2) lap] by (auto simp: chain_append)
qed

lemma entry_set_ready:
  assumes "entry_at R m v w (h, r, d)" "w \<le> v + R"
  shows "entry_at R (set_ready h r' m) v w (h, r', d) \<and>
    (\<forall>i. set_ready h r' m i \<noteq> m i \<longrightarrow> (\<exists>y. v \<le> y \<and> y < w \<and> i = y mod R))"
proof -
  obtain vd where *: "unat h = v mod R" "v mod R + 16 \<le> R" "v + 16 \<le> vd" "16 dvd vd"
    "vd mod R + length d \<le> R" "w = vd + align (length d)" "length d + 15 < 4294967296"
    "read_hdr h m = \<lparr>teh_ready = r, teh_data_size = of_nat (length d), teh_data_ptr = of_nat (vd mod R)\<rparr>"
    "read_at (vd mod R) (length d) m = d"
    using assms unfolding entry_at_def by auto
  have al: "length d \<le> align (length d)" by (rule align_bounds)
  have only: "set_ready h r' m i = m i" if "i \<noteq> v mod R" for i
    using that *(1) by (simp add: set_ready_def)
  have "read_at (vd mod R) (length d) (set_ready h r' m) = read_at (vd mod R) (length d) m"
  proof (rule read_at_cong, rule only)
    fix i assume i: "vd mod R \<le> i" "i < vd mod R + length d"
    then have "i = (vd + (i - vd mod R)) mod R"
      using mod_offset [OF *(5), of "i - vd mod R"] by simp
    moreover have "v < vd + (i - vd mod R)" "vd + (i - vd mod R) < v + R"
      using i *(3,6) al assms(2) by linarith+
    ultimately show "i \<noteq> v mod R" using mod_distinct by metis
  qed
  then have "entry_at R (set_ready h r' m) v w (h, r', d)"
    using * unfolding entry_at_def by (auto simp: read_hdr_set_ready)
  moreover have "\<exists>y. v \<le> y \<and> y < w \<and> i = y mod R" if "set_ready h r' m i \<noteq> m i" for i
    using that only [of i] *(3,6) by (intro exI [of _ v]) auto
  ultimately show ?thesis by blast
qed

lemma entry_write_data:
  assumes "entry_at R m v w (h, r, d)" "w \<le> v + R" "length d' = length d" "R < 4294967296"
  shows "entry_at R (write_at (unat (teh_data_ptr (read_hdr h m))) d' m) v w (h, r, d') \<and>
    (\<forall>i. write_at (unat (teh_data_ptr (read_hdr h m))) d' m i \<noteq> m i \<longrightarrow>
      (\<exists>y. v \<le> y \<and> y < w \<and> i = y mod R))"
proof -
  obtain vd where *: "unat h = v mod R" "v mod R + 16 \<le> R" "v + 16 \<le> vd" "16 dvd vd"
    "vd mod R + length d \<le> R" "w = vd + align (length d)" "length d + 15 < 4294967296"
    "read_hdr h m = \<lparr>teh_ready = r, teh_data_size = of_nat (length d), teh_data_ptr = of_nat (vd mod R)\<rparr>"
    "read_at (vd mod R) (length d) m = d"
    using assms unfolding entry_at_def by auto
  have al: "length d \<le> align (length d)" by (rule align_bounds)
  have Rw: "vd mod R \<le> R" using *(5) by linarith
  define m' where "m' = write_at (vd mod R) d' m"
  have cell: "\<exists>y. vd \<le> y \<and> y < vd + length d \<and> i = y mod R" if "m' i \<noteq> m i" for i
  proof -
    from that have i: "vd mod R \<le> i" "i < vd mod R + length d"
      using assms(3) by (auto simp: m'_def write_at_def split: if_splits)
    then have "i = (vd + (i - vd mod R)) mod R"
      using mod_offset [OF *(5), of "i - vd mod R"] by simp
    then show ?thesis using i by (intro exI [of _ "vd + (i - vd mod R)"]) auto
  qed
  have "read_hdr h m' = read_hdr h m"
  proof (rule read_hdr_cong, rule ccontr)
    fix i assume i: "unat h \<le> i" "i < unat h + 16" "m' i \<noteq> m i"
    then obtain y where y: "vd \<le> y" "y < vd + length d" "i = y mod R" using cell by blast
    have "i = (v + (i - unat h)) mod R"
      using mod_offset [OF *(2), of "i - unat h"] *(1) i by simp
    moreover have "v + (i - unat h) < y" "y < v + (i - unat h) + R"
      using i y *(3,6) al assms(2) by linarith+
    ultimately show False using mod_distinct y(3) by metis
  qed
  moreover have "read_at (vd mod R) (length d) m' = d'"
    using assms(3) by (simp add: m'_def read_write_same)
  ultimately have "entry_at R m' v w (h, r, d')"
    using * assms(3) unfolding entry_at_def by auto
  moreover have "\<exists>y. v \<le> y \<and> y < w \<and> i = y mod R" if diff: "m' i \<noteq> m i" for i
  proof -
    obtain y where "vd \<le> y" "y < vd + length d" "i = y mod R" using cell [OF diff] by blast
    with *(3,6) al show ?thesis by (intro exI [of _ y]) auto
  qed
  moreover have "m' = write_at (unat (teh_data_ptr (read_hdr h m))) d' m"
  proof -
    have "vd mod R < 18446744073709551616" using Rw assms(4) by linarith
    then show ?thesis using *(8) by (simp add: m'_def unat_of_nat)
  qed
  ultimately show ?thesis by simp
qed

subsection \<open>Allocation\<close>

lemma entry_at_set_hdr:
  assumes "unat h = v mod R" "v mod R + 16 \<le> R" "v + 16 \<le> vd" "16 dvd vd"
    and "vd mod R + unat n \<le> R" "vd + align (unat n) \<le> v + R" "unat n + 15 < 4294967296"
    and "unat p = vd mod R" and m': "m' = set_data_size h n (set_data_ptr h p (set_ready h False m))"
  shows "entry_at R m' v (vd + align (unat n)) (h, False, read_at (vd mod R) (unat n) m')"
proof -
  have "read_hdr h m' = \<lparr>teh_ready = False, teh_data_size = n, teh_data_ptr = p\<rparr>"
    by (simp add: m' ring_bytes)
  moreover have "p = of_nat (unat p)" by simp
  then have "p = of_nat (vd mod R)" using assms(8) by simp
  ultimately show ?thesis using assms unfolding entry_at_def by auto
qed

text \<open>Writing an event touches the bytes and the write pointer only.\<close>

definition only_ring :: "shared \<Rightarrow> shared \<Rightarrow> bool" where
  "only_ring s s' \<longleftrightarrow> sh_magic s' = sh_magic s \<and> sh_version s' = sh_version s \<and>
     sh_closed s' = sh_closed s \<and> sh_wr_lock s' = sh_wr_lock s \<and> sh_lost s' = sh_lost s \<and>
     sh_has_chdr s' = sh_has_chdr s \<and> sh_rd_ptr s' = sh_rd_ptr s \<and> sh_rd_lock s' = sh_rd_lock s"

lemma place_event_queue:
  assumes q: "queue_at t s va vb es" "unat h = vb mod rsize t" "vb mod rsize t + 16 \<le> rsize t"
    and d: "vb + 16 \<le> vd" "16 dvd vd" "unat p = vd mod rsize t"
    and n: "unat n + 15 < 4294967296" "unat (ucast asize :: u64) = align (unat n)"
    and fit: "vd mod rsize t + align (unat n) \<le> rsize t" "vd + align (unat n) < va + rsize t"
  shows "\<exists>s' x. place_event t h p asize n s = (s', Allocated h) \<and>
    queue_at t s' va (vd + align (unat n)) (es @ [(h, False, x)]) \<and> length x = unat n \<and>
    only_ring s s'"
proof -
  let ?R = "rsize t"
  have R: "0 < ?R" "?R < 4294967296" using q(1) by (simp_all add: queue_at_def ring_ok_def)
  have va: "va \<le> vb" using q(1) chain_le by (auto simp: queue_at_def)
  let ?m = "sh_bytes s"
  let ?m' = "set_data_size h n (set_data_ptr h p (set_ready h False ?m))"
  let ?x = "read_at (vd mod ?R) (unat n) ?m'"
  have al: "unat n \<le> align (unat n)" by (rule align_bounds)
  have sum: "unat (p + ucast asize) = vd mod ?R + align (unat n)"
    using d(3) n(2) fit(1) R(2) by (subst unat_add_small) simp_all
  have nobug: "\<not> p + ucast asize > th_ring_size t"
    using sum fit(1) by (simp add: word_less_nat_alt rsize_def)
  have entry: "entry_at ?R ?m' vb (vd + align (unat n)) (h, False, ?x)"
    by (rule entry_at_set_hdr) (use q(2,3) d n(1) fit va al in auto)
  have "chain ?R ?m' va vb es"
  proof (rule chain_cong)
    show "chain ?R ?m va vb es" using q(1) by (simp add: queue_at_def)
    fix y assume y: "va \<le> y" "y < vb"
    have "y mod ?R < unat h \<or> unat h + 16 \<le> y mod ?R"
    proof (rule ccontr)
      assume "\<not> ?thesis"
      then obtain k where k: "y mod ?R = unat h + k" "k < 16"
        by (metis le_iff_add nat_add_left_cancel_less not_less)
      then have "y mod ?R = (vb + (y mod ?R - unat h)) mod ?R"
        using mod_offset [OF q(3) k(2)] q(2) by simp
      moreover have "y < vb + (y mod ?R - unat h)" using y by linarith
      moreover have "vb + (y mod ?R - unat h) < y + ?R"
        using k y d(1) fit(2) by linarith
      ultimately show False using mod_distinct by metis
    qed
    then show "?m (y mod ?R) = ?m' (y mod ?R)" by (simp add: set_outside)
  qed
  with entry have "chain ?R ?m' va (vd + align (unat n)) (es @ [(h, False, ?x)])"
    by (auto simp: chain_append)
  moreover have "unat (move_ptr t p (ucast asize)) = (vd + align (unat n)) mod ?R"
    using d(3) n(2) fit(1) R by (subst unat_move_ptr) (simp_all add: mod_add_left_eq)
  ultimately show ?thesis
    using q(1) fit(2) nobug by (auto simp: place_event_def queue_at_def only_ring_def)
qed

definition fits :: "nat \<Rightarrow> nat \<Rightarrow> bool" where
  "fits R n \<longleftrightarrow> 2 * align n + 17 \<le> R"

lemma dvd_mod16: "16 dvd R \<Longrightarrow> 16 dvd v \<Longrightarrow> 16 dvd (v mod R :: nat)"
  by (simp add: dvd_mod_iff)

lemma allocate_locked_queue:
  assumes q: "queue_at t s va vb es" and n: "unat n + 15 < 4294967296"
  shows "(\<exists>s' h x vc. allocate_locked t n s = (s', Allocated h) \<and>
      queue_at t s' va vc (es @ [(h, False, x)]) \<and> length x = unat n \<and>
      only_ring s s') \<or>
    allocate_locked t n s = (s, No_Space) \<and> \<not> (es = [] \<and> fits (rsize t) (unat n))"
proof -
  let ?R = "rsize t" and ?rd = "sh_rd_ptr s" and ?wr = "sh_wr_ptr s" and ?a = "align (unat n)"
  have R: "0 < ?R" "?R < 4294967296" "16 dvd ?R" using q by (simp_all add: queue_at_def ring_ok_def)
  have ptrs: "unat ?rd = va mod ?R" "unat ?wr = vb mod ?R" "va \<le> vb" "vb < va + ?R" "16 dvd va" "16 dvd vb"
    using q chain_le chain_dvd by (auto simp: queue_at_def)
  have d16: "16 dvd unat ?rd" "16 dvd unat ?wr"
    using dvd_mod16 [OF R(3)] ptrs by simp_all
  have empty: "va = vb" if "es = []" using q that by (simp add: queue_at_def)
  define asize where "asize = (ucast (TRACE_ALIGN (ucast n)) :: u32)"
  have a: "unat (ucast asize :: u64) = ?a" using unat_asize [OF n] by (simp add: asize_def)
  obtain c where c: "get_continuous_space t ?rd ?wr s = (s, c)" "unat ?wr + unat c \<le> ?R"
    "vb + unat c < va + ?R"
    "unat c = (if unat ?rd \<le> unat ?wr then ?R - unat ?wr - (if ?rd = 0 then 1 else 0)
              else unat ?rd - unat ?wr - 1)"
    using continuous_space [OF ptrs(1-4)] by blast
  show ?thesis
  proof (cases "HDR_SIZE > c")
    case True
    have "\<not> (es = [] \<and> fits ?R (unat n))"
    proof
      assume e: "es = [] \<and> fits ?R (unat n)"
      then have "unat ?rd = unat ?wr" using empty ptrs by simp
      moreover have "unat ?wr < ?R" using ptrs(2) R(1) by simp
      moreover obtain i j where "unat ?wr = 16 * i" "?R = 16 * j" using d16(2) R(3) by (auto simp: dvd_def)
      moreover have "unat c < 16" using True by (simp add: HDR_SIZE_def word_less_nat_alt)
      moreover have "?rd = 0 \<longleftrightarrow> unat ?rd = 0" by (simp add: unat_eq_zero)
      ultimately show False using c(4) e by (auto simp: fits_def split: if_splits)
    qed
    then show ?thesis using True c(1) by (simp add: allocate_locked_def Let_def)
  next
    case False
    have c16: "16 \<le> unat c" using False by (simp add: HDR_SIZE_def word_less_nat_alt not_less)
    let ?vh = "vb + 16" and ?wh = "move_ptr t ?wr HDR_SIZE"
    have "unat (?wr + HDR_SIZE) = unat ?wr + 16"
      using c(2) R(2) by (subst unat_add_small) (simp_all add: HDR_SIZE_def)
    then have nobug: "\<not> ?wr + HDR_SIZE > th_ring_size t"
      using c(2) c16 by (simp add: word_less_nat_alt rsize_def)
    have wh: "unat ?wh = ?vh mod ?R"
      using R c(2) ptrs(2) by (subst unat_move_ptr) (simp_all add: HDR_SIZE_def mod_add_left_eq)
    have vh: "va \<le> ?vh" "?vh < va + ?R" "16 dvd ?vh" using ptrs c(3) c16 by simp_all
    obtain c2 where c2: "get_continuous_space t ?rd ?wh s = (s, c2)" "unat ?wh + unat c2 \<le> ?R"
      "?vh + unat c2 < va + ?R"
      "unat c2 = (if unat ?rd \<le> unat ?wh then ?R - unat ?wh - (if ?rd = 0 then 1 else 0)
              else unat ?rd - unat ?wh - 1)"
      "unat ?rd \<le> unat ?wh \<longrightarrow> ?vh - va = unat ?wh - unat ?rd"
      using continuous_space [OF ptrs(1) wh vh(1,2)] by blast
    have hdr: "unat ?wr = vb mod ?R" "vb mod ?R + 16 \<le> ?R" using ptrs(2) c(2) c16 by simp_all
    have body: "allocate_locked t n s =
      (if ucast asize > c2 then
         if is_wrap ?rd ?wh \<and> ?rd \<noteq> 0 then
           let wrp = move_ptr t ?wh c2
           in if wrp \<noteq> 0 then (s, Alloc_Bug)
              else let (s, space) = get_continuous_space t ?rd wrp s
                   in if ucast asize > space then (s, No_Space) else place_event t ?wr wrp asize n s
         else (s, No_Space)
       else place_event t ?wr ?wh asize n s)"
      using False nobug c(1) c2(1) unfolding asize_def allocate_locked_def Let_def by simp
    show ?thesis
    proof (cases "ucast asize > c2")
      case fit: False
      then have le: "?a \<le> unat c2" using a by (simp add: word_less_nat_alt not_less)
      then have "?vh mod ?R + ?a \<le> ?R" "?vh + ?a < va + ?R" using c2(2,3) wh by simp_all
      from place_event_queue [OF q hdr _ vh(3) wh n a this] fit body show ?thesis by auto
    next
      case big: True
      then have big': "unat c2 < ?a" using a by (simp add: word_less_nat_alt)
      show ?thesis
      proof (cases "is_wrap ?rd ?wh \<and> ?rd \<noteq> 0")
        case wrap: True
        then have w: "unat ?rd < unat ?wh" "unat ?rd \<noteq> 0" "?rd \<noteq> 0"
          by (auto simp: is_wrap_def word_less_nat_alt unat_eq_zero)
        have c2R: "unat c2 = ?R - unat ?wh" "unat ?wh + unat c2 = ?R" using c2(2,4) w by simp_all
        let ?vd = "?vh + (?R - unat ?wh)"
        have zero: "?vd mod ?R = 0"
        proof -
          have "?vd mod ?R = (?vh mod ?R + (?R - unat ?wh)) mod ?R" by (simp add: mod_add_left_eq)
          also have "\<dots> = ?R mod ?R" using wh c2(2) by simp
          finally show ?thesis by simp
        qed
        have mv: "move_ptr t ?wh c2 = 0"
        proof -
          have "unat (move_ptr t ?wh c2) = (unat ?wh + unat c2) mod ?R"
            using R c2(2) by (subst unat_move_ptr) simp_all
          then show ?thesis using c2R(2) by (simp add: unat_eq_zero)
        qed
        have vd: "?vd < va + ?R" using c2(5) w c2(2) vh(1) by simp
        have dvd: "16 dvd ?vd"
          using vh(3) R(3) wh dvd_mod16 [OF R(3) vh(3)] by (intro dvd_add dvd_diff_nat) simp_all
        obtain c3 where c3: "get_continuous_space t ?rd 0 s = (s, c3)" "?vd + unat c3 < va + ?R"
          "unat c3 \<le> ?R" "unat c3 = unat ?rd - 1"
          using continuous_space [OF ptrs(1), of 0 ?vd s] zero vh(1) vd w(2) by auto
        show ?thesis
        proof (cases "ucast asize > c3")
          case True
          then have "unat c3 < ?a" using a by (simp add: word_less_nat_alt)
          then have "\<not> (es = [] \<and> fits ?R (unat n))"
          proof (intro notI, elim conjE)
            assume e: "es = []" "fits ?R (unat n)" "unat c3 < ?a"
            then have "unat ?rd = unat ?wr" using empty ptrs by simp
            then have "unat ?wh \<le> unat ?rd + 16" using wh ptrs by (metis mod_add_left_eq mod_less_eq_dividend)
            then show False using e c2R(1) big' c3(4) w(1) by (simp add: fits_def)
          qed
          then show ?thesis using True c3(1) body big wrap mv by (simp add: Let_def)
        next
          case fit: False
          then have le: "?a \<le> unat c3" using a by (simp add: word_less_nat_alt not_less)
          have "?vd mod ?R + ?a \<le> ?R" "?vd + ?a < va + ?R" using le c3(2,3) zero by simp_all
          from place_event_queue [OF q hdr _ dvd _ n a this, of 0] zero
          show ?thesis using fit c3(1) body big wrap mv by (auto simp: Let_def)
        qed
      next
        case no_wrap: False
        have "\<not> (es = [] \<and> fits ?R (unat n))"
        proof (intro notI, elim conjE)
          assume e: "es = []" "fits ?R (unat n)"
          then have eq: "unat ?rd = unat ?wr" using empty ptrs by simp
          have wh': "unat ?wh = (if unat ?wr + 16 < ?R then unat ?wr + 16 else 0)"
          proof -
            have "unat ?wh = (unat ?wr + 16) mod ?R" using wh ptrs(2) by (simp add: mod_add_left_eq)
            moreover have "unat ?wr + 16 \<le> ?R" using c(2) c16 by linarith
            ultimately show ?thesis by (cases "unat ?wr + 16 = ?R") auto
          qed
          have r0: "?rd = 0 \<longleftrightarrow> unat ?rd = 0" by (simp add: unat_eq_zero)
          have nw: "unat ?wh \<le> unat ?rd \<or> unat ?rd = 0"
            using no_wrap r0 by (auto simp: is_wrap_def word_less_nat_alt)
          have wrR: "unat ?wr + 16 \<le> ?R" using c(2) c16 by linarith
          show False
          proof (cases "unat ?wr + 16 < ?R")
            case True
            then have "unat ?rd = 0" using nw wh' eq by simp
            then show False using True wh' eq c2(4) big' e(2) r0 by (simp add: fits_def)
          next
            case False
            then have "unat ?wh = 0" "unat ?rd = ?R - 16" using wh' eq wrR by simp_all
            then show False using c2(4) big' e(2) r0 by (auto simp: fits_def split: if_splits)
          qed
        qed
        then show ?thesis using body big no_wrap by auto
      qed
    qed
  qed
qed

subsection \<open>Writing and reading events\<close>

text \<open>What \<open>memcpy_s\<close> documents for buffers up to a limit: the source replaces the front.\<close>

definition copies :: "nat \<Rightarrow> (u8 list \<Rightarrow> u8 list \<Rightarrow> u8 list) \<Rightarrow> bool" where
  "copies lim memcpy_s \<longleftrightarrow>
     (\<forall>dest src. length src \<le> length dest \<longrightarrow> length dest \<le> lim \<longrightarrow>
        memcpy_s dest src = src @ drop (length src) dest)"

lemma try_lock_free: "sh_wr_lock s = 0 \<Longrightarrow> try_lock_wr 0 s = Some (s\<lparr>sh_wr_lock := 1\<rparr>)"
  by (simp add: try_lock_wr.simps)

lemma queue_at_cong:
  "queue_at t s va vb es \<Longrightarrow> sh_rd_ptr s' = sh_rd_ptr s \<Longrightarrow> sh_wr_ptr s' = sh_wr_ptr s \<Longrightarrow>
     sh_bytes s' = sh_bytes s \<Longrightarrow> queue_at t s' va vb es"
  by (simp add: queue_at_def)

lemma holds_cong:
  "holds t s es \<Longrightarrow> sh_rd_ptr s' = sh_rd_ptr s \<Longrightarrow> sh_wr_ptr s' = sh_wr_ptr s \<Longrightarrow>
     sh_bytes s' = sh_bytes s \<Longrightarrow> holds t s' es"
  unfolding holds_def using queue_at_cong by blast

lemma holds_size: "holds t s es \<Longrightarrow> rsize t' = rsize t \<Longrightarrow> holds t' s es"
  by (simp add: holds_def queue_at_def ring_ok_def)

lemma holds_ring: "holds t s es \<Longrightarrow> ring_ok t"
  by (auto simp: holds_def queue_at_def)

text \<open>The middle of a queue: the header of an entry and its data are inside the ring.\<close>

lemma holds_entry:
  assumes "holds t s (es @ (h, r, d) # fs)"
  shows "\<exists>v w. entry_at (rsize t) (sh_bytes s) v w (h, r, d) \<and> w \<le> v + rsize t"
    and "teh_ready (read_hdr h (sh_bytes s)) = r"
    and "unat (teh_data_size (read_hdr h (sh_bytes s))) = length d"
    and "integrity_check t (teh_data_ptr (read_hdr h (sh_bytes s)))
           (ucast (teh_data_size (read_hdr h (sh_bytes s))))"
    and "read_at (unat (teh_data_ptr (read_hdr h (sh_bytes s)))) (length d) (sh_bytes s) = d"
proof -
  let ?R = "rsize t" and ?m = "sh_bytes s"
  obtain va vb where q: "queue_at t s va vb (es @ (h, r, d) # fs)" using assms by (auto simp: holds_def)
  have R: "0 < ?R" "?R < 4294967296" using q by (simp_all add: queue_at_def ring_ok_def)
  obtain v w where c: "chain ?R ?m va v es" "entry_at ?R ?m v w (h, r, d)" "chain ?R ?m w vb fs" "vb < va + ?R"
    using q by (auto simp: queue_at_def chain_append)
  then show "\<exists>v w. entry_at ?R ?m v w (h, r, d) \<and> w \<le> v + ?R"
    using chain_le [OF c(1)] chain_le [OF c(3)] by (intro exI [of _ v] exI [of _ w]) auto
  obtain vd where *: "vd mod ?R + length d \<le> ?R" "length d + 15 < 4294967296"
    "read_hdr h ?m = \<lparr>teh_ready = r, teh_data_size = of_nat (length d), teh_data_ptr = of_nat (vd mod ?R)\<rparr>"
    "read_at (vd mod ?R) (length d) ?m = d"
    using c(2) unfolding entry_at_def by auto
  have p: "unat (of_nat (vd mod ?R) :: u64) = vd mod ?R"
    using *(1) R by (simp add: unat_of_nat)
  have n: "unat (of_nat (length d) :: u32) = length d" using *(2) by (simp add: unat_of_nat)
  show "teh_ready (read_hdr h ?m) = r" "unat (teh_data_size (read_hdr h ?m)) = length d"
    using *(3) n by simp_all
  have "vd mod ?R < ?R" using R by simp
  then show "integrity_check t (teh_data_ptr (read_hdr h ?m)) (ucast (teh_data_size (read_hdr h ?m)))"
    using *(1,3) p n R by (subst integrity_check_iff) simp_all
  show "read_at (unat (teh_data_ptr (read_hdr h ?m))) (length d) ?m = d" using *(3,4) p by simp
qed

lemma holds_set_ready:
  assumes "holds t s (es @ (h, r, d) # fs)"
  shows "holds t (s\<lparr>sh_bytes := set_ready h r' (sh_bytes s)\<rparr>) (es @ (h, r', d) # fs)"
proof -
  obtain va vb where q: "queue_at t s va vb (es @ (h, r, d) # fs)" using assms by (auto simp: holds_def)
  then have c: "chain (rsize t) (sh_bytes s) va vb (es @ (h, r, d) # fs)" "vb \<le> va + rsize t"
    by (simp_all add: queue_at_def)
  have "chain (rsize t) (set_ready h r' (sh_bytes s)) va vb (es @ (h, r', d) # fs)"
    by (rule chain_middle [OF c]) (rule entry_set_ready)
  with q show ?thesis by (auto simp: holds_def queue_at_def)
qed

definition client_write :: "u64 \<Rightarrow> u8 list \<Rightarrow> shared \<Rightarrow> shared" where
  "client_write p bs s = s\<lparr>sh_bytes := write_at (unat p) bs (sh_bytes s)\<rparr>"

lemma holds_write:
  assumes "holds t s (es @ (h, r, d) # fs)" "length d' = length d"
  shows "holds t (client_write (teh_data_ptr (read_hdr h (sh_bytes s))) d' s) (es @ (h, r, d') # fs)"
proof -
  obtain va vb where q: "queue_at t s va vb (es @ (h, r, d) # fs)" using assms(1) by (auto simp: holds_def)
  then have c: "chain (rsize t) (sh_bytes s) va vb (es @ (h, r, d) # fs)" "vb \<le> va + rsize t"
    and R: "rsize t < 4294967296"
    by (simp_all add: queue_at_def ring_ok_def)
  have "chain (rsize t) (write_at (unat (teh_data_ptr (read_hdr h (sh_bytes s)))) d' (sh_bytes s)) va vb
      (es @ (h, r, d') # fs)"
    by (rule chain_middle [OF c]) (rule entry_write_data [OF _ _ assms(2) R])
  with q show ?thesis by (auto simp: holds_def queue_at_def client_write_def)
qed

lemma begin_write_queue:
  assumes "holds t s es" "is_trace_valid s" "th_mode t = Producer" "sh_wr_lock s = 0"
    and "unat n + 15 < 4294967296"
  shows "(\<exists>s' h x. begin_write t n s = (s', Ok h) \<and> holds t s' (es @ [(h, False, x)]) \<and> length x = unat n \<and>
      only_ring s s') \<or>
    begin_write t n s = (s\<lparr>sh_lost := sh_lost s + 1\<rparr>, Err ENOSPC) \<and> \<not> (es = [] \<and> fits (rsize t) (unat n))"
proof -
  let ?s = "s\<lparr>sh_wr_lock := 1\<rparr>"
  obtain va vb where "queue_at t s va vb es" using assms(1) by (auto simp: holds_def)
  then have q: "queue_at t ?s va vb es" by (rule queue_at_cong) simp_all
  have same: "s\<lparr>sh_wr_lock := 0\<rparr> = s" using assms(4) by simp
  consider (ok) s' h x vc where "allocate_locked t n ?s = (s', Allocated h)"
      "queue_at t s' va vc (es @ [(h, False, x)])" "length x = unat n"
      "only_ring ?s s'"
    | (full) "allocate_locked t n ?s = (?s, No_Space)" "\<not> (es = [] \<and> fits (rsize t) (unat n))"
    using allocate_locked_queue [OF q assms(5)] by blast
  then show ?thesis
  proof cases
    case ok
    define s1 where "s1 = unlock_wr s'"
    have alloc: "allocate_event t n s = (s1, Allocated h)"
      using ok(1) try_lock_free [OF assms(4)] by (simp add: allocate_event_def s1_def)
    have "queue_at t s1 va vc (es @ [(h, False, x)])"
      by (rule queue_at_cong [OF ok(2)]) (simp_all add: s1_def unlock_wr_def)
    then have h1: "holds t s1 (es @ [(h, False, x)])" by (auto simp: holds_def)
    have s1: "only_ring s s1"
      using ok(4) assms(4) by (simp add: only_ring_def s1_def unlock_wr_def)
    have "begin_write t n s = (s1, Ok h)"
      using alloc assms(2,3) holds_entry(4) [OF h1] by (simp add: begin_write_def Let_def)
    with h1 ok(3) s1 show ?thesis by blast
  next
    case full
    then have "allocate_event t n s = (s, No_Space)"
      using try_lock_free [OF assms(4)] same by (simp add: allocate_event_def unlock_wr_def)
    then show ?thesis using full(2) assms(2,3) by (simp add: begin_write_def)
  qed
qed

lemma push_queue:
  assumes "holds t s es" "is_trace_valid s" "th_mode t = Producer" "sh_wr_lock s = 0"
    and "unat n = length ev" "length ev + 15 < 4294967296" "copies lim memcpy_s" "length ev \<le> lim"
  shows "(\<exists>s' h. octf_trace_push memcpy_s t ev n s = (s', Ok ()) \<and> holds t s' (es @ [(h, True, ev)]) \<and>
      only_ring s s') \<or>
    octf_trace_push memcpy_s t ev n s = (s\<lparr>sh_lost := sh_lost s + 1\<rparr>, Err ENOSPC) \<and>
      \<not> (es = [] \<and> fits (rsize t) (length ev))"
proof -
  have n: "unat n + 15 < 4294967296" using assms(5,6) by simp
  consider (ok) s1 h x where "begin_write t n s = (s1, Ok h)" "holds t s1 (es @ [(h, False, x)])"
      "length x = unat n" "only_ring s s1"
    | (full) "begin_write t n s = (s\<lparr>sh_lost := sh_lost s + 1\<rparr>, Err ENOSPC)"
      "\<not> (es = [] \<and> fits (rsize t) (unat n))"
    using begin_write_queue [OF assms(1-4) n] by blast
  then show ?thesis
  proof cases
    case ok
    let ?h = "read_hdr h (sh_bytes s1)"
    let ?m = "write_at (unat (teh_data_ptr ?h)) ev (sh_bytes s1)"
    have len: "length ev = length x" using ok(3) assms(5) by simp
    have dest: "read_at (unat (teh_data_ptr ?h)) (unat (teh_data_size ?h)) (sh_bytes s1) = x"
      using holds_entry(3,5) [OF ok(2)] by simp
    have copy: "memcpy_s x (take (unat n) ev) = ev"
      using assms(5,7,8) len by (simp add: copies_def)
    have w: "holds t (s1\<lparr>sh_bytes := ?m\<rparr>) (es @ [(h, False, ev)])"
      using holds_write [OF ok(2) len] by (simp add: client_write_def)
    have "holds t (s1\<lparr>sh_bytes := set_ready h True ?m\<rparr>) (es @ [(h, True, ev)])"
      using holds_set_ready [OF w, of True] by simp
    moreover have "octf_trace_push memcpy_s t ev n s = (s1\<lparr>sh_bytes := set_ready h True ?m\<rparr>, Ok ())"
      using ok(1) dest copy by (simp add: octf_trace_push_def Let_def)
    moreover have "only_ring s (s1\<lparr>sh_bytes := b\<rparr>)" for b
      using ok(4) by (simp add: only_ring_def)
    ultimately show ?thesis by blast
  next
    case full
    then show ?thesis using assms(5) by (simp add: octf_trace_push_def)
  qed
qed

lemma get_rd_hdr_queue:
  assumes "holds t s es"
  shows "get_rd_hdr t s = (case es of (h, True, d) # _ \<Rightarrow> Rd_Hdr h | _ \<Rightarrow> Rd_None)"
    and "es = (h, r, d) # fs \<Longrightarrow> sh_rd_ptr s = h"
    and "is_empty (sh_rd_ptr s) (sh_wr_ptr s) \<longleftrightarrow> es = []"
proof -
  obtain va vb where q: "queue_at t s va vb es" using assms by (auto simp: holds_def)
  have R: "0 < rsize t" "rsize t < 4294967296" using q by (simp_all add: queue_at_def ring_ok_def)
  have head: "sh_rd_ptr s = h \<and> va < vb \<and> va mod rsize t + 16 \<le> rsize t" if es: "es = (h, r, d) # fs" for h r d fs
  proof -
    obtain u where u: "entry_at (rsize t) (sh_bytes s) va u (h, r, d)" "chain (rsize t) (sh_bytes s) u vb fs"
      using q es by (auto simp: queue_at_def)
    have "unat h = unat (sh_rd_ptr s)" using u(1) q by (simp add: entry_at_def queue_at_def)
    then show ?thesis using u(1) entry_at_less [OF u(1)] chain_le [OF u(2)]
      by (simp add: word_unat_eq_iff entry_at_def)
  qed
  then show "es = (h, r, d) # fs \<Longrightarrow> sh_rd_ptr s = h" by blast
  show empty: "is_empty (sh_rd_ptr s) (sh_wr_ptr s) \<longleftrightarrow> es = []"
  proof (cases es)
    case Nil
    then have "unat (sh_rd_ptr s) = unat (sh_wr_ptr s)" using q by (simp add: queue_at_def)
    then show ?thesis using Nil by (simp add: is_empty_def word_unat_eq_iff)
  next
    case (Cons e fs)
    obtain h r d where "e = (h, r, d)" by (cases e)
    with Cons head have "va < vb" by blast
    moreover have "vb < va + rsize t" "unat (sh_rd_ptr s) = va mod rsize t" "unat (sh_wr_ptr s) = vb mod rsize t"
      using q by (simp_all add: queue_at_def)
    ultimately show ?thesis using Cons mod_distinct [of va vb "rsize t"] by (auto simp: is_empty_def)
  qed
  show "get_rd_hdr t s = (case es of (h, True, d) # _ \<Rightarrow> Rd_Hdr h | _ \<Rightarrow> Rd_None)"
  proof (cases es)
    case Nil
    then show ?thesis using empty by (simp add: get_rd_hdr_def)
  next
    case (Cons e fs)
    obtain h r d where e: "e = (h, r, d)" by (cases e)
    have h: "sh_rd_ptr s = h" "va mod rsize t + 16 \<le> rsize t" using head [of h r d fs] Cons e by auto
    have "unat h = va mod rsize t" using q h(1) by (simp add: queue_at_def)
    then have "integrity_check t h HDR_SIZE"
      using h(2) R by (subst integrity_check_iff) (simp_all add: HDR_SIZE_def)
    moreover have "teh_ready (read_hdr h (sh_bytes s)) = r"
      using holds_entry(2) [of t s "[]" h r d fs] assms Cons e by simp
    ultimately show ?thesis using Cons e h(1) empty by (simp add: get_rd_hdr_def split: bool.split)
  qed
qed

lemma holds_move_rd:
  assumes "holds t s ((h, r, d) # fs)"
  shows "holds t (move_rd_ptr t h s) fs"
proof -
  let ?R = "rsize t" and ?h = "read_hdr h (sh_bytes s)"
  obtain va vb where q: "queue_at t s va vb ((h, r, d) # fs)" using assms by (auto simp: holds_def)
  have R: "0 < ?R" "?R < 4294967296" using q by (simp_all add: queue_at_def ring_ok_def)
  obtain u where u: "entry_at ?R (sh_bytes s) va u (h, r, d)" "chain ?R (sh_bytes s) u vb fs"
    using q by (auto simp: queue_at_def)
  obtain vd where vd: "vd mod ?R + length d \<le> ?R" "u = vd + align (length d)" "length d + 15 < 4294967296"
    "?h = \<lparr>teh_ready = r, teh_data_size = of_nat (length d), teh_data_ptr = of_nat (vd mod ?R)\<rparr>"
    using u(1) unfolding entry_at_def by auto
  have p: "unat (teh_data_ptr ?h) = vd mod ?R" using vd(1,4) R by (simp add: unat_of_nat)
  have n: "unat (TRACE_ALIGN (ucast (teh_data_size ?h))) = align (length d)"
    using vd(3,4) by (simp add: unat_TRACE_ALIGN unat_of_nat)
  have "align (length d) < 4294967296" using vd(3) align_bounds(2) [of "length d"] by linarith
  then have "unat (move_ptr t (teh_data_ptr ?h) (TRACE_ALIGN (ucast (teh_data_size ?h)))) = u mod ?R"
    using p n vd(1,2) R by (subst unat_move_ptr) (simp_all add: mod_add_left_eq)
  then have "queue_at t (move_rd_ptr t h s) u vb fs"
    using q u(2) entry_at_less [OF u(1)] entry_at_dvd [OF u(1)]
    by (simp add: queue_at_def move_rd_ptr_def Let_def)
  then show ?thesis by (auto simp: holds_def)
qed

lemma pop_queue:
  assumes "holds t s es" "is_trace_valid s" "th_mode t = Consumer" "sh_rd_lock s = 0"
    and "length buf = unat n" "copies lim memcpy_s" "unat n \<le> lim"
  shows "case es of
      (h, True, d) # fs \<Rightarrow>
        if unat n < length d then octf_trace_pop memcpy_s t buf n s = (s, Err ENOSPC)
        else \<exists>s' k. octf_trace_pop memcpy_s t buf n s = (s', Ok (d @ drop (length d) buf, k)) \<and>
          unat k = length d \<and> holds t s' fs \<and> s' = s\<lparr>sh_rd_ptr := sh_rd_ptr s'\<rparr>
    | _ \<Rightarrow> octf_trace_pop memcpy_s t buf n s = (s, Err (no_event s))"
proof -
  let ?s = "s\<lparr>sh_rd_lock := 1\<rparr>"
  have same: "s\<lparr>sh_rd_lock := 0\<rparr> = s" using assms(4) by simp
  have h: "holds t ?s es" by (rule holds_cong [OF assms(1)]) simp_all
  have lock: "try_lock_rd s = Some ?s" using assms(4) by (simp add: try_lock_rd_def)
  show ?thesis
  proof (cases "\<exists>h d fs. es = (h, True, d) # fs")
    case False
    then have "get_rd_hdr t ?s = Rd_None"
      using get_rd_hdr_queue(1) [OF h] by (auto split: list.split bool.split)
    then have "octf_trace_pop memcpy_s t buf n s = (s, Err (no_event s))"
      using assms(2,3) lock same by (simp add: octf_trace_pop_def unlock_rd_def no_event_def)
    then show ?thesis using False by (auto split: list.split bool.split)
  next
    case True
    then obtain hd d fs where es: "es = (hd, True, d) # fs" by blast
    then have h': "holds t ?s ([] @ (hd, True, d) # fs)" using h by simp
    let ?h = "read_hdr hd (sh_bytes s)"
    have rd: "get_rd_hdr t ?s = Rd_Hdr hd" using get_rd_hdr_queue(1) [OF h] es by simp
    have e: "unat (teh_data_size ?h) = length d" "integrity_check t (teh_data_ptr ?h) (ucast (teh_data_size ?h))"
      "read_at (unat (teh_data_ptr ?h)) (length d) (sh_bytes s) = d"
      using holds_entry(3-5) [OF h'] by simp_all
    show ?thesis
    proof (cases "unat n < length d")
      case True
      then have "n < teh_data_size ?h" using e(1) by (simp add: word_less_nat_alt)
      then show ?thesis using True es rd lock assms(2,3) same
        by (simp add: octf_trace_pop_def Let_def unlock_rd_def)
    next
      case False
      then have n: "\<not> n < teh_data_size ?h" using e(1) by (simp add: word_less_nat_alt)
      let ?s' = "unlock_rd (move_rd_ptr t hd ?s)"
      have "memcpy_s buf d = d @ drop (length d) buf"
        using False assms(5-7) by (simp add: copies_def)
      then have "octf_trace_pop memcpy_s t buf n s = (?s', Ok (d @ drop (length d) buf, teh_data_size ?h))"
        using n rd lock assms(2,3) e by (simp add: octf_trace_pop_def Let_def)
      moreover have "holds t ?s' fs"
        by (rule holds_cong [OF holds_move_rd [OF h' [simplified]]]) (simp_all add: unlock_rd_def)
      moreover have "?s' = s\<lparr>sh_rd_ptr := sh_rd_ptr ?s'\<rparr>"
        using assms(4) by (simp add: unlock_rd_def move_rd_ptr_def Let_def)
      ultimately show ?thesis using es False e(1) by auto
    qed
  qed
qed

subsection \<open>Opened rings\<close>

lemma HDR_SIZES: "unat P_HDR_SIZE = 64" "unat C_HDR_SIZE = 4096" "unat (P_HDR_SIZE + C_HDR_SIZE) = 4160"
  by (simp_all add: P_HDR_SIZE_def C_HDR_SIZE_def TRACE_ALIGN_def HDR_SIZE_def)

lemma init_ring_ok:
  assumes "unat n < 4294967296" "32768 \<le> unat n"
  shows "\<exists>t. init_ring mode n hdr = Inr t \<and> th_mode t = mode \<and> ring_ok t \<and>
    rsize t = (unat n - (if hdr then 64 else 4160)) div 16 * 16"
proof -
  let ?n = "if hdr then n - P_HDR_SIZE else n - P_HDR_SIZE - C_HDR_SIZE"
  have le: "P_HDR_SIZE \<le> n" "\<not> n < P_HDR_SIZE + C_HDR_SIZE"
    using assms HDR_SIZES by (simp_all add: word_le_nat_alt word_less_nat_alt)
  have s1: "unat (n - P_HDR_SIZE) = unat n - 64" using unat_sub [OF le(1)] HDR_SIZES(1) by simp
  have s2: "unat (n - P_HDR_SIZE - C_HDR_SIZE) = unat n - 4160"
    using s1 HDR_SIZES assms by (subst unat_sub) (simp_all add: word_le_nat_alt)
  have s: "unat ?n = unat n - (if hdr then 64 else 4160)" using s1 s2 by simp
  have lt: "unat ?n < 4294967296" using s assms(1) by simp
  then have "unat ?n div 16 * 16 < 4294967296" by simp
  then have r: "unat ((?n div HDR_SIZE) * HDR_SIZE) = unat ?n div 16 * 16"
    by (simp add: HDR_SIZE_def unat_word_ariths unat_div)
  have "16 \<le> unat ?n" using s assms(2) by (simp split: if_splits)
  then have "0 < unat ?n div 16" by linarith
  then have "0 < unat ?n div 16 * 16" by simp
  with r lt s le(2) show ?thesis
    by (auto simp: init_ring_def Let_def ring_ok_def rsize_def)
qed

lemma open_ring:
  assumes "octf_trace_open n hdr Producer True s = (s', Ok t)"
  shows "holds t s' []" "is_trace_valid s'" "th_mode t = Producer" "sh_wr_lock s' = 0" "sh_rd_lock s' = 0"
proof -
  have n: "\<not> ucast n < OCTF_TRACE_MIN_BUFFER_SIZE"
    using assms by (auto simp: octf_trace_open_def split: if_splits)
  then have "32768 \<le> unat (ucast n :: u64)"
    by (simp add: OCTF_TRACE_MIN_BUFFER_SIZE_def word_less_nat_alt not_less)
  moreover have "unat (ucast n :: u64) < 4294967296" using unat_u32_less [of n] by simp
  ultimately obtain t' where t': "init_ring Producer (ucast n) hdr = Inr t'" "th_mode t' = Producer" "ring_ok t'"
    using init_ring_ok [of "ucast n" Producer hdr] by blast
  let ?s = "\<lparr>sh_magic = TRACE_MAGIC_BUFFER, sh_version = TRACE_VER, sh_closed = 0,
          sh_wr_ptr = 0, sh_wr_lock = 0, sh_lost = 0, sh_has_chdr = (if hdr then 1 else 0),
          sh_rd_ptr = 0, sh_rd_lock = 0, sh_bytes = (\<lambda>_. 0)\<rparr>"
  have eq: "s' = ?s" "t = t'"
    using assms n t'(1) by (simp_all add: octf_trace_open_def init_producer_def)
  have "queue_at t' ?s 0 0 []" using t'(3) by (simp add: queue_at_def ring_ok_def)
  then show "holds t s' []" unfolding eq holds_def by blast
  show "is_trace_valid s'" "th_mode t = Producer" "sh_wr_lock s' = 0" "sh_rd_lock s' = 0"
    using eq t'(2) by (simp_all add: is_trace_valid_def)
qed

text \<open>A producer and a consumer that open the same memory agree on the ring.\<close>

lemma open_both:
  assumes "octf_trace_open n hdr Producer True s = (s', Ok t)"
  shows "\<exists>t'. octf_trace_open n hdr Consumer True s' = (s', Ok t') \<and> th_mode t' = Consumer \<and> rsize t' = rsize t"
proof -
  have n: "\<not> ucast n < OCTF_TRACE_MIN_BUFFER_SIZE"
    using assms by (auto simp: octf_trace_open_def split: if_splits)
  then have b: "32768 \<le> unat (ucast n :: u64)" "unat (ucast n :: u64) < 4294967296"
    using unat_u32_less [of n]
    by (simp_all add: OCTF_TRACE_MIN_BUFFER_SIZE_def word_less_nat_alt not_less)
  obtain tp where tp: "init_ring Producer (ucast n) hdr = Inr tp"
    "rsize tp = (unat (ucast n :: u64) - (if hdr then 64 else 4160)) div 16 * 16"
    using init_ring_ok [OF b(2,1), of Producer hdr] by blast
  obtain tc where tc: "init_ring Consumer (ucast n) hdr = Inr tc" "th_mode tc = Consumer"
    "rsize tc = (unat (ucast n :: u64) - (if hdr then 64 else 4160)) div 16 * 16"
    using init_ring_ok [OF b(2,1), of Consumer hdr] by blast
  have "t = tp" "sh_has_chdr s' = (if hdr then 1 else 0)"
    using assms n tp(1) by (auto simp: octf_trace_open_def init_producer_def)
  then show ?thesis
    using n tp(2) tc open_ring(2) [OF assms]
    by (simp add: octf_trace_open_def init_consumer_def)
qed

lemma open_sample: "\<exists>s' t. octf_trace_open 32768 False Producer True s = (s', Ok t) \<and> rsize t = 28608"
proof -
  have "\<not> ucast (32768 :: u32) < OCTF_TRACE_MIN_BUFFER_SIZE"
    by (simp add: OCTF_TRACE_MIN_BUFFER_SIZE_def)
  moreover obtain t where "init_ring Producer (ucast (32768 :: u32)) False = Inr t" "rsize t = 28608"
    using init_ring_ok [of "ucast (32768 :: u32)" Producer False] by auto
  ultimately show ?thesis by (simp add: octf_trace_open_def init_producer_def)
qed

subsection \<open>The ring is a first-in first-out queue\<close>

text \<open>
  A writer that pushes whole events and a reader with a buffer of \<open>cap\<close> bytes, as the two sides
  of the contract \<open>fifo\<close>. Events longer than the ring or the limit of \<open>memcpy_s\<close> are not pushed.
\<close>

definition ring_put ::
    "nat \<Rightarrow> (u8 list \<Rightarrow> u8 list \<Rightarrow> u8 list) \<Rightarrow> trace_handle \<Rightarrow> u8 list \<Rightarrow> shared \<Rightarrow> shared \<times> bool" where
  "ring_put lim memcpy_s tp ev s =
     (if length ev + 15 < 4294967296 \<and> length ev \<le> lim
      then let (s', r) = octf_trace_push memcpy_s tp ev (of_nat (length ev)) s in (s', r = Ok ())
      else (s, False))"

definition ring_get ::
    "(u8 list \<Rightarrow> u8 list \<Rightarrow> u8 list) \<Rightarrow> trace_handle \<Rightarrow> u32 \<Rightarrow> shared \<Rightarrow> shared \<times> u8 list option" where
  "ring_get memcpy_s tc cap s =
     (case octf_trace_pop memcpy_s tc (replicate (unat cap) 0) cap s of
        (s', Ok (buf, n)) \<Rightarrow> (s', Some (take (unat n) buf))
      | (s', _) \<Rightarrow> (s', None))"

definition ring_rep ::
    "nat \<Rightarrow> (u8 list \<Rightarrow> u8 list \<Rightarrow> u8 list) \<Rightarrow> trace_handle \<Rightarrow> trace_handle \<Rightarrow> u32 \<Rightarrow> shared \<Rightarrow>
     u8 list list \<Rightarrow> bool" where
  "ring_rep lim memcpy_s tp tc cap s xs \<longleftrightarrow>
     copies lim memcpy_s \<and> unat cap \<le> lim \<and> th_mode tp = Producer \<and> th_mode tc = Consumer \<and>
     rsize tc = rsize tp \<and> is_trace_valid s \<and> sh_wr_lock s = 0 \<and> sh_rd_lock s = 0 \<and>
     (\<exists>es. holds tp s es \<and> map (snd \<circ> snd) es = xs \<and> list_all (fst \<circ> snd) es)"

lemma ring_put_rep:
  assumes "ring_rep lim memcpy_s tp tc cap s xs" "ring_put lim memcpy_s tp ev s = (s', ok)"
  shows "ring_rep lim memcpy_s tp tc cap s' (if ok then xs @ [ev] else xs)"
proof (cases "length ev + 15 < 4294967296 \<and> length ev \<le> lim")
  case False
  then show ?thesis using assms by (auto simp: ring_put_def)
next
  case True
  obtain es where es: "holds tp s es" "map (snd \<circ> snd) es = xs" "list_all (fst \<circ> snd) es"
    using assms(1) by (auto simp: ring_rep_def)
  have n: "unat (of_nat (length ev) :: u32) = length ev" using True by (simp add: unat_of_nat)
  have pre: "is_trace_valid s" "th_mode tp = Producer" "sh_wr_lock s = 0" "copies lim memcpy_s"
    using assms(1) by (simp_all add: ring_rep_def)
  consider (ok) s1 h where "octf_trace_push memcpy_s tp ev (of_nat (length ev)) s = (s1, Ok ())"
      "holds tp s1 (es @ [(h, True, ev)])" "only_ring s s1"
    | (full) "octf_trace_push memcpy_s tp ev (of_nat (length ev)) s = (s\<lparr>sh_lost := sh_lost s + 1\<rparr>, Err ENOSPC)"
    using push_queue [OF es(1) pre(1-3) n _ pre(4), of ] True by blast
  then show ?thesis
  proof cases
    case ok
    then have "s' = s1" "ok" using assms(2) True by (auto simp: ring_put_def)
    moreover have "\<exists>es'. holds tp s1 es' \<and> map (snd \<circ> snd) es' = xs @ [ev] \<and> list_all (fst \<circ> snd) es'"
      using ok(2) es(2,3) by (intro exI [of _ "es @ [(h, True, ev)]"]) simp
    ultimately show ?thesis
      using ok(3) assms(1) by (simp add: ring_rep_def only_ring_def is_trace_valid_def)
  next
    case full
    then have "s' = s\<lparr>sh_lost := sh_lost s + 1\<rparr>" "\<not> ok" using assms(2) True by (auto simp: ring_put_def)
    moreover have "holds tp (s\<lparr>sh_lost := sh_lost s + 1\<rparr>) es" by (rule holds_cong [OF es(1)]) simp_all
    ultimately show ?thesis
      using es(2,3) assms(1) by (auto simp: ring_rep_def is_trace_valid_def)
  qed
qed

lemma ring_get_rep:
  assumes "ring_rep lim memcpy_s tp tc cap s xs" "ring_get memcpy_s tc cap s = (s', r)"
  shows "\<exists>ys. ring_rep lim memcpy_s tp tc cap s' ys \<and> xs = (case r of None \<Rightarrow> ys | Some x \<Rightarrow> x # ys)"
proof -
  obtain es where es: "holds tp s es" "map (snd \<circ> snd) es = xs" "list_all (fst \<circ> snd) es"
    using assms(1) by (auto simp: ring_rep_def)
  have pre: "is_trace_valid s" "th_mode tc = Consumer" "sh_rd_lock s = 0" "copies lim memcpy_s"
    "unat cap \<le> lim" "rsize tc = rsize tp" using assms(1) by (simp_all add: ring_rep_def)
  have len: "length (replicate (unat cap) (0 :: u8)) = unat cap" by simp
  have hc: "holds tc s es" using holds_size [OF es(1)] pre(6) by blast
  note pop = pop_queue [OF hc pre(1-3) len pre(4,5)]
  show ?thesis
  proof (cases es)
    case Nil
    then show ?thesis using pop assms es by (auto simp: ring_get_def)
  next
    case (Cons e fs)
    obtain h b d where e: "e = (h, b, d)" by (cases e)
    then have b: "b" using Cons es(3) by simp
    show ?thesis
    proof (cases "unat cap < length d")
      case True
      then have "s' = s" "r = None" using pop assms(2) Cons e b by (auto simp: ring_get_def)
      then show ?thesis using assms(1) by auto
    next
      case False
      then obtain s1 k where s1: "octf_trace_pop memcpy_s tc (replicate (unat cap) 0) cap s =
          (s1, Ok (d @ drop (length d) (replicate (unat cap) 0), k))" "unat k = length d" "holds tc s1 fs"
        "s1 = s\<lparr>sh_rd_ptr := sh_rd_ptr s1\<rparr>"
        using pop Cons e b by auto
      have "s' = s1" "r = Some d" using assms(2) s1(1,2) by (auto simp: ring_get_def)
      moreover have "holds tp s1 fs" using holds_size [OF s1(3)] pre(6) by simp
      moreover have "is_trace_valid s1" "sh_wr_lock s1 = 0" "sh_rd_lock s1 = 0"
        using assms(1) by (subst s1(4); simp add: ring_rep_def is_trace_valid_def)+
      ultimately have "ring_rep lim memcpy_s tp tc cap s' (map (snd \<circ> snd) fs)"
        using assms(1) es(3) Cons by (auto simp: ring_rep_def)
      then show ?thesis using \<open>r = Some d\<close> es(2) Cons e by auto
    qed
  qed
qed

interpretation ring: fifo "ring_put lim memcpy_s tp" "ring_get memcpy_s tc cap" "ring_rep lim memcpy_s tp tc cap"
  by unfold_locales (rule ring_put_rep ring_get_rep; assumption)+

subsection \<open>Properties\<close>

text \<open>
  Property C14. Pushing an event onto a ring that holds a queue never reaches one of the assertions
  and never invalidates the ring: either the event is appended to the queue, committed, with
  its data, and nothing else of the headers changes but the write pointer, or the event is
  refused for lack of space, counted as lost, and the queue stays; an empty ring never refuses
  an event of up to about half its size.
\<close>

theorem push_appends:
  assumes "holds t s es" "is_trace_valid s" "th_mode t = Producer" "sh_wr_lock s = 0"
    and "unat n = length ev" "length ev + 15 < 2 ^ 32" "copies lim memcpy_s" "length ev \<le> lim"
  shows "(\<exists>s' h. octf_trace_push memcpy_s t ev n s = (s', Ok ()) \<and> holds t s' (es @ [(h, True, ev)]) \<and>
      only_ring s s') \<or>
    octf_trace_push memcpy_s t ev n s = (s\<lparr>sh_lost := sh_lost s + 1\<rparr>, Err ENOSPC) \<and>
      \<not> (es = [] \<and> 2 * align (length ev) + 17 \<le> rsize t)"
proof -
  have "length ev + 15 < 4294967296" using assms(6) by simp
  from push_queue [OF assms(1-5) this assms(7,8)] show ?thesis by (simp add: fits_def)
qed

definition plain_copy :: "u8 list \<Rightarrow> u8 list \<Rightarrow> u8 list" where
  "plain_copy dest src = src @ drop (length src) dest"

lemma plain_copy_copies: "copies lim plain_copy"
  by (simp add: copies_def plain_copy_def)

theorem push_appends_witness:
  "\<exists>s t s' h. octf_trace_push plain_copy t [1, 2, 3] 3 s = (s', Ok ()) \<and> holds t s' [(h, True, [1, 2, 3])]"
proof -
  obtain s t where o: "octf_trace_open 32768 False Producer True undefined = (s, Ok t)" "rsize t = 28608"
    using open_sample by blast
  note r = open_ring [OF o(1)]
  have "align (length [1 :: u8, 2, 3]) = 16" by (simp add: align_def)
  with push_appends [OF r(1-4), of 3 "[1, 2, 3]" 3 plain_copy] o(2) plain_copy_copies show ?thesis by auto
qed

text \<open>
  Popping from a ring that holds a queue gives back the oldest event, whole, and removes
  exactly that event; when the oldest event is not committed yet, or there is none, it answers
  that there is nothing to read, without looking further; and when the caller's buffer is too
  small the event stays.
\<close>

theorem pop_takes_oldest:
  assumes "holds t s es" "is_trace_valid s" "th_mode t = Consumer" "sh_rd_lock s = 0"
    and "length buf = unat n" "copies lim memcpy_s" "unat n \<le> lim"
  shows "case es of
      (h, True, d) # fs \<Rightarrow>
        if unat n < length d then octf_trace_pop memcpy_s t buf n s = (s, Err ENOSPC)
        else \<exists>s' k. octf_trace_pop memcpy_s t buf n s = (s', Ok (d @ drop (length d) buf, k)) \<and>
          unat k = length d \<and> holds t s' fs \<and> s' = s\<lparr>sh_rd_ptr := sh_rd_ptr s'\<rparr>
    | _ \<Rightarrow> octf_trace_pop memcpy_s t buf n s = (s, Err (if sh_closed s \<noteq> 0 then EBADF else EAGAIN))"
  by (rule pop_queue [OF assms, unfolded no_event_def])

theorem pop_takes_oldest_witness:
  "\<exists>s t s' k. holds t s [] \<and> octf_trace_pop plain_copy t [0, 0] 2 s = (s, Err EAGAIN)"
proof -
  obtain s t where o: "octf_trace_open 32768 False Producer True undefined = (s, Ok t)"
    using open_sample by blast
  obtain tc where tc: "th_mode tc = Consumer" "rsize tc = rsize t" using open_both [OF o] by blast
  note r = open_ring [OF o]
  have "sh_closed s = 0"
    using o by (auto simp: octf_trace_open_def init_producer_def split: if_splits sum.splits)
  with pop_takes_oldest [OF holds_size [OF r(1) tc(2)] r(2) tc(1) r(5), of "[0, 0]" 2 2 plain_copy]
  show ?thesis using plain_copy_copies holds_size [OF r(1) tc(2)] by auto
qed

text \<open>
  Property C15. First in, first out: however pushes and pops interleave on an opened ring, around the
  end of the buffer any number of times, the events delivered are, byte for byte, a prefix of
  the events accepted, in the order they were accepted.
\<close>

theorem ring_is_fifo:
  assumes "octf_trace_open n hdr Producer True s0 = (s, Ok tp)"
    and "octf_trace_open n hdr Consumer True s = (s, Ok tc)"
    and "copies lim memcpy_s" "unat cap \<le> lim"
    and "fifo_run (ring_put lim memcpy_s tp) (ring_get memcpy_s tc cap) ops s = (s', accepted, delivered)"
  shows "\<exists>rest. accepted = delivered @ rest"
proof -
  note r = open_ring [OF assms(1)]
  have tc: "th_mode tc = Consumer" "rsize tc = rsize tp" using open_both [OF assms(1)] assms(2) by auto
  have "ring_rep lim memcpy_s tp tc cap s []"
    using r tc assms(3,4) by (auto simp: ring_rep_def intro!: exI [of _ "[]"])
  then show ?thesis by (rule ring.delivered_in_order) (rule assms(5))
qed

theorem ring_is_fifo_witness:
  "\<exists>s tp tc s' accepted delivered rest.
     octf_trace_open 32768 False Producer True undefined = (s, Ok tp) \<and>
     fifo_run (ring_put 100 plain_copy tp) (ring_get plain_copy tc 8) [Put [1, 2, 3], Take] s =
       (s', accepted, delivered) \<and> accepted = delivered @ rest"
proof -
  obtain s tp where o: "octf_trace_open 32768 False Producer True undefined = (s, Ok tp)"
    using open_sample by blast
  obtain tc where tc: "octf_trace_open 32768 False Consumer True s = (s, Ok tc)"
    using open_both [OF o] by blast
  obtain s' accepted delivered where run: "fifo_run (ring_put 100 plain_copy tp) (ring_get plain_copy tc 8)
      [Put [1, 2, 3], Take] s = (s', accepted, delivered)"
    by (metis prod_cases3)
  have "unat (8 :: u32) \<le> 100" by simp
  from ring_is_fifo [OF o tc plain_copy_copies this run] o run show ?thesis by blast
qed

text \<open>
  Writing in place: getting a write buffer reserves the next place in the queue, with an
  uncommitted entry of the asked size; whatever its owner writes into the buffer, and whatever
  entries come before and after it, committing publishes exactly those bytes at that place and
  changes no other entry.
\<close>

theorem write_buffer_publishes:
  assumes "holds t s (es @ (h, False, x) # fs)" "is_trace_valid s" "th_mode t = Producer"
    and "length d = length x"
  shows "octf_trace_commit_wr_buffer t h (client_write (teh_data_ptr (read_hdr h (sh_bytes s))) d s) =
      (s\<lparr>sh_bytes := set_ready h True (write_at (unat (teh_data_ptr (read_hdr h (sh_bytes s)))) d (sh_bytes s))\<rparr>,
       Ok ()) \<and>
    holds t (s\<lparr>sh_bytes := set_ready h True (write_at (unat (teh_data_ptr (read_hdr h (sh_bytes s)))) d (sh_bytes s))\<rparr>)
      (es @ (h, True, d) # fs)"
proof -
  let ?p = "teh_data_ptr (read_hdr h (sh_bytes s))"
  let ?s = "client_write ?p d s"
  have h: "holds t ?s (es @ (h, False, d) # fs)" by (rule holds_write [OF assms(1,4)])
  have "octf_trace_commit_wr_buffer t h ?s = (?s\<lparr>sh_bytes := set_ready h True (sh_bytes ?s)\<rparr>, Ok ())"
    using holds_entry(4) [OF h] assms(2,3)
    by (simp add: octf_trace_commit_wr_buffer_def Let_def is_trace_valid_def client_write_def)
  with holds_set_ready [OF h, of True] show ?thesis by (simp add: client_write_def)
qed

theorem write_buffer_publishes_witness:
  "\<exists>s t s' h p. octf_trace_get_wr_buffer t 3 s = (s', Ok (h, p)) \<and>
     (\<exists>s''. octf_trace_commit_wr_buffer t h (client_write p [7, 8, 9] s') = (s'', Ok ()) \<and>
        holds t s'' [(h, True, [7, 8, 9])])"
proof -
  obtain s t where o: "octf_trace_open 32768 False Producer True undefined = (s, Ok t)" "rsize t = 28608"
    using open_sample by blast
  note r = open_ring [OF o(1)]
  have "align 3 = 16" by (simp add: align_def)
  then have "fits (rsize t) (unat (3 :: u32))" using o(2) by (simp add: fits_def)
  then obtain s' h x where s': "begin_write t 3 s = (s', Ok h)" "holds t s' [(h, False, x)]"
    "length x = unat (3 :: u32)" "only_ring s s'"
    using begin_write_queue [OF r(1-4), of 3] by auto
  let ?p = "teh_data_ptr (read_hdr h (sh_bytes s'))"
  have v: "is_trace_valid s'" using r(2) s'(4) by (simp add: is_trace_valid_def only_ring_def)
  have "holds t s' ([] @ (h, False, x) # [])" using s'(2) by simp
  from write_buffer_publishes [OF this v r(3), of "[7, 8, 9]"] s'(3)
  have "\<exists>s''. octf_trace_commit_wr_buffer t h (client_write ?p [7, 8, 9] s') = (s'', Ok ()) \<and>
        holds t s'' [(h, True, [7, 8, 9])]" by auto
  moreover have "octf_trace_get_wr_buffer t 3 s = (s', Ok (h, ?p))"
    using s'(1) by (simp add: octf_trace_get_wr_buffer_def)
  ultimately show ?thesis by blast
qed

text \<open>The oldest event read in place and released.\<close>

lemma rd_cycle:
  assumes "holds t s ((h, True, d) # fs)" "is_trace_valid s" "th_mode t = Consumer" "sh_rd_lock s = 0"
  obtains p k s'' where "octf_trace_get_rd_buffer t s = (s\<lparr>sh_rd_lock := 1\<rparr>, Ok (h, p, k))"
    "unat k = length d" "read_at (unat p) (length d) (sh_bytes s) = d"
    "octf_trace_release_rd_buffer t h (s\<lparr>sh_rd_lock := 1\<rparr>) = (s'', Ok ())" "holds t s'' fs"
    "sh_rd_lock s'' = 0" "is_trace_valid s''" "sh_wr_lock s'' = sh_wr_lock s"
proof
  let ?s = "s\<lparr>sh_rd_lock := 1\<rparr>" and ?h = "read_hdr h (sh_bytes s)"
  let ?s'' = "unlock_rd (move_rd_ptr t h ?s)"
  have h: "holds t ?s ([] @ (h, True, d) # fs)" using holds_cong [OF assms(1), of ?s] by simp
  note e = holds_entry [OF h]
  have "get_rd_hdr t ?s = Rd_Hdr h" using get_rd_hdr_queue(1) [OF h] by simp
  then show "octf_trace_get_rd_buffer t s = (?s, Ok (h, teh_data_ptr ?h, teh_data_size ?h))"
    using assms(2-4) e(4) by (simp add: octf_trace_get_rd_buffer_def try_lock_rd_def Let_def)
  show "octf_trace_release_rd_buffer t h ?s = (?s'', Ok ())"
    using assms(2,3) e(4) by (simp add: octf_trace_release_rd_buffer_def Let_def is_trace_valid_def)
  show "holds t ?s'' fs"
    by (rule holds_cong [OF holds_move_rd [OF h [simplified]]]) (simp_all add: unlock_rd_def)
  show "unat (teh_data_size ?h) = length d" "read_at (unat (teh_data_ptr ?h)) (length d) (sh_bytes s) = d"
    using e(3,5) by simp_all
  show "sh_rd_lock ?s'' = 0" "is_trace_valid ?s''" "sh_wr_lock ?s'' = sh_wr_lock s"
    using assms(2) by (simp_all add: unlock_rd_def move_rd_ptr_def is_trace_valid_def Let_def)
qed

lemma chain_less: "chain R m v w (e # es) \<Longrightarrow> v < w"
  by (auto dest!: entry_at_less chain_le)

lemma is_empty_queue:
  assumes "holds t s es"
  shows "is_empty (sh_rd_ptr s) (sh_wr_ptr s) \<longleftrightarrow> es = []"
proof -
  obtain va vb where q: "unat (sh_rd_ptr s) = va mod rsize t" "unat (sh_wr_ptr s) = vb mod rsize t"
      "chain (rsize t) (sh_bytes s) va vb es" "vb < va + rsize t"
    using assms by (auto simp: holds_def queue_at_def)
  show ?thesis
  proof (cases es)
    case Nil
    then show ?thesis using q by (simp add: is_empty_def word_unat_eq_iff)
  next
    case (Cons e fs)
    have lt: "va < vb" using chain_less q(3) unfolding Cons by blast
    have "va mod rsize t \<noteq> vb mod rsize t"
    proof
      assume "va mod rsize t = vb mod rsize t"
      then have "rsize t dvd vb - va" using lt by (metis mod_eq_dvd_iff_nat less_imp_le)
      then have "rsize t \<le> vb - va" using lt by (intro dvd_imp_le) simp_all
      with q(4) lt show False by linarith
    qed
    then show ?thesis using q Cons by (auto simp: is_empty_def)
  qed
qed

text \<open>
  Reading in place: a read buffer shows the oldest event and locks the reading side, so
  that no other reader gets an event; only releasing it removes that event, and then no other.
\<close>

theorem read_buffer_is_exclusive:
  assumes "holds t s ((h, True, d) # fs)" "is_trace_valid s" "th_mode t = Consumer" "sh_rd_lock s = 0"
  shows "\<exists>s' p k. octf_trace_get_rd_buffer t s = (s', Ok (h, p, k)) \<and> unat k = length d \<and>
    read_at (unat p) (length d) (sh_bytes s') = d \<and> holds t s' ((h, True, d) # fs) \<and>
    octf_trace_get_rd_buffer t s' = (s', Err EBUSY) \<and>
    octf_trace_pop memcpy_s t buf n s' = (s', Err EBUSY) \<and>
    (\<exists>s''. octf_trace_release_rd_buffer t h s' = (s'', Ok ()) \<and> holds t s'' fs \<and> sh_rd_lock s'' = 0)"
proof -
  obtain p k s'' where c: "octf_trace_get_rd_buffer t s = (s\<lparr>sh_rd_lock := 1\<rparr>, Ok (h, p, k))"
      "unat k = length d" "read_at (unat p) (length d) (sh_bytes s) = d"
      "octf_trace_release_rd_buffer t h (s\<lparr>sh_rd_lock := 1\<rparr>) = (s'', Ok ())" "holds t s'' fs"
      "sh_rd_lock s'' = 0"
    using rd_cycle [OF assms] by blast
  moreover have "holds t (s\<lparr>sh_rd_lock := 1\<rparr>) ((h, True, d) # fs)"
    using holds_cong [OF assms(1)] by simp
  moreover have "octf_trace_get_rd_buffer t (s\<lparr>sh_rd_lock := 1\<rparr>) = (s\<lparr>sh_rd_lock := 1\<rparr>, Err EBUSY)"
    "octf_trace_pop memcpy_s t buf n (s\<lparr>sh_rd_lock := 1\<rparr>) = (s\<lparr>sh_rd_lock := 1\<rparr>, Err EBUSY)"
    using assms(2,3) by (simp_all add: octf_trace_get_rd_buffer_def octf_trace_pop_def
        try_lock_rd_def is_trace_valid_def)
  ultimately show ?thesis by auto
qed

theorem read_buffer_is_exclusive_witness:
  "\<exists>s t h s' p k. octf_trace_get_rd_buffer t s = (s', Ok (h, p, k)) \<and> unat k = 3 \<and>
     octf_trace_get_rd_buffer t s' = (s', Err EBUSY)"
proof -
  obtain s t where o: "octf_trace_open 32768 False Producer True undefined = (s, Ok t)" "rsize t = 28608"
    using open_sample by blast
  obtain tc where tc: "th_mode tc = Consumer" "rsize tc = rsize t" using open_both [OF o(1)] by blast
  note r = open_ring [OF o(1)]
  have "fits (rsize t) (length [1 :: u8, 2, 3])" using o(2) by (simp add: fits_def align_def)
  then obtain s1 h where s1: "holds t s1 [(h, True, [1, 2, 3])]" "only_ring s s1"
    using push_queue [OF r(1-4), of 3 "[1, 2, 3]" 3 plain_copy] plain_copy_copies by auto
  have v: "is_trace_valid s1" "sh_rd_lock s1 = 0"
    using r(2,5) s1(2) by (simp_all add: is_trace_valid_def only_ring_def)
  obtain s' p k where "octf_trace_get_rd_buffer tc s1 = (s', Ok (h, p, k))"
    "unat k = length [1 :: u8, 2, 3]" "octf_trace_get_rd_buffer tc s' = (s', Err EBUSY)"
    using read_buffer_is_exclusive [OF holds_size [OF s1(1) tc(2)] v(1) tc(1) v(2)] by blast
  moreover have "length [1 :: u8, 2, 3] = 3" by simp
  ultimately show ?thesis by metis
qed

text \<open>
  An event whose size is within 15 bytes of 4 GiB is not refused like other events that
  are too big: its aligned size wraps to 0 in 32 bits, so a place is allocated for it, the check
  of the data position then fails, an assertion is reached, and the ring is invalidated for
  good, for the producer and the consumer.
\<close>

theorem oversized_push_invalidates:
  assumes "holds t s []" "is_trace_valid s" "th_mode t = Producer" "sh_wr_lock s = 0"
    and "2 ^ 32 \<le> unat n + 15" "32 < rsize t"
  shows "\<exists>s'. octf_trace_push memcpy_s t ev n s = (s', Bug EINVAL) \<and> \<not> is_trace_valid s' \<and>
    octf_trace_push memcpy_s t ev' n' s' = (s', Err EINVAL)"
proof -
  let ?R = "rsize t" and ?s = "s\<lparr>sh_wr_lock := 1\<rparr>"
  let ?rd = "sh_rd_ptr s" and ?wr = "sh_wr_ptr s"
  define asize where "asize = (ucast (TRACE_ALIGN (ucast n)) :: u32)"
  have "align (unat n) = 4294967296"
    using assms(5) unat_u32_less [of n] by (simp add: align_def)
  then have "TRACE_ALIGN (ucast n) = 4294967296"
    using unat_TRACE_ALIGN [of n] by (simp add: word_unat_eq_iff)
  then have a: "asize = 0" by (simp add: asize_def)
  obtain va where q: "queue_at t s va va []" using assms(1) by (auto simp: holds_def queue_at_def)
  have R: "?R < 4294967296" "16 dvd ?R" using q by (simp_all add: queue_at_def ring_ok_def)
  have eq: "?rd = ?wr" and wr: "unat ?wr < ?R" "16 dvd unat ?wr"
    using q assms(6) dvd_mod16 [OF R(2), of va] by (auto simp: queue_at_def word_unat_eq_iff)
  obtain i j where ij: "unat ?wr = 16 * i" "?R = 16 * j" using wr(2) R(2) by (auto simp: dvd_def)
  have room: "unat ?wr + 16 \<le> ?R" using ij wr(1) by simp
  have lt: "\<not> ?wr \<ge> th_ring_size t" using wr(1) by (simp add: word_le_nat_alt rsize_def)
  define c where "c = (if ?rd = 0 then th_ring_size t - ?wr - 1 else th_ring_size t - ?wr)"
  have c: "get_continuous_space t ?rd ?wr ?s = (?s, c)"
    using lt eq by (simp add: get_continuous_space_def c_def)
  have c16: "\<not> HDR_SIZE > c"
  proof (cases "?rd = 0")
    case True
    then have "unat c = ?R - 1"
      using eq assms(6) by (simp add: c_def rsize_def unat_sub word_le_nat_alt)
    then show ?thesis using assms(6) by (simp add: HDR_SIZE_def word_less_nat_alt)
  next
    case False
    then have "unat c = ?R - unat ?wr"
      using lt by (simp add: c_def rsize_def unat_sub)
    then show ?thesis using room by (simp add: HDR_SIZE_def word_less_nat_alt)
  qed
  have nobug: "\<not> ?wr + HDR_SIZE > th_ring_size t"
    using room R unat_add_small [of ?wr HDR_SIZE] by (simp add: HDR_SIZE_def word_less_nat_alt rsize_def)
  let ?wh = "move_ptr t ?wr HDR_SIZE"
  have wh: "unat ?wh < ?R"
    using room R assms(6) by (subst unat_move_ptr) (simp_all add: HDR_SIZE_def)
  then have whR: "\<not> ?wh \<ge> th_ring_size t" by (simp add: word_le_nat_alt rsize_def)
  have c2: "fst (get_continuous_space t ?rd ?wh ?s) = ?s"
    using whR lt eq by (simp add: get_continuous_space_def)
  let ?m = "set_data_size ?wr n (set_data_ptr ?wr ?wh (set_ready ?wr False (sh_bytes s)))"
  let ?s1 = "?s\<lparr>sh_bytes := ?m, sh_wr_ptr := move_ptr t ?wh 0\<rparr>"
  have "allocate_locked t n ?s = place_event t ?wr ?wh asize n ?s"
    using c c16 nobug c2 a unfolding allocate_locked_def Let_def asize_def
    by (simp add: case_prod_unfold)
  also have "\<dots> = (?s1, Allocated ?wr)" using whR a by (simp add: place_event_def)
  finally have alloc: "allocate_event t n s = (unlock_wr ?s1, Allocated ?wr)"
    using try_lock_free [OF assms(4)] by (simp add: allocate_event_def)
  have "unat n + 15 \<ge> 4294967296" using assms(5) by simp
  then have "\<not> integrity_check t ?wh (ucast n)"
    using wh R(1) ij(2) unat_u32_less [of n] by (subst integrity_check_iff) simp_all
  then have "begin_write t n s = ((unlock_wr ?s1)\<lparr>sh_magic := 0\<rparr>, Bug EINVAL)"
    using alloc assms(2,3) by (simp add: begin_write_def Let_def unlock_wr_def ring_bytes)
  then have "octf_trace_push memcpy_s t ev n s = ((unlock_wr ?s1)\<lparr>sh_magic := 0\<rparr>, Bug EINVAL)"
    by (simp add: octf_trace_push_def)
  moreover have "\<not> is_trace_valid ((unlock_wr ?s1)\<lparr>sh_magic := 0\<rparr>)"
    by (simp add: is_trace_valid_def TRACE_MAGIC_BUFFER_def TRACE_MAGIC_def)
  ultimately show ?thesis by (auto simp: octf_trace_push_def begin_write_def)
qed

theorem oversized_push_invalidates_witness:
  "\<exists>s t s'. octf_trace_push plain_copy t [] 0xFFFFFFFF s = (s', Bug EINVAL) \<and> \<not> is_trace_valid s'"
proof -
  obtain s t where o: "octf_trace_open 32768 False Producer True undefined = (s, Ok t)" "rsize t = 28608"
    using open_sample by blast
  note r = open_ring [OF o(1)]
  have "32 < rsize t" "2 ^ 32 \<le> unat (0xFFFFFFFF :: u32) + 15" using o(2) by simp_all
  from oversized_push_invalidates [OF r(1-4) this(2,1)] show ?thesis by blast
qed

end
