(* ===== verification/Varint.thy ===== *)
theory Varint
  imports Octf_Prelude
begin

section \<open>Variable-length integers\<close>

text \<open>
  \<open>encodeVarint32\<close> and \<open>decodeVarint32\<close> of source/octf/utils/ProtoConverter.cpp: seven bits per
  byte, the lowest first, with the top bit set on all bytes but the last. Both return the number
  of bytes, or 0 when the buffer is too small. The value is kept as its 32 bits; \<open>int\<close> and
  \<open>unsigned int\<close> are two readings of them.

  The encoder is the list of bytes it writes and the number it returns. In the decoder the left
  shift of the fifth byte keeps the bits that fit 32, as the compilers in use do.
\<close>

definition MAX_VARINT32_BYTES :: nat where "MAX_VARINT32_BYTES = 5"

function encode_loop :: "nat \<Rightarrow> u32 \<Rightarrow> u8 list \<times> bool" where
  "encode_loop sz v =
     (if sz = 0 then ([], False)
      else let byte = ucast (and v 0x7F); v' = drop_bit 7 v
           in if v' \<noteq> 0
              then let (bs, ok) = encode_loop (sz - 1) v' in (or byte 0x80 # bs, ok)
              else ([byte], True))"
  by pat_completeness auto

termination
  by (relation "measure fst") auto

declare encode_loop.simps [simp del]

definition encodeVarint32 :: "nat \<Rightarrow> u32 \<Rightarrow> u8 list \<times> nat" where
  "encodeVarint32 sz v =
     (if v < 0x80 then if sz \<noteq> 0 then ([ucast v], 1) else ([], 0)
      else let (bs, ok) = encode_loop sz v in (bs, if ok then length bs else 0))"

text \<open>The loop of the decoder at byte \<open>i\<close> with the bits gathered so far.\<close>

function decode_loop :: "nat \<Rightarrow> u8 list \<Rightarrow> u32 \<Rightarrow> (u32 \<times> nat) option" where
  "decode_loop i bs acc =
     (if i < MAX_VARINT32_BYTES then
        (case bs of
           [] \<Rightarrow> None
         | b # bs' \<Rightarrow>
             let acc' = or acc (push_bit (i * 7) (ucast (and b 0x7F)))
             in if b < 0x80 then Some (acc', i + 1) else decode_loop (i + 1) bs' acc')
      else None)"
  by pat_completeness auto

termination
  by (relation "measure (\<lambda>(i, _). MAX_VARINT32_BYTES - i)") auto

declare decode_loop.simps [simp del]

text \<open>The value, when there is one, and the number of bytes.\<close>

definition decodeVarint32 :: "u8 list \<Rightarrow> u32 option \<times> nat" where
  "decodeVarint32 bs =
     (case bs of
        [] \<Rightarrow> (None, 0)
      | b # _ \<Rightarrow>
          if b < 0x80 then (Some (ucast b), 1)
          else case decode_loop 0 bs 0 of None \<Rightarrow> (None, 0) | Some (v, n) \<Rightarrow> (Some v, n))"

subsection \<open>Groups of seven bits\<close>

lemma and_7F: "and (x :: 'a::len word) 0x7F = take_bit 7 x"
  by (simp add: take_bit_eq_mask mask_eq_exp_minus_1)

lemma bit_0x80: "bit (0x80 :: u8) n \<longleftrightarrow> n = 7"
proof -
  have e: "(0x80 :: u8) = push_bit 7 1" by (simp add: push_bit_eq_mult)
  show ?thesis unfolding e by (simp only: bit_push_bit_iff bit_1_iff) auto
qed

lemma less_0x80_iff: "(b :: u8) < 0x80 \<longleftrightarrow> \<not> bit b 7"
proof -
  have "unat b < 256" using unsigned_less [of b] by simp
  have "bit b 7 \<longleftrightarrow> bit (unat b) 7" by (simp add: bit_unsigned_iff)
  also have "\<dots> \<longleftrightarrow> odd (unat b div 128)" by (simp add: bit_iff_odd)
  also have "\<dots> \<longleftrightarrow> unat b div 128 \<noteq> 0"
  proof -
    have "unat b div 128 < 2" using \<open>unat b < 256\<close> by (simp add: less_mult_imp_div_less)
    then show ?thesis by (auto simp: less_2_cases_iff)
  qed
  also have "\<dots> \<longleftrightarrow> 128 \<le> unat b" by (simp add: div_eq_0_iff not_less)
  finally show ?thesis by (simp add: word_less_nat_alt not_le)
qed

lemma low_byte: "ucast (and (v :: u32) 0x7F) < (0x80 :: u8)"
  unfolding less_0x80_iff and_7F by (simp add: bit_ucast_iff bit_take_bit_iff)

lemma high_byte: "\<not> or (b :: u8) 0x80 < 0x80"
  unfolding less_0x80_iff by (simp add: bit_or_iff bit_0x80)

lemma group_low: "ucast (and (ucast (and (v :: u32) 0x7F) :: u8) 0x7F) = take_bit 7 v"
  unfolding and_7F by (rule bit_word_eqI) (auto simp: bit_ucast_iff bit_take_bit_iff)

lemma group_high: "ucast (and (or (ucast (and (v :: u32) 0x7F) :: u8) 0x80) 0x7F) = take_bit 7 v"
  unfolding and_7F
  by (rule bit_word_eqI) (auto simp: bit_ucast_iff bit_take_bit_iff bit_or_iff bit_0x80)

lemma gather:
  "or (take_bit (i * 7) (v :: u32)) (push_bit (i * 7) (take_bit 7 (drop_bit (i * 7) v))) =
     take_bit (Suc i * 7) v"
  by (rule bit_word_eqI) (auto simp: bit_or_iff bit_take_bit_iff bit_push_bit_iff bit_drop_bit_eq)

text \<open>Decoding the encoding of the bits from \<open>7 * i\<close> on, with the bits below gathered.\<close>

lemma decode_encode_loop:
  assumes "encode_loop sz (drop_bit (i * 7) v) = (bs, True)" "i + length bs \<le> MAX_VARINT32_BYTES"
  shows "decode_loop i (bs @ rest) (take_bit (i * 7) v) = Some (v, i + length bs)"
  using assms
proof (induction sz arbitrary: i bs)
  case 0
  then show ?case by (simp add: encode_loop.simps)
next
  case (Suc sz)
  let ?w = "drop_bit (i * 7) v"
  have nxt: "drop_bit 7 ?w = drop_bit (Suc i * 7) v" by (simp add: drop_bit_drop_bit algebra_simps)
  show ?case
  proof (cases "drop_bit 7 ?w = 0")
    case True
    then have bs: "bs = [ucast (and ?w 0x7F)]"
      using Suc.prems(1) by (simp add: encode_loop.simps)
    have all: "take_bit (Suc i * 7) v = v"
    proof (rule bit_word_eqI)
      fix n
      have "\<not> bit (drop_bit (Suc i * 7) v) (n - Suc i * 7)" using True nxt by simp
      then have "Suc i * 7 \<le> n \<Longrightarrow> \<not> bit v n" by (simp add: bit_drop_bit_eq)
      then show "bit (take_bit (Suc i * 7) v) n \<longleftrightarrow> bit v n"
        by (meson bit_take_bit_iff not_less)
    qed
    have i: "i < MAX_VARINT32_BYTES" using Suc.prems(2) bs by simp
    have "or (take_bit (i * 7) v) (push_bit (i * 7) (ucast (and (ucast (and ?w 0x7F) :: u8) 0x7F))) = v"
      using gather [of i v] all by (simp only: group_low)
    then show ?thesis using i bs low_byte [of ?w] by (simp add: decode_loop.simps Let_def)
  next
    case False
    obtain bs' ok where rec: "encode_loop sz (drop_bit 7 ?w) = (bs', ok)" by force
    then have bs: "bs = or (ucast (and ?w 0x7F)) 0x80 # bs'" "ok"
      using Suc.prems(1) False by (auto simp: encode_loop.simps [of "Suc sz"] Let_def)
    have i: "i < MAX_VARINT32_BYTES" using Suc.prems(2) bs by simp
    have acc: "or (take_bit (i * 7) v) (push_bit (i * 7) (ucast (and (or (ucast (and ?w 0x7F) :: u8) 0x80) 0x7F)))
        = take_bit (Suc i * 7) v"
      using gather [of i v] by (simp only: group_high)
    have "decode_loop (Suc i) (bs' @ rest) (take_bit (Suc i * 7) v) = Some (v, Suc i + length bs')"
      by (rule Suc.IH) (use rec bs Suc.prems(2) nxt in simp_all)
    with i bs acc high_byte [of "ucast (and ?w 0x7F)"] show ?thesis
      by (simp add: decode_loop.simps [of i] Let_def)
  qed
qed

text \<open>Five bytes are enough for any value.\<close>

lemma encode_loop_fits:
  assumes "0 < n" "unat v < 2 ^ (7 * n)"
  shows "\<exists>bs. encode_loop n v = (bs, True) \<and> bs \<noteq> [] \<and> length bs \<le> n"
  using assms
proof (induction n arbitrary: v)
  case (Suc n)
  show ?case
  proof (cases "drop_bit 7 v = 0")
    case True
    then show ?thesis by (simp add: encode_loop.simps)
  next
    case False
    have d: "unat (drop_bit 7 v) = unat v div 128"
      by (simp add: drop_bit_eq_div unat_div)
    have "n \<noteq> 0"
    proof
      assume "n = 0"
      then have "unat v < 128" using Suc.prems(2) by simp
      with d have "unat (drop_bit 7 v) = 0" by simp
      with False show False by (simp add: unat_eq_zero)
    qed
    moreover have "unat v < 128 * 2 ^ (7 * n)" using Suc.prems(2) by (simp add: power_add)
    then have "unat (drop_bit 7 v) < 2 ^ (7 * n)" using d by (simp add: less_mult_imp_div_less mult.commute)
    ultimately obtain bs where "encode_loop n (drop_bit 7 v) = (bs, True)" "length bs \<le> n"
      using Suc.IH by blast
    then show ?thesis using False by (simp add: encode_loop.simps [of "Suc n"] Let_def)
  qed
qed simp

lemma encode_fits:
  "\<exists>bs. encodeVarint32 MAX_VARINT32_BYTES v = (bs, length bs) \<and> 0 < length bs \<and> length bs \<le> MAX_VARINT32_BYTES"
proof -
  have "unat v < 2 ^ 32" using unsigned_less [of v] by simp
  also have "(2 :: nat) ^ 32 \<le> 2 ^ (7 * 5)" by simp
  finally have "\<exists>bs. encode_loop 5 v = (bs, True) \<and> bs \<noteq> [] \<and> length bs \<le> 5"
    by (intro encode_loop_fits) simp_all
  then show ?thesis by (auto simp: encodeVarint32_def MAX_VARINT32_BYTES_def)
qed

lemma decode_encode:
  assumes "encodeVarint32 sz v = (bs, n)" "0 < n" "n \<le> MAX_VARINT32_BYTES"
  shows "n = length bs \<and> n \<le> sz \<and> decodeVarint32 (bs @ rest) = (Some v, n)"
proof (cases "v < 0x80")
  case True
  have "unat v < 128" using True by (simp add: word_less_nat_alt)
  then have "take_bit 8 (unat v) = unat v" by (simp add: take_bit_nat_eq_self)
  then have low: "unat (ucast v :: u8) = unat v" by (simp add: unsigned_ucast_eq unsigned_take_bit_eq)
  then have "ucast v < (0x80 :: u8)" using \<open>unat v < 128\<close> by (simp add: word_less_nat_alt)
  moreover have "ucast (ucast v :: u8) = v"
  proof (rule word_unat_eq_iff [THEN iffD2])
    show "unat (ucast (ucast v :: u8) :: u32) = unat v"
      using low by (metis unsigned_ucast_eq unsigned_take_bit_eq take_bit_nat_eq_self unsigned_less
          less_le_trans power_increasing_iff)
  qed
  ultimately show ?thesis using assms True by (auto simp: encodeVarint32_def decodeVarint32_def split: if_splits)
next
  case False
  obtain ok where e: "encode_loop sz v = (bs, ok)" "n = (if ok then length bs else 0)"
    using assms(1) False by (auto simp: encodeVarint32_def split: prod.splits)
  then have ok: "ok" "n = length bs" using assms(2) by (auto split: if_splits)
  have len: "encode_loop sz v = (bs, b) \<Longrightarrow> length bs \<le> sz" for sz v bs b
  proof (induction sz arbitrary: v bs b)
    case (Suc sz)
    then show ?case
      by (cases "drop_bit 7 v = 0")
        (auto simp: encode_loop.simps [of "Suc sz"] Let_def split: prod.splits)
  qed (simp add: encode_loop.simps)
  have "decode_loop 0 (bs @ rest) 0 = Some (v, length bs)"
    using decode_encode_loop [of sz 0 v bs rest] e(1) ok assms(3) by simp
  moreover obtain b bs' where bs: "bs = b # bs'" using assms(2) ok(2) by (cases bs) auto
  moreover have "\<not> b < 0x80"
  proof -
    have "unat v div 128 \<noteq> 0" using False by (simp add: word_less_nat_alt not_less div_eq_0_iff)
    then have "unat (drop_bit 7 v) \<noteq> 0" by (simp add: drop_bit_eq_div unat_div)
    then have nz: "drop_bit 7 v \<noteq> 0" by auto
    have "encode_loop 0 v = ([], False)" by (simp add: encode_loop.simps)
    then have "sz \<noteq> 0" using e(1) bs by (cases "sz = 0") simp_all
    with e(1) bs nz high_byte show ?thesis
      by (auto simp: encode_loop.simps [of sz] Let_def split: prod.splits)
  qed
  ultimately show ?thesis using ok(2) len [OF e(1)] by (simp add: decodeVarint32_def)
qed

subsection \<open>Property\<close>

text \<open>
  Property C16. Every 32-bit value survives the encoding: in a buffer of \<open>MAX_VARINT32_BYTES\<close> the
  encoder writes between one and five bytes and returns their number, and the decoder reads the
  value back from them, whatever follows, and stops at that number.
\<close>

theorem varint_round_trip:
  "\<exists>bs. encodeVarint32 MAX_VARINT32_BYTES v = (bs, length bs) \<and> 0 < length bs \<and> length bs \<le> 5 \<and>
     (\<forall>rest. decodeVarint32 (bs @ rest) = (Some v, length bs))"
  using encode_fits [of v] decode_encode [of MAX_VARINT32_BYTES v] by (auto simp: MAX_VARINT32_BYTES_def)

end
