(* ===== verification/Trace_Converter.thy ===== *)
theory Trace_Converter
  imports Trace_Messages
begin

section \<open>From traced structures to messages\<close>

text \<open>
  \<open>TraceConverter::convertTrace\<close> of source/octf/interface/TraceConverter.cpp reads one traced event,
  a packed little-endian structure of source/octf/trace/iotrace_event.h, and fills the message of
  its kind. The converter keeps one message per kind; every field of it is set in each
  conversion but the type of a file event, which keeps its value when the traced type is not
  one of the four known ones. So the type is the state of the converter.

  A structure is the list of its bytes. A name is read up to its terminating zero; when there
  is none in the bytes the read leaves the event.
\<close>

subsection \<open>Packed structures\<close>

definition get :: "nat \<Rightarrow> nat \<Rightarrow> u8 list \<Rightarrow> nat" where
  "get n off bs = le_value (take n (drop off bs))"

definition c_string :: "nat \<Rightarrow> u8 list \<Rightarrow> string res" where
  "c_string off bs =
     (if 0 \<in> set (drop off bs)
      then Inr (map (\<lambda>b. char_of (unat b)) (takeWhile (\<lambda>b. b \<noteq> 0) (drop off bs)))
      else Inl (Undefined_Behaviour ''string without end''))"

definition iotrace_event_type_device_desc :: nat where "iotrace_event_type_device_desc = 0"
definition iotrace_event_type_io :: nat where "iotrace_event_type_io = 1"
definition iotrace_event_type_io_cmpl :: nat where "iotrace_event_type_io_cmpl = 2"
definition iotrace_event_type_fs_meta :: nat where "iotrace_event_type_fs_meta = 3"
definition iotrace_event_type_fs_file_name :: nat where "iotrace_event_type_fs_file_name = 4"
definition iotrace_event_type_fs_file_event :: nat where "iotrace_event_type_fs_file_event = 5"

lemmas event_types = iotrace_event_type_device_desc_def iotrace_event_type_io_def
  iotrace_event_type_io_cmpl_def iotrace_event_type_fs_meta_def iotrace_event_type_fs_file_name_def
  iotrace_event_type_fs_file_event_def

text \<open>The sizes of the structures, rounded up to their alignment of 8.\<close>

definition sizeof_hdr :: nat where "sizeof_hdr = 24"
definition sizeof_device_desc :: nat where "sizeof_device_desc = 552"
definition sizeof_io :: nat where "sizeof_io = 64"
definition sizeof_completion :: nat where "sizeof_completion = 56"
definition sizeof_fs_meta :: nat where "sizeof_fs_meta = 80"
definition sizeof_fs_file_name :: nat where "sizeof_fs_file_name = 144"
definition sizeof_fs_file_event :: nat where "sizeof_fs_file_event = 64"

lemmas sizes = sizeof_hdr_def sizeof_device_desc_def sizeof_io_def sizeof_completion_def
  sizeof_fs_meta_def sizeof_fs_file_name_def sizeof_fs_file_event_def

subsection \<open>The conversion\<close>

definition header_of :: "u8 list \<Rightarrow> event_header" where
  "header_of bs = \<lparr>eh_sid = of_nat (get 8 0 bs), eh_timestamp = of_nat (get 8 8 bs)\<rparr>"

text \<open>\<open>Timestamp\<close> has 64-bit seconds and 32-bit nanoseconds; \<open>timespec\<close> has 64 bits for both.\<close>

definition setFileId :: "nat \<Rightarrow> nat \<Rightarrow> u8 list \<Rightarrow> proto_file_id" where
  "setFileId part off bs =
     \<lparr>pfi_partitionId = of_nat (get 8 part bs), pfi_id = of_nat (get 8 off bs),
      pfi_creationDate = Timestamp (sint (of_nat (get 8 (off + 8) bs) :: 64 word))
                                   (sint (of_nat (get 8 (off + 16) bs) :: 32 word))\<rparr>"

definition io_operation :: "nat \<Rightarrow> int option" where
  "io_operation c =
     (if c = of_char (CHR ''R'') then Some Io_Read
      else if c = of_char (CHR ''W'') then Some Io_Write
      else if c = of_char (CHR ''D'') then Some Io_Discard else None)"

definition convert_io :: "u8 list \<Rightarrow> event_io option" where
  "convert_io bs =
     (case io_operation (get 1 56 bs) of
        None \<Rightarrow> None
      | Some oper \<Rightarrow>
          let flags = get 4 52 bs
          in Some \<lparr>eio_lba = of_nat (get 8 32 bs), eio_len = of_nat (get 4 40 bs), eio_ioClass = 0,
               eio_deviceId = of_nat (get 4 48 bs), eio_operation = oper,
               eio_flush = bit flags 0, eio_fua = bit flags 1,
               eio_writeHint = of_nat (get 1 57 bs), eio_id = of_nat (get 8 24 bs),
               eio_metadata = bit flags 2, eio_direct = bit flags 3, eio_readahead = bit flags 4\<rparr>)"

definition convert_completion :: "u8 list \<Rightarrow> event_io_completion" where
  "convert_completion bs =
     \<lparr>cmp_lba = of_nat (get 8 32 bs), cmp_len = of_nat (get 4 40 bs),
      cmp_error = (get 4 44 bs \<noteq> 0), cmp_deviceId = of_nat (get 4 48 bs),
      cmp_refId = of_nat (get 8 24 bs)\<rparr>"

definition convert_device :: "u8 list \<Rightarrow> device_description res" where
  "convert_device bs =
     and_then (c_string 40 bs) (\<lambda>nam. and_then (c_string 296 bs) (\<lambda>model.
       Inr \<lparr>dd_id = of_nat (get 8 24 bs), dd_name = nam, dd_size = of_nat (get 8 32 bs), dd_model = model\<rparr>))"

definition convert_meta :: "u8 list \<Rightarrow> event_filesystem_meta" where
  "convert_meta bs =
     \<lparr>fsm_refSid = 0, fsm_fileId = setFileId 72 32 bs, fsm_fileOffset = of_nat (get 8 56 bs),
      fsm_fileSize = of_nat (get 8 64 bs), fsm_refId = of_nat (get 8 24 bs)\<rparr>"

definition convert_file_name :: "u8 list \<Rightarrow> event_filesystem_file_name res" where
  "convert_file_name bs =
     and_then (c_string 80 bs) (\<lambda>nam.
       Inr \<lparr>fsn_fileId = setFileId 24 32 bs, fsn_fileParentId = setFileId 24 56 bs, fsn_fileName = nam\<rparr>)"

definition fs_type :: "nat \<Rightarrow> fs_event_type \<Rightarrow> fs_event_type" where
  "fs_type n old =
     (if n = 0 then Fs_Create else if n = 1 then Fs_Delete
      else if n = 2 then Fs_MoveTo else if n = 3 then Fs_MoveFrom else old)"

definition convertTrace ::
    "u8 list \<Rightarrow> u32 \<Rightarrow> fs_event_type \<Rightarrow> fs_event_type \<times> trace_event option res" where
  "convertTrace bs sz st =
     (let kind = get 4 16 bs; n = unat sz;
          event = (\<lambda>e. \<lparr>te_header = header_of bs, te_event = e\<rparr>)
      in if n < sizeof_hdr then (st, Inr None)
         else if kind = iotrace_event_type_device_desc then
           (st, if n \<noteq> sizeof_device_desc then Inr None
                else and_then (convert_device bs) (\<lambda>d. Inr (Some (event (DeviceDescription d)))))
         else if kind = iotrace_event_type_io then
           (st, Inr (if n \<noteq> sizeof_io then None else map_option (\<lambda>i. event (Io i)) (convert_io bs)))
         else if kind = iotrace_event_type_io_cmpl then
           (st, Inr (if n \<noteq> sizeof_completion then None else Some (event (IoCompletion (convert_completion bs)))))
         else if kind = iotrace_event_type_fs_meta then
           (st, Inr (if n \<noteq> sizeof_fs_meta then None else Some (event (FilesystemMeta (convert_meta bs)))))
         else if kind = iotrace_event_type_fs_file_name then
           (st, if n \<noteq> sizeof_fs_file_name then Inr None
                else and_then (convert_file_name bs) (\<lambda>d. Inr (Some (event (FilesystemFileName d)))))
         else if kind = iotrace_event_type_fs_file_event then
           (if n \<noteq> sizeof_fs_file_event then (st, Inr None)
            else let st = fs_type (get 4 56 bs) st
                 in (st, Inr (Some (event (FilesystemFileEvent
                           \<lparr>fse_fileId = setFileId 24 32 bs, fse_fsEventType = st\<rparr>)))))
         else (st, Inr None))"

definition TRACE_VERSION :: nat where "TRACE_VERSION = 2"

subsection \<open>The structures\<close>

text \<open>
  The structures of iotrace_event.h and their bytes, as the producers of traces fill them: the
  header by \<open>iotrace_event_init_hdr\<close>, the padding and the unused ends of the names zero.
\<close>

definition put_string :: "nat \<Rightarrow> string \<Rightarrow> u8 list" where
  "put_string n s = map (\<lambda>c. of_nat (of_char c)) s @ replicate (n - length s) 0"

definition iotrace_event_init_hdr :: "nat \<Rightarrow> u64 \<Rightarrow> u64 \<Rightarrow> nat \<Rightarrow> u8 list" where
  "iotrace_event_init_hdr kind sid timestamp sz =
     le_bytes 8 (unat sid) @ le_bytes 8 (unat timestamp) @ le_bytes 4 kind @ le_bytes 4 sz"

record iotrace_event_file_id =
  tf_id :: u64
  tf_tv_sec :: u64
  tf_tv_nsec :: u64

definition file_id_bytes :: "iotrace_event_file_id \<Rightarrow> u8 list" where
  "file_id_bytes f = le_bytes 8 (unat (tf_id f)) @ le_bytes 8 (unat (tf_tv_sec f)) @ le_bytes 8 (unat (tf_tv_nsec f))"

datatype iotrace_event =
    Ev_Device u64 u64 string string
  | Ev_Io u64 u64 u32 u32 u32 char u8
  | Ev_Completion u64 u64 u32 u32 u32
  | Ev_Meta u64 iotrace_event_file_id u64 u64 u64
  | Ev_File_Name u64 iotrace_event_file_id iotrace_event_file_id string
  | Ev_File_Event u64 iotrace_event_file_id u32

fun event_kind :: "iotrace_event \<Rightarrow> nat" where
  "event_kind (Ev_Device _ _ _ _) = iotrace_event_type_device_desc"
| "event_kind (Ev_Io _ _ _ _ _ _ _) = iotrace_event_type_io"
| "event_kind (Ev_Completion _ _ _ _ _) = iotrace_event_type_io_cmpl"
| "event_kind (Ev_Meta _ _ _ _ _) = iotrace_event_type_fs_meta"
| "event_kind (Ev_File_Name _ _ _ _) = iotrace_event_type_fs_file_name"
| "event_kind (Ev_File_Event _ _ _) = iotrace_event_type_fs_file_event"

fun event_size :: "iotrace_event \<Rightarrow> nat" where
  "event_size (Ev_Device _ _ _ _) = sizeof_device_desc"
| "event_size (Ev_Io _ _ _ _ _ _ _) = sizeof_io"
| "event_size (Ev_Completion _ _ _ _ _) = sizeof_completion"
| "event_size (Ev_Meta _ _ _ _ _) = sizeof_fs_meta"
| "event_size (Ev_File_Name _ _ _ _) = sizeof_fs_file_name"
| "event_size (Ev_File_Event _ _ _) = sizeof_fs_file_event"

fun event_body :: "iotrace_event \<Rightarrow> u8 list" where
  "event_body (Ev_Device i dsize nam model) =
     le_bytes 8 (unat i) @ le_bytes 8 (unat dsize) @ put_string 256 nam @ put_string 256 model"
| "event_body (Ev_Io i lba len dev flags oper hint) =
     le_bytes 8 (unat i) @ le_bytes 8 (unat lba) @ le_bytes 4 (unat len) @ le_bytes 4 0 @ le_bytes 4 (unat dev) @
     le_bytes 4 (unat flags) @ le_bytes 1 (of_char oper) @ le_bytes 1 (unat hint) @ le_bytes 6 0"
| "event_body (Ev_Completion ref lba len err dev) =
     le_bytes 8 (unat ref) @ le_bytes 8 (unat lba) @ le_bytes 4 (unat len) @ le_bytes 4 (unat err) @ le_bytes 4 (unat dev) @ le_bytes 4 0"
| "event_body (Ev_Meta ref f off fsize part) =
     le_bytes 8 (unat ref) @ file_id_bytes f @ le_bytes 8 (unat off) @ le_bytes 8 (unat fsize) @ le_bytes 8 (unat part)"
| "event_body (Ev_File_Name part f par nam) =
     le_bytes 8 (unat part) @ file_id_bytes f @ file_id_bytes par @ put_string 64 nam"
| "event_body (Ev_File_Event part f kind) =
     le_bytes 8 (unat part) @ file_id_bytes f @ le_bytes 4 (unat kind) @ le_bytes 4 0"

definition event_bytes :: "u64 \<Rightarrow> u64 \<Rightarrow> iotrace_event \<Rightarrow> u8 list" where
  "event_bytes sid timestamp e =
     iotrace_event_init_hdr (event_kind e) sid timestamp (event_size e) @ event_body e"

text \<open>The message an event stands for; a file event of an unknown type stands for none.\<close>

definition message_file_id :: "u64 \<Rightarrow> iotrace_event_file_id \<Rightarrow> proto_file_id" where
  "message_file_id part f =
     \<lparr>pfi_partitionId = part, pfi_id = tf_id f,
      pfi_creationDate = Timestamp (sint (tf_tv_sec f)) (sint (ucast (tf_tv_nsec f) :: 32 word))\<rparr>"

fun event_message :: "iotrace_event \<Rightarrow> event_case option" where
  "event_message (Ev_Device i dsize nam model) =
     Some (DeviceDescription \<lparr>dd_id = i, dd_name = nam, dd_size = dsize, dd_model = model\<rparr>)"
| "event_message (Ev_Io i lba len dev flags oper hint) =
     map_option (\<lambda>k. Io \<lparr>eio_lba = lba, eio_len = len, eio_ioClass = 0, eio_deviceId = ucast dev,
       eio_operation = k, eio_flush = bit flags 0, eio_fua = bit flags 1, eio_writeHint = ucast hint,
       eio_id = i, eio_metadata = bit flags 2, eio_direct = bit flags 3, eio_readahead = bit flags 4\<rparr>)
       (if oper = CHR ''R'' then Some Io_Read else if oper = CHR ''W'' then Some Io_Write
        else if oper = CHR ''D'' then Some Io_Discard else None)"
| "event_message (Ev_Completion ref lba len err dev) =
     Some (IoCompletion \<lparr>cmp_lba = lba, cmp_len = len, cmp_error = (err \<noteq> 0), cmp_deviceId = ucast dev,
       cmp_refId = ref\<rparr>)"
| "event_message (Ev_Meta ref f off fsize part) =
     Some (FilesystemMeta \<lparr>fsm_refSid = 0, fsm_fileId = message_file_id part f, fsm_fileOffset = off,
       fsm_fileSize = fsize, fsm_refId = ref\<rparr>)"
| "event_message (Ev_File_Name part f par nam) =
     Some (FilesystemFileName \<lparr>fsn_fileId = message_file_id part f,
       fsn_fileParentId = message_file_id part par, fsn_fileName = nam\<rparr>)"
| "event_message (Ev_File_Event part f kind) =
     (if kind \<le> 3 then Some (FilesystemFileEvent \<lparr>fse_fileId = message_file_id part f,
         fse_fsEventType = [Fs_Create, Fs_Delete, Fs_MoveTo, Fs_MoveFrom] ! unat kind\<rparr>)
      else None)"

definition name_ok :: "nat \<Rightarrow> string \<Rightarrow> bool" where
  "name_ok n s \<longleftrightarrow> length s < n \<and> CHR 0x00 \<notin> set s"

fun event_ok :: "iotrace_event \<Rightarrow> bool" where
  "event_ok (Ev_Device _ _ nam model) \<longleftrightarrow> name_ok 256 nam \<and> name_ok 256 model"
| "event_ok (Ev_File_Name _ _ _ nam) \<longleftrightarrow> name_ok 64 nam"
| "event_ok (Ev_File_Event _ _ kind) \<longleftrightarrow> kind \<le> 3"
| "event_ok _ \<longleftrightarrow> True"

subsection \<open>Reading a packed structure\<close>

lemma length_put_string: "length s \<le> n \<Longrightarrow> length (put_string n s) = n"
  by (simp add: put_string_def)

text \<open>A field is found behind the fields before it.\<close>

lemma get_skip: "length xs \<le> off \<Longrightarrow> get n off (xs @ ys) = get n (off - length xs) ys"
  by (simp add: get_def)

lemma get_put: "get n 0 (le_bytes n v @ ys) = v mod 256 ^ n"
  by (simp add: get_def le_value_bytes)

lemma c_string_skip: "length xs \<le> off \<Longrightarrow> c_string off (xs @ ys) = c_string (off - length xs) ys"
  by (simp add: c_string_def)

lemma c_string_put:
  assumes "name_ok n s"
  shows "c_string 0 (put_string n s @ ys) = Inr s"
proof -
  let ?f = "\<lambda>c. of_nat (of_char c) :: u8"
  have byte: "unat (?f c) = of_char c" for c
    by (simp add: unat_of_nat take_bit_eq_mod [symmetric])
  have nz: "?f c \<noteq> 0" if "c \<in> set s" for c
  proof
    assume "?f c = 0"
    then have "of_char c = (0 :: nat)" using byte [of c] by simp
    also have "\<dots> = of_char (CHR 0x00)" by simp
    finally have "c = CHR 0x00" by (simp only: of_char_eq_iff)
    then show False using that assms by (simp add: name_ok_def)
  qed
  obtain k where k: "n - length s = Suc k" using assms by (cases "n - length s") (auto simp: name_ok_def)
  have "takeWhile (\<lambda>b. b \<noteq> 0) (map ?f s @ 0 # replicate k 0 @ ys) = map ?f s"
    using nz by (subst takeWhile_append2) auto
  moreover have "map (\<lambda>b. char_of (unat b)) (map ?f s) = s" by (simp add: byte comp_def)
  ultimately show ?thesis by (simp add: c_string_def put_string_def k)
qed


lemma length_hdr [simp]: "length (iotrace_event_init_hdr kind sid timestamp sz) = 24"
  by (simp add: iotrace_event_init_hdr_def)

lemma length_file_id [simp]: "length (file_id_bytes f) = 24"
  by (simp add: file_id_bytes_def)

lemma get_u64 [simp]: "get 8 0 (le_bytes 8 (unat (x :: u64)) @ ys) = unat x"
  by (simp add: get_put)

lemma unat_u32_lt: "unat (x :: u32) < 4294967296"
  using unsigned_less [of x] by simp

lemma get_u32 [simp]: "get 4 0 (le_bytes 4 (unat (x :: u32)) @ ys) = unat x"
  using unat_u32_lt [of x] by (simp add: get_put)

lemma get_u64_end [simp]: "get 8 0 (le_bytes 8 (unat (x :: u64))) = unat x"
  using get_u64 [of x "[]"] by simp

declare le_bytes.simps [simp del]

lemma get_byte [simp]: "v < 256 \<Longrightarrow> get (Suc 0) 0 (le_bytes (Suc 0) v @ ys) = v"
  by (simp add: get_put)

lemma unat_u8_lt [simp]: "unat (x :: u8) < 256"
  using unsigned_less [of x] by simp

lemma get_kind: "get 4 16 (event_bytes sid timestamp e) = event_kind e"
proof -
  have "get 4 16 (event_bytes sid timestamp e) = event_kind e mod 256 ^ 4"
    unfolding event_bytes_def iotrace_event_init_hdr_def append_assoc
    by (simp add: get_skip get_put)
  moreover have "event_kind e < 6" by (cases e) (simp_all add: event_types)
  ultimately show ?thesis by simp
qed

lemma get_header: "header_of (event_bytes sid timestamp e) = \<lparr>eh_sid = sid, eh_timestamp = timestamp\<rparr>"
  unfolding header_of_def event_bytes_def iotrace_event_init_hdr_def append_assoc
  by (simp add: get_skip)

lemma get_body: "24 \<le> off \<Longrightarrow> get n off (event_bytes sid timestamp e) = get n (off - 24) (event_body e)"
  by (simp add: event_bytes_def get_skip)

lemma c_string_body:
  "24 \<le> off \<Longrightarrow> c_string off (event_bytes sid timestamp e) = c_string (off - 24) (event_body e)"
  by (simp add: event_bytes_def c_string_skip)


lemma get_file_id:
  "setFileId part off bs = message_file_id p f"
  if "get 8 part bs = unat p" "get 8 off bs = unat (tf_id f)"
    "get 8 (off + 8) bs = unat (tf_tv_sec f)" "get 8 (off + 16) bs = unat (tf_tv_nsec f)"
  using that by (simp add: setFileId_def message_file_id_def)

lemma file_id_fields [simp]:
  "get 8 0 (file_id_bytes f @ ys) = unat (tf_id f)"
  "get 8 8 (file_id_bytes f @ ys) = unat (tf_tv_sec f)"
  "get 8 16 (file_id_bytes f @ ys) = unat (tf_tv_nsec f)"
  by (simp_all add: file_id_bytes_def get_skip)

lemma convert_device_body:
  assumes "name_ok 256 nam" "name_ok 256 model"
  shows "convert_device (event_bytes sid ts (Ev_Device i dsize nam model)) =
    Inr \<lparr>dd_id = i, dd_name = nam, dd_size = dsize, dd_model = model\<rparr>"
proof -
  have "length (put_string 256 nam) = 256" using assms(1) by (simp add: length_put_string name_ok_def)
  then show ?thesis
    using c_string_put [OF assms(1)] c_string_put [OF assms(2), of "[]"]
    by (simp add: convert_device_def c_string_body get_body get_skip c_string_skip)
qed

lemma convert_io_body:
  "convert_io (event_bytes sid ts (Ev_Io i lba len dev flags oper hint)) =
     (case event_message (Ev_Io i lba len dev flags oper hint) of Some (Io x) \<Rightarrow> Some x | _ \<Rightarrow> None)"
proof -
  have "io_operation (of_char oper) = (if oper = CHR ''R'' then Some Io_Read
      else if oper = CHR ''W'' then Some Io_Write else if oper = CHR ''D'' then Some Io_Discard else None)"
    by (simp only: io_operation_def of_char_eq_iff)
  moreover have "bit (unat flags) k \<longleftrightarrow> bit flags k" for k by (simp add: bit_unsigned_iff)
  ultimately show ?thesis
    by (simp add: convert_io_def get_body get_skip Let_def)
qed

lemma convert_completion_body:
  "convert_completion (event_bytes sid ts (Ev_Completion ref lba len err dev)) =
     \<lparr>cmp_lba = lba, cmp_len = len, cmp_error = (err \<noteq> 0), cmp_deviceId = ucast dev, cmp_refId = ref\<rparr>"
  by (simp add: convert_completion_def get_body get_skip unat_eq_zero)

lemma convert_meta_body:
  "convert_meta (event_bytes sid ts (Ev_Meta ref f off fsize part)) =
     \<lparr>fsm_refSid = 0, fsm_fileId = message_file_id part f, fsm_fileOffset = off, fsm_fileSize = fsize,
      fsm_refId = ref\<rparr>"
  by (simp add: convert_meta_def get_body get_skip get_file_id [of _ _ part _ f])

lemma convert_file_name_body:
  assumes "name_ok 64 nam"
  shows "convert_file_name (event_bytes sid ts (Ev_File_Name part f par nam)) =
    Inr \<lparr>fsn_fileId = message_file_id part f, fsn_fileParentId = message_file_id part par, fsn_fileName = nam\<rparr>"
  using c_string_put [OF assms, of "[]"]
  by (simp add: convert_file_name_def c_string_body c_string_skip get_body get_skip
      get_file_id [of _ _ part _ f] get_file_id [of _ _ part _ par])


lemma convert_file_event_body:
  "convertTrace (event_bytes sid ts (Ev_File_Event part f kind)) (of_nat sizeof_fs_file_event) st =
     (fs_type (unat kind) st, Inr (Some \<lparr>te_header = \<lparr>eh_sid = sid, eh_timestamp = ts\<rparr>,
        te_event = FilesystemFileEvent
          \<lparr>fse_fileId = message_file_id part f, fse_fsEventType = fs_type (unat kind) st\<rparr>\<rparr>))"
  by (simp add: convertTrace_def Let_def get_kind get_header event_types sizes get_body get_skip
      get_file_id [of _ _ part _ f])

lemma fs_type_known:
  assumes "kind \<le> 3"
  shows "fs_type (unat (kind :: u32)) st = [Fs_Create, Fs_Delete, Fs_MoveTo, Fs_MoveFrom] ! unat kind"
proof -
  have "unat kind \<le> 3" using assms by (simp add: word_le_nat_alt)
  then consider "unat kind = 0" | "unat kind = 1" | "unat kind = 2" | "unat kind = 3" by linarith
  then show ?thesis by cases (simp_all add: fs_type_def)
qed

lemma convert_reads_back:
  assumes "event_ok e"
  shows "snd (convertTrace (event_bytes sid ts e) (of_nat (event_size e)) st) =
    Inr (map_option (\<lambda>m. \<lparr>te_header = \<lparr>eh_sid = sid, eh_timestamp = ts\<rparr>, te_event = m\<rparr>) (event_message e))"
proof (cases e)
  case (Ev_Device i dsize nam model)
  with assms show ?thesis
    by (simp add: convertTrace_def Let_def get_kind get_header event_types sizes convert_device_body)
next
  case (Ev_Io i lba len dev flags oper hint)
  then show ?thesis
    by (simp add: convertTrace_def Let_def get_kind get_header event_types sizes convert_io_body)
next
  case (Ev_Completion ref lba len err dev)
  then show ?thesis
    by (simp add: convertTrace_def Let_def get_kind get_header event_types sizes convert_completion_body)
next
  case (Ev_Meta ref f off fsize part)
  then show ?thesis
    by (simp add: convertTrace_def Let_def get_kind get_header event_types sizes convert_meta_body)
next
  case (Ev_File_Name part f par nam)
  with assms show ?thesis
    by (simp add: convertTrace_def Let_def get_kind get_header event_types sizes convert_file_name_body)
next
  case (Ev_File_Event part f kind)
  then show ?thesis
    using assms convert_file_event_body [of sid ts part f kind st] fs_type_known [of kind st]
    by simp
qed

text \<open>
  Property C17. From a traced event to its message and nothing lost. The bytes of a well-formed
  event of any of the six kinds, as the producers lay it out, convert into the message with the
  sequence number, time and every field of the event, whatever was converted before; an I/O
  whose operation is none of read, write and discard converts into no message.
\<close>

theorem convert_round_trip:
  assumes "event_ok e"
  shows "snd (convertTrace (event_bytes sid ts e) (of_nat (event_size e)) st) =
    Inr (map_option (\<lambda>m. \<lparr>te_header = \<lparr>eh_sid = sid, eh_timestamp = ts\<rparr>, te_event = m\<rparr>) (event_message e))"
  using assms by (rule convert_reads_back)

theorem convert_round_trip_witness:
  "snd (convertTrace (event_bytes 7 9 (Ev_Io 1 2048 8 3 5 (CHR ''W'') 0)) 64 UnknownFsEventType) =
     Inr (Some \<lparr>te_header = \<lparr>eh_sid = 7, eh_timestamp = 9\<rparr>, te_event = Io
       \<lparr>eio_lba = 2048, eio_len = 8, eio_ioClass = 0, eio_deviceId = 3, eio_operation = Io_Write,
        eio_flush = True, eio_fua = False, eio_writeHint = 0, eio_id = 1, eio_metadata = True,
        eio_direct = False, eio_readahead = False\<rparr>\<rparr>)"
  using convert_round_trip [of "Ev_Io 1 2048 8 3 5 (CHR ''W'') 0" 7 9 UnknownFsEventType]
  by (simp add: sizes)

text \<open>
  The type of a file event is remembered. A file event whose traced type is not one of
  create, delete, move to and move from is not refused: it converts into a message with the
  type of the last known file event, so that after a deletion it reads as another deletion.
\<close>

theorem unknown_file_event_repeats:
  assumes "kind \<le> 3" "\<not> kind' \<le> 3"
    and "convertTrace (event_bytes sid ts (Ev_File_Event part f kind)) (of_nat sizeof_fs_file_event) st = (st', r)"
  shows "snd (convertTrace (event_bytes sid' ts' (Ev_File_Event part' g kind')) (of_nat sizeof_fs_file_event) st') =
    Inr (Some \<lparr>te_header = \<lparr>eh_sid = sid', eh_timestamp = ts'\<rparr>,
      te_event = FilesystemFileEvent \<lparr>fse_fileId = message_file_id part' g,
        fse_fsEventType = [Fs_Create, Fs_Delete, Fs_MoveTo, Fs_MoveFrom] ! unat kind\<rparr>\<rparr>)"
proof -
  have "st' = [Fs_Create, Fs_Delete, Fs_MoveTo, Fs_MoveFrom] ! unat kind"
    using assms(3) fs_type_known [OF assms(1), of st] by (simp add: convert_file_event_body)
  moreover have "fs_type (unat kind') st' = st'"
    using assms(2) by (simp add: fs_type_def word_le_nat_alt)
  ultimately show ?thesis by (simp add: convert_file_event_body)
qed

theorem unknown_file_event_repeats_witness:
  "\<exists>st. snd (convertTrace (event_bytes 2 2 (Ev_File_Event 0 \<lparr>tf_id = 8, tf_tv_sec = 0, tf_tv_nsec = 0\<rparr> 77)) 64 st) =
    Inr (Some \<lparr>te_header = \<lparr>eh_sid = 2, eh_timestamp = 2\<rparr>,
      te_event = FilesystemFileEvent
        \<lparr>fse_fileId = message_file_id 0 \<lparr>tf_id = 8, tf_tv_sec = 0, tf_tv_nsec = 0\<rparr>, fse_fsEventType = Fs_Delete\<rparr>\<rparr>)"
proof -
  obtain st r where "convertTrace (event_bytes 1 1 (Ev_File_Event 0 \<lparr>tf_id = 5, tf_tv_sec = 0, tf_tv_nsec = 0\<rparr> 1))
      (of_nat sizeof_fs_file_event) UnknownFsEventType = (st, r)"
    by force
  from unknown_file_event_repeats [OF _ _ this, of 77 2 2 0 "\<lparr>tf_id = 8, tf_tv_sec = 0, tf_tv_nsec = 0\<rparr>"]
  show ?thesis by (auto simp: sizes)
qed

end
