(* ===== verification/Trace_Serializer.thy ===== *)
theory Trace_Serializer
  imports Varint
begin

section \<open>Writing a trace file\<close>

text \<open>
  \<open>FileTraceSerializer\<close> of source/octf/interface/internal/FileTraceSerializer.cpp writes a queue of
  trace events to a file through a mapped window: before each write \<open>getBuffer\<close> remaps the
  window when the next bytes lie outside it, and \<open>close\<close> cuts the file to the data written. A
  message is framed by the variable-length integer of its length.

  The state holds the bytes of the file behind the descriptor. The system calls are the record
  \<open>os\<close>: the page size and whether each call succeeds. \<open>posix_fallocate\<close> extends the file with
  zeros, \<open>ftruncate\<close> cuts or extends it, a mapped window is a view of the file. A buffer is its
  position in the window, and a store outside the window or the file is undefined behaviour.
  The test for a null buffer is dropped: \<open>getBuffer\<close> throws when the window cannot be mapped.
  \<open>memcpy_s\<close>, \<open>ByteSizeLong\<close> and \<open>SerializeToArray\<close> are parameters.
\<close>

record os =
  os_page :: u64
  os_open :: bool
  os_fallocate :: "u64 \<Rightarrow> u64 \<Rightarrow> bool"
  os_mmap :: "u64 \<Rightarrow> u64 \<Rightarrow> bool"
  os_ftruncate :: bool
  os_fchmod :: bool
  os_fsync :: bool
  os_close :: bool

text \<open>The signed 64-bit members are their bits; \<open>s_mapped\<close> says that \<open>m_addr\<close> is not null.\<close>

record serializer =
  s_open :: bool
  s_mapped :: bool
  s_dataOffset :: u64
  s_fileOffset :: u64
  s_size :: u64
  s_file :: "u8 list"

definition FileTraceSerializer :: "u8 list \<Rightarrow> serializer" where
  "FileTraceSerializer file =
     \<lparr>s_open = False, s_mapped = False, s_dataOffset = 0, s_fileOffset = 0, s_size = 0, s_file = file\<rparr>"

definition ser_open :: "os \<Rightarrow> serializer \<Rightarrow> serializer \<times> bool" where
  "ser_open os s =
     (if s_open s then (s, True)
      else if os_open os then (s\<lparr>s_open := True\<rparr>, True) else (s, False))"

definition moveDataPointer :: "u64 \<Rightarrow> serializer \<Rightarrow> serializer" where
  "moveDataPointer n s = s\<lparr>s_dataOffset := s_dataOffset s + n\<rparr>"

text \<open>A file cut or extended with zeros to a length.\<close>

definition resize_to :: "nat \<Rightarrow> u8 list \<Rightarrow> u8 list" where
  "resize_to n f = take n f @ replicate (n - length f) 0"

definition ser_close :: "os \<Rightarrow> serializer \<Rightarrow> serializer \<times> bool" where
  "ser_close os s =
     (if s_open s then
        (s\<lparr>s_open := False, s_mapped := False,
           s_file := (if os_ftruncate os then resize_to (unat (s_dataOffset s)) (s_file s) else s_file s)\<rparr>,
         os_ftruncate os \<and> os_fchmod os \<and> os_fsync os \<and> os_close os)
      else (s, False))"

definition isRemapNeeded :: "u64 \<Rightarrow> u32 \<Rightarrow> serializer \<Rightarrow> bool" where
  "isRemapNeeded offset sz s =
     (let mappedBegin = s_fileOffset s; mappedEnd = s_fileOffset s + s_size s - 1;
          b = offset; e = offset + ucast sz - 1
      in \<not> s_mapped s \<or> b < mappedBegin \<or> mappedEnd < b \<or> e < mappedBegin \<or> mappedEnd < e)"

definition remap :: "os \<Rightarrow> u64 \<Rightarrow> u32 \<Rightarrow> serializer \<Rightarrow> serializer \<times> unit res" where
  "remap os offset sz s =
     (let pageOffset = offset div os_page os;
          pages = (ucast sz + os_page os - 1 + offset mod os_page os) div os_page os;
          s = s\<lparr>s_mapped := False, s_fileOffset := pageOffset * os_page os, s_size := pages * os_page os\<rparr>
      in if \<not> os_fallocate os (s_fileOffset s) (s_size s)
         then (s, Inl (Octf_Exception ''Cannot allocate space, file''))
         else let s = s\<lparr>s_file := resize_to (max (length (s_file s))
                          (unat (s_fileOffset s) + unat (s_size s))) (s_file s)\<rparr>
              in if \<not> os_mmap os (s_fileOffset s) (s_size s)
                 then (s, Inl (Octf_Exception ''Cannot map file''))
                 else let s = s\<lparr>s_mapped := True\<rparr>
                      in if isRemapNeeded offset sz s
                         then (s, Inl (Octf_Exception ''Failed to properly map file''))
                         else (s, Inr ()))"

definition MiBToBytes :: "u64 \<Rightarrow> u64" where
  "MiBToBytes n = push_bit 20 n"

definition getBuffer :: "os \<Rightarrow> u64 \<Rightarrow> serializer \<Rightarrow> serializer \<times> u64 res" where
  "getBuffer os sz s =
     (let offset = s_dataOffset s;
          (s, r) = (if isRemapNeeded offset (ucast sz) s
                    then remap os offset (ucast (max (MiBToBytes 1) sz)) s else (s, Inr ()))
      in (s, and_then r (\<lambda>_. Inr (offset - s_fileOffset s))))"

definition store :: "u64 \<Rightarrow> u8 list \<Rightarrow> serializer \<Rightarrow> serializer \<times> unit res" where
  "store p bs s =
     (let a = unat (s_fileOffset s) + unat p
      in if s_mapped s \<and> unat p + length bs \<le> unat (s_size s) \<and> a + length bs \<le> length (s_file s)
         then (s\<lparr>s_file := take a (s_file s) @ bs @ drop (a + length bs) (s_file s)\<rparr>, Inr ())
         else (s, Inl (Undefined_Behaviour ''store outside the window'')))"

text \<open>The exception of line 79 is constructed and not thrown.\<close>

definition serialize_blob ::
    "(u8 list \<Rightarrow> u8 list \<Rightarrow> u8 list) \<Rightarrow> os \<Rightarrow> u8 list \<Rightarrow> serializer \<Rightarrow> serializer \<times> bool res" where
  "serialize_blob memcpy_s os blob s =
     (case getBuffer os (of_nat (length blob)) s of
        (s, Inl e) \<Rightarrow> (s, Inl e)
      | (s, Inr p) \<Rightarrow>
          let destSize = s_size s - (s_dataOffset s - s_fileOffset s);
              dest = take (unat destSize) (drop (unat (s_fileOffset s) + unat p) (s_file s))
          in case store p (memcpy_s dest blob) s of
               (s, Inl e) \<Rightarrow> (s, Inl e)
             | (s, Inr _) \<Rightarrow> (moveDataPointer (of_nat (length blob)) s, Inr True))"

definition ser_serialize ::
    "('m \<Rightarrow> u64) \<Rightarrow> ('m \<Rightarrow> u8 list option) \<Rightarrow> os \<Rightarrow> 'm \<Rightarrow> serializer \<Rightarrow> serializer \<times> bool res" where
  "ser_serialize ByteSizeLong SerializeToArray os m s =
     (let messageLength = ByteSizeLong m
      in case getBuffer os (of_nat MAX_VARINT32_BYTES) s of
           (s, Inl e) \<Rightarrow> (s, Inl e)
         | (s, Inr p) \<Rightarrow>
             let (bs, bytesWritten) = encodeVarint32 MAX_VARINT32_BYTES (ucast messageLength)
             in case store p bs s of
                  (s, Inl e) \<Rightarrow> (s, Inl e)
                | (s, Inr _) \<Rightarrow>
                    if bytesWritten = 0 then (s, Inr False)
                    else case getBuffer os messageLength (moveDataPointer (of_nat bytesWritten) s) of
                           (s, Inl e) \<Rightarrow> (s, Inl e)
                         | (s, Inr p) \<Rightarrow>
                             (case SerializeToArray m of
                                None \<Rightarrow> (s, Inr False)
                              | Some bs \<Rightarrow>
                                  (case store p bs s of
                                     (s, Inl e) \<Rightarrow> (s, Inl e)
                                   | (s, Inr _) \<Rightarrow> (moveDataPointer messageLength s, Inr True))))"

subsection \<open>The window\<close>

definition room :: "os \<Rightarrow> nat \<Rightarrow> bool" where
  "room os hi \<longleftrightarrow> 0 < os_page os \<and> unat (os_page os) < 2 ^ 31 \<and> hi < 2 ^ 60"

definition os_good :: "os \<Rightarrow> bool" where
  "os_good os \<longleftrightarrow> os_open os \<and> (\<forall>a n. os_fallocate os a n) \<and> (\<forall>a n. os_mmap os a n) \<and>
     os_ftruncate os \<and> os_fchmod os \<and> os_fsync os \<and> os_close os"

text \<open>The window lies inside the file and the write position in or just behind it.\<close>

definition ser_ok :: "serializer \<Rightarrow> bool" where
  "ser_ok s \<longleftrightarrow> unat (s_dataOffset s) \<le> length (s_file s) \<and>
     (s_mapped s \<longrightarrow>
        0 < s_size s \<and> unat (s_fileOffset s) + unat (s_size s) < 2 ^ 62 \<and>
        unat (s_fileOffset s) + unat (s_size s) \<le> length (s_file s) \<and>
        s_fileOffset s \<le> s_dataOffset s \<and>
        unat (s_dataOffset s) \<le> unat (s_fileOffset s) + unat (s_size s))"

definition ser_data :: "serializer \<Rightarrow> u8 list" where
  "ser_data s = take (unat (s_dataOffset s)) (s_file s)"

lemma unat_add_pred:
  fixes a b :: u64
  assumes "unat a + unat b < 2 ^ 64" "0 < unat a + unat b"
  shows "unat (a + b - 1) = unat a + unat b - 1"
proof -
  have ab: "unat (a + b) = unat a + unat b" using assms(1) by (simp add: unat_word_ariths)
  then have "1 \<le> a + b" using assms(2) by (auto simp: word_le_nat_alt)
  then show ?thesis using ab by (simp add: unat_sub)
qed

lemma inside_window:
  assumes "\<not> isRemapNeeded offset sz s" "unat (s_fileOffset s) + unat (s_size s) < 2 ^ 64"
    "0 < s_size s" "unat offset + unat sz < 2 ^ 64"
  shows "s_mapped s" "s_fileOffset s \<le> offset"
    "unat offset + unat sz \<le> unat (s_fileOffset s) + unat (s_size s)"
proof -
  have sz: "unat (s_size s) \<noteq> 0" using assms(3) by (simp add: unat_eq_zero)
  have hi: "unat (s_fileOffset s + s_size s - 1) = unat (s_fileOffset s) + unat (s_size s) - 1"
    using assms(2) sz by (intro unat_add_pred) simp_all
  show "s_mapped s" "s_fileOffset s \<le> offset"
    using assms(1) by (simp_all add: isRemapNeeded_def Let_def not_less)
  show "unat offset + unat sz \<le> unat (s_fileOffset s) + unat (s_size s)"
  proof (cases "sz = 0")
    case True
    have "unat offset \<le> unat (s_fileOffset s) + unat (s_size s) - 1"
      using assms(1) hi by (simp add: isRemapNeeded_def Let_def word_less_nat_alt not_less)
    with True show ?thesis by simp
  next
    case False
    then have pos: "0 < unat sz" by (simp add: unat_gt_0)
    have "unat (offset + ucast sz - 1) = unat offset + unat sz - 1"
      using assms(4) pos unat_add_pred [of offset "ucast sz"] by simp
    then have "unat offset + unat sz - 1 \<le> unat (s_fileOffset s) + unat (s_size s) - 1"
      using assms(1) hi by (simp add: isRemapNeeded_def Let_def word_less_nat_alt not_less)
    with pos sz show ?thesis by linarith
  qed
qed

lemma outside_windowI:
  assumes "s_mapped s" "s_fileOffset s \<le> offset" "unat (s_fileOffset s) + unat (s_size s) < 2 ^ 64"
    "unat offset + unat sz \<le> unat (s_fileOffset s) + unat (s_size s)" "0 < sz"
  shows "\<not> isRemapNeeded offset sz s"
proof -
  have pos: "0 < unat sz" using assms(5) by (simp add: unat_gt_0)
  have lo: "unat (s_fileOffset s) \<le> unat offset" using assms(2) by (simp add: word_le_nat_alt)
  have "unat (s_fileOffset s + s_size s - 1) = unat (s_fileOffset s) + unat (s_size s) - 1"
    using assms(3,4) pos by (intro unat_add_pred) linarith+
  moreover have "unat (offset + ucast sz - 1) = unat offset + unat sz - 1"
    using assms(3,4) pos unat_add_pred [of offset "ucast sz"] by simp
  moreover have "unat offset \<le> unat (s_fileOffset s) + unat (s_size s) - 1"
      "unat (s_fileOffset s) \<le> unat offset + unat sz - 1"
      "unat offset + unat sz - 1 \<le> unat (s_fileOffset s) + unat (s_size s) - 1"
    using assms(4) pos lo by linarith+
  ultimately show ?thesis using assms(1) lo
    by (simp add: isRemapNeeded_def Let_def word_less_nat_alt not_less)
qed

lemma ceil_mult:
  fixes n p :: nat
  assumes "0 < p"
  shows "n \<le> (n + p - 1) div p * p" "(n + p - 1) div p * p \<le> n + p - 1"
proof -
  have "n + p - 1 = (n + p - 1) div p * p + (n + p - 1) mod p" by simp
  moreover have "(n + p - 1) mod p < p" using assms by simp
  ultimately show "n \<le> (n + p - 1) div p * p" by linarith
  show "(n + p - 1) div p * p \<le> n + p - 1" by simp
qed

lemma remap_window:
  fixes P offset :: u64 and sz :: u32
  assumes "0 < P" "unat P < 2 ^ 31" "unat offset < 2 ^ 60"
  defines "fo \<equiv> offset div P * P"
    and "w \<equiv> (ucast sz + P - 1 + offset mod P) div P * P"
  shows "fo \<le> offset" "unat offset + unat sz \<le> unat fo + unat w"
    "unat fo + unat w < 2 ^ 62"
proof -
  let ?P = "unat P" and ?o = "unat offset"
  have P: "0 < ?P" using assms(1) by (simp add: word_less_nat_alt)
  have sz: "unat sz < 2 ^ 32" using unsigned_less [of sz] by simp
  have fo: "unat fo = ?o div ?P * ?P"
    unfolding fo_def using assms(3)
    by (subst u64_mult_no_wrap) (auto simp: unat_div intro: le_less_trans [OF div_times_less_eq_dividend])
  then show "fo \<le> offset" by (simp add: word_le_nat_alt)
  have "unat (ucast sz + P - 1) = unat sz + ?P - 1"
    using unat_add_pred [of "ucast sz" P] sz assms(2) P by simp
  then have "unat (ucast sz + P - 1 + offset mod P) = unat sz + ?P - 1 + ?o mod ?P"
    using sz assms(2) P mod_less_divisor [OF P, of ?o]
    by (subst u64_add_no_wrap) (auto simp: no_wrap_def unat_mod)
  then have d: "unat ((ucast sz + P - 1 + offset mod P) div P) = (unat sz + ?o mod ?P + ?P - 1) div ?P"
    using P by (simp add: unat_div algebra_simps)
  have b: "unat sz + ?o mod ?P \<le> (unat sz + ?o mod ?P + ?P - 1) div ?P * ?P"
      "(unat sz + ?o mod ?P + ?P - 1) div ?P * ?P \<le> unat sz + ?o mod ?P + ?P - 1"
    using ceil_mult [OF P] by simp_all
  have m: "?o mod ?P < ?P" using P by simp
  have "unat w = (unat sz + ?o mod ?P + ?P - 1) div ?P * ?P"
  proof -
    have "(unat sz + ?o mod ?P + ?P - 1) div ?P * ?P \<le> unat sz + ?o mod ?P + ?P" using b(2) by linarith
    also have "\<dots> < 2 ^ 64" using m sz assms(2) by simp
    finally have "(unat sz + ?o mod ?P + ?P - 1) div ?P * ?P < 2 ^ 64" .
    then show ?thesis unfolding w_def using d by (subst u64_mult_no_wrap) simp_all
  qed
  with b have w: "unat sz + ?o mod ?P \<le> unat w" "unat w \<le> unat sz + ?o mod ?P + ?P - 1" by simp_all
  have o: "?o = ?o div ?P * ?P + ?o mod ?P" by simp
  show "unat offset + unat sz \<le> unat fo + unat w" using fo w(1) o by linarith
  have "unat fo + unat w \<le> ?o + unat sz + ?P" using fo w(2) o P by linarith
  also have "\<dots> < 2 ^ 62" using sz assms(2,3) by simp
  finally show "unat fo + unat w < 2 ^ 62" .
qed

lemma resize_to_more:
  assumes "length f \<le> n"
  shows "length (resize_to n f) = n" "take k (resize_to n f) = (if k \<le> length f then take k f else take k (resize_to n f))"
  using assms by (auto simp: resize_to_def)

lemma remap_ok:
  assumes "room os (unat offset)" "os_good os" "0 < sz" "unat offset \<le> length (s_file s)"
    and s': "remap os offset sz s = (s', r)"
  shows "r = Inr ()" "s_mapped s'" "s_fileOffset s' \<le> offset" "s_dataOffset s' = s_dataOffset s"
    "unat offset + unat sz \<le> unat (s_fileOffset s') + unat (s_size s')"
    "unat (s_fileOffset s') + unat (s_size s') < 2 ^ 62"
    "unat (s_fileOffset s') + unat (s_size s') \<le> length (s_file s')"
    "\<And>k. k \<le> length (s_file s) \<Longrightarrow> take k (s_file s') = take k (s_file s)"
    "length (s_file s) \<le> length (s_file s')" "s_open s' = s_open s"
proof -
  let ?P = "os_page os"
  let ?fo = "offset div ?P * ?P" and ?w = "(ucast sz + ?P - 1 + offset mod ?P) div ?P * ?P"
  let ?n = "max (length (s_file s)) (unat ?fo + unat ?w)"
  let ?t = "s\<lparr>s_fileOffset := ?fo, s_size := ?w, s_file := resize_to ?n (s_file s), s_mapped := True\<rparr>"
  have w: "?fo \<le> offset" "unat offset + unat sz \<le> unat ?fo + unat ?w" "unat ?fo + unat ?w < 2 ^ 62"
    using remap_window [of ?P offset] assms(1) unfolding room_def by blast+
  have "\<not> isRemapNeeded offset sz ?t"
    by (rule outside_windowI) (use w assms(3) in simp_all)
  then have e: "s' = ?t" "r = Inr ()"
    using s' assms(2) by (simp_all add: remap_def Let_def os_good_def)
  show "r = Inr ()" by (rule e(2))
  show "s_mapped s'" "s_fileOffset s' \<le> offset" "s_dataOffset s' = s_dataOffset s"
    "unat offset + unat sz \<le> unat (s_fileOffset s') + unat (s_size s')"
    "unat (s_fileOffset s') + unat (s_size s') < 2 ^ 62" "s_open s' = s_open s"
    unfolding e(1) using w by simp_all
  show "unat (s_fileOffset s') + unat (s_size s') \<le> length (s_file s')"
    "length (s_file s) \<le> length (s_file s')"
    unfolding e(1) by (simp_all add: resize_to_more)
  show "take k (s_file s') = take k (s_file s)" if "k \<le> length (s_file s)" for k
    unfolding e(1) using that by (simp add: resize_to_def)
qed

lemma MiB: "MiBToBytes 1 = 0x100000"
  by (simp add: MiBToBytes_def push_bit_eq_mult)

lemma getBuffer_ok:
  assumes "room os (unat (s_dataOffset s))" "os_good os" "ser_ok s" "unat n < 2 ^ 32"
    and g: "getBuffer os n s = (s', r)"
  shows "\<exists>p. r = Inr p \<and> s_mapped s' \<and> unat (s_fileOffset s') + unat p = unat (s_dataOffset s) \<and>
    unat p + unat n \<le> unat (s_size s')"
    "ser_ok s'" "s_dataOffset s' = s_dataOffset s" "ser_data s' = ser_data s" "s_open s' = s_open s"
proof -
  let ?o = "s_dataOffset s"
  have lim: "unat ?o < 2 ^ 60" using assms(1) by (simp add: room_def)
  have un: "unat (ucast n :: u32) = unat n"
    using assms(4) by (simp add: unsigned_ucast_eq unsigned_take_bit_eq take_bit_nat_eq_self)
  have "s_mapped s' \<and> s_fileOffset s' \<le> ?o \<and> s_dataOffset s' = ?o \<and>
      unat ?o + unat n \<le> unat (s_fileOffset s') + unat (s_size s') \<and> 0 < s_size s' \<and>
      unat (s_fileOffset s') + unat (s_size s') < 2 ^ 62 \<and>
      unat (s_fileOffset s') + unat (s_size s') \<le> length (s_file s') \<and>
      take (unat ?o) (s_file s') = take (unat ?o) (s_file s) \<and>
      length (s_file s) \<le> length (s_file s') \<and> r = Inr (?o - s_fileOffset s') \<and> s_open s' = s_open s"
  proof (cases "isRemapNeeded ?o (ucast n) s")
    case True
    let ?m = "max (MiBToBytes 1) n"
    have m: "unat ?m < 2 ^ 32" "unat n \<le> unat ?m" "0 < unat ?m"
      using assms(4) by (auto simp: MiB max_def word_le_nat_alt word_less_nat_alt)
    have um: "unat (ucast ?m :: u32) = unat ?m"
      using m(1) by (simp add: unsigned_ucast_eq unsigned_take_bit_eq take_bit_nat_eq_self)
    obtain q where q: "remap os ?o (ucast ?m) s = (s', q)" "r = and_then q (\<lambda>_. Inr (?o - s_fileOffset s'))"
      using g True by (auto simp: getBuffer_def Let_def split: prod.splits)
    have pos: "(0 :: u32) < ucast ?m" using um m(3) by (simp add: word_less_nat_alt)
    have len: "unat ?o \<le> length (s_file s)" using assms(3) by (simp add: ser_ok_def)
    note R = remap_ok [OF assms(1,2) pos len q(1)]
    have "0 < s_size s'" using R(3,5) um m(3) by (auto simp: word_less_nat_alt word_le_nat_alt)
    then show ?thesis using R um m(2) q(2) len by auto
  next
    case False
    have s: "s' = s" "r = Inr (?o - s_fileOffset s)"
      using g False by (auto simp: getBuffer_def Let_def)
    have mp: "s_mapped s" using False by (simp add: isRemapNeeded_def Let_def)
    then have ok: "0 < s_size s" "unat (s_fileOffset s) + unat (s_size s) < 2 ^ 62"
        "unat (s_fileOffset s) + unat (s_size s) \<le> length (s_file s)"
      using assms(3) by (simp_all add: ser_ok_def)
    have "unat (s_fileOffset s) + unat (s_size s) < 2 ^ 64" using ok(2) by simp
    moreover have "unat ?o + unat (ucast n :: u32) < 2 ^ 64" using lim un assms(4) by simp
    ultimately show ?thesis
      using inside_window [OF False _ ok(1)] un ok s by simp
  qed
  note A = this
  have p: "unat (s_fileOffset s') + unat (?o - s_fileOffset s') = unat ?o"
    using A by (simp add: unat_sub word_le_nat_alt)
  with A show "\<exists>p. r = Inr p \<and> s_mapped s' \<and> unat (s_fileOffset s') + unat p = unat (s_dataOffset s) \<and>
    unat p + unat n \<le> unat (s_size s')" by auto
  show "ser_ok s'" using A assms(3) by (auto simp: ser_ok_def)
  show "s_dataOffset s' = ?o" "s_open s' = s_open s" using A by auto
  then show "ser_data s' = ser_data s" using A by (simp add: ser_data_def)
qed

text \<open>A write into the buffer that was handed out, and the step of the data offset.\<close>

lemma store_ok:
  assumes "ser_ok s" "s_mapped s" "unat (s_fileOffset s) + unat p = unat (s_dataOffset s)"
    "unat p + length bs \<le> unat (s_size s)" "n = of_nat (length bs)"
  obtains s' where "store p bs s = (s', Inr ())" "ser_ok s'" "ser_data s' = ser_data s"
    "s_dataOffset s' = s_dataOffset s"
    "ser_ok (moveDataPointer n s')" "ser_data (moveDataPointer n s') = ser_data s @ bs"
    "unat (s_dataOffset (moveDataPointer n s')) = unat (s_dataOffset s) + length bs"
    "s_open s' = s_open s"
proof
  let ?d = "unat (s_dataOffset s)"
  let ?f = "take ?d (s_file s) @ bs @ drop (?d + length bs) (s_file s)"
  let ?s = "s\<lparr>s_file := ?f\<rparr>"
  have fit: "?d + length bs \<le> unat (s_fileOffset s) + unat (s_size s)"
    "unat (s_fileOffset s) + unat (s_size s) \<le> length (s_file s)"
    "unat (s_fileOffset s) + unat (s_size s) < 2 ^ 62" "s_fileOffset s \<le> s_dataOffset s"
    using assms by (simp_all add: ser_ok_def)
  show "store p bs s = (?s, Inr ())"
    using assms fit by (simp add: store_def Let_def)
  have len: "length ?f = length (s_file s)" using fit by simp
  show "ser_ok ?s" using assms(1) len by (simp add: ser_ok_def)
  show "ser_data ?s = ser_data s" using fit by (simp add: ser_data_def)
  have n: "unat n = length bs"
    using fit assms(5) by (simp add: unat_of_nat)
  have dn: "unat (s_dataOffset s + n) = ?d + length bs"
    using n fit by (simp add: u64_add_no_wrap no_wrap_def)
  then show "unat (s_dataOffset (moveDataPointer n ?s)) = ?d + length bs"
    by (simp add: moveDataPointer_def)
  show "ser_data (moveDataPointer n ?s) = ser_data s @ bs"
    using dn fit by (simp add: ser_data_def moveDataPointer_def)
  show "ser_ok (moveDataPointer n ?s)"
    using assms(1,2) len fit dn by (simp add: ser_ok_def moveDataPointer_def word_le_nat_alt)
qed simp_all

subsection \<open>Serialised messages\<close>

text \<open>What a message becomes in the file: the length and the bytes.\<close>

definition frame :: "u8 list \<Rightarrow> u8 list" where
  "frame bs = fst (encodeVarint32 MAX_VARINT32_BYTES (of_nat (length bs))) @ bs"

text \<open>A message with its bytes: what \<open>ByteSizeLong\<close> and \<open>SerializeToArray\<close> document.\<close>

definition serializes :: "('m \<Rightarrow> u64) \<Rightarrow> ('m \<Rightarrow> u8 list option) \<Rightarrow> 'm \<Rightarrow> u8 list \<Rightarrow> bool" where
  "serializes ByteSizeLong SerializeToArray m bs \<longleftrightarrow>
     SerializeToArray m = Some bs \<and> ByteSizeLong m = of_nat (length bs) \<and> length bs < 2 ^ 31"

lemma room_mono: "room os hi \<Longrightarrow> lo \<le> hi \<Longrightarrow> room os lo"
  by (simp add: room_def)

lemma frame_length: "length bs < length (frame bs)" "length (frame bs) \<le> length bs + 5"
proof -
  obtain hd where "encodeVarint32 MAX_VARINT32_BYTES (of_nat (length bs)) = (hd, length hd)"
      "0 < length hd" "length hd \<le> MAX_VARINT32_BYTES"
    using encode_fits by blast
  then show "length bs < length (frame bs)" "length (frame bs) \<le> length bs + 5"
    by (simp_all add: frame_def MAX_VARINT32_BYTES_def)
qed

text \<open>The first half of a serialisation: the length goes in.\<close>

lemma write_length:
  assumes "room os (unat (s_dataOffset s) + 5)" "os_good os" "ser_ok s"
  obtains hd s1 p1 s2 where "encodeVarint32 MAX_VARINT32_BYTES v = (hd, length hd)" "0 < length hd"
    "length hd \<le> 5" "getBuffer os (of_nat MAX_VARINT32_BYTES) s = (s1, Inr p1)"
    "store p1 hd s1 = (s2, Inr ())" "ser_ok (moveDataPointer (of_nat (length hd)) s2)"
    "ser_data (moveDataPointer (of_nat (length hd)) s2) = ser_data s @ hd"
    "unat (s_dataOffset (moveDataPointer (of_nat (length hd)) s2)) = unat (s_dataOffset s) + length hd"
    "s_open (moveDataPointer (of_nat (length hd)) s2) = s_open s"
proof -
  obtain hd where hd: "encodeVarint32 MAX_VARINT32_BYTES v = (hd, length hd)" "0 < length hd" "length hd \<le> 5"
    using encode_fits unfolding MAX_VARINT32_BYTES_def by blast
  obtain s1 r1 where g1: "getBuffer os (of_nat MAX_VARINT32_BYTES) s = (s1, r1)" by force
  have five: "unat (of_nat MAX_VARINT32_BYTES :: u64) = 5" by (simp add: MAX_VARINT32_BYTES_def)
  have rm: "room os (unat (s_dataOffset s))" by (rule room_mono [OF assms(1)]) simp
  note G1 = getBuffer_ok [OF rm assms(2,3) _ g1]
  obtain p1 where p1: "r1 = Inr p1" "s_mapped s1" "unat (s_fileOffset s1) + unat p1 = unat (s_dataOffset s1)"
      "unat p1 + length hd \<le> unat (s_size s1)"
    using G1(1,3) five hd(3) by auto
  have ok1: "ser_ok s1" using G1(2) five by simp
  obtain s2 where "store p1 hd s1 = (s2, Inr ())"
      "ser_ok (moveDataPointer (of_nat (length hd)) s2)"
      "ser_data (moveDataPointer (of_nat (length hd)) s2) = ser_data s1 @ hd"
      "unat (s_dataOffset (moveDataPointer (of_nat (length hd)) s2)) = unat (s_dataOffset s1) + length hd"
      "s_open s2 = s_open s1"
    by (rule store_ok [OF ok1 p1(2,3,4) refl]) blast
  then show thesis
    using that hd g1 p1(1) G1(3-5) five by (simp add: moveDataPointer_def)
qed

lemma ser_serialize_appends:
  assumes "room os (unat (s_dataOffset s) + length bs + 5)" "os_good os" "ser_ok s"
    "serializes B S m bs"
  obtains s' where "ser_serialize B S os m s = (s', Inr True)" "ser_ok s'"
    "ser_data s' = ser_data s @ frame bs" "s_open s' = s_open s"
    "unat (s_dataOffset s') = unat (s_dataOffset s) + length (frame bs)"
proof -
  let ?n = "of_nat (length bs) :: u64"
  have lb: "length bs < 2 ^ 31" "S m = Some bs" "B m = ?n" using assms(4) by (simp_all add: serializes_def)
  have un: "unat ?n = length bs" using lb(1) by (simp add: unat_of_nat)
  have uc: "(ucast ?n :: u32) = of_nat (length bs)"
    using lb(1) un
    by (simp add: word_unat_eq_iff unsigned_ucast_eq unsigned_take_bit_eq take_bit_nat_eq_self unat_of_nat)
  have rm: "room os (unat (s_dataOffset s) + 5)" by (rule room_mono [OF assms(1)]) simp
  obtain hd s1 p1 s2 where w: "encodeVarint32 MAX_VARINT32_BYTES (of_nat (length bs)) = (hd, length hd)"
    "0 < length hd" "length hd \<le> 5" "getBuffer os (of_nat MAX_VARINT32_BYTES) s = (s1, Inr p1)"
    "store p1 hd s1 = (s2, Inr ())" "ser_ok (moveDataPointer (of_nat (length hd)) s2)"
    "ser_data (moveDataPointer (of_nat (length hd)) s2) = ser_data s @ hd"
    "unat (s_dataOffset (moveDataPointer (of_nat (length hd)) s2)) = unat (s_dataOffset s) + length hd"
    "s_open (moveDataPointer (of_nat (length hd)) s2) = s_open s"
    by (rule write_length [OF rm assms(2,3)]) blast
  let ?s2 = "moveDataPointer (of_nat (length hd)) s2"
  obtain s3 r3 where g3: "getBuffer os ?n ?s2 = (s3, r3)" by force
  have rm3: "room os (unat (s_dataOffset ?s2))"
    by (rule room_mono [OF assms(1)]) (use w(3,8) in simp)
  have n32: "unat ?n < 2 ^ 32" using un lb(1) by simp
  note G3 = getBuffer_ok [OF rm3 assms(2) w(6) n32 g3]
  obtain p3 where p3: "r3 = Inr p3" "s_mapped s3" "unat (s_fileOffset s3) + unat p3 = unat (s_dataOffset s3)"
      "unat p3 + length bs \<le> unat (s_size s3)"
    using G3(1,3) un by auto
  obtain s4 where s4: "store p3 bs s3 = (s4, Inr ())" "ser_ok (moveDataPointer ?n s4)"
      "ser_data (moveDataPointer ?n s4) = ser_data s3 @ bs"
      "unat (s_dataOffset (moveDataPointer ?n s4)) = unat (s_dataOffset s3) + length bs"
      "s_open s4 = s_open s3"
    by (rule store_ok [OF G3(2) p3(2,3,4) refl]) blast
  show thesis
  proof (rule that)
    show "ser_serialize B S os m s = (moveDataPointer ?n s4, Inr True)"
      using w(1,2,4,5) g3 p3(1) s4(1) lb uc by (simp add: ser_serialize_def Let_def)
    show "ser_ok (moveDataPointer ?n s4)" by (rule s4(2))
    show "ser_data (moveDataPointer ?n s4) = ser_data s @ frame bs"
      using s4(3) G3(4) w(1,7) by (simp add: frame_def)
    show "s_open (moveDataPointer ?n s4) = s_open s"
      using s4(5) G3(5) w(9) by (simp add: moveDataPointer_def)
    show "unat (s_dataOffset (moveDataPointer ?n s4)) = unat (s_dataOffset s) + length (frame bs)"
      using s4(4) G3(3) w(1,8) by (simp add: frame_def)
  qed
qed

text \<open>A whole queue, message by message, as the trace jobs write it.\<close>

fun serialize_all ::
    "('m \<Rightarrow> u64) \<Rightarrow> ('m \<Rightarrow> u8 list option) \<Rightarrow> os \<Rightarrow> 'm list \<Rightarrow> serializer \<Rightarrow> serializer \<times> bool res" where
  "serialize_all B S os [] s = (s, Inr True)"
| "serialize_all B S os (m # ms) s =
     (case ser_serialize B S os m s of
        (s, Inr True) \<Rightarrow> serialize_all B S os ms s
      | (s, r) \<Rightarrow> (s, r))"

lemma serialize_all_appends:
  assumes "room os (unat (s_dataOffset s) + sum_list (map (\<lambda>bs. length bs + 5) bss))" "os_good os"
    "ser_ok s" "list_all2 (serializes B S) ms bss"
  shows "\<exists>s'. serialize_all B S os ms s = (s', Inr True) \<and> ser_ok s' \<and> s_open s' = s_open s \<and>
    ser_data s' = ser_data s @ concat (map frame bss)"
  using assms(4,1,3)
proof (induction ms bss arbitrary: s rule: list_all2_induct)
  case Nil
  then show ?case by simp
next
  case (Cons m ms bs bss)
  have "room os (unat (s_dataOffset s) + length bs + 5)"
    by (rule room_mono [OF Cons.prems(1)]) simp
  then obtain s1 where s1: "ser_serialize B S os m s = (s1, Inr True)" "ser_ok s1"
      "ser_data s1 = ser_data s @ frame bs" "s_open s1 = s_open s"
      "unat (s_dataOffset s1) = unat (s_dataOffset s) + length (frame bs)"
    using ser_serialize_appends [OF _ assms(2) Cons.prems(2) Cons.hyps(1)] by blast
  have "room os (unat (s_dataOffset s1) + sum_list (map (\<lambda>bs. length bs + 5) bss))"
    by (rule room_mono [OF Cons.prems(1)]) (use s1(5) frame_length(2) [of bs] in simp)
  from Cons.IH [OF this s1(2)] s1 show ?case by auto
qed

lemma close_cuts:
  assumes "os_good os" "ser_ok s" "s_open s"
  shows "\<exists>s'. ser_close os s = (s', True) \<and> s_file s' = ser_data s \<and> \<not> s_open s' \<and> \<not> s_mapped s'"
  using assms by (simp add: ser_close_def os_good_def resize_to_def ser_data_def ser_ok_def)

lemma new_serializer_ok: "ser_ok (FileTraceSerializer f)" "ser_data (FileTraceSerializer f) = []"
  by (simp_all add: ser_ok_def FileTraceSerializer_def ser_data_def)


subsection \<open>Property\<close>

text \<open>
  Property C18. Serialising a message appends to the trace file the length of the message and its
  bytes and nothing else, wherever the window lies and whether it has to move: it returns true,
  no store leaves the window, and the state is well-formed again.
\<close>

theorem serialize_appends_frame:
  assumes "room os (unat (s_dataOffset s) + length bs + 5)" "os_good os" "ser_ok s"
    "serializes B S m bs"
  shows "\<exists>s'. ser_serialize B S os m s = (s', Inr True) \<and> ser_ok s' \<and> ser_data s' = ser_data s @ frame bs"
  using ser_serialize_appends [OF assms] by metis

theorem serialize_appends_frame_witness:
  "\<exists>s. ser_serialize (\<lambda>m. of_nat (length m)) Some
       \<lparr>os_page = 4096, os_open = True, os_fallocate = (\<lambda>_ _. True), os_mmap = (\<lambda>_ _. True),
        os_ftruncate = True, os_fchmod = True, os_fsync = True, os_close = True\<rparr>
       [1, 2, 3] (FileTraceSerializer []) = (s, Inr True) \<and> ser_data s = frame [1, 2, 3]"
proof -
  have "serializes (\<lambda>m. of_nat (length m)) Some [1, 2, 3 :: u8] [1, 2, 3]" by (simp add: serializes_def)
  from serialize_appends_frame [OF _ _ new_serializer_ok(1) [of "[]"] this,
    of "\<lparr>os_page = 4096, os_open = True, os_fallocate = (\<lambda>_ _. True), os_mmap = (\<lambda>_ _. True),
        os_ftruncate = True, os_fchmod = True, os_fsync = True, os_close = True\<rparr>"]
  show ?thesis
    using new_serializer_ok(2) [of "[]"] by (auto simp: room_def os_good_def FileTraceSerializer_def)
qed

text \<open>A message that does not serialise is refused, but its length stays in the file.\<close>

lemma failed_message_leaves_length:
  assumes "room os (unat (s_dataOffset s) + 5)" "os_good os" "ser_ok s" "S m = None" "unat (B m) < 2 ^ 31"
  shows "\<exists>s'. ser_serialize B S os m s = (s', Inr False) \<and>
    ser_data s' = ser_data s @ fst (encodeVarint32 MAX_VARINT32_BYTES (ucast (B m)))"
proof -
  obtain hd s1 p1 s2 where w: "encodeVarint32 MAX_VARINT32_BYTES (ucast (B m)) = (hd, length hd)"
    "0 < length hd" "length hd \<le> 5" "getBuffer os (of_nat MAX_VARINT32_BYTES) s = (s1, Inr p1)"
    "store p1 hd s1 = (s2, Inr ())" "ser_ok (moveDataPointer (of_nat (length hd)) s2)"
    "ser_data (moveDataPointer (of_nat (length hd)) s2) = ser_data s @ hd"
    "unat (s_dataOffset (moveDataPointer (of_nat (length hd)) s2)) = unat (s_dataOffset s) + length hd"
    by (rule write_length [OF assms(1-3)]) blast
  let ?s2 = "moveDataPointer (of_nat (length hd)) s2"
  obtain s3 r3 where g3: "getBuffer os (B m) ?s2 = (s3, r3)" by force
  have rm3: "room os (unat (s_dataOffset ?s2))"
    by (rule room_mono [OF assms(1)]) (use w(3,8) in simp)
  have "unat (B m) < 2 ^ 32" using assms(5) by simp
  note G3 = getBuffer_ok [OF rm3 assms(2) w(6) this g3]
  obtain p3 where "r3 = Inr p3" using G3(1) by auto
  then have "ser_serialize B S os m s = (s3, Inr False)"
    using w(1,2,4,5) g3 assms(4) by (simp add: ser_serialize_def Let_def)
  then show ?thesis using G3(4) w(1,7) by simp
qed

end
