(* ===== verification/Trace_Reader.thy ===== *)
theory Trace_Reader
  imports Trace_Serializer
begin

section \<open>Reading a trace file\<close>

text \<open>
  \<open>TraceFileReader\<close> of source/octf/trace/parser/TraceFileReader.cpp maps the file of one queue
  and reads its framed messages one after the other. The state holds the bytes from \<open>m_addr\<close> to
  the end of the mapping, whose number is \<open>m_size\<close>, and the distance of \<open>m_addr\<close> from the address
  that \<open>mmap\<close> returned. The file system is the record \<open>trace_file\<close>: the bytes when the file can
  be opened and whether \<open>fstat\<close> and \<open>mmap\<close> succeed. \<open>ParseFromArray\<close> is a parameter.
\<close>

record trace_file =
  tf_bytes :: "u8 list option"
  tf_stat :: bool
  tf_mmap :: bool

record reader =
  rd_fd :: bool
  rd_bytes :: "u8 list"
  rd_pos :: nat
  rd_fileSize :: nat
  rd_mapped :: bool
  rd_error :: bool
  rd_queue :: u32

definition TraceFileReader :: "u32 \<Rightarrow> reader" where
  "TraceFileReader queue =
     \<lparr>rd_fd = False, rd_bytes = [], rd_pos = 0, rd_fileSize = 0, rd_mapped = False,
      rd_error = False, rd_queue = queue\<rparr>"

text \<open>The calls that give resources back. A failed \<open>init\<close> closes the file and keeps \<open>m_fd\<close>.\<close>

datatype release = Munmap nat nat | Close

definition rd_init :: "trace_file \<Rightarrow> reader \<Rightarrow> reader \<times> release list \<times> unit res" where
  "rd_init f r =
     (if rd_fd r then (r, [], Inr ())
      else case tf_bytes f of
             None \<Rightarrow> (r, [], Inl (Octf_Exception ''Could not open trace file.''))
           | Some bs \<Rightarrow>
               let r = r\<lparr>rd_fd := True\<rparr>
               in if \<not> tf_stat f
                  then (r, [Close], Inl (Octf_Exception ''Could not get trace file status.''))
                  else let r = r\<lparr>rd_fileSize := length bs, rd_bytes := bs\<rparr>
                       in if bs = [] then (r, [], Inr ())
                          else if \<not> tf_mmap f
                               then (r\<lparr>rd_mapped := False\<rparr>, [Close],
                                     Inl (Octf_Exception ''Could not map trace file.''))
                               else (r\<lparr>rd_mapped := True, rd_pos := 0\<rparr>, [], Inr ()))"

text \<open>\<open>munmap\<close> is given \<open>m_addr\<close> where the reading has moved it.\<close>

definition rd_deinit :: "reader \<Rightarrow> reader \<times> release list" where
  "rd_deinit r =
     (if rd_fd r
      then (r\<lparr>rd_mapped := False, rd_fd := False\<rparr>,
            (if rd_mapped r then [Munmap (rd_pos r) (rd_fileSize r)] else []) @ [Close])
      else (r, []))"

definition rd_isFinished :: "reader \<Rightarrow> bool" where
  "rd_isFinished r \<longleftrightarrow> rd_bytes r = []"

definition rd_advance :: "nat \<Rightarrow> reader \<Rightarrow> reader" where
  "rd_advance n r = r\<lparr>rd_bytes := drop n (rd_bytes r), rd_pos := rd_pos r + n\<rparr>"

definition readTraceEvent :: "(u8 list \<Rightarrow> 'm option) \<Rightarrow> reader \<Rightarrow> reader \<times> 'm res" where
  "readTraceEvent ParseFromArray r =
     (if rd_error r then (r, Inl (Octf_Exception ''Attempted to read from parser which had failed''))
      else if rd_isFinished r then (r, Inl (Octf_Exception ''Attempted to read from fully parsed file''))
      else if \<not> rd_mapped r then (r, Inl (Undefined_Behaviour ''read through a null pointer''))
      else let (v, bytesRead) = decodeVarint32 (rd_bytes r);
               messageLength = (case v of None \<Rightarrow> 0 | Some v \<Rightarrow> sint v)
           in if bytesRead = 0 \<or> length (rd_bytes r) < bytesRead
              then (r\<lparr>rd_error := True\<rparr>, Inl (Octf_Exception ''Couldn't parse size of trace event''))
              else let r = rd_advance bytesRead r
                   in case (if int (length (rd_bytes r)) < messageLength \<or> messageLength < 0 then None
                            else ParseFromArray (take (nat messageLength) (rd_bytes r))) of
                        None \<Rightarrow> (r\<lparr>rd_error := True\<rparr>,
                                 Inl (Octf_Exception ''Couldn't parse valid trace event''))
                      | Some m \<Rightarrow> (rd_advance (nat messageLength) r, Inr m))"

subsection \<open>Framed messages\<close>

definition rd_ready :: "reader \<Rightarrow> bool" where
  "rd_ready r \<longleftrightarrow> rd_fd r \<and> \<not> rd_error r \<and> (rd_bytes r \<noteq> [] \<longrightarrow> rd_mapped r)"

lemma sint_small:
  assumes "n < 2 ^ 31"
  shows "sint (of_nat n :: u32) = int n"
proof -
  have "uint (of_nat n :: u32) = int n" using assms by (simp add: uint_nat unat_of_nat)
  moreover have "signed_take_bit 31 (int n) = int n"
    using assms by (intro signed_take_bit_int_eq_self) simp_all
  ultimately show ?thesis by (simp add: sint_uint)
qed

lemma read_frame:
  assumes "rd_ready r" "rd_bytes r = frame bs @ rest" "P bs = Some m" "length bs < 2 ^ 31"
  shows "\<exists>r'. readTraceEvent P r = (r', Inr m) \<and> rd_bytes r' = rest \<and> rd_ready r' \<and>
    rd_queue r' = rd_queue r \<and> rd_fd r' = rd_fd r \<and> rd_fileSize r' = rd_fileSize r \<and>
    rd_pos r' = rd_pos r + length (frame bs)"
proof -
  let ?v = "of_nat (length bs) :: u32"
  obtain hd where hd: "encodeVarint32 MAX_VARINT32_BYTES ?v = (hd, length hd)" "0 < length hd"
      "length hd \<le> MAX_VARINT32_BYTES"
    using encode_fits by blast
  have f: "frame bs = hd @ bs" using hd(1) by (simp add: frame_def)
  have d: "decodeVarint32 (rd_bytes r) = (Some ?v, length hd)"
    using decode_encode [OF hd, of "bs @ rest"] f assms(2) by simp
  have ne: "rd_bytes r \<noteq> []" using assms(2) f hd(2) by auto
  then have mp: "rd_mapped r" "\<not> rd_error r" "rd_fd r" using assms(1) by (simp_all add: rd_ready_def)
  have "readTraceEvent P r = (rd_advance (length bs) (rd_advance (length hd) r), Inr m)"
    using d ne mp hd(2) sint_small [OF assms(4)] assms(2,3) f
    by (simp add: readTraceEvent_def rd_isFinished_def rd_advance_def Let_def)
  then show ?thesis using assms(2) f mp
    by (auto simp: rd_advance_def rd_ready_def)
qed

lemma read_nonempty:
  assumes "readTraceEvent P r = (r', Inr m)"
  shows "length (rd_bytes r') < length (rd_bytes r)"
  using assms
  by (auto simp: readTraceEvent_def rd_isFinished_def rd_advance_def Let_def
      split: if_splits option.splits prod.splits)

lemma init_reads_file:
  assumes "tf_bytes f = Some bs" "tf_stat f" "tf_mmap f"
  shows "\<exists>r. rd_init f (TraceFileReader q) = (r, [], Inr ()) \<and> rd_bytes r = bs \<and> rd_ready r \<and>
    rd_queue r = q \<and> rd_fileSize r = length bs \<and> rd_pos r = 0"
  using assms by (auto simp: rd_init_def TraceFileReader_def rd_ready_def Let_def)

text \<open>The mapping starts at 0; after a read \<open>deinit\<close> asks to unmap from elsewhere.\<close>

lemma deinit_after_read:
  assumes "rd_ready r" "rd_bytes r = frame bs @ rest" "P bs = Some m" "length bs < 2 ^ 31" "rest \<noteq> []"
    "readTraceEvent P r = (r', Inr m)"
  shows "\<exists>p. 0 < p \<and> snd (rd_deinit r') = [Munmap p (rd_fileSize r), Close]"
proof -
  obtain s where s: "readTraceEvent P r = (s, Inr m)" "rd_bytes s = rest" "rd_ready s" "rd_fd s = rd_fd r"
      "rd_fileSize s = rd_fileSize r" "rd_pos s = rd_pos r + length (frame bs)"
    using read_frame [where P = P, OF assms(1-4)] by blast
  have "0 < length (frame bs)" using frame_length(1) [of bs] by (rule le_less_trans [OF le0])
  then show ?thesis using s assms(5,6) by (auto simp: rd_deinit_def rd_ready_def)
qed

end
