(* ===== verification/Trace_Parser.thy ===== *)
theory Trace_Parser
  imports Trace_Reader "HOL-Library.Multiset"
begin

section \<open>Merging the trace files\<close>

text \<open>
  \<open>TraceFileParser\<close> of source/octf/trace/parser/TraceFileParser.cpp merges the files of a trace's
  queues: \<open>m_events\<close> is a \<open>std::set\<close> with the next event of every queue, ordered by the handler's
  \<open>compareEvents\<close>, the parameter \<open>cmp\<close>. \<open>processEvents\<close> of trace/parser/TraceEventHandler.h takes
  the smallest event and handles it until the parser is finished.

  The set is its sorted list; an insertion finds its place by \<open>cmp\<close> and does nothing when the
  set has an equivalent element, as \<open>std::set::insert\<close> documents for an order.
\<close>

fun event_insert :: "('m \<Rightarrow> 'm \<Rightarrow> bool) \<Rightarrow> nat \<times> 'm \<Rightarrow> (nat \<times> 'm) list \<Rightarrow> (nat \<times> 'm) list" where
  "event_insert cmp x [] = [x]"
| "event_insert cmp x (y # ys) =
     (if cmp (snd y) (snd x) then y # event_insert cmp x ys
      else if cmp (snd x) (snd y) then x # y # ys else y # ys)"

record 'm trace_parser =
  tp_readers :: "reader list"
  tp_events :: "(nat \<times> 'm) list"

definition TraceFileParser :: "'m trace_parser" where
  "TraceFileParser = \<lparr>tp_readers = [], tp_events = []\<rparr>"

datatype trace_state = UNDEFINED | NOT_STARTED | INITIALIZING | RUNNING | COMPLETE | ERROR

record trace_summary =
  sum_state :: trace_state
  sum_queueCount :: int

fun open_readers :: "(nat \<Rightarrow> trace_file) \<Rightarrow> nat list \<Rightarrow> 'm trace_parser \<Rightarrow> 'm trace_parser \<times> unit res" where
  "open_readers files [] p = (p, Inr ())"
| "open_readers files (q # qs) p =
     (case rd_init (files q) (TraceFileReader (of_nat q)) of
        (r, _, Inl e) \<Rightarrow> (p\<lparr>tp_readers := tp_readers p @ [r]\<rparr>, Inl e)
      | (r, _, Inr _) \<Rightarrow> open_readers files qs (p\<lparr>tp_readers := tp_readers p @ [r]\<rparr>))"

text \<open>The next event of queue \<open>i\<close> goes into the set.\<close>

definition fetch_event ::
    "(u8 list \<Rightarrow> 'm option) \<Rightarrow> ('m \<Rightarrow> 'm \<Rightarrow> bool) \<Rightarrow> nat \<Rightarrow> 'm trace_parser \<Rightarrow> 'm trace_parser \<times> unit res" where
  "fetch_event parse cmp i p =
     (case readTraceEvent parse (tp_readers p ! i) of
        (r, Inl e) \<Rightarrow> (p\<lparr>tp_readers := (tp_readers p)[i := r]\<rparr>, Inl e)
      | (r, Inr m) \<Rightarrow>
          (p\<lparr>tp_readers := (tp_readers p)[i := r], tp_events := event_insert cmp (i, m) (tp_events p)\<rparr>, Inr ()))"

fun first_events ::
    "(u8 list \<Rightarrow> 'm option) \<Rightarrow> ('m \<Rightarrow> 'm \<Rightarrow> bool) \<Rightarrow> nat list \<Rightarrow> 'm trace_parser \<Rightarrow> 'm trace_parser \<times> unit res" where
  "first_events parse cmp [] p = (p, Inr ())"
| "first_events parse cmp (i # is) p =
     (if rd_isFinished (tp_readers p ! i) then first_events parse cmp is p
      else case fetch_event parse cmp i p of
             (p, Inl e) \<Rightarrow> (p, Inl e)
           | (p, Inr _) \<Rightarrow> first_events parse cmp is p)"

definition parser_init ::
    "(u8 list \<Rightarrow> 'm option) \<Rightarrow> ('m \<Rightarrow> 'm \<Rightarrow> bool) \<Rightarrow> trace_summary option \<Rightarrow> (nat \<Rightarrow> trace_file) \<Rightarrow>
     'm trace_parser \<Rightarrow> 'm trace_parser \<times> unit res" where
  "parser_init parse cmp summary files p =
     (case summary of
        None \<Rightarrow> (p, Inl (Octf_Exception ''Could not parse specified trace. No summary file found.''))
      | Some s \<Rightarrow>
          if sum_state s \<noteq> COMPLETE
          then (p, Inl (Octf_Exception ''Specified trace is not in 'complete' state.''))
          else if sum_queueCount s \<le> 0
          then (p, Inl (Octf_Exception ''Trace summary contains invalid values.''))
          else case open_readers files [0..<nat (sum_queueCount s)] p of
                 (p, Inl e) \<Rightarrow> (p, Inl e)
               | (p, Inr _) \<Rightarrow> first_events parse cmp [0..<length (tp_readers p)] p)"

definition parser_deinit :: "'m trace_parser \<Rightarrow> 'm trace_parser \<times> release list" where
  "parser_deinit p =
     (p\<lparr>tp_readers := [], tp_events := []\<rparr>, concat (map (\<lambda>r. snd (rd_deinit r)) (tp_readers p)))"

definition parseTraceEvent ::
    "(u8 list \<Rightarrow> 'm option) \<Rightarrow> ('m \<Rightarrow> 'm \<Rightarrow> bool) \<Rightarrow> 'm trace_parser \<Rightarrow> 'm trace_parser \<times> 'm res" where
  "parseTraceEvent parse cmp p =
     (case tp_events p of
        [] \<Rightarrow> (p, Inl (Octf_Exception
                  ''Attempted to parse event using parser which has finished or wasn't initialized''))
      | (q, m) # rest \<Rightarrow>
          let p = p\<lparr>tp_events := rest\<rparr>
          in if \<not> q < length (tp_readers p) then (p, Inl (Undefined_Behaviour ''m_readers out of range''))
             else if \<not> rd_isFinished (tp_readers p ! q)
             then (case fetch_event parse cmp q p of
                     (p, Inl e) \<Rightarrow> (p, Inl e) | (p, Inr _) \<Rightarrow> (p, Inr m))
             else (p, Inr m))"

definition parser_isFinished :: "'m trace_parser \<Rightarrow> bool" where
  "parser_isFinished p \<longleftrightarrow> (\<forall>r \<in> set (tp_readers p). rd_isFinished r) \<and> tp_events p = []"

subsection \<open>Handling all events\<close>

definition bytes_left :: "'m trace_parser \<Rightarrow> nat" where
  "bytes_left p = sum_list (map (\<lambda>r. length (rd_bytes r)) (tp_readers p)) + length (tp_events p)"

lemma event_insert_length: "length (event_insert cmp x ys) \<le> Suc (length ys)"
  by (induction ys) auto

lemma sum_list_update_less:
  fixes f :: "'a \<Rightarrow> nat"
  assumes "i < length xs" "f y < f (xs ! i)"
  shows "sum_list (map f (xs[i := y])) < sum_list (map f xs)"
  using assms
proof (induction xs arbitrary: i)
  case (Cons x xs)
  then show ?case by (cases i) simp_all
qed simp

lemma parse_shrinks:
  assumes "parseTraceEvent parse cmp p = (p', Inr m)"
  shows "bytes_left p' < bytes_left p"
proof -
  obtain q rest where e: "tp_events p = (q, m) # rest" and q: "q < length (tp_readers p)"
    using assms by (auto simp: parseTraceEvent_def Let_def split: list.splits if_splits sum.splits prod.splits)
  show ?thesis
  proof (cases "rd_isFinished (tp_readers p ! q)")
    case True
    then show ?thesis using assms e q by (auto simp: parseTraceEvent_def Let_def bytes_left_def)
  next
    case False
    then obtain r m' where r: "readTraceEvent parse (tp_readers p ! q) = (r, Inr m')"
        "p' = p\<lparr>tp_readers := (tp_readers p)[q := r], tp_events := event_insert cmp (q, m') rest\<rparr>"
      using assms e q
      by (auto simp: parseTraceEvent_def Let_def fetch_event_def split: sum.splits prod.splits)
    then have "sum_list (map (\<lambda>r. length (rd_bytes r)) (tp_readers p')) <
        sum_list (map (\<lambda>r. length (rd_bytes r)) (tp_readers p))"
      using q read_nonempty [OF r(1)] by (simp add: sum_list_update_less)
    then show ?thesis
      using r(2) e event_insert_length [of cmp "(q, m')" rest] by (simp add: bytes_left_def)
  qed
qed

text \<open>\<open>cancelled n\<close>: a request to cancel is seen at the \<open>n\<close>-th test.\<close>

function handler_processEvents ::
    "(u8 list \<Rightarrow> 'm option) \<Rightarrow> ('m \<Rightarrow> 'm \<Rightarrow> bool) \<Rightarrow> (nat \<Rightarrow> bool) \<Rightarrow> ('m \<Rightarrow> 's \<Rightarrow> 's res) \<Rightarrow> nat \<Rightarrow>
     'm trace_parser \<Rightarrow> 's \<Rightarrow> 'm trace_parser \<times> 's res" where
  "handler_processEvents parse cmp cancelled handle n p s =
     (if parser_isFinished p \<or> cancelled n then (p, Inr s)
      else case parseTraceEvent parse cmp p of
             (p', Inl e) \<Rightarrow> (p', Inl e)
           | (p', Inr m) \<Rightarrow>
               (case handle m s of
                  Inl e \<Rightarrow> (p', Inl e)
                | Inr s' \<Rightarrow> handler_processEvents parse cmp cancelled handle (Suc n) p' s'))"
  by pat_completeness auto

termination
proof (relation "measure (\<lambda>(_, _, _, _, _, p, _). bytes_left p)")
qed (auto intro: parse_shrinks [OF sym])

declare handler_processEvents.simps [simp del]

subsection \<open>The pending events of the queues\<close>

text \<open>The messages of a queue, framed one after the other.\<close>

definition framed :: "(u8 list \<Rightarrow> 'm option) \<Rightarrow> 'm list \<Rightarrow> u8 list \<Rightarrow> bool" where
  "framed parse ms bytes \<longleftrightarrow>
     (\<exists>bss. list_all2 (\<lambda>m bs. parse bs = Some m \<and> length bs < 2 ^ 31) ms bss \<and>
       bytes = concat (map frame bss))"

text \<open>
  The parser holds the queues \<open>qs\<close>: the head of each queue in \<open>L\<close> is in the set, the rest
  of it, or all of a queue outside \<open>L\<close>, is framed in its file.
\<close>

definition holds_loaded ::
    "nat set \<Rightarrow> (u8 list \<Rightarrow> 'm option) \<Rightarrow> ('m \<Rightarrow> 'k::linorder) \<Rightarrow> 'm trace_parser \<Rightarrow> 'm list list \<Rightarrow> bool" where
  "holds_loaded L parse key p qs \<longleftrightarrow> length (tp_readers p) = length qs \<and>
     (\<forall>i < length qs. rd_ready (tp_readers p ! i) \<and>
        framed parse (if i \<in> L then tl (qs ! i) else qs ! i) (rd_bytes (tp_readers p ! i))) \<and>
     sorted_wrt (\<lambda>a b. key (snd a) < key (snd b)) (tp_events p) \<and>
     set (tp_events p) = {(i, m). i \<in> L \<and> i < length qs \<and> (\<exists>ms. qs ! i = m # ms)}"

abbreviation holds_queues ::
    "(u8 list \<Rightarrow> 'm option) \<Rightarrow> ('m \<Rightarrow> 'k::linorder) \<Rightarrow> 'm trace_parser \<Rightarrow> 'm list list \<Rightarrow> bool" where
  "holds_queues \<equiv> holds_loaded UNIV"

lemma framed_Nil [simp]: "framed parse [] bytes \<longleftrightarrow> bytes = []"
  by (auto simp: framed_def)

lemma framed_Cons:
  "framed parse (m # ms) bytes \<longleftrightarrow>
     (\<exists>bs rest. parse bs = Some m \<and> length bs < 2 ^ 31 \<and> bytes = frame bs @ rest \<and> framed parse ms rest)"
proof
  assume "framed parse (m # ms) bytes"
  then show "\<exists>bs rest. parse bs = Some m \<and> length bs < 2 ^ 31 \<and> bytes = frame bs @ rest \<and> framed parse ms rest"
    unfolding framed_def list_all2_Cons1 by force
next
  assume "\<exists>bs rest. parse bs = Some m \<and> length bs < 2 ^ 31 \<and> bytes = frame bs @ rest \<and> framed parse ms rest"
  then obtain bs rest bss where "parse bs = Some m \<and> length bs < 2 ^ 31" "bytes = frame bs @ rest"
      "list_all2 (\<lambda>m bs. parse bs = Some m \<and> length bs < 2 ^ 31) ms bss" "rest = concat (map frame bss)"
    unfolding framed_def by blast
  then show "framed parse (m # ms) bytes"
    unfolding framed_def by (intro exI [of _ "bs # bss"]) simp
qed

lemma framed_finished:
  assumes "framed parse ms (rd_bytes r)"
  shows "rd_isFinished r \<longleftrightarrow> ms = []"
proof (cases ms)
  case Nil
  then show ?thesis using assms by (simp add: rd_isFinished_def)
next
  case (Cons m ms')
  then obtain bs rest where "rd_bytes r = frame bs @ rest" using assms by (auto simp: framed_Cons)
  moreover have "0 < length (frame bs)" using frame_length(1) [of bs] by (rule le_less_trans [OF le0])
  ultimately show ?thesis using Cons by (auto simp: rd_isFinished_def)
qed

lemma read_framed:
  assumes "rd_ready r" "framed parse (m # ms) (rd_bytes r)"
  shows "\<exists>r'. readTraceEvent parse r = (r', Inr m) \<and> rd_ready r' \<and> framed parse ms (rd_bytes r')"
proof -
  obtain bs rest where "parse bs = Some m" "length bs < 2 ^ 31" "rd_bytes r = frame bs @ rest"
      "framed parse ms rest"
    using assms(2) by (auto simp: framed_Cons)
  with read_frame [where P = parse, OF assms(1)] show ?thesis by metis
qed

lemma event_insert_new:
  fixes key :: "'m \<Rightarrow> 'k::linorder"
  assumes "sorted_wrt (\<lambda>a b. key (snd a) < key (snd b)) ys" "\<And>y. y \<in> set ys \<Longrightarrow> key (snd y) \<noteq> key (snd x)"
  shows "set (event_insert (\<lambda>a b. key a < key b) x ys) = insert x (set ys) \<and>
    sorted_wrt (\<lambda>a b. key (snd a) < key (snd b)) (event_insert (\<lambda>a b. key a < key b) x ys)"
  using assms
proof (induction ys)
  case (Cons y ys)
  show ?case
  proof (cases "key (snd y) < key (snd x)")
    case True
    with Cons show ?thesis by auto
  next
    case False
    moreover have "key (snd y) \<noteq> key (snd x)" by (rule Cons.prems(2)) simp
    ultimately have "key (snd x) < key (snd y)" by simp
    with Cons.prems(1) show ?thesis by (auto intro: less_trans)
  qed
qed simp

text \<open>Fetching the next event of a queue whose head is not in the set.\<close>

lemma fetch_ok:
  assumes H: "holds_loaded L parse key p qs" and "i < length qs" "i \<notin> L" "qs ! i = m # ms"
    and new: "\<And>j x xs. j < length qs \<Longrightarrow> j \<noteq> i \<Longrightarrow> qs ! j = x # xs \<Longrightarrow> key x \<noteq> key m"
  shows "\<exists>p'. fetch_event parse (\<lambda>a b. key a < key b) i p = (p', Inr ()) \<and>
    holds_loaded (insert i L) parse key p' qs"
proof -
  have "framed parse (m # ms) (rd_bytes (tp_readers p ! i))" "rd_ready (tp_readers p ! i)"
    using assms(2-4) H by (auto simp: holds_loaded_def)
  from read_framed [OF this(2,1)] obtain r where
    r: "readTraceEvent parse (tp_readers p ! i) = (r, Inr m)" "rd_ready r" "framed parse ms (rd_bytes r)"
    by blast
  let ?e = "event_insert (\<lambda>a b. key a < key b) (i, m) (tp_events p)"
  let ?p = "p\<lparr>tp_readers := (tp_readers p)[i := r], tp_events := ?e\<rparr>"
  have "set ?e = insert (i, m) (set (tp_events p)) \<and> sorted_wrt (\<lambda>a b. key (snd a) < key (snd b)) ?e"
  proof (rule event_insert_new)
    show "key (snd y) \<noteq> key (snd (i, m))" if y: "y \<in> set (tp_events p)" for y
    proof -
      obtain j x xs where "y = (j, x)" "j \<in> L" "j < length qs" "qs ! j = x # xs"
        using y H by (auto simp: holds_loaded_def)
      then show ?thesis using new [of j x xs] assms(3) by auto
    qed
  qed (use H in \<open>simp add: holds_loaded_def\<close>)
  then have "holds_loaded (insert i L) parse key ?p qs"
    using assms(2-4) H r(2,3)
    by (simp add: holds_loaded_def nth_list_update) auto
  with r(1) show ?thesis by (simp add: fetch_event_def)
qed

lemma distinct_keys_across:
  assumes "distinct (map key (concat qs))" "i < length qs" "j < length qs" "i \<noteq> j"
    "x \<in> set (qs ! i)" "y \<in> set (qs ! j)"
  shows "key x \<noteq> key y"
  using assms
proof (induction qs arbitrary: i j)
  case (Cons q qs)
  have disj: "key a \<noteq> key b" if "a \<in> set q" "b \<in> set (qs ! k)" "k < length qs" for a b k
    using Cons.prems(1) that nth_mem [OF that(3)] by (fastforce simp: map_concat)
  show ?case
  proof (cases i)
    case 0
    then show ?thesis using Cons.prems disj by (cases j) auto
  next
    case (Suc i')
    show ?thesis
    proof (cases j)
      case 0
      then show ?thesis using Cons.prems Suc disj [of y x i'] by auto
    next
      case (Suc j')
      then show ?thesis using Cons.prems \<open>i = Suc i'\<close> Cons.IH [of i' j'] by simp
    qed
  qed
qed simp

lemma mset_concat_update:
  assumes "i < length qs" "qs ! i = m # ms"
  shows "mset (concat qs) = add_mset m (mset (concat (qs[i := ms])))"
  using assms
proof (induction qs arbitrary: i)
  case (Cons q qs)
  then show ?case by (cases i) auto
qed simp

lemma parse_ok:
  assumes H: "holds_queues parse key p qs" and D: "distinct (map key (concat qs))" and "concat qs \<noteq> []"
  obtains i m ms p' where "i < length qs" "qs ! i = m # ms"
    "parseTraceEvent parse (\<lambda>a b. key a < key b) p = (p', Inr m)"
    "holds_queues parse key p' (qs[i := ms])"
    "\<And>j x xs. j < length qs \<Longrightarrow> qs ! j = x # xs \<Longrightarrow> key m \<le> key x"
proof -
  let ?lt = "\<lambda>a b. key (snd a) < key (snd b)"
  have len: "length (tp_readers p) = length qs"
    and rd: "\<forall>j < length qs. rd_ready (tp_readers p ! j) \<and> framed parse (tl (qs ! j)) (rd_bytes (tp_readers p ! j))"
    and srt: "sorted_wrt ?lt (tp_events p)"
    and ev: "set (tp_events p) = {(i, m). i < length qs \<and> (\<exists>ms. qs ! i = m # ms)}"
    using H by (auto simp: holds_loaded_def)
  obtain q where q: "q \<in> set qs" "q \<noteq> []" using assms(3) by (auto simp: neq_Nil_conv)
  then obtain k where k: "k < length qs" "qs ! k \<noteq> []" by (auto simp: in_set_conv_nth)
  then obtain y ys where "qs ! k = y # ys" by (auto simp: neq_Nil_conv)
  then have "(k, y) \<in> set (tp_events p)" using k ev by simp
  then have "tp_events p \<noteq> []" by auto
  then obtain i m rest where e: "tp_events p = (i, m) # rest" by (metis neq_Nil_conv surj_pair)
  have "(i, m) \<in> set (tp_events p)" using e by simp
  then obtain ms where im: "i < length qs" "qs ! i = m # ms" using ev by auto
  have notin: "(i, x) \<notin> set rest" for x
  proof
    assume "(i, x) \<in> set rest"
    moreover from this have "(i, x) \<in> set (tp_events p)" using e by simp
    then have "x = m" using ev im(2) by simp
    ultimately show False using srt e by auto
  qed
  have evr: "set rest = {(j, x). j < length qs \<and> j \<noteq> i \<and> (\<exists>xs. qs ! j = x # xs)}"
  proof -
    have "set rest = set (tp_events p) - {(i, m)}" using e notin by auto
    with ev im(2) show ?thesis by auto
  qed
  have least: "key m \<le> key x" if "j < length qs" "qs ! j = x # xs" for j x xs
  proof -
    have "(j, x) \<in> set (tp_events p)" using that ev by auto
    then show ?thesis using srt e by (auto simp: less_imp_le)
  qed
  let ?p = "p\<lparr>tp_events := rest\<rparr>" and ?qs = "qs[i := ms]"
  have P: "holds_loaded (UNIV - {i}) parse key ?p ?qs"
    using len rd srt e evr im by (auto simp: holds_loaded_def nth_list_update split: if_splits)
  have fin: "rd_isFinished (tp_readers p ! i) \<longleftrightarrow> ms = []"
    using rd im framed_finished [of parse "tl (qs ! i)" "tp_readers p ! i"] by auto
  show thesis
  proof (cases ms)
    case Nil
    have "holds_queues parse key ?p ?qs"
      using P Nil im(1) by (simp add: holds_loaded_def) (auto simp: nth_list_update split: if_splits)
    moreover have "parseTraceEvent parse (\<lambda>a b. key a < key b) p = (?p, Inr m)"
      using e im(1) len fin Nil by (simp add: parseTraceEvent_def Let_def)
    ultimately show thesis using that im least by blast
  next
    case (Cons m' ms')
    have new: "key x \<noteq> key m'" if "j < length ?qs" "j \<noteq> i" "?qs ! j = x # xs" for j x xs
      using distinct_keys_across [OF D _ im(1) that(2), of x m'] that im Cons by auto
    have "\<exists>p'. fetch_event parse (\<lambda>a b. key a < key b) i ?p = (p', Inr ()) \<and>
        holds_loaded (insert i (UNIV - {i})) parse key p' ?qs"
      by (rule fetch_ok [OF P]) (use im Cons new in auto)
    then obtain p' where p': "fetch_event parse (\<lambda>a b. key a < key b) i ?p = (p', Inr ())"
        "holds_queues parse key p' ?qs" by auto
    have "parseTraceEvent parse (\<lambda>a b. key a < key b) p = (p', Inr m)"
      using e im(1) len fin Cons p'(1) by (simp add: parseTraceEvent_def Let_def)
    then show thesis using that im p'(2) least by blast
  qed
qed

text \<open>Handling a list of events, up to the first that fails.\<close>

fun handle_each :: "('m \<Rightarrow> 's \<Rightarrow> 's res) \<Rightarrow> 'm list \<Rightarrow> 's \<Rightarrow> 's res" where
  "handle_each handle [] s = Inr s"
| "handle_each handle (m # ms) s = (case handle m s of Inl e \<Rightarrow> Inl e | Inr s' \<Rightarrow> handle_each handle ms s')"

lemma finished_iff:
  assumes "holds_queues parse key p qs"
  shows "parser_isFinished p \<longleftrightarrow> concat qs = []"
proof -
  have len: "length (tp_readers p) = length qs"
    and rd: "\<forall>j < length qs. framed parse (tl (qs ! j)) (rd_bytes (tp_readers p ! j))"
    and ev: "set (tp_events p) = {(i, m). i < length qs \<and> (\<exists>ms. qs ! i = m # ms)}"
    using assms by (auto simp: holds_loaded_def)
  show ?thesis
  proof
    assume "parser_isFinished p"
    then have "\<not> (\<exists>i < length qs. qs ! i \<noteq> [])" using ev by (auto simp: parser_isFinished_def neq_Nil_conv)
    then show "concat qs = []" by (auto simp: in_set_conv_nth)
  next
    assume "concat qs = []"
    then have nil: "\<forall>i < length qs. qs ! i = []" by auto
    then have "tp_events p = []" using ev by (auto simp flip: set_empty)
    moreover have "rd_isFinished r" if "r \<in> set (tp_readers p)" for r
      using that rd nil len framed_finished [of parse "[]" r] by (auto simp: in_set_conv_nth)
    ultimately show "parser_isFinished p" by (simp add: parser_isFinished_def)
  qed
qed

text \<open>The order in which the events come out: always the smallest of the heads.\<close>

inductive merges :: "('m \<Rightarrow> 'k::linorder) \<Rightarrow> 'm list list \<Rightarrow> 'm list \<Rightarrow> bool" for key where
  merged: "concat qs = [] \<Longrightarrow> merges key qs []"
| merge_step: "i < length qs \<Longrightarrow> qs ! i = m # ms \<Longrightarrow>
    (\<And>j x xs. j < length qs \<Longrightarrow> qs ! j = x # xs \<Longrightarrow> key m \<le> key x) \<Longrightarrow>
    merges key (qs[i := ms]) out \<Longrightarrow> merges key qs (m # out)"

lemma process_merges:
  fixes key :: "'m \<Rightarrow> 'k::linorder"
  assumes "holds_queues parse key p qs" "distinct (map key (concat qs))"
  shows "\<exists>out. merges key qs out \<and>
    (\<forall>(handle :: 'm \<Rightarrow> 's \<Rightarrow> 's res) n s. snd (handler_processEvents parse (\<lambda>a b. key a < key b) (\<lambda>_. False) handle n p s) = handle_each handle out s)"
  using assms
proof (induction "length (concat qs)" arbitrary: qs p)
  case 0
  then have "parser_isFinished p" using finished_iff [OF 0(2)] by simp
  then show ?case using 0 by (auto simp: handler_processEvents.simps intro!: exI [of _ "[]"] merges.intros)
next
  case (Suc l)
  then have ne: "concat qs \<noteq> []" by (metis list.size(3) nat.distinct(1))
  obtain i m ms p' where *: "i < length qs" "qs ! i = m # ms"
      "parseTraceEvent parse (\<lambda>a b. key a < key b) p = (p', Inr m)"
      "holds_queues parse key p' (qs[i := ms])"
      "\<And>j x xs. j < length qs \<Longrightarrow> qs ! j = x # xs \<Longrightarrow> key m \<le> key x"
    using parse_ok [OF Suc.prems ne] by blast
  have ms: "mset (concat qs) = add_mset m (mset (concat (qs[i := ms])))"
    by (rule mset_concat_update [OF *(1,2)])
  have "mset (map key (concat qs)) = add_mset (key m) (mset (map key (concat (qs[i := ms]))))"
    using ms by simp
  then have "distinct (map key (concat (qs[i := ms])))"
    using Suc.prems(2) by (metis distinct.simps(2) mset.simps(2) mset_eq_imp_distinct_iff)
  moreover have "l = length (concat (qs[i := ms]))"
    using arg_cong [OF ms, of size] Suc.hyps(2) by simp
  ultimately obtain out where out: "merges key (qs[i := ms]) out"
      "\<And>(handle :: 'm \<Rightarrow> 's \<Rightarrow> 's res) n s. snd (handler_processEvents parse (\<lambda>a b. key a < key b) (\<lambda>_. False) handle n p' s) = handle_each handle out s"
    using Suc.hyps(1) [OF _ *(4)] by blast
  have "merges key qs (m # out)" by (rule merge_step [OF *(1,2) _ out(1)]) (rule *(5))
  moreover have "\<not> parser_isFinished p" using finished_iff [OF Suc.prems(1)] ne by simp
  then have "snd (handler_processEvents parse (\<lambda>a b. key a < key b) (\<lambda>_. False) handle n p s) = handle_each handle (m # out) s"
    for handle :: "'m \<Rightarrow> 's \<Rightarrow> 's res" and n s
    using *(3) out(2) by (subst handler_processEvents.simps) (simp split: sum.split)
  ultimately show ?case by blast
qed

lemma merges_mset: "merges key qs out \<Longrightarrow> mset out = mset (concat qs)"
proof (induction rule: merges.induct)
  case (merge_step i qs m ms out)
  then show ?case using mset_concat_update by fastforce
qed simp

lemma merges_sorted:
  "merges key qs out \<Longrightarrow> \<forall>q \<in> set qs. sorted (map key q) \<Longrightarrow> sorted (map key out)"
proof (induction rule: merges.induct)
  case (merge_step i qs m ms out)
  have q: "sorted (map key (m # ms))" using merge_step.hyps(1,2) merge_step.prems nth_mem by metis
  have "\<forall>q \<in> set (qs[i := ms]). sorted (map key q)"
    using merge_step.prems q set_update_subset_insert [of qs i ms] by auto
  then have srt: "sorted (map key out)" by (rule merge_step.IH)
  have "key m \<le> key x" if "x \<in> set out" for x
  proof -
    have "x \<in> set (concat (qs[i := ms]))" using that merges_mset [OF merge_step.hyps(4)] by (metis mset_eq_setD)
    then obtain q where "q \<in> set (qs[i := ms])" "x \<in> set q" by auto
    then obtain j where j: "j < length qs" "x \<in> set (qs[i := ms] ! j)"
      by (metis in_set_conv_nth length_list_update)
    show ?thesis
    proof (cases "j = i")
      case True
      then show ?thesis using j q by simp
    next
      case False
      then have x: "x \<in> set (qs ! j)" using j by simp
      then obtain y ys where y: "qs ! j = y # ys" by (cases "qs ! j") auto
      have "key y \<le> key x" using x y merge_step.prems nth_mem [OF j(1)] by fastforce
      with merge_step.hyps(3) [OF j(1) y] show ?thesis by (rule order_trans)
    qed
  qed
  with srt show ?case by simp
qed simp

subsection \<open>Opening the files\<close>

definition readable :: "(u8 list \<Rightarrow> 'm option) \<Rightarrow> trace_file \<Rightarrow> 'm list \<Rightarrow> bool" where
  "readable parse f ms \<longleftrightarrow>
     (\<exists>bytes. tf_bytes f = Some bytes \<and> tf_stat f \<and> tf_mmap f \<and> framed parse ms bytes)"

lemma open_readers_ok:
  assumes "\<forall>q \<in> set is. readable parse (files q) (qs q)"
  shows "\<exists>rs. open_readers files is p = (p\<lparr>tp_readers := tp_readers p @ rs\<rparr>, Inr ()) \<and>
    list_all2 (\<lambda>r i. rd_ready r \<and> framed parse (qs i) (rd_bytes r)) rs is"
  using assms
proof (induction "is" arbitrary: p)
  case (Cons i "is")
  have "readable parse (files i) (qs i)" using Cons.prems by simp
  then obtain bytes where "tf_bytes (files i) = Some bytes" "tf_stat (files i)" "tf_mmap (files i)"
      "framed parse (qs i) bytes"
    by (auto simp: readable_def)
  with init_reads_file obtain r where r: "rd_init (files i) (TraceFileReader (of_nat i)) = (r, [], Inr ())"
      "rd_ready r" "framed parse (qs i) (rd_bytes r)"
    by metis
  obtain rs where rs: "open_readers files is (p\<lparr>tp_readers := tp_readers p @ [r]\<rparr>) =
        (p\<lparr>tp_readers := (tp_readers p @ [r]) @ rs\<rparr>, Inr ())"
      "list_all2 (\<lambda>r i. rd_ready r \<and> framed parse (qs i) (rd_bytes r)) rs is"
    using Cons.IH [of "p\<lparr>tp_readers := tp_readers p @ [r]\<rparr>"] Cons.prems by auto
  show ?case by (rule exI [of _ "r # rs"]) (use r rs in simp)
qed simp

lemma first_events_ok:
  assumes "holds_loaded L parse key p qs" "distinct is" "set is \<inter> L = {}" "\<forall>i \<in> set is. i < length qs"
    and D: "distinct (map key (concat qs))"
  shows "\<exists>p'. first_events parse (\<lambda>a b. key a < key b) is p = (p', Inr ()) \<and>
    holds_loaded (L \<union> set is) parse key p' qs"
  using assms(1-4)
proof (induction "is" arbitrary: L p)
  case (Cons i "is")
  have i: "i < length qs" "i \<notin> L" using Cons.prems by auto
  have fin: "rd_isFinished (tp_readers p ! i) \<longleftrightarrow> qs ! i = []"
    using Cons.prems(1) i framed_finished [of parse "qs ! i" "tp_readers p ! i"] by (auto simp: holds_loaded_def)
  have rest: "distinct is" "set is \<inter> insert i L = {}" "\<forall>i \<in> set is. i < length qs"
    using Cons.prems by auto
  show ?case
  proof (cases "qs ! i")
    case Nil
    have "holds_loaded (insert i L) parse key p qs"
      using Cons.prems(1) i Nil by (auto simp: holds_loaded_def)
    from Cons.IH [OF this rest] fin Nil show ?thesis by simp
  next
    case (Cons m ms)
    have "\<exists>p'. fetch_event parse (\<lambda>a b. key a < key b) i p = (p', Inr ()) \<and>
        holds_loaded (insert i L) parse key p' qs"
    proof (rule fetch_ok [OF Cons.prems(1) i Cons])
      show "key x \<noteq> key m" if "j < length qs" "j \<noteq> i" "qs ! j = x # xs" for j x xs
        using distinct_keys_across [OF D that(1) i(1) that(2), of x m] that(3) Cons by simp
    qed
    then obtain p' where p': "fetch_event parse (\<lambda>a b. key a < key b) i p = (p', Inr ())"
        "holds_loaded (insert i L) parse key p' qs" by blast
    from Cons.IH [OF p'(2) rest] p'(1) fin Cons show ?thesis by simp
  qed
qed simp

lemma init_holds:
  fixes qs :: "'m list list"
  assumes "\<And>i. i < length qs \<Longrightarrow> readable parse (files i) (qs ! i)" "qs \<noteq> []"
    and "distinct (map key (concat qs))"
    and "summary = \<lparr>sum_state = COMPLETE, sum_queueCount = int (length qs)\<rparr>"
  shows "\<exists>p. parser_init parse (\<lambda>a b. key a < key b) (Some summary) files TraceFileParser = (p, Inr ()) \<and>
    holds_queues parse key p qs"
proof -
  obtain rs where rs: "open_readers files [0..<length qs] TraceFileParser =
        (\<lparr>tp_readers = rs, tp_events = []\<rparr> :: 'm trace_parser, Inr ())"
      "list_all2 (\<lambda>r i. rd_ready r \<and> framed parse (qs ! i) (rd_bytes r)) rs [0..<length qs]"
    using open_readers_ok [of "[0..<length qs]" parse files "\<lambda>i. qs ! i" TraceFileParser] assms(1)
    by (auto simp: TraceFileParser_def)
  let ?p = "\<lparr>tp_readers = rs, tp_events = []\<rparr> :: 'm trace_parser"
  have len: "length rs = length qs" using list_all2_lengthD [OF rs(2)] by simp
  have "holds_loaded {} parse key ?p qs"
    using rs(2) len by (auto simp: holds_loaded_def list_all2_conv_all_nth)
  then obtain p where p: "first_events parse (\<lambda>a b. key a < key b) [0..<length qs] ?p = (p, Inr ())"
      "holds_loaded ({} \<union> set [0..<length qs]) parse key p qs"
    using first_events_ok [of "{}" parse key ?p qs "[0..<length qs]"] assms(3) by auto
  have "holds_queues parse key p qs" using p(2) by (auto simp: holds_loaded_def)
  moreover have "parser_init parse (\<lambda>a b. key a < key b) (Some summary) files TraceFileParser = (p, Inr ())"
    using rs(1) p(1) assms(2,4) len by (simp add: parser_init_def)
  ultimately show ?thesis by blast
qed

text \<open>With distinct keys in each queue's order the merged order is the sorted one.\<close>

lemma merges_sort:
  assumes "merges key qs out" "distinct (map key (concat qs))" "\<forall>q \<in> set qs. sorted (map key q)"
  shows "out = sort_key key (concat qs)"
  using sort_key_inj_key_eq [of "concat qs" out key] merges_mset [OF assms(1)]
    merges_sorted [OF assms(1,3)] assms(2)
  by (simp add: distinct_map)

subsection \<open>Properties\<close>

lemma merge_in_order:
  assumes "\<And>i. i < length qs \<Longrightarrow> readable parse (files i) (qs ! i)" "qs \<noteq> []"
    and "distinct (map key (concat qs))" "\<forall>q \<in> set qs. sorted (map key q)"
  shows "\<exists>p. parser_init parse (\<lambda>a b. key a < key b)
        (Some \<lparr>sum_state = COMPLETE, sum_queueCount = int (length qs)\<rparr>) files TraceFileParser = (p, Inr ()) \<and>
    snd (handler_processEvents parse (\<lambda>a b. key a < key b) (\<lambda>_. False) handle 0 p s) =
      handle_each handle (sort_key key (concat qs)) s"
proof -
  obtain p where p: "parser_init parse (\<lambda>a b. key a < key b)
        (Some \<lparr>sum_state = COMPLETE, sum_queueCount = int (length qs)\<rparr>) files TraceFileParser = (p, Inr ())"
      "holds_queues parse key p qs"
    using init_holds [OF assms(1-3) refl] by blast
  from process_merges [OF p(2) assms(3)] merges_sort [OF _ assms(3,4)] p(1) show ?thesis by metis
qed

text \<open>
  Property C19. The merged trace. For a complete trace whose files hold the framed queues, each
  in the order of its keys and with all keys distinct, \<open>init\<close> succeeds and \<open>processEvents\<close> hands
  every event of every queue to the handler exactly once, in the order of the keys over all
  queues, until the handler fails; then it returns.
\<close>

theorem queues_merge_in_order:
  assumes "\<And>i. i < length qs \<Longrightarrow> readable parse (files i) (qs ! i)" "qs \<noteq> []"
    and "distinct (map key (concat qs))" "\<forall>q \<in> set qs. sorted (map key q)"
  shows "\<exists>p. parser_init parse (\<lambda>a b. key a < key b)
        (Some \<lparr>sum_state = COMPLETE, sum_queueCount = int (length qs)\<rparr>) files TraceFileParser = (p, Inr ()) \<and>
    snd (handler_processEvents parse (\<lambda>a b. key a < key b) (\<lambda>_. False) handle 0 p s) =
      handle_each handle (sort_key key (concat qs)) s"
  using assms by (rule merge_in_order)

text \<open>A message of one byte, its own key.\<close>

definition byte_parse :: "u8 list \<Rightarrow> u8 option" where
  "byte_parse bs = (case bs of [b] \<Rightarrow> Some b | _ \<Rightarrow> None)"

definition byte_file :: "u8 list \<Rightarrow> trace_file" where
  "byte_file ms = \<lparr>tf_bytes = Some (concat (map (\<lambda>m. frame [m]) ms)), tf_stat = True, tf_mmap = True\<rparr>"

lemma byte_file_readable: "readable byte_parse (byte_file ms) ms"
proof -
  have "list_all2 (\<lambda>m bs. byte_parse bs = Some m \<and> length bs < 2 ^ 31) ms (map (\<lambda>m. [m]) ms)"
    by (simp add: list_all2_conv_all_nth byte_parse_def)
  then show ?thesis
    by (auto simp: readable_def byte_file_def framed_def comp_def intro!: exI [of _ "map (\<lambda>m. [m]) ms"])
qed

theorem queues_merge_in_order_witness:
  "\<exists>p. parser_init byte_parse (\<lambda>a b. a < b) (Some \<lparr>sum_state = COMPLETE, sum_queueCount = 2\<rparr>)
        (\<lambda>i. byte_file ([[1, 4], [2, 3]] ! i)) TraceFileParser = (p, Inr ()) \<and>
     snd (handler_processEvents byte_parse (\<lambda>a b. a < b) (\<lambda>_. False) (\<lambda>m s. Inr (s @ [m])) 0 p []) = Inr [1, 2, 3, 4]"
  using queues_merge_in_order [of "[[1, 4], [2, 3]]" byte_parse "\<lambda>i. byte_file ([[1, 4], [2, 3]] ! i)" "\<lambda>m. m"
      "\<lambda>m s. Inr (s @ [m])" "[]"] byte_file_readable
  by simp

text \<open>
  A parser of two queues that has lost the first event of the second one: its set has the first
  event of the first queue only.
\<close>

definition stall_result :: "('m \<Rightarrow> 's \<Rightarrow> 's res) \<Rightarrow> 'm list \<Rightarrow> 'm list \<Rightarrow> 's \<Rightarrow> 's res" where
  "stall_result handle first lost s =
     and_then (handle_each handle first s) (\<lambda>s'.
     if lost = [] then Inr s'
     else Inl (Octf_Exception
       ''Attempted to parse event using parser which has finished or wasn't initialized''))"

lemma stalled_run:
  assumes "rd_ready r0" "framed parse as (rd_bytes r0)" "framed parse bs (rd_bytes r1)"
  shows "snd (handler_processEvents parse cmp (\<lambda>_. False) handle n
      \<lparr>tp_readers = [r0, r1], tp_events = [(0, a)]\<rparr> s) = stall_result handle (a # as) bs s"
  using assms(1,2)
proof (induction as arbitrary: a r0 n s)
  case Nil
  let ?p = "\<lparr>tp_readers = [r0, r1], tp_events = [(0, a)]\<rparr>"
    and ?q = "\<lparr>tp_readers = [r0, r1], tp_events = []\<rparr> :: 'a trace_parser"
  note fin = framed_finished [OF Nil(2)] framed_finished [OF assms(3)]
  have "parseTraceEvent parse cmp ?p = (?q, Inr a)" "\<not> parser_isFinished ?p"
    "parser_isFinished ?q \<longleftrightarrow> bs = []"
    using fin by (simp_all add: parseTraceEvent_def parser_isFinished_def)
  moreover have "parseTraceEvent parse cmp ?q = (?q, Inl (Octf_Exception
      ''Attempted to parse event using parser which has finished or wasn't initialized''))"
    by (simp add: parseTraceEvent_def)
  ultimately show ?case
    by (simp add: stall_result_def handler_processEvents.simps [of _ _ _ _ _ ?p]
        handler_processEvents.simps [of _ _ _ _ _ ?q] split: sum.split)
next
  case (Cons a' as)
  let ?p = "\<lparr>tp_readers = [r0, r1], tp_events = [(0, a)]\<rparr>"
  obtain r where r: "readTraceEvent parse r0 = (r, Inr a')" "rd_ready r" "framed parse as (rd_bytes r)"
    using read_framed [OF Cons.prems] by blast
  have "parseTraceEvent parse cmp ?p = (\<lparr>tp_readers = [r, r1], tp_events = [(0, a')]\<rparr>, Inr a)"
    using r(1) framed_finished [OF Cons.prems(2)] by (simp add: parseTraceEvent_def fetch_event_def)
  moreover have "\<not> parser_isFinished ?p" by (simp add: parser_isFinished_def)
  ultimately show ?case
    using Cons.IH [OF r(2,3)]
    by (simp add: stall_result_def handler_processEvents.simps [of _ _ _ _ _ ?p] split: sum.split)
qed

text \<open>
  Property C20. The loss of equal keys. When the first events of two queues have equal keys, the
  set drops the one of the second queue and the parser never reads that queue again: the handler
  gets the events of the first queue and none of the second. When the second queue has more events,
  the parser is not finished after the first queue and has no event, so \<open>processEvents\<close> ends with
  an exception; when it has not, \<open>processEvents\<close> ends well and the event is lost silently.
\<close>

theorem equal_keys_stall:
  fixes key :: "'m \<Rightarrow> 'k::linorder"
  assumes "readable parse (files 0) (a # as)" "readable parse (files 1) (b # bs)" "key a = key b"
  shows "\<exists>p. parser_init parse (\<lambda>x y. key x < key y)
        (Some \<lparr>sum_state = COMPLETE, sum_queueCount = 2\<rparr>) files TraceFileParser = (p, Inr ()) \<and>
    snd (handler_processEvents parse (\<lambda>x y. key x < key y) (\<lambda>_. False) handle 0 p s) =
      (case handle_each handle (a # as) s of
         Inl e \<Rightarrow> Inl e
       | Inr s' \<Rightarrow>
           if bs = [] then Inr s'
           else Inl (Octf_Exception
             ''Attempted to parse event using parser which has finished or wasn't initialized''))"
proof -
  let ?lt = "\<lambda>x y. key x < key y" and ?sum = "Some \<lparr>sum_state = COMPLETE, sum_queueCount = 2\<rparr>"
  have two: "[0..<2] = [0, 1 :: nat]" by (simp add: upt_rec)
  let ?g = "\<lambda>i :: nat. if i = 0 then a # as else b # bs"
  have ok: "\<forall>q \<in> set [0, 1 :: nat]. readable parse (files q) (?g q)"
    using assms(1,2) by auto
  obtain rs where
    rs0: "open_readers files [0, 1] TraceFileParser =
        ((TraceFileParser :: 'm trace_parser)\<lparr>tp_readers := tp_readers (TraceFileParser :: 'm trace_parser) @ rs\<rparr>, Inr ())"
      "list_all2 (\<lambda>r i. rd_ready r \<and> framed parse (?g i) (rd_bytes r)) rs [0, 1]"
    using open_readers_ok [where p = "TraceFileParser :: 'm trace_parser", OF ok] by blast
  have rs: "open_readers files [0, 1] (TraceFileParser :: 'm trace_parser) =
      (\<lparr>tp_readers = rs, tp_events = []\<rparr>, Inr ())"
    unfolding rs0(1) by (simp add: TraceFileParser_def)
  from rs0(2)
  obtain r0 r1 where r: "rs = [r0, r1]" "rd_ready r0" "framed parse (a # as) (rd_bytes r0)" "rd_ready r1"
      "framed parse (b # bs) (rd_bytes r1)"
    by (auto simp: list_all2_Cons2)
  obtain s0 where s0: "readTraceEvent parse r0 = (s0, Inr a)" "rd_ready s0" "framed parse as (rd_bytes s0)"
    using read_framed [OF r(2,3)] by blast
  obtain s1 where s1: "readTraceEvent parse r1 = (s1, Inr b)" "framed parse bs (rd_bytes s1)"
    using read_framed [OF r(4,5)] by blast
  have "parser_init parse ?lt ?sum files TraceFileParser =
      (\<lparr>tp_readers = [s0, s1], tp_events = [(0, a)]\<rparr>, Inr ())"
    using rs r(1) s0(1) s1(1) framed_finished [OF r(3)] framed_finished [OF r(5)] assms(3)
    by (simp add: parser_init_def two fetch_event_def del: open_readers.simps)
  then show ?thesis
    using stalled_run [OF s0(2,3) s1(2), of ?lt handle 0 a s]
    by (auto simp: stall_result_def and_then_def simp del: handle_each.simps)
qed

text \<open>The files [1, 2] and [1, 3], and the files [1, 2] and [1].\<close>

theorem equal_keys_stall_witness:
  "(\<exists>p. parser_init byte_parse (<) (Some \<lparr>sum_state = COMPLETE, sum_queueCount = 2\<rparr>)
        (\<lambda>i. byte_file ([[1, 2], [1, 3]] ! i)) TraceFileParser = (p, Inr ()) \<and>
     snd (handler_processEvents byte_parse (<) (\<lambda>_. False) (\<lambda>m s. Inr (s @ [m])) 0 p []) =
       Inl (Octf_Exception ''Attempted to parse event using parser which has finished or wasn't initialized'')) \<and>
   (\<exists>p. parser_init byte_parse (<) (Some \<lparr>sum_state = COMPLETE, sum_queueCount = 2\<rparr>)
        (\<lambda>i. byte_file ([[1, 2], [1]] ! i)) TraceFileParser = (p, Inr ()) \<and>
     snd (handler_processEvents byte_parse (<) (\<lambda>_. False) (\<lambda>m s. Inr (s @ [m])) 0 p []) = Inr [1, 2])"
  using equal_keys_stall [of byte_parse "\<lambda>i. byte_file ([[1, 2], [1, 3]] ! i)" 1 "[2]" 1 "[3]" "\<lambda>m. m"
      "\<lambda>m s. Inr (s @ [m])" "[]"]
    equal_keys_stall [of byte_parse "\<lambda>i. byte_file ([[1, 2], [1]] ! i)" 1 "[2]" 1 "[]" "\<lambda>m. m"
      "\<lambda>m s. Inr (s @ [m])" "[]"] byte_file_readable
  by simp

end
