(* ===== verification/Trace_Job.thy ===== *)
theory Trace_Job
  imports Trace_Ring Trace_Parser
begin

section \<open>From the ring to the file\<close>

text \<open>
  \<open>TraceJob\<close> of source/octf/interface/internal/TraceJob.cpp is the consumer of one ring: its thread
  waits for the producer, empties the ring into the serializer, and closes the file at the end.
  The converter, the functions of the messages and the system are the record \<open>job_env\<close>; the
  converter may be absent and may refuse an event. What the producer does while the thread waits
  is the change of the shared memory that comes with each wait, and the answer says whether the
  thread was woken or the time is over. The emptying loop runs without the producer between its
  steps; it is a partial function, since a damaged ring may keep it running.
\<close>

record ('m, 'c) job_env =
  je_convert :: "(u8 list \<Rightarrow> u32 \<Rightarrow> 'c \<Rightarrow> 'c \<times> 'm option res) option"
  je_ByteSizeLong :: "'m \<Rightarrow> u64"
  je_SerializeToArray :: "'m \<Rightarrow> u8 list option"
  je_memcpy_s :: "u8 list \<Rightarrow> u8 list \<Rightarrow> u8 list"
  je_os :: os

record 'c job =
  jb_serializer :: serializer
  jb_converter :: 'c
  jb_count :: u64
  jb_state :: trace_state

text \<open>
  The constructor for a ring of \<open>sz\<close> bytes with or without a separate consumer header, and an output
  file that may hold \<open>file\<close>. The consumer's \<open>octf_trace_close\<close> leaves the shared memory.
\<close>

definition TraceJob ::
    "os \<Rightarrow> u32 \<Rightarrow> bool \<Rightarrow> shared \<Rightarrow> u8 list \<Rightarrow> 'c \<Rightarrow> (trace_handle \<times> 'c job) res" where
  "TraceJob os sz hdr s file c =
     (case octf_trace_open sz hdr Consumer True s of
        (_, Ok t) \<Rightarrow>
          (case ser_open os (FileTraceSerializer file) of
             (ser, True) \<Rightarrow> Inr (t, \<lparr>jb_serializer = ser, jb_converter = c, jb_count = 0, jb_state = NOT_STARTED\<rparr>)
           | (_, False) \<Rightarrow> Inl (Octf_Exception ''Cannot open file''))
      | _ \<Rightarrow> Inl (Octf_Exception ''Failed to initialize trace buffer for consumer.''))"

definition job_serialize ::
    "('m, 'c) job_env \<Rightarrow> u8 list \<Rightarrow> u32 \<Rightarrow> 'c job \<Rightarrow> 'c job \<times> unit res" where
  "job_serialize env data sz j =
     (let (s, c, r) = (case je_convert env of
            Some convert \<Rightarrow>
              (case convert data sz (jb_converter j) of
                 (c, Inl e) \<Rightarrow> (jb_serializer j, c, Inl e)
               | (c, Inr None) \<Rightarrow> (jb_serializer j, c, Inr False)
               | (c, Inr (Some m)) \<Rightarrow>
                   let (s, r) = ser_serialize (je_ByteSizeLong env) (je_SerializeToArray env) (je_os env) m
                                  (jb_serializer j)
                   in (s, c, r))
          | None \<Rightarrow>
              let (s, r) = serialize_blob (je_memcpy_s env) (je_os env) data (jb_serializer j)
              in (s, jb_converter j, r));
          j = j\<lparr>jb_serializer := s, jb_converter := c\<rparr>
      in case r of
           Inl e \<Rightarrow> (j, Inl e)
         | Inr True \<Rightarrow> (j\<lparr>jb_count := jb_count j + 1\<rparr>, Inr ())
         | Inr False \<Rightarrow> (j, Inl (Octf_Exception ''Failed to serialize trace data'')))"

definition errno_of :: "'a outcome \<Rightarrow> errno option" where
  "errno_of x = (case x of Ok _ \<Rightarrow> None | Err e \<Rightarrow> Some e | Bug e \<Rightarrow> Some e)"

text \<open>The inner loop of \<open>consumeTraces\<close>. An invalid ring counts as empty: its answer is not 0.\<close>

partial_function (option) drain ::
    "('m, 'c) job_env \<Rightarrow> trace_handle \<Rightarrow> shared \<Rightarrow> 'c job \<Rightarrow> (shared \<times> 'c job \<times> unit res) option" where
  "drain env t s j =
     (if octf_trace_is_empty s \<noteq> Ok False then Some (s, j, Inr ())
      else let (s, r) = octf_trace_get_rd_buffer t s
           in case r of
                Ok (hdr, p, n) \<Rightarrow>
                  let (j, q) = job_serialize env (read_at (unat p) (unat n) (sh_bytes s)) n j
                  in (case q of
                        Inl e \<Rightarrow> Some (s, j, Inl e)
                      | Inr _ \<Rightarrow>
                          let (s, r) = octf_trace_release_rd_buffer t hdr s
                          in if errno_of r \<noteq> None
                             then Some (s, j, Inl (Octf_Exception ''Failed to release trace data''))
                             else drain env t s j)
              | _ \<Rightarrow>
                  if errno_of r = Some EAGAIN \<or> errno_of r = Some EBUSY then Some (s, j, Inr ())
                  else Some (s, j, Inl (Octf_Exception ''Failed to retrieve trace data'')))"

text \<open>The outer loop over the waits; without another wait the thread is still waiting.\<close>

fun consumeTraces ::
    "('m, 'c) job_env \<Rightarrow> trace_handle \<Rightarrow> ((shared \<Rightarrow> shared) \<times> bool) list \<Rightarrow> shared \<Rightarrow> 'c job \<Rightarrow>
     (shared \<times> 'c job \<times> unit res) option" where
  "consumeTraces env t [] s j = None"
| "consumeTraces env t ((produce, woken) # waits) s j =
     (case drain env t (produce s) j of
        None \<Rightarrow> None
      | Some (s, j, Inl e) \<Rightarrow> Some (s, j, Inl e)
      | Some (s, j, Inr _) \<Rightarrow>
          if woken then consumeTraces env t waits s j else Some (s, j, Inr ()))"

definition doWork ::
    "('m, 'c) job_env \<Rightarrow> trace_handle \<Rightarrow> ((shared \<Rightarrow> shared) \<times> bool) list \<Rightarrow> shared \<Rightarrow> 'c job \<Rightarrow> (shared \<times> 'c job) option" where
  "doWork env t waits s j =
     (case consumeTraces env t waits s (j\<lparr>jb_state := RUNNING\<rparr>) of
        None \<Rightarrow> None
      | Some (s, j, r) \<Rightarrow>
          let endState = (case r of Inr _ \<Rightarrow> COMPLETE | Inl _ \<Rightarrow> ERROR)
          in Some (s, j\<lparr>jb_state := endState, jb_serializer := fst (ser_close (je_os env) (jb_serializer j))\<rparr>))"

subsection \<open>Everything in the ring is written\<close>

definition ready_ring :: "trace_handle \<Rightarrow> shared \<Rightarrow> (u64 \<times> u8 list) list \<Rightarrow> bool" where
  "ready_ring t s es \<longleftrightarrow> holds t s (map (\<lambda>(h, d). (h, True, d)) es) \<and> is_trace_valid s \<and>
     th_mode t = Consumer \<and> sh_rd_lock s = 0 \<and> sh_wr_lock s = 0"

text \<open>The bytes of a traced event, whatever was converted before, become those of a message.\<close>

definition records :: "('m, 'c) job_env \<Rightarrow> u8 list \<Rightarrow> 'm \<times> u8 list \<Rightarrow> bool" where
  "records env d mb \<longleftrightarrow>
     (\<exists>convert. je_convert env = Some convert \<and>
        (\<forall>c. \<exists>c'. convert d (of_nat (length d)) c = (c', Inr (Some (fst mb))))) \<and>
     serializes (je_ByteSizeLong env) (je_SerializeToArray env) (fst mb) (snd mb)"

definition file_room :: "('m, 'c) job_env \<Rightarrow> 'c job \<Rightarrow> ('m \<times> u8 list) list \<Rightarrow> bool" where
  "file_room env j mbs \<longleftrightarrow>
     room (je_os env) (unat (s_dataOffset (jb_serializer j)) + sum_list (map (\<lambda>mb. length (snd mb) + 5) mbs))"

lemma job_serialize_records:
  assumes "records env d mb" "file_room env j (mb # mbs)" "os_good (je_os env)" "ser_ok (jb_serializer j)"
    "of_nat (length d) = n"
  obtains j' where "job_serialize env d n j = (j', Inr ())" "ser_ok (jb_serializer j')"
    "ser_data (jb_serializer j') = ser_data (jb_serializer j) @ frame (snd mb)"
    "jb_count j' = jb_count j + 1" "file_room env j' mbs" "jb_state j' = jb_state j"
    "s_open (jb_serializer j') = s_open (jb_serializer j)"
proof -
  obtain convert c' where c: "je_convert env = Some convert"
      "convert d n (jb_converter j) = (c', Inr (Some (fst mb)))"
    using assms(1,5) unfolding records_def by metis
  have ser: "serializes (je_ByteSizeLong env) (je_SerializeToArray env) (fst mb) (snd mb)"
    using assms(1) by (simp add: records_def)
  have "room (je_os env) (unat (s_dataOffset (jb_serializer j)) + length (snd mb) + 5)"
    using assms(2) unfolding file_room_def by (rule room_mono) simp
  from ser_serialize_appends [OF this assms(3,4) ser] obtain s where s:
    "ser_serialize (je_ByteSizeLong env) (je_SerializeToArray env) (je_os env) (fst mb) (jb_serializer j) = (s, Inr True)"
    "ser_ok s" "ser_data s = ser_data (jb_serializer j) @ frame (snd mb)"
    "s_open s = s_open (jb_serializer j)"
    "unat (s_dataOffset s) = unat (s_dataOffset (jb_serializer j)) + length (frame (snd mb))" by blast
  let ?j = "j\<lparr>jb_serializer := s, jb_converter := c', jb_count := jb_count j + 1\<rparr>"
  have "file_room env ?j mbs"
    using assms(2) unfolding file_room_def
    by (rule room_mono) (use s(5) frame_length(2) [of "snd mb"] in simp)
  moreover have "job_serialize env d n j = (?j, Inr ())"
    using c s(1) by (simp add: job_serialize_def)
  ultimately show thesis by (intro that [of ?j]) (use s in simp_all)
qed

lemma drain_records:
  assumes "ready_ring t s es" "list_all2 (records env) (map snd es) mbs" "file_room env j (mbs @ later)"
    "os_good (je_os env)" "ser_ok (jb_serializer j)"
  shows "\<exists>s' j'. drain env t s j = Some (s', j', Inr ()) \<and> ready_ring t s' [] \<and> ser_ok (jb_serializer j') \<and>
    ser_data (jb_serializer j') = ser_data (jb_serializer j) @ concat (map (\<lambda>mb. frame (snd mb)) mbs) \<and>
    jb_count j' = jb_count j + of_nat (length es) \<and> file_room env j' later \<and> jb_state j' = jb_state j \<and>
    s_open (jb_serializer j') = s_open (jb_serializer j)"
  using assms(1-3,5)
proof (induction es arbitrary: s j mbs)
  case Nil
  have "octf_trace_is_empty s \<noteq> Ok False"
    using Nil.prems(1) is_empty_queue [of t s "[]"] by (simp add: ready_ring_def octf_trace_is_empty_def)
  then show ?case using Nil.prems by (simp add: drain.simps)
next
  case (Cons e es)
  obtain h d where e: "e = (h, d)" by force
  obtain mb mbs' where mbs: "mbs = mb # mbs'" "records env d mb" "list_all2 (records env) (map snd es) mbs'"
    using Cons.prems(2) e by (auto simp: list_all2_Cons1)
  have ring: "holds t s ((h, True, d) # map (\<lambda>(h, d). (h, True, d)) es)" "is_trace_valid s"
      "th_mode t = Consumer" "sh_rd_lock s = 0" and wr: "sh_wr_lock s = 0"
    using Cons.prems(1) e by (simp_all add: ready_ring_def)
  have ne: "octf_trace_is_empty s = Ok False"
    using ring(1,2) is_empty_queue [OF ring(1)] by (simp add: octf_trace_is_empty_def)
  let ?s = "s\<lparr>sh_rd_lock := 1\<rparr>"
  obtain p n s' where c: "octf_trace_get_rd_buffer t s = (?s, Ok (h, p, n))" "unat n = length d"
      "read_at (unat p) (length d) (sh_bytes s) = d" "octf_trace_release_rd_buffer t h ?s = (s', Ok ())"
      "holds t s' (map (\<lambda>(h, d). (h, True, d)) es)" "sh_rd_lock s' = 0" "is_trace_valid s'"
      "sh_wr_lock s' = sh_wr_lock s"
    using rd_cycle [OF ring] by blast
  have n: "of_nat (length d) = n" using c(2) by (metis of_nat_unat ucast_id)
  have rm: "file_room env j (mb # mbs' @ later)" using Cons.prems(3) mbs(1) by simp
  obtain j' where j': "job_serialize env d n j = (j', Inr ())" "ser_ok (jb_serializer j')"
      "ser_data (jb_serializer j') = ser_data (jb_serializer j) @ frame (snd mb)"
      "jb_count j' = jb_count j + 1" "file_room env j' (mbs' @ later)" "jb_state j' = jb_state j"
      "s_open (jb_serializer j') = s_open (jb_serializer j)"
    using job_serialize_records [OF mbs(2) rm assms(4) Cons.prems(4) n] by blast
  have "ready_ring t s' es" using c(5-8) ring(3) wr by (simp add: ready_ring_def)
  from Cons.IH [OF this mbs(3) j'(5,2)] obtain s2 j2 where
    "drain env t s' j' = Some (s2, j2, Inr ())" "ready_ring t s2 []" "ser_ok (jb_serializer j2)"
    "ser_data (jb_serializer j2) = ser_data (jb_serializer j') @ concat (map (\<lambda>mb. frame (snd mb)) mbs')"
    "jb_count j2 = jb_count j' + of_nat (length es)" "file_room env j2 later" "jb_state j2 = jb_state j'"
    "s_open (jb_serializer j2) = s_open (jb_serializer j')" by blast
  moreover have "drain env t s j = drain env t s' j'"
    using ne c j'(1) by (simp add: drain.simps [of env t s] errno_of_def)
  ultimately show ?case using j' mbs(1) by simp
qed

text \<open>The ring with committed events of these bytes, wherever they lie in it.\<close>

definition ready_data :: "trace_handle \<Rightarrow> shared \<Rightarrow> u8 list list \<Rightarrow> bool" where
  "ready_data t s ds \<longleftrightarrow> (\<exists>es. map snd es = ds \<and> ready_ring t s es)"

text \<open>During each wait the producer puts a batch into the empty ring; the time ends with the last.\<close>

fun feeds :: "trace_handle \<Rightarrow> ((shared \<Rightarrow> shared) \<times> bool) list \<Rightarrow> u8 list list list \<Rightarrow> bool" where
  "feeds t ((produce, woken) # waits) (ds # batches) \<longleftrightarrow>
     (\<forall>s. ready_data t s [] \<longrightarrow> ready_data t (produce s) ds) \<and>
     (if woken then feeds t waits batches else waits = [] \<and> batches = [])"
| "feeds t _ _ \<longleftrightarrow> False"

lemma consume_records:
  assumes "feeds t waits batches" "ready_data t s []" "list_all2 (records env) (concat batches) mbs"
    "file_room env j mbs" "os_good (je_os env)" "ser_ok (jb_serializer j)"
  shows "\<exists>s' j'. consumeTraces env t waits s j = Some (s', j', Inr ()) \<and> ser_ok (jb_serializer j') \<and>
    ser_data (jb_serializer j') = ser_data (jb_serializer j) @ concat (map (\<lambda>mb. frame (snd mb)) mbs) \<and>
    jb_count j' = jb_count j + of_nat (length mbs) \<and> s_open (jb_serializer j') = s_open (jb_serializer j)"
  using assms(1-4,6)
proof (induction t waits batches arbitrary: s j mbs rule: feeds.induct)
  case (1 t produce woken waits ds batches)
  obtain ms ns where mbs: "mbs = ms @ ns" "list_all2 (records env) ds ms" "list_all2 (records env) (concat batches) ns"
    using "1.prems"(3) by (auto simp: list_all2_append1)
  obtain es where es: "map snd es = ds" "ready_ring t (produce s) es"
    using "1.prems"(1,2) by (auto simp: ready_data_def)
  have len: "length es = length ms"
    using es(1) list_all2_lengthD [OF mbs(2)] by (metis length_map)
  have "list_all2 (records env) (map snd es) ms" using es(1) mbs(2) by simp
  from drain_records [OF es(2) this "1.prems"(4) [unfolded mbs(1)] assms(5) "1.prems"(5)]
  obtain s1 j1 where s1: "drain env t (produce s) j = Some (s1, j1, Inr ())" "ready_ring t s1 []"
      "ser_ok (jb_serializer j1)"
      "ser_data (jb_serializer j1) = ser_data (jb_serializer j) @ concat (map (\<lambda>mb. frame (snd mb)) ms)"
      "jb_count j1 = jb_count j + of_nat (length es)" "file_room env j1 ns"
      "s_open (jb_serializer j1) = s_open (jb_serializer j)" by blast
  show ?case
  proof (cases woken)
    case True
    have "ready_data t s1 []" using s1(2) by (auto simp: ready_data_def)
    moreover have "feeds t waits batches" using "1.prems"(1) True by simp
    ultimately obtain s2 j2 where "consumeTraces env t waits s1 j1 = Some (s2, j2, Inr ())"
        "ser_ok (jb_serializer j2)"
        "ser_data (jb_serializer j2) = ser_data (jb_serializer j1) @ concat (map (\<lambda>mb. frame (snd mb)) ns)"
        "jb_count j2 = jb_count j1 + of_nat (length ns)" "s_open (jb_serializer j2) = s_open (jb_serializer j1)"
      using "1.IH" [OF True _ _ mbs(3) s1(6,3)] by blast
    then show ?thesis using s1 True mbs(1) len by simp
  next
    case False
    then have "ns = []" using "1.prems"(1) mbs(3) by simp
    then show ?thesis using s1 False mbs(1) len by simp
  qed
qed simp_all

lemma work_records:
  assumes "feeds t waits batches" "ready_data t s []" "list_all2 (records env) (concat batches) mbs"
    "file_room env j mbs" "os_good (je_os env)" "ser_ok (jb_serializer j)" "s_open (jb_serializer j)"
  shows "\<exists>s' j'. doWork env t waits s j = Some (s', j') \<and> jb_state j' = COMPLETE \<and>
    s_file (jb_serializer j') = ser_data (jb_serializer j) @ concat (map (\<lambda>mb. frame (snd mb)) mbs) \<and>
    jb_count j' = jb_count j + of_nat (length mbs) \<and> \<not> s_open (jb_serializer j')"
proof -
  let ?j = "j\<lparr>jb_state := RUNNING\<rparr>"
  have "file_room env ?j mbs" using assms(4) by (simp add: file_room_def)
  then obtain s1 j1 where *: "consumeTraces env t waits s ?j = Some (s1, j1, Inr ())"
      "ser_ok (jb_serializer j1)"
      "ser_data (jb_serializer j1) = ser_data (jb_serializer j) @ concat (map (\<lambda>mb. frame (snd mb)) mbs)"
      "jb_count j1 = jb_count j + of_nat (length mbs)" "s_open (jb_serializer j1)"
    using consume_records [OF assms(1-3) _ assms(5), of ?j] assms(6,7) by auto
  from close_cuts [OF assms(5) *(2,5)] * show ?thesis by (auto simp: doWork_def)
qed

lemma new_job:
  assumes "os_good os" "TraceJob os sz hdr s file c = Inr (t, j)"
  shows "ser_ok (jb_serializer j)" "ser_data (jb_serializer j) = []" "s_open (jb_serializer j)"
    "jb_count j = 0" "s_dataOffset (jb_serializer j) = 0" "octf_trace_open sz hdr Consumer True s = (s, Ok t)"
proof -
  have "octf_trace_open sz hdr Consumer True s = (s, Ok t)"
      "jb_serializer j = (FileTraceSerializer file)\<lparr>s_open := True\<rparr>" "jb_count j = 0"
    using assms
    by (auto simp: TraceJob_def ser_open_def os_good_def octf_trace_open_def FileTraceSerializer_def
        split: prod.splits outcome.splits bool.splits if_splits sum.splits)
  then show "ser_ok (jb_serializer j)" "ser_data (jb_serializer j) = []" "s_open (jb_serializer j)"
    "jb_count j = 0" "s_dataOffset (jb_serializer j) = 0" "octf_trace_open sz hdr Consumer True s = (s, Ok t)"
    by (simp_all add: ser_ok_def ser_data_def FileTraceSerializer_def)
qed

text \<open>The push of one event that fits the empty ring is such a batch.\<close>

lemma push_readies:
  assumes "ready_data t s []" "th_mode tp = Producer" "rsize tp = rsize t" "fits (rsize t) (length ev)"
    "unat n = length ev" "length ev + 15 < 4294967296" "copies lim memcpy_s" "length ev \<le> lim"
  shows "ready_data t (fst (octf_trace_push memcpy_s tp ev n s)) [ev]"
proof -
  have r: "holds t s []" "is_trace_valid s" "th_mode t = Consumer" "sh_rd_lock s = 0" "sh_wr_lock s = 0"
    using assms(1) by (auto simp: ready_data_def ready_ring_def)
  have "holds tp s []" by (rule holds_size [OF r(1) assms(3)])
  from push_queue [OF this r(2) assms(2) r(5) assms(5-8)] assms(3,4) obtain s' h where
    s': "octf_trace_push memcpy_s tp ev n s = (s', Ok ())" "holds tp s' [(h, True, ev)]" "only_ring s s'"
    by auto
  have "holds t s' [(h, True, ev)]" by (rule holds_size [OF s'(2)]) (simp add: assms(3))
  then have "ready_ring t s' [(h, ev)]"
    using r s'(3) by (simp add: ready_ring_def only_ring_def is_trace_valid_def)
  then show ?thesis using s'(1) by (auto simp: ready_data_def intro!: exI [of _ "[(h, ev)]"])
qed

subsection \<open>Property\<close>

text \<open>
  Property C21. The job writes the whole ring. When the producer puts a batch of events into the ring
  during each wait and every event converts into a message that serialises, the job thread
  ends, in the state \<open>COMPLETE\<close>, its file holds the framed messages of all batches in their
  order behind what was written before and nothing else, and it has counted them all.
\<close>

theorem job_records_the_ring:
  assumes "feeds t waits batches" "ready_data t s []" "list_all2 (records env) (concat batches) mbs"
    "file_room env j mbs" "os_good (je_os env)" "ser_ok (jb_serializer j)" "s_open (jb_serializer j)"
  shows "\<exists>s' j'. doWork env t waits s j = Some (s', j') \<and> jb_state j' = COMPLETE \<and>
    s_file (jb_serializer j') = ser_data (jb_serializer j) @ concat (map (\<lambda>mb. frame (snd mb)) mbs) \<and>
    jb_count j' = jb_count j + of_nat (length mbs)"
  using work_records [OF assms] by blast

definition sample_os :: os where
  "sample_os = \<lparr>os_page = 4096, os_open = True, os_fallocate = (\<lambda>_ _. True), os_mmap = (\<lambda>_ _. True),
     os_ftruncate = True, os_fchmod = True, os_fsync = True, os_close = True\<rparr>"

definition sample_env :: "(u8, unit) job_env" where
  "sample_env = \<lparr>je_convert = Some (\<lambda>bs _ c. (c, Inr (byte_parse bs))), je_ByteSizeLong = (\<lambda>_. 1),
     je_SerializeToArray = (\<lambda>m. Some [m]), je_memcpy_s = plain_copy, je_os = sample_os\<rparr>"

lemma sample_env_records: "records sample_env [b] (b, [b])" "os_good (je_os sample_env)"
  by (simp_all add: records_def sample_env_def byte_parse_def serializes_def sample_os_def os_good_def)

theorem job_records_the_ring_witness:
  "\<exists>t tp s s' j j'. TraceJob sample_os 32768 False s [] () = Inr (t, j) \<and>
     doWork sample_env t [(\<lambda>s. fst (octf_trace_push plain_copy tp [7] 1 s), True),
       (\<lambda>s. fst (octf_trace_push plain_copy tp [9] 1 s), False)] s j = Some (s', j') \<and>
     jb_state j' = COMPLETE \<and> jb_count j' = 2 \<and> s_file (jb_serializer j') = frame [7] @ frame [9]"
proof -
  obtain s tp where o: "octf_trace_open 32768 False Producer True undefined = (s, Ok tp)" "rsize tp = 28608"
    using open_sample by blast
  note r = open_ring [OF o(1)]
  obtain tc where tc: "octf_trace_open 32768 False Consumer True s = (s, Ok tc)" "th_mode tc = Consumer"
      "rsize tc = rsize tp"
    using open_both [OF o(1)] by blast
  obtain j where j: "TraceJob sample_os 32768 False s [] () = Inr (tc, j)"
    using tc(1) by (simp add: TraceJob_def ser_open_def sample_os_def FileTraceSerializer_def)
  have osok: "os_good sample_os" using sample_env_records(2) by (simp add: sample_env_def)
  note nj = new_job [OF osok j]
  have "ready_ring tc s []"
    using holds_size [OF r(1) tc(3)] r(2-5) tc(2) by (simp add: ready_ring_def)
  then have rd: "ready_data tc s []" by (auto simp: ready_data_def)
  have "ready_data tc (fst (octf_trace_push plain_copy tp [b] 1 s)) [[b]]" if "ready_data tc s []" for s b
    by (rule push_readies [OF that r(3) tc(3) [symmetric], where lim = 100 and ev = "[b]"])
      (use o(2) tc(3) plain_copy_copies in \<open>simp_all add: fits_def align_def\<close>)
  then have feed: "feeds tc [(\<lambda>s. fst (octf_trace_push plain_copy tp [7] 1 s), True),
       (\<lambda>s. fst (octf_trace_push plain_copy tp [9] 1 s), False)] [[[7]], [[9]]]"
    by simp
  have "list_all2 (records sample_env) (concat [[[7]], [[9]]]) [(7, [7]), (9, [9])]"
    using sample_env_records(1) by simp
  from job_records_the_ring [OF feed rd this _ sample_env_records(2) nj(1,3)]
  obtain s' j' where "doWork sample_env tc [(\<lambda>s. fst (octf_trace_push plain_copy tp [7] 1 s), True),
       (\<lambda>s. fst (octf_trace_push plain_copy tp [9] 1 s), False)] s j = Some (s', j')"
      "jb_state j' = COMPLETE" "s_file (jb_serializer j') = frame [7] @ frame [9]" "jb_count j' = 2"
    using nj(2,4,5) by (auto simp: file_room_def room_def sample_env_def sample_os_def)
  with j show ?thesis by blast
qed

end
