(* ===== verification/Packetizer.thy ===== *)
theory Packetizer
  imports Octf_Prelude
begin

section \<open>Packets over a stream socket\<close>

text \<open>
  \<open>Connection\<close> of source/octf/socket/internal/unixsocket/Connection.cpp sends and receives bytes on
  a stream socket; \<open>Packetizer\<close> of source/octf/socket/internal/Packetizer.cpp makes packets of
  them: a signature, the size in four bytes, the data.

  A connection holds the bytes the kernel has taken from it and the bytes that are still to
  arrive before the peer closes its side. How much one call of \<open>send\<close> or \<open>recv\<close> moves is the
  kernel's choice: the next elements of \<open>cn_sends\<close> and \<open>cn_recvs\<close> bound the calls to come, \<open>None\<close>
  is an error, and when the list is used up a call moves all it can.
\<close>

record connection =
  cn_active :: bool
  cn_out :: "u8 list"
  cn_in :: "u8 list"
  cn_sends :: "nat option list"
  cn_recvs :: "nat option list"

definition MAX_PACKET_SIZE :: nat where "MAX_PACKET_SIZE = 33554432"

definition cn_close :: "connection \<Rightarrow> connection" where
  "cn_close c = c\<lparr>cn_active := False\<rparr>"

text \<open>The system calls: the number of bytes moved, \<open>None\<close> for an error.\<close>

definition sys_send :: "u8 list \<Rightarrow> connection \<Rightarrow> connection \<times> nat option" where
  "sys_send bs c =
     (case cn_sends c of
        None # ks \<Rightarrow> (c\<lparr>cn_sends := ks\<rparr>, None)
      | Some k # ks \<Rightarrow> (c\<lparr>cn_sends := ks, cn_out := cn_out c @ take k bs\<rparr>, Some (min k (length bs)))
      | [] \<Rightarrow> (c\<lparr>cn_out := cn_out c @ bs\<rparr>, Some (length bs)))"

definition sys_recv :: "nat \<Rightarrow> connection \<Rightarrow> connection \<times> u8 list option" where
  "sys_recv n c =
     (case cn_recvs c of
        None # ks \<Rightarrow> (c\<lparr>cn_recvs := ks\<rparr>, None)
      | Some k # ks \<Rightarrow> (c\<lparr>cn_recvs := ks, cn_in := drop (min k n) (cn_in c)\<rparr>, Some (take (min k n) (cn_in c)))
      | [] \<Rightarrow> (c\<lparr>cn_in := drop n (cn_in c)\<rparr>, Some (take n (cn_in c))))"

function send_loop :: "u8 list \<Rightarrow> connection \<Rightarrow> connection \<times> bool" where
  "send_loop bs c =
     (if bs = [] then (c, True)
      else case sys_send (take MAX_PACKET_SIZE bs) c of
             (c, None) \<Rightarrow> (cn_close c, False)
           | (c, Some k) \<Rightarrow> if k = 0 then (cn_close c, False) else send_loop (drop k bs) c)"
  by pat_completeness auto

termination
  by (relation "measure (\<lambda>(bs, _). length bs)") auto

declare send_loop.simps [simp del]

definition cn_send :: "u8 list \<Rightarrow> connection \<Rightarrow> connection \<times> bool" where
  "cn_send bs c = (if \<not> cn_active c then (c, False) else send_loop bs c)"

definition cn_receive :: "nat \<Rightarrow> connection \<Rightarrow> connection \<times> u8 list option" where
  "cn_receive n c =
     (if \<not> cn_active c then (c, None)
      else if MAX_PACKET_SIZE < n then (c, None)
      else case sys_recv n c of
             (c, None) \<Rightarrow> (c, None)
           | (c, Some bs) \<Rightarrow> if bs = [] then (cn_close c, None) else (c, Some bs))"

subsection \<open>The packetizer\<close>

definition HEADER_SIZE :: nat where "HEADER_SIZE = 5"
definition HEADER_SIGNATURE :: u8 where "HEADER_SIGNATURE = 0x7F"

record packetizer =
  pk_conn :: connection
  pk_error :: bool
  pk_expected :: nat

definition createHeader :: "u32 \<Rightarrow> u8 list" where
  "createHeader dataSize =
     [HEADER_SIGNATURE, ucast (and dataSize 0xFF), ucast (and (drop_bit 8 dataSize) 0xFF),
      ucast (and (drop_bit 16 dataSize) 0xFF), ucast (and (drop_bit 24 dataSize) 0xFF)]"

definition sendPacket :: "u8 list \<Rightarrow> packetizer \<Rightarrow> packetizer \<times> bool" where
  "sendPacket packetData p =
     (case cn_send (createHeader (of_nat (length packetData))) (pk_conn p) of
        (c, False) \<Rightarrow> (p\<lparr>pk_conn := c, pk_error := True\<rparr>, False)
      | (c, True) \<Rightarrow>
          (case cn_send packetData c of
             (c, False) \<Rightarrow> (p\<lparr>pk_conn := c, pk_error := True\<rparr>, False)
           | (c, True) \<Rightarrow> (p\<lparr>pk_conn := c\<rparr>, True)))"

definition parseDataSize :: "u8 list \<Rightarrow> packetizer \<Rightarrow> packetizer \<times> bool" where
  "parseDataSize header p =
     (if length header < HEADER_SIZE then (p\<lparr>pk_error := True, pk_expected := 0\<rparr>, False)
      else let sz = ucast (header ! 1) + push_bit 8 (ucast (header ! 2)) +
                    push_bit 16 (ucast (header ! 3)) + push_bit 24 (ucast (header ! 4)) :: u32
           in (p\<lparr>pk_expected := unat sz\<rparr>, True))"

definition processHeader :: "u8 list \<Rightarrow> packetizer \<Rightarrow> packetizer \<times> bool" where
  "processHeader header p =
     (if header ! 0 \<noteq> HEADER_SIGNATURE then (p, False)
      else case parseDataSize header p of
             (p, False) \<Rightarrow> (p, False)
           | (p, True) \<Rightarrow> (p, \<not> MAX_PACKET_SIZE < pk_expected p))"

text \<open>
  The loop that gathers the data. \<open>receive\<close> never gives more bytes than asked for, so the test
  for too many received bytes is never true, and the error flag is not set inside the loop.
\<close>

lemma cn_receive_some:
  "cn_receive n c = (c', Some bs) \<Longrightarrow> bs \<noteq> [] \<and> length bs \<le> n"
  by (auto simp: cn_receive_def sys_recv_def split: if_splits prod.splits option.splits list.splits)

function receive_loop :: "u8 list \<Rightarrow> packetizer \<Rightarrow> packetizer \<times> u8 list option" where
  "receive_loop acc p =
     (if length acc < pk_expected p
      then if pk_error p then (p\<lparr>pk_expected := 0\<rparr>, None)
           else case cn_receive (pk_expected p - length acc) (pk_conn p) of
                  (c, None) \<Rightarrow> (p\<lparr>pk_conn := c, pk_error := True\<rparr>, None)
                | (c, Some bs) \<Rightarrow> receive_loop (acc @ bs) (p\<lparr>pk_conn := c\<rparr>)
      else (p, Some acc))"
  by pat_completeness auto

termination
proof (relation "measure (\<lambda>(acc, p). pk_expected p - length acc)")
qed (auto dest!: cn_receive_some [OF sym] simp: diff_less_mono2)

declare receive_loop.simps [simp del]

definition receivePacket :: "packetizer \<Rightarrow> packetizer \<times> u8 list option" where
  "receivePacket p =
     (if pk_error p then (p\<lparr>pk_expected := 0\<rparr>, None)
      else case cn_receive HEADER_SIZE (pk_conn p) of
             (c, None) \<Rightarrow> (p\<lparr>pk_conn := c, pk_error := True, pk_expected := 0\<rparr>, None)
           | (c, Some header) \<Rightarrow>
               (case processHeader header (p\<lparr>pk_conn := c\<rparr>) of
                  (p, False) \<Rightarrow> (p\<lparr>pk_error := True, pk_expected := 0\<rparr>, None)
                | (p, True) \<Rightarrow> receive_loop [] p))"

definition pk_isError :: "packetizer \<Rightarrow> packetizer \<times> bool" where
  "pk_isError p =
     (let p = (if cn_active (pk_conn p) then p else p\<lparr>pk_error := True\<rparr>) in (p, pk_error p))"

definition pk_reset :: "packetizer \<Rightarrow> packetizer" where
  "pk_reset p = p\<lparr>pk_expected := 0, pk_error := False\<rparr>"

subsection \<open>Sending and receiving\<close>

text \<open>The kernel moves something in every call.\<close>

definition moves :: "nat option list \<Rightarrow> bool" where
  "moves ks \<longleftrightarrow> (\<forall>k \<in> set ks. \<exists>n > 0. k = Some n)"

lemma moves_Cons [simp]: "moves (k # ks) \<longleftrightarrow> (\<exists>n > 0. k = Some n) \<and> moves ks"
  by (auto simp: moves_def)

lemma send_loop_all:
  assumes "moves (cn_sends c)"
  shows "\<exists>c'. send_loop bs c = (c', True) \<and> cn_out c' = cn_out c @ bs \<and> moves (cn_sends c') \<and>
    cn_active c' = cn_active c"
  using assms
proof (induction bs c rule: send_loop.induct)
  case (1 bs c)
  show ?case
  proof (cases "bs = []")
    case True
    then show ?thesis using "1.prems" by (simp add: send_loop.simps)
  next
    case False
    let ?l = "min (length bs) MAX_PACKET_SIZE"
    have l: "0 < ?l" using False by (simp add: MAX_PACKET_SIZE_def)
    obtain c1 k where c1: "sys_send (take MAX_PACKET_SIZE bs) c = (c1, Some k)" "0 < k" "k \<le> ?l"
        "cn_out c1 = cn_out c @ take k bs" "moves (cn_sends c1)" "cn_active c1 = cn_active c"
    proof (cases "cn_sends c")
      case Nil
      then show thesis using that [of "c\<lparr>cn_out := cn_out c @ take MAX_PACKET_SIZE bs\<rparr>" ?l] l "1.prems"
        by (simp add: sys_send_def min_def)
    next
      case (Cons x ks)
      then obtain n where n: "x = Some n" "0 < n" using "1.prems" by auto
      have "take n (take MAX_PACKET_SIZE bs) = take (min n ?l) bs" by (simp add: min_def)
      then show thesis
        using that [of "c\<lparr>cn_sends := ks, cn_out := cn_out c @ take n (take MAX_PACKET_SIZE bs)\<rparr>" "min n ?l"]
          Cons n l "1.prems"
        by (simp add: sys_send_def min_le_iff_disj)
    qed
    from "1.IH" [OF False c1(1) [symmetric] refl _ c1(5)] c1(2) obtain c' where
      "send_loop (drop k bs) c1 = (c', True)" "cn_out c' = cn_out c1 @ drop k bs" "moves (cn_sends c')"
      "cn_active c' = cn_active c1" by auto
    then show ?thesis using False c1 by (simp add: send_loop.simps [of bs c])
  qed
qed

lemma sendPacket_all:
  assumes "cn_active (pk_conn p)" "moves (cn_sends (pk_conn p))"
  shows "\<exists>p'. sendPacket d p = (p', True) \<and>
    cn_out (pk_conn p') = cn_out (pk_conn p) @ createHeader (of_nat (length d)) @ d"
proof -
  obtain c where c: "send_loop (createHeader (of_nat (length d))) (pk_conn p) = (c, True)"
      "cn_out c = cn_out (pk_conn p) @ createHeader (of_nat (length d))" "moves (cn_sends c)"
      "cn_active c"
    using send_loop_all [OF assms(2)] assms(1) by blast
  obtain c' where "send_loop d c = (c', True)" "cn_out c' = cn_out c @ d"
    using send_loop_all [OF c(3)] by blast
  then show ?thesis using c assms(1) by (simp add: sendPacket_def cn_send_def)
qed

lemma cn_receive_moves:
  assumes "cn_active c" "moves (cn_recvs c)" "0 < n" "n \<le> MAX_PACKET_SIZE" "cn_in c \<noteq> []"
  shows "\<exists>k c'. cn_receive n c = (c', Some (take k (cn_in c))) \<and> 0 < k \<and> k \<le> n \<and>
    cn_in c' = drop k (cn_in c) \<and> moves (cn_recvs c') \<and> cn_active c'"
proof (cases "cn_recvs c")
  case Nil
  then show ?thesis using assms
    by (intro exI [of _ n] exI [of _ "c\<lparr>cn_in := drop n (cn_in c)\<rparr>"])
      (simp add: cn_receive_def sys_recv_def)
next
  case (Cons x ks)
  then obtain j where j: "x = Some j" "0 < j" using assms(2) by auto
  show ?thesis
    by (intro exI [of _ "min j n"] exI [of _ "c\<lparr>cn_recvs := ks, cn_in := drop (min j n) (cn_in c)\<rparr>"])
      (use assms Cons j in \<open>simp add: cn_receive_def sys_recv_def\<close>)
qed

lemma receive_loop_all:
  assumes "cn_active (pk_conn p)" "moves (cn_recvs (pk_conn p))" "pk_expected p \<le> MAX_PACKET_SIZE"
    "\<not> pk_error p" "cn_in (pk_conn p) = d @ rest" "length acc + length d = pk_expected p"
  shows "\<exists>p'. receive_loop acc p = (p', Some (acc @ d)) \<and> cn_in (pk_conn p') = rest \<and> \<not> pk_error p' \<and>
    cn_active (pk_conn p') \<and> moves (cn_recvs (pk_conn p'))"
  using assms
proof (induction acc p arbitrary: d rule: receive_loop.induct)
  case (1 acc p)
  show ?case
  proof (cases "d = []")
    case True
    then show ?thesis using "1.prems" by (simp add: receive_loop.simps [of acc p])
  next
    case False
    let ?n = "pk_expected p - length acc"
    have "0 < length d" using False by simp
    then have n: "?n = length d" "0 < length d" "length acc < pk_expected p" using "1.prems"(6) by linarith+
    have "cn_in (pk_conn p) \<noteq> []" "?n \<le> MAX_PACKET_SIZE" "0 < ?n"
      using "1.prems"(3,5) False n by auto
    then obtain k c' where c': "cn_receive ?n (pk_conn p) = (c', Some (take k (cn_in (pk_conn p))))"
        "0 < k" "k \<le> ?n" "cn_in c' = drop k (cn_in (pk_conn p))" "moves (cn_recvs c')" "cn_active c'"
      using cn_receive_moves [OF "1.prems"(1,2)] by blast
    have k: "take k (cn_in (pk_conn p)) = take k d" "cn_in c' = drop k d @ rest"
      using c'(3,4) "1.prems"(5) n(1) by simp_all
    have "\<exists>p'. receive_loop (acc @ take k d) (p\<lparr>pk_conn := c'\<rparr>) = (p', Some ((acc @ take k d) @ drop k d)) \<and>
        cn_in (pk_conn p') = rest \<and> \<not> pk_error p' \<and> cn_active (pk_conn p') \<and> moves (cn_recvs (pk_conn p'))"
      by (rule "1.IH" [OF n(3) "1.prems"(4) c'(1) [unfolded k(1), symmetric] refl])
        (use "1.prems" c' k n in auto)
    then show ?thesis
      using n(3) "1.prems"(4) c'(1) k(1) by (simp add: receive_loop.simps [of acc p])
  qed
qed

subsection \<open>The header\<close>

lemma byte_of_u32: "unat (ucast (and (drop_bit k (x :: u32)) 0xFF) :: u8) = unat x div 2 ^ k mod 256"
proof -
  have "and (drop_bit k x) 0xFF = take_bit 8 (drop_bit k x)"
    by (simp add: take_bit_eq_mask mask_eq_exp_minus_1)
  then have "unat (ucast (and (drop_bit k x) 0xFF) :: u8) = take_bit 8 (unat (drop_bit k x))"
    by (simp add: unsigned_ucast_eq unsigned_take_bit_eq del: drop_bit_eq_div)
  also have "unat (drop_bit k x) = drop_bit k (unat x)"
    by (rule bit_eqI) (auto simp: bit_unsigned_iff bit_drop_bit_eq bit_simps dest: bit_imp_le_length)
  finally show ?thesis by (simp only: take_bit_eq_mod drop_bit_eq_div) simp
qed

lemma unat_push_byte:
  assumes "k \<le> 24"
  shows "unat (push_bit k (ucast (b :: u8)) :: u32) = 2 ^ k * unat b"
proof -
  have b: "unat b < 256" using unsigned_less [of b] by simp
  have "(2 :: nat) ^ k \<le> 2 ^ 24" using assms by (intro power_increasing) simp_all
  then have lt: "2 ^ k * unat b < 2 ^ 32" using b mult_mono [of "2 ^ k" "2 ^ 24" "unat b" 255] by simp
  have u: "unat (ucast b :: u32) = unat b"
    using b by (simp add: unsigned_ucast_eq take_bit_nat_eq_self)
  have "unat (push_bit k (ucast b :: u32)) = take_bit 32 (push_bit k (unat b))"
    unfolding unsigned_push_bit_eq u by simp
  also have "push_bit k (unat b) = 2 ^ k * unat b" by (simp only: push_bit_eq_mult mult.commute)
  finally show ?thesis using lt by (simp only: take_bit_nat_eq_self)
qed

lemma bytes_sum:
  fixes n :: nat
  assumes "n < 2 ^ 32"
  shows "n div 2 ^ 0 mod 256 + 2 ^ 8 * (n div 2 ^ 8 mod 256) + 2 ^ 16 * (n div 2 ^ 16 mod 256) +
    2 ^ 24 * (n div 2 ^ 24 mod 256) = n"
proof -
  let ?a = "n div 256" and ?b = "n div 256 div 256" and ?c = "n div 256 div 256 div 256"
  have e: "n div 2 ^ 8 = ?a" "n div 2 ^ 16 = ?b" "n div 2 ^ 24 = ?c"
    by (simp_all flip: div_mult2_eq)
  have "?c < 256" using assms by (simp flip: div_mult2_eq add: less_mult_imp_div_less)
  have "n = 256 * ?a + n mod 256" "?a = 256 * ?b + ?a mod 256" "?b = 256 * ?c + ?b mod 256"
    by (rule mult_div_mod_eq [symmetric])+
  then have "n mod 256 + 256 * (?a mod 256) + 65536 * (?b mod 256) + 16777216 * ?c = n" by linarith
  with \<open>?c < 256\<close> show ?thesis unfolding e by simp
qed

lemma parse_createHeader:
  "parseDataSize (createHeader n) p = (p\<lparr>pk_expected := unat n\<rparr>, True)"
proof -
  let ?byte = "\<lambda>k. ucast (and (drop_bit k n) 0xFF) :: u8"
  let ?word = "\<lambda>k. push_bit k (ucast (?byte k)) :: u32"
  have n: "unat n < 2 ^ 32" using unsigned_less [of n] by simp
  have w: "unat (?word k) = 2 ^ k * (unat n div 2 ^ k mod 256)" if "k \<le> 24" for k
    using unat_push_byte [OF that] byte_of_u32 by simp
  have s: "unat (?word 0) + unat (?word 8) + unat (?word 16) + unat (?word 24) = unat n"
    using bytes_sum [OF n] w [of 0] w [of 8] w [of 16] w [of 24] by simp
  then have "of_nat (unat (?word 0) + unat (?word 8) + unat (?word 16) + unat (?word 24)) = n" by simp
  then have "?word 0 + ?word 8 + ?word 16 + ?word 24 = n" by simp
  then have "ucast (?byte 0) + ?word 8 + ?word 16 + ?word 24 = n" by simp
  then show ?thesis by (simp add: parseDataSize_def createHeader_def HEADER_SIZE_def Let_def)
qed

lemma receive_whole:
  assumes "cn_active (pk_conn r)" "moves (cn_recvs (pk_conn r))" "\<not> pk_error r"
    and "case cn_recvs (pk_conn r) of Some k # _ \<Rightarrow> 5 \<le> k | _ \<Rightarrow> True"
    and "length d \<le> MAX_PACKET_SIZE"
    and "cn_in (pk_conn r) = createHeader (of_nat (length d)) @ d @ rest"
  shows "\<exists>r'. receivePacket r = (r', Some d) \<and> cn_in (pk_conn r') = rest \<and> \<not> pk_error r'"
proof -
  let ?h = "createHeader (of_nat (length d))"
  have hl: "length ?h = 5" by (simp add: createHeader_def)
  note arrive = assms(6)
  obtain c where c: "cn_receive HEADER_SIZE (pk_conn r) = (c, Some ?h)" "cn_in c = d @ rest"
      "moves (cn_recvs c)" "cn_active c"
  proof (cases "cn_recvs (pk_conn r)")
    case Nil
    then show thesis
      using that [of "(pk_conn r)\<lparr>cn_in := d @ rest\<rparr>"] arrive hl assms(1,2)
      by (simp add: cn_receive_def sys_recv_def HEADER_SIZE_def MAX_PACKET_SIZE_def createHeader_def)
  next
    case (Cons x ks)
    then obtain k where "x = Some k" "5 \<le> k" "moves ks" using assms(2,4) by auto
    then show thesis
      using that [of "(pk_conn r)\<lparr>cn_recvs := ks, cn_in := d @ rest\<rparr>"] Cons arrive hl assms(1)
      by (simp add: cn_receive_def sys_recv_def HEADER_SIZE_def MAX_PACKET_SIZE_def createHeader_def min_def)
  qed
  have n: "unat (of_nat (length d) :: u32) = length d"
    using assms(5) by (simp add: MAX_PACKET_SIZE_def unat_of_nat)
  let ?p = "r\<lparr>pk_conn := c, pk_expected := length d\<rparr>"
  have "processHeader ?h (r\<lparr>pk_conn := c\<rparr>) = (?p, True)"
    using assms(5) n by (simp add: processHeader_def parse_createHeader) (simp add: createHeader_def)
  moreover obtain r' where "receive_loop [] ?p = (r', Some d)" "cn_in (pk_conn r') = rest" "\<not> pk_error r'"
    using receive_loop_all [of ?p d rest "[]"] c assms(3,5) by auto
  ultimately show ?thesis using c(1) assms(3) by (simp add: receivePacket_def)
qed

text \<open>A header that arrives in pieces is an error, although nothing is wrong with the stream.\<close>

lemma split_header_fails:
  assumes "cn_active (pk_conn r)" "\<not> pk_error r" "cn_recvs (pk_conn r) = Some k # ks" "0 < k" "k < 5"
    and "cn_in (pk_conn r) = createHeader (of_nat (length d)) @ d @ rest"
  shows "\<exists>r'. receivePacket r = (r', None) \<and> pk_error r'"
proof -
  let ?h = "createHeader (of_nat (length d))"
  let ?c = "(pk_conn r)\<lparr>cn_recvs := ks, cn_in := drop k (cn_in (pk_conn r))\<rparr>"
  have h: "length ?h = 5" by (simp add: createHeader_def)
  then have "?h \<noteq> []" by auto
  then have "cn_receive HEADER_SIZE (pk_conn r) = (?c, Some (take k ?h))"
    using assms h by (simp add: cn_receive_def sys_recv_def HEADER_SIZE_def MAX_PACKET_SIZE_def min_def)
  moreover have "\<exists>p. processHeader (take k ?h) (r\<lparr>pk_conn := ?c\<rparr>) = (p, False)"
    using assms(4,5) by (auto simp: processHeader_def parseDataSize_def HEADER_SIZE_def)
  ultimately show ?thesis using assms(2) by (auto simp: receivePacket_def)
qed

subsection \<open>Property\<close>

text \<open>
  Property C23. What one side sends as a packet, at most \<open>MAX_PACKET_SIZE\<close> bytes, the other side
  receives, whatever pieces the kernel sends and delivers the data in, as long as it moves something
  in every call and the first call of \<open>recv\<close> delivers the five bytes of the header together; the
  bytes behind the packet stay for the next one. When that call delivers fewer bytes, the receiver
  takes the stream for broken: it reports an error and no data, although the stream is whole. The
  loops on both sides end in every case.
\<close>

theorem packet_round_trip:
  assumes "cn_active (pk_conn s)" "moves (cn_sends (pk_conn s))" "cn_out (pk_conn s) = []"
    and "length d \<le> MAX_PACKET_SIZE" "sendPacket d s = (s', ok)"
    and "cn_active (pk_conn r)" "moves (cn_recvs (pk_conn r))" "\<not> pk_error r"
    and "cn_in (pk_conn r) = cn_out (pk_conn s') @ rest"
  shows "ok \<and> (\<exists>r'.
    if (case cn_recvs (pk_conn r) of Some k # _ \<Rightarrow> 5 \<le> k | _ \<Rightarrow> True)
    then receivePacket r = (r', Some d) \<and> cn_in (pk_conn r') = rest \<and> \<not> pk_error r'
    else receivePacket r = (r', None) \<and> pk_error r')"
proof -
  let ?whole = "case cn_recvs (pk_conn r) of Some k # _ \<Rightarrow> 5 \<le> k | _ \<Rightarrow> True"
  have sent: "ok" "cn_out (pk_conn s') = createHeader (of_nat (length d)) @ d"
    using sendPacket_all [OF assms(1,2), of d] assms(3,5) by auto
  then have arrive: "cn_in (pk_conn r) = createHeader (of_nat (length d)) @ d @ rest"
    using assms(9) by simp
  show ?thesis
  proof (cases ?whole)
    case True
    then show ?thesis
      using sent(1) receive_whole [OF assms(6,7,8) True assms(4) arrive] by simp
  next
    case False
    then obtain k ks where k: "cn_recvs (pk_conn r) = Some k # ks" "k < 5"
      by (auto split: list.splits option.splits)
    then have "0 < k" using assms(7) by simp
    then show ?thesis
      using sent(1) False split_header_fails [OF assms(6,8) k(1) _ k(2), of d "rest"] arrive by simp
  qed
qed

text \<open>The same three bytes, with the header in one piece and with the header in two.\<close>

definition sample_sender :: packetizer where
  "sample_sender = \<lparr>pk_conn = \<lparr>cn_active = True, cn_out = [], cn_in = [],
     cn_sends = [Some 2, Some 1], cn_recvs = []\<rparr>, pk_error = False, pk_expected = 0\<rparr>"

definition sample_receiver :: "nat option list \<Rightarrow> u8 list \<Rightarrow> packetizer" where
  "sample_receiver ks bytes = \<lparr>pk_conn = \<lparr>cn_active = True, cn_out = [], cn_in = bytes,
     cn_sends = [], cn_recvs = ks\<rparr>, pk_error = False, pk_expected = 0\<rparr>"

theorem packet_round_trip_witness:
  "\<exists>s' r' r''. sendPacket [10, 20, 30] sample_sender = (s', True) \<and>
     receivePacket (sample_receiver [Some 8, Some 1, Some 1] (cn_out (pk_conn s') @ [99])) =
       (r', Some [10, 20, 30]) \<and> cn_in (pk_conn r') = [99] \<and>
     receivePacket (sample_receiver [Some 2, Some 6] (cn_out (pk_conn s') @ [99])) = (r'', None)"
proof -
  obtain s' ok where s': "sendPacket [10, 20, 30] sample_sender = (s', ok)" by force
  note run = packet_round_trip [OF _ _ _ _ s', of "sample_receiver ks (cn_out (pk_conn s') @ [99])" "[99]" for ks]
  from run [of "[Some 8, Some 1, Some 1]"] run [of "[Some 2, Some 6]"] show ?thesis
    using s' by (auto simp: sample_sender_def sample_receiver_def moves_def MAX_PACKET_SIZE_def)
qed

end
