(* ===== verification/Lru_Extension.thy ===== *)
theory Lru_Extension
  imports Trace_Messages
begin

section \<open>The simulated LRU cache\<close>

text \<open>
  \<open>LRUExtensionBuilder\<close> of source/octf/trace/parser/extensions/LRUExtensionBuilder.cpp replays the
  parsed events on a cache of 4 KiB lines with least recently used replacement. The nodes of
  the doubly linked list \<open>m_lru\<close> live in the hash map \<open>m_lookup\<close>, so the address of a node is
  named by its line, and \<open>None\<close> is the null pointer.

  The model keeps the keys of the map apart from the memory of the nodes: erasing a node frees
  it, and an access to a node that is not in the map is a use after free, which is undefined.
\<close>

record node =
  nd_prev :: "u64 option"
  nd_next :: "u64 option"

record lru =
  lru_keys :: "u64 list"
  lru_mem :: "u64 \<Rightarrow> node"
  lru_head :: "u64 option"
  lru_tail :: "u64 option"

definition at_node :: "u64 option \<Rightarrow> lru \<Rightarrow> u64 res" where
  "at_node p s =
     (case p of
        None \<Rightarrow> Inl (Undefined_Behaviour ''null pointer'')
      | Some k \<Rightarrow> if k \<in> set (lru_keys s) then Inr k
                  else Inl (Undefined_Behaviour ''use after free''))"

definition set_next :: "u64 \<Rightarrow> u64 option \<Rightarrow> lru \<Rightarrow> lru" where
  "set_next k p s = s\<lparr>lru_mem := (lru_mem s)(k := (lru_mem s k)\<lparr>nd_next := p\<rparr>)\<rparr>"

definition set_prev :: "u64 \<Rightarrow> u64 option \<Rightarrow> lru \<Rightarrow> lru" where
  "set_prev k p s = s\<lparr>lru_mem := (lru_mem s)(k := (lru_mem s k)\<lparr>nd_prev := p\<rparr>)\<rparr>"

definition lru_list_pop :: "u64 option \<Rightarrow> lru \<Rightarrow> lru res" where
  "lru_list_pop nod s =
     (if lru_head s = None then Inr s
      else and_then (if lru_tail s = nod
             then and_then (at_node (lru_tail s) s) (\<lambda>k. Inr (s\<lparr>lru_tail := nd_prev (lru_mem s k)\<rparr>))
             else Inr s) (\<lambda>s.
           and_then (if lru_head s = nod
             then and_then (at_node (lru_head s) s) (\<lambda>k. Inr (s\<lparr>lru_head := nd_next (lru_mem s k)\<rparr>))
             else Inr s) (\<lambda>s.
           and_then (at_node nod s) (\<lambda>k.
           let nxt = nd_next (lru_mem s k)
           in and_then (if nd_prev (lru_mem s k) \<noteq> None
             then and_then (at_node (nd_prev (lru_mem s k)) s) (\<lambda>q. Inr (set_next q nxt s))
             else Inr s) (\<lambda>s.
           and_then (if nd_next (lru_mem s k) \<noteq> None
             then and_then (at_node (nd_next (lru_mem s k)) s)
                    (\<lambda>q. Inr (set_prev q (nd_prev (lru_mem s k)) s))
             else Inr s) (\<lambda>s.
           Inr (set_next k None (set_prev k None s))))))))"

definition lru_list_push :: "u64 \<Rightarrow> lru \<Rightarrow> lru res" where
  "lru_list_push k s =
     (if lru_head s = None then Inr (s\<lparr>lru_head := Some k, lru_tail := Some k\<rparr>)
      else and_then (at_node (lru_tail s) s) (\<lambda>t.
           let s = set_prev k (lru_tail s) (set_next t (Some k) s)
           in Inr (s\<lparr>lru_tail := nd_next (lru_mem s t)\<rparr>)))"

definition lru_get :: "u64 \<Rightarrow> lru \<Rightarrow> bool" where
  "lru_get lba s \<longleftrightarrow> lba \<in> set (lru_keys s)"

definition lru_evict :: "lru \<Rightarrow> lru res" where
  "lru_evict s =
     and_then (at_node (lru_head s) s) (\<lambda>k.
       lru_list_pop (lru_head s) (s\<lparr>lru_keys := remove1 k (lru_keys s)\<rparr>))"

definition lru_push :: "u64 \<Rightarrow> u64 \<Rightarrow> lru \<Rightarrow> lru res" where
  "lru_push cacheLines lba s =
     (if lba \<in> set (lru_keys s)
      then and_then (lru_list_pop (Some lba) s) (lru_list_push lba)
      else and_then (if length (lru_keys s) \<ge> unat cacheLines then lru_evict s else Inr s) (\<lambda>s.
           lru_list_push lba (s\<lparr>lru_keys := lba # lru_keys s,
             lru_mem := (lru_mem s)(lba := \<lparr>nd_prev = None, nd_next = None\<rparr>)\<rparr>)))"

subsection \<open>The builder\<close>

definition getSectorSize :: u64 where "getSectorSize = 512"

definition sectorToCacheLine :: "u64 \<Rightarrow> u64" where
  "sectorToCacheLine sectors = (sectors * getSectorSize) div 4096"

record lru_builder =
  lb_cacheLines :: u64
  lb_lru :: lru
  lb_result :: "(bool \<times> u32) option"
  lb_noRq :: u64
  lb_noHit :: u64

definition LRUExtensionBuilder :: "u64 \<Rightarrow> u64 \<Rightarrow> lru_builder" where
  "LRUExtensionBuilder worksetSize cachePercentage =
     \<lparr>lb_cacheLines = sectorToCacheLine worksetSize * cachePercentage div 100,
      lb_lru = \<lparr>lru_keys = [], lru_mem = (\<lambda>_. \<lparr>nd_prev = None, nd_next = None\<rparr>), lru_head = None, lru_tail = None\<rparr>,
      lb_result = None, lb_noRq = 0, lb_noHit = 0\<rparr>"

definition isEventValid :: "parsed_event \<Rightarrow> bool" where
  "isEventValid e \<longleftrightarrow>
     (case pe_io e of None \<Rightarrow> False
      | Some io \<Rightarrow> (pio_operation io = Io_Read \<or> pio_operation io = Io_Write) \<and> pio_len io \<noteq> 0)"

text \<open>The loop over the lines of a request; the result says whether all were hit.\<close>

fun access_lines :: "u64 \<Rightarrow> u64 list \<Rightarrow> lru \<Rightarrow> bool \<Rightarrow> (lru \<times> bool) res" where
  "access_lines n [] s hit = Inr (s, hit)"
| "access_lines n (i # is) s hit =
     and_then (lru_push n i s) (\<lambda>s'. access_lines n is s' (hit \<and> lru_get i s))"

definition lines_between :: "u64 \<Rightarrow> u64 \<Rightarrow> u64 list" where
  "lines_between a b = map of_nat [unat a..<Suc (unat b)]"

definition event_lines :: "parsed_event \<Rightarrow> u64 list" where
  "event_lines e =
     (case pe_io e of None \<Rightarrow> []
      | Some io \<Rightarrow> let len = ucast (pio_len io); lba = pio_lba io;
                   firstCacheLine = sectorToCacheLine lba;
                   lastCacheLine = sectorToCacheLine (lba + len - 1)
               in lines_between firstCacheLine lastCacheLine)"

definition builder_step :: "parsed_event \<Rightarrow> lru_builder \<Rightarrow> lru_builder res" where
  "builder_step e b =
     (if \<not> isEventValid e then Inr (b\<lparr>lb_result := None\<rparr>)
      else and_then (access_lines (lb_cacheLines b) (event_lines e) (lb_lru b) True) (\<lambda>(s, hit).
              let noRq = lb_noRq b + 1; noHit = (if hit then lb_noHit b + 1 else lb_noHit b)
              in if noRq = 0 then Inl (Undefined_Behaviour ''division by zero'')
                 else Inr (b\<lparr>lb_lru := s, lb_noRq := noRq, lb_noHit := noHit,
                             lb_result := Some (hit, ucast (noHit * 100 div noRq))\<rparr>)))"

text \<open>The events one after the other, as the event handler gives them to the builder.\<close>

fun builder_run :: "parsed_event list \<Rightarrow> lru_builder \<Rightarrow> lru_builder res" where
  "builder_run [] b = Inr b"
| "builder_run (e # es) b = and_then (builder_step e b) (builder_run es)"

subsection \<open>The list behind the pointers\<close>

fun seg :: "(u64 \<Rightarrow> node) \<Rightarrow> u64 option \<Rightarrow> u64 list \<Rightarrow> u64 option \<Rightarrow> bool" where
  "seg m p [] q \<longleftrightarrow> True"
| "seg m p (x # xs) q \<longleftrightarrow>
     nd_prev (m x) = p \<and> nd_next (m x) = (if xs = [] then q else Some (hd xs)) \<and> seg m (Some x) xs q"

definition hd_ptr :: "u64 list \<Rightarrow> u64 option" where
  "hd_ptr xs = (if xs = [] then None else Some (hd xs))"

definition last_ptr :: "u64 list \<Rightarrow> u64 option" where
  "last_ptr xs = (if xs = [] then None else Some (last xs))"

lemma ptr_simps [simp]:
  "hd_ptr [] = None" "last_ptr [] = None" "hd_ptr (x # xs) = Some x" "last_ptr (xs @ [x]) = Some x"
  "hd_ptr xs = None \<longleftrightarrow> xs = []" "last_ptr xs = None \<longleftrightarrow> xs = []"
  by (simp_all add: hd_ptr_def last_ptr_def)

definition linked :: "lru \<Rightarrow> u64 list \<Rightarrow> bool" where
  "linked s xs \<longleftrightarrow> distinct xs \<and> lru_head s = hd_ptr xs \<and> lru_tail s = last_ptr xs \<and>
     seg (lru_mem s) None xs None"

text \<open>The cache holds exactly the lines of the list, the least recently used one first.\<close>

definition caches :: "lru \<Rightarrow> u64 list \<Rightarrow> bool" where
  "caches s xs \<longleftrightarrow> linked s xs \<and> distinct (lru_keys s) \<and> set (lru_keys s) = set xs"

lemma seg_append:
  "seg m p (xs @ ys) q \<longleftrightarrow>
     seg m p xs (if ys = [] then q else Some (hd ys)) \<and> seg m (if xs = [] then p else Some (last xs)) ys q"
proof (induction xs arbitrary: p)
  case (Cons x xs)
  then show ?case by (cases xs) auto
qed simp

lemma seg_cong: "(\<And>x. x \<in> set xs \<Longrightarrow> m x = m' x) \<Longrightarrow> seg m p xs q \<longleftrightarrow> seg m' p xs q"
  by (induction xs arbitrary: p) auto

lemma seg_set_last:
  assumes "seg m p xs q" "distinct xs" "xs \<noteq> []"
  shows "seg (m(last xs := (m (last xs))\<lparr>nd_next := q'\<rparr>)) p xs q'"
  using assms
proof (induction xs arbitrary: p)
  case (Cons x xs)
  then show ?case by (cases "xs = []") auto
qed simp

lemma seg_set_first:
  assumes "seg m p xs q" "distinct xs" "xs \<noteq> []"
  shows "seg (m(hd xs := (m (hd xs))\<lparr>nd_prev := p'\<rparr>)) p' xs q"
proof -
  obtain y ys where xs: "xs = y # ys" using assms(3) by (cases xs) auto
  have "seg m (Some y) ys q" using assms(1) xs by simp
  then have "seg (m(y := (m y)\<lparr>nd_prev := p'\<rparr>)) (Some y) ys q"
    using assms(2) xs by (subst seg_cong [of ys _ m]) auto
  then show ?thesis using assms(1) xs by simp
qed

text \<open>The memory after a node between \<open>ys\<close> and \<open>zs\<close> is taken out.\<close>

lemma seg_remove:
  assumes "seg m None (ys @ x # zs) None" "distinct (ys @ x # zs)"
  defines "m1 \<equiv> (if ys = [] then m else m(last ys := (m (last ys))\<lparr>nd_next := hd_ptr zs\<rparr>))"
  defines "m2 \<equiv> (if zs = [] then m1 else m1(hd zs := (m1 (hd zs))\<lparr>nd_prev := last_ptr ys\<rparr>))"
  shows "seg (m2(x := r)) None (ys @ zs) None"
proof -
  have s: "seg m None ys (Some x)" "nd_prev (m x) = last_ptr ys" "nd_next (m x) = hd_ptr zs"
      "seg m (Some x) zs None"
    using assms(1) by (auto simp: seg_append hd_ptr_def last_ptr_def)
  have d: "distinct ys" "distinct zs" "x \<notin> set ys" "x \<notin> set zs" "set ys \<inter> set zs = {}"
    using assms(2) by auto
  have y1: "seg m1 None ys (hd_ptr zs)"
    using seg_set_last [OF s(1) d(1)] by (cases "ys = []") (simp_all add: m1_def)
  have z1: "seg m1 (Some x) zs None"
  proof -
    have "m1 z = m z" if "z \<in> set zs" for z
    proof (cases "ys = []")
      case False
      then have "z \<noteq> last ys" using that d(5) last_in_set [of ys] by blast
      then show ?thesis using False by (simp add: m1_def)
    qed (simp add: m1_def)
    then show ?thesis using s(4) seg_cong [of zs m1 m] by simp
  qed
  have y2: "seg m2 None ys (hd_ptr zs)"
  proof -
    have "m2 y = m1 y" if "y \<in> set ys" for y
    proof (cases "zs = []")
      case False
      then have "y \<noteq> hd zs" using that d(5) hd_in_set [of zs] by blast
      then show ?thesis using False by (simp add: m2_def)
    qed (simp add: m2_def)
    then show ?thesis using y1 seg_cong [of ys m2 m1] by simp
  qed
  have z2: "seg m2 (last_ptr ys) zs None"
    using seg_set_first [OF z1 d(2)] by (cases "zs = []") (simp_all add: m2_def)
  have "seg m2 None (ys @ zs) None"
    using y2 z2 by (simp add: seg_append hd_ptr_def last_ptr_def)
  moreover have "(m2(x := r)) k = m2 k" if "k \<in> set (ys @ zs)" for k using that d(3,4) by auto
  ultimately show ?thesis using seg_cong [of "ys @ zs" "m2(x := r)" m2] by simp
qed

lemma pop_linked:
  assumes "linked s (ys @ x # zs)" and ok: "\<forall>k \<in> set (ys @ x # zs). k \<in> set (lru_keys s)"
  shows "\<exists>s'. lru_list_pop (Some x) s = Inr s' \<and> linked s' (ys @ zs) \<and> lru_keys s' = lru_keys s \<and>
    lru_mem s' x = \<lparr>nd_prev = None, nd_next = None\<rparr>"
proof -
  let ?m = "lru_mem s"
  have d: "distinct (ys @ x # zs)" and sg: "seg ?m None (ys @ x # zs) None"
    and hd: "lru_head s = hd_ptr (ys @ x # zs)" and tl: "lru_tail s = last_ptr (ys @ x # zs)"
    using assms(1) by (simp_all add: linked_def)
  have mx: "nd_prev (?m x) = last_ptr ys" "nd_next (?m x) = hd_ptr zs"
    using sg by (auto simp: seg_append hd_ptr_def last_ptr_def)
  have at: "at_node (Some k) t = Inr k" if "lru_keys t = lru_keys s" "k \<in> set (ys @ x # zs)" for k t
    using that ok by (auto simp: at_node_def)
  let ?m1 = "if ys = [] then ?m else ?m(last ys := (?m (last ys))\<lparr>nd_next := hd_ptr zs\<rparr>)"
  let ?m2 = "if zs = [] then ?m1 else ?m1(hd zs := (?m1 (hd zs))\<lparr>nd_prev := last_ptr ys\<rparr>)"
  let ?r = "\<lparr>nd_prev = None, nd_next = None\<rparr>"
  let ?s1 = "s\<lparr>lru_tail := last_ptr (ys @ zs)\<rparr>"
  let ?s2 = "?s1\<lparr>lru_head := hd_ptr (ys @ zs)\<rparr>"
  let ?s3 = "if ys = [] then ?s2 else set_next (last ys) (hd_ptr zs) ?s2"
  let ?s4 = "if zs = [] then ?s3 else set_prev (hd zs) (last_ptr ys) ?s3"
  let ?s5 = "set_next x None (set_prev x None ?s4)"
  have lk: "lru_head s \<noteq> None" using hd by simp
  have xin: "x \<in> set (ys @ x # zs)" by simp
  have tl_x: "lru_tail s = Some x \<longleftrightarrow> zs = []"
  proof (cases "zs = []")
    case False
    then have "last zs \<noteq> x" using d last_in_set [of zs] by auto
    then show ?thesis using False tl by (simp add: last_ptr_def)
  qed (use tl in \<open>simp add: last_ptr_def\<close>)
  have hd_x: "lru_head s = Some x \<longleftrightarrow> ys = []"
  proof (cases "ys = []")
    case False
    then have "hd ys \<noteq> x" using d hd_in_set [of ys] by auto
    then show ?thesis using False hd by (simp add: hd_ptr_def)
  qed (use hd in \<open>simp add: hd_ptr_def\<close>)
  have e1: "(if lru_tail s = Some x
      then and_then (at_node (lru_tail s) s) (\<lambda>k. Inr (s\<lparr>lru_tail := nd_prev (lru_mem s k)\<rparr>))
      else Inr s) = Inr ?s1"
  proof (cases "zs = []")
    case True
    then show ?thesis using tl_x at [OF refl xin] mx(1) by simp
  next
    case False
    then have "last_ptr (ys @ zs) = lru_tail s" using tl by (simp add: last_ptr_def)
    then show ?thesis using False tl_x by simp
  qed
  have e2: "(if lru_head ?s1 = Some x
      then and_then (at_node (lru_head ?s1) ?s1) (\<lambda>k. Inr (?s1\<lparr>lru_head := nd_next (lru_mem ?s1 k)\<rparr>))
      else Inr ?s1) = Inr ?s2"
  proof (cases "ys = []")
    case True
    then show ?thesis using hd_x at [of ?s1, OF _ xin] mx(2) by simp
  next
    case False
    then have "hd_ptr (ys @ zs) = lru_head s" using hd by (simp add: hd_ptr_def)
    then show ?thesis using False hd_x by simp
  qed
  have e3: "(if nd_prev (lru_mem ?s2 x) \<noteq> None
      then and_then (at_node (nd_prev (lru_mem ?s2 x)) ?s2) (\<lambda>q. Inr (set_next q (nd_next (lru_mem ?s2 x)) ?s2))
      else Inr ?s2) = Inr ?s3"
    using mx at [of ?s2 "last ys"] by (auto simp: last_ptr_def)
  have k2: "lru_keys ?s2 = lru_keys s" by simp
  have xn: "ys \<noteq> [] \<Longrightarrow> last ys \<noteq> x" using d last_in_set [of ys] by auto
  have m3: "lru_mem ?s3 x = lru_mem s x" "lru_keys ?s3 = lru_keys s"
    using xn by (auto simp: set_next_def)
  have e4: "(if nd_next (lru_mem ?s3 x) \<noteq> None
      then and_then (at_node (nd_next (lru_mem ?s3 x)) ?s3) (\<lambda>q. Inr (set_prev q (nd_prev (lru_mem ?s3 x)) ?s3))
      else Inr ?s3) = Inr ?s4"
    unfolding m3(1) using mx at [of ?s3 "hd zs"] m3(2) by (auto simp: hd_ptr_def)
  have pop: "lru_list_pop (Some x) s = Inr ?s5"
    unfolding lru_list_pop_def if_not_P [OF lk] e1 and_then_simps e2 at [of ?s2, OF k2 xin] Let_def e3 e4
    by (rule refl)
  have mem: "lru_mem ?s5 = ?m2(x := ?r)" by (auto simp: set_next_def set_prev_def fun_eq_iff)
  have "linked ?s5 (ys @ zs)"
    using seg_remove [OF sg d, of ?r] d mem
    by (simp add: linked_def) (auto simp: set_next_def set_prev_def)
  then show ?thesis using pop mem by (auto simp: set_next_def set_prev_def)
qed

lemma push_linked:
  assumes "linked s xs" "k \<notin> set xs" and ok: "\<forall>x \<in> set xs. x \<in> set (lru_keys s)"
    and new: "lru_mem s k = \<lparr>nd_prev = None, nd_next = None\<rparr>"
  shows "\<exists>s'. lru_list_push k s = Inr s' \<and> linked s' (xs @ [k]) \<and> lru_keys s' = lru_keys s"
proof (cases "xs = []")
  case True
  then show ?thesis using assms(1) new by (simp add: lru_list_push_def linked_def hd_ptr_def last_ptr_def)
next
  case False
  let ?m = "(lru_mem s)(last xs := (lru_mem s (last xs))\<lparr>nd_next := Some k\<rparr>)"
  have d: "distinct xs" and sg: "seg (lru_mem s) None xs None"
    and hd: "lru_head s = Some (hd xs)" and tl: "lru_tail s = Some (last xs)"
    using assms(1) False by (simp_all add: linked_def hd_ptr_def last_ptr_def)
  have lk: "last xs \<noteq> k" using False assms(2) last_in_set [of xs] by blast
  have at: "at_node (Some (last xs)) s = Inr (last xs)"
    using ok False last_in_set [of xs] by (auto simp: at_node_def)
  let ?s = "set_prev k (lru_tail s) (set_next (last xs) (Some k) s)"
  have seg1: "seg ?m None xs (Some k)" using seg_set_last [OF sg d False] .
  have "seg (lru_mem ?s) None xs (Some k)"
    using seg1 assms(2) by (subst seg_cong [of xs _ ?m]) (auto simp: set_prev_def set_next_def)
  moreover have "seg (lru_mem ?s) (Some (last xs)) [k] None"
    using new lk tl by (simp add: set_prev_def set_next_def)
  ultimately have "seg (lru_mem ?s) None (xs @ [k]) None" using False by (simp add: seg_append)
  moreover have "nd_next (lru_mem ?s (last xs)) = Some k" using lk by (simp add: set_prev_def set_next_def)
  moreover have "lru_list_push k s = Inr (?s\<lparr>lru_tail := nd_next (lru_mem ?s (last xs))\<rparr>)"
    using hd at tl by (simp add: lru_list_push_def Let_def)
  moreover have "lru_head ?s = hd_ptr (xs @ [k])" "lru_keys ?s = lru_keys s"
    using hd False by (simp_all add: set_prev_def set_next_def hd_ptr_def)
  ultimately show ?thesis using d assms(2) by (simp add: linked_def)
qed

subsection \<open>The operations on the list\<close>

lemma caches_length: "caches s xs \<Longrightarrow> length (lru_keys s) = length xs"
  using distinct_card [of "lru_keys s"] distinct_card [of xs] by (simp add: caches_def linked_def)

lemma lru_get_caches: "caches s xs \<Longrightarrow> lru_get k s \<longleftrightarrow> k \<in> set xs"
  by (simp add: caches_def lru_get_def)

lemma lru_push_hit:
  assumes "caches s xs" "k \<in> set xs"
  shows "\<exists>s'. lru_push n k s = Inr s' \<and> caches s' (remove1 k xs @ [k])"
proof -
  obtain ys zs where xs: "xs = ys @ k # zs" "k \<notin> set ys" using split_list_first [OF assms(2)] by auto
  have d: "distinct xs" using assms(1) by (simp add: caches_def linked_def)
  have ok: "\<forall>x \<in> set xs. x \<in> set (lru_keys s)" using assms(1) by (simp add: caches_def)
  obtain s1 where s1: "lru_list_pop (Some k) s = Inr s1" "linked s1 (ys @ zs)"
      "lru_keys s1 = lru_keys s" "lru_mem s1 k = \<lparr>nd_prev = None, nd_next = None\<rparr>"
    using pop_linked [of s ys k zs] assms(1) ok xs(1) unfolding caches_def by auto
  obtain s2 where s2: "lru_list_push k s1 = Inr s2" "linked s2 (ys @ zs @ [k])" "lru_keys s2 = lru_keys s"
    using push_linked [of s1 "ys @ zs" k] s1 d ok xs(1) by auto
  have "k \<in> set (lru_keys s)" using assms by (simp add: caches_def)
  then have "lru_push n k s = Inr s2" by (simp add: lru_push_def s1 s2)
  moreover have "remove1 k xs @ [k] = ys @ zs @ [k]" using xs by (simp add: remove1_append)
  ultimately show ?thesis using s2 assms(1) xs(1) by (auto simp: caches_def)
qed

lemma lru_push_new:
  assumes "caches s xs" "k \<notin> set xs"
  shows "\<exists>s'. lru_list_push k (s\<lparr>lru_keys := k # lru_keys s,
    lru_mem := (lru_mem s)(k := \<lparr>nd_prev = None, nd_next = None\<rparr>)\<rparr>) = Inr s' \<and> caches s' (xs @ [k])"
proof -
  let ?s = "s\<lparr>lru_keys := k # lru_keys s, lru_mem := (lru_mem s)(k := \<lparr>nd_prev = None, nd_next = None\<rparr>)\<rparr>"
  have "seg (lru_mem ?s) None xs None \<longleftrightarrow> seg (lru_mem s) None xs None"
    using assms(2) by (intro seg_cong) auto
  then have "linked ?s xs" using assms(1) by (simp add: caches_def linked_def)
  then obtain s' where "lru_list_push k ?s = Inr s'" "linked s' (xs @ [k])" "lru_keys s' = k # lru_keys s"
    using push_linked [of ?s xs k] assms by (auto simp: caches_def)
  then show ?thesis using assms by (auto simp: caches_def)
qed

text \<open>The eviction frees the node before it takes it out of the list.\<close>

lemma lru_evict_undefined:
  assumes "caches s xs" "xs \<noteq> []"
  shows "lru_evict s = Inl (Undefined_Behaviour ''use after free'')"
proof -
  obtain x ys where xs: "xs = x # ys" using assms(2) by (cases xs) auto
  then show ?thesis using assms(1)
    by (auto simp: caches_def linked_def lru_evict_def at_node_def lru_list_pop_def)
qed

lemma lru_push_outcome:
  assumes "caches s xs"
  shows "if k \<in> set xs \<or> length xs < unat n
    then \<exists>s'. lru_push n k s = Inr s' \<and> caches s' (remove1 k xs @ [k])
    else lru_push n k s =
      Inl (Undefined_Behaviour (if xs = [] then ''null pointer'' else ''use after free''))"
proof (cases "k \<in> set xs")
  case True
  then show ?thesis using lru_push_hit [OF assms True] by simp
next
  case new: False
  have key: "k \<notin> set (lru_keys s)" and len: "length (lru_keys s) = length xs"
    using assms new caches_length by (auto simp: caches_def)
  show ?thesis
  proof (cases "length xs < unat n")
    case True
    then show ?thesis using lru_push_new [OF assms new] key len new
      by (auto simp: lru_push_def remove1_idem)
  next
    case False
    have "lru_evict s =
        Inl (Undefined_Behaviour (if xs = [] then ''null pointer'' else ''use after free''))"
      using lru_evict_undefined [OF assms] assms
      by (cases "xs = []") (simp_all add: caches_def linked_def lru_evict_def at_node_def)
    then show ?thesis using False new key len by (simp add: lru_push_def)
  qed
qed

subsection \<open>What the cache holds\<close>

text \<open>
  \<open>remdups h\<close> is the list of the distinct lines of an access history \<open>h\<close> by their last access. As
  long as they fit in the cache nothing is evicted.
\<close>

definition fits :: "u64 \<Rightarrow> u64 list \<Rightarrow> bool" where
  "fits n h \<longleftrightarrow> card (set h) \<le> unat n"

definition eviction_fault :: "u64 \<Rightarrow> fault" where
  "eviction_fault n = Undefined_Behaviour (if n = 0 then ''null pointer'' else ''use after free'')"

lemma remdups_snoc: "remdups (h @ [k]) = remove1 k (remdups h) @ [k]"
proof (induction h)
  case (Cons x h)
  then show ?case by (auto simp: remove1_idem)
qed simp

lemma fits_prefix: "fits n (h @ ls) \<Longrightarrow> fits n h"
  using card_mono [of "set (h @ ls)" "set h"] by (simp add: fits_def)

lemma lru_push_history:
  assumes "caches s (remdups h)" "fits n h"
  shows "if fits n (h @ [k])
    then \<exists>s'. lru_push n k s = Inr s' \<and> caches s' (remdups (h @ [k]))
    else lru_push n k s = Inl (eviction_fault n)"
proof -
  have len: "length (remdups h) = card (set h)" by (simp add: length_remdups_card_conv)
  have fit: "fits n (h @ [k]) \<longleftrightarrow> k \<in> set h \<or> card (set h) < unat n"
    using assms(2) by (auto simp: fits_def card_insert_if)
  have nil: "remdups h = [] \<longleftrightarrow> n = 0" if "\<not> fits n (h @ [k])"
  proof -
    have "card (set h) = unat n" using that fit assms(2) by (simp add: fits_def)
    then show ?thesis by (metis len length_0_conv unat_eq_0)
  qed
  show ?thesis
    using lru_push_outcome [OF assms(1), of k n] fit nil by (simp add: len remdups_snoc eviction_fault_def)
qed

text \<open>Whether each line of a request was accessed before its turn.\<close>

fun all_seen :: "u64 list \<Rightarrow> u64 list \<Rightarrow> bool" where
  "all_seen h [] \<longleftrightarrow> True"
| "all_seen h (l # ls) \<longleftrightarrow> l \<in> set h \<and> all_seen (h @ [l]) ls"

lemma access_lines_history:
  assumes "caches s (remdups h)" "fits n h"
  shows "if fits n (h @ ls)
    then \<exists>s'. access_lines n ls s hit = Inr (s', hit \<and> all_seen h ls) \<and> caches s' (remdups (h @ ls))
    else access_lines n ls s hit = Inl (eviction_fault n)"
  using assms
proof (induction ls arbitrary: s h hit)
  case (Cons l ls)
  show ?case
  proof (cases "fits n (h @ [l])")
    case True
    then obtain s1 where s1: "lru_push n l s = Inr s1" "caches s1 (remdups (h @ [l]))"
      using lru_push_history [OF Cons.prems, of l] by auto
    show ?thesis
      using Cons.IH [OF s1(2) True, of "hit \<and> lru_get l s"] s1(1) lru_get_caches [OF Cons.prems(1), of l]
      by (auto simp: conj_ac)
  next
    case False
    then have "\<not> fits n (h @ l # ls)" using fits_prefix [of n "h @ [l]" ls] by auto
    then show ?thesis using lru_push_history [OF Cons.prems, of l] False by simp
  qed
qed simp

text \<open>The lines a list of events touches, and the number of requests all of whose lines were there.\<close>

definition touched :: "parsed_event list \<Rightarrow> u64 list" where
  "touched es = concat (map event_lines (filter isEventValid es))"

fun hit_count :: "u64 list \<Rightarrow> parsed_event list \<Rightarrow> nat" where
  "hit_count h [] = 0"
| "hit_count h (e # es) =
     (if isEventValid e
      then (if all_seen h (event_lines e) then 1 else 0) + hit_count (h @ event_lines e) es
      else hit_count h es)"

lemma touched_simps [simp]:
  "touched [] = []"
  "touched (e # es) = (if isEventValid e then event_lines e else []) @ touched es"
  by (simp_all add: touched_def)

lemma builder_run_history:
  assumes "caches (lb_lru b) (remdups h)" "fits (lb_cacheLines b) h"
    "unat (lb_noRq b) + length es < 2 ^ 64"
  shows "if fits (lb_cacheLines b) (h @ touched es)
    then \<exists>b'. builder_run es b = Inr b' \<and> caches (lb_lru b') (remdups (h @ touched es)) \<and>
      lb_noRq b' = lb_noRq b + of_nat (length (filter isEventValid es)) \<and>
      lb_noHit b' = lb_noHit b + of_nat (hit_count h es)
    else builder_run es b = Inl (eviction_fault (lb_cacheLines b))"
  using assms
proof (induction es arbitrary: b h)
  case (Cons e es)
  let ?n = "lb_cacheLines b"
  show ?case
  proof (cases "isEventValid e")
    case False
    then show ?thesis using Cons.IH [of "b\<lparr>lb_result := None\<rparr>" h] Cons.prems
      by (simp add: builder_step_def split: if_splits)
  next
    case True
    note acc = access_lines_history [OF Cons.prems(1,2), of "event_lines e" True]
    show ?thesis
    proof (cases "fits ?n (h @ event_lines e)")
      case False
      then have "\<not> fits ?n (h @ event_lines e @ touched es)"
        using fits_prefix [of ?n "h @ event_lines e" "touched es"] by auto
      then show ?thesis using False acc True by (simp add: builder_step_def)
    next
      case fit: True
      obtain s where s: "access_lines ?n (event_lines e) (lb_lru b) True = Inr (s, all_seen h (event_lines e))"
          "caches s (remdups (h @ event_lines e))"
        using acc fit by auto
      have u: "unat (lb_noRq b + 1) = unat (lb_noRq b) + 1"
        using Cons.prems(3) by (simp add: unat_plus_simple [THEN iffD1] no_olen_add_nat)
      then have nz: "lb_noRq b + 1 \<noteq> 0" by (metis unat_0 Suc_eq_plus1 nat.distinct(1))
      obtain b1 where b1: "builder_step e b = Inr b1" "lb_lru b1 = s" "lb_cacheLines b1 = ?n"
          "lb_noRq b1 = lb_noRq b + 1"
          "lb_noHit b1 = lb_noHit b + (if all_seen h (event_lines e) then 1 else 0)"
        using True s(1) nz by (simp add: builder_step_def Let_def)
      show ?thesis
        using Cons.IH [of b1 "h @ event_lines e"] Cons.prems(3) s(2) b1 u True fit
        by (auto simp: add.assoc split: if_splits)
    qed
  qed
qed simp

lemma lru_builder_start:
  "caches (lb_lru (LRUExtensionBuilder w p)) []" "lb_noRq (LRUExtensionBuilder w p) = 0"
  "lb_noHit (LRUExtensionBuilder w p) = 0"
  by (simp_all add: LRUExtensionBuilder_def caches_def linked_def)

text \<open>
  Property C24. As long as the distinct lines that the valid requests touch are no more than the
  lines of the cache, the simulated cache holds exactly them, the least recently used one at the
  head, a request counts as a hit exactly when each of its lines was touched before its turn, and
  the requests and the hits are counted. With one line more the cache has to evict, and the run
  ends in undefined behaviour: a use after free, as \<open>evict\<close> erases the node from the map that owns
  it and then takes it out of the list, or, in a cache of no lines, the use of a null pointer.
\<close>

theorem lru_until_first_eviction:
  fixes worksetSize cachePercentage :: u64
  assumes "length es < 2 ^ 64"
  defines "start \<equiv> LRUExtensionBuilder worksetSize cachePercentage"
  shows "if card (set (touched es)) \<le> unat (lb_cacheLines start)
    then \<exists>b. builder_run es start = Inr b \<and> caches (lb_lru b) (remdups (touched es)) \<and>
      lb_noRq b = of_nat (length (filter isEventValid es)) \<and> lb_noHit b = of_nat (hit_count [] es)
    else builder_run es start =
      Inl (Undefined_Behaviour (if lb_cacheLines start = 0 then ''null pointer'' else ''use after free''))"
proof -
  have "caches (lb_lru start) (remdups [])" "fits (lb_cacheLines start) []" "lb_noRq start = 0"
    "lb_noHit start = 0"
    by (simp_all add: start_def lru_builder_start fits_def)
  note start = this
  have "unat (lb_noRq start) + length es < 2 ^ 64" using assms(1) start(3) by simp
  from builder_run_history [OF start(1,2) this] show ?thesis
    unfolding fits_def eviction_fault_def start(3,4) append_Nil add_0 .
qed

definition io_event :: "u64 \<Rightarrow> u32 \<Rightarrow> parsed_event" where
  "io_event lba len =
     \<lparr>pe_header = \<lparr>eh_sid = 0, eh_timestamp = 0\<rparr>,
      pe_io = Some (parsed_io_default\<lparr>pio_lba := lba, pio_len := len, pio_operation := Io_Read\<rparr>),
      pe_device = \<lparr>pdev_id = 0, pdev_name = [], pdev_partition = 0, pdev_model = []\<rparr>,
      pe_file = None, pe_tags = []\<rparr>"

text \<open>Lines 0 and 1 and then line 0 again, in a cache of two lines and in one of one line.\<close>

theorem lru_until_first_eviction_witness:
  "(\<exists>b. builder_run [io_event 0 16, io_event 0 8] (LRUExtensionBuilder 16 100) = Inr b \<and>
      caches (lb_lru b) [1, 0] \<and> lb_noRq b = 2 \<and> lb_noHit b = 1) \<and>
   builder_run [io_event 0 16, io_event 0 8] (LRUExtensionBuilder 8 100) =
     Inl (Undefined_Behaviour ''use after free'')"
proof -
  let ?es = "[io_event 0 16, io_event 0 8]"
  have n: "lb_cacheLines (LRUExtensionBuilder 16 100) = 2" "lb_cacheLines (LRUExtensionBuilder 8 100) = 1"
    by (simp_all add: LRUExtensionBuilder_def sectorToCacheLine_def getSectorSize_def)
  have l: "event_lines (io_event 0 16) = [0, 1]" "event_lines (io_event 0 8) = [0]"
    "isEventValid (io_event a 16)" "isEventValid (io_event a 8)" for a
    by (simp_all add: event_lines_def io_event_def parsed_io_default_def sectorToCacheLine_def
        getSectorSize_def lines_between_def isEventValid_def upt_rec)
  have t: "touched ?es = [0, 1, 0]" "hit_count [] ?es = 1" "length (filter isEventValid ?es) = 2"
    by (simp_all add: l)
  have c: "card {0, 1, 0 :: u64} = 2" by (simp add: card_insert_if)
  show ?thesis
    using lru_until_first_eviction [of ?es 16 100] lru_until_first_eviction [of ?es 8 100]
    unfolding n t list.set c by (simp del: builder_run.simps)
qed

end
