(* ===== verification/Trace_Event_Queue.thy ===== *)
theory Trace_Event_Queue
  imports Fifo
begin

section \<open>The queue between the parser and its consumer\<close>

text \<open>
  \<open>ParsedIoTraceEventQueue\<close> of source/octf/trace/parser/ParsedIoTraceEventQueue.cpp parses a trace
  in a thread of its own and hands the parsed events to the caller through a bounded queue. The
  semaphore of utils/Semaphore.cpp limits the queue; a condition variable wakes the caller.

  The state is that of the two threads and of what they share. One step is what a thread does
  between two points at which the other may run: a section under the mutex, a passed wait, a
  test of a flag. A thread that waits on a condition variable and finds its condition false goes
  to sleep in the same section in which it tested it; it tests again only after a \<open>notify_one\<close> of
  the other thread or a spurious wake-up. What the inner parser does is the list of events it reports and the exception
  it ends with, if any; the events themselves are opaque.
\<close>

subsection \<open>The shared state and the operations on it\<close>

definition Semaphore_post :: "int \<Rightarrow> int" where
  "Semaphore_post m_count = m_count + 1"

text \<open>A waiting operation is \<open>None\<close> as long as it does not return.\<close>

definition Semaphore_wait :: "int \<Rightarrow> int option" where
  "Semaphore_wait m_count = (if m_count = 0 then None else Some (m_count - 1))"

record 'e event_queue =
  eq_items :: "'e list"
  eq_limit :: int
  eq_finished :: bool
  eq_cancel :: bool
  eq_exception :: string

definition QUEUE_LIMIT :: nat where "QUEUE_LIMIT = 1000"

definition queue_init :: "'e event_queue" where
  "queue_init = \<lparr>eq_items = [], eq_limit = int QUEUE_LIMIT, eq_finished = False, eq_cancel = False,
     eq_exception = ''''\<rparr>"

text \<open>The two halves of \<open>handleIO\<close>: the semaphore, then the section under the mutex.\<close>

definition queue_admit :: "'e event_queue \<Rightarrow> 'e event_queue option" where
  "queue_admit q = (case Semaphore_wait (eq_limit q) of None \<Rightarrow> None | Some c \<Rightarrow> Some (q\<lparr>eq_limit := c\<rparr>))"

definition queue_emplace :: "'e \<Rightarrow> 'e event_queue \<Rightarrow> 'e event_queue" where
  "queue_emplace e q = q\<lparr>eq_items := eq_items q @ [e]\<rparr>"

definition queue_empty :: "'e event_queue \<Rightarrow> bool option" where
  "queue_empty q =
     (if eq_items q \<noteq> [] \<or> eq_finished q then Some (eq_finished q \<and> eq_items q = []) else None)"

definition queue_front :: "'e event_queue \<Rightarrow> 'e res option" where
  "queue_front q =
     (if eq_items q \<noteq> [] \<or> eq_finished q
      then Some (case eq_items q of
             [] \<Rightarrow> Inl (Octf_Exception ''Accessing empty parsed IO queue'')
           | e # _ \<Rightarrow> Inr e)
      else None)"

definition queue_pop :: "'e event_queue \<Rightarrow> ('e \<times> 'e event_queue) res option" where
  "queue_pop q =
     (if eq_items q \<noteq> [] \<or> eq_finished q
      then Some (case eq_items q of
             [] \<Rightarrow> Inl (Octf_Exception ''Trying pop empty parsed IO queue'')
           | e # es \<Rightarrow> Inr (e, q\<lparr>eq_limit := Semaphore_post (eq_limit q), eq_items := es\<rparr>))
      else None)"

definition queue_isException :: "'e event_queue \<Rightarrow> bool" where
  "queue_isException q \<longleftrightarrow> eq_exception q \<noteq> ''''"

subsection \<open>The threads\<close>

text \<open>
  The parsing thread: the events still to be reported, an event at the test of the semaphore, an
  event asleep there, an event that passed it, a parser that returned, and the end of the thread.
  The caller: between calls, at the test of the condition of a call, asleep there, and in the
  destructor between the request to cancel and the post.
\<close>

datatype 'e producer =
  Handling "'e list" | At_Limit 'e "'e list" | Asleep 'e "'e list" | Admitted 'e "'e list" | Finishing | Ended

datatype queue_call = Call_Empty | Call_Front | Call_Pop

datatype consumer = Idle | Waiting queue_call | Sleeping queue_call | Cancelling

text \<open>The two condition variables: \<open>m_cv\<close> of the semaphore and \<open>m_eventInQueue\<close>.\<close>

fun semaphore_notify :: "'e producer \<Rightarrow> 'e producer" where
  "semaphore_notify (Asleep e es) = At_Limit e es"
| "semaphore_notify p = p"

fun event_notify :: "consumer \<Rightarrow> consumer" where
  "event_notify (Sleeping c) = Waiting c"
| "event_notify c = c"

datatype 'e answer =
  Is_Empty bool | Is_Front 'e | Popped 'e | Thrown fault | Cancel_Requested

record 'e system =
  sys_queue :: "'e event_queue"
  sys_producer :: "'e producer"
  sys_consumer :: consumer
  sys_answers :: "'e answer list"

definition sys_start :: "'e list \<Rightarrow> 'e system" where
  "sys_start evs = \<lparr>sys_queue = queue_init, sys_producer = Handling evs, sys_consumer = Idle, sys_answers = []\<rparr>"

inductive producer_step :: "string option \<Rightarrow> 'e system \<Rightarrow> 'e system \<Rightarrow> bool" for outcome where
  p_skip: "sys_producer s = Handling (e # es) \<Longrightarrow> eq_cancel (sys_queue s) \<Longrightarrow>
    producer_step outcome s (s\<lparr>sys_producer := Handling es\<rparr>)"
| p_test: "sys_producer s = Handling (e # es) \<Longrightarrow> \<not> eq_cancel (sys_queue s) \<Longrightarrow>
    producer_step outcome s (s\<lparr>sys_producer := At_Limit e es\<rparr>)"
| p_admit: "sys_producer s = At_Limit e es \<Longrightarrow> queue_admit (sys_queue s) = Some q \<Longrightarrow>
    producer_step outcome s (s\<lparr>sys_queue := q, sys_producer := Admitted e es\<rparr>)"
| p_sleep: "sys_producer s = At_Limit e es \<Longrightarrow> queue_admit (sys_queue s) = None \<Longrightarrow>
    producer_step outcome s (s\<lparr>sys_producer := Asleep e es\<rparr>)"
| p_emplace: "sys_producer s = Admitted e es \<Longrightarrow>
    producer_step outcome s (s\<lparr>sys_queue := queue_emplace e (sys_queue s), sys_producer := Handling es,
      sys_consumer := event_notify (sys_consumer s)\<rparr>)"
| p_return: "sys_producer s = Handling [] \<Longrightarrow> outcome = None \<Longrightarrow>
    producer_step outcome s (s\<lparr>sys_producer := Finishing\<rparr>)"
| p_throw: "sys_producer s = Handling [] \<Longrightarrow> outcome = Some m \<Longrightarrow>
    producer_step outcome s (s\<lparr>sys_queue := (sys_queue s)\<lparr>eq_exception := m\<rparr>, sys_producer := Ended\<rparr>)"
| p_finish: "sys_producer s = Finishing \<Longrightarrow>
    producer_step outcome s (s\<lparr>sys_queue := (sys_queue s)\<lparr>eq_finished := True\<rparr>, sys_producer := Ended,
      sys_consumer := event_notify (sys_consumer s)\<rparr>)"

definition answered :: "'e answer \<Rightarrow> 'e event_queue \<Rightarrow> 'e system \<Rightarrow> 'e system" where
  "answered a q s = s\<lparr>sys_queue := q, sys_consumer := Idle, sys_answers := sys_answers s @ [a]\<rparr>"

text \<open>A post of the semaphore wakes the parsing thread when it sleeps there.\<close>

definition posted :: "'e system \<Rightarrow> 'e system" where
  "posted s = s\<lparr>sys_producer := semaphore_notify (sys_producer s)\<rparr>"

text \<open>The answer of a call that passed the test for an exception, if it returns now.\<close>

definition call_answer :: "queue_call \<Rightarrow> 'e event_queue \<Rightarrow> ('e answer \<times> 'e event_queue) option" where
  "call_answer c q =
     (case c of
        Call_Empty \<Rightarrow> (case queue_empty q of None \<Rightarrow> None | Some b \<Rightarrow> Some (Is_Empty b, q))
      | Call_Front \<Rightarrow>
          (case queue_front q of None \<Rightarrow> None | Some (Inl f) \<Rightarrow> Some (Thrown f, q) | Some (Inr e) \<Rightarrow> Some (Is_Front e, q))
      | Call_Pop \<Rightarrow>
          (case queue_pop q of None \<Rightarrow> None | Some (Inl f) \<Rightarrow> Some (Thrown f, q)
           | Some (Inr (e, q')) \<Rightarrow> Some (Popped e, q')))"

inductive consumer_step :: "'e system \<Rightarrow> 'e system \<Rightarrow> bool" where
  c_throw: "sys_consumer s = Idle \<Longrightarrow> queue_isException (sys_queue s) \<Longrightarrow>
    consumer_step s (answered (Thrown (Octf_Exception (eq_exception (sys_queue s)))) (sys_queue s) s)"
| c_call: "sys_consumer s = Idle \<Longrightarrow> \<not> queue_isException (sys_queue s) \<Longrightarrow>
    consumer_step s (s\<lparr>sys_consumer := Waiting c\<rparr>)"
| c_answer: "sys_consumer s = Waiting c \<Longrightarrow> call_answer c (sys_queue s) = Some (a, q) \<Longrightarrow>
    consumer_step s (case a of Popped _ \<Rightarrow> posted (answered a q s) | _ \<Rightarrow> answered a q s)"
| c_sleep: "sys_consumer s = Waiting c \<Longrightarrow> call_answer c (sys_queue s) = None \<Longrightarrow>
    consumer_step s (s\<lparr>sys_consumer := Sleeping c\<rparr>)"
| c_cancel: "sys_consumer s = Idle \<Longrightarrow>
    consumer_step s (s\<lparr>sys_queue := (sys_queue s)\<lparr>eq_cancel := True\<rparr>, sys_consumer := Cancelling\<rparr>)"
| c_post: "sys_consumer s = Cancelling \<Longrightarrow>
    consumer_step s (posted (answered Cancel_Requested
      ((sys_queue s)\<lparr>eq_limit := Semaphore_post (eq_limit (sys_queue s))\<rparr>) s))"

text \<open>A condition variable may wake a thread without a notification.\<close>

inductive spurious_step :: "'e system \<Rightarrow> 'e system \<Rightarrow> bool" where
  "sys_producer s = Asleep e es \<Longrightarrow> spurious_step s (s\<lparr>sys_producer := At_Limit e es\<rparr>)"
| "sys_consumer s = Sleeping c \<Longrightarrow> spurious_step s (s\<lparr>sys_consumer := Waiting c\<rparr>)"

definition sys_step :: "string option \<Rightarrow> 'e system \<Rightarrow> 'e system \<Rightarrow> bool" where
  "sys_step outcome s s' \<longleftrightarrow> producer_step outcome s s' \<or> consumer_step s s' \<or> spurious_step s s'"

definition sys_reaches :: "string option \<Rightarrow> 'e list \<Rightarrow> 'e system \<Rightarrow> bool" where
  "sys_reaches outcome evs s \<longleftrightarrow> (sys_step outcome)\<^sup>*\<^sup>* (sys_start evs) s"

inductive_cases producer_stepE: "producer_step outcome s s'"
inductive_cases consumer_stepE: "consumer_step s s'"
inductive_cases spurious_stepE: "spurious_step s s'"

subsection \<open>The invariant\<close>

text \<open>The event on its way into the queue, and those after it.\<close>

fun in_flight :: "'e producer \<Rightarrow> 'e list" where
  "in_flight (At_Limit e es) = [e]"
| "in_flight (Asleep e es) = [e]"
| "in_flight (Admitted e es) = [e]"
| "in_flight _ = []"

fun upcoming :: "'e producer \<Rightarrow> 'e list" where
  "upcoming (Handling es) = es"
| "upcoming (At_Limit e es) = es"
| "upcoming (Asleep e es) = es"
| "upcoming (Admitted e es) = es"
| "upcoming _ = []"

fun admitted :: "'e producer \<Rightarrow> nat" where
  "admitted (Admitted e es) = 1"
| "admitted _ = 0"

definition popped :: "'e answer list \<Rightarrow> 'e list" where
  "popped as = concat (map (\<lambda>a. case a of Popped e \<Rightarrow> [e] | _ \<Rightarrow> []) as)"

definition cancels :: "'e answer list \<Rightarrow> nat" where
  "cancels as = length (filter (\<lambda>a. case a of Cancel_Requested \<Rightarrow> True | _ \<Rightarrow> False) as)"

lemma popped_simps [simp]:
  "popped [] = []" "popped (as @ bs) = popped as @ popped bs"
  "popped [Popped e] = [e]" "popped [Is_Empty b] = []" "popped [Is_Front e] = []" "popped [Thrown f] = []"
  "popped [Cancel_Requested] = []"
  by (simp_all add: popped_def)

lemma cancels_simps [simp]:
  "cancels [] = 0" "cancels (as @ bs) = cancels as + cancels bs"
  "cancels [Popped e] = 0" "cancels [Is_Empty b] = 0" "cancels [Is_Front e] = 0" "cancels [Thrown f] = 0"
  "cancels [Cancel_Requested] = 1"
  by (simp_all add: cancels_def)

text \<open>Nothing is lost or reordered; events are skipped only after a cancellation.\<close>

definition inv_order :: "'e list \<Rightarrow> 'e system \<Rightarrow> bool" where
  "inv_order evs s \<longleftrightarrow>
     (\<exists>zs. popped (sys_answers s) @ eq_items (sys_queue s) @ in_flight (sys_producer s) @ zs = evs \<and>
        (zs = upcoming (sys_producer s) \<or> eq_cancel (sys_queue s) \<and> in_flight (sys_producer s) = []))"

text \<open>The semaphore counts the free places and the posts of cancellations.\<close>

definition inv_limit :: "'e system \<Rightarrow> bool" where
  "inv_limit s \<longleftrightarrow> 0 \<le> eq_limit (sys_queue s) \<and>
     eq_limit (sys_queue s) + int (length (eq_items (sys_queue s)) + admitted (sys_producer s)) =
       int (QUEUE_LIMIT + cancels (sys_answers s)) \<and>
     (in_flight (sys_producer s) \<noteq> [] \<longrightarrow> length (eq_items (sys_queue s)) \<le> QUEUE_LIMIT) \<and>
     length (eq_items (sys_queue s)) \<le> QUEUE_LIMIT + 1 \<and>
     (\<not> eq_cancel (sys_queue s) \<longrightarrow> cancels (sys_answers s) = 0 \<and> sys_consumer s \<noteq> Cancelling) \<and>
     (eq_cancel (sys_queue s) \<longrightarrow> sys_consumer s = Cancelling \<or> 0 < cancels (sys_answers s))"

text \<open>How the parsing thread ended, and what \<open>empty\<close> said of it.\<close>

definition inv_end :: "string option \<Rightarrow> 'e system \<Rightarrow> bool" where
  "inv_end outcome s \<longleftrightarrow>
     (eq_finished (sys_queue s) \<longleftrightarrow> sys_producer s = Ended \<and> outcome = None) \<and>
     eq_exception (sys_queue s) = (if sys_producer s = Ended then (case outcome of None \<Rightarrow> '''' | Some m \<Rightarrow> m) else '''') \<and>
     (sys_producer s = Finishing \<longrightarrow> outcome = None) \<and>
     (Is_Empty True \<in> set (sys_answers s) \<longrightarrow> eq_items (sys_queue s) = [] \<and> eq_finished (sys_queue s))"

text \<open>A thread sleeps only as long as it has to: every change it waits for wakes it.\<close>

definition inv_sleep :: "'e system \<Rightarrow> bool" where
  "inv_sleep s \<longleftrightarrow>
     ((\<exists>e es. sys_producer s = Asleep e es) \<longrightarrow> eq_limit (sys_queue s) = 0) \<and>
     ((\<exists>c. sys_consumer s = Sleeping c) \<longrightarrow> eq_items (sys_queue s) = [] \<and> \<not> eq_finished (sys_queue s))"

lemma semaphore_notify_simps [simp]:
  "in_flight (semaphore_notify p) = in_flight p" "upcoming (semaphore_notify p) = upcoming p"
  "admitted (semaphore_notify p) = admitted p" "semaphore_notify p \<noteq> Asleep e es"
  "semaphore_notify p = Ended \<longleftrightarrow> p = Ended" "semaphore_notify p = Finishing \<longleftrightarrow> p = Finishing"
  by (cases p; simp)+

lemma event_notify_simps [simp]:
  "event_notify c \<noteq> Sleeping k" "event_notify c = Cancelling \<longleftrightarrow> c = Cancelling"
  "event_notify c = Idle \<longleftrightarrow> c = Idle" "event_notify (event_notify c) = event_notify c"
  by (cases c; simp)+

lemma posted_simps [simp]:
  "sys_queue (posted s) = sys_queue s" "sys_consumer (posted s) = sys_consumer s"
  "sys_answers (posted s) = sys_answers s" "sys_producer (posted s) = semaphore_notify (sys_producer s)"
  by (simp_all add: posted_def)

lemmas queue_ops = queue_admit_def queue_emplace_def Semaphore_wait_def Semaphore_post_def answered_def

lemmas call_defs = call_answer_def queue_empty_def queue_front_def queue_pop_def

lemma call_answer_cases:
  assumes "call_answer c q = Some (a, q')"
  obtains e es where "a = Popped e" "eq_items q = e # es"
      "q' = q\<lparr>eq_limit := eq_limit q + 1, eq_items := es\<rparr>"
  | b where "a = Is_Empty b" "q' = q" "b \<longleftrightarrow> eq_finished q \<and> eq_items q = []"
  | e where "a = Is_Front e" "q' = q" "hd (eq_items q) = e"
  | f where "a = Thrown f" "q' = q"
  using assms
  by (cases c; cases "eq_items q") (auto simp: call_defs Semaphore_post_def split: if_splits)

lemma start_inv: "inv_order evs (sys_start evs)" "inv_limit (sys_start evs)" "inv_end outcome (sys_start evs)"
  "inv_sleep (sys_start evs)"
  by (auto simp: inv_order_def inv_limit_def inv_sleep_def inv_end_def sys_start_def queue_init_def)

lemma order_producer: "producer_step outcome s s' \<Longrightarrow> inv_order evs s \<Longrightarrow> inv_order evs s'"
  by (induction rule: producer_step.induct) (auto simp: inv_order_def queue_ops split: if_splits)

lemma order_consumer:
  assumes "consumer_step s s'" "inv_order evs s"
  shows "inv_order evs s'"
  using assms
proof (induction rule: consumer_step.induct)
  case (c_answer s c a q)
  then show ?case by (elim call_answer_cases) (auto simp: inv_order_def answered_def)
qed (auto simp: inv_order_def answered_def)

lemma limit_producer: "producer_step outcome s s' \<Longrightarrow> inv_limit s \<Longrightarrow> inv_limit s'"
  by (induction rule: producer_step.induct) (auto simp: inv_limit_def queue_ops split: if_splits)

lemma limit_consumer:
  assumes "consumer_step s s'" "inv_limit s"
  shows "inv_limit s'"
  using assms
proof (induction rule: consumer_step.induct)
  case (c_answer s c a q)
  then show ?case by (elim call_answer_cases) (auto simp: inv_limit_def answered_def)
qed (auto simp: inv_limit_def answered_def Semaphore_post_def)

lemma end_producer: "producer_step outcome s s' \<Longrightarrow> inv_end outcome s \<Longrightarrow> inv_end outcome s'"
  by (induction rule: producer_step.induct) (auto simp: inv_end_def queue_ops split: if_splits)

lemma end_consumer:
  assumes "consumer_step s s'" "inv_end outcome s"
  shows "inv_end outcome s'"
  using assms
proof (induction rule: consumer_step.induct)
  case (c_answer s c a q)
  then show ?case by (elim call_answer_cases) (auto simp: inv_end_def answered_def)
qed (auto simp: inv_end_def answered_def)

lemma sleep_producer: "producer_step outcome s s' \<Longrightarrow> inv_sleep s \<Longrightarrow> inv_sleep s'"
  by (induction rule: producer_step.induct) (auto simp: inv_sleep_def queue_ops split: if_splits)

lemma call_not_cancel: "call_answer c q \<noteq> Some (Cancel_Requested, q')"
  by (auto elim: call_answer_cases)

lemma call_sleeps: "call_answer c q = None \<Longrightarrow> eq_items q = [] \<and> \<not> eq_finished q"
  by (cases c; cases "eq_items q") (auto simp: call_defs split: if_splits)

lemma sleep_consumer:
  assumes "consumer_step s s'" "inv_sleep s"
  shows "inv_sleep s'"
  using assms
proof (induction rule: consumer_step.induct)
  case (c_answer s c a q)
  then show ?case by (elim call_answer_cases) (auto simp: inv_sleep_def answered_def)
qed (auto simp: inv_sleep_def answered_def dest: call_sleeps)

lemma spurious_inv:
  assumes "spurious_step s s'"
  shows "inv_order evs s \<Longrightarrow> inv_order evs s'" "inv_limit s \<Longrightarrow> inv_limit s'"
    "inv_end outcome s \<Longrightarrow> inv_end outcome s'" "inv_sleep s \<Longrightarrow> inv_sleep s'"
  using assms
  by (auto simp: inv_order_def inv_limit_def inv_end_def inv_sleep_def elim!: spurious_stepE)

definition sys_inv :: "string option \<Rightarrow> 'e list \<Rightarrow> 'e system \<Rightarrow> bool" where
  "sys_inv outcome evs s \<longleftrightarrow> inv_order evs s \<and> inv_limit s \<and> inv_end outcome s \<and> inv_sleep s"

lemma step_inv: "sys_step outcome s s' \<Longrightarrow> sys_inv outcome evs s \<Longrightarrow> sys_inv outcome evs s'"
  unfolding sys_step_def sys_inv_def
  using order_producer order_consumer limit_producer limit_consumer end_producer end_consumer
    sleep_producer sleep_consumer spurious_inv by metis

lemma reaches_inv: "sys_reaches outcome evs s \<Longrightarrow> sys_inv outcome evs s"
  unfolding sys_reaches_def
  by (induction rule: rtranclp_induct) (simp add: sys_inv_def start_inv, rule step_inv)

lemma producer_reaches:
  assumes "sys_reaches outcome evs s" "(producer_step outcome)\<^sup>*\<^sup>* s s'"
  shows "sys_reaches outcome evs s'"
  using assms(2)
  by (induction rule: rtranclp_induct)
    (use assms(1) in \<open>auto simp: sys_reaches_def sys_step_def intro: rtranclp.rtrancl_into_rtrancl\<close>)

text \<open>A parsing thread that no caller serves any more stops only at the end or at the semaphore.\<close>

fun producer_work :: "'e producer \<Rightarrow> nat" where
  "producer_work (Handling es) = 4 * length es + 2"
| "producer_work (At_Limit e es) = 4 * length es + 5"
| "producer_work (Asleep e es) = 4 * length es + 4"
| "producer_work (Admitted e es) = 4 * length es + 3"
| "producer_work Finishing = 1"
| "producer_work Ended = 0"

lemma producer_blocked:
  assumes "\<nexists>s'. producer_step outcome s s'" "sys_inv outcome evs s"
  shows "sys_producer s = Ended \<or>
    eq_limit (sys_queue s) = 0 \<and> (\<exists>e es. sys_producer s = Asleep e es)"
proof (cases "sys_producer s")
  case (Handling es)
  have "\<exists>s'. producer_step outcome s s'"
  proof (cases es)
    case Nil
    then show ?thesis using Handling p_return [of s outcome] p_throw [of s outcome] by (cases outcome) auto
  next
    case (Cons e es')
    then show ?thesis using Handling p_skip [of s e es'] p_test [of s e es'] by blast
  qed
  then show ?thesis using assms(1) by blast
next
  case (At_Limit e es)
  then show ?thesis using assms(1) p_admit [of s e es] p_sleep [of s e es]
    by (cases "queue_admit (sys_queue s)") auto
next
  case (Asleep e es)
  then show ?thesis using assms(2) by (auto simp: sys_inv_def inv_sleep_def)
next
  case (Admitted e es)
  then have "\<exists>s'. producer_step outcome s s'" by (intro exI) (rule p_emplace)
  then show ?thesis using assms(1) by simp
next
  case Finishing
  then have "\<exists>s'. producer_step outcome s s'" by (intro exI) (rule p_finish)
  then show ?thesis using assms(1) by simp
qed simp

lemma producer_step_work:
  "producer_step outcome s s' \<Longrightarrow> producer_work (sys_producer s') < producer_work (sys_producer s) \<and>
     event_notify (sys_consumer s') = event_notify (sys_consumer s) \<and> sys_answers s' = sys_answers s"
  by (induction rule: producer_step.induct) (auto simp: queue_ops split: if_splits)

lemma producer_runs_until:
  assumes "sys_reaches outcome evs s"
  shows "\<exists>s'. (producer_step outcome)\<^sup>*\<^sup>* s s' \<and> event_notify (sys_consumer s') = event_notify (sys_consumer s) \<and>
    sys_answers s' = sys_answers s \<and> (\<nexists>s''. producer_step outcome s' s'')"
  using assms
proof (induction "producer_work (sys_producer s)" arbitrary: s rule: less_induct)
  case less
  show ?case
  proof (cases "\<exists>s1. producer_step outcome s s1")
    case True
    then obtain s1 where s1: "producer_step outcome s s1" by blast
    have "sys_reaches outcome evs s1" using producer_reaches [OF less.prems] s1 by blast
    then show ?thesis
      using less.hyps [of s1] producer_step_work [OF s1] s1 converse_rtranclp_into_rtranclp [of "producer_step outcome" s s1]
      by metis
  qed blast
qed

subsection \<open>The queue as an instance of the contract\<close>

text \<open>Both operations as they run when they do not wait.\<close>

definition queue_put :: "'e \<Rightarrow> 'e event_queue \<Rightarrow> 'e event_queue \<times> bool" where
  "queue_put e q =
     (if eq_cancel q then (q, False)
      else case queue_admit q of None \<Rightarrow> (q, False) | Some q' \<Rightarrow> (queue_emplace e q', True))"

definition queue_take :: "'e event_queue \<Rightarrow> 'e event_queue \<times> 'e option" where
  "queue_take q = (case queue_pop q of Some (Inr (e, q')) \<Rightarrow> (q', Some e) | _ \<Rightarrow> (q, None))"

lemma queue_take_cases:
  "queue_take q = (case eq_items q of
     [] \<Rightarrow> (q, None) | e # es \<Rightarrow> (q\<lparr>eq_limit := eq_limit q + 1, eq_items := es\<rparr>, Some e))"
  by (auto simp: queue_take_def queue_pop_def Semaphore_post_def split: list.split)

interpretation event_queue: fifo queue_put queue_take "\<lambda>q xs. eq_items q = xs"
proof unfold_locales
  show "eq_items s = xs \<Longrightarrow> queue_put x s = (s', ok) \<Longrightarrow> eq_items s' = (if ok then xs @ [x] else xs)"
    for s xs x s' ok
    by (auto simp: queue_put_def queue_ops split: if_splits)
  show "eq_items s = xs \<Longrightarrow> queue_take s = (s', r) \<Longrightarrow>
      \<exists>ys. eq_items s' = ys \<and> xs = (case r of None \<Rightarrow> ys | Some x \<Rightarrow> x # ys)" for s xs s' r
    by (auto simp: queue_take_cases split: list.splits)
qed

lemma queue_sequential_order:
  "fifo_run queue_put queue_take ops queue_init = (q, acc, del) \<Longrightarrow> \<exists>rest. acc = del @ rest"
  by (rule event_queue.delivered_in_order) (simp_all add: queue_init_def)

subsection \<open>The properties\<close>

text \<open>
  Property C25. In any interleaving of the parsing thread with the calls, the events popped so
  far are the first events of the trace in their order. The queue never holds more than
  \<open>QUEUE_LIMIT\<close> events, plus one after a cancellation; without a cancellation nothing is lost:
  popped, queued, passing and upcoming events together are the trace, and \<open>empty\<close> has answered
  yes only if every event of a trace parsed without exception was popped.
\<close>

theorem queue_hands_over_in_order:
  assumes "sys_reaches outcome evs s"
  shows "(\<exists>rest. evs = popped (sys_answers s) @ rest) \<and>
    length (eq_items (sys_queue s)) \<le> QUEUE_LIMIT + 1 \<and>
    (eq_cancel (sys_queue s) \<or>
     length (eq_items (sys_queue s)) \<le> QUEUE_LIMIT \<and>
     popped (sys_answers s) @ eq_items (sys_queue s) @ in_flight (sys_producer s) @ upcoming (sys_producer s) = evs \<and>
     (Is_Empty True \<in> set (sys_answers s) \<longrightarrow> outcome = None \<and> popped (sys_answers s) = evs))"
proof -
  have i: "inv_order evs s" "inv_limit s" "inv_end outcome s"
    using reaches_inv [OF assms] by (auto simp: sys_inv_def)
  have "length (eq_items (sys_queue s)) \<le> QUEUE_LIMIT" if "\<not> eq_cancel (sys_queue s)"
    using i(2) that by (auto simp: inv_limit_def)
  moreover have "\<exists>rest. evs = popped (sys_answers s) @ rest" using i(1) by (auto simp: inv_order_def)
  moreover have all: "popped (sys_answers s) @ eq_items (sys_queue s) @ in_flight (sys_producer s) @ upcoming (sys_producer s) = evs"
    if "\<not> eq_cancel (sys_queue s)"
    using i(1) that by (auto simp: inv_order_def)
  moreover have "outcome = None \<and> popped (sys_answers s) = evs"
    if "\<not> eq_cancel (sys_queue s)" "Is_Empty True \<in> set (sys_answers s)"
    using i(3) that all by (auto simp: inv_end_def)
  moreover have "length (eq_items (sys_queue s)) \<le> QUEUE_LIMIT + 1" using i(2) by (auto simp: inv_limit_def)
  ultimately show ?thesis by blast
qed

text \<open>A run of one event to its end.\<close>

definition one_event_run :: "'e \<Rightarrow> 'e system" where
  "one_event_run e =
     \<lparr>sys_queue = queue_init\<lparr>eq_finished := True\<rparr>, sys_producer = Ended, sys_consumer = Idle,
      sys_answers = [Popped e, Is_Empty True]\<rparr>"

lemma sys_stepI:
  "producer_step outcome s s' \<Longrightarrow> sys_step outcome s s'" "consumer_step s s' \<Longrightarrow> sys_step outcome s s'"
  by (simp_all add: sys_step_def)

lemma sys_step_then: "sys_step outcome s s1 \<Longrightarrow> (sys_step outcome)\<^sup>*\<^sup>* s1 s' \<Longrightarrow> (sys_step outcome)\<^sup>*\<^sup>* s s'"
  by (rule converse_rtranclp_into_rtranclp)

text \<open>One event through an empty queue, with the caller waiting in \<open>pop\<close>.\<close>

definition served :: "'e list \<Rightarrow> 'e answer list \<Rightarrow> 'e system" where
  "served es as = \<lparr>sys_queue = queue_init, sys_producer = Handling es, sys_consumer = Idle, sys_answers = as\<rparr>"

lemma serve_one: "(sys_step outcome)\<^sup>*\<^sup>* (served (e # es) as) (served es (as @ [Popped e]))"
proof -
  let ?s = "served (e # es) as"
  let ?s1 = "?s\<lparr>sys_producer := At_Limit e es\<rparr>"
  let ?q = "queue_init\<lparr>eq_limit := int QUEUE_LIMIT - 1\<rparr>"
  let ?s2 = "?s1\<lparr>sys_queue := ?q, sys_producer := Admitted e es\<rparr>"
  let ?s3 = "?s2\<lparr>sys_queue := queue_emplace e ?q, sys_producer := Handling es\<rparr>"
  let ?s4 = "?s3\<lparr>sys_consumer := Waiting Call_Pop\<rparr>"
  have s1: "producer_step outcome ?s ?s1" by (rule p_test) (simp_all add: served_def queue_init_def)
  have s2: "producer_step outcome ?s1 ?s2"
    by (rule p_admit) (simp_all add: served_def queue_init_def queue_ops QUEUE_LIMIT_def)
  have s3: "producer_step outcome ?s2 ?s3"
    using p_emplace [of ?s2 e es outcome] by (simp add: served_def)
  have s4: "consumer_step ?s3 ?s4"
    by (rule c_call) (simp_all add: served_def queue_isException_def queue_emplace_def queue_init_def)
  have s5: "consumer_step ?s4 (posted (answered (Popped e) queue_init ?s4))"
    using c_answer [of ?s4 Call_Pop "Popped e" queue_init] by (simp add: call_defs queue_emplace_def queue_init_def Semaphore_post_def)
  have eq: "posted (answered (Popped e) queue_init ?s4) = served es (as @ [Popped e])"
    by (simp add: posted_def answered_def served_def)
  show ?thesis
    by (rule sys_step_then [OF sys_stepI(1) [OF s1]], rule sys_step_then [OF sys_stepI(1) [OF s2]],
        rule sys_step_then [OF sys_stepI(1) [OF s3]], rule sys_step_then [OF sys_stepI(2) [OF s4]],
        rule sys_step_then [OF sys_stepI(2) [OF s5]], unfold eq, rule rtranclp.rtrancl_refl)
qed

lemma serve_all: "(sys_step outcome)\<^sup>*\<^sup>* (served es as) (served [] (as @ map Popped es))"
proof (induction es arbitrary: as)
  case (Cons e es)
  show ?case using rtranclp_trans [OF serve_one Cons.IH [of "as @ [Popped e]"]] by simp
qed simp

lemma reaches_served: "sys_reaches outcome evs (served [] (map Popped evs))"
  using serve_all [of outcome evs "[]"] by (simp add: sys_reaches_def sys_start_def served_def)

lemma sys_reaches_step: "sys_reaches outcome evs s \<Longrightarrow> sys_step outcome s s' \<Longrightarrow> sys_reaches outcome evs s'"
  unfolding sys_reaches_def by (rule rtranclp.rtrancl_into_rtrancl)

lemma one_event_reached: "sys_reaches None [e] (one_event_run e)"
proof -
  let ?s = "served [] [Popped e]"
  let ?s1 = "?s\<lparr>sys_producer := Finishing\<rparr>"
  let ?s2 = "?s1\<lparr>sys_queue := queue_init\<lparr>eq_finished := True\<rparr>, sys_producer := Ended\<rparr>"
  let ?s3 = "?s2\<lparr>sys_consumer := Waiting Call_Empty\<rparr>"
  have r: "sys_reaches None [e] ?s" using reaches_served [of None "[e]"] by simp
  have s1: "producer_step None ?s ?s1" by (rule p_return) (simp_all add: served_def)
  have s2: "producer_step None ?s1 ?s2" using p_finish [of ?s1 None] by (simp add: served_def)
  have s3: "consumer_step ?s2 ?s3"
    by (rule c_call) (simp_all add: served_def queue_isException_def queue_init_def)
  have s4: "consumer_step ?s3 (answered (Is_Empty True) (sys_queue ?s3) ?s3)"
    using c_answer [of ?s3 Call_Empty "Is_Empty True" "sys_queue ?s3"]
    by (simp add: call_defs queue_init_def)
  have eq: "answered (Is_Empty True) (sys_queue ?s3) ?s3 = one_event_run e"
    by (simp add: answered_def one_event_run_def served_def)
  show ?thesis
    using sys_reaches_step [OF sys_reaches_step [OF sys_reaches_step [OF sys_reaches_step [OF r
      sys_stepI(1) [OF s1]] sys_stepI(1) [OF s2]] sys_stepI(2) [OF s3]] sys_stepI(2) [OF s4]]
    unfolding eq .
qed

lemma queue_hands_over_in_order_witness:
  "popped (sys_answers (one_event_run (7::nat))) = [7] \<and>
   (\<exists>rest. [7] = popped (sys_answers (one_event_run (7::nat))) @ rest)"
  using queue_hands_over_in_order [OF one_event_reached, of "7::nat"]
  by (auto simp: one_event_run_def queue_init_def)

lemma finished_answers: "eq_finished q \<or> eq_items q \<noteq> [] \<Longrightarrow> call_answer c q \<noteq> None"
  by (cases c; cases "eq_items q") (auto simp: call_defs)

text \<open>
  Property C26. No thread is left asleep, for a trace that is parsed without an exception. When a
  call waits, the parsing thread, running alone, comes to a stop, and wherever it stops the call is
  awake and returns. When the parsing thread stops before its end, the next event that is popped,
  or a request to cancel, lets it go on. Only notifications wake a thread here, no spurious wake-up.
  (After an exception of the parser a waiting call is not woken, see below.)
\<close>

theorem waiting_call_returns:
  assumes "sys_reaches None evs s"
  shows "(sys_consumer s = Waiting c \<or> sys_consumer s = Sleeping c \<longrightarrow>
      (\<exists>s'. (producer_step None)\<^sup>*\<^sup>* s s' \<and> (\<nexists>s''. producer_step None s' s'')) \<and>
      (\<forall>s'. (producer_step None)\<^sup>*\<^sup>* s s' \<longrightarrow> (\<nexists>s''. producer_step None s' s'') \<longrightarrow>
         (\<exists>s'' a. consumer_step s' s'' \<and> sys_consumer s'' = Idle \<and> sys_answers s'' = sys_answers s' @ [a]))) \<and>
    (\<forall>s' a. (\<nexists>s''. producer_step None s s'') \<longrightarrow> sys_producer s \<noteq> Ended \<longrightarrow>
       consumer_step s s' \<longrightarrow> sys_answers s' = sys_answers s @ [a] \<longrightarrow>
       a = Cancel_Requested \<or> (\<exists>e. a = Popped e) \<longrightarrow> (\<exists>s''. producer_step None s' s''))"
proof (intro conjI allI impI)
  show "\<exists>s'. (producer_step None)\<^sup>*\<^sup>* s s' \<and> (\<nexists>s''. producer_step None s' s'')"
    using producer_runs_until [OF assms(1)] by blast
next
  fix s'
  assume call: "sys_consumer s = Waiting c \<or> sys_consumer s = Sleeping c"
    and run: "(producer_step None)\<^sup>*\<^sup>* s s'" and stop: "\<nexists>s''. producer_step None s' s''"
  have "event_notify (sys_consumer s') = Waiting c"
    using run by (induction rule: rtranclp_induct) (use call in \<open>auto dest: producer_step_work\<close>)
  then have c: "sys_consumer s' = Waiting c \<or> sys_consumer s' = Sleeping c"
    by (cases "sys_consumer s'") auto
  have i: "sys_inv None evs s'" using producer_reaches [OF assms(1) run] by (rule reaches_inv)
  have q: "eq_finished (sys_queue s') \<or> eq_items (sys_queue s') \<noteq> []"
    using producer_blocked [OF stop i] i
    by (auto simp: sys_inv_def inv_end_def inv_limit_def QUEUE_LIMIT_def)
  then have w: "sys_consumer s' = Waiting c" using c i by (auto simp: sys_inv_def inv_sleep_def)
  obtain a q where "call_answer c (sys_queue s') = Some (a, q)"
    using finished_answers [OF q, of c] by auto
  then have "consumer_step s' (case a of Popped _ \<Rightarrow> posted (answered a q s') | _ \<Rightarrow> answered a q s')"
    (is "consumer_step s' ?s") by (rule c_answer [OF w])
  moreover have "sys_consumer ?s = Idle" "sys_answers ?s = sys_answers s' @ [a]"
    by (simp_all add: answered_def split: answer.split)
  ultimately show "\<exists>s'' a. consumer_step s' s'' \<and> sys_consumer s'' = Idle \<and>
      sys_answers s'' = sys_answers s' @ [a]" by blast
next
  fix s' a
  assume stop: "\<nexists>s''. producer_step None s s''" and ne: "sys_producer s \<noteq> Ended"
    and step: "consumer_step s s'" and ans: "sys_answers s' = sys_answers s @ [a]"
    and a: "a = Cancel_Requested \<or> (\<exists>e. a = Popped e)"
  obtain e es where p: "sys_producer s = Asleep e es"
    using producer_blocked [OF stop reaches_inv [OF assms(1)]] ne by blast
  have "sys_producer s' = At_Limit e es"
    using step ans a p by cases (auto simp: answered_def call_not_cancel split: answer.splits)
  then show "\<exists>s''. producer_step None s' s''"
    using p_admit [of s' e es] p_sleep [of s' e es] by (cases "queue_admit (sys_queue s')") auto
qed

lemma calling_at_start:
  "sys_reaches outcome evs ((sys_start evs)\<lparr>sys_consumer := Sleeping c\<rparr>)"
proof -
  let ?s = "(sys_start evs)\<lparr>sys_consumer := Waiting c\<rparr>"
  have "consumer_step (sys_start evs) ?s"
    by (rule c_call) (simp_all add: sys_start_def queue_init_def queue_isException_def)
  moreover have "consumer_step ?s ((sys_start evs)\<lparr>sys_consumer := Sleeping c\<rparr>)"
    using c_sleep [of ?s c] by (cases c) (simp_all add: sys_start_def queue_init_def call_defs)
  moreover have "sys_reaches outcome evs (sys_start evs)" by (simp add: sys_reaches_def)
  ultimately show ?thesis by (meson sys_stepI sys_reaches_step)
qed

lemma waiting_call_returns_witness:
  "\<exists>s' s'' a. (producer_step None)\<^sup>*\<^sup>* ((sys_start [7::nat])\<lparr>sys_consumer := Sleeping Call_Front\<rparr>) s' \<and>
     consumer_step s' s'' \<and> sys_consumer s'' = Idle \<and> sys_answers s'' = sys_answers s' @ [a]"
proof -
  let ?s = "(sys_start [7::nat])\<lparr>sys_consumer := Sleeping Call_Front\<rparr>"
  have "sys_consumer ?s = Sleeping Call_Front" by simp
  then show ?thesis
    using waiting_call_returns [OF calling_at_start [of None "[7::nat]" Call_Front], of Call_Front] by blast
qed

text \<open>
  The destructor can join the parsing thread: once a cancellation is posted, the
  thread reaches its end alone, also from the semaphore of a full queue.
\<close>

theorem cancelled_parser_ends:
  assumes "sys_reaches outcome evs s" "eq_cancel (sys_queue s)" "sys_consumer s \<noteq> Cancelling"
  shows "\<exists>s'. (producer_step outcome)\<^sup>*\<^sup>* s s' \<and> sys_producer s' = Ended \<and>
    popped (sys_answers s') = popped (sys_answers s)"
proof -
  obtain s' where s': "(producer_step outcome)\<^sup>*\<^sup>* s s'"
      "event_notify (sys_consumer s') = event_notify (sys_consumer s)"
      "sys_answers s' = sys_answers s" "\<nexists>s''. producer_step outcome s' s''"
    using producer_runs_until [OF assms(1)] by blast
  have i: "sys_inv outcome evs s'" using producer_reaches [OF assms(1) s'(1)] by (rule reaches_inv)
  have "eq_cancel (sys_queue s')"
    using s'(1)
  proof (induction rule: rtranclp_induct)
    case (step y z)
    from step(2,3) show ?case by (induction rule: producer_step.induct) (auto simp: queue_ops split: if_splits)
  qed (rule assms(2))
  moreover have "sys_consumer s' \<noteq> Cancelling" using s'(2) assms(3) by (metis event_notify_simps(2))
  ultimately have "eq_limit (sys_queue s') \<noteq> 0" if "sys_producer s' = Asleep e es" for e es
    using i that by (auto simp: sys_inv_def inv_limit_def)
  then have "sys_producer s' = Ended" using producer_blocked [OF s'(4) i] by auto
  then show ?thesis using s' by auto
qed

lemma cancelled_parser_ends_witness:
  "\<exists>s. sys_reaches None [7::nat] s \<and> (\<exists>s'. (producer_step None)\<^sup>*\<^sup>* s s' \<and> sys_producer s' = Ended)"
proof -
  let ?s = "sys_start [7::nat]"
  let ?s1 = "?s\<lparr>sys_queue := queue_init\<lparr>eq_cancel := True\<rparr>, sys_consumer := Cancelling\<rparr>"
  let ?s2 = "answered Cancel_Requested
      (queue_init\<lparr>eq_cancel := True, eq_limit := Semaphore_post (int QUEUE_LIMIT)\<rparr>) ?s1"
  have "consumer_step ?s ?s1" using c_cancel [of ?s] by (simp add: sys_start_def)
  moreover have "consumer_step ?s1 ?s2"
    using c_post [of ?s1] by (simp add: queue_init_def posted_def answered_def sys_start_def)
  moreover have "sys_reaches None [7] ?s" by (simp add: sys_reaches_def)
  ultimately have "sys_reaches None [7] ?s2" by (meson sys_stepI sys_reaches_step)
  then show ?thesis using cancelled_parser_ends [of None "[7]" ?s2] by (auto simp: answered_def)
qed

text \<open>
  When the parser ends in an exception, a caller that is already waiting is never
  woken: \<open>processEvents\<close> leaves before it sets \<open>m_finished\<close>, and the exception is looked at only
  on entry of a call. For every trace and every exception there is a run that pops all events and
  then hangs in \<open>empty\<close>: whatever happens from there on, the call does not return.
\<close>

lemma stranded_stays:
  assumes "(sys_step (Some m))\<^sup>*\<^sup>* s s'" "sys_producer s = Ended" "eq_items (sys_queue s) = []"
    "\<not> eq_finished (sys_queue s)" "event_notify (sys_consumer s) = Waiting c"
  shows "sys_queue s' = sys_queue s \<and> sys_producer s' = Ended \<and> sys_answers s' = sys_answers s \<and>
    event_notify (sys_consumer s') = Waiting c"
  using assms(1)
proof (induction rule: rtranclp_induct)
  case (step s1 s2)
  have "call_answer k (sys_queue s1) = None" for k
    using step.IH assms(3,4) by (cases k) (simp_all add: call_defs)
  then show ?case
    using step.hyps(2) step.IH
    by (auto simp: sys_step_def elim!: producer_stepE consumer_stepE spurious_stepE)
qed (use assms in simp)

theorem exception_strands_caller:
  "\<exists>s. sys_reaches (Some m) evs s \<and> popped (sys_answers s) = evs \<and> eq_exception (sys_queue s) = m \<and>
     (\<forall>s'. (sys_step (Some m))\<^sup>*\<^sup>* s s' \<longrightarrow> sys_answers s' = sys_answers s \<and>
        (sys_consumer s' = Waiting Call_Empty \<or> sys_consumer s' = Sleeping Call_Empty))"
proof -
  let ?s = "served [] (map Popped evs)"
  let ?s1 = "?s\<lparr>sys_consumer := Waiting Call_Empty\<rparr>"
  let ?s2 = "?s1\<lparr>sys_queue := queue_init\<lparr>eq_exception := m\<rparr>, sys_producer := Ended\<rparr>"
  have "consumer_step ?s ?s1"
    by (rule c_call) (simp_all add: served_def queue_isException_def queue_init_def)
  moreover have "producer_step (Some m) ?s1 ?s2" using p_throw [of ?s1 "Some m" m] by (simp add: served_def)
  ultimately have r: "sys_reaches (Some m) evs ?s2"
    using reaches_served [of "Some m" evs] by (meson sys_stepI sys_reaches_step)
  have "sys_answers s' = sys_answers ?s2 \<and>
      (sys_consumer s' = Waiting Call_Empty \<or> sys_consumer s' = Sleeping Call_Empty)"
    if "(sys_step (Some m))\<^sup>*\<^sup>* ?s2 s'" for s'
    using stranded_stays [OF that, of Call_Empty] by (cases "sys_consumer s'") (auto simp: queue_init_def)
  moreover have "popped (sys_answers ?s2) = evs"
    by (simp add: served_def popped_def comp_def)
  ultimately show ?thesis using r by (intro exI [of _ ?s2]) (simp add: queue_init_def)
qed

end
