(* ===== verification/Json_File.thy ===== *)
theory Json_File
  imports Octf_Prelude
begin

section \<open>Messages in files\<close>

text \<open>
  \<open>ProtobufReaderWriter\<close> of source/octf/utils/ProtobufReaderWriter.cpp keeps one message in a file,
  as JSON text. The model has the text of the file and its permission to write, the descriptors
  of the object and, for the one it writes with, the offset the next \<open>write\<close> goes to.
  The conversions of protobuf are parameters, and so are the answers of the system: which calls
  succeed and how much a \<open>write\<close> takes. The locks, links and the test of the parent directory
  are left out.
\<close>

record disk_file =
  df_text :: string
  df_readonly :: bool

record json_io =
  io_root :: bool
  io_open :: bool
  io_ftruncate :: bool
  io_write :: "nat \<Rightarrow> nat option"
  io_fsync :: bool
  io_fchmod :: bool

record json_rw =
  jr_readFd :: bool
  jr_writeFd :: "nat option"

definition ProtobufReaderWriter :: json_rw where
  "ProtobufReaderWriter = \<lparr>jr_readFd = False, jr_writeFd = None\<rparr>"

definition openFileToRead :: "json_io \<Rightarrow> disk_file option \<Rightarrow> json_rw \<Rightarrow> json_rw" where
  "openFileToRead io f r =
     (if jr_readFd r then r else r\<lparr>jr_readFd := io_open io \<and> f \<noteq> None\<rparr>)"

text \<open>The file is created when it does not exist.\<close>

definition openFileToWrite :: "json_io \<Rightarrow> disk_file option \<Rightarrow> json_rw \<Rightarrow> disk_file option \<times> json_rw" where
  "openFileToWrite io f r =
     (if jr_writeFd r \<noteq> None then (f, r)
      else if \<not> io_open io then (f, r)
      else case f of
             None \<Rightarrow> (Some \<lparr>df_text = [], df_readonly = False\<rparr>, r\<lparr>jr_writeFd := Some 0\<rparr>)
           | Some d \<Rightarrow> if df_readonly d \<and> \<not> io_root io then (f, r) else (f, r\<lparr>jr_writeFd := Some 0\<rparr>))"

definition set_text :: "string \<Rightarrow> disk_file option \<Rightarrow> disk_file option" where
  "set_text t f = map_option (\<lambda>d. d\<lparr>df_text := t\<rparr>) f"

text \<open>What a write at an offset leaves in an empty file: a hole reads as zeros.\<close>

definition text_at :: "nat \<Rightarrow> string \<Rightarrow> string" where
  "text_at offset t = (if t = [] then [] else replicate offset (CHR 0x00) @ t)"

definition json_write ::
    "('m \<Rightarrow> string option) \<Rightarrow> json_io \<Rightarrow> 'm \<Rightarrow> disk_file option \<Rightarrow> json_rw \<Rightarrow> disk_file option \<times> json_rw \<times> bool" where
  "json_write MessageToJsonString io m f r =
     (let (f, r) = openFileToWrite io f r
      in case jr_writeFd r of
           None \<Rightarrow> (f, r, False)
         | Some offset \<Rightarrow>
             (case MessageToJsonString m of
                None \<Rightarrow> (f, r, False)
              | Some str \<Rightarrow>
                  if \<not> io_ftruncate io then (f, r, False)
                  else (case io_write io (length str) of
                          None \<Rightarrow> (set_text [] f, r, False)
                        | Some written \<Rightarrow>
                            let f = set_text (text_at offset (take written str)) f;
                                r = r\<lparr>jr_writeFd := Some (offset + written)\<rparr>
                            in (f, r, written = length str \<and> io_fsync io))))"

definition json_read ::
    "(string \<Rightarrow> 'm option) \<Rightarrow> json_io \<Rightarrow> disk_file option \<Rightarrow> json_rw \<Rightarrow> json_rw \<times> 'm option" where
  "json_read JsonStringToMessage io f r =
     (let r = openFileToRead io f r
      in (r, if jr_readFd r then (case f of None \<Rightarrow> None | Some d \<Rightarrow> JsonStringToMessage (df_text d)) else None))"

definition json_clear :: "json_io \<Rightarrow> disk_file option \<Rightarrow> json_rw \<Rightarrow> disk_file option \<times> json_rw \<times> bool" where
  "json_clear io f r =
     (let (f, r) = openFileToWrite io f r
      in case jr_writeFd r of
           None \<Rightarrow> (f, r, False)
         | Some _ \<Rightarrow> if io_ftruncate io then (set_text [] f, r, True) else (f, r, False))"

definition set_readonly :: "bool \<Rightarrow> disk_file option \<Rightarrow> disk_file option" where
  "set_readonly b f = map_option (\<lambda>d. d\<lparr>df_readonly := b\<rparr>) f"

text \<open>\<open>fchmod\<close> of a missing descriptor fails.\<close>

definition makeReadOnly :: "json_io \<Rightarrow> disk_file option \<Rightarrow> json_rw \<Rightarrow> disk_file option \<times> json_rw \<times> bool" where
  "makeReadOnly io f r =
     (let r = (if jr_writeFd r \<noteq> None then r else openFileToRead io f r);
          fd = (jr_writeFd r \<noteq> None \<or> jr_readFd r)
      in if \<not> fd \<or> \<not> io_fchmod io then (f, r, False)
         else (set_readonly True f, r\<lparr>jr_writeFd := None\<rparr>, True))"

definition makeWritable :: "json_io \<Rightarrow> disk_file option \<Rightarrow> json_rw \<Rightarrow> disk_file option \<times> json_rw \<times> bool" where
  "makeWritable io f r =
     (let (f, r) = openFileToWrite io f r
      in if jr_writeFd r \<noteq> None \<and> io_fchmod io then (set_readonly False f, r, True)
         else let r = openFileToRead io f r
              in if jr_readFd r \<and> io_fchmod io then (set_readonly False f, r, True) else (f, r, False))"

definition json_isEmpty :: "json_io \<Rightarrow> disk_file option \<Rightarrow> json_rw \<Rightarrow> json_rw \<times> bool" where
  "json_isEmpty io f r =
     (let r = openFileToRead io f r
      in (r, \<not> jr_readFd r \<or> (case f of None \<Rightarrow> True | Some d \<Rightarrow> df_text d = [])))"

subsection \<open>Lemmas\<close>

text \<open>A system whose calls succeed.\<close>

definition io_good :: "json_io \<Rightarrow> bool" where
  "io_good io \<longleftrightarrow> io_open io \<and> io_ftruncate io \<and> (\<forall>n. io_write io n = Some n) \<and> io_fsync io \<and> io_fchmod io"

definition writable :: "json_io \<Rightarrow> disk_file option \<Rightarrow> bool" where
  "writable io f \<longleftrightarrow> io_root io \<or> (case f of None \<Rightarrow> True | Some d \<Rightarrow> \<not> df_readonly d)"

lemma text_at_0 [simp]: "text_at 0 t = t"
  by (simp add: text_at_def)

lemma set_text_Some [simp]: "set_text t (Some d) = Some (d\<lparr>df_text := t\<rparr>)"
  by (simp add: set_text_def)

text \<open>What the object has written decides where its next message goes.\<close>

definition position :: "json_rw \<Rightarrow> nat" where
  "position r = (case jr_writeFd r of None \<Rightarrow> 0 | Some n \<Rightarrow> n)"

lemma json_write_good:
  assumes "io_good io" "print m = Some str" "jr_writeFd r \<noteq> None \<and> f \<noteq> None \<or> jr_writeFd r = None \<and> writable io f"
  shows "\<exists>d r'. json_write print io m f r = (Some d, r', True) \<and> df_text d = text_at (position r) str \<and>
    jr_writeFd r' = Some (position r + length str) \<and> jr_readFd r' = jr_readFd r \<and>
    df_readonly d = (case f of None \<Rightarrow> False | Some d \<Rightarrow> df_readonly d)"
  using assms
  by (cases f) (auto simp: json_write_def openFileToWrite_def io_good_def writable_def position_def Let_def)

lemma json_read_good:
  assumes "io_open io"
  shows "snd (json_read parse io (Some d) r) = parse (df_text d)"
  using assms by (simp add: json_read_def openFileToRead_def Let_def)

text \<open>
  Property C28. A message written by a new object is read back by any object, whatever was in the
  file before. But a second message written by the same object is not: the file is cut and
  written without going back to its start, so the text follows as many zeros as the first had
  characters.
\<close>

theorem message_round_trip:
  assumes "io_good io" "writable io f" "print m = Some str" "parse str = Some m"
    and "print m' = Some str'" "str' \<noteq> []"
  shows "\<exists>d r. json_write print io m f ProtobufReaderWriter = (Some d, r, True) \<and>
    (\<forall>r'. snd (json_read parse io (Some d) r') = Some m) \<and>
    (\<exists>d' r'. json_write print io m' (Some d) r = (Some d', r', True) \<and>
       df_text d' = replicate (length str) (CHR 0x00) @ str')"
proof -
  obtain d r where d: "json_write print io m f ProtobufReaderWriter = (Some d, r, True)" "df_text d = str"
      "jr_writeFd r = Some (length str)"
    using json_write_good [of io print m str ProtobufReaderWriter f] assms
    by (auto simp: ProtobufReaderWriter_def position_def)
  moreover have "snd (json_read parse io (Some d) r') = Some m" for r'
    using json_read_good [of io parse d r'] assms(1,4) d(2) by (simp add: io_good_def)
  moreover obtain d' r' where "json_write print io m' (Some d) r = (Some d', r', True)"
      "df_text d' = text_at (length str) str'"
    using json_write_good [of io print m' str' r "Some d"] assms(1,5) d(3) by (auto simp: position_def)
  ultimately show ?thesis using assms(6) by (auto simp: text_at_def)
qed

definition plain_io :: json_io where
  "plain_io = \<lparr>io_root = False, io_open = True, io_ftruncate = True, io_write = Some, io_fsync = True, io_fchmod = True\<rparr>"

lemma message_round_trip_witness:
  "\<exists>d r. json_write Some plain_io ''{}'' None ProtobufReaderWriter = (Some d, r, True) \<and>
     snd (json_read Some plain_io (Some d) ProtobufReaderWriter) = Some ''{}''"
proof -
  have "io_good plain_io" by (simp add: io_good_def plain_io_def)
  from message_round_trip [OF this, of None Some "''{}''" "''{}''" Some "''[]''" "''[]''"]
  show ?thesis by (auto simp: writable_def)
qed

text \<open>
  A file made read only keeps its text: a new object of a process that is not root
  cannot write or clear it, and reads what it held. Making it writable gives the permission back.
\<close>

theorem read_only_file_is_kept:
  assumes "io_good io" "\<not> io_root io" "f = Some d" "jr_writeFd r \<noteq> None \<or> jr_writeFd r = None \<and> r = ProtobufReaderWriter"
  shows "\<exists>d' r'. makeReadOnly io f r = (Some d', r', True) \<and> df_text d' = df_text d \<and>
    json_write print io m (Some d') ProtobufReaderWriter = (Some d', ProtobufReaderWriter, False) \<and>
    json_clear io (Some d') r' = (Some d', r', False) \<and>
    (\<exists>r''. makeWritable io (Some d') r' = (Some (d'\<lparr>df_readonly := False\<rparr>), r'', True) \<and>
       json_clear io (Some (d'\<lparr>df_readonly := False\<rparr>)) r'' =
         (Some \<lparr>df_text = [], df_readonly = False\<rparr>, r''\<lparr>jr_writeFd := Some 0\<rparr>, True))"
proof -
  let ?d = "d\<lparr>df_readonly := True\<rparr>"
  obtain r' where r': "makeReadOnly io f r = (Some ?d, r', True)" "jr_writeFd r' = None"
    using assms
    by (auto simp: makeReadOnly_def openFileToRead_def ProtobufReaderWriter_def set_readonly_def io_good_def Let_def)
  moreover have "json_write print io m (Some ?d) ProtobufReaderWriter = (Some ?d, ProtobufReaderWriter, False)"
    using assms(1,2) by (simp add: json_write_def openFileToWrite_def ProtobufReaderWriter_def io_good_def)
  moreover have "json_clear io (Some ?d) r' = (Some ?d, r', False)"
    using assms(1,2) r'(2) by (simp add: json_clear_def openFileToWrite_def io_good_def)
  moreover have "\<exists>r''. makeWritable io (Some ?d) r' = (Some (?d\<lparr>df_readonly := False\<rparr>), r'', True) \<and>
       json_clear io (Some (?d\<lparr>df_readonly := False\<rparr>)) r'' =
         (Some \<lparr>df_text = [], df_readonly = False\<rparr>, r''\<lparr>jr_writeFd := Some 0\<rparr>, True)"
    using assms(1,2) r'(2)
    by (auto simp: makeWritable_def json_clear_def openFileToWrite_def openFileToRead_def io_good_def
        set_readonly_def Let_def)
  ultimately show ?thesis by (intro exI [of _ ?d] exI [of _ r']) simp
qed

lemma read_only_file_is_kept_witness:
  "\<exists>d r. makeReadOnly plain_io (Some \<lparr>df_text = ''{}'', df_readonly = False\<rparr>) ProtobufReaderWriter = (Some d, r, True) \<and>
     json_write Some plain_io ''[]'' (Some d) ProtobufReaderWriter = (Some d, ProtobufReaderWriter, False) \<and>
     df_text d = ''{}''"
proof -
  have "io_good plain_io" by (simp add: io_good_def plain_io_def)
  from read_only_file_is_kept [OF this, of "Some \<lparr>df_text = ''{}'', df_readonly = False\<rparr>"
      "\<lparr>df_text = ''{}'', df_readonly = False\<rparr>" ProtobufReaderWriter Some "''[]''"]
  show ?thesis by (auto simp: plain_io_def ProtobufReaderWriter_def)
qed

end
