(* ===== verification/Trace_Manager.thy ===== *)
theory Trace_Manager
  imports Trace_Job Json_File
begin

section \<open>The management of a trace\<close>

text \<open>
  \<open>TraceManager\<close> of source/octf/interface/TraceManager.cpp starts a job for each queue, waits for
  the time or the size limit or for a request to stop, and stops the jobs. It keeps the state of
  the trace and writes it with the totals of the jobs into the summary file, which the parser
  reads later.

  Of a job the manager sees only \<open>job_view\<close>: its state and counts. What the jobs do meanwhile, what
  the tracing executor answers, the clock and the answers of the file system are arguments. The
  summary files are a map from directories to what the file holds, \<open>None\<close> after a write that
  broke off, and whether it was made read only. The node path in the summary and the format of
  its date are left out.
\<close>

record job_view =
  jv_state :: trace_state
  jv_size :: u64
  jv_count :: u64
  jv_dropped :: u64
  jv_version :: u32

record written_summary = trace_summary +
  sum_path :: string
  sum_start :: "int option"
  sum_duration :: int
  sum_size :: u32
  sum_traced :: u64
  sum_dropped :: u64
  sum_version :: u32
  sum_tags :: "string \<Rightarrow> string option"

record summary_file =
  sf_content :: "written_summary option"
  sf_readonly :: bool

datatype write_answer = Write_Ok | Write_Fails | Open_Fails

text \<open>
  How the file system answers a change of the state: the write of the summary, the change to
  read only and the second write after that failed. A process with \<open>se_root\<close> may open a read
  only file for writing.
\<close>

record summary_env =
  se_write :: write_answer
  se_chmod :: bool
  se_rewrite :: write_answer
  se_root :: bool

record manager =
  mg_finish :: bool
  mg_state :: trace_state
  mg_jobs :: "job_view list"
  mg_maxDuration :: u32
  mg_maxFileSize :: u64
  mg_startTime :: int
  mg_endTime :: int
  mg_numberOfJobs :: u32
  mg_memoryPoolSizeMiB :: u32
  mg_path :: string
  mg_tags :: "string \<Rightarrow> string option"
  mg_files :: "string \<Rightarrow> summary_file option"

definition TraceManager :: "u32 \<Rightarrow> (string \<Rightarrow> summary_file option) \<Rightarrow> manager" where
  "TraceManager queues files =
     \<lparr>mg_finish = False, mg_state = NOT_STARTED, mg_jobs = [], mg_maxDuration = 0, mg_maxFileSize = 0,
      mg_startTime = 0, mg_endTime = 0, mg_numberOfJobs = queues, mg_memoryPoolSizeMiB = 0,
      mg_path = [], mg_tags = (\<lambda>_. None), mg_files = files\<rparr>"

subsection \<open>The summary\<close>

definition BytesToMiBCeiling :: "u64 \<Rightarrow> u64" where
  "BytesToMiBCeiling x = x div 1048576 + (if x mod 1048576 \<noteq> 0 then 1 else 0)"

definition getTraceSize :: "manager \<Rightarrow> u64" where
  "getTraceSize m = sum_list (map jv_size (mg_jobs m))"

definition getTraceSizeMiB :: "manager \<Rightarrow> u64" where
  "getTraceSizeMiB m = BytesToMiBCeiling (getTraceSize m)"

definition getTraceCount :: "manager \<Rightarrow> u64" where
  "getTraceCount m = sum_list (map jv_count (mg_jobs m))"

definition getDroppedTraceCount :: "manager \<Rightarrow> u64" where
  "getDroppedTraceCount m = sum_list (map jv_dropped (mg_jobs m))"

definition manager_getTraceVersion :: "manager \<Rightarrow> u32" where
  "manager_getTraceVersion m = (case mg_jobs m of [] \<Rightarrow> -1 | j # _ \<Rightarrow> jv_version j)"

definition getTraceStartDateTime :: "trace_state \<Rightarrow> manager \<Rightarrow> int option" where
  "getTraceStartDateTime st m = (if st = NOT_STARTED then None else Some (mg_startTime m))"

text \<open>Times are in nanoseconds of the steady clock, which does not run backwards.\<close>

definition getDuration :: "int \<Rightarrow> trace_state \<Rightarrow> manager \<Rightarrow> int" where
  "getDuration now st m =
     (if st = NOT_STARTED \<or> st = INITIALIZING then 0
      else ((if st = RUNNING then now else mg_endTime m) - mg_startTime m) div 1000000000)"

definition fillTraceSummary :: "int \<Rightarrow> trace_state \<Rightarrow> manager \<Rightarrow> written_summary" where
  "fillTraceSummary now st m =
     \<lparr>sum_state = st, sum_queueCount = int (length (mg_jobs m)), sum_path = mg_path m,
      sum_start = getTraceStartDateTime st m, sum_duration = getDuration now st m,
      sum_size = ucast (getTraceSizeMiB m), sum_traced = getTraceCount m,
      sum_dropped = getDroppedTraceCount m, sum_version = manager_getTraceVersion m, sum_tags = mg_tags m\<rparr>"

definition addTag :: "string \<Rightarrow> string \<Rightarrow> manager \<Rightarrow> manager" where
  "addTag name v m = m\<lparr>mg_tags := (mg_tags m)(name \<mapsto> v)\<rparr>"

text \<open>\<open>ProtobufReaderWriter\<close>: writing a message and taking the permission to write away.\<close>

definition file_writable :: "bool \<Rightarrow> manager \<Rightarrow> bool" where
  "file_writable root m \<longleftrightarrow>
     root \<or> (case mg_files m (mg_path m) of None \<Rightarrow> True | Some f \<Rightarrow> \<not> sf_readonly f)"

definition file_readonly :: "manager \<Rightarrow> bool" where
  "file_readonly m \<longleftrightarrow> (case mg_files m (mg_path m) of None \<Rightarrow> False | Some f \<Rightarrow> sf_readonly f)"

text \<open>
  A second write by the same object leaves a hole before the text, which cannot be read as a
  message (theory \<open>Json_File\<close>); \<open>again\<close> says that the object has written already.
\<close>

definition rw_write :: "bool \<Rightarrow> bool \<Rightarrow> write_answer \<Rightarrow> written_summary \<Rightarrow> manager \<Rightarrow> manager \<times> bool" where
  "rw_write root again ans sm m =
     (if ans = Open_Fails \<or> \<not> file_writable root m then (m, False)
      else (m\<lparr>mg_files := (mg_files m)(mg_path m \<mapsto>
                \<lparr>sf_content = (if ans = Write_Ok \<and> \<not> again then Some sm else None), sf_readonly = file_readonly m\<rparr>)\<rparr>,
            ans = Write_Ok))"

definition rw_makeReadOnly :: "bool \<Rightarrow> manager \<Rightarrow> manager \<times> bool" where
  "rw_makeReadOnly ok m =
     (case mg_files m (mg_path m) of
        None \<Rightarrow> (m, False)
      | Some f \<Rightarrow>
          if ok then (m\<lparr>mg_files := (mg_files m)(mg_path m \<mapsto> f\<lparr>sf_readonly := True\<rparr>)\<rparr>, True) else (m, False))"

subsection \<open>The state of a trace\<close>

definition setState :: "summary_env \<Rightarrow> int \<Rightarrow> trace_state \<Rightarrow> manager \<Rightarrow> manager" where
  "setState env now st m =
     (let m = (if mg_state m = RUNNING \<and> st \<noteq> RUNNING then m\<lparr>mg_endTime := now\<rparr> else m);
          m = m\<lparr>mg_state := st\<rparr>;
          again = (se_write env \<noteq> Open_Fails \<and> file_writable (se_root env) m);
          (m, written) = rw_write (se_root env) False (se_write env) (fillTraceSummary now st m) m;
          m = (if written then m else m\<lparr>mg_state := ERROR\<rparr>)
      in if mg_state m = ERROR \<or> mg_state m = COMPLETE
         then let (m, ok) = rw_makeReadOnly (se_chmod env) m
              in if ok then m
                 else let m = m\<lparr>mg_state := ERROR\<rparr>
                      in fst (rw_write (se_root env) again (se_rewrite env) (fillTraceSummary now ERROR m) m)
         else m)"

text \<open>The loop over the jobs, and what follows from its three flags.\<close>

fun scan_jobs :: "job_view list \<Rightarrow> bool \<Rightarrow> bool \<Rightarrow> bool \<Rightarrow> bool \<times> bool \<times> bool" where
  "scan_jobs [] running failed allFinished = (running, failed, allFinished)"
| "scan_jobs (j # js) running failed allFinished =
     (case jv_state j of
        NOT_STARTED \<Rightarrow> scan_jobs js running failed False
      | RUNNING \<Rightarrow> scan_jobs js True failed False
      | ERROR \<Rightarrow> scan_jobs js running True allFinished
      | _ \<Rightarrow> scan_jobs js running failed allFinished)"

definition observed_state :: "manager \<Rightarrow> trace_state option" where
  "observed_state m =
     (if mg_state m \<noteq> RUNNING then None
      else let (running, failed, allFinished) = scan_jobs (mg_jobs m) False False True
           in Some (if running then RUNNING
                    else if allFinished \<and> failed then ERROR
                    else if allFinished \<and> mg_jobs m \<noteq> [] then COMPLETE
                    else NOT_STARTED))"

definition updateState :: "summary_env \<Rightarrow> int \<Rightarrow> manager \<Rightarrow> manager" where
  "updateState env now m = (case observed_state m of None \<Rightarrow> m | Some st \<Rightarrow> setState env now st m)"

definition getState :: "summary_env \<Rightarrow> int \<Rightarrow> manager \<Rightarrow> manager \<times> trace_state" where
  "getState env now m = (let m = updateState env now m in (m, mg_state m))"

subsection \<open>Jobs and their thread\<close>

text \<open>
  What a trace meets on its way: what the constructor of each job gives, how the jobs look after
  the wait for their start and after they were joined, the answers of the executor, what the
  loop of the management thread sees every second (whether it was asked to finish, the clock and
  the jobs), and the answers of the file system to each change of the state.
\<close>

record tracing_run =
  tr_begin :: int
  tr_make :: "nat \<Rightarrow> u32 \<Rightarrow> job_view res"
  tr_wait :: "job_view list \<Rightarrow> job_view list"
  tr_setup :: "summary_env \<times> int"
  tr_startTrace :: bool
  tr_polls :: "(bool \<times> int \<times> job_view list) list"
  tr_stopTrace :: bool
  tr_catch :: "summary_env \<times> int"
  tr_join :: "job_view list \<Rightarrow> job_view list"
  tr_final :: "summary_env \<times> int"

fun make_jobs :: "(nat \<Rightarrow> u32 \<Rightarrow> job_view res) \<Rightarrow> u32 \<Rightarrow> nat list \<Rightarrow> manager \<Rightarrow> manager \<times> unit res" where
  "make_jobs mk sz [] m = (m, Inr ())"
| "make_jobs mk sz (i # is) m =
     (case mk i sz of
        Inl e \<Rightarrow> (m, Inl e)
      | Inr j \<Rightarrow> make_jobs mk sz is (m\<lparr>mg_jobs := mg_jobs m @ [j]\<rparr>))"

definition setupJobs :: "tracing_run \<Rightarrow> manager \<Rightarrow> manager \<times> unit res" where
  "setupJobs r m =
     (if mg_numberOfJobs m = 0 then (m, Inl (Undefined_Behaviour ''division by zero''))
      else let jobBufferSize = MiBToBytes (ucast (mg_memoryPoolSizeMiB m)) div ucast (mg_numberOfJobs m)
           in if jobBufferSize > 0xFFFFFFFF \<or> jobBufferSize = 0
              then (m, Inl (Octf_Exception ''Incorrect circular buffer size''))
              else case make_jobs (tr_make r) (ucast jobBufferSize) [0..<unat (mg_numberOfJobs m)] m of
                     (m, Inl e) \<Rightarrow> (m, Inl e)
                   | (m, Inr _) \<Rightarrow>
                       (setState (fst (tr_setup r)) (snd (tr_setup r)) RUNNING
                          (m\<lparr>mg_jobs := tr_wait r (mg_jobs m)\<rparr>), Inr ()))"

text \<open>The loop of the management thread; \<open>None\<close> as long as it goes on.\<close>

fun collect :: "(bool \<times> int \<times> job_view list) list \<Rightarrow> manager \<Rightarrow> manager option" where
  "collect [] m = None"
| "collect ((finish, now, js) # polls) m =
     (if finish then Some m
      else let m = m\<lparr>mg_jobs := js\<rparr>
           in if now > mg_startTime m + 1000000000 * uint (mg_maxDuration m) \<or> mg_maxFileSize m \<le>s getTraceSize m
              then Some m else collect polls m)"

text \<open>What is tried, and what follows whether it threw or not.\<close>

definition tryJobs :: "tracing_run \<Rightarrow> manager \<Rightarrow> (manager \<times> unit res) option" where
  "tryJobs r m =
     (case setupJobs r m of
        (m, Inl e) \<Rightarrow> Some (m, Inl e)
      | (m, Inr _) \<Rightarrow>
          if \<not> tr_startTrace r then Some (m, Inl (Octf_Exception ''Error sending start trace request''))
          else case collect (tr_polls r) m of
                 None \<Rightarrow> None
               | Some m \<Rightarrow>
                   if \<not> tr_stopTrace r then Some (m, Inl (Octf_Exception ''Error sending stop trace request''))
                   else Some (m, Inr ()))"

definition endJobs :: "tracing_run \<Rightarrow> manager \<Rightarrow> unit res \<Rightarrow> manager res" where
  "endJobs r m q =
     (case q of
        Inl (Undefined_Behaviour e) \<Rightarrow> Inl (Undefined_Behaviour e)
      | _ \<Rightarrow>
          let m = (case q of Inl _ \<Rightarrow> setState (fst (tr_catch r)) (snd (tr_catch r)) ERROR m | Inr _ \<Rightarrow> m);
              m = m\<lparr>mg_jobs := tr_join r (mg_jobs m)\<rparr>
          in Inr (updateState (fst (tr_final r)) (snd (tr_final r)) m))"

definition handleJobs :: "tracing_run \<Rightarrow> manager \<Rightarrow> manager res option" where
  "handleJobs r m =
     (case tryJobs r (m\<lparr>mg_startTime := tr_begin r, mg_endTime := tr_begin r\<rparr>) of
        None \<Rightarrow> None
      | Some (m, q) \<Rightarrow> Some (endJobs r m q))"

text \<open>
  \<open>initializeTraceDirectory\<close> gives the new directory or fails. The management thread of an earlier
  trace is joined before the state of the new one is set.
\<close>

definition startJobs ::
    "summary_env \<Rightarrow> int \<Rightarrow> string res \<Rightarrow> summary_env \<Rightarrow> int \<Rightarrow> u32 \<Rightarrow> u64 \<Rightarrow> u32 \<Rightarrow> manager \<Rightarrow> manager \<times> unit res" where
  "startJobs env now directory env' now' maxDuration maxFileSizeInMiB circBufferSizeInMiB m =
     (let (m, state) = getState env now m
      in if state \<noteq> RUNNING \<and> state \<noteq> INITIALIZING
         then case directory of
                Inl e \<Rightarrow> (m, Inl e)
              | Inr path \<Rightarrow>
                  let m = m\<lparr>mg_path := path, mg_jobs := [], mg_finish := False\<rparr>;
                      m = setState env' now' INITIALIZING m
                  in (m\<lparr>mg_maxDuration := maxDuration, mg_maxFileSize := MiBToBytes maxFileSizeInMiB,
                       mg_memoryPoolSizeMiB := circBufferSizeInMiB\<rparr>, Inr ())
         else (m, Inl (Octf_Exception ''Tracing already started.'')))"

text \<open>\<open>stopJobs\<close> waits for the thread, which runs to its end after the request.\<close>

definition stopJobs :: "summary_env \<Rightarrow> int \<Rightarrow> (manager \<Rightarrow> manager) \<Rightarrow> manager \<Rightarrow> manager" where
  "stopJobs env now joined m = updateState env now (joined (m\<lparr>mg_finish := True\<rparr>))"

subsection \<open>Lemmas\<close>

definition env_good :: "summary_env \<Rightarrow> bool" where
  "env_good env \<longleftrightarrow> se_write env = Write_Ok \<and> se_chmod env"

definition final_state :: "trace_state \<Rightarrow> bool" where
  "final_state st \<longleftrightarrow> st = COMPLETE \<or> st = ERROR"

lemma scan_jobs_flags:
  "scan_jobs js running failed allFinished =
     (running \<or> (\<exists>j \<in> set js. jv_state j = RUNNING), failed \<or> (\<exists>j \<in> set js. jv_state j = ERROR),
      allFinished \<and> (\<forall>j \<in> set js. jv_state j \<noteq> NOT_STARTED \<and> jv_state j \<noteq> RUNNING))"
  by (induction js arbitrary: running failed allFinished) (auto split: trace_state.split)

lemma observed_final:
  assumes "mg_state m = RUNNING" "mg_jobs m \<noteq> []" "\<forall>j \<in> set (mg_jobs m). final_state (jv_state j)"
  shows "observed_state m = Some (if \<forall>j \<in> set (mg_jobs m). jv_state j = COMPLETE then COMPLETE else ERROR)"
  using assms by (auto simp: observed_state_def scan_jobs_flags final_state_def)

lemma updateState_settled [simp]: "mg_state m \<noteq> RUNNING \<Longrightarrow> updateState env now m = m"
  by (simp add: updateState_def observed_state_def)

text \<open>The manager whose end is noted on leaving \<open>RUNNING\<close>, as the summary sees it.\<close>

definition ended :: "int \<Rightarrow> trace_state \<Rightarrow> manager \<Rightarrow> manager" where
  "ended now st m = (if mg_state m = RUNNING \<and> st \<noteq> RUNNING then m\<lparr>mg_endTime := now\<rparr> else m)\<lparr>mg_state := st\<rparr>"

lemma setState_good:
  assumes "env_good env" "file_writable (se_root env) m"
  shows "setState env now st m = (ended now st m)\<lparr>mg_files := (mg_files m)(mg_path m \<mapsto>
    \<lparr>sf_content = Some (fillTraceSummary now st (ended now st m)),
     sf_readonly = file_readonly m \<or> final_state st\<rparr>)\<rparr>"
  using assms
  by (auto simp: setState_def Let_def ended_def env_good_def rw_write_def rw_makeReadOnly_def
      file_writable_def file_readonly_def final_state_def fillTraceSummary_def getTraceSizeMiB_def
      getTraceSize_def getTraceCount_def getDroppedTraceCount_def manager_getTraceVersion_def
      getTraceStartDateTime_def getDuration_def)

lemma rw_write_fields [simp]:
  "mg_jobs (fst (rw_write root again ans sm m)) = mg_jobs m" "mg_path (fst (rw_write root again ans sm m)) = mg_path m"
  "mg_numberOfJobs (fst (rw_write root again ans sm m)) = mg_numberOfJobs m"
  "mg_startTime (fst (rw_write root again ans sm m)) = mg_startTime m"
  "mg_maxDuration (fst (rw_write root again ans sm m)) = mg_maxDuration m"
  "p \<noteq> mg_path m \<Longrightarrow> mg_files (fst (rw_write root again ans sm m)) p = mg_files m p"
  by (simp_all add: rw_write_def)

lemma rw_makeReadOnly_fields [simp]:
  "mg_jobs (fst (rw_makeReadOnly ok m)) = mg_jobs m" "mg_path (fst (rw_makeReadOnly ok m)) = mg_path m"
  "mg_numberOfJobs (fst (rw_makeReadOnly ok m)) = mg_numberOfJobs m"
  "mg_startTime (fst (rw_makeReadOnly ok m)) = mg_startTime m"
  "mg_maxDuration (fst (rw_makeReadOnly ok m)) = mg_maxDuration m"
  "p \<noteq> mg_path m \<Longrightarrow> mg_files (fst (rw_makeReadOnly ok m)) p = mg_files m p"
  by (simp_all add: rw_makeReadOnly_def split: option.split)

lemma setState_fields [simp]:
  "mg_jobs (setState env now st m) = mg_jobs m" "mg_path (setState env now st m) = mg_path m"
  "mg_numberOfJobs (setState env now st m) = mg_numberOfJobs m"
  "mg_startTime (setState env now st m) = mg_startTime m"
  "mg_maxDuration (setState env now st m) = mg_maxDuration m"
  "p \<noteq> mg_path m \<Longrightarrow> mg_files (setState env now st m) p = mg_files m p"
  by (simp_all add: setState_def Let_def split_beta)

lemma collect_fields:
  "collect polls m = Some m' \<Longrightarrow> m' = m\<lparr>mg_jobs := mg_jobs m'\<rparr> \<and>
     (mg_jobs m' = mg_jobs m \<or> mg_jobs m' \<in> (\<lambda>(_, _, js). js) ` set polls)"
proof (induction polls arbitrary: m)
  case (Cons p polls)
  obtain finish now js where p: "p = (finish, now, js)" by (cases p)
  show ?case
  proof (cases "finish \<or> now > mg_startTime m + 1000000000 * uint (mg_maxDuration m) \<or>
      mg_maxFileSize m \<le>s getTraceSize (m\<lparr>mg_jobs := js\<rparr>)")
    case True
    then show ?thesis using Cons.prems p by (auto split: if_splits)
  next
    case False
    then have "collect polls (m\<lparr>mg_jobs := js\<rparr>) = Some m'" using Cons.prems p by simp
    then show ?thesis using Cons.IH [of "m\<lparr>mg_jobs := js\<rparr>"] p by force
  qed
qed simp

definition buffer_size :: "manager \<Rightarrow> u64" where
  "buffer_size m = MiBToBytes (ucast (mg_memoryPoolSizeMiB m)) div ucast (mg_numberOfJobs m)"

text \<open>All jobs can be created with their share of the buffer.\<close>

definition sets_up :: "tracing_run \<Rightarrow> manager \<Rightarrow> bool" where
  "sets_up r m \<longleftrightarrow> 0 < buffer_size m \<and> buffer_size m \<le> 0xFFFFFFFF \<and>
     (\<forall>i < unat (mg_numberOfJobs m). \<exists>j. tr_make r i (ucast (buffer_size m)) = Inr j)"

lemma make_jobs_result:
  "\<exists>js q. make_jobs mk sz is m = (m\<lparr>mg_jobs := mg_jobs m @ js\<rparr>, q) \<and> (q = Inr () \<longleftrightarrow> (\<forall>i \<in> set is. \<exists>j. mk i sz = Inr j)) \<and>
     (q = Inr () \<longrightarrow> length js = length is) \<and> (\<forall>e. q = Inl (Undefined_Behaviour e) \<longrightarrow> (\<exists>i. mk i sz = Inl (Undefined_Behaviour e)))"
proof (induction "is" arbitrary: m)
  case (Cons i "is")
  show ?case
  proof (cases "mk i sz")
    case (Inl e)
    then show ?thesis by (intro exI [of _ "[]"] exI [of _ "Inl e"]) auto
  next
    case (Inr j)
    obtain js q where "make_jobs mk sz is (m\<lparr>mg_jobs := mg_jobs m @ [j]\<rparr>) =
          (m\<lparr>mg_jobs := mg_jobs m @ [j] @ js\<rparr>, q)"
        "q = Inr () \<longleftrightarrow> (\<forall>i \<in> set is. \<exists>j. mk i sz = Inr j)" "q = Inr () \<longrightarrow> length js = length is"
        "\<forall>e. q = Inl (Undefined_Behaviour e) \<longrightarrow> (\<exists>i. mk i sz = Inl (Undefined_Behaviour e))"
      using Cons.IH [of "m\<lparr>mg_jobs := mg_jobs m @ [j]\<rparr>"] by auto
    then show ?thesis using Inr by (intro exI [of _ "j # js"] exI [of _ q]) auto
  qed
qed auto

text \<open>The jobs a run is about: they keep their number, and a joined job has ended.\<close>

definition jobs_behave :: "tracing_run \<Rightarrow> manager \<Rightarrow> bool" where
  "jobs_behave r m \<longleftrightarrow>
     (\<forall>i sz e. tr_make r i sz \<noteq> Inl (Undefined_Behaviour e)) \<and>
     (\<forall>js. length (tr_wait r js) = length js \<and> length (tr_join r js) = length js \<and>
        (\<forall>j \<in> set (tr_join r js). final_state (jv_state j))) \<and>
     (\<forall>(_, _, js) \<in> set (tr_polls r). length js = unat (mg_numberOfJobs m))"

lemma setupJobs_result:
  assumes "mg_numberOfJobs m \<noteq> 0" "mg_jobs m = []" "jobs_behave r m"
  shows "if sets_up r m
    then \<exists>js. length js = unat (mg_numberOfJobs m) \<and>
      setupJobs r m = (setState (fst (tr_setup r)) (snd (tr_setup r)) RUNNING (m\<lparr>mg_jobs := js\<rparr>), Inr ())
    else \<exists>js e. setupJobs r m = (m\<lparr>mg_jobs := js\<rparr>, Inl e) \<and> (\<forall>s. e \<noteq> Undefined_Behaviour s)"
proof (cases "0 < buffer_size m \<and> buffer_size m \<le> 0xFFFFFFFF")
  case False
  then have "setupJobs r m = (m\<lparr>mg_jobs := []\<rparr>, Inl (Octf_Exception ''Incorrect circular buffer size''))"
    using assms(1,2) by (auto simp: setupJobs_def Let_def buffer_size_def word_gt_0)
  then show ?thesis using False by (auto simp: sets_up_def)
next
  case True
  obtain js q where q: "make_jobs (tr_make r) (ucast (buffer_size m)) [0..<unat (mg_numberOfJobs m)] m =
        (m\<lparr>mg_jobs := js\<rparr>, q)"
      "q = Inr () \<longleftrightarrow> (\<forall>i \<in> set [0..<unat (mg_numberOfJobs m)]. \<exists>j. tr_make r i (ucast (buffer_size m)) = Inr j)"
      "q = Inr () \<longrightarrow> length js = unat (mg_numberOfJobs m)"
      "\<forall>e. q = Inl (Undefined_Behaviour e) \<longrightarrow>
        (\<exists>i. tr_make r i (ucast (buffer_size m)) = Inl (Undefined_Behaviour e))"
    using make_jobs_result [of "tr_make r" "ucast (buffer_size m)" "[0..<unat (mg_numberOfJobs m)]" m] assms(2)
    by auto
  have ok: "q = Inr () \<longleftrightarrow> sets_up r m" unfolding q(2) sets_up_def using True by auto
  have ub: "\<forall>s. q \<noteq> Inl (Undefined_Behaviour s)" using q(4) assms(3) by (auto simp: jobs_behave_def)
  have s: "setupJobs r m = (case (m\<lparr>mg_jobs := js\<rparr>, q) of
      (m, Inl e) \<Rightarrow> (m, Inl e)
    | (m, Inr _) \<Rightarrow> (setState (fst (tr_setup r)) (snd (tr_setup r)) RUNNING (m\<lparr>mg_jobs := tr_wait r (mg_jobs m)\<rparr>), Inr ()))"
    using True assms(1) q(1) by (auto simp: setupJobs_def Let_def buffer_size_def [symmetric] linorder_not_less)
  show ?thesis
  proof (cases q)
    case (Inl e)
    then show ?thesis using s ok ub by auto
  next
    case (Inr u)
    then show ?thesis using s ok q(3) assms(3)
      by (auto simp: jobs_behave_def intro!: exI [of _ "tr_wait r js"])
  qed
qed

lemma setState_good_file:
  assumes "env_good env" "\<not> file_readonly m"
  shows "mg_state (setState env now st m) = st"
    "mg_files (setState env now st m) (mg_path m) =
       Some \<lparr>sf_content = Some (fillTraceSummary now st (ended now st m)), sf_readonly = final_state st\<rparr>"
    "file_readonly (setState env now st m) \<longleftrightarrow> final_state st"
proof -
  have "file_writable (se_root env) m"
    using assms(2) by (auto simp: file_readonly_def file_writable_def split: option.splits)
  note g = setState_good [OF assms(1) this, of now st]
  show "mg_state (setState env now st m) = st" by (simp add: g ended_def)
  show f: "mg_files (setState env now st m) (mg_path m) =
       Some \<lparr>sf_content = Some (fillTraceSummary now st (ended now st m)), sf_readonly = final_state st\<rparr>"
    using assms(2) by (simp add: g ended_def)
  show "file_readonly (setState env now st m) \<longleftrightarrow> final_state st" by (simp add: file_readonly_def f)
qed

lemma file_readonly_jobs [simp]: "file_readonly (m\<lparr>mg_jobs := js\<rparr>) = file_readonly m"
  by (simp add: file_readonly_def)

lemma file_readonly_times [simp]: "file_readonly (m\<lparr>mg_startTime := a, mg_endTime := b\<rparr>) = file_readonly m"
  by (simp add: file_readonly_def)

text \<open>What a summary says of the jobs.\<close>

definition tells_totals :: "written_summary \<Rightarrow> manager \<Rightarrow> bool" where
  "tells_totals sm m \<longleftrightarrow> sum_queueCount sm = int (length (mg_jobs m)) \<and>
     sum_traced sm = sum_list (map jv_count (mg_jobs m)) \<and> sum_dropped sm = sum_list (map jv_dropped (mg_jobs m)) \<and>
     sum_size sm = ucast (BytesToMiBCeiling (sum_list (map jv_size (mg_jobs m))))"

lemma fillTraceSummary_totals:
  "mg_jobs m' = mg_jobs m \<Longrightarrow> tells_totals (fillTraceSummary now st m') m"
  "sum_state (fillTraceSummary now st m') = st"
  by (simp_all add: tells_totals_def fillTraceSummary_def getTraceCount_def getDroppedTraceCount_def
      getTraceSizeMiB_def getTraceSize_def)

lemma ended_jobs [simp]: "mg_jobs (ended now st m) = mg_jobs m" "mg_path (ended now st m) = mg_path m"
  by (simp_all add: ended_def)

definition finished_with :: "trace_state \<Rightarrow> string \<Rightarrow> manager \<Rightarrow> bool" where
  "finished_with st path m \<longleftrightarrow> mg_state m = st \<and>
     (\<exists>sm. mg_files m path = Some \<lparr>sf_content = Some sm, sf_readonly = True\<rparr> \<and> sum_state sm = st \<and>
        (st = COMPLETE \<longrightarrow> tells_totals sm m))"

lemma finish_by_exception:
  assumes "env_good env" "\<not> file_readonly m"
  shows "finished_with ERROR (mg_path m) ((setState env now ERROR m)\<lparr>mg_jobs := js\<rparr>)"
  using setState_good_file [OF assms, of now ERROR]
  by (simp add: finished_with_def final_state_def fillTraceSummary_totals)

lemma finish_by_update:
  assumes "env_good env" "\<not> file_readonly m" "mg_state m = RUNNING" "mg_jobs m \<noteq> []"
    "\<forall>j \<in> set (mg_jobs m). final_state (jv_state j)"
  shows "finished_with (if \<forall>j \<in> set (mg_jobs m). jv_state j = COMPLETE then COMPLETE else ERROR) (mg_path m)
    (updateState env now m)"
  using setState_good_file [OF assms(1,2)] observed_final [OF assms(3-5)]
  by (auto simp: finished_with_def updateState_def final_state_def fillTraceSummary_totals)

definition run_good :: "tracing_run \<Rightarrow> bool" where
  "run_good r \<longleftrightarrow> env_good (fst (tr_setup r)) \<and> env_good (fst (tr_catch r)) \<and> env_good (fst (tr_final r))"

text \<open>What the body leaves: the jobs are running, or an exception ended it before the state was final.\<close>

lemma tryJobs_result:
  assumes m: "mg_numberOfJobs m \<noteq> 0" "mg_jobs m = []" "\<not> file_readonly m"
    and r: "jobs_behave r m" "run_good r" "tryJobs r m = Some (m', q)"
  shows "\<not> file_readonly m' \<and> mg_path m' = mg_path m \<and> (\<forall>s. q \<noteq> Inl (Undefined_Behaviour s)) \<and>
    (q = Inr () \<longleftrightarrow> sets_up r m \<and> tr_startTrace r \<and> tr_stopTrace r) \<and>
    (q = Inr () \<longrightarrow> mg_state m' = RUNNING \<and> length (mg_jobs m') = unat (mg_numberOfJobs m))"
proof (cases "sets_up r m")
  case False
  then obtain js e where "setupJobs r m = (m\<lparr>mg_jobs := js\<rparr>, Inl e)" "\<forall>s. e \<noteq> Undefined_Behaviour s"
    using setupJobs_result [OF m(1,2) r(1)] by auto
  then show ?thesis using m(3) r(3) False by (auto simp: tryJobs_def)
next
  case True
  then obtain js where js: "length js = unat (mg_numberOfJobs m)"
      "setupJobs r m = (setState (fst (tr_setup r)) (snd (tr_setup r)) RUNNING (m\<lparr>mg_jobs := js\<rparr>), Inr ())"
    using setupJobs_result [OF m(1,2) r(1)] by auto
  define m2 where "m2 = setState (fst (tr_setup r)) (snd (tr_setup r)) RUNNING (m\<lparr>mg_jobs := js\<rparr>)"
  have m2: "mg_state m2 = RUNNING" "\<not> file_readonly m2" "mg_path m2 = mg_path m" "mg_jobs m2 = js"
    using setState_good_file [of "fst (tr_setup r)" "m\<lparr>mg_jobs := js\<rparr>" "snd (tr_setup r)" RUNNING] m(3) r(2)
    by (auto simp: m2_def run_good_def final_state_def)
  have c: "mg_state m3 = RUNNING \<and> \<not> file_readonly m3 \<and> mg_path m3 = mg_path m \<and>
      length (mg_jobs m3) = unat (mg_numberOfJobs m)" if "collect (tr_polls r) m2 = Some m3" for m3
  proof -
    have e: "m3 = m2\<lparr>mg_jobs := mg_jobs m3\<rparr>" using collect_fields [OF that] by blast
    have "mg_state m3 = RUNNING" "\<not> file_readonly m3" "mg_path m3 = mg_path m" by (subst e, simp add: m2)+
    then show ?thesis using collect_fields [OF that] r(1) js(1) m2(4) by (auto simp: jobs_behave_def)
  qed
  show ?thesis
    using r(3) c m2 True unfolding tryJobs_def js(2) m2_def [symmetric]
    by (auto split: if_splits option.splits)
qed

lemma handleJobs_outcome:
  assumes m: "mg_numberOfJobs m \<noteq> 0" "mg_jobs m = []" "\<not> file_readonly m"
    and r: "jobs_behave r m" "run_good r" "handleJobs r m = Some q"
  shows "\<exists>m'. q = Inr m' \<and>
    finished_with (if sets_up r m \<and> tr_startTrace r \<and> tr_stopTrace r \<and> (\<forall>j \<in> set (mg_jobs m'). jv_state j = COMPLETE)
                   then COMPLETE else ERROR) (mg_path m) m'"
proof -
  let ?m = "m\<lparr>mg_startTime := tr_begin r, mg_endTime := tr_begin r\<rparr>"
  obtain m2 p where p: "tryJobs r ?m = Some (m2, p)" "q = endJobs r m2 p"
    using r(3) by (auto simp: handleJobs_def split: option.splits)
  have m2: "\<not> file_readonly m2" "mg_path m2 = mg_path m" "\<forall>s. p \<noteq> Inl (Undefined_Behaviour s)"
      "p = Inr () \<longleftrightarrow> sets_up r m \<and> tr_startTrace r \<and> tr_stopTrace r"
      "p = Inr () \<longrightarrow> mg_state m2 = RUNNING \<and> length (mg_jobs m2) = unat (mg_numberOfJobs m)"
    using tryJobs_result [OF _ _ _ _ r(2) p(1)] m r(1) by (simp_all add: jobs_behave_def sets_up_def buffer_size_def)
  show ?thesis
  proof (cases p)
    case (Inl e)
    let ?m3 = "(setState (fst (tr_catch r)) (snd (tr_catch r)) ERROR m2)\<lparr>mg_jobs := tr_join r (mg_jobs m2)\<rparr>"
    have f: "finished_with ERROR (mg_path m) ?m3"
      using finish_by_exception [of "fst (tr_catch r)" m2] m2(1,2) r(2) by (simp add: run_good_def)
    then have "q = Inr ?m3" using p(2) Inl m2(3) by (cases e) (auto simp: endJobs_def Let_def finished_with_def)
    then show ?thesis using f Inl m2(4) by auto
  next
    case (Inr u)
    let ?js = "tr_join r (mg_jobs m2)"
    let ?m3 = "updateState (fst (tr_final r)) (snd (tr_final r)) (m2\<lparr>mg_jobs := ?js\<rparr>)"
    have ok: "mg_state m2 = RUNNING" "length (mg_jobs m2) = unat (mg_numberOfJobs m)" using Inr m2(5) by auto
    have "0 < unat (mg_numberOfJobs m)" using m(1) by (simp add: unat_gt_0)
    then have j: "?js \<noteq> []" "\<forall>j \<in> set ?js. final_state (jv_state j)"
      using r(1) ok(2) by (auto simp: jobs_behave_def simp flip: length_greater_0_conv)
    have q: "q = Inr ?m3" using p(2) Inr by (simp add: endJobs_def)
    have "mg_jobs ?m3 = ?js" by (simp add: updateState_def split: option.split)
    moreover have "finished_with (if \<forall>j \<in> set ?js. jv_state j = COMPLETE then COMPLETE else ERROR) (mg_path m) ?m3"
      using finish_by_update [of "fst (tr_final r)" "m2\<lparr>mg_jobs := ?js\<rparr>"] m2(1,2) ok(1) j r(2)
      by (simp add: run_good_def)
    ultimately show ?thesis using q Inr m2(4) by auto
  qed
qed

subsection \<open>The properties\<close>

lemma updateState_fields [simp]:
  "mg_jobs (updateState env now m) = mg_jobs m"
  "mg_numberOfJobs (updateState env now m) = mg_numberOfJobs m" "mg_path (updateState env now m) = mg_path m"
  "p \<noteq> mg_path m \<Longrightarrow> mg_files (updateState env now m) p = mg_files m p"
  by (simp_all add: updateState_def split: option.split)

lemma started:
  assumes "startJobs e0 n0 (Inr path) e1 n1 dur sz buf m0 = (m, Inr ())" "env_good e1"
    "mg_files m0 path = None" "path \<noteq> mg_path m0"
  shows "mg_jobs m = []" "mg_path m = path" "mg_numberOfJobs m = mg_numberOfJobs m0" "\<not> file_readonly m"
    "mg_state m = INITIALIZING" "mg_maxDuration m = dur"
proof -
  let ?m1 = "(updateState e0 n0 m0)\<lparr>mg_path := path, mg_jobs := [], mg_finish := False\<rparr>"
  have nr: "\<not> file_readonly ?m1" using assms(3,4) by (simp add: file_readonly_def)
  have m: "m = (setState e1 n1 INITIALIZING ?m1)\<lparr>mg_maxDuration := dur, mg_maxFileSize := MiBToBytes sz,
      mg_memoryPoolSizeMiB := buf\<rparr>"
    using assms(1) by (auto simp: startJobs_def getState_def Let_def split: if_splits)
  show "mg_jobs m = []" "mg_path m = path" "mg_numberOfJobs m = mg_numberOfJobs m0" "mg_maxDuration m = dur"
    by (simp_all add: m)
  show "mg_state m = INITIALIZING" using setState_good_file(1) [OF assms(2) nr] by (simp add: m)
  show "\<not> file_readonly m"
    using setState_good_file(3) [OF assms(2) nr, of n1 INITIALIZING] by (simp add: m final_state_def file_readonly_def)
qed

text \<open>
  Property C27. A trace that was started in a directory of its own ends complete exactly when its
  jobs could be created, the executor started and stopped it, and every job completed; otherwise
  it ends in error. The summary file then says the same state and is read only, and of a
  complete trace it says the number of queues, the size and the counts of the joined jobs. Later
  updates do not change it. The file system is taken to answer without errors.
\<close>

theorem tracing_outcome:
  assumes "startJobs e0 n0 (Inr path) e1 n1 maxDuration maxFileSize circBufferSize m0 = (m, Inr ())"
    and "env_good e1" "mg_files m0 path = None" "path \<noteq> mg_path m0" "mg_numberOfJobs m0 \<noteq> 0"
    and "jobs_behave r m" "run_good r" "handleJobs r m = Some q"
  shows "\<exists>m'. q = Inr m' \<and>
    finished_with (if sets_up r m \<and> tr_startTrace r \<and> tr_stopTrace r \<and> (\<forall>j \<in> set (mg_jobs m'). jv_state j = COMPLETE)
                   then COMPLETE else ERROR) path m' \<and>
    (\<forall>env now. stopJobs env now id m' = m'\<lparr>mg_finish := True\<rparr>)"
proof -
  note st = started [OF assms(1-4)]
  obtain m' where m': "q = Inr m'"
      "finished_with (if sets_up r m \<and> tr_startTrace r \<and> tr_stopTrace r \<and> (\<forall>j \<in> set (mg_jobs m'). jv_state j = COMPLETE)
         then COMPLETE else ERROR) path m'"
    using handleJobs_outcome [OF _ st(1,4) assms(6-8)] assms(5) st(2,3) by auto
  then have "mg_state m' \<noteq> RUNNING" by (auto simp: finished_with_def split: if_splits)
  then have "stopJobs env now id m' = m'\<lparr>mg_finish := True\<rparr>" for env now by (simp add: stopJobs_def)
  with m' show ?thesis by blast
qed

definition good_env :: summary_env where
  "good_env = \<lparr>se_write = Write_Ok, se_chmod = True, se_rewrite = Write_Ok, se_root = False\<rparr>"

definition view :: "trace_state \<Rightarrow> u64 \<Rightarrow> job_view" where
  "view st n = \<lparr>jv_state = st, jv_size = n, jv_count = n, jv_dropped = 0, jv_version = 2\<rparr>"

text \<open>Two queues that complete; the trace is asked to finish at the second look.\<close>

definition plain_run :: tracing_run where
  "plain_run =
     \<lparr>tr_begin = 0, tr_make = (\<lambda>_ _. Inr (view NOT_STARTED 0)),
      tr_wait = map (\<lambda>j. j\<lparr>jv_state := RUNNING\<rparr>), tr_setup = (good_env, 0), tr_startTrace = True,
      tr_polls = [(False, 1000000000, [view RUNNING 3, view RUNNING 4]), (True, 2000000000, [view RUNNING 5, view RUNNING 6])],
      tr_stopTrace = True, tr_catch = (good_env, 0),
      tr_join = map (\<lambda>j. j\<lparr>jv_state := COMPLETE\<rparr>), tr_final = (good_env, 2000000000)\<rparr>"

lemma tracing_outcome_witness:
  "\<exists>m m'. startJobs good_env 0 (Inr ''new'') good_env 0 10 1 1 (TraceManager 2 (\<lambda>_. None)) = (m, Inr ()) \<and>
     handleJobs plain_run m = Some (Inr m') \<and> finished_with COMPLETE ''new'' m' \<and> getTraceCount m' = 7"
proof -
  let ?m0 = "TraceManager 2 (\<lambda>_. None)"
  define m where "m = fst (startJobs good_env 0 (Inr ''new'') good_env 0 10 1 1 ?m0)"
  have s: "startJobs good_env 0 (Inr ''new'') good_env 0 10 1 1 ?m0 = (m, Inr ())"
    unfolding m_def by (simp add: startJobs_def getState_def TraceManager_def Let_def)
  have mf: "mg_numberOfJobs m = 2" "mg_maxDuration m = 10" "mg_maxFileSize m = 1048576"
      "mg_memoryPoolSizeMiB m = 1" "mg_jobs m = []"
    unfolding m_def by (simp_all add: startJobs_def getState_def TraceManager_def Let_def MiBToBytes_def)
  have jb: "jobs_behave plain_run m" "run_good plain_run"
    by (auto simp: jobs_behave_def plain_run_def run_good_def good_env_def env_good_def final_state_def mf)
  have ge: "env_good good_env" by (simp add: good_env_def env_good_def)
  have su: "sets_up plain_run m"
    by (simp add: sets_up_def buffer_size_def mf plain_run_def MiBToBytes_def)
  define m2 where "m2 = setState good_env 0 RUNNING (m\<lparr>mg_startTime := 0, mg_endTime := 0, mg_jobs := [view RUNNING 0, view RUNNING 0]\<rparr>)"
  have set: "setupJobs plain_run (m\<lparr>mg_startTime := 0, mg_endTime := 0\<rparr>) = (m2, Inr ())"
    by (simp add: setupJobs_def mf MiBToBytes_def plain_run_def Let_def upt_rec m2_def view_def)
  have m2: "mg_maxFileSize m2 = 1048576" "mg_maxDuration m2 = 10" "mg_startTime m2 = 0"
    using setState_good [OF ge, of "m\<lparr>mg_startTime := 0, mg_endTime := 0, mg_jobs := [view RUNNING 0, view RUNNING 0]\<rparr>" 0 RUNNING]
    using started(4) [OF s ge] by (auto simp: m2_def mf ended_def TraceManager_def file_writable_def file_readonly_def split: option.splits)
  have col: "collect (tr_polls plain_run) m2 = Some (m2\<lparr>mg_jobs := [view RUNNING 3, view RUNNING 4]\<rparr>)"
    by (simp add: plain_run_def m2 getTraceSize_def view_def word_sle_eq)
  obtain q where q: "handleJobs plain_run m = Some q" "q = endJobs plain_run (m2\<lparr>mg_jobs := [view RUNNING 3, view RUNNING 4]\<rparr>) (Inr ())"
    using set col by (auto simp: handleJobs_def tryJobs_def) (simp add: plain_run_def)+
  obtain m' where m': "q = Inr m'" "finished_with (if sets_up plain_run m \<and> tr_startTrace plain_run \<and> tr_stopTrace plain_run \<and>
      (\<forall>j \<in> set (mg_jobs m'). jv_state j = COMPLETE) then COMPLETE else ERROR) ''new'' m'"
    using tracing_outcome [OF s ge _ _ _ jb q(1)] by (auto simp: TraceManager_def)
  have "mg_jobs m' = [view COMPLETE 3, view COMPLETE 4]"
    using q(2) m'(1) by (simp add: endJobs_def plain_run_def view_def Let_def)
  then show ?thesis using s q(1) m' su by (intro exI [of _ m] exI [of _ m']) (auto simp: plain_run_def view_def getTraceCount_def)
qed

text \<open>
  Two threads update the state of a trace whose jobs have just completed, the
  management thread and a caller that asks for the state: both see it running and find it
  complete. The first sets it and makes the summary read only; the second then cannot write the
  summary and turns the trace into an error, while the file goes on saying complete.
\<close>

theorem concurrent_updates_clash:
  assumes "mg_state m = RUNNING" "mg_jobs m \<noteq> []" "\<forall>j \<in> set (mg_jobs m). jv_state j = COMPLETE"
    and "env_good e1" "env_good e2" "\<not> se_root e2" "\<not> file_readonly m"
  shows "\<exists>sm. observed_state m = Some COMPLETE \<and>
    (let m1 = setState e1 t1 COMPLETE m; m2 = setState e2 t2 COMPLETE m1
     in mg_state m1 = COMPLETE \<and> updateState e2 t2 m1 = m1 \<and> mg_state m2 = ERROR \<and>
        mg_files m2 (mg_path m) = Some \<lparr>sf_content = Some sm, sf_readonly = True\<rparr> \<and> sum_state sm = COMPLETE)"
proof -
  define m1 where "m1 = setState e1 t1 COMPLETE m"
  have m1: "mg_state m1 = COMPLETE" "file_readonly m1" "mg_path m1 = mg_path m"
    using setState_good_file [OF assms(4,7), of t1 COMPLETE] by (auto simp: m1_def final_state_def)
  obtain sm where f: "mg_files m1 (mg_path m) = Some \<lparr>sf_content = Some sm, sf_readonly = True\<rparr>" "sum_state sm = COMPLETE"
    using setState_good_file(2) [OF assms(4,7), of t1 COMPLETE]
    by (auto simp: m1_def final_state_def fillTraceSummary_totals)
  have "observed_state m = Some COMPLETE"
    using observed_final [OF assms(1,2)] assms(3) by (simp add: final_state_def)
  moreover have "mg_state (setState e2 t2 COMPLETE m1) = ERROR"
      "mg_files (setState e2 t2 COMPLETE m1) (mg_path m) = Some \<lparr>sf_content = Some sm, sf_readonly = True\<rparr>"
    using assms(5,6) m1 f
    by (auto simp: setState_def Let_def rw_write_def rw_makeReadOnly_def file_writable_def env_good_def)
  ultimately show ?thesis using m1 f by (simp add: m1_def Let_def)
qed

lemma concurrent_updates_clash_witness:
  "let m = (TraceManager 1 (\<lambda>_. None))\<lparr>mg_state := RUNNING, mg_jobs := [view COMPLETE 3]\<rparr>;
       m1 = setState good_env 1 COMPLETE m; m2 = setState good_env 1 COMPLETE m1
   in observed_state m = Some COMPLETE \<and> mg_state m1 = COMPLETE \<and> mg_state m2 = ERROR"
  using concurrent_updates_clash [of "(TraceManager 1 (\<lambda>_. None))\<lparr>mg_state := RUNNING, mg_jobs := [view COMPLETE 3]\<rparr>" good_env good_env 1 1]
  by (auto simp: TraceManager_def view_def good_env_def env_good_def file_readonly_def Let_def)

lemma collect_steps:
  assumes "\<forall>i < length polls. start + 1000000000 * (int (k + i) + 1) < fst (snd (polls ! i))"
    and "unat (mg_maxDuration m) \<le> k + length polls" "k \<le> unat (mg_maxDuration m)"
    and "mg_startTime m = start" "polls \<noteq> []"
  shows "collect polls m \<noteq> None"
  using assms
proof (induction polls arbitrary: k m)
  case (Cons p polls)
  obtain finish now js where p: "p = (finish, now, js)" by (cases p)
  have now: "start + 1000000000 * (int k + 1) < now" using Cons.prems(1) p by force
  show ?case
  proof (cases "finish \<or> now > start + 1000000000 * uint (mg_maxDuration m) \<or>
      mg_maxFileSize m \<le>s getTraceSize (m\<lparr>mg_jobs := js\<rparr>)")
    case True
    then show ?thesis using p Cons.prems(4) by auto
  next
    case False
    then have le: "now \<le> start + 1000000000 * uint (mg_maxDuration m)" by linarith
    obtain d where d: "uint (mg_maxDuration m) = int d" "unat (mg_maxDuration m) = d" using uint_nat by blast
    have "1000000000 * (int k + 1) < 1000000000 * int d" using now le unfolding d(1) by linarith
    then have "Suc k < d" by simp
    then have k: "Suc k < unat (mg_maxDuration m)" by (simp add: d(2))
    have "\<forall>i < length polls. start + 1000000000 * (int (Suc k + i) + 1) < fst (snd (polls ! i))"
    proof (intro allI impI)
      fix i assume "i < length polls"
      then show "start + 1000000000 * (int (Suc k + i) + 1) < fst (snd (polls ! i))"
        using Cons.prems(1) [rule_format, of "Suc i"] by simp
    qed
    moreover have "polls \<noteq> []" using k Cons.prems(2) by (cases polls) auto
    ultimately have "collect polls (m\<lparr>mg_jobs := js\<rparr>) \<noteq> None"
      using Cons.IH [of "Suc k" "m\<lparr>mg_jobs := js\<rparr>"] Cons.prems(2,4) k by auto
    then show ?thesis using False p Cons.prems(4) by auto
  qed
qed simp

text \<open>
  The management thread does not outlive the duration it was given: when each look
  at the clock comes more than a second after the one before, at most as many looks as the
  duration has seconds, and one at least, end the loop, whatever the jobs write.
\<close>

theorem collecting_ends:
  assumes "\<forall>i < length polls. mg_startTime m + 1000000000 * (int i + 1) < fst (snd (polls ! i))"
    and "unat (mg_maxDuration m) \<le> length polls" "polls \<noteq> []"
  shows "\<exists>m'. collect polls m = Some m' \<and> mg_state m' = mg_state m"
proof -
  have "collect polls m \<noteq> None"
    using collect_steps [of polls "mg_startTime m" 0 m] assms by simp
  then obtain m' where m': "collect polls m = Some m'" by blast
  then have "m' = m\<lparr>mg_jobs := mg_jobs m'\<rparr>" using collect_fields by blast
  then have "mg_state m' = mg_state m" by (metis manager.select_convs(2) manager.surjective manager.update_convs(3))
  with m' show ?thesis by blast
qed

lemma collecting_ends_witness:
  "\<exists>m'. collect [(False, 1500000000, []), (False, 2600000000, [])]
     ((TraceManager 1 (\<lambda>_. None))\<lparr>mg_maxDuration := 2, mg_maxFileSize := 100\<rparr>) = Some m' \<and> mg_state m' = NOT_STARTED"
proof -
  have a: "\<forall>i < (2::nat). 1000000000 * (int i + 1) < fst (snd ([(False, 1500000000, []), (False, 2600000000 :: int, [] :: job_view list)] ! i))"
    by (auto simp: less_2_cases_iff)
  show ?thesis
    using collecting_ends [of "[(False, 1500000000, []), (False, 2600000000, [])]"
        "(TraceManager 1 (\<lambda>_. None))\<lparr>mg_maxDuration := 2, mg_maxFileSize := 100\<rparr>"] a
    by (simp add: TraceManager_def)
qed

end
