(* ===== verification/Trace_Extension.thy ===== *)
theory Trace_Extension
  imports Trace_Reader
begin

section \<open>Extensions of a trace\<close>

text \<open>
  \<open>TraceExtensionLocal\<close> of source/octf/trace/internal/TraceExtensionLocal.cpp keeps what was computed
  from a trace in files beside it: pairs of a sequence number and a message, written with a
  serializer and read with a file reader. A list file names the extensions with their state.

  The directory of the trace is the list, the bytes of the extension files and the files that
  are locked by a writer in progress. The record \<open>ext_env\<close> has the functions of protobuf for the
  sequence numbers and for the messages, the answers of the system, the mapping of a file that
  is read, and the version of the framework. The list file is read and written under its lock,
  so every operation takes effect at once; locking and clearing the own file succeed.
\<close>

datatype ext_state = EXT_UNDEFINED | EXT_INITIALIZING | EXT_READY | EXT_ERROR

record ext_header =
  xh_id :: u64
  xh_name :: string
  xh_state :: ext_state
  xh_version :: string

record ext_dir =
  xd_list :: "ext_header list"
  xd_files :: "u64 \<Rightarrow> u8 list"
  xd_locked :: "u64 set"

record 'm ext_env =
  xe_os :: os
  xe_sid_size :: "u64 \<Rightarrow> u64"
  xe_sid_bytes :: "u64 \<Rightarrow> u8 list option"
  xe_sid_parse :: "u8 list \<Rightarrow> u64 option"
  xe_size :: "'m \<Rightarrow> u64"
  xe_bytes :: "'m \<Rightarrow> u8 list option"
  xe_parse :: "u8 list \<Rightarrow> 'm option"
  xe_file :: "u8 list \<Rightarrow> trace_file"
  xe_version :: string

record ext_writer =
  xw_lastSid :: u64
  xw_serializer :: serializer

record ext_reader =
  xr_file :: reader
  xr_sid :: u64
  xr_hasSid :: bool

record extension =
  xt_name :: string
  xt_hdr :: ext_header
  xt_writer :: "ext_writer option"

subsection \<open>Writing\<close>

definition ext_write :: "'m ext_env \<Rightarrow> u64 \<Rightarrow> 'm \<Rightarrow> ext_writer \<Rightarrow> ext_writer \<times> unit res" where
  "ext_write env sid msg w =
     (if sid < xw_lastSid w then (w, Inl (Octf_Exception ''Extension ERROR, SID value invalid.''))
      else case ser_serialize (xe_sid_size env) (xe_sid_bytes env) (xe_os env) sid (xw_serializer w) of
             (s, Inl e) \<Rightarrow> (w\<lparr>xw_serializer := s\<rparr>, Inl e)
           | (s, Inr False) \<Rightarrow>
               (w\<lparr>xw_serializer := s\<rparr>, Inl (Octf_Exception ''Extension ERROR, cannot serialize SID''))
           | (s, Inr True) \<Rightarrow>
               (case ser_serialize (xe_size env) (xe_bytes env) (xe_os env) msg s of
                  (s, Inl e) \<Rightarrow> (w\<lparr>xw_serializer := s\<rparr>, Inl e)
                | (s, Inr False) \<Rightarrow>
                    (w\<lparr>xw_serializer := s\<rparr>,
                     Inl (Octf_Exception ''Extension ERROR, cannot serialize the trace extension ''))
                | (s, Inr True) \<Rightarrow> (w\<lparr>xw_serializer := s, xw_lastSid := sid\<rparr>, Inr ())))"

text \<open>The first header of the name gets the new state.\<close>

fun set_first_ready :: "string \<Rightarrow> ext_header list \<Rightarrow> ext_header list option" where
  "set_first_ready name [] = None"
| "set_first_ready name (h # hs) =
     (if xh_name h = name then Some (h\<lparr>xh_state := EXT_READY\<rparr> # hs)
      else map_option ((#) h) (set_first_ready name hs))"

definition ext_commit :: "'m ext_env \<Rightarrow> extension \<Rightarrow> ext_dir \<Rightarrow> extension \<times> ext_dir \<times> unit res" where
  "ext_commit env x d =
     (case xt_writer x of
        None \<Rightarrow> (x, d, Inl (Octf_Exception ''ERROR, Extension is not writable''))
      | Some w \<Rightarrow>
          let (s, closed) = ser_close (xe_os env) (xw_serializer w);
              x = x\<lparr>xt_writer := Some (w\<lparr>xw_serializer := s\<rparr>)\<rparr>;
              d = d\<lparr>xd_files := (xd_files d)(xh_id (xt_hdr x) := s_file s)\<rparr>
          in if \<not> closed then (x, d, Inl (Octf_Exception ''Extension ERROR, cannot close the serializer''))
             else case set_first_ready (xt_name x) (xd_list d) of
                    None \<Rightarrow> (x, d, Inl (Octf_Exception ''Extension ERROR, Cannot commit the extention''))
                  | Some hs \<Rightarrow>
                      (x\<lparr>xt_hdr := (xt_hdr x)\<lparr>xh_state := EXT_READY\<rparr>\<rparr>, d\<lparr>xd_list := hs\<rparr>, Inr ()))"

subsection \<open>Reading\<close>

definition ext_isReady :: "extension \<Rightarrow> bool" where
  "ext_isReady x \<longleftrightarrow> xh_state (xt_hdr x) = EXT_READY"

definition ext_isWritable :: "extension \<Rightarrow> bool" where
  "ext_isWritable x \<longleftrightarrow> xt_writer x \<noteq> None"

definition ext_getReader :: "'m ext_env \<Rightarrow> ext_dir \<Rightarrow> extension \<Rightarrow> ext_reader res" where
  "ext_getReader env d x =
     (if ext_isReady x
      then (case rd_init (xe_file env (xd_files d (xh_id (xt_hdr x)))) (TraceFileReader 0) of
              (r, _, Inl e) \<Rightarrow> Inl e
            | (r, _, Inr _) \<Rightarrow> Inr \<lparr>xr_file = r, xr_sid = 0, xr_hasSid = False\<rparr>)
      else Inl (Octf_Exception ''ERROR, Extension is not ready, still writable''))"

definition ext_hasNext :: "ext_reader \<Rightarrow> bool" where
  "ext_hasNext r \<longleftrightarrow> \<not> rd_isFinished (xr_file r)"

definition getNextSid :: "'m ext_env \<Rightarrow> ext_reader \<Rightarrow> ext_reader \<times> u64 res" where
  "getNextSid env r =
     (if xr_hasSid r then (r, Inr (xr_sid r))
      else case readTraceEvent (xe_sid_parse env) (xr_file r) of
             (f, Inl e) \<Rightarrow> (r\<lparr>xr_file := f\<rparr>, Inl e)
           | (f, Inr sid) \<Rightarrow> (r\<lparr>xr_file := f, xr_sid := sid, xr_hasSid := True\<rparr>, Inr sid))"

definition ext_read :: "'m ext_env \<Rightarrow> ext_reader \<Rightarrow> ext_reader \<times> (u64 \<times> 'm) res" where
  "ext_read env r =
     (case getNextSid env r of
        (r, Inl e) \<Rightarrow> (r, Inl e)
      | (r, Inr sid) \<Rightarrow>
          (case readTraceEvent (xe_parse env) (xr_file r) of
             (f, Inl e) \<Rightarrow> (r\<lparr>xr_hasSid := False, xr_file := f\<rparr>, Inl e)
           | (f, Inr m) \<Rightarrow> (r\<lparr>xr_hasSid := False, xr_file := f\<rparr>, Inr (sid, m))))"

subsection \<open>The list of the extensions\<close>

text \<open>The header of the name, if any, and the largest identifier.\<close>

fun find_header :: "string \<Rightarrow> ext_header list \<Rightarrow> ext_header option \<Rightarrow> u64 \<Rightarrow> (ext_header option \<times> u64) res" where
  "find_header name [] found maxId = Inr (found, maxId)"
| "find_header name (h # hs) found maxId =
     (if xh_name h = name
      then if found \<noteq> None then Inl (Octf_Exception ''Extension ERROR, name duplication'')
           else find_header name hs (Some h) (max maxId (xh_id h))
      else find_header name hs found (max maxId (xh_id h)))"

definition ext_isStale :: "'m ext_env \<Rightarrow> ext_dir \<Rightarrow> ext_header \<Rightarrow> bool" where
  "ext_isStale env d h \<longleftrightarrow>
     (if xh_state h = EXT_READY then xh_version h \<noteq> xe_version env else xh_id h \<notin> xd_locked d)"

definition initTraceExtension :: "'m ext_env \<Rightarrow> string \<Rightarrow> ext_dir \<Rightarrow> (extension \<times> ext_dir) res" where
  "initTraceExtension env extName d =
     and_then (find_header extName (xd_list d) None 0) (\<lambda>(found, maxId).
       let (hdr, writable) =
             (case found of
                Some h \<Rightarrow>
                  if xh_name h = [] then (h\<lparr>xh_name := extName, xh_id := maxId + 1\<rparr>, True)
                  else (h, ext_isStale env d h)
              | None \<Rightarrow>
                  (\<lparr>xh_id = maxId + 1, xh_name = extName, xh_state = EXT_UNDEFINED, xh_version = []\<rparr>, True))
       in if \<not> writable then Inr (\<lparr>xt_name = extName, xt_hdr = hdr, xt_writer = None\<rparr>, d)
          else let hdr = hdr\<lparr>xh_state := EXT_INITIALIZING, xh_version := xe_version env\<rparr>;
                   hs = (if found \<noteq> None then map (\<lambda>h. if xh_name h = extName then hdr else h) (xd_list d)
                         else xd_list d @ [hdr]);
                   d = d\<lparr>xd_list := hs, xd_files := (xd_files d)(xh_id hdr := []),
                         xd_locked := insert (xh_id hdr) (xd_locked d)\<rparr>
               in case ser_open (xe_os env) (FileTraceSerializer []) of
                    (s, True) \<Rightarrow>
                      Inr (\<lparr>xt_name = extName, xt_hdr = hdr, xt_writer = Some \<lparr>xw_lastSid = 0, xw_serializer = s\<rparr>\<rparr>, d)
                  | (s, False) \<Rightarrow> Inl (Octf_Exception ''Extension ERROR, cannot open the serializer''))"

definition ext_remove :: "extension \<Rightarrow> ext_dir \<Rightarrow> ext_dir" where
  "ext_remove x d =
     d\<lparr>xd_files := (xd_files d)(xh_id (xt_hdr x) := []),
       xd_list := filter (\<lambda>h. xh_name h \<noteq> xt_name x) (xd_list d)\<rparr>"

text \<open>The destructor: an extension that was not committed is removed, and the lock is released.\<close>

definition ext_destroy :: "extension \<Rightarrow> ext_dir \<Rightarrow> ext_dir" where
  "ext_destroy x d =
     (let d = (if ext_isWritable x \<and> (xh_state (xt_hdr x) = EXT_INITIALIZING \<or> xh_state (xt_hdr x) = EXT_ERROR)
              then ext_remove x d else d)
      in if ext_isWritable x then d\<lparr>xd_locked := xd_locked d - {xh_id (xt_hdr x)}\<rparr> else d)"

subsection \<open>The list stays well formed\<close>

text \<open>Names and identifiers are not shared, and the list is short of the largest identifier.\<close>

definition ext_list_ok :: "ext_header list \<Rightarrow> bool" where
  "ext_list_ok hs \<longleftrightarrow> distinct (map xh_name hs) \<and> distinct (map xh_id hs) \<and> [] \<notin> set (map xh_name hs)"

definition max_id :: "ext_header list \<Rightarrow> u64 \<Rightarrow> u64" where
  "max_id hs m = fold (\<lambda>h m. max m (xh_id h)) hs m"

lemma ext_list_ok_cong:
  assumes "map xh_name hs' = map xh_name hs" "map xh_id hs' = map xh_id hs"
  shows "ext_list_ok hs' \<longleftrightarrow> ext_list_ok hs"
  unfolding ext_list_ok_def assms ..

lemma find_header_found:
  "name \<notin> xh_name ` set hs \<Longrightarrow> find_header name hs found m = Inr (found, max_id hs m)"
  by (induction hs arbitrary: m) (auto simp: max_id_def)

lemma find_header_list:
  "distinct (map xh_name hs) \<Longrightarrow>
     find_header name hs None m = Inr (List.find (\<lambda>h. xh_name h = name) hs, max_id hs m)"
proof (induction hs arbitrary: m)
  case (Cons h hs)
  show ?case
  proof (cases "xh_name h = name")
    case True
    then show ?thesis using Cons.prems find_header_found [of name hs "Some h" "max m (xh_id h)"]
      by (simp add: max_id_def)
  next
    case False
    then show ?thesis using Cons by (simp add: max_id_def)
  qed
qed (simp add: max_id_def)

lemma max_id_bound: "m \<le> max_id hs m" "h \<in> set hs \<Longrightarrow> xh_id h \<le> max_id hs m"
proof (induction hs arbitrary: m)
  case (Cons g hs)
  { case 1 show ?case using Cons(1) [of "max m (xh_id g)"] by (simp add: max_id_def) }
  { case 2
    show ?case
    proof (cases "h = g")
      case True
      then show ?thesis using Cons(1) [of "max m (xh_id g)"] by (simp add: max_id_def)
    next
      case False
      then show ?thesis using Cons(2) [of "max m (xh_id g)"] 2 by (simp add: max_id_def)
    qed }
qed (simp_all add: max_id_def)

lemma find_Some_header: "List.find (\<lambda>h. xh_name h = name) hs = Some h \<Longrightarrow> h \<in> set hs \<and> xh_name h = name"
  by (auto simp: find_Some_iff)

lemma find_None_header: "List.find (\<lambda>h. xh_name h = name) hs = None \<longleftrightarrow> name \<notin> xh_name ` set hs"
  by (auto simp: find_None_iff)

definition starting_header :: "'m ext_env \<Rightarrow> string \<Rightarrow> u64 \<Rightarrow> ext_header" where
  "starting_header env name i = \<lparr>xh_id = i, xh_name = name, xh_state = EXT_INITIALIZING, xh_version = xe_version env\<rparr>"

text \<open>The three outcomes of \<open>initTraceExtension\<close>.\<close>

lemma init_cases:
  assumes "ext_list_ok (xd_list d)" "name \<noteq> []" "os_open (xe_os env)"
  obtains (usable) h where "List.find (\<lambda>h. xh_name h = name) (xd_list d) = Some h" "\<not> ext_isStale env d h"
      "initTraceExtension env name d = Inr (\<lparr>xt_name = name, xt_hdr = h, xt_writer = None\<rparr>, d)"
  | (fresh) i hs where "i = max_id (xd_list d) 0 + 1" "hs = xd_list d @ [starting_header env name i]"
      "name \<notin> xh_name ` set (xd_list d)"
      "initTraceExtension env name d =
        Inr (\<lparr>xt_name = name, xt_hdr = starting_header env name i,
               xt_writer = Some \<lparr>xw_lastSid = 0, xw_serializer = (FileTraceSerializer [])\<lparr>s_open := True\<rparr>\<rparr>\<rparr>,
             d\<lparr>xd_list := hs, xd_files := (xd_files d)(i := []), xd_locked := insert i (xd_locked d)\<rparr>)"
  | (stale) h hs where "List.find (\<lambda>h. xh_name h = name) (xd_list d) = Some h" "ext_isStale env d h"
      "hs = map (\<lambda>g. if xh_name g = name then starting_header env name (xh_id h) else g) (xd_list d)"
      "initTraceExtension env name d =
        Inr (\<lparr>xt_name = name, xt_hdr = starting_header env name (xh_id h),
               xt_writer = Some \<lparr>xw_lastSid = 0, xw_serializer = (FileTraceSerializer [])\<lparr>s_open := True\<rparr>\<rparr>\<rparr>,
             d\<lparr>xd_list := hs, xd_files := (xd_files d)(xh_id h := []), xd_locked := insert (xh_id h) (xd_locked d)\<rparr>)"
proof -
  have f: "find_header name (xd_list d) None 0 =
      Inr (List.find (\<lambda>h. xh_name h = name) (xd_list d), max_id (xd_list d) 0)"
    using assms(1) by (simp add: find_header_list ext_list_ok_def)
  have o: "ser_open (xe_os env) (FileTraceSerializer []) = ((FileTraceSerializer [])\<lparr>s_open := True\<rparr>, True)"
    using assms(3) by (simp add: ser_open_def FileTraceSerializer_def)
  show thesis
  proof (cases "List.find (\<lambda>h. xh_name h = name) (xd_list d)")
    case None
    then show thesis using f o fresh find_None_header [of name "xd_list d"]
      by (simp add: initTraceExtension_def starting_header_def Let_def)
  next
    case (Some h)
    have h: "xh_name h = name" using find_Some_header [OF Some] by blast
    show thesis
    proof (cases "ext_isStale env d h")
      case False
      then show thesis using f Some usable h assms(2) by (simp add: initTraceExtension_def Let_def)
    next
      case True
      show thesis using f o Some True h assms(2)
        by (intro stale [OF Some True refl]) (simp add: initTraceExtension_def Let_def starting_header_def)
    qed
  qed
qed

lemma started_list_ok:
  assumes "ext_list_ok hs" "name \<noteq> []" "name \<notin> xh_name ` set hs" "max_id hs 0 \<noteq> 0xFFFFFFFFFFFFFFFF"
  shows "ext_list_ok (hs @ [starting_header env name (max_id hs 0 + 1)])"
proof -
  have "max_id hs 0 + 1 \<notin> xh_id ` set hs"
  proof
    assume "max_id hs 0 + 1 \<in> xh_id ` set hs"
    then have "max_id hs 0 + 1 \<le> max_id hs 0" using max_id_bound(2) by force
    moreover have "max_id hs 0 < max_id hs 0 + 1"
    proof -
      have "unat (0xFFFFFFFFFFFFFFFF :: u64) = 2 ^ 64 - 1" by simp
      then have "unat (max_id hs 0) \<noteq> 2 ^ 64 - 1" using assms(4) by (metis word_unat_eq_iff)
      moreover have "unat (max_id hs 0) < 2 ^ 64" using unat_u64_bound [of "max_id hs 0"] by simp
      ultimately have "unat (max_id hs 0) + 1 < 2 ^ 64" by linarith
      then have "no_wrap (max_id hs 0) 1" by (simp add: no_wrap_def)
      then show ?thesis by (simp add: word_less_nat_alt u64_add_no_wrap)
    qed
    ultimately show False by simp
  qed
  then show ?thesis using assms(1-3) by (auto simp: ext_list_ok_def starting_header_def)
qed

lemma restarted_list:
  assumes "List.find (\<lambda>h. xh_name h = name) hs = Some h"
  shows "map xh_name (map (\<lambda>g. if xh_name g = name then starting_header env name (xh_id h) else g) hs) = map xh_name hs"
    "distinct (map xh_name hs) \<Longrightarrow>
     map xh_id (map (\<lambda>g. if xh_name g = name then starting_header env name (xh_id h) else g) hs) = map xh_id hs"
proof -
  show "map xh_name (map (\<lambda>g. if xh_name g = name then starting_header env name (xh_id h) else g) hs) = map xh_name hs"
    by (auto simp: starting_header_def)
  assume d: "distinct (map xh_name hs)"
  have "g = h" if "g \<in> set hs" "xh_name g = name" for g
    using find_Some_header [OF assms] d that by (auto simp: distinct_map inj_on_def)
  then show "map xh_id (map (\<lambda>g. if xh_name g = name then starting_header env name (xh_id h) else g) hs) = map xh_id hs"
    by (auto simp: starting_header_def)
qed

subsection \<open>Writing and reading the pairs\<close>

fun ext_write_all :: "'m ext_env \<Rightarrow> (u64 \<times> 'm) list \<Rightarrow> ext_writer \<Rightarrow> ext_writer \<times> unit res" where
  "ext_write_all env [] w = (w, Inr ())"
| "ext_write_all env ((sid, m) # ws) w =
     (case ext_write env sid m w of
        (w, Inl e) \<Rightarrow> (w, Inl e)
      | (w, Inr _) \<Rightarrow> ext_write_all env ws w)"

lemma ext_read_shrinks:
  assumes "ext_read env r = (r', Inr p)"
  shows "length (rd_bytes (xr_file r')) < length (rd_bytes (xr_file r))"
proof -
  obtain r1 sid where r1: "getNextSid env r = (r1, Inr sid)"
    using assms by (auto simp: ext_read_def split: prod.splits sum.splits)
  have "length (rd_bytes (xr_file r1)) \<le> length (rd_bytes (xr_file r))"
  proof (cases "xr_hasSid r")
    case True
    then show ?thesis using r1 by (simp add: getNextSid_def)
  next
    case False
    then obtain f where f: "readTraceEvent (xe_sid_parse env) (xr_file r) = (f, Inr sid)" "xr_file r1 = f"
      using r1 by (auto simp: getNextSid_def split: prod.splits sum.splits)
    show ?thesis using read_nonempty [OF f(1)] f(2) by simp
  qed
  moreover obtain f m where f: "readTraceEvent (xe_parse env) (xr_file r1) = (f, Inr m)" "xr_file r' = f"
    using assms r1 by (auto simp: ext_read_def split: prod.splits sum.splits)
  ultimately show ?thesis using read_nonempty [OF f(1)] by simp
qed

text \<open>Reading while there is a next pair, as the users of a reader do.\<close>

function ext_read_all :: "'m ext_env \<Rightarrow> ext_reader \<Rightarrow> ext_reader \<times> (u64 \<times> 'm) list res" where
  "ext_read_all env r =
     (if \<not> ext_hasNext r then (r, Inr [])
      else case ext_read env r of
             (r', Inl e) \<Rightarrow> (r', Inl e)
           | (r', Inr p) \<Rightarrow>
               (case ext_read_all env r' of
                  (r'', Inl e) \<Rightarrow> (r'', Inl e)
                | (r'', Inr ps) \<Rightarrow> (r'', Inr (p # ps))))"
  by pat_completeness auto

termination
  by (relation "measure (\<lambda>(env, r). length (rd_bytes (xr_file r)))") (auto dest: ext_read_shrinks [OF sym])

declare ext_read_all.simps [simp del]

text \<open>What protobuf documents of a pair with its bytes: they are given and parse back.\<close>

definition ext_pair_ok :: "'m ext_env \<Rightarrow> u64 \<times> 'm \<Rightarrow> u8 list \<times> u8 list \<Rightarrow> bool" where
  "ext_pair_ok env p b \<longleftrightarrow>
     serializes (xe_sid_size env) (xe_sid_bytes env) (fst p) (fst b) \<and> xe_sid_parse env (fst b) = Some (fst p) \<and>
     serializes (xe_size env) (xe_bytes env) (snd p) (snd b) \<and> xe_parse env (snd b) = Some (snd p)"

definition pair_frames :: "u8 list \<times> u8 list \<Rightarrow> u8 list" where
  "pair_frames b = frame (fst b) @ frame (snd b)"

definition pair_room :: "u8 list \<times> u8 list \<Rightarrow> nat" where
  "pair_room b = length (fst b) + length (snd b) + 10"

lemma ext_write_ok:
  assumes "xw_lastSid w \<le> sid" "room (xe_os env) (unat (s_dataOffset (xw_serializer w)) + pair_room b)"
    "os_good (xe_os env)" "ser_ok (xw_serializer w)" "ext_pair_ok env (sid, m) b"
  shows "\<exists>w'. ext_write env sid m w = (w', Inr ()) \<and> xw_lastSid w' = sid \<and> ser_ok (xw_serializer w') \<and>
    ser_data (xw_serializer w') = ser_data (xw_serializer w) @ pair_frames b \<and>
    s_open (xw_serializer w') = s_open (xw_serializer w) \<and>
    unat (s_dataOffset (xw_serializer w')) \<le> unat (s_dataOffset (xw_serializer w)) + pair_room b"
proof -
  let ?s = "xw_serializer w"
  have ok: "serializes (xe_sid_size env) (xe_sid_bytes env) sid (fst b)"
      "serializes (xe_size env) (xe_bytes env) m (snd b)"
    using assms(5) by (simp_all add: ext_pair_ok_def)
  have r1: "room (xe_os env) (unat (s_dataOffset ?s) + length (fst b) + 5)"
    by (rule room_mono [OF assms(2)]) (simp add: pair_room_def)
  obtain s1 where s1: "ser_serialize (xe_sid_size env) (xe_sid_bytes env) (xe_os env) sid ?s = (s1, Inr True)"
      "ser_ok s1" "ser_data s1 = ser_data ?s @ frame (fst b)" "s_open s1 = s_open ?s"
      "unat (s_dataOffset s1) = unat (s_dataOffset ?s) + length (frame (fst b))"
    by (rule ser_serialize_appends [OF r1 assms(3,4) ok(1)])
  have fl: "length (frame (fst b)) \<le> length (fst b) + 5" "length (frame (snd b)) \<le> length (snd b) + 5"
    by (rule frame_length(2))+
  have r2: "room (xe_os env) (unat (s_dataOffset s1) + length (snd b) + 5)"
    by (rule room_mono [OF assms(2)]) (use s1(5) fl(1) in \<open>simp add: pair_room_def\<close>)
  obtain s2 where s2: "ser_serialize (xe_size env) (xe_bytes env) (xe_os env) m s1 = (s2, Inr True)"
      "ser_ok s2" "ser_data s2 = ser_data s1 @ frame (snd b)" "s_open s2 = s_open s1"
      "unat (s_dataOffset s2) = unat (s_dataOffset s1) + length (frame (snd b))"
    by (rule ser_serialize_appends [OF r2 assms(3) s1(2) ok(2)])
  have "ext_write env sid m w = (w\<lparr>xw_serializer := s2, xw_lastSid := sid\<rparr>, Inr ())"
    using assms(1) s1(1) s2(1) by (simp add: ext_write_def)
  then show ?thesis using s1 s2 fl by (simp add: pair_frames_def pair_room_def)
qed

lemma ext_write_all_ok:
  assumes "list_all2 (ext_pair_ok env) ws bss" "os_good (xe_os env)" "sorted (map fst ws)"
    "\<forall>p \<in> set ws. xw_lastSid w \<le> fst p" "ser_ok (xw_serializer w)"
    "room (xe_os env) (unat (s_dataOffset (xw_serializer w)) + sum_list (map pair_room bss))"
  shows "\<exists>w'. ext_write_all env ws w = (w', Inr ()) \<and> ser_ok (xw_serializer w') \<and>
    s_open (xw_serializer w') = s_open (xw_serializer w) \<and>
    ser_data (xw_serializer w') = ser_data (xw_serializer w) @ concat (map pair_frames bss)"
  using assms(1,3-6)
proof (induction ws bss arbitrary: w rule: list_all2_induct)
  case (Cons p ws b bss)
  obtain sid m where p: "p = (sid, m)" by (cases p)
  have "room (xe_os env) (unat (s_dataOffset (xw_serializer w)) + pair_room b)"
    by (rule room_mono [OF Cons.prems(4)]) simp
  then obtain w1 where w1: "ext_write env sid m w = (w1, Inr ())" "xw_lastSid w1 = sid" "ser_ok (xw_serializer w1)"
      "ser_data (xw_serializer w1) = ser_data (xw_serializer w) @ pair_frames b"
      "s_open (xw_serializer w1) = s_open (xw_serializer w)"
      "unat (s_dataOffset (xw_serializer w1)) \<le> unat (s_dataOffset (xw_serializer w)) + pair_room b"
    using ext_write_ok [of w sid env b m] Cons.prems(2,3) Cons.hyps(1) assms(2) p by auto
  have "room (xe_os env) (unat (s_dataOffset (xw_serializer w1)) + sum_list (map pair_room bss))"
    by (rule room_mono [OF Cons.prems(4)]) (use w1(6) in simp)
  moreover have "\<forall>q \<in> set ws. xw_lastSid w1 \<le> fst q" using Cons.prems(1) p w1(2) by auto
  ultimately obtain w2 where "ext_write_all env ws w1 = (w2, Inr ())" "ser_ok (xw_serializer w2)"
      "s_open (xw_serializer w2) = s_open (xw_serializer w1)"
      "ser_data (xw_serializer w2) = ser_data (xw_serializer w1) @ concat (map pair_frames bss)"
    using Cons.IH [of w1] Cons.prems(1) w1(3) by auto
  then show ?case using w1 p by simp
qed simp

lemma ext_read_all_frames:
  assumes "list_all2 (ext_pair_ok env) ws bss" "rd_ready (xr_file r)" "\<not> xr_hasSid r"
    "rd_bytes (xr_file r) = concat (map pair_frames bss)"
  shows "\<exists>r'. ext_read_all env r = (r', Inr ws) \<and> \<not> ext_hasNext r'"
  using assms
proof (induction ws bss arbitrary: r rule: list_all2_induct)
  case Nil
  then show ?case by (simp add: ext_read_all.simps ext_hasNext_def rd_isFinished_def)
next
  case (Cons p ws b bss)
  obtain sid m where p: "p = (sid, m)" by (cases p)
  have ok: "xe_sid_parse env (fst b) = Some sid" "length (fst b) < 2 ^ 31"
      "xe_parse env (snd b) = Some m" "length (snd b) < 2 ^ 31"
    using Cons.hyps(1) p by (auto simp: ext_pair_ok_def serializes_def)
  let ?rest = "concat (map pair_frames bss)"
  have b0: "rd_bytes (xr_file r) = frame (fst b) @ (frame (snd b) @ ?rest)"
    using Cons.prems(3) pair_frames_def [of b] by simp
  obtain f1 where f1: "readTraceEvent (xe_sid_parse env) (xr_file r) = (f1, Inr sid)"
      "rd_bytes f1 = frame (snd b) @ ?rest" "rd_ready f1"
    using read_frame [where P = "xe_sid_parse env", OF Cons.prems(1) b0 ok(1,2)] by blast
  obtain f2 where f2: "readTraceEvent (xe_parse env) f1 = (f2, Inr m)" "rd_bytes f2 = ?rest" "rd_ready f2"
    using read_frame [where P = "xe_parse env", OF f1(3,2) ok(3,4)] by blast
  let ?r = "r\<lparr>xr_file := f2, xr_sid := sid, xr_hasSid := False\<rparr>"
  have rd: "ext_read env r = (?r, Inr p)"
    using f1(1) f2(1) Cons.prems(2) p by (simp add: ext_read_def getNextSid_def)
  have "frame (fst b) \<noteq> []" using frame_length(1) [of "fst b"] by (metis list.size(3) not_less0)
  then have "ext_hasNext r" using b0 by (simp add: ext_hasNext_def rd_isFinished_def)
  moreover obtain r' where "ext_read_all env ?r = (r', Inr ws)" "\<not> ext_hasNext r'"
    using Cons.IH [of ?r] f2 by auto
  ultimately show ?case using rd by (subst ext_read_all.simps) simp
qed

subsection \<open>The properties\<close>

lemma ready_first:
  assumes "List.find (\<lambda>h. xh_name h = name) hs = Some h"
  shows "\<exists>hs'. set_first_ready name hs = Some hs' \<and>
    List.find (\<lambda>h. xh_name h = name) hs' = Some (h\<lparr>xh_state := EXT_READY\<rparr>) \<and>
    map xh_name hs' = map xh_name hs \<and> map xh_id hs' = map xh_id hs"
  using assms
proof (induction hs)
  case (Cons g hs)
  show ?case
  proof (cases "xh_name g = name")
    case True
    then show ?thesis using Cons.prems by simp
  next
    case False
    then obtain hs' where "set_first_ready name hs = Some hs'"
        "List.find (\<lambda>h. xh_name h = name) hs' = Some (h\<lparr>xh_state := EXT_READY\<rparr>)"
        "map xh_name hs' = map xh_name hs" "map xh_id hs' = map xh_id hs"
      using Cons by auto
    then show ?thesis using False by simp
  qed
qed simp

text \<open>An opened writer is at the start of an empty file and has its header in the list.\<close>

lemma opened_writer:
  assumes "ext_list_ok (xd_list d)" "name \<noteq> []" "os_open (xe_os env)" "max_id (xd_list d) 0 \<noteq> 0xFFFFFFFFFFFFFFFF"
    "initTraceExtension env name d = Inr (x, d1)" "xt_writer x = Some w"
  shows "w = \<lparr>xw_lastSid = 0, xw_serializer = (FileTraceSerializer [])\<lparr>s_open := True\<rparr>\<rparr> \<and> xt_name x = name \<and>
    xt_hdr x = starting_header env name (xh_id (xt_hdr x)) \<and> ext_list_ok (xd_list d1) \<and>
    List.find (\<lambda>h. xh_name h = name) (xd_list d1) = Some (xt_hdr x) \<and>
    xd_locked d1 = insert (xh_id (xt_hdr x)) (xd_locked d) \<and>
    filter (\<lambda>h. xh_name h \<noteq> name) (xd_list d1) = filter (\<lambda>h. xh_name h \<noteq> name) (xd_list d)"
proof (cases rule: init_cases [OF assms(1-3), case_names usable fresh stale])
  case (usable h)
  then show ?thesis using assms(5,6) by auto
next
  case (fresh i hs)
  have "name \<notin> xh_name ` set gs \<Longrightarrow>
      List.find (\<lambda>h. xh_name h = name) (gs @ [starting_header env name i]) = Some (starting_header env name i)" for gs
    by (induction gs) (auto simp: starting_header_def)
  note this [OF fresh(3)]
  then show ?thesis using fresh assms(5,6) started_list_ok [OF assms(1,2) fresh(3) assms(4), of env]
    by (auto simp: starting_header_def)
next
  case (stale h hs)
  let ?H = "starting_header env name (xh_id h)"
  let ?f = "\<lambda>g. if xh_name g = name then ?H else g"
  have d: "distinct (map xh_name (xd_list d))" using assms(1) by (simp add: ext_list_ok_def)
  have "List.find (\<lambda>h. xh_name h = name) (map ?f gs) = map_option (\<lambda>_. ?H) (List.find (\<lambda>h. xh_name h = name) gs)" for gs
    by (induction gs) (auto simp: starting_header_def)
  then have "List.find (\<lambda>h. xh_name h = name) (map ?f (xd_list d)) = Some ?H" using stale(1) by simp
  moreover have "filter (\<lambda>h. xh_name h \<noteq> name) (map ?f gs) = filter (\<lambda>h. xh_name h \<noteq> name) gs" for gs
    by (induction gs) (auto simp: starting_header_def)
  moreover have "ext_list_ok (map ?f (xd_list d))"
    using assms(1) ext_list_ok_cong [OF restarted_list(1) [OF stale(1)] restarted_list(2) [OF stale(1) d]] by simp
  ultimately show ?thesis using stale assms(5,6) by (auto simp: starting_header_def)
qed

text \<open>
  A caller that gets an extension to write has it alone: until it is committed or
  given up, every other caller gets it neither writable nor ready and changes nothing, whatever
  happens to the other extensions of the directory. Giving it up takes exactly its entry out of
  the list. Names and identifiers stay distinct.
\<close>

theorem one_writer_at_a_time:
  assumes "ext_list_ok (xd_list d)" "name \<noteq> []" "os_open (xe_os env)" "max_id (xd_list d) 0 \<noteq> 0xFFFFFFFFFFFFFFFF"
    and "initTraceExtension env name d = Inr (x, d1)" "ext_isWritable x"
    and "ext_list_ok (xd_list d2)" "List.find (\<lambda>h. xh_name h = name) (xd_list d2) = Some (xt_hdr x)"
      "xh_id (xt_hdr x) \<in> xd_locked d2"
  shows "ext_list_ok (xd_list d1) \<and> List.find (\<lambda>h. xh_name h = name) (xd_list d1) = Some (xt_hdr x) \<and>
    xh_id (xt_hdr x) \<in> xd_locked d1 \<and>
    (\<exists>y. initTraceExtension env name d2 = Inr (y, d2) \<and> \<not> ext_isWritable y \<and> \<not> ext_isReady y) \<and>
    xd_list (ext_destroy x d1) = filter (\<lambda>h. xh_name h \<noteq> name) (xd_list d)"
proof -
  obtain w where "xt_writer x = Some w" using assms(6) by (auto simp: ext_isWritable_def)
  note o = opened_writer [OF assms(1-5) this]
  then have st: "xh_state (xt_hdr x) = EXT_INITIALIZING" "xh_name (xt_hdr x) = name"
    by (auto simp: starting_header_def) (metis ext_header.select_convs(2,3))+
  have "\<not> ext_isStale env d2 (xt_hdr x)" using assms(9) st(1) by (simp add: ext_isStale_def)
  then have "initTraceExtension env name d2 = Inr (\<lparr>xt_name = name, xt_hdr = xt_hdr x, xt_writer = None\<rparr>, d2)"
    using assms(8) by (cases rule: init_cases [OF assms(7,2,3)]) (auto simp: find_None_header [symmetric])
  moreover have "xd_list (ext_destroy x d1) = filter (\<lambda>h. xh_name h \<noteq> name) (xd_list d)"
    using o st(1) assms(6) by (simp add: ext_destroy_def ext_remove_def)
  ultimately show ?thesis using o st(1) by (auto simp: ext_isWritable_def ext_isReady_def)
qed

definition plain_env :: "u8 ext_env" where
  "plain_env =
     \<lparr>xe_os = \<lparr>os_page = 4096, os_open = True, os_fallocate = (\<lambda>_ _. True), os_mmap = (\<lambda>_ _. True),
        os_ftruncate = True, os_fchmod = True, os_fsync = True, os_close = True\<rparr>,
      xe_sid_size = (\<lambda>_. 1), xe_sid_bytes = (\<lambda>v. Some [ucast v]), xe_sid_parse = (\<lambda>bs. Some (ucast (hd bs))),
      xe_size = (\<lambda>_. 1), xe_bytes = (\<lambda>m. Some [m]), xe_parse = (\<lambda>bs. Some (hd bs)),
      xe_file = (\<lambda>bs. \<lparr>tf_bytes = Some bs, tf_stat = True, tf_mmap = True\<rparr>), xe_version = ''22.3''\<rparr>"

definition empty_dir :: ext_dir where
  "empty_dir = \<lparr>xd_list = [], xd_files = (\<lambda>_. []), xd_locked = {}\<rparr>"

lemma first_extension:
  "\<exists>x d1 w. initTraceExtension plain_env ''LRU'' empty_dir = Inr (x, d1) \<and> xt_writer x = Some w \<and>
     ext_list_ok (xd_list d1) \<and> List.find (\<lambda>h. xh_name h = ''LRU'') (xd_list d1) = Some (xt_hdr x) \<and>
     xh_id (xt_hdr x) \<in> xd_locked d1"
  by (simp add: initTraceExtension_def plain_env_def empty_dir_def ser_open_def FileTraceSerializer_def ext_list_ok_def Let_def)

lemma one_writer_at_a_time_witness:
  "\<exists>x d1 y. initTraceExtension plain_env ''LRU'' empty_dir = Inr (x, d1) \<and> ext_isWritable x \<and>
     initTraceExtension plain_env ''LRU'' d1 = Inr (y, d1) \<and> \<not> ext_isWritable y \<and> xd_list (ext_destroy x d1) = []"
proof -
  obtain x d1 w where i: "initTraceExtension plain_env ''LRU'' empty_dir = Inr (x, d1)" "xt_writer x = Some w"
      "ext_list_ok (xd_list d1)" "List.find (\<lambda>h. xh_name h = ''LRU'') (xd_list d1) = Some (xt_hdr x)"
      "xh_id (xt_hdr x) \<in> xd_locked d1"
    using first_extension by blast
  then have "ext_isWritable x" by (simp add: ext_isWritable_def)
  then show ?thesis
    using one_writer_at_a_time [OF _ _ _ _ i(1) _ i(3-5)] i(1)
    by (auto simp: ext_list_ok_def empty_dir_def plain_env_def max_id_def)
qed

text \<open>
  Property C29. What is written into an extension and committed is read back: a later caller of
  the same version gets the extension ready and not writable, and its reader gives all pairs of
  sequence number and message in the order they were written, and no more.
\<close>

theorem extension_round_trip:
  assumes "ext_list_ok (xd_list d)" "name \<noteq> []" "max_id (xd_list d) 0 \<noteq> 0xFFFFFFFFFFFFFFFF" "os_good (xe_os env)"
    and "\<forall>bs. xe_file env bs = \<lparr>tf_bytes = Some bs, tf_stat = True, tf_mmap = True\<rparr>"
    and "initTraceExtension env name d = Inr (x, d1)" "xt_writer x = Some w"
    and "list_all2 (ext_pair_ok env) ws bss" "sorted (map fst ws)" "room (xe_os env) (sum_list (map pair_room bss))"
  shows "\<exists>w' x' d2 y r r'. ext_write_all env ws w = (w', Inr ()) \<and>
    ext_commit env (x\<lparr>xt_writer := Some w'\<rparr>) d1 = (x', d2, Inr ()) \<and>
    initTraceExtension env name (ext_destroy x' d2) = Inr (y, ext_destroy x' d2) \<and>
    ext_isReady y \<and> \<not> ext_isWritable y \<and> ext_list_ok (xd_list (ext_destroy x' d2)) \<and>
    ext_getReader env (ext_destroy x' d2) y = Inr r \<and> ext_read_all env r = (r', Inr ws) \<and> \<not> ext_hasNext r'"
proof -
  have op: "os_open (xe_os env)" using assms(4) by (simp add: os_good_def)
  note o = opened_writer [OF assms(1,2) op assms(3,6,7)]
  let ?i = "xh_id (xt_hdr x)"
  have w0: "ser_ok (xw_serializer w)" "ser_data (xw_serializer w) = []" "s_open (xw_serializer w)"
      "unat (s_dataOffset (xw_serializer w)) = 0" "xw_lastSid w = 0"
    using o new_serializer_ok [of "[]"] by (auto simp: ser_ok_def ser_data_def FileTraceSerializer_def)
  obtain w' where w': "ext_write_all env ws w = (w', Inr ())" "ser_ok (xw_serializer w')" "s_open (xw_serializer w')"
      "ser_data (xw_serializer w') = concat (map pair_frames bss)"
    using ext_write_all_ok [OF assms(8,4,9), of w] w0 assms(10) by auto
  obtain s where s: "ser_close (xe_os env) (xw_serializer w') = (s, True)" "s_file s = concat (map pair_frames bss)"
    using close_cuts [OF assms(4) w'(2,3)] w'(4) by auto
  obtain hs where hs: "set_first_ready name (xd_list d1) = Some hs"
      "List.find (\<lambda>h. xh_name h = name) hs = Some ((xt_hdr x)\<lparr>xh_state := EXT_READY\<rparr>)"
      "map xh_name hs = map xh_name (xd_list d1)" "map xh_id hs = map xh_id (xd_list d1)"
    using ready_first o by blast
  let ?d2 = "d1\<lparr>xd_files := (xd_files d1)(?i := concat (map pair_frames bss)), xd_list := hs\<rparr>"
  let ?x' = "x\<lparr>xt_writer := Some (w'\<lparr>xw_serializer := s\<rparr>), xt_hdr := (xt_hdr x)\<lparr>xh_state := EXT_READY\<rparr>\<rparr>"
  have c: "ext_commit env (x\<lparr>xt_writer := Some w'\<rparr>) d1 = (?x', ?d2, Inr ())"
    using s hs(1) o by (simp add: ext_commit_def Let_def)
  let ?d3 = "ext_destroy ?x' ?d2"
  let ?y = "\<lparr>xt_name = name, xt_hdr = (xt_hdr x)\<lparr>xh_state := EXT_READY\<rparr>, xt_writer = None\<rparr>"
  have d3: "xd_list ?d3 = hs" "xd_files ?d3 ?i = concat (map pair_frames bss)"
    by (simp_all add: ext_destroy_def ext_isWritable_def)
  have lok: "ext_list_ok (xd_list ?d3)" using o ext_list_ok_cong [OF hs(3,4)] by (simp add: d3(1))
  have "xh_version (xt_hdr x) = xe_version env" using o by (metis ext_header.select_convs(4) starting_header_def)
  then have "\<not> ext_isStale env ?d3 ((xt_hdr x)\<lparr>xh_state := EXT_READY\<rparr>)" by (simp add: ext_isStale_def)
  then have y: "initTraceExtension env name ?d3 = Inr (?y, ?d3)"
    using hs(2) by (cases rule: init_cases [OF lok assms(2) op]) (auto simp: d3(1) find_None_header [symmetric])
  obtain f where f: "rd_init (xe_file env (xd_files ?d3 ?i)) (TraceFileReader 0) = (f, [], Inr ())"
      "rd_bytes f = concat (map pair_frames bss)" "rd_ready f"
    using init_reads_file [of "xe_file env (xd_files ?d3 ?i)" "xd_files ?d3 ?i" 0] assms(5) d3(2) by auto
  let ?r = "\<lparr>xr_file = f, xr_sid = 0, xr_hasSid = False\<rparr>"
  have "ext_getReader env ?d3 ?y = Inr ?r" using f(1) by (simp add: ext_getReader_def ext_isReady_def)
  moreover obtain r' where "ext_read_all env ?r = (r', Inr ws)" "\<not> ext_hasNext r'"
    using ext_read_all_frames [OF assms(8), of ?r] f by auto
  ultimately show ?thesis using w'(1) c y lok
    by (intro exI [of _ w'] exI [of _ ?x'] exI [of _ ?d2] exI [of _ ?y] exI [of _ ?r] exI [of _ r'])
      (simp add: ext_isReady_def ext_isWritable_def)
qed

lemma extension_round_trip_witness:
  "\<exists>x d1 w w' x' d2 y r r'. initTraceExtension plain_env ''LRU'' empty_dir = Inr (x, d1) \<and> xt_writer x = Some w \<and>
     ext_write_all plain_env [(1, 7), (4, 9)] w = (w', Inr ()) \<and>
     ext_commit plain_env (x\<lparr>xt_writer := Some w'\<rparr>) d1 = (x', d2, Inr ()) \<and>
     initTraceExtension plain_env ''LRU'' (ext_destroy x' d2) = Inr (y, ext_destroy x' d2) \<and>
     ext_getReader plain_env (ext_destroy x' d2) y = Inr r \<and> ext_read_all plain_env r = (r', Inr [(1, 7), (4, 9)])"
proof -
  obtain x d1 w where i: "initTraceExtension plain_env ''LRU'' empty_dir = Inr (x, d1)" "xt_writer x = Some w"
    using first_extension by blast
  have p: "list_all2 (ext_pair_ok plain_env) [(1, 7), (4, 9)] [([1], [7]), ([4], [9])]"
    by (simp add: ext_pair_ok_def serializes_def plain_env_def)
  have "ext_list_ok (xd_list empty_dir)" "max_id (xd_list empty_dir) 0 \<noteq> 0xFFFFFFFFFFFFFFFF" "os_good (xe_os plain_env)"
      "\<forall>bs. xe_file plain_env bs = \<lparr>tf_bytes = Some bs, tf_stat = True, tf_mmap = True\<rparr>"
      "room (xe_os plain_env) (sum_list (map pair_room [([1], [7]), ([4], [9])]))" "sorted (map fst [(1 :: u64, 7 :: u8), (4, 9)])"
    by (simp_all add: ext_list_ok_def empty_dir_def max_id_def os_good_def plain_env_def room_def pair_room_def)
  from extension_round_trip [OF this(1) _ this(2-4) i p this(6,5)] i show ?thesis by blast
qed

end
