(* ===== verification/Trace_Extension_Set.thy ===== *)
theory Trace_Extension_Set
  imports Trace_Extension "HOL-Library.Multiset" "HOL-Library.Char_ord" "HOL-Library.List_Lexorder"
begin

section \<open>Several extensions read as one\<close>

text \<open>
  \<open>TraceExtensionSet\<close> of source/octf/trace/parser/extensions/TraceExtensionSet.cpp reads several
  extensions of a trace in the order of their sequence numbers. Its \<open>std::set\<close> is the sorted list
  of the entries; an extension stands for its name and its reader, which an entry shares.
\<close>

record set_entry =
  se_name :: string
  se_sid :: u64
  se_reader :: ext_reader

definition entry_less :: "set_entry \<Rightarrow> set_entry \<Rightarrow> bool" where
  "entry_less a b \<longleftrightarrow> (if se_sid a \<noteq> se_sid b then se_sid a < se_sid b else se_name a < se_name b)"

fun entry_insert :: "set_entry \<Rightarrow> set_entry list \<Rightarrow> set_entry list" where
  "entry_insert x [] = [x]"
| "entry_insert x (y # ys) =
     (if entry_less y x then y # entry_insert x ys else if entry_less x y then x # y # ys else y # ys)"

definition addTraceExtension ::
    "'m ext_env \<Rightarrow> string \<Rightarrow> ext_reader \<Rightarrow> set_entry list \<Rightarrow> set_entry list \<times> unit res" where
  "addTraceExtension env name r S =
     (if \<not> ext_hasNext r then (S, Inr ())
      else case getNextSid env r of
             (_, Inl e) \<Rightarrow> (S, Inl e)
           | (r, Inr sid) \<Rightarrow> (entry_insert \<lparr>se_name = name, se_sid = sid, se_reader = r\<rparr> S, Inr ()))"

definition set_hasNext :: "set_entry list \<Rightarrow> bool" where
  "set_hasNext S \<longleftrightarrow> S \<noteq> []"

definition set_read :: "'m ext_env \<Rightarrow> set_entry list \<Rightarrow> set_entry list \<times> (u64 \<times> 'm) res" where
  "set_read env S =
     (case S of
        [] \<Rightarrow> (S, Inl (Undefined_Behaviour ''begin of an empty set''))
      | e # S \<Rightarrow>
          (case ext_read env (se_reader e) of
             (_, Inl f) \<Rightarrow> (S, Inl f)
           | (r, Inr p) \<Rightarrow>
               if \<not> ext_hasNext r then (S, Inr p)
               else case getNextSid env r of
                      (_, Inl f) \<Rightarrow> (S, Inl f)
                    | (r, Inr sid) \<Rightarrow> (entry_insert (e\<lparr>se_sid := sid, se_reader := r\<rparr>) S, Inr p)))"

definition set_getNextSid :: "'m ext_env \<Rightarrow> set_entry list \<Rightarrow> u64 res" where
  "set_getNextSid env S =
     (case S of [] \<Rightarrow> Inl (Octf_Exception ''ERROR, No more trace extension'')
      | e # _ \<Rightarrow> snd (getNextSid env (se_reader e)))"

subsection \<open>What a reader still has to give\<close>

definition yields :: "'m ext_env \<Rightarrow> ext_reader \<Rightarrow> (u64 \<times> 'm) list \<Rightarrow> bool" where
  "yields env r ws \<longleftrightarrow> (\<exists>r'. ext_read_all env r = (r', Inr ws))"

lemma yields_Nil: "yields env r [] \<longleftrightarrow> \<not> ext_hasNext r"
  unfolding yields_def by (subst ext_read_all.simps) (auto split: prod.splits sum.splits)

lemma yields_Cons:
  "yields env r (p # ws) \<longleftrightarrow> ext_hasNext r \<and> (\<exists>r'. ext_read env r = (r', Inr p) \<and> yields env r' ws)"
  unfolding yields_def by (subst ext_read_all.simps) (auto split: prod.splits sum.splits)

lemma yields_hasNext: "yields env r ws \<Longrightarrow> ext_hasNext r \<longleftrightarrow> ws \<noteq> []"
  by (cases ws) (simp_all add: yields_Nil yields_Cons)

lemma read_needs_bytes: "readTraceEvent P f = (f', Inr m) \<Longrightarrow> \<not> rd_isFinished f"
  by (auto simp: readTraceEvent_def split: if_splits)

text \<open>Looking at the next sequence number takes nothing away.\<close>

lemma next_sid_keeps:
  assumes "yields env r (p # ws)"
  obtains r' where "getNextSid env r = (r', Inr (fst p))" "yields env r' (p # ws)" "xr_hasSid r'"
proof -
  obtain r2 where r2: "ext_read env r = (r2, Inr p)" "yields env r2 ws" using assms by (auto simp: yields_Cons)
  then obtain r1 where r1: "getNextSid env r = (r1, Inr (fst p))"
    by (auto simp: ext_read_def split: prod.splits sum.splits)
  have h: "xr_hasSid r1 \<and> xr_sid r1 = fst p"
    using r1 by (auto simp: getNextSid_def split: if_splits prod.splits sum.splits)
  then have g: "getNextSid env r1 = (r1, Inr (fst p))" by (simp add: getNextSid_def)
  then have e: "ext_read env r1 = ext_read env r" using r1 by (simp add: ext_read_def)
  obtain f m where "readTraceEvent (xe_parse env) (xr_file r1) = (f, Inr m)"
    using r2(1) r1 by (auto simp: ext_read_def split: prod.splits sum.splits)
  then have "ext_hasNext r1" using read_needs_bytes by (simp add: ext_hasNext_def)
  then show thesis using that r1 h e r2 by (simp add: yields_Cons)
qed

subsection \<open>The entries and what they stand for\<close>

definition entry_of :: "'m ext_env \<Rightarrow> set_entry \<Rightarrow> (u64 \<times> 'm) list \<Rightarrow> bool" where
  "entry_of env e ws \<longleftrightarrow> ws \<noteq> [] \<and> se_sid e = fst (hd ws) \<and> yields env (se_reader e) ws \<and> sorted (map fst ws)"

definition set_ok :: "'m ext_env \<Rightarrow> set_entry list \<Rightarrow> (u64 \<times> 'm) list list \<Rightarrow> bool" where
  "set_ok env S wss \<longleftrightarrow> list_all2 (entry_of env) S wss \<and> sorted (map se_sid S) \<and> distinct (map se_name S)"

lemma entry_insert_ok:
  assumes "set_ok env S wss" "entry_of env e ws" "se_name e \<notin> se_name ` set S"
  shows "\<exists>wss'. set_ok env (entry_insert e S) wss' \<and> mset (concat wss') = mset ws + mset (concat wss) \<and>
    se_name ` set (entry_insert e S) = insert (se_name e) (se_name ` set S) \<and>
    se_sid ` set (entry_insert e S) = insert (se_sid e) (se_sid ` set S)"
  using assms
proof (induction S arbitrary: wss)
  case Nil
  then show ?case by (intro exI [of _ "[ws]"]) (simp add: set_ok_def)
next
  case (Cons y S)
  obtain v vs where wss: "wss = v # vs" "entry_of env y v" "set_ok env S vs"
    using Cons.prems(1) by (auto simp: set_ok_def list_all2_Cons1)
  show ?case
  proof (cases "entry_less y e")
    case True
    then have le: "se_sid y \<le> se_sid e" by (auto simp: entry_less_def split: if_splits)
    obtain vs' where vs': "set_ok env (entry_insert e S) vs'" "mset (concat vs') = mset ws + mset (concat vs)"
        "se_name ` set (entry_insert e S) = insert (se_name e) (se_name ` set S)"
        "se_sid ` set (entry_insert e S) = insert (se_sid e) (se_sid ` set S)"
      using Cons.IH [OF wss(3) Cons.prems(2)] Cons.prems(3) by auto
    have "set_ok env (y # entry_insert e S) (v # vs')"
      using vs' Cons.prems(1,3) wss le by (auto simp: set_ok_def)
    then show ?thesis using True vs' wss(1) by (intro exI [of _ "v # vs'"]) auto
  next
    case False
    then have "entry_less e y" "se_sid e \<le> se_sid y"
      using Cons.prems(3) by (auto simp: entry_less_def split: if_splits)
    moreover have "set_ok env (e # y # S) (ws # wss)"
      using Cons.prems wss \<open>se_sid e \<le> se_sid y\<close> by (auto simp: set_ok_def)
    ultimately show ?thesis using False by (intro exI [of _ "ws # wss"]) simp
  qed
qed

lemma set_read_ok:
  assumes "set_ok env S wss" "S \<noteq> []"
  shows "\<exists>S' p wss'. set_read env S = (S', Inr p) \<and> set_ok env S' wss' \<and>
    mset (concat wss) = add_mset p (mset (concat wss')) \<and> (\<forall>q \<in> set (concat wss). fst p \<le> fst q)"
proof -
  obtain e S1 where S: "S = e # S1" using assms(2) by (cases S) auto
  obtain v vs where wss: "wss = v # vs" "entry_of env e v" "set_ok env S1 vs"
    using assms(1) S by (auto simp: set_ok_def list_all2_Cons1)
  obtain p ws where v: "v = p # ws" using wss(2) by (cases v) (auto simp: entry_of_def)
  obtain r where r: "ext_read env (se_reader e) = (r, Inr p)" "yields env r ws"
    using wss(2) v by (auto simp: entry_of_def yields_Cons)
  have le: "fst p \<le> fst q" if mem: "q \<in> set (concat wss)" for q
  proof -
    obtain u where u: "u \<in> set wss" "q \<in> set u" using mem by auto
    then obtain i where "i < length wss" "u = wss ! i" by (auto simp: in_set_conv_nth)
    then have "S ! i \<in> set S" "entry_of env (S ! i) u"
      using assms(1) by (auto simp: set_ok_def list_all2_conv_all_nth)
    then obtain x where x: "x \<in> set S" "entry_of env x u" by blast
    have "fst p = se_sid e" using wss(2) v by (simp add: entry_of_def)
    also have "\<dots> \<le> se_sid x" using assms(1) S x(1) by (auto simp: set_ok_def)
    also have "\<dots> = fst (hd u)" using x(2) by (simp add: entry_of_def)
    also have "\<dots> \<le> fst q" using x(2) u(2) by (cases u) (auto simp: entry_of_def)
    finally show ?thesis .
  qed
  show ?thesis
  proof (cases ws)
    case Nil
    then have "set_read env S = (S1, Inr p)" using r yields_hasNext [OF r(2)] S by (simp add: set_read_def)
    then show ?thesis using wss v Nil le by (intro exI [of _ S1] exI [of _ p] exI [of _ vs]) auto
  next
    case (Cons q ws')
    obtain r' where r': "getNextSid env r = (r', Inr (fst q))" "yields env r' ws"
      using next_sid_keeps [of env r q ws'] r(2) Cons by blast
    let ?e = "e\<lparr>se_sid := fst q, se_reader := r'\<rparr>"
    have "entry_of env ?e ws" using r'(2) Cons wss(2) v by (simp add: entry_of_def)
    moreover have "se_name ?e \<notin> se_name ` set S1" using assms(1) S by (simp add: set_ok_def)
    ultimately obtain wss' where w: "set_ok env (entry_insert ?e S1) wss'" "mset (concat wss') = mset ws + mset (concat vs)"
      using entry_insert_ok [OF wss(3)] by blast
    have "set_read env S = (entry_insert ?e S1, Inr p)"
      using r r'(1) yields_hasNext [OF r(2)] S Cons by (simp add: set_read_def)
    then show ?thesis using w wss(1) v le by (intro exI [of _ "entry_insert ?e S1"] exI [of _ p] exI [of _ wss']) auto
  qed
qed

fun add_all :: "'m ext_env \<Rightarrow> (string \<times> ext_reader) list \<Rightarrow> set_entry list \<Rightarrow> set_entry list \<times> unit res" where
  "add_all env [] S = (S, Inr ())"
| "add_all env ((name, r) # xs) S =
     (case addTraceExtension env name r S of
        (S, Inl e) \<Rightarrow> (S, Inl e)
      | (S, Inr _) \<Rightarrow> add_all env xs S)"

text \<open>Reading a number of pairs one after the other.\<close>

fun set_reads :: "'m ext_env \<Rightarrow> nat \<Rightarrow> set_entry list \<Rightarrow> set_entry list \<times> (u64 \<times> 'm) list res" where
  "set_reads env 0 S = (S, Inr [])"
| "set_reads env (Suc n) S =
     (case set_read env S of
        (S, Inl e) \<Rightarrow> (S, Inl e)
      | (S, Inr p) \<Rightarrow>
          (case set_reads env n S of
             (S, Inl e) \<Rightarrow> (S, Inl e)
           | (S, Inr ps) \<Rightarrow> (S, Inr (p # ps))))"

lemma set_reads_ok:
  assumes "set_ok env S wss" "n = length (concat wss)"
  shows "\<exists>S' out. set_reads env n S = (S', Inr out) \<and> \<not> set_hasNext S' \<and> mset out = mset (concat wss) \<and> sorted (map fst out)"
  using assms
proof (induction n arbitrary: S wss)
  case 0
  then have "S = []"
    by (cases S) (auto simp: set_ok_def list_all2_Cons1 entry_of_def)
  then show ?case using 0 by (simp add: set_hasNext_def)
next
  case (Suc n)
  then have "S \<noteq> []" by (auto simp: set_ok_def)
  then obtain S1 p wss1 where s: "set_read env S = (S1, Inr p)" "set_ok env S1 wss1"
      "mset (concat wss) = add_mset p (mset (concat wss1))" "\<forall>q \<in> set (concat wss). fst p \<le> fst q"
    using set_read_ok [OF Suc.prems(1)] by blast
  have "n = length (concat wss1)" using Suc.prems(2) arg_cong [OF s(3), of size] by simp
  from Suc.IH [OF s(2) this] obtain S2 out where o: "set_reads env n S1 = (S2, Inr out)" "\<not> set_hasNext S2"
      "mset out = mset (concat wss1)" "sorted (map fst out)" by blast
  have "set out \<subseteq> set (concat wss)"
    using s(3) o(3) by (metis set_mset_add_mset_insert set_mset_mset subset_insertI)
  then show ?case using s o by auto
qed

lemma add_all_ok:
  assumes "list_all2 (\<lambda>(_, r) ws. yields env r ws \<and> sorted (map fst ws)) xs wss" "distinct (map fst xs)"
    "set_ok env S vs" "fst ` set xs \<inter> se_name ` set S = {}"
  shows "\<exists>S' vs'. add_all env xs S = (S', Inr ()) \<and> set_ok env S' vs' \<and>
    mset (concat vs') = mset (concat wss) + mset (concat vs)"
  using assms
proof (induction xs wss arbitrary: S vs rule: list_all2_induct)
  case (Cons x xs ws wss)
  obtain name r where x: "x = (name, r)" by (cases x)
  show ?case
  proof (cases ws)
    case Nil
    then have "addTraceExtension env name r S = (S, Inr ())"
      using Cons.hyps(1) x yields_hasNext [of env r ws] by (simp add: addTraceExtension_def)
    then show ?thesis using Cons.IH [of S vs] Cons.prems x Nil by simp
  next
    case (Cons p ws')
    have y: "yields env r (p # ws')" "sorted (map fst (p # ws'))" using Cons.hyps(1) x Cons by auto
    obtain r' where r': "getNextSid env r = (r', Inr (fst p))" "yields env r' (p # ws')"
      by (rule next_sid_keeps [OF y(1)]) blast
    let ?e = "\<lparr>se_name = name, se_sid = fst p, se_reader = r'\<rparr>"
    have "entry_of env ?e ws" using r'(2) y(2) Cons by (simp add: entry_of_def)
    then obtain vs1 where v1: "set_ok env (entry_insert ?e S) vs1" "mset (concat vs1) = mset ws + mset (concat vs)"
        "se_name ` set (entry_insert ?e S) = insert name (se_name ` set S)"
      using entry_insert_ok [OF Cons.prems(2), of ?e ws] Cons.prems(3) x by auto
    have "addTraceExtension env name r S = (entry_insert ?e S, Inr ())"
      using r'(1) yields_hasNext [OF y(1)] by (simp add: addTraceExtension_def)
    moreover obtain S' vs' where "add_all env xs (entry_insert ?e S) = (S', Inr ())" "set_ok env S' vs'"
        "mset (concat vs') = mset (concat wss) + mset (concat vs1)"
      using Cons.IH [OF _ v1(1)] Cons.prems(1,3) v1(3) x by auto
    ultimately show ?thesis using v1(2) x by (intro exI [of _ S'] exI [of _ vs']) simp
  qed
qed auto

subsection \<open>Property\<close>

text \<open>
  Property C30. Extensions with distinct names, each with its pairs in the order of their sequence
  numbers, are read through the set as one extension: all pairs of all of them, ordered by
  sequence number, and then no more.
\<close>

theorem set_merges_extensions:
  assumes "list_all2 (\<lambda>(_, r) ws. yields env r ws \<and> sorted (map fst ws)) xs wss" "distinct (map fst xs)"
  shows "\<exists>S S' out. add_all env xs [] = (S, Inr ()) \<and>
    set_reads env (length (concat wss)) S = (S', Inr out) \<and> \<not> set_hasNext S' \<and>
    mset out = mset (concat wss) \<and> sorted (map fst out)"
proof -
  obtain S vs where S: "add_all env xs [] = (S, Inr ())" "set_ok env S vs" "mset (concat vs) = mset (concat wss)"
    using add_all_ok [OF assms, of "[]" "[]"] by (auto simp: set_ok_def)
  have "length (concat wss) = length (concat vs)" using S(3) by (metis size_mset)
  then show ?thesis using set_reads_ok [OF S(2)] S by metis
qed

definition reader_over :: "u8 list \<Rightarrow> ext_reader" where
  "reader_over bs =
     \<lparr>xr_file = fst (rd_init \<lparr>tf_bytes = Some bs, tf_stat = True, tf_mmap = True\<rparr> (TraceFileReader 0)),
      xr_sid = 0, xr_hasSid = False\<rparr>"

lemma reader_over_yields:
  "list_all2 (ext_pair_ok env) ws bss \<Longrightarrow> yields env (reader_over (concat (map pair_frames bss))) ws"
  using ext_read_all_frames [of env ws bss "reader_over (concat (map pair_frames bss))"]
    init_reads_file [of "\<lparr>tf_bytes = Some (concat (map pair_frames bss)), tf_stat = True, tf_mmap = True\<rparr>" _ 0]
  by (auto simp: yields_def reader_over_def)

lemma set_merges_extensions_witness:
  "\<exists>S S' out. add_all plain_env
       [(''a'', reader_over (concat (map pair_frames [([2], [7]), ([5], [8])]))),
        (''b'', reader_over (concat (map pair_frames [([3], [9])])))] [] = (S, Inr ()) \<and>
     set_reads plain_env 3 S = (S', Inr out) \<and> map fst out = [2, 3, 5]"
proof -
  have "list_all2 (ext_pair_ok plain_env) [(2, 7), (5, 8)] [([2], [7]), ([5], [8])]"
      "list_all2 (ext_pair_ok plain_env) [(3, 9)] [([3], [9])]"
    by (simp_all add: ext_pair_ok_def serializes_def plain_env_def)
  from this [THEN reader_over_yields] have l: "list_all2 (\<lambda>(_, r) ws. yields plain_env r ws \<and> sorted (map fst ws))
      [(''a'', reader_over (concat (map pair_frames [([2], [7]), ([5], [8])]))),
       (''b'', reader_over (concat (map pair_frames [([3], [9])])))] [[(2, 7), (5, 8)], [(3, 9)]]"
    by simp
  have n: "length (concat [[(2 :: u64, 7 :: u8), (5, 8)], [(3, 9)]]) = 3" by simp
  obtain S S' out where o: "add_all plain_env
       [(''a'', reader_over (concat (map pair_frames [([2], [7]), ([5], [8])]))),
        (''b'', reader_over (concat (map pair_frames [([3], [9])])))] [] = (S, Inr ())"
      "set_reads plain_env 3 S = (S', Inr out)" "mset out = mset (concat [[(2, 7), (5, 8)], [(3, 9)]])"
      "sorted (map fst out)"
    using set_merges_extensions [OF l] unfolding n by auto
  have "mset (map fst out) = mset [2, 5, 3]" using o(3) by simp
  then have "map fst out = sort [2, 5, 3]" using o(4) by (intro properties_for_sort [symmetric]) simp_all
  then have "map fst out = [2, 3, 5]" by simp
  then show ?thesis by (intro exI conjI) (rule o(1), rule o(2))
qed

end
