(* ===== verification/File_Operations.thy ===== *)
theory File_Operations
  imports Octf_Prelude
begin

section \<open>Directories\<close>

text \<open>
  The functions of source/octf/utils/FileOperations.cpp that remove, create and list directories.
  The file system is a tree; a path is the list of the names from the root, and a relative path
  starts at the working directory of the process. There are regular files and directories, no
  links, the type of an entry is known from \<open>readdir\<close>, and \<open>readdir\<close> gives the names that were there
  when the directory was opened. Permissions are left out but for the one \<open>removeFile\<close> asks for.
\<close>

datatype fnode = Reg | Dir "(string \<times> fnode) list"

type_synonym fpath = "string list"

fun lookup :: "fnode \<Rightarrow> fpath \<Rightarrow> fnode option" where
  "lookup f [] = Some f"
| "lookup Reg (n # p) = None"
| "lookup (Dir es) (n # p) = (case map_of es n of None \<Rightarrow> None | Some f \<Rightarrow> lookup f p)"

text \<open>The entries of the directory at a path are changed; without a directory nothing is.\<close>

fun change_dir :: "((string \<times> fnode) list \<Rightarrow> (string \<times> fnode) list) \<Rightarrow> fpath \<Rightarrow> fnode \<Rightarrow> fnode" where
  "change_dir g p Reg = Reg"
| "change_dir g [] (Dir es) = Dir (g es)"
| "change_dir g (n # p) (Dir es) = Dir (map (\<lambda>(m, f). (m, if m = n then change_dir g p f else f)) es)"

definition is_directory :: "fnode \<Rightarrow> fpath \<Rightarrow> bool" where
  "is_directory t p \<longleftrightarrow> (case lookup t p of Some (Dir _) \<Rightarrow> True | _ \<Rightarrow> False)"

text \<open>The calls of the system: \<open>mkdir\<close>, \<open>rmdir\<close>, and \<open>remove\<close>, which is one of \<open>unlink\<close> and \<open>rmdir\<close>.\<close>

definition sys_mkdir :: "fpath \<Rightarrow> fnode \<Rightarrow> fnode \<times> bool" where
  "sys_mkdir p t =
     (if p \<noteq> [] \<and> lookup t p = None \<and> is_directory t (butlast p)
      then (change_dir (\<lambda>es. es @ [(last p, Dir [])]) (butlast p) t, True) else (t, False))"

definition sys_remove :: "fpath \<Rightarrow> fnode \<Rightarrow> fnode \<times> bool" where
  "sys_remove p t =
     (if p \<noteq> [] \<and> (lookup t p = Some Reg \<or> lookup t p = Some (Dir []))
      then (change_dir (filter (\<lambda>(m, f). m \<noteq> last p)) (butlast p) t, True) else (t, False))"

definition sys_rmdir :: "fpath \<Rightarrow> fnode \<Rightarrow> fnode \<times> bool" where
  "sys_rmdir p t = (if lookup t p = Some (Dir []) then sys_remove p t else (t, False))"

subsection \<open>Removing\<close>

text \<open>\<open>isType\<close> asks for the bare name of the entry, which the system finds in the working directory.\<close>

definition isType_Directory :: "fpath \<Rightarrow> fnode \<Rightarrow> string \<Rightarrow> bool" where
  "isType_Directory cwd t n \<longleftrightarrow> is_directory t (cwd @ [n])"

text \<open>
  \<open>removeDirectory\<close> with the loop over the entries, \<open>None\<close> when the recursion does not return. The
  recursive call gets the bare name as well.
\<close>

partial_function (option) removeDirectory_from ::
    "fpath \<Rightarrow> fpath \<Rightarrow> string list option \<Rightarrow> fnode \<Rightarrow> (fnode \<times> bool) option" where
  "removeDirectory_from cwd path entries t =
     (case entries of
        None \<Rightarrow>
          (case lookup t path of
             Some (Dir es) \<Rightarrow> removeDirectory_from cwd path (Some (map fst es)) t
           | _ \<Rightarrow> Some (t, False))
      | Some [] \<Rightarrow> Some (sys_rmdir path t)
      | Some (n # ns) \<Rightarrow>
          if isType_Directory cwd t n
          then Option.bind (removeDirectory_from cwd (cwd @ [n]) None t)
                 (\<lambda>r. if snd r then removeDirectory_from cwd path (Some ns) (fst r) else Some (fst r, False))
          else let r = sys_remove (path @ [n]) t
               in if snd r then removeDirectory_from cwd path (Some ns) (fst r) else Some (fst r, False))"

definition removeDirectory :: "fpath \<Rightarrow> fpath \<Rightarrow> fnode \<Rightarrow> (fnode \<times> bool) option" where
  "removeDirectory cwd path t = removeDirectory_from cwd path None t"

definition removeFile :: "bool \<Rightarrow> fpath \<Rightarrow> fpath \<Rightarrow> fnode \<Rightarrow> (fnode \<times> bool) option" where
  "removeFile permitted cwd path t =
     (if \<not> permitted then Some (t, False)
      else case removeDirectory cwd path t of
             None \<Rightarrow> None
           | Some (t, True) \<Rightarrow> Some (t, True)
           | Some (t, False) \<Rightarrow> Some (sys_remove path t))"

subsection \<open>Creating\<close>

text \<open>
  The paths of \<open>createDirectory\<close> are strings, cut at their last slash. The system splits a string
  at the slashes, and empty names do not count.
\<close>

fun split_slashes :: "string \<Rightarrow> string \<Rightarrow> string list" where
  "split_slashes acc [] = [acc]"
| "split_slashes acc (c # s) = (if c = CHR ''/'' then acc # split_slashes [] s else split_slashes (acc @ [c]) s)"

definition path_names :: "string \<Rightarrow> fpath" where
  "path_names s = filter (\<lambda>n. n \<noteq> []) (split_slashes [] s)"

text \<open>
  The system follows a path name by name, from the root or from the working directory. Before every
  name it has to be in a directory; a dot stays there and two dots go to the directory above.
\<close>

fun walk_path :: "fnode \<Rightarrow> fpath \<Rightarrow> string list \<Rightarrow> fpath option" where
  "walk_path t p [] = Some p"
| "walk_path t p (n # ns) =
     (if \<not> is_directory t p then None
      else walk_path t (if n = ''.'' then p else if n = ''..'' then butlast p else p @ [n]) ns)"

definition path_start :: "fpath \<Rightarrow> string \<Rightarrow> fpath" where
  "path_start cwd s = (if s \<noteq> [] \<and> hd s = CHR ''/'' then [] else cwd)"

definition stat_directory :: "fpath \<Rightarrow> string \<Rightarrow> fnode \<Rightarrow> bool" where
  "stat_directory cwd s t =
     (case walk_path t (path_start cwd s) (path_names s) of None \<Rightarrow> False | Some p \<Rightarrow> is_directory t p)"

text \<open>\<open>mkdir\<close> of a path that ends in one or two dots, or of the root, finds that it exists.\<close>

definition mkdir_string :: "fpath \<Rightarrow> string \<Rightarrow> fnode \<Rightarrow> fnode \<times> bool" where
  "mkdir_string cwd s t =
     (let ns = path_names s
      in if ns = [] \<or> last ns = ''.'' \<or> last ns = ''..'' then (t, False)
         else case walk_path t (path_start cwd s) (butlast ns) of
                None \<Rightarrow> (t, False)
              | Some p \<Rightarrow> sys_mkdir (p @ [last ns]) t)"

text \<open>What stands before the last slash.\<close>

definition before_slash :: "string \<Rightarrow> string" where
  "before_slash s = rev (tl (dropWhile (\<lambda>c. c \<noteq> CHR ''/'') (rev s)))"

lemma before_slash_shorter: "CHR ''/'' \<in> set s \<Longrightarrow> length (before_slash s) < length s"
proof -
  assume "CHR ''/'' \<in> set s"
  then have "0 < length s" by auto
  moreover have "length (dropWhile (\<lambda>c. c \<noteq> CHR ''/'') (rev s)) \<le> length s"
    by (metis length_dropWhile_le length_rev)
  ultimately show ?thesis unfolding before_slash_def length_rev length_tl by linarith
qed

function create_directory :: "fpath \<Rightarrow> string \<Rightarrow> fnode \<Rightarrow> fnode \<times> bool" where
  "create_directory cwd childDirectory t =
     (if childDirectory = [] then (t, True)
      else if stat_directory cwd childDirectory t then (t, True)
      else let (t, ok) = (if CHR ''/'' \<in> set childDirectory
             then create_directory cwd (before_slash childDirectory) t else (t, True))
           in if \<not> ok then (t, False) else mkdir_string cwd childDirectory t)"
  by pat_completeness auto

termination
  by (relation "measure (\<lambda>(cwd, s, t). length s)") (simp_all add: before_slash_shorter)

declare create_directory.simps [simp del]

definition createDirectory :: "fpath \<Rightarrow> string \<Rightarrow> fnode \<Rightarrow> fnode \<times> bool" where
  "createDirectory cwd path t = (if path = [] then (t, False) else create_directory cwd path t)"

subsection \<open>Listing\<close>

datatype file_type = FT_Any | FT_Directory | FT_Regular

definition of_type :: "file_type \<Rightarrow> fnode \<Rightarrow> bool" where
  "of_type ty f \<longleftrightarrow> (case ty of FT_Any \<Rightarrow> True | FT_Directory \<Rightarrow> (\<exists>es. f = Dir es) | FT_Regular \<Rightarrow> f = Reg)"

definition readDirectoryContents :: "fnode \<Rightarrow> fpath \<Rightarrow> file_type \<Rightarrow> string list \<times> bool" where
  "readDirectoryContents t path ty =
     (case lookup t path of
        Some (Dir es) \<Rightarrow> (map fst (filter (\<lambda>(n, f). of_type ty f) es), True)
      | _ \<Rightarrow> ([], False))"

lemma lookup_append: "lookup t (p @ q) = (case lookup t p of None \<Rightarrow> None | Some f \<Rightarrow> lookup f q)"
proof (induction t p rule: lookup.induct)
  case (2 n p)
  then show ?case by simp
qed (simp_all split: option.split)

lemma lookup_size: "lookup t p = Some f \<Longrightarrow> p \<noteq> [] \<Longrightarrow> size f < size t"
proof (induction t p rule: lookup.induct)
  case (3 es n p)
  then obtain g where g: "map_of es n = Some g" "lookup g p = Some f" by (auto split: option.splits)
  have "size g < size (Dir es)"
    using map_of_SomeD [OF g(1)] by (induction es) auto
  then show ?case using 3(1) [OF g(1,2)] g(2) by (cases p) auto
qed simp_all

lemma listed_directory:
  assumes "n \<in> set (fst (readDirectoryContents t p FT_Directory))"
  shows "\<exists>es f. lookup t p = Some (Dir es) \<and> (n, f) \<in> set es \<and> (\<exists>fs. f = Dir fs)"
  using assms by (auto simp: readDirectoryContents_def of_type_def split: option.splits fnode.splits)

definition node_size :: "fnode \<Rightarrow> fpath \<Rightarrow> nat" where
  "node_size t p = (case lookup t p of None \<Rightarrow> 0 | Some f \<Rightarrow> size f)"

lemma listed_smaller:
  assumes "n \<in> set (fst (readDirectoryContents t p FT_Directory))"
  shows "node_size t (p @ [n]) < node_size t p"
proof -
  obtain es f where e: "lookup t p = Some (Dir es)" "(n, f) \<in> set es" using listed_directory [OF assms] by blast
  then have "map_of es n \<noteq> None" by (auto simp: map_of_eq_None_iff intro: rev_image_eqI)
  then obtain g where g: "map_of es n = Some g" by blast
  have "lookup (Dir es) [n] = Some g" using g by simp
  then have "size g < size (Dir es)" by (rule lookup_size) simp
  then show ?thesis using e(1) g by (simp add: node_size_def lookup_append)
qed

text \<open>The nested names are put behind the name of their directory and a slash.\<close>

function readDirectoryContentsRecursive :: "fnode \<Rightarrow> fpath \<Rightarrow> file_type \<Rightarrow> string list \<times> bool" where
  "readDirectoryContentsRecursive t path ty =
     (let (files, ok) = readDirectoryContents t path ty;
          (directories, ok') = readDirectoryContents t path FT_Directory;
          nested = map (\<lambda>dir. (dir, readDirectoryContentsRecursive t (path @ [dir]) ty)) directories
      in (files @ concat (map (\<lambda>(dir, fs, _). map (\<lambda>f. dir @ ''/'' @ f) fs) nested),
          ok \<and> ok' \<and> (\<forall>(_, _, b) \<in> set nested. b)))"
  by pat_completeness auto

termination
proof (relation "measure (\<lambda>(t, p, ty). node_size t p)")
  fix t path ty x xa y xb xc ya dir
  assume "x = readDirectoryContents t path ty" "(xa, y) = x" "xb = readDirectoryContents t path FT_Directory"
    "(xc, ya) = xb" "dir \<in> set xc"
  then have "dir \<in> set (fst (readDirectoryContents t path FT_Directory))" by (metis fst_conv)
  then show "((t, path @ [dir], ty), (t, path, ty)) \<in> measure (\<lambda>(t, p, ty). node_size t p)"
    using listed_smaller by simp
qed simp

declare readDirectoryContentsRecursive.simps [simp del]

subsection \<open>What is where\<close>

text \<open>Whether something is at a path, and whether it is a regular file.\<close>

definition kind :: "fnode \<Rightarrow> fpath \<Rightarrow> bool option" where
  "kind t p = map_option (\<lambda>f. f = Reg) (lookup t p)"

lemma kind_simps:
  "kind t p = None \<longleftrightarrow> lookup t p = None" "kind t p = Some True \<longleftrightarrow> lookup t p = Some Reg"
  "kind t p = Some False \<longleftrightarrow> is_directory t p"
  by (auto simp: kind_def is_directory_def split: option.splits fnode.splits)

lemma map_of_change:
  "map_of (map (\<lambda>(m, f). (m, if m = n then h f else f)) es) k =
     map_option (if k = n then h else (\<lambda>f. f)) (map_of es k)"
  by (induction es) auto

lemma lookup_change_inside:
  "lookup t p = Some (Dir es) \<Longrightarrow> lookup (change_dir g p t) (p @ q) = lookup (Dir (g es)) q"
proof (induction t p arbitrary: q rule: lookup.induct)
  case (1 f)
  then show ?case by simp
next
  case (3 fs n p)
  then obtain f where f: "map_of fs n = Some f" "lookup f p = Some (Dir es)" by (auto split: option.splits)
  show ?case using 3(1) [OF f(1,2)] f(1) by (simp add: map_of_change)
qed simp

lemma kind_change_elsewhere:
  "\<nexists>m r. q = p @ m # r \<Longrightarrow> kind (change_dir g p t) q = kind t q"
proof (induction p arbitrary: t q)
  case Nil
  then have "q = []" by (cases q) auto
  then show ?case by (cases t) (simp_all add: kind_def)
next
  case (Cons n p)
  show ?case
  proof (cases t)
    case Reg
    then show ?thesis by simp
  next
    case (Dir es)
    show ?thesis
    proof (cases q)
      case Nil
      then show ?thesis using Dir by (simp add: kind_def)
    next
      case q: (Cons m r)
      have "kind (change_dir g p f) r = kind f r" if "m = n" for f
        by (rule Cons.IH) (use Cons.prems q that in auto)
      then show ?thesis using Dir q by (auto simp: kind_def map_of_change split: option.splits)
    qed
  qed
qed

lemma kind_mkdir:
  assumes "lookup t (p @ [n]) = None" "is_directory t p"
  shows "snd (sys_mkdir (p @ [n]) t)" "kind (fst (sys_mkdir (p @ [n]) t)) q = (if q = p @ [n] then Some False else kind t q)"
proof -
  obtain es where es: "lookup t p = Some (Dir es)"
    using assms(2) by (auto simp: is_directory_def split: option.splits fnode.splits)
  have n: "map_of es n = None" using assms(1) es by (simp add: lookup_append split: option.splits)
  let ?t = "change_dir (\<lambda>es. es @ [(n, Dir [])]) p t"
  have m: "sys_mkdir (p @ [n]) t = (?t, True)" using assms by (simp add: sys_mkdir_def)
  then show "snd (sys_mkdir (p @ [n]) t)" by simp
  have "kind ?t q = (if q = p @ [n] then Some False else kind t q)"
  proof (cases "\<exists>m r. q = p @ m # r")
    case True
    then obtain m r where q: "q = p @ m # r" by blast
    have "lookup ?t q = lookup (Dir (es @ [(n, Dir [])])) (m # r)"
      unfolding q by (rule lookup_change_inside [OF es])
    moreover have "lookup t q = lookup (Dir es) (m # r)" using es by (simp add: q lookup_append)
    ultimately show ?thesis using n q
      by (cases r) (auto simp: kind_def map_add_def split: option.splits)
  next
    case False
    then show ?thesis using kind_change_elsewhere [OF False] by auto
  qed
  with m show "kind (fst (sys_mkdir (p @ [n]) t)) q = (if q = p @ [n] then Some False else kind t q)" by simp
qed

lemma map_of_filter_name: "map_of (filter (\<lambda>(m, f). m \<noteq> n) es) k = (if k = n then None else map_of es k)"
  by (induction es) auto

lemma kind_remove:
  assumes "lookup t (p @ [n]) = Some Reg \<or> lookup t (p @ [n]) = Some (Dir [])"
  shows "snd (sys_remove (p @ [n]) t)" "kind (fst (sys_remove (p @ [n]) t)) q = (if q = p @ [n] then None else kind t q)"
    "lookup t p = Some (Dir es) \<Longrightarrow>
       lookup (fst (sys_remove (p @ [n]) t)) p = Some (Dir (filter (\<lambda>(m, f). m \<noteq> n) es))"
proof -
  let ?g = "filter (\<lambda>(m, f). m \<noteq> n)"
  let ?t = "change_dir ?g p t"
  have m: "sys_remove (p @ [n]) t = (?t, True)" using assms by (simp add: sys_remove_def)
  then show "snd (sys_remove (p @ [n]) t)" by simp
  obtain fs where fs: "lookup t p = Some (Dir fs)" "map_of fs n = Some Reg \<or> map_of fs n = Some (Dir [])"
    using assms by (cases "lookup t p"; cases "the (lookup t p)") (auto simp: lookup_append split: option.splits)
  have "kind ?t q = (if q = p @ [n] then None else kind t q)"
  proof (cases "\<exists>m r. q = p @ m # r")
    case True
    then obtain m r where q: "q = p @ m # r" by blast
    have "lookup ?t q = lookup (Dir (?g fs)) (m # r)" unfolding q by (rule lookup_change_inside [OF fs(1)])
    moreover have "lookup t q = lookup (Dir fs) (m # r)" using fs(1) by (simp add: q lookup_append)
    ultimately show ?thesis using fs(2) q
      by (cases r) (auto simp: kind_def map_of_filter_name split: option.splits)
  next
    case False
    then show ?thesis using kind_change_elsewhere [OF False] by auto
  qed
  with m show "kind (fst (sys_remove (p @ [n]) t)) q = (if q = p @ [n] then None else kind t q)" by simp
  show "lookup (fst (sys_remove (p @ [n]) t)) p = Some (Dir (?g es))" if "lookup t p = Some (Dir es)"
    using lookup_change_inside [OF that, of ?g "[]"] m by simp
qed

subsection \<open>Creating a directory\<close>

definition proper_name :: "string \<Rightarrow> bool" where
  "proper_name n \<longleftrightarrow> n \<noteq> [] \<and> CHR ''/'' \<notin> set n \<and> n \<noteq> ''.'' \<and> n \<noteq> ''..''"

text \<open>The usual string of a path.\<close>

definition slashed :: "fpath \<Rightarrow> string" where
  "slashed p = concat (map (\<lambda>n. ''/'' @ n) p)"

lemma split_name: "CHR ''/'' \<notin> set n \<Longrightarrow> split_slashes acc (n @ s) = split_slashes (acc @ n) s"
  by (induction n arbitrary: acc) auto

lemma split_slashed: "\<forall>n \<in> set p. proper_name n \<Longrightarrow> split_slashes acc (slashed p) = acc # p"
proof (induction p arbitrary: acc)
  case (Cons n p)
  have s: "slashed (n # p) = CHR ''/'' # n @ slashed p" by (simp add: slashed_def)
  show ?case unfolding s using Cons by (simp add: split_name proper_name_def)
qed (simp add: slashed_def)

lemma path_names_slashed: "\<forall>n \<in> set p. proper_name n \<Longrightarrow> path_names (slashed p) = p"
  using split_slashed [of p "[]"] by (simp add: path_names_def proper_name_def filter_id_conv)

lemma path_start_slashed [simp]: "p \<noteq> [] \<Longrightarrow> path_start cwd (slashed p) = []"
  by (cases p) (simp_all add: path_start_def slashed_def)

lemma walk_path_names:
  "\<forall>n \<in> set q. proper_name n \<Longrightarrow>
     walk_path t p q = (if \<forall>i < length q. is_directory t (p @ take i q) then Some (p @ q) else None)"
proof (induction q arbitrary: p)
  case (Cons n q)
  then have n: "n \<noteq> ''.''" "n \<noteq> ''..''" by (auto simp: proper_name_def)
  have "(\<forall>i < length (n # q). is_directory t (p @ take i (n # q))) \<longleftrightarrow>
      is_directory t p \<and> (\<forall>i < length q. is_directory t ((p @ [n]) @ take i q))"
    by (auto simp: less_Suc_eq_0_disj)
  then show ?case using Cons n by simp
qed simp

lemma before_slashed:
  assumes "proper_name n"
  shows "before_slash (slashed (p @ [n])) = slashed p"
proof -
  have "slashed (p @ [n]) = slashed p @ CHR ''/'' # n" by (simp add: slashed_def)
  moreover have "dropWhile (\<lambda>c. c \<noteq> CHR ''/'') (rev n @ CHR ''/'' # rev (slashed p)) = CHR ''/'' # rev (slashed p)"
    using assms by (subst dropWhile_append2) (auto simp: proper_name_def)
  ultimately show ?thesis by (simp add: before_slash_def)
qed

lemma kind_prefix_reg: "kind t p = Some True \<Longrightarrow> q \<noteq> [] \<Longrightarrow> kind t (p @ q) = None"
  by (cases q) (simp_all add: kind_simps lookup_append)

lemma kind_under: "kind t (p @ q) \<noteq> None \<Longrightarrow> q \<noteq> [] \<Longrightarrow> kind t p = Some False"
  using kind_prefix_reg [of t p q] by (cases "kind t p") (auto simp: kind_def lookup_append split: option.splits)

lemma directories_above: "is_directory t (p @ q) \<Longrightarrow> q \<noteq> [] \<Longrightarrow> is_directory t p"
  using kind_under [of t p q] by (auto simp: kind_simps(3) [symmetric])

lemma walk_path_directory:
  assumes "\<forall>n \<in> set p. proper_name n" "is_directory t p"
  shows "walk_path t [] p = Some p"
proof -
  have "is_directory t (take i p)" if "i < length p" for i
    using directories_above [of t "take i p" "drop i p"] assms(2) that by simp
  then show ?thesis using walk_path_names [OF assms(1), of t "[]"] by simp
qed

lemma stat_slashed:
  assumes "\<forall>n \<in> set p. proper_name n" "p \<noteq> []"
  shows "stat_directory cwd (slashed p) t = is_directory t p"
  using walk_path_directory [OF assms(1)] walk_path_names [OF assms(1), of t "[]"]
  by (auto simp: stat_directory_def path_names_slashed [OF assms(1)] assms(2) split: option.split if_splits)

lemma mkdir_slashed:
  assumes "\<forall>n \<in> set (p @ [n]). proper_name n"
  shows "mkdir_string cwd (slashed (p @ [n])) t = sys_mkdir (p @ [n]) t"
proof (cases "is_directory t p")
  case True
  then show ?thesis
    using assms walk_path_directory [of p t]
    by (simp add: mkdir_string_def path_names_slashed [OF assms]) (auto simp: proper_name_def)
next
  case False
  have "sys_mkdir (p' @ [n]) t = (t, False)" if "walk_path t [] p = Some p'" for p'
    using that walk_path_names [of p t "[]"] assms False by (auto simp: sys_mkdir_def split: if_splits)
  then show ?thesis
    using assms False
    by (simp add: mkdir_string_def path_names_slashed [OF assms])
      (auto simp: proper_name_def sys_mkdir_def split: option.split)
qed

text \<open>
  Property C31. Creating a directory by an absolute path of proper names, which are not empty and not one
  or two dots, with no slash at the end, makes it and the directories on the way that were missing,
  and nothing else: it succeeds exactly when nothing on the way is a regular file, and then every
  path that is not a beginning of the given one is as before. (A slash or a dot at the end makes it
  report failure, see below.)
\<close>

theorem createDirectory_correct:
  assumes "\<forall>n \<in> set p. proper_name n" "p \<noteq> []" "is_directory t []"
  shows "if \<exists>i \<le> length p. kind t (take i p) = Some True
    then \<not> snd (createDirectory cwd (slashed p) t)
    else snd (createDirectory cwd (slashed p) t) \<and>
      (\<forall>q. kind (fst (createDirectory cwd (slashed p) t)) q =
         (if \<exists>i. q = take i p then Some False else kind t q))"
proof -
  have ne: "slashed p \<noteq> []" using assms(2) by (cases p) (simp_all add: slashed_def)
  have "if \<exists>i \<le> length p. kind t (take i p) = Some True
    then \<not> snd (create_directory cwd (slashed p) t)
    else snd (create_directory cwd (slashed p) t) \<and>
      (\<forall>q. kind (fst (create_directory cwd (slashed p) t)) q =
         (if \<exists>i. q = take i p then Some False else kind t q))"
    using assms(1,3)
  proof (induction p rule: rev_induct)
    case Nil
    then have "kind t [] = Some False" by (simp add: kind_simps)
    then show ?case by (auto simp: slashed_def create_directory.simps)
  next
    case (snoc n p)
    have nm: "proper_name n" "\<forall>m \<in> set p. proper_name m" using snoc.prems(1) by auto
    let ?s = "slashed (p @ [n])"
    have s: "?s \<noteq> []" "CHR ''/'' \<in> set ?s" "before_slash ?s = slashed p"
        "stat_directory cwd ?s t = is_directory t (p @ [n])" for t
      using stat_slashed [OF snoc.prems(1)] before_slashed [OF nm(1), of p] by (simp_all add: slashed_def)
    have tk: "(\<exists>i. q = take i (p @ [n])) \<longleftrightarrow> q = p @ [n] \<or> (\<exists>i. q = take i p)" for q
      by (metis append_self_conv2 length_append_singleton not_less_eq_eq nat_le_linear take_all take_append
          diff_is_0_eq append_Nil2 take_0 le_SucE)
    have reg: "(\<exists>i \<le> length (p @ [n]). kind t (take i (p @ [n])) = Some True) \<longleftrightarrow>
        (\<exists>i \<le> length p. kind t (take i p) = Some True) \<or> kind t (p @ [n]) = Some True"
      by (auto simp: le_Suc_eq)
    show ?case
    proof (cases "is_directory t (p @ [n])")
      case True
      then have d: "kind t (p @ [n]) = Some False" by (simp add: kind_simps)
      have up: "kind t (take i p) = Some False" if "i \<le> length p" for i
      proof (rule kind_under)
        have "take i p @ drop i p @ [n] = p @ [n]" by (metis append_assoc append_take_drop_id)
        then show "kind t (take i p @ drop i p @ [n]) \<noteq> None" using d by (simp only: option.distinct) simp
      qed simp
      then have "kind t (take i p) = Some False" for i
        using up [of i] up [of "length p"] by (cases "i \<le> length p") simp_all
      then show ?thesis using True s d unfolding reg tk by (subst (1 2 3) create_directory.simps) auto
    next
      case nd: False
      obtain t1 ok where t1: "create_directory cwd (slashed p) t = (t1, ok)" by force
      have c: "create_directory cwd ?s t = (if \<not> ok then (t1, False) else sys_mkdir (p @ [n]) t1)"
        using nd s t1 mkdir_slashed [OF snoc.prems(1)] by (subst create_directory.simps) simp
      note IH = snoc.IH [OF nm(2) snoc.prems(2), unfolded t1 fst_conv snd_conv]
      show ?thesis
      proof (cases "\<exists>i \<le> length p. kind t (take i p) = Some True")
        case True
        with IH have "\<not> ok" by (simp only: if_True not_False_eq_True)
        then show ?thesis using True c unfolding reg by simp
      next
        case False
        with IH have ok: "ok" "kind t1 q = (if \<exists>i. q = take i p then Some False else kind t q)" for q
          by (simp_all only: if_False)
        have "p @ [n] \<noteq> take i p" for i
        proof
          assume "p @ [n] = take i p"
          then have "length (p @ [n]) = length (take i p)" by (rule arg_cong)
          then show False by simp
        qed
        then have k: "kind t1 (p @ [n]) = kind t (p @ [n])" unfolding ok(2) by simp
        have "kind t1 p = Some False" unfolding ok(2) by (metis take_all order_refl)
        then have dir: "is_directory t1 p" by (simp add: kind_simps)
        show ?thesis
        proof (cases "kind t (p @ [n])")
          case None
          then have "lookup t1 (p @ [n]) = None" using k by (simp only: kind_simps(1) [symmetric])
          from kind_mkdir [OF this dir] show ?thesis
            using c ok(1) ok(2) False None unfolding reg tk by (simp only: if_False simp_thms option.distinct) auto
        next
          case (Some b)
          then have b: "b" using nd by (cases b) (auto simp: kind_simps)
          then have "snd (sys_mkdir (p @ [n]) t1) = False"
            using k Some kind_simps(1) [of t1 "p @ [n]"] by (auto simp: sys_mkdir_def)
          then show ?thesis using c Some b unfolding reg by auto
        qed
      qed
    qed
  qed
  then show ?thesis using ne by (simp add: createDirectory_def)
qed


lemma createDirectory_correct_witness:
  "snd (createDirectory [] ''/a/b'' (Dir [(''f'', Reg)])) \<and>
   kind (fst (createDirectory [] ''/a/b'' (Dir [(''f'', Reg)]))) [''a'', ''b''] = Some False"
proof -
  let ?t = "Dir [(''f'', Reg)]" and ?p = "[''a'', ''b'']"
  have s: "slashed ?p = ''/a/b''" by (simp add: slashed_def)
  have "kind ?t (take i ?p) \<noteq> Some True" for i by (cases i; cases "i - 1") (auto simp: kind_def)
  then have no: "\<not> (\<exists>i \<le> length ?p. kind ?t (take i ?p) = Some True)" by blast
  have "\<exists>i. ?p = take i ?p" by (metis take_all order_refl)
  then show ?thesis
    using createDirectory_correct [of ?p ?t "[]", unfolded s if_not_P [OF no]]
    by (simp add: proper_name_def is_directory_def)
qed

text \<open>A slash or a dot at the end makes the last call of \<open>mkdir\<close> find the directory the one before made.\<close>

lemma slash_at_the_end_fails: "createDirectory [] ''/a/'' (Dir []) = (Dir [(''a'', Dir [])], False)"
  by code_simp

lemma dot_at_the_end_fails: "createDirectory [] ''/a/.'' (Dir []) = (Dir [(''a'', Dir [])], False)"
  by code_simp

subsection \<open>Removing a directory\<close>

definition dir_entries :: "fnode \<Rightarrow> fpath \<Rightarrow> string list" where
  "dir_entries t p = (case lookup t p of Some (Dir es) \<Rightarrow> map fst es | _ \<Rightarrow> [])"

text \<open>The second tree is the first with some paths gone.\<close>

definition less_there :: "fnode \<Rightarrow> fnode \<Rightarrow> bool" where
  "less_there t' t \<longleftrightarrow> (\<forall>q. kind t' q = None \<or> kind t' q = kind t q)"

lemma less_there_refl [simp]: "less_there t t" by (simp add: less_there_def)

lemma less_there_trans: "less_there t2 t1 \<Longrightarrow> less_there t1 t \<Longrightarrow> less_there t2 t"
  unfolding less_there_def by metis

lemma less_there_gone: "less_there t' t \<Longrightarrow> kind t q = None \<Longrightarrow> kind t' q = None"
  unfolding less_there_def by metis

lemma sys_remove_less: "less_there (fst (sys_remove p t)) t \<and> (snd (sys_remove p t) \<longrightarrow> kind (fst (sys_remove p t)) p = None)"
proof (cases "p \<noteq> [] \<and> (lookup t p = Some Reg \<or> lookup t p = Some (Dir []))")
  case True
  then obtain q n where p: "p = q @ [n]" by (cases p rule: rev_cases) auto
  show ?thesis using kind_remove(2) [of t q n] True unfolding p less_there_def by simp
next
  case False
  then have "sys_remove p t = (t, False)" unfolding sys_remove_def by (rule if_not_P)
  then show ?thesis by simp
qed

lemma sys_rmdir_less: "less_there (fst (sys_rmdir p t)) t \<and> (snd (sys_rmdir p t) \<longrightarrow> kind (fst (sys_rmdir p t)) p = None)"
  using sys_remove_less [of p t] by (simp add: sys_rmdir_def)

definition removal :: "fpath \<Rightarrow> fpath \<Rightarrow> string list \<Rightarrow> fnode \<Rightarrow> fnode \<times> bool \<Rightarrow> bool" where
  "removal cwd path ns t r \<longleftrightarrow> less_there (fst r) t \<and>
     (snd r \<longrightarrow> kind (fst r) path = None \<and>
        (\<forall>n \<in> set ns. is_directory t (cwd @ [n]) \<longrightarrow> kind (fst r) (cwd @ [n]) = None))"

lemma removal_later:
  assumes "removal cwd path ns t1 r" "less_there t1 t"
    "is_directory t (cwd @ [n]) \<longrightarrow> \<not> is_directory t1 (cwd @ [n])"
  shows "removal cwd path (n # ns) t r"
proof -
  have d: "kind (fst r) (cwd @ [m]) = None" if "snd r" "m \<in> set (n # ns)" "is_directory t (cwd @ [m])" for m
  proof (cases "is_directory t1 (cwd @ [m])")
    case True
    then show ?thesis using assms(1,3) that by (auto simp: removal_def)
  next
    case False
    then have "kind t1 (cwd @ [m]) = None"
      using assms(2) that(3) unfolding less_there_def kind_simps(3) [symmetric] by metis
    then show ?thesis using assms(1) less_there_gone by (auto simp: removal_def)
  qed
  then show ?thesis using assms(1,2) less_there_trans by (auto simp: removal_def)
qed

lemma removal_stops: "less_there t1 t \<Longrightarrow> removal cwd path ns t (t1, False)"
  by (simp add: removal_def)

lemma removeDirectory_from_removal:
  assumes "removeDirectory_from cwd path entries t = Some r"
  shows "removal cwd path (case entries of None \<Rightarrow> dir_entries t path | Some ns \<Rightarrow> ns) t r"
proof (rule removeDirectory_from.raw_induct [OF _ assms])
  fix rec cwd path entries t r
  assume "\<And>cwd path entries t r. rec cwd path entries t = Some r \<Longrightarrow>
      removal cwd path (case entries of None \<Rightarrow> dir_entries t path | Some ns \<Rightarrow> ns) t r"
  note IH = this
  assume r: "(case entries of
        None \<Rightarrow>
          (case lookup t path of
             Some (Dir es) \<Rightarrow> rec cwd path (Some (map fst es)) t
           | _ \<Rightarrow> Some (t, False))
      | Some [] \<Rightarrow> Some (sys_rmdir path t)
      | Some (n # ns) \<Rightarrow>
          if isType_Directory cwd t n
          then Option.bind (rec cwd (cwd @ [n]) None t)
                 (\<lambda>r. if snd r then rec cwd path (Some ns) (fst r) else Some (fst r, False))
          else let r = sys_remove (path @ [n]) t
               in if snd r then rec cwd path (Some ns) (fst r) else Some (fst r, False)) = Some r"
  show "removal cwd path (case entries of None \<Rightarrow> dir_entries t path | Some ns \<Rightarrow> ns) t r"
  proof (cases entries)
    case None
    show ?thesis
    proof (cases "\<exists>es. lookup t path = Some (Dir es)")
      case True
      then obtain es where "lookup t path = Some (Dir es)" by blast
      moreover from this have "rec cwd path (Some (map fst es)) t = Some r" using r None by simp
      then have "removal cwd path (map fst es) t r" using IH by fastforce
      ultimately show ?thesis using None by (simp add: dir_entries_def)
    next
      case False
      then have "r = (t, False)" using r None by (auto split: option.splits fnode.splits)
      then show ?thesis by (simp add: removal_stops)
    qed
  next
    case e: (Some ms)
    show ?thesis
    proof (cases ms)
      case Nil
      then show ?thesis using r e sys_rmdir_less [of path t] by (auto simp: removal_def)
    next
      case (Cons n ns)
      show ?thesis
      proof (cases "isType_Directory cwd t n")
        case True
        obtain r1 where r1: "rec cwd (cwd @ [n]) None t = Some r1"
          using r True e Cons by (auto simp: bind_eq_Some_conv)
        have s: "removal cwd (cwd @ [n]) (dir_entries t (cwd @ [n])) t r1" using IH [OF r1] by simp
        show ?thesis
        proof (cases "snd r1")
          case ok: True
          then have "rec cwd path (Some ns) (fst r1) = Some r" using r r1 True e Cons by simp
          then have "removal cwd path ns (fst r1) r" using IH by fastforce
          moreover have "\<not> is_directory (fst r1) (cwd @ [n])"
            using s ok unfolding kind_simps(3) [symmetric] by (simp add: removal_def)
          moreover have "less_there (fst r1) t" using s by (simp add: removal_def)
          ultimately have "removal cwd path (n # ns) t r" using removal_later by blast
          then show ?thesis using e Cons by simp
        next
          case False
          then show ?thesis using r r1 True e Cons s removal_stops by (auto simp: removal_def)
        qed
      next
        case False
        let ?s = "sys_remove (path @ [n]) t"
        have l: "less_there (fst ?s) t" using sys_remove_less by blast
        show ?thesis
        proof (cases "snd ?s")
          case ok: True
          then have "rec cwd path (Some ns) (fst ?s) = Some r" using r False e Cons by (simp add: Let_def)
          then have "removal cwd path ns (fst ?s) r" using IH by fastforce
          moreover have "\<not> is_directory t (cwd @ [n])" using False by (simp add: isType_Directory_def)
          ultimately have "removal cwd path (n # ns) t r" using removal_later [OF _ l] by blast
          then show ?thesis using e Cons by simp
        next
          case nok: False
          then have "r = (fst ?s, False)" using r False e Cons by (simp add: Let_def)
          then show ?thesis using l removal_stops by simp
        qed
      qed
    qed
  qed
qed

text \<open>Whatever is removed, nothing is created, and a directory reported as removed is gone.\<close>

lemma removeDirectory_less:
  assumes "removeDirectory cwd path t = Some (t', ok)"
  shows "less_there t' t" "ok \<Longrightarrow> kind t' path = None"
  using removeDirectory_from_removal [OF assms [unfolded removeDirectory_def]] by (auto simp: removal_def)

lemma removeDirectory_from_simps:
  "removeDirectory_from cwd path None t =
     (case lookup t path of
        Some (Dir es) \<Rightarrow> removeDirectory_from cwd path (Some (map fst es)) t
      | _ \<Rightarrow> Some (t, False))"
  "removeDirectory_from cwd path (Some []) t = Some (sys_rmdir path t)"
  "removeDirectory_from cwd path (Some (n # ns)) t =
     (if isType_Directory cwd t n
      then Option.bind (removeDirectory_from cwd (cwd @ [n]) None t)
             (\<lambda>r. if snd r then removeDirectory_from cwd path (Some ns) (fst r) else Some (fst r, False))
      else let r = sys_remove (path @ [n]) t
           in if snd r then removeDirectory_from cwd path (Some ns) (fst r) else Some (fst r, False))"
  by (subst removeDirectory_from.simps, simp)+

lemma removeDirectory_flat:
  assumes "lookup t path = Some (Dir es)" "path \<noteq> []" "distinct (map fst es)"
    "\<forall>(n, f) \<in> set es. (f = Reg \<or> f = Dir []) \<and> \<not> is_directory t (cwd @ [n])"
  shows "\<exists>t'. removeDirectory_from cwd path (Some (map fst es)) t = Some (t', True) \<and>
    (\<forall>q. kind t' q = (if take (length path) q = path then None else kind t q))"
  using assms
proof (induction es arbitrary: t)
  case Nil
  obtain p n where p: "path = p @ [n]" using Nil(2) by (cases path rule: rev_cases) auto
  have k: "snd (sys_remove path t)" "kind (fst (sys_remove path t)) q = (if q = path then None else kind t q)" for q
    using kind_remove(1,2) [of t p n] Nil(1) p by simp_all
  have below: "kind t q = None" if "take (length path) q = path" "q \<noteq> path" for q
  proof -
    have "q = path @ drop (length path) q" using that(1) by (metis append_take_drop_id)
    moreover have "drop (length path) q \<noteq> []" using calculation that(2) by auto
    ultimately obtain m r where "q = path @ m # r" by (metis list.exhaust)
    then show ?thesis using Nil(1) by (simp add: kind_def lookup_append)
  qed
  have "sys_rmdir path t = (fst (sys_remove path t), True)" using Nil(1) k(1) by (simp add: sys_rmdir_def prod_eq_iff)
  then show ?case using k(2) below by (auto simp: removeDirectory_from_simps)
next
  case (Cons e es)
  obtain n f where e: "e = (n, f)" by force
  have "lookup t (path @ [n]) = Some f" using Cons.prems(1) e by (simp add: lookup_append)
  then have f: "lookup t (path @ [n]) = Some Reg \<or> lookup t (path @ [n]) = Some (Dir [])"
    using Cons.prems(4) e by auto
  let ?s = "sys_remove (path @ [n]) t"
  have "filter (\<lambda>(m, f). m \<noteq> n) es = es" using Cons.prems(3) e by (auto simp: filter_id_conv image_iff)
  then have l: "lookup (fst ?s) path = Some (Dir es)" using kind_remove(3) [OF f Cons.prems(1)] e by simp
  have less: "less_there (fst ?s) t" using sys_remove_less by blast
  have nd: "\<not> is_directory (fst ?s) p" if "\<not> is_directory t p" for p
    using less that unfolding less_there_def kind_simps(3) [symmetric] by (metis option.distinct(1))
  obtain t' where t': "removeDirectory_from cwd path (Some (map fst es)) (fst ?s) = Some (t', True)"
    "\<And>q. kind t' q = (if take (length path) q = path then None else kind (fst ?s) q)"
    using Cons.IH [OF l Cons.prems(2)] Cons.prems(3,4) nd by fastforce
  have "removeDirectory_from cwd path (Some (map fst (e # es))) t = Some (t', True)"
    using kind_remove(1) [OF f] t'(1) Cons.prems(4) e
    by (simp add: removeDirectory_from_simps isType_Directory_def Let_def)
  moreover have "kind t' q = (if take (length path) q = path then None else kind t q)" for q
    unfolding t'(2) kind_remove(2) [OF f] by auto
  ultimately show ?case by blast
qed

text \<open>
  A directory of files and empty directories is removed with what is in it and with nothing
  else, when no entry has the name of a directory of the working directory.
\<close>

theorem removeDirectory_correct:
  assumes "lookup t path = Some (Dir es)" "path \<noteq> []" "distinct (map fst es)"
    "\<forall>(n, f) \<in> set es. (f = Reg \<or> f = Dir []) \<and> \<not> is_directory t (cwd @ [n])"
  shows "\<exists>t'. removeDirectory cwd path t = Some (t', True) \<and>
    (\<forall>q. kind t' q = (if take (length path) q = path then None else kind t q))"
  using removeDirectory_flat [OF assms] assms(1) by (simp add: removeDirectory_def removeDirectory_from_simps)

lemma removeDirectory_correct_witness:
  "\<exists>t'. removeDirectory [] [''x''] (Dir [(''x'', Dir [(''f'', Reg), (''d'', Dir [])])]) = Some (t', True)"
  using removeDirectory_correct [of "Dir [(''x'', Dir [(''f'', Reg), (''d'', Dir [])])]" "[''x'']"
    "[(''f'', Reg), (''d'', Dir [])]" "[]"]
  by (auto simp: is_directory_def)

text \<open>
  Without the last condition the recursion goes astray: from the directory \<open>home\<close>, the removal of \<open>x\<close>
  empties and deletes \<open>home/docs\<close>, and fails because \<open>x/docs\<close> is still there.
\<close>

lemma removeDirectory_strays:
  "removeDirectory [''home''] [''x'']
     (Dir [(''home'', Dir [(''docs'', Dir [(''f'', Reg)])]), (''x'', Dir [(''docs'', Dir [])])]) =
   Some (Dir [(''home'', Dir []), (''x'', Dir [(''docs'', Dir [])])], False)"
  by (simp add: removeDirectory_def removeDirectory_from_simps isType_Directory_def is_directory_def
      sys_remove_def sys_rmdir_def Let_def)


subsection \<open>Listing a directory\<close>

fun joined :: "fpath \<Rightarrow> string" where
  "joined [] = []"
| "joined [n] = n"
| "joined (n # p) = n @ ''/'' @ joined p"

lemma joined_Cons: "q \<noteq> [] \<Longrightarrow> joined (n # q) = n @ ''/'' @ joined q"
  by (cases q) simp_all

definition names_once :: "fnode \<Rightarrow> bool" where
  "names_once t \<longleftrightarrow> (\<forall>p es. lookup t p = Some (Dir es) \<longrightarrow> distinct (map fst es))"

lemma listed_names:
  assumes "names_once t"
  shows "n \<in> set (fst (readDirectoryContents t p ty)) \<longleftrightarrow>
    (\<exists>f. is_directory t p \<and> lookup t (p @ [n]) = Some f \<and> of_type ty f)"
proof (cases "\<exists>es. lookup t p = Some (Dir es)")
  case True
  then obtain es where es: "lookup t p = Some (Dir es)" by blast
  then have "distinct (map fst es)" using assms by (simp add: names_once_def)
  then have m: "map_of es n = Some f \<longleftrightarrow> (n, f) \<in> set es" for f by simp
  have "lookup t (p @ [n]) = Some f \<longleftrightarrow> (n, f) \<in> set es" for f
    unfolding m [symmetric] using es by (simp add: lookup_append split: option.splits)
  moreover have "n \<in> set (fst (readDirectoryContents t p ty)) \<longleftrightarrow> (\<exists>f. (n, f) \<in> set es \<and> of_type ty f)"
    using es by (force simp: readDirectoryContents_def)
  ultimately show ?thesis using es by (simp add: is_directory_def)
next
  case False
  then show ?thesis by (auto simp: readDirectoryContents_def is_directory_def split: option.splits fnode.splits)
qed

lemma readDirectoryContentsRecursive_names:
  "fst (readDirectoryContentsRecursive t p ty) = fst (readDirectoryContents t p ty) @
     concat (map (\<lambda>dir. map (\<lambda>f. dir @ ''/'' @ f) (fst (readDirectoryContentsRecursive t (p @ [dir]) ty)))
       (fst (readDirectoryContents t p FT_Directory)))"
  by (subst readDirectoryContentsRecursive.simps) (simp add: Let_def split_beta comp_def)

text \<open>
  The recursive listing of a directory has exactly the paths below it, from the directory, whose
  end has the type asked for.
\<close>

theorem readDirectoryContentsRecursive_correct:
  assumes "names_once t"
  shows "s \<in> set (fst (readDirectoryContentsRecursive t p ty)) \<longleftrightarrow>
    (\<exists>q f. q \<noteq> [] \<and> lookup t (p @ q) = Some f \<and> of_type ty f \<and> s = joined q)"
  using assms
proof (induction t p ty arbitrary: s rule: readDirectoryContentsRecursive.induct)
  case (1 t p ty)
  let ?rec = "\<lambda>dir. fst (readDirectoryContentsRecursive t (p @ [dir]) ty)"
  have IH: "r \<in> set (?rec dir) \<longleftrightarrow> (\<exists>q f. q \<noteq> [] \<and> lookup t (p @ dir # q) = Some f \<and> of_type ty f \<and> r = joined q)"
    if "dir \<in> set (fst (readDirectoryContents t p FT_Directory))" for dir r
    using 1(1) [OF refl prod.collapse refl prod.collapse that 1(2)] by simp
  have under: "dir \<in> set (fst (readDirectoryContents t p FT_Directory))"
    if "lookup t (p @ dir # q) = Some f" "q \<noteq> []" for dir q f
  proof -
    have d: "is_directory t (p @ [dir])" using that kind_under [of t "p @ [dir]" q]
      by (simp add: kind_simps(3) [symmetric]) (simp add: kind_def)
    moreover have "is_directory t p" using that kind_under [of t p "dir # q"]
      by (simp add: kind_simps(3) [symmetric]) (simp add: kind_def)
    ultimately show ?thesis using listed_names [OF 1(2), of dir p FT_Directory]
      by (auto simp: is_directory_def of_type_def split: option.splits fnode.splits)
  qed
  have dirp: "is_directory t p" if "lookup t (p @ [n]) = Some f" for n f
    using that kind_under [of t p "[n]"] by (simp add: kind_simps(3) [symmetric]) (simp add: kind_def)
  show ?case
  proof
    assume "s \<in> set (fst (readDirectoryContentsRecursive t p ty))"
    then consider "s \<in> set (fst (readDirectoryContents t p ty))"
      | dir r where "dir \<in> set (fst (readDirectoryContents t p FT_Directory))" "r \<in> set (?rec dir)" "s = dir @ ''/'' @ r"
      unfolding readDirectoryContentsRecursive_names [of t p ty] by auto
    then show "\<exists>q f. q \<noteq> [] \<and> lookup t (p @ q) = Some f \<and> of_type ty f \<and> s = joined q"
    proof cases
      case 1
      then obtain f where "lookup t (p @ [s]) = Some f" "of_type ty f" using listed_names [OF \<open>names_once t\<close>] by blast
      then show ?thesis by (intro exI [of _ "[s]"] exI [of _ f]) simp
    next
      case 2
      then obtain q f where "q \<noteq> []" "lookup t (p @ dir # q) = Some f" "of_type ty f" "r = joined q" using IH by blast
      then show ?thesis using 2(3) by (intro exI [of _ "dir # q"] exI [of _ f]) (simp add: joined_Cons)
    qed
  next
    assume "\<exists>q f. q \<noteq> [] \<and> lookup t (p @ q) = Some f \<and> of_type ty f \<and> s = joined q"
    then obtain n q f where q: "lookup t (p @ n # q) = Some f" "of_type ty f" "s = joined (n # q)"
      by (metis list.exhaust)
    show "s \<in> set (fst (readDirectoryContentsRecursive t p ty))"
    proof (cases q)
      case Nil
      then have "s \<in> set (fst (readDirectoryContents t p ty))"
        using q listed_names [OF 1(2), of n p ty] dirp by auto
      then show ?thesis unfolding readDirectoryContentsRecursive_names [of t p ty] by simp
    next
      case (Cons m r)
      then have "q \<noteq> []" by simp
      then have n: "n \<in> set (fst (readDirectoryContents t p FT_Directory))" and "joined q \<in> set (?rec n)"
        using under q IH by blast+
      then show ?thesis using q(3) joined_Cons [OF \<open>q \<noteq> []\<close>]
        unfolding readDirectoryContentsRecursive_names [of t p ty] by auto
    qed
  qed
qed

lemma readDirectoryContentsRecursive_correct_witness:
  "''d/f'' \<in> set (fst (readDirectoryContentsRecursive (Dir [(''d'', Dir [(''f'', Reg)])]) [] FT_Regular))"
proof -
  have "distinct (map fst es)" if "lookup (Dir [(''d'', Dir [(''f'', Reg)])]) p = Some (Dir es)" for p es
    using that by (cases p; cases "tl p"; cases "tl (tl p)") (auto split: if_splits)
  then have "names_once (Dir [(''d'', Dir [(''f'', Reg)])])" unfolding names_once_def by blast
  from readDirectoryContentsRecursive_correct [OF this, of "''d/f''" "[]" FT_Regular] show ?thesis
    by (auto simp: of_type_def intro!: exI [of _ "[''d'', ''f'']"])
qed


subsection \<open>The base name\<close>

text \<open>
  The loop for a slash at the end always looks at the same character and leaves when the position
  becomes 0; the string literal it returns is the bool true, and the result is not assigned.
\<close>

function count_down :: "64 word \<Rightarrow> bool" where
  "count_down l = (let l = l - 1 in if l = 0 then True else count_down l)"
  by pat_completeness auto

termination
proof (relation "measure (\<lambda>l :: 64 word. unat (l - 1))")
  fix l x :: "64 word"
  assume "x = l - 1" "x \<noteq> 0"
  from this(2) have "unat (x - 1) < unat x" using unat_minus_one [of x] unat_gt_0 [of x] by linarith
  then show "(x, l) \<in> measure (\<lambda>l. unat (l - 1))" using \<open>x = l - 1\<close> by (simp only: in_measure)
qed simp

declare count_down.simps [simp del]

definition base_name :: "string \<Rightarrow> bool \<times> string option" where
  "base_name path =
     (if path = [] then (False, None)
      else if last path = CHR ''/'' then (count_down (word_of_nat (length path - 1)), None)
      else (True, Some (rev (takeWhile (\<lambda>c. c \<noteq> CHR ''/'') (rev path)))))"

lemma count_down_True: "count_down l"
  by (induction l rule: count_down.induct) (subst count_down.simps, simp)

lemma base_name_correct:
  "proper_name n \<Longrightarrow> base_name (slashed (p @ [n])) = (True, Some n)"
  "base_name (s @ ''/'') = (True, None)"
proof -
  assume that: "proper_name n"
  have "slashed (p @ [n]) = slashed p @ CHR ''/'' # n" by (simp add: slashed_def)
  moreover have "n \<noteq> []" "last n \<noteq> CHR ''/''"
    using that unfolding proper_name_def by (metis last_in_set)+
  moreover have "takeWhile (\<lambda>c. c \<noteq> CHR ''/'') (rev n @ CHR ''/'' # rev (slashed p)) = rev n"
    using that by (subst takeWhile_append2) (auto simp: proper_name_def)
  ultimately show "base_name (slashed (p @ [n])) = (True, Some n)" by (simp add: base_name_def)
next
  show "base_name (s @ ''/'') = (True, None)" by (simp add: base_name_def count_down_True)
qed

end
