(* ===== verification/Cli_Keys.thy ===== *)
theory Cli_Keys
  imports File_System_Viewer
begin

section \<open>The elements of a command line\<close>

text \<open>
  The keys of commands and options (source/octf/cli/internal/OptionsValidation.cpp), the elements
  of a command line (CLIElement.cpp) and their list (CLIList.cpp). Characters are classified as
  in the C locale.
\<close>

definition is_digit :: "char \<Rightarrow> bool" where
  "is_digit c \<longleftrightarrow> 48 \<le> (of_char c :: nat) \<and> (of_char c :: nat) \<le> 57"

definition is_alnum :: "char \<Rightarrow> bool" where
  "is_alnum c \<longleftrightarrow> is_alpha c \<or> is_digit c"

definition is_print :: "char \<Rightarrow> bool" where
  "is_print c \<longleftrightarrow> 32 \<le> (of_char c :: nat) \<and> (of_char c :: nat) \<le> 126"

definition is_space :: "char \<Rightarrow> bool" where
  "is_space c \<longleftrightarrow> (of_char c :: nat) = 32 \<or> (9 \<le> (of_char c :: nat) \<and> (of_char c :: nat) \<le> 13)"

subsection \<open>Keys\<close>

definition isShortKeyValid :: "string \<Rightarrow> bool" where
  "isShortKeyValid key \<longleftrightarrow>
     (if key = '''' then True
      else if length key \<noteq> 1 then False
      else is_alpha (hd key))"

definition isLongKeyValid :: "string \<Rightarrow> bool" where
  "isLongKeyValid key \<longleftrightarrow>
     length key \<ge> 1 \<and>
     (\<forall>i \<in> set [0..<length key]. is_alnum (key ! i) \<or> (key ! i = CHR ''-'' \<and> i > 0))"

definition isDescValid :: "string \<Rightarrow> bool" where
  "isDescValid desc \<longleftrightarrow> length desc \<ge> 1 \<and> (\<forall>c \<in> set desc. is_print c)"

text \<open>The options of a command in its description.\<close>

record command_ops =
  co_longKey :: string
  co_shortKey :: string
  co_desc :: string

definition isCommandValid :: "command_ops \<Rightarrow> bool" where
  "isCommandValid cmd \<longleftrightarrow>
     isLongKeyValid (co_longKey cmd) \<and>
     (isShortKeyValid (co_shortKey cmd) \<or> co_shortKey cmd = '''') \<and>
     isDescValid (co_desc cmd)"

fun commands_valid :: "bool \<Rightarrow> string list \<Rightarrow> string list \<Rightarrow> command_ops list \<Rightarrow> bool" where
  "commands_valid assured longKeys shortKeys [] = True"
| "commands_valid assured longKeys shortKeys (cmd # cmds) =
     (if \<not> assured \<and> \<not> isCommandValid cmd then False
      else if co_longKey cmd \<in> set longKeys then False
      else
        let longKeys = co_longKey cmd # longKeys
        in if co_shortKey cmd = '''' then commands_valid assured longKeys shortKeys cmds
           else if co_shortKey cmd \<in> set shortKeys then False
           else commands_valid assured longKeys (co_shortKey cmd # shortKeys) cmds)"

definition isCommandSetValid :: "command_ops list \<Rightarrow> bool \<Rightarrow> bool" where
  "isCommandSetValid cmds assured \<longleftrightarrow> commands_valid assured [] [] cmds"

subsection \<open>Elements\<close>

datatype cli_type = Raw | ShortKey | LongKey | OtherElement

definition SHORT_KEY_PREFIX :: string where "SHORT_KEY_PREFIX = ''-''"
definition LONG_KEY_PREFIX :: string where "LONG_KEY_PREFIX = ''--''"

definition hasPrefix :: "string \<Rightarrow> string \<Rightarrow> bool" where
  "hasPrefix t prefix \<longleftrightarrow>
     (if (t = '''' \<and> prefix \<noteq> '''') \<or> length prefix > length t then False
      else take (length prefix) t = prefix)"

definition parseKey :: "string \<Rightarrow> string \<Rightarrow> string" where
  "parseKey key prefix = (if hasPrefix key prefix then drop (length prefix) key else '''')"

definition getKeyName :: "string \<Rightarrow> string \<times> cli_type" where
  "getKeyName v =
     (let key = parseKey v LONG_KEY_PREFIX
      in if key = '''' then
           let key = parseKey v SHORT_KEY_PREFIX
           in (key, if key = '''' then OtherElement else ShortKey)
         else (key, LongKey))"

definition isValidKey :: "string \<Rightarrow> cli_type \<Rightarrow> bool" where
  "isValidKey key ty =
     (case ty of ShortKey \<Rightarrow> isShortKeyValid key | LongKey \<Rightarrow> isLongKeyValid key | _ \<Rightarrow> False)"

definition getValidKeyName :: "string \<Rightarrow> string" where
  "getValidKeyName v =
     (let (key, ty) = getKeyName v in if key = '''' \<or> \<not> isValidKey key ty then '''' else key)"

subsection \<open>The list\<close>

text \<open>The list is what is left of it from the iterator on.\<close>

definition cli_create :: "string list \<Rightarrow> string list" where
  "cli_create arguments = map (\<lambda>i. arguments ! i) [1..<length arguments]"

fun split_spaces :: "string \<Rightarrow> string \<Rightarrow> string list" where
  "split_spaces acc [] = (if acc = '''' then [] else [acc])"
| "split_spaces acc (c # s) = (if c = CHR '' '' then acc # split_spaces '''' s else split_spaces (acc @ [c]) s)"

definition cli_create_lines :: "string \<Rightarrow> string list" where
  "cli_create_lines lines = filter (\<lambda>p. p \<noteq> '''') (split_spaces '''' lines)"

definition cli_hasNext :: "string list \<Rightarrow> bool" where
  "cli_hasNext l \<longleftrightarrow> l \<noteq> []"

definition cli_next :: "string list \<Rightarrow> string \<times> string list" where
  "cli_next l = (if cli_hasNext l then (hd l, tl l) else ('''', l))"

definition cli_hasHelp :: "string list \<Rightarrow> bool" where
  "cli_hasHelp l \<longleftrightarrow>
     cli_hasNext l \<and> (let key = getValidKeyName (hd l) in key = ''help'' \<or> key = ''H'')"

subsection \<open>What a key is\<close>

lemma less_Suc_all: "(\<forall>i < Suc n. P i) \<longleftrightarrow> P 0 \<and> (\<forall>i < n. P (Suc i))"
  by (metis Suc_less_eq less_Suc_eq_0_disj)

lemma isLongKeyValid_iff:
  "isLongKeyValid key \<longleftrightarrow> key \<noteq> '''' \<and> is_alnum (hd key) \<and> (\<forall>c \<in> set (tl key). is_alnum c \<or> c = CHR ''-'')"
proof (cases key)
  case (Cons c s)
  have "isLongKeyValid key \<longleftrightarrow>
      (\<forall>i < Suc (length s). is_alnum ((c # s) ! i) \<or> ((c # s) ! i = CHR ''-'' \<and> i > 0))"
    using Cons by (simp add: isLongKeyValid_def Ball_def del: upt_Suc)
  also have "\<dots> \<longleftrightarrow> is_alnum c \<and> (\<forall>i < length s. is_alnum (s ! i) \<or> s ! i = CHR ''-'')"
    by (simp only: less_Suc_all nth_Cons_0 nth_Cons_Suc) simp
  finally show ?thesis using Cons by (simp add: all_set_conv_all_nth)
qed (simp add: isLongKeyValid_def)

lemma alnum_not_dash: "\<not> is_alnum (CHR ''-'')"
  by (simp add: is_alnum_def is_alpha_def is_digit_def)

lemma hasPrefix_iff: "hasPrefix t p \<longleftrightarrow> (\<exists>r. t = p @ r)"
proof
  assume "hasPrefix t p"
  then have "take (length p) t = p" by (simp add: hasPrefix_def split: if_splits)
  then show "\<exists>r. t = p @ r" by (metis append_take_drop_id)
qed (auto simp: hasPrefix_def)

text \<open>
  An element names a key exactly when it is two dashes and a valid long key, or one dash and a
  letter.
\<close>

theorem getValidKeyName_iff:
  "getValidKeyName v = k \<and> k \<noteq> '''' \<longleftrightarrow>
     (v = ''--'' @ k \<and> isLongKeyValid k) \<or> (v = ''-'' @ k \<and> isShortKeyValid k \<and> k \<noteq> '''')"
proof -
  consider (long) c r where "v = ''--'' @ c # r" | (dashes) "v = ''--''" | (short) c r where "v = ''-'' @ c # r" "c \<noteq> CHR ''-''"
    | (dash) "v = ''-''" | (other) "\<nexists>r. v = ''-'' @ r"
  proof (cases "\<exists>r. v = ''-'' @ r")
    case True
    then obtain r where r: "v = ''-'' @ r" by blast
    show thesis
    proof (cases r)
      case (Cons c q)
      then show thesis using r that(1) [of "hd q" "tl q"] that(2,3) by (cases "c = CHR ''-''"; cases q) auto
    qed (use r that(4) in simp)
  qed (use that(5) in blast)
  then show ?thesis
  proof cases
    case (long c r)
    then have "getKeyName v = (c # r, LongKey)"
      by (simp add: getKeyName_def parseKey_def hasPrefix_def LONG_KEY_PREFIX_def)
    moreover have "\<not> isShortKeyValid (CHR ''-'' # c # r)" by (simp add: isShortKeyValid_def)
    ultimately show ?thesis using long by (auto simp: getValidKeyName_def isValidKey_def isLongKeyValid_iff)
  next
    case dashes
    then have "getKeyName v = (''-'', ShortKey)"
      by (simp add: getKeyName_def parseKey_def hasPrefix_def LONG_KEY_PREFIX_def SHORT_KEY_PREFIX_def)
    moreover have "\<not> isShortKeyValid ''-''" by (simp add: isShortKeyValid_def is_alpha_def)
    ultimately show ?thesis using dashes by (auto simp: getValidKeyName_def isValidKey_def isLongKeyValid_iff)
  next
    case (short c r)
    then have "getKeyName v = (c # r, ShortKey)"
      by (auto simp: getKeyName_def parseKey_def hasPrefix_iff LONG_KEY_PREFIX_def SHORT_KEY_PREFIX_def)
    then show ?thesis using short by (auto simp: getValidKeyName_def isValidKey_def)
  next
    case dash
    then have "getKeyName v = ('''', OtherElement)"
      by (simp add: getKeyName_def parseKey_def hasPrefix_def LONG_KEY_PREFIX_def SHORT_KEY_PREFIX_def)
    then show ?thesis using dash by (auto simp: getValidKeyName_def isLongKeyValid_iff)
  next
    case other
    then have "\<not> hasPrefix v ''-''" "\<not> hasPrefix v ''--''" by (auto simp: hasPrefix_iff)
    then have "getKeyName v = ('''', OtherElement)"
      by (simp add: getKeyName_def parseKey_def LONG_KEY_PREFIX_def SHORT_KEY_PREFIX_def)
    then show ?thesis using other by (auto simp: getValidKeyName_def)
  qed
qed

text \<open>A command set is valid when its commands are and no long key and no short key is there twice.\<close>

lemma commands_valid_iff:
  "commands_valid assured ls ss cmds \<longleftrightarrow>
     (assured \<or> (\<forall>c \<in> set cmds. isCommandValid c)) \<and>
     distinct (map co_longKey cmds) \<and> set (map co_longKey cmds) \<inter> set ls = {} \<and>
     distinct (filter (\<lambda>s. s \<noteq> '''') (map co_shortKey cmds)) \<and>
     set (filter (\<lambda>s. s \<noteq> '''') (map co_shortKey cmds)) \<inter> set ss = {}"
proof (induction assured ls ss cmds rule: commands_valid.induct)
  case (2 assured ls ss cmd cmds)
  then show ?case
    by (cases "\<not> assured \<and> \<not> isCommandValid cmd"; cases "co_longKey cmd \<in> set ls";
        cases "co_shortKey cmd = ''''"; cases "co_shortKey cmd \<in> set ss") (simp_all add: Let_def, blast+)
qed simp

lemma isCommandSetValid_iff:
  "isCommandSetValid cmds assured \<longleftrightarrow>
     (assured \<or> (\<forall>c \<in> set cmds. isCommandValid c)) \<and>
     distinct (map co_longKey cmds) \<and> distinct (filter (\<lambda>s. s \<noteq> '''') (map co_shortKey cmds))"
  by (simp add: isCommandSetValid_def commands_valid_iff)

end
