(* ===== verification/Cli_Params.thy ===== *)
theory Cli_Params
  imports Cli_Keys Std_Map
begin

section \<open>Parameters of commands\<close>

text \<open>
  The parameters of a command (source/octf/cli/internal/param): what they have in common
  (Parameter.cpp), numbers, strings, enumerations, yes-no parameters and flags. The options of a
  parameter come from the description of a field of the input message (opts.proto); a message is
  the map from the numbers of its fields to their values. Parameters of type double are left out,
  and a field of that type counts among those that are not supported (\<open>TYPE_OTHER\<close>).

  A number is an \<open>int\<close>; it is read into 64 bits by \<open>operator>>\<close> in the classic locale, which
  fails where the number does not fit (\<open>read_int64\<close>). An assertion that fails is
  \<open>Undefined_Behaviour\<close>.
\<close>

subsection \<open>Descriptions\<close>

record opts_num =
  on_min :: int
  on_max :: int
  on_default_value :: int

record opts_string =
  os_default_value :: string
  os_repeated_limit :: nat

datatype cli_param =
    CliNum opts_num
  | CliStr opts_string
  | CliEnum int
  | NoCliParam

record opts_param =
  op_required :: bool
  op_short_key :: string
  op_long_key :: string
  op_desc :: string
  op_param :: cli_param

text \<open>The options of an enumerator: its switch and its description, and the number it has.\<close>

record enum_value_desc =
  ev_number :: int
  ev_opts :: "(string \<times> string) option"

datatype field_type =
    TYPE_INT32 | TYPE_INT64 | TYPE_UINT32 | TYPE_STRING | TYPE_BOOL
  | TYPE_ENUM "enum_value_desc list" "opts_param option"
  | TYPE_OTHER

record field_desc =
  fd_name :: string
  fd_number :: int
  fd_type :: field_type
  fd_repeated :: bool
  fd_opts :: "opts_param option"

datatype field_value =
    VInt32 int | VInt64 int | VUInt32 int | VString string | VStrings "string list" | VBool bool | VEnum int

type_synonym message = "(int, field_value) std_map"

subsection \<open>State\<close>

record param_common =
  p_shortKey :: string
  p_longKey :: string
  p_desc :: string
  p_what :: string
  p_index :: int
  p_set :: bool
  p_required :: bool
  p_hidden :: bool

record number_state =
  n_number :: int
  n_min :: int
  n_max :: int
  n_unit :: string
  n_default :: int
  n_hasDefault :: bool
  n_details :: string

record string_state =
  s_values :: "string list"
  s_defaultValues :: "string list"
  s_hasDefaultValue :: bool
  s_maxLength :: nat
  s_multipleValue :: bool
  s_multipleValueLimit :: nat

record enum_item =
  i_value :: int
  i_name :: string
  i_desc :: string

record enum_state =
  e_enums :: "(int, enum_item) std_map"
  e_value :: int
  e_default :: int
  e_hasDefault :: bool
  e_details :: string

datatype param =
    ParamNumber param_common number_state
  | ParamString param_common string_state
  | ParamEnum param_common enum_state
  | ParamFlag param_common

fun common :: "param \<Rightarrow> param_common" where
  "common (ParamNumber c n) = c"
| "common (ParamString c s) = c"
| "common (ParamEnum c e) = c"
| "common (ParamFlag c) = c"

fun upd_common :: "(param_common \<Rightarrow> param_common) \<Rightarrow> param \<Rightarrow> param" where
  "upd_common f (ParamNumber c n) = ParamNumber (f c) n"
| "upd_common f (ParamString c s) = ParamString (f c) s"
| "upd_common f (ParamEnum c e) = ParamEnum (f c) e"
| "upd_common f (ParamFlag c) = ParamFlag (f c)"

definition Parameter :: param_common where
  "Parameter =
     \<lparr>p_shortKey = '''', p_longKey = '''', p_desc = '''', p_what = ''<VALUE>'', p_index = 0,
      p_set = False, p_required = False, p_hidden = False\<rparr>"

text \<open>\<open>Parameter::setOptions\<close>.\<close>

definition common_setOptions :: "opts_param option \<Rightarrow> param_common \<Rightarrow> param_common" where
  "common_setOptions opts c =
     (case opts of
        None \<Rightarrow> c
      | Some ops \<Rightarrow>
          c\<lparr>p_hidden := False, p_required := op_required ops, p_desc := op_desc ops,
            p_longKey := op_long_key ops, p_shortKey := op_short_key ops\<rparr>)"

definition quoted :: "string \<Rightarrow> string" where
  "quoted s = CHR 0x27 # s @ [CHR 0x27]"

subsection \<open>Numbers\<close>

definition INT64_MIN :: int where "INT64_MIN = - 9223372036854775808"
definition INT64_MAX :: int where "INT64_MAX = 9223372036854775807"
definition INT32_MIN :: int where "INT32_MIN = - 2147483648"
definition INT32_MAX :: int where "INT32_MAX = 2147483647"
definition UINT32_MAX :: int where "UINT32_MAX = 4294967295"

definition digit_value :: "char \<Rightarrow> int" where
  "digit_value c = int (of_char c) - 48"

definition digits_value :: "string \<Rightarrow> int" where
  "digits_value ds = foldl (\<lambda>v c. 10 * v + digit_value c) 0 ds"

text \<open>The number read, whether the extraction failed, and whether it reached the end.\<close>

definition read_int64 :: "string \<Rightarrow> int \<times> bool \<times> bool" where
  "read_int64 s =
     (let t = dropWhile is_space s;
          signed = t \<noteq> [] \<and> (hd t = CHR ''-'' \<or> hd t = CHR ''+'');
          u = (if signed then tl t else t);
          ds = takeWhile is_digit u;
          rest = dropWhile is_digit u;
          v = (if signed \<and> hd t = CHR ''-'' then - digits_value ds else digits_value ds)
      in if ds = [] then (0, True, rest = [])
         else if v < INT64_MIN then (INT64_MIN, True, rest = [])
         else if v > INT64_MAX then (INT64_MAX, True, rest = [])
         else (v, False, rest = []))"

fun nat_digits :: "nat \<Rightarrow> string" where
  "nat_digits n = (if n < 10 then [] else nat_digits (n div 10)) @ [char_of (48 + n mod 10)]"

declare nat_digits.simps [simp del]

text \<open>What \<open>operator<<\<close> writes for a number.\<close>

definition int_string :: "int \<Rightarrow> string" where
  "int_string i = (if i < 0 then ''-'' else '''') @ nat_digits (nat \<bar>i\<bar>)"

definition number_new :: number_state where
  "number_new =
     \<lparr>n_number = 0, n_min = INT64_MIN, n_max = INT64_MAX, n_unit = '''', n_default = 0,
      n_hasDefault = False, n_details = ''''\<rparr>"

definition number_setValue :: "string \<Rightarrow> param_common \<Rightarrow> number_state \<Rightarrow> param res" where
  "number_setValue v c n =
     (if p_set c then Inl (Invalid_Parameter (''Option '' @ quoted (p_longKey c) @ '' double set.''))
      else if v = '''' then
        Inl (Invalid_Parameter (''Value of option '' @ quoted (p_longKey c) @ '' is missing.''))
      else
        let (number, fail, eof) = read_int64 v
        in if fail \<or> \<not> eof then
             Inl (Invalid_Parameter (''Value of option '' @ quoted (p_longKey c) @ '' is invalid.''))
           else if number < n_min n \<or> number > n_max n then
             Inl (Invalid_Parameter (''Value of option '' @ quoted (p_longKey c) @ '' is out of range.''))
           else Inr (ParamNumber (c\<lparr>p_set := True\<rparr>) (n\<lparr>n_number := number\<rparr>)))"

definition number_getRange :: "number_state \<Rightarrow> string" where
  "number_getRange n = ''<'' @ int_string (n_min n) @ ''-'' @ int_string (n_max n) @ ''>''"

definition number_toString :: "number_state \<Rightarrow> string" where
  "number_toString n = int_string (n_number n)"

definition number_parseToProtobuf :: "field_desc \<Rightarrow> number_state \<Rightarrow> message \<Rightarrow> message res" where
  "number_parseToProtobuf fd n m =
     (case fd_type fd of
        TYPE_INT32 \<Rightarrow>
          if n_number n \<ge> INT32_MIN \<and> n_number n \<le> INT32_MAX
          then Inr (map_put (fd_number fd) (VInt32 (n_number n)) m)
          else Inl (Invalid_Parameter ''Number value out of range.'')
      | TYPE_INT64 \<Rightarrow> Inr (map_put (fd_number fd) (VInt64 (n_number n)) m)
      | TYPE_UINT32 \<Rightarrow>
          if n_number n \<ge> 0 \<and> n_number n \<le> UINT32_MAX
          then Inr (map_put (fd_number fd) (VUInt32 (n_number n)) m)
          else Inl (Invalid_Parameter ''Number value out of range.'')
      | _ \<Rightarrow> Inl (Invalid_Parameter ''Number value out of range.''))"

definition number_details :: "param_common \<Rightarrow> number_state \<Rightarrow> number_state" where
  "number_details c n =
     (if \<not> n_hasDefault n \<and> n_unit n = '''' then n\<lparr>n_details := p_desc c\<rparr>
      else
        n\<lparr>n_details :=
           p_desc c @ '' ('' @
           (if n_hasDefault n
            then ''default: '' @ int_string (n_default n) @ (if n_unit n \<noteq> '''' then '', '' else '''')
            else '''') @
           (if n_unit n \<noteq> '''' then ''unit: '' @ n_unit n else '''') @ '')''\<rparr>)"

definition number_setMin :: "int \<Rightarrow> param_common \<times> number_state \<Rightarrow> param_common \<times> number_state" where
  "number_setMin mn = (\<lambda>(c, n). let n = n\<lparr>n_min := mn\<rparr> in (c\<lparr>p_what := number_getRange n\<rparr>, n))"

definition number_setMax :: "int \<Rightarrow> param_common \<times> number_state \<Rightarrow> param_common \<times> number_state" where
  "number_setMax mx = (\<lambda>(c, n). let n = n\<lparr>n_max := mx\<rparr> in (c\<lparr>p_what := number_getRange n\<rparr>, n))"

definition number_setDefault :: "int \<Rightarrow> param_common \<times> number_state \<Rightarrow> param_common \<times> number_state" where
  "number_setDefault d =
     (\<lambda>(c, n). (c, number_details c (n\<lparr>n_default := d, n_hasDefault := True, n_number := d\<rparr>)))"

definition number_setUnit :: "string \<Rightarrow> param_common \<times> number_state \<Rightarrow> param_common \<times> number_state" where
  "number_setUnit u = (\<lambda>(c, n). (c, number_details c (n\<lparr>n_unit := u\<rparr>)))"

text \<open>\<open>Parameter::setOptions\<close> calls the overridden \<open>setDesc\<close>, which renews the details.\<close>

definition number_setOptions :: "field_desc \<Rightarrow> param_common \<times> number_state \<Rightarrow> (param_common \<times> number_state) res" where
  "number_setOptions fd st =
     (case fd_opts fd of
        None \<Rightarrow>
          Inl (Octf_Exception (''Input message'' @ [CHR 0x27] @ ''s field: '' @ fd_name fd @ '' does not have parameter options''))
      | Some ops \<Rightarrow>
          let c = common_setOptions (fd_opts fd) (fst st);
              st = (c, number_details c (snd st))
          in case op_param ops of
               CliNum o' \<Rightarrow>
                 Inr (number_setMax (on_max o') (number_setMin (on_min o') (number_setDefault (on_default_value o') st)))
             | _ \<Rightarrow>
                 (case fd_type fd of
                    TYPE_INT32 \<Rightarrow> Inr (number_setDefault 0 (number_setMax INT32_MAX (number_setMin INT32_MIN st)))
                  | TYPE_INT64 \<Rightarrow> Inr (number_setDefault 0 (number_setMax INT64_MAX (number_setMin INT64_MIN st)))
                  | TYPE_UINT32 \<Rightarrow> Inr (number_setDefault 0 (number_setMax UINT32_MAX (number_setMin 0 st)))
                  | _ \<Rightarrow> Inl (Invalid_Parameter ''Unsupported numeric type.'')))"
subsection \<open>Strings\<close>

definition MAX_STRING_LENGTH :: nat where "MAX_STRING_LENGTH = 4096"

definition PARAMETER_VALUE_DELIMITER :: char where "PARAMETER_VALUE_DELIMITER = CHR '',''"

definition string_new :: string_state where
  "string_new =
     \<lparr>s_values = [], s_defaultValues = [], s_hasDefaultValue = False, s_maxLength = MAX_STRING_LENGTH,
      s_multipleValue = False, s_multipleValueLimit = 0\<rparr>"

function parseValuesToVector :: "string \<Rightarrow> string list" where
  "parseValuesToVector values =
     (if PARAMETER_VALUE_DELIMITER \<in> set values
      then takeWhile (\<lambda>c. c \<noteq> PARAMETER_VALUE_DELIMITER) values #
        parseValuesToVector (tl (dropWhile (\<lambda>c. c \<noteq> PARAMETER_VALUE_DELIMITER) values))
      else [values])"
  by pat_completeness auto
termination
proof (relation "measure length")
  fix vs :: string
  assume "PARAMETER_VALUE_DELIMITER \<in> set vs"
  then have "vs \<noteq> []" by auto
  moreover have "length (dropWhile (\<lambda>c. c \<noteq> PARAMETER_VALUE_DELIMITER) vs) \<le> length vs"
    by (rule length_dropWhile_le)
  ultimately show "(tl (dropWhile (\<lambda>c. c \<noteq> PARAMETER_VALUE_DELIMITER) vs), vs) \<in> measure length"
    by (cases vs) (auto simp: less_Suc_eq_le le_diff_conv)
qed simp

declare parseValuesToVector.simps [simp del]

definition getMultipleValue :: "param_common \<Rightarrow> string_state \<Rightarrow> string list res" where
  "getMultipleValue c s =
     (if s_multipleValue s then Inr (if p_set c then s_values s else s_defaultValues s)
      else Inl (Invalid_Parameter (''Option '' @ quoted (p_longKey c) @ '' access error, use regular getter'')))"

definition string_getValue :: "param_common \<Rightarrow> string_state \<Rightarrow> string res" where
  "string_getValue c s =
     (if \<not> s_multipleValue s then
        Inr (if s_values s \<noteq> [] then hd (s_values s)
             else if s_defaultValues s \<noteq> [] then hd (s_defaultValues s)
             else '''')
      else Inl (Invalid_Parameter (''Option '' @ quoted (p_longKey c) @ '' access error, use multiple getter'')))"

definition validate :: "param_common \<Rightarrow> string_state \<Rightarrow> unit res" where
  "validate c s =
     (if s_multipleValue s then
        and_then (getMultipleValue c s) (\<lambda>values.
          if s_multipleValueLimit s \<noteq> 0 \<and> s_multipleValueLimit s < length values then
            Inl (Invalid_Parameter (''Limit of multiple values of option '' @ quoted (p_longKey c) @ '' exceed.''))
          else if \<exists>v \<in> set values. length v > s_maxLength s then
            Inl (Invalid_Parameter
              (''Multiple value'' @ [CHR 0x27] @ ''s item length of option '' @ quoted (p_longKey c) @ '' is too long.''))
          else Inr ())
      else
        and_then (string_getValue c s) (\<lambda>v.
          if length v > s_maxLength s then
            Inl (Invalid_Parameter (''Value length of option '' @ quoted (p_longKey c) @ '' is too long.''))
          else Inr ()))"

definition string_setValue :: "string \<Rightarrow> param_common \<Rightarrow> string_state \<Rightarrow> param res" where
  "string_setValue v c s =
     (if \<not> p_set c then
        if length v > s_maxLength s then
          Inl (Invalid_Parameter (''Value length of option '' @ quoted (p_longKey c) @ '' is too long.''))
        else
          let s = s\<lparr>s_values := (if s_multipleValue s then parseValuesToVector v else [v])\<rparr>
          in and_then (validate c s) (\<lambda>_. Inr (ParamString (c\<lparr>p_set := True\<rparr>) s))
      else Inl (Invalid_Parameter (''Value of option '' @ quoted (p_longKey c) @ '' is set multiple times.'')))"

definition string_setDefault :: "string \<Rightarrow> param_common \<Rightarrow> string_state \<Rightarrow> string_state res" where
  "string_setDefault v c s =
     (let s = s\<lparr>s_defaultValues := (if s_multipleValue s then parseValuesToVector v else [v])\<rparr>
      in and_then (validate c s) (\<lambda>_. Inr (s\<lparr>s_hasDefaultValue := True\<rparr>)))"

definition add_strings :: "int \<Rightarrow> string list \<Rightarrow> message \<Rightarrow> message" where
  "add_strings n vs m =
     (if vs = [] then m
      else map_put n (VStrings ((case map_find m n of Some (VStrings old) \<Rightarrow> old | _ \<Rightarrow> []) @ vs)) m)"

definition string_parseToProtobuf ::
    "field_desc \<Rightarrow> param_common \<Rightarrow> string_state \<Rightarrow> message \<Rightarrow> message res" where
  "string_parseToProtobuf fd c s m =
     (if s_multipleValue s then
        if \<not> fd_repeated fd then
          Inl (Invalid_Parameter (''Option '' @ quoted (p_longKey c) @
            '' cannot be parsed to protocol buffer, multiple value mismatch''))
        else and_then (getMultipleValue c s) (\<lambda>values. Inr (add_strings (fd_number fd) values m))
      else if p_set c then
        and_then (string_getValue c s) (\<lambda>v. Inr (map_put (fd_number fd) (VString v) m))
      else Inr m)"

definition string_setOptions :: "field_desc \<Rightarrow> param_common \<times> string_state \<Rightarrow> (param_common \<times> string_state) res" where
  "string_setOptions fd st =
     (case fd_opts fd of
        None \<Rightarrow>
          Inl (Octf_Exception (''Input message'' @ [CHR 0x27] @ ''s field: '' @ fd_name fd @
            '' does not have parameter options''))
      | Some ops \<Rightarrow>
          let c = common_setOptions (fd_opts fd) (fst st); s = snd st
          in case op_param ops of
               CliStr o' \<Rightarrow>
                 and_then (if os_default_value o' \<noteq> '''' then string_setDefault (os_default_value o') c s else Inr s)
                   (\<lambda>s. Inr (c, s\<lparr>s_multipleValueLimit := os_repeated_limit o'\<rparr>))
             | _ \<Rightarrow> Inr (c, s))"

definition string_setMultipleValue :: "bool \<Rightarrow> param_common \<times> string_state \<Rightarrow> param_common \<times> string_state" where
  "string_setMultipleValue b =
     (\<lambda>(c, s). (if b then c\<lparr>p_what := ''<VALUE>[,VALUE]''\<rparr> else c, s\<lparr>s_multipleValue := b\<rparr>))"

subsection \<open>Enumerations\<close>

definition enum_new :: enum_state where
  "enum_new = \<lparr>e_enums = [], e_value = 0, e_default = 0, e_hasDefault = False, e_details = ''''\<rparr>"

text \<open>The loop goes through all the items, so the last one of that name counts.\<close>

definition enum_lookup :: "string \<Rightarrow> enum_state \<Rightarrow> (bool \<times> int)" where
  "enum_lookup v e =
     foldl (\<lambda>(found, value) (k, item). if v = i_name item then (True, i_value item) else (found, value))
       (False, e_value e) (e_enums e)"

definition enum_setValue :: "string \<Rightarrow> param_common \<Rightarrow> enum_state \<Rightarrow> param res" where
  "enum_setValue v c e =
     (let (found, value) = enum_lookup v e
      in if \<not> found then
           Inl (Invalid_Parameter (''Value '' @ v @ '' of option '' @ quoted (p_longKey c) @ '' is invalid.''))
         else Inr (ParamEnum (c\<lparr>p_set := True\<rparr>) (e\<lparr>e_value := value\<rparr>)))"

definition hasEnum :: "int \<Rightarrow> string \<Rightarrow> enum_state \<Rightarrow> bool" where
  "hasEnum value name e \<longleftrightarrow>
     map_find (e_enums e) value \<noteq> None \<and>
     list_ex (\<lambda>(k, item). name = i_name item \<and> value = i_value item) (e_enums e)"

fun join_with :: "string \<Rightarrow> string list \<Rightarrow> string" where
  "join_with sep [] = ''''"
| "join_with sep [x] = x"
| "join_with sep (x # y # xs) = x @ sep @ join_with sep (y # xs)"

definition getDescShort :: "enum_state \<Rightarrow> string" where
  "getDescShort e = ''{'' @ join_with ''|'' (map (\<lambda>(k, item). i_name item) (e_enums e)) @ ''}''"

definition getDescLong :: "enum_state \<Rightarrow> string" where
  "getDescLong e =
     join_with '', ''
       (map (\<lambda>(k, item).
          i_name item @ (if i_desc item \<noteq> '''' then '' - '' @ i_desc item else '''') @
          (if e_hasDefault e \<and> e_default e = k then '' (default)'' else ''''))
        (e_enums e))"

definition enum_details :: "param_common \<times> enum_state \<Rightarrow> param_common \<times> enum_state" where
  "enum_details =
     (\<lambda>(c, e). (c\<lparr>p_what := getDescShort e\<rparr>, e\<lparr>e_details := p_desc c @ '', '' @ getDescLong e\<rparr>))"

fun stringToValue :: "string \<Rightarrow> (int, enum_item) std_map \<Rightarrow> int option" where
  "stringToValue name [] = None"
| "stringToValue name ((k, item) # es) =
     (if name = i_name item then Some (i_value item) else stringToValue name es)"

definition valueToString :: "int \<Rightarrow> enum_state \<Rightarrow> string option" where
  "valueToString v e = map_option i_name (map_find (e_enums e) v)"

definition addEnumVal ::
    "int \<Rightarrow> string \<Rightarrow> string \<Rightarrow> param_common \<times> enum_state \<Rightarrow> (param_common \<times> enum_state) res" where
  "addEnumVal value name desc =
     (\<lambda>(c, e).
        if hasEnum value name e then Inl (Undefined_Behaviour ''assert'')
        else
          Inr (enum_details
            (c, e\<lparr>e_enums := map_put value \<lparr>i_value = value, i_name = name, i_desc = desc\<rparr> (e_enums e)\<rparr>)))"

definition enum_setDefault :: "int \<Rightarrow> param_common \<times> enum_state \<Rightarrow> (param_common \<times> enum_state) res" where
  "enum_setDefault d =
     (\<lambda>(c, e).
        if map_find (e_enums e) d = None then Inl (Undefined_Behaviour ''assert'')
        else Inr (enum_details (c, e\<lparr>e_default := d, e_value := d, e_hasDefault := True\<rparr>)))"

definition enum_parseToProtobuf :: "field_desc \<Rightarrow> enum_state \<Rightarrow> message \<Rightarrow> message res" where
  "enum_parseToProtobuf fd e m = Inr (map_put (fd_number fd) (VEnum (e_value e)) m)"

definition setEnumOptions :: "opts_param \<Rightarrow> param_common \<times> enum_state \<Rightarrow> (param_common \<times> enum_state) res" where
  "setEnumOptions ops =
     (\<lambda>(c, e).
        let (c, e) = (if op_desc ops \<noteq> '''' then enum_details (c\<lparr>p_desc := op_desc ops\<rparr>, e) else (c, e));
            c = (if op_long_key ops \<noteq> '''' then c\<lparr>p_longKey := op_long_key ops\<rparr> else c);
            c = (if op_short_key ops \<noteq> '''' then c\<lparr>p_shortKey := op_short_key ops\<rparr> else c)
        in case op_param ops of
             CliEnum d \<Rightarrow> if \<not> op_required ops then enum_setDefault d (c, e) else Inr (c, e)
           | _ \<Rightarrow> Inr (c, e))"

fun addEnumVals ::
    "int \<Rightarrow> enum_value_desc list \<Rightarrow> param_common \<times> enum_state \<Rightarrow> (param_common \<times> enum_state) res" where
  "addEnumVals i [] st = Inr st"
| "addEnumVals i (v # vs) st =
     (case ev_opts v of
        None \<Rightarrow> Inl (Octf_Exception ''Enum value has no opts_enumval options defined'')
      | Some (switch, desc) \<Rightarrow> and_then (addEnumVal i switch desc st) (addEnumVals (i + 1) vs))"

definition enum_setOptions :: "field_desc \<Rightarrow> param_common \<times> enum_state \<Rightarrow> (param_common \<times> enum_state) res" where
  "enum_setOptions fd st =
     (case fd_type fd of
        TYPE_ENUM vals eops \<Rightarrow>
          and_then (addEnumVals 0 vals st) (\<lambda>st.
          and_then (case eops of Some ops \<Rightarrow> setEnumOptions ops st | None \<Rightarrow> Inr st) (\<lambda>st.
          and_then (case fd_opts fd of Some ops \<Rightarrow> setEnumOptions ops st | None \<Rightarrow> Inr st) (\<lambda>st.
          if eops = None \<and> fd_opts fd = None then
            Inl (Octf_Exception (''Enum '' @ fd_name fd @ '' has no enum parameter options defined''))
          else Inr st)))
      | _ \<Rightarrow> Inl (Undefined_Behaviour ''enum_type of a field that is no enumeration''))"

definition ParamYesNo :: "(param_common \<times> enum_state) res" where
  "ParamYesNo = and_then (addEnumVal 0 ''no'' '''' (Parameter, enum_new)) (addEnumVal 1 ''yes'' '''')"

subsection \<open>Any parameter\<close>

text \<open>The virtual functions.\<close>

fun hasValue :: "param \<Rightarrow> bool" where
  "hasValue (ParamFlag c) \<longleftrightarrow> False"
| "hasValue _ \<longleftrightarrow> True"

fun param_setValue :: "string \<Rightarrow> param \<Rightarrow> param res" where
  "param_setValue v (ParamNumber c n) = number_setValue v c n"
| "param_setValue v (ParamString c s) = string_setValue v c s"
| "param_setValue v (ParamEnum c e) = enum_setValue v c e"
| "param_setValue v (ParamFlag c) = Inr (ParamFlag (c\<lparr>p_set := True\<rparr>))"

fun param_setOptions :: "field_desc \<Rightarrow> param \<Rightarrow> param res" where
  "param_setOptions fd (ParamNumber c n) =
     and_then (number_setOptions fd (c, n)) (\<lambda>(c, n). Inr (ParamNumber c n))"
| "param_setOptions fd (ParamString c s) =
     and_then (string_setOptions fd (c, s)) (\<lambda>(c, s). Inr (ParamString c s))"
| "param_setOptions fd (ParamEnum c e) =
     and_then (enum_setOptions fd (c, e)) (\<lambda>(c, e). Inr (ParamEnum c e))"
| "param_setOptions fd (ParamFlag c) = Inr (ParamFlag (common_setOptions (fd_opts fd) c))"

fun setMultipleValue :: "bool \<Rightarrow> param \<Rightarrow> param" where
  "setMultipleValue b (ParamString c s) =
     (let (c, s) = string_setMultipleValue b (c, s) in ParamString c s)"
| "setMultipleValue b p = p"

fun isMultipleValue :: "param \<Rightarrow> bool" where
  "isMultipleValue (ParamString c s) \<longleftrightarrow> s_multipleValue s"
| "isMultipleValue p \<longleftrightarrow> False"

fun param_parseToProtobuf :: "field_desc \<Rightarrow> param \<Rightarrow> message \<Rightarrow> message res" where
  "param_parseToProtobuf fd (ParamNumber c n) m = number_parseToProtobuf fd n m"
| "param_parseToProtobuf fd (ParamString c s) m = string_parseToProtobuf fd c s m"
| "param_parseToProtobuf fd (ParamEnum c e) m = enum_parseToProtobuf fd e m"
| "param_parseToProtobuf fd (ParamFlag c) m = Inr (map_put (fd_number fd) (VBool (p_set c)) m)"

fun param_getDesc :: "param \<Rightarrow> string" where
  "param_getDesc (ParamNumber c n) = n_details n"
| "param_getDesc (ParamString c s) = p_desc c"
| "param_getDesc (ParamEnum c e) = e_details e"
| "param_getDesc (ParamFlag c) = p_desc c"
subsection \<open>Multiple values\<close>

lemma parseValues_no_comma:
  "PARAMETER_VALUE_DELIMITER \<notin> set v \<Longrightarrow> parseValuesToVector v = [v]"
  by (simp add: parseValuesToVector.simps)

lemma parseValues_append:
  assumes "PARAMETER_VALUE_DELIMITER \<notin> set v"
  shows "parseValuesToVector (v @ PARAMETER_VALUE_DELIMITER # s) = v # parseValuesToVector s"
proof -
  have "takeWhile (\<lambda>c. c \<noteq> PARAMETER_VALUE_DELIMITER) (v @ PARAMETER_VALUE_DELIMITER # s) = v"
    "dropWhile (\<lambda>c. c \<noteq> PARAMETER_VALUE_DELIMITER) (v @ PARAMETER_VALUE_DELIMITER # s) = PARAMETER_VALUE_DELIMITER # s"
    using assms by (auto simp: takeWhile_append dropWhile_append)
  then show ?thesis by (subst parseValuesToVector.simps) simp
qed

lemma join_with_Cons: "vs \<noteq> [] \<Longrightarrow> join_with sep (v # vs) = v @ sep @ join_with sep vs"
  by (cases vs) auto

lemma parseValues_nonempty [simp]: "parseValuesToVector s \<noteq> []"
  by (subst parseValuesToVector.simps) simp

lemma parseValues_joined:
  assumes "vs \<noteq> []" "\<forall>v \<in> set vs. PARAMETER_VALUE_DELIMITER \<notin> set v"
  shows "parseValuesToVector (join_with [PARAMETER_VALUE_DELIMITER] vs) = vs"
  using assms
proof (induction vs)
  case (Cons v vs)
  then show ?case by (cases "vs = []") (simp_all add: parseValues_no_comma join_with_Cons parseValues_append)
qed simp

lemma joined_parseValues: "join_with [PARAMETER_VALUE_DELIMITER] (parseValuesToVector s) = s"
proof (induction s rule: parseValuesToVector.induct)
  case (1 s)
  show ?case
  proof (cases "PARAMETER_VALUE_DELIMITER \<in> set s")
    case True
    have "dropWhile (\<lambda>c. c \<noteq> PARAMETER_VALUE_DELIMITER) s =
        PARAMETER_VALUE_DELIMITER # tl (dropWhile (\<lambda>c. c \<noteq> PARAMETER_VALUE_DELIMITER) s)"
      using True by (metis (mono_tags, lifting) dropWhile_eq_Nil_conv hd_dropWhile list.collapse)
    then have "parseValuesToVector s = takeWhile (\<lambda>c. c \<noteq> PARAMETER_VALUE_DELIMITER) s #
        parseValuesToVector (tl (dropWhile (\<lambda>c. c \<noteq> PARAMETER_VALUE_DELIMITER) s))"
      using True by (subst parseValuesToVector.simps) simp
    then have "join_with [PARAMETER_VALUE_DELIMITER] (parseValuesToVector s) =
        takeWhile (\<lambda>c. c \<noteq> PARAMETER_VALUE_DELIMITER) s @ dropWhile (\<lambda>c. c \<noteq> PARAMETER_VALUE_DELIMITER) s"
      using 1 [OF True] \<open>dropWhile _ s = _\<close> by (simp add: join_with_Cons)
    then show ?thesis by simp
  qed (simp add: parseValues_no_comma)
qed

lemma parseValues_parts: "v \<in> set (parseValuesToVector s) \<Longrightarrow> PARAMETER_VALUE_DELIMITER \<notin> set v \<and> length v \<le> length s"
proof (induction s arbitrary: v rule: parseValuesToVector.induct)
  case (1 s)
  let ?rest = "tl (dropWhile (\<lambda>c. c \<noteq> PARAMETER_VALUE_DELIMITER) s)"
  show ?case
  proof (cases "PARAMETER_VALUE_DELIMITER \<in> set s")
    case True
    then have "parseValuesToVector s = takeWhile (\<lambda>c. c \<noteq> PARAMETER_VALUE_DELIMITER) s # parseValuesToVector ?rest"
      by (subst parseValuesToVector.simps) simp
    then consider "v = takeWhile (\<lambda>c. c \<noteq> PARAMETER_VALUE_DELIMITER) s" | "v \<in> set (parseValuesToVector ?rest)"
      using "1.prems" by auto
    then show ?thesis
    proof cases
      case 1
      then show ?thesis by (auto dest: set_takeWhileD simp: length_takeWhile_le)
    next
      case 2
      have "length ?rest \<le> length s" by (metis length_dropWhile_le length_tl diff_le_self le_trans)
      then show ?thesis using "1.IH" [OF True 2] by auto
    qed
  qed (use 1 in \<open>simp add: parseValues_no_comma\<close>)
qed

text \<open>
  The list of values of a string option is read back whole: splitting what commas join gives the
  values, and joining what is split gives the text, as long as no value has a comma in it.
\<close>

theorem values_round_trip:
  "join_with '','' (parseValuesToVector s) = s \<and>
   (vs \<noteq> [] \<and> (\<forall>v \<in> set vs. CHR '','' \<notin> set v) \<longrightarrow> parseValuesToVector (join_with '','' vs) = vs)"
  using joined_parseValues [of s] parseValues_joined [of vs] by (simp add: PARAMETER_VALUE_DELIMITER_def)

lemma values_round_trip_witness:
  "join_with '','' (parseValuesToVector ''a,,b'') = ''a,,b'' \<and>
   parseValuesToVector (join_with '','' [''x'', ''yz'']) = [''x'', ''yz'']"
  using values_round_trip [of "''a,,b''" "[''x'', ''yz'']"] by simp

subsection \<open>Numbers as text\<close>

lemma digit_char: "d < 10 \<Longrightarrow> (of_char (char_of (48 + d :: nat)) :: nat) = 48 + d"
  by simp

lemma nat_digits_char: "c \<in> set (nat_digits n) \<Longrightarrow> is_digit c"
proof (induction n rule: nat_digits.induct)
  case (1 n)
  have "n mod 10 < 10" by simp
  then have "is_digit (char_of (48 + n mod 10))" by (simp add: is_digit_def)
  then show ?case using 1 by (subst (asm) (2) nat_digits.simps) (auto split: if_splits)
qed

lemma digits_value_snoc: "digits_value (ds @ [c]) = 10 * digits_value ds + digit_value c"
  by (simp add: digits_value_def)

lemma digits_value_nat_digits: "digits_value (nat_digits n) = int n"
proof (induction n rule: nat_digits.induct)
  case (1 n)
  have d: "digit_value (char_of (48 + n mod 10)) = int (n mod 10)"
    using digit_char [of "n mod 10"] by (simp add: digit_value_def)
  have "digits_value (nat_digits n) =
      10 * digits_value (if n < 10 then [] else nat_digits (n div 10)) + int (n mod 10)"
    by (subst nat_digits.simps) (simp add: digits_value_snoc d)
  also have "\<dots> = int n"
  proof (cases "n < 10")
    case True
    then show ?thesis by (simp add: digits_value_def)
  next
    case False
    have "int n = 10 * int (n div 10) + int (n mod 10)" by presburger
    then show ?thesis using False 1 by simp
  qed
  finally show ?case .
qed

lemma nat_digits_nonempty: "nat_digits n \<noteq> []"
  by (subst nat_digits.simps) simp

lemma read_nat_digits:
  "takeWhile is_digit (nat_digits n) = nat_digits n" "dropWhile is_digit (nat_digits n) = []"
  using nat_digits_char by (simp_all add: takeWhile_eq_all_conv)

lemma read_int_string:
  assumes "INT64_MIN \<le> i" "i \<le> INT64_MAX"
  shows "read_int64 (int_string i) = (i, False, True)"
proof -
  let ?ds = "nat_digits (nat \<bar>i\<bar>)"
  have hd: "is_digit (hd ?ds)" using nat_digits_nonempty nat_digits_char hd_in_set by blast
  then have no_sign: "hd ?ds \<noteq> CHR ''-''" "hd ?ds \<noteq> CHR ''+''" "\<not> is_space (hd ?ds)"
    by (auto simp: is_digit_def is_space_def)
  have v: "digits_value ?ds = \<bar>i\<bar>" by (simp add: digits_value_nat_digits)
  show ?thesis
  proof (cases "i < 0")
    case True
    then have "dropWhile is_space (int_string i) = CHR ''-'' # ?ds" by (simp add: int_string_def is_space_def)
    then show ?thesis using True assms nat_digits_nonempty v
      by (simp add: read_int64_def Let_def read_nat_digits del: takeWhile_eq_all_conv dropWhile_eq_Nil_conv)
  next
    case False
    then have "dropWhile is_space (int_string i) = ?ds"
      using no_sign nat_digits_nonempty by (cases ?ds) (simp_all add: int_string_def)
    then show ?thesis using False assms nat_digits_nonempty v no_sign
      by (simp add: read_int64_def Let_def read_nat_digits del: takeWhile_eq_all_conv dropWhile_eq_Nil_conv)
  qed
qed

lemma int_string_nonempty: "int_string i \<noteq> ''''"
  by (simp add: int_string_def nat_digits_nonempty)

lemma read_int64_range: "read_int64 s = (v, False, eof) \<Longrightarrow> INT64_MIN \<le> v \<and> v \<le> INT64_MAX"
  by (auto simp: read_int64_def Let_def split: if_splits)

text \<open>
  Property C32. A number option takes every number of its range, written the way the program prints it, and
  nothing that is out of the range: a value that is accepted is what was read, within the limits, and the
  option was not set before.
\<close>

theorem number_option_correct:
  "(INT64_MIN \<le> n_min n \<and> n_max n \<le> INT64_MAX \<and> n_min n \<le> i \<and> i \<le> n_max n \<and> \<not> p_set c \<longrightarrow>
      number_setValue (int_string i) c n = Inr (ParamNumber (c\<lparr>p_set := True\<rparr>) (n\<lparr>n_number := i\<rparr>))) \<and>
   (number_setValue v c n = Inr p \<longrightarrow>
      \<not> p_set c \<and> (\<exists>k. read_int64 v = (k, False, True) \<and> n_min n \<le> k \<and> k \<le> n_max n \<and>
         p = ParamNumber (c\<lparr>p_set := True\<rparr>) (n\<lparr>n_number := k\<rparr>)))"
proof (intro conjI impI)
  assume a: "INT64_MIN \<le> n_min n \<and> n_max n \<le> INT64_MAX \<and> n_min n \<le> i \<and> i \<le> n_max n \<and> \<not> p_set c"
  then have "read_int64 (int_string i) = (i, False, True)" by (intro read_int_string) auto
  then show "number_setValue (int_string i) c n = Inr (ParamNumber (c\<lparr>p_set := True\<rparr>) (n\<lparr>n_number := i\<rparr>))"
    using a by (simp add: number_setValue_def int_string_nonempty)
qed (auto simp: number_setValue_def split: if_splits prod.splits)

lemma number_option_correct_witness:
  "number_setValue (int_string (- 42)) Parameter number_new =
     Inr (ParamNumber (Parameter\<lparr>p_set := True\<rparr>) (number_new\<lparr>n_number := - 42\<rparr>))"
  using number_option_correct [of number_new "- 42" Parameter]
  by (simp add: number_new_def Parameter_def INT64_MIN_def INT64_MAX_def)
subsection \<open>What holds of a parameter\<close>

definition number_in :: "int \<Rightarrow> int \<Rightarrow> int \<Rightarrow> bool" where
  "number_in lo hi v \<longleftrightarrow> lo \<le> v \<and> v \<le> hi"

fun param_ok :: "param \<Rightarrow> bool" where
  "param_ok (ParamNumber c n) \<longleftrightarrow>
     number_in INT64_MIN INT64_MAX (n_number n) \<and> (p_set c \<longrightarrow> number_in (n_min n) (n_max n) (n_number n))"
| "param_ok (ParamString c s) \<longleftrightarrow>
     (p_set c \<longrightarrow> s_values s \<noteq> [] \<and> (\<forall>v \<in> set (s_values s). length v \<le> s_maxLength s))"
| "param_ok (ParamEnum c e) \<longleftrightarrow>
     (\<forall>k item. (k, item) \<in> set (e_enums e) \<longrightarrow> i_value item = k) \<and>
     (p_set c \<or> e_hasDefault e \<longrightarrow> e_value e \<in> fst ` set (e_enums e))"
| "param_ok (ParamFlag c) \<longleftrightarrow> True"

definition enum_matches :: "string \<Rightarrow> enum_state \<Rightarrow> (int \<times> enum_item) list" where
  "enum_matches v e = filter (\<lambda>(k, item). v = i_name item) (e_enums e)"

lemma enum_lookup_eq:
  "enum_lookup v e =
     (if enum_matches v e = [] then (False, e_value e) else (True, i_value (snd (last (enum_matches v e)))))"
proof -
  have "foldl (\<lambda>(found, value) (k, item). if v = i_name item then (True, i_value item) else (found, value)) (b, w) es =
      (if filter (\<lambda>(k, item). v = i_name item) es = [] then (b, w)
       else (True, i_value (snd (last (filter (\<lambda>(k, item). v = i_name item) es)))))"
    for b w and es :: "(int \<times> enum_item) list"
    by (induction es arbitrary: b w) auto
  then show ?thesis by (simp add: enum_lookup_def enum_matches_def)
qed

lemma enum_setValue_iff:
  "enum_setValue v c e = Inr p \<longleftrightarrow>
     enum_matches v e \<noteq> [] \<and>
     p = ParamEnum (c\<lparr>p_set := True\<rparr>) (e\<lparr>e_value := i_value (snd (last (enum_matches v e)))\<rparr>)"
  by (auto simp: enum_setValue_def enum_lookup_eq)

lemma number_setValue_Inr:
  assumes "number_setValue v c n = Inr p"
  shows "\<exists>k. number_in INT64_MIN INT64_MAX k \<and> number_in (n_min n) (n_max n) k \<and> \<not> p_set c \<and>
    p = ParamNumber (c\<lparr>p_set := True\<rparr>) (n\<lparr>n_number := k\<rparr>)"
  using assms by (auto simp: number_setValue_def number_in_def dest: read_int64_range split: if_splits prod.splits)

lemma string_setValue_Inr:
  assumes "string_setValue v c s = Inr p"
  shows "\<not> p_set c \<and> length v \<le> s_maxLength s \<and>
    p = ParamString (c\<lparr>p_set := True\<rparr>) (s\<lparr>s_values := (if s_multipleValue s then parseValuesToVector v else [v])\<rparr>)"
  using assms by (auto simp: string_setValue_def Let_def and_then_Inr_iff split: if_splits)

text \<open>
  A value that is accepted leaves the parameter what it is, marks it as set, and keeps the invariant.
\<close>

lemma param_setValue_ok:
  assumes "param_ok p" "param_setValue v p = Inr p'"
  shows "param_ok p'" "common p' = (common p)\<lparr>p_set := True\<rparr>" "hasValue p' = hasValue p"
proof -
  have "param_ok p' \<and> common p' = (common p)\<lparr>p_set := True\<rparr> \<and> hasValue p' = hasValue p"
  proof (cases p)
    case (ParamNumber c n)
    then show ?thesis using assms number_setValue_Inr [of v c n p'] by auto
  next
    case (ParamString c s)
    then have p': "length v \<le> s_maxLength s"
      "p' = ParamString (c\<lparr>p_set := True\<rparr>) (s\<lparr>s_values := (if s_multipleValue s then parseValuesToVector v else [v])\<rparr>)"
      using assms string_setValue_Inr [of v c s p'] by auto
    have "x \<in> set (parseValuesToVector v) \<Longrightarrow> length x \<le> s_maxLength s" for x
      using parseValues_parts [of x v] p'(1) by auto
    then show ?thesis using p' ParamString by simp
  next
    case (ParamEnum c e)
    then have m: "enum_matches v e \<noteq> []"
      "p' = ParamEnum (c\<lparr>p_set := True\<rparr>) (e\<lparr>e_value := i_value (snd (last (enum_matches v e)))\<rparr>)"
      using assms by (auto simp: enum_setValue_iff)
    then have "last (enum_matches v e) \<in> set (e_enums e)"
      using last_in_set [OF m(1)] by (simp add: enum_matches_def)
    moreover obtain k item where "last (enum_matches v e) = (k, item)" by fastforce
    ultimately have "i_value (snd (last (enum_matches v e))) \<in> fst ` set (e_enums e)"
      using assms(1) ParamEnum by force
    then show ?thesis using m assms(1) ParamEnum by simp
  qed (use assms in auto)
  then show "param_ok p'" "common p' = (common p)\<lparr>p_set := True\<rparr>" "hasValue p' = hasValue p" by auto
qed

text \<open>Which parameter is made for a field, and which values a field can hold.\<close>

fun kind_fits :: "field_type \<Rightarrow> bool \<Rightarrow> param \<Rightarrow> bool" where
  "kind_fits ty rep (ParamNumber c n) \<longleftrightarrow> ty \<in> {TYPE_INT32, TYPE_INT64, TYPE_UINT32} \<and> \<not> rep"
| "kind_fits ty rep (ParamString c s) \<longleftrightarrow> ty = TYPE_STRING \<and> s_multipleValue s = rep"
| "kind_fits ty rep (ParamEnum c e) \<longleftrightarrow> (\<exists>vals eops. ty = TYPE_ENUM vals eops) \<and> \<not> rep"
| "kind_fits ty rep (ParamFlag c) \<longleftrightarrow> ty = TYPE_BOOL \<and> \<not> rep"

definition made_for :: "field_desc \<Rightarrow> param \<Rightarrow> bool" where
  "made_for fd p \<longleftrightarrow> kind_fits (fd_type fd) (fd_repeated fd) p \<and> p_index (common p) = fd_number fd"

fun value_fits :: "field_type \<Rightarrow> bool \<Rightarrow> field_value \<Rightarrow> bool" where
  "value_fits ty rep (VInt32 i) \<longleftrightarrow> ty = TYPE_INT32 \<and> \<not> rep \<and> number_in INT32_MIN INT32_MAX i"
| "value_fits ty rep (VInt64 i) \<longleftrightarrow> ty = TYPE_INT64 \<and> \<not> rep \<and> number_in INT64_MIN INT64_MAX i"
| "value_fits ty rep (VUInt32 i) \<longleftrightarrow> ty = TYPE_UINT32 \<and> \<not> rep \<and> number_in 0 UINT32_MAX i"
| "value_fits ty rep (VString s) \<longleftrightarrow> ty = TYPE_STRING \<and> \<not> rep"
| "value_fits ty rep (VStrings vs) \<longleftrightarrow> ty = TYPE_STRING \<and> rep"
| "value_fits ty rep (VBool b) \<longleftrightarrow> ty = TYPE_BOOL \<and> \<not> rep"
| "value_fits ty rep (VEnum i) \<longleftrightarrow> (\<exists>vals eops. ty = TYPE_ENUM vals eops) \<and> \<not> rep"

lemma made_for_setValue:
  assumes "param_ok p" "param_setValue v p = Inr p'"
  shows "made_for fd p' = made_for fd p"
proof -
  have "kind_fits ty rep p' = kind_fits ty rep p" for ty rep
  proof (cases p)
    case (ParamNumber c n)
    then show ?thesis using assms number_setValue_Inr [of v c n p'] by auto
  next
    case (ParamString c s)
    then show ?thesis using assms string_setValue_Inr [of v c s p'] by auto
  qed (use assms in \<open>auto simp: enum_setValue_iff\<close>)
  then show ?thesis by (simp add: made_for_def param_setValue_ok(2) [OF assms])
qed

text \<open>
  What a parameter writes into a message is a value of its field's type, and it writes nothing else. The one
  thing that is not written is a string that was not given.
\<close>

lemma number_parse_fits:
  assumes "number_parseToProtobuf fd n m = Inr m'" "number_in INT64_MIN INT64_MAX (n_number n)"
  shows "\<exists>v. m' = map_put (fd_number fd) v m \<and> value_fits (fd_type fd) False v"
proof (cases "fd_type fd")
  case TYPE_INT32
  then show ?thesis using assms
    by (intro exI [of _ "VInt32 (n_number n)"]) (auto simp: number_parseToProtobuf_def number_in_def split: if_splits)
next
  case TYPE_INT64
  then show ?thesis using assms
    by (intro exI [of _ "VInt64 (n_number n)"]) (auto simp: number_parseToProtobuf_def)
next
  case TYPE_UINT32
  then show ?thesis using assms
    by (intro exI [of _ "VUInt32 (n_number n)"]) (auto simp: number_parseToProtobuf_def number_in_def split: if_splits)
qed (use assms in \<open>simp_all add: number_parseToProtobuf_def\<close>)

lemma string_parse_fits:
  assumes "string_parseToProtobuf fd c s m = Inr m'" "map_find m (fd_number fd) = None"
    "fd_type fd = TYPE_STRING" "s_multipleValue s = fd_repeated fd"
  shows "m' = m \<or> (\<exists>v. m' = map_put (fd_number fd) v m \<and> value_fits (fd_type fd) (fd_repeated fd) v)"
proof (cases "s_multipleValue s")
  case True
  then show ?thesis using assms
    by (auto simp: string_parseToProtobuf_def getMultipleValue_def add_strings_def split: if_splits
        intro!: exI [of _ "VStrings _"])
next
  case False
  then show ?thesis using assms
    by (auto simp: string_parseToProtobuf_def string_getValue_def split: if_splits intro!: exI [of _ "VString _"])
qed

lemma param_parseToProtobuf_cases:
  assumes "param_ok p" "made_for fd p" "param_parseToProtobuf fd p m = Inr m'" "map_find m (fd_number fd) = None"
  shows "(m' = m \<and> fd_type fd = TYPE_STRING) \<or>
    (\<exists>v. m' = map_put (fd_number fd) v m \<and> value_fits (fd_type fd) (fd_repeated fd) v)"
proof (cases p)
  case (ParamNumber c n)
  then show ?thesis using assms number_parse_fits [of fd n m m'] by (auto simp: made_for_def)
next
  case (ParamString c s)
  then show ?thesis using assms string_parse_fits [of fd c s m m'] by (auto simp: made_for_def)
next
  case (ParamEnum c e)
  then show ?thesis using assms
    by (auto simp: enum_parseToProtobuf_def made_for_def intro!: exI [of _ "VEnum _"])
next
  case (ParamFlag c)
  then show ?thesis using assms by (auto simp: made_for_def intro!: exI [of _ "VBool _"])
qed

lemma param_parseToProtobuf_fits:
  assumes "param_ok p" "made_for fd p" "param_parseToProtobuf fd p m = Inr m'" "map_find m (fd_number fd) = None"
  shows "k \<noteq> fd_number fd \<Longrightarrow> map_find m' k = map_find m k"
    "map_find m' (fd_number fd) = Some v \<Longrightarrow> value_fits (fd_type fd) (fd_repeated fd) v"
    "fd_type fd \<noteq> TYPE_STRING \<Longrightarrow> map_find m' (fd_number fd) \<noteq> None"
  using param_parseToProtobuf_cases [OF assms] assms(4) by (auto simp: map_find_def map_of_put)

subsection \<open>The limit of values, and what an enumeration ignores\<close>

text \<open>
  \<open>setValue\<close> checks the values before it marks the option as set, and until then \<open>getMultipleValue\<close>
  gives the default values: the limit of the values of an option is never compared with what the user gave.
\<close>

lemma limit_is_not_checked:
  assumes "\<not> p_set c" "s_multipleValue s" "length v \<le> s_maxLength s" "s_defaultValues s = []"
  shows "string_setValue v c s = Inr (ParamString (c\<lparr>p_set := True\<rparr>) (s\<lparr>s_values := parseValuesToVector v\<rparr>))"
  using assms by (simp add: string_setValue_def validate_def getMultipleValue_def Let_def)

lemma limit_is_not_checked_example:
  "string_setValue ''a,b,c'' Parameter (string_new\<lparr>s_multipleValue := True, s_multipleValueLimit := 2\<rparr>) =
     Inr (ParamString (Parameter\<lparr>p_set := True\<rparr>)
       (string_new\<lparr>s_multipleValue := True, s_multipleValueLimit := 2, s_values := [''a'', ''b'', ''c'']\<rparr>))"
  by (subst limit_is_not_checked)
    (simp_all add: Parameter_def string_new_def MAX_STRING_LENGTH_def parseValuesToVector.simps
      PARAMETER_VALUE_DELIMITER_def)

lemma enum_details_kept [simp]:
  "p_required (fst (enum_details st)) = p_required (fst st)"
  "p_set (fst (enum_details st)) = p_set (fst st)"
  "e_enums (snd (enum_details st)) = e_enums (snd st)"
  "e_value (snd (enum_details st)) = e_value (snd st)"
  "e_hasDefault (snd (enum_details st)) = e_hasDefault (snd st)"
  by (simp_all add: enum_details_def split: prod.splits)

lemma addEnumVals_enums:
  assumes "addEnumVals i vals st = Inr st'" "\<forall>k \<in> fst ` set (e_enums (snd st)). k < i"
  shows "p_required (fst st') = p_required (fst st)" "p_set (fst st') = p_set (fst st)"
    "e_hasDefault (snd st') = e_hasDefault (snd st)" "e_value (snd st') = e_value (snd st)"
    "e_enums (snd st') = e_enums (snd st) @
       map (\<lambda>j. (i + int j, \<lparr>i_value = i + int j, i_name = fst (the (ev_opts (vals ! j))),
         i_desc = snd (the (ev_opts (vals ! j)))\<rparr>)) [0..<length vals]"
proof -
  have put: "\<forall>k \<in> fst ` set m. k < i \<Longrightarrow> map_put i x m = m @ [(i, x)]" for m :: "(int, enum_item) std_map" and i x
    by (induction m) auto
  have "p_required (fst st') = p_required (fst st) \<and> p_set (fst st') = p_set (fst st) \<and>
    e_hasDefault (snd st') = e_hasDefault (snd st) \<and> e_value (snd st') = e_value (snd st) \<and>
    e_enums (snd st') = e_enums (snd st) @
       map (\<lambda>j. (i + int j, \<lparr>i_value = i + int j, i_name = fst (the (ev_opts (vals ! j))),
         i_desc = snd (the (ev_opts (vals ! j)))\<rparr>)) [0..<length vals]"
    using assms
  proof (induction i vals st rule: addEnumVals.induct)
    case (2 i v vs st)
    then obtain switch desc st1 where o: "ev_opts v = Some (switch, desc)" "addEnumVal i switch desc st = Inr st1"
      "addEnumVals (i + 1) vs st1 = Inr st'" by (auto simp: and_then_Inr_iff split: option.splits)
    have st1: "p_required (fst st1) = p_required (fst st)" "p_set (fst st1) = p_set (fst st)"
      "e_hasDefault (snd st1) = e_hasDefault (snd st)" "e_value (snd st1) = e_value (snd st)"
      "e_enums (snd st1) = e_enums (snd st) @ [(i, \<lparr>i_value = i, i_name = switch, i_desc = desc\<rparr>)]"
      using o(2) put [OF "2.prems"(2)]
      by (auto simp: addEnumVal_def split: prod.splits if_splits)
    have "\<forall>k \<in> fst ` set (e_enums (snd st1)). k < i + 1" using "2.prems"(2) st1(5) by auto
    note IH = "2.IH" [OF o(1) refl o(3) this]
    have "[0..<length (v # vs)] = 0 # map Suc [0..<length vs]" by (simp add: upt_conv_Cons map_Suc_upt del: upt_Suc)
    then show ?case using IH st1 o(1) by (simp add: algebra_simps comp_def)
  qed simp
  then show "p_required (fst st') = p_required (fst st)" "p_set (fst st') = p_set (fst st)"
    "e_hasDefault (snd st') = e_hasDefault (snd st)" "e_value (snd st') = e_value (snd st)"
    "e_enums (snd st') = e_enums (snd st) @
       map (\<lambda>j. (i + int j, \<lparr>i_value = i + int j, i_name = fst (the (ev_opts (vals ! j))),
         i_desc = snd (the (ev_opts (vals ! j)))\<rparr>)) [0..<length vals]" by auto
qed

definition enum_items :: "enum_value_desc list \<Rightarrow> (int, enum_item) std_map" where
  "enum_items vals =
     map (\<lambda>j. (int j, \<lparr>i_value = int j, i_name = fst (the (ev_opts (vals ! j))),
       i_desc = snd (the (ev_opts (vals ! j)))\<rparr>)) [0..<length vals]"

lemma enum_setDefault_Inr:
  assumes "enum_setDefault d (c, e) = Inr st'"
  shows "p_required (fst st') = p_required c" "p_set (fst st') = p_set c" "e_enums (snd st') = e_enums e"
    "e_value (snd st') \<in> fst ` set (e_enums e)"
proof -
  have "map_find (e_enums e) d \<noteq> None"
    and st': "st' = enum_details (c, e\<lparr>e_default := d, e_value := d, e_hasDefault := True\<rparr>)"
    using assms by (auto simp: enum_setDefault_def split: if_splits)
  then have "d \<in> fst ` set (e_enums e)" by (simp add: map_find_def map_of_eq_None_iff)
  with st' show "p_required (fst st') = p_required c" "p_set (fst st') = p_set c" "e_enums (snd st') = e_enums e"
    "e_value (snd st') \<in> fst ` set (e_enums e)" by simp_all
qed

lemma setEnumOptions_kept:
  assumes "setEnumOptions ops st = Inr st'"
  shows "p_required (fst st') = p_required (fst st)" "p_set (fst st') = p_set (fst st)"
    "e_enums (snd st') = e_enums (snd st)"
    "e_hasDefault (snd st') \<Longrightarrow> e_value (snd st') \<in> fst ` set (e_enums (snd st)) \<or>
       e_hasDefault (snd st) \<and> e_value (snd st') = e_value (snd st)"
proof -
  obtain c e where st: "st = (c, e)" by (cases st)
  obtain c1 e1 where 1: "(if op_desc ops \<noteq> '''' then enum_details (c\<lparr>p_desc := op_desc ops\<rparr>, e) else (c, e)) = (c1, e1)"
    by fastforce
  then have k: "p_required c1 = p_required c" "p_set c1 = p_set c" "e_enums e1 = e_enums e"
    "e_value e1 = e_value e" "e_hasDefault e1 = e_hasDefault e"
    by (auto simp: enum_details_def split: if_splits)
  define c2 where "c2 = (if op_long_key ops \<noteq> '''' then c1\<lparr>p_longKey := op_long_key ops\<rparr> else c1)"
  define c3 where "c3 = (if op_short_key ops \<noteq> '''' then c2\<lparr>p_shortKey := op_short_key ops\<rparr> else c2)"
  have c3: "p_required c3 = p_required c" "p_set c3 = p_set c" by (simp_all add: c3_def c2_def k)
  have r: "st' = (c3, e1) \<or> (\<exists>d. enum_setDefault d (c3, e1) = Inr st')"
    using assms by (auto simp: st setEnumOptions_def Let_def 1 c2_def c3_def
        split: cli_param.splits if_splits)
  show "p_required (fst st') = p_required (fst st)" "p_set (fst st') = p_set (fst st)"
    "e_enums (snd st') = e_enums (snd st)"
    using r k c3 enum_setDefault_Inr [of _ c3 e1 st'] by (auto simp: st)
  show "e_hasDefault (snd st') \<Longrightarrow> e_value (snd st') \<in> fst ` set (e_enums (snd st)) \<or>
       e_hasDefault (snd st) \<and> e_value (snd st') = e_value (snd st)"
    using r k enum_setDefault_Inr(4) [of _ c3 e1 st'] by (metis fst_conv snd_conv st)
qed

lemma enum_setOptions_kept:
  assumes "enum_setOptions fd (Parameter, enum_new) = Inr (c, e)"
  shows "\<not> p_required c" "\<not> p_set c" "param_ok (ParamEnum c e)"
    "fd_type fd = TYPE_ENUM vals eops \<Longrightarrow> e_enums e = enum_items vals"
proof -
  from assms obtain vals' eops' where ty: "fd_type fd = TYPE_ENUM vals' eops'"
    by (auto simp: enum_setOptions_def split: field_type.splits)
  then obtain st1 st2 where a: "addEnumVals 0 vals' (Parameter, enum_new) = Inr st1"
    and b: "(case eops' of Some ops \<Rightarrow> setEnumOptions ops st1 | None \<Rightarrow> Inr st1) = Inr st2"
    and c: "(case fd_opts fd of Some ops \<Rightarrow> setEnumOptions ops st2 | None \<Rightarrow> Inr st2) = Inr (c, e)"
    using assms by (auto simp: enum_setOptions_def and_then_Inr_iff split: if_splits)
  have 0: "\<forall>k \<in> fst ` set (e_enums (snd (Parameter, enum_new))). k < 0" by (simp add: enum_new_def)
  note A = addEnumVals_enums [OF a 0]
  have 2: "p_required (fst st2) = p_required (fst st1)" "p_set (fst st2) = p_set (fst st1)"
    "e_enums (snd st2) = e_enums (snd st1)"
    "e_hasDefault (snd st2) \<Longrightarrow> e_value (snd st2) \<in> fst ` set (e_enums (snd st1)) \<or> e_hasDefault (snd st1)"
    using b setEnumOptions_kept [of _ st1 st2] by (auto split: option.splits)
  have 3: "p_required c = p_required (fst st2)" "p_set c = p_set (fst st2)" "e_enums e = e_enums (snd st2)"
    "e_hasDefault e \<Longrightarrow> e_value e \<in> fst ` set (e_enums (snd st2)) \<or>
       e_hasDefault (snd st2) \<and> e_value e = e_value (snd st2)"
    using c setEnumOptions_kept [of _ st2 "(c, e)"] by (auto split: option.splits)
  have enums: "e_enums e = enum_items vals'" using A 2 3 by (simp add: enum_new_def enum_items_def)
  show "\<not> p_required c" "\<not> p_set c" using A 2 3 by (simp_all add: Parameter_def)
  have "e_hasDefault e \<Longrightarrow> e_value e \<in> fst ` set (e_enums e)" using A 2 3 by (auto simp: enum_new_def)
  moreover have "i_value item = k" if "(k, item) \<in> set (e_enums e)" for k item
    using that by (auto simp: enums enum_items_def)
  ultimately show "param_ok (ParamEnum c e)" using \<open>\<not> p_set c\<close> by simp
  show "fd_type fd = TYPE_ENUM vals eops \<Longrightarrow> e_enums e = enum_items vals" using enums ty by simp
qed

lemma enum_matches_nth:
  assumes "e_enums e = enum_items vals" "j < length vals" "distinct (map (\<lambda>v. fst (the (ev_opts v))) vals)"
  shows "\<exists>item. enum_matches (fst (the (ev_opts (vals ! j)))) e = [(int j, item)] \<and> i_value item = int j"
proof -
  have "i < length vals \<Longrightarrow> (fst (the (ev_opts (vals ! j))) = fst (the (ev_opts (vals ! i)))) = (i = j)" for i
    using assms(2,3) nth_eq_iff_index_eq [OF assms(3)] by (metis (no_types, lifting) length_map nth_map)
  then have "filter (\<lambda>i. fst (the (ev_opts (vals ! j))) = fst (the (ev_opts (vals ! i)))) [0..<length vals] =
      filter (\<lambda>i. i = j) [0..<length vals]" by (intro filter_cong) auto
  also have "\<dots> = [j]"
  proof -
    have "[0..<length vals] = [0..<j] @ j # [Suc j..<length vals]"
      using assms(2) by (metis le0 less_imp_le_nat upt_add_eq_append upt_conv_Cons le_add_diff_inverse)
    then show ?thesis by (simp add: filter_empty_conv del: upt_Suc)
  qed
  finally have f: "filter (\<lambda>i. fst (the (ev_opts (vals ! j))) = fst (the (ev_opts (vals ! i)))) [0..<length vals] = [j]" .
  show ?thesis using f by (auto simp: enum_matches_def assms(1) enum_items_def filter_map comp_def)
qed

text \<open>
  An enumeration takes exactly the switches of its enumerators and what it then puts into the
  message is the position of the enumerator; it is never a required option.
\<close>

theorem enum_option_correct:
  assumes "enum_setOptions fd (Parameter, enum_new) = Inr (c, e)" "fd_type fd = TYPE_ENUM vals eops"
  shows "((\<exists>p. enum_setValue v c e = Inr p) \<longleftrightarrow> v \<in> (\<lambda>d. fst (the (ev_opts d))) ` set vals) \<and>
    (j < length vals \<and> distinct (map (\<lambda>d. fst (the (ev_opts d))) vals) \<longrightarrow>
      (\<exists>c' e'. enum_setValue (fst (the (ev_opts (vals ! j)))) c e = Inr (ParamEnum c' e') \<and> p_set c' \<and>
        enum_parseToProtobuf fd e' m = Inr (map_put (fd_number fd) (VEnum (int j)) m))) \<and>
    \<not> p_required c"
proof (intro conjI impI)
  note en = enum_setOptions_kept(4) [OF assms]
  have "enum_matches v e \<noteq> [] \<longleftrightarrow> (\<exists>j \<in> {0..<length vals}. v = fst (the (ev_opts (vals ! j))))"
    by (auto simp: enum_matches_def en enum_items_def filter_map comp_def filter_empty_conv)
  also have "\<dots> \<longleftrightarrow> v \<in> (\<lambda>d. fst (the (ev_opts d))) ` set vals"
    by (fastforce simp: in_set_conv_nth image_iff)
  finally have "enum_matches v e \<noteq> [] \<longleftrightarrow> v \<in> (\<lambda>d. fst (the (ev_opts d))) ` set vals" .
  then show "(\<exists>p. enum_setValue v c e = Inr p) \<longleftrightarrow> v \<in> (\<lambda>d. fst (the (ev_opts d))) ` set vals"
    by (simp add: enum_setValue_iff)
next
  show "\<not> p_required c" by (rule enum_setOptions_kept(1) [OF assms(1)])
next
  note en = enum_setOptions_kept(4) [OF assms]
  assume "j < length vals \<and> distinct (map (\<lambda>d. fst (the (ev_opts d))) vals)"
  with enum_matches_nth [OF en, of j]
  show "\<exists>c' e'. enum_setValue (fst (the (ev_opts (vals ! j)))) c e = Inr (ParamEnum c' e') \<and> p_set c' \<and>
        enum_parseToProtobuf fd e' m = Inr (map_put (fd_number fd) (VEnum (int j)) m)"
    by (auto simp: enum_setValue_iff enum_parseToProtobuf_def)
qed

definition sample_enum :: field_desc where
  "sample_enum =
     \<lparr>fd_name = ''format'', fd_number = 3,
      fd_type = TYPE_ENUM [\<lparr>ev_number = 0, ev_opts = Some (''json'', '''')\<rparr>, \<lparr>ev_number = 5, ev_opts = Some (''csv'', '''')\<rparr>] None,
      fd_repeated = False,
      fd_opts = Some \<lparr>op_required = True, op_short_key = ''f'', op_long_key = ''format'', op_desc = ''Format'', op_param = NoCliParam\<rparr>\<rparr>"

text \<open>
  The enumerator \<open>csv\<close> with the number 5 is the second one, and the message gets 1; and although the
  description asks for it, the option is not required.
\<close>

lemma enum_option_correct_witness:
  "\<exists>c e c' e'. enum_setOptions sample_enum (Parameter, enum_new) = Inr (c, e) \<and> \<not> p_required c \<and>
     enum_setValue ''csv'' c e = Inr (ParamEnum c' e') \<and>
     enum_parseToProtobuf sample_enum e' [] = Inr [(3, VEnum 1)]"
proof -
  obtain c e where ce: "enum_setOptions sample_enum (Parameter, enum_new) = Inr (c, e)"
    by (fastforce simp: sample_enum_def enum_setOptions_def addEnumVal_def enum_new_def hasEnum_def map_find_def
        enum_details_def setEnumOptions_def Let_def split: prod.splits)
  have ty: "fd_type sample_enum = TYPE_ENUM [\<lparr>ev_number = 0, ev_opts = Some (''json'', '''')\<rparr>,
      \<lparr>ev_number = 5, ev_opts = Some (''csv'', '''')\<rparr>] None" by (simp add: sample_enum_def)
  show ?thesis using enum_option_correct [OF ce ty, of "''csv''" 1 "[]"] ce
    by (auto simp: sample_enum_def)
qed

end
