(* ===== verification/Cli_Command.thy ===== *)
theory Cli_Command
  imports Cli_Params "HOL-Library.Char_ord" "HOL-Library.List_Lexorder"
begin

section \<open>Commands\<close>

text \<open>
  A command and its parameters (source/octf/cli/internal/cmd/Command.cpp), the commands that are made
  from the description of a method (CommandProtobuf.cpp, CommandProtobufLocal.cpp), the lines of the
  help (CLIUtils.cpp), and the set of commands of a module (CommandSet.cpp).

  A parameter belongs to its command alone, so the map of shared pointers is the map of their
  parameters. After an exception the executor uses the command only for its help, which does not
  show the values: the model drops the partly filled parameters.
\<close>

datatype command_kind =
    HelpCmd
  | VersionCmd
  | ProtobufLocal "field_desc list" string nat
  | ProtobufRemote "field_desc list" string nat

record command =
  c_shortKey :: string
  c_longKey :: string
  c_desc :: string
  c_params :: "(string, param) std_map"
  c_hidden :: bool
  c_local :: bool
  c_kind :: command_kind

definition Command :: "command_kind \<Rightarrow> command" where
  "Command kind =
     \<lparr>c_shortKey = '''', c_longKey = '''', c_desc = '''', c_params = [], c_hidden = False, c_local = True,
      c_kind = kind\<rparr>"

definition CmdHelp :: command where
  "CmdHelp =
     (Command HelpCmd)\<lparr>c_shortKey := ''H'', c_longKey := ''help'', c_desc := ''Prints help'', c_local := True\<rparr>"

definition CmdVersion :: command where
  "CmdVersion =
     (Command VersionCmd)\<lparr>c_shortKey := ''V'', c_longKey := ''version'', c_desc := ''Prints version'', c_local := True\<rparr>"

subsection \<open>Parameters of a command\<close>

definition addParam :: "param \<Rightarrow> command \<Rightarrow> command res" where
  "addParam p cmd =
     (let k = p_longKey (common p)
      in if map_find (c_params cmd) k \<noteq> None then
           Inl (Invalid_Parameter (''Parameter '' @ k @ '' added twice.''))
         else Inr (cmd\<lparr>c_params := map_put k p (c_params cmd)\<rparr>))"

definition answers :: "string \<Rightarrow> param \<Rightarrow> bool" where
  "answers name p \<longleftrightarrow> p_shortKey (common p) = name \<or> p_longKey (common p) = name"

text \<open>The entry that \<open>getParam\<close> finds, or none where it throws.\<close>

definition getParam :: "string \<Rightarrow> (string, param) std_map \<Rightarrow> (string \<times> param) option" where
  "getParam name ps = find (\<lambda>(k, p). answers name p) ps"

definition getParamByIndex :: "int \<Rightarrow> (string, param) std_map \<Rightarrow> (string \<times> param) option" where
  "getParamByIndex i ps = find (\<lambda>(k, p). p_index (common p) = i) ps"

function parse_params :: "string list \<Rightarrow> (string, param) std_map \<Rightarrow> (string, param) std_map res" where
  "parse_params [] ps = Inr ps"
| "parse_params (element # l) ps =
     (let name = getValidKeyName element
      in if name = '''' then Inl (Octf_Exception ''Invalid parameter format'')
         else
           case getParam name ps of
             None \<Rightarrow> Inl (Octf_Exception (''Option '' @ quoted name @ '' is unrecognized.''))
           | Some (k, p) \<Rightarrow>
               if hasValue p then
                 if cli_hasNext l then
                   (case param_setValue (hd l) p of
                      Inl e \<Rightarrow> Inl e
                    | Inr p' \<Rightarrow> parse_params (tl l) (map_put k p' ps))
                 else
                   Inl (Octf_Exception
                     (''Value of option '' @ quoted (p_longKey (common p)) @ '' is missing.''))
               else
                 (case param_setValue '''' p of
                    Inl e \<Rightarrow> Inl e
                  | Inr p' \<Rightarrow> parse_params l (map_put k p' ps)))"
  by pat_completeness auto
termination by (relation "measure (\<lambda>(l, ps). length l)") auto

declare parse_params.simps [simp del]

definition missing :: "(string, param) std_map \<Rightarrow> param option" where
  "missing ps =
     map_option snd (find (\<lambda>(k, p). p_required (common p) \<and> \<not> p_set (common p)) ps)"

definition checkParamMissing :: "command \<Rightarrow> unit res" where
  "checkParamMissing cmd =
     (case missing (c_params cmd) of
        None \<Rightarrow> Inr ()
      | Some p \<Rightarrow> Inl (Octf_Exception (''Option '' @ quoted (p_longKey (common p)) @ '' is required.'')))"

text \<open>The loop ends only where there is no next element, so the check after it always passes.\<close>

definition parseParamValues :: "string list \<Rightarrow> command \<Rightarrow> command res" where
  "parseParamValues l cmd =
     and_then (parse_params l (c_params cmd)) (\<lambda>ps.
       let cmd = cmd\<lparr>c_params := ps\<rparr>
       in and_then (checkParamMissing cmd) (\<lambda>_. Inr cmd))"

subsection \<open>Commands of a service\<close>

definition new_param :: "field_type \<Rightarrow> param res" where
  "new_param ty =
     (case ty of
        TYPE_UINT32 \<Rightarrow> Inr (ParamNumber Parameter number_new)
      | TYPE_INT64 \<Rightarrow> Inr (ParamNumber Parameter number_new)
      | TYPE_INT32 \<Rightarrow> Inr (ParamNumber Parameter number_new)
      | TYPE_STRING \<Rightarrow> Inr (ParamString Parameter string_new)
      | TYPE_BOOL \<Rightarrow> Inr (ParamFlag (Parameter\<lparr>p_what := ''''\<rparr>))
      | TYPE_ENUM vals eops \<Rightarrow> Inr (ParamEnum Parameter enum_new)
      | TYPE_OTHER \<Rightarrow> Inl (Invalid_Parameter ''Parameter type not supported.''))"

definition createParameter :: "field_desc \<Rightarrow> param res" where
  "createParameter fd =
     and_then (new_param (fd_type fd)) (\<lambda>p.
     and_then (param_setOptions fd p) (\<lambda>p.
       let p = upd_common (p_index_update (\<lambda>_. fd_number fd)) p;
           p = setMultipleValue (fd_repeated fd) p
       in if fd_repeated fd \<and> \<not> isMultipleValue p then
            Inl (Invalid_Parameter (''CLI parameter doesn'' @ [CHR 0x27] @ ''t support multiple'' @
              '' values requested in .proto definition via '' @ quoted ''repeated'' @ ''.''))
          else Inr p))"

fun createParameters :: "field_desc list \<Rightarrow> command \<Rightarrow> command res" where
  "createParameters [] cmd = Inr cmd"
| "createParameters (fd # fds) cmd =
     and_then (createParameter fd) (\<lambda>p. and_then (addParam p cmd) (createParameters fds))"

fun command_parseToProtobuf :: "field_desc list \<Rightarrow> (string, param) std_map \<Rightarrow> message \<Rightarrow> message res" where
  "command_parseToProtobuf [] ps m = Inr m"
| "command_parseToProtobuf (fd # fds) ps m =
     (case getParamByIndex (fd_number fd) ps of
        None \<Rightarrow>
          Inl (Invalid_Parameter (''Option index '' @ quoted (int_string (fd_number fd)) @ '' is unrecognized.''))
      | Some (k, p) \<Rightarrow>
          and_then (param_parseToProtobuf fd p m) (command_parseToProtobuf fds ps))"

text \<open>
  The description of a command that a remote module sends: its options, the interface and the method,
  and the fields of the input message, or none where the types cannot be built from it.
\<close>

record command_desc =
  cd_ops :: command_ops
  cd_interface :: string
  cd_methodId :: nat
  cd_input :: "field_desc list option"

definition CommandProtobuf :: "command_desc \<Rightarrow> command res" where
  "CommandProtobuf d =
     (if \<not> isShortKeyValid (co_shortKey (cd_ops d)) then
        Inl (Octf_Exception ''Invalid short key for command.'')
      else if \<not> isLongKeyValid (co_longKey (cd_ops d)) then
        Inl (Octf_Exception ''Invalid long key for command.'')
      else
        case cd_input d of
          None \<Rightarrow> Inl (Invalid_Parameter ''Cannot build input and output types descriptions.'')
        | Some fds \<Rightarrow>
            createParameters fds
              ((Command (ProtobufRemote fds (cd_interface d) (cd_methodId d)))
                \<lparr>c_local := False, c_hidden := False, c_desc := co_desc (cd_ops d),
                 c_shortKey := co_shortKey (cd_ops d), c_longKey := co_longKey (cd_ops d)\<rparr>))"

definition CommandProtobufLocal :: "command_ops \<Rightarrow> field_desc list \<Rightarrow> string \<Rightarrow> nat \<Rightarrow> command res" where
  "CommandProtobufLocal ops fds interface method =
     (let cmd = (Command (ProtobufLocal fds interface method))
            \<lparr>c_local := True, c_hidden := False, c_desc := co_desc ops, c_longKey := co_longKey ops,
             c_shortKey := co_shortKey ops\<rparr>
      in if \<not> isLongKeyValid (c_longKey cmd) then
           Inl (Octf_Exception (''Invalid long key for local protobuf command: '' @ c_longKey cmd))
         else if \<not> isShortKeyValid (c_shortKey cmd) then
           Inl (Octf_Exception (''Invalid short key for local protobuf command: '' @ c_shortKey cmd))
         else createParameters fds cmd)"

subsection \<open>Help\<close>

definition pad_left :: "nat \<Rightarrow> string \<Rightarrow> string" where
  "pad_left n s = replicate (n - length s) (CHR '' '') @ s"

definition pad_right :: "nat \<Rightarrow> string \<Rightarrow> string" where
  "pad_right n s = s @ replicate (n - length s) (CHR '' '')"

text \<open>
  \<open>setw\<close> holds for the next output only: with a short key that is the left bracket, without one
  (where \<open>setw\<close> is called again) the prefix of the long key.
\<close>

definition printKeys :: "string \<Rightarrow> string \<Rightarrow> string \<Rightarrow> bool \<Rightarrow> string" where
  "printKeys shortKey longKey desc isList =
     (let leftBracket = (if isList then '''' else ''{'');
          rightBracket = (if isList then '''' else ''}'');
          delimiter = (if isList then ''    '' else '' | '');
          ending = (if isList then [CHR 0x0A] else '' '');
          shortAlignment = (if isList then 5 else 0 :: nat);
          longAlignment = (if isList then 35 else 0 :: nat);
          emptyShortKeyAlignment = (if isList then shortAlignment + 8 else 0);
          rightBracket = (if shortKey \<noteq> '''' then rightBracket else '''')
      in (if shortKey \<noteq> '''' then pad_left shortAlignment leftBracket @ SHORT_KEY_PREFIX @ shortKey @ delimiter @ LONG_KEY_PREFIX
          else pad_left emptyShortKeyAlignment LONG_KEY_PREFIX) @
         pad_right longAlignment longKey @ rightBracket @ '' '' @ desc @ ending)"

definition longKey_what :: "param \<Rightarrow> string" where
  "longKey_what p =
     p_longKey (common p) @ (if p_what (common p) \<noteq> '''' then '' '' @ p_what (common p) else '''')"

definition command_getHelp :: "command \<Rightarrow> string" where
  "command_getHelp cmd =
     concat (map (\<lambda>(k, p). printKeys (p_shortKey (common p)) (longKey_what p) (param_getDesc p) True) (c_params cmd))"

definition getCommandUsage :: "command \<Rightarrow> string" where
  "getCommandUsage cmd =
     printKeys '''' (c_longKey cmd) '''' False @
     concat (map (\<lambda>(k, p). if p_required (common p)
         then printKeys '''' (p_longKey (common p)) (p_what (common p)) False else '''') (c_params cmd)) @
     (if list_ex (\<lambda>(k, p). \<not> p_required (common p)) (c_params cmd) then '' [options...]'' else '''')"

definition printCmdHelp :: "string \<Rightarrow> command \<Rightarrow> string" where
  "printCmdHelp name cmd =
     ''Usage: '' @ name @ '' '' @ getCommandUsage cmd @ [CHR 0x0A, CHR 0x0A] @ c_desc cmd @ [CHR 0x0A] @ [CHR 0x0A] @
     ''Options that are valid with '' @ printKeys (c_shortKey cmd) (c_longKey cmd) '''' False @ [CHR 0x0A] @
     command_getHelp cmd"

subsection \<open>Sets of commands\<close>

type_synonym command_set = "(string, command) std_map"

definition has_name :: "string \<Rightarrow> command \<Rightarrow> bool" where
  "has_name name cmd \<longleftrightarrow> c_longKey cmd = name \<or> c_shortKey cmd = name"

definition getCmd :: "string \<Rightarrow> command_set \<Rightarrow> command res" where
  "getCmd name cs =
     (case find (\<lambda>(k, cmd). has_name name cmd) cs of
        Some (k, cmd) \<Rightarrow> Inr cmd
      | None \<Rightarrow> Inl (Invalid_Parameter ''Unknown command.''))"

definition hasCmd :: "string \<Rightarrow> command_set \<Rightarrow> bool" where
  "hasCmd name cs \<longleftrightarrow> list_ex (\<lambda>(k, cmd). has_name name cmd) cs"

definition addCmd :: "command \<Rightarrow> command_set \<Rightarrow> command_set res" where
  "addCmd cmd cs =
     (if c_longKey cmd = '''' then Inl (Invalid_Parameter ''Added command has no long key.'')
      else if c_shortKey cmd \<noteq> '''' \<and> hasCmd (c_shortKey cmd) cs then
        Inl (Octf_Exception (''Cannot add command because of short key conflict: '' @ c_shortKey cmd))
      else if hasCmd (c_longKey cmd) cs then
        Inl (Octf_Exception (''Cannot add command because of long key conflict: '' @ c_longKey cmd))
      else Inr (map_put (c_longKey cmd) cmd cs))"

text \<open>The constructor adds the help command.\<close>

definition CommandSet :: "command_set res" where
  "CommandSet = addCmd CmdHelp []"

definition set_getHelp :: "command_set \<Rightarrow> string" where
  "set_getHelp cs = concat (map (\<lambda>(k, cmd). printKeys (c_shortKey cmd) (c_longKey cmd) (c_desc cmd) True) cs)"
subsection \<open>Sets of commands answer to one command\<close>

definition cmdset_ok :: "command_set \<Rightarrow> bool" where
  "cmdset_ok cs \<longleftrightarrow>
     map_ok cs \<and> (\<forall>(k, c) \<in> set cs. c_longKey c = k \<and> k \<noteq> '''') \<and>
     (\<forall>(k, c) \<in> set cs. \<forall>(k', c') \<in> set cs. \<forall>name. name \<noteq> '''' \<longrightarrow> has_name name c \<longrightarrow> has_name name c' \<longrightarrow> k = k')"

lemma find_SomeD: "find P xs = Some x \<Longrightarrow> x \<in> set xs \<and> P x"
  by (metis find_Some_iff nth_mem)

lemma find_Some_unique:
  assumes "x \<in> set xs" "P x" "\<And>y. y \<in> set xs \<Longrightarrow> P y \<Longrightarrow> y = x"
  shows "find P xs = Some x"
proof (cases "find P xs")
  case None
  then show ?thesis using assms(1,2) by (simp add: find_None_iff)
next
  case (Some y)
  then have "y \<in> set xs" "P y" by (auto simp: find_Some_iff in_set_conv_nth)
  then show ?thesis using assms(3) Some by blast
qed

lemma cmdset_entry_unique:
  assumes "cmdset_ok cs" "(k, c) \<in> set cs" "(k', c') \<in> set cs" "name \<noteq> ''''" "has_name name c" "has_name name c'"
  shows "k = k' \<and> c = c'"
proof -
  have "k = k'" using assms unfolding cmdset_ok_def by blast
  moreover have "map_find cs k = Some c" "map_find cs k' = Some c'"
    using assms(1-3) by (simp_all add: cmdset_ok_def map_find_iff)
  ultimately show ?thesis by simp
qed

lemma getCmd_iff:
  assumes "cmdset_ok cs" "name \<noteq> ''''"
  shows "getCmd name cs = Inr c \<longleftrightarrow> (\<exists>k. (k, c) \<in> set cs \<and> has_name name c)"
proof
  assume "getCmd name cs = Inr c"
  then obtain k where "find (\<lambda>(k, cmd). has_name name cmd) cs = Some (k, c)"
    by (auto simp: getCmd_def split: option.splits)
  then show "\<exists>k. (k, c) \<in> set cs \<and> has_name name c" by (auto dest: find_SomeD)
next
  assume "\<exists>k. (k, c) \<in> set cs \<and> has_name name c"
  then obtain k where k: "(k, c) \<in> set cs" "has_name name c" by blast
  have "find (\<lambda>(k, cmd). has_name name cmd) cs = Some (k, c)"
  proof (rule find_Some_unique)
    fix y assume y: "y \<in> set cs" "case y of (k, cmd) \<Rightarrow> has_name name cmd"
    obtain a b where ab: "y = (a, b)" by (cases y)
    with y have "a = k \<and> b = c" by (intro cmdset_entry_unique [OF assms(1) _ k(1) assms(2) _ k(2)]) simp_all
    then show "y = (k, c)" by (simp add: ab)
  qed (use k in auto)
  then show "getCmd name cs = Inr c" by (simp add: getCmd_def)
qed

lemma hasCmd_iff: "hasCmd name cs \<longleftrightarrow> (\<exists>k c. (k, c) \<in> set cs \<and> has_name name c)"
  by (auto simp: hasCmd_def list_ex_iff)

lemma getCmd_Inl: "getCmd name cs = Inl e \<Longrightarrow> \<not> hasCmd name cs"
  by (auto simp: getCmd_def hasCmd_iff find_None_iff split: option.splits prod.splits)

lemma getCmd_absent: "\<not> hasCmd name cs \<Longrightarrow> getCmd name cs = Inl (Invalid_Parameter ''Unknown command.'')"
  by (auto simp: getCmd_def hasCmd_iff dest: find_SomeD split: option.splits)

lemma set_put_new:
  assumes "map_ok m" "k \<notin> fst ` set m"
  shows "set (map_put k v m) = insert (k, v) (set m)"
proof -
  have "(k', v') \<in> set (map_put k v m) \<longleftrightarrow> (k', v') \<in> insert (k, v) (set m)" for k' v'
  proof -
    have "(k', v') \<in> set (map_put k v m) \<longleftrightarrow> map_find (map_put k v m) k' = Some v'"
      using assms by (simp add: map_find_iff map_ok_put)
    also have "\<dots> \<longleftrightarrow> (if k' = k then v' = v else map_find m k' = Some v')"
      by (auto simp: map_find_def map_of_put)
    also have "\<dots> \<longleftrightarrow> (k', v') \<in> insert (k, v) (set m)"
      using assms by (force simp: map_find_iff)
    finally show ?thesis .
  qed
  then show ?thesis by auto
qed

lemma addCmd_Inr:
  assumes "cmdset_ok cs" "addCmd cmd cs = Inr cs'"
  shows "cmdset_ok cs' \<and> set cs' = insert (c_longKey cmd, cmd) (set cs)"
proof -
  have a: "addCmd cmd cs = Inr cs'" by (rule assms(2))
  then have long: "c_longKey cmd \<noteq> ''''" and free: "\<And>name. name \<noteq> '''' \<Longrightarrow> has_name name cmd \<Longrightarrow> \<not> hasCmd name cs"
    and cs': "cs' = map_put (c_longKey cmd) cmd cs" by (auto simp: addCmd_def has_name_def split: if_splits)
  have ok: "map_ok cs" "\<And>k c. (k, c) \<in> set cs \<Longrightarrow> c_longKey c = k" using assms(1) by (auto simp: cmdset_ok_def)
  have "\<not> hasCmd (c_longKey cmd) cs" using free long by (simp add: has_name_def)
  then have new: "c_longKey cmd \<notin> fst ` set cs" using ok(2) by (fastforce simp: hasCmd_iff has_name_def)
  have set: "set cs' = insert (c_longKey cmd, cmd) (set cs)" using set_put_new [OF ok(1) new] cs' by simp
  have no: "(k, c) \<in> set cs \<Longrightarrow> name \<noteq> '''' \<Longrightarrow> has_name name c \<Longrightarrow> has_name name cmd \<Longrightarrow> False" for k c name
    using free [of name] by (auto simp: hasCmd_iff)
  have "\<forall>(k, c) \<in> set cs'. \<forall>(k', c') \<in> set cs'. \<forall>name. name \<noteq> '''' \<longrightarrow> has_name name c \<longrightarrow> has_name name c' \<longrightarrow> k = k'"
    using no cmdset_entry_unique [OF assms(1)] by (auto simp: set)
  moreover have "\<forall>(k, c) \<in> set cs'. c_longKey c = k \<and> k \<noteq> ''''"
    using assms(1) long unfolding set cmdset_ok_def by auto
  moreover have "map_ok cs'" using ok(1) by (simp add: cs' map_ok_put)
  ultimately have "cmdset_ok cs'" by (simp only: cmdset_ok_def simp_thms)
  with set show ?thesis by blast
qed

text \<open>
  Adding a command to a set succeeds exactly when it has a long key and no command of the set answers
  to either of its keys. It then answers to its keys, every other name finds what it found before, and every name
  still finds at most one command.
\<close>

theorem addCmd_correct:
  assumes "cmdset_ok cs"
  shows "((\<exists>cs'. addCmd cmd cs = Inr cs') \<longleftrightarrow>
      c_longKey cmd \<noteq> '''' \<and> (\<forall>name. name \<noteq> '''' \<and> has_name name cmd \<longrightarrow> \<not> hasCmd name cs)) \<and>
    (addCmd cmd cs = Inr cs' \<longrightarrow>
      cmdset_ok cs' \<and>
      (\<forall>name. name \<noteq> '''' \<longrightarrow> getCmd name cs' = (if has_name name cmd then Inr cmd else getCmd name cs)))"
proof (intro conjI impI)
  show "(\<exists>cs'. addCmd cmd cs = Inr cs') \<longleftrightarrow>
      c_longKey cmd \<noteq> '''' \<and> (\<forall>name. name \<noteq> '''' \<and> has_name name cmd \<longrightarrow> \<not> hasCmd name cs)"
    by (auto simp: addCmd_def has_name_def)
next
  assume a: "addCmd cmd cs = Inr cs'"
  have ok': "cmdset_ok cs'" and set: "set cs' = insert (c_longKey cmd, cmd) (set cs)"
    using addCmd_Inr [OF assms a] by auto
  show "cmdset_ok cs'" by (rule ok')
  show "\<forall>name. name \<noteq> '''' \<longrightarrow> getCmd name cs' = (if has_name name cmd then Inr cmd else getCmd name cs)"
  proof (intro allI impI)
    fix name :: string assume n: "name \<noteq> ''''"
    show "getCmd name cs' = (if has_name name cmd then Inr cmd else getCmd name cs)"
    proof (cases "has_name name cmd")
      case True
      then show ?thesis using getCmd_iff [OF ok' n, of cmd] set by auto
    next
      case False
      show ?thesis
      proof (cases "getCmd name cs")
        case (Inl e)
        then have "\<not> hasCmd name cs" by (rule getCmd_Inl)
        moreover from this have "\<not> hasCmd name cs'" using False by (auto simp: hasCmd_iff set)
        ultimately show ?thesis using False by (simp add: getCmd_absent)
      next
        case (Inr c)
        then have "getCmd name cs' = Inr c" using getCmd_iff [OF assms n] getCmd_iff [OF ok' n] set by auto
        then show ?thesis using False Inr by simp
      qed
    qed
  qed
qed

lemma addCmd_correct_witness:
  "\<exists>cs'. addCmd CmdVersion [(''help'', CmdHelp)] = Inr cs' \<and> getCmd ''V'' cs' = Inr CmdVersion \<and> getCmd ''H'' cs' = Inr CmdHelp"
proof -
  have ok: "cmdset_ok [(''help'', CmdHelp)]" by (simp add: cmdset_ok_def map_ok_def CmdHelp_def Command_def)
  have "\<exists>cs'. addCmd CmdVersion [(''help'', CmdHelp)] = Inr cs'"
    by (simp add: addCmd_def CmdVersion_def CmdHelp_def Command_def hasCmd_def has_name_def)
  then show ?thesis using addCmd_correct [OF ok, of CmdVersion]
    by (auto simp: CmdVersion_def CmdHelp_def Command_def has_name_def getCmd_def)
qed

lemma CommandSet_ok: "\<exists>cs. CommandSet = Inr cs \<and> cmdset_ok cs \<and> getCmd ''help'' cs = Inr CmdHelp"
  by (simp add: CommandSet_def addCmd_def CmdHelp_def Command_def hasCmd_def cmdset_ok_def map_ok_def getCmd_def has_name_def)

subsection \<open>Reading the options of a command\<close>

text \<open>
  What the list says, without the parameters: which option each element names and which value is given for it.
  It depends only on the keys of the parameters and on whether they take a value.
\<close>

definition form :: "(string, param) std_map \<Rightarrow> (string \<times> param_common \<times> bool) list" where
  "form ps = map (\<lambda>(k, p). (k, (common p)\<lparr>p_set := False\<rparr>, hasValue p)) ps"

definition form_find :: "string \<Rightarrow> (string \<times> param_common \<times> bool) list \<Rightarrow> (string \<times> bool) option" where
  "form_find name f =
     map_option (\<lambda>(k, c, h). (k, h)) (find (\<lambda>(k, c, h). p_shortKey c = name \<or> p_longKey c = name) f)"

function option_tokens ::
    "(string \<times> param_common \<times> bool) list \<Rightarrow> string list \<Rightarrow> (string \<times> string) list option" where
  "option_tokens f [] = Some []"
| "option_tokens f (element # l) =
     (if getValidKeyName element = '''' then None
      else case form_find (getValidKeyName element) f of
          None \<Rightarrow> None
        | Some (k, h) \<Rightarrow>
            if h then if l = [] then None else map_option (Cons (k, hd l)) (option_tokens f (tl l))
            else map_option (Cons (k, '''')) (option_tokens f l))"
  by pat_completeness auto
termination by (relation "measure (\<lambda>(f, l). length l)") auto

fun set_values :: "string list \<Rightarrow> param \<Rightarrow> param res" where
  "set_values [] p = Inr p"
| "set_values (v # vs) p = and_then (param_setValue v p) (set_values vs)"

definition values_of :: "string \<Rightarrow> (string \<times> string) list \<Rightarrow> string list" where
  "values_of k ts = map snd (filter (\<lambda>t. fst t = k) ts)"

fun apply_tokens :: "(string \<times> string) list \<Rightarrow> (string, param) std_map \<Rightarrow> (string, param) std_map res" where
  "apply_tokens [] ps = Inr ps"
| "apply_tokens ((k, v) # ts) ps =
     and_then (param_setValue v (the (map_find ps k))) (\<lambda>p'. apply_tokens ts (map_put k p' ps))"

definition params_ok :: "(string, param) std_map \<Rightarrow> bool" where
  "params_ok ps \<longleftrightarrow> map_ok ps \<and> map_all param_ok ps"

lemma find_map: "find P (map f xs) = map_option f (find (\<lambda>x. P (f x)) xs)"
  by (induction xs) auto

lemma getParam_form:
  "form_find name (form ps) = map_option (\<lambda>(k, p). (k, hasValue p)) (getParam name ps)"
proof -
  show ?thesis
    by (simp add: form_find_def form_def getParam_def find_map option.map_comp comp_def case_prod_beta' answers_def)
qed

lemma getParam_find:
  assumes "map_ok ps" "getParam name ps = Some (k, p)"
  shows "map_find ps k = Some p"
  using assms by (auto simp: getParam_def map_find_iff dest: find_SomeD)

lemma map_put_map_cong:
  assumes "map_ok ps" "map_find ps k = Some p" "g (k, p') = g (k, p)"
  shows "map g (map_put k p' ps) = map g ps"
  using assms
proof (induction ps)
  case (Cons e ps)
  obtain a b where e: "e = (a, b)" by (cases e)
  show ?case
  proof (cases "a = k")
    case True
    then show ?thesis using Cons.prems e by (simp add: map_find_def)
  next
    case False
    then have f: "map_find ps k = Some p" using Cons.prems e by (simp add: map_find_def)
    then have "a < k" using Cons.prems(1) e by (fastforce simp: map_ok_Cons dest: map_find_SomeD)
    then show ?thesis using Cons f e False by (simp add: map_ok_Cons)
  qed
qed (simp add: map_find_def)

lemma form_put:
  assumes "params_ok ps" "map_find ps k = Some p" "param_setValue v p = Inr p'"
  shows "form (map_put k p' ps) = form ps" "params_ok (map_put k p' ps)"
proof -
  have p: "param_ok p" "map_ok ps" using assms by (auto simp: params_ok_def map_all_find)
  then show "form (map_put k p' ps) = form ps"
    unfolding form_def using param_setValue_ok [OF p(1) assms(3)] assms(2)
    by (intro map_put_map_cong) auto
  show "params_ok (map_put k p' ps)"
    using assms param_setValue_ok(1) [OF p(1) assms(3)] by (simp add: params_ok_def map_ok_put map_all_put)
qed

lemma parse_params_value:
  assumes "getValidKeyName element \<noteq> ''''" "getParam (getValidKeyName element) ps = Some (k, p)" "hasValue p"
  shows "parse_params [element] ps =
      Inl (Octf_Exception (''Value of option '' @ quoted (p_longKey (common p)) @ '' is missing.''))"
    "parse_params (element # v # l) ps =
      and_then (param_setValue v p) (\<lambda>p'. parse_params l (map_put k p' ps))"
  using assms by (simp_all add: parse_params.simps(2) Let_def cli_hasNext_def and_then_def split: sum.split)

lemma parse_params_flag:
  assumes "getValidKeyName element \<noteq> ''''" "getParam (getValidKeyName element) ps = Some (k, p)" "\<not> hasValue p"
  shows "parse_params (element # l) ps =
      and_then (param_setValue '''' p) (\<lambda>p'. parse_params l (map_put k p' ps))"
  using assms by (simp add: parse_params.simps(2) Let_def and_then_def)

lemma parse_params_iff:
  assumes "params_ok ps"
  shows "parse_params l ps = Inr ps' \<longleftrightarrow> (\<exists>ts. option_tokens (form ps) l = Some ts \<and> apply_tokens ts ps = Inr ps')"
  using assms
proof (induction "length l" arbitrary: l ps rule: less_induct)
  case less
  show ?case
  proof (cases l)
    case (Cons element r)
    let ?name = "getValidKeyName element"
    show ?thesis
    proof (cases "?name = '''' \<or> getParam ?name ps = None")
      case True
      then show ?thesis by (auto simp: Cons parse_params.simps(2) Let_def getParam_form)
    next
      case False
      then obtain k p where n: "?name \<noteq> ''''" and kp: "getParam ?name ps = Some (k, p)" by auto
      have find: "map_find ps k = Some p" using getParam_find kp less.prems by (simp add: params_ok_def)
      have step: "and_then (param_setValue v p) (\<lambda>p'. parse_params l' (map_put k p' ps)) = Inr ps' \<longleftrightarrow>
          (\<exists>ts. option_tokens (form ps) l' = Some ts \<and> apply_tokens ((k, v) # ts) ps = Inr ps')"
        if "length l' < length l" for v l'
      proof (cases "param_setValue v p")
        case (Inr p')
        from less.hyps [OF that form_put(2) [OF less.prems find Inr]] form_put(1) [OF less.prems find Inr]
        show ?thesis using Inr find by simp
      qed (simp add: find)
      show ?thesis
      proof (cases "hasValue p")
        case True
        show ?thesis
        proof (cases r)
          case Nil
          then show ?thesis using parse_params_value(1) [OF n kp True] n kp True by (simp add: Cons getParam_form)
        next
          case r: (Cons v l')
          then show ?thesis using parse_params_value(2) [OF n kp True, of v l'] step [of l' v] n kp True
            by (auto simp: Cons getParam_form)
        qed
      next
        case no: False
        then show ?thesis using parse_params_flag [OF n kp no, of r] step [of r "[]"] n kp
          by (auto simp: Cons getParam_form)
      qed
    qed
  qed (auto simp: parse_params.simps(1))
qed
lemma map_ok_ext:
  assumes "map_ok m" "map_ok m'" "map_find m = map_find m'"
  shows "m = m'"
proof -
  have entry: "e \<in> set n \<longleftrightarrow> map_find n (fst e) = Some (snd e)" if "map_ok n" for n e
    using map_find_iff [OF that, of "fst e" "snd e"] by simp
  have "set m = set m'" using entry [OF assms(1)] entry [OF assms(2)] assms(3) by auto
  then have "set (map fst m) = set (map fst m')" by simp
  then have "map fst m = map fst m'"
    using assms(1,2) unfolding map_ok_def by (intro sorted_distinct_set_unique) (auto simp: strict_sorted_iff)
  moreover have "n = map (\<lambda>k. (k, the (map_find n k))) (map fst n)" if "map_ok n" for n :: "('a, 'b) std_map"
  proof (rule nth_equalityI)
    fix i assume i: "i < length n"
    then have "map_find n (fst (n ! i)) = Some (snd (n ! i))" using entry [OF that, of "n ! i"] by simp
    then show "n ! i = map (\<lambda>k. (k, the (map_find n k))) (map fst n) ! i" using i by (simp add: prod_eq_iff)
  qed simp
  ultimately show ?thesis using assms by metis
qed

lemma values_of_simps [simp]:
  "values_of k [] = []"
  "values_of k ((k', v) # ts) = (if k' = k then v # values_of k ts else values_of k ts)"
  by (simp_all add: values_of_def)

lemma map_find_key: "map_find m k = Some v \<Longrightarrow> k \<in> fst ` set m"
  by (force dest: map_find_SomeD)

lemma apply_tokens_iff:
  assumes "params_ok ps" "fst ` set ts \<subseteq> fst ` set ps"
  shows "apply_tokens ts ps = Inr ps' \<longleftrightarrow>
    map_ok ps' \<and> fst ` set ps' = fst ` set ps \<and>
    (\<forall>k p. map_find ps k = Some p \<longrightarrow> (\<exists>p'. map_find ps' k = Some p' \<and> set_values (values_of k ts) p = Inr p'))"
  using assms
proof (induction ts arbitrary: ps)
  case Nil
  then have ok: "map_ok ps" by (simp add: params_ok_def)
  show ?case
  proof
    assume "map_ok ps' \<and> fst ` set ps' = fst ` set ps \<and>
      (\<forall>k p. map_find ps k = Some p \<longrightarrow> (\<exists>p'. map_find ps' k = Some p' \<and> set_values (values_of k []) p = Inr p'))"
    moreover from this have "map_find ps' k = map_find ps k" for k
    proof (cases "map_find ps k")
      case None
      then have "k \<notin> fst ` set ps'" using calculation by (simp add: map_find_None_iff)
      then have "map_find ps' k = None" by (simp add: map_find_None_iff)
      then show ?thesis using None by simp
    qed (use calculation in auto)
    ultimately show "apply_tokens [] ps = Inr ps'" using map_ok_ext [OF ok, of ps'] by fastforce
  qed (use ok in auto)
next
  case (Cons t ts)
  obtain k v where t: "t = (k, v)" by (cases t)
  with Cons.prems(2) obtain p where p: "map_find ps k = Some p"
    by (cases "map_find ps k") (auto simp: map_find_None_iff)
  show ?case
  proof (cases "param_setValue v p")
    case (Inl e)
    then show ?thesis using p by (auto simp: t intro!: exI [of _ k])
  next
    case (Inr p1)
    have ps1: "fst ` set (map_put k p1 ps) = fst ` set ps"
      using map_find_key [OF p] by (auto simp: fst_set_map_put)
    have "apply_tokens (t # ts) ps = apply_tokens ts (map_put k p1 ps)" using Inr p by (simp add: t)
    also have "\<dots> = Inr ps' \<longleftrightarrow> map_ok ps' \<and> fst ` set ps' = fst ` set ps \<and>
      (\<forall>k' q. map_find (map_put k p1 ps) k' = Some q \<longrightarrow>
        (\<exists>p'. map_find ps' k' = Some p' \<and> set_values (values_of k' ts) q = Inr p'))"
      using Cons.IH [OF form_put(2) [OF Cons.prems(1) p Inr]] Cons.prems(2) by (simp add: ps1)
    also have "(\<forall>k' q. map_find (map_put k p1 ps) k' = Some q \<longrightarrow>
        (\<exists>p'. map_find ps' k' = Some p' \<and> set_values (values_of k' ts) q = Inr p')) \<longleftrightarrow>
      (\<forall>k' q. map_find ps k' = Some q \<longrightarrow>
        (\<exists>p'. map_find ps' k' = Some p' \<and> set_values (values_of k' (t # ts)) q = Inr p'))"
      using p Inr by (auto simp: t map_find_def map_of_put)
    finally show ?thesis .
  qed
qed

lemma form_find_key: "form_find name (form ps) = Some (k, h) \<Longrightarrow> k \<in> fst ` set ps"
  unfolding getParam_form by (force simp: getParam_def dest: find_SomeD)

lemma option_tokens_in:
  assumes "\<And>name k h. form_find name f = Some (k, h) \<Longrightarrow> k \<in> K" "option_tokens f l = Some ts"
  shows "fst ` set ts \<subseteq> K"
  using assms
proof (induction f l arbitrary: ts rule: option_tokens.induct)
  case (2 f element l)
  let ?name = "getValidKeyName element"
  from "2.prems"(2) obtain k h where n: "?name \<noteq> ''''" and kh: "form_find ?name f = Some (k, h)"
    by (auto split: if_splits option.splits)
  have k: "k \<in> K" by (rule "2.prems"(1) [OF kh])
  show ?case
  proof (cases h)
    case True
    then obtain ts' where t: "l \<noteq> []" "option_tokens f (tl l) = Some ts'" "ts = (k, hd l) # ts'"
      using "2.prems"(2) n kh by (auto split: if_splits)
    from "2.IH"(1) [OF n kh refl True t(1) "2.prems"(1) t(2)] k t(3) show ?thesis by simp
  next
    case False
    then obtain ts' where t: "option_tokens f l = Some ts'" "ts = (k, '''') # ts'"
      using "2.prems"(2) n kh by auto
    from "2.IH"(2) [OF n kh refl False "2.prems"(1) t(1)] k t(2) show ?thesis by simp
  qed
qed simp

lemma option_tokens_keys: "option_tokens (form ps) l = Some ts \<Longrightarrow> fst ` set ts \<subseteq> fst ` set ps"
  by (rule option_tokens_in [OF form_find_key])

lemma missing_None_iff:
  "missing ps = None \<longleftrightarrow> (\<forall>(k, p) \<in> set ps. p_required (common p) \<longrightarrow> p_set (common p))"
  by (auto simp: missing_def find_None_iff)

lemma apply_tokens_missing:
  assumes "params_ok ps" "fst ` set ts \<subseteq> fst ` set ps"
  shows "apply_tokens ts ps = Inr ps' \<and> missing ps' = None \<longleftrightarrow>
    map_ok ps' \<and> fst ` set ps' = fst ` set ps \<and>
    (\<forall>k p. map_find ps k = Some p \<longrightarrow>
      (\<exists>p'. map_find ps' k = Some p' \<and> set_values (values_of k ts) p = Inr p' \<and>
        (p_required (common p') \<longrightarrow> p_set (common p'))))"
proof (cases "map_ok ps' \<and> fst ` set ps' = fst ` set ps")
  case True
  have miss: "missing ps' = None \<longleftrightarrow>
      (\<forall>k p'. map_find ps' k = Some p' \<longrightarrow> p_required (common p') \<longrightarrow> p_set (common p'))"
    using True by (auto simp: missing_None_iff map_find_iff)
  have none: "map_find ps' k = None \<longleftrightarrow> map_find ps k = None" for k
    using True by (simp add: map_find_None_iff)
  have "(\<forall>k p. map_find ps k = Some p \<longrightarrow>
        (\<exists>p'. map_find ps' k = Some p' \<and> set_values (values_of k ts) p = Inr p')) \<and>
      (\<forall>k p'. map_find ps' k = Some p' \<longrightarrow> p_required (common p') \<longrightarrow> p_set (common p')) \<longleftrightarrow>
      (\<forall>k p. map_find ps k = Some p \<longrightarrow>
        (\<exists>p'. map_find ps' k = Some p' \<and> set_values (values_of k ts) p = Inr p' \<and>
          (p_required (common p') \<longrightarrow> p_set (common p'))))" (is "?A \<and> ?B \<longleftrightarrow> ?C")
  proof
    assume C: ?C
    have ?B
    proof (intro allI impI)
      fix k p' assume p': "map_find ps' k = Some p'" "p_required (common p')"
      then obtain p where "map_find ps k = Some p" using none [of k] by (cases "map_find ps k") auto
      with C p' show "p_set (common p')" by fastforce
    qed
    with C show "?A \<and> ?B" by blast
  qed blast
  then show ?thesis using apply_tokens_iff [OF assms, of ps'] True miss by simp
next
  case False
  then show ?thesis using apply_tokens_iff [OF assms, of ps'] by blast
qed

lemma parseParamValues_tokens:
  assumes "params_ok (c_params cmd)"
  shows "parseParamValues l cmd = Inr cmd' \<longleftrightarrow>
    (\<exists>ts ps'. option_tokens (form (c_params cmd)) l = Some ts \<and> apply_tokens ts (c_params cmd) = Inr ps' \<and>
      missing ps' = None \<and> cmd' = cmd\<lparr>c_params := ps'\<rparr>)"
proof -
  have "parseParamValues l cmd = Inr cmd' \<longleftrightarrow>
      (\<exists>ps'. parse_params l (c_params cmd) = Inr ps' \<and> missing ps' = None \<and> cmd' = cmd\<lparr>c_params := ps'\<rparr>)"
    by (auto simp: parseParamValues_def and_then_Inr_iff checkParamMissing_def Let_def split: option.splits)
  then show ?thesis using parse_params_iff [OF assms] by blast
qed

text \<open>
  Property C33. The options of a command line are read as what they are, whatever their order: the list is
  accepted exactly when every element is the key of an option, followed by a value where the option has
  one, every option takes the values that the list gives for it, and every required option is set. Then
  each option has taken just its own values.
\<close>

theorem parseParamValues_correct:
  assumes "params_ok (c_params cmd)"
  shows "parseParamValues l cmd = Inr cmd' \<longleftrightarrow>
    (\<exists>ts ps'. option_tokens (form (c_params cmd)) l = Some ts \<and> cmd' = cmd\<lparr>c_params := ps'\<rparr> \<and>
      map_ok ps' \<and> fst ` set ps' = fst ` set (c_params cmd) \<and>
      (\<forall>k p. map_find (c_params cmd) k = Some p \<longrightarrow>
        (\<exists>p'. map_find ps' k = Some p' \<and> set_values (values_of k ts) p = Inr p' \<and>
          (p_required (common p') \<longrightarrow> p_set (common p')))))"
    (is "_ = (\<exists>ts ps'. ?tok ts \<and> ?set ps' \<and> ?ok ps' \<and> ?keys ps' \<and> ?all ts ps')")
proof -
  have "parseParamValues l cmd = Inr cmd' \<longleftrightarrow>
      (\<exists>ts ps'. ?tok ts \<and> apply_tokens ts (c_params cmd) = Inr ps' \<and> missing ps' = None \<and> ?set ps')"
    by (rule parseParamValues_tokens [OF assms])
  also have "\<dots> \<longleftrightarrow> (\<exists>ts ps'. ?tok ts \<and> ?set ps' \<and> ?ok ps' \<and> ?keys ps' \<and> ?all ts ps')"
  proof (intro ex_cong1)
    fix ts ps'
    show "(?tok ts \<and> apply_tokens ts (c_params cmd) = Inr ps' \<and> missing ps' = None \<and> ?set ps') \<longleftrightarrow>
        (?tok ts \<and> ?set ps' \<and> ?ok ps' \<and> ?keys ps' \<and> ?all ts ps')"
    proof (cases "?tok ts")
      case True
      have *: "apply_tokens ts (c_params cmd) = Inr ps' \<and> missing ps' = None \<longleftrightarrow>
          ?ok ps' \<and> ?keys ps' \<and> ?all ts ps'"
        using apply_tokens_missing [OF assms option_tokens_keys [OF True], of ps'] .
      show ?thesis using True * by blast
    qed blast
  qed
  finally show ?thesis .
qed

definition sample_fields :: "field_desc list" where
  "sample_fields =
     [\<lparr>fd_name = ''size'', fd_number = 1, fd_type = TYPE_INT32, fd_repeated = False,
       fd_opts = Some \<lparr>op_required = True, op_short_key = ''s'', op_long_key = ''size'', op_desc = ''Size'',
         op_param = CliNum \<lparr>on_min = 1, on_max = 100, on_default_value = 10\<rparr>\<rparr>\<rparr>,
      \<lparr>fd_name = ''force'', fd_number = 2, fd_type = TYPE_BOOL, fd_repeated = False,
       fd_opts = Some \<lparr>op_required = False, op_short_key = ''f'', op_long_key = ''force'', op_desc = ''Force'',
         op_param = NoCliParam\<rparr>\<rparr>]"

definition sample_number :: param where
  "sample_number =
     ParamNumber
       \<lparr>p_shortKey = ''s'', p_longKey = ''size'', p_desc = ''Size'', p_what = ''<1-100>'', p_index = 1, p_set = False,
        p_required = True, p_hidden = False\<rparr>
       \<lparr>n_number = 10, n_min = 1, n_max = 100, n_unit = '''', n_default = 10, n_hasDefault = True,
        n_details = ''Size (default: 10)''\<rparr>"

definition sample_flag :: param where
  "sample_flag =
     ParamFlag
       \<lparr>p_shortKey = ''f'', p_longKey = ''force'', p_desc = ''Force'', p_what = '''', p_index = 2, p_set = False,
        p_required = False, p_hidden = False\<rparr>"

definition sample_command :: command where
  "sample_command = (Command VersionCmd)\<lparr>c_params := [(''force'', sample_flag), (''size'', sample_number)]\<rparr>"

lemma sample_params_ok: "params_ok (c_params sample_command)"
  by (simp add: sample_command_def params_ok_def map_ok_def map_all_def sample_flag_def sample_number_def
      number_in_def INT64_MIN_def INT64_MAX_def)

lemma digit_chars:
  "char_of (48 :: nat) = CHR ''0''" "char_of (49 :: nat) = CHR ''1''" "char_of (50 :: nat) = CHR ''2''"
  "char_of (52 :: nat) = CHR ''4''"
  by code_simp+

lemma createParameters_sample:
  "createParameters sample_fields (Command VersionCmd) = Inr sample_command"
  by (simp add: sample_fields_def createParameter_def new_param_def number_setOptions_def common_setOptions_def
      addParam_def Parameter_def number_new_def number_setMax_def number_setMin_def number_setDefault_def
      number_details_def number_getRange_def int_string_def nat_digits.simps digit_chars map_find_def Command_def sample_command_def
      sample_flag_def sample_number_def Let_def)

definition sample_parsed :: "(string, param) std_map" where
  "sample_parsed =
     [(''force'', upd_common (p_set_update (\<lambda>_. True)) sample_flag),
        (''size'', ParamNumber ((common sample_number)\<lparr>p_set := True\<rparr>)
          \<lparr>n_number = 42, n_min = 1, n_max = 100, n_unit = '''', n_default = 10, n_hasDefault = True,
           n_details = ''Size (default: 10)''\<rparr>)]"

lemma parse_sample_params:
  "parse_params [''--force'', ''-s'', ''42''] (c_params sample_command) = Inr sample_parsed"
proof -
  have keys: "getValidKeyName ''--force'' = ''force''" "getValidKeyName ''-s'' = ''s''"
    by (simp_all add: getValidKeyName_def getKeyName_def parseKey_def hasPrefix_def LONG_KEY_PREFIX_def
        SHORT_KEY_PREFIX_def isValidKey_def isLongKeyValid_iff isShortKeyValid_def is_alnum_def is_alpha_def)
  have tok: "option_tokens (form (c_params sample_command)) [''--force'', ''-s'', ''42''] =
      Some [(''force'', ''''), (''size'', ''42'')]"
    by (simp add: keys form_def form_find_def sample_command_def sample_flag_def sample_number_def)
  have read: "read_int64 ''42'' = (42, False, True)"
    using read_int_string [of 42] by (simp add: INT64_MIN_def INT64_MAX_def int_string_def nat_digits.simps digit_chars)
  show ?thesis
    unfolding parse_params_iff [OF sample_params_ok]
    by (intro exI [of _ "[(''force'', ''''), (''size'', ''42'')]"] conjI tok)
      (simp add: sample_command_def map_find_def sample_flag_def sample_number_def sample_parsed_def
        number_setValue_def read)
qed

lemma parse_sample:
  assumes "c_params cmd = c_params sample_command"
  shows "parseParamValues [''--force'', ''-s'', ''42''] cmd = Inr (cmd\<lparr>c_params := sample_parsed\<rparr>)"
  by (simp add: assms parseParamValues_def parse_sample_params checkParamMissing_def missing_def sample_parsed_def
      sample_flag_def sample_number_def)

lemma parseParamValues_correct_witness:
  "\<not> (\<exists>cmd'. parseParamValues [''--force''] sample_command = Inr cmd')"
proof -
  have "getValidKeyName ''--force'' = ''force''"
    by (simp add: getValidKeyName_def getKeyName_def parseKey_def hasPrefix_def LONG_KEY_PREFIX_def
        SHORT_KEY_PREFIX_def isValidKey_def isLongKeyValid_iff is_alnum_def is_alpha_def)
  then have tok: "option_tokens (form (c_params sample_command)) [''--force''] = Some [(''force'', '''')]"
    by (simp add: form_def form_find_def sample_command_def sample_flag_def sample_number_def)
  have size: "map_find (c_params sample_command) ''size'' = Some sample_number"
    by (simp add: sample_command_def map_find_def)
  have "p_required (common sample_number)" "\<not> p_set (common sample_number)" by (simp_all add: sample_number_def)
  then have no: "\<not> (\<exists>p'. set_values [] sample_number = Inr p' \<and> (p_required (common p') \<longrightarrow> p_set (common p')))" by simp
  show ?thesis
  proof
    assume "\<exists>cmd'. parseParamValues [''--force''] sample_command = Inr cmd'"
    then obtain cmd' where "parseParamValues [''--force''] sample_command = Inr cmd'" ..
    from this [unfolded parseParamValues_correct [OF sample_params_ok]] tok
    have "\<exists>p'. set_values (values_of ''size'' [(''force'', '''')]) sample_number = Inr p' \<and>
        (p_required (common p') \<longrightarrow> p_set (common p'))" using size by fastforce
    with no show False by (simp add: values_of_def)
  qed
qed

subsection \<open>Messages of a command\<close>

definition field_ok :: "field_desc \<Rightarrow> bool" where
  "field_ok fd \<longleftrightarrow>
     (\<forall>ops d. fd_opts fd = Some ops \<longrightarrow> op_param ops = CliNum d \<longrightarrow> number_in INT64_MIN INT64_MAX (on_default_value d))"

lemma number_setters [simp]:
  "n_number (snd (number_setMin x st)) = n_number (snd st)" "p_set (fst (number_setMin x st)) = p_set (fst st)"
  "n_number (snd (number_setMax x st)) = n_number (snd st)" "p_set (fst (number_setMax x st)) = p_set (fst st)"
  "n_number (snd (number_setDefault x st)) = x" "p_set (fst (number_setDefault x st)) = p_set (fst st)"
  by (simp_all add: number_setMin_def number_setMax_def number_setDefault_def number_details_def Let_def
      split: prod.splits)

lemma common_setOptions_set [simp]: "p_set (common_setOptions opts c) = p_set c"
  by (simp add: common_setOptions_def split: option.splits)

lemma number_setOptions_kept:
  assumes "number_setOptions fd st = Inr st'" "field_ok fd" "\<not> p_set (fst st)"
  shows "number_in INT64_MIN INT64_MAX (n_number (snd st')) \<and> \<not> p_set (fst st')"
proof -
  obtain ops where ops: "fd_opts fd = Some ops" using assms(1) by (auto simp: number_setOptions_def split: option.splits)
  show ?thesis
  proof (cases "\<exists>d. op_param ops = CliNum d")
    case True
    then show ?thesis using assms ops by (auto simp: number_setOptions_def Let_def field_ok_def)
  next
    case False
    then obtain a b st1 where "st' = number_setDefault 0 (number_setMax b (number_setMin a st1))" "\<not> p_set (fst st1)"
      using assms ops by (auto simp: number_setOptions_def Let_def split: cli_param.splits field_type.splits)
    then show ?thesis by (simp add: number_in_def INT64_MIN_def INT64_MAX_def)
  qed
qed
lemma enum_kept:
  assumes "enum_setOptions fd (Parameter, enum_new) = Inr st"
  shows "param_ok (ParamEnum (fst st) (snd st)) \<and> \<not> p_set (fst st)"
  using enum_setOptions_kept [of fd "fst st" "snd st"] assms by simp

lemma string_kept:
  assumes "string_setOptions fd (Parameter, string_new) = Inr st"
  shows "\<not> p_set (fst st) \<and> \<not> s_multipleValue (snd st)"
  using assms
  by (auto simp: string_setOptions_def string_setDefault_def Let_def and_then_Inr_iff string_new_def Parameter_def
      split: option.splits cli_param.splits if_splits)

text \<open>
  What the field of a message has to hold, told from its description and from the texts that the command line
  gives for its option. A number is read from its decimal digits, with blanks and a sign before them.
\<close>

definition number_text :: "string \<Rightarrow> int \<Rightarrow> bool" where
  "number_text v k \<longleftrightarrow>
     (\<exists>blanks sign ds. v = blanks @ sign @ ds \<and> (\<forall>c \<in> set blanks. is_space c) \<and> sign \<in> {'''', ''+'', ''-''} \<and>
        ds \<noteq> [] \<and> (\<forall>c \<in> set ds. is_digit c) \<and> k = (if sign = ''-'' then - digits_value ds else digits_value ds))"

definition number_range :: "field_desc \<Rightarrow> int \<times> int" where
  "number_range fd =
     (case map_option op_param (fd_opts fd) of
        Some (CliNum d) \<Rightarrow> (on_min d, on_max d)
      | _ \<Rightarrow>
          (case fd_type fd of
             TYPE_INT32 \<Rightarrow> (INT32_MIN, INT32_MAX)
           | TYPE_UINT32 \<Rightarrow> (0, UINT32_MAX)
           | _ \<Rightarrow> (INT64_MIN, INT64_MAX)))"

definition number_default :: "field_desc \<Rightarrow> int" where
  "number_default fd =
     (case map_option op_param (fd_opts fd) of Some (CliNum d) \<Rightarrow> on_default_value d | _ \<Rightarrow> 0)"

definition string_default :: "field_desc \<Rightarrow> string" where
  "string_default fd =
     (case map_option op_param (fd_opts fd) of Some (CliStr d) \<Rightarrow> os_default_value d | _ \<Rightarrow> '''')"

fun enum_default_of :: "opts_param option \<Rightarrow> int option" where
  "enum_default_of None = None"
| "enum_default_of (Some ops) =
     (case op_param ops of CliEnum d \<Rightarrow> if op_required ops then None else Some d | _ \<Rightarrow> None)"

definition enum_default :: "field_desc \<Rightarrow> opts_param option \<Rightarrow> int" where
  "enum_default fd eops =
     (case enum_default_of (fd_opts fd) of
        Some d \<Rightarrow> d
      | None \<Rightarrow> (case enum_default_of eops of Some d \<Rightarrow> d | None \<Rightarrow> 0))"

definition long_key_of :: "opts_param option \<Rightarrow> string" where
  "long_key_of opts = (case opts of Some ops \<Rightarrow> op_long_key ops | None \<Rightarrow> '''')"

definition option_key :: "field_desc \<Rightarrow> string" where
  "option_key fd =
     (case fd_type fd of
        TYPE_ENUM vals eops \<Rightarrow>
          if long_key_of (fd_opts fd) \<noteq> '''' then long_key_of (fd_opts fd) else long_key_of eops
      | _ \<Rightarrow> long_key_of (fd_opts fd))"

text \<open>The last enumerator of that switch, counted from nought.\<close>

definition switch_at :: "enum_value_desc list \<Rightarrow> string \<Rightarrow> int \<Rightarrow> bool" where
  "switch_at vals v i \<longleftrightarrow>
     (\<exists>j < length vals. i = int j \<and> fst (the (ev_opts (vals ! j))) = v \<and>
        (\<forall>j' < length vals. fst (the (ev_opts (vals ! j'))) = v \<longrightarrow> j' \<le> j))"

fun number_value :: "field_type \<Rightarrow> int \<Rightarrow> field_value option" where
  "number_value TYPE_INT32 k = Some (VInt32 k)"
| "number_value TYPE_INT64 k = Some (VInt64 k)"
| "number_value TYPE_UINT32 k = Some (VUInt32 k)"
| "number_value _ k = None"

definition number_sent :: "field_desc \<Rightarrow> string list \<Rightarrow> int \<Rightarrow> bool" where
  "number_sent fd vs k \<longleftrightarrow>
     (case vs of
        [] \<Rightarrow> k = number_default fd
      | [v] \<Rightarrow> number_text v k \<and> number_in (fst (number_range fd)) (snd (number_range fd)) k
      | _ \<Rightarrow> False)"

text \<open>
  A single string that was not given is not written, not even its default. The default of a list of strings
  is written, as one string.
\<close>

definition strings_sent :: "field_desc \<Rightarrow> string list \<Rightarrow> field_value option \<Rightarrow> bool" where
  "strings_sent fd vs r \<longleftrightarrow>
     (case vs of
        [] \<Rightarrow> r = (if string_default fd = '''' then None else Some (VStrings [string_default fd]))
      | [v] \<Rightarrow> (\<exists>xs. r = Some (VStrings xs) \<and> xs \<noteq> [] \<and> join_with '','' xs = v \<and> (\<forall>x \<in> set xs. CHR '','' \<notin> set x))
      | _ \<Rightarrow> False)"

definition string_sent :: "string list \<Rightarrow> field_value option \<Rightarrow> bool" where
  "string_sent vs r \<longleftrightarrow> (case vs of [] \<Rightarrow> r = None | [v] \<Rightarrow> r = Some (VString v) | _ \<Rightarrow> False)"

definition sent :: "field_desc \<Rightarrow> string list \<Rightarrow> field_value option \<Rightarrow> bool" where
  "sent fd vs r \<longleftrightarrow>
     (case fd_type fd of
        TYPE_BOOL \<Rightarrow> r = Some (VBool (vs \<noteq> []))
      | TYPE_STRING \<Rightarrow> (if fd_repeated fd then strings_sent fd vs r else string_sent vs r)
      | TYPE_ENUM vals eops \<Rightarrow>
          (\<exists>i. r = Some (VEnum i) \<and> (if vs = [] then i = enum_default fd eops else switch_at vals (last vs) i))
      | ty \<Rightarrow> (\<exists>k. r \<noteq> None \<and> r = number_value ty k \<and> number_sent fd vs k))"

text \<open>What is made for a field: nothing of the command line is in it yet.\<close>

fun fresh_kind :: "field_desc \<Rightarrow> param \<Rightarrow> bool" where
  "fresh_kind fd (ParamNumber c n) \<longleftrightarrow> n_number n = number_default fd \<and> number_range fd = (n_min n, n_max n)"
| "fresh_kind fd (ParamString c s) \<longleftrightarrow>
     s_values s = [] \<and> s_defaultValues s = (if string_default fd = '''' then [] else [string_default fd])"
| "fresh_kind fd (ParamEnum c e) \<longleftrightarrow>
     (\<exists>vals eops. fd_type fd = TYPE_ENUM vals eops \<and> e_enums e = enum_items vals \<and> e_value e = enum_default fd eops)"
| "fresh_kind fd (ParamFlag c) \<longleftrightarrow> True"

definition fresh_for :: "field_desc \<Rightarrow> param \<Rightarrow> bool" where
  "fresh_for fd p \<longleftrightarrow>
     param_ok p \<and> made_for fd p \<and> \<not> p_set (common p) \<and> p_longKey (common p) = option_key fd \<and> fresh_kind fd p"

lemma number_setters_more [simp]:
  "n_min (snd (number_setMin x st)) = x" "n_max (snd (number_setMin x st)) = n_max (snd st)"
  "n_min (snd (number_setMax x st)) = n_min (snd st)" "n_max (snd (number_setMax x st)) = x"
  "n_min (snd (number_setDefault x st)) = n_min (snd st)" "n_max (snd (number_setDefault x st)) = n_max (snd st)"
  "p_longKey (fst (number_setMin x st)) = p_longKey (fst st)"
  "p_longKey (fst (number_setMax x st)) = p_longKey (fst st)"
  "p_longKey (fst (number_setDefault x st)) = p_longKey (fst st)"
  by (simp_all add: number_setMin_def number_setMax_def number_setDefault_def number_details_def Let_def
      split: prod.splits)

lemma common_setOptions_key: "fd_opts fd = Some ops \<Longrightarrow> p_longKey (common_setOptions (fd_opts fd) c) = op_long_key ops"
  by (simp add: common_setOptions_def)

lemma number_fresh:
  assumes "number_setOptions fd (Parameter, number_new) = Inr st" "fd_type fd \<in> {TYPE_INT32, TYPE_INT64, TYPE_UINT32}"
  shows "fresh_kind fd (ParamNumber (fst st) (snd st)) \<and> p_longKey (fst st) = option_key fd"
proof -
  obtain ops where ops: "fd_opts fd = Some ops" using assms(1) by (auto simp: number_setOptions_def split: option.splits)
  have "option_key fd = op_long_key ops" using assms(2) by (auto simp: option_key_def long_key_of_def ops)
  then show ?thesis using assms ops common_setOptions_key [OF ops]
    by (cases "op_param ops") (auto simp: number_setOptions_def number_default_def number_range_def Let_def)
qed

lemma string_fresh:
  assumes "string_setOptions fd (Parameter, string_new) = Inr st" "fd_type fd = TYPE_STRING"
  shows "fresh_kind fd (ParamString (fst st) (snd st)) \<and> p_longKey (fst st) = option_key fd"
proof -
  obtain ops where ops: "fd_opts fd = Some ops" using assms(1) by (auto simp: string_setOptions_def split: option.splits)
  have "option_key fd = op_long_key ops" using assms(2) by (auto simp: option_key_def long_key_of_def ops)
  then show ?thesis using assms ops common_setOptions_key [OF ops]
    by (cases "op_param ops")
      (auto simp: string_setOptions_def string_setDefault_def string_default_def string_new_def Let_def and_then_Inr_iff
        split: if_splits)
qed

lemma enum_details_key [simp]: "p_longKey (fst (enum_details st)) = p_longKey (fst st)"
  by (simp add: enum_details_def split: prod.splits)

lemma addEnumVals_key: "addEnumVals i vals st = Inr st' \<Longrightarrow> p_longKey (fst st') = p_longKey (fst st)"
proof (induction i vals st rule: addEnumVals.induct)
  case (2 i v vs st)
  then obtain switch desc st1 where "ev_opts v = Some (switch, desc)" "addEnumVal i switch desc st = Inr st1"
    "addEnumVals (i + 1) vs st1 = Inr st'" by (auto simp: and_then_Inr_iff split: option.splits)
  moreover from this have "p_longKey (fst st1) = p_longKey (fst st)"
    by (auto simp: addEnumVal_def split: prod.splits if_splits)
  ultimately show ?case using "2.IH" by auto
qed simp

lemma setEnumOptions_key:
  assumes "setEnumOptions ops st = Inr st'"
  shows "p_longKey (fst st') = (if op_long_key ops \<noteq> '''' then op_long_key ops else p_longKey (fst st))"
    "e_value (snd st') = (case enum_default_of (Some ops) of Some d \<Rightarrow> d | None \<Rightarrow> e_value (snd st))"
proof -
  obtain c e where st: "st = (c, e)" by (cases st)
  obtain c1 e1 where 1: "(if op_desc ops \<noteq> '''' then enum_details (c\<lparr>p_desc := op_desc ops\<rparr>, e) else (c, e)) = (c1, e1)"
    by fastforce
  then have k: "p_longKey c1 = p_longKey c" "e_value e1 = e_value e"
    by (auto simp: enum_details_def split: if_splits)
  define c2 where "c2 = (if op_long_key ops \<noteq> '''' then c1\<lparr>p_longKey := op_long_key ops\<rparr> else c1)"
  define c3 where "c3 = (if op_short_key ops \<noteq> '''' then c2\<lparr>p_shortKey := op_short_key ops\<rparr> else c2)"
  have c3: "p_longKey c3 = (if op_long_key ops \<noteq> '''' then op_long_key ops else p_longKey c)"
    by (simp add: c3_def c2_def k)
  have r: "(case op_param ops of CliEnum d \<Rightarrow> if \<not> op_required ops then enum_setDefault d (c3, e1) else Inr (c3, e1)
      | _ \<Rightarrow> Inr (c3, e1)) = Inr st'"
    using assms by (auto simp: st setEnumOptions_def Let_def 1 c2_def c3_def split: cli_param.splits)
  show "p_longKey (fst st') = (if op_long_key ops \<noteq> '''' then op_long_key ops else p_longKey (fst st))"
    using r c3 by (auto simp: st enum_setDefault_def split: cli_param.splits if_splits)
  show "e_value (snd st') = (case enum_default_of (Some ops) of Some d \<Rightarrow> d | None \<Rightarrow> e_value (snd st))"
    using r k by (auto simp: st enum_setDefault_def enum_details_def split: cli_param.splits if_splits)
qed

lemma enum_fresh:
  assumes "enum_setOptions fd (Parameter, enum_new) = Inr st" "fd_type fd = TYPE_ENUM vals eops"
  shows "fresh_kind fd (ParamEnum (fst st) (snd st)) \<and> p_longKey (fst st) = option_key fd"
proof -
  obtain st1 st2 where a: "addEnumVals 0 vals (Parameter, enum_new) = Inr st1"
    and b: "(case eops of Some ops \<Rightarrow> setEnumOptions ops st1 | None \<Rightarrow> Inr st1) = Inr st2"
    and c: "(case fd_opts fd of Some ops \<Rightarrow> setEnumOptions ops st2 | None \<Rightarrow> Inr st2) = Inr st"
    using assms by (auto simp: enum_setOptions_def and_then_Inr_iff split: if_splits)
  have 1: "p_longKey (fst st1) = ''''" "e_value (snd st1) = 0"
    using addEnumVals_key [OF a] addEnumVals_enums(4) [OF a] by (simp_all add: Parameter_def enum_new_def)
  have 2: "p_longKey (fst st2) = long_key_of eops"
    "e_value (snd st2) = (case enum_default_of eops of Some d \<Rightarrow> d | None \<Rightarrow> 0)"
    using b 1 setEnumOptions_key [of _ st1 st2] by (auto simp: long_key_of_def split: option.splits)
  have 3: "p_longKey (fst st) = option_key fd" "e_value (snd st) = enum_default fd eops"
    using c 2 setEnumOptions_key [of _ st2 st] assms(2)
    by (auto simp: long_key_of_def option_key_def enum_default_def split: option.splits)
  have "e_enums (snd st) = enum_items vals"
    using enum_setOptions_kept(4) [of fd "fst st" "snd st" vals eops] assms by simp
  with 3 assms(2) show ?thesis by auto
qed

text \<open>What is made for a field fits the field, has its number and its key, and is not set.\<close>

lemma createParameter_ok:
  assumes "createParameter fd = Inr p" "field_ok fd"
  shows "fresh_for fd p"
proof -
  obtain q q' where q: "new_param (fd_type fd) = Inr q" "param_setOptions fd q = Inr q'"
    and p: "p = setMultipleValue (fd_repeated fd) (upd_common (p_index_update (\<lambda>_. fd_number fd)) q')"
    and rep: "fd_repeated fd \<longrightarrow> isMultipleValue p"
    using assms(1) by (auto simp: createParameter_def and_then_Inr_iff Let_def split: if_splits)
  consider (number) st where "q' = ParamNumber (fst st) (snd st)" "number_setOptions fd (Parameter, number_new) = Inr st"
      "fd_type fd \<in> {TYPE_INT32, TYPE_INT64, TYPE_UINT32}"
    | (string) st where "q' = ParamString (fst st) (snd st)" "string_setOptions fd (Parameter, string_new) = Inr st"
      "fd_type fd = TYPE_STRING"
    | (enum) st vals eops where "q' = ParamEnum (fst st) (snd st)" "enum_setOptions fd (Parameter, enum_new) = Inr st"
      "fd_type fd = TYPE_ENUM vals eops"
    | (flag) c where "q' = ParamFlag c" "\<not> p_set c" "fd_type fd = TYPE_BOOL" "p_longKey c = long_key_of (fd_opts fd)"
    using q by (auto simp: new_param_def and_then_Inr_iff Parameter_def common_setOptions_def long_key_of_def
        split: field_type.splits option.splits)
  then show ?thesis
  proof cases
    case number
    then show ?thesis using number_setOptions_kept [OF number(2) assms(2)] rep
        number_fresh [OF number(2,3)]
      by (auto simp: p made_for_def fresh_for_def Parameter_def)
  next
    case string
    then show ?thesis using string_kept [OF string(2)] string_fresh [OF string(2,3)]
      by (auto simp: p made_for_def fresh_for_def string_setMultipleValue_def)
  next
    case enum
    then show ?thesis using enum_kept [OF enum(2)] enum_fresh [OF enum(2,3)] rep
      by (auto simp: p made_for_def fresh_for_def)
  next
    case flag
    then show ?thesis using rep by (auto simp: p made_for_def fresh_for_def option_key_def)
  qed
qed

lemma createParameters_made:
  assumes "createParameters fds cmd = Inr cmd'" "\<forall>fd \<in> set fds. field_ok fd" "params_ok (c_params cmd)"
  shows "params_ok (c_params cmd')"
    "set (c_params cmd) \<subseteq> set (c_params cmd')"
    "\<And>k p. (k, p) \<in> set (c_params cmd') \<Longrightarrow> (k, p) \<in> set (c_params cmd) \<or> (\<exists>fd \<in> set fds. k = option_key fd \<and> fresh_for fd p)"
    "\<And>fd. fd \<in> set fds \<Longrightarrow> \<exists>k p. (k, p) \<in> set (c_params cmd') \<and> fresh_for fd p"
proof -
  have "params_ok (c_params cmd') \<and> set (c_params cmd) \<subseteq> set (c_params cmd') \<and>
    (\<forall>k p. (k, p) \<in> set (c_params cmd') \<longrightarrow> (k, p) \<in> set (c_params cmd) \<or> (\<exists>fd \<in> set fds. k = option_key fd \<and> fresh_for fd p)) \<and>
    (\<forall>fd. fd \<in> set fds \<longrightarrow> (\<exists>k p. (k, p) \<in> set (c_params cmd') \<and> fresh_for fd p))"
    using assms
  proof (induction fds cmd rule: createParameters.induct)
    case (2 fd fds cmd)
    then obtain p cmd1 where p: "createParameter fd = Inr p" "addParam p cmd = Inr cmd1"
      "createParameters fds cmd1 = Inr cmd'" by (auto simp: and_then_Inr_iff)
    let ?k = "p_longKey (common p)"
    have fresh: "fresh_for fd p" using createParameter_ok [OF p(1)] "2.prems"(2) by auto
    then have ok: "param_ok p" "?k = option_key fd" by (simp_all add: fresh_for_def)
    have cmd1: "map_find (c_params cmd) ?k = None" "c_params cmd1 = map_put ?k p (c_params cmd)"
      using p(2) by (auto simp: addParam_def Let_def split: if_splits)
    then have set: "set (c_params cmd1) = insert (?k, p) (set (c_params cmd))"
      using set_put_new [of "c_params cmd" ?k p] "2.prems"(3) by (simp add: params_ok_def map_find_None_iff)
    have "params_ok (c_params cmd1)" using cmd1 ok "2.prems"(3)
      by (simp add: params_ok_def map_ok_put map_all_put)
    from "2.IH" [OF p(3) _ this] "2.prems"(2)
    have IH: "params_ok (c_params cmd')" "set (c_params cmd1) \<subseteq> set (c_params cmd')"
      "\<And>k p. (k, p) \<in> set (c_params cmd') \<Longrightarrow> (k, p) \<in> set (c_params cmd1) \<or> (\<exists>fd \<in> set fds. k = option_key fd \<and> fresh_for fd p)"
      "\<And>fd. fd \<in> set fds \<Longrightarrow> \<exists>k p. (k, p) \<in> set (c_params cmd') \<and> fresh_for fd p" by simp_all
    have "(k', q) \<in> set (c_params cmd) \<or> (\<exists>fd' \<in> set (fd # fds). k' = option_key fd' \<and> fresh_for fd' q)"
      if "(k', q) \<in> set (c_params cmd')" for k' q
      using IH(3) [OF that] set ok(2) fresh by auto
    moreover have "\<exists>k p. (k, p) \<in> set (c_params cmd') \<and> fresh_for fd' p" if "fd' \<in> set (fd # fds)" for fd'
      using that IH(4) [of fd'] IH(2) set fresh by auto
    ultimately show ?case using IH(1,2) set by auto
  qed simp
  then show "params_ok (c_params cmd')" "set (c_params cmd) \<subseteq> set (c_params cmd')"
    "\<And>k p. (k, p) \<in> set (c_params cmd') \<Longrightarrow> (k, p) \<in> set (c_params cmd) \<or> (\<exists>fd \<in> set fds. k = option_key fd \<and> fresh_for fd p)"
    "\<And>fd. fd \<in> set fds \<Longrightarrow> \<exists>k p. (k, p) \<in> set (c_params cmd') \<and> fresh_for fd p" by blast+
qed
lemma made_for_index:
  assumes "distinct (map fd_number fds)" "fd \<in> set fds" "fd' \<in> set fds" "made_for fd p" "made_for fd' q"
    "p_index (common p) = p_index (common q)"
  shows "fd = fd'"
  using assms by (auto simp: made_for_def distinct_map inj_on_def)

text \<open>The texts of an option that were accepted, and what they have left in its parameter.\<close>

lemma read_int64_text: "read_int64 v = (k, False, True) \<Longrightarrow> number_text v k"
proof -
  assume r: "read_int64 v = (k, False, True)"
  define blanks where "blanks = takeWhile is_space v"
  define t where "t = dropWhile is_space v"
  define signed where "signed \<longleftrightarrow> t \<noteq> [] \<and> (hd t = CHR ''-'' \<or> hd t = CHR ''+'')"
  define ds where "ds = (if signed then tl t else t)"
  have ds: "ds \<noteq> []" "takeWhile is_digit ds = ds"
    and k: "k = (if signed \<and> hd t = CHR ''-'' then - digits_value ds else digits_value ds)"
  proof -
    have h: "dropWhile is_digit ds = [] \<and> takeWhile is_digit ds \<noteq> [] \<and>
        k = (if signed \<and> hd t = CHR ''-'' then - digits_value (takeWhile is_digit ds) else digits_value (takeWhile is_digit ds))"
      using r [unfolded read_int64_def Let_def, folded t_def, folded signed_def, folded ds_def]
      by (auto simp del: dropWhile_eq_Nil_conv takeWhile_eq_Nil_iff split: if_split_asm)
    have e: "takeWhile is_digit ds = ds" using h by (metis append_Nil2 takeWhile_dropWhile_id)
    show "ds \<noteq> []" "takeWhile is_digit ds = ds"
      "k = (if signed \<and> hd t = CHR ''-'' then - digits_value ds else digits_value ds)"
      using h unfolding e by blast+
  qed
  have digits: "\<forall>c \<in> set ds. is_digit c" using ds(2) by (simp add: takeWhile_eq_all_conv)
  define sign where "sign = (if signed then [hd t] else '''')"
  have t: "t = sign @ ds" by (auto simp: sign_def ds_def signed_def)
  have v: "v = blanks @ sign @ ds" unfolding t [symmetric] by (simp add: blanks_def t_def)
  have "\<forall>c \<in> set blanks. is_space c" by (auto simp: blanks_def dest: set_takeWhileD)
  moreover have "sign \<in> {'''', ''+'', ''-''}" by (auto simp: sign_def signed_def)
  moreover have "k = (if sign = ''-'' then - digits_value ds else digits_value ds)"
    using k by (auto simp: sign_def)
  ultimately show "number_text v k" using v ds(1) digits unfolding number_text_def by blast
qed

lemma number_set_values:
  assumes "set_values vs (ParamNumber c n) = Inr p'" "\<not> p_set c"
  shows "\<exists>c' k. p' = ParamNumber c' (n\<lparr>n_number := k\<rparr>) \<and>
    (case vs of [] \<Rightarrow> k = n_number n | [v] \<Rightarrow> number_text v k \<and> number_in (n_min n) (n_max n) k | _ \<Rightarrow> False)"
proof (cases vs)
  case Nil
  then show ?thesis using assms by (auto intro!: exI [of _ "n_number n"])
next
  case (Cons v ws)
  then obtain q where q: "number_setValue v c n = Inr q" "set_values ws q = Inr p'"
    using assms by (auto simp: and_then_Inr_iff)
  then obtain k where k: "read_int64 v = (k, False, True)" "number_in (n_min n) (n_max n) k"
    "q = ParamNumber (c\<lparr>p_set := True\<rparr>) (n\<lparr>n_number := k\<rparr>)"
    by (auto simp: number_setValue_def number_in_def split: if_splits prod.splits)
  have "ws = []" using q(2) k(3) by (cases ws) (auto simp: number_setValue_def and_then_Inr_iff)
  then show ?thesis using q k read_int64_text [OF k(1)] Cons by auto
qed

lemma string_set_values:
  assumes "set_values vs (ParamString c s) = Inr p'" "\<not> p_set c" "s_values s = []"
  shows "\<exists>c' ws. p' = ParamString c' (s\<lparr>s_values := ws\<rparr>) \<and> p_set c' = (vs \<noteq> []) \<and>
    (case vs of [] \<Rightarrow> ws = [] | [v] \<Rightarrow> ws = (if s_multipleValue s then parseValuesToVector v else [v]) | _ \<Rightarrow> False)"
proof (cases vs)
  case Nil
  then show ?thesis using assms by (auto intro!: exI [of _ "[]"])
next
  case (Cons v ws)
  then obtain q where q: "string_setValue v c s = Inr q" "set_values ws q = Inr p'"
    using assms by (auto simp: and_then_Inr_iff)
  note q1 = string_setValue_Inr [OF q(1)]
  then have "ws = []" using q(2) by (cases ws) (auto simp: string_setValue_def and_then_Inr_iff)
  then show ?thesis using q q1 Cons by auto
qed

lemma enum_matches_switch:
  assumes "e_enums e = enum_items vals" "enum_matches v e \<noteq> []"
  shows "switch_at vals v (i_value (snd (last (enum_matches v e))))"
proof -
  let ?P = "\<lambda>j. v = fst (the (ev_opts (vals ! j)))"
  let ?js = "filter ?P [0..<length vals]"
  have m: "enum_matches v e = map (\<lambda>j. (int j, \<lparr>i_value = int j, i_name = fst (the (ev_opts (vals ! j))),
       i_desc = snd (the (ev_opts (vals ! j)))\<rparr>)) ?js"
    by (simp add: enum_matches_def assms(1) enum_items_def filter_map comp_def)
  then have ne: "?js \<noteq> []" using assms(2) by auto
  have "last ?js \<in> set ?js" using ne by (rule last_in_set)
  moreover have "j \<le> last ?js" if "j \<in> set ?js" for j
  proof -
    have "sorted ?js" by (simp add: sorted_wrt_filter)
    then have "sorted (butlast ?js @ [last ?js])" using ne by simp
    moreover have "j \<in> set (butlast ?js @ [last ?js])" using ne that by simp
    ultimately show ?thesis by (auto simp: sorted_append)
  qed
  moreover have "i_value (snd (last (enum_matches v e))) = int (last ?js)" using ne by (simp add: m last_map)
  ultimately show ?thesis unfolding switch_at_def by (intro exI [of _ "last ?js"]) auto
qed

lemma enum_set_values:
  assumes "set_values vs (ParamEnum c e) = Inr p'" "e_enums e = enum_items vals"
  shows "\<exists>c' i. p' = ParamEnum c' (e\<lparr>e_value := i\<rparr>) \<and> (if vs = [] then i = e_value e else switch_at vals (last vs) i)"
  using assms
proof (induction vs arbitrary: c e)
  case Nil
  then show ?case by (auto intro!: exI [of _ "e_value e"])
next
  case (Cons v vs)
  then obtain q where q: "enum_setValue v c e = Inr q" "set_values vs q = Inr p'" by (auto simp: and_then_Inr_iff)
  then have m: "enum_matches v e \<noteq> []"
    "q = ParamEnum (c\<lparr>p_set := True\<rparr>) (e\<lparr>e_value := i_value (snd (last (enum_matches v e)))\<rparr>)"
    by (auto simp: enum_setValue_iff)
  show ?case using Cons.IH [OF q(2) [unfolded m(2)]] enum_matches_switch [OF Cons.prems(2) m(1)] Cons.prems(2)
    by (auto split: if_splits)
qed

lemma flag_set_values: "set_values vs (ParamFlag c) = Inr p' \<Longrightarrow> \<exists>c'. p' = ParamFlag c' \<and> p_set c' = (p_set c \<or> vs \<noteq> [])"
proof (induction vs arbitrary: c)
  case (Cons v vs)
  then show ?case using Cons.IH [of "c\<lparr>p_set := True\<rparr>"] by simp
qed auto

lemma param_sent:
  assumes "fresh_for fd p" "set_values vs p = Inr p'" "param_parseToProtobuf fd p' m = Inr m'"
    "map_find m (fd_number fd) = None"
  shows "sent fd vs (map_find m' (fd_number fd))"
proof (cases p)
  case (ParamNumber c n)
  then have ty: "fd_type fd \<in> {TYPE_INT32, TYPE_INT64, TYPE_UINT32}" "\<not> p_set c"
    "n_number n = number_default fd" "number_range fd = (n_min n, n_max n)"
    using assms(1) by (auto simp: fresh_for_def made_for_def)
  obtain c' k where k: "p' = ParamNumber c' (n\<lparr>n_number := k\<rparr>)"
    "case vs of [] \<Rightarrow> k = n_number n | [v] \<Rightarrow> number_text v k \<and> number_in (n_min n) (n_max n) k | _ \<Rightarrow> False"
    using number_set_values [OF assms(2) [unfolded ParamNumber] ty(2)] by blast
  have "number_sent fd vs k" using k(2) ty by (simp add: number_sent_def split: list.splits)
  moreover have "map_find m' (fd_number fd) \<noteq> None \<and> map_find m' (fd_number fd) = number_value (fd_type fd) k"
    using assms(3) k(1) ty(1)
    by (auto simp: number_parseToProtobuf_def map_find_def map_of_put split: if_splits)
  ultimately show ?thesis using ty(1) by (auto simp: sent_def)
next
  case (ParamString c s)
  then have ty: "fd_type fd = TYPE_STRING" "s_multipleValue s = fd_repeated fd" "\<not> p_set c" "s_values s = []"
    "s_defaultValues s = (if string_default fd = '''' then [] else [string_default fd])"
    using assms(1) by (auto simp: fresh_for_def made_for_def)
  obtain c' ws where w: "p' = ParamString c' (s\<lparr>s_values := ws\<rparr>)" "p_set c' = (vs \<noteq> [])"
    "case vs of [] \<Rightarrow> ws = [] | [v] \<Rightarrow> ws = (if s_multipleValue s then parseValuesToVector v else [v]) | _ \<Rightarrow> False"
    using string_set_values [OF assms(2) [unfolded ParamString] ty(3,4)] by blast
  have split: "xs \<noteq> [] \<and> join_with '','' xs = v \<and> (\<forall>x \<in> set xs. CHR '','' \<notin> set x)"
    if "xs = parseValuesToVector v" for v xs
    using joined_parseValues [of v] parseValues_parts [of _ v] that by (simp add: PARAMETER_VALUE_DELIMITER_def)
  show ?thesis
  proof (cases vs)
    case Nil
    then show ?thesis using assms(3,4) w ty
      by (auto simp: sent_def strings_sent_def string_sent_def string_parseToProtobuf_def getMultipleValue_def
          add_strings_def map_find_def map_of_put split: if_splits option.splits)
  next
    case (Cons v us)
    then have "us = []" using w(3) by (cases us) auto
    then show ?thesis using assms(3,4) w ty Cons split [of "parseValuesToVector v" v]
      by (auto simp: sent_def strings_sent_def string_sent_def string_parseToProtobuf_def getMultipleValue_def
          string_getValue_def add_strings_def map_find_def map_of_put split: if_splits option.splits)
  qed
next
  case (ParamEnum c e)
  then obtain vals eops where ty: "fd_type fd = TYPE_ENUM vals eops" "e_enums e = enum_items vals"
    "e_value e = enum_default fd eops"
    using assms(1) by (auto simp: fresh_for_def)
  obtain c' i where i: "p' = ParamEnum c' (e\<lparr>e_value := i\<rparr>)" "if vs = [] then i = e_value e else switch_at vals (last vs) i"
    using enum_set_values [OF assms(2) [unfolded ParamEnum] ty(2)] by blast
  then have "map_find m' (fd_number fd) = Some (VEnum i)"
    using assms(3) by (auto simp: enum_parseToProtobuf_def map_find_def map_of_put)
  then show ?thesis using i(2) ty by (cases "vs = []") (simp_all add: sent_def)
next
  case (ParamFlag c)
  then have "fd_type fd = TYPE_BOOL" "\<not> p_set c" using assms(1) by (auto simp: fresh_for_def made_for_def)
  then show ?thesis using flag_set_values [OF assms(2) [unfolded ParamFlag]] assms(3)
    by (auto simp: sent_def map_find_def map_of_put)
qed

text \<open>
  The parameter that is found for a field after the options have been read is the one that was made for it, with
  the texts of its option.
\<close>

definition filled_for :: "field_desc \<Rightarrow> (string \<times> string) list \<Rightarrow> param \<Rightarrow> bool" where
  "filled_for fd ts p' \<longleftrightarrow> (\<exists>p. fresh_for fd p \<and> set_values (values_of (option_key fd) ts) p = Inr p')"

lemma set_values_kept:
  assumes "param_ok p" "set_values vs p = Inr p'"
  shows "param_ok p' \<and> (made_for fd p' \<longleftrightarrow> made_for fd p)"
  using assms
proof (induction vs arbitrary: p)
  case (Cons v vs)
  then obtain q where "param_setValue v p = Inr q" "set_values vs q = Inr p'" by (auto simp: and_then_Inr_iff)
  then show ?case using Cons param_setValue_ok(1) made_for_setValue by blast
qed simp

lemma filled_for_kept: "filled_for fd ts p \<Longrightarrow> param_ok p \<and> made_for fd p"
  unfolding filled_for_def fresh_for_def using set_values_kept by blast

lemma options_filled:
  assumes "createParameters fds cmd0 = Inr cmd" "c_params cmd0 = []" "\<forall>fd \<in> set fds. field_ok fd"
    "distinct (map fd_number fds)" "option_tokens (form (c_params cmd)) l = Some ts"
    "apply_tokens ts (c_params cmd) = Inr ps'" "fd \<in> set fds"
  shows "\<exists>k p. getParamByIndex (fd_number fd) ps' = Some (k, p) \<and> filled_for fd ts p"
proof -
  have ok0: "params_ok (c_params cmd0)" by (simp add: assms(2) params_ok_def)
  note made = createParameters_made [OF assms(1,3) ok0]
  have ps': "map_ok ps'" "fst ` set ps' = fst ` set (c_params cmd)"
    and found: "\<And>k p. map_find (c_params cmd) k = Some p \<Longrightarrow>
        \<exists>p'. map_find ps' k = Some p' \<and> set_values (values_of k ts) p = Inr p'"
    using assms(6) apply_tokens_iff [OF made(1) option_tokens_keys [OF assms(5)], of ps'] by simp_all
  have mok: "map_ok (c_params cmd)" using made(1) by (simp add: params_ok_def)
  have orig: "\<exists>fd \<in> set fds. filled_for fd ts p'" if k: "(k, p') \<in> set ps'" for k p'
  proof -
    from k have "k \<in> fst ` set (c_params cmd)" using ps'(2) by force
    then obtain p where p: "(k, p) \<in> set (c_params cmd)" by auto
    moreover have "map_find ps' k = Some p'" using k ps'(1) by (simp add: map_find_iff)
    moreover have "map_find (c_params cmd) k = Some p" using p mok by (simp add: map_find_iff)
    ultimately have "set_values (values_of k ts) p = Inr p'" using found [of k p] by auto
    then show ?thesis using made(3) [OF p] assms(2) by (auto simp: filled_for_def)
  qed
  obtain k p where kp: "(k, p) \<in> set (c_params cmd)" "fresh_for fd p" using made(4) [OF assms(7)] by blast
  then have "map_find (c_params cmd) k = Some p" using mok by (simp add: map_find_iff)
  then obtain p' where p': "map_find ps' k = Some p'" "set_values (values_of k ts) p = Inr p'" using found by blast
  have "param_ok p" "made_for fd p" using kp(2) by (simp_all add: fresh_for_def)
  then have made': "made_for fd p'" using set_values_kept [OF _ p'(2)] by blast
  moreover have "(k, p') \<in> set ps'" by (rule map_find_SomeD [OF p'(1)])
  ultimately have "\<exists>e \<in> set ps'. p_index (common (snd e)) = fd_number fd" by (force simp: made_for_def)
  then obtain k2 p2 where f: "getParamByIndex (fd_number fd) ps' = Some (k2, p2)"
    by (cases "getParamByIndex (fd_number fd) ps'") (auto simp: getParamByIndex_def find_None_iff)
  then have e2: "(k2, p2) \<in> set ps'" "p_index (common p2) = fd_number fd"
    by (auto simp: getParamByIndex_def dest: find_SomeD)
  obtain fd2 where fd2: "fd2 \<in> set fds" "filled_for fd2 ts p2" using orig [OF e2(1)] by blast
  have "made_for fd2 p2" using filled_for_kept [OF fd2(2)] by simp
  then have "fd2 = fd"
    using made_for_index [OF assms(4) fd2(1) assms(7) _ made', of p2] e2(2) made' by (simp add: made_for_def)
  then show ?thesis using f fd2 by blast
qed

lemma command_parseToProtobuf_sent:
  assumes "\<forall>fd \<in> set fds. \<exists>k p. getParamByIndex (fd_number fd) ps = Some (k, p) \<and> filled_for fd ts p"
    "distinct (map fd_number fds)" "command_parseToProtobuf fds ps m = Inr m'"
    "\<forall>fd \<in> set fds. map_find m (fd_number fd) = None"
  shows "(\<forall>i. i \<notin> fd_number ` set fds \<longrightarrow> map_find m' i = map_find m i) \<and>
    (\<forall>fd \<in> set fds. sent fd (values_of (option_key fd) ts) (map_find m' (fd_number fd)) \<and>
      (case map_find m' (fd_number fd) of
        None \<Rightarrow> fd_type fd = TYPE_STRING | Some v \<Rightarrow> value_fits (fd_type fd) (fd_repeated fd) v))"
  using assms
proof (induction fds ps m rule: command_parseToProtobuf.induct)
  case (2 fd fds ps m)
  then obtain k p m1 where kp: "getParamByIndex (fd_number fd) ps = Some (k, p)" "filled_for fd ts p"
    and m1: "param_parseToProtobuf fd p m = Inr m1" "command_parseToProtobuf fds ps m1 = Inr m'"
    by (auto simp: and_then_Inr_iff)
  have none: "map_find m (fd_number fd) = None" using "2.prems"(4) by simp
  have ok: "param_ok p" "made_for fd p" using filled_for_kept [OF kp(2)] by auto
  note fits = param_parseToProtobuf_fits [OF ok m1(1) none]
  have here: "sent fd (values_of (option_key fd) ts) (map_find m1 (fd_number fd))"
    using kp(2) param_sent [OF _ _ m1(1) none] by (auto simp: filled_for_def)
  have new: "fd_number fd \<notin> fd_number ` set fds" using "2.prems"(2) by simp
  have "map_find m1 (fd_number fd') = None" if "fd' \<in> set fds" for fd'
    using fits(1) [of "fd_number fd'"] new that "2.prems"(4) by (metis image_eqI list.set_intros(2))
  with "2.IH" [OF kp(1) refl _ _ m1(2)] "2.prems"(1,2)
  have IH: "(\<forall>i. i \<notin> fd_number ` set fds \<longrightarrow> map_find m' i = map_find m1 i) \<and>
    (\<forall>fd \<in> set fds. sent fd (values_of (option_key fd) ts) (map_find m' (fd_number fd)) \<and>
      (case map_find m' (fd_number fd) of
        None \<Rightarrow> fd_type fd = TYPE_STRING | Some v \<Rightarrow> value_fits (fd_type fd) (fd_repeated fd) v))" by simp
  then have "map_find m' (fd_number fd) = map_find m1 (fd_number fd)" using new by blast
  moreover have "fd_type fd = TYPE_STRING \<or> map_find m1 (fd_number fd) \<noteq> None" using fits(3) by blast
  ultimately show ?case using IH fits(1,2) here by (auto split: option.splits)
qed simp

text \<open>
  Property C34. The message that a command sends holds what the command line says. Every field has what its own
  option was given: a number the value of the digits, within the limits of the option, a flag whether it was
  there, an enumeration the position of the switch that was given last, a string that was given the text itself,
  a repeated string the texts between the commas. Where the option was not given, a number and an enumeration
  hold the default, a flag is false, a single string is left out even if it has a default, and a repeated one
  holds its default as one string, or is left out if it has none. Every value is one of the declared type: a
  32-bit number fits into 32 bits, an unsigned one is not negative, a list goes only into a repeated field. No
  other field is written.
\<close>

theorem command_message_typed:
  assumes "createParameters fds cmd0 = Inr cmd" "c_params cmd0 = []" "\<forall>fd \<in> set fds. field_ok fd"
    "distinct (map fd_number fds)" "parseParamValues l cmd = Inr cmd'"
    "command_parseToProtobuf fds (c_params cmd') [] = Inr m"
  shows "(\<forall>i. map_find m i \<noteq> None \<longrightarrow> i \<in> fd_number ` set fds) \<and>
    (\<forall>fd \<in> set fds. case map_find m (fd_number fd) of
        None \<Rightarrow> fd_type fd = TYPE_STRING | Some v \<Rightarrow> value_fits (fd_type fd) (fd_repeated fd) v) \<and>
    (\<exists>ts. option_tokens (form (c_params cmd)) l = Some ts \<and>
      (\<forall>fd \<in> set fds. sent fd (values_of (option_key fd) ts) (map_find m (fd_number fd))))"
proof -
  have "params_ok (c_params cmd)"
    by (rule createParameters_made(1) [OF assms(1,3)]) (simp add: assms(2) params_ok_def)
  from assms(5) [unfolded parseParamValues_tokens [OF this]]
  obtain ts ps' where ts: "option_tokens (form (c_params cmd)) l = Some ts" "apply_tokens ts (c_params cmd) = Inr ps'"
    "cmd' = cmd\<lparr>c_params := ps'\<rparr>" by blast
  have "\<forall>fd \<in> set fds. \<exists>k p. getParamByIndex (fd_number fd) ps' = Some (k, p) \<and> filled_for fd ts p"
    using options_filled [OF assms(1-4) ts(1,2)] by blast
  note filled = this
  have nil: "map_find ([] :: message) i = None" for i by (simp add: map_find_def)
  have "command_parseToProtobuf fds ps' [] = Inr m" using assms(6) ts(3) by simp
  note m = command_parseToProtobuf_sent [OF filled assms(4) this, unfolded nil ball_conj_distrib, OF ballI [OF refl]]
  have own: "\<forall>i. map_find m i \<noteq> None \<longrightarrow> i \<in> fd_number ` set fds" 
  proof (intro allI impI, rule ccontr)
    fix i assume "map_find m i \<noteq> None" "i \<notin> fd_number ` set fds"
    then show False using conjunct1 [OF m] by simp
  qed
  show ?thesis
    by (intro conjI exI [of _ ts] own ts(1) conjunct1 [OF conjunct2 [OF m]] conjunct2 [OF conjunct2 [OF m]])
qed

lemma sample_message:
  "command_parseToProtobuf sample_fields sample_parsed [] = Inr [(1, VInt32 42), (2, VBool True)]"
  by (simp add: sample_fields_def sample_parsed_def getParamByIndex_def sample_flag_def sample_number_def
      number_parseToProtobuf_def INT32_MIN_def INT32_MAX_def)

text \<open>Three more options, all of text: a name, a label, and a list of tags.\<close>

definition text_field :: "string \<Rightarrow> int \<Rightarrow> bool \<Rightarrow> field_desc" where
  "text_field name i rep =
     \<lparr>fd_name = name, fd_number = i, fd_type = TYPE_STRING, fd_repeated = rep,
      fd_opts = Some \<lparr>op_required = False, op_short_key = '''', op_long_key = name, op_desc = '''',
        op_param = CliStr \<lparr>os_default_value = ''none'', os_repeated_limit = 0\<rparr>\<rparr>\<rparr>"

definition text_fields :: "field_desc list" where
  "text_fields = [text_field ''name'' 3 False, text_field ''label'' 4 False, text_field ''tags'' 5 True]"

definition text_param :: "string \<Rightarrow> int \<Rightarrow> bool \<Rightarrow> param" where
  "text_param name i rep =
     ParamString
       \<lparr>p_shortKey = '''', p_longKey = name, p_desc = '''', p_what = (if rep then ''<VALUE>[,VALUE]'' else ''<VALUE>''),
        p_index = i, p_set = False, p_required = False, p_hidden = False\<rparr>
       \<lparr>s_values = [], s_defaultValues = [''none''], s_hasDefaultValue = True, s_maxLength = MAX_STRING_LENGTH,
        s_multipleValue = rep, s_multipleValueLimit = 0\<rparr>"

definition text_command :: command where
  "text_command = (Command VersionCmd)
     \<lparr>c_params := [(''label'', text_param ''label'' 4 False), (''name'', text_param ''name'' 3 False),
        (''tags'', text_param ''tags'' 5 True)]\<rparr>"

lemma createParameters_text: "createParameters text_fields (Command VersionCmd) = Inr text_command"
  by (simp add: text_fields_def text_field_def createParameter_def new_param_def string_setOptions_def common_setOptions_def
      string_setDefault_def string_setMultipleValue_def validate_def string_getValue_def
      addParam_def Parameter_def string_new_def map_find_def Command_def text_command_def text_param_def
      MAX_STRING_LENGTH_def Let_def)

lemma text_params_ok: "params_ok (c_params text_command)"
  by (simp add: text_command_def params_ok_def map_ok_def map_all_def text_param_def)

definition text_given :: "string list \<Rightarrow> param \<Rightarrow> param" where
  "text_given vs p = (case p of ParamString c s \<Rightarrow> ParamString (c\<lparr>p_set := True\<rparr>) (s\<lparr>s_values := vs\<rparr>) | _ \<Rightarrow> p)"

definition text_parsed :: "(string, param) std_map" where
  "text_parsed =
     [(''label'', text_param ''label'' 4 False), (''name'', text_given [''cache''] (text_param ''name'' 3 False)),
      (''tags'', text_given [''a'', ''b''] (text_param ''tags'' 5 True))]"

lemma text_keys: "getValidKeyName ''--name'' = ''name''" "getValidKeyName ''--tags'' = ''tags''"
  by (simp_all add: getValidKeyName_def getKeyName_def parseKey_def hasPrefix_def LONG_KEY_PREFIX_def
      SHORT_KEY_PREFIX_def isValidKey_def isLongKeyValid_iff isShortKeyValid_def is_alnum_def is_alpha_def)

lemma text_tokens:
  "option_tokens (form (c_params text_command)) [''--tags'', ''a,b'', ''--name'', ''cache''] =
     Some [(''tags'', ''a,b''), (''name'', ''cache'')]"
  by (simp add: text_keys form_def form_find_def text_command_def text_param_def)

lemma parse_text:
  "parseParamValues [''--tags'', ''a,b'', ''--name'', ''cache''] text_command = Inr (text_command\<lparr>c_params := text_parsed\<rparr>)"
proof -
  have split: "parseValuesToVector ''a,b'' = [''a'', ''b'']"
    by (simp add: parseValuesToVector.simps PARAMETER_VALUE_DELIMITER_def)
  show ?thesis
    unfolding parseParamValues_tokens [OF text_params_ok]
    by (intro exI [of _ "[(''tags'', ''a,b''), (''name'', ''cache'')]"] exI [of _ text_parsed] conjI text_tokens refl)
      (simp_all add: text_command_def map_find_def text_param_def text_parsed_def text_given_def
        string_setValue_def validate_def getMultipleValue_def string_getValue_def MAX_STRING_LENGTH_def split missing_def)
qed

lemma text_message:
  "command_parseToProtobuf text_fields text_parsed [] = Inr [(3, VString ''cache''), (5, VStrings [''a'', ''b''])]"
  by (simp add: text_fields_def text_field_def text_parsed_def getParamByIndex_def text_param_def text_given_def
      string_parseToProtobuf_def getMultipleValue_def string_getValue_def add_strings_def map_find_def)

text \<open>
  With \<open>--tags a,b --name cache\<close> the name is sent as it was given, the tags one by one, and the label, which
  was not given, is not in the message.
\<close>

lemma command_message_typed_witness:
  "\<exists>cmd cmd' m. createParameters text_fields (Command VersionCmd) = Inr cmd \<and>
     parseParamValues [''--tags'', ''a,b'', ''--name'', ''cache''] cmd = Inr cmd' \<and>
     command_parseToProtobuf text_fields (c_params cmd') [] = Inr m \<and>
     map_find m 3 = Some (VString ''cache'') \<and> map_find m 4 = None \<and>
     (\<exists>xs. map_find m 5 = Some (VStrings xs) \<and> join_with '','' xs = ''a,b'' \<and> (\<forall>x \<in> set xs. CHR '','' \<notin> set x)) \<and>
     (\<forall>i. map_find m i \<noteq> None \<longrightarrow> i \<in> {3, 4, 5})"
proof -
  let ?cmd' = "text_command\<lparr>c_params := text_parsed\<rparr>"
  let ?m = "[(3, VString ''cache''), (5, VStrings [''a'', ''b''])] :: message"
  have m: "command_parseToProtobuf text_fields (c_params ?cmd') [] = Inr ?m" by (simp add: text_message)
  have "\<forall>fd \<in> set text_fields. field_ok fd" "distinct (map fd_number text_fields)"
    by (simp_all add: text_fields_def text_field_def field_ok_def)
  from command_message_typed [OF createParameters_text _ this parse_text m]
  have r: "\<forall>i. map_find ?m i \<noteq> None \<longrightarrow> i \<in> {3, 4, 5}"
    "sent (text_field ''name'' 3 False) [''cache''] (map_find ?m 3)"
    "sent (text_field ''label'' 4 False) [] (map_find ?m 4)"
    "sent (text_field ''tags'' 5 True) [''a,b''] (map_find ?m 5)"
    unfolding text_tokens by (simp_all add: Command_def text_fields_def text_field_def option_key_def long_key_of_def values_of_def)
  then have "map_find ?m 3 = Some (VString ''cache'')" "map_find ?m 4 = None"
    "\<exists>xs. map_find ?m 5 = Some (VStrings xs) \<and> join_with '','' xs = ''a,b'' \<and> (\<forall>x \<in> set xs. CHR '','' \<notin> set x)"
    by (auto simp: sent_def text_field_def string_sent_def strings_sent_def)
  with r(1) m createParameters_text parse_text show ?thesis by blast
qed

end
