(* ===== verification/Cli_Executor.thy ===== *)
theory Cli_Executor
  imports Cli_Command "HOL-Library.Product_Lexorder"
begin

section \<open>The executor of commands\<close>

text \<open>
  How a command line finds its command and runs it (source/octf/cli/Executor.cpp, Module.cpp, and the
  lines of the help in CLIUtils.cpp).

  \<open>m_cmdSet\<close> is a shared pointer to the set of the application or to the set of a module; here it
  is a reference (\<open>set_ref\<close>), so that loading the commands of a module changes the set that the
  module has. The map of modules is ordered by the pair of keys, and assigning to a module that is
  already a key of the map leaves that key as it is.

  What is outside the process is the record \<open>outside\<close>: the modules whose sockets are found, the version
  of the framework, whether a module can be reached, the descriptions it sends, and the answers of the methods. A description
  that cannot be had, and a call that failed, is \<open>Inl\<close> of its error text. The log output and the
  methods that were called are the list of \<open>cli_output\<close>, which a run has also when it ends with an
  exception. The programs that use the executor run one command with it, so the values
  that its parameters were given are not put back into the set of commands.
\<close>

record cli_module =
  mod_shortKey :: string
  mod_longKey :: string
  mod_desc :: string
  mod_isLocal :: bool

definition Module :: cli_module where
  "Module = \<lparr>mod_shortKey = '''', mod_longKey = '''', mod_desc = '''', mod_isLocal = False\<rparr>"

type_synonym module_key = "string \<times> string"

definition module_key_of :: "cli_module \<Rightarrow> module_key" where
  "module_key_of m = (mod_shortKey m, mod_longKey m)"

datatype set_ref = LocalSet | ModuleSet module_key

type_synonym module_map = "(module_key, cli_module \<times> command_set) std_map"

record executor =
  x_name :: string
  x_version :: string
  x_localCmdSet :: command_set
  x_cmdSet :: "set_ref option"
  x_module :: cli_module
  x_nodePlugin :: "string option"
  x_modules :: module_map
  x_supported :: "string list"

record outside =
  o_sockets :: "string list"
  o_version :: string
  o_init :: "string \<Rightarrow> bool"
  o_command :: "string \<Rightarrow> string \<Rightarrow> string + command_desc"
  o_commands :: "string \<Rightarrow> string + command_desc list"
  o_call_local :: "string \<Rightarrow> nat \<Rightarrow> message \<Rightarrow> string + string"
  o_call_remote :: "string \<Rightarrow> string \<Rightarrow> nat \<Rightarrow> message \<Rightarrow> string + string"

datatype cli_output =
    Out string
  | Err string
  | Called "string option" string nat message

subsection \<open>Help\<close>

definition utils_printModuleHelp :: "cli_module \<Rightarrow> bool \<Rightarrow> string" where
  "utils_printModuleHelp m isList =
     printKeys (mod_shortKey m) (mod_longKey m) (if isList then mod_desc m else '''') isList"

definition printUsage :: "string \<Rightarrow> cli_module option \<Rightarrow> bool \<Rightarrow> bool \<Rightarrow> string" where
  "printUsage name m isList hasPlugins =
     ''Usage: '' @ name @ '' '' @
     (case m of Some m \<Rightarrow> utils_printModuleHelp m isList | None \<Rightarrow> if hasPlugins then ''[module] '' else '''') @
     ''command [options...]'' @ [CHR 0x0A]"

definition printMainHelp :: "executor \<Rightarrow> string" where
  "printMainHelp x =
     printUsage (x_name x) None False (x_modules x \<noteq> []) @
     (if x_modules x \<noteq> [] then
        [CHR 0x0A] @ ''Available modules: '' @ [CHR 0x0A] @
        concat (map (\<lambda>(k, m, cs). utils_printModuleHelp m True) (x_modules x))
      else '''') @
     [CHR 0x0A] @ ''Available commands: '' @ [CHR 0x0A] @ set_getHelp (x_localCmdSet x)"

subsection \<open>Building an executor\<close>

definition addLocalCommand :: "command \<Rightarrow> executor \<Rightarrow> executor res" where
  "addLocalCommand cmd x =
     and_then (addCmd cmd (x_localCmdSet x)) (\<lambda>cs. Inr (x\<lparr>x_localCmdSet := cs\<rparr>))"

definition Executor :: "string \<Rightarrow> string \<Rightarrow> executor res" where
  "Executor name version =
     and_then CommandSet (\<lambda>cs.
       addLocalCommand CmdVersion
         \<lparr>x_name = name, x_version = version, x_localCmdSet = cs, x_cmdSet = None, x_module = Module,
          x_nodePlugin = None, x_modules = [], x_supported = []\<rparr>)"

definition key_conflict :: "string \<Rightarrow> string \<Rightarrow> fault" where
  "key_conflict which key =
     Octf_Exception (''Cannot add command because of '' @ which @ '' key conflict: '' @ key)"

fun module_keys_repeated :: "string \<Rightarrow> string \<Rightarrow> module_map \<Rightarrow> unit res" where
  "module_keys_repeated shortKey longKey [] = Inr ()"
| "module_keys_repeated shortKey longKey ((k, m, cs) # ms) =
     (if mod_longKey m = longKey then Inl (key_conflict ''long'' longKey)
      else if shortKey \<noteq> '''' \<and> mod_shortKey m = shortKey then Inl (key_conflict ''short'' shortKey)
      else module_keys_repeated shortKey longKey ms)"

definition checkIsKeyRepeated :: "string \<Rightarrow> string \<Rightarrow> executor \<Rightarrow> unit res" where
  "checkIsKeyRepeated shortKey longKey x =
     (if hasCmd longKey (x_localCmdSet x) then Inl (key_conflict ''long'' longKey)
      else if shortKey \<noteq> '''' \<and> hasCmd shortKey (x_localCmdSet x) then Inl (key_conflict ''short'' shortKey)
      else module_keys_repeated shortKey longKey (x_modules x))"

text \<open>\<open>m_modules[module] = set\<close>.\<close>

definition put_module :: "cli_module \<Rightarrow> command_set \<Rightarrow> module_map \<Rightarrow> module_map" where
  "put_module m cs ms =
     map_put (module_key_of m)
       (case map_find ms (module_key_of m) of Some (m', cs') \<Rightarrow> (m', cs) | None \<Rightarrow> (m, cs)) ms"

record method_desc =
  md_ops :: command_ops
  md_input :: "field_desc list"

record interface_desc =
  if_name :: string
  if_longKey :: string
  if_shortKey :: string
  if_desc :: string
  if_methods :: "method_desc list"

definition get_set :: "set_ref \<Rightarrow> executor \<Rightarrow> command_set" where
  "get_set r x =
     (case r of
        LocalSet \<Rightarrow> x_localCmdSet x
      | ModuleSet k \<Rightarrow> (case map_find (x_modules x) k of Some (m, cs) \<Rightarrow> cs | None \<Rightarrow> []))"

definition upd_set :: "set_ref \<Rightarrow> command_set \<Rightarrow> executor \<Rightarrow> executor" where
  "upd_set r cs x =
     (case r of
        LocalSet \<Rightarrow> x\<lparr>x_localCmdSet := cs\<rparr>
      | ModuleSet k \<Rightarrow>
          (case map_find (x_modules x) k of
             Some (m, _) \<Rightarrow> x\<lparr>x_modules := map_put k (m, cs) (x_modules x)\<rparr>
           | None \<Rightarrow> x))"

definition addMethod :: "string \<Rightarrow> nat \<Rightarrow> method_desc \<Rightarrow> set_ref \<Rightarrow> executor \<Rightarrow> executor res" where
  "addMethod interface i method r x =
     and_then (if r = LocalSet then checkIsKeyRepeated (co_shortKey (md_ops method)) (co_longKey (md_ops method)) x
               else Inr ()) (\<lambda>_.
     and_then (CommandProtobufLocal (md_ops method) (md_input method) interface i) (\<lambda>cmd.
     and_then (addCmd cmd (get_set r x)) (\<lambda>cs. Inr (upd_set r cs x))))"

fun addMethods :: "string \<Rightarrow> nat \<Rightarrow> method_desc list \<Rightarrow> set_ref \<Rightarrow> executor \<Rightarrow> executor res" where
  "addMethods interface i [] r x = Inr x"
| "addMethods interface i (m # ms) r x =
     and_then (addMethod interface i m r x) (addMethods interface (Suc i) ms r)"

definition addInterface :: "interface_desc \<Rightarrow> set_ref \<Rightarrow> executor \<Rightarrow> executor res" where
  "addInterface i r x = addMethods (if_name i) 0 (if_methods i) r x"

definition addLocalModule :: "interface_desc \<Rightarrow> string \<Rightarrow> string \<Rightarrow> string \<Rightarrow> executor \<Rightarrow> executor res" where
  "addLocalModule i longKey desc shortKey x =
     and_then (checkIsKeyRepeated shortKey longKey x) (\<lambda>_.
       let m = \<lparr>mod_shortKey = shortKey, mod_longKey = longKey, mod_desc = desc, mod_isLocal = True\<rparr>
       in and_then CommandSet (\<lambda>cs.
            addInterface i (ModuleSet (module_key_of m)) (x\<lparr>x_modules := put_module m cs (x_modules x)\<rparr>)))"

definition addModule :: "interface_desc \<Rightarrow> executor \<Rightarrow> executor res" where
  "addModule i x =
     (if if_longKey i \<noteq> '''' then addLocalModule i (if_longKey i) (if_desc i) (if_shortKey i) x
      else addInterface i LocalSet x)"

definition addModule_node :: "string \<Rightarrow> executor \<Rightarrow> executor res" where
  "addModule_node moduleId x =
     (if moduleId \<notin> set (x_supported x) then Inr (x\<lparr>x_supported := x_supported x @ [moduleId]\<rparr>)
      else Inl (Octf_Exception ''Duplicate remote module ids added''))"

subsection \<open>Finding a command\<close>

fun discover :: "string list \<Rightarrow> bool \<Rightarrow> executor \<Rightarrow> (bool \<times> executor) res" where
  "discover [] found x = Inr (found, x)"
| "discover (node # nodes) found x =
     (if node \<in> set (x_supported x) then
        and_then CommandSet (\<lambda>cs.
          discover nodes True
            (x\<lparr>x_modules := put_module (Module\<lparr>mod_longKey := node\<rparr>) cs (x_modules x)\<rparr>))
      else discover nodes found x)"

definition discoverModules :: "outside \<Rightarrow> executor \<Rightarrow> executor res" where
  "discoverModules out x =
     (if x_supported x = [] then Inr x
      else
        and_then (discover (o_sockets out) False x) (\<lambda>(found, x).
          Inr (if found then x else x\<lparr>x_supported := []\<rparr>)))"

definition module_answers :: "string \<Rightarrow> cli_module \<Rightarrow> bool" where
  "module_answers name m \<longleftrightarrow> name = mod_shortKey m \<or> name = mod_longKey m"

definition lookupModule :: "outside \<Rightarrow> string \<Rightarrow> executor \<Rightarrow> (bool \<times> executor) res" where
  "lookupModule out name x =
     (let x = (case find (\<lambda>(k, m, cs). module_answers name m) (x_modules x) of
                 Some (k, m, cs) \<Rightarrow> x\<lparr>x_module := m, x_cmdSet := Some (ModuleSet k)\<rparr>
               | None \<Rightarrow> x)
      in if mod_longKey (x_module x) = '''' then Inr (False, x)
         else if \<not> mod_isLocal (x_module x) then
           let x = x\<lparr>x_nodePlugin := Some (mod_longKey (x_module x))\<rparr>
           in if \<not> o_init out (mod_longKey (x_module x)) then Inl (Octf_Exception ''Module unavailable.'')
              else Inr (True, x)
         else Inr (True, x))"

definition getCommandFromModule :: "outside \<Rightarrow> string \<Rightarrow> executor \<Rightarrow> command option res" where
  "getCommandFromModule out cmdName x =
     (case x_nodePlugin x of
        None \<Rightarrow> Inr None
      | Some node \<Rightarrow>
          (case o_command out node cmdName of
             Inl e \<Rightarrow> Inl (Invalid_Parameter (''Cannot get command description, error: '' @ e))
           | Inr d \<Rightarrow>
               if isCommandValid (cd_ops d) then and_then (CommandProtobuf d) (\<lambda>cmd. Inr (Some cmd))
               else Inr None))"

fun add_commands :: "command_desc list \<Rightarrow> command_set \<Rightarrow> command_set res" where
  "add_commands [] cs = Inr cs"
| "add_commands (d # ds) cs =
     and_then (CommandProtobuf d) (\<lambda>cmd. and_then (addCmd cmd cs) (add_commands ds))"

definition cmdSet_ref :: "executor \<Rightarrow> set_ref" where
  "cmdSet_ref x = (case x_cmdSet x of Some r \<Rightarrow> r | None \<Rightarrow> LocalSet)"

definition loadModuleCommandSet :: "outside \<Rightarrow> executor \<Rightarrow> executor res" where
  "loadModuleCommandSet out x =
     (if \<not> mod_isLocal (x_module x) then
        case x_nodePlugin x of
          None \<Rightarrow> Inl (Undefined_Behaviour ''no plugin'')
        | Some node \<Rightarrow>
            (case o_commands out node of
               Inl e \<Rightarrow> Inl (Invalid_Parameter (''Cannot get command list, error: '' @ e))
             | Inr ds \<Rightarrow>
                 if isCommandSetValid (map cd_ops ds) False then
                   and_then (add_commands ds (get_set (cmdSet_ref x) x)) (\<lambda>cs.
                     Inr (upd_set (cmdSet_ref x) cs x))
                 else Inr x)
      else Inr x)"

definition printModuleHelp :: "outside \<Rightarrow> executor \<Rightarrow> (string \<times> executor) res" where
  "printModuleHelp out x =
     and_then (loadModuleCommandSet out x) (\<lambda>x.
       Inr (printUsage (x_name x) (Some (x_module x)) False False @
            (if mod_desc (x_module x) \<noteq> '''' then [CHR 0x0A] @ mod_desc (x_module x) @ [CHR 0x0A] else '''') @
            [CHR 0x0A] @ ''Available commands: '' @ [CHR 0x0A] @ set_getHelp (get_set (cmdSet_ref x) x), x))"

text \<open>The command, or none with a message; what is left of the list; the state.\<close>

definition lookup_in_set ::
    "outside \<Rightarrow> string \<Rightarrow> bool \<Rightarrow> string list \<Rightarrow> executor \<Rightarrow>
       (command option \<times> string \<times> string list \<times> executor) res" where
  "lookup_in_set out key isModule l x =
     (if isModule \<and> \<not> cli_hasNext l then Inr (None, ''No command specified'', l, x)
      else
        let (element, l) = (if isModule then cli_next l else ('''', l));
            cmd = (if isModule then getValidKeyName element else key)
        in if cmd = '''' then Inr (None, ''Invalid command format.'', l, x)
           else
             and_then
               (if mod_isLocal (x_module x) \<or> hasCmd cmd (get_set (cmdSet_ref x) x) then
                  and_then (getCmd cmd (get_set (cmdSet_ref x) x)) (\<lambda>c. Inr (Some c))
                else getCommandFromModule out cmd x)
               (\<lambda>c. Inr (c, '''', l, x)))"

definition lookupCommand ::
    "outside \<Rightarrow> string list \<Rightarrow> executor \<Rightarrow> (command option \<times> string \<times> string list \<times> executor) res" where
  "lookupCommand out l x =
     (let (element, l) = cli_next l; key = getValidKeyName element
      in if key = '''' then Inl (Invalid_Parameter ''Invalid command format.'')
         else
           let x = x\<lparr>x_cmdSet := Some LocalSet, x_module := (x_module x)\<lparr>mod_isLocal := True\<rparr>\<rparr>
           in and_then (lookupModule out key x) (\<lambda>(isModule, x). lookup_in_set out key isModule l x))"

subsection \<open>Running a command\<close>

text \<open>
  What a command has done, and then its return or its exception: a call was made before the exception that tells
  its error is thrown.
\<close>

definition handleCall :: "cli_output \<Rightarrow> string + string \<Rightarrow> cli_output list \<times> unit res" where
  "handleCall call answer =
     (case answer of
        Inl e \<Rightarrow> ([call], Inl (Octf_Exception e))
      | Inr outMessage \<Rightarrow> ([call, Out outMessage], Inr ()))"

definition executeRemote :: "outside \<Rightarrow> field_desc list \<Rightarrow> string \<Rightarrow> nat \<Rightarrow> command \<Rightarrow> executor \<Rightarrow> cli_output list \<times> unit res" where
  "executeRemote out fds interface method cmd x =
     (case x_nodePlugin x of
        None \<Rightarrow> ([], Inl (Octf_Exception ''Wrong initialization of plugin.''))
      | Some node \<Rightarrow>
          (case command_parseToProtobuf fds (c_params cmd) [] of
             Inl e \<Rightarrow> ([], Inl e)
           | Inr m \<Rightarrow> handleCall (Called (Some node) interface method m) (o_call_remote out node interface method m)))"

definition executeLocal :: "outside \<Rightarrow> field_desc list \<Rightarrow> string \<Rightarrow> nat \<Rightarrow> command \<Rightarrow> cli_output list \<times> unit res" where
  "executeLocal out fds interface method cmd =
     (case command_parseToProtobuf fds (c_params cmd) [] of
        Inl e \<Rightarrow> ([], Inl e)
      | Inr m \<Rightarrow> handleCall (Called None interface method m) (o_call_local out interface method m))"

definition run_command :: "outside \<Rightarrow> command \<Rightarrow> executor \<Rightarrow> cli_output list \<times> unit res" where
  "run_command out cmd x =
     (if c_local cmd then
        (case c_kind cmd of
           VersionCmd \<Rightarrow> ([Out (x_version x), Out (o_version out)], Inr ())
         | ProtobufLocal fds interface method \<Rightarrow> executeLocal out fds interface method cmd
         | _ \<Rightarrow> ([], Inr ()))
      else
        (case c_kind cmd of
           ProtobufRemote fds interface method \<Rightarrow> executeRemote out fds interface method cmd x
         | _ \<Rightarrow> ([], Inl (Invalid_Parameter ''Unknown command type.''))))"

fun what :: "fault \<Rightarrow> string option" where
  "what (Octf_Exception s) = Some s"
| "what (Invalid_Parameter s) = Some s"
| "what _ = None"

definition execute_command ::
    "outside \<Rightarrow> command \<Rightarrow> string list \<Rightarrow> executor \<Rightarrow> cli_output list \<times> (int \<times> executor) res" where
  "execute_command out cmd l x =
     (if cli_hasHelp l then ([Out (printCmdHelp (x_name x) cmd)], Inr (0, x))
      else
        case parseParamValues l cmd of
          Inl e \<Rightarrow>
            (case what e of
               None \<Rightarrow> ([], Inl e)
             | Some message \<Rightarrow>
                 ((if message \<noteq> '''' then [Err message] else []) @ [Out (printCmdHelp (x_name x) cmd)], Inr (1, x)))
        | Inr cmd \<Rightarrow>
            let (outs, r) = run_command out cmd x
            in (outs, and_then r (\<lambda>_. Inr (0, x))))"

text \<open>The help of the application or of the module, and then the code.\<close>

definition print_help :: "outside \<Rightarrow> int \<Rightarrow> executor \<Rightarrow> cli_output list \<times> (int \<times> executor) res" where
  "print_help out code x =
     (if cmdSet_ref x = LocalSet then ([Out (printMainHelp x)], Inr (code, x))
      else
        case printModuleHelp out x of
          Inl e \<Rightarrow> ([], Inl e)
        | Inr (help, x) \<Rightarrow> ([Out help], Inr (code, x)))"

definition execute :: "outside \<Rightarrow> string list \<Rightarrow> executor \<Rightarrow> cli_output list \<times> (int \<times> executor) res" where
  "execute out l x =
     (case and_then (discoverModules out x) (lookupCommand out l) of
        Inl e \<Rightarrow> ([], Inl e)
      | Inr (command, errMsg, l, x) \<Rightarrow>
          (case command of
             Some cmd \<Rightarrow> if c_kind cmd = HelpCmd then print_help out 0 x else execute_command out cmd l x
           | None \<Rightarrow>
               let (outs, r) = print_help out 1 x
               in ((if errMsg \<noteq> '''' then [Err errMsg] else []) @ outs, r)))"

definition execute_argv :: "outside \<Rightarrow> string list \<Rightarrow> executor \<Rightarrow> cli_output list \<times> (int \<times> executor) res" where
  "execute_argv out argv x =
     (if length argv > 1 then execute out (cli_create argv) x
      else
        ([], Inl (Invalid_Parameter
          (''Specify module or command first. Use '' @ [CHR 0x27] @ x_name x @ '' -H'' @ [CHR 0x27] @ '' for help.''))))"
subsection \<open>Every set keeps answering to one command\<close>

definition module_ok :: "module_key \<Rightarrow> cli_module \<times> command_set \<Rightarrow> bool" where
  "module_ok k e \<longleftrightarrow> module_key_of (fst e) = k \<and> cmdset_ok (snd e)"

definition modules_ok :: "module_map \<Rightarrow> bool" where
  "modules_ok ms \<longleftrightarrow> map_ok ms \<and> (\<forall>e \<in> set ms. module_ok (fst e) (snd e))"

definition executor_ok :: "executor \<Rightarrow> bool" where
  "executor_ok x \<longleftrightarrow> cmdset_ok (x_localCmdSet x) \<and> modules_ok (x_modules x)"

lemma CommandSet_Inr: "CommandSet = Inr cs \<Longrightarrow> cmdset_ok cs"
  by (metis CommandSet_ok sum.inject(2))

lemma modules_ok_put: "modules_ok ms \<Longrightarrow> module_ok k e \<Longrightarrow> modules_ok (map_put k e ms)"
  using set_map_put [of k e ms] by (auto simp: modules_ok_def map_ok_put)

lemma modules_ok_find: "modules_ok ms \<Longrightarrow> map_find ms k = Some e \<Longrightarrow> module_ok k e"
  by (fastforce simp: modules_ok_def dest: map_find_SomeD)

lemma put_module_ok:
  assumes "modules_ok ms" "cmdset_ok cs"
  shows "modules_ok (put_module m cs ms)"
proof -
  have "module_ok (module_key_of m)
      (case map_find ms (module_key_of m) of Some (m', cs') \<Rightarrow> (m', cs) | None \<Rightarrow> (m, cs))"
    using assms modules_ok_find [OF assms(1), of "module_key_of m"]
    by (auto simp: module_ok_def split: option.splits)
  then show ?thesis unfolding put_module_def by (rule modules_ok_put [OF assms(1)])
qed

lemma executor_ok_put_module:
  "executor_ok x \<Longrightarrow> cmdset_ok cs \<Longrightarrow> executor_ok (x\<lparr>x_modules := put_module m cs (x_modules x)\<rparr>)"
  by (simp add: executor_ok_def put_module_ok)

lemma cmdset_ok_Nil [simp]: "cmdset_ok []"
  by (simp add: cmdset_ok_def)

lemma modules_ok_Nil [simp]: "modules_ok []"
  by (simp add: modules_ok_def)

lemma get_set_ok:
  assumes "executor_ok x"
  shows "cmdset_ok (get_set r x)"
proof (cases r)
  case (ModuleSet k)
  then show ?thesis using assms modules_ok_find [of "x_modules x" k]
    by (cases "map_find (x_modules x) k") (auto simp: executor_ok_def get_set_def module_ok_def)
qed (use assms in \<open>simp add: get_set_def executor_ok_def\<close>)

lemma upd_set_ok:
  assumes "executor_ok x" "cmdset_ok cs"
  shows "executor_ok (upd_set r cs x)"
proof (cases r)
  case (ModuleSet k)
  show ?thesis
  proof (cases "map_find (x_modules x) k")
    case (Some e)
    then have "module_ok k (fst e, cs)"
      using assms modules_ok_find [of "x_modules x" k e] by (simp add: executor_ok_def module_ok_def)
    then have "modules_ok (map_put k (fst e, cs) (x_modules x))"
      using assms(1) by (simp add: executor_ok_def modules_ok_put)
    then show ?thesis using assms(1) Some ModuleSet by (cases e) (simp add: executor_ok_def upd_set_def)
  qed (use assms ModuleSet in \<open>simp add: upd_set_def\<close>)
qed (use assms in \<open>simp add: upd_set_def executor_ok_def\<close>)

lemma addMethod_ok: "executor_ok x \<Longrightarrow> addMethod i n m r x = Inr x' \<Longrightarrow> executor_ok x'"
  using addCmd_Inr [OF get_set_ok] by (auto simp: addMethod_def and_then_Inr_iff intro!: upd_set_ok)

lemma addMethods_ok: "executor_ok x \<Longrightarrow> addMethods i n ms r x = Inr x' \<Longrightarrow> executor_ok x'"
  by (induction i n ms r x rule: addMethods.induct) (auto simp: and_then_Inr_iff intro: addMethod_ok)

lemma addModule_ok: "executor_ok x \<Longrightarrow> addModule i x = Inr x' \<Longrightarrow> executor_ok x'"
  by (auto simp: addModule_def addLocalModule_def addInterface_def and_then_Inr_iff Let_def
      intro: addMethods_ok executor_ok_put_module CommandSet_Inr split: if_splits)

lemma discover_ok: "executor_ok x \<Longrightarrow> discover nodes found x = Inr (f, x') \<Longrightarrow> executor_ok x'"
proof (induction nodes found x rule: discover.induct)
  case (2 node nodes found x)
  then show ?case using executor_ok_put_module [OF _ CommandSet_Inr]
    by (auto simp: and_then_Inr_iff split: if_splits)
qed simp

lemma executor_ok_fields [simp]:
  "executor_ok (x\<lparr>x_cmdSet := c\<rparr>) = executor_ok x" "executor_ok (x\<lparr>x_module := m\<rparr>) = executor_ok x"
  "executor_ok (x\<lparr>x_nodePlugin := p\<rparr>) = executor_ok x" "executor_ok (x\<lparr>x_supported := l\<rparr>) = executor_ok x"
  by (simp_all add: executor_ok_def)

lemma discoverModules_ok: "executor_ok x \<Longrightarrow> discoverModules out x = Inr x' \<Longrightarrow> executor_ok x'"
  by (auto simp: discoverModules_def and_then_Inr_iff split: if_splits dest: discover_ok)

lemma lookupModule_ok: "executor_ok x \<Longrightarrow> lookupModule out name x = Inr (b, x') \<Longrightarrow> executor_ok x'"
  by (auto simp: lookupModule_def Let_def split: if_splits option.splits prod.splits)

lemma lookup_in_set_state: "lookup_in_set out key b l x = Inr (c, e, l', x') \<Longrightarrow> x' = x"
  by (auto simp: lookup_in_set_def Let_def and_then_Inr_iff split: if_splits prod.splits)

lemma lookupCommand_ok:
  assumes "executor_ok x" "lookupCommand out l x = Inr (c, e, l', x')"
  shows "executor_ok x'"
proof -
  obtain key r b where "lookupModule out key
      (x\<lparr>x_cmdSet := Some LocalSet, x_module := (x_module x)\<lparr>mod_isLocal := True\<rparr>\<rparr>) = Inr (b, x')"
    using assms(2) by (auto simp: lookupCommand_def Let_def and_then_Inr_iff split: if_splits prod.splits
        dest!: lookup_in_set_state)
  then show ?thesis using assms(1) by (auto dest!: lookupModule_ok [rotated])
qed

lemma add_commands_ok: "cmdset_ok cs \<Longrightarrow> add_commands ds cs = Inr cs' \<Longrightarrow> cmdset_ok cs'"
  by (induction ds cs rule: add_commands.induct) (auto simp: and_then_Inr_iff dest: addCmd_Inr)

lemma printModuleHelp_ok: "executor_ok x \<Longrightarrow> printModuleHelp out x = Inr (h, x') \<Longrightarrow> executor_ok x'"
  by (auto simp: printModuleHelp_def loadModuleCommandSet_def and_then_Inr_iff
      intro!: upd_set_ok dest: add_commands_ok [OF get_set_ok] split: if_splits option.splits sum.splits)

lemma execute_command_state: "execute_command out cmd l x = (outs, Inr (r, x')) \<Longrightarrow> x' = x"
  by (auto simp: execute_command_def and_then_Inr_iff split: if_splits sum.splits option.splits prod.splits)

lemma print_help_ok: "executor_ok x \<Longrightarrow> print_help out code x = (outs, Inr (r, x')) \<Longrightarrow> executor_ok x'"
  by (auto simp: print_help_def dest: printModuleHelp_ok split: if_splits sum.splits)

lemma execute_ok:
  assumes "executor_ok x" "execute out l x = (outs, Inr (r, x'))"
  shows "executor_ok x'"
proof (cases "and_then (discoverModules out x) (lookupCommand out l)")
  case (Inl e)
  then show ?thesis using assms(2) by (simp add: execute_def)
next
  case (Inr v)
  obtain command e l' x2 where v: "v = (command, e, l', x2)" by (cases v)
  then obtain x1 where "discoverModules out x = Inr x1" "lookupCommand out l x1 = Inr (command, e, l', x2)"
    using Inr by (auto simp: and_then_Inr_iff)
  then have x2: "executor_ok x2" using assms(1) by (blast dest: discoverModules_ok lookupCommand_ok)
  show ?thesis
  proof (cases command)
    case None
    then obtain outs' where "print_help out 1 x2 = (outs', Inr (r, x'))"
      using assms(2) Inr v by (auto simp: execute_def split: prod.splits)
    then show ?thesis by (rule print_help_ok [OF x2])
  next
    case (Some cmd)
    then consider "print_help out 0 x2 = (outs, Inr (r, x'))" | "execute_command out cmd l' x2 = (outs, Inr (r, x'))"
      using assms(2) Inr v by (auto simp: execute_def split: if_splits)
    then show ?thesis using print_help_ok [OF x2] execute_command_state x2 by cases blast+
  qed
qed

inductive built :: "outside \<Rightarrow> executor \<Rightarrow> bool" for out where
  new: "Executor name version = Inr x \<Longrightarrow> built out x"
| interface: "built out x \<Longrightarrow> addModule i x = Inr x' \<Longrightarrow> built out x'"
| node: "built out x \<Longrightarrow> addModule_node n x = Inr x' \<Longrightarrow> built out x'"
| run: "built out x \<Longrightarrow> execute out l x = (outs, Inr (r, x')) \<Longrightarrow> built out x'"

text \<open>
  Property C35. Whatever modules and interfaces are added to an executor, whatever it finds and runs, in the set of
  the application and in the set of every module each name finds at most one command, and it finds the
  command that has it.
\<close>

theorem executor_names_unique:
  assumes "built out x" "name \<noteq> ''''"
  shows "getCmd name (get_set r x) = Inr c \<longleftrightarrow> (\<exists>k. (k, c) \<in> set (get_set r x) \<and> has_name name c)"
proof -
  from assms(1) have "executor_ok x"
  proof (induction rule: built.induct)
    case (new name version x)
    then show ?case
      by (auto simp: Executor_def addLocalCommand_def and_then_Inr_iff executor_ok_def
          dest!: addCmd_Inr [OF CommandSet_Inr, rotated])
  next
    case (node x n x')
    then show ?case by (auto simp: addModule_node_def split: if_splits)
  qed (auto intro: addModule_ok execute_ok)
  then show ?thesis by (intro getCmd_iff get_set_ok assms(2))
qed

lemma CommandSet_eq: "CommandSet = Inr [(''help'', CmdHelp)]"
  by (simp add: CommandSet_def addCmd_def CmdHelp_def Command_def hasCmd_def)

definition sample_outside :: outside where
  "sample_outside =
     \<lparr>o_sockets = [], o_version = ''1'', o_init = (\<lambda>_. True), o_command = (\<lambda>_ _. Inl ''''), o_commands = (\<lambda>_. Inl ''''),
      o_call_local = (\<lambda>_ _ _. Inr ''{}''), o_call_remote = (\<lambda>_ _ _ _. Inl '''')\<rparr>"

definition new_executor :: executor where
  "new_executor =
     \<lparr>x_name = ''casadm'', x_version = ''1'', x_localCmdSet = [(''help'', CmdHelp), (''version'', CmdVersion)],
      x_cmdSet = None, x_module = Module, x_nodePlugin = None, x_modules = [], x_supported = []\<rparr>"

lemma Executor_eq: "Executor ''casadm'' ''1'' = Inr new_executor"
  by (simp add: Executor_def CommandSet_eq addLocalCommand_def addCmd_def CmdVersion_def CmdHelp_def Command_def
      hasCmd_def has_name_def new_executor_def)

lemma executor_names_unique_witness:
  "built sample_outside new_executor \<and> getCmd ''V'' (get_set LocalSet new_executor) = Inr CmdVersion"
proof -
  have b: "built sample_outside new_executor" by (rule built.new [OF Executor_eq])
  have "(''version'', CmdVersion) \<in> set (get_set LocalSet new_executor) \<and> has_name ''V'' CmdVersion"
    by (simp add: get_set_def new_executor_def has_name_def CmdVersion_def Command_def)
  then show ?thesis using executor_names_unique [OF b, of "''V''" LocalSet CmdVersion] b by blast
qed

subsection \<open>Which command is found\<close>

text \<open>An executor that has not looked up a module yet.\<close>

definition fresh :: "executor \<Rightarrow> bool" where
  "fresh x \<longleftrightarrow> mod_longKey (x_module x) = ''''"

definition find_module :: "string \<Rightarrow> executor \<Rightarrow> (module_key \<times> cli_module \<times> command_set) option" where
  "find_module name x = find (\<lambda>(k, m, cs). module_answers name m) (x_modules x)"

lemma find_module_get_set:
  assumes "executor_ok x" "find_module name x = Some (k, m, cs)"
  shows "map_find (x_modules x) k = Some (m, cs)"
proof -
  have "(k, m, cs) \<in> set (x_modules x)" using assms(2) find_SomeD by (fastforce simp: find_module_def)
  then show ?thesis using assms(1) by (simp add: executor_ok_def modules_ok_def map_find_iff)
qed

lemma lookupModule_Some:
  assumes "find_module name x = Some (k, m, cs)"
  shows "lookupModule out name x =
    (if mod_longKey m = '''' then Inr (False, x\<lparr>x_module := m, x_cmdSet := Some (ModuleSet k)\<rparr>)
     else if mod_isLocal m then Inr (True, x\<lparr>x_module := m, x_cmdSet := Some (ModuleSet k)\<rparr>)
     else if o_init out (mod_longKey m) then
       Inr (True, x\<lparr>x_module := m, x_cmdSet := Some (ModuleSet k), x_nodePlugin := Some (mod_longKey m)\<rparr>)
     else Inl (Octf_Exception ''Module unavailable.''))"
  using assms by (simp add: lookupModule_def find_module_def Let_def)

lemma lookupModule_none:
  assumes "find_module name x = None"
  shows "lookupModule out name (x\<lparr>x_cmdSet := Some LocalSet, x_module := (x_module x)\<lparr>mod_isLocal := True\<rparr>\<rparr>) =
    Inr (\<not> fresh x, x\<lparr>x_cmdSet := Some LocalSet, x_module := (x_module x)\<lparr>mod_isLocal := True\<rparr>\<rparr>)"
  using assms by (simp add: lookupModule_def find_module_def fresh_def Let_def)

text \<open>
  Where a module was found before, a name that no module has is taken for a module too: \<open>m_module\<close>
  still holds the keys of the module of the last call, and the next element is looked up in the set of the
  application.
\<close>

lemma stale_module:
  assumes "find_module name x = None" "\<not> fresh x"
  shows "\<exists>x'. lookupModule out name (x\<lparr>x_cmdSet := Some LocalSet, x_module := (x_module x)\<lparr>mod_isLocal := True\<rparr>\<rparr>) =
    Inr (True, x')"
  using lookupModule_none [OF assms(1)] assms(2) by simp

text \<open>
  Property C36. A command line finds its command: a key that no module has is looked up among the commands of the
  application; the key of a local module is followed by the key of one of its commands; and for a remote module that
  can be reached, a command that was not loaded yet is asked from the module.
\<close>

theorem lookupCommand_correct:
  assumes "executor_ok x" "fresh x" "getValidKeyName element = key" "key \<noteq> ''''"
  shows "(find_module key x = None \<longrightarrow>
      map_sum id (\<lambda>(c, e, l', x'). (c, l')) (lookupCommand out (element # l) x) =
        and_then (getCmd key (x_localCmdSet x)) (\<lambda>c. Inr (Some c, l))) \<and>
    (find_module key x = Some (k, m, cs) \<and> mod_longKey m \<noteq> '''' \<and> getValidKeyName element2 = key2 \<and> key2 \<noteq> '''' \<longrightarrow>
      map_sum id (\<lambda>(c, e, l', x'). (c, l')) (lookupCommand out (element # element2 # l) x) =
        (if mod_isLocal m then and_then (getCmd key2 cs) (\<lambda>c. Inr (Some c, l))
         else if \<not> o_init out (mod_longKey m) then Inl (Octf_Exception ''Module unavailable.'')
         else if hasCmd key2 cs then and_then (getCmd key2 cs) (\<lambda>c. Inr (Some c, l))
         else and_then (getCommandFromModule out key2 (x\<lparr>x_nodePlugin := Some (mod_longKey m)\<rparr>)) (\<lambda>c. Inr (c, l))))"
proof (intro conjI impI)
  assume none: "find_module key x = None"
  show "map_sum id (\<lambda>(c, e, l', x'). (c, l')) (lookupCommand out (element # l) x) =
        and_then (getCmd key (x_localCmdSet x)) (\<lambda>c. Inr (Some c, l))"
    using assms lookupModule_none [OF none]
    by (cases "getCmd key (x_localCmdSet x)")
      (simp_all add: lookupCommand_def cli_next_def cli_hasNext_def lookup_in_set_def get_set_def cmdSet_ref_def)
next
  assume a: "find_module key x = Some (k, m, cs) \<and> mod_longKey m \<noteq> '''' \<and> getValidKeyName element2 = key2 \<and> key2 \<noteq> ''''"
  let ?x = "x\<lparr>x_cmdSet := Some LocalSet, x_module := (x_module x)\<lparr>mod_isLocal := True\<rparr>\<rparr>"
  have f: "find_module key ?x = Some (k, m, cs)" using a by (simp add: find_module_def)
  have set: "map_find (x_modules x) k = Some (m, cs)" using find_module_get_set [OF assms(1)] a by blast
  show "map_sum id (\<lambda>(c, e, l', x'). (c, l')) (lookupCommand out (element # element2 # l) x) =
        (if mod_isLocal m then and_then (getCmd key2 cs) (\<lambda>c. Inr (Some c, l))
         else if \<not> o_init out (mod_longKey m) then Inl (Octf_Exception ''Module unavailable.'')
         else if hasCmd key2 cs then and_then (getCmd key2 cs) (\<lambda>c. Inr (Some c, l))
         else and_then (getCommandFromModule out key2 (x\<lparr>x_nodePlugin := Some (mod_longKey m)\<rparr>)) (\<lambda>c. Inr (c, l)))"
    using assms a f set lookupModule_Some [OF f, of out]
    by (cases "getCmd key2 cs"; cases "getCommandFromModule out key2 (x\<lparr>x_nodePlugin := Some (mod_longKey m)\<rparr>)")
      (simp_all add: lookupCommand_def cli_next_def cli_hasNext_def lookup_in_set_def get_set_def cmdSet_ref_def
        getCommandFromModule_def)
qed

subsection \<open>What is called\<close>

definition calls :: "cli_output list \<Rightarrow> cli_output list" where
  "calls outs = filter (\<lambda>e. case e of Called n i k m \<Rightarrow> True | _ \<Rightarrow> False) outs"

fun kind_fields :: "command_kind \<Rightarrow> field_desc list" where
  "kind_fields (ProtobufLocal fds i n) = fds"
| "kind_fields (ProtobufRemote fds i n) = fds"
| "kind_fields _ = []"

text \<open>
  The command that a command line finds, with its options read, what is left in the executor, and the message of
  the options: all of it without a request for help.
\<close>

definition accepted :: "outside \<Rightarrow> string list \<Rightarrow> executor \<Rightarrow> command \<Rightarrow> executor \<Rightarrow> message \<Rightarrow> bool" where
  "accepted out l x cmd x2 m \<longleftrightarrow>
     (\<exists>x1 cmd0 e l'. discoverModules out x = Inr x1 \<and> lookupCommand out l x1 = Inr (Some cmd0, e, l', x2) \<and>
        c_kind cmd0 \<noteq> HelpCmd \<and> \<not> cli_hasHelp l' \<and> parseParamValues l' cmd0 = Inr cmd \<and>
        command_parseToProtobuf (kind_fields (c_kind cmd)) (c_params cmd) [] = Inr m)"

text \<open>The method of a command: of this process, or of the module that was found.\<close>

definition callee :: "command \<Rightarrow> executor \<Rightarrow> (string option \<times> string \<times> nat) option" where
  "callee cmd x =
     (case c_kind cmd of
        ProtobufLocal fds i n \<Rightarrow> if c_local cmd then Some (None, i, n) else None
      | ProtobufRemote fds i n \<Rightarrow>
          if c_local cmd \<or> x_nodePlugin x = None then None else Some (x_nodePlugin x, i, n)
      | _ \<Rightarrow> None)"

definition answer_of :: "outside \<Rightarrow> string option \<Rightarrow> string \<Rightarrow> nat \<Rightarrow> message \<Rightarrow> string + string" where
  "answer_of out p i n m =
     (case p of None \<Rightarrow> o_call_local out i n m | Some node \<Rightarrow> o_call_remote out node i n m)"

lemma calls_simps [simp]:
  "calls [] = []" "calls (Out s # outs) = calls outs" "calls (Err s # outs) = calls outs"
  "calls (Called p i n m # outs) = Called p i n m # calls outs"
  by (simp_all add: calls_def)

lemma run_command_called:
  assumes "callee cmd x = Some (p, i, n)" "command_parseToProtobuf (kind_fields (c_kind cmd)) (c_params cmd) [] = Inr m"
  shows "run_command out cmd x = handleCall (Called p i n m) (answer_of out p i n m)"
  using assms
  by (auto simp: callee_def run_command_def executeLocal_def executeRemote_def answer_of_def
      split: command_kind.splits if_splits option.splits)

lemma run_command_silent:
  assumes "callee cmd x = None \<or> (\<exists>f. command_parseToProtobuf (kind_fields (c_kind cmd)) (c_params cmd) [] = Inl f)"
  shows "calls (fst (run_command out cmd x)) = []"
  using assms
  by (auto simp: callee_def run_command_def executeLocal_def executeRemote_def
      split: command_kind.splits option.splits if_splits)

lemma print_help_silent: "calls (fst (print_help out code x)) = []"
  by (simp add: print_help_def split: sum.splits prod.splits)

text \<open>
  Property C37. However a run ends, it calls the method of a command at most once. It does so exactly when the
  command line finds a command with a method, does not ask for help, has only options that are accepted and misses
  no required one, and a message can be made of them; the method is called with that message. Then the run prints
  the answer and ends with the exit code 0 when the call succeeds, and prints nothing and ends with the exception
  that carries the error when the call fails. Nothing is called for the help, an unknown command, or options that
  are wrong or missing.
\<close>

theorem execute_calls_once:
  assumes "execute out l x = (outs, r)"
  shows "(calls outs = [] \<and> (\<forall>cmd x2 m. accepted out l x cmd x2 m \<longrightarrow> callee cmd x2 = None)) \<or>
    (\<exists>cmd x2 m p i n. accepted out l x cmd x2 m \<and> callee cmd x2 = Some (p, i, n) \<and>
      (case answer_of out p i n m of
         Inr answer \<Rightarrow> outs = [Called p i n m, Out answer] \<and> r = Inr (0, x2)
       | Inl e \<Rightarrow> outs = [Called p i n m] \<and> r = Inl (Octf_Exception e)))"
proof (cases "\<exists>cmd x2 m p. accepted out l x cmd x2 m \<and> callee cmd x2 = Some p")
  case True
  then obtain cmd x2 m p i n where a: "accepted out l x cmd x2 m" "callee cmd x2 = Some (p, i, n)" by auto
  then obtain x1 cmd0 e l' where c: "discoverModules out x = Inr x1" "lookupCommand out l x1 = Inr (Some cmd0, e, l', x2)"
    "c_kind cmd0 \<noteq> HelpCmd" "\<not> cli_hasHelp l'" "parseParamValues l' cmd0 = Inr cmd"
    "command_parseToProtobuf (kind_fields (c_kind cmd)) (c_params cmd) [] = Inr m"
    by (auto simp: accepted_def)
  have "case answer_of out p i n m of
         Inr answer \<Rightarrow> outs = [Called p i n m, Out answer] \<and> r = Inr (0, x2)
       | Inl e \<Rightarrow> outs = [Called p i n m] \<and> r = Inl (Octf_Exception e)"
    using assms c run_command_called [OF a(2) c(6), of out]
    by (auto simp: execute_def execute_command_def handleCall_def split: sum.splits)
  then show ?thesis using a by blast
next
  case False
  have "calls outs = []"
  proof (cases "and_then (discoverModules out x) (lookupCommand out l)")
    case (Inl e)
    then show ?thesis using assms by (simp add: execute_def)
  next
    case (Inr v)
    obtain command e l' x2 where v: "v = (command, e, l', x2)" by (cases v)
    then obtain x1 where x1: "discoverModules out x = Inr x1" "lookupCommand out l x1 = Inr (command, e, l', x2)"
      using Inr by (auto simp: and_then_Inr_iff)
    consider (none) "command = None" | (asks) cmd0 where "command = Some cmd0" "c_kind cmd0 = HelpCmd \<or> cli_hasHelp l'"
      | (options) cmd0 f where "command = Some cmd0" "c_kind cmd0 \<noteq> HelpCmd" "\<not> cli_hasHelp l'" "parseParamValues l' cmd0 = Inl f"
      | (run) cmd0 cmd where "command = Some cmd0" "c_kind cmd0 \<noteq> HelpCmd" "\<not> cli_hasHelp l'" "parseParamValues l' cmd0 = Inr cmd"
      by (cases command; cases "parseParamValues l' (the command)") auto
    then show ?thesis
    proof cases
      case none
      then show ?thesis using assms Inr v print_help_silent [of out 1 x2] by (auto simp: execute_def split: prod.splits)
    next
      case asks
      then show ?thesis using assms Inr v print_help_silent [of out 0 x2]
        by (auto simp: execute_def execute_command_def split: if_splits)
    next
      case options
      then show ?thesis using assms Inr v
        by (auto simp: execute_def execute_command_def split: option.splits if_splits)
    next
      case run
      have "callee cmd x2 = None \<or> (\<exists>f. command_parseToProtobuf (kind_fields (c_kind cmd)) (c_params cmd) [] = Inl f)"
        using False x1 run
        by (cases "command_parseToProtobuf (kind_fields (c_kind cmd)) (c_params cmd) []"; cases "callee cmd x2")
          (auto simp: accepted_def)
      then show ?thesis using assms Inr v run run_command_silent [of cmd x2 out]
        by (auto simp: execute_def execute_command_def split: prod.splits)
    qed
  qed
  moreover have "\<forall>cmd x2 m. accepted out l x cmd x2 m \<longrightarrow> callee cmd x2 = None" using False by (metis option.exhaust)
  ultimately show ?thesis by blast
qed

definition sample_resize :: command where
  "sample_resize =
     sample_command\<lparr>c_longKey := ''resize'', c_shortKey := ''r'', c_kind := ProtobufLocal sample_fields ''Cache'' 0\<rparr>"

definition sample_executor :: executor where
  "sample_executor = new_executor\<lparr>x_localCmdSet := [(''help'', CmdHelp), (''resize'', sample_resize)]\<rparr>"

lemma sample_keys: "getValidKeyName ''-r'' = ''r''" "getValidKeyName ''--force'' = ''force''"
  by (simp_all add: getValidKeyName_def getKeyName_def parseKey_def hasPrefix_def LONG_KEY_PREFIX_def
      SHORT_KEY_PREFIX_def isValidKey_def isLongKeyValid_iff isShortKeyValid_def is_alnum_def is_alpha_def)

lemma sample_executor_ok: "executor_ok sample_executor" "fresh sample_executor"
  by (simp_all add: executor_ok_def sample_executor_def new_executor_def fresh_def Module_def cmdset_ok_def map_ok_def
      sample_resize_def sample_command_def CmdHelp_def Command_def has_name_def) auto

lemma lookupCommand_correct_witness:
  "map_sum id (\<lambda>(c, e, l', x'). (c, l')) (lookupCommand sample_outside [''-r'', ''-s''] sample_executor) =
     Inr (Some sample_resize, [''-s''])"
proof -
  have "find_module ''r'' sample_executor = None"
    by (simp add: find_module_def sample_executor_def new_executor_def)
  moreover have "getCmd ''r'' (x_localCmdSet sample_executor) = Inr sample_resize"
    by (simp add: sample_executor_def getCmd_def sample_resize_def CmdHelp_def Command_def has_name_def sample_command_def)
  ultimately show ?thesis
    using lookupCommand_correct [OF sample_executor_ok sample_keys(1), where l = "[''-s'']" and out = sample_outside] by simp
qed

definition sample_busy :: outside where
  "sample_busy = sample_outside\<lparr>o_call_local := \<lambda>i n m. Inl ''Busy''\<rparr>"

text \<open>The same command line where the method answers and where it fails.\<close>

lemma sample_run:
  assumes "o_sockets out = []"
  shows "discoverModules out sample_executor = Inr sample_executor"
    "lookupCommand out (''-r'' # l) sample_executor =
      Inr (Some sample_resize, '''', l, sample_executor\<lparr>x_cmdSet := Some LocalSet, x_module := Module\<lparr>mod_isLocal := True\<rparr>\<rparr>)"
  by (simp_all add: discoverModules_def lookupCommand_def cli_next_def cli_hasNext_def sample_keys lookupModule_def
      sample_executor_def new_executor_def Module_def lookup_in_set_def get_set_def cmdSet_ref_def getCmd_def has_name_def
      CmdHelp_def Command_def sample_resize_def sample_command_def Let_def)

lemma sample_kind:
  "c_kind sample_resize = ProtobufLocal sample_fields ''Cache'' 0" "c_local sample_resize"
  "c_params sample_resize = c_params sample_command"
  by (simp_all add: sample_resize_def sample_command_def Command_def)

lemma sample_accepted:
  assumes "o_sockets out = []"
  shows "accepted out [''-r'', ''--force'', ''-s'', ''42''] sample_executor cmd x m \<longleftrightarrow>
    cmd = sample_resize\<lparr>c_params := sample_parsed\<rparr> \<and>
    x = sample_executor\<lparr>x_cmdSet := Some LocalSet, x_module := Module\<lparr>mod_isLocal := True\<rparr>\<rparr> \<and>
    m = [(1, VInt32 42), (2, VBool True)]"
proof -
  have "\<not> cli_hasHelp [''--force'', ''-s'', ''42'']" by (simp add: cli_hasHelp_def cli_hasNext_def sample_keys)
  then show ?thesis
    by (auto simp: accepted_def sample_run [OF assms] parse_sample sample_kind sample_message)
qed

lemma sample_callee: "callee (sample_resize\<lparr>c_params := ps\<rparr>) x = Some (None, ''Cache'', 0)"
  by (simp add: callee_def sample_kind)

lemma execute_calls_once_witness:
  "\<exists>x2. execute sample_outside [''-r'', ''--force'', ''-s'', ''42''] sample_executor =
       ([Called None ''Cache'' 0 [(1, VInt32 42), (2, VBool True)], Out ''{}''], Inr (0, x2)) \<and>
     execute sample_busy [''-r'', ''--force'', ''-s'', ''42''] sample_executor =
       ([Called None ''Cache'' 0 [(1, VInt32 42), (2, VBool True)]], Inl (Octf_Exception ''Busy''))"
proof -
  have sockets: "o_sockets sample_outside = []" "o_sockets sample_busy = []"
    by (simp_all add: sample_outside_def sample_busy_def)
  let ?l = "[''-r'', ''--force'', ''-s'', ''42'']"
  let ?call = "Called None ''Cache'' 0 [(1, VInt32 42), (2, VBool True)]"
  let ?x2 = "sample_executor\<lparr>x_cmdSet := Some LocalSet, x_module := Module\<lparr>mod_isLocal := True\<rparr>\<rparr>"
  have run: "case answer_of out None ''Cache'' 0 [(1, VInt32 42), (2, VBool True)] of
         Inr answer \<Rightarrow> execute out ?l sample_executor = ([?call, Out answer], Inr (0, ?x2))
       | Inl e \<Rightarrow> execute out ?l sample_executor = ([?call], Inl (Octf_Exception e))"
    if "o_sockets out = []" for out
  proof -
    obtain outs r where e: "execute out ?l sample_executor = (outs, r)" by fastforce
    from execute_calls_once [OF e] show ?thesis
      unfolding e sample_accepted [OF that] by (auto simp: sample_callee split: sum.splits)
  qed
  show ?thesis using run [OF sockets(1)] run [OF sockets(2)]
    by (intro exI [of _ ?x2]) (simp add: answer_of_def sample_outside_def sample_busy_def)
qed

end
