(* ===== verification/Table_Map.thy ===== *)
theory Table_Map
  imports Cli_Params "HOL-Library.Char_ord" "HOL-Library.List_Lexorder" "HOL-Library.Product_Lexorder"
begin

section \<open>Tables\<close>

text \<open>
  The tables of source/octf/utils/table. A \<open>TableMap\<close> keeps the cells under their addresses, the
  rows and columns that exist, and the indexes of the names of rows and columns. A \<open>Row\<close> and a
  \<open>Column\<close> hold their index and a reference to the map, so an operation of a row is an operation
  on the map with the index as argument; an iterator over the cells of a row is the list of the
  columns from it on. An address is the pair of row and column, in the lexicographic order of
  \<open>Addr\<close>. Indexes are sizes of maps and never wrap.

  A cell holds a value of any type that can be streamed; what a table does with it is print it, so
  a floating-point value is the text that is streamed for it. Copies of tables are left out.
\<close>

datatype cell =
    Cell_Empty
  | Cell_Text string
  | Cell_Num int
  | Cell_Real string

fun cell_text :: "cell \<Rightarrow> string" where
  "cell_text Cell_Empty = ''''"
| "cell_text (Cell_Text s) = s"
| "cell_text (Cell_Num i) = int_string i"
| "cell_text (Cell_Real s) = s"

text \<open>\<open>Cell::operator==\<close> compares what is streamed.\<close>

definition cell_equals :: "cell \<Rightarrow> string \<Rightarrow> bool" where
  "cell_equals c s \<longleftrightarrow> cell_text c = s"

type_synonym addr = "nat \<times> nat"

record table_map =
  tm_rows :: "(nat, unit) std_map"
  tm_rowsAssociation :: "(string, nat) std_map"
  tm_columns :: "(nat, unit) std_map"
  tm_columnsAssociation :: "(string, nat) std_map"
  tm_map :: "(addr, cell) std_map"

definition TableMap :: table_map where
  "TableMap = \<lparr>tm_rows = [], tm_rowsAssociation = [], tm_columns = [], tm_columnsAssociation = [], tm_map = []\<rparr>"

subsection \<open>The map\<close>

definition getRowAssociation :: "string \<Rightarrow> table_map \<Rightarrow> table_map \<times> nat" where
  "getRowAssociation name t =
     (case map_find (tm_rowsAssociation t) name of
        Some index \<Rightarrow> (t, index)
      | None \<Rightarrow>
          let index = length (tm_rowsAssociation t)
          in (t\<lparr>tm_rowsAssociation := map_put name index (tm_rowsAssociation t)\<rparr>, index))"

definition getColumnAssociation :: "string \<Rightarrow> table_map \<Rightarrow> table_map \<times> nat" where
  "getColumnAssociation name t =
     (case map_find (tm_columnsAssociation t) name of
        Some index \<Rightarrow> (t, index)
      | None \<Rightarrow>
          let index = length (tm_columnsAssociation t)
          in (t\<lparr>tm_columnsAssociation := map_put name index (tm_columnsAssociation t)\<rparr>, index))"

definition getColumn :: "nat \<Rightarrow> table_map \<Rightarrow> table_map" where
  "getColumn c t = t\<lparr>tm_columns := fst (map_emplace c () (tm_columns t))\<rparr>"

definition getRow :: "nat \<Rightarrow> table_map \<Rightarrow> table_map" where
  "getRow r t = t\<lparr>tm_rows := fst (map_emplace r () (tm_rows t))\<rparr>"

definition getRow_const :: "nat \<Rightarrow> table_map \<Rightarrow> unit res" where
  "getRow_const r t =
     (case map_find (tm_rows t) r of
        Some _ \<Rightarrow> Inr ()
      | None \<Rightarrow> Inl (Octf_Exception ''Accessing non-existing row in table''))"

text \<open>\<open>operator[]\<close>: a reference to the cell, which is made with its column when it is not there.\<close>

definition cell_ref :: "addr \<Rightarrow> table_map \<Rightarrow> table_map" where
  "cell_ref a t =
     (case map_find (tm_map t) a of
        None \<Rightarrow> getColumn (snd a) (t\<lparr>tm_map := fst (map_emplace a Cell_Empty (tm_map t))\<rparr>)
      | Some _ \<Rightarrow> t)"

definition cell_const :: "addr \<Rightarrow> table_map \<Rightarrow> cell" where
  "cell_const a t = (case map_find (tm_map t) a of None \<Rightarrow> Cell_Empty | Some c \<Rightarrow> c)"

definition cell_assign :: "addr \<Rightarrow> cell \<Rightarrow> table_map \<Rightarrow> table_map" where
  "cell_assign a v t = (let t = cell_ref a t in t\<lparr>tm_map := map_put a v (tm_map t)\<rparr>)"

text \<open>\<open>eraseCell\<close>: when the last column is passed the row goes as well.\<close>

fun eraseCell :: "nat \<Rightarrow> nat list \<Rightarrow> table_map \<Rightarrow> nat list \<times> table_map" where
  "eraseCell r [] t = ([], t)"
| "eraseCell r (c # cs) t =
     (let t = t\<lparr>tm_map := map_erase (r, c) (tm_map t)\<rparr>
      in (cs, if cs = [] then t\<lparr>tm_rows := map_erase r (tm_rows t)\<rparr> else t))"

definition tm_clear :: "table_map \<Rightarrow> table_map" where
  "tm_clear t = t\<lparr>tm_rows := [], tm_rowsAssociation := [], tm_columns := [], tm_columnsAssociation := [], tm_map := []\<rparr>"

definition tm_size :: "table_map \<Rightarrow> nat" where
  "tm_size t = length (tm_rows t)"

definition getColumnCount :: "table_map \<Rightarrow> nat" where
  "getColumnCount t = length (tm_columns t)"

abbreviation columns :: "table_map \<Rightarrow> nat list" where
  "columns t \<equiv> map fst (tm_columns t)"

subsection \<open>Rows and columns\<close>

definition row_address :: "nat \<Rightarrow> string \<Rightarrow> table_map \<Rightarrow> table_map \<times> addr" where
  "row_address r name t = (let (t, c) = getColumnAssociation name t in (t, (r, c)))"

definition column_address :: "nat \<Rightarrow> string \<Rightarrow> table_map \<Rightarrow> table_map \<times> addr" where
  "column_address c name t = (let (t, r) = getRowAssociation name t in (t, (r, c)))"

text \<open>\<open>row[name] = v\<close>, and the same of a column.\<close>

definition row_set :: "nat \<Rightarrow> string \<Rightarrow> cell \<Rightarrow> table_map \<Rightarrow> table_map" where
  "row_set r name v t = (let (t, a) = row_address r name t in cell_assign a v t)"

definition column_set :: "nat \<Rightarrow> string \<Rightarrow> cell \<Rightarrow> table_map \<Rightarrow> table_map" where
  "column_set c name v t = (let (t, a) = column_address c name t in cell_assign a v t)"

text \<open>\<open>Row::clear\<close>: the loop follows the iterator that \<open>eraseCell\<close> returns.\<close>

function row_erase :: "nat \<Rightarrow> nat list \<Rightarrow> table_map \<Rightarrow> table_map" where
  "row_erase r cs t =
     (if cs = [] then t
      else let (cs', t) = eraseCell r cs t in row_erase r cs' t)"
  by pat_completeness auto

termination row_erase
proof (relation "measure (\<lambda>(r, cs, t). length cs)")
  fix r cs t x cs' t'
  assume "cs \<noteq> []" "x = eraseCell r cs t" "(cs', t') = x"
  then show "((r, cs', t'), (r, cs, t)) \<in> measure (\<lambda>(r, cs, t). length cs)"
    by (cases cs) (auto simp: Let_def)
qed simp

declare row_erase.simps [simp del]

definition row_clear :: "nat \<Rightarrow> table_map \<Rightarrow> table_map" where
  "row_clear r t = row_erase r (columns t) t"

definition row_setupHeader :: "nat \<Rightarrow> table_map \<Rightarrow> table_map" where
  "row_setupHeader r t = fold (\<lambda>name. row_set r name (Cell_Text name)) (map fst (tm_columnsAssociation t)) t"

subsection \<open>Printing\<close>

fun print_cells :: "table_map \<Rightarrow> nat \<Rightarrow> bool \<Rightarrow> nat list \<Rightarrow> string" where
  "print_cells t r firstColumn [] = ''''"
| "print_cells t r firstColumn (c # cs) =
     (if firstColumn then '''' else '','') @ cell_text (cell_const (r, c) t) @ print_cells t r False cs"

fun print_rows :: "table_map \<Rightarrow> bool \<Rightarrow> nat list \<Rightarrow> string" where
  "print_rows t firstRow [] = ''''"
| "print_rows t firstRow (r # rs) =
     (if firstRow then '''' else [CHR 0x0A]) @ print_cells t r True (columns t) @ print_rows t False rs"

definition print_table :: "table_map \<Rightarrow> string" where
  "print_table t = print_rows t True (map fst (tm_rows t))"
subsection \<open>What a table holds\<close>

text \<open>
  The abstract table: the names of the columns in the order of their indexes, and the cell of every
  row under every name, empty where none was set.
\<close>

definition holds_table :: "table_map \<Rightarrow> string list \<Rightarrow> (nat \<Rightarrow> string \<Rightarrow> cell) \<Rightarrow> bool" where
  "holds_table t names f \<longleftrightarrow>
     map_ok (tm_rows t) \<and> map_ok (tm_columnsAssociation t) \<and> map_ok (tm_map t) \<and>
     length (tm_columnsAssociation t) = length names \<and> columns t = [0..<length names] \<and>
     (\<forall>n i. map_find (tm_columnsAssociation t) n = Some i \<longleftrightarrow> i < length names \<and> names ! i = n) \<and>
     (\<forall>r i. i \<ge> length names \<longrightarrow> map_find (tm_map t) (r, i) = None) \<and>
     (\<forall>r i. i < length names \<longrightarrow> cell_const (r, i) t = f r (names ! i)) \<and>
     (\<forall>r n. n \<notin> set names \<longrightarrow> f r n = Cell_Empty)"

lemma holds_tableD:
  assumes "holds_table t names f"
  shows "map_ok (tm_rows t)" "map_ok (tm_columnsAssociation t)" "map_ok (tm_map t)"
    "length (tm_columnsAssociation t) = length names" "columns t = [0..<length names]"
    "map_find (tm_columnsAssociation t) n = Some i \<longleftrightarrow> i < length names \<and> names ! i = n"
    "i \<ge> length names \<Longrightarrow> map_find (tm_map t) (r, i) = None"
    "i < length names \<Longrightarrow> cell_const (r, i) t = f r (names ! i)"
    "n \<notin> set names \<Longrightarrow> f r n = Cell_Empty"
  using assms unfolding holds_table_def by blast+

lemma holds_table_distinct: "holds_table t names f \<Longrightarrow> distinct names"
  unfolding distinct_conv_nth by (metis holds_tableD(6) option.inject)

lemma holds_TableMap: "holds_table TableMap [] (\<lambda>_ _. Cell_Empty)"
  by (simp add: holds_table_def TableMap_def)

lemma columns_put:
  assumes "map_ok m" "map fst m = [0..<k]" "c \<le> k"
  shows "map fst (fst (map_emplace c () m)) = [0..<(if c < k then k else Suc k)]"
proof (cases "c < k")
  case True
  then have "c \<in> fst ` set m" using assms(2) by (metis atLeastLessThan_iff atLeastLessThan_upt image_set le0)
  then have "map_find m c \<noteq> None" by (simp add: map_find_None_iff)
  then show ?thesis using assms True by (auto simp: map_emplace_def)
next
  case False
  then have c: "c = k" using assms(3) by simp
  have dom: "fst ` set m = {0..<k}" using assms(2) by (metis atLeastLessThan_upt image_set)
  then have none: "map_find m c = None" by (simp add: map_find_None_iff c)
  have "sorted_wrt (<) (map fst (map_put c () m))" using assms(1) sm.ok_put by (simp add: map_ok_def)
  moreover have "set (map fst (map_put c () m)) = set [0..<Suc k]" using dom by (auto simp: fst_set_map_put c)
  ultimately have "map fst (map_put c () m) = [0..<Suc k]"
    using sorted_distinct_set_unique strict_sorted_iff sorted_upt distinct_upt by metis
  then show ?thesis using none by (simp add: map_emplace_def c)
qed

text \<open>Assigning through a reference, to a column that exists or comes next.\<close>

lemma cell_assign_fields:
  assumes "map_ok (tm_map t)"
  shows "map_find (tm_map (cell_assign a v t)) b = (if b = a then Some v else map_find (tm_map t) b)"
    "map_ok (tm_map (cell_assign a v t))" "tm_rows (cell_assign a v t) = tm_rows t"
    "tm_columnsAssociation (cell_assign a v t) = tm_columnsAssociation t"
    "tm_rowsAssociation (cell_assign a v t) = tm_rowsAssociation t"
    "tm_columns (cell_assign a v t) = (if map_find (tm_map t) a = None then fst (map_emplace (snd a) () (tm_columns t)) else tm_columns t)"
  using assms
  by (auto simp: cell_assign_def cell_ref_def getColumn_def map_emplace_def Let_def sm.find_put sm.ok_put split: option.splits)

lemma getColumnAssociation_holds:
  assumes "holds_table t names f" "getColumnAssociation n t = (t', c)"
  shows "c = (if n \<in> set names then c else length names)" "n \<in> set names \<Longrightarrow> t' = t \<and> c < length names \<and> names ! c = n"
    "n \<notin> set names \<Longrightarrow> t' = t\<lparr>tm_columnsAssociation := map_put n (length names) (tm_columnsAssociation t)\<rparr>"
proof -
  note h = holds_tableD [OF assms(1)]
  have none: "map_find (tm_columnsAssociation t) n = None \<longleftrightarrow> n \<notin> set names"
    using h(6) [of n] by (metis in_set_conv_nth not_None_eq)
  have "c = (if n \<in> set names then c else length names) \<and> (n \<in> set names \<longrightarrow> t' = t \<and> c < length names \<and> names ! c = n) \<and>
    (n \<notin> set names \<longrightarrow> t' = t\<lparr>tm_columnsAssociation := map_put n (length names) (tm_columnsAssociation t)\<rparr>)"
  proof (cases "map_find (tm_columnsAssociation t) n")
    case None
    then show ?thesis using none assms(2) h(4) by (auto simp: getColumnAssociation_def Let_def)
  next
    case (Some i)
    then have "t' = t" "c = i" using assms(2) by (simp_all add: getColumnAssociation_def)
    then show ?thesis using Some none h(6) [of n i] by simp
  qed
  then show "c = (if n \<in> set names then c else length names)" "n \<in> set names \<Longrightarrow> t' = t \<and> c < length names \<and> names ! c = n"
    "n \<notin> set names \<Longrightarrow> t' = t\<lparr>tm_columnsAssociation := map_put n (length names) (tm_columnsAssociation t)\<rparr>"
    by blast+
qed

definition with_column :: "string \<Rightarrow> string list \<Rightarrow> string list" where
  "with_column n names = (if n \<in> set names then names else names @ [n])"

lemma set_with_column [simp]: "set (with_column n names) = insert n (set names)"
  by (auto simp: with_column_def)

lemma row_set_holds:
  assumes "holds_table t names f"
  shows "holds_table (row_set r n v t) (with_column n names) (f(r := (f r)(n := v)))"
proof -
  note h = holds_tableD [OF assms]
  obtain t' c where tc: "getColumnAssociation n t = (t', c)" by force
  have run: "row_set r n v t = cell_assign (r, c) v t'" by (simp add: row_set_def row_address_def tc)
  have cols: "map_ok (tm_columns t)" using h(5) by (simp add: map_ok_def)
  show ?thesis
  proof (cases "n \<in> set names")
    case True
    then have c: "t' = t" "c < length names" "names ! c = n"
      using getColumnAssociation_holds(2) [OF assms tc] by auto
    have "columns (cell_assign (r, c) v t) = columns t"
      using columns_put [OF cols h(5), of c] c(2) h(5) by (simp add: cell_assign_fields [OF h(3)])
    moreover have "names ! i = n \<longleftrightarrow> i = c" if "i < length names" for i
      using that c holds_table_distinct [OF assms] by (metis nth_eq_iff_index_eq)
    ultimately show ?thesis
      unfolding run c(1) with_column_def
      using True h c by (auto simp: holds_table_def cell_assign_fields [OF h(3)] cell_const_def)
  next
    case False
    then have c: "t' = t\<lparr>tm_columnsAssociation := map_put n (length names) (tm_columnsAssociation t)\<rparr>" "c = length names"
      using getColumnAssociation_holds [OF assms tc] by auto
    have none: "map_find (tm_map t) (r, c) = None" by (rule h(7)) (simp add: c)
    have ok': "map_ok (tm_map t')" using h(3) by (simp add: c)
    have "map_find (tm_columnsAssociation t) n = None"
      using False h(6) [of n] by (metis in_set_conv_nth not_None_eq)
    then have assoc: "length (tm_columnsAssociation t') = Suc (length names)" "map_ok (tm_columnsAssociation t')"
      "map_find (tm_columnsAssociation t') m = (if m = n then Some (length names) else map_find (tm_columnsAssociation t) m)" for m
      using h(2,4) by (simp_all add: c length_map_put sm.ok_put sm.find_put)
    have "columns (cell_assign (r, c) v t') = [0..<Suc (length names)]"
      using columns_put [OF cols h(5), of c] none by (simp add: cell_assign_fields(6) [OF ok'] c(2)) (simp add: c(1))
    moreover have "map_find (tm_map t') = map_find (tm_map t)" "tm_rows t' = tm_rows t" by (simp_all add: c(1))
    ultimately show ?thesis
      unfolding run with_column_def using False h c(2) assoc none
      by (auto simp: holds_table_def cell_assign_fields [OF ok'] cell_const_def nth_append less_Suc_eq)
  qed
qed

lemma row_set_rows [simp]: "tm_rows (row_set r n v t) = tm_rows t"
  by (simp add: row_set_def row_address_def getColumnAssociation_def Let_def cell_assign_def cell_ref_def getColumn_def
      split: option.split prod.split)

lemma getRow_holds:
  "holds_table t names f \<Longrightarrow> holds_table (getRow r t) names f"
  by (simp add: holds_table_def getRow_def cell_const_def map_emplace_def sm.ok_put split: option.split)

text \<open>Clearing a row empties its cells; the columns stay, and the row goes when there is any.\<close>

lemma row_erase_fields:
  assumes "map_ok (tm_map t)"
  shows "tm_columns (row_erase r cs t) = tm_columns t \<and> tm_columnsAssociation (row_erase r cs t) = tm_columnsAssociation t \<and>
    map_ok (tm_map (row_erase r cs t)) \<and>
    tm_rows (row_erase r cs t) = (if cs = [] then tm_rows t else map_erase r (tm_rows t)) \<and>
    map_find (tm_map (row_erase r cs t)) a = (if fst a = r \<and> snd a \<in> set cs then None else map_find (tm_map t) a)"
  using assms
proof (induction cs arbitrary: t)
  case Nil
  then show ?case by (simp add: row_erase.simps)
next
  case (Cons c cs)
  let ?t = "snd (eraseCell r (c # cs) t)"
  have t: "tm_columns ?t = tm_columns t" "tm_columnsAssociation ?t = tm_columnsAssociation t"
    "tm_map ?t = map_erase (r, c) (tm_map t)" "tm_rows ?t = (if cs = [] then map_erase r (tm_rows t) else tm_rows t)"
    by (simp_all add: Let_def)
  have step: "row_erase r (c # cs) t = row_erase r cs ?t"
    by (subst row_erase.simps) (simp add: Let_def case_prod_beta)
  have "map_ok (tm_map ?t)" using Cons.prems unfolding t(3) by (rule sm.ok_erase)
  from Cons.IH [OF this] show ?case
    unfolding step t using Cons.prems by (cases a) (auto simp: sm.find_erase)
qed

lemma row_clear_holds:
  assumes "holds_table t names f"
  shows "holds_table (row_clear r t) names (f(r := \<lambda>_. Cell_Empty))"
    "tm_rows (row_clear r t) = (if names = [] then tm_rows t else map_erase r (tm_rows t))"
proof -
  note h = holds_tableD [OF assms]
  note e = row_erase_fields [OF h(3), of r "columns t"]
  show rows: "tm_rows (row_clear r t) = (if names = [] then tm_rows t else map_erase r (tm_rows t))"
    using e h(5) by (simp add: row_clear_def)
  then have "map_ok (tm_rows (row_clear r t))" using h(1) by (simp add: sm.ok_erase)
  moreover have "cell_const (r', i) (row_clear r t) = (f(r := \<lambda>_. Cell_Empty)) r' (names ! i)" if "i < length names" for r' i
    using that h(5,8) e by (simp add: cell_const_def row_clear_def)
  ultimately show "holds_table (row_clear r t) names (f(r := \<lambda>_. Cell_Empty))"
    using h e by (simp add: holds_table_def row_clear_def)
qed

subsection \<open>What is printed\<close>

lemma print_cells_join: "print_cells t r True cs = join_with '','' (map (\<lambda>c. cell_text (cell_const (r, c) t)) cs)"
proof -
  have F: "print_cells t r False cs = (if cs = [] then '''' else '','' @ join_with '','' (map (\<lambda>c. cell_text (cell_const (r, c) t)) cs))" for cs
  proof (induction cs)
    case (Cons c cs)
    then show ?case by (cases "cs = []") (simp_all add: join_with_Cons)
  qed simp
  show ?thesis
  proof (cases cs)
    case (Cons c cs')
    then show ?thesis by (cases "cs' = []") (simp_all add: F join_with_Cons)
  qed simp
qed

lemma print_row_holds:
  assumes "holds_table t names f"
  shows "print_cells t r True (columns t) = join_with '','' (map (\<lambda>n. cell_text (f r n)) names)"
proof -
  note h = holds_tableD [OF assms]
  have "map (\<lambda>c. cell_text (cell_const (r, c) t)) [0..<length names] = map (\<lambda>n. cell_text (f r n)) names"
    by (rule nth_equalityI) (simp_all add: h(8))
  then show ?thesis by (simp add: print_cells_join h(5))
qed

end
