(* ===== verification/Table_Message.thy ===== *)
theory Table_Message
  imports Table_Map
begin

section \<open>Messages as rows of a table\<close>

text \<open>
  The functions of source/octf/utils/table/Table.cpp that write a protobuf message into a row, a cell
  for every field under its path, and those that make the header. A message is seen as reflection
  shows it: the fields in the order of the description, with a value for every scalar, the
  submessages that are there, the elements of repeated fields and the pairs of maps. A description
  is a tree, so messages that contain themselves are left out.
\<close>

subsection \<open>Messages and descriptions\<close>

datatype scalar =
    SNum int
  | SBool bool
  | SText string
  | SReal string

datatype pmessage = PMessage "(string \<times> pfield) list"
and pfield =
    PScalar scalar
  | PRepeated "scalar list"
  | PSub "pmessage option"
  | PSubs "pmessage list"
  | PMap "(scalar \<times> pvalue) list"
and pvalue = PVScalar scalar | PVMessage pmessage

text \<open>A description of a field: its name, whether it is repeated, the oneof it is in and whether it is the first there.\<close>

datatype mdesc = MDesc "fdesc list"
and fdesc = FDesc string bool "(string \<times> bool) option" "mdesc option"

fun scalar_cell :: "scalar \<Rightarrow> cell" where
  "scalar_cell (SNum i) = Cell_Num i"
| "scalar_cell (SBool b) = Cell_Text (if b then ''true'' else ''false'')"
| "scalar_cell (SText s) = Cell_Text s"
| "scalar_cell (SReal s) = Cell_Real s"

fun scalar_name :: "scalar \<Rightarrow> string" where
  "scalar_name (SNum i) = int_string i"
| "scalar_name (SBool b) = (if b then ''true'' else ''false'')"
| "scalar_name (SText s) = s"
| "scalar_name (SReal s) = s"

subsection \<open>Streaming\<close>

fun stream_repeated :: "nat \<Rightarrow> nat \<Rightarrow> scalar list \<Rightarrow> string \<Rightarrow> table_map \<Rightarrow> table_map" where
  "stream_repeated r i [] name t = t"
| "stream_repeated r i (v # vs) name t =
     stream_repeated r (Suc i) vs name
       (row_set r (name @ ''['' @ int_string (int i) @ '']'') (scalar_cell v) t)"

text \<open>\<open>streamMessageToRow\<close>, and below the loops over repeated submessages and over a map (\<open>streamMapPairToRow\<close>).\<close>

function streamMessageToRow :: "nat \<Rightarrow> pmessage \<Rightarrow> string \<Rightarrow> table_map \<Rightarrow> table_map"
  and stream_fields :: "nat \<Rightarrow> (string \<times> pfield) list \<Rightarrow> string \<Rightarrow> table_map \<Rightarrow> table_map"
  and stream_field :: "nat \<Rightarrow> pfield \<Rightarrow> string \<Rightarrow> table_map \<Rightarrow> table_map"
  and stream_subs :: "nat \<Rightarrow> nat \<Rightarrow> pmessage list \<Rightarrow> string \<Rightarrow> table_map \<Rightarrow> table_map"
  and stream_pairs :: "nat \<Rightarrow> (scalar \<times> pvalue) list \<Rightarrow> string \<Rightarrow> table_map \<Rightarrow> table_map"
  and streamMapPairToRow :: "nat \<Rightarrow> scalar \<Rightarrow> pvalue \<Rightarrow> string \<Rightarrow> table_map \<Rightarrow> table_map" where
  "streamMessageToRow r (PMessage fs) prefix t = stream_fields r fs prefix t"
| "stream_fields r [] prefix t = t"
| "stream_fields r ((name, f) # fs) prefix t = stream_fields r fs prefix (stream_field r f (prefix @ name) t)"
| "stream_field r (PScalar v) name t = row_set r name (scalar_cell v) t"
| "stream_field r (PRepeated vs) name t = stream_repeated r 0 vs name t"
| "stream_field r (PSub None) name t = t"
| "stream_field r (PSub (Some m)) name t = streamMessageToRow r m (name @ ''.'') t"
| "stream_field r (PSubs ms) name t = stream_subs r 0 ms name t"
| "stream_field r (PMap ps) name t = stream_pairs r ps name t"
| "stream_subs r i [] name t = t"
| "stream_subs r i (m # ms) name t =
     stream_subs r (Suc i) ms name (streamMessageToRow r m (name @ ''['' @ int_string (int i) @ ''].'') t)"
| "stream_pairs r [] name t = t"
| "stream_pairs r ((k, v) # ps) name t = stream_pairs r ps name (streamMapPairToRow r k v name t)"
| "streamMapPairToRow r k (PVMessage m) prefix t =
     streamMessageToRow r m ((prefix @ ''['' @ scalar_name k @ '']'') @ ''.'') t"
| "streamMapPairToRow r k (PVScalar v) prefix t = row_set r (prefix @ ''['' @ scalar_name k @ '']'') (scalar_cell v) t"
  by pat_completeness auto

termination
  by (relation "measure (\<lambda>x. case x of
      Inl (Inl (r, m, _)) \<Rightarrow> size m
    | Inl (Inr (Inl (r, fs, _))) \<Rightarrow> size_list (size_prod (\<lambda>_. 0) size) fs
    | Inl (Inr (Inr (r, f, _))) \<Rightarrow> size f
    | Inr (Inl (r, i, ms, _)) \<Rightarrow> size_list size ms
    | Inr (Inr (Inl (r, ps, _))) \<Rightarrow> size_list (size_prod (\<lambda>_. 0) size) ps
    | Inr (Inr (Inr (r, k, v, _))) \<Rightarrow> size v)") auto
subsection \<open>The header\<close>

definition oneof_header :: "nat \<Rightarrow> (string \<times> bool) option \<Rightarrow> string \<Rightarrow> table_map \<Rightarrow> table_map" where
  "oneof_header r oneof prefix t =
     (case oneof of
        Some (oneofName, True) \<Rightarrow> row_set r (prefix @ oneofName) (Cell_Text (prefix @ oneofName)) t
      | _ \<Rightarrow> t)"

function setupRowAsHeader :: "nat \<Rightarrow> mdesc \<Rightarrow> string \<Rightarrow> table_map \<Rightarrow> table_map"
  and header_fields :: "nat \<Rightarrow> fdesc list \<Rightarrow> string \<Rightarrow> table_map \<Rightarrow> table_map"
  and header_field :: "nat \<Rightarrow> fdesc \<Rightarrow> string \<Rightarrow> table_map \<Rightarrow> table_map" where
  "setupRowAsHeader r (MDesc fs) prefix t = header_fields r fs prefix t"
| "header_fields r [] prefix t = t"
| "header_fields r (f # fs) prefix t = header_fields r fs prefix (header_field r f prefix t)"
| "header_field r (FDesc name repeated oneof sub) prefix t =
     (if repeated then t
      else
        let t = oneof_header r oneof prefix t
        in case sub of
             Some d \<Rightarrow> setupRowAsHeader r d ((prefix @ name) @ ''.'') t
           | None \<Rightarrow> row_set r (prefix @ name) (Cell_Text (prefix @ name)) t)"
  by pat_completeness auto

termination
  by (relation "measure (\<lambda>x. case x of
      Inl (r, d, _) \<Rightarrow> size d
    | Inr (Inl (r, fs, _)) \<Rightarrow> size_list size fs
    | Inr (Inr (r, f, _)) \<Rightarrow> size f)") auto

text \<open>\<open>setHeader\<close> collects the names in the map of a temporary table, which iterates over them in their order.\<close>

definition setHeader :: "nat \<Rightarrow> pmessage \<Rightarrow> mdesc \<Rightarrow> table_map \<Rightarrow> table_map" where
  "setHeader r msg desc t =
     (let m = streamMessageToRow 0 msg '''' (getRow 0 TableMap);
          m = setupRowAsHeader 0 desc '''' (getRow 0 m)
      in fold (\<lambda>name. row_set r name (Cell_Text name)) (map fst (tm_columnsAssociation m)) t)"

subsection \<open>The cells of a message\<close>

lemma size_enumerate: "(i, m) \<in> set (enumerate k ms) \<Longrightarrow> size m \<le> size_list size ms"
proof -
  assume "(i, m) \<in> set (enumerate k ms)"
  then have "m \<in> set ms" by (auto simp: in_set_enumerate_eq)
  then show ?thesis by (rule size_list_estimation') simp
qed

lemma size_pair_in: "(a, x) \<in> set xs \<Longrightarrow> size x \<le> size_list (size_prod (\<lambda>_. 0) size) xs"
  by (induction xs) auto

text \<open>What streaming a message writes, as a list: the cells of its fields under their names.\<close>

function flatten :: "string \<Rightarrow> pmessage \<Rightarrow> (string \<times> cell) list"
  and flatten_field :: "string \<Rightarrow> pfield \<Rightarrow> (string \<times> cell) list"
  and flatten_value :: "string \<Rightarrow> pvalue \<Rightarrow> (string \<times> cell) list" where
  "flatten p (PMessage fs) = concat (map (\<lambda>(n, f). flatten_field (p @ n) f) fs)"
| "flatten_field n (PScalar v) = [(n, scalar_cell v)]"
| "flatten_field n (PRepeated vs) =
     map (\<lambda>(i, v). (n @ ''['' @ int_string (int i) @ '']'', scalar_cell v)) (enumerate 0 vs)"
| "flatten_field n (PSub m) = (case m of None \<Rightarrow> [] | Some m \<Rightarrow> flatten (n @ ''.'') m)"
| "flatten_field n (PSubs ms) =
     concat (map (\<lambda>(i, m). flatten (n @ ''['' @ int_string (int i) @ ''].'') m) (enumerate 0 ms))"
| "flatten_field n (PMap ps) =
     concat (map (\<lambda>(k, v). flatten_value (n @ ''['' @ scalar_name k @ '']'') v) ps)"
| "flatten_value n (PVScalar v) = [(n, scalar_cell v)]"
| "flatten_value n (PVMessage m) = flatten (n @ ''.'') m"
  by pat_completeness auto

termination
  by (relation "measure (\<lambda>x. case x of
      Inl (p, m) \<Rightarrow> size m | Inr (Inl (p, f)) \<Rightarrow> size f | Inr (Inr (p, v)) \<Rightarrow> size v)")
    (auto dest: size_enumerate size_pair_in simp: less_Suc_eq_le)

fun desc_names :: "string \<Rightarrow> mdesc \<Rightarrow> string list"
  and desc_field_names :: "string \<Rightarrow> fdesc \<Rightarrow> string list" where
  "desc_names p (MDesc fs) = concat (map (desc_field_names p) fs)"
| "desc_field_names p (FDesc name repeated oneof sub) =
     (if repeated then []
      else (case oneof of Some (n, True) \<Rightarrow> [p @ n] | _ \<Rightarrow> []) @
        (case sub of Some d \<Rightarrow> desc_names ((p @ name) @ ''.'') d | None \<Rightarrow> [p @ name]))"

abbreviation row_sets :: "nat \<Rightarrow> (string \<times> cell) list \<Rightarrow> table_map \<Rightarrow> table_map" where
  "row_sets r \<equiv> fold (\<lambda>(n, v). row_set r n v)"

lemma stream_repeated_flatten:
  "stream_repeated r i vs n t =
     row_sets r (map (\<lambda>(i, v). (n @ ''['' @ int_string (int i) @ '']'', scalar_cell v)) (enumerate i vs)) t"
  by (induction vs arbitrary: i t) simp_all

lemma stream_flatten:
  "streamMessageToRow r m p t = row_sets r (flatten p m) t"
  "stream_fields r fs p t = row_sets r (concat (map (\<lambda>(n, f). flatten_field (p @ n) f) fs)) t"
  "stream_field r f n t = row_sets r (flatten_field n f) t"
  "stream_subs r i ms n t =
     row_sets r (concat (map (\<lambda>(i, m). flatten (n @ ''['' @ int_string (int i) @ ''].'') m) (enumerate i ms))) t"
  "stream_pairs r ps n t = row_sets r (concat (map (\<lambda>(k, v). flatten_value (n @ ''['' @ scalar_name k @ '']'') v) ps)) t"
  "streamMapPairToRow r k v n t = row_sets r (flatten_value (n @ ''['' @ scalar_name k @ '']'') v) t"
  by (induction r m p t and r fs p t and r f n t and r i ms n t and r ps n t and r k v n t
      rule: streamMessageToRow_stream_fields_stream_field_stream_subs_stream_pairs_streamMapPairToRow.induct)
    (simp_all add: stream_repeated_flatten)

lemma header_names:
  "setupRowAsHeader r d p t = row_sets r (map (\<lambda>n. (n, Cell_Text n)) (desc_names p d)) t"
  "header_fields r fs p t = row_sets r (map (\<lambda>n. (n, Cell_Text n)) (concat (map (desc_field_names p) fs))) t"
  "header_field r f p t = row_sets r (map (\<lambda>n. (n, Cell_Text n)) (desc_field_names p f)) t"
  by (induction r d p t and r fs p t and r f p t rule: setupRowAsHeader_header_fields_header_field.induct)
    (auto simp: Let_def oneof_header_def split: option.split bool.split)

text \<open>Writing a list of cells: the columns grow by its names, and the last cell under a name stays.\<close>

definition write_cells :: "nat \<Rightarrow> (string \<times> cell) list \<Rightarrow> (nat \<Rightarrow> string \<Rightarrow> cell) \<Rightarrow> nat \<Rightarrow> string \<Rightarrow> cell" where
  "write_cells r cs f = f(r := (\<lambda>n. case map_of (rev cs) n of None \<Rightarrow> f r n | Some v \<Rightarrow> v))"

lemma row_sets_holds:
  "holds_table t names f \<Longrightarrow>
     holds_table (row_sets r cs t) (fold with_column (map fst cs) names) (write_cells r cs f)"
proof (induction cs arbitrary: t names f)
  case Nil
  then show ?case by (simp add: write_cells_def)
next
  case (Cons c cs)
  obtain n v where c: "c = (n, v)" by force
  have w: "write_cells r cs (f(r := (f r)(n := v))) = write_cells r (c # cs) f"
    by (auto simp: write_cells_def c fun_eq_iff map_add_def split: option.split)
  show ?case using Cons.IH [OF row_set_holds [OF Cons.prems, of r n v]] unfolding w
    by (simp only: c fold.simps list.map prod.case fst_conv o_apply)
qed

lemma set_fold_with_column [simp]: "set (fold with_column ns names) = set ns \<union> set names"
  by (induction ns arbitrary: names) auto

lemma fold_with_column_same: "set ns \<subseteq> set names \<Longrightarrow> fold with_column ns names = names"
  by (induction ns) (auto simp: with_column_def)

lemma fold_with_column_fresh: "distinct (names @ ns) \<Longrightarrow> fold with_column ns names = names @ ns"
  by (induction ns arbitrary: names) (auto simp: with_column_def)

lemma row_sets_rows [simp]: "tm_rows (row_sets r cs t) = tm_rows t"
  by (induction cs arbitrary: t) (auto simp: case_prod_beta)
subsection \<open>Names the description does not know\<close>

function conforms :: "mdesc \<Rightarrow> pmessage \<Rightarrow> bool"
  and field_conforms :: "fdesc \<Rightarrow> string \<times> pfield \<Rightarrow> bool" where
  "conforms (MDesc ds) (PMessage fs) \<longleftrightarrow>
     length ds = length fs \<and> (\<forall>(d, f) \<in> set (zip ds fs). field_conforms d f)"
| "field_conforms (FDesc name repeated oneof sub) (n, f) \<longleftrightarrow> n = name \<and>
     (case f of
        PScalar v \<Rightarrow> \<not> repeated \<and> sub = None
      | PSub m \<Rightarrow> \<not> repeated \<and> (case sub of None \<Rightarrow> False
          | Some d \<Rightarrow> (case m of None \<Rightarrow> True | Some m' \<Rightarrow> conforms d m'))
      | _ \<Rightarrow> repeated)"
  by pat_completeness auto

termination
  by (relation "measure (\<lambda>x. case x of Inl (d, m) \<Rightarrow> size d | Inr (d, f) \<Rightarrow> size d)")
    (auto dest!: set_zip_leftD intro: size_list_estimation' simp: less_Suc_eq_le)

fun dynamic_field :: "string \<Rightarrow> pfield \<Rightarrow> string list"
  and dynamic :: "string \<Rightarrow> pmessage \<Rightarrow> string list" where
  "dynamic p (PMessage fs) = concat (map (\<lambda>(n, f). dynamic_field (p @ n) f) fs)"
| "dynamic_field n (PScalar v) = []"
| "dynamic_field n (PSub m) = (case m of None \<Rightarrow> [] | Some m \<Rightarrow> dynamic (n @ ''.'') m)"
| "dynamic_field n f = map fst (flatten_field n f)"

lemma flatten_names:
  "conforms d m \<Longrightarrow> fst ` set (flatten p m) \<subseteq> set (desc_names p d) \<union> set (dynamic p m)"
  "field_conforms fd (n, f) \<Longrightarrow>
     fst ` set (flatten_field (p @ n) f) \<subseteq> set (desc_field_names p fd) \<union> set (dynamic_field (p @ n) f)"
proof (induction d m and fd "(n, f)" arbitrary: p and p n f rule: conforms_field_conforms.induct)
  case (1 ds fs)
  show ?case
  proof
    fix x assume "x \<in> fst ` set (flatten p (PMessage fs))"
    then obtain n f where nf: "(n, f) \<in> set fs" "x \<in> fst ` set (flatten_field (p @ n) f)" by auto
    then obtain i where i: "i < length fs" "fs ! i = (n, f)" by (auto simp: in_set_conv_nth)
    then have z: "(ds ! i, (n, f)) \<in> set (zip ds fs)" using "1.prems" by (auto simp: set_zip)
    then have "field_conforms (ds ! i) (n, f)" using "1.prems" by auto
    from 1(1) [OF z refl this, of p] nf(2)
    have "x \<in> set (desc_field_names p (ds ! i)) \<union> set (dynamic_field (p @ n) f)" by blast
    moreover have "ds ! i \<in> set ds" using z by (rule set_zip_leftD)
    ultimately show "x \<in> set (desc_names p (MDesc ds)) \<union> set (dynamic p (PMessage fs))" using nf(1) by auto
  qed
next
  case (2 name repeated oneof sub n f)
  show ?case
  proof (cases f)
    case (PSub m)
    show ?thesis
    proof (cases m)
      case (Some m')
      then obtain d where d: "sub = Some d" "conforms d m'" "n = name" "\<not> repeated"
        using 2(2) PSub by (auto split: option.splits)
      have "fst ` set (flatten ((p @ name) @ ''.'') m') \<subseteq>
          set (desc_names ((p @ name) @ ''.'') d) \<union> set (dynamic ((p @ name) @ ''.'') m')"
        by (rule 2(1) [OF PSub d(1) Some d(2)])
      then show ?thesis using d PSub Some by auto
    qed (use PSub in simp)
  next
    case (PRepeated vs)
    then have "dynamic_field (p @ n) f = map fst (flatten_field (p @ n) f)" by simp
    then show ?thesis by (simp only: set_map Un_upper2)
  next
    case (PSubs ms)
    then have "dynamic_field (p @ n) f = map fst (flatten_field (p @ n) f)" by simp
    then show ?thesis by (simp only: set_map Un_upper2)
  next
    case (PMap ps)
    then have "dynamic_field (p @ n) f = map fst (flatten_field (p @ n) f)" by simp
    then show ?thesis by (simp only: set_map Un_upper2)
  qed (use 2 in auto)
qed

lemma assoc_names:
  assumes "holds_table t names f"
  shows "map fst (tm_columnsAssociation t) = sorted_list_of_set (set names)"
proof -
  note h = holds_tableD [OF assms]
  have "n \<in> fst ` set (tm_columnsAssociation t) \<longleftrightarrow> n \<in> set names" for n
    using h(6) [of n] map_find_None_iff [of "tm_columnsAssociation t" n] by (metis in_set_conv_nth not_None_eq)
  then have "set (map fst (tm_columnsAssociation t)) = set names" by auto
  moreover have "sorted_wrt (<) (map fst (tm_columnsAssociation t))" using h(2) by (simp add: map_ok_def)
  ultimately show ?thesis by (metis sorted_list_of_set.idem_if_sorted_distinct strict_sorted_iff)
qed

definition header_of :: "pmessage \<Rightarrow> mdesc \<Rightarrow> string list" where
  "header_of msg desc = sorted_list_of_set (set (map fst (flatten '''' msg) @ desc_names '''' desc))"

lemma header_of_props: "sorted (header_of msg desc)" "distinct (header_of msg desc)"
  "set (header_of msg desc) = fst ` set (flatten '''' msg) \<union> set (desc_names '''' desc)"
  by (simp_all add: header_of_def)

text \<open>In a table without columns the header has the names in their order, each under itself.\<close>

lemma setHeader_holds:
  assumes "holds_table t [] f"
  shows "holds_table (setHeader r msg desc t) (header_of msg desc)
     (f(r := (\<lambda>n. if n \<in> set (header_of msg desc) then Cell_Text n else f r n)))"
    "tm_rows (setHeader r msg desc t) = tm_rows t"
proof -
  define m where "m = setupRowAsHeader 0 desc '''' (getRow 0 (streamMessageToRow 0 msg '''' (getRow 0 TableMap)))"
  let ?cs = "map (\<lambda>n. (n, Cell_Text n)) (header_of msg desc)"
  have "\<exists>names g. holds_table m names g \<and> set names = set (map fst (flatten '''' msg) @ desc_names '''' desc)"
    unfolding m_def stream_flatten header_names
    by (rule exI, rule exI, rule conjI, rule row_sets_holds, rule getRow_holds, rule row_sets_holds, rule getRow_holds,
        rule holds_TableMap) auto
  then have "map fst (tm_columnsAssociation m) = header_of msg desc"
    using assoc_names unfolding header_of_def by metis
  moreover have "row_sets r ?cs t = fold (\<lambda>name. row_set r name (Cell_Text name)) (header_of msg desc) t"
    by (simp add: fold_map comp_def)
  ultimately have run: "setHeader r msg desc t = row_sets r ?cs t"
    by (simp only: setHeader_def Let_def m_def [symmetric])
  have "fold with_column (map fst ?cs) [] = header_of msg desc"
    using fold_with_column_fresh [of "[]" "header_of msg desc"] by (simp add: comp_def header_of_props)
  moreover have "map_of (rev ?cs) n = (if n \<in> set (header_of msg desc) then Some (Cell_Text n) else None)" for n
    by (simp add: rev_map map_of_map_restrict restrict_map_def)
  then have "write_cells r ?cs f = f(r := (\<lambda>n. if n \<in> set (header_of msg desc) then Cell_Text n else f r n))"
    by (simp add: write_cells_def fun_eq_iff)
  ultimately show "holds_table (setHeader r msg desc t) (header_of msg desc)
     (f(r := (\<lambda>n. if n \<in> set (header_of msg desc) then Cell_Text n else f r n)))"
    using row_sets_holds [OF assms, of r ?cs] unfolding run by metis
  show "tm_rows (setHeader r msg desc t) = tm_rows t" by (simp add: run)
qed

end
