(* ===== verification/Csv_Printer.thy ===== *)
theory Csv_Printer
  imports Table_Message
begin

section \<open>Printing events as CSV\<close>

text \<open>
  \<open>TraceEventHandlerCsvPrinter\<close> and \<open>ParsedIoTraceEventHandlerPrinter\<close>
  (source/octf/trace/parser): a header line first, then for every event its line, from a table with
  one row. What goes to \<open>std::cout\<close> is collected; the JSON text of a message is a parameter.
\<close>

definition newline :: string where "newline = [CHR 0x0A]"

record csv_printer =
  cp_table :: table_map
  cp_out :: string

definition csv_printer_new :: csv_printer where
  "csv_printer_new = \<lparr>cp_table = TableMap, cp_out = ''''\<rparr>"

text \<open>\<open>std::cout << m_table << std::endl\<close>.\<close>

definition csv_put :: "table_map \<Rightarrow> csv_printer \<Rightarrow> csv_printer" where
  "csv_put t s = s\<lparr>cp_table := t, cp_out := cp_out s @ print_table t @ newline\<rparr>"

definition csv_handleEvent :: "pmessage \<Rightarrow> csv_printer \<Rightarrow> csv_printer" where
  "csv_handleEvent msg s =
     (let t = row_clear 0 (getRow 0 (cp_table s))
      in csv_put (streamMessageToRow 0 msg '''' (getRow 0 t)) s)"

definition csv_printHeader :: "pmessage \<Rightarrow> mdesc \<Rightarrow> csv_printer \<Rightarrow> csv_printer" where
  "csv_printHeader prototype desc s = csv_put (setHeader 0 prototype desc (getRow 0 (cp_table s))) s"

definition csv_processEvents :: "pmessage \<Rightarrow> mdesc \<Rightarrow> pmessage list \<Rightarrow> csv_printer \<Rightarrow> csv_printer" where
  "csv_processEvents prototype desc events s = fold csv_handleEvent events (csv_printHeader prototype desc s)"

subsection \<open>The printer of parsed events\<close>

datatype output_format = CSV | JSON | Other_Format

definition printer_handleIO ::
    "(pmessage \<Rightarrow> string) \<Rightarrow> output_format \<Rightarrow> pmessage \<Rightarrow> csv_printer \<Rightarrow> csv_printer res" where
  "printer_handleIO MessageToJsonString format io s =
     (case format of
        CSV \<Rightarrow>
          let t = row_clear 0 (getRow 0 (cp_table s))
          in Inr (csv_put (streamMessageToRow 0 io '''' (getRow 0 t)) s)
      | JSON \<Rightarrow> Inr (s\<lparr>cp_out := cp_out s @ MessageToJsonString io @ newline\<rparr>)
      | Other_Format \<Rightarrow> Inl (Octf_Exception ''Invalid output format''))"

text \<open>The prototype of the header is an event with the tags of the trace; \<open>ios\<close> are the events the parser passes on.\<close>

definition printer_header :: "output_format \<Rightarrow> pmessage \<Rightarrow> mdesc \<Rightarrow> csv_printer \<Rightarrow> csv_printer" where
  "printer_header format event desc s =
     (if format = CSV then csv_put (setHeader 0 event desc (getRow 0 (cp_table s))) s else s)"

fun printer_handle_all ::
    "(pmessage \<Rightarrow> string) \<Rightarrow> output_format \<Rightarrow> pmessage list \<Rightarrow> csv_printer \<Rightarrow> csv_printer res" where
  "printer_handle_all js format [] s = Inr s"
| "printer_handle_all js format (io # ios) s =
     and_then (printer_handleIO js format io s) (printer_handle_all js format ios)"

definition printer_processEvents ::
    "(pmessage \<Rightarrow> string) \<Rightarrow> output_format \<Rightarrow> pmessage \<Rightarrow> mdesc \<Rightarrow> pmessage list \<Rightarrow> csv_printer \<Rightarrow> csv_printer res" where
  "printer_processEvents js format event desc ios s =
     printer_handle_all js format ios (printer_header format event desc s)"

subsection \<open>Lines under the header\<close>

text \<open>The text of the field with a path.\<close>

definition field_text :: "pmessage \<Rightarrow> string \<Rightarrow> string" where
  "field_text m n = (case map_of (rev (flatten '''' m)) n of None \<Rightarrow> '''' | Some c \<Rightarrow> cell_text c)"

definition csv_line :: "string list \<Rightarrow> string" where
  "csv_line xs = join_with '','' xs"

text \<open>The printer between two lines: the columns are those of the header.\<close>

definition csv_ok :: "string list \<Rightarrow> csv_printer \<Rightarrow> bool" where
  "csv_ok names s \<longleftrightarrow> tm_rows (cp_table s) = [(0, ())] \<and> (\<exists>f. holds_table (cp_table s) names f \<and> (\<forall>r. r \<noteq> 0 \<longrightarrow> f r = (\<lambda>_. Cell_Empty)))"

lemma print_one_row:
  "tm_rows t = [(0, ())] \<Longrightarrow> holds_table t names f \<Longrightarrow> print_table t = csv_line (map (\<lambda>n. cell_text (f 0 n)) names)"
  by (simp add: print_table_def csv_line_def print_row_holds)

lemma csv_printHeader_ok:
  "csv_ok (header_of p d) (csv_printHeader p d csv_printer_new)"
  "cp_out (csv_printHeader p d csv_printer_new) = csv_line (header_of p d) @ newline"
proof -
  define t where "t = setHeader 0 p d (getRow 0 TableMap)"
  let ?f = "(\<lambda>(r :: nat) n. if r = 0 \<and> n \<in> set (header_of p d) then Cell_Text n else Cell_Empty)"
  have new: "holds_table (getRow 0 TableMap) [] (\<lambda>_ _. Cell_Empty)" by (rule getRow_holds [OF holds_TableMap])
  have "(\<lambda>_ _. Cell_Empty)(0 := (\<lambda>n. if n \<in> set (header_of p d) then Cell_Text n else Cell_Empty)) = ?f"
    by (auto simp: fun_eq_iff)
  then have h1: "holds_table t (header_of p d) ?f"
    using setHeader_holds(1) [OF new, of 0 p d] by (simp only: t_def)
  have h2: "tm_rows t = [(0, ())]"
    using setHeader_holds(2) [OF new, of 0 p d] by (simp add: t_def getRow_def TableMap_def map_emplace_def)
  note h = h1 h2
  have run: "csv_printHeader p d csv_printer_new = csv_put t csv_printer_new"
    by (simp add: csv_printHeader_def csv_printer_new_def t_def)
  show "csv_ok (header_of p d) (csv_printHeader p d csv_printer_new)"
    unfolding run csv_ok_def csv_put_def using h by (intro conjI exI [of _ ?f]) (auto simp: fun_eq_iff)
  have "map (\<lambda>n. cell_text (?f 0 n)) (header_of p d) = header_of p d" by (rule map_idI) simp
  then show "cp_out (csv_printHeader p d csv_printer_new) = csv_line (header_of p d) @ newline"
    unfolding run using print_one_row [OF h(2,1)] by (simp add: csv_put_def csv_printer_new_def)
qed

lemma csv_handleEvent_ok:
  assumes "csv_ok names s" "fst ` set (flatten '''' m) \<subseteq> set names"
  shows "csv_ok names (csv_handleEvent m s)"
    "cp_out (csv_handleEvent m s) = cp_out s @ csv_line (map (field_text m) names) @ newline"
proof -
  obtain f where f: "holds_table (cp_table s) names f" "tm_rows (cp_table s) = [(0, ())]" "\<forall>r. r \<noteq> 0 \<longrightarrow> f r = (\<lambda>_. Cell_Empty)"
    using assms(1) by (auto simp: csv_ok_def)
  define t1 where "t1 = getRow 0 (row_clear 0 (getRow 0 (cp_table s)))"
  define t where "t = streamMessageToRow 0 m '''' t1"
  let ?f = "write_cells 0 (flatten '''' m) (f(0 := \<lambda>_. Cell_Empty))"
  have h1: "holds_table t1 names (f(0 := \<lambda>_. Cell_Empty))"
    unfolding t1_def by (intro getRow_holds row_clear_holds(1) f(1))
  have "tm_rows (row_clear 0 (getRow 0 (cp_table s))) = (if names = [] then [(0, ())] else [])"
    using row_clear_holds(2) [OF getRow_holds [OF f(1)], of 0 0] f(2)
    by (simp add: getRow_def map_emplace_def map_find_def map_erase_def)
  then have r1: "tm_rows t1 = [(0, ())]" by (simp add: t1_def getRow_def map_emplace_def map_find_def)
  have "fold with_column (map fst (flatten '''' m)) names = names"
    using assms(2) by (intro fold_with_column_same) simp
  then have h: "holds_table t names ?f" "tm_rows t = [(0, ())]"
    using row_sets_holds [OF h1, of 0 "flatten '''' m"] r1 by (simp_all add: t_def stream_flatten)
  have run: "csv_handleEvent m s = csv_put t s" by (simp add: csv_handleEvent_def t_def t1_def)
  show "csv_ok names (csv_handleEvent m s)"
    unfolding run csv_ok_def csv_put_def using h f(3) by (intro conjI exI [of _ ?f]) (auto simp: write_cells_def)
  have "cell_text (?f 0 n) = field_text m n" for n
    by (simp add: write_cells_def field_text_def split: option.split)
  then show "cp_out (csv_handleEvent m s) = cp_out s @ csv_line (map (field_text m) names) @ newline"
    unfolding run using print_one_row [OF h(2,1)] by (simp add: csv_put_def)
qed

lemma csv_events_ok:
  "csv_ok names s \<Longrightarrow> \<forall>m \<in> set ms. fst ` set (flatten '''' m) \<subseteq> set names \<Longrightarrow>
     cp_out (fold csv_handleEvent ms s) = cp_out s @ concat (map (\<lambda>m. csv_line (map (field_text m) names) @ newline) ms)"
  by (induction ms arbitrary: s) (simp_all add: csv_handleEvent_ok)

lemma printer_is_csv:
  "printer_processEvents js CSV event desc ios s = Inr (csv_processEvents event desc ios s)"
proof -
  have "printer_handle_all js CSV ios s = Inr (fold csv_handleEvent ios s)" for s
    by (induction ios arbitrary: s) (simp_all add: printer_handleIO_def csv_handleEvent_def Let_def)
  then show ?thesis by (simp add: printer_processEvents_def printer_header_def csv_processEvents_def csv_printHeader_def)
qed

subsection \<open>Properties\<close>

text \<open>
  Property C38. The CSV of a trace: a header with the names of all fields, each once and in their order, and for
  every event one line that has under each name the value of that field, or nothing when the event has
  it not. This holds as long as the elements of repeated fields and maps that an event has were in the
  prototype of the header, too.
\<close>

theorem csv_lines_match_header:
  assumes "\<forall>m \<in> set ios. conforms desc m \<and> set (dynamic '''' m) \<subseteq> fst ` set (flatten '''' event)"
  shows "\<exists>names s. printer_processEvents js CSV event desc ios csv_printer_new = Inr s \<and>
    sorted names \<and> distinct names \<and> set names = fst ` set (flatten '''' event) \<union> set (desc_names '''' desc) \<and>
    cp_out s = concat (map (\<lambda>xs. csv_line xs @ newline) (names # map (\<lambda>m. map (field_text m) names) ios))"
proof -
  have "\<forall>m \<in> set ios. fst ` set (flatten '''' m) \<subseteq> set (header_of event desc)"
    using assms flatten_names(1) [where p = "''''"] by (fastforce simp: header_of_props)
  from csv_events_ok [OF csv_printHeader_ok(1) this]
  show ?thesis
    by (intro exI [of _ "header_of event desc"] exI [of _ "csv_processEvents event desc ios csv_printer_new"])
      (simp add: printer_is_csv header_of_props csv_processEvents_def csv_printHeader_ok(2) comp_def)
qed

text \<open>A description with a submessage and a map of tags, as a parsed event has them.\<close>

definition sample_desc :: mdesc where
  "sample_desc = MDesc
     [FDesc ''io'' False None (Some (MDesc [FDesc ''lba'' False None None, FDesc ''error'' False None None])),
      FDesc ''tags'' True None None]"

definition sample_event :: "pmessage option \<Rightarrow> string \<Rightarrow> pmessage" where
  "sample_event io v = PMessage [(''io'', PSub io), (''tags'', PMap [(SText ''host'', PVScalar (SText v))])]"

definition sample_io :: pmessage where
  "sample_io = PMessage [(''lba'', PScalar (SNum 8)), (''error'', PScalar (SBool False))]"
lemma csv_lines_match_header_witness:
  "\<exists>names s. printer_processEvents (\<lambda>_. '''') CSV (sample_event None ''a'') sample_desc
       [sample_event (Some sample_io) ''b''] csv_printer_new = Inr s \<and>
     set names = {''io.lba'', ''io.error'', ''tags[host]''} \<and>
     cp_out s = csv_line names @ newline @ csv_line (map (field_text (sample_event (Some sample_io) ''b'')) names) @ newline \<and>
     field_text (sample_event (Some sample_io) ''b'') ''tags[host]'' = ''b''"
proof -
  have c: "\<forall>m \<in> set [sample_event (Some sample_io) ''b''].
      conforms sample_desc m \<and> set (dynamic '''' m) \<subseteq> fst ` set (flatten '''' (sample_event None ''a''))"
    by (simp add: sample_desc_def sample_event_def sample_io_def)
  have n: "fst ` set (flatten '''' (sample_event None ''a'')) \<union> set (desc_names '''' sample_desc) =
      {''io.lba'', ''io.error'', ''tags[host]''}"
    by (auto simp: sample_desc_def sample_event_def)
  have t: "field_text (sample_event (Some sample_io) ''b'') ''tags[host]'' = ''b''"
    by (simp add: field_text_def sample_event_def sample_io_def)
  from csv_lines_match_header [OF c, of "\<lambda>_. ''''"] n t show ?thesis by auto
qed

end
