(* ===== verification/Csv_Parser.thy ===== *)
theory Csv_Parser
  imports Csv_Printer
begin

section \<open>The parser of CSV\<close>

text \<open>
  \<open>parseCsv\<close> of source/octf/utils/CsvParser.cpp. The input stream is its text and the position it
  is read from. A loop that never ends is \<open>None\<close>: \<open>last_real\<close> is a partial function, and so is
  all that depends on it.
\<close>

definition MAX_CSV_CONTENT_SIZE :: nat where "MAX_CSV_CONTENT_SIZE = 10 * 1024 * 1024"

abbreviation NL :: char where "NL \<equiv> CHR 0x0A"
abbreviation NUL :: char where "NUL \<equiv> CHR 0x00"

text \<open>\<open>std::getline\<close> up to a delimiter, when there is something left: the text before it and what follows it.\<close>

definition get_until :: "char \<Rightarrow> string \<Rightarrow> string \<times> string" where
  "get_until d s = (takeWhile (\<lambda>c. c \<noteq> d) s, tl (dropWhile (\<lambda>c. c \<noteq> d) s))"

lemma length_get_until: "s \<noteq> [] \<Longrightarrow> get_until d s = (x, r) \<Longrightarrow> length r < length s"
  using length_dropWhile_le [of "\<lambda>c. c \<noteq> d" s] by (cases "dropWhile (\<lambda>c. c \<noteq> d) s") (auto simp: get_until_def)

text \<open>The search for the last character: the position is put back after every read, so it never moves.\<close>

partial_function (option) last_real :: "string \<Rightarrow> nat \<Rightarrow> char \<Rightarrow> char option" where
  "last_real content pos c =
     (if c = NUL \<and> pos > 0 then last_real content pos (content ! pos) else Some c)"

definition csv_lineCount :: "string \<Rightarrow> nat \<Rightarrow> char \<Rightarrow> nat" where
  "csv_lineCount content pos lastc =
     (let n = length (filter (\<lambda>c. c = NL) (drop pos content)) in if lastc \<noteq> NL then n + 1 else n)"

subsection \<open>The header\<close>

definition header_token :: "string \<Rightarrow> table_map \<Rightarrow> table_map res" where
  "header_token token t =
     (let hdrCount = getColumnCount t;
          (t, a) = row_address 0 token t;
          t = cell_ref a t;
          (t, b) = row_address 0 token t
      in if snd b < hdrCount
         then Inl (Octf_Exception (''Duplicate header elements found in CSV: '' @ token))
         else Inr (cell_assign a (Cell_Text token) t))"

text \<open>A line of tokens: the loop ends with an empty token when the line is empty or ends with a comma.\<close>

function header_line :: "string \<Rightarrow> table_map \<Rightarrow> table_map res" where
  "header_line s t =
     (if s = [] then Inl (Octf_Exception ''Empty header element found during CSV parsing.'')
      else
        let (token, rest) = get_until (CHR '','') s
        in and_then (header_token token t) (\<lambda>t.
           if CHR '','' \<notin> set s then Inr t else header_line rest t))"
  by pat_completeness auto

termination
  by (relation "measure (\<lambda>(s, t). length s)") (auto dest: length_get_until [OF _ sym])

declare header_line.simps [simp del]

definition has_required :: "string \<Rightarrow> table_map \<Rightarrow> bool" where
  "has_required required t \<longleftrightarrow> (\<exists>c \<in> set (columns t). cell_equals (cell_const (0, c) t) required)"

definition parse_header :: "string \<Rightarrow> string list \<Rightarrow> table_map \<Rightarrow> table_map res" where
  "parse_header line required t =
     and_then (header_line line t) (\<lambda>t.
     if getColumnCount t = 0
     then Inl (Octf_Exception ''Invalid CSV format found during parsing: no headers found.'')
     else if \<forall>r \<in> set required. has_required r t then Inr t
     else Inl (Octf_Exception ''All required header elements were not found.''))"

subsection \<open>The records\<close>

text \<open>One line; the index of the token goes on from line to line.\<close>

function record_line :: "nat \<Rightarrow> nat \<Rightarrow> string \<Rightarrow> table_map \<Rightarrow> (nat \<times> table_map) res" where
  "record_line lineIndex tokenIndex s t =
     (if s = []
      then Inr (tokenIndex, cell_assign (lineIndex, getColumnCount t - 1) (Cell_Text '''') (getRow lineIndex t))
      else
        let (token, rest) = get_until (CHR '','') s
        in if tokenIndex \<ge> getColumnCount t
           then Inl (Octf_Exception ''Records without header found during CSV parsing.'')
           else
             let t = cell_assign (lineIndex, tokenIndex) (Cell_Text token) (getRow lineIndex t)
             in if CHR '','' \<notin> set s then Inr (tokenIndex + 1, t)
                else record_line lineIndex (tokenIndex + 1) rest t)"
  by pat_completeness auto

termination
  by (relation "measure (\<lambda>(i, k, s, t). length s)") (auto dest: length_get_until [OF _ sym])

declare record_line.simps [simp del]

function record_lines :: "nat \<Rightarrow> nat \<Rightarrow> nat \<Rightarrow> string \<Rightarrow> table_map \<Rightarrow> table_map res" where
  "record_lines lineCount lineIndex tokenIndex s t =
     (if s = [] then Inr t
      else
        let (line, rest) = get_until NL s
        in if lineIndex \<ge> lineCount
           then Inl (Octf_Exception ''Unexpected error occurred - line count mismatch'')
           else and_then (record_line lineIndex tokenIndex line t) (\<lambda>(k, t).
                record_lines lineCount (lineIndex + 1) k rest t))"
  by pat_completeness auto

termination
  by (relation "measure (\<lambda>(n, i, k, s, t). length s)") (auto dest: length_get_until [OF _ sym])

declare record_lines.simps [simp del]

definition parseCsv :: "string \<Rightarrow> nat \<Rightarrow> string list \<Rightarrow> table_map \<Rightarrow> table_map res option" where
  "parseCsv content pos required t =
     (let t = getRow 0 (tm_clear t)
      in Option.bind (if content = [] then Some NUL else last_real content (length content - 1) NUL) (\<lambda>lastc.
         let lineCount = csv_lineCount content pos lastc
         in if length content > MAX_CSV_CONTENT_SIZE
            then Some (Inl (Octf_Exception ''Input content for CSV parser is too large.''))
            else if length content = 0 \<or> lineCount \<le> 1
            then Some (Inl (Octf_Exception ''CSV content empty or no records found''))
            else
              let (line, rest) = get_until NL (drop pos content)
              in Some (and_then (parse_header line required t) (record_lines lineCount 1 0 rest))))"

text \<open>The version for a string reads it from its start.\<close>

definition parseCsv_string :: "string \<Rightarrow> string list \<Rightarrow> table_map \<Rightarrow> table_map res option" where
  "parseCsv_string content = parseCsv content 0"
subsection \<open>Lines and tokens\<close>

lemma get_until_append: "d \<notin> set x \<Longrightarrow> get_until d (x @ d # s) = (x, s)"
  by (induction x) (auto simp: get_until_def)

lemma get_until_none: "d \<notin> set x \<Longrightarrow> get_until d x = (x, [])"
  by (induction x) (auto simp: get_until_def)

definition token_ok :: "string \<Rightarrow> bool" where
  "token_ok x \<longleftrightarrow> CHR '','' \<notin> set x \<and> NL \<notin> set x"

text \<open>Tokens that a line gives back: none has a delimiter, and the last one is not empty.\<close>

definition tokens_ok :: "string list \<Rightarrow> bool" where
  "tokens_ok xs \<longleftrightarrow> xs \<noteq> [] \<and> (\<forall>x \<in> set xs. token_ok x) \<and> last xs \<noteq> ''''"

lemma csv_line_Cons: "xs \<noteq> [] \<Longrightarrow> csv_line (x # xs) = x @ CHR '','' # csv_line xs"
  by (simp add: csv_line_def join_with_Cons)

lemma csv_line_single [simp]: "csv_line [x] = x"
  by (simp add: csv_line_def)

lemma tokens_ok_tl: "tokens_ok (x # xs) \<Longrightarrow> xs \<noteq> [] \<Longrightarrow> tokens_ok xs \<and> token_ok x"
  by (simp add: tokens_ok_def)

lemma csv_line_not_Nil: "tokens_ok xs \<Longrightarrow> csv_line xs \<noteq> []"
  by (cases xs; cases "tl xs") (auto simp: tokens_ok_def csv_line_Cons)

lemma csv_line_no_NL: "\<forall>x \<in> set xs. NL \<notin> set x \<Longrightarrow> NL \<notin> set (csv_line xs)"
proof (induction xs)
  case (Cons x xs)
  then show ?case by (cases "xs = []") (simp_all add: csv_line_Cons)
qed (simp add: csv_line_def)

lemma tokens_ok_no_NL: "tokens_ok xs \<Longrightarrow> NL \<notin> set (csv_line xs)"
  by (rule csv_line_no_NL) (simp add: tokens_ok_def token_ok_def)

subsection \<open>The header\<close>

lemma cell_assign_ref [simp]: "cell_assign a v (cell_ref a t) = cell_assign a v t"
proof -
  have "cell_ref a (cell_ref a t) = cell_ref a t"
    by (simp add: cell_ref_def getColumn_def map_emplace_def map_find_def map_of_put split: option.split)
  then show ?thesis by (simp add: cell_assign_def)
qed

lemma header_token_holds:
  assumes "holds_table t names f" "n \<notin> set names"
  shows "header_token n t = Inr (row_set 0 n (Cell_Text n) t)"
proof -
  obtain t' c where tc: "getColumnAssociation n t = (t', c)" by force
  have c: "c = length names" "map_find (tm_columnsAssociation t') n = Some c"
    using getColumnAssociation_holds [OF assms(1) tc] assms(2) holds_tableD(2) [OF assms(1)]
    by (simp_all add: sm.find_put)
  have "getColumnCount t = length names"
    using arg_cong [OF holds_tableD(5) [OF assms(1)], of length] by (simp add: getColumnCount_def)
  moreover have "getColumnAssociation n (cell_ref a t') = (cell_ref a t', c)" for a
    using c(2) by (simp add: getColumnAssociation_def cell_ref_def getColumn_def split: option.split)
  ultimately show ?thesis
    using c(1) by (simp add: header_token_def row_set_def row_address_def tc Let_def)
qed

lemma header_token_duplicate:
  assumes "holds_table t names f" "n \<in> set names"
  shows "\<exists>e. header_token n t = Inl e"
proof -
  obtain t' c where tc: "getColumnAssociation n t = (t', c)" by force
  have c: "t' = t" "c < length names" "names ! c = n"
    using getColumnAssociation_holds(2) [OF assms(1) tc assms(2)] by auto
  have "map_find (tm_columnsAssociation t) n = Some c"
    using c holds_tableD(6) [OF assms(1), of n c] by simp
  then have "getColumnAssociation n (cell_ref a t) = (cell_ref a t, c)" for a
    by (simp add: getColumnAssociation_def cell_ref_def getColumn_def split: option.split)
  moreover have "getColumnCount t = length names"
    using arg_cong [OF holds_tableD(5) [OF assms(1)], of length] by (simp add: getColumnCount_def)
  ultimately show ?thesis using c by (simp add: header_token_def row_address_def tc Let_def)
qed

lemma header_line_holds:
  assumes "tokens_ok hs" "holds_table t names f" "distinct (names @ hs)"
  shows "\<exists>t'. header_line (csv_line hs) t = Inr t' \<and> tm_rows t' = tm_rows t \<and>
    holds_table t' (names @ hs) (f(0 := (\<lambda>n. if n \<in> set hs then Cell_Text n else f 0 n)))"
  using assms
proof (induction hs arbitrary: t names f)
  case Nil
  then show ?case by (simp add: tokens_ok_def)
next
  case (Cons h hs)
  let ?t = "row_set 0 h (Cell_Text h) t"
  have tok: "header_token h t = Inr ?t" using Cons.prems by (intro header_token_holds) auto
  have "h \<notin> set names" using Cons.prems(3) by simp
  then have t: "holds_table ?t (names @ [h]) (f(0 := (f 0)(h := Cell_Text h)))"
    using row_set_holds [OF Cons.prems(2), of 0 h "Cell_Text h"] by (simp add: with_column_def)
  show ?case
  proof (cases "hs = []")
    case True
    have "header_line (csv_line [h]) t = Inr ?t"
      using Cons.prems(1) True tok by (subst header_line.simps) (simp add: get_until_none tokens_ok_def token_ok_def)
    moreover have "f(0 := (f 0)(h := Cell_Text h)) = f(0 := (\<lambda>n. if n \<in> set [h] then Cell_Text n else f 0 n))"
      by (auto simp: fun_eq_iff)
    ultimately show ?thesis using t True by (metis row_set_rows)
  next
    case False
    have ok: "tokens_ok hs" "token_ok h" using tokens_ok_tl [OF Cons.prems(1) False] by auto
    have d: "distinct ((names @ [h]) @ hs)" using Cons.prems(3) by simp
    obtain t' where t': "header_line (csv_line hs) ?t = Inr t'" "tm_rows t' = tm_rows ?t"
      "holds_table t' ((names @ [h]) @ hs)
        ((f(0 := (f 0)(h := Cell_Text h)))(0 := (\<lambda>n. if n \<in> set hs then Cell_Text n else (f(0 := (f 0)(h := Cell_Text h))) 0 n)))"
      using Cons.IH [OF ok(1) t d] by blast
    have eq: "(f(0 := (f 0)(h := Cell_Text h)))(0 := (\<lambda>n. if n \<in> set hs then Cell_Text n else (f(0 := (f 0)(h := Cell_Text h))) 0 n)) =
        f(0 := (\<lambda>n. if n \<in> set (h # hs) then Cell_Text n else f 0 n))"
      by (auto simp: fun_eq_iff)
    have "header_line (csv_line (h # hs)) t = Inr t'"
      unfolding csv_line_Cons [OF False] using ok(2) tok t'(1)
      by (subst header_line.simps) (simp add: get_until_append token_ok_def)
    moreover have "holds_table t' (names @ h # hs) (f(0 := (\<lambda>n. if n \<in> set (h # hs) then Cell_Text n else f 0 n)))"
      using t'(3) unfolding eq by (simp only: append_assoc append.simps)
    ultimately show ?thesis using t'(2) by (metis row_set_rows)
  qed
qed

lemma parse_header_holds:
  assumes "tokens_ok hs" "distinct hs" "set required \<subseteq> set hs"
  shows "\<exists>t'. parse_header (csv_line hs) required (getRow 0 (tm_clear t)) = Inr t' \<and> tm_rows t' = [(0, ())] \<and>
    holds_table t' hs ((\<lambda>_ _. Cell_Empty)(0 := (\<lambda>n. if n \<in> set hs then Cell_Text n else Cell_Empty)))"
proof -
  let ?f = "(\<lambda>(_ :: nat) _. Cell_Empty)(0 := (\<lambda>n. if n \<in> set hs then Cell_Text n else Cell_Empty))"
  have c: "tm_clear t = TableMap" by (simp add: tm_clear_def TableMap_def)
  have "holds_table (getRow 0 (tm_clear t)) [] (\<lambda>_ _. Cell_Empty)" unfolding c by (rule getRow_holds [OF holds_TableMap])
  from header_line_holds [OF assms(1) this] assms(2)
  obtain t' where t': "header_line (csv_line hs) (getRow 0 (tm_clear t)) = Inr t'" "tm_rows t' = tm_rows (getRow 0 (tm_clear t))"
    "holds_table t' hs ?f" by auto
  note h = holds_tableD [OF t'(3)]
  have n: "getColumnCount t' = length hs" using arg_cong [OF h(5), of length] by (simp add: getColumnCount_def)
  have "has_required r t'" if "r \<in> set hs" for r
  proof -
    obtain i where "i < length hs" "hs ! i = r" using \<open>r \<in> set hs\<close> unfolding in_set_conv_nth by blast
    then show ?thesis using h(8) [of i 0] h(5) that by (auto simp: has_required_def cell_equals_def intro!: bexI [of _ i])
  qed
  then show ?thesis using t' n assms
    by (auto simp: parse_header_def tokens_ok_def c getRow_def TableMap_def map_emplace_def)
qed
subsection \<open>The records\<close>

text \<open>A cell written by its index is one written by the name of its column.\<close>

lemma cell_assign_row_set:
  assumes "holds_table t names f" "c < length names"
  shows "cell_assign (r, c) v t = row_set r (names ! c) v t"
proof -
  have "map_find (tm_columnsAssociation t) (names ! c) = Some c"
    using holds_tableD(6) [OF assms(1), of "names ! c" c] assms(2) by simp
  then show ?thesis by (simp add: row_set_def row_address_def getColumnAssociation_def)
qed

lemma cell_assign_holds:
  assumes "holds_table t names f" "c < length names"
  shows "holds_table (cell_assign (r, c) v t) names (f(r := (f r)(names ! c := v)))"
    "tm_rows (cell_assign (r, c) v t) = tm_rows t"
  using row_set_holds [OF assms(1), of r "names ! c" v] assms(2)
  by (simp_all add: cell_assign_row_set [OF assms] with_column_def)

lemma getColumnCount_holds: "holds_table t names f \<Longrightarrow> getColumnCount t = length names"
  using arg_cong [OF holds_tableD(5), of t names f length] by (simp add: getColumnCount_def)

lemma getRow_again [simp]: "map_find (tm_rows t) r \<noteq> None \<Longrightarrow> getRow r t = t"
  by (auto simp: getRow_def map_emplace_def split: option.split)

lemma record_line_holds:
  assumes "tokens_ok xs" "holds_table t names f" "k + length xs \<le> length names"
  shows "\<exists>t'. record_line i k (csv_line xs) t = Inr (k + length xs, t') \<and> tm_rows t' = tm_rows (getRow i t) \<and>
    holds_table t' names (write_cells i (zip (drop k names) (map Cell_Text xs)) f)"
  using assms
proof (induction xs arbitrary: t f k)
  case Nil
  then show ?case by (simp add: tokens_ok_def)
next
  case (Cons x xs)
  have k: "k < length names" using Cons.prems(3) by simp
  note g = getRow_holds [OF Cons.prems(2), of i]
  let ?t = "cell_assign (i, k) (Cell_Text x) (getRow i t)"
  let ?f = "f(i := (f i)(names ! k := Cell_Text x))"
  have h: "holds_table ?t names ?f" "tm_rows ?t = tm_rows (getRow i t)" using cell_assign_holds [OF g k] by auto
  have n: "getColumnCount t = length names" using getColumnCount_holds [OF Cons.prems(2)] .
  have d: "drop k names = names ! k # drop (Suc k) names" using k by (simp add: Cons_nth_drop_Suc)
  show ?case
  proof (cases "xs = []")
    case True
    have "record_line i k (csv_line [x]) t = Inr (k + 1, ?t)"
      using Cons.prems(1) True n k by (subst record_line.simps) (simp add: get_until_none tokens_ok_def token_ok_def)
    moreover have "?f = write_cells i (zip (drop k names) (map Cell_Text [x])) f"
      by (auto simp: write_cells_def d fun_eq_iff)
    ultimately show ?thesis using h True by auto
  next
    case False
    have ok: "tokens_ok xs" "token_ok x" using tokens_ok_tl [OF Cons.prems(1) False] by auto
    have len: "k + 1 + length xs \<le> length names" using Cons.prems(3) by simp
    obtain t' where t': "record_line i (k + 1) (csv_line xs) ?t = Inr (k + 1 + length xs, t')"
      "tm_rows t' = tm_rows (getRow i ?t)" "holds_table t' names (write_cells i (zip (drop (k + 1) names) (map Cell_Text xs)) ?f)"
      using Cons.IH [OF ok(1) h(1) len] by blast
    have "write_cells i (zip (drop (k + 1) names) (map Cell_Text xs)) ?f =
        write_cells i (zip (drop k names) (map Cell_Text (x # xs))) f"
      by (auto simp: write_cells_def d fun_eq_iff map_add_def split: option.split)
    moreover have "record_line i k (csv_line (x # xs)) t = Inr (k + length (x # xs), t')"
      unfolding csv_line_Cons [OF False] using ok(2) n k t'(1)
      by (subst record_line.simps) (simp add: get_until_append token_ok_def)
    moreover have "map_find (tm_rows ?t) i \<noteq> None"
      using holds_tableD(1) [OF Cons.prems(2)] unfolding h(2)
      by (auto simp: getRow_def map_emplace_def sm.find_put split: option.split)
    then have "tm_rows t' = tm_rows (getRow i t)" using t'(2) h(2) by simp
    ultimately show ?thesis using t'(3) by (intro exI [of _ t']) simp
  qed
qed

text \<open>A token beyond the last column.\<close>

lemma record_line_too_far:
  "getColumnCount t \<le> k \<Longrightarrow> s \<noteq> [] \<Longrightarrow>
     record_line i k s t = Inl (Octf_Exception ''Records without header found during CSV parsing.'')"
  by (subst record_line.simps) (simp add: case_prod_beta)

subsection \<open>The last character\<close>

lemma last_real_found: "content ! pos \<noteq> NUL \<Longrightarrow> pos > 0 \<Longrightarrow> last_real content pos NUL = Some (content ! pos)"
  by (subst last_real.simps, simp) (subst last_real.simps, simp)

lemma last_real_never:
  assumes "last_real content pos c = Some r"
  shows "\<not> (c = NUL \<and> pos > 0 \<and> content ! pos = NUL)"
  using assms
proof (induction content pos c r rule: last_real.raw_induct [rotated, consumes 1])
  case (1 rec content pos c r)
  then show ?case by (fastforce split: if_splits)
qed

lemma parseCsv_start:
  assumes "content = line @ NL # rest" "NL \<notin> set line" "rest \<noteq> []" "last rest = NL" "length content \<le> MAX_CSV_CONTENT_SIZE"
  shows "parseCsv_string content required t =
    Some (and_then (parse_header line required (getRow 0 (tm_clear t)))
      (record_lines (Suc (length (filter (\<lambda>c. c = NL) rest))) 1 0 rest))"
proof -
  have l: "last_real content (length content - 1) NUL = Some NL"
    using assms(1,3,4) last_real_found [of content "length content - 1"] by (simp add: last_conv_nth [symmetric] nth_append) (auto simp: last_conv_nth nth_append)
  have f: "filter (\<lambda>c. c = NL) line = []" using assms(2) by (auto simp: filter_empty_conv)
  have "filter (\<lambda>c. c = NL) rest \<noteq> []" using assms(3,4) last_in_set [of rest] by (auto simp: filter_empty_conv)
  then show ?thesis
    using assms l f by (simp add: parseCsv_string_def parseCsv_def csv_lineCount_def Let_def get_until_append)
qed
subsection \<open>Properties\<close>

text \<open>The text of a file of lines.\<close>

definition csv_file :: "string list list \<Rightarrow> string" where
  "csv_file rows = concat (map (\<lambda>xs. csv_line xs @ newline) rows)"

lemma csv_file_Cons: "csv_file (xs # rows) = csv_line xs @ NL # csv_file rows"
  by (simp add: csv_file_def newline_def)

lemma csv_file_last: "rows \<noteq> [] \<Longrightarrow> csv_file rows \<noteq> [] \<and> last (csv_file rows) = NL"
proof (induction rows)
  case (Cons xs rows)
  then show ?case by (cases "rows = []") (simp_all add: csv_file_Cons csv_file_def newline_def)
qed simp

lemma csv_file_NL:
  "\<forall>xs \<in> set rows. NL \<notin> set (csv_line xs) \<Longrightarrow> length (filter (\<lambda>c. c = NL) (csv_file rows)) = length rows"
proof (induction rows)
  case (Cons xs rows)
  then have "filter (\<lambda>c. c = NL) (csv_line xs) = []" by (auto simp: filter_empty_conv)
  then show ?case using Cons by (simp add: csv_file_Cons)
qed (simp add: csv_file_def)

lemma record_lines_step:
  assumes "NL \<notin> set line" "i < n"
  shows "record_lines n i k (line @ NL # rest) t =
    and_then (record_line i k line t) (\<lambda>(k, t). record_lines n (i + 1) k rest t)"
  using assms by (subst record_lines.simps) (simp add: get_until_append)

lemma record_lines_end: "record_lines n i k [] t = Inr t"
  by (subst record_lines.simps) simp

text \<open>
  Property C39. A CSV file with a header and one record as long as the header is parsed into a table with the
  header in row 0 and the record in row 1, and printing the table gives the file back.
\<close>

theorem one_record_round_trip:
  assumes "tokens_ok hs" "distinct hs" "set required \<subseteq> set hs" "tokens_ok xs" "length xs = length hs"
    "length (csv_file [hs, xs]) \<le> MAX_CSV_CONTENT_SIZE"
  shows "\<exists>t'. parseCsv_string (csv_file [hs, xs]) required t = Some (Inr t') \<and> map fst (tm_rows t') = [0, 1] \<and>
    (\<forall>i < length hs. cell_const (0, i) t' = Cell_Text (hs ! i) \<and> cell_const (1, i) t' = Cell_Text (xs ! i)) \<and>
    print_table t' @ newline = csv_file [hs, xs]"
proof -
  let ?f = "(\<lambda>_ _. Cell_Empty)(0 := (\<lambda>n. if n \<in> set hs then Cell_Text n else Cell_Empty))"
  let ?g = "write_cells 1 (zip hs (map Cell_Text xs)) ?f"
  have nl: "NL \<notin> set (csv_line hs)" "NL \<notin> set (csv_line xs)" using assms(1,4) by (simp_all add: tokens_ok_no_NL)
  obtain t1 where t1: "parse_header (csv_line hs) required (getRow 0 (tm_clear t)) = Inr t1" "tm_rows t1 = [(0, ())]"
    "holds_table t1 hs ?f" using parse_header_holds [OF assms(1-3)] by blast
  obtain t' where t': "record_line 1 0 (csv_line xs) t1 = Inr (length xs, t')" "tm_rows t' = tm_rows (getRow 1 t1)"
    "holds_table t' hs ?g" using record_line_holds [OF assms(4) t1(3), of 0 1] assms(5) by auto
  have rows: "map fst (tm_rows t') = [0, 1]" using t'(2) t1(2) by (simp add: getRow_def map_emplace_def map_find_def)
  have run: "parseCsv_string (csv_file [hs, xs]) required t = Some (Inr t')"
    using parseCsv_start [of "csv_file [hs, xs]" "csv_line hs" "csv_file [xs]" required t] assms(6) nl t1(1) t'(1)
      csv_file_last [of "[xs]"] csv_file_NL [of "[xs]"]
    by (simp add: csv_file_Cons record_lines_step) (simp add: csv_file_def record_lines_end)
  have cell: "?f 0 (hs ! i) = Cell_Text (hs ! i)" "?g 0 (hs ! i) = Cell_Text (hs ! i)" "?g 1 (hs ! i) = Cell_Text (xs ! i)"
    if "i < length hs" for i
  proof -
    have "map_of (rev (zip hs (map Cell_Text xs))) = map_of (zip hs (map Cell_Text xs))"
      using assms(2,5) by (subst map_of_inject_set) (simp_all add: rev_map [symmetric] del: rev_map)
    moreover have "map_of (zip hs (map Cell_Text xs)) (hs ! i) = Some (map Cell_Text xs ! i)"
      using assms(2,5) that by (intro map_of_zip_nth) simp_all
    ultimately show "?f 0 (hs ! i) = Cell_Text (hs ! i)" "?g 0 (hs ! i) = Cell_Text (hs ! i)" "?g 1 (hs ! i) = Cell_Text (xs ! i)"
      using that assms(5) by (simp_all add: write_cells_def)
  qed
  have "map (\<lambda>n. cell_text (?g 0 n)) hs = hs" "map (\<lambda>n. cell_text (?g 1 n)) hs = xs"
    using cell assms(5) by (auto intro: nth_equalityI)
  then have "print_table t' @ newline = csv_file [hs, xs]"
    unfolding print_table_def rows using print_row_holds [OF t'(3), of 0] print_row_holds [OF t'(3), of 1]
    by (simp add: csv_file_def csv_line_def newline_def)
  then show ?thesis using run rows cell holds_tableD(8) [OF t'(3)] by auto
qed

text \<open>
  Property C40. The index of the token is not reset at the end of a line: a file whose first record is as long as
  its header is refused when a second record follows.
\<close>

theorem second_record_refused:
  assumes "tokens_ok hs" "distinct hs" "set required \<subseteq> set hs" "tokens_ok xs" "length xs = length hs"
    "tokens_ok ys" "length (csv_file (hs # xs # ys # rows)) \<le> MAX_CSV_CONTENT_SIZE"
  shows "parseCsv_string (csv_file (hs # xs # ys # rows)) required t =
    Some (Inl (Octf_Exception ''Records without header found during CSV parsing.''))"
proof -
  let ?f = "(\<lambda>_ _. Cell_Empty)(0 := (\<lambda>n. if n \<in> set hs then Cell_Text n else Cell_Empty))"
  let ?rest = "csv_file (xs # ys # rows)"
  have nl: "NL \<notin> set (csv_line hs)" "NL \<notin> set (csv_line xs)" "NL \<notin> set (csv_line ys)"
    using assms(1,4,6) by (simp_all add: tokens_ok_no_NL)
  obtain t1 where t1: "parse_header (csv_line hs) required (getRow 0 (tm_clear t)) = Inr t1" "holds_table t1 hs ?f"
    using parse_header_holds [OF assms(1-3)] by blast
  obtain t2 where t2: "record_line 1 0 (csv_line xs) t1 = Inr (length xs, t2)"
    "holds_table t2 hs (write_cells 1 (zip hs (map Cell_Text xs)) ?f)"
    using record_line_holds [OF assms(4) t1(2), of 0 1] assms(5) by auto
  have "record_line 2 (length xs) (csv_line ys) t2 = Inl (Octf_Exception ''Records without header found during CSV parsing.'')"
    using getColumnCount_holds [OF t2(2)] assms(5,6) by (intro record_line_too_far csv_line_not_Nil) simp_all
  moreover have "2 \<le> length (filter (\<lambda>c. c = NL) ?rest)" by (simp add: csv_file_Cons)
  ultimately show ?thesis
    using parseCsv_start [of "csv_file (hs # xs # ys # rows)" "csv_line hs" ?rest required t] assms(7) nl t1(1) t2(1)
      csv_file_last [of "xs # ys # rows"]
    by (simp add: csv_file_Cons record_lines_step numeral_2_eq_2)
qed

text \<open>Content that ends with a zero, as the comment in the code expects it, is searched for ever.\<close>

lemma zero_terminated_never_ends:
  assumes "2 \<le> length content" "last content = NUL"
  shows "parseCsv_string content required t = None"
proof -
  have "content ! (length content - 1) = NUL" using assms by (metis last_conv_nth list.size(3) not_numeral_le_zero)
  then have "last_real content (length content - 1) NUL = None"
    using last_real_never [of content "length content - 1" NUL] assms(1) by fastforce
  then show ?thesis using assms(1) by (auto simp: parseCsv_string_def parseCsv_def Let_def)
qed

subsection \<open>Witnesses\<close>

lemma sample_tokens: "tokens_ok [''lba'', ''len'']" "tokens_ok [''8'', ''16'']" "csv_file [[''lba'', ''len''], [''8'', ''16'']] = ''lba,len'' @ newline @ ''8,16'' @ newline"
  by (simp_all add: tokens_ok_def token_ok_def csv_file_def csv_line_def)

lemma one_record_round_trip_witness:
  "\<exists>t'. parseCsv_string (''lba,len'' @ newline @ ''8,16'' @ newline) [''len''] TableMap = Some (Inr t') \<and>
     cell_const (1, 1) t' = Cell_Text ''16''"
proof -
  have len: "length (csv_file [[''lba'', ''len''], [''8'', ''16'']]) \<le> MAX_CSV_CONTENT_SIZE"
    by (simp add: sample_tokens newline_def MAX_CSV_CONTENT_SIZE_def)
  obtain t' where t': "parseCsv_string (csv_file [[''lba'', ''len''], [''8'', ''16'']]) [''len''] TableMap = Some (Inr t')"
    "\<forall>i < length [''lba'', ''len'']. cell_const (1, i) t' = Cell_Text ([''8'', ''16''] ! i)"
    using one_record_round_trip [OF sample_tokens(1) _ _ sample_tokens(2) _ len, of "[''len'']" TableMap] by auto
  have "cell_const (1, 1) t' = Cell_Text ''16''" using t'(2) by simp
  then show ?thesis using t'(1) unfolding sample_tokens(3) by blast
qed

lemma second_record_refused_witness:
  "\<exists>e. parseCsv_string (csv_file [[''lba'', ''len''], [''8'', ''16''], [''24'', ''8'']]) [] TableMap = Some (Inl e)"
proof -
  have y: "tokens_ok [''24'', ''8'']" by (simp add: tokens_ok_def token_ok_def)
  have len: "length (csv_file ([''lba'', ''len''] # [''8'', ''16''] # [''24'', ''8''] # [])) \<le> MAX_CSV_CONTENT_SIZE"
    by (simp add: csv_file_def csv_line_def newline_def MAX_CSV_CONTENT_SIZE_def)
  from second_record_refused [OF sample_tokens(1) _ _ sample_tokens(2) _ y len, of "[]" TableMap] show ?thesis by simp
qed
subsection \<open>Commas that are not checked\<close>

text \<open>
  A comma at the end of a full record empties its last cell. An empty name passes in the header unless it is the
  last one (\<open>tokens_ok\<close>).
\<close>

lemma trailing_comma_empties_last:
  assumes "holds_table t [a, b] f"
  shows "\<exists>t'. record_line 1 0 ''1,2,'' t = Inr (2, t') \<and> cell_const (1, 0) t' = Cell_Text ''1'' \<and>
    cell_const (1, 1) t' = Cell_Text ''''"
proof -
  define t1 where "t1 = cell_assign (1, 0) (Cell_Text ''1'') (getRow 1 t)"
  define t2 where "t2 = cell_assign (1, 1) (Cell_Text ''2'') (getRow 1 t1)"
  define t3 where "t3 = cell_assign (1, 1) (Cell_Text '''') (getRow 1 t2)"
  have ab: "a \<noteq> b" using holds_table_distinct [OF assms] by simp
  have h1: "holds_table t1 [a, b] (f(1 := (f 1)(a := Cell_Text ''1'')))"
    using cell_assign_holds(1) [OF getRow_holds [OF assms], of 0] by (simp add: t1_def)
  obtain g where g: "holds_table t2 [a, b] g" "g 1 a = Cell_Text ''1''"
    using cell_assign_holds(1) [OF getRow_holds [OF h1], of 1 1 "Cell_Text ''2''" 1] ab unfolding t2_def [symmetric] by force
  obtain g' where g': "holds_table t3 [a, b] g'" "g' 1 a = Cell_Text ''1''" "g' 1 b = Cell_Text ''''"
    using cell_assign_holds(1) [OF getRow_holds [OF g(1)], of 1 1 "Cell_Text ''''" 1] ab g(2) unfolding t3_def [symmetric] by force
  have n: "getColumnCount t = 2" "getColumnCount t1 = 2" "getColumnCount t2 = 2"
    using getColumnCount_holds [OF assms] getColumnCount_holds [OF h1] getColumnCount_holds [OF g(1)] by simp_all
  have "record_line 1 0 ''1,2,'' t = record_line 1 1 ''2,'' t1"
    using n(1) by (subst record_line.simps) (simp add: get_until_def t1_def)
  also have "\<dots> = record_line 1 2 [] t2"
    using n(2) by (subst record_line.simps) (simp add: get_until_def t2_def numeral_2_eq_2)
  also have "\<dots> = Inr (2, t3)" using n(3) by (subst record_line.simps) (simp add: t3_def)
  finally show ?thesis
    using holds_tableD(8) [OF g'(1), of 0 1] holds_tableD(8) [OF g'(1), of 1 1] g'(2,3) by auto
qed

end
