(* ===== verification/Spec2Isabelle.thy ===== *)
theory Spec2Isabelle
  imports
    Octf_Prelude Std_Map
    Workset Workset_Devices Distribution
    Trace_Messages Io_Statistics Io_Statistics_Set
    File_System_Viewer Filesystem_Statistics Parsed_Io_V2 File_Table Parsed_Io_V0 Parsed_Io_V1
    Parsed_Io
    Fifo Trace_Ring Varint Trace_Converter Trace_Serializer Trace_Reader Trace_Parser Trace_Job
    Packetizer Lru_Extension Trace_Event_Queue
    Json_File Trace_Manager Trace_Extension Trace_Extension_Set File_Operations
    Cli_Keys Cli_Params Cli_Command Cli_Executor
    Table_Map Table_Message Csv_Printer Csv_Parser
begin

text \<open>
  The framework traces block I/O. A traced system pushes events into ring buffers in shared
  memory, one for each queue. The job of a queue takes the events from its ring, converts them
  into protobuf messages and writes these to the trace file of the queue. Later a parser merges
  the files of a trace, and handlers compute from the merged events parsed events, statistics,
  histograms, worksets and the lines a cache would hold. Results can be kept as extensions of the
  trace. Clients talk to the framework in packets over a socket. The development models this path
  from the ring to the statistics, the packets, the extensions and the management of a trace.

  \<^bold>\<open>Theories.\<close> Paths are below source/octf. The definitions keep the names of the code.

  \<^item> \<open>Octf_Prelude\<close>: machine integers, faults, words without wrap-around, little-endian bytes.
  \<^item> \<open>Std_Map\<close>: \<open>std::map\<close> as a sorted list, and the locale \<open>keyed_store\<close> of what its clients
    rely on, interpreted on it.
  \<^item> \<open>Fifo\<close>: the locale of a queue with any interleaving of its two sides, interpreted on the ring
    and on the queue between the parser and its consumer.
  \<^item> \<open>Trace_Ring\<close>: trace/trace.c. The state is the shared memory, both headers and the bytes of
    the ring; each function is one step. \<open>ring_put\<close> and \<open>ring_get\<close> interpret \<open>fifo\<close>.
  \<^item> \<open>Trace_Converter\<close>: interface/TraceConverter.cpp over the packed structures of
    trace/iotrace_event.h, and the bytes of those structures.
  \<^item> \<open>Varint\<close>: the two functions for variable-length integers of utils/ProtoConverter.cpp.
  \<^item> \<open>Trace_Serializer\<close>: interface/internal/FileTraceSerializer.cpp, the mapped window over the
    trace file. \<open>ser_ok\<close> is its invariant, \<open>ser_data\<close> the data written so far.
  \<^item> \<open>Trace_Job\<close>: interface/internal/TraceJob.cpp, which drains a ring into a serializer.
  \<^item> \<open>Trace_Reader\<close>: trace/parser/TraceFileReader.cpp, the framed messages of one file.
  \<^item> \<open>Trace_Parser\<close>: trace/parser/TraceFileParser.cpp, the merge of the files, and the loop of
    trace/parser/TraceEventHandler.h.
  \<^item> \<open>Trace_Messages\<close>: the messages of proto/trace.proto and proto/parsedTrace.proto and the
    identifiers of fs/FileId.h with their order.
  \<^item> \<open>File_System_Viewer\<close>: the viewer of version 2 of the parsed handler: names, directories and
    paths of files, and the tree handler with its cache.
  \<^item> \<open>Parsed_Io_V2\<close>: trace/parser/v2/ParsedIoTraceEventHandler.cpp: the queue of parsed events,
    the completions and what is flushed to the consumer.
  \<^item> \<open>File_Table\<close>, \<open>Parsed_Io_V0\<close>: trace/parser/v0/ParsedIoTraceEventHandler.cpp, where completions are
    matched by device, address and length.
  \<^item> \<open>Parsed_Io_V1\<close>: trace/parser/v1/ParsedIoTraceEventHandler.cpp, which keeps the queue of version 2
    and the files of version 0.
  \<^item> \<open>Parsed_Io\<close>: trace/parser/ParsedIoTraceEventHandler.cpp, the handler for the version of a trace,
    and trace/parser/TraceEventHandlerDevicesList.cpp.
  \<^item> \<open>Io_Statistics\<close>, \<open>Io_Statistics_Set\<close>, \<open>Filesystem_Statistics\<close>, \<open>Distribution\<close>, \<open>Workset\<close>,
    \<open>Workset_Devices\<close>: the classes of analytics/statistics with the same names. The locale
    \<open>range_tracker\<close> is the contract by which a workset follows the covered addresses.
  \<^item> \<open>Packetizer\<close>: socket/internal/Packetizer.cpp over socket/internal/unixsocket/Connection.cpp.
  \<^item> \<open>Lru_Extension\<close>: trace/parser/extensions/LRUExtensionBuilder.cpp with its list of lines,
    whose nodes belong to a map: an eviction reads the node it has freed, which is a fault of the model.
  \<^item> \<open>Trace_Event_Queue\<close>: trace/parser/ParsedIoTraceEventQueue.cpp, the bounded queue between the
    thread of the parser and its caller: a step relation in which a waiting caller sleeps until the
    condition variable or the semaphore is notified, its invariant and where it blocks.
  \<^item> \<open>Json_File\<close>: utils/ProtobufReaderWriter.cpp, messages in files that may be read-only.
  \<^item> \<open>Trace_Manager\<close>: interface/TraceManager.cpp and the summary of the trace it keeps.
  \<^item> \<open>Trace_Extension\<close>, \<open>Trace_Extension_Set\<close>: trace/internal/TraceExtensionLocal.cpp and
    trace/parser/extensions/TraceExtensionSet.cpp.
  \<^item> \<open>File_Operations\<close>: utils/FileOperations.cpp on a tree of files and directories; a path is walked
    name by name, with \<open>.\<close> and \<open>..\<close>, the way the system does it.
  \<^item> \<open>Cli_Keys\<close>, \<open>Cli_Params\<close>, \<open>Cli_Command\<close>, \<open>Cli_Executor\<close>: the command line below cli: keys and
    elements, parameters and what they write into a message, commands and sets of commands, and
    the executor that finds a command and runs it (\<open>executor_ok\<close> is its invariant). \<open>sent\<close> is what
    the field of a message holds, told from its description and the texts of the command line alone.
    A run is its output and the calls it made, and then its exit code or its exception.
  \<^item> \<open>Table_Map\<close>, \<open>Table_Message\<close>: the tables below utils/table and the messages written into their
    rows. \<open>holds_table\<close> relates the maps of the code to names of columns and cells under them.
  \<^item> \<open>Csv_Printer\<close>, \<open>Csv_Parser\<close>: the printers trace/parser/ParsedIoTraceEventHandlerPrinter.cpp and
    trace/parser/TraceEventHandlerCsvPrinter.h, and utils/CsvParser.cpp, which reads what they print.
  \<^item> this theory: the composition from the traced bytes to the handler.

  \<^bold>\<open>Faults.\<close> An operation that can fail returns \<open>fault + 'a\<close>; undefined behaviour of C++ is a
  fault of its own, so that a theorem about a result also says that none occurs on the way.

  \<^bold>\<open>What the lemmas show.\<close> Each theory defines the invariant of its state and proves that every
  operation keeps it, then what the operations do in terms of an abstraction: the queue in the
  ring (\<open>holds\<close>), the data of the file (\<open>ser_data\<close>), the pending queues of the parser
  (\<open>holds_queues\<close>), the cells of a table (\<open>holds_table\<close>), the covered addresses (\<open>cover\<close>), the history of counted events. The
  properties, each in a block that names it, are stated over the definitions of the code. Some
  of them show what the code does against its intention: an oversized push invalidates the
  ring, equal sequence numbers lose an event or stall the merge, an unknown file event repeats the last type.

  \<^bold>\<open>Termination.\<close> The loops of the code are total functions with a measure where the code always
  ends: the merge (bytes and events left), the packet loops (bytes left), the varints. They are
  partial functions to \<open>option\<close>, where \<open>None\<close> is no return, where the data decides: paths over a
  cyclic tree, the level of a bucket, the draining of a ring, the removal of a directory; their
  return is then a property or part of one; the search for the end of a CSV text is one that may
  never return. The loops of \<open>flushEvents\<close> count
  their rounds, at most as many as there are events in the queue; nothing else has fuel.

  \<^bold>\<open>Parameters.\<close> The protobuf functions \<open>ByteSizeLong\<close>, \<open>SerializeToArray\<close> and \<open>ParseFromArray\<close>;
  \<open>memcpy_s\<close>; the answers of the operating system (records \<open>os\<close>, \<open>trace_file\<close> and the schedules
  of a \<open>connection\<close>); the rounding of double arithmetic. Hypotheses about them are what they
  document: a message parses back from its bytes, a copy puts the source at the front, calls
  succeed. File sizes are below \<open>2 ^ 60\<close> and pages below \<open>2 ^ 31\<close> bytes, which keeps the 64-bit
  offsets from wrapping. For the command line: the descriptions of fields, the sockets that are found
  and the answers of modules and methods (record \<open>outside\<close>).

  \<^bold>\<open>Not modelled.\<close> Interleavings inside one operation on the ring, and producers that run between
  the steps of the draining loop. Copies of tables. Parameters of type double. Socket management, RPC, nodes and plugins,
  logging, signals and resource limits are calls of the operating system or of libraries, threads
  or generated code.
\<close>

section \<open>From the traced events to their handler\<close>

text \<open>
  The parts of a trace composed: for every queue the producer puts the bytes of its events into
  the ring, the job converts and writes them to a file, and the parser of the finished trace
  merges the files for a handler. Only the functions of protobuf are parameters.
\<close>

type_synonym traced = "u64 \<times> u64 \<times> iotrace_event"

definition traced_bytes :: "traced \<Rightarrow> u8 list" where
  "traced_bytes x = (case x of (sid, ts, e) \<Rightarrow> event_bytes sid ts e)"

text \<open>The event is well-formed and of a kind that converts.\<close>

definition traced_ok :: "traced \<Rightarrow> bool" where
  "traced_ok x \<longleftrightarrow> (case x of (_, _, e) \<Rightarrow> event_ok e \<and> event_message e \<noteq> None)"

definition traced_message :: "traced \<Rightarrow> trace_event" where
  "traced_message x = (case x of (sid, ts, e) \<Rightarrow>
     \<lparr>te_header = \<lparr>eh_sid = sid, eh_timestamp = ts\<rparr>, te_event = the (event_message e)\<rparr>)"

definition event_sid :: "trace_event \<Rightarrow> u64" where
  "event_sid m = eh_sid (te_header m)"

lemma compareEvents_sid: "compareEvents = (\<lambda>a b. event_sid a < event_sid b)"
  by (intro ext) (simp add: compareEvents_def event_sid_def)

definition trace_env ::
    "(trace_event \<Rightarrow> u64) \<Rightarrow> (trace_event \<Rightarrow> u8 list option) \<Rightarrow> (u8 list \<Rightarrow> u8 list \<Rightarrow> u8 list) \<Rightarrow> os \<Rightarrow>
     (trace_event, fs_event_type) job_env" where
  "trace_env B S memcpy_s os =
     \<lparr>je_convert = Some convertTrace, je_ByteSizeLong = B, je_SerializeToArray = S,
      je_memcpy_s = memcpy_s, je_os = os\<rparr>"

definition recorded_file :: "fs_event_type job \<Rightarrow> trace_file" where
  "recorded_file j = \<lparr>tf_bytes = Some (s_file (jb_serializer j)), tf_stat = True, tf_mmap = True\<rparr>"

text \<open>What protobuf documents: a message parses back from the bytes it serialised to.\<close>

definition parses_back ::
    "(trace_event \<Rightarrow> u64) \<Rightarrow> (trace_event \<Rightarrow> u8 list option) \<Rightarrow> (u8 list \<Rightarrow> trace_event option) \<Rightarrow> nat \<Rightarrow>
     trace_event \<Rightarrow> bool" where
  "parses_back B S parse limit m \<longleftrightarrow>
     (\<exists>bs. serializes B S m bs \<and> parse bs = Some m \<and> length bs \<le> limit)"

lemma event_size_bytes:
  "event_ok e \<Longrightarrow> length (event_bytes sid ts e) = event_size e"
  by (cases e) (simp_all add: event_bytes_def sizes length_put_string name_ok_def)

lemma traced_records:
  assumes "traced_ok x" "serializes B S (traced_message x) bs"
  shows "records (trace_env B S memcpy_s os) (traced_bytes x) (traced_message x, bs)"
proof -
  obtain sid ts e where x: "x = (sid, ts, e)" by (metis prod_cases3)
  have ok: "event_ok e" "event_message e \<noteq> None" using assms(1) x by (simp_all add: traced_ok_def)
  have "snd (convertTrace (traced_bytes x) (of_nat (length (traced_bytes x))) c) = Inr (Some (traced_message x))" for c
    using convert_reads_back [OF ok(1), of sid ts c] ok event_size_bytes [OF ok(1)] x
    by (auto simp: traced_bytes_def traced_message_def)
  then show ?thesis
    using assms(2) by (auto simp: records_def trace_env_def) (metis prod.collapse)
qed

lemma insort_map: "insort_key f (g x) (map g xs) = map g (insort_key (\<lambda>y. f (g y)) x xs)"
  by (induction xs) simp_all

lemma sort_key_map: "sort_key f (map g xs) = map g (sort_key (\<lambda>y. f (g y)) xs)"
  by (induction xs) (simp_all add: insort_map)

lemma map_over_snd: "length xs = length ys \<Longrightarrow> map (\<lambda>p. f (snd p)) (zip xs ys) = map f ys"
  by (induction xs ys rule: list_induct2) simp_all

lemma serialized_list:
  assumes "\<forall>x \<in> set xs. parses_back B S parse limit (traced_message x)"
  shows "\<exists>bss. list_all2 (\<lambda>x bs. serializes B S (traced_message x) bs \<and> parse bs = Some (traced_message x)) xs bss \<and>
    sum_list (map (\<lambda>bs. length bs + 5) bss) \<le> length xs * (limit + 5)"
  using assms
proof (induction xs)
  case (Cons x xs)
  then obtain bss where bss:
    "list_all2 (\<lambda>x bs. serializes B S (traced_message x) bs \<and> parse bs = Some (traced_message x)) xs bss"
    "sum_list (map (\<lambda>bs. length bs + 5) bss) \<le> length xs * (limit + 5)" by auto
  obtain bs where "serializes B S (traced_message x) bs" "parse bs = Some (traced_message x)" "length bs \<le> limit"
    using Cons.prems by (auto simp: parses_back_def)
  with bss show ?case by (intro exI [of _ "bs # bss"]) simp
qed simp

text \<open>One queue, from the ring to its file.\<close>

definition queue_recorded ::
    "os \<Rightarrow> nat \<Rightarrow> u32 \<Rightarrow> bool \<Rightarrow> shared \<Rightarrow> u8 list \<Rightarrow> trace_handle \<Rightarrow> fs_event_type job \<Rightarrow>
     ((shared \<Rightarrow> shared) \<times> bool) list \<Rightarrow> traced list \<Rightarrow> bool" where
  "queue_recorded os limit sz hdr s old t j waits xs \<longleftrightarrow>
     TraceJob os sz hdr s old UnknownFsEventType = Inr (t, j) \<and> ready_data t s [] \<and>
     (\<exists>batches. feeds t waits batches \<and> concat batches = map traced_bytes xs) \<and>
     room os (length xs * (limit + 5))"

lemma recorded_queue:
  assumes "queue_recorded os limit sz hdr s old t j waits xs" "os_good os"
    "\<forall>x \<in> set xs. traced_ok x \<and> parses_back B S parse limit (traced_message x)"
  shows "\<exists>s' j'. doWork (trace_env B S memcpy_s os) t waits s j = Some (s', j') \<and> jb_state j' = COMPLETE \<and>
    readable parse (recorded_file j') (map traced_message xs)"
proof -
  let ?env = "trace_env B S memcpy_s os"
  have env: "je_os ?env = os" by (simp add: trace_env_def)
  obtain batches where Q: "TraceJob os sz hdr s old UnknownFsEventType = Inr (t, j)" "ready_data t s []"
      "feeds t waits batches" "concat batches = map traced_bytes xs" "room os (length xs * (limit + 5))"
    using assms(1) by (auto simp: queue_recorded_def)
  obtain bss where bss:
    "list_all2 (\<lambda>x bs. serializes B S (traced_message x) bs \<and> parse bs = Some (traced_message x)) xs bss"
    "sum_list (map (\<lambda>bs. length bs + 5) bss) \<le> length xs * (limit + 5)"
    using serialized_list [of xs B S parse limit] assms(3) by blast
  let ?mbs = "zip (map traced_message xs) bss"
  have len: "length bss = length xs" using list_all2_lengthD [OF bss(1)] by simp
  have rec: "list_all2 (records ?env) (concat batches) ?mbs"
    unfolding Q(4) using bss(1) assms(3) len traced_records
    by (auto simp: list_all2_conv_all_nth)
  note nj = new_job [OF assms(2) Q(1)]
  have "file_room ?env j ?mbs"
    unfolding file_room_def env
    by (rule room_mono [OF Q(5)]) (use bss(2) nj(5) len in \<open>simp add: map_over_snd [where f = "\<lambda>bs. length bs + 5"]\<close>)
  from work_records [OF Q(3,2) rec this _ nj(1,3)] nj(2) env assms(2)
  obtain s' j' where *: "doWork ?env t waits s j = Some (s', j')" "jb_state j' = COMPLETE"
      "s_file (jb_serializer j') = concat (map (\<lambda>mb. frame (snd mb)) ?mbs)"
    by auto
  have "map (\<lambda>mb. frame (snd mb)) ?mbs = map frame bss"
    using len by (simp add: map_over_snd [where f = frame])
  moreover have "list_all2 (\<lambda>m bs. parse bs = Some m \<and> length bs < 2 ^ 31) (map traced_message xs) bss"
    using bss(1) by (auto simp: list_all2_conv_all_nth serializes_def)
  ultimately have "framed parse (map traced_message xs) (s_file (jb_serializer j'))"
    using *(3) by (auto simp: framed_def)
  with * show ?thesis by (auto simp: readable_def recorded_file_def)
qed

text \<open>
  Property C22. The framework end to end. Every queue's producer puts the bytes of well-formed
  events into the ring while its job waits, with sequence numbers that are distinct over all
  queues and grow in each. Then every job ends in the state \<open>COMPLETE\<close>, the parser of the trace
  of their files initialises, and \<open>processEvents\<close> gives the handler the message of every event of
  every queue, exactly once and in the order of the sequence numbers over all queues.
\<close>

theorem traced_events_reach_the_handler:
  assumes "\<And>i. i < length queues \<Longrightarrow>
      queue_recorded os limit (sz i) (hdr i) (s i) (old i) (t i) (j i) (waits i) (queues ! i)"
    and "os_good os" "queues \<noteq> []"
    and "\<forall>x \<in> set (concat queues). traced_ok x \<and> parses_back B S parse limit (traced_message x)"
    and "distinct (map fst (concat queues))" "\<forall>q \<in> set queues. sorted (map fst q)"
  shows "\<exists>j' p. (\<forall>i < length queues. \<exists>s'. doWork (trace_env B S memcpy_s os) (t i) (waits i) (s i) (j i) =
        Some (s', j' i) \<and> jb_state (j' i) = COMPLETE) \<and>
    parser_init parse compareEvents (Some \<lparr>sum_state = COMPLETE, sum_queueCount = int (length queues)\<rparr>)
      (\<lambda>i. recorded_file (j' i)) TraceFileParser = (p, Inr ()) \<and>
    snd (handler_processEvents parse compareEvents (\<lambda>_. False) handle 0 p st) =
      handle_each handle (map traced_message (sort_key fst (concat queues))) st"
proof -
  let ?qs = "map (map traced_message) queues"
  have sid: "event_sid (traced_message x) = fst x" for x
    by (cases x) (simp add: event_sid_def traced_message_def)
  have "\<exists>s' j'. doWork (trace_env B S memcpy_s os) (t i) (waits i) (s i) (j i) = Some (s', j') \<and>
      jb_state j' = COMPLETE \<and> readable parse (recorded_file j') (map traced_message (queues ! i))"
    if "i < length queues" for i
  proof (rule recorded_queue [OF assms(1) [OF that] assms(2)])
    show "\<forall>x \<in> set (queues ! i). traced_ok x \<and> parses_back B S parse limit (traced_message x)"
      using assms(4) nth_mem [OF that] by auto
  qed
  then obtain j' where j': "\<forall>i < length queues. \<exists>s'. doWork (trace_env B S memcpy_s os) (t i) (waits i) (s i) (j i) =
        Some (s', j' i) \<and> jb_state (j' i) = COMPLETE \<and>
        readable parse (recorded_file (j' i)) (map traced_message (queues ! i))"
    by metis
  have "\<exists>p. parser_init parse (\<lambda>a b. event_sid a < event_sid b)
        (Some \<lparr>sum_state = COMPLETE, sum_queueCount = int (length ?qs)\<rparr>) (\<lambda>i. recorded_file (j' i)) TraceFileParser =
        (p, Inr ()) \<and>
      snd (handler_processEvents parse (\<lambda>a b. event_sid a < event_sid b) (\<lambda>_. False) handle 0 p st) =
        handle_each handle (sort_key event_sid (concat ?qs)) st"
  proof (rule merge_in_order)
    show "readable parse (recorded_file (j' i)) (?qs ! i)" if "i < length ?qs" for i
      using j' that by auto
    have "map event_sid (concat ?qs) = map fst (concat queues)"
      by (simp add: map_concat comp_def sid)
    then show "distinct (map event_sid (concat ?qs))" using assms(5) by simp
    show "\<forall>q \<in> set ?qs. sorted (map event_sid q)"
      using assms(6) by (auto simp: comp_def sid)
  qed (use assms(3) in simp)
  moreover have "sort_key event_sid (concat ?qs) = map traced_message (sort_key fst (concat queues))"
    using sort_key_map [of event_sid traced_message "concat queues"] by (simp add: sid map_concat)
  ultimately show ?thesis unfolding compareEvents_sid using j' by auto
qed

text \<open>Two events on two queues; the second queue's event comes first.\<close>

definition sample_write :: "u64 \<Rightarrow> traced" where
  "sample_write sid = (sid, 9, Ev_Io 1 2048 8 3 5 (CHR ''W'') 0)"

definition sample_bytes :: "trace_event \<Rightarrow> u8 list option" where
  "sample_bytes m = (if m = traced_message (sample_write 1) then Some [1]
     else if m = traced_message (sample_write 2) then Some [2] else None)"

definition sample_parse :: "u8 list \<Rightarrow> trace_event option" where
  "sample_parse bs = (if bs = [1] then Some (traced_message (sample_write 1))
     else if bs = [2] then Some (traced_message (sample_write 2)) else None)"

lemma sample_parses_back:
  assumes "k \<in> {1, 2}"
  shows "traced_ok (sample_write k)" "parses_back (\<lambda>_. 1) sample_bytes sample_parse 1 (traced_message (sample_write k))"
proof -
  have "traced_message (sample_write 2) \<noteq> traced_message (sample_write 1)"
    by (simp add: traced_message_def sample_write_def)
  then have "sample_bytes (traced_message (sample_write k)) = Some [ucast k] \<and>
      sample_parse [ucast k] = Some (traced_message (sample_write k))"
    using assms by (auto simp: sample_bytes_def sample_parse_def)
  then show "parses_back (\<lambda>_. 1) sample_bytes sample_parse 1 (traced_message (sample_write k))"
    by (auto simp: parses_back_def serializes_def intro!: exI [of _ "[ucast k]"])
  show "traced_ok (sample_write k)"
    by (simp add: traced_ok_def sample_write_def)
qed

lemma sample_recorded:
  assumes "k \<in> {1, 2}"
  shows "\<exists>s t j w. queue_recorded sample_os 1 32768 False s [] t j w [sample_write k]"
proof -
  obtain s tp where o: "octf_trace_open 32768 False Producer True undefined = (s, Ok tp)" "rsize tp = 28608"
    using open_sample by blast
  note r = open_ring [OF o(1)]
  obtain t where t: "octf_trace_open 32768 False Consumer True s = (s, Ok t)" "th_mode t = Consumer"
      "rsize t = rsize tp"
    using open_both [OF o(1)] by blast
  obtain j where j: "TraceJob sample_os 32768 False s [] UnknownFsEventType = Inr (t, j)"
    using t(1) by (simp add: TraceJob_def ser_open_def sample_os_def FileTraceSerializer_def)
  have "ready_ring t s []" using holds_size [OF r(1) t(3)] r(2-5) t(2) by (simp add: ready_ring_def)
  then have rd: "ready_data t s []" by (auto simp: ready_data_def)
  have len: "length (traced_bytes (sample_write k)) = 64"
    by (simp add: traced_bytes_def sample_write_def event_size_bytes sizes)
  have "ready_data t (fst (octf_trace_push plain_copy tp (traced_bytes (sample_write k)) 64 s))
      [traced_bytes (sample_write k)]" if "ready_data t s []" for s
    by (rule push_readies [OF that r(3) t(3) [symmetric], where lim = 100])
      (use o(2) t(3) len plain_copy_copies in \<open>simp_all add: fits_def align_def\<close>)
  then have "feeds t [(\<lambda>s. fst (octf_trace_push plain_copy tp (traced_bytes (sample_write k)) 64 s), False)]
      [[traced_bytes (sample_write k)]]"
    by simp
  then have "\<exists>batches. feeds t [(\<lambda>s. fst (octf_trace_push plain_copy tp (traced_bytes (sample_write k)) 64 s), False)] batches \<and>
      concat batches = map traced_bytes [sample_write k]"
    by (intro exI [of _ "[[traced_bytes (sample_write k)]]"]) simp
  then have "queue_recorded sample_os 1 32768 False s [] t j
    [(\<lambda>s. fst (octf_trace_push plain_copy tp (traced_bytes (sample_write k)) 64 s), False)] [sample_write k]"
    using j rd by (simp add: queue_recorded_def room_def sample_os_def)
  then show ?thesis by blast
qed

theorem traced_events_reach_the_handler_witness:
  "\<exists>(files :: nat \<Rightarrow> trace_file) p.
     parser_init sample_parse compareEvents (Some \<lparr>sum_state = COMPLETE, sum_queueCount = 2\<rparr>) files TraceFileParser =
       (p, Inr ()) \<and>
     snd (handler_processEvents sample_parse compareEvents (\<lambda>_. False) (\<lambda>m s. Inr (s @ [m])) 0 p []) =
       Inr [traced_message (sample_write 1), traced_message (sample_write 2)]"
proof -
  let ?queues = "[[sample_write 2], [sample_write 1]]"
  have "\<exists>s t j w. queue_recorded sample_os 1 32768 False s [] t j w (?queues ! i)" if "i < 2" for i
  proof -
    have "i = 0 \<or> i = 1" using that by auto
    then show ?thesis using sample_recorded [of 1] sample_recorded [of 2] by (elim disjE) simp_all
  qed
  then obtain s t j w where q: "\<And>i. i < 2 \<Longrightarrow>
      queue_recorded sample_os 1 32768 False (s i) [] (t i) (j i) (w i) (?queues ! i)"
    by metis
  have ok: "\<forall>x \<in> set (concat ?queues). traced_ok x \<and>
      parses_back (\<lambda>_. 1) sample_bytes sample_parse 1 (traced_message x)"
    using sample_parses_back [of 1] sample_parses_back [of 2] by simp
  have fsts: "fst (sample_write k) = k" for k by (simp add: sample_write_def)
  have osok: "os_good sample_os" by (simp add: os_good_def sample_os_def)
  have srt: "sort_key fst (concat ?queues) = [sample_write 1, sample_write 2]"
    by (simp add: fsts word_le_nat_alt)
  from traced_events_reach_the_handler [of ?queues sample_os 1 "\<lambda>_. 32768" "\<lambda>_. False" s "\<lambda>_. []" t j w
      "\<lambda>_. 1" sample_bytes sample_parse plain_copy "\<lambda>m s. Inr (s @ [m])" "[]"]
  obtain j' p where
    "parser_init sample_parse compareEvents (Some \<lparr>sum_state = COMPLETE, sum_queueCount = int (length ?queues)\<rparr>)
       (\<lambda>i. recorded_file (j' i)) TraceFileParser = (p, Inr ())"
    "snd (handler_processEvents sample_parse compareEvents (\<lambda>_. False) (\<lambda>m s. Inr (s @ [m])) 0 p []) =
       handle_each (\<lambda>m s. Inr (s @ [m])) (map traced_message (sort_key fst (concat ?queues))) []"
    using q ok osok by (auto simp: fsts numeral_2_eq_2)
  then show ?thesis unfolding srt by auto
qed

end
